(* ===== verification/UV_Prelude.thy ===== *)
theory UV_Prelude
  imports Main "HOL-Library.Word"
begin

text \<open>
  Shared vocabulary of the development: the machine integers and addresses the models
  use, the result type of fallible operations, and the generic facts on words and lists
  that several components need.  Facts that unfold primitive C accessors are collected
  in \<^theory_text>\<open>uv_simps\<close>.
\<close>

named_theorems uv_simps \<open>unfolding rules of primitive struct accessors\<close>

section \<open>Machine types\<close>

type_synonym u8 = "8 word"
type_synonym u16 = "16 word"
type_synonym u32 = "32 word"
type_synonym u64 = "64 word"

text \<open>An address of a struct; \<open>None\<close> is the null pointer where a pointer may be null.\<close>

type_synonym addr = nat
type_synonym ptr = "nat option"

section \<open>Generic facts\<close>

lemma unat_add_one_less:
  fixes x :: "'a::len word"
  assumes "unat x < 2 ^ LENGTH('a) - 1"
  shows "unat (x + 1) = Suc (unat x)"
  using assms by (simp add: unat_word_ariths)

lemma unat_sub_one:
  fixes x :: "'a::len word"
  assumes "x \<noteq> 0"
  shows "unat (x - 1) = unat x - 1"
  using assms by (metis One_nat_def Suc_le_eq unat_1 unat_gt_0 unat_sub word_le_nat_alt)

lemma high_bits:
  fixes w :: u32
  assumes "unat w < 2 ^ n" and "bit w i"
  shows "i < n"
proof (rule ccontr)
  assume "\<not> i < n"
  have "take_bit n w = w" using assms(1)
    by (metis take_bit_nat_eq_self unsigned_take_bit_eq word_unat_eq_iff)
  then show False using assms(2) \<open>\<not> i < n\<close> by (metis bit_take_bit_iff)
qed

text \<open>Sums over a list of which one element changes.\<close>

lemma map_sum_update:
  fixes f :: "'a \<Rightarrow> nat"
  shows "i < length xs \<Longrightarrow> sum_list (map f (xs[i := x])) + f (xs ! i) = sum_list (map f xs) + f x"
  by (induction xs arbitrary: i) (auto split: nat.splits)

lemma map_sum_pos:
  fixes f :: "'a \<Rightarrow> nat"
  shows "0 < f x \<Longrightarrow> x \<in> set xs \<Longrightarrow> 0 < sum_list (map f xs)"
  by (induction xs) auto

end
