(* ===== verification/UV_Queue.thy ===== *)
theory UV_Queue
  imports UV_Prelude
begin

text \<open>
  The intrusive circular doubly linked list of src/queue.h.  A queue node is a pair of
  pointers in an explicit store; every operation of the header is a sequence of stores
  in the order of the C statements.  \<open>ring m h xs\<close> says that the store holds a queue
  with head \<open>h\<close> and elements \<open>xs\<close>; each operation is shown to act on the list of
  elements as its name promises and to leave every disjoint queue alone.
\<close>

section \<open>The store and the operations\<close>

record uv__queue =
  q_next :: addr
  q_prev :: addr

type_synonym qmem = "addr \<Rightarrow> uv__queue"

definition set_next :: "addr \<Rightarrow> addr \<Rightarrow> qmem \<Rightarrow> qmem" where
  "set_next p v m = m(p := (m p)\<lparr>q_next := v\<rparr>)"

definition set_prev :: "addr \<Rightarrow> addr \<Rightarrow> qmem \<Rightarrow> qmem" where
  "set_prev p v m = m(p := (m p)\<lparr>q_prev := v\<rparr>)"

definition uv__queue_init :: "addr \<Rightarrow> qmem \<Rightarrow> qmem" where
  "uv__queue_init q m =
     (let m = set_next q q m
      in set_prev q q m)"

definition uv__queue_empty :: "addr \<Rightarrow> qmem \<Rightarrow> bool" where
  "uv__queue_empty q m \<longleftrightarrow> q = q_next (m q)"

definition uv__queue_head :: "addr \<Rightarrow> qmem \<Rightarrow> addr" where
  "uv__queue_head q m = q_next (m q)"

definition uv__queue_next :: "addr \<Rightarrow> qmem \<Rightarrow> addr" where
  "uv__queue_next q m = q_next (m q)"

definition uv__queue_add :: "addr \<Rightarrow> addr \<Rightarrow> qmem \<Rightarrow> qmem" where
  "uv__queue_add h n m =
     (let m = set_next (q_prev (m h)) (q_next (m n)) m;
          m = set_prev (q_next (m n)) (q_prev (m h)) m;
          m = set_prev h (q_prev (m n)) m
      in set_next (q_prev (m h)) h m)"

definition uv__queue_split :: "addr \<Rightarrow> addr \<Rightarrow> addr \<Rightarrow> qmem \<Rightarrow> qmem" where
  "uv__queue_split h q n m =
     (let m = set_prev n (q_prev (m h)) m;
          m = set_next (q_prev (m n)) n m;
          m = set_next n q m;
          m = set_prev h (q_prev (m q)) m;
          m = set_next (q_prev (m h)) h m
      in set_prev q n m)"

definition uv__queue_move :: "addr \<Rightarrow> addr \<Rightarrow> qmem \<Rightarrow> qmem" where
  "uv__queue_move h n m =
     (if uv__queue_empty h m then uv__queue_init n m
      else uv__queue_split h (q_next (m h)) n m)"

definition uv__queue_insert_head :: "addr \<Rightarrow> addr \<Rightarrow> qmem \<Rightarrow> qmem" where
  "uv__queue_insert_head h q m =
     (let m = set_next q (q_next (m h)) m;
          m = set_prev q h m;
          m = set_prev (q_next (m q)) q m
      in set_next h q m)"

definition uv__queue_insert_tail :: "addr \<Rightarrow> addr \<Rightarrow> qmem \<Rightarrow> qmem" where
  "uv__queue_insert_tail h q m =
     (let m = set_next q h m;
          m = set_prev q (q_prev (m h)) m;
          m = set_next (q_prev (m q)) q m
      in set_prev h q m)"

definition uv__queue_remove :: "addr \<Rightarrow> qmem \<Rightarrow> qmem" where
  "uv__queue_remove q m =
     (let m = set_next (q_prev (m q)) (q_next (m q)) m
      in set_prev (q_next (m q)) (q_prev (m q)) m)"

text \<open>The nodes \<open>uv__queue_foreach\<close> visits, in order, with fuel for the number of steps.\<close>

fun foreach_from :: "nat \<Rightarrow> addr \<Rightarrow> addr \<Rightarrow> qmem \<Rightarrow> addr list option" where
  "foreach_from n q h m =
     (if q = h then Some []
      else case n of 0 \<Rightarrow> None
           | Suc n \<Rightarrow> map_option ((#) q) (foreach_from n (q_next (m q)) h m))"

definition uv__queue_foreach :: "nat \<Rightarrow> addr \<Rightarrow> qmem \<Rightarrow> addr list option" where
  "uv__queue_foreach n h m = foreach_from n (q_next (m h)) h m"

lemmas queue_op_defs = uv__queue_init_def uv__queue_empty_def uv__queue_head_def
  uv__queue_next_def uv__queue_add_def uv__queue_split_def uv__queue_insert_head_def
  uv__queue_insert_tail_def uv__queue_remove_def

lemma next_set_next [simp, uv_simps]:
  "q_next (set_next p v m x) = (if x = p then v else q_next (m x))"
  by (simp add: set_next_def)

lemma prev_set_next [simp, uv_simps]: "q_prev (set_next p v m x) = q_prev (m x)"
  by (simp add: set_next_def)

lemma prev_set_prev [simp, uv_simps]:
  "q_prev (set_prev p v m x) = (if x = p then v else q_prev (m x))"
  by (simp add: set_prev_def)

lemma next_set_prev [simp, uv_simps]: "q_next (set_prev p v m x) = q_next (m x)"
  by (simp add: set_prev_def)

lemma set_next_other [simp]: "x \<noteq> p \<Longrightarrow> set_next p v m x = m x"
  by (simp add: set_next_def)

lemma set_prev_other [simp]: "x \<noteq> p \<Longrightarrow> set_prev p v m x = m x"
  by (simp add: set_prev_def)

section \<open>Chains and rings\<close>

text \<open>\<open>seg m a xs b\<close>: from \<open>a\<close> the links lead through \<open>xs\<close> to \<open>b\<close>, in both directions.\<close>

fun seg :: "qmem \<Rightarrow> addr \<Rightarrow> addr list \<Rightarrow> addr \<Rightarrow> bool" where
  "seg m a [] b \<longleftrightarrow> q_next (m a) = b \<and> q_prev (m b) = a"
| "seg m a (x # xs) b \<longleftrightarrow> q_next (m a) = x \<and> q_prev (m x) = a \<and> seg m x xs b"

definition ring :: "qmem \<Rightarrow> addr \<Rightarrow> addr list \<Rightarrow> bool" where
  "ring m h xs \<longleftrightarrow> distinct (h # xs) \<and> seg m h xs h"

lemma seg_append [simp]: "seg m a (xs @ y # ys) b \<longleftrightarrow> seg m a xs y \<and> seg m y ys b"
  by (induction xs arbitrary: a) auto

lemma seg_next: "seg m a xs b \<Longrightarrow> q_next (m a) = hd (xs @ [b])"
  by (cases xs) auto

lemma seg_prev: "seg m a xs b \<Longrightarrow> q_prev (m b) = last (a # xs)"
  by (induction xs arbitrary: a) auto

lemma seg_cong:
  assumes "seg m a xs b"
    and "\<And>x. x \<in> set (a # xs) \<Longrightarrow> q_next (m' x) = q_next (m x)"
    and "\<And>x. x \<in> set (xs @ [b]) \<Longrightarrow> q_prev (m' x) = q_prev (m x)"
  shows "seg m' a xs b"
  using assms by (induction xs arbitrary: a) auto

lemma ring_frame:
  assumes "ring m h xs" and "\<And>x. x \<in> set (h # xs) \<Longrightarrow> m' x = m x"
  shows "ring m' h xs"
  using assms by (auto simp: ring_def intro: seg_cong)

lemma ring_head_notin: "ring m h xs \<Longrightarrow> h \<notin> set xs"
  by (simp add: ring_def)

lemma ring_distinct: "ring m h xs \<Longrightarrow> distinct xs"
  by (simp add: ring_def)

text \<open>A head determines its elements.\<close>

lemma seg_unique:
  "seg m a xs h \<Longrightarrow> seg m a ys h \<Longrightarrow> h \<notin> set xs \<Longrightarrow> h \<notin> set ys \<Longrightarrow> xs = ys"
proof (induction xs arbitrary: a ys)
  case Nil
  then show ?case by (cases ys) auto
next
  case (Cons x xs)
  then show ?case by (cases ys) auto
qed

lemma ring_unique: "ring m h xs \<Longrightarrow> ring m h ys \<Longrightarrow> xs = ys"
  by (auto simp: ring_def intro: seg_unique)

section \<open>What the operations do\<close>

lemma ring_init [simp]: "ring (uv__queue_init q m) q []"
  by (simp add: ring_def uv__queue_init_def)

lemma init_other [simp]: "x \<noteq> q \<Longrightarrow> uv__queue_init q m x = m x"
  by (simp add: uv__queue_init_def)

lemma queue_empty_iff: "ring m h xs \<Longrightarrow> uv__queue_empty h m \<longleftrightarrow> xs = []"
  by (cases xs) (auto simp: ring_def uv__queue_empty_def)

lemma queue_head_eq: "ring m h (x # xs) \<Longrightarrow> uv__queue_head h m = x"
  by (simp add: ring_def uv__queue_head_def)

text \<open>A node outside every queue is either its own empty queue or unconstrained.\<close>

lemma ring_insert_tail:
  assumes "ring m h xs" and "q \<notin> set (h # xs)"
  shows "ring (uv__queue_insert_tail h q m) h (xs @ [q])"
proof (cases xs rule: rev_cases)
  case Nil
  then show ?thesis
    using assms by (auto simp: ring_def uv__queue_insert_tail_def)
next
  case (snoc ys l)
  let ?m = "uv__queue_insert_tail h q m"
  from assms snoc have s: "seg m h ys l" "q_next (m l) = h" "q_prev (m h) = l"
    and d: "distinct (h # ys @ [l, q])"
    by (auto simp: ring_def)
  have "seg ?m h ys l"
    using s(1) by (rule seg_cong) (use d s in \<open>auto simp: uv__queue_insert_tail_def\<close>)
  then show ?thesis
    using s d snoc by (auto simp: ring_def uv__queue_insert_tail_def)
qed

lemma insert_tail_other:
  assumes "ring m h xs" and "x \<notin> set (h # xs)" and "x \<noteq> q" and "q \<notin> set (h # xs)"
  shows "uv__queue_insert_tail h q m x = m x"
proof -
  have "q_prev (m h) \<in> set (h # xs)"
    using assms(1) by (auto simp: ring_def dest!: seg_prev)
  then have "x \<noteq> q_prev (m h)" using assms(2) by blast
  then show ?thesis
    using assms by (simp add: uv__queue_insert_tail_def)
qed

lemma ring_insert_head:
  assumes "ring m h xs" and "q \<notin> set (h # xs)"
  shows "ring (uv__queue_insert_head h q m) h (q # xs)"
proof (cases xs)
  case Nil
  then show ?thesis
    using assms by (auto simp: ring_def uv__queue_insert_head_def)
next
  case (Cons f ys)
  let ?m = "uv__queue_insert_head h q m"
  from assms Cons have s: "seg m f ys h" "q_next (m h) = f" "q_prev (m f) = h"
    and d: "distinct (h # f # ys @ [q])"
    by (auto simp: ring_def)
  have "seg ?m f ys h"
    using s(1) by (rule seg_cong) (use d s in \<open>auto simp: uv__queue_insert_head_def\<close>)
  then show ?thesis
    using s d Cons by (auto simp: ring_def uv__queue_insert_head_def)
qed

lemma insert_head_other:
  assumes "ring m h xs" and "x \<notin> set (h # xs)" and "x \<noteq> q" and "q \<notin> set (h # xs)"
  shows "uv__queue_insert_head h q m x = m x"
proof -
  have "q_next (m h) \<in> set (h # xs)"
    using assms(1) by (cases xs) (auto simp: ring_def)
  then have "x \<noteq> q_next (m h)" using assms(2) by blast
  then show ?thesis
    using assms by (simp add: uv__queue_insert_head_def)
qed

text \<open>Unlinking a node joins its neighbours; the node keeps its own pointers.\<close>

lemma ring_remove:
  assumes "ring m h (xs @ q # ys)"
  shows "ring (uv__queue_remove q m) h (xs @ ys)"
proof -
  let ?m = "uv__queue_remove q m"
  from assms have s: "seg m h xs q" "seg m q ys h" and d: "distinct (h # xs @ q # ys)"
    by (auto simp: ring_def)
  have p: "q_prev (m q) = last (h # xs)" and n: "q_next (m q) = hd (ys @ [h])"
    using s by (auto dest: seg_prev seg_next)
  have m': "?m = set_prev (hd (ys @ [h])) (last (h # xs)) (set_next (last (h # xs)) (hd (ys @ [h])) m)"
    using p n d by (auto simp: uv__queue_remove_def)
  show ?thesis
  proof (cases xs rule: rev_cases)
    case Nil
    then show ?thesis
    proof (cases ys)
      case (Cons f zs)
      have "seg m f zs h" using s Cons by auto
      then have "seg ?m f zs h"
        by (rule seg_cong) (use d Cons Nil m' in auto)
      then show ?thesis using d Cons Nil m' by (auto simp: ring_def)
    qed (use m' d in \<open>auto simp: ring_def\<close>)
  next
    case (snoc ws l)
    have "seg m h ws l" using s snoc by auto
    then have w: "seg ?m h ws l"
      by (rule seg_cong) (use d snoc m' in \<open>cases ys; auto\<close>)+
    show ?thesis
    proof (cases ys)
      case Nil
      then show ?thesis using w d snoc m' by (auto simp: ring_def)
    next
      case (Cons f zs)
      have "seg m f zs h" using s Cons by auto
      then have "seg ?m f zs h"
        by (rule seg_cong) (use d Cons snoc m' in auto)
      then show ?thesis using w d Cons snoc m' by (auto simp: ring_def)
    qed
  qed
qed

lemma remove_other:
  assumes "ring m h (xs @ q # ys)" and "x \<notin> set (h # xs @ ys)"
  shows "uv__queue_remove q m x = m x"
proof -
  from assms(1) have s: "seg m h xs q" "seg m q ys h" and d: "distinct (h # xs @ q # ys)"
    by (auto simp: ring_def)
  have "q_prev (m q) \<in> set (h # xs)" using s(1) by (metis last_in_set list.discI seg_prev)
  moreover have "q_next (m q) \<in> set (ys @ [h])" using s(2)
    by (metis append_is_Nil_conv hd_in_set list.discI seg_next)
  ultimately have "x \<noteq> q_prev (m q)" "x \<noteq> q_next (m q)" "q_prev (m q) \<noteq> q"
    using assms(2) d by auto
  then show ?thesis by (simp add: uv__queue_remove_def)
qed

text \<open>Unlinking a node that is its own empty queue changes nothing that queues observe.\<close>

lemma remove_self:
  assumes "ring m q []"
  shows "uv__queue_remove q m = m"
  using assms by (auto simp: ring_def uv__queue_remove_def set_next_def set_prev_def fun_eq_iff)

text \<open>
  Splitting at \<open>q\<close> gives \<open>n\<close> the elements from \<open>q\<close> on and leaves \<open>h\<close> those before it.
\<close>

lemma ring_split:
  assumes "ring m h (xs @ q # ys)" and "n \<notin> set (h # xs @ q # ys)"
  shows "ring (uv__queue_split h q n m) n (q # ys)"
    and "ring (uv__queue_split h q n m) h xs"
proof -
  let ?m = "uv__queue_split h q n m"
  from assms have s: "seg m h xs q" "seg m q ys h" and d: "distinct (n # h # xs @ q # ys)"
    by (auto simp: ring_def)
  let ?l = "last (q # ys)" and ?k = "last (h # xs)"
  have lp: "q_prev (m h) = ?l" and qp: "q_prev (m q) = ?k"
    using s by (auto dest: seg_prev)
  have l_in: "?l \<in> set (q # ys)" and k_in: "?k \<in> set (h # xs)"
    by (metis last_in_set list.discI)+
  have ne: "?l \<noteq> n" "?l \<noteq> h" "?k \<noteq> n" "?k \<noteq> q" "?l \<noteq> ?k" "q \<noteq> h" "q \<noteq> n" "h \<noteq> n"
    using d l_in k_in by auto
  have m': "?m = set_prev q n (set_next ?k h (set_prev h ?k (set_next n q (set_next ?l n (set_prev n ?l m)))))"
    using lp qp ne by (simp add: uv__queue_split_def)
  have A: "seg ?m q ys n"
  proof (cases ys rule: rev_cases)
    case Nil
    then show ?thesis using m' ne by auto
  next
    case (snoc zs z)
    have "seg m q zs z" using s snoc by auto
    then have "seg ?m q zs z"
      by (rule seg_cong) (use d snoc m' k_in in auto)
    then show ?thesis using m' ne snoc by auto
  qed
  have B: "seg ?m h xs h"
  proof (cases xs rule: rev_cases)
    case Nil
    then show ?thesis using m' ne by auto
  next
    case (snoc zs z)
    have "seg m h zs z" using s snoc by auto
    then have "seg ?m h zs z"
      by (rule seg_cong) (use d snoc m' l_in in auto)
    then show ?thesis using m' ne snoc by auto
  qed
  show "ring ?m n (q # ys)" using A d m' ne by (auto simp: ring_def)
  show "ring ?m h xs" using B d by (auto simp: ring_def)
qed

lemma split_other:
  assumes "ring m h (xs @ q # ys)" and "n \<notin> set (h # xs @ q # ys)"
    and "x \<notin> set (n # h # xs @ q # ys)"
  shows "uv__queue_split h q n m x = m x"
proof -
  from assms have s: "seg m h xs q" "seg m q ys h"
    by (auto simp: ring_def)
  have "q_prev (m h) = last (q # ys)" "q_prev (m q) = last (h # xs)"
    using s by (auto dest: seg_prev)
  moreover have "last (q # ys) \<in> set (q # ys)" "last (h # xs) \<in> set (h # xs)"
    by (metis last_in_set list.discI)+
  ultimately have "x \<noteq> q_prev (m h)" "x \<noteq> q_prev (m q)" "x \<noteq> n" "x \<noteq> h" "x \<noteq> q"
    "q_prev (m h) \<noteq> n" "q \<noteq> n"
    using assms(2,3) by auto
  then show ?thesis by (simp add: uv__queue_split_def)
qed

text \<open>Moving empties \<open>h\<close> into the uninitialised head \<open>n\<close>, in order.\<close>

lemma ring_move:
  assumes "ring m h xs" and "n \<notin> set (h # xs)"
  shows "ring (uv__queue_move h n m) n xs" and "ring (uv__queue_move h n m) h []"
proof -
  have "ring (uv__queue_move h n m) n xs \<and> ring (uv__queue_move h n m) h []"
  proof (cases xs)
    case Nil
    have "ring (uv__queue_init n m) h []"
      using assms Nil by (auto simp: ring_def uv__queue_init_def)
    then show ?thesis
      using Nil queue_empty_iff [OF assms(1)] by (simp add: uv__queue_move_def)
  next
    case (Cons y ys)
    have "q_next (m h) = y" using assms(1) Cons by (simp add: ring_def)
    then show ?thesis
      using Cons queue_empty_iff [OF assms(1)] ring_split [of m h "[]" y ys n] assms
      by (simp add: uv__queue_move_def)
  qed
  then show "ring (uv__queue_move h n m) n xs" and "ring (uv__queue_move h n m) h []"
    by auto
qed

lemma move_other:
  assumes "ring m h xs" and "n \<notin> set (h # xs)" and "x \<notin> set (n # h # xs)"
  shows "uv__queue_move h n m x = m x"
proof (cases xs)
  case Nil
  then show ?thesis
    using queue_empty_iff [OF assms(1)] assms(3) by (simp add: uv__queue_move_def)
next
  case (Cons y ys)
  have "q_next (m h) = y" using assms(1) Cons by (simp add: ring_def)
  then show ?thesis
    using Cons queue_empty_iff [OF assms(1)] split_other [of m h "[]" y ys n x] assms
    by (simp add: uv__queue_move_def)
qed

text \<open>Adding a non-empty queue appends its elements and drops its head.\<close>

lemma ring_add:
  assumes "ring m h xs" and "ring m n ys" and "ys \<noteq> []"
    and disj: "set (h # xs) \<inter> set (n # ys) = {}"
  shows "ring (uv__queue_add h n m) h (xs @ ys)"
proof -
  from assms(3) obtain f gs where f: "ys = f # gs" by (cases ys) auto
  let ?m = "uv__queue_add h n m" and ?k = "last (h # xs)" and ?l = "last (f # gs)"
  from assms f have s: "seg m h xs h" "q_next (m n) = f" "q_prev (m f) = n" "seg m f gs n"
    and d: "distinct (h # xs @ n # f # gs)"
    by (auto simp: ring_def)
  have kp: "q_prev (m h) = ?k" and lp: "q_prev (m n) = ?l"
    using s by (auto dest: seg_prev)
  have k_in: "?k \<in> set (h # xs)" and l_in: "?l \<in> set (f # gs)"
    by (metis last_in_set list.discI)+
  have ne: "?k \<noteq> f" "?l \<noteq> h" "h \<noteq> f" "f \<noteq> n" "h \<noteq> n" "?k \<noteq> ?l" "?k \<noteq> n"
    using d k_in l_in by auto
  have m': "?m = set_next ?l h (set_prev h ?l (set_prev f ?k (set_next ?k f m)))"
    using s(2) kp lp ne by (simp add: uv__queue_add_def)
  have A: "seg ?m h xs f"
  proof (cases xs rule: rev_cases)
    case Nil
    then show ?thesis using m' ne by auto
  next
    case (snoc zs z)
    have "seg m h zs z" using s snoc by auto
    then have "seg ?m h zs z"
      by (rule seg_cong) (use d snoc m' l_in in auto)
    then show ?thesis using m' ne snoc by auto
  qed
  have B: "seg ?m f gs h"
  proof (cases gs rule: rev_cases)
    case Nil
    then show ?thesis using m' ne by auto
  next
    case (snoc zs z)
    have "seg m f zs z" using s snoc by auto
    then have "seg ?m f zs z"
      by (rule seg_cong) (use d snoc m' k_in in auto)
    then show ?thesis using m' ne snoc by auto
  qed
  show ?thesis using A B d f by (auto simp: ring_def)
qed

text \<open>Iteration visits exactly the elements, in order.\<close>

lemma foreach_from_seg:
  "seg m a xs h \<Longrightarrow> h \<notin> set (a # xs) \<Longrightarrow> length xs < n \<Longrightarrow> foreach_from n a h m = Some (a # xs)"
proof (induction n arbitrary: a xs)
  case (Suc n)
  then show ?case
    by (cases xs; cases n) auto
qed simp

lemma foreach_ring:
  assumes "ring m h xs" and "length xs \<le> n"
  shows "uv__queue_foreach n h m = Some xs"
proof (cases xs)
  case Nil
  then show ?thesis using assms by (cases n) (auto simp: ring_def uv__queue_foreach_def)
next
  case (Cons y ys)
  have "foreach_from n y h m = Some (y # ys)"
    by (rule foreach_from_seg) (use assms Cons in \<open>auto simp: ring_def\<close>)
  then show ?thesis using assms Cons by (simp add: ring_def uv__queue_foreach_def)
qed

declare foreach_from.simps [simp del]

section \<open>The queue interface\<close>

text \<open>
  What the other components rely on: a predicate for "the store holds this queue", the
  effect of each operation on the queue it works on, and a frame law for all the others.
\<close>

locale fifo_queue =
  fixes isq :: "'m \<Rightarrow> addr \<Rightarrow> addr list \<Rightarrow> bool"
    and init :: "addr \<Rightarrow> 'm \<Rightarrow> 'm"
    and empty :: "addr \<Rightarrow> 'm \<Rightarrow> bool"
    and head :: "addr \<Rightarrow> 'm \<Rightarrow> addr"
    and ins_tail :: "addr \<Rightarrow> addr \<Rightarrow> 'm \<Rightarrow> 'm"
    and ins_head :: "addr \<Rightarrow> addr \<Rightarrow> 'm \<Rightarrow> 'm"
    and remove :: "addr \<Rightarrow> 'm \<Rightarrow> 'm"
  assumes isq_distinct: "isq m h xs \<Longrightarrow> distinct (h # xs)"
    and isq_init: "isq (init q m) q []"
    and empty_iff: "isq m h xs \<Longrightarrow> empty h m \<longleftrightarrow> xs = []"
    and head_eq: "isq m h (x # xs) \<Longrightarrow> head h m = x"
    and isq_tail: "isq m h xs \<Longrightarrow> q \<notin> set (h # xs) \<Longrightarrow> isq (ins_tail h q m) h (xs @ [q])"
    and isq_head: "isq m h xs \<Longrightarrow> q \<notin> set (h # xs) \<Longrightarrow> isq (ins_head h q m) h (q # xs)"
    and isq_remove: "isq m h (xs @ q # ys) \<Longrightarrow> isq (remove q m) h (xs @ ys)"
    and init_frame: "isq m k zs \<Longrightarrow> q \<notin> set (k # zs) \<Longrightarrow> isq (init q m) k zs"
    and tail_frame: "isq m k zs \<Longrightarrow> isq m h xs \<Longrightarrow> q \<notin> set (h # xs) \<Longrightarrow>
      set (k # zs) \<inter> set (q # h # xs) = {} \<Longrightarrow> isq (ins_tail h q m) k zs"
    and head_frame: "isq m k zs \<Longrightarrow> isq m h xs \<Longrightarrow> q \<notin> set (h # xs) \<Longrightarrow>
      set (k # zs) \<inter> set (q # h # xs) = {} \<Longrightarrow> isq (ins_head h q m) k zs"
    and remove_frame: "isq m k zs \<Longrightarrow> isq m h (xs @ q # ys) \<Longrightarrow>
      set (k # zs) \<inter> set (h # xs @ q # ys) = {} \<Longrightarrow> isq (remove q m) k zs"
begin

text \<open>The first element of one queue re-queued at the tail of another.\<close>

lemma requeue_first:
  assumes a: "isq m a (x # xs)" and b: "isq m b ys" and d: "set (a # x # xs) \<inter> set (b # ys) = {}"
  defines "m' \<equiv> ins_tail b x (remove x m)"
  shows "isq m' a xs" and "isq m' b (ys @ [x])"
proof -
  have a1: "isq (remove x m) a xs" using isq_remove [of m a "[]" x xs] a by simp
  have b1: "isq (remove x m) b ys" using remove_frame [of m b ys a "[]" x xs] a b d by auto
  have dx: "distinct (a # x # xs)" using a by (rule isq_distinct)
  show "isq m' b (ys @ [x])" using isq_tail [OF b1, of x] d by (auto simp: m'_def)
  show "isq m' a xs" using tail_frame [OF a1 b1, of x] d dx by (auto simp: m'_def)
qed

text \<open>
  Draining: taking heads off \<open>a\<close> and appending them to \<open>b\<close>, as many times as \<open>a\<close> has
  elements, moves all of them in order.
\<close>

lemma requeue_all:
  assumes "isq m a xs" and "isq m b ys" and "set (a # xs) \<inter> set (b # ys) = {}"
  defines "f \<equiv> \<lambda>m. ins_tail b (head a m) (remove (head a m) m)"
  shows "isq ((f ^^ length xs) m) a [] \<and> isq ((f ^^ length xs) m) b (ys @ xs)"
  using assms(1-3)
proof (induction xs arbitrary: m ys)
  case Nil
  then show ?case by simp
next
  case (Cons x xs)
  have h: "f m = ins_tail b x (remove x m)"
    using head_eq [OF Cons.prems(1)] by (simp add: f_def)
  have 1: "isq (f m) a xs" "isq (f m) b (ys @ [x])"
    using requeue_first [OF Cons.prems] by (simp_all add: h)
  have "distinct (a # x # xs)" using Cons.prems(1) by (rule isq_distinct)
  then show ?case
    using Cons.IH [OF 1] Cons.prems(3) by (simp add: funpow_swap1)
qed

end

interpretation uvq: fifo_queue ring uv__queue_init uv__queue_empty uv__queue_head
  uv__queue_insert_tail uv__queue_insert_head uv__queue_remove
proof (unfold_locales, goal_cases)
  case (1 m h xs)
  then show ?case by (simp add: ring_def)
next
  case (8 m k zs q)
  then show ?case by (auto intro!: ring_frame [OF 8(1)] init_other)
next
  case (9 m k zs h xs q)
  then show ?case by (intro ring_frame [OF 9(1)] insert_tail_other) auto
next
  case (10 m k zs h xs q)
  then show ?case by (intro ring_frame [OF 10(1)] insert_head_other) auto
next
  case (11 m k zs h xs q ys)
  then show ?case by (intro ring_frame [OF 11(1)] remove_other) auto
qed (auto simp: queue_empty_iff queue_head_eq ring_insert_tail ring_insert_head ring_remove)

section \<open>Runs of operations on many queues\<close>

lemma add_other:
  assumes "ring m h xs" and "ring m n ys" and "ys \<noteq> []"
    and "set (h # xs) \<inter> set (n # ys) = {}" and "x \<notin> set (h # xs) \<union> set (n # ys)"
  shows "uv__queue_add h n m x = m x"
proof -
  from assms(3) obtain f gs where f: "ys = f # gs" by (cases ys) auto
  have k: "q_prev (m h) = last (h # xs)" "q_prev (m n) = last (n # ys)" "q_next (m n) = f"
    using assms(1,2) f by (auto simp: ring_def dest: seg_prev)
  have mem: "last (h # xs) \<in> set (h # xs)" "last (n # ys) \<in> set (n # ys)" "f \<in> set (n # ys)"
    using f by (meson last_in_set list.discI, meson last_in_set list.discI, simp)
  have ne: "n \<noteq> last (h # xs)" "n \<noteq> h" "h \<noteq> f" using mem assms(4) f by auto
  have "x \<noteq> last (h # xs)" "x \<noteq> last (n # ys)" "x \<noteq> f" "x \<noteq> h"
    using mem assms(5) by auto
  then show ?thesis
    using k ne by (simp add: uv__queue_add_def Let_def del: last.simps)
qed

datatype queue_op =
    QInit addr
  | QTail addr addr
  | QHead addr addr
  | QRemove addr
  | QMove addr addr
  | QAdd addr addr

fun queue_step :: "queue_op \<Rightarrow> qmem \<Rightarrow> qmem" where
  "queue_step (QInit q) m = uv__queue_init q m"
| "queue_step (QTail h q) m = uv__queue_insert_tail h q m"
| "queue_step (QHead h q) m = uv__queue_insert_head h q m"
| "queue_step (QRemove q) m = uv__queue_remove q m"
| "queue_step (QMove h n) m = uv__queue_move h n m"
| "queue_step (QAdd h n) m = uv__queue_add h n m"

text \<open>
  The specification: a collection of disjoint lists, each a head followed by its elements.
  The guards are the callers' obligations: a node that is inserted is in no queue, a head
  is the head of some queue, a queue that is appended to another is not empty.
\<close>

type_synonym queues = "addr list list"

definition upd :: "addr \<Rightarrow> (addr list \<Rightarrow> addr list) \<Rightarrow> queues \<Rightarrow> queues" where
  "upd h f Q = map (\<lambda>l. if hd l = h then f l else l) Q"

fun spec_step :: "queue_op \<Rightarrow> queues \<Rightarrow> queues option" where
  "spec_step (QInit q) Q = (if q \<in> set (concat Q) then None else Some ([q] # Q))"
| "spec_step (QTail h q) Q =
     (if q \<in> set (concat Q) \<or> h \<notin> hd ` set Q then None else Some (upd h (\<lambda>l. l @ [q]) Q))"
| "spec_step (QHead h q) Q =
     (if q \<in> set (concat Q) \<or> h \<notin> hd ` set Q then None else Some (upd h (\<lambda>l. h # q # tl l) Q))"
| "spec_step (QRemove q) Q =
     (if q \<notin> set (concat (map tl Q)) then None else Some (map (remove1 q) Q))"
| "spec_step (QMove h n) Q =
     (if n \<in> set (concat Q) then None
      else case List.find (\<lambda>l. hd l = h) Q of
             None \<Rightarrow> None
           | Some l \<Rightarrow> Some ((n # tl l) # upd h (\<lambda>l. [h]) Q))"
| "spec_step (QAdd h n) Q =
     (if h = n \<or> h \<notin> hd ` set Q then None
      else case List.find (\<lambda>l. hd l = n) Q of
             None \<Rightarrow> None
           | Some l \<Rightarrow>
               (if tl l = [] then None
                else Some (upd h (\<lambda>k. k @ tl l) (filter (\<lambda>k. hd k \<noteq> n) Q))))"

fun spec_run :: "queue_op list \<Rightarrow> queues \<Rightarrow> queues option" where
  "spec_run [] Q = Some Q"
| "spec_run (a # ops) Q = Option.bind (spec_step a Q) (spec_run ops)"

definition queues :: "qmem \<Rightarrow> queues \<Rightarrow> bool" where
  "queues m Q \<longleftrightarrow> distinct (concat Q) \<and> (\<forall>l\<in>set Q. l \<noteq> [] \<and> ring m (hd l) (tl l))"

lemma upd_split:
  assumes "distinct (concat (P @ l # R))" and "[] \<notin> set (P @ l # R)"
  shows "upd (hd l) f (P @ l # R) = P @ f l # R"
proof -
  have l: "hd l \<in> set l" using assms(2) by auto
  have "hd k \<noteq> hd l" if "k \<in> set P \<union> set R" for k
  proof -
    have "hd k \<in> set k" using that assms(2) by (cases k) auto
    moreover have "set k \<inter> set l = {}" using that assms(1) by auto
    ultimately show ?thesis using l by (metis disjoint_iff)
  qed
  then show ?thesis by (simp add: upd_def map_idI)
qed

lemma queues_split:
  assumes "queues m Q" and "h \<in> hd ` set Q"
  obtains P l R where "Q = P @ (h # l) # R" and "ring m h l"
    and "\<And>f. upd h f Q = P @ f (h # l) # R"
proof -
  from assms(2) obtain k where k: "k \<in> set Q" "h = hd k" by blast
  with assms(1) have k': "k = h # tl k" "ring m h (tl k)" by (auto simp: queues_def)
  from k(1) obtain P R where Q: "Q = P @ k # R" by (auto simp: in_set_conv_decomp)
  have "upd h f Q = P @ f k # R" for f
    unfolding Q k(2) by (rule upd_split) (use assms(1) Q in \<open>auto simp: queues_def\<close>)
  then show ?thesis using that [of P "tl k" R] Q k' by simp
qed

lemma ring_frame_hd:
  assumes "ring m (hd l) (tl l)" and "l \<noteq> []" and "\<And>x. x \<in> set l \<Longrightarrow> m' x = m x"
  shows "ring m' (hd l) (tl l)"
  using assms by (cases l) (auto intro: ring_frame)

lemma queues_filter: "queues m Q \<Longrightarrow> queues m (filter P Q)"
proof -
  have "distinct (concat Q) \<Longrightarrow> distinct (concat (filter P Q))" by (induction Q) auto
  then show "queues m Q \<Longrightarrow> ?thesis" by (auto simp: queues_def)
qed

text \<open>Changing one queue, possibly with one fresh node, leaves the others.\<close>

lemma queues_change:
  assumes "queues m (P @ k # R)" and "ring m' (hd l) (tl l)" and "l \<noteq> []"
    and "set l \<subseteq> set k \<union> F" and "F \<inter> set (concat (P @ k # R)) = {}"
    and "\<And>x. x \<notin> set k \<union> F \<Longrightarrow> m' x = m x"
  shows "queues m' (P @ l # R)"
proof -
  have "distinct l" using assms(2,3) by (cases l) (auto simp: ring_def)
  moreover have d: "distinct (concat P)" "distinct (concat R)" "set (concat P) \<inter> set (concat R) = {}"
    "set k \<inter> (set (concat P) \<union> set (concat R)) = {}"
    using assms(1) by (simp_all only: queues_def concat_append concat.simps distinct_append set_append) blast+
  have "set l \<inter> (set (concat P) \<union> set (concat R)) = {}"
    using d(4) assms(4,5) unfolding concat_append concat.simps set_append by blast
  ultimately have "distinct (concat (P @ l # R))"
    using d(1-3) unfolding concat_append concat.simps distinct_append set_append by blast
  moreover have "j \<noteq> [] \<and> ring m' (hd j) (tl j)" if "j \<in> set P \<union> set R" for j
  proof -
    have j: "j \<noteq> []" "ring m (hd j) (tl j)" using assms(1) that by (auto simp: queues_def)
    have "set j \<subseteq> set (concat P) \<union> set (concat R)" using that by auto
    then have "set j \<inter> (set k \<union> F) = {}"
      using d(4) assms(5) unfolding concat_append concat.simps set_append by blast
    then show ?thesis using j by (blast intro: ring_frame_hd assms(6))
  qed
  ultimately show ?thesis using assms(2,3) by (auto simp: queues_def)
qed

lemma find_hd_None: "List.find (\<lambda>l. hd l = h) Q = None \<longleftrightarrow> h \<notin> hd ` set Q"
  by (auto simp: find_None_iff)

lemma find_hd_split:
  assumes "queues m (P @ (h # l) # R)"
  shows "List.find (\<lambda>l. hd l = h) (P @ (h # l) # R) = Some (h # l)"
proof -
  have "hd k \<noteq> h" if "k \<in> set P" for k
  proof -
    have "k \<noteq> []" "h \<notin> set k" using that assms by (auto simp: queues_def)
    then show ?thesis by (cases k) auto
  qed
  then show ?thesis by (induction P) auto
qed

lemma queue_step_refines:
  assumes "queues m Q" and "spec_step a Q = Some Q'"
  shows "queues (queue_step a m) Q'"
proof (cases a)
  case (QInit q)
  with assms(2) have q: "q \<notin> set (concat Q)" "Q' = [] @ [q] # Q" by (auto split: if_splits)
  have "queues m ([] @ [] # Q) \<longleftrightarrow> False" by (simp add: queues_def)
  have "ring (uv__queue_init q m) (hd j) (tl j)" if "j \<in> set Q" for j
  proof -
    have j: "ring m (hd j) (tl j)" "j \<noteq> []" "q \<notin> set j"
      using assms(1) that q(1) by (auto simp: queues_def)
    then show ?thesis by (blast intro: ring_frame_hd init_other)
  qed
  then show ?thesis using assms(1) q QInit by (auto simp: queues_def)
next
  case (QTail h q)
  with assms(2) have q: "q \<notin> set (concat Q)" "h \<in> hd ` set Q" "Q' = upd h (\<lambda>l. l @ [q]) Q"
    by (auto split: if_splits)
  obtain P l R where Q: "Q = P @ (h # l) # R" "ring m h l" "\<And>f. upd h f Q = P @ f (h # l) # R"
    using queues_split [OF assms(1) q(2)] by metis
  have n: "q \<notin> set (h # l)" using q(1) Q(1) by auto
  have "queues (uv__queue_insert_tail h q m) (P @ (h # l @ [q]) # R)"
    by (rule queues_change [where k = "h # l" and F = "{q}", OF assms(1) [unfolded Q(1)]])
      (use q(1) Q(1,2) n in \<open>auto intro: ring_insert_tail insert_tail_other\<close>)
  then show ?thesis using q(3) Q(3) QTail by simp
next
  case (QHead h q)
  with assms(2) have q: "q \<notin> set (concat Q)" "h \<in> hd ` set Q" "Q' = upd h (\<lambda>l. h # q # tl l) Q"
    by (auto split: if_splits)
  obtain P l R where Q: "Q = P @ (h # l) # R" "ring m h l" "\<And>f. upd h f Q = P @ f (h # l) # R"
    using queues_split [OF assms(1) q(2)] by metis
  have n: "q \<notin> set (h # l)" using q(1) Q(1) by auto
  have "queues (uv__queue_insert_head h q m) (P @ (h # q # l) # R)"
    by (rule queues_change [where k = "h # l" and F = "{q}", OF assms(1) [unfolded Q(1)]])
      (use q(1) Q(1,2) n in \<open>auto intro: ring_insert_head insert_head_other\<close>)
  then show ?thesis using q(3) Q(3) QHead by simp
next
  case (QRemove q)
  with assms(2) have q: "q \<in> set (concat (map tl Q))" "Q' = map (remove1 q) Q"
    by (auto split: if_splits)
  then obtain k where k: "k \<in> set Q" "q \<in> set (tl k)" by auto
  then have "hd k \<in> hd ` set Q" by blast
  then obtain P l R where Q: "Q = P @ (hd k # l) # R" "ring m (hd k) l"
    "\<And>f. upd (hd k) f Q = P @ f (hd k # l) # R"
    using queues_split [OF assms(1)] by metis
  have dc: "distinct (concat Q)" and ne: "k \<noteq> []" using assms(1) k by (auto simp: queues_def)
  have "k = hd k # l"
    using find_hd_split [of m P "hd k" l R] assms(1) Q(1) k(1) ne dc
    by (cases k) (auto simp: distinct_concat_iff queues_def)
  then obtain xs ys where l: "l = xs @ q # ys" using k(2) by (metis in_set_conv_decomp list.sel(3))
  have fresh: "q \<notin> set (concat P) \<union> set (concat R) \<union> set (hd k # xs @ ys)" using dc Q(1) l by auto
  have "queues (uv__queue_remove q m) (P @ (hd k # xs @ ys) # R)"
    by (rule queues_change [where k = "hd k # l" and F = "{}", OF assms(1) [unfolded Q(1)]])
      (use Q(2) l in \<open>auto intro: ring_remove remove_other\<close>)
  moreover have "map (remove1 q) Q = P @ (hd k # xs @ ys) # R"
  proof -
    have "map (remove1 q) P = P" "map (remove1 q) R = R"
      using fresh by (auto intro!: map_idI remove1_idem)
    then show ?thesis using fresh unfolding Q(1) l by (simp add: remove1_append)
  qed
  ultimately show ?thesis using q(2) QRemove by simp
next
  case (QMove h n)
  with assms(2) have n: "n \<notin> set (concat Q)" by (auto split: if_splits)
  have "h \<in> hd ` set Q" using assms(2) QMove find_hd_None [of h Q] by (auto split: if_splits option.splits)
  then obtain P l R where Q: "Q = P @ (h # l) # R" "ring m h l" "\<And>f. upd h f Q = P @ f (h # l) # R"
    using queues_split [OF assms(1)] by metis
  have Q': "Q' = (n # l) # P @ [h] # R"
    using assms(2) QMove n Q(3) find_hd_split [OF assms(1) [unfolded Q(1)]] unfolding Q(1) by auto
  have nn: "n \<notin> set (h # l)" using n Q(1) by auto
  have 1: "queues (uv__queue_move h n m) (P @ [h] # R)"
    by (rule queues_change [where k = "h # l" and F = "{n}", OF assms(1) [unfolded Q(1)]])
      (use n Q(1,2) nn in \<open>auto intro: ring_move move_other\<close>)
  have "distinct (concat Q)" using assms(1) by (simp add: queues_def)
  then have "distinct (concat ((n # l) # P @ [h] # R))" using n Q(1) by auto
  moreover have "ring (uv__queue_move h n m) n l" by (rule ring_move [OF Q(2) nn])
  ultimately show ?thesis using 1 Q' QMove by (auto simp: queues_def)
next
  case (QAdd h n)
  let ?Q = "filter (\<lambda>k. hd k \<noteq> n) Q"
  have *: "h \<noteq> n" "h \<in> hd ` set Q" "n \<in> hd ` set Q"
    using assms(2) QAdd find_hd_None [of n Q] by (auto split: if_splits option.splits)
  obtain P' j R' where N: "Q = P' @ (n # j) # R'" "ring m n j"
    using queues_split [OF assms(1) *(3)] by metis
  have j: "j \<noteq> []" "Q' = upd h (\<lambda>k. k @ j) ?Q"
    using assms(2) QAdd * find_hd_split [OF assms(1) [unfolded N(1)]] N(1) by (auto split: if_splits)
  have q0: "queues m ?Q" using assms(1) by (rule queues_filter)
  have "h \<in> hd ` set ?Q" using * by auto
  then obtain P l R where Q: "?Q = P @ (h # l) # R" "ring m h l" "\<And>f. upd h f ?Q = P @ f (h # l) # R"
    using queues_split [OF q0] by metis
  have F: "set (n # j) \<inter> set (concat ?Q) = {}"
  proof -
    have "set (n # j) \<inter> set k = {}" if "k \<in> set ?Q" for k
      using that assms(1) N(1) by (auto simp: queues_def distinct_concat_iff)
    then show ?thesis by auto
  qed
  then have d: "set (h # l) \<inter> set (n # j) = {}" unfolding Q(1) by auto
  have "queues (uv__queue_add h n m) (P @ (h # l @ j) # R)"
    by (rule queues_change [where k = "h # l" and F = "set (n # j)", OF q0 [unfolded Q(1)]])
      (use F [unfolded Q(1)] ring_add [OF Q(2) N(2) j(1) d] add_other [OF Q(2) N(2) j(1) d]
        in \<open>auto\<close>)
  then show ?thesis using j(2) Q(3) QAdd by simp
qed

section \<open>Properties\<close>

lemma queue_run_inv: "queues m Q \<Longrightarrow> spec_run ops Q = Some Q' \<Longrightarrow> queues (fold queue_step ops m) Q'"
  by (induction ops arbitrary: m Q) (auto split: bind_splits intro: queue_step_refines)

text \<open>C3. Any run of queue operations that respects the callers' obligations, starting from
  no queue, leaves in the store exactly the lists the specification computes: emptiness, the head
  and the traversal of every queue agree with it, so no operation on one queue disturbs another.\<close>

theorem queue_run_refines:
  fixes m :: qmem
  assumes "spec_run ops [] = Some Q" and "h # xs \<in> set Q" and "length xs \<le> n"
  shows "uv__queue_foreach n h (fold queue_step ops m) = Some xs \<and>
    uv__queue_empty h (fold queue_step ops m) = (xs = []) \<and>
    (case xs of [] \<Rightarrow> True | x # _ \<Rightarrow> uv__queue_head h (fold queue_step ops m) = x)"
proof -
  let ?m = "fold queue_step ops m"
  have "queues m []" by (simp add: queues_def)
  then have "queues ?m Q" using assms(1) by (rule queue_run_inv)
  then have r: "ring ?m h xs" using assms(2) by (auto simp: queues_def)
  show ?thesis
    using foreach_ring [OF r assms(3)] uvq.empty_iff [OF r] r
    by (auto split: list.split dest: uvq.head_eq)
qed

theorem queue_run_refines_witness:
  "uv__queue_foreach 3 20 (fold queue_step
      [QInit 10, QTail 10 1, QHead 10 2, QTail 10 3, QRemove 1, QMove 10 20]
      (\<lambda>_. \<lparr>q_next = 0, q_prev = 0\<rparr>)) = Some [2, 3]"
  by (rule queue_run_refines [where Q = "[[20, 2, 3], [10]]", THEN conjunct1]) (simp_all add: upd_def)

end
