(* ===== verification/UV_Errno.thy ===== *)
theory UV_Errno
  imports UV_Prelude
begin

text \<open>
  Error codes: the error enumeration of include/uv.h with its names and messages, the
  numeric values of include/uv/errno.h, the name and message lookups of src/uv-common.c
  and the two translations of system errors (src/unix/core.c, src/win/error.c).  The
  values of the platform's errno and Windows error constants come from system headers
  and are parameters.
\<close>

section \<open>The errors\<close>

datatype (plugins only: code) uv_errno =
      UV_E2BIG | UV_EACCES | UV_EADDRINUSE | UV_EADDRNOTAVAIL | UV_EAFNOSUPPORT | UV_EAGAIN
    | UV_EAI_ADDRFAMILY | UV_EAI_AGAIN | UV_EAI_BADFLAGS | UV_EAI_BADHINTS | UV_EAI_CANCELED
    | UV_EAI_FAIL | UV_EAI_FAMILY | UV_EAI_MEMORY | UV_EAI_NODATA | UV_EAI_NONAME
    | UV_EAI_OVERFLOW | UV_EAI_PROTOCOL | UV_EAI_SERVICE | UV_EAI_SOCKTYPE | UV_EALREADY
    | UV_EBADF | UV_EBUSY | UV_ECANCELED | UV_ECHARSET | UV_ECONNABORTED | UV_ECONNREFUSED
    | UV_ECONNRESET | UV_EDESTADDRREQ | UV_EEXIST | UV_EFAULT | UV_EFBIG | UV_EHOSTUNREACH
    | UV_EINTR | UV_EINVAL | UV_EIO | UV_EISCONN | UV_EISDIR | UV_ELOOP | UV_EMFILE | UV_EMSGSIZE
    | UV_ENAMETOOLONG | UV_ENETDOWN | UV_ENETUNREACH | UV_ENFILE | UV_ENOBUFS | UV_ENODEV
    | UV_ENOENT | UV_ENOMEM | UV_ENONET | UV_ENOPROTOOPT | UV_ENOSPC | UV_ENOSYS | UV_ENOTCONN
    | UV_ENOTDIR | UV_ENOTEMPTY | UV_ENOTSOCK | UV_ENOTSUP | UV_EOVERFLOW | UV_EPERM | UV_EPIPE
    | UV_EPROTO | UV_EPROTONOSUPPORT | UV_EPROTOTYPE | UV_ERANGE | UV_EROFS | UV_ESHUTDOWN
    | UV_ESPIPE | UV_ESRCH | UV_ETIMEDOUT | UV_ETXTBSY | UV_EXDEV | UV_UNKNOWN | UV_EOF | UV_ENXIO
    | UV_EMLINK | UV_EHOSTDOWN | UV_EREMOTEIO | UV_ENOTTY | UV_EFTYPE | UV_EILSEQ
    | UV_ESOCKTNOSUPPORT | UV_ENODATA | UV_EUNATCH

type_synonym 'a result = "uv_errno + 'a"
type_synonym ret = "uv_errno + unit"

abbreviation OK :: ret where "OK \<equiv> Inr ()"

definition uv_errno_map :: "(uv_errno \<times> string \<times> string) list" where
  "uv_errno_map = [
    (UV_E2BIG, ''E2BIG'', ''argument list too long''),
    (UV_EACCES, ''EACCES'', ''permission denied''),
    (UV_EADDRINUSE, ''EADDRINUSE'', ''address already in use''),
    (UV_EADDRNOTAVAIL, ''EADDRNOTAVAIL'', ''address not available''),
    (UV_EAFNOSUPPORT, ''EAFNOSUPPORT'', ''address family not supported''),
    (UV_EAGAIN, ''EAGAIN'', ''resource temporarily unavailable''),
    (UV_EAI_ADDRFAMILY, ''EAI_ADDRFAMILY'', ''address family not supported''),
    (UV_EAI_AGAIN, ''EAI_AGAIN'', ''temporary failure''),
    (UV_EAI_BADFLAGS, ''EAI_BADFLAGS'', ''bad ai_flags value''),
    (UV_EAI_BADHINTS, ''EAI_BADHINTS'', ''invalid value for hints''),
    (UV_EAI_CANCELED, ''EAI_CANCELED'', ''request canceled''),
    (UV_EAI_FAIL, ''EAI_FAIL'', ''permanent failure''),
    (UV_EAI_FAMILY, ''EAI_FAMILY'', ''ai_family not supported''),
    (UV_EAI_MEMORY, ''EAI_MEMORY'', ''out of memory''),
    (UV_EAI_NODATA, ''EAI_NODATA'', ''no address''),
    (UV_EAI_NONAME, ''EAI_NONAME'', ''unknown node or service''),
    (UV_EAI_OVERFLOW, ''EAI_OVERFLOW'', ''argument buffer overflow''),
    (UV_EAI_PROTOCOL, ''EAI_PROTOCOL'', ''resolved protocol is unknown''),
    (UV_EAI_SERVICE, ''EAI_SERVICE'', ''service not available for socket type''),
    (UV_EAI_SOCKTYPE, ''EAI_SOCKTYPE'', ''socket type not supported''),
    (UV_EALREADY, ''EALREADY'', ''connection already in progress''),
    (UV_EBADF, ''EBADF'', ''bad file descriptor''),
    (UV_EBUSY, ''EBUSY'', ''resource busy or locked''),
    (UV_ECANCELED, ''ECANCELED'', ''operation canceled''),
    (UV_ECHARSET, ''ECHARSET'', ''invalid Unicode character''),
    (UV_ECONNABORTED, ''ECONNABORTED'', ''software caused connection abort''),
    (UV_ECONNREFUSED, ''ECONNREFUSED'', ''connection refused''),
    (UV_ECONNRESET, ''ECONNRESET'', ''connection reset by peer''),
    (UV_EDESTADDRREQ, ''EDESTADDRREQ'', ''destination address required''),
    (UV_EEXIST, ''EEXIST'', ''file already exists''),
    (UV_EFAULT, ''EFAULT'', ''bad address in system call argument''),
    (UV_EFBIG, ''EFBIG'', ''file too large''),
    (UV_EHOSTUNREACH, ''EHOSTUNREACH'', ''host is unreachable''),
    (UV_EINTR, ''EINTR'', ''interrupted system call''),
    (UV_EINVAL, ''EINVAL'', ''invalid argument''),
    (UV_EIO, ''EIO'', ''i/o error''),
    (UV_EISCONN, ''EISCONN'', ''socket is already connected''),
    (UV_EISDIR, ''EISDIR'', ''illegal operation on a directory''),
    (UV_ELOOP, ''ELOOP'', ''too many symbolic links encountered''),
    (UV_EMFILE, ''EMFILE'', ''too many open files''),
    (UV_EMSGSIZE, ''EMSGSIZE'', ''message too long''),
    (UV_ENAMETOOLONG, ''ENAMETOOLONG'', ''name too long''),
    (UV_ENETDOWN, ''ENETDOWN'', ''network is down''),
    (UV_ENETUNREACH, ''ENETUNREACH'', ''network is unreachable''),
    (UV_ENFILE, ''ENFILE'', ''file table overflow''),
    (UV_ENOBUFS, ''ENOBUFS'', ''no buffer space available''),
    (UV_ENODEV, ''ENODEV'', ''no such device''),
    (UV_ENOENT, ''ENOENT'', ''no such file or directory''),
    (UV_ENOMEM, ''ENOMEM'', ''not enough memory''),
    (UV_ENONET, ''ENONET'', ''machine is not on the network''),
    (UV_ENOPROTOOPT, ''ENOPROTOOPT'', ''protocol not available''),
    (UV_ENOSPC, ''ENOSPC'', ''no space left on device''),
    (UV_ENOSYS, ''ENOSYS'', ''function not implemented''),
    (UV_ENOTCONN, ''ENOTCONN'', ''socket is not connected''),
    (UV_ENOTDIR, ''ENOTDIR'', ''not a directory''),
    (UV_ENOTEMPTY, ''ENOTEMPTY'', ''directory not empty''),
    (UV_ENOTSOCK, ''ENOTSOCK'', ''socket operation on non-socket''),
    (UV_ENOTSUP, ''ENOTSUP'', ''operation not supported on socket''),
    (UV_EOVERFLOW, ''EOVERFLOW'', ''value too large for defined data type''),
    (UV_EPERM, ''EPERM'', ''operation not permitted''),
    (UV_EPIPE, ''EPIPE'', ''broken pipe''),
    (UV_EPROTO, ''EPROTO'', ''protocol error''),
    (UV_EPROTONOSUPPORT, ''EPROTONOSUPPORT'', ''protocol not supported''),
    (UV_EPROTOTYPE, ''EPROTOTYPE'', ''protocol wrong type for socket''),
    (UV_ERANGE, ''ERANGE'', ''result too large''),
    (UV_EROFS, ''EROFS'', ''read-only file system''),
    (UV_ESHUTDOWN, ''ESHUTDOWN'', ''cannot send after transport endpoint shutdown''),
    (UV_ESPIPE, ''ESPIPE'', ''invalid seek''),
    (UV_ESRCH, ''ESRCH'', ''no such process''),
    (UV_ETIMEDOUT, ''ETIMEDOUT'', ''connection timed out''),
    (UV_ETXTBSY, ''ETXTBSY'', ''text file is busy''),
    (UV_EXDEV, ''EXDEV'', ''cross-device link not permitted''),
    (UV_UNKNOWN, ''UNKNOWN'', ''unknown error''),
    (UV_EOF, ''EOF'', ''end of file''),
    (UV_ENXIO, ''ENXIO'', ''no such device or address''),
    (UV_EMLINK, ''EMLINK'', ''too many links''),
    (UV_EHOSTDOWN, ''EHOSTDOWN'', ''host is down''),
    (UV_EREMOTEIO, ''EREMOTEIO'', ''remote I/O error''),
    (UV_ENOTTY, ''ENOTTY'', ''inappropriate ioctl for device''),
    (UV_EFTYPE, ''EFTYPE'', ''inappropriate file type or format''),
    (UV_EILSEQ, ''EILSEQ'', ''illegal byte sequence''),
    (UV_ESOCKTNOSUPPORT, ''ESOCKTNOSUPPORT'', ''socket type not supported''),
    (UV_ENODATA, ''ENODATA'', ''no data available''),
    (UV_EUNATCH, ''EUNATCH'', ''protocol driver not attached'')]"

section \<open>Numeric values\<close>

text \<open>
  The platform: the value of each errno constant where the system headers define it, whether
  this is Windows, and the system families that the two special cases test for.
\<close>

datatype os_family = OS_windows | OS_darwin_bsd | OS_freebsd | OS_other

record platform =
  sys_errno_of :: "string \<Rightarrow> int option"
  os :: os_family
  edom_positive :: bool

definition UV__ERR :: "platform \<Rightarrow> int \<Rightarrow> int" where
  "UV__ERR p x = (if edom_positive p then - x else x)"

definition eai_codes :: "(uv_errno \<times> int) list" where
  "eai_codes = [
    (UV_EOF, - 4095), (UV_UNKNOWN, - 4094), (UV_EAI_ADDRFAMILY, - 3000), (UV_EAI_AGAIN, - 3001),
    (UV_EAI_BADFLAGS, - 3002), (UV_EAI_CANCELED, - 3003), (UV_EAI_FAIL, - 3004),
    (UV_EAI_FAMILY, - 3005), (UV_EAI_MEMORY, - 3006), (UV_EAI_NODATA, - 3007),
    (UV_EAI_NONAME, - 3008), (UV_EAI_OVERFLOW, - 3009), (UV_EAI_SERVICE, - 3010),
    (UV_EAI_SOCKTYPE, - 3011), (UV_EAI_BADHINTS, - 3013), (UV_EAI_PROTOCOL, - 3014)]"

definition errno_fallbacks_1 :: "(uv_errno \<times> int) list" where
  "errno_fallbacks_1 = [
    (UV_E2BIG, - 4093), (UV_EACCES, - 4092), (UV_EADDRINUSE, - 4091), (UV_EADDRNOTAVAIL, - 4090),
    (UV_EAFNOSUPPORT, - 4089), (UV_EAGAIN, - 4088), (UV_EALREADY, - 4084), (UV_EBADF, - 4083),
    (UV_EBUSY, - 4082), (UV_ECANCELED, - 4081), (UV_ECHARSET, - 4080), (UV_ECONNABORTED, - 4079),
    (UV_ECONNREFUSED, - 4078), (UV_ECONNRESET, - 4077), (UV_EDESTADDRREQ, - 4076),
    (UV_EEXIST, - 4075), (UV_EFAULT, - 4074), (UV_EHOSTUNREACH, - 4073), (UV_EINTR, - 4072),
    (UV_EINVAL, - 4071), (UV_EIO, - 4070), (UV_EISCONN, - 4069), (UV_EISDIR, - 4068),
    (UV_ELOOP, - 4067)]"

definition errno_fallbacks_2 :: "(uv_errno \<times> int) list" where
  "errno_fallbacks_2 = [
    (UV_EMFILE, - 4066), (UV_EMSGSIZE, - 4065), (UV_ENAMETOOLONG, - 4064), (UV_ENETDOWN, - 4063),
    (UV_ENETUNREACH, - 4062), (UV_ENFILE, - 4061), (UV_ENOBUFS, - 4060), (UV_ENODEV, - 4059),
    (UV_ENOENT, - 4058), (UV_ENOMEM, - 4057), (UV_ENONET, - 4056), (UV_ENOSPC, - 4055),
    (UV_ENOSYS, - 4054), (UV_ENOTCONN, - 4053), (UV_ENOTDIR, - 4052), (UV_ENOTEMPTY, - 4051),
    (UV_ENOTSOCK, - 4050), (UV_ENOTSUP, - 4049), (UV_EPERM, - 4048), (UV_EPIPE, - 4047),
    (UV_EPROTO, - 4046), (UV_EPROTONOSUPPORT, - 4045), (UV_EPROTOTYPE, - 4044), (UV_EROFS, - 4043)]"

definition errno_fallbacks_3 :: "(uv_errno \<times> int) list" where
  "errno_fallbacks_3 = [
    (UV_ESHUTDOWN, - 4042), (UV_ESPIPE, - 4041), (UV_ESRCH, - 4040), (UV_ETIMEDOUT, - 4039),
    (UV_ETXTBSY, - 4038), (UV_EXDEV, - 4037), (UV_EFBIG, - 4036), (UV_ENOPROTOOPT, - 4035),
    (UV_ERANGE, - 4034), (UV_ENXIO, - 4033), (UV_EMLINK, - 4032), (UV_EHOSTDOWN, - 4031),
    (UV_EREMOTEIO, - 4030), (UV_ENOTTY, - 4029), (UV_EFTYPE, - 4028), (UV_EILSEQ, - 4027),
    (UV_EOVERFLOW, - 4026), (UV_ESOCKTNOSUPPORT, - 4025), (UV_ENODATA, - 4024),
    (UV_EUNATCH, - 4023)]"

definition errno_fallbacks :: "(uv_errno \<times> int) list" where
  "errno_fallbacks = errno_fallbacks_1 @ errno_fallbacks_2 @ errno_fallbacks_3"

definition win_cases :: "(string \<times> uv_errno) list" where
  "win_cases = [
    (''ERROR_NOACCESS'', UV_EACCES),
    (''WSAEACCES'', UV_EACCES),
    (''ERROR_ELEVATION_REQUIRED'', UV_EACCES),
    (''ERROR_CANT_ACCESS_FILE'', UV_EACCES),
    (''ERROR_ADDRESS_ALREADY_ASSOCIATED'', UV_EADDRINUSE),
    (''WSAEADDRINUSE'', UV_EADDRINUSE),
    (''WSAEADDRNOTAVAIL'', UV_EADDRNOTAVAIL),
    (''WSAEAFNOSUPPORT'', UV_EAFNOSUPPORT),
    (''WSAEWOULDBLOCK'', UV_EAGAIN),
    (''WSAEALREADY'', UV_EALREADY),
    (''ERROR_INVALID_FLAGS'', UV_EBADF),
    (''ERROR_INVALID_HANDLE'', UV_EBADF),
    (''ERROR_LOCK_VIOLATION'', UV_EBUSY),
    (''ERROR_PIPE_BUSY'', UV_EBUSY),
    (''ERROR_SHARING_VIOLATION'', UV_EBUSY),
    (''ERROR_OPERATION_ABORTED'', UV_ECANCELED),
    (''WSAEINTR'', UV_ECANCELED),
    (''ERROR_NO_UNICODE_TRANSLATION'', UV_ECHARSET),
    (''ERROR_CONNECTION_ABORTED'', UV_ECONNABORTED),
    (''WSAECONNABORTED'', UV_ECONNABORTED),
    (''ERROR_CONNECTION_REFUSED'', UV_ECONNREFUSED),
    (''WSAECONNREFUSED'', UV_ECONNREFUSED),
    (''ERROR_NETNAME_DELETED'', UV_ECONNRESET),
    (''WSAECONNRESET'', UV_ECONNRESET),
    (''ERROR_ALREADY_EXISTS'', UV_EEXIST),
    (''ERROR_FILE_EXISTS'', UV_EEXIST),
    (''ERROR_BUFFER_OVERFLOW'', UV_EFAULT),
    (''WSAEFAULT'', UV_EFAULT),
    (''ERROR_HOST_UNREACHABLE'', UV_EHOSTUNREACH),
    (''WSAEHOSTUNREACH'', UV_EHOSTUNREACH),
    (''ERROR_INSUFFICIENT_BUFFER'', UV_EINVAL),
    (''ERROR_INVALID_DATA'', UV_EINVAL),
    (''ERROR_INVALID_PARAMETER'', UV_EINVAL),
    (''ERROR_SYMLINK_NOT_SUPPORTED'', UV_EINVAL),
    (''WSAEINVAL'', UV_EINVAL),
    (''WSAEPFNOSUPPORT'', UV_EINVAL),
    (''ERROR_BEGINNING_OF_MEDIA'', UV_EIO),
    (''ERROR_BUS_RESET'', UV_EIO),
    (''ERROR_CRC'', UV_EIO),
    (''ERROR_DEVICE_DOOR_OPEN'', UV_EIO),
    (''ERROR_DEVICE_REQUIRES_CLEANING'', UV_EIO),
    (''ERROR_DISK_CORRUPT'', UV_EIO),
    (''ERROR_EOM_OVERFLOW'', UV_EIO),
    (''ERROR_FILEMARK_DETECTED'', UV_EIO),
    (''ERROR_GEN_FAILURE'', UV_EIO),
    (''ERROR_INVALID_BLOCK_LENGTH'', UV_EIO),
    (''ERROR_IO_DEVICE'', UV_EIO),
    (''ERROR_NO_DATA_DETECTED'', UV_EIO),
    (''ERROR_NO_SIGNAL_SENT'', UV_EIO),
    (''ERROR_OPEN_FAILED'', UV_EIO),
    (''ERROR_SETMARK_DETECTED'', UV_EIO),
    (''ERROR_SIGNAL_REFUSED'', UV_EIO),
    (''WSAEISCONN'', UV_EISCONN),
    (''ERROR_CANT_RESOLVE_FILENAME'', UV_ELOOP),
    (''ERROR_TOO_MANY_OPEN_FILES'', UV_EMFILE),
    (''WSAEMFILE'', UV_EMFILE),
    (''WSAEMSGSIZE'', UV_EMSGSIZE),
    (''ERROR_FILENAME_EXCED_RANGE'', UV_ENAMETOOLONG),
    (''ERROR_NETWORK_UNREACHABLE'', UV_ENETUNREACH),
    (''WSAENETUNREACH'', UV_ENETUNREACH),
    (''WSAENOBUFS'', UV_ENOBUFS),
    (''ERROR_BAD_PATHNAME'', UV_ENOENT),
    (''ERROR_DIRECTORY'', UV_ENOENT),
    (''ERROR_ENVVAR_NOT_FOUND'', UV_ENOENT),
    (''ERROR_FILE_NOT_FOUND'', UV_ENOENT),
    (''ERROR_INVALID_NAME'', UV_ENOENT),
    (''ERROR_INVALID_DRIVE'', UV_ENOENT),
    (''ERROR_INVALID_REPARSE_DATA'', UV_ENOENT),
    (''ERROR_MOD_NOT_FOUND'', UV_ENOENT),
    (''ERROR_PATH_NOT_FOUND'', UV_ENOENT),
    (''WSAHOST_NOT_FOUND'', UV_ENOENT),
    (''WSANO_DATA'', UV_ENOENT),
    (''ERROR_NOT_ENOUGH_MEMORY'', UV_ENOMEM),
    (''ERROR_OUTOFMEMORY'', UV_ENOMEM),
    (''ERROR_CANNOT_MAKE'', UV_ENOSPC),
    (''ERROR_DISK_FULL'', UV_ENOSPC),
    (''ERROR_EA_TABLE_FULL'', UV_ENOSPC),
    (''ERROR_END_OF_MEDIA'', UV_ENOSPC),
    (''ERROR_HANDLE_DISK_FULL'', UV_ENOSPC),
    (''ERROR_NOT_CONNECTED'', UV_ENOTCONN),
    (''WSAENOTCONN'', UV_ENOTCONN),
    (''ERROR_DIR_NOT_EMPTY'', UV_ENOTEMPTY),
    (''WSAENOTSOCK'', UV_ENOTSOCK),
    (''ERROR_NOT_SUPPORTED'', UV_ENOTSUP),
    (''ERROR_BROKEN_PIPE'', UV_EOF),
    (''ERROR_ACCESS_DENIED'', UV_EPERM),
    (''ERROR_PRIVILEGE_NOT_HELD'', UV_EPERM),
    (''ERROR_BAD_PIPE'', UV_EPIPE),
    (''ERROR_NO_DATA'', UV_EPIPE),
    (''ERROR_PIPE_NOT_CONNECTED'', UV_EPIPE),
    (''WSAESHUTDOWN'', UV_EPIPE),
    (''WSAEPROTONOSUPPORT'', UV_EPROTONOSUPPORT),
    (''ERROR_WRITE_PROTECT'', UV_EROFS),
    (''ERROR_SEM_TIMEOUT'', UV_ETIMEDOUT),
    (''WSAETIMEDOUT'', UV_ETIMEDOUT),
    (''ERROR_NOT_SAME_DEVICE'', UV_EXDEV),
    (''ERROR_INVALID_FUNCTION'', UV_EISDIR),
    (''ERROR_META_EXPANSION_TOO_LONG'', UV_E2BIG),
    (''WSAESOCKTNOSUPPORT'', UV_ESOCKTNOSUPPORT)]"

definition err_name_of :: "uv_errno \<Rightarrow> string" where
  "err_name_of e = (case map_of uv_errno_map e of Some (n, m) \<Rightarrow> n | None \<Rightarrow> [])"

definition err_msg_of :: "uv_errno \<Rightarrow> string" where
  "err_msg_of e = (case map_of uv_errno_map e of Some (n, m) \<Rightarrow> m | None \<Rightarrow> [])"

text \<open>
  The value of \<open>UV_<name>\<close>: fixed for the EAI errors, EOF and UNKNOWN, else the system's errno
  where there is one outside Windows, else the number of the header.
\<close>

definition uv_code :: "platform \<Rightarrow> uv_errno \<Rightarrow> int" where
  "uv_code p e =
     (case map_of eai_codes e of
        Some v \<Rightarrow> v
      | None \<Rightarrow>
          (case (if os p = OS_windows then None else sys_errno_of p (err_name_of e)) of
             Some v \<Rightarrow> UV__ERR p v
           | None \<Rightarrow>
               (if e = UV_EHOSTDOWN \<and> (os p = OS_darwin_bsd \<or> os p = OS_freebsd) then - 64
                else if e = UV_ENODATA \<and> os p = OS_freebsd then - 9919
                else (case map_of errno_fallbacks e of Some v \<Rightarrow> v | None \<Rightarrow> 0))))"

section \<open>Translation of system errors\<close>

text \<open>src/unix/core.c.\<close>

definition uv_translate_sys_error_unix :: "int \<Rightarrow> int" where
  "uv_translate_sys_error_unix e = (if e \<le> 0 then e else - e)"

text \<open>src/win/error.c: the \<open>switch\<close>, for the numeric values \<open>wc\<close> of the Windows constants.\<close>

definition win_platform :: platform where
  "win_platform = \<lparr>sys_errno_of = (\<lambda>_. None), os = OS_windows, edom_positive = True\<rparr>"

definition uv_translate_sys_error_win :: "(string \<Rightarrow> int) \<Rightarrow> int \<Rightarrow> int" where
  "uv_translate_sys_error_win wc e =
     (if e \<le> 0 then e
      else case List.find (\<lambda>(c, r). wc c = e) win_cases of
             Some (c, r) \<Rightarrow> uv_code win_platform r
           | None \<Rightarrow> uv_code win_platform UV_UNKNOWN)"

section \<open>Facts on the tables\<close>

lemmas errno_tables = eai_codes_def errno_fallbacks_def errno_fallbacks_1_def errno_fallbacks_2_def
  errno_fallbacks_3_def

definition all_errnos :: "uv_errno list" where
  "all_errnos = [
    UV_E2BIG, UV_EACCES, UV_EADDRINUSE, UV_EADDRNOTAVAIL, UV_EAFNOSUPPORT, UV_EAGAIN,
    UV_EAI_ADDRFAMILY, UV_EAI_AGAIN, UV_EAI_BADFLAGS, UV_EAI_BADHINTS, UV_EAI_CANCELED,
    UV_EAI_FAIL, UV_EAI_FAMILY, UV_EAI_MEMORY, UV_EAI_NODATA, UV_EAI_NONAME, UV_EAI_OVERFLOW,
    UV_EAI_PROTOCOL, UV_EAI_SERVICE, UV_EAI_SOCKTYPE, UV_EALREADY, UV_EBADF, UV_EBUSY,
    UV_ECANCELED, UV_ECHARSET, UV_ECONNABORTED, UV_ECONNREFUSED, UV_ECONNRESET, UV_EDESTADDRREQ,
    UV_EEXIST, UV_EFAULT, UV_EFBIG, UV_EHOSTUNREACH, UV_EINTR, UV_EINVAL, UV_EIO, UV_EISCONN,
    UV_EISDIR, UV_ELOOP, UV_EMFILE, UV_EMSGSIZE, UV_ENAMETOOLONG, UV_ENETDOWN, UV_ENETUNREACH,
    UV_ENFILE, UV_ENOBUFS, UV_ENODEV, UV_ENOENT, UV_ENOMEM, UV_ENONET, UV_ENOPROTOOPT, UV_ENOSPC,
    UV_ENOSYS, UV_ENOTCONN, UV_ENOTDIR, UV_ENOTEMPTY, UV_ENOTSOCK, UV_ENOTSUP, UV_EOVERFLOW,
    UV_EPERM, UV_EPIPE, UV_EPROTO, UV_EPROTONOSUPPORT, UV_EPROTOTYPE, UV_ERANGE, UV_EROFS,
    UV_ESHUTDOWN, UV_ESPIPE, UV_ESRCH, UV_ETIMEDOUT, UV_ETXTBSY, UV_EXDEV, UV_UNKNOWN, UV_EOF,
    UV_ENXIO, UV_EMLINK, UV_EHOSTDOWN, UV_EREMOTEIO, UV_ENOTTY, UV_EFTYPE, UV_EILSEQ,
    UV_ESOCKTNOSUPPORT, UV_ENODATA, UV_EUNATCH]"

lemma all_errnos_UNIV: "set all_errnos = UNIV"
proof -
  have "e \<in> set all_errnos" for e
    by (cases e) (simp_all add: all_errnos_def)
  then show ?thesis by blast
qed

lemma distinct_all_errnos: "distinct all_errnos"
  by (simp add: all_errnos_def)

lemma card_errno: "card (UNIV :: uv_errno set) = 84"
  using distinct_card [OF distinct_all_errnos] by (simp add: all_errnos_UNIV, simp add: all_errnos_def)

lemma finite_errno: "finite (UNIV :: uv_errno set)"
  by (metis all_errnos_UNIV List.finite_set)

lemma errno_map_keys: "map fst uv_errno_map = all_errnos"
  by (simp add: uv_errno_map_def all_errnos_def)

lemma errno_map_names: "distinct (map (fst \<circ> snd) uv_errno_map)"
  by (simp add: uv_errno_map_def)

lemma codes_distinct: "distinct (map fst (eai_codes @ errno_fallbacks))" "distinct (map snd (eai_codes @ errno_fallbacks))"
  by (simp_all add: errno_tables)

lemma codes_complete: "set (map fst (eai_codes @ errno_fallbacks)) = UNIV"
proof (rule card_subset_eq [OF finite_errno subset_UNIV])
  have "length (eai_codes @ errno_fallbacks) = 84" by (simp add: errno_tables)
  then show "card (set (map fst (eai_codes @ errno_fallbacks))) = card (UNIV :: uv_errno set)"
    using distinct_card [OF codes_distinct(1)] by (simp only: length_map card_errno)
qed

lemma codes_range: "\<forall>(e, v) \<in> set (eai_codes @ errno_fallbacks). v \<le> - 3000 \<and> - 4095 \<le> v"
  by (simp add: errno_tables)

lemma map_of_complete: "set (map fst xs) = UNIV \<Longrightarrow> \<exists>y. map_of xs x = Some y"
  by (metis UNIV_I domD dom_map_of_conv_image_fst list.set_map)

lemma err_name_entry: "(e, err_name_of e, err_msg_of e) \<in> set uv_errno_map"
proof -
  obtain n m where "map_of uv_errno_map e = Some (n, m)"
    using map_of_complete [of uv_errno_map e] by (auto simp: errno_map_keys all_errnos_UNIV simp del: set_map)
  then show ?thesis using map_of_SomeD [of uv_errno_map e "(n, m)"] by (simp add: err_name_of_def err_msg_of_def)
qed

lemma err_name_inj: "err_name_of e = err_name_of e' \<Longrightarrow> e = e'"
  using inj_onD [OF _ _ err_name_entry [of e] err_name_entry [of e'], of "fst \<circ> snd"] errno_map_names
  by (auto simp: distinct_map simp del: comp_apply) (simp add: comp_def)

text \<open>The value of the tables, without the system's errno.\<close>

definition table_code :: "uv_errno \<Rightarrow> int" where
  "table_code e = the (map_of (eai_codes @ errno_fallbacks) e)"

lemma table_code_Some: "map_of (eai_codes @ errno_fallbacks) e = Some (table_code e)"
  using map_of_complete [OF codes_complete] unfolding table_code_def by (metis option.sel)

lemma table_code_entry: "(e, table_code e) \<in> set (eai_codes @ errno_fallbacks)"
  using table_code_Some by (rule map_of_SomeD)

lemma table_code_inj: "table_code e = table_code e' \<Longrightarrow> e = e'"
  using inj_onD [OF conjunct2 [OF codes_distinct(2) [unfolded distinct_map]] _ table_code_entry [of e] table_code_entry [of e']]
  by simp

lemma table_code_range: "table_code e \<le> - 3000" "- 4095 \<le> table_code e"
  using table_code_entry [of e] codes_range by blast+

lemma uv_code_table:
  "uv_code p e =
     (case (if map_of eai_codes e \<noteq> None \<or> os p = OS_windows then None else sys_errno_of p (err_name_of e)) of
        Some v \<Rightarrow> UV__ERR p v
      | None \<Rightarrow>
          (if e = UV_EHOSTDOWN \<and> (os p = OS_darwin_bsd \<or> os p = OS_freebsd) then - 64
           else if e = UV_ENODATA \<and> os p = OS_freebsd then - 9919 else table_code e))"
proof (cases "map_of eai_codes e")
  case None
  then have "map_of errno_fallbacks e = Some (table_code e)"
    using table_code_Some [of e] by (simp add: map_add_Some_iff)
  then show ?thesis unfolding uv_code_def by (simp only: None option.case simp_thms)
next
  case (Some v)
  then have n: "e \<noteq> UV_EHOSTDOWN" "e \<noteq> UV_ENODATA" by (auto simp: eai_codes_def)
  have "(e, v) \<in> set (eai_codes @ errno_fallbacks)" using map_of_SomeD [OF Some] by simp
  then have "table_code e = v"
    using map_of_is_SomeI [OF codes_distinct(1)] table_code_Some [of e] by (metis option.inject)
  then show ?thesis using Some n by (simp add: uv_code_def)
qed

text \<open>
  What the system headers promise (POSIX): the errno constants are distinct positive numbers,
  below the range libuv reserves for its own; where they leave out EHOSTDOWN its number is free.
\<close>

definition platform_ok :: "platform \<Rightarrow> bool" where
  "platform_ok p \<longleftrightarrow> edom_positive p \<and>
     (\<forall>n v. sys_errno_of p n = Some v \<longrightarrow> 0 < v \<and> v < 3000 \<and> (v = 64 \<longrightarrow> n = ''EHOSTDOWN'')) \<and>
     (\<forall>n n' v. sys_errno_of p n = Some v \<longrightarrow> sys_errno_of p n' = Some v \<longrightarrow> n = n')"

lemma uv_code_cases:
  assumes "platform_ok p"
  obtains (sys) v where "sys_errno_of p (err_name_of e) = Some v" "uv_code p e = - v" "0 < v" "v < 3000"
      "v = 64 \<Longrightarrow> e = UV_EHOSTDOWN"
  | (hostdown) "e = UV_EHOSTDOWN" "uv_code p e = - 64"
  | (nodata) "e = UV_ENODATA" "uv_code p e = - 9919"
  | (table) "uv_code p e = table_code e"
proof (cases "if map_of eai_codes e \<noteq> None \<or> os p = OS_windows then None else sys_errno_of p (err_name_of e)")
  case None
  then show ?thesis using that uv_code_table [of p e] by (auto split: if_splits)
next
  case (Some v)
  have hd: "err_name_of UV_EHOSTDOWN = ''EHOSTDOWN''" by (simp add: err_name_of_def uv_errno_map_def)
  have s: "sys_errno_of p (err_name_of e) = Some v" using Some by (simp split: if_splits)
  have "uv_code p e = - v"
    using Some assms by (simp add: uv_code_table UV__ERR_def platform_ok_def)
  moreover have "0 < v" "v < 3000" using assms s by (auto simp: platform_ok_def)
  moreover have "v = 64 \<Longrightarrow> e = UV_EHOSTDOWN"
    using assms s err_name_inj [of e UV_EHOSTDOWN] hd by (auto simp: platform_ok_def)
  ultimately show ?thesis using s sys by blast
qed

lemma uv_code_inj:
  assumes "platform_ok p" and "uv_code p e = uv_code p e'"
  shows "e = e'"
proof -
  note r = table_code_range [of e] table_code_range [of e']
  have sys: "sys_errno_of p (err_name_of e) = Some v \<Longrightarrow> sys_errno_of p (err_name_of e') = Some v \<Longrightarrow> e = e'" for v
    using assms(1) err_name_inj [of e e'] by (auto simp: platform_ok_def)
  show ?thesis
    by (cases rule: uv_code_cases [OF assms(1), of e]; cases rule: uv_code_cases [OF assms(1), of e'])
      (use r sys assms(2) table_code_inj [of e e'] in auto)
qed

lemma uv_code_negative: "platform_ok p \<Longrightarrow> uv_code p e < 0"
  by (cases rule: uv_code_cases [of p e]) (use table_code_range [of e] in auto)

lemma win_platform_ok: "platform_ok win_platform"
  by (simp add: platform_ok_def win_platform_def)

text \<open>The Windows translation is total and stable: a non-positive number is passed through,
  every system error becomes the (negative) number of a libuv error, and translating twice is
  translating once.\<close>

theorem translate_win_stable:
  "let r = uv_translate_sys_error_win wc e
   in r \<le> 0 \<and> uv_translate_sys_error_win wc r = r \<and>
      (if e \<le> 0 then r = e else r \<in> range (uv_code win_platform))"
proof -
  have "uv_code win_platform x \<le> 0" for x using uv_code_negative [OF win_platform_ok, of x] by simp
  then show ?thesis by (auto simp: uv_translate_sys_error_win_def Let_def split: option.split prod.split)
qed

end
