(* ===== verification/UV_Str.thy ===== *)
theory UV_Str
  imports UV_Errno
begin

text \<open>
  C strings and the string helpers of src/strscpy.c, src/strtok.c and src/uv-common.c.  A
  buffer is the list of its bytes, a pointer into it an index; an access outside the buffer
  is the result \<open>None\<close>.  \<open>dec_nat\<close> and \<open>dec_int\<close> are the conversions %u and %d of the C library.
\<close>

section \<open>Buffers and C strings\<close>

abbreviation NUL :: char where "NUL \<equiv> CHR 0x00"

definition SSIZE_MAX :: nat where "SSIZE_MAX = 2 ^ 63 - 1"

text \<open>The C string that starts at index \<open>i\<close> of a buffer.\<close>

definition cstr_at :: "string \<Rightarrow> nat \<Rightarrow> string" where
  "cstr_at b i = takeWhile (\<lambda>c. c \<noteq> NUL) (drop i b)"

text \<open>\<open>is_cstr b s\<close>: the buffer begins with the bytes of \<open>s\<close> and a terminator.\<close>

definition is_cstr :: "string \<Rightarrow> string \<Rightarrow> bool" where
  "is_cstr b s \<longleftrightarrow> NUL \<notin> set s \<and> (\<exists>r. b = s @ NUL # r)"

lemma is_cstr_len: "is_cstr b s \<Longrightarrow> length s < length b"
  by (auto simp: is_cstr_def)

lemma is_cstr_nth: "is_cstr b s \<Longrightarrow> i < length s \<Longrightarrow> b ! i = s ! i \<and> s ! i \<noteq> NUL"
  by (auto simp: is_cstr_def nth_append) (metis nth_mem)

lemma is_cstr_end: "is_cstr b s \<Longrightarrow> b ! length s = NUL"
  by (auto simp: is_cstr_def)

section \<open>strscpy\<close>

text \<open>The copying loop from index \<open>i\<close> on; the left result is the loop left by its condition.\<close>

function strscpy_loop :: "nat \<Rightarrow> nat \<Rightarrow> string \<Rightarrow> string \<Rightarrow> (string \<times> (nat + int result)) option" where
  "strscpy_loop i n s d =
     (if i < n then
        if i < length s \<and> i < length d then
          let d = d[i := s ! i]
          in if s ! i = NUL then Some (d, Inr (if i > SSIZE_MAX then Inl UV_E2BIG else Inr (int i)))
             else strscpy_loop (i + 1) n s d
        else None
      else Some (d, Inl i))"
  by pat_completeness auto
termination by (relation "measure (\<lambda>(i, n, s, d). n - i)") auto

declare strscpy_loop.simps [simp del]

definition uv__strscpy :: "string \<Rightarrow> string \<Rightarrow> nat \<Rightarrow> (string \<times> int result) option" where
  "uv__strscpy d s n =
     (case strscpy_loop 0 n s d of
        None \<Rightarrow> None
      | Some (d, Inr r) \<Rightarrow> Some (d, r)
      | Some (d, Inl i) \<Rightarrow>
          (if i = 0 then Some (d, Inr 0) else Some (d[i - 1 := NUL], Inl UV_E2BIG)))"

lemma strscpy_loop_fits:
  assumes "is_cstr b s" and "length s < n" and "n \<le> length d" and "i \<le> length s" and "length s \<le> SSIZE_MAX"
  shows "strscpy_loop i n b d = Some (take i d @ drop i s @ NUL # drop (length s + 1) d,
           Inr (Inr (int (length s))))"
  using assms
proof (induction "length s - i" arbitrary: i d)
  case 0
  then have i: "i = length s" by simp
  have "d[i := NUL] = take i d @ NUL # drop (Suc i) d" using 0 by (simp add: upd_conv_take_nth_drop)
  then show ?case using 0 i is_cstr_len [OF 0(2)] is_cstr_end [OF 0(2)]
    by (simp add: strscpy_loop.simps [of "length s"])
next
  case (Suc k)
  then have i: "i < length s" by simp
  have *: "strscpy_loop (i + 1) n b (d[i := s ! i]) =
      Some (take (i + 1) (d[i := s ! i]) @ drop (i + 1) s @ NUL # drop (length s + 1) (d[i := s ! i]),
        Inr (Inr (int (length s))))"
    by (rule Suc(1)) (use Suc i in auto)
  have "take (i + 1) (d[i := s ! i]) @ drop (i + 1) s = take i d @ drop i s"
    using i Suc.prems by (simp add: take_Suc_conv_app_nth Cons_nth_drop_Suc)
  then show ?case
    using * i is_cstr_nth [OF Suc.prems(1) i] is_cstr_len [OF Suc.prems(1)] Suc.prems
    by (simp add: strscpy_loop.simps [of i])
qed

lemma strscpy_loop_full:
  assumes "is_cstr b s" and "n \<le> length s" and "n \<le> length d" and "i \<le> n"
  shows "strscpy_loop i n b d = Some (take i d @ take (n - i) (drop i s) @ drop n d, Inl n)"
  using assms
proof (induction "n - i" arbitrary: i d)
  case 0
  then show ?case by (simp add: strscpy_loop.simps [of i])
next
  case (Suc k)
  then have i: "i < n" "i < length s" by auto
  have *: "strscpy_loop (i + 1) n b (d[i := s ! i]) =
      Some (take (i + 1) (d[i := s ! i]) @ take (n - (i + 1)) (drop (i + 1) s) @ drop n (d[i := s ! i]), Inl n)"
    by (rule Suc(1)) (use Suc i in auto)
  have "take (i + 1) (d[i := s ! i]) @ take (n - (i + 1)) (drop (i + 1) s) = take i d @ take (n - i) (drop i s)"
  proof -
    have "n - i = Suc (n - (i + 1))" using i by simp
    then have "take (n - i) (drop i s) = s ! i # take (n - (i + 1)) (drop (i + 1) s)"
      using i by (metis Cons_nth_drop_Suc Suc_eq_plus1 take_Suc_Cons)
    then show ?thesis using i Suc.prems by (simp add: take_Suc_conv_app_nth)
  qed
  then show ?case
    using * i is_cstr_nth [OF Suc.prems(1) i(2)] is_cstr_len [OF Suc.prems(1)] Suc.prems
    by (simp add: strscpy_loop.simps [of i])
qed

text \<open>C4. Copying a C string into a buffer of at least \<open>n\<close> bytes never touches a byte outside it:
  a string that fits is copied with its terminator and its length is returned, a longer one is
  truncated to \<open>n - 1\<close> bytes, terminated and reported as E2BIG; the rest of the buffer is kept.\<close>

theorem strscpy_spec:
  assumes "is_cstr b s" and "n \<le> length d" and "length s \<le> SSIZE_MAX"
  shows "uv__strscpy d b n =
    (if n = 0 then Some (d, Inr 0)
     else if length s < n then Some (s @ NUL # drop (length s + 1) d, Inr (int (length s)))
     else Some (take (n - 1) s @ NUL # drop n d, Inl UV_E2BIG))"
proof (cases "length s < n")
  case True
  then show ?thesis using strscpy_loop_fits [OF assms(1) True assms(2) _ assms(3), of 0]
    by (simp add: uv__strscpy_def)
next
  case False
  then have f: "strscpy_loop 0 n b d = Some (take n s @ drop n d, Inl n)"
    using strscpy_loop_full [OF assms(1) _ assms(2), of 0] by simp
  have "(take n s @ drop n d)[n - 1 := NUL] = take (n - 1) s @ NUL # drop n d" if nz: "n \<noteq> 0"
  proof -
    obtain k where k: "n = Suc k" using nz by (cases n) auto
    then have "take n s = take k s @ [s ! k]" using False by (simp add: take_Suc_conv_app_nth)
    then show ?thesis using k False by (simp add: list_update_append)
  qed
  then show ?thesis using f False by (simp add: uv__strscpy_def)
qed

theorem strscpy_spec_witness:
  "uv__strscpy ''........'' (''hello'' @ [NUL]) 8 = Some (''hello'' @ NUL # ''..'', Inr 5) \<and>
   uv__strscpy ''........'' (''hello'' @ [NUL]) 4 = Some (''hel'' @ NUL # ''....'', Inl UV_E2BIG)"
  using strscpy_spec [of "''hello'' @ [NUL]" "''hello''" 8 "''........''"]
    strscpy_spec [of "''hello'' @ [NUL]" "''hello''" 4 "''........''"]
  by (simp add: is_cstr_def SSIZE_MAX_def)

section \<open>strtok\<close>

text \<open>
  \<open>strtok_scan\<close> is the outer loop: it looks for the first byte of the string at \<open>tmp\<close> that the
  inner loop finds among the separators.  The state is the buffer and the iterator \<open>*itr\<close>.
\<close>

function strtok_scan :: "nat \<Rightarrow> nat \<Rightarrow> string \<Rightarrow> string \<Rightarrow> (nat option \<times> string \<times> nat option) option" where
  "strtok_scan start tmp sep b =
     (if tmp < length b then
        if b ! tmp = NUL then Some (Some start, b, None)
        else if b ! tmp \<in> set sep then Some (Some start, b[tmp := NUL], Some (tmp + 1))
        else strtok_scan start (tmp + 1) sep b
      else None)"
  by pat_completeness auto
termination by (relation "measure (\<lambda>(start, tmp, sep, b). length b - tmp)") auto

declare strtok_scan.simps [simp del]

definition uv__strtok ::
    "nat option \<Rightarrow> string \<Rightarrow> nat option \<Rightarrow> string \<Rightarrow> (nat option \<times> string \<times> nat option) option" where
  "uv__strtok str sep itr b =
     (case (case str of None \<Rightarrow> itr | Some p \<Rightarrow> Some p) of
        None \<Rightarrow> Some (None, b, itr)
      | Some start \<Rightarrow> strtok_scan start start sep b)"

text \<open>
  The callers' loop: the first call with the string, the following ones with the null pointer,
  until no token is left; the tokens are read from the buffer as C strings.
\<close>

fun strtok_loop :: "nat \<Rightarrow> nat option \<Rightarrow> string \<Rightarrow> nat option \<Rightarrow> string \<Rightarrow> string list option" where
  "strtok_loop 0 str sep itr b = None"
| "strtok_loop (Suc n) str sep itr b =
     (case uv__strtok str sep itr b of
        None \<Rightarrow> None
      | Some (None, b, itr) \<Rightarrow> Some []
      | Some (Some t, b, itr) \<Rightarrow> map_option ((#) (cstr_at b t)) (strtok_loop n None sep itr b))"

declare strtok_loop.simps(2) [simp del]

text \<open>The specification: the pieces between separators, empty ones included.\<close>

fun split_on :: "(char \<Rightarrow> bool) \<Rightarrow> string \<Rightarrow> string list" where
  "split_on P [] = [[]]"
| "split_on P (c # cs) =
     (if P c then [] # split_on P cs
      else (case split_on P cs of [] \<Rightarrow> [[c]] | t # ts \<Rightarrow> (c # t) # ts))"

lemma split_on_no: "(\<And>c. c \<in> set xs \<Longrightarrow> \<not> P c) \<Longrightarrow> split_on P xs = [xs]"
  by (induction xs) auto

lemma split_on_append: "(\<And>c. c \<in> set xs \<Longrightarrow> \<not> P c) \<Longrightarrow> P c \<Longrightarrow> split_on P (xs @ c # ys) = xs # split_on P ys"
  by (induction xs) auto

lemma strtok_scan_skip:
  assumes "\<And>c. c \<in> set xs \<Longrightarrow> c \<noteq> NUL \<and> c \<notin> set sep"
  shows "strtok_scan st (length p) sep (p @ xs @ q) = strtok_scan st (length (p @ xs)) sep (p @ xs @ q)"
  using assms
proof (induction xs arbitrary: p)
  case (Cons x xs)
  have "strtok_scan st (length p) sep (p @ (x # xs) @ q) = strtok_scan st (length (p @ [x])) sep ((p @ [x]) @ xs @ q)"
    using Cons.prems by (subst strtok_scan.simps) (simp add: nth_append)
  then show ?case using Cons.IH [of "p @ [x]"] Cons.prems by simp
qed simp

lemma strtok_loop_spec:
  assumes "NUL \<notin> set s" and "length s < n"
    and "str = Some (length p) \<or> str = None \<and> itr = Some (length p)"
  shows "strtok_loop (Suc n) str sep itr (p @ s @ NUL # r) = Some (split_on (\<lambda>c. c \<in> set sep) s)"
  using assms
proof (induction n arbitrary: str itr p s)
  case (Suc n)
  let ?b = "p @ s @ NUL # r"
  have start: "uv__strtok str sep itr ?b = strtok_scan (length p) (length p) sep ?b"
    using Suc.prems(3) by (auto simp: uv__strtok_def)
  show ?case
  proof (cases "\<exists>c\<in>set s. c \<in> set sep")
    case False
    then have s: "\<And>c. c \<in> set s \<Longrightarrow> c \<noteq> NUL \<and> c \<notin> set sep" using Suc.prems(1) by metis
    have "strtok_scan (length p) (length p) sep ?b = Some (Some (length p), ?b, None)"
      using strtok_scan_skip [of s sep "length p" p "NUL # r"] s
      by (simp add: strtok_scan.simps [of _ "length p + length s"] nth_append)
    moreover have "cstr_at ?b (length p) = s"
      using s by (simp add: cstr_at_def takeWhile_append2)
    ultimately show ?thesis
      using start split_on_no [of s "\<lambda>c. c \<in> set sep"] s
      by (simp add: strtok_loop.simps(2) uv__strtok_def)
  next
    case True
    then obtain t c s' where s: "s = t @ c # s'" "c \<in> set sep" "\<forall>c\<in>set t. c \<notin> set sep"
      using split_list_first_prop [of s "\<lambda>c. c \<in> set sep"] by metis
    then have t: "d \<noteq> NUL \<and> d \<notin> set sep" if "d \<in> set t" for d
      using that Suc.prems(1) by auto
    let ?p = "p @ t @ [NUL]"
    have "strtok_scan (length p) (length p) sep ?b =
        Some (Some (length p), ?p @ s' @ NUL # r, Some (length ?p))"
      using strtok_scan_skip [of t sep "length p" p "c # s' @ NUL # r"] t s Suc.prems(1)
      by (auto simp: strtok_scan.simps [of _ "length p + length t"] nth_append list_update_append)
    moreover have "cstr_at (?p @ s' @ NUL # r) (length p) = t"
      using t by (simp add: cstr_at_def takeWhile_append2)
    moreover have "strtok_loop (Suc n) None sep (Some (length ?p)) (?p @ s' @ NUL # r) =
        Some (split_on (\<lambda>c. c \<in> set sep) s')"
      by (rule Suc.IH) (use Suc.prems s(1) in auto)
    moreover have "split_on (\<lambda>c. c \<in> set sep) s = t # split_on (\<lambda>c. c \<in> set sep) s'"
      unfolding s(1) by (rule split_on_append) (use t s in auto)
    ultimately show ?thesis using start by (simp add: strtok_loop.simps(2) [of "Suc n"])
  qed
qed simp

text \<open>Calling strtok until it returns no token ends and yields exactly the pieces of the string
  between separator bytes, empty pieces included, without an access outside the buffer.\<close>

theorem strtok_splits:
  assumes "is_cstr b s"
  shows "strtok_loop (length s + 2) (Some 0) sep itr b = Some (split_on (\<lambda>c. c \<in> set sep) s)"
  using assms strtok_loop_spec [of s "length s + 1" "Some 0" "[]" itr sep]
  by (auto simp: is_cstr_def)

theorem strtok_splits_witness:
  "strtok_loop 9 (Some 0) '':;'' None (''/a:;bcd'' @ [NUL]) = Some [''/a'', '''', ''bcd'']"
  using strtok_splits [of "''/a:;bcd'' @ [NUL]" "''/a:;bcd''" "'':;''" None]
  by (simp add: is_cstr_def numeral_eq_Suc)

section \<open>Allocation and duplication\<close>

text \<open>
  The allocator is a parameter: it returns a block of the requested size or the null pointer.
\<close>

type_synonym allocator = "nat \<Rightarrow> string option"

definition uv__malloc :: "allocator \<Rightarrow> nat \<Rightarrow> string option" where
  "uv__malloc al sz = (if sz > 0 then al sz else None)"

fun strlen_from :: "nat \<Rightarrow> string \<Rightarrow> nat option" where
  "strlen_from i [] = None"
| "strlen_from i (c # cs) = (if c = NUL then Some i else strlen_from (i + 1) cs)"

definition strlen :: "string \<Rightarrow> nat option" where
  "strlen b = strlen_from 0 b"

text \<open>\<open>memcpy\<close> of the first \<open>n\<close> bytes, with both ranges checked.\<close>

definition memcpy :: "string \<Rightarrow> string \<Rightarrow> nat \<Rightarrow> string option" where
  "memcpy d s n = (if n \<le> length s \<and> n \<le> length d then Some (take n s @ drop n d) else None)"

text \<open>The outer option is memory safety, the inner one the returned pointer.\<close>

definition uv__strdup :: "allocator \<Rightarrow> string \<Rightarrow> string option option" where
  "uv__strdup al s =
     (case strlen s of
        None \<Rightarrow> None
      | Some l \<Rightarrow>
          (case uv__malloc al (l + 1) of
             None \<Rightarrow> Some None
           | Some m \<Rightarrow> map_option Some (memcpy m s (l + 1))))"

definition uv__strndup :: "allocator \<Rightarrow> string \<Rightarrow> nat \<Rightarrow> string option option" where
  "uv__strndup al s n =
     (case strlen s of
        None \<Rightarrow> None
      | Some len \<Rightarrow>
          (let len = (if n < len then n else len)
           in case uv__malloc al (len + 1) of
                None \<Rightarrow> Some None
              | Some m \<Rightarrow> map_option Some (memcpy (m[len := NUL]) s len)))"

lemma strlen_from_eq: "NUL \<notin> set s \<Longrightarrow> strlen_from i (s @ NUL # r) = Some (i + length s)"
  by (induction s arbitrary: i) auto

lemma strlen_eq: "is_cstr b s \<Longrightarrow> strlen b = Some (length s)"
  by (auto simp: is_cstr_def strlen_def strlen_from_eq)

text \<open>The documented contract of an allocator: a block has the size asked for.\<close>

definition alloc_ok :: "allocator \<Rightarrow> bool" where
  "alloc_ok al \<longleftrightarrow> (\<forall>n m. al n = Some m \<longrightarrow> length m = n)"

lemma strdup_copy:
  assumes "is_cstr b s" and "alloc_ok al"
  shows "uv__strdup al b = Some (map_option (\<lambda>_. s @ [NUL]) (al (length s + 1)))"
  using assms by (auto simp: uv__strdup_def strlen_eq uv__malloc_def memcpy_def alloc_ok_def
      is_cstr_def split: option.split)

lemma strndup_copy:
  assumes "is_cstr b s" and "alloc_ok al"
  shows "uv__strndup al b n = Some (map_option (\<lambda>_. take n s @ [NUL]) (al (min n (length s) + 1)))"
proof (cases "al (min n (length s) + 1)")
  case None
  moreover have "(if n < length s then n else length s) = min n (length s)" by (simp add: min_def)
  ultimately show ?thesis using assms(1) by (simp add: uv__strndup_def strlen_eq uv__malloc_def Let_def)
next
  case (Some m)
  define k where "k = min n (length s)"
  have m: "length m = k + 1" using Some assms(2) by (auto simp: alloc_ok_def k_def)
  have "drop k (m[k := NUL]) = [NUL]" using m by (simp add: drop_update_swap Cons_nth_drop_Suc [symmetric])
  moreover have "take k b = take n s"
    using assms(1) by (auto simp: is_cstr_def k_def min_def)
  ultimately have "memcpy (m[k := NUL]) b k = Some (take n s @ [NUL])"
    using m is_cstr_len [OF assms(1)] by (simp add: memcpy_def k_def)
  moreover have "(if n < length s then n else length s) = k" by (simp add: k_def min_def)
  ultimately show ?thesis
    using Some assms(1) by (simp add: uv__strndup_def strlen_eq uv__malloc_def Let_def k_def [symmetric])
qed

section \<open>Decimal conversions of the C library\<close>

definition digit_char :: "nat \<Rightarrow> char" where
  "digit_char d = char_of (48 + d)"

fun dec_nat :: "nat \<Rightarrow> string" where
  "dec_nat n = (if n < 10 then [digit_char n] else dec_nat (n div 10) @ [digit_char (n mod 10)])"

declare dec_nat.simps [simp del]

definition dec_int :: "int \<Rightarrow> string" where
  "dec_int i = (if i < 0 then CHR ''-'' # dec_nat (nat (- i)) else dec_nat (nat i))"

text \<open>\<open>snprintf\<close> of a computed text: truncated to \<open>n - 1\<close> bytes and terminated.\<close>

definition snprintf_buf :: "string \<Rightarrow> nat \<Rightarrow> string \<Rightarrow> string option" where
  "snprintf_buf d n txt =
     (if n = 0 then Some d
      else if min (length txt) (n - 1) < length d
           then Some (take (n - 1) txt @ NUL # drop (min (length txt) (n - 1) + 1) d)
           else None)"

text \<open>The value of a string of decimal digits.\<close>

definition digit_val :: "char \<Rightarrow> nat" where
  "digit_val c = of_char c - 48"

definition is_digit :: "char \<Rightarrow> bool" where
  "is_digit c \<longleftrightarrow> 48 \<le> (of_char c :: nat) \<and> (of_char c :: nat) \<le> 57"

definition dec_val :: "string \<Rightarrow> nat" where
  "dec_val cs = foldl (\<lambda>a c. 10 * a + digit_val c) 0 cs"

lemma digit_chars:
  "digit_char 0 = CHR ''0''" "digit_char (Suc 0) = CHR ''1''" "digit_char 1 = CHR ''1''"
  "digit_char 2 = CHR ''2''" "digit_char 3 = CHR ''3''" "digit_char 4 = CHR ''4''"
  "digit_char 5 = CHR ''5''" "digit_char 6 = CHR ''6''" "digit_char 7 = CHR ''7''"
  "digit_char 8 = CHR ''8''" "digit_char 9 = CHR ''9''"
  by (simp_all add: digit_char_def char_of_def bit_0)

lemma digit_char [simp]: "d < 10 \<Longrightarrow> of_char (digit_char d) = 48 + d" for d :: nat
  by (simp add: digit_char_def)

lemma digit_char_val [simp]: "d < 10 \<Longrightarrow> digit_val (digit_char d) = d"
  by (simp add: digit_val_def)

lemma is_digit_char [simp]: "d < 10 \<Longrightarrow> is_digit (digit_char d)"
  by (simp add: is_digit_def)

lemma dec_val_snoc: "dec_val (cs @ [c]) = 10 * dec_val cs + digit_val c"
  by (simp add: dec_val_def)

lemma dec_val_dec_nat [simp]: "dec_val (dec_nat n) = n"
proof (induction n rule: dec_nat.induct)
  case (1 n)
  show ?case
  proof (cases "n < 10")
    case True
    then show ?thesis by (simp add: dec_nat.simps [of n] dec_val_def)
  next
    case False
    then show ?thesis using 1 by (simp add: dec_nat.simps [of n] dec_val_snoc)
  qed
qed

lemma dec_nat_digits: "c \<in> set (dec_nat n) \<Longrightarrow> is_digit c"
proof (induction n rule: dec_nat.induct)
  case (1 n)
  then show ?case by (cases "n < 10") (auto simp: dec_nat.simps [of n])
qed

lemma dec_nat_nonempty [simp]: "dec_nat n \<noteq> []"
  by (subst dec_nat.simps) simp

lemma dec_nat_inj: "dec_nat m = dec_nat n \<longleftrightarrow> m = n"
  by (metis dec_val_dec_nat)

lemma is_digit_not: "is_digit c \<Longrightarrow> c \<noteq> NUL \<and> c \<noteq> CHR ''.'' \<and> c \<noteq> CHR ''-'' \<and> c \<noteq> CHR '':''"
  by (auto simp: is_digit_def)

lemma dec_int_inj: "dec_int i = dec_int j \<longleftrightarrow> i = j"
proof
  assume eq: "dec_int i = dec_int j"
  have nd: "CHR ''-'' \<notin> set (dec_nat k)" for k using dec_nat_digits is_digit_not by blast
  have "(i < 0) = (j < 0)"
    using eq nd [of "nat i"] nd [of "nat j"] by (auto simp: dec_int_def split: if_splits; metis list.set_intros(1))
  then show "i = j" using eq by (auto simp: dec_int_def dec_nat_inj split: if_splits)
qed simp

end
