(* ===== verification/UV_Errtext.thy ===== *)
theory UV_Errtext
  imports UV_Str
begin

text \<open>
  The texts of errors, src/uv-common.c: the lookups of names and messages by number, with and
  without a caller's buffer.  The cases of the C \<open>switch\<close> are the rows of the error map, in order.
\<close>

section \<open>Lookups\<close>

text \<open>The row of the first case with this value; distinct values make the order irrelevant.\<close>

definition errno_case :: "platform \<Rightarrow> int \<Rightarrow> (uv_errno \<times> string \<times> string) option" where
  "errno_case p err = List.find (\<lambda>(e, n, m). uv_code p e = err) uv_errno_map"

definition unknown_text :: "int \<Rightarrow> string" where
  "unknown_text err = ''Unknown system error '' @ dec_int err"

text \<open>The 32-byte buffer of \<open>uv__unknown_err_code\<close> and its copy on the heap.\<close>

definition uv__unknown_err_code :: "allocator \<Rightarrow> int \<Rightarrow> string option" where
  "uv__unknown_err_code al err =
     (case snprintf_buf (replicate 32 NUL) 32 (unknown_text err) of
        None \<Rightarrow> None
      | Some b \<Rightarrow>
          (case uv__strdup al b of
             None \<Rightarrow> None
           | Some None \<Rightarrow> Some (''Unknown system error'' @ [NUL])
           | Some (Some c) \<Rightarrow> Some c))"

definition uv_err_name :: "platform \<Rightarrow> allocator \<Rightarrow> int \<Rightarrow> string option" where
  "uv_err_name p al err =
     (case errno_case p err of
        Some (e, n, m) \<Rightarrow> Some (n @ [NUL])
      | None \<Rightarrow> uv__unknown_err_code al err)"

definition uv_strerror :: "platform \<Rightarrow> allocator \<Rightarrow> int \<Rightarrow> string option" where
  "uv_strerror p al err =
     (case errno_case p err of
        Some (e, n, m) \<Rightarrow> Some (m @ [NUL])
      | None \<Rightarrow> uv__unknown_err_code al err)"

definition uv_err_name_r :: "platform \<Rightarrow> int \<Rightarrow> string \<Rightarrow> nat \<Rightarrow> string option" where
  "uv_err_name_r p err buf buflen =
     (case errno_case p err of
        Some (e, n, m) \<Rightarrow> map_option fst (uv__strscpy buf (n @ [NUL]) buflen)
      | None \<Rightarrow> snprintf_buf buf buflen (unknown_text err))"

definition uv_strerror_r :: "platform \<Rightarrow> int \<Rightarrow> string \<Rightarrow> nat \<Rightarrow> string option" where
  "uv_strerror_r p err buf buflen =
     (case errno_case p err of
        Some (e, n, m) \<Rightarrow> snprintf_buf buf buflen m
      | None \<Rightarrow> snprintf_buf buf buflen (unknown_text err))"

section \<open>Facts\<close>

lemma nth_mem_eq: "xs ! i = x \<Longrightarrow> i < length xs \<Longrightarrow> x \<in> set xs"
  by auto

lemma errno_case_code:
  assumes "platform_ok p"
  shows "errno_case p (uv_code p e) = Some (e, err_name_of e, err_msg_of e)"
proof -
  have "\<exists>x. x \<in> set uv_errno_map \<and> (case x of (e', n, m) \<Rightarrow> uv_code p e' = uv_code p e)"
    by (rule exI [of _ "(e, err_name_of e, err_msg_of e)"]) (simp add: err_name_entry)
  then have "errno_case p (uv_code p e) \<noteq> None"
    unfolding errno_case_def find_None_iff by blast
  then obtain e' n m where f: "errno_case p (uv_code p e) = Some (e', n, m)" by fastforce
  then have mem: "(e', n, m) \<in> set uv_errno_map" "uv_code p e' = uv_code p e"
    by (auto simp: errno_case_def find_Some_iff dest: nth_mem_eq)
  then have e: "e' = e" using uv_code_inj [OF assms] by blast
  have "distinct (map fst uv_errno_map)" using distinct_all_errnos by (simp only: errno_map_keys)
  then have "map_of uv_errno_map e = Some (n, m)" using mem(1) e by (auto intro: map_of_is_SomeI)
  then show ?thesis using f e by (simp add: err_name_of_def err_msg_of_def)
qed

lemma errno_case_None: "errno_case p err = None \<longleftrightarrow> err \<notin> range (uv_code p)"
proof -
  have "fst ` set uv_errno_map = UNIV"
    using arg_cong [OF errno_map_keys, of set] by (simp add: all_errnos_UNIV)
  then show ?thesis by (force simp: errno_case_def find_None_iff)
qed

lemma name_shape: "\<forall>(e, n, m) \<in> set uv_errno_map. length n < 20 \<and> NUL \<notin> set n \<and> NUL \<notin> set m \<and> length m < 50"
  by (simp add: uv_errno_map_def)

lemma is_cstr_name: "is_cstr (err_name_of e @ [NUL]) (err_name_of e)" "length (err_name_of e) < 20"
  using err_name_entry [of e] name_shape by (auto simp: is_cstr_def)

text \<open>Which errors keep their full text in the 32-byte buffer.\<close>

lemma length_dec_nat: "n < 10 ^ Suc k \<Longrightarrow> length (dec_nat n) \<le> Suc k"
proof (induction k arbitrary: n)
  case (Suc k)
  then have "n div 10 < 10 ^ Suc k" by (simp add: less_mult_imp_div_less)
  then show ?case using Suc.IH [of "n div 10"] by (simp add: dec_nat.simps [of n])
qed (simp add: dec_nat.simps)

section \<open>Properties\<close>

text \<open>On every platform whose errno constants are distinct, the lookups invert the
  numbering: the number of each error gives back its name and its message, for the static and the
  allocating variant alike.\<close>

theorem err_name_roundtrip:
  assumes "platform_ok p"
  shows "uv_err_name p al (uv_code p e) = Some (err_name_of e @ [NUL]) \<and>
    uv_strerror p al (uv_code p e) = Some (err_msg_of e @ [NUL])"
  using errno_case_code [OF assms, of e] by (simp add: uv_err_name_def uv_strerror_def)

theorem err_name_roundtrip_witness:
  "uv_err_name win_platform (\<lambda>_. None) (uv_code win_platform UV_EINVAL) = Some (err_name_of UV_EINVAL @ [NUL]) \<and>
    uv_strerror win_platform (\<lambda>_. None) (uv_code win_platform UV_EINVAL) = Some (err_msg_of UV_EINVAL @ [NUL])"
  by (rule err_name_roundtrip [OF win_platform_ok])

text \<open>The name of an error written into a caller's buffer is truncated to it and terminated,
  whatever its size, and never spills over.\<close>

theorem err_name_r_truncates:
  assumes "platform_ok p" and "buflen \<le> length buf" and "0 < buflen"
  shows "\<exists>b. uv_err_name_r p (uv_code p e) buf buflen = Some b \<and> length b = length buf \<and>
    cstr_at b 0 = take (buflen - 1) (err_name_of e) \<and> drop buflen b = drop buflen buf"
proof -
  let ?n = "err_name_of e"
  have len: "length ?n \<le> SSIZE_MAX" using is_cstr_name(2) [of e] by (simp add: SSIZE_MAX_def)
  have nul: "c \<noteq> NUL" if "c \<in> set ?n" for c using is_cstr_name(1) [of e] that by (auto simp: is_cstr_def)
  then have nul': "c \<noteq> NUL" if "c \<in> set (take k ?n)" for c k
    using nul in_set_takeD that by metis
  show ?thesis
    using strscpy_spec [OF is_cstr_name(1) assms(2) len] errno_case_code [OF assms(1), of e] assms(2,3)
    by (auto simp: uv_err_name_r_def cstr_at_def takeWhile_append2 nul nul' drop_Cons')
qed

theorem err_name_r_truncates_witness:
  "\<exists>b. uv_err_name_r win_platform (uv_code win_platform UV_EINVAL) (replicate 8 NUL) 4 = Some b \<and>
    length b = 8 \<and> cstr_at b 0 = ''EIN''"
  using err_name_r_truncates [OF win_platform_ok, of 4 "replicate 8 NUL" UV_EINVAL]
  by (auto simp: err_name_of_def uv_errno_map_def numeral_eq_Suc)

text \<open>The text of an unknown error is built in a 32-byte buffer, one byte too few for the
  eleven characters of the most negative numbers: the last digit of the number is lost.\<close>

theorem unknown_err_truncated:
  "uv__unknown_err_code (\<lambda>n. Some (replicate n NUL)) (- 2147483648) =
     Some (''Unknown system error -214748364'' @ [NUL]) \<and>
   uv__unknown_err_code (\<lambda>n. Some (replicate n NUL)) (- 214748364) =
     Some (''Unknown system error -214748364'' @ [NUL])"
proof -
  have dec: "dec_int (- 2147483648) = ''-2147483648''" "dec_int (- 214748364) = ''-214748364''"
    by (simp_all add: dec_int_def dec_nat.simps digit_chars)
  let ?t = "''Unknown system error -214748364''"
  have "snprintf_buf (replicate 32 NUL) 32 (unknown_text i) = Some (?t @ [NUL])"
    if "i = - 2147483648 \<or> i = - 214748364" for i
    using that by (auto simp: snprintf_buf_def unknown_text_def dec)
  moreover have "uv__strdup (\<lambda>n. Some (replicate n NUL)) (?t @ [NUL]) = Some (Some (?t @ [NUL]))"
    by (subst strdup_copy [where s = ?t]) (simp_all add: is_cstr_def alloc_ok_def)
  ultimately show ?thesis by (simp add: uv__unknown_err_code_def)
qed

end
