(* ===== verification/UV_Inet.thy ===== *)
theory UV_Inet
  imports UV_Str
begin

text \<open>
  Textual network addresses, src/inet.c, and the address helpers of src/uv-common.c.  An IPv4
  address is four bytes, an IPv6 address sixteen; texts are C strings without their terminator,
  and the capacities of the local buffers are checked where the code writes to them.
\<close>

section \<open>IPv4: formatting\<close>

definition UV__INET_ADDRSTRLEN :: nat where "UV__INET_ADDRSTRLEN = 16"
definition UV__INET6_ADDRSTRLEN :: nat where "UV__INET6_ADDRSTRLEN = 46"

definition ntop4_text :: "u8 list \<Rightarrow> string" where
  "ntop4_text src = dec_nat (unat (src ! 0)) @ CHR ''.'' # dec_nat (unat (src ! 1)) @
     CHR ''.'' # dec_nat (unat (src ! 2)) @ CHR ''.'' # dec_nat (unat (src ! 3))"

text \<open>
  The result is the text that \<open>snprintf\<close> left in \<open>tmp\<close> (cut at its size) when the length \<open>l\<close> it
  would have had is positive and fits the caller's \<open>size\<close>.
\<close>

definition inet_ntop4 :: "u8 list \<Rightarrow> nat \<Rightarrow> string result" where
  "inet_ntop4 src sz =
     (let l = length (ntop4_text src)
      in if l = 0 \<or> l \<ge> sz then Inl UV_ENOSPC
         else Inr (take (UV__INET_ADDRSTRLEN - 1) (ntop4_text src)))"

section \<open>IPv4: parsing\<close>

text \<open>\<open>strchr(digits, ch)\<close>: the position of a decimal digit.\<close>

definition dec_digit :: "char \<Rightarrow> nat option" where
  "dec_digit c = (if is_digit c then Some (digit_val c) else None)"

text \<open>
  The loop, on the bytes written so far: \<open>tmp\<close> is their list and \<open>*tp\<close> its last element, so
  \<open>*++tp = 0\<close> appends a zero.
\<close>

fun pton4_loop :: "string \<Rightarrow> bool \<Rightarrow> nat \<Rightarrow> u8 list \<Rightarrow> u8 list result" where
  "pton4_loop [] saw_digit octets tmp = (if octets < 4 then Inl UV_EINVAL else Inr tmp)"
| "pton4_loop (ch # src) saw_digit octets tmp =
     (case dec_digit ch of
        Some d \<Rightarrow>
          (let nw = unat (last tmp) * 10 + d
           in if saw_digit \<and> last tmp = 0 then Inl UV_EINVAL
              else if nw > 255 then Inl UV_EINVAL
              else let tmp = butlast tmp @ [of_nat nw]
                   in if \<not> saw_digit then
                        (if octets + 1 > 4 then Inl UV_EINVAL else pton4_loop src True (octets + 1) tmp)
                      else pton4_loop src saw_digit octets tmp)
      | None \<Rightarrow>
          (if ch = CHR ''.'' \<and> saw_digit then
             (if octets = 4 then Inl UV_EINVAL else pton4_loop src False octets (tmp @ [0]))
           else Inl UV_EINVAL))"

definition inet_pton4 :: "string \<Rightarrow> u8 list result" where
  "inet_pton4 src = pton4_loop src False 0 [0]"

section \<open>IPv4: the accepted texts\<close>

text \<open>
  What has been read: the finished octets, each followed by a dot, and the digits of the
  current one.
\<close>

definition read_text :: "bool \<Rightarrow> u8 list \<Rightarrow> string" where
  "read_text saw tmp = concat (map (\<lambda>b. dec_nat (unat b) @ ''.'') (butlast tmp)) @
     (if saw then dec_nat (unat (last tmp)) else [])"

lemma dec_nat_snoc: "0 < a \<Longrightarrow> d < 10 \<Longrightarrow> dec_nat (a * 10 + d) = dec_nat a @ [digit_char d]"
  by (subst dec_nat.simps) auto

lemma dec_nat_small: "d < 10 \<Longrightarrow> dec_nat d = [digit_char d]"
  by (subst dec_nat.simps) auto

lemma dec_digit_Some: "dec_digit c = Some d \<longleftrightarrow> d < 10 \<and> c = digit_char d"
proof
  assume "dec_digit c = Some d"
  then have "48 \<le> (of_char c :: nat)" "(of_char c :: nat) \<le> 57" "d = of_char c - 48"
    by (auto simp: dec_digit_def is_digit_def digit_val_def split: if_splits)
  then show "d < 10 \<and> c = digit_char d" by (simp add: digit_char_def)
qed (auto simp: dec_digit_def)

lemma dec_digit_char [simp]: "d < 10 \<Longrightarrow> dec_digit (digit_char d) = Some d"
  by (simp add: dec_digit_Some)

lemma dec_digit_dot [simp]: "dec_digit CHR ''.'' = None" "dec_digit CHR '':'' = None"
  by (simp_all add: dec_digit_def is_digit_def)

lemma unat_of_nat_u8: "n \<le> 255 \<Longrightarrow> unat (of_nat n :: u8) = n"
  by (simp add: unat_of_nat)

lemma octet_text:
  assumes "d < 10" "\<not> (saw \<and> last tmp = 0)" "\<not> saw \<longrightarrow> last tmp = 0" "unat (last tmp) * 10 + d \<le> 255"
  shows "read_text True (butlast tmp @ [of_nat (unat (last tmp) * 10 + d)]) = read_text saw tmp @ [digit_char d]"
proof (cases saw)
  case True
  then have "0 < unat (last tmp)" using assms(2) by (simp add: unat_gt_0)
  then show ?thesis using True assms(1,4) unat_of_nat_u8 [OF assms(4)]
    by (simp add: read_text_def dec_nat_snoc del: of_nat_add of_nat_mult)
next
  case False
  then show ?thesis using assms unat_of_nat_u8 [OF assms(4)]
    by (simp add: read_text_def dec_nat_small del: of_nat_add of_nat_mult)
qed

text \<open>Soundness: an accepted text is the canonical text of the result.\<close>

definition loop_inv :: "bool \<Rightarrow> nat \<Rightarrow> u8 list \<Rightarrow> bool" where
  "loop_inv saw octets tmp \<longleftrightarrow> tmp \<noteq> [] \<and> length tmp \<le> 4 \<and> (\<not> saw \<longrightarrow> last tmp = 0) \<and>
     octets = length tmp - (if saw then 0 else 1)"


lemma pton4_sound:
  assumes "pton4_loop src saw octets tmp = Inr bs" and "loop_inv saw octets tmp"
  shows "read_text saw tmp @ src = read_text True bs \<and> length bs = 4"
  using assms
proof (induction src saw octets tmp rule: pton4_loop.induct)
  case (1 saw octets tmp)
  then show ?case by (auto simp: loop_inv_def split: if_splits)
next
  case (2 ch src saw octets tmp)
  show ?case
  proof (cases "dec_digit ch")
    case (Some d)
    then have d: "d < 10" "ch = digit_char d" by (simp_all add: dec_digit_Some)
    let ?t = "butlast tmp @ [of_nat (unat (last tmp) * 10 + d)]"
    have c: "\<not> (saw \<and> last tmp = 0)" "unat (last tmp) * 10 + d \<le> 255"
      using 2(4) Some by (auto simp: Let_def split: if_splits)
    have t: "read_text True ?t = read_text saw tmp @ [ch]"
      using octet_text [OF d(1) c(1) _ c(2)] 2(5) d(2) by (simp add: loop_inv_def)
    have inv: "loop_inv True (if saw then octets else octets + 1) ?t"
      using 2(5) by (cases tmp) (auto simp: loop_inv_def)
    have "read_text True ?t @ src = read_text True bs \<and> length bs = 4"
    proof (cases saw)
      case True
      then have "pton4_loop src True octets ?t = Inr bs"
        using 2(4) Some c by (simp add: Let_def del: of_nat_add of_nat_mult)
      then show ?thesis
        using "2.IH"(3) [OF Some refl c(1) _ refl] c inv True by (simp del: of_nat_add of_nat_mult)
    next
      case False
      then have "pton4_loop src True (octets + 1) ?t = Inr bs" "\<not> 4 < octets + 1"
        using 2(4) Some c by (auto simp: Let_def simp del: of_nat_add of_nat_mult split: if_splits)
      then show ?thesis
        using "2.IH"(2) [OF Some refl c(1) _ refl] c inv False by (simp del: of_nat_add of_nat_mult)
    qed
    then show ?thesis using t by simp
  next
    case None
    then have n: "ch = CHR ''.''" "saw" "octets \<noteq> 4" "pton4_loop src False octets (tmp @ [0]) = Inr bs"
      using 2(4) by (auto split: if_splits)
    have "loop_inv False octets (tmp @ [0])" using 2(5) n by (auto simp: loop_inv_def)
    then have "read_text False (tmp @ [0]) @ src = read_text True bs \<and> length bs = 4"
      using "2.IH"(1) [OF None] n by simp
    moreover have "read_text False (tmp @ [0]) = read_text True tmp @ ''.''"
      using 2(5) by (cases tmp rule: rev_cases) (auto simp: read_text_def loop_inv_def butlast_append)
    ultimately show ?thesis using n by simp
  qed
qed

lemma read_text_ntop4: "length bs = 4 \<Longrightarrow> read_text True bs = ntop4_text bs"
  by (auto simp: read_text_def ntop4_text_def length_Suc_conv eval_nat_numeral)

text \<open>Completeness: the canonical text of four bytes is accepted.\<close>

lemma pton4_digits:
  assumes "n \<le> 255" and "octets < 4"
  shows "pton4_loop (dec_nat n @ rest) False octets (ds @ [0]) = pton4_loop rest True (octets + 1) (ds @ [of_nat n])"
proof -
  consider "n < 10" | a b where "n = a * 10 + b" "0 < a" "a < 10" "b < 10"
    | a b c where "n = (a * 10 + b) * 10 + c" "0 < a" "a < 10" "b < 10" "c < 10"
  proof -
    assume *: "n < 10 \<Longrightarrow> thesis" "\<And>a b. n = a * 10 + b \<Longrightarrow> 0 < a \<Longrightarrow> a < 10 \<Longrightarrow> b < 10 \<Longrightarrow> thesis"
      "\<And>a b c. n = (a * 10 + b) * 10 + c \<Longrightarrow> 0 < a \<Longrightarrow> a < 10 \<Longrightarrow> b < 10 \<Longrightarrow> c < 10 \<Longrightarrow> thesis"
    show thesis
    proof (cases "n < 100")
      case True
      then show ?thesis using *(1) *(2) [of "n div 10" "n mod 10"] by (cases "n < 10") auto
    next
      case False
      then show ?thesis using *(3) [of "n div 10 div 10" "n div 10 mod 10" "n mod 10"] assms(1) by auto
    qed
  qed
  then show ?thesis
  proof cases
    case 1
    then show ?thesis using assms by (simp add: dec_nat_small Let_def)
  next
    case 2
    then have "dec_nat n = [digit_char a, digit_char b]" by (simp add: dec_nat_snoc dec_nat_small)
    then show ?thesis using 2 assms unat_of_nat_u8 [of a]
      by (simp add: Let_def del: of_nat_add of_nat_mult) (auto simp: word_unat_eq_iff unat_of_nat)
  next
    case 3
    have "dec_nat ((a * 10 + b) * 10 + c) = dec_nat (a * 10 + b) @ [digit_char c]"
      by (rule dec_nat_snoc) (use 3 in auto)
    then have "dec_nat n = [digit_char a, digit_char b, digit_char c]"
      using 3 by (simp only: dec_nat_snoc dec_nat_small) simp
    then show ?thesis using 3 assms unat_of_nat_u8 [of a] unat_of_nat_u8 [of "a * 10 + b"]
      by (simp add: Let_def del: of_nat_add of_nat_mult) (auto simp: word_unat_eq_iff unat_of_nat)
  qed
qed

lemma pton4_ntop4:
  assumes "length bs = 4"
  shows "inet_pton4 (ntop4_text bs) = Inr bs"
proof -
  obtain a b c d where bs: "bs = [a, b, c, d]" using assms by (auto simp: length_Suc_conv eval_nat_numeral)
  have u: "unat x \<le> 255" for x :: u8 using unsigned_less [of x, where 'a = nat] by simp
  have step: "octets < 4 \<Longrightarrow> pton4_loop (dec_nat (unat x) @ rest) False octets (ds @ [0]) =
      pton4_loop rest True (octets + 1) (ds @ [x])" for x :: u8 and rest octets ds
    using pton4_digits [OF u, of octets x rest ds] by simp
  have last: "octets < 4 \<Longrightarrow> pton4_loop (dec_nat (unat x)) False octets (ds @ [0]) =
      pton4_loop [] True (octets + 1) (ds @ [x])" for x :: u8 and octets ds
    using step [of octets x "[]" ds] by simp
  show ?thesis
    using step [of 0 a _ "[]"] step [of 1 b _ "[a]"] step [of 2 c _ "[a, b]"] last [of 3 d "[a, b, c]"]
    by (simp add: inet_pton4_def ntop4_text_def bs eval_nat_numeral)
qed

text \<open>C5. The IPv4 parser accepts exactly the canonical dotted-quad texts: parsing succeeds with
  the bytes of an address if and only if the input is the text the formatter prints for them, so
  leading zeros, missing or extra octets, values above 255 and stray characters are all refused.\<close>

theorem pton4_exact:
  "inet_pton4 s = Inr bs \<longleftrightarrow> length bs = 4 \<and> s = ntop4_text bs"
proof
  assume "inet_pton4 s = Inr bs"
  then have "read_text False [0] @ s = read_text True bs \<and> length bs = 4"
    unfolding inet_pton4_def by (rule pton4_sound) (simp add: loop_inv_def)
  then show "length bs = 4 \<and> s = ntop4_text bs"
    using read_text_ntop4 by (simp add: read_text_def)
qed (auto simp: pton4_ntop4)

section \<open>IPv6: formatting\<close>

definition hex_char :: "nat \<Rightarrow> char" where
  "hex_char d = (if d < 10 then char_of (48 + d) else char_of (87 + d))"

fun hex_nat :: "nat \<Rightarrow> string" where
  "hex_nat n = (if n < 16 then [hex_char n] else hex_nat (n div 16) @ [hex_char (n mod 16)])"

declare hex_nat.simps [simp del]

text \<open>The wordwise copy: \<open>words[i / 2] |= src[i] << ((1 - i % 2) << 3)\<close> for the sixteen bytes.\<close>

definition ntop6_words :: "u8 list \<Rightarrow> u32 list" where
  "ntop6_words src =
     fold (\<lambda>i ws. ws[i div 2 := or (ws ! (i div 2)) (push_bit (push_bit 3 (1 - i mod 2)) (ucast (src ! i)))])
       [0..<16] (replicate 8 0)"

record run =
  r_base :: int
  r_len :: int

definition no_run :: run where "no_run = \<lparr>r_base = - 1, r_len = 0\<rparr>"

definition run_end :: "run \<Rightarrow> run \<Rightarrow> run" where
  "run_end best cur = (if r_base best = - 1 \<or> r_len cur > r_len best then cur else best)"

definition run_step :: "u32 list \<Rightarrow> nat \<Rightarrow> run \<times> run \<Rightarrow> run \<times> run" where
  "run_step ws i = (\<lambda>(best, cur).
     if ws ! i = 0 then
       (best, if r_base cur = - 1 then \<lparr>r_base = int i, r_len = 1\<rparr> else cur\<lparr>r_len := r_len cur + 1\<rparr>)
     else if r_base cur \<noteq> - 1 then (run_end best cur, cur\<lparr>r_base := - 1\<rparr>)
     else (best, cur))"

definition best_run :: "u32 list \<Rightarrow> run" where
  "best_run ws =
     (let (best, cur) = fold (run_step ws) [0..<8] (no_run, no_run);
          best = (if r_base cur \<noteq> - 1 then run_end best cur else best)
      in if r_base best \<noteq> - 1 \<and> r_len best < 2 then best\<lparr>r_base := - 1\<rparr> else best)"

text \<open>The formatting loop; \<open>tp\<close> is the text written to \<open>tmp\<close> so far.\<close>

function ntop6_loop :: "nat \<Rightarrow> run \<Rightarrow> u32 list \<Rightarrow> u8 list \<Rightarrow> string \<Rightarrow> string result" where
  "ntop6_loop i best ws src tp =
     (if i < 8 then
        if r_base best \<noteq> - 1 \<and> int i \<ge> r_base best \<and> int i < r_base best + r_len best then
          ntop6_loop (i + 1) best ws src (if int i = r_base best then tp @ '':'' else tp)
        else
          let tp = (if i \<noteq> 0 then tp @ '':'' else tp)
          in if i = 6 \<and> r_base best = 0 \<and> (r_len best = 6 \<or> r_len best = 7 \<and> ws ! 7 \<noteq> 1 \<or>
                r_len best = 5 \<and> ws ! 5 = 0xffff) then
               (case inet_ntop4 (drop 12 src) (UV__INET6_ADDRSTRLEN - length tp) of
                  Inl e \<Rightarrow> Inl e
                | Inr t \<Rightarrow> Inr (tp @ t))
             else ntop6_loop (i + 1) best ws src (tp @ hex_nat (unat (ws ! i)))
      else Inr tp)"
  by pat_completeness auto
termination by (relation "measure (\<lambda>(i, best, ws, src, tp). 8 - i)") auto

declare ntop6_loop.simps [simp del]

definition inet_ntop6 :: "u8 list \<Rightarrow> nat \<Rightarrow> string result" where
  "inet_ntop6 src sz =
     (let ws = ntop6_words src; best = best_run ws
      in case ntop6_loop 0 best ws src [] of
           Inl e \<Rightarrow> Inl e
         | Inr tp \<Rightarrow>
             (let tp = (if r_base best \<noteq> - 1 \<and> r_base best + r_len best = 8 then tp @ '':'' else tp)
              in if length tp + 1 > sz then Inl UV_ENOSPC else Inr tp))"

datatype family = AF_INET | AF_INET6 | AF_OTHER

definition uv_inet_ntop :: "family \<Rightarrow> u8 list \<Rightarrow> nat \<Rightarrow> string result" where
  "uv_inet_ntop af src sz =
     (case af of
        AF_INET \<Rightarrow> inet_ntop4 src sz
      | AF_INET6 \<Rightarrow> inet_ntop6 src sz
      | AF_OTHER \<Rightarrow> Inl UV_EAFNOSUPPORT)"

section \<open>IPv6: parsing\<close>

text \<open>The two searches in \<open>xdigits_l\<close> and \<open>xdigits_u\<close>.\<close>

definition hex_digit :: "char \<Rightarrow> nat option" where
  "hex_digit c =
     (let n = of_char c :: nat
      in if 48 \<le> n \<and> n \<le> 57 then Some (n - 48)
         else if 97 \<le> n \<and> n \<le> 102 then Some (n - 87)
         else if 65 \<le> n \<and> n \<le> 70 then Some (n - 55)
         else None)"

text \<open>\<open>*tp++ = (val >> 8) & 0xff; *tp++ = val & 0xff;\<close>\<close>

definition put16 :: "u32 \<Rightarrow> nat \<Rightarrow> u8 list \<Rightarrow> u8 list" where
  "put16 v tp tmp = tmp[tp := and (ucast (drop_bit 8 v)) 0xff, tp + 1 := and (ucast v) 0xff]"

record pton6_state =
  p_seen :: nat
  p_val :: u32
  p_tp :: nat
  p_colonp :: "nat option"
  p_tmp :: "u8 list"

fun pton6_loop :: "string \<Rightarrow> string \<Rightarrow> pton6_state \<Rightarrow> pton6_state result" where
  "pton6_loop [] curtok s = Inr s"
| "pton6_loop (ch # src) curtok s =
     (case hex_digit ch of
        Some d \<Rightarrow>
          (let s = s\<lparr>p_val := or (push_bit 4 (p_val s)) (of_nat d), p_seen := p_seen s + 1\<rparr>
           in if p_seen s > 4 then Inl UV_EINVAL else pton6_loop src curtok s)
      | None \<Rightarrow>
          (if ch = CHR '':'' then
             (if p_seen s = 0 then
                (if p_colonp s \<noteq> None then Inl UV_EINVAL
                 else pton6_loop src src (s\<lparr>p_colonp := Some (p_tp s)\<rparr>))
              else if src = [] then Inl UV_EINVAL
              else if p_tp s + 2 > 16 then Inl UV_EINVAL
              else pton6_loop src src
                     (s\<lparr>p_tmp := put16 (p_val s) (p_tp s) (p_tmp s), p_tp := p_tp s + 2, p_seen := 0, p_val := 0\<rparr>))
           else if ch = CHR ''.'' \<and> p_tp s + 4 \<le> 16 then
             (case inet_pton4 curtok of
                Inl _ \<Rightarrow> Inl UV_EINVAL
              | Inr bs \<Rightarrow>
                  Inr (s\<lparr>p_tmp := take (p_tp s) (p_tmp s) @ bs @ drop (p_tp s + 4) (p_tmp s),
                         p_tp := p_tp s + 4, p_seen := 0\<rparr>))
           else Inl UV_EINVAL))"

text \<open>\<open>for (i = 1; i <= n; i++) { endp[-i] = colonp[n-i]; colonp[n-i] = 0; }\<close>\<close>

definition shift_tail :: "nat \<Rightarrow> nat \<Rightarrow> u8 list \<Rightarrow> u8 list" where
  "shift_tail c n tmp =
     fold (\<lambda>i t. t[16 - i := t ! (c + (n - i)), c + (n - i) := 0]) [1..<n + 1] tmp"

definition pton6_finish :: "pton6_state \<Rightarrow> u8 list result" where
  "pton6_finish s =
     (if p_seen s \<noteq> 0 \<and> p_tp s + 2 > 16 then Inl UV_EINVAL
      else
        let s = (if p_seen s \<noteq> 0 then s\<lparr>p_tmp := put16 (p_val s) (p_tp s) (p_tmp s), p_tp := p_tp s + 2\<rparr> else s)
        in case p_colonp s of
             Some c \<Rightarrow>
               (if p_tp s = 16 then Inl UV_EINVAL else Inr (shift_tail c (p_tp s - c) (p_tmp s)))
           | None \<Rightarrow> (if p_tp s \<noteq> 16 then Inl UV_EINVAL else Inr (p_tmp s)))"

definition pton6_start :: pton6_state where
  "pton6_start = \<lparr>p_seen = 0, p_val = 0, p_tp = 0, p_colonp = None, p_tmp = replicate 16 0\<rparr>"

definition inet_pton6 :: "string \<Rightarrow> u8 list result" where
  "inet_pton6 src =
     (let go = (\<lambda>src. case pton6_loop src src pton6_start of Inl e \<Rightarrow> Inl e | Inr s \<Rightarrow> pton6_finish s)
      in case src of
           c # src' \<Rightarrow>
             (if c = CHR '':'' then
                (case src' of
                   d # _ \<Rightarrow> (if d \<noteq> CHR '':'' then Inl UV_EINVAL else go src')
                 | [] \<Rightarrow> Inl UV_EINVAL)
              else go src)
         | [] \<Rightarrow> go src)"

definition uv_inet_pton :: "family \<Rightarrow> string \<Rightarrow> u8 list result" where
  "uv_inet_pton af src =
     (case af of
        AF_INET \<Rightarrow> inet_pton4 src
      | AF_INET6 \<Rightarrow>
          (if CHR ''%'' \<in> set src then
             let s = takeWhile (\<lambda>c. c \<noteq> CHR ''%'') src
             in if length s > UV__INET6_ADDRSTRLEN - 1 then Inl UV_EINVAL else inet_pton6 s
           else inet_pton6 src)
      | AF_OTHER \<Rightarrow> Inl UV_EAFNOSUPPORT)"

section \<open>Socket addresses\<close>

record sockaddr_in =
  sin_family :: family
  sin_port :: u16
  sin_addr :: "u8 list"

record sockaddr_in6 =
  sin6_family :: family
  sin6_port :: u16
  sin6_scope_id :: u32
  sin6_addr :: "u8 list"

text \<open>\<open>htons\<close> on a little-endian host swaps the bytes of the low 16 bits of the port.\<close>

definition htons :: "bool \<Rightarrow> int \<Rightarrow> u16" where
  "htons little_endian port =
     (let p = (word_of_int port :: u16) in if little_endian then or (push_bit 8 p) (drop_bit 8 p) else p)"

definition uv_ip4_addr :: "bool \<Rightarrow> string \<Rightarrow> int \<Rightarrow> ret \<times> sockaddr_in" where
  "uv_ip4_addr le ip port =
     (let addr = \<lparr>sin_family = AF_INET, sin_port = htons le port, sin_addr = replicate 4 0\<rparr>
      in case uv_inet_pton AF_INET ip of
           Inl e \<Rightarrow> (Inl e, addr)
         | Inr bs \<Rightarrow> (OK, addr\<lparr>sin_addr := bs\<rparr>))"

text \<open>The number of an interface (\<open>if_nametoindex\<close>) is a parameter of the system.\<close>

definition uv_ip6_addr :: "bool \<Rightarrow> (string \<Rightarrow> u32) \<Rightarrow> string \<Rightarrow> int \<Rightarrow> ret \<times> sockaddr_in6" where
  "uv_ip6_addr le if_nametoindex ip port =
     (let addr = \<lparr>sin6_family = AF_INET6, sin6_port = htons le port, sin6_scope_id = 0, sin6_addr = replicate 16 0\<rparr>;
          (ip, addr) =
            (if CHR ''%'' \<in> set ip then
               let part = takeWhile (\<lambda>c. c \<noteq> CHR ''%'') ip;
                   sz = (if length part \<ge> 40 then 40 - 1 else length part);
                   zone = drop (length part + 1) ip
               in (take sz part, addr\<lparr>sin6_scope_id := if_nametoindex zone\<rparr>)
             else (ip, addr))
      in case uv_inet_pton AF_INET6 ip of
           Inl e \<Rightarrow> (Inl e, addr)
         | Inr bs \<Rightarrow> (OK, addr\<lparr>sin6_addr := bs\<rparr>))"

definition uv_ip4_name :: "sockaddr_in \<Rightarrow> nat \<Rightarrow> string result" where
  "uv_ip4_name src sz = uv_inet_ntop AF_INET (sin_addr src) sz"

definition uv_ip6_name :: "sockaddr_in6 \<Rightarrow> nat \<Rightarrow> string result" where
  "uv_ip6_name src sz = uv_inet_ntop AF_INET6 (sin6_addr src) sz"

section \<open>IPv6: the words and the run of zeros\<close>

definition w16 :: "u8 \<Rightarrow> u8 \<Rightarrow> u32" where
  "w16 a b = or (push_bit 8 (ucast a)) (ucast b)"

fun pair_words :: "u8 list \<Rightarrow> u32 list" where
  "pair_words (a # b # bs) = w16 a b # pair_words bs"
| "pair_words _ = []"

fun word_bytes :: "u32 list \<Rightarrow> u8 list" where
  "word_bytes [] = []"
| "word_bytes (w # ws) = and (ucast (drop_bit 8 w)) 0xff # and (ucast w) 0xff # word_bytes ws"

definition put_byte :: "u8 list \<Rightarrow> nat \<Rightarrow> u32 list \<Rightarrow> u32 list" where
  "put_byte src i ws = ws[i div 2 := or (ws ! (i div 2)) (push_bit (push_bit 3 (1 - i mod 2)) (ucast (src ! i)))]"

lemma words_fold:
  "m \<le> 8 \<Longrightarrow> fold (put_byte src) [0..<2 * m] (replicate 8 0) =
     map (\<lambda>j. w16 (src ! (2 * j)) (src ! (2 * j + 1))) [0..<m] @ replicate (8 - m) 0"
proof (induction m)
  case (Suc m)
  let ?ws = "map (\<lambda>j. w16 (src ! (2 * j)) (src ! (2 * j + 1))) [0..<m]"
  have r: "replicate (8 - m) (0::u32) = 0 # replicate (8 - Suc m) 0"
    using Suc.prems by (simp add: replicate_Suc [symmetric] Suc_diff_Suc del: replicate_Suc)
  have "put_byte src (2 * m + 1) (put_byte src (2 * m) (?ws @ 0 # replicate (8 - Suc m) 0)) =
      ?ws @ w16 (src ! (2 * m)) (src ! (2 * m + 1)) # replicate (8 - Suc m) 0"
    by (simp add: put_byte_def list_update_append nth_append w16_def push_bit_eq_mult)
  then show ?case using Suc r by simp
qed simp

lemma pair_words_map: "length src = 2 * m \<Longrightarrow>
    pair_words src = map (\<lambda>j. w16 (src ! (2 * j)) (src ! (2 * j + 1))) [0..<m]"
proof (induction src arbitrary: m rule: pair_words.induct)
  case (1 a b bs)
  then obtain k where m: "m = Suc k" "length bs = 2 * k" by (cases m) auto
  have "map (\<lambda>j. w16 ((a # b # bs) ! (2 * j)) ((a # b # bs) ! (2 * j + 1))) [0..<Suc k] =
      w16 a b # map (\<lambda>j. w16 (bs ! (2 * j)) (bs ! (2 * j + 1))) [0..<k]"
    by (subst upt_conv_Cons) (simp_all add: map_Suc_upt [symmetric] del: upt_Suc)
  then show ?case using 1(1) [OF m(2)] m(1) by (simp del: upt_Suc)
qed (simp, (simp, presburger)?)+

lemma ntop6_words_pair: "length src = 16 \<Longrightarrow> ntop6_words src = pair_words src"
  using words_fold [of 8 src] pair_words_map [of src 8]
  unfolding ntop6_words_def put_byte_def [abs_def] by simp

lemma w16_bytes: "and (ucast (drop_bit 8 (w16 a b))) 0xff = a" "and (ucast (w16 a b)) 0xff = b"
proof -
  have "(0xff :: u8) = - 1" by simp
  then have m: "and x (0xff :: u8) = x" for x by (metis bit.conj_one_right)
  show "and (ucast (drop_bit 8 (w16 a b))) 0xff = a"
    unfolding m by (rule bit_word_eqI) (auto simp: w16_def bit_simps dest: bit_imp_le_length)
  show "and (ucast (w16 a b)) 0xff = b"
    unfolding m by (rule bit_word_eqI) (auto simp: w16_def bit_simps dest: bit_imp_le_length)
qed

lemma word_bytes_pair: "even (length bs) \<Longrightarrow> word_bytes (pair_words bs) = bs"
  by (induction bs rule: pair_words.induct) (auto simp: w16_bytes)

lemma w16_less: "unat (w16 a b) < 65536"
proof -
  have "w16 a b = take_bit 16 (w16 a b)"
    by (rule bit_word_eqI) (auto simp: w16_def bit_simps dest: bit_imp_le_length)
  then have "unat (w16 a b) = take_bit 16 (unat (w16 a b))" by (metis unsigned_take_bit_eq)
  then show ?thesis using take_bit_nat_less_exp [of 16 "unat (w16 a b)"] by simp
qed

lemma pair_words_less: "w \<in> set (pair_words bs) \<Longrightarrow> unat w < 65536"
  by (induction bs rule: pair_words.induct) (auto simp: w16_less)

lemma length_pair_words: "length (pair_words bs) = length bs div 2"
  by (induction bs rule: pair_words.induct) auto

text \<open>What the scan has found after the first \<open>k\<close> words.\<close>

definition zeros :: "u32 list \<Rightarrow> run \<Rightarrow> nat \<Rightarrow> bool" where
  "zeros ws r k \<longleftrightarrow> 0 \<le> r_base r \<and> 1 \<le> r_len r \<and> r_base r + r_len r \<le> int k \<and>
     (\<forall>j. r_base r \<le> int j \<and> int j < r_base r + r_len r \<longrightarrow> ws ! j = 0)"

definition scan_inv :: "u32 list \<Rightarrow> nat \<Rightarrow> run \<times> run \<Rightarrow> bool" where
  "scan_inv ws k bc \<longleftrightarrow>
     (r_base (fst bc) = - 1 \<or> zeros ws (fst bc) k) \<and>
     (r_base (snd bc) = - 1 \<or> zeros ws (snd bc) k \<and> r_base (snd bc) + r_len (snd bc) = int k)"

lemma zeros_mono: "zeros ws r k \<Longrightarrow> zeros ws r (Suc k)"
  by (auto simp: zeros_def)

lemma scan_inv_step: "scan_inv ws k bc \<Longrightarrow> scan_inv ws (Suc k) (run_step ws k bc)"
proof -
  assume inv: "scan_inv ws k bc"
  obtain b c where bc: "bc = (b, c)" by (cases bc)
  have ext: "zeros ws (c\<lparr>r_len := r_len c + 1\<rparr>) (Suc k)"
    if "ws ! k = 0" "zeros ws c k" "r_base c + r_len c = int k"
  proof -
    have "ws ! j = 0" if "r_base c \<le> int j" "int j < r_base c + (r_len c + 1)" for j
      using that \<open>zeros ws c k\<close> \<open>ws ! k = 0\<close> \<open>r_base c + r_len c = int k\<close>
      by (cases "j = k") (auto simp: zeros_def)
    then show ?thesis using that by (auto simp: zeros_def)
  qed
  have new: "ws ! k = 0 \<Longrightarrow> zeros ws \<lparr>r_base = int k, r_len = 1\<rparr> (Suc k)"
    by (auto simp: zeros_def)
  show ?thesis
    using inv ext new zeros_mono [of ws b k] zeros_mono [of ws c k]
    by (auto simp: bc scan_inv_def run_step_def run_end_def)
qed

lemma scan_inv_fold: "scan_inv ws k (fold (run_step ws) [0..<k] (no_run, no_run))"
proof (induction k)
  case 0
  show ?case by (simp add: scan_inv_def no_run_def)
next
  case (Suc k)
  then show ?case using scan_inv_step by simp
qed

lemma best_run_zeros: "r_base (best_run ws) = - 1 \<or> zeros ws (best_run ws) 8 \<and> 2 \<le> r_len (best_run ws)"
proof -
  obtain b c where bc: "fold (run_step ws) [0..<8] (no_run, no_run) = (b, c)" by fastforce
  then show ?thesis
    using scan_inv_fold [of ws 8] by (auto simp: best_run_def scan_inv_def run_end_def)
qed

section \<open>IPv6: the formatted text\<close>

definition hx :: "u32 \<Rightarrow> string" where "hx w = hex_nat (unat w)"

text \<open>Groups each preceded by a colon, and groups separated by colons.\<close>

definition sepcat :: "u32 list \<Rightarrow> string" where
  "sepcat ws = concat (map (\<lambda>w. CHR '':'' # hx w) ws)"

fun groups :: "u32 list \<Rightarrow> string" where
  "groups [] = []"
| "groups (w # ws) = hx w @ sepcat ws"

lemma sepcat_simps [simp]: "sepcat [] = []" "sepcat (w # ws) = CHR '':'' # hx w @ sepcat ws"
  "sepcat (xs @ ys) = sepcat xs @ sepcat ys"
  by (simp_all add: sepcat_def)

lemma groups_snoc: "groups (ws @ [w]) = groups ws @ (if ws = [] then [] else '':'') @ hx w"
  by (cases ws) auto

definition plain :: "nat \<Rightarrow> run \<Rightarrow> u32 list \<Rightarrow> bool" where
  "plain i best ws \<longleftrightarrow>
     \<not> (r_base best \<noteq> - 1 \<and> int i \<ge> r_base best \<and> int i < r_base best + r_len best) \<and>
     \<not> (i = 6 \<and> r_base best = 0 \<and> (r_len best = 6 \<or> r_len best = 7 \<and> ws ! 7 \<noteq> 1 \<or>
          r_len best = 5 \<and> ws ! 5 = 0xffff))"

lemma ntop6_plain:
  assumes "plain i best ws" and "i < 8"
  shows "ntop6_loop i best ws src tp =
    ntop6_loop (i + 1) best ws src (tp @ (if i \<noteq> 0 then '':'' else []) @ hx (ws ! i))"
  using assms by (subst ntop6_loop.simps) (auto simp: plain_def hx_def Let_def)

text \<open>Words before the run.\<close>

lemma ntop6_before:
  assumes "\<And>i. i < b \<Longrightarrow> plain i best ws" and "b \<le> 8" and "length ws = 8"
  shows "ntop6_loop 0 best ws src [] = ntop6_loop b best ws src (groups (take b ws))"
  using assms
proof (induction b)
  case (Suc b)
  have "groups (take (Suc b) ws) = groups (take b ws) @ (if b \<noteq> 0 then '':'' else []) @ hx (ws ! b)"
    using Suc.prems by (auto simp: take_Suc_conv_app_nth groups_snoc)
  then show ?case using Suc ntop6_plain [of b best ws] by simp
qed simp

text \<open>The run itself, which leaves one colon.\<close>

lemma ntop6_run_rest:
  assumes "r_base best = int b" and "r_len best = int l" and "i \<le> b + l" and "b < i" and "b + l \<le> 8"
  shows "ntop6_loop i best ws src tp = ntop6_loop (b + l) best ws src tp"
  using assms
proof (induction "b + l - i" arbitrary: i)
  case (Suc k)
  have "ntop6_loop i best ws src tp = ntop6_loop (i + 1) best ws src tp"
  proof -
    have "int i < int b + int l" "int i \<noteq> int b" "int b \<le> int i" "i < 8" using Suc(2-) by linarith+
    then show ?thesis using Suc(3,4) by (subst ntop6_loop.simps) simp
  qed
  moreover have "ntop6_loop (i + 1) best ws src tp = ntop6_loop (b + l) best ws src tp"
    by (rule Suc(1)) (use Suc(2-) in linarith)+
  ultimately show ?case by (rule trans)
qed simp

lemma ntop6_run:
  assumes "r_base best = int b" and "r_len best = int l" and "1 \<le> l" and "b + l \<le> 8"
  shows "ntop6_loop b best ws src tp = ntop6_loop (b + l) best ws src (tp @ '':'')"
  using assms ntop6_run_rest [OF assms(1,2), of "b + 1" ws src "tp @ '':''"]
  by (subst ntop6_loop.simps) auto

text \<open>Words after the run.\<close>

lemma ntop6_after:
  assumes "\<And>j. i \<le> j \<Longrightarrow> j < 8 \<Longrightarrow> plain j best ws" and "0 < i" and "i \<le> 8" and "length ws = 8"
  shows "ntop6_loop i best ws src tp = Inr (tp @ sepcat (drop i ws))"
  using assms
proof (induction "8 - i" arbitrary: i tp)
  case 0
  then show ?case by (simp add: ntop6_loop.simps)
next
  case (Suc k)
  then have "drop i ws = ws ! i # drop (i + 1) ws" by (simp add: Cons_nth_drop_Suc)
  then show ?case using Suc(1) [of "i + 1"] Suc(2-) ntop6_plain [of i best ws] by simp
qed

definition ntop6_text :: "u8 list \<Rightarrow> string" where
  "ntop6_text src =
     (let ws = pair_words src; best = best_run ws; b = nat (r_base best); l = nat (r_len best)
      in if r_base best = - 1 then groups ws
         else if b = 0 \<and> l = 6 then ''::'' @ ntop4_text (drop 12 src)
         else if b = 0 \<and> l = 5 \<and> ws ! 5 = 0xffff then ''::'' @ hx (ws ! 5) @ '':'' @ ntop4_text (drop 12 src)
         else groups (take b ws) @ ''::'' @ groups (drop (b + l) ws))"

lemma length_dec_u8: "length (dec_nat (unat (b :: u8))) \<le> 3" "0 < length (dec_nat (unat b))"
proof -
  have "unat b < 256" using unsigned_less [of b, where 'a = nat] by simp
  then show "length (dec_nat (unat b)) \<le> 3"
    by (simp add: dec_nat.simps [of "unat b"] dec_nat.simps [of "unat b div 10"] dec_nat.simps [of "unat b div 10 div 10"])
qed simp

lemma length_ntop4: "length (ntop4_text bs) \<le> 15" "ntop4_text bs \<noteq> []"
  using length_dec_u8 [of "bs ! 0"] length_dec_u8 [of "bs ! 1"] length_dec_u8 [of "bs ! 2"] length_dec_u8 [of "bs ! 3"]
  by (auto simp: ntop4_text_def)

lemma ntop4_ok: "15 < sz \<Longrightarrow> inet_ntop4 bs sz = Inr (ntop4_text bs)"
  using length_ntop4 [of bs] by (auto simp: inet_ntop4_def Let_def UV__INET_ADDRSTRLEN_def)

lemma length_hx: "unat w < 65536 \<Longrightarrow> length (hx w) \<le> 4"
  by (simp add: hx_def hex_nat.simps [of "unat w"] hex_nat.simps [of "unat w div 16"]
      hex_nat.simps [of "unat w div 16 div 16"] hex_nat.simps [of "unat w div 16 div 16 div 16"])

lemma groups_sepcat: "ws \<noteq> [] \<Longrightarrow> sepcat ws = CHR '':'' # groups ws"
  by (cases ws) auto

lemma ntop6_loop_text:
  assumes "length src = 16"
  defines "ws \<equiv> pair_words src"
  defines "best \<equiv> best_run ws"
  shows "\<exists>tp. ntop6_loop 0 best ws src [] = Inr tp \<and>
    ntop6_text src = (if r_base best \<noteq> - 1 \<and> r_base best + r_len best = 8 then tp @ '':'' else tp)"
proof (cases "r_base best = - 1")
  case True
  have "ntop6_loop 0 best ws src [] = ntop6_loop 1 best ws src (hx (ws ! 0))"
    using ntop6_plain [of 0 best ws src "[]"] True by (simp add: plain_def)
  moreover have len: "length ws = 8" using assms by (simp add: length_pair_words)
  moreover have "ntop6_loop 1 best ws src (hx (ws ! 0)) = Inr (hx (ws ! 0) @ sepcat (drop 1 ws))"
    by (rule ntop6_after) (use True len in \<open>auto simp: plain_def\<close>)
  moreover have "groups ws = hx (ws ! 0) @ sepcat (drop 1 ws)" using len by (cases ws) auto
  ultimately show ?thesis using True by (simp add: ntop6_text_def Let_def ws_def best_def)
next
  case False
  define b l where "b = nat (r_base best)" and "l = nat (r_len best)"
  have z: "zeros ws best 8" "2 \<le> r_len best" using best_run_zeros [of ws] False by (auto simp: best_def)
  then have bl: "r_base best = int b" "r_len best = int l" "2 \<le> l" "b + l \<le> 8"
    by (auto simp: zeros_def b_def l_def)
  have len: "length ws = 8" using assms by (simp add: length_pair_words)
  have head: "ntop6_loop 0 best ws src [] = ntop6_loop (b + l) best ws src (groups (take b ws) @ '':'')"
    using ntop6_before [of b best ws src] ntop6_run [OF bl(1,2) _ bl(4), of ws src] bl len
    by (auto simp: plain_def)
  consider (v6) "b = 0" "l = 6" | (v5) "b = 0" "l = 5" "ws ! 5 = 0xffff"
    | (other) "\<not> (b = 0 \<and> l = 6)" "\<not> (b = 0 \<and> l = 5 \<and> ws ! 5 = 0xffff)" by blast
  then show ?thesis
  proof cases
    case v6
    then have "ntop6_loop 6 best ws src '':'' = Inr (''::'' @ ntop4_text (drop 12 src))"
      using bl ntop4_ok [of "46 - 2"] by (subst ntop6_loop.simps) (simp add: UV__INET6_ADDRSTRLEN_def)
    then show ?thesis using head v6 bl False
      by (simp add: ntop6_text_def Let_def ws_def [symmetric] best_def [symmetric])
  next
    case v5
    have "length (hx (ws ! 5)) \<le> 4"
      by (rule length_hx) (use v5 in simp)
    then have "ntop6_loop 6 best ws src (''::'' @ hx (ws ! 5)) = Inr (''::'' @ hx (ws ! 5) @ '':'' @ ntop4_text (drop 12 src))"
      using bl v5 ntop4_ok [of "46 - (3 + length (hx (ws ! 5)))"]
      by (subst ntop6_loop.simps) (simp add: UV__INET6_ADDRSTRLEN_def)
    moreover have "ntop6_loop 5 best ws src '':'' = ntop6_loop 6 best ws src (''::'' @ hx (ws ! 5))"
      using ntop6_plain [of 5 best ws src "'':''"] bl v5 by (simp add: plain_def)
    ultimately show ?thesis using head v5 bl False
      by (simp add: ntop6_text_def Let_def ws_def [symmetric] best_def [symmetric])
  next
    case other
    have "ntop6_loop (b + l) best ws src (groups (take b ws) @ '':'') =
        Inr ((groups (take b ws) @ '':'') @ sepcat (drop (b + l) ws))"
      by (rule ntop6_after) (use bl len other in \<open>auto simp: plain_def\<close>)
    moreover have "sepcat (drop (b + l) ws) = CHR '':'' # groups (drop (b + l) ws)" if "b + l \<noteq> 8"
      by (rule groups_sepcat) (use that len bl in auto)
    ultimately show ?thesis using head other bl False len
      by (auto simp: ntop6_text_def Let_def ws_def [symmetric] best_def [symmetric])
  qed
qed

lemma inet_ntop6_eq:
  assumes "length src = 16"
  shows "inet_ntop6 src sz = (if length (ntop6_text src) + 1 > sz then Inl UV_ENOSPC else Inr (ntop6_text src))"
  using ntop6_loop_text [OF assms] by (auto simp: inet_ntop6_def Let_def ntop6_words_pair [OF assms])

section \<open>IPv6: parsing the formatted text\<close>

lemma hex_digit_char [simp]: "d < 16 \<Longrightarrow> hex_digit (hex_char d) = Some d"
  by (auto simp: hex_digit_def hex_char_def Let_def)

lemma hex_digit_dec [simp]: "d < 10 \<Longrightarrow> hex_digit (digit_char d) = Some d"
  by (auto simp: hex_digit_def Let_def)

lemma hex_digit_other [simp]: "hex_digit CHR '':'' = None" "hex_digit CHR ''.'' = None"
  by (simp_all add: hex_digit_def Let_def)

lemma shift_or:
  assumes "v < 2 ^ 28" and "d < 16"
  shows "or (push_bit 4 (of_nat v)) (of_nat d) = (of_nat (v * 16 + d) :: u32)"
proof -
  have "take_bit 4 d = d" using assms(2) by (simp add: take_bit_nat_eq_self)
  then have b: "\<not> bit d n" if "4 \<le> n" for n using that by (metis bit_take_bit_iff not_le)
  then have "push_bit 4 (of_nat v) + of_nat d = or (push_bit 4 (of_nat v)) (of_nat d :: u32)"
    by (intro disjunctive_add) (auto simp: bit_simps)
  moreover have "push_bit 4 (of_nat v) + of_nat d = (of_nat (v * 16 + d) :: u32)"
    by (simp add: push_bit_eq_mult)
  ultimately show ?thesis by simp
qed

text \<open>Reading digits.\<close>

definition hex_run :: "nat list \<Rightarrow> u32 \<Rightarrow> u32" where
  "hex_run ds v = foldl (\<lambda>v d. or (push_bit 4 v) (of_nat d)) v ds"

lemma pton6_digits:
  assumes "list_all2 (\<lambda>c d. hex_digit c = Some d) cs ds" and "p_seen s + length cs \<le> 4"
  shows "pton6_loop (cs @ rest) ct s =
    pton6_loop rest ct (s\<lparr>p_val := hex_run ds (p_val s), p_seen := p_seen s + length cs\<rparr>)"
  using assms
proof (induction cs ds arbitrary: s rule: list_all2_induct)
  case (Cons c cs d ds)
  then show ?case by (simp add: Let_def hex_run_def)
qed (simp add: hex_run_def)

lemma hex_nat_snoc: "0 < a \<Longrightarrow> d < 16 \<Longrightarrow> hex_nat (a * 16 + d) = hex_nat a @ [hex_char d]"
  by (subst hex_nat.simps) auto

lemma hex_nat_small: "d < 16 \<Longrightarrow> hex_nat d = [hex_char d]"
  by (subst hex_nat.simps) auto

text \<open>The digits of a number and its text.\<close>

fun hex_digits :: "nat \<Rightarrow> nat list" where
  "hex_digits n = (if n < 16 then [n] else hex_digits (n div 16) @ [n mod 16])"

declare hex_digits.simps [simp del]

lemma hex_nat_digits: "hex_nat n = map hex_char (hex_digits n)"
  by (induction n rule: hex_digits.induct) (simp add: hex_digits.simps hex_nat.simps)

lemma hex_digits_less: "d \<in> set (hex_digits n) \<Longrightarrow> d < 16"
proof (induction n rule: hex_digits.induct)
  case (1 n)
  then show ?case by (cases "n < 16") (auto simp: hex_digits.simps [of n])
qed

lemma hex_run_digits: "n < 2 ^ 16 \<Longrightarrow> hex_run (hex_digits n) 0 = of_nat n"
proof (induction n rule: hex_digits.induct)
  case (1 n)
  show ?case
  proof (cases "n < 16")
    case True
    then show ?thesis by (simp add: hex_digits.simps [of n] hex_run_def)
  next
    case False
    then have "hex_run (hex_digits n) 0 = or (push_bit 4 (of_nat (n div 16))) (of_nat (n mod 16))"
      using 1 by (simp add: hex_digits.simps [of n] hex_run_def)
    also have "\<dots> = of_nat (n div 16 * 16 + n mod 16)"
      by (rule shift_or) (use 1(2) in auto)
    finally show ?thesis by simp
  qed
qed

lemma pton6_group:
  assumes "unat w < 65536" and "p_seen s = 0" and "p_val s = 0"
  shows "pton6_loop (hx w @ rest) ct s = pton6_loop rest ct (s\<lparr>p_val := w, p_seen := length (hx w)\<rparr>)"
proof -
  have "list_all2 (\<lambda>c d. hex_digit c = Some d) (hx w) (hex_digits (unat w))"
    using hex_digits_less by (auto simp: hx_def hex_nat_digits list_all2_map1 list.rel_refl_strong)
  moreover have "hex_run (hex_digits (unat w)) 0 = w"
    using hex_run_digits [of "unat w"] assms(1) by simp
  ultimately show ?thesis using pton6_digits [of "hx w" "hex_digits (unat w)" s rest ct] length_hx [OF assms(1)] assms(2,3)
    by simp
qed

text \<open>The parser's state between groups, when the bytes \<open>out\<close> have been written.\<close>

definition st :: "nat option \<Rightarrow> u8 list \<Rightarrow> pton6_state" where
  "st cp out = \<lparr>p_seen = 0, p_val = 0, p_tp = length out, p_colonp = cp,
     p_tmp = out @ replicate (16 - length out) 0\<rparr>"

lemma put16_out:
  assumes "length out + 2 \<le> 16"
  shows "put16 w (length out) (out @ replicate (16 - length out) 0) =
    (out @ word_bytes [w]) @ replicate (16 - length (out @ word_bytes [w])) 0"
proof -
  have "replicate (16 - length out) (0::u8) = 0 # 0 # replicate (14 - length out) 0"
    using assms by (simp add: replicate_Suc [symmetric] Suc_diff_le numeral_eq_Suc del: replicate_Suc)
  then show ?thesis by (simp add: put16_def list_update_append)
qed

lemma hx_nonempty [simp]: "hx w \<noteq> []"
  by (simp add: hx_def hex_nat_digits) (subst hex_digits.simps, simp)

lemma pton6_group_colon:
  assumes "unat w < 65536" and "length out + 2 \<le> 16" and "rest \<noteq> []"
  shows "pton6_loop (hx w @ CHR '':'' # rest) ct (st cp out) = pton6_loop rest rest (st cp (out @ word_bytes [w]))"
  using pton6_group [OF assms(1), of "st cp out" "CHR '':'' # rest" ct] assms(2,3) put16_out [OF assms(2), of w]
  by (simp add: st_def)

text \<open>Groups up to the end, the last one still pending.\<close>

lemma pton6_groups_end:
  assumes "\<And>w. w \<in> set ws \<Longrightarrow> unat w < 65536" and "ws \<noteq> []" and "length out + 2 * length ws \<le> 16"
  shows "\<exists>s. pton6_loop (groups ws) ct (st cp out) = Inr s \<and> pton6_finish s = pton6_finish (st cp (out @ word_bytes ws))"
  using assms
proof (induction ws arbitrary: out ct)
  case (Cons w ws)
  have w: "unat w < 65536" using Cons.prems(1) by simp
  show ?case
  proof (cases ws)
    case Nil
    then have "pton6_loop (groups (w # ws)) ct (st cp out) = Inr ((st cp out)\<lparr>p_val := w, p_seen := length (hx w)\<rparr>)"
      using pton6_group [OF w, of "st cp out" "[]" ct] by (simp add: st_def)
    then show ?thesis using Cons.prems(3) Nil put16_out [of out w]
      by (auto simp: pton6_finish_def st_def Let_def split: option.split)
  next
    case (Cons v vs)
    have "groups (w # ws) = hx w @ CHR '':'' # groups ws" using Cons by simp
    moreover have "groups ws \<noteq> []" using Cons by simp
    moreover obtain s where "pton6_loop (groups ws) (groups ws) (st cp (out @ word_bytes [w])) = Inr s"
      "pton6_finish s = pton6_finish (st cp ((out @ word_bytes [w]) @ word_bytes ws))"
      using Cons.IH [of "out @ word_bytes [w]" "groups ws"] Cons.prems Cons by auto
    ultimately show ?thesis using pton6_group_colon [OF w, of out "groups ws" ct cp] Cons.prems(3) Cons by auto
  qed
qed simp

text \<open>Groups each followed by a colon.\<close>

lemma pton6_groups_colon:
  assumes "\<And>w. w \<in> set ws \<Longrightarrow> unat w < 65536" and "ws \<noteq> []" and "length out + 2 * length ws \<le> 16" and "rest \<noteq> []"
  shows "pton6_loop (groups ws @ CHR '':'' # rest) ct (st cp out) = pton6_loop rest rest (st cp (out @ word_bytes ws))"
  using assms
proof (induction ws arbitrary: out ct)
  case (Cons w ws)
  have w: "unat w < 65536" using Cons.prems(1) by simp
  show ?case
  proof (cases ws)
    case Nil
    then show ?thesis using pton6_group_colon [OF w, of out rest ct cp] Cons.prems by simp
  next
    case (Cons v vs)
    then have "groups (w # ws) @ CHR '':'' # rest = hx w @ CHR '':'' # (groups ws @ CHR '':'' # rest)" by simp
    then show ?thesis
      using pton6_group_colon [OF w, of out "groups ws @ CHR '':'' # rest" ct cp]
        Cons.IH [of "out @ word_bytes [w]" "groups ws @ CHR '':'' # rest"] Cons.prems Cons by simp
  qed
qed simp

text \<open>A trailing IPv4 address.\<close>

lemma pton6_ntop4:
  assumes "length bs = 4" and "length out + 4 \<le> 16"
  shows "\<exists>s. pton6_loop (ntop4_text bs) (ntop4_text bs) (st cp out) = Inr s \<and>
    pton6_finish s = pton6_finish (st cp (out @ bs))"
proof -
  let ?t = "ntop4_text bs" and ?d = "dec_nat (unat (bs ! 0))"
  obtain r where t: "?t = ?d @ CHR ''.'' # r" by (simp add: ntop4_text_def)
  have "list_all2 (\<lambda>c d. hex_digit c = Some d) ?d (map digit_val ?d)"
    using dec_nat_digits
    by (auto simp: list_all2_map2 hex_digit_def is_digit_def digit_val_def Let_def intro!: list.rel_refl_strong)
  then have "pton6_loop ?t ?t (st cp out) =
      pton6_loop (CHR ''.'' # r) ?t ((st cp out)\<lparr>p_val := hex_run (map digit_val ?d) 0, p_seen := length ?d\<rparr>)"
    using pton6_digits [of ?d "map digit_val ?d" "st cp out" "CHR ''.'' # r" ?t] length_dec_u8 [of "bs ! 0"]
    by (subst t) (simp add: st_def)
  also have "\<dots> = Inr (\<lparr>p_seen = 0, p_val = hex_run (map digit_val ?d) 0, p_tp = length out + 4, p_colonp = cp,
      p_tmp = out @ bs @ replicate (16 - (length out + 4)) 0\<rparr>)"
    using assms pton4_ntop4 [OF assms(1)] by (simp add: st_def add.commute)
  finally show ?thesis using assms(1) by (auto simp: pton6_finish_def st_def Let_def add.commute split: option.split)
qed

section \<open>IPv6: the final shift\<close>

lemma shift_fold:
  fixes out :: "u8 list"
  assumes "c + n < 16" and "length out = c + n" and "k \<le> n"
  shows "fold (\<lambda>i t. t[16 - i := t ! (c + (n - i)), c + (n - i) := 0]) [1..<k + 1] (out @ replicate (16 - (c + n)) 0) =
    take (c + n - k) out @ replicate (16 - (c + n)) 0 @ drop (c + n - k) out"
  using assms(3)
proof (induction k)
  case (Suc k)
  define m where "m = c + n - Suc k"
  define z where "z = 15 - (c + n)"
  have m: "c + n - k = Suc m" "m < length out" "c + (n - Suc k) = m" using Suc.prems assms by (auto simp: m_def)
  have tk: "take (Suc m) out = take m out @ [out ! m]" and dr: "drop m out = out ! m # drop (Suc m) out"
    using m by (simp_all add: take_Suc_conv_app_nth Cons_nth_drop_Suc)
  have z: "16 - (c + n) = Suc z" "16 - Suc k = m + 1 + z" using assms Suc.prems by (auto simp: z_def m_def)
  let ?t = "take m out @ [out ! m] @ replicate (Suc z) 0 @ drop (Suc m) out"
  have nth: "?t ! m = out ! m" using m by (simp add: nth_append)
  have rep: "replicate (Suc k) x @ R = replicate k x @ x # R" for k R and x :: u8
    by (induction k) simp_all
  have eq: "?t = (take m out @ [out ! m] @ replicate z 0) @ 0 # drop (Suc m) out"
    by (simp only: rep append_assoc append_Cons append_Nil)
  have idx: "m + 1 + z = length (take m out @ [out ! m] @ replicate z 0)" using m by simp
  have "?t[m + 1 + z := out ! m] = (take m out @ [out ! m] @ replicate z 0) @ out ! m # drop (Suc m) out"
    unfolding eq idx by (rule list_update_length)
  then have up: "?t[m + 1 + z := out ! m] = take m out @ [out ! m] @ replicate z 0 @ [out ! m] @ drop (Suc m) out"
    by simp
  have up2: "(take m out @ [out ! m] @ replicate z 0 @ [out ! m] @ drop (Suc m) out)[m := 0] =
      take m out @ replicate (Suc z) 0 @ drop m out"
    using m dr by (simp add: list_update_append)
  have IH: "fold (\<lambda>i t. t[16 - i := t ! (c + (n - i)), c + (n - i) := 0]) [1..<k + 1] (out @ replicate (16 - (c + n)) 0) = ?t"
    using Suc by (simp add: m(1) z(1) tk del: replicate_Suc)
  have "fold (\<lambda>i t. t[16 - i := t ! (c + (n - i)), c + (n - i) := 0]) [1..<Suc k + 1] (out @ replicate (16 - (c + n)) 0) =
      ?t[16 - Suc k := ?t ! (c + (n - Suc k)), c + (n - Suc k) := 0]"
    using IH by (simp del: replicate_Suc)
  also have "\<dots> = take m out @ replicate (Suc z) 0 @ drop m out"
    using up up2 nth m(3) z(2) by simp
  finally show ?case using z(1) by (simp add: m_def)
qed (use assms in simp)

lemma pton6_finish_st:
  assumes "length out \<le> 16" and "\<And>c. cp = Some c \<Longrightarrow> c \<le> length out \<and> length out < 16"
    and "cp = None \<Longrightarrow> length out = 16"
  shows "pton6_finish (st cp out) =
    Inr (case cp of None \<Rightarrow> out | Some c \<Rightarrow> take c out @ replicate (16 - length out) 0 @ drop c out)"
proof (cases cp)
  case None
  then show ?thesis using assms(3) by (simp add: pton6_finish_def st_def)
next
  case (Some c)
  then have c: "c \<le> length out" "length out < 16" using assms(2) by auto
  have "shift_tail c (length out - c) (out @ replicate (16 - length out) 0) =
      take c out @ replicate (16 - length out) 0 @ drop c out"
    using shift_fold [of c "length out - c" out "length out - c"] c by (simp add: shift_tail_def)
  then show ?thesis using Some c by (simp add: pton6_finish_def st_def)
qed

section \<open>The IPv6 round trip\<close>

lemma word_bytes_append [simp]: "word_bytes (xs @ ys) = word_bytes xs @ word_bytes ys"
  by (induction xs) auto

lemma length_word_bytes [simp]: "length (word_bytes ws) = 2 * length ws"
  by (induction ws) auto

lemma word_bytes_zeros: "word_bytes (replicate l 0) = replicate (2 * l) 0"
  by (induction l) auto

lemma word_bytes_drop: "word_bytes (drop k ws) = drop (2 * k) (word_bytes ws)"
proof (induction k arbitrary: ws)
  case (Suc k)
  then show ?case by (cases ws) auto
qed simp

text \<open>A second colon, then the groups after the run.\<close>

lemma pton6_compressed:
  assumes "\<And>w. w \<in> set ws \<Longrightarrow> unat w < 65536" and "length out + 2 * length ws < 16"
  shows "\<exists>s. pton6_loop (CHR '':'' # groups ws) ct (st None out) = Inr s \<and>
    pton6_finish s = Inr (out @ replicate (16 - (length out + 2 * length ws)) 0 @ word_bytes ws)"
proof -
  have colon: "pton6_loop (CHR '':'' # groups ws) ct (st None out) =
      pton6_loop (groups ws) (groups ws) (st (Some (length out)) out)"
    by (simp add: st_def)
  have fin: "pton6_finish (st (Some (length out)) (out @ word_bytes ws)) =
      Inr (out @ replicate (16 - (length out + 2 * length ws)) 0 @ word_bytes ws)"
    using pton6_finish_st [of "out @ word_bytes ws" "Some (length out)"] assms(2) by simp
  show ?thesis
  proof (cases "ws = []")
    case True
    then show ?thesis using colon fin by simp
  next
    case False
    then show ?thesis using colon fin pton6_groups_end [OF assms(1) False, of out "groups ws" "Some (length out)"] assms(2)
      by auto
  qed
qed

lemma hx_head: "\<exists>c r. hx w = c # r \<and> c \<noteq> CHR '':''"
proof (cases "hx w")
  case (Cons c r)
  then have "c \<in> set (hx w)" by simp
  then obtain d where "c = hex_char d" "d < 16"
    using hex_digits_less by (auto simp: hx_def hex_nat_digits)
  then have "hex_digit c = Some d" by simp
  then show ?thesis using Cons by auto
qed simp

lemma inet_pton6_colon: "inet_pton6 (''::'' @ r) =
    (case pton6_loop (CHR '':'' # r) (CHR '':'' # r) pton6_start of Inl e \<Rightarrow> Inl e | Inr s \<Rightarrow> pton6_finish s)"
  by (simp add: inet_pton6_def Let_def)

lemma inet_pton6_group: "inet_pton6 (hx w @ r) =
    (case pton6_loop (hx w @ r) (hx w @ r) pton6_start of Inl e \<Rightarrow> Inl e | Inr s \<Rightarrow> pton6_finish s)"
  using hx_head [of w] by (auto simp: inet_pton6_def Let_def)

lemma start_st: "pton6_start = st None []"
  by (simp add: pton6_start_def st_def)

lemma inet_pton6_compressed:
  assumes "\<And>w. w \<in> set (ws @ vs) \<Longrightarrow> unat w < 65536" and "length ws + length vs < 8"
  shows "inet_pton6 (groups ws @ ''::'' @ groups vs) =
    Inr (word_bytes ws @ replicate (16 - 2 * (length ws + length vs)) 0 @ word_bytes vs)"
proof (cases ws)
  case Nil
  obtain s where "pton6_loop (CHR '':'' # groups vs) (CHR '':'' # groups vs) (st None []) = Inr s"
    "pton6_finish s = Inr ([] @ replicate (16 - (length ([] :: u8 list) + 2 * length vs)) 0 @ word_bytes vs)"
    using pton6_compressed [of vs "[]" "CHR '':'' # groups vs"] assms Nil by auto
  then show ?thesis
    using Nil inet_pton6_colon [of "groups vs"] by (simp add: start_st del: pton6_loop.simps)
next
  case (Cons w us)
  let ?r = "CHR '':'' # groups vs"
  have "inet_pton6 (groups ws @ CHR '':'' # ?r) =
      (case pton6_loop (groups ws @ CHR '':'' # ?r) (groups ws @ CHR '':'' # ?r) pton6_start of
         Inl e \<Rightarrow> Inl e | Inr s \<Rightarrow> pton6_finish s)"
    using inet_pton6_group [of w "sepcat us @ CHR '':'' # ?r"] Cons by simp
  moreover have "pton6_loop (groups ws @ CHR '':'' # ?r) (groups ws @ CHR '':'' # ?r) pton6_start =
      pton6_loop ?r ?r (st None ([] @ word_bytes ws))"
    unfolding start_st by (rule pton6_groups_colon) (use assms Cons in auto)
  moreover obtain s where "pton6_loop ?r ?r (st None (word_bytes ws)) = Inr s"
    "pton6_finish s = Inr (word_bytes ws @ replicate (16 - (2 * length ws + 2 * length vs)) 0 @ word_bytes vs)"
    using pton6_compressed [of vs "word_bytes ws" ?r] assms by (auto simp del: pton6_loop.simps)
  ultimately show ?thesis by (simp del: pton6_loop.simps)
qed

lemma inet_pton6_v4:
  assumes "length bs = 4" and "\<And>w. w \<in> set ws \<Longrightarrow> unat w < 65536" and "length ws \<le> 5"
  shows "inet_pton6 (''::'' @ concat (map (\<lambda>w. hx w @ '':'') ws) @ ntop4_text bs) =
    Inr (replicate (12 - 2 * length ws) 0 @ word_bytes ws @ bs)"
proof -
  have *: "\<exists>s. pton6_loop (concat (map (\<lambda>w. hx w @ '':'') ws) @ ntop4_text bs)
        (concat (map (\<lambda>w. hx w @ '':'') ws) @ ntop4_text bs) (st cp out) = Inr s \<and>
      pton6_finish s = pton6_finish (st cp (out @ word_bytes ws @ bs))"
    if "length out + 2 * length ws + 4 \<le> 16" for out cp
    using assms(2) that
  proof (induction ws arbitrary: out)
    case Nil
    then show ?case using pton6_ntop4 [OF assms(1), of out cp] by simp
  next
    case (Cons w ws)
    let ?r = "concat (map (\<lambda>w. hx w @ '':'') ws) @ ntop4_text bs"
    have "?r \<noteq> []" using length_ntop4 by simp
    then have "pton6_loop (hx w @ CHR '':'' # ?r) ct (st cp out) = pton6_loop ?r ?r (st cp (out @ word_bytes [w]))" for ct
      by (intro pton6_group_colon) (use Cons.prems in auto)
    then show ?case using Cons.IH [of "out @ word_bytes [w]"] Cons.prems by simp
  qed
  let ?t = "concat (map (\<lambda>w. hx w @ '':'') ws) @ ntop4_text bs"
  have "pton6_loop (CHR '':'' # ?t) (CHR '':'' # ?t) pton6_start = pton6_loop ?t ?t (st (Some 0) [])"
    by (simp add: start_st st_def)
  moreover have "pton6_finish (st (Some 0) (word_bytes ws @ bs)) =
      Inr (replicate (12 - 2 * length ws) 0 @ word_bytes ws @ bs)"
    using pton6_finish_st [of "word_bytes ws @ bs" "Some 0"] assms(1,3) by simp
  ultimately show ?thesis using * [of "[]" "Some 0"] assms(3) inet_pton6_colon [of ?t] by auto
qed

lemma zeros_replicate:
  assumes "zeros ws r 8" and "length ws = 8"
  shows "ws = take (nat (r_base r)) ws @ replicate (nat (r_len r)) 0 @ drop (nat (r_base r) + nat (r_len r)) ws"
proof -
  define b l where "b = nat (r_base r)" and "l = nat (r_len r)"
  have bl: "b + l \<le> 8" "r_base r = int b" "r_len r = int l" using assms(1) by (auto simp: zeros_def b_def l_def)
  have "take l (drop b ws) = replicate l 0"
    using assms bl by (intro nth_equalityI) (auto simp: zeros_def)
  then show ?thesis unfolding b_def [symmetric] l_def [symmetric]
    by (metis append_take_drop_id drop_drop add.commute)
qed

lemma pton6_ntop6_text:
  assumes "length src = 16"
  shows "inet_pton6 (ntop6_text src) = Inr src"
proof -
  define ws where "ws = pair_words src"
  define r where "r = best_run ws"
  have len: "length ws = 8" using assms by (simp add: ws_def length_pair_words)
  have src: "word_bytes ws = src" using word_bytes_pair [of src] assms by (simp add: ws_def)
  have lt: "unat w < 65536" if "w \<in> set ws" for w using pair_words_less that by (simp add: ws_def)
  show ?thesis
  proof (cases "r_base r = - 1")
    case True
    obtain w us where w: "ws = w # us" using len by (cases ws) auto
    obtain s where "pton6_loop (groups ws) (groups ws) (st None []) = Inr s" "pton6_finish s = pton6_finish (st None src)"
      using pton6_groups_end [of ws "[]" "groups ws" None] lt len src w by auto
    then show ?thesis
      using True inet_pton6_group [of w "sepcat us"] arg_cong [OF w, of groups] pton6_finish_st [of src None] assms
      by (simp add: ntop6_text_def Let_def ws_def [symmetric] r_def [symmetric] start_st)
  next
    case False
    define b l where "b = nat (r_base r)" and "l = nat (r_len r)"
    have z: "zeros ws r 8" "2 \<le> r_len r" using best_run_zeros [of ws] False by (auto simp: r_def)
    then have bl: "2 \<le> l" "b + l \<le> 8" by (auto simp: zeros_def b_def l_def)
    have split: "ws = take b ws @ replicate l 0 @ drop (b + l) ws"
      using zeros_replicate [OF z(1) len] by (simp add: b_def l_def)
    have src': "src = word_bytes (take b ws) @ replicate (2 * l) 0 @ word_bytes (drop (b + l) ws)"
      using arg_cong [OF split, of word_bytes] src by (simp add: word_bytes_zeros)
    have d12: "length (drop 12 src) = 4" "word_bytes (drop 6 ws) = drop 12 src"
      using assms src by (simp_all add: word_bytes_drop)
    have tx: "ntop6_text src =
        (if b = 0 \<and> l = 6 then ''::'' @ ntop4_text (drop 12 src)
         else if b = 0 \<and> l = 5 \<and> ws ! 5 = 0xffff then ''::'' @ hx (ws ! 5) @ '':'' @ ntop4_text (drop 12 src)
         else groups (take b ws) @ ''::'' @ groups (drop (b + l) ws))"
      using False by (simp add: ntop6_text_def Let_def ws_def r_def b_def l_def)
    consider (v6) "b = 0" "l = 6" | (v5) "b = 0" "l = 5" "ws ! 5 = 0xffff"
      | (other) "\<not> (b = 0 \<and> l = 6)" "\<not> (b = 0 \<and> l = 5 \<and> ws ! 5 = 0xffff)" by blast
    then show ?thesis
    proof cases
      case v6
      then have "src = replicate 12 0 @ word_bytes (drop 6 ws)" using src' by simp
      then have "src = replicate 12 0 @ drop 12 src" using d12(2) by argo
      moreover have "inet_pton6 (ntop6_text src) = Inr (replicate 12 0 @ drop 12 src)"
        using tx inet_pton6_v4 [OF d12(1), of "[]"] v6 by simp
      ultimately show ?thesis by argo
    next
      case v5
      have "drop 5 ws = ws ! 5 # drop 6 ws" using len by (simp add: Cons_nth_drop_Suc [symmetric])
      then have "src = replicate 10 0 @ word_bytes [ws ! 5] @ word_bytes (drop 6 ws)"
        using src' v5 by simp
      then have "src = replicate 10 0 @ word_bytes [ws ! 5] @ drop 12 src" using d12(2) by argo
      moreover have "inet_pton6 (ntop6_text src) = Inr (replicate 10 0 @ word_bytes [ws ! 5] @ drop 12 src)"
        using tx inet_pton6_v4 [OF d12(1), of "[ws ! 5]"] v5 by simp
      ultimately show ?thesis by argo
    next
      case other
      have "inet_pton6 (groups (take b ws) @ ''::'' @ groups (drop (b + l) ws)) =
          Inr (word_bytes (take b ws) @ replicate (16 - 2 * (length (take b ws) + length (drop (b + l) ws))) 0 @
            word_bytes (drop (b + l) ws))"
        by (rule inet_pton6_compressed) (use lt bl len in \<open>auto dest: in_set_takeD in_set_dropD\<close>)
      moreover have "16 - 2 * (length (take b ws) + length (drop (b + l) ws)) = 2 * l" using bl len by simp
      ultimately show ?thesis using tx other src' by simp
    qed
  qed
qed

section \<open>Properties\<close>

lemma length_sepcat: "(\<And>w. w \<in> set ws \<Longrightarrow> unat w < 65536) \<Longrightarrow> length (sepcat ws) \<le> 5 * length ws"
proof (induction ws)
  case (Cons w ws)
  then show ?case using length_hx [of w] by fastforce
qed simp

lemma length_groups: "(\<And>w. w \<in> set ws \<Longrightarrow> unat w < 65536) \<Longrightarrow> length (groups ws) \<le> 5 * length ws - 1"
proof (cases ws)
  case (Cons w us)
  then show "(\<And>w. w \<in> set ws \<Longrightarrow> unat w < 65536) \<Longrightarrow> ?thesis"
    using length_hx [of w] length_sepcat [of us] by fastforce
qed simp

lemma ntop6_text_length:
  assumes "length src = 16"
  shows "length (ntop6_text src) \<le> 39"
proof -
  define ws where "ws = pair_words src"
  define r where "r = best_run ws"
  have len: "length ws = 8" using assms by (simp add: ws_def length_pair_words)
  have lt: "unat w < 65536" if "w \<in> set ws" for w using pair_words_less that by (simp add: ws_def)
  have 1: "length (groups ws) \<le> 39" using length_groups [of ws] lt len by simp
  have 2: "length (ntop4_text (drop 12 src)) \<le> 15" by (rule length_ntop4)
  have 3: "length (hx (ws ! 5)) \<le> 4" using lt [of "ws ! 5"] len length_hx by simp
  have 4: "length (groups (take b ws)) + length (groups (drop (b + l) ws)) \<le> 35"
    if "1 \<le> l" "b + l \<le> 8" for b l
  proof -
    have "length (groups (take b ws)) \<le> 5 * length (take b ws) - 1"
      by (rule length_groups) (meson in_set_takeD lt)
    moreover have "length (groups (drop (b + l) ws)) \<le> 5 * length (drop (b + l) ws) - 1"
      by (rule length_groups) (meson in_set_dropD lt)
    ultimately show ?thesis using that len by simp
  qed
  have 5: "r_base r \<noteq> - 1 \<Longrightarrow> 1 \<le> nat (r_len r) \<and> nat (r_base r) + nat (r_len r) \<le> 8"
    using best_run_zeros [of ws] by (auto simp: r_def zeros_def)
  show ?thesis
    using 1 2 3 4 [of "nat (r_len r)" "nat (r_base r)"] 5
    by (auto simp: ntop6_text_def Let_def ws_def [symmetric] r_def [symmetric])
qed

definition addr_char :: "char \<Rightarrow> bool" where
  "addr_char c \<longleftrightarrow> c = CHR '':'' \<or> c = CHR ''.'' \<or> hex_digit c \<noteq> None"

lemma addr_char_sep [simp]: "addr_char CHR '':''" "addr_char CHR ''.''"
  by (simp_all add: addr_char_def)

lemma digit_is_hex: "is_digit c \<Longrightarrow> hex_digit c \<noteq> None"
  by (simp add: is_digit_def hex_digit_def Let_def)

lemma ntop4_chars: "c \<in> set (ntop4_text bs) \<Longrightarrow> addr_char c"
  using dec_nat_digits digit_is_hex by (auto simp: ntop4_text_def addr_char_def)

lemma hx_chars: "c \<in> set (hx w) \<Longrightarrow> addr_char c"
  using hex_digits_less by (auto simp: hx_def hex_nat_digits addr_char_def)

lemma groups_chars: "c \<in> set (groups ws) \<Longrightarrow> addr_char c"
  using hx_chars by (cases ws) (auto simp: sepcat_def split: if_splits)

lemma ntop6_chars: "c \<in> set (ntop6_text src) \<Longrightarrow> addr_char c"
  using groups_chars hx_chars ntop4_chars
  by (auto simp: ntop6_text_def Let_def split: if_splits)

lemma percent_not_addr: "\<not> addr_char CHR ''%''"
  by (simp add: addr_char_def hex_digit_def Let_def)



text \<open>The same for IPv4, where 16 bytes are always enough.\<close>

theorem ntop4_pton4_roundtrip:
  assumes "length src = 4"
  shows "case uv_inet_ntop AF_INET src sz of
      Inr t \<Rightarrow> uv_inet_pton AF_INET t = Inr src \<and> length t < sz \<and> length t < UV__INET_ADDRSTRLEN
    | Inl e \<Rightarrow> e = UV_ENOSPC \<and> sz \<le> 15"
  using pton4_ntop4 [OF assms] length_ntop4 [of src]
  by (auto simp: uv_inet_ntop_def uv_inet_pton_def inet_ntop4_def Let_def UV__INET_ADDRSTRLEN_def)

theorem ntop4_pton4_roundtrip_witness:
  "case uv_inet_ntop AF_INET [127, 0, 0, 1] 16 of
      Inr t \<Rightarrow> uv_inet_pton AF_INET t = Inr [127, 0, 0, 1] \<and> length t < 16 \<and> length t < UV__INET_ADDRSTRLEN
    | Inl e \<Rightarrow> e = UV_ENOSPC \<and> (16::nat) \<le> 15"
  by (rule ntop4_pton4_roundtrip) simp

lemma inet_pton6_six:
  assumes "length bs = 4" and "\<And>w. w \<in> set ws \<Longrightarrow> unat w < 65536" and "length ws = 6"
  shows "inet_pton6 (groups ws @ CHR '':'' # ntop4_text bs) = Inr (word_bytes ws @ bs)"
proof -
  let ?t = "groups ws @ CHR '':'' # ntop4_text bs"
  obtain w us where w: "ws = w # us" using assms(3) by (cases ws) auto
  have "inet_pton6 ?t = (case pton6_loop ?t ?t pton6_start of Inl e \<Rightarrow> Inl e | Inr s \<Rightarrow> pton6_finish s)"
    using inet_pton6_group [of w "sepcat us @ CHR '':'' # ntop4_text bs"] w by simp
  moreover have "pton6_loop ?t ?t pton6_start = pton6_loop (ntop4_text bs) (ntop4_text bs) (st None ([] @ word_bytes ws))"
    unfolding start_st by (rule pton6_groups_colon) (use assms w length_ntop4 in auto)
  moreover obtain s where "pton6_loop (ntop4_text bs) (ntop4_text bs) (st None (word_bytes ws)) = Inr s"
    "pton6_finish s = pton6_finish (st None (word_bytes ws @ bs))"
    using pton6_ntop4 [OF assms(1), of "word_bytes ws" None] assms(3) by auto
  ultimately show ?thesis using pton6_finish_st [of "word_bytes ws @ bs" None] assms by simp
qed

lemma hex_char_digit: "d < 10 \<Longrightarrow> hex_char d = digit_char d"
  by (simp add: hex_char_def digit_char_def)

lemma hex_1111: "hex_nat 4369 = ''1111''"
  by (simp add: hex_nat.simps hex_char_digit digit_chars)

text \<open>An address with a zone is cut to 39 characters before it is parsed: an address with
  an embedded IPv4 part, written out in full, loses its last digits and is accepted as another
  address, although the parser reads the same text correctly when no zone follows.\<close>

theorem ip6_addr_zone_cut:
  "let ip = ''1111:1111:1111:1111:1111:1111:1.1.100.228''
   in uv_inet_pton AF_INET6 ip = Inr ([0x11, 0x11, 0x11, 0x11, 0x11, 0x11, 0x11, 0x11, 0x11, 0x11, 0x11, 0x11] @ [1, 1, 100, 228]) \<and>
      uv_ip6_addr le ifidx (ip @ ''%1'') port =
        (OK, \<lparr>sin6_family = AF_INET6, sin6_port = htons le port, sin6_scope_id = ifidx ''1'',
              sin6_addr = [0x11, 0x11, 0x11, 0x11, 0x11, 0x11, 0x11, 0x11, 0x11, 0x11, 0x11, 0x11] @ [1, 1, 100, 2]\<rparr>)"
proof -
  let ?ws = "[0x1111, 0x1111, 0x1111, 0x1111, 0x1111, 0x1111] :: u32 list"
  let ?g = "groups ?ws"
  have g: "?g = ''1111:1111:1111:1111:1111:1111''"
    by (simp add: hx_def hex_1111)
  have v: "ntop4_text [1, 1, 100, 228] = ''1.1.100.228''" "ntop4_text [1, 1, 100, 2] = ''1.1.100.2''"
    by (simp_all add: ntop4_text_def dec_nat.simps digit_chars)
  have b: "word_bytes ?ws = [0x11, 0x11, 0x11, 0x11, 0x11, 0x11, 0x11, 0x11, 0x11, 0x11, 0x11, 0x11]" by simp
  have p: "inet_pton6 (?g @ CHR '':'' # ntop4_text bs) = Inr ([0x11, 0x11, 0x11, 0x11, 0x11, 0x11, 0x11, 0x11, 0x11, 0x11, 0x11, 0x11] @ bs)" if "length bs = 4" for bs
    using inet_pton6_six [OF that, of ?ws] unfolding b by simp
  show ?thesis
    using p [of "[1, 1, 100, 228]"] p [of "[1, 1, 100, 2]"]
    unfolding g v by (simp add: Let_def uv_inet_pton_def uv_ip6_addr_def)
qed

end
