(* ===== verification/UV_Handle.thy ===== *)
theory UV_Handle
  imports UV_Errno "HOL-Library.Sublist"
begin

text \<open>
  Handles and their reference counting: the handle flags and the macros of src/uv-common.h,
  the handle list of a loop and the walk over it (src/uv-common.c), closing
  (src/unix/core.c).  A handle is an address, its fields are maps in the loop record; the
  intrusive queues hold the list of their elements (the operations on the links are
  verified in \<open>UV_Queue\<close>).  Every later component extends the loop record.
\<close>

section \<open>Flags\<close>

definition UV_HANDLE_CLOSING :: u32 where "UV_HANDLE_CLOSING = 0x1"
definition UV_HANDLE_CLOSED :: u32 where "UV_HANDLE_CLOSED = 0x2"
definition UV_HANDLE_ACTIVE :: u32 where "UV_HANDLE_ACTIVE = 0x4"
definition UV_HANDLE_REF :: u32 where "UV_HANDLE_REF = 0x8"
definition UV_HANDLE_INTERNAL :: u32 where "UV_HANDLE_INTERNAL = 0x10"

definition has_flag :: "u32 \<Rightarrow> u32 \<Rightarrow> bool" where
  "has_flag f m \<longleftrightarrow> and f m \<noteq> 0"

definition add_flag :: "u32 \<Rightarrow> u32 \<Rightarrow> u32" where
  "add_flag f m = or f m"

definition del_flag :: "u32 \<Rightarrow> u32 \<Rightarrow> u32" where
  "del_flag f m = and f (not m)"

lemmas flag_defs = UV_HANDLE_CLOSING_def UV_HANDLE_CLOSED_def UV_HANDLE_ACTIVE_def
  UV_HANDLE_REF_def UV_HANDLE_INTERNAL_def

lemma flag_bits:
  "has_flag f UV_HANDLE_CLOSING = bit f 0" "has_flag f UV_HANDLE_CLOSED = bit f 1"
  "has_flag f UV_HANDLE_ACTIVE = bit f 2" "has_flag f UV_HANDLE_REF = bit f 3"
  "has_flag f UV_HANDLE_INTERNAL = bit f 4"
proof -
  have *: "and f (push_bit n 1) \<noteq> 0 \<longleftrightarrow> bit f n" if "n < 32" for n
    by (simp add: bit_iff_and_push_bit_not_eq_0)
  show "has_flag f UV_HANDLE_CLOSING = bit f 0" "has_flag f UV_HANDLE_CLOSED = bit f 1"
    "has_flag f UV_HANDLE_ACTIVE = bit f 2" "has_flag f UV_HANDLE_REF = bit f 3"
    "has_flag f UV_HANDLE_INTERNAL = bit f 4"
    using * [of 0] * [of 1] * [of 2] * [of 3] * [of 4] by (simp_all add: has_flag_def flag_defs)
qed

lemma bit_flags:
  "bit UV_HANDLE_CLOSING n = (n = 0)" "bit UV_HANDLE_CLOSED n = (n = 1)"
  "bit UV_HANDLE_ACTIVE n = (n = 2)" "bit UV_HANDLE_REF n = (n = 3)"
  "bit UV_HANDLE_INTERNAL n = (n = 4)"
proof -
  have *: "bit (push_bit k 1 :: u32) n = (n = k)" if "k < 32" for k
    using that by (auto simp: bit_simps)
  show "bit UV_HANDLE_CLOSING n = (n = 0)" "bit UV_HANDLE_CLOSED n = (n = 1)"
    "bit UV_HANDLE_ACTIVE n = (n = 2)" "bit UV_HANDLE_REF n = (n = 3)"
    "bit UV_HANDLE_INTERNAL n = (n = 4)"
    using * [of 0] * [of 1] * [of 2] * [of 3] * [of 4] by (simp_all add: flag_defs)
qed

lemma flag_simps [simp]:
  "bit (add_flag f m) n \<longleftrightarrow> bit f n \<or> bit m n"
  "n < 32 \<Longrightarrow> bit (del_flag f m) n \<longleftrightarrow> bit f n \<and> \<not> bit m n"
  by (auto simp: add_flag_def del_flag_def bit_simps)

section \<open>The loop and its handles\<close>

datatype uv_handle_type =
    UV_UNKNOWN_HANDLE | UV_ASYNC | UV_CHECK | UV_FS_EVENT | UV_FS_POLL | UV_HANDLE | UV_IDLE
  | UV_NAMED_PIPE | UV_POLL | UV_PREPARE | UV_PROCESS | UV_STREAM | UV_TCP | UV_TIMER | UV_TTY
  | UV_UDP | UV_SIGNAL | UV_FILE

definition uv_handle_type_name :: "uv_handle_type \<Rightarrow> string option" where
  "uv_handle_type_name t =
     (case t of
        UV_ASYNC \<Rightarrow> Some ''async'' | UV_CHECK \<Rightarrow> Some ''check'' | UV_FS_EVENT \<Rightarrow> Some ''fs_event''
      | UV_FS_POLL \<Rightarrow> Some ''fs_poll'' | UV_HANDLE \<Rightarrow> Some ''handle'' | UV_IDLE \<Rightarrow> Some ''idle''
      | UV_NAMED_PIPE \<Rightarrow> Some ''pipe'' | UV_POLL \<Rightarrow> Some ''poll'' | UV_PREPARE \<Rightarrow> Some ''prepare''
      | UV_PROCESS \<Rightarrow> Some ''process'' | UV_STREAM \<Rightarrow> Some ''stream'' | UV_TCP \<Rightarrow> Some ''tcp''
      | UV_TIMER \<Rightarrow> Some ''timer'' | UV_TTY \<Rightarrow> Some ''tty'' | UV_UDP \<Rightarrow> Some ''udp''
      | UV_SIGNAL \<Rightarrow> Some ''signal'' | UV_FILE \<Rightarrow> Some ''file'' | UV_UNKNOWN_HANDLE \<Rightarrow> None)"

record uv_loop =
  active_handles :: u32
  active_reqs :: u32
  handle_queue :: "addr list"
  closing_handles :: "addr list"
  stop_flag :: u32
  h_type :: "addr \<Rightarrow> uv_handle_type"
  h_flags :: "addr \<Rightarrow> u32"
  h_close_cb :: "addr \<Rightarrow> nat option"

definition set_flags :: "addr \<Rightarrow> u32 \<Rightarrow> 'a uv_loop_scheme \<Rightarrow> 'a uv_loop_scheme" where
  "set_flags h f l = l\<lparr>h_flags := (h_flags l)(h := f)\<rparr>"

definition uv__has_active_reqs :: "'a uv_loop_scheme \<Rightarrow> bool" where
  "uv__has_active_reqs l \<longleftrightarrow> active_reqs l > 0"

definition uv__req_register :: "'a uv_loop_scheme \<Rightarrow> 'a uv_loop_scheme" where
  "uv__req_register l = l\<lparr>active_reqs := active_reqs l + 1\<rparr>"

text \<open>The assertion of the macro is the result \<open>None\<close>.\<close>

definition uv__req_unregister :: "'a uv_loop_scheme \<Rightarrow> 'a uv_loop_scheme option" where
  "uv__req_unregister l =
     (if uv__has_active_reqs l then Some (l\<lparr>active_reqs := active_reqs l - 1\<rparr>) else None)"

definition uv__has_active_handles :: "'a uv_loop_scheme \<Rightarrow> bool" where
  "uv__has_active_handles l \<longleftrightarrow> active_handles l > 0"

definition uv__active_handle_add :: "'a uv_loop_scheme \<Rightarrow> 'a uv_loop_scheme" where
  "uv__active_handle_add l = l\<lparr>active_handles := active_handles l + 1\<rparr>"

definition uv__active_handle_rm :: "'a uv_loop_scheme \<Rightarrow> 'a uv_loop_scheme" where
  "uv__active_handle_rm l = l\<lparr>active_handles := active_handles l - 1\<rparr>"

definition uv__is_active :: "addr \<Rightarrow> 'a uv_loop_scheme \<Rightarrow> bool" where
  "uv__is_active h l \<longleftrightarrow> has_flag (h_flags l h) UV_HANDLE_ACTIVE"

definition uv__is_closing :: "addr \<Rightarrow> 'a uv_loop_scheme \<Rightarrow> bool" where
  "uv__is_closing h l \<longleftrightarrow> has_flag (h_flags l h) (or UV_HANDLE_CLOSING UV_HANDLE_CLOSED)"

definition uv__has_ref :: "addr \<Rightarrow> 'a uv_loop_scheme \<Rightarrow> bool" where
  "uv__has_ref h l \<longleftrightarrow> has_flag (h_flags l h) UV_HANDLE_REF"

definition uv__handle_start :: "addr \<Rightarrow> 'a uv_loop_scheme \<Rightarrow> 'a uv_loop_scheme" where
  "uv__handle_start h l =
     (if has_flag (h_flags l h) UV_HANDLE_ACTIVE then l
      else let l = set_flags h (add_flag (h_flags l h) UV_HANDLE_ACTIVE) l
           in if has_flag (h_flags l h) UV_HANDLE_REF then uv__active_handle_add l else l)"

definition uv__handle_stop :: "addr \<Rightarrow> 'a uv_loop_scheme \<Rightarrow> 'a uv_loop_scheme" where
  "uv__handle_stop h l =
     (if \<not> has_flag (h_flags l h) UV_HANDLE_ACTIVE then l
      else let l = set_flags h (del_flag (h_flags l h) UV_HANDLE_ACTIVE) l
           in if has_flag (h_flags l h) UV_HANDLE_REF then uv__active_handle_rm l else l)"

definition uv__handle_ref :: "addr \<Rightarrow> 'a uv_loop_scheme \<Rightarrow> 'a uv_loop_scheme" where
  "uv__handle_ref h l =
     (if has_flag (h_flags l h) UV_HANDLE_REF then l
      else let l = set_flags h (add_flag (h_flags l h) UV_HANDLE_REF) l
           in if has_flag (h_flags l h) UV_HANDLE_CLOSING then l
              else if has_flag (h_flags l h) UV_HANDLE_ACTIVE then uv__active_handle_add l else l)"

definition uv__handle_unref :: "addr \<Rightarrow> 'a uv_loop_scheme \<Rightarrow> 'a uv_loop_scheme" where
  "uv__handle_unref h l =
     (if \<not> has_flag (h_flags l h) UV_HANDLE_REF then l
      else let l = set_flags h (del_flag (h_flags l h) UV_HANDLE_REF) l
           in if has_flag (h_flags l h) UV_HANDLE_CLOSING then l
              else if has_flag (h_flags l h) UV_HANDLE_ACTIVE then uv__active_handle_rm l else l)"

definition uv__handle_init :: "addr \<Rightarrow> uv_handle_type \<Rightarrow> 'a uv_loop_scheme \<Rightarrow> 'a uv_loop_scheme" where
  "uv__handle_init h t l =
     l\<lparr>h_type := (h_type l)(h := t), h_flags := (h_flags l)(h := UV_HANDLE_REF),
       handle_queue := handle_queue l @ [h]\<rparr>"

definition uv_ref :: "addr \<Rightarrow> 'a uv_loop_scheme \<Rightarrow> 'a uv_loop_scheme" where
  "uv_ref h l = uv__handle_ref h l"

definition uv_unref :: "addr \<Rightarrow> 'a uv_loop_scheme \<Rightarrow> 'a uv_loop_scheme" where
  "uv_unref h l = uv__handle_unref h l"

definition uv_stop :: "'a uv_loop_scheme \<Rightarrow> 'a uv_loop_scheme" where
  "uv_stop l = l\<lparr>stop_flag := 1\<rparr>"

section \<open>Closing\<close>

text \<open>The guards of the assertions come first; a failed assertion is \<open>None\<close>.\<close>

definition uv__make_close_pending :: "addr \<Rightarrow> 'a uv_loop_scheme \<Rightarrow> 'a uv_loop_scheme option" where
  "uv__make_close_pending h l =
     (if has_flag (h_flags l h) UV_HANDLE_CLOSING \<and> \<not> has_flag (h_flags l h) UV_HANDLE_CLOSED
      then Some (l\<lparr>closing_handles := h # closing_handles l\<rparr>) else None)"

text \<open>The tail of \<open>uv__finish_close\<close>, after the type's own clean-up.\<close>

definition finish_close_unlink :: "addr \<Rightarrow> 'a uv_loop_scheme \<Rightarrow> 'a uv_loop_scheme" where
  "finish_close_unlink h l =
     (let l = uv__handle_unref h l in l\<lparr>handle_queue := remove1 h (handle_queue l)\<rparr>)"

section \<open>Walking the handles\<close>

text \<open>
  \<open>queue\<close> is the local queue the handle list was moved to; \<open>cb\<close> is the effect of the
  callback.  A callback may change the loop and append new handles, so the loop record is
  threaded through.
\<close>

fun walk_loop :: "(addr \<Rightarrow> 'a uv_loop_scheme \<Rightarrow> 'a uv_loop_scheme) \<Rightarrow> addr list \<Rightarrow> 'a uv_loop_scheme \<Rightarrow>
    addr list \<times> 'a uv_loop_scheme" where
  "walk_loop cb [] l = ([], l)"
| "walk_loop cb (h # queue) l =
     (let l = l\<lparr>handle_queue := handle_queue l @ [h]\<rparr>
      in if has_flag (h_flags l h) UV_HANDLE_INTERNAL then walk_loop cb queue l
         else (let (hs, l) = walk_loop cb queue (cb h l) in (h # hs, l)))"

definition uv_walk :: "(addr \<Rightarrow> 'a uv_loop_scheme \<Rightarrow> 'a uv_loop_scheme) \<Rightarrow> 'a uv_loop_scheme \<Rightarrow>
    addr list \<times> 'a uv_loop_scheme" where
  "uv_walk cb l = walk_loop cb (handle_queue l) (l\<lparr>handle_queue := []\<rparr>)"

section \<open>Facts on single operations\<close>

lemmas handle_defs = uv__handle_start_def uv__handle_stop_def uv__handle_ref_def uv__handle_unref_def
  uv__handle_init_def uv__active_handle_add_def uv__active_handle_rm_def set_flags_def

definition active :: "'a uv_loop_scheme \<Rightarrow> addr \<Rightarrow> bool" where
  "active l h \<longleftrightarrow> bit (h_flags l h) 2"

definition refd :: "'a uv_loop_scheme \<Rightarrow> addr \<Rightarrow> bool" where
  "refd l h \<longleftrightarrow> bit (h_flags l h) 3"

definition closing :: "'a uv_loop_scheme \<Rightarrow> addr \<Rightarrow> bool" where
  "closing l h \<longleftrightarrow> bit (h_flags l h) 0"

definition closed :: "'a uv_loop_scheme \<Rightarrow> addr \<Rightarrow> bool" where
  "closed l h \<longleftrightarrow> bit (h_flags l h) 1"

lemmas flag_views = active_def refd_def closing_def closed_def

lemma is_closing_iff: "uv__is_closing h l \<longleftrightarrow> closing l h \<or> closed l h"
proof -
  have "and f (or UV_HANDLE_CLOSING UV_HANDLE_CLOSED) = or (and f UV_HANDLE_CLOSING) (and f UV_HANDLE_CLOSED)" for f
    by (simp add: bit.conj_disj_distrib)
  then have "has_flag f (or UV_HANDLE_CLOSING UV_HANDLE_CLOSED) \<longleftrightarrow>
      has_flag f UV_HANDLE_CLOSING \<or> has_flag f UV_HANDLE_CLOSED" for f
    by (simp add: has_flag_def or_eq_0_iff)
  then show ?thesis by (simp add: uv__is_closing_def flag_bits flag_views)
qed

lemma is_active_iff: "uv__is_active h l \<longleftrightarrow> active l h"
  by (simp add: uv__is_active_def flag_bits flag_views)

text \<open>The handles that keep the loop alive, and the counter.\<close>

definition alive_handles :: "'a uv_loop_scheme \<Rightarrow> addr set" where
  "alive_handles l = {h \<in> set (handle_queue l). active l h \<and> refd l h}"

definition handles_ok :: "'a uv_loop_scheme \<Rightarrow> bool" where
  "handles_ok l \<longleftrightarrow>
     distinct (handle_queue l) \<and> length (handle_queue l) < 2 ^ 32 \<and>
     unat (active_handles l) = card (alive_handles l) \<and>
     (\<forall>h\<in>set (handle_queue l). closing l h \<longrightarrow> \<not> active l h)"

lemma count_add:
  fixes c :: u32
  assumes "unat c = card S" and "S \<subseteq> set q" and "length q < 2 ^ 32" and "h \<in> set q" and "h \<notin> S"
  shows "unat (c + 1) = card (insert h S)"
proof -
  have fin: "finite S" using assms(2) finite_subset by blast
  have "card (insert h S) \<le> length q"
    by (meson assms(2,4) card_length card_mono insert_subset le_trans List.finite_set)
  then have "card S < 2 ^ 32 - 1" using assms(3,5) fin by simp
  then show ?thesis using assms(1,5) fin by (simp add: unat_add_one_less)
qed

lemma count_rm:
  fixes c :: u32
  assumes "unat c = card S" and "finite S" and "h \<in> S"
  shows "unat (c - 1) = card (S - {h})"
proof -
  have "card S \<noteq> 0" using assms by auto
  then have "c \<noteq> 0" using assms(1) by auto
  then show ?thesis using assms by (simp add: unat_sub_one)
qed

lemma alive_subset: "alive_handles l \<subseteq> set (handle_queue l)" "finite (alive_handles l)"
  by (auto simp: alive_handles_def)

text \<open>The fields a reference-count operation leaves alone.\<close>

lemma handle_frame [simp]:
  "handle_queue (uv__handle_start h l) = handle_queue l" "handle_queue (uv__handle_stop h l) = handle_queue l"
  "handle_queue (uv__handle_ref h l) = handle_queue l" "handle_queue (uv__handle_unref h l) = handle_queue l"
  "closing_handles (uv__handle_start h l) = closing_handles l" "closing_handles (uv__handle_stop h l) = closing_handles l"
  "closing_handles (uv__handle_ref h l) = closing_handles l" "closing_handles (uv__handle_unref h l) = closing_handles l"
  "active_reqs (uv__handle_start h l) = active_reqs l" "active_reqs (uv__handle_stop h l) = active_reqs l"
  "active_reqs (uv__handle_ref h l) = active_reqs l" "active_reqs (uv__handle_unref h l) = active_reqs l"
  "h_type (uv__handle_start h l) = h_type l" "h_type (uv__handle_stop h l) = h_type l"
  "stop_flag (uv__handle_start h l) = stop_flag l" "stop_flag (uv__handle_stop h l) = stop_flag l"
  by (simp_all add: handle_defs Let_def)

lemma handle_flags [simp]:
  "active (uv__handle_start h l) k \<longleftrightarrow> active l k \<or> k = h"
  "active (uv__handle_stop h l) k \<longleftrightarrow> active l k \<and> k \<noteq> h"
  "active (uv__handle_ref h l) k = active l k" "active (uv__handle_unref h l) k = active l k"
  "refd (uv__handle_start h l) k = refd l k" "refd (uv__handle_stop h l) k = refd l k"
  "refd (uv__handle_ref h l) k \<longleftrightarrow> refd l k \<or> k = h"
  "refd (uv__handle_unref h l) k \<longleftrightarrow> refd l k \<and> k \<noteq> h"
  "closing (uv__handle_start h l) k = closing l k" "closing (uv__handle_stop h l) k = closing l k"
  "closing (uv__handle_ref h l) k = closing l k" "closing (uv__handle_unref h l) k = closing l k"
  "closed (uv__handle_start h l) k = closed l k" "closed (uv__handle_stop h l) k = closed l k"
  "closed (uv__handle_ref h l) k = closed l k" "closed (uv__handle_unref h l) k = closed l k"
  by (auto simp: handle_defs Let_def flag_views flag_bits bit_flags)

lemma handles_start:
  assumes "handles_ok l" and "h \<in> set (handle_queue l)" and "\<not> closing l h"
  shows "handles_ok (uv__handle_start h l)"
proof -
  have al: "alive_handles (uv__handle_start h l) = (if refd l h then insert h (alive_handles l) else alive_handles l)"
    using assms(2) by (auto simp: alive_handles_def)
  have "unat (active_handles (uv__handle_start h l)) = card (alive_handles (uv__handle_start h l))"
  proof (cases "refd l h \<and> \<not> active l h")
    case True
    then have "active_handles (uv__handle_start h l) = active_handles l + 1"
      by (simp add: handle_defs flag_bits bit_flags flag_views)
    then show ?thesis using count_add [of "active_handles l" "alive_handles l" "handle_queue l" h]
        True assms alive_subset [of l] by (simp add: al handles_ok_def) (simp add: alive_handles_def)
  next
    case False
    then have "active_handles (uv__handle_start h l) = active_handles l"
      by (auto simp: handle_defs Let_def flag_bits bit_flags flag_views)
    moreover have "alive_handles (uv__handle_start h l) = alive_handles l"
      using False assms(2) by (auto simp: alive_handles_def)
    ultimately show ?thesis using assms(1) by (simp add: handles_ok_def)
  qed
  then show ?thesis using assms by (auto simp: handles_ok_def)
qed

lemma handles_stop:
  assumes "handles_ok l" and "h \<in> set (handle_queue l)"
  shows "handles_ok (uv__handle_stop h l)"
proof -
  have al: "alive_handles (uv__handle_stop h l) = alive_handles l - {h}"
    by (auto simp: alive_handles_def)
  have "unat (active_handles (uv__handle_stop h l)) = card (alive_handles (uv__handle_stop h l))"
  proof (cases "refd l h \<and> active l h")
    case True
    then have "active_handles (uv__handle_stop h l) = active_handles l - 1"
      by (simp add: handle_defs flag_bits bit_flags flag_views)
    moreover have "h \<in> alive_handles l" using True assms(2) by (simp add: alive_handles_def)
    ultimately show ?thesis using count_rm [of "active_handles l" "alive_handles l" h] assms(1) alive_subset [of l]
      by (simp add: al handles_ok_def)
  next
    case False
    then have "active_handles (uv__handle_stop h l) = active_handles l"
      by (auto simp: handle_defs Let_def flag_bits bit_flags flag_views)
    moreover have "h \<notin> alive_handles l" using False by (auto simp: alive_handles_def)
    ultimately show ?thesis using assms(1) by (simp add: al handles_ok_def)
  qed
  then show ?thesis using assms by (auto simp: handles_ok_def)
qed

lemma handles_ref:
  assumes "handles_ok l" and "h \<in> set (handle_queue l)"
  shows "handles_ok (uv__handle_ref h l)"
proof -
  have al: "alive_handles (uv__handle_ref h l) = (if active l h then insert h (alive_handles l) else alive_handles l)"
    using assms(2) by (auto simp: alive_handles_def)
  have cl: "active l h \<Longrightarrow> \<not> closing l h" using assms by (auto simp: handles_ok_def)
  have "unat (active_handles (uv__handle_ref h l)) = card (alive_handles (uv__handle_ref h l))"
  proof (cases "active l h \<and> \<not> refd l h")
    case True
    then have "active_handles (uv__handle_ref h l) = active_handles l + 1"
      using cl by (simp add: handle_defs flag_bits bit_flags flag_views)
    then show ?thesis using count_add [of "active_handles l" "alive_handles l" "handle_queue l" h]
        True assms alive_subset [of l] by (simp add: al handles_ok_def) (simp add: alive_handles_def)
  next
    case False
    then have "active_handles (uv__handle_ref h l) = active_handles l"
      by (auto simp: handle_defs Let_def flag_bits bit_flags flag_views)
    moreover have "alive_handles (uv__handle_ref h l) = alive_handles l"
      using False assms(2) by (auto simp: alive_handles_def)
    ultimately show ?thesis using assms(1) by (simp add: handles_ok_def)
  qed
  then show ?thesis using assms by (auto simp: handles_ok_def)
qed

lemma handles_unref:
  assumes "handles_ok l" and "h \<in> set (handle_queue l)"
  shows "handles_ok (uv__handle_unref h l)"
proof -
  have al: "alive_handles (uv__handle_unref h l) = alive_handles l - {h}"
    by (auto simp: alive_handles_def)
  have cl: "active l h \<Longrightarrow> \<not> closing l h" using assms by (auto simp: handles_ok_def)
  have "unat (active_handles (uv__handle_unref h l)) = card (alive_handles (uv__handle_unref h l))"
  proof (cases "refd l h \<and> active l h")
    case True
    then have "active_handles (uv__handle_unref h l) = active_handles l - 1"
      using cl by (simp add: handle_defs flag_bits bit_flags flag_views)
    moreover have "h \<in> alive_handles l" using True assms(2) by (simp add: alive_handles_def)
    ultimately show ?thesis using count_rm [of "active_handles l" "alive_handles l" h] assms(1) alive_subset [of l]
      by (simp add: al handles_ok_def)
  next
    case False
    then have "active_handles (uv__handle_unref h l) = active_handles l"
      by (auto simp: handle_defs Let_def flag_bits bit_flags flag_views)
    moreover have "h \<notin> alive_handles l" using False by (auto simp: alive_handles_def)
    ultimately show ?thesis using assms(1) by (simp add: al handles_ok_def)
  qed
  then show ?thesis using assms by (auto simp: handles_ok_def)
qed

lemma init_flags [simp]:
  "active (uv__handle_init h t l) k \<longleftrightarrow> active l k \<and> k \<noteq> h"
  "refd (uv__handle_init h t l) k \<longleftrightarrow> refd l k \<or> k = h"
  "closing (uv__handle_init h t l) k \<longleftrightarrow> closing l k \<and> k \<noteq> h"
  "closed (uv__handle_init h t l) k \<longleftrightarrow> closed l k \<and> k \<noteq> h"
  "handle_queue (uv__handle_init h t l) = handle_queue l @ [h]"
  by (auto simp: handle_defs flag_views bit_flags)

lemma handles_init:
  assumes "handles_ok l" and "h \<notin> set (handle_queue l)" and "length (handle_queue l) + 1 < 2 ^ 32"
  shows "handles_ok (uv__handle_init h t l)"
proof -
  have "alive_handles (uv__handle_init h t l) = alive_handles l"
    using assms(2) by (auto simp: alive_handles_def)
  moreover have "active_handles (uv__handle_init h t l) = active_handles l" by (simp add: uv__handle_init_def)
  ultimately show ?thesis using assms by (auto simp: handles_ok_def)
qed

section \<open>Marking a handle as closing\<close>

text \<open>The first two assignments of \<open>uv_close\<close>.\<close>

definition mark_closing :: "addr \<Rightarrow> nat option \<Rightarrow> 'a uv_loop_scheme \<Rightarrow> 'a uv_loop_scheme" where
  "mark_closing h close_cb l =
     l\<lparr>h_flags := (h_flags l)(h := add_flag (h_flags l h) UV_HANDLE_CLOSING),
       h_close_cb := (h_close_cb l)(h := close_cb)\<rparr>"

lemma mark_closing_flags [simp]:
  "active (mark_closing h cb l) k = active l k" "refd (mark_closing h cb l) k = refd l k"
  "closed (mark_closing h cb l) k = closed l k" "closing (mark_closing h cb l) k \<longleftrightarrow> closing l k \<or> k = h"
  "handle_queue (mark_closing h cb l) = handle_queue l" "h_type (mark_closing h cb l) = h_type l"
  "closing_handles (mark_closing h cb l) = closing_handles l" "active_reqs (mark_closing h cb l) = active_reqs l"
  "active_handles (mark_closing h cb l) = active_handles l"
  by (auto simp: mark_closing_def flag_views bit_flags)

lemma handles_mark_closing:
  "handles_ok l \<Longrightarrow> \<not> active l h \<Longrightarrow> handles_ok (mark_closing h cb l)"
  by (auto simp: handles_ok_def alive_handles_def)

lemma stop_mark_closing: "uv__handle_stop h (mark_closing h cb l) = mark_closing h cb (uv__handle_stop h l)"
proof -
  have c: "del_flag (add_flag f UV_HANDLE_CLOSING) UV_HANDLE_ACTIVE = add_flag (del_flag f UV_HANDLE_ACTIVE) UV_HANDLE_CLOSING"
    for f by (rule bit_word_eqI) (auto simp: bit_flags)
  show ?thesis
    by (cases "bit (h_flags l h) 2"; cases "bit (h_flags l h) 3")
      (simp_all add: mark_closing_def handle_defs flag_bits bit_flags Let_def c)
qed

lemma close_pending_Some:
  "closing l h \<Longrightarrow> \<not> closed l h \<Longrightarrow>
   uv__make_close_pending h l = Some (l\<lparr>closing_handles := h # closing_handles l\<rparr>)"
  by (simp add: uv__make_close_pending_def flag_bits flag_views)

lemma handles_ok_closing_handles [simp]: "handles_ok (l\<lparr>closing_handles := q\<rparr>) = handles_ok l"
  by (simp add: handles_ok_def alive_handles_def flag_views)

lemma flags_closing_handles [simp]:
  "active (l\<lparr>closing_handles := q\<rparr>) k = active l k" "refd (l\<lparr>closing_handles := q\<rparr>) k = refd l k"
  "closing (l\<lparr>closing_handles := q\<rparr>) k = closing l k" "closed (l\<lparr>closing_handles := q\<rparr>) k = closed l k"
  by (simp_all add: flag_views)

section \<open>Runs of operations\<close>

datatype handle_op =
    HInit addr uv_handle_type
  | HStart addr
  | HStop addr
  | HRef addr
  | HUnref addr

fun handle_step :: "handle_op \<Rightarrow> 'a uv_loop_scheme \<Rightarrow> 'a uv_loop_scheme" where
  "handle_step (HInit h t) l = uv__handle_init h t l"
| "handle_step (HStart h) l = uv__handle_start h l"
| "handle_step (HStop h) l = uv__handle_stop h l"
| "handle_step (HRef h) l = uv_ref h l"
| "handle_step (HUnref h) l = uv_unref h l"

text \<open>
  The specification: the handles with two booleans each, active and referenced.  An operation
  is legal on an initialised handle, an initialisation on a new one.
\<close>

type_synonym handle_spec = "(addr \<times> bool \<times> bool) list"

fun spec_handle :: "handle_op \<Rightarrow> handle_spec \<Rightarrow> handle_spec option" where
  "spec_handle (HInit h t) S = (if h \<in> fst ` set S then None else Some (S @ [(h, False, True)]))"
| "spec_handle (HStart h) S =
     (if h \<notin> fst ` set S then None else Some (map (\<lambda>(k, a, r). (k, a \<or> k = h, r)) S))"
| "spec_handle (HStop h) S =
     (if h \<notin> fst ` set S then None else Some (map (\<lambda>(k, a, r). (k, a \<and> k \<noteq> h, r)) S))"
| "spec_handle (HRef h) S =
     (if h \<notin> fst ` set S then None else Some (map (\<lambda>(k, a, r). (k, a, r \<or> k = h)) S))"
| "spec_handle (HUnref h) S =
     (if h \<notin> fst ` set S then None else Some (map (\<lambda>(k, a, r). (k, a, r \<and> k \<noteq> h)) S))"

fun spec_handles :: "handle_op list \<Rightarrow> handle_spec \<Rightarrow> handle_spec option" where
  "spec_handles [] S = Some S"
| "spec_handles (a # ops) S = Option.bind (spec_handle a S) (spec_handles ops)"

definition handle_view :: "'a uv_loop_scheme \<Rightarrow> handle_spec" where
  "handle_view l = map (\<lambda>h. (h, active l h, refd l h)) (handle_queue l)"

definition open_handles :: "'a uv_loop_scheme \<Rightarrow> bool" where
  "open_handles l \<longleftrightarrow> (\<forall>h\<in>set (handle_queue l). \<not> closing l h)"

lemma handle_view_keys: "fst ` set (handle_view l) = set (handle_queue l)"
  by (force simp: handle_view_def)

lemma handle_step_refines:
  assumes "handles_ok l" and "open_handles l" and "spec_handle a (handle_view l) = Some S"
    and "length (handle_queue l) + 1 < 2 ^ 32"
  shows "handles_ok (handle_step a l) \<and> open_handles (handle_step a l) \<and> handle_view (handle_step a l) = S \<and>
    length (handle_queue (handle_step a l)) \<le> length (handle_queue l) + 1"
proof (cases a)
  case (HInit h t)
  then have h: "h \<notin> set (handle_queue l)" using assms(3) by (auto simp: handle_view_keys split: if_splits)
  then have "handle_view (uv__handle_init h t l) = handle_view l @ [(h, False, True)]"
    by (auto simp: handle_view_def)
  then show ?thesis using assms h HInit handles_init [of l h t]
    by (auto simp: handle_view_keys open_handles_def)
qed (use assms in \<open>auto simp: handle_view_keys open_handles_def handle_view_def uv_ref_def uv_unref_def
    intro: handles_start handles_stop handles_ref handles_unref split: if_splits\<close>)

lemma handle_run_refines:
  assumes "handles_ok l" and "open_handles l" and "spec_handles ops (handle_view l) = Some S"
    and "length (handle_queue l) + length ops < 2 ^ 32"
  shows "handles_ok (fold handle_step ops l) \<and> handle_view (fold handle_step ops l) = S"
  using assms
proof (induction ops arbitrary: l)
  case (Cons a ops)
  then obtain S1 where S1: "spec_handle a (handle_view l) = Some S1" "spec_handles ops S1 = Some S"
    by (auto split: bind_splits)
  have "handles_ok (handle_step a l) \<and> open_handles (handle_step a l) \<and> handle_view (handle_step a l) = S1 \<and>
      length (handle_queue (handle_step a l)) \<le> length (handle_queue l) + 1"
    by (rule handle_step_refines [OF Cons.prems(1,2) S1(1)]) (use Cons.prems(4) in simp)
  then show ?case using Cons.IH [of "handle_step a l"] S1(2) Cons.prems(4) by simp
qed simp

definition empty_loop :: "uv_loop" where
  "empty_loop = \<lparr>active_handles = 0, active_reqs = 0, handle_queue = [], closing_handles = [],
     stop_flag = 0, h_type = (\<lambda>_. UV_UNKNOWN_HANDLE), h_flags = (\<lambda>_. 0), h_close_cb = (\<lambda>_. None)\<rparr>"

section \<open>Properties\<close>

text \<open>C7. Reference counting is exact: after any legal run of initialisations, starts, stops,
  refs and unrefs, in any order and repeated at will, the loop's counter equals the number of
  handles that are both active and referenced, and never wraps.\<close>

theorem active_handles_exact:
  assumes "spec_handles ops [] = Some S" and "length ops < 2 ^ 32"
  shows "unat (active_handles (fold handle_step ops empty_loop)) = length (filter (\<lambda>(h, a, r). a \<and> r) S) \<and>
    uv__has_active_handles (fold handle_step ops empty_loop) = (\<exists>(h, a, r) \<in> set S. a \<and> r)"
proof -
  let ?l = "fold handle_step ops empty_loop"
  have ok: "handles_ok ?l" "handle_view ?l = S"
    using handle_run_refines [of empty_loop ops S] assms
    by (simp_all add: handles_ok_def open_handles_def handle_view_def empty_loop_def alive_handles_def)
  have "distinct (filter (\<lambda>h. active ?l h \<and> refd ?l h) (handle_queue ?l))"
    using ok(1) by (simp add: handles_ok_def)
  then have "card (alive_handles ?l) = length (filter (\<lambda>h. active ?l h \<and> refd ?l h) (handle_queue ?l))"
    using distinct_card by (fastforce simp: alive_handles_def)
  also have "\<dots> = length (filter (\<lambda>(h, a, r). a \<and> r) S)"
    by (simp add: ok(2) [symmetric] handle_view_def filter_map comp_def)
  finally have n: "unat (active_handles ?l) = length (filter (\<lambda>(h, a, r). a \<and> r) S)"
    using ok(1) by (simp add: handles_ok_def)
  then have "0 < active_handles ?l \<longleftrightarrow> filter (\<lambda>(h, a, r). a \<and> r) S \<noteq> []"
    by (metis length_greater_0_conv unat_gt_0 word_gt_0)
  then show ?thesis using n by (force simp: uv__has_active_handles_def filter_empty_conv)
qed

theorem active_handles_exact_witness:
  "unat (active_handles (fold handle_step
     [HInit 1 UV_TIMER, HInit 2 UV_IDLE, HStart 1, HStart 2, HStart 2, HUnref 1, HStop 1, HRef 1] empty_loop)) = 1"
  using active_handles_exact [of "[HInit 1 UV_TIMER, HInit 2 UV_IDLE, HStart 1, HStart 2, HStart 2,
     HUnref 1, HStop 1, HRef 1]" "[(1, False, True), (2, True, True)]"] by simp

lemma walk_loop_spec:
  assumes q: "\<And>h l. \<exists>ys. handle_queue (cb h l) = handle_queue l @ ys"
    and i: "\<And>h l k. has_flag (h_flags (cb h l) k) UV_HANDLE_INTERNAL = has_flag (h_flags l k) UV_HANDLE_INTERNAL"
  shows "fst (walk_loop cb q l) = filter (\<lambda>h. \<not> has_flag (h_flags l h) UV_HANDLE_INTERNAL) q \<and>
    (\<exists>zs. handle_queue (snd (walk_loop cb q l)) = handle_queue l @ zs \<and> subseq q zs)"
proof (induction q arbitrary: l)
  case (Cons h q)
  define l1 where "l1 = l\<lparr>handle_queue := handle_queue l @ [h]\<rparr>"
  have fl: "h_flags l1 = h_flags l" by (simp add: l1_def)
  have q1: "handle_queue l1 = handle_queue l @ [h]" by (simp add: l1_def)
  show ?case
  proof (cases "has_flag (h_flags l h) UV_HANDLE_INTERNAL")
    case True
    obtain zs where "handle_queue (snd (walk_loop cb q l1)) = handle_queue l1 @ zs" "subseq q zs"
      using Cons [of l1] by blast
    then have "handle_queue (snd (walk_loop cb q l1)) = handle_queue l @ (h # zs) \<and> subseq (h # q) (h # zs)"
      by (simp add: q1)
    moreover have "walk_loop cb (h # q) l = walk_loop cb q l1"
      using True by (simp add: l1_def Let_def)
    ultimately show ?thesis using True Cons [of l1] fl by auto
  next
    case False
    obtain ys where ys: "handle_queue (cb h l1) = handle_queue l1 @ ys" using q by blast
    obtain zs where zs: "handle_queue (snd (walk_loop cb q (cb h l1))) = handle_queue (cb h l1) @ zs" "subseq q zs"
      using Cons [of "cb h l1"] by blast
    then have "handle_queue (snd (walk_loop cb q (cb h l1))) = handle_queue l @ (h # ys @ zs) \<and>
        subseq (h # q) (h # ys @ zs)"
      by (simp add: q1 ys list_emb_append2)
    moreover have "walk_loop cb (h # q) l =
        (h # fst (walk_loop cb q (cb h l1)), snd (walk_loop cb q (cb h l1)))"
      using False by (simp add: l1_def Let_def split: prod.split)
    moreover have "fst (walk_loop cb q (cb h l1)) = filter (\<lambda>h. \<not> has_flag (h_flags l h) UV_HANDLE_INTERNAL) q"
      using Cons [of "cb h l1"] i fl by simp
    ultimately show ?thesis using False by auto
  qed
qed simp

text \<open>A walk calls the callback exactly once for each handle that was on the loop when the
  walk began and is not internal, in order, even when callbacks start, stop, unref or close
  handles or initialise new ones; every handle is back on the loop afterwards, and the new ones
  are not visited.\<close>

theorem uv_walk_visits:
  assumes "\<And>h l. \<exists>ys. handle_queue (cb h l) = handle_queue l @ ys"
    and "\<And>h l k. has_flag (h_flags (cb h l) k) UV_HANDLE_INTERNAL = has_flag (h_flags l k) UV_HANDLE_INTERNAL"
  shows "fst (uv_walk cb l) = filter (\<lambda>h. \<not> has_flag (h_flags l h) UV_HANDLE_INTERNAL) (handle_queue l) \<and>
    subseq (handle_queue l) (handle_queue (snd (uv_walk cb l)))"
  using walk_loop_spec [of cb "handle_queue l" "l\<lparr>handle_queue := []\<rparr>"] assms by (auto simp: uv_walk_def)

theorem uv_walk_visits_witness:
  "fst (uv_walk uv__handle_stop
     (fold handle_step [HInit 1 UV_TIMER, HInit 2 UV_IDLE, HStart 2] empty_loop)) = [1, 2]"
proof -
  have i: "has_flag (h_flags (uv__handle_stop h l) k) UV_HANDLE_INTERNAL = has_flag (h_flags l k) UV_HANDLE_INTERNAL"
    for h l k
    by (auto simp: flag_bits handle_defs Let_def bit_flags)
  let ?l = "fold handle_step [HInit 1 UV_TIMER, HInit 2 UV_IDLE, HStart 2] empty_loop"
  have "handle_queue ?l = [1, 2]" by (simp add: empty_loop_def)
  moreover have "\<not> has_flag (h_flags ?l 1) UV_HANDLE_INTERNAL" "\<not> has_flag (h_flags ?l 2) UV_HANDLE_INTERNAL"
    by (auto simp: empty_loop_def handle_defs flag_bits bit_flags Let_def)
  moreover have "fst (uv_walk uv__handle_stop ?l) =
      filter (\<lambda>h. \<not> has_flag (h_flags ?l h) UV_HANDLE_INTERNAL) (handle_queue ?l) \<and>
    subseq (handle_queue ?l) (handle_queue (snd (uv_walk uv__handle_stop ?l)))"
    by (rule uv_walk_visits) (use i in auto)
  ultimately show ?thesis by simp
qed

end
