(* ===== verification/UV_Heap_Tree.thy ===== *)
theory UV_Heap_Tree
  imports UV_Prelude "HOL-Library.Tree_Multiset"
begin

text \<open>
  The heap algorithms of src/heap-inl.h on plain binary trees: a position in a tree is a
  context (a list of frames, innermost first) and the subtree in its hole.  Moving an
  element up or down is a rewriting of the context; the three facts that make a binary
  heap, order, completeness of the shape and the set of elements, are stated on contexts
  and preserved by each move.  \<open>UV_Heap\<close> shows that the pointer code performs
  these moves.
\<close>

section \<open>Contexts\<close>

datatype frame = FL addr "addr tree" | FR "addr tree" addr

fun plug :: "frame list \<Rightarrow> addr tree \<Rightarrow> addr tree" where
  "plug [] t = t"
| "plug (FL p r # C) t = plug C (Node t p r)"
| "plug (FR l p # C) t = plug C (Node l p t)"

fun ctx_nodes :: "frame list \<Rightarrow> addr list" where
  "ctx_nodes [] = []"
| "ctx_nodes (FL p r # C) = p # inorder r @ ctx_nodes C"
| "ctx_nodes (FR l p # C) = p # inorder l @ ctx_nodes C"

lemma mset_plug: "mset_tree (plug C t) = mset (ctx_nodes C) + mset_tree t"
  by (induction C t rule: plug.induct) auto

lemma set_plug: "set_tree (plug C t) = set (ctx_nodes C) \<union> set_tree t"
  using mset_plug [of C t] by (metis set_mset_mset set_mset_tree set_mset_union)

lemma distinct_plug: "distinct (inorder (plug C t)) \<longleftrightarrow> distinct (ctx_nodes C @ inorder t)"
  by (rule mset_eq_imp_distinct_iff) (simp add: mset_plug)

lemma size_plug: "size (plug C t) = length (ctx_nodes C) + size t"
  by (induction C t rule: plug.induct) (auto simp: length_inorder)

lemma plug_ex: "x \<in> set_tree t \<Longrightarrow> \<exists>C l r. t = plug C (Node l x r)"
proof -
  have "x \<in> set_tree t \<Longrightarrow> \<exists>C' l r. plug C t = plug C' (Node l x r)" for C
  proof (induction t arbitrary: C)
    case (Node a y b)
    from Node.prems consider "x = y" | "x \<in> set_tree a" | "x \<in> set_tree b" by auto
    then show ?case
    proof cases
      case 2
      then show ?thesis using Node.IH(1) [of "FL y b # C"] by simp
    next
      case 3
      then show ?thesis using Node.IH(2) [of "FR a y # C"] by simp
    qed blast
  qed simp
  from this [of "[]"] show "x \<in> set_tree t \<Longrightarrow> ?thesis" by simp
qed

section \<open>Moving an element\<close>

text \<open>The upward loop, on the context and the two subtrees of the moving element \<open>c\<close>.\<close>

fun tup :: "(addr \<Rightarrow> addr \<Rightarrow> bool) \<Rightarrow> frame list \<Rightarrow> addr tree \<Rightarrow> addr \<Rightarrow> addr tree \<Rightarrow> addr tree" where
  "tup lt [] a c b = Node a c b"
| "tup lt (FL p r # C) a c b =
     (if lt c p then tup lt C (Node a p b) c r else plug (FL p r # C) (Node a c b))"
| "tup lt (FR l p # C) a c b =
     (if lt c p then tup lt C l c (Node a p b) else plug (FR l p # C) (Node a c b))"

text \<open>
  The downward loop: the smaller child moves up if it is smaller than \<open>c\<close>.  The result
  is the final context and subtrees of \<open>c\<close>.
\<close>

definition root_less :: "(addr \<Rightarrow> addr \<Rightarrow> bool) \<Rightarrow> addr tree \<Rightarrow> addr \<Rightarrow> bool" where
  "root_less lt t x = (case t of Leaf \<Rightarrow> False | Node _ y _ \<Rightarrow> lt y x)"

function tdown :: "(addr \<Rightarrow> addr \<Rightarrow> bool) \<Rightarrow> frame list \<Rightarrow> addr tree \<Rightarrow> addr \<Rightarrow> addr tree \<Rightarrow>
    frame list \<times> addr tree \<times> addr tree" where
  "tdown lt C l c r =
     (case l of
        Node ll x lr \<Rightarrow>
          (if lt x c then
             (case r of
                Node rl y rr \<Rightarrow>
                  (if lt y x then tdown lt (FR l y # C) rl c rr
                   else tdown lt (FL x r # C) ll c lr)
              | Leaf \<Rightarrow> tdown lt (FL x r # C) ll c lr)
           else
             (case r of
                Node rl y rr \<Rightarrow> (if lt y c then tdown lt (FR l y # C) rl c rr else (C, l, r))
              | Leaf \<Rightarrow> (C, l, r)))
      | Leaf \<Rightarrow>
          (case r of
             Node rl y rr \<Rightarrow> (if lt y c then tdown lt (FR l y # C) rl c rr else (C, l, r))
           | Leaf \<Rightarrow> (C, l, r)))"
  by pat_completeness auto
termination
  by (relation "measure (\<lambda>(lt, C, l, c, r). size l + size r)") auto

declare tdown.simps [simp del]

text \<open>The case distinction of the loop body, once and for all.\<close>

lemma tdown_cases [case_names left right stay]:
  obtains (left) ll x lr where "l = Node ll x lr" "lt x c" "\<not> root_less lt r x"
      "tdown lt C l c r = tdown lt (FL x r # C) ll c lr"
  | (right) rl y rr where "r = Node rl y rr" "if root_less lt l c then lt y (value l) else lt y c"
      "tdown lt C l c r = tdown lt (FR l y # C) rl c rr"
  | (stay) "\<not> root_less lt l c" "\<not> root_less lt r c" "tdown lt C l c r = (C, l, r)"
  using that tdown.simps [of lt C l c r]
  by (cases l; cases r) (auto simp: root_less_def split: if_splits)

section \<open>Order\<close>

text \<open>
  What the comparison must satisfy on the elements: it is asymmetric and "not less" is
  transitive (a strict weak order).
\<close>

definition weak_order_on :: "addr set \<Rightarrow> (addr \<Rightarrow> addr \<Rightarrow> bool) \<Rightarrow> bool" where
  "weak_order_on S lt \<longleftrightarrow>
     (\<forall>x\<in>S. \<forall>y\<in>S. \<not> (lt x y \<and> lt y x)) \<and>
     (\<forall>x\<in>S. \<forall>y\<in>S. \<forall>z\<in>S. lt z x \<longrightarrow> lt y x \<or> lt z y)"

lemma weak_order_asym: "weak_order_on S lt \<Longrightarrow> lt x y \<Longrightarrow> x \<in> S \<Longrightarrow> y \<in> S \<Longrightarrow> \<not> lt y x"
  unfolding weak_order_on_def by blast

lemma weak_order_trans:
  "weak_order_on S lt \<Longrightarrow> \<not> lt z y \<Longrightarrow> \<not> lt y x \<Longrightarrow> x \<in> S \<Longrightarrow> y \<in> S \<Longrightarrow> z \<in> S \<Longrightarrow> \<not> lt z x"
  unfolding weak_order_on_def by blast

lemma weak_order_subset: "weak_order_on S lt \<Longrightarrow> T \<subseteq> S \<Longrightarrow> weak_order_on T lt"
  unfolding weak_order_on_def by (metis subsetD)

lemma weak_order_cong:
  assumes "weak_order_on S lt" and "\<And>x y. x \<in> S \<Longrightarrow> y \<in> S \<Longrightarrow> lt' x y = lt x y"
  shows "weak_order_on S lt'"
  using assms unfolding weak_order_on_def by (metis (no_types, lifting))

definition above :: "(addr \<Rightarrow> addr \<Rightarrow> bool) \<Rightarrow> addr \<Rightarrow> addr set \<Rightarrow> bool" where
  "above lt x D \<longleftrightarrow> (\<forall>y\<in>D. \<not> lt y x)"

lemma above_simps [simp]:
  "above lt x {}"
  "above lt x (insert y D) \<longleftrightarrow> \<not> lt y x \<and> above lt x D"
  "above lt x (D \<union> E) \<longleftrightarrow> above lt x D \<and> above lt x E"
  by (auto simp: above_def)

lemma above_trans:
  "weak_order_on S lt \<Longrightarrow> above lt y D \<Longrightarrow> \<not> lt y x \<Longrightarrow> x \<in> S \<Longrightarrow> y \<in> S \<Longrightarrow> D \<subseteq> S \<Longrightarrow> above lt x D"
  unfolding above_def weak_order_on_def by (metis subsetD)

lemma above_cong: "(\<And>y. y \<in> D \<Longrightarrow> lt' y x = lt y x) \<Longrightarrow> above lt' x D = above lt x D"
  by (auto simp: above_def)

fun heap_ordered :: "(addr \<Rightarrow> addr \<Rightarrow> bool) \<Rightarrow> addr tree \<Rightarrow> bool" where
  "heap_ordered lt Leaf = True"
| "heap_ordered lt (Node l x r) \<longleftrightarrow>
     heap_ordered lt l \<and> heap_ordered lt r \<and> above lt x (set_tree l) \<and> above lt x (set_tree r)"

text \<open>The order along a context, with \<open>D\<close> the elements in the hole that are to respect it.\<close>

fun ctx_ordered :: "(addr \<Rightarrow> addr \<Rightarrow> bool) \<Rightarrow> frame list \<Rightarrow> addr set \<Rightarrow> bool" where
  "ctx_ordered lt [] D = True"
| "ctx_ordered lt (FL p r # C) D \<longleftrightarrow>
     heap_ordered lt r \<and> above lt p (set_tree r) \<and> above lt p D \<and>
     ctx_ordered lt C (insert p (set_tree r \<union> D))"
| "ctx_ordered lt (FR l p # C) D \<longleftrightarrow>
     heap_ordered lt l \<and> above lt p (set_tree l) \<and> above lt p D \<and>
     ctx_ordered lt C (insert p (set_tree l \<union> D))"

lemma ordered_plug:
  "heap_ordered lt (plug C t) \<longleftrightarrow> heap_ordered lt t \<and> ctx_ordered lt C (set_tree t)"
  by (induction C t rule: plug.induct) (auto simp: Un_commute insert_commute)

lemma ctx_ordered_mono: "ctx_ordered lt C D \<Longrightarrow> E \<subseteq> D \<Longrightarrow> ctx_ordered lt C E"
proof (induction lt C D arbitrary: E rule: ctx_ordered.induct)
  case (2 lt p r C D)
  have "insert p (set_tree r \<union> E) \<subseteq> insert p (set_tree r \<union> D)" using "2.prems"(2) by blast
  with 2 show ?case by (auto simp: above_def)
next
  case (3 lt l p C D)
  have "insert p (set_tree l \<union> E) \<subseteq> insert p (set_tree l \<union> D)" using "3.prems"(2) by blast
  with 3 show ?case by (auto simp: above_def)
qed simp

text \<open>An element not less than one that respects the context respects it too.\<close>

lemma ctx_ordered_insert:
  assumes "weak_order_on S lt" and "ctx_ordered lt C D" and "p \<in> D" and "\<not> lt c p"
    and "c \<in> S" and "D \<subseteq> S" and "set (ctx_nodes C) \<subseteq> S"
  shows "ctx_ordered lt C (insert c D)"
  using assms
proof (induction lt C D rule: ctx_ordered.induct)
  case (2 lt q r C D)
  have "\<not> lt c q"
    using weak_order_trans [OF "2.prems"(1), of c p q] subsetD [OF "2.prems"(6,3)] 2
    by (auto simp: above_def)
  moreover have "ctx_ordered lt C (insert c (insert q (set_tree r \<union> D)))"
    by (rule "2.IH") (use 2 in auto)
  ultimately show ?case using 2 by (simp add: insert_commute)
next
  case (3 lt l q C D)
  have "\<not> lt c q"
    using weak_order_trans [OF "3.prems"(1), of c p q] subsetD [OF "3.prems"(6,3)] 3
    by (auto simp: above_def)
  moreover have "ctx_ordered lt C (insert c (insert q (set_tree l \<union> D)))"
    by (rule "3.IH") (use 3 in auto)
  ultimately show ?case using 3 by (simp add: insert_commute)
qed simp

text \<open>
  The upward loop restores the order when everything but the moving element respects the
  context.
\<close>

lemma tup_ordered:
  assumes "weak_order_on S lt" and "set (ctx_nodes C) \<union> set_tree (Node a c b) \<subseteq> S"
    and "heap_ordered lt (Node a c b)" and "ctx_ordered lt C (set_tree a \<union> set_tree b)"
  shows "heap_ordered lt (tup lt C a c b)"
  using assms
proof (induction lt C a c b rule: tup.induct [case_names Nil Left Right])
  case (Left lt p r C a c b)
  show ?case
  proof (cases "lt c p")
    case True
    have "\<not> lt p c" using weak_order_asym [OF Left.prems(1) True] Left.prems(2) by auto
    have "above lt c (set_tree r)"
      by (rule above_trans [OF Left.prems(1), where y = p]) (use \<open>\<not> lt p c\<close> Left.prems in auto)
    with \<open>\<not> lt p c\<close> Left True show ?thesis
      by (auto simp: Un_ac insert_commute)
  next
    case False
    have "ctx_ordered lt C (insert c (insert p (set_tree r \<union> (set_tree a \<union> set_tree b))))"
      by (rule ctx_ordered_insert [OF Left.prems(1), where p = p]) (use Left.prems False in auto)
    then have "ctx_ordered lt (FL p r # C) (set_tree (Node a c b))"
      using Left.prems False by (auto simp: insert_commute Un_ac)
    then show ?thesis using Left.prems False by (simp del: plug.simps ctx_ordered.simps add: ordered_plug)
  qed
next
  case (Right lt l p C a c b)
  show ?case
  proof (cases "lt c p")
    case True
    have "\<not> lt p c" using weak_order_asym [OF Right.prems(1) True] Right.prems(2) by auto
    have "above lt c (set_tree l)"
      by (rule above_trans [OF Right.prems(1), where y = p]) (use \<open>\<not> lt p c\<close> Right.prems in auto)
    with \<open>\<not> lt p c\<close> Right True show ?thesis
      by (auto simp: Un_ac insert_commute)
  next
    case False
    have "ctx_ordered lt C (insert c (insert p (set_tree l \<union> (set_tree a \<union> set_tree b))))"
      by (rule ctx_ordered_insert [OF Right.prems(1), where p = p]) (use Right.prems False in auto)
    then have "ctx_ordered lt (FR l p # C) (set_tree (Node a c b))"
      using Right.prems False by (auto simp: insert_commute Un_ac)
    then show ?thesis using Right.prems False by (simp del: plug.simps ctx_ordered.simps add: ordered_plug)
  qed
qed simp

text \<open>
  The downward loop leaves the moving element with ordered subtrees that respect the
  context, and not greater than their roots.
\<close>

lemma heap_ordered_root: "heap_ordered lt t \<Longrightarrow> \<not> root_less lt t x \<Longrightarrow>
    weak_order_on S lt \<Longrightarrow> set_tree t \<subseteq> S \<Longrightarrow> x \<in> S \<Longrightarrow> above lt x (set_tree t)"
proof (cases t)
  case (Node l y r)
  assume *: "heap_ordered lt t" "\<not> root_less lt t x" "weak_order_on S lt" "set_tree t \<subseteq> S" "x \<in> S"
  have "above lt x (set_tree l \<union> set_tree r)"
    by (rule above_trans [OF *(3), where y = y]) (use * Node in \<open>auto simp: root_less_def\<close>)
  then show ?thesis using * Node by (auto simp: root_less_def)
qed simp

lemma tdown_ordered:
  assumes "weak_order_on S lt" and "set (ctx_nodes C) \<union> set_tree (Node l c r) \<subseteq> S"
    and "heap_ordered lt l" and "heap_ordered lt r" and "ctx_ordered lt C (set_tree l \<union> set_tree r)"
    and "tdown lt C l c r = (C', l', r')"
  shows "heap_ordered lt (Node l' c r') \<and> ctx_ordered lt C' (set_tree l' \<union> set_tree r')"
  using assms
proof (induction "size l + size r" arbitrary: C l r rule: less_induct)
  case less
  note W = less.prems(1)
  show ?case
  proof (cases rule: tdown_cases [where lt = lt and C = C and l = l and c = c and r = r])
    case (left ll x lr)
    have "above lt x (set_tree r)"
      by (rule heap_ordered_root [OF _ left(3) W]) (use less.prems left in auto)
    then have "ctx_ordered lt (FL x r # C) (set_tree ll \<union> set_tree lr)"
      using less.prems left(1) by (auto simp: Un_ac insert_commute)
    then show ?thesis
      by (intro less.hyps [OF _ W, where C = "FL x r # C" and l = ll and r = lr])
        (use less.prems left in auto)
  next
    case (right rl y rr)
    have "above lt y (set_tree l)"
    proof (cases l)
      case (Node ll x lr)
      have "lt y x \<or> (lt y c \<and> \<not> lt x c)"
        using right(2) Node by (auto simp: root_less_def split: if_splits)
      then have "\<not> lt x y"
        using weak_order_asym [OF W, of y x] weak_order_trans [OF W, of x c y]
          weak_order_asym [OF W, of y c] less.prems(2) right(1) Node by auto
      then show ?thesis
        by (intro heap_ordered_root [OF _ _ W]) (use less.prems right Node in \<open>auto simp: root_less_def\<close>)
    qed simp
    then have "ctx_ordered lt (FR l y # C) (set_tree rl \<union> set_tree rr)"
      using less.prems right(1) by (auto simp: Un_ac insert_commute)
    then show ?thesis
      by (intro less.hyps [OF _ W, where C = "FR l y # C" and l = rl and r = rr])
        (use less.prems right in auto)
  next
    case stay
    then have "above lt c (set_tree l)" "above lt c (set_tree r)"
      using less.prems by (auto intro!: heap_ordered_root [OF _ _ W])
    then show ?thesis using stay less.prems by auto
  qed
qed

section \<open>Elements and shape\<close>

abbreviation skel :: "addr tree \<Rightarrow> unit tree" where
  "skel t \<equiv> map_tree (\<lambda>_. ()) t"

lemma skel_plug_cong: "skel t = skel t' \<Longrightarrow> skel (plug C t) = skel (plug C t')"
  by (induction C t arbitrary: t' rule: plug.induct) auto

lemma tup_skel: "skel (tup lt C a c b) = skel (plug C (Node a c b))"
  by (induction lt C a c b rule: tup.induct) (auto intro: skel_plug_cong)

lemma tup_mset: "mset_tree (tup lt C a c b) = mset_tree (plug C (Node a c b))"
  by (induction lt C a c b rule: tup.induct) (auto simp: mset_plug)

lemma tdown_mset_skel:
  assumes "tdown lt C l c r = (C', l', r')"
  shows "mset_tree (plug C' (Node l' c r')) = mset_tree (plug C (Node l c r))"
    and "skel (plug C' (Node l' c r')) = skel (plug C (Node l c r))"
  using assms
proof (induction "size l + size r" arbitrary: C l r rule: less_induct)
  case less
  {
    case 1
    show ?case
    proof (cases rule: tdown_cases [where lt = lt and C = C and l = l and c = c and r = r])
      case (left ll x lr)
      then show ?thesis
        using less.hyps(1) [of ll lr "FL x r # C"] 1 by (auto simp: mset_plug)
    next
      case (right rl y rr)
      then show ?thesis
        using less.hyps(1) [of rl rr "FR l y # C"] 1 by (auto simp: mset_plug)
    qed (use 1 in auto)
  next
    case 2
    show ?case
    proof (cases rule: tdown_cases [where lt = lt and C = C and l = l and c = c and r = r])
      case (left ll x lr)
      then show ?thesis
        using less.hyps(2) [of ll lr "FL x r # C"] 2 by (auto intro: skel_plug_cong)
    next
      case (right rl y rr)
      then show ?thesis
        using less.hyps(2) [of rl rr "FR l y # C"] 2 by (auto intro: skel_plug_cong)
    qed (use 2 in auto)
  }
qed

text \<open>
  \<open>shape i n t\<close>: \<open>t\<close>, with its root at position \<open>i\<close>, holds exactly the positions up
  to \<open>n\<close> of its part of the complete binary tree (children of \<open>i\<close> at \<open>2 * i\<close>, \<open>2 * i + 1\<close>).
\<close>

fun shape :: "nat \<Rightarrow> nat \<Rightarrow> 'a tree \<Rightarrow> bool" where
  "shape i n Leaf \<longleftrightarrow> n < i"
| "shape i n (Node l x r) \<longleftrightarrow> i \<le> n \<and> shape (2 * i) n l \<and> shape (2 * i + 1) n r"

lemma shape_map [simp]: "shape i n (map_tree f t) = shape i n t"
  by (induction t arbitrary: i) auto

lemma shape_skel: "skel t = skel t' \<Longrightarrow> shape i n t = shape i n t'"
  by (metis shape_map)

fun hole :: "frame list \<Rightarrow> nat" where
  "hole [] = 1"
| "hole (FL p r # C) = 2 * hole C"
| "hole (FR l p # C) = 2 * hole C + 1"

fun ctx_shape :: "nat \<Rightarrow> frame list \<Rightarrow> bool" where
  "ctx_shape n [] = True"
| "ctx_shape n (FL p r # C) \<longleftrightarrow> hole C \<le> n \<and> shape (2 * hole C + 1) n r \<and> ctx_shape n C"
| "ctx_shape n (FR l p # C) \<longleftrightarrow> hole C \<le> n \<and> shape (2 * hole C) n l \<and> ctx_shape n C"

lemma hole_pos: "0 < hole C"
  by (induction C rule: hole.induct) auto

lemma shape_plug: "shape 1 n (plug C t) \<longleftrightarrow> ctx_shape n C \<and> shape (hole C) n t"
  by (induction C t rule: plug.induct) auto

text \<open>Position \<open>n\<close> lies below position \<open>i\<close> when \<open>i\<close> is \<open>n\<close> shifted right.\<close>

definition below :: "nat \<Rightarrow> nat \<Rightarrow> bool" where
  "below n i \<longleftrightarrow> (\<exists>k. n div 2 ^ k = i)"

lemma below_child: "below n (2 * i) \<Longrightarrow> below n i" "below n (2 * i + 1) \<Longrightarrow> below n i"
proof -
  have "n div 2 ^ Suc k = (n div 2 ^ k) div 2" for k
    by (metis div_mult2_eq power_Suc2)
  moreover have "(2 * i) div 2 = i" "(2 * i + 1) div 2 = i" by simp_all
  ultimately show "below n (2 * i) \<Longrightarrow> below n i" "below n (2 * i + 1) \<Longrightarrow> below n i"
    unfolding below_def by metis+
qed

lemma below_siblings: "0 < i \<Longrightarrow> \<not> (below n (2 * i) \<and> below n (2 * i + 1))"
proof
  assume i: "0 < i" and "below n (2 * i) \<and> below n (2 * i + 1)"
  then obtain j k where j: "n div 2 ^ j = 2 * i" and k: "n div 2 ^ k = 2 * i + 1"
    by (auto simp: below_def)
  have shrink: "n div 2 ^ b \<le> n div 2 ^ a div 2" if "a < b" for a b
  proof -
    have "n div 2 ^ b = n div 2 ^ a div 2 ^ (b - a)"
      using that by (metis div_mult2_eq le_add_diff_inverse less_imp_le power_add)
    also have "\<dots> \<le> n div 2 ^ a div 2"
      using that by (intro div_le_mono2) (auto simp: self_le_power)
    finally show ?thesis .
  qed
  show False
    using shrink [of j k] shrink [of k j] i j k by (cases j k rule: linorder_cases) auto
qed

lemma shape_step:
  assumes "\<not> below (Suc n) i"
  shows "shape i n t \<longleftrightarrow> shape i (Suc n) t"
proof -
  have ne: "j \<noteq> Suc n" if "\<not> below (Suc n) j" for j
    using that unfolding below_def by (metis div_by_1 power_0)
  show ?thesis
    using assms
  proof (induction t arbitrary: i)
    case Leaf
    then show ?case using ne [of i] by auto
  next
    case (Node l x r)
    then show ?case using ne [of i] below_child [of "Suc n" i] by auto
  qed
qed

lemma ctx_shape_step:
  assumes "hole C = Suc n"
  shows "ctx_shape n C \<longleftrightarrow> ctx_shape (Suc n) C"
proof -
  have "ctx_shape n C \<longleftrightarrow> ctx_shape (Suc n) C" if "below (Suc n) (hole C)" "hole C \<le> Suc n"
    for C
    using that
  proof (induction C rule: hole.induct)
    case (2 p r C)
    then show ?case
      using below_child [of "Suc n" "hole C"] below_siblings [OF hole_pos [of C], of "Suc n"]
        shape_step [of n "2 * hole C + 1" r] hole_pos [of C] by auto
  next
    case (3 l p C)
    then show ?case
      using below_child [of "Suc n" "hole C"] below_siblings [OF hole_pos [of C], of "Suc n"]
        shape_step [of n "2 * hole C" l] hole_pos [of C] by auto
  qed auto
  moreover have "below (Suc n) (Suc n)" unfolding below_def by (rule exI [of _ 0]) simp
  ultimately show ?thesis using assms by simp
qed

end
