(* ===== verification/UV_Heap.thy ===== *)
theory UV_Heap
  imports UV_Heap_Tree
begin

text \<open>
  The binary min-heap of src/heap-inl.h: nodes with three pointers in an explicit store,
  the heap's root pointer and its 32-bit element count.  Every function is the C code
  statement by statement; a null pointer dereference and a loop that does not end are
  both the result \<open>None\<close>.  The refinement to \<open>UV_Heap_Tree\<close> shows that neither happens
  on a well-formed heap, and that the element set, the order and the complete shape are
  maintained.
\<close>

section \<open>The store\<close>

record heap_node =
  h_left :: ptr
  h_right :: ptr
  h_parent :: ptr

record heap =
  h_min :: ptr
  h_nelts :: u32

record hstate = heap +
  h_mem :: "addr \<Rightarrow> heap_node"

definition set_left :: "addr \<Rightarrow> ptr \<Rightarrow> hstate \<Rightarrow> hstate" where
  "set_left p v s = s\<lparr>h_mem := (h_mem s)(p := (h_mem s p)\<lparr>h_left := v\<rparr>)\<rparr>"

definition set_right :: "addr \<Rightarrow> ptr \<Rightarrow> hstate \<Rightarrow> hstate" where
  "set_right p v s = s\<lparr>h_mem := (h_mem s)(p := (h_mem s p)\<lparr>h_right := v\<rparr>)\<rparr>"

definition set_parent :: "addr \<Rightarrow> ptr \<Rightarrow> hstate \<Rightarrow> hstate" where
  "set_parent p v s = s\<lparr>h_mem := (h_mem s)(p := (h_mem s p)\<lparr>h_parent := v\<rparr>)\<rparr>"

definition set_node :: "addr \<Rightarrow> heap_node \<Rightarrow> hstate \<Rightarrow> hstate" where
  "set_node p n s = s\<lparr>h_mem := (h_mem s)(p := n)\<rparr>"

text \<open>The guarded stores \<open>if (q != NULL) q->parent = v\<close> of the C code.\<close>

definition set_parent_of :: "ptr \<Rightarrow> ptr \<Rightarrow> hstate \<Rightarrow> hstate" where
  "set_parent_of q v s = (case q of None \<Rightarrow> s | Some b \<Rightarrow> set_parent b v s)"

text \<open>
  \<open>if (g == NULL) heap->min = new; else if (g->left == old) g->left = new; else g->right = new;\<close>
\<close>

definition relink :: "ptr \<Rightarrow> addr \<Rightarrow> addr \<Rightarrow> hstate \<Rightarrow> hstate" where
  "relink g old new s =
     (case g of
        None \<Rightarrow> s\<lparr>h_min := Some new\<rparr>
      | Some p \<Rightarrow> (if h_left (h_mem s p) = Some old then set_left p (Some new) s
                  else set_right p (Some new) s))"

section \<open>The operations\<close>

definition heap_init :: "hstate \<Rightarrow> hstate" where
  "heap_init s = s\<lparr>h_min := None, h_nelts := 0\<rparr>"

definition heap_min :: "hstate \<Rightarrow> ptr" where
  "heap_min s = h_min s"

definition heap_node_swap :: "addr \<Rightarrow> addr \<Rightarrow> hstate \<Rightarrow> hstate" where
  "heap_node_swap parent child s =
     (let t = h_mem s parent;
          s = set_node parent (h_mem s child) s;
          s = set_node child t s;
          s = set_parent parent (Some child) s;
          (s, sibling) =
            (if h_left (h_mem s child) = Some child
             then (set_left child (Some parent) s, h_right (h_mem s child))
             else (set_right child (Some parent) s, h_left (h_mem s child)));
          s = set_parent_of sibling (Some child) s;
          s = set_parent_of (h_left (h_mem s parent)) (Some parent) s;
          s = set_parent_of (h_right (h_mem s parent)) (Some parent) s
      in relink (h_parent (h_mem s child)) parent child s)"

text \<open>
  \<open>for (k = 0, n = ...; n >= 2; k += 1, n /= 2) path = (path << 1) | (n & 1);\<close>
\<close>

function heap_path :: "u32 \<Rightarrow> u32 \<Rightarrow> u32 \<Rightarrow> u32 \<times> u32" where
  "heap_path k n path =
     (if 2 \<le> n then heap_path (k + 1) (n div 2) (or (push_bit 1 path) (and n 1))
      else (k, path))"
  by pat_completeness auto
termination
proof (relation "measure (\<lambda>(k, n, path). unat n)")
  fix k n path :: u32
  assume "2 \<le> n"
  then have "unat (n div 2) < unat n"
    by (simp add: unat_div word_le_nat_alt)
  then show "((k + 1, n div 2, or (push_bit 1 path) (and n 1)), k, n, path) \<in>
      measure (\<lambda>(k, n, path). unat n)"
    by simp
qed simp

declare heap_path.simps [simp del]

text \<open>A \<open>struct heap_node **\<close>: the address of the root pointer or of a child pointer.\<close>

datatype hloc = MinLoc | LeftOf addr | RightOf addr

fun read_loc :: "hloc \<Rightarrow> hstate \<Rightarrow> ptr" where
  "read_loc MinLoc s = h_min s"
| "read_loc (LeftOf p) s = h_left (h_mem s p)"
| "read_loc (RightOf p) s = h_right (h_mem s p)"

fun write_loc :: "hloc \<Rightarrow> ptr \<Rightarrow> hstate \<Rightarrow> hstate" where
  "write_loc MinLoc v s = s\<lparr>h_min := v\<rparr>"
| "write_loc (LeftOf p) v s = set_left p v s"
| "write_loc (RightOf p) v s = set_right p v s"

text \<open>The traversal loop, with the location of the parent trailing that of the child.\<close>

function heap_descend :: "u32 \<Rightarrow> u32 \<Rightarrow> hloc \<Rightarrow> hloc \<Rightarrow> hstate \<Rightarrow> (hloc \<times> hloc) option" where
  "heap_descend k path parent child s =
     (if 0 < k then
        (case read_loc child s of
           None \<Rightarrow> None
         | Some c \<Rightarrow>
             heap_descend (k - 1) (drop_bit 1 path) child
               (if and path 1 \<noteq> 0 then RightOf c else LeftOf c) s)
      else Some (parent, child))"
  by pat_completeness auto
termination
  by (relation "measure (\<lambda>(k, path, parent, child, s). unat k)")
    (auto simp: unat_sub_one word_gt_0 unat_gt_0)

declare heap_descend.simps [simp del]

partial_function (option) sift_up :: "(addr \<Rightarrow> addr \<Rightarrow> bool) \<Rightarrow> addr \<Rightarrow> hstate \<Rightarrow> hstate option" where
  "sift_up lt node s =
     (case h_parent (h_mem s node) of
        None \<Rightarrow> Some s
      | Some p \<Rightarrow> (if lt node p then sift_up lt node (heap_node_swap p node s)
                  else Some s))"

declare sift_up.simps [code]

definition smallest_child :: "(addr \<Rightarrow> addr \<Rightarrow> bool) \<Rightarrow> addr \<Rightarrow> hstate \<Rightarrow> addr" where
  "smallest_child lt child s =
     (let smallest = child;
          smallest = (case h_left (h_mem s child) of
             Some l \<Rightarrow> (if lt l smallest then l else smallest) | None \<Rightarrow> smallest);
          smallest = (case h_right (h_mem s child) of
             Some r \<Rightarrow> (if lt r smallest then r else smallest) | None \<Rightarrow> smallest)
      in smallest)"

partial_function (option) sift_down :: "(addr \<Rightarrow> addr \<Rightarrow> bool) \<Rightarrow> addr \<Rightarrow> hstate \<Rightarrow> hstate option" where
  "sift_down lt child s =
     (let smallest = smallest_child lt child s
      in if smallest = child then Some s
         else sift_down lt child (heap_node_swap child smallest s))"

declare sift_down.simps [code]

definition heap_insert :: "(addr \<Rightarrow> addr \<Rightarrow> bool) \<Rightarrow> addr \<Rightarrow> hstate \<Rightarrow> hstate option" where
  "heap_insert lt newnode s =
     (let s = set_left newnode None s;
          s = set_right newnode None s;
          s = set_parent newnode None s;
          (k, path) = heap_path 0 (1 + h_nelts s) 0
      in case heap_descend k path MinLoc MinLoc s of
           None \<Rightarrow> None
         | Some (parent, child) \<Rightarrow>
             (let s = set_parent newnode (read_loc parent s) s;
                  s = write_loc child (Some newnode) s;
                  s = s\<lparr>h_nelts := h_nelts s + 1\<rparr>
              in sift_up lt newnode s))"

definition heap_remove :: "(addr \<Rightarrow> addr \<Rightarrow> bool) \<Rightarrow> addr \<Rightarrow> hstate \<Rightarrow> hstate option" where
  "heap_remove lt node s =
     (if h_nelts s = 0 then Some s
      else
        (let (k, path) = heap_path 0 (h_nelts s) 0
         in case heap_descend k path MinLoc MinLoc s of
              None \<Rightarrow> None
            | Some (_, maxloc) \<Rightarrow>
                (let s = s\<lparr>h_nelts := h_nelts s - 1\<rparr>;
                     child = read_loc maxloc s;
                     s = write_loc maxloc None s
                 in if child = Some node then
                      Some (if child = h_min s then s\<lparr>h_min := None\<rparr> else s)
                    else case child of
                      None \<Rightarrow> None
                    | Some c \<Rightarrow>
                        (let s = set_left c (h_left (h_mem s node)) s;
                             s = set_right c (h_right (h_mem s node)) s;
                             s = set_parent c (h_parent (h_mem s node)) s;
                             s = set_parent_of (h_left (h_mem s c)) (Some c) s;
                             s = set_parent_of (h_right (h_mem s c)) (Some c) s;
                             s = relink (h_parent (h_mem s node)) node c s
                         in case sift_down lt c s of
                              None \<Rightarrow> None
                            | Some s \<Rightarrow> sift_up lt c s))))"

definition heap_dequeue :: "(addr \<Rightarrow> addr \<Rightarrow> bool) \<Rightarrow> hstate \<Rightarrow> hstate option" where
  "heap_dequeue lt s =
     (case h_min s of
        Some m \<Rightarrow> heap_remove lt m s
      | None \<Rightarrow> (if h_nelts s = 0 then Some s else None))"

section \<open>Field access\<close>

lemma left_simps [simp]:
  "h_left (h_mem (set_left p v s) x) = (if x = p then v else h_left (h_mem s x))"
  "h_left (h_mem (set_right p v s) x) = h_left (h_mem s x)"
  "h_left (h_mem (set_parent p v s) x) = h_left (h_mem s x)"
  "h_left (h_mem (set_node p n s) x) = (if x = p then h_left n else h_left (h_mem s x))"
  "h_left (h_mem (set_parent_of q v s) x) = h_left (h_mem s x)"
  by (auto simp: set_left_def set_right_def set_parent_def set_node_def set_parent_of_def
      split: option.split)

lemma right_simps [simp]:
  "h_right (h_mem (set_left p v s) x) = h_right (h_mem s x)"
  "h_right (h_mem (set_right p v s) x) = (if x = p then v else h_right (h_mem s x))"
  "h_right (h_mem (set_parent p v s) x) = h_right (h_mem s x)"
  "h_right (h_mem (set_node p n s) x) = (if x = p then h_right n else h_right (h_mem s x))"
  "h_right (h_mem (set_parent_of q v s) x) = h_right (h_mem s x)"
  by (auto simp: set_left_def set_right_def set_parent_def set_node_def set_parent_of_def
      split: option.split)

lemma parent_simps [simp]:
  "h_parent (h_mem (set_left p v s) x) = h_parent (h_mem s x)"
  "h_parent (h_mem (set_right p v s) x) = h_parent (h_mem s x)"
  "h_parent (h_mem (set_parent p v s) x) = (if x = p then v else h_parent (h_mem s x))"
  "h_parent (h_mem (set_node p n s) x) = (if x = p then h_parent n else h_parent (h_mem s x))"
  "h_parent (h_mem (set_parent_of q v s) x) = (if q = Some x then v else h_parent (h_mem s x))"
  by (auto simp: set_left_def set_right_def set_parent_def set_node_def set_parent_of_def
      split: option.split)

lemma head_simps [simp]:
  "h_min (set_left p v s) = h_min s" "h_nelts (set_left p v s) = h_nelts s"
  "h_min (set_right p v s) = h_min s" "h_nelts (set_right p v s) = h_nelts s"
  "h_min (set_parent p v s) = h_min s" "h_nelts (set_parent p v s) = h_nelts s"
  "h_min (set_node p n s) = h_min s" "h_nelts (set_node p n s) = h_nelts s"
  "h_min (set_parent_of q v s) = h_min s" "h_nelts (set_parent_of q v s) = h_nelts s"
  by (auto simp: set_left_def set_right_def set_parent_def set_node_def set_parent_of_def
      split: option.split)

lemma relink_simps [simp]:
  "h_parent (h_mem (relink g p c s) x) = h_parent (h_mem s x)"
  "h_nelts (relink g p c s) = h_nelts s"
  "h_min (relink g p c s) = (if g = None then Some c else h_min s)"
  "h_left (h_mem (relink g p c s) x) =
     (if g = Some x \<and> h_left (h_mem s x) = Some p then Some c else h_left (h_mem s x))"
  "h_right (h_mem (relink g p c s) x) =
     (if g = Some x \<and> h_left (h_mem s x) \<noteq> Some p then Some c else h_right (h_mem s x))"
  by (auto simp: relink_def split: option.split)

lemma loc_simps [simp]:
  "h_nelts (write_loc l v s) = h_nelts s"
  "h_parent (h_mem (write_loc l v s) x) = h_parent (h_mem s x)"
  "h_min (write_loc l v s) = (if l = MinLoc then v else h_min s)"
  "h_left (h_mem (write_loc l v s) x) = (if l = LeftOf x then v else h_left (h_mem s x))"
  "h_right (h_mem (write_loc l v s) x) = (if l = RightOf x then v else h_right (h_mem s x))"
  by (cases l; simp)+

lemma mem_other [simp]:
  "x \<noteq> p \<Longrightarrow> h_mem (set_left p v s) x = h_mem s x"
  "x \<noteq> p \<Longrightarrow> h_mem (set_right p v s) x = h_mem s x"
  "x \<noteq> p \<Longrightarrow> h_mem (set_parent p v s) x = h_mem s x"
  by (simp_all add: set_left_def set_right_def set_parent_def)

lemma swap_nelts [simp]: "h_nelts (heap_node_swap p c s) = h_nelts s"
  by (simp add: heap_node_swap_def Let_def split: prod.split)

section \<open>Trees in the store\<close>

fun root_ptr :: "addr tree \<Rightarrow> ptr" where
  "root_ptr Leaf = None"
| "root_ptr (Node _ x _) = Some x"

fun rep :: "(addr \<Rightarrow> heap_node) \<Rightarrow> ptr \<Rightarrow> addr tree \<Rightarrow> bool" where
  "rep m par Leaf = True"
| "rep m par (Node l x r) \<longleftrightarrow>
     h_parent (m x) = par \<and> h_left (m x) = root_ptr l \<and> h_right (m x) = root_ptr r \<and>
     rep m (Some x) l \<and> rep m (Some x) r"

fun ctx_parent :: "frame list \<Rightarrow> ptr" where
  "ctx_parent [] = None"
| "ctx_parent (FL p r # C) = Some p"
| "ctx_parent (FR l p # C) = Some p"

fun rep_ctx :: "(addr \<Rightarrow> heap_node) \<Rightarrow> frame list \<Rightarrow> ptr \<Rightarrow> bool" where
  "rep_ctx m [] q = True"
| "rep_ctx m (FL p r # C) q \<longleftrightarrow>
     h_parent (m p) = ctx_parent C \<and> h_left (m p) = q \<and> h_right (m p) = root_ptr r \<and>
     rep m (Some p) r \<and> rep_ctx m C (Some p)"
| "rep_ctx m (FR l p # C) q \<longleftrightarrow>
     h_parent (m p) = ctx_parent C \<and> h_left (m p) = root_ptr l \<and> h_right (m p) = q \<and>
     rep m (Some p) l \<and> rep_ctx m C (Some p)"

lemma rep_plug: "rep m None (plug C t) \<longleftrightarrow> rep_ctx m C (root_ptr t) \<and> rep m (ctx_parent C) t"
  by (induction C t rule: plug.induct) auto

text \<open>The state represents \<open>t\<close>: root pointer, nodes, and no sharing.\<close>

definition repr :: "hstate \<Rightarrow> addr tree \<Rightarrow> bool" where
  "repr s t \<longleftrightarrow> h_min s = root_ptr t \<and> rep (h_mem s) None t \<and> distinct (inorder t)"

lemma root_ptr_plug_cong: "C \<noteq> [] \<or> root_ptr t = root_ptr t' \<Longrightarrow> root_ptr (plug C t) = root_ptr (plug C t')"
proof -
  have *: "root_ptr t = root_ptr t' \<Longrightarrow> root_ptr (plug C t) = root_ptr (plug C t')" for C t t'
    by (induction C t arbitrary: t' rule: plug.induct) auto
  show "C \<noteq> [] \<or> root_ptr t = root_ptr t' \<Longrightarrow> ?thesis"
    by (cases C rule: ctx_parent.cases) (auto intro: *)
qed

lemma ctx_parent_mem: "ctx_parent C = Some x \<Longrightarrow> x \<in> set (ctx_nodes C)"
  by (cases C rule: ctx_parent.cases) auto

lemma ctx_parent_None [simp]: "ctx_parent C = None \<longleftrightarrow> C = []"
  by (cases C rule: ctx_parent.cases) auto

lemma repr_plug:
  "repr s (plug C t) \<longleftrightarrow>
     h_min s = root_ptr (plug C t) \<and> rep_ctx (h_mem s) C (root_ptr t) \<and>
     rep (h_mem s) (ctx_parent C) t \<and> distinct (ctx_nodes C @ inorder t)"
  by (simp only: repr_def rep_plug distinct_plug) blast

lemma root_ptr_mem: "root_ptr t = Some x \<Longrightarrow> x \<in> set_tree t"
  by (cases t) auto

lemma rep_same: "rep m par t \<Longrightarrow> (\<And>x. x \<in> set_tree t \<Longrightarrow> m' x = m x) \<Longrightarrow> rep m' par t"
  by (induction t arbitrary: par) auto

lemma rep_ctx_same:
  "rep_ctx m C q \<Longrightarrow> (\<And>x. x \<in> set (ctx_nodes C) \<Longrightarrow> m' x = m x) \<Longrightarrow> rep_ctx m' C q"
  by (induction C arbitrary: q rule: ctx_nodes.induct) (auto intro: rep_same)

lemma repr_frame:
  "repr s t \<Longrightarrow> h_min s' = h_min s \<Longrightarrow> (\<And>x. x \<in> set_tree t \<Longrightarrow> h_mem s' x = h_mem s x) \<Longrightarrow> repr s' t"
  by (auto simp: repr_def intro: rep_same)

lemma rep_cong:
  assumes "rep m par t"
    and "\<And>x. x \<in> set_tree t \<Longrightarrow> h_left (m' x) = h_left (m x) \<and> h_right (m' x) = h_right (m x)"
    and "\<And>x. x \<in> set_tree t \<Longrightarrow> h_parent (m' x) = (if root_ptr t = Some x then par' else h_parent (m x))"
    and "distinct (inorder t)"
  shows "rep m' par' t"
proof -
  have same: "rep m' par t" if "rep m par t"
    "\<And>x. x \<in> set_tree t \<Longrightarrow> h_left (m' x) = h_left (m x) \<and> h_right (m' x) = h_right (m x) \<and>
       h_parent (m' x) = h_parent (m x)" for par t
    using that by (induction t arbitrary: par) auto
  show ?thesis
  proof (cases t)
    case (Node l x r)
    then have "x \<notin> set_tree l" "x \<notin> set_tree r" using assms(4) by auto
    then show ?thesis using assms(1-3) Node by (auto intro!: same)
  qed simp
qed

lemma rep_ctx_cong:
  assumes "rep_ctx m C q"
    and "\<And>x. x \<in> set (ctx_nodes C) \<Longrightarrow> h_parent (m' x) = h_parent (m x)"
    and "\<And>x. x \<in> set (ctx_nodes C) \<Longrightarrow>
      h_left (m' x) = (if ctx_parent C = Some x \<and> h_left (m x) = q then q' else h_left (m x))"
    and "\<And>x. x \<in> set (ctx_nodes C) \<Longrightarrow>
      h_right (m' x) = (if ctx_parent C = Some x \<and> h_left (m x) \<noteq> q then q' else h_right (m x))"
    and "distinct (ctx_nodes C)" and "q \<noteq> None" and "\<And>x. q = Some x \<Longrightarrow> x \<notin> set (ctx_nodes C)"
  shows "rep_ctx m' C q'"
proof -
  have eq: "m' x = m x" if "x \<in> set (ctx_nodes C)" "ctx_parent C \<noteq> Some x" for x
    using assms(2-4) [OF that(1)] that(2) by (intro heap_node.equality) auto
  show ?thesis
  proof (cases C rule: ctx_parent.cases)
    case (2 p r D)
    have "rep m' (Some p) r" by (rule rep_same [of m]) (use assms(1,5) 2 in \<open>auto intro!: eq\<close>)
    moreover have "rep_ctx m' D (Some p)" by (rule rep_ctx_same [of m]) (use assms(1,5) 2 in \<open>auto intro!: eq\<close>)
    ultimately show ?thesis using assms(1) assms(2-4) [of p] 2 by simp
  next
    case (3 l p D)
    have "root_ptr l \<noteq> q" using assms(6,7) 3 root_ptr_mem by fastforce
    moreover have "rep m' (Some p) l" by (rule rep_same [of m]) (use assms(1,5) 3 in \<open>auto intro!: eq\<close>)
    moreover have "rep_ctx m' D (Some p)" by (rule rep_ctx_same [of m]) (use assms(1,5) 3 in \<open>auto intro!: eq\<close>)
    ultimately show ?thesis using assms(1) assms(2-4) [of p] 3 by simp
  qed simp
qed

section \<open>One swap\<close>

text \<open>
  Swapping an element with its parent exchanges their labels in the tree, whichever child
  it is.
\<close>

lemma swap_left:
  assumes "repr s (plug (FL p r # C) (Node a c b))"
  shows "repr (heap_node_swap p c s) (plug (FL c r # C) (Node a p b))"
proof -
  let ?s = "heap_node_swap p c s" and ?m = "h_mem s"
  from assms have d: "distinct (p # inorder r @ ctx_nodes C @ c # inorder a @ inorder b)"
    and min: "h_min s = root_ptr (plug (FL p r # C) (Node a c b))"
    and pm: "h_parent (?m p) = ctx_parent C" "h_left (?m p) = Some c" "h_right (?m p) = root_ptr r"
    and cm: "h_parent (?m c) = Some p" "h_left (?m c) = root_ptr a" "h_right (?m c) = root_ptr b"
    and sub: "rep ?m (Some p) r" "rep ?m (Some c) a" "rep ?m (Some c) b"
    and ctx: "rep_ctx ?m C (Some p)"
    by (auto simp del: plug.simps simp: repr_plug)
  note mem = root_ptr_mem ctx_parent_mem
  have ne: "p \<noteq> c" "root_ptr a \<noteq> Some p" "root_ptr a \<noteq> Some c" "root_ptr b \<noteq> Some p"
    "root_ptr b \<noteq> Some c" "root_ptr r \<noteq> Some p" "root_ptr r \<noteq> Some c"
    "ctx_parent C \<noteq> Some p" "ctx_parent C \<noteq> Some c"
    using d by (auto dest: mem)
  note fields = pm cm ne heap_node_swap_def Let_def
  have "rep_ctx (h_mem ?s) C (Some c)"
    by (rule rep_ctx_cong [OF ctx]) (use d pm cm ne in \<open>auto simp: heap_node_swap_def Let_def dest: mem\<close>)
  moreover have "rep (h_mem ?s) (Some c) r"
    by (rule rep_cong [OF sub(1)]) (use d in \<open>auto simp: fields dest: mem\<close>)
  moreover have "rep (h_mem ?s) (Some p) a"
    by (rule rep_cong [OF sub(2)]) (use d in \<open>auto simp: fields dest: mem\<close>)
  moreover have "rep (h_mem ?s) (Some p) b"
    by (rule rep_cong [OF sub(3)]) (use d in \<open>auto simp: fields dest: mem\<close>)
  moreover have "h_min ?s = root_ptr (plug (FL c r # C) (Node a p b))"
    using min root_ptr_plug_cong [of C "Node (Node a c b) p r" "Node (Node a p b) c r"]
    by (cases "C = []") (simp_all add: fields ne(1) [symmetric])
  moreover have "h_parent (h_mem ?s p) = Some c" "h_left (h_mem ?s p) = root_ptr a"
    "h_right (h_mem ?s p) = root_ptr b" "h_parent (h_mem ?s c) = ctx_parent C"
    "h_left (h_mem ?s c) = Some p" "h_right (h_mem ?s c) = root_ptr r"
    by (auto simp: fields ne(1) [symmetric])
  ultimately have "repr ?s (plug C (Node (Node a p b) c r))"
    unfolding repr_plug using d by auto
  then show ?thesis by simp
qed

lemma swap_right:
  assumes "repr s (plug (FR l p # C) (Node a c b))"
  shows "repr (heap_node_swap p c s) (plug (FR l c # C) (Node a p b))"
proof -
  let ?s = "heap_node_swap p c s" and ?m = "h_mem s"
  from assms have d: "distinct (p # inorder l @ ctx_nodes C @ c # inorder a @ inorder b)"
    and min: "h_min s = root_ptr (plug (FR l p # C) (Node a c b))"
    and pm: "h_parent (?m p) = ctx_parent C" "h_left (?m p) = root_ptr l" "h_right (?m p) = Some c"
    and cm: "h_parent (?m c) = Some p" "h_left (?m c) = root_ptr a" "h_right (?m c) = root_ptr b"
    and sub: "rep ?m (Some p) l" "rep ?m (Some c) a" "rep ?m (Some c) b"
    and ctx: "rep_ctx ?m C (Some p)"
    by (auto simp del: plug.simps simp: repr_plug)
  note mem = root_ptr_mem ctx_parent_mem
  have ne: "p \<noteq> c" "root_ptr a \<noteq> Some p" "root_ptr a \<noteq> Some c" "root_ptr b \<noteq> Some p"
    "root_ptr b \<noteq> Some c" "root_ptr l \<noteq> Some p" "root_ptr l \<noteq> Some c"
    "ctx_parent C \<noteq> Some p" "ctx_parent C \<noteq> Some c"
    using d by (auto dest: mem)
  note fields = pm cm ne heap_node_swap_def Let_def
  have "rep_ctx (h_mem ?s) C (Some c)"
    by (rule rep_ctx_cong [OF ctx]) (use d pm cm ne in \<open>auto simp: heap_node_swap_def Let_def dest: mem\<close>)
  moreover have "rep (h_mem ?s) (Some c) l"
    by (rule rep_cong [OF sub(1)]) (use d in \<open>auto simp: fields dest: mem\<close>)
  moreover have "rep (h_mem ?s) (Some p) a"
    by (rule rep_cong [OF sub(2)]) (use d in \<open>auto simp: fields dest: mem\<close>)
  moreover have "rep (h_mem ?s) (Some p) b"
    by (rule rep_cong [OF sub(3)]) (use d in \<open>auto simp: fields dest: mem\<close>)
  moreover have "h_min ?s = root_ptr (plug (FR l c # C) (Node a p b))"
    using min root_ptr_plug_cong [of C "Node l p (Node a c b)" "Node l c (Node a p b)"]
    by (cases "C = []") (simp_all add: fields ne(1) [symmetric])
  moreover have "h_parent (h_mem ?s p) = Some c" "h_left (h_mem ?s p) = root_ptr a"
    "h_right (h_mem ?s p) = root_ptr b" "h_parent (h_mem ?s c) = ctx_parent C"
    "h_left (h_mem ?s c) = root_ptr l" "h_right (h_mem ?s c) = Some p"
    by (auto simp: fields ne(1) [symmetric])
  ultimately have "repr ?s (plug C (Node l c (Node a p b)))"
    unfolding repr_plug using d by auto
  then show ?thesis by simp
qed

section \<open>The loops\<close>

text \<open>A node's fields in a represented tree.\<close>

lemma repr_node:
  assumes "repr s (plug C (Node a c b))"
  shows "h_parent (h_mem s c) = ctx_parent C" "h_left (h_mem s c) = root_ptr a"
    "h_right (h_mem s c) = root_ptr b"
  using assms by (auto simp: repr_plug)

lemma sift_up_refines:
  "repr s (plug C (Node a c b)) \<Longrightarrow>
   \<exists>s'. sift_up lt c s = Some s' \<and> repr s' (tup lt C a c b) \<and> h_nelts s' = h_nelts s"
proof (induction lt C a c b arbitrary: s rule: tup.induct)
  case (1 lt a c b)
  then show ?case using repr_node(1) [of s "[]"] by (simp add: sift_up.simps)
next
  case (2 lt p r C a c b)
  show ?case
  proof (cases "lt c p")
    case True
    then show ?thesis
      using "2.IH" [OF True, of "heap_node_swap p c s"] swap_left [OF "2.prems"]
        repr_node(1) [OF "2.prems"] by (simp add: sift_up.simps [of lt c s])
  next
    case False
    then show ?thesis
      using "2.prems" repr_node(1) [OF "2.prems"] by (simp add: sift_up.simps [of lt c s])
  qed
next
  case (3 lt l p C a c b)
  show ?case
  proof (cases "lt c p")
    case True
    then show ?thesis
      using "3.IH" [OF True, of "heap_node_swap p c s"] swap_right [OF "3.prems"]
        repr_node(1) [OF "3.prems"] by (simp add: sift_up.simps [of lt c s])
  next
    case False
    then show ?thesis
      using "3.prems" repr_node(1) [OF "3.prems"] by (simp add: sift_up.simps [of lt c s])
  qed
qed

lemma smallest_child_eq:
  assumes "repr s (plug C (Node l c r))"
  shows "smallest_child lt c s =
    (let sm = (case l of Node _ x _ \<Rightarrow> (if lt x c then x else c) | Leaf \<Rightarrow> c)
     in case r of Node _ y _ \<Rightarrow> (if lt y sm then y else sm) | Leaf \<Rightarrow> sm)"
  using repr_node [OF assms] by (cases l; cases r) (auto simp: smallest_child_def Let_def)

lemma sift_down_refines:
  assumes "repr s (plug C (Node l c r))" and "tdown lt C l c r = (C', l', r')"
  shows "\<exists>s'. sift_down lt c s = Some s' \<and> repr s' (plug C' (Node l' c r')) \<and> h_nelts s' = h_nelts s"
  using assms
proof (induction "size l + size r" arbitrary: C l r s rule: less_induct)
  case less
  note sm = smallest_child_eq [OF less.prems(1), of lt]
  have d: "distinct (ctx_nodes C @ inorder (Node l c r))" using less.prems(1) by (simp add: repr_plug)
  show ?case
  proof (cases rule: tdown_cases [where lt = lt and C = C and l = l and c = c and r = r])
    case (left ll x lr)
    have "smallest_child lt c s = x" "x \<noteq> c"
      using sm left d by (auto simp: root_less_def split: tree.splits)
    moreover have "repr (heap_node_swap c x s) (plug (FL x r # C) (Node ll c lr))"
      by (rule swap_left) (use less.prems(1) left in simp)
    ultimately show ?thesis
      using less.hyps [of ll lr "heap_node_swap c x s" "FL x r # C"] left less.prems(2)
      by (simp add: sift_down.simps [of lt c s] del: plug.simps)
  next
    case (right rl y rr)
    have "smallest_child lt c s = y" "y \<noteq> c"
      using sm right d by (auto simp: root_less_def split: tree.splits if_splits)
    moreover have "repr (heap_node_swap c y s) (plug (FR l y # C) (Node rl c rr))"
      by (rule swap_right) (use less.prems(1) right in simp)
    ultimately show ?thesis
      using less.hyps [of rl rr "heap_node_swap c y s" "FR l y # C"] right less.prems(2)
      by (simp add: sift_down.simps [of lt c s] del: plug.simps)
  next
    case stay
    have "smallest_child lt c s = c"
      using sm stay by (auto simp: root_less_def split: tree.splits)
    then show ?thesis using stay less.prems by (simp add: sift_down.simps [of lt c s])
  qed
qed

section \<open>The path to a position\<close>

text \<open>The directions from the root to position \<open>n\<close>: the binary digits below the leading one.\<close>

fun bits :: "nat \<Rightarrow> bool list" where
  "bits n = (if n < 2 then [] else bits (n div 2) @ [odd n])"

declare bits.simps [simp del]

definition dirs :: "nat \<Rightarrow> u32 \<Rightarrow> bool list" where
  "dirs k path = map (bit path) [0..<k]"

fun idx :: "nat \<Rightarrow> bool list \<Rightarrow> nat" where
  "idx i [] = i"
| "idx i (d # ds) = idx (2 * i + of_bool d) ds"

lemma idx_snoc: "idx i (ds @ [d]) = 2 * idx i ds + of_bool d"
  by (induction ds arbitrary: i) auto

lemma idx_ge: "i \<le> idx i ds"
proof (induction ds arbitrary: i)
  case (Cons d ds)
  show ?case using order_trans [OF _ Cons.IH [of "2 * i + of_bool d"], of i] by simp
qed simp

lemma idx_bits: "0 < n \<Longrightarrow> idx 1 (bits n) = n"
proof (induction n rule: bits.induct)
  case (1 n)
  show ?case
  proof (cases "n < 2")
    case True
    with 1 show ?thesis by (simp add: bits.simps [of n])
  next
    case False
    then have "idx 1 (bits (n div 2)) = n div 2" using 1 by auto
    then show ?thesis using False by (simp add: bits.simps [of n] idx_snoc)
  qed
qed

lemma length_bits: "n < 2 ^ Suc m \<Longrightarrow> length (bits n) \<le> m"
proof (induction m arbitrary: n)
  case 0
  then show ?case by (simp add: bits.simps [of n])
next
  case (Suc m)
  then show ?case by (auto simp: bits.simps [of n])
qed

lemma dirs_Suc: "dirs (Suc k) path = (and path 1 \<noteq> 0) # dirs k (drop_bit 1 path)"
  by (simp add: dirs_def upt_conv_Cons map_Suc_upt [symmetric] bit_drop_bit_eq and_one_eq
      bit_0 odd_iff_mod_2_eq_one comp_def del: upt_Suc)

lemma odd_unat: "odd n = odd (unat n)" for n :: "'a::len word"
  by (metis even_of_nat mult.right_neutral unsigned_1 word_arith_nat_mult)

lemma dirs_push:
  assumes "k < 32"
  shows "dirs (Suc k) (or (push_bit 1 path) (and n 1)) = odd (unat n) # dirs k path"
proof -
  have "bit (or (push_bit 1 path) (and n 1)) 0 = odd (unat n)"
    unfolding bit_or_iff bit_push_bit_iff bit_and_iff by (simp add: bit_0 odd_unat)
  moreover have "bit (or (push_bit 1 path) (and n 1)) (Suc i) = bit path i" if "i < k" for i
    using that assms unfolding bit_or_iff bit_push_bit_iff bit_and_iff by (simp add: bit_1_iff)
  ultimately show ?thesis
    by (simp add: dirs_def upt_conv_Cons map_Suc_upt [symmetric] comp_def del: upt_Suc)
qed

lemma heap_path_eq:
  assumes "unat k + length (bits (unat n)) \<le> 32" and "heap_path k n path = (k', path')"
  shows "unat k' = unat k + length (bits (unat n)) \<and> dirs (unat k') path' = bits (unat n) @ dirs (unat k) path"
  using assms
proof (induction k n path rule: heap_path.induct)
  case (1 k n path)
  show ?case
  proof (cases "2 \<le> n")
    case True
    then have n: "\<not> unat n < 2" "unat (n div 2) = unat n div 2"
      by (simp_all add: word_le_nat_alt unat_div)
    then have b: "bits (unat n) = bits (unat (n div 2)) @ [odd (unat n)]"
      by (simp add: bits.simps [of "unat n"])
    have k: "unat (k + 1) = Suc (unat k)" "unat k < 32"
      using "1.prems"(1) b by (auto intro!: unat_add_one_less)
    define path1 where "path1 = or (push_bit 1 path) (and n 1)"
    have h: "heap_path (k + 1) (n div 2) path1 = (k', path')"
      using "1.prems"(2) True by (simp only: heap_path.simps [of k n path] if_True path1_def)
    have *: "unat k' = unat (k + 1) + length (bits (unat (n div 2))) \<and>
        dirs (unat k') path' = bits (unat (n div 2)) @ dirs (unat (k + 1)) path1"
      by (rule "1.IH" [OF True, folded path1_def, OF _ h]) (use "1.prems"(1) b k in simp)
    then show ?thesis
      using b k dirs_push [OF k(2), of path n, folded path1_def] * [THEN conjunct2]
      by (simp add: * [THEN conjunct1])
  next
    case False
    then have "unat n < 2" by (simp add: word_le_nat_alt)
    then show ?thesis using "1.prems"(2) False
      by (simp add: heap_path.simps [of k n path] bits.simps [of "unat n"])
  qed
qed

section \<open>Reaching and writing a location\<close>

fun loc_of :: "frame list \<Rightarrow> hloc" where
  "loc_of [] = MinLoc"
| "loc_of (FL p r # C) = LeftOf p"
| "loc_of (FR l p # C) = RightOf p"

lemma read_loc_of: "repr s (plug C t) \<Longrightarrow> read_loc (loc_of C) s = root_ptr t"
  by (cases C rule: loc_of.cases) (auto simp: repr_def rep_plug)

lemma write_loc_other [simp]:
  "l \<noteq> LeftOf x \<Longrightarrow> l \<noteq> RightOf x \<Longrightarrow> h_mem (write_loc l v s) x = h_mem s x"
  by (cases l) (auto simp: set_left_def set_right_def)

text \<open>Writing a child pointer replaces the subtree in the hole.\<close>

lemma repr_write:
  assumes "h_min s = root_ptr (plug C t)" and "rep_ctx (h_mem s) C (root_ptr t)"
    and "rep (h_mem s) (ctx_parent C) t'" and d: "distinct (ctx_nodes C @ inorder t')"
  shows "repr (write_loc (loc_of C) (root_ptr t') s) (plug C t')"
proof -
  let ?s = "write_loc (loc_of C) (root_ptr t') s"
  have other: "h_mem ?s x = h_mem s x" if "ctx_parent C \<noteq> Some x" for x
    using that by (cases C rule: ctx_parent.cases) auto
  have "rep (h_mem ?s) (ctx_parent C) t'"
    by (rule rep_same [OF assms(3)]) (use d ctx_parent_mem in \<open>auto intro!: other\<close>)
  moreover have "rep_ctx (h_mem ?s) C (root_ptr t')"
  proof (cases C rule: ctx_parent.cases)
    case (2 p r D)
    have "rep (h_mem ?s) (Some p) r"
      by (rule rep_same [of "h_mem s"]) (use assms(2) d 2 in \<open>auto simp: set_left_def set_right_def\<close>)
    moreover have "rep_ctx (h_mem ?s) D (Some p)"
      by (rule rep_ctx_same [of "h_mem s"]) (use assms(2) d 2 in \<open>auto simp: set_left_def set_right_def\<close>)
    ultimately show ?thesis using assms(2) 2 by simp
  next
    case (3 l p D)
    have "rep (h_mem ?s) (Some p) l"
      by (rule rep_same [of "h_mem s"]) (use assms(2) d 3 in \<open>auto simp: set_left_def set_right_def\<close>)
    moreover have "rep_ctx (h_mem ?s) D (Some p)"
      by (rule rep_ctx_same [of "h_mem s"]) (use assms(2) d 3 in \<open>auto simp: set_left_def set_right_def\<close>)
    ultimately show ?thesis using assms(2) 3 by simp
  qed simp
  moreover have "h_min ?s = root_ptr (plug C t')"
    using assms(1) root_ptr_plug_cong [of C t t'] by (cases C rule: loc_of.cases) auto
  ultimately show ?thesis using d unfolding repr_plug by blast
qed

text \<open>
  The traversal follows the directions to their position, as long as every node on the way
  exists, which holds for every position up to one past the last.
\<close>

lemma heap_descend_reaches:
  assumes "repr s (plug C t)" and "shape 1 n (plug C t)"
    and "dirs (unat k) path = ds" and "idx (hole C) ds \<le> Suc n" and "0 < n \<or> ds = []"
  shows "\<exists>par' C' t'. heap_descend k path par (loc_of C) s = Some (par', loc_of C') \<and>
    plug C t = plug C' t' \<and> hole C' = idx (hole C) ds \<and>
    (ds = [] \<and> C' = C \<and> par' = par \<or> read_loc par' s = ctx_parent C')"
  using assms
proof (induction ds arbitrary: k path C t par)
  case Nil
  then have "unat k = 0" by (simp add: dirs_def)
  then have "k = 0" by (simp add: unat_eq_zero)
  then have "heap_descend k path par (loc_of C) s = Some (par, loc_of C)"
    by (simp add: heap_descend.simps [of 0])
  then show ?case by auto
next
  case (Cons d ds)
  then have "length (dirs (unat k) path) = Suc (length ds)" by simp
  then have "0 < unat k" by (simp add: dirs_def)
  then have "k \<noteq> 0" by auto
  then have k: "0 < k" "unat k = Suc (unat (k - 1))"
    using \<open>0 < unat k\<close> by (simp_all add: word_less_nat_alt unat_sub_one)
  have d: "d = (and path 1 \<noteq> 0)" and ds: "dirs (unat (k - 1)) (drop_bit 1 path) = ds"
    using Cons.prems(3) k(2) by (simp_all add: dirs_Suc)
  have "2 * hole C + of_bool d \<le> Suc n"
    using Cons.prems(4) idx_ge [of "2 * hole C + of_bool d" ds] by simp
  then have "hole C \<le> n" using Cons.prems(5) by (cases "hole C = 1") auto
  then obtain l x r where t: "t = Node l x r"
    using Cons.prems(2) by (cases t) (auto simp: shape_plug [unfolded One_nat_def])
  have rd: "read_loc (loc_of C) s = Some x"
    using read_loc_of [OF Cons.prems(1)] t by simp
  define C1 t1 where "C1 = (if d then FR l x # C else FL x r # C)" and "t1 = (if d then r else l)"
  have C1: "plug C t = plug C1 t1" "hole C1 = 2 * hole C + of_bool d" "ctx_parent C1 = Some x"
    "loc_of C1 = (if d then RightOf x else LeftOf x)"
    using t by (auto simp: C1_def t1_def)
  have step: "heap_descend k path par (loc_of C) s =
      heap_descend (k - 1) (drop_bit 1 path) (loc_of C) (loc_of C1) s"
    using k(1) rd C1(4) d by (simp add: heap_descend.simps [of k])
  obtain par' C' t' where IH: "heap_descend (k - 1) (drop_bit 1 path) (loc_of C) (loc_of C1) s =
        Some (par', loc_of C')" "plug C1 t1 = plug C' t'" "hole C' = idx (hole C1) ds"
      "ds = [] \<and> C' = C1 \<and> par' = loc_of C \<or> read_loc par' s = ctx_parent C'"
    using Cons.IH [of C1 t1 "k - 1" "drop_bit 1 path" "loc_of C"] Cons.prems C1 ds by auto
  have "read_loc par' s = ctx_parent C'"
    using IH(4) rd C1(3) by auto
  then show ?case using IH step C1 by auto
qed

section \<open>Insertion and removal\<close>

text \<open>The tree in the store, its order, its complete shape and its element count.\<close>

definition heap_inv :: "(addr \<Rightarrow> addr \<Rightarrow> bool) \<Rightarrow> hstate \<Rightarrow> addr set \<Rightarrow> bool" where
  "heap_inv lt s S \<longleftrightarrow>
     (\<exists>t. repr s t \<and> heap_ordered lt t \<and> set_tree t = S \<and>
          shape 1 (unat (h_nelts s)) t \<and> size t = unat (h_nelts s))"

lemma path_reaches:
  assumes "repr s t" and "shape 1 n t" and "0 < N" and "N \<le> Suc n" and "N < 2 ^ 32"
    and "0 < n \<or> N = 1"
  shows "\<exists>par C t'. heap_descend (fst (heap_path 0 (of_nat N) 0)) (snd (heap_path 0 (of_nat N) 0))
      MinLoc MinLoc s = Some (par, loc_of C) \<and> t = plug C t' \<and> hole C = N \<and>
      (C = [] \<and> par = MinLoc \<or> read_loc par s = ctx_parent C)"
proof -
  let ?k = "fst (heap_path 0 (of_nat N :: u32) 0)" and ?p = "snd (heap_path 0 (of_nat N :: u32) 0)"
  have N: "unat (of_nat N :: u32) = N" using assms(5) by (simp add: unat_of_nat take_bit_eq_mod)
  have "length (bits N) \<le> 31" using length_bits [of N 31] assms(5) by simp
  then have "dirs (unat ?k) ?p = bits N"
    using heap_path_eq [of 0 "of_nat N" 0 ?k ?p, THEN conjunct2] N by (simp add: dirs_def [of 0])
  moreover have "bits N = []" if "N = 1" using that by (simp add: bits.simps [of "Suc 0"])
  ultimately show ?thesis
    using heap_descend_reaches [of s "[]" t n ?k ?p "bits N" MinLoc] assms idx_bits [of N]
    by (auto; blast)
qed

lemma shape_at_end:
  assumes "shape (hole C) n t'" and "hole C = n"
  obtains c where "t' = Node Leaf c Leaf"
proof (cases t')
  case (Node l c r)
  have sub: "shape (2 * n) n l" "shape (2 * n + 1) n r"
    using assms(1) Node unfolding assms(2) by simp_all
  have "0 < n" using hole_pos [of C] unfolding assms(2) .
  with sub have "l = Leaf" "r = Leaf" by (cases l; cases r; simp)+
  with Node that show ?thesis by simp
qed (use assms in simp)

lemma heap_insert_refines:
  assumes "repr s t" and "shape 1 (unat (h_nelts s)) t" and "new \<notin> set_tree t"
    and "unat (h_nelts s) < 2 ^ 32 - 1"
  shows "\<exists>C s'. t = plug C Leaf \<and> hole C = Suc (unat (h_nelts s)) \<and>
    heap_insert lt new s = Some s' \<and> repr s' (tup lt C Leaf new Leaf) \<and>
    unat (h_nelts s') = Suc (unat (h_nelts s))"
proof -
  let ?n = "unat (h_nelts s)"
  define s0 where "s0 = set_parent new None (set_right new None (set_left new None s))"
  have s0: "repr s0 t" "h_nelts s0 = h_nelts s" "h_left (h_mem s0 new) = None"
    "h_right (h_mem s0 new) = None"
    using assms(1,3)
    by (auto simp: s0_def set_left_def set_right_def set_parent_def intro!: repr_frame [OF assms(1)])
  have N: "1 + h_nelts s = of_nat (Suc ?n)" by simp
  have "unat (h_nelts s + 1) = Suc ?n" by (rule unat_add_one_less) (use assms(4) in simp)
  then have N2: "unat (1 + h_nelts s) = Suc ?n" by (simp only: add.commute)
  have "t = Leaf" if "?n = 0" using assms(2) that by (cases t) auto
  obtain par C t' where P: "heap_descend (fst (heap_path 0 (of_nat (Suc ?n)) 0))
      (snd (heap_path 0 (of_nat (Suc ?n)) 0)) MinLoc MinLoc s0 = Some (par, loc_of C)"
    "t = plug C t'" "hole C = Suc ?n" "C = [] \<and> par = MinLoc \<or> read_loc par s0 = ctx_parent C"
    using path_reaches [OF s0(1) assms(2), of "Suc ?n"] assms(4) by auto
  have "shape (hole C) ?n t'" using assms(2) P(2) by (simp add: shape_plug [unfolded One_nat_def])
  then have "t' = Leaf" using P(3) by (cases t') auto
  note t = P(2) [unfolded this]
  have par: "read_loc par s0 = ctx_parent C"
    using P(4) s0(1) t by (auto simp: repr_def)
  define s1 where "s1 = set_parent new (ctx_parent C) s0"
  define s2 where "s2 = (write_loc (loc_of C) (Some new) s1)\<lparr>h_nelts := h_nelts s1 + 1\<rparr>"
  have s1: "repr s1 (plug C Leaf)"
    using s0(1) assms(3) t
    by (auto simp: s1_def set_parent_def intro!: repr_frame [OF s0(1) [unfolded t]])
  have "repr (write_loc (loc_of C) (root_ptr (Node Leaf new Leaf)) s1) (plug C (Node Leaf new Leaf))"
    by (rule repr_write [where t = Leaf])
      (use s1 s0 assms(3) t in \<open>auto simp: repr_plug s1_def set_plug\<close>)
  then have "repr s2 (plug C (Node Leaf new Leaf))"
    by (auto simp: s2_def repr_def)
  then obtain s' where s': "sift_up lt new s2 = Some s'" "repr s' (tup lt C Leaf new Leaf)"
    "h_nelts s' = h_nelts s2"
    using sift_up_refines by blast
  have "heap_insert lt new s = sift_up lt new s2"
    using P(1) [folded N] par
    unfolding heap_insert_def Let_def s0_def [symmetric] s0(2) s1_def s2_def
    by (simp add: case_prod_beta s0(2))
  moreover have "h_nelts s2 = 1 + h_nelts s" using s0 by (simp add: s2_def s1_def)
  ultimately show ?thesis using s' t P(3) N2 by auto
qed

lemma repr_replace:
  assumes "repr s (plug D (Node l x r))" and "c \<notin> set_tree (plug D (Node l x r))"
  defines "s1 \<equiv> set_parent c (h_parent (h_mem s x)) (set_right c (h_right (h_mem s x))
      (set_left c (h_left (h_mem s x)) s))"
  defines "s2 \<equiv> set_parent_of (h_right (h_mem s1 c)) (Some c) (set_parent_of (h_left (h_mem s1 c)) (Some c) s1)"
  shows "repr (relink (h_parent (h_mem s2 x)) x c s2) (plug D (Node l c r))"
proof -
  let ?s = "relink (h_parent (h_mem s2 x)) x c s2"
  from assms(1,2) have d: "distinct (c # x # ctx_nodes D @ inorder l @ inorder r)"
    and min: "h_min s = root_ptr (plug D (Node l x r))"
    and xm: "h_parent (h_mem s x) = ctx_parent D" "h_left (h_mem s x) = root_ptr l"
      "h_right (h_mem s x) = root_ptr r"
    and sub: "rep (h_mem s) (Some x) l" "rep (h_mem s) (Some x) r"
    and ctx: "rep_ctx (h_mem s) D (Some x)"
    by (auto simp: repr_plug set_plug)
  note mem = root_ptr_mem ctx_parent_mem
  have ne: "c \<noteq> x" "root_ptr l \<noteq> Some x" "root_ptr r \<noteq> Some x" "root_ptr l \<noteq> Some c"
    "root_ptr r \<noteq> Some c" "ctx_parent D \<noteq> Some x" "ctx_parent D \<noteq> Some c"
    using d by (auto dest: mem)
  note fields = s1_def s2_def
  have "rep_ctx (h_mem ?s) D (Some c)"
    by (rule rep_ctx_cong [OF ctx]) (use d xm ne in \<open>auto simp: fields dest: mem\<close>)
  moreover have "rep (h_mem ?s) (Some c) l"
    by (rule rep_cong [OF sub(1)]) (use d xm ne in \<open>auto simp: fields dest: mem\<close>)
  moreover have "rep (h_mem ?s) (Some c) r"
    by (rule rep_cong [OF sub(2)]) (use d xm ne in \<open>auto simp: fields dest: mem\<close>)
  moreover have "h_parent (h_mem ?s c) = ctx_parent D" "h_left (h_mem ?s c) = root_ptr l"
    "h_right (h_mem ?s c) = root_ptr r"
    using xm ne by (auto simp: fields)
  moreover have "h_min ?s = root_ptr (plug D (Node l c r))"
    using min xm ne root_ptr_plug_cong [of D "Node l x r" "Node l c r"]
    by (cases "D = []") (auto simp: fields)
  ultimately show ?thesis
    unfolding repr_plug using d by auto
qed

lemma last_reached:
  assumes "repr s t" and "shape 1 (unat (h_nelts s)) t" and "t \<noteq> Leaf"
  obtains par C c where
    "heap_descend (fst (heap_path 0 (h_nelts s) 0)) (snd (heap_path 0 (h_nelts s) 0))
       MinLoc MinLoc s = Some (par, loc_of C)"
    "t = plug C (Node Leaf c Leaf)" "hole C = unat (h_nelts s)"
proof -
  let ?n = "unat (h_nelts s)"
  have n: "0 < ?n" using assms(2,3) by (cases t) auto
  have "?n < 2 ^ 32" using unsigned_less [of "h_nelts s"] by simp
  then obtain par C t' where P: "heap_descend (fst (heap_path 0 (of_nat ?n) 0))
      (snd (heap_path 0 (of_nat ?n) 0)) MinLoc MinLoc s = Some (par, loc_of C)"
    "t = plug C t'" "hole C = ?n"
    using path_reaches [OF assms(1,2) n] n by auto
  have "shape (hole C) ?n t'" using assms(2) P(2) by (simp add: shape_plug [unfolded One_nat_def])
  then obtain c where "t' = Node Leaf c Leaf" using shape_at_end [OF _ P(3)] by metis
  with P that show ?thesis by simp
qed

lemma heap_remove_refines:
  assumes "repr s t" and "shape 1 (unat (h_nelts s)) t" and "node \<in> set_tree t"
  shows "\<exists>C c s'. t = plug C (Node Leaf c Leaf) \<and> hole C = unat (h_nelts s) \<and>
    heap_remove lt node s = Some s' \<and> h_nelts s' = h_nelts s - 1 \<and>
    (c = node \<and> repr s' (plug C Leaf) \<or>
     (\<exists>D l r D' l' r'. c \<noteq> node \<and> plug C Leaf = plug D (Node l node r) \<and>
        tdown lt D l c r = (D', l', r') \<and> repr s' (tup lt D' l' c r')))"
proof -
  have nz: "h_nelts s \<noteq> 0" using assms(2,3) by (cases t) auto
  obtain par C c where P: "heap_descend (fst (heap_path 0 (h_nelts s) 0))
      (snd (heap_path 0 (h_nelts s) 0)) MinLoc MinLoc s = Some (par, loc_of C)"
    and t: "t = plug C (Node Leaf c Leaf)" and hole: "hole C = unat (h_nelts s)"
    using last_reached [OF assms(1,2)] assms(3) by (metis empty_iff tree.set(1))
  define s0 where "s0 = s\<lparr>h_nelts := h_nelts s - 1\<rparr>"
  have s0: "repr s0 (plug C (Node Leaf c Leaf))" using assms(1) t by (simp add: s0_def repr_def)
  have rd: "read_loc (loc_of C) s0 = Some c" using read_loc_of [OF s0] by simp
  define s1 where "s1 = write_loc (loc_of C) None s0"
  have "repr (write_loc (loc_of C) (root_ptr Leaf) s0) (plug C Leaf)"
    by (rule repr_write [where t = "Node Leaf c Leaf"]) (use s0 in \<open>auto simp: repr_plug\<close>)
  then have s1: "repr s1 (plug C Leaf)" by (simp add: s1_def)
  have c: "c \<notin> set_tree (plug C Leaf)" "set_tree t = insert c (set_tree (plug C Leaf))"
    using s0 t by (auto simp: repr_plug set_plug)
  show ?thesis
  proof (cases "c = node")
    case True
    have "h_min s1 \<noteq> Some c" using s1 c(1) root_ptr_mem by (fastforce simp: repr_def)
    then have "heap_remove lt node s = Some s1"
      using nz P rd True unfolding heap_remove_def Let_def s0_def [symmetric]
      by (auto simp: case_prod_beta s1_def)
    then show ?thesis using True t hole s1 by (auto simp: s1_def s0_def)
  next
    case False
    then have "node \<in> set_tree (plug C Leaf)" using assms(3) c(2) by simp
    then obtain D l r where D: "plug C Leaf = plug D (Node l node r)" using plug_ex by blast
    obtain D' l' r' where td: "tdown lt D l c r = (D', l', r')" by (metis prod_cases3)
    define s2 where "s2 = set_parent c (h_parent (h_mem s1 node))
      (set_right c (h_right (h_mem s1 node)) (set_left c (h_left (h_mem s1 node)) s1))"
    define s3 where "s3 = set_parent_of (h_right (h_mem s2 c)) (Some c)
      (set_parent_of (h_left (h_mem s2 c)) (Some c) s2)"
    define s4 where "s4 = relink (h_parent (h_mem s3 node)) node c s3"
    have s4: "repr s4 (plug D (Node l c r))"
      using repr_replace [OF s1 [unfolded D] c(1) [unfolded D]] by (simp add: s2_def s3_def s4_def)
    obtain s5 where s5: "sift_down lt c s4 = Some s5" "repr s5 (plug D' (Node l' c r'))"
      "h_nelts s5 = h_nelts s4"
      using sift_down_refines [OF s4 td] by blast
    obtain s6 where s6: "sift_up lt c s5 = Some s6" "repr s6 (tup lt D' l' c r')"
      "h_nelts s6 = h_nelts s5"
      using sift_up_refines [OF s5(2)] by blast
    have "heap_remove lt node s = Some s6"
      using nz P rd False s5(1) s6(1) \<open>c \<noteq> node\<close> unfolding heap_remove_def Let_def s0_def [symmetric]
      by (auto simp: case_prod_beta s1_def s2_def s3_def s4_def)
    moreover have "h_nelts s6 = h_nelts s - 1"
      using s5(3) s6(3) by (simp add: s4_def s3_def s2_def s1_def s0_def)
    ultimately show ?thesis using False t hole D td s6(2) by blast
  qed
qed

lemma set_mset_eq: "mset_tree t = mset_tree t' \<Longrightarrow> set_tree t = set_tree t'"
  by (metis set_mset_tree)

lemma heap_inv_init: "heap_inv lt (heap_init s) {}"
  by (auto simp: heap_inv_def heap_init_def repr_def intro!: exI [of _ Leaf])

lemma heap_inv_insert:
  assumes "heap_inv lt s S" and "new \<notin> S" and "weak_order_on (insert new S) lt"
    and "card S < 2 ^ 32 - 1"
  shows "\<exists>s'. heap_insert lt new s = Some s' \<and> heap_inv lt s' (insert new S)"
proof -
  from assms(1) obtain t where t: "repr s t" "heap_ordered lt t" "set_tree t = S"
    "shape 1 (unat (h_nelts s)) t" "size t = unat (h_nelts s)"
    by (auto simp: heap_inv_def)
  have "distinct (inorder t)" using t(1) by (simp add: repr_def)
  then have "card S = size t" using distinct_card t(3) by (metis length_inorder set_inorder)
  then have "unat (h_nelts s) < 2 ^ 32 - 1" using assms(4) t(5) by simp
  then obtain C s' where P: "t = plug C Leaf" "hole C = Suc (unat (h_nelts s))"
    "heap_insert lt new s = Some s'" "repr s' (tup lt C Leaf new Leaf)"
    "unat (h_nelts s') = Suc (unat (h_nelts s))"
    using heap_insert_refines [OF t(1,4)] assms(2) t(3) by blast
  let ?t = "tup lt C Leaf new Leaf"
  have "heap_ordered lt ?t"
    by (rule tup_ordered [OF assms(3)])
      (use t(2,3) P(1) in \<open>auto simp: ordered_plug set_plug\<close>)
  moreover have "set_tree ?t = insert new S"
    using set_mset_eq [OF tup_mset] t(3) P(1) by (auto simp: set_plug)
  moreover have "shape 1 (unat (h_nelts s')) ?t"
    using shape_skel [OF tup_skel, of 1] t(4) P(1,2,5) ctx_shape_step [OF P(2)]
    by (simp add: shape_plug [unfolded One_nat_def])
  moreover have "size ?t = unat (h_nelts s')"
    using arg_cong [OF tup_skel [of lt C Leaf new Leaf], of size] t(5) P(1,5)
    by (simp add: size_plug)
  ultimately show ?thesis using P by (auto simp: heap_inv_def)
qed

lemma heap_inv_remove:
  assumes "heap_inv lt s S" and "node \<in> S" and W: "weak_order_on S lt"
  shows "\<exists>s'. heap_remove lt node s = Some s' \<and> heap_inv lt s' (S - {node})"
proof -
  from assms(1) obtain t where t: "repr s t" "heap_ordered lt t" "set_tree t = S"
    "shape 1 (unat (h_nelts s)) t" "size t = unat (h_nelts s)"
    by (auto simp: heap_inv_def)
  have mem: "node \<in> set_tree t" using assms(2) t(3) by simp
  obtain C c s' where P: "t = plug C (Node Leaf c Leaf)" "hole C = unat (h_nelts s)"
    "heap_remove lt node s = Some s'" "h_nelts s' = h_nelts s - 1"
    "c = node \<and> repr s' (plug C Leaf) \<or>
     (\<exists>D l r D' l' r'. c \<noteq> node \<and> plug C Leaf = plug D (Node l node r) \<and>
        tdown lt D l c r = (D', l', r') \<and> repr s' (tup lt D' l' c r'))"
    using heap_remove_refines [OF t(1,4) mem, of lt] by (elim exE conjE) (rule that; assumption)
  have n: "h_nelts s \<noteq> 0" using hole_pos [of C] P(2) by auto
  then obtain m where m: "unat (h_nelts s) = Suc m" "unat (h_nelts s') = m"
    using unat_sub_one [OF n] P(4) by (metis Suc_diff_1 unat_gt_0)
  have d: "distinct (ctx_nodes C @ [c])" using t(1) P(1) by (simp add: repr_plug)
  have C: "heap_ordered lt (plug C Leaf)" "shape 1 m (plug C Leaf)" "size (plug C Leaf) = m"
    "S = insert c (set_tree (plug C Leaf))" "c \<notin> set_tree (plug C Leaf)"
    using t(2-5) d P(1,2) m(1) ctx_shape_step [of C m] ctx_ordered_mono [of lt C "{c}" "{}"]
    by (auto simp: shape_plug [unfolded One_nat_def] ordered_plug size_plug set_plug)
  show ?thesis
    using P(5)
  proof (elim disjE exE conjE)
    assume "c = node" "repr s' (plug C Leaf)"
    then have "heap_inv lt s' (S - {node})"
      using C m(2) by (auto simp: heap_inv_def)
    then show ?thesis using P(3) by blast
  next
    fix D l r D' l' r'
    assume ne: "c \<noteq> node" and D: "plug C Leaf = plug D (Node l node r)"
      and td: "tdown lt D l c r = (D', l', r')" and rp: "repr s' (tup lt D' l' c r')"
    let ?t = "tup lt D' l' c r'"
    have dD: "distinct (ctx_nodes D @ inorder (Node l node r))"
      using t(1) P(1) D d distinct_plug [of C Leaf] distinct_plug [of D "Node l node r"] by simp
    have sD: "set (ctx_nodes D) \<union> set_tree (Node l c r) = S - {node}"
      using C(4,5) ne dD unfolding D by (auto simp: set_plug)
    have m1: "mset_tree (plug D' (Node l' c r')) = mset_tree (plug D (Node l c r))"
      and k1: "skel (plug D' (Node l' c r')) = skel (plug D (Node l c r))"
      by (rule tdown_mset_skel [OF td])+
    have "heap_ordered lt (Node l' c r') \<and> ctx_ordered lt D' (set_tree l' \<union> set_tree r')"
      by (rule tdown_ordered [OF W _ _ _ _ td])
        (use sD C(1) in \<open>auto simp: D ordered_plug intro: ctx_ordered_mono\<close>)
    moreover have S': "set (ctx_nodes D') \<union> set_tree (Node l' c r') = S - {node}"
      using set_mset_eq [OF m1] sD by (simp add: set_plug)
    ultimately have "heap_ordered lt ?t"
      by (intro tup_ordered [OF W]) auto
    moreover have "set_tree ?t = S - {node}"
      using set_mset_eq [OF tup_mset [of lt D' l' c r']] S' by (simp add: set_plug)
    moreover have "skel ?t = skel (plug C Leaf)"
      using tup_skel [of lt D' l' c r'] k1 skel_plug_cong [of "Node l c r" "Node l node r" D] D by simp
    then have "shape 1 m ?t" "size ?t = m"
      using shape_skel C(2,3) by (blast, metis size_map_tree)
    ultimately have "heap_inv lt s' (S - {node})"
      using rp m(2) by (auto simp: heap_inv_def)
    then show ?thesis using P(3) by blast
  qed
qed

lemma heap_inv_min:
  assumes "heap_inv lt s S"
  shows "heap_min s = None \<longleftrightarrow> S = {}"
    and "weak_order_on S lt \<Longrightarrow> heap_min s = Some m \<Longrightarrow> m \<in> S \<and> (\<forall>x\<in>S. \<not> lt x m)"
proof -
  from assms obtain t where t: "repr s t" "heap_ordered lt t" "set_tree t = S"
    by (auto simp: heap_inv_def)
  then show "heap_min s = None \<longleftrightarrow> S = {}"
    by (cases t) (auto simp: heap_min_def repr_def)
  assume W: "weak_order_on S lt" and m: "heap_min s = Some m"
  then obtain l r where T: "t = Node l m r"
    using t(1) by (cases t) (auto simp: heap_min_def repr_def)
  then have "m \<in> S" using t(3) by auto
  then have "\<not> lt m m" using weak_order_asym [OF W, of m m] by blast
  with T t(2,3) show "m \<in> S \<and> (\<forall>x\<in>S. \<not> lt x m)"
    by (auto simp: above_def)
qed

lemma heap_inv_finite: "heap_inv lt s S \<Longrightarrow> finite S \<and> card S = unat (h_nelts s)"
proof -
  assume "heap_inv lt s S"
  then obtain t where "distinct (inorder t)" "set_tree t = S" "size t = unat (h_nelts s)"
    by (auto simp: heap_inv_def repr_def)
  then show ?thesis by (metis distinct_card finite_set_tree length_inorder set_inorder)
qed

lemma heap_ordered_cong:
  "(\<And>x y. x \<in> set_tree t \<Longrightarrow> y \<in> set_tree t \<Longrightarrow> lt' x y = lt x y) \<Longrightarrow>
   heap_ordered lt' t = heap_ordered lt t"
  by (induction t) (auto simp: above_def)

lemma heap_inv_cong:
  assumes "heap_inv lt s S" and "\<And>x y. x \<in> S \<Longrightarrow> y \<in> S \<Longrightarrow> lt' x y = lt x y"
  shows "heap_inv lt' s S"
proof -
  from assms(1) obtain t where t: "repr s t" "heap_ordered lt t" "set_tree t = S"
    "shape 1 (unat (h_nelts s)) t" "size t = unat (h_nelts s)"
    by (auto simp: heap_inv_def)
  then have "heap_ordered lt' t" using heap_ordered_cong [of t lt' lt] assms(2) by simp
  with t show ?thesis by (auto simp: heap_inv_def)
qed

text \<open>The height of a complete tree is logarithmic in its size.\<close>

lemma shape_height: "shape i n t \<Longrightarrow> t \<noteq> Leaf \<Longrightarrow> i * 2 ^ height t \<le> 2 * n"
proof (induction t arbitrary: i)
  case (Node l x r)
  have "i * 2 ^ Suc (height l) \<le> 2 * n"
    using Node.IH(1) [of "2 * i"] Node.prems(1) by (cases "l = Leaf") auto
  moreover have "i * 2 ^ Suc (height r) \<le> 2 * n"
  proof (cases "r = Leaf")
    case False
    have "2 * i * 2 ^ height r \<le> (2 * i + 1) * 2 ^ height r" by simp
    also have "\<dots> \<le> 2 * n" using Node.IH(2) [of "2 * i + 1"] Node.prems(1) False by simp
    finally show ?thesis by simp
  qed (use Node.prems(1) in auto)
  ultimately show ?case by (simp add: max_def)
qed simp

section \<open>The priority queue interface\<close>

text \<open>
  What a client of the heap relies on: the invariant relates a store to the set of its
  elements, insertion and removal succeed and keep it, and the minimum is a least element.
\<close>

locale prio_store =
  fixes inv :: "(addr \<Rightarrow> addr \<Rightarrow> bool) \<Rightarrow> 'h \<Rightarrow> addr set \<Rightarrow> bool"
    and ins :: "(addr \<Rightarrow> addr \<Rightarrow> bool) \<Rightarrow> addr \<Rightarrow> 'h \<Rightarrow> 'h option"
    and rem :: "(addr \<Rightarrow> addr \<Rightarrow> bool) \<Rightarrow> addr \<Rightarrow> 'h \<Rightarrow> 'h option"
    and mini :: "'h \<Rightarrow> ptr"
    and bound :: nat
  assumes inv_ins: "inv lt h S \<Longrightarrow> x \<notin> S \<Longrightarrow> weak_order_on (insert x S) lt \<Longrightarrow> card S < bound \<Longrightarrow>
      \<exists>h'. ins lt x h = Some h' \<and> inv lt h' (insert x S)"
    and inv_rem: "inv lt h S \<Longrightarrow> x \<in> S \<Longrightarrow> weak_order_on S lt \<Longrightarrow>
      \<exists>h'. rem lt x h = Some h' \<and> inv lt h' (S - {x})"
    and mini_None: "inv lt h S \<Longrightarrow> mini h = None \<longleftrightarrow> S = {}"
    and mini_Some: "inv lt h S \<Longrightarrow> weak_order_on S lt \<Longrightarrow> mini h = Some m \<Longrightarrow>
      m \<in> S \<and> (\<forall>x\<in>S. \<not> lt x m)"
    and inv_finite: "inv lt h S \<Longrightarrow> finite S"
    and inv_cong: "inv lt h S \<Longrightarrow> (\<And>x y. x \<in> S \<Longrightarrow> y \<in> S \<Longrightarrow> lt' x y = lt x y) \<Longrightarrow> inv lt' h S"
begin

lemma pop_min:
  assumes "inv lt h S" and "weak_order_on S lt" and "mini h = Some m"
  shows "\<exists>h'. rem lt m h = Some h' \<and> inv lt h' (S - {m}) \<and> weak_order_on (S - {m}) lt \<and>
    (\<forall>x\<in>S - {m}. \<not> lt x m)"
  using assms mini_Some [OF assms] inv_rem [OF assms(1) _ assms(2), of m]
    weak_order_subset [OF assms(2), of "S - {m}"] by auto

text \<open>Re-keying one element outside the store does not disturb it.\<close>

lemma inv_rekey:
  assumes "inv lt h S" and "x \<notin> S" and "\<And>a b. a \<noteq> x \<Longrightarrow> b \<noteq> x \<Longrightarrow> lt' a b = lt a b"
  shows "inv lt' h S"
  using assms by (intro inv_cong [OF assms(1)]) metis

end

interpretation hq: prio_store heap_inv heap_insert heap_remove heap_min "2 ^ 32 - 1"
  by unfold_locales
    (blast intro: heap_inv_insert heap_inv_remove heap_inv_cong,
     blast intro: heap_inv_remove, rule heap_inv_min(1), assumption,
     blast dest: heap_inv_min(2), blast dest: heap_inv_finite, rule heap_inv_cong, assumption, blast)

section \<open>Runs of operations\<close>

datatype heap_op = HInsert addr | HRemove addr

fun heap_exec :: "(addr \<Rightarrow> addr \<Rightarrow> bool) \<Rightarrow> heap_op list \<Rightarrow> hstate \<Rightarrow> hstate option" where
  "heap_exec lt [] s = Some s"
| "heap_exec lt (HInsert x # ops) s = Option.bind (heap_insert lt x s) (heap_exec lt ops)"
| "heap_exec lt (HRemove x # ops) s = Option.bind (heap_remove lt x s) (heap_exec lt ops)"

text \<open>The specification: a set, with insertion of new and removal of present elements.\<close>

fun set_exec :: "heap_op list \<Rightarrow> addr set \<Rightarrow> addr set option" where
  "set_exec [] S = Some S"
| "set_exec (HInsert x # ops) S = (if x \<in> S then None else set_exec ops (insert x S))"
| "set_exec (HRemove x # ops) S = (if x \<in> S then set_exec ops (S - {x}) else None)"

lemma heap_exec_inv:
  assumes "weak_order_on UNIV lt" and "heap_inv lt s S" and "set_exec ops S = Some S'"
    and "card S + length ops < 2 ^ 32 - 1"
  shows "\<exists>s'. heap_exec lt ops s = Some s' \<and> heap_inv lt s' S'"
  using assms(2-)
proof (induction ops arbitrary: s S)
  case (Cons a ops)
  note W = weak_order_subset [OF assms(1) subset_UNIV]
  have fin: "finite S" using hq.inv_finite [OF Cons.prems(1)] .
  show ?case
  proof (cases a)
    case (HInsert x)
    then obtain s1 where s1: "heap_insert lt x s = Some s1" "heap_inv lt s1 (insert x S)"
      using hq.inv_ins [OF Cons.prems(1) _ W, of x] Cons.prems by (auto split: if_splits)
    show ?thesis
      using Cons.IH [OF s1(2)] Cons.prems HInsert s1(1) fin by (auto split: if_splits)
  next
    case (HRemove x)
    then obtain s1 where s1: "heap_remove lt x s = Some s1" "heap_inv lt s1 (S - {x})"
      using hq.inv_rem [OF Cons.prems(1) _ W, of x] Cons.prems by (auto split: if_splits)
    have "card (S - {x}) \<le> card S" using fin by (simp add: card_mono)
    then show ?thesis
      using Cons.IH [OF s1(2)] Cons.prems HRemove s1(1) by (auto split: if_splits)
  qed
qed simp

text \<open>Taking the minimum off until the heap is empty.\<close>

fun heap_drain :: "nat \<Rightarrow> (addr \<Rightarrow> addr \<Rightarrow> bool) \<Rightarrow> hstate \<Rightarrow> addr list option" where
  "heap_drain n lt s =
     (case heap_min s of
        None \<Rightarrow> Some []
      | Some m \<Rightarrow>
          (case n of
             0 \<Rightarrow> None
           | Suc n \<Rightarrow> Option.bind (heap_dequeue lt s)
                        (\<lambda>s'. map_option ((#) m) (heap_drain n lt s'))))"

declare heap_drain.simps [simp del]

lemma heap_drain_inv:
  assumes "heap_inv lt s S" and "weak_order_on S lt" and "card S = n"
  shows "\<exists>xs. heap_drain n lt s = Some xs \<and> set xs = S \<and> distinct xs \<and>
    sorted_wrt (\<lambda>x y. \<not> lt y x) xs"
  using assms
proof (induction n arbitrary: s S)
  case 0
  then have "S = {}" using hq.inv_finite by fastforce
  then have "heap_min s = None" using hq.mini_None [OF 0(1)] by simp
  then show ?case using \<open>S = {}\<close> by (simp add: heap_drain.simps [of 0 lt s])
next
  case (Suc n)
  then obtain m where m: "heap_min s = Some m" using hq.mini_None [OF Suc.prems(1)] by fastforce
  then have mS: "m \<in> S" using hq.mini_Some [OF Suc.prems(1,2)] by blast
  obtain s' where s': "heap_remove lt m s = Some s'" "heap_inv lt s' (S - {m})"
    "weak_order_on (S - {m}) lt" "\<forall>x\<in>S - {m}. \<not> lt x m"
    using hq.pop_min [OF Suc.prems(1,2) m] by blast
  have "card (S - {m}) = n" using Suc.prems(3) mS hq.inv_finite [OF Suc.prems(1)] by simp
  then obtain xs where "heap_drain n lt s' = Some xs" "set xs = S - {m}" "distinct xs"
    "sorted_wrt (\<lambda>x y. \<not> lt y x) xs"
    using Suc.IH [OF s'(2,3)] by blast
  then show ?case using m mS s' by (auto simp: heap_drain.simps [of "Suc n" lt s] heap_dequeue_def heap_min_def)
qed

text \<open>The number of parent pointers between a node and the root, with fuel.\<close>

fun parent_hops :: "nat \<Rightarrow> addr \<Rightarrow> hstate \<Rightarrow> nat option" where
  "parent_hops n x s =
     (case h_parent (h_mem s x) of
        None \<Rightarrow> Some 0
      | Some p \<Rightarrow> (case n of 0 \<Rightarrow> None | Suc n \<Rightarrow> map_option Suc (parent_hops n p s)))"

declare parent_hops.simps [simp del]

lemma parent_hops_plug:
  "repr s (plug C (Node l x r)) \<Longrightarrow> length C \<le> n \<Longrightarrow> parent_hops n x s = Some (length C)"
proof (induction C arbitrary: l x r n)
  case Nil
  then show ?case using repr_node(1) [OF Nil(1)] by (simp add: parent_hops.simps [of n x s])
next
  case (Cons f C)
  obtain l' p r' where f: "plug (f # C) (Node l x r) = plug C (Node l' p r')"
    "ctx_parent (f # C) = Some p" by (cases f) auto
  obtain k where k: "n = Suc k" using Cons.prems(2) by (cases n) auto
  show ?case
    using Cons.IH [of l' p r' k] Cons.prems repr_node(1) [OF Cons.prems(1)] f k
    by (simp add: parent_hops.simps [of "Suc k" x s])
qed

lemma hole_ge: "2 ^ length C \<le> hole C"
  by (induction C rule: hole.induct) auto

lemma parent_hops_bound:
  assumes "heap_inv lt s S" and "x \<in> S"
  shows "\<exists>k. parent_hops (card S) x s = Some k \<and> 2 ^ k \<le> card S"
proof -
  obtain t where t: "repr s t" "set_tree t = S" "shape 1 (card S) t"
    using assms(1) heap_inv_finite [OF assms(1)] by (auto simp: heap_inv_def)
  then obtain C l r where C: "t = plug C (Node l x r)" using plug_ex [of x t] assms(2) by blast
  then have "hole C \<le> card S" using t(3) by (simp add: shape_plug [unfolded One_nat_def])
  then have b: "2 ^ length C \<le> card S" using hole_ge [of C] by linarith
  then have "length C \<le> card S" by (meson le_trans less_exp less_imp_le)
  with b show ?thesis using parent_hops_plug t(1) C by blast
qed

section \<open>Properties\<close>

lemma weak_order_nat: "weak_order_on S ((<) :: addr \<Rightarrow> addr \<Rightarrow> bool)"
  by (auto simp: weak_order_on_def)

text \<open>C1. Any run of insertions of new and removals of present elements succeeds on the pointer
  heap (no null dereference, no endless loop), leaves a well-formed heap of exactly the specified
  set, and its minimum is a least element of that set.\<close>

theorem heap_refines_set:
  assumes "weak_order_on UNIV lt" and "heap_inv lt s S" and "set_exec ops S = Some S'"
    and "card S + length ops < 2 ^ 32 - 1"
  shows "\<exists>s'. heap_exec lt ops s = Some s' \<and> heap_inv lt s' S' \<and>
    (case heap_min s' of None \<Rightarrow> S' = {} | Some m \<Rightarrow> m \<in> S' \<and> (\<nexists>x. x \<in> S' \<and> lt x m))"
proof -
  obtain s' where s': "heap_exec lt ops s = Some s'" "heap_inv lt s' S'"
    using heap_exec_inv [OF assms] by blast
  then show ?thesis
    using hq.mini_None [OF s'(2)] hq.mini_Some [OF s'(2) weak_order_subset [OF assms(1) subset_UNIV]]
    by (auto split: option.split)
qed

definition blank_store :: hstate where
  "blank_store = \<lparr>h_min = None, h_nelts = 0,
    h_mem = (\<lambda>_. \<lparr>h_left = None, h_right = None, h_parent = None\<rparr>)\<rparr>"

theorem heap_refines_set_witness:
  "\<exists>s'. heap_exec (<) [HInsert 5, HInsert 3, HInsert 9, HRemove 3] (heap_init blank_store) = Some s' \<and>
    heap_min s' = Some 5"
proof -
  have "\<exists>s'. heap_exec (<) [HInsert 5, HInsert 3, HInsert 9, HRemove 3] (heap_init blank_store) = Some s' \<and>
      heap_inv (<) s' {5, 9 :: addr} \<and>
      (case heap_min s' of None \<Rightarrow> {5, 9 :: addr} = {} | Some m \<Rightarrow> m \<in> {5, 9} \<and> (\<nexists>x. x \<in> {5, 9} \<and> x < m))"
    by (rule heap_refines_set [OF weak_order_nat heap_inv_init]) auto
  then obtain s' where s': "heap_exec (<) [HInsert 5, HInsert 3, HInsert 9, HRemove 3] (heap_init blank_store) = Some s'"
    "case heap_min s' of None \<Rightarrow> {5, 9 :: addr} = {} | Some m \<Rightarrow> m \<in> {5, 9} \<and> (\<nexists>x. x \<in> {5, 9} \<and> x < m)"
    by blast
  have "\<exists>x. x \<in> {5, 9 :: addr} \<and> x < 9" by (rule exI [of _ 5]) simp
  with s'(2) have "heap_min s' = Some 5" by (auto split: option.splits)
  with s'(1) show ?thesis by blast
qed

lemma heap_run_from_empty:
  assumes "weak_order_on UNIV lt" and "set_exec ops {} = Some S" and "length ops < 2 ^ 32 - 1"
  shows "\<exists>s. heap_exec lt ops (heap_init s0) = Some s \<and> heap_inv lt s S"
  using heap_exec_inv [OF assms(1) heap_inv_init assms(2)] assms(3) by simp

text \<open>C2. Removing the minimum until the heap is empty returns every element exactly once, in
  non-decreasing order, after any run of operations.\<close>

theorem heap_drain_sorted:
  assumes "weak_order_on UNIV lt" and "set_exec ops {} = Some S" and "length ops < 2 ^ 32 - 1"
  shows "\<exists>s xs. heap_exec lt ops (heap_init s0) = Some s \<and> heap_drain (card S) lt s = Some xs \<and>
    set xs = S \<and> distinct xs \<and> sorted_wrt (\<lambda>x y. \<not> lt y x) xs"
  using heap_run_from_empty [OF assms, of s0]
    heap_drain_inv [OF _ weak_order_subset [OF assms(1) subset_UNIV] refl] by blast

theorem heap_drain_sorted_witness:
  "\<exists>s xs. heap_exec (<) [HInsert 5, HInsert 3, HInsert 9, HInsert 4, HRemove 3] (heap_init blank_store) = Some s \<and>
    heap_drain 3 (<) s = Some xs \<and> set xs = {4, 5, 9} \<and> sorted xs"
proof -
  have "\<exists>s xs. heap_exec (<) [HInsert 5, HInsert 3, HInsert 9, HInsert 4, HRemove 3] (heap_init blank_store) = Some s \<and>
    heap_drain (card {4, 5, 9 :: addr}) (<) s = Some xs \<and> set xs = {4, 5, 9} \<and> distinct xs \<and>
    sorted_wrt (\<lambda>x y. \<not> y < x) xs"
    by (rule heap_drain_sorted [OF weak_order_nat]) auto
  moreover have "card {4, 5, 9 :: addr} = 3" by simp
  ultimately show ?thesis by (auto simp: not_less)
qed

text \<open>After any run of operations the heap is balanced: from every element the root is
  reached by at most the binary logarithm of the number of elements of parent steps, which bounds
  the swaps of an insertion and of a removal.\<close>

theorem heap_height_bound:
  assumes "weak_order_on UNIV lt" and "set_exec ops {} = Some S" and "length ops < 2 ^ 32 - 1"
    and "x \<in> S"
  shows "\<exists>s k. heap_exec lt ops (heap_init s0) = Some s \<and> parent_hops (card S) x s = Some k \<and>
    2 ^ k \<le> card S"
  using heap_run_from_empty [OF assms(1-3), of s0] parent_hops_bound [OF _ assms(4)] by blast

theorem heap_height_bound_witness:
  "\<exists>s k. heap_exec (<) [HInsert 5, HInsert 3, HInsert 9] (heap_init blank_store) = Some s \<and>
    parent_hops 3 9 s = Some k \<and> k \<le> 1"
proof -
  have "\<exists>s k. heap_exec (<) [HInsert 5, HInsert 3, HInsert 9] (heap_init blank_store) = Some s \<and>
      parent_hops (card {3, 5, 9 :: addr}) 9 s = Some k \<and> 2 ^ k \<le> card {3, 5, 9 :: addr}"
    by (rule heap_height_bound [OF weak_order_nat]) auto
  moreover have "card {3, 5, 9 :: addr} = 3" by simp
  moreover have "2 ^ k \<le> (3::nat) \<Longrightarrow> k \<le> 1" for k
    using power_increasing [of 2 k "2::nat"] by (cases "2 \<le> k") auto
  ultimately show ?thesis by metis
qed

end
