(* ===== verification/UV_Timer.thy ===== *)
theory UV_Timer
  imports UV_Handle UV_Heap
begin

text \<open>
  Timers, src/timer.c: the loop's clock and start counter, the timers' fields and the heap of
  the active ones on the pointer store of \<open>UV_Heap\<close>.  The ready queue of \<open>uv__run_timers\<close>,
  reachable through the timers' nodes, is a field of the loop.  A heap operation that would
  follow a null pointer makes the operation \<open>None\<close>; the invariant rules that out.  In the C
  struct the heap node and the queue node of a timer share memory: the invariant shows that no
  timer is in the heap and in the ready queue at once.
\<close>

section \<open>State\<close>

record uv_timer =
  t_cb :: "nat option"
  t_timeout :: u64
  t_repeat :: u64
  t_start_id :: u64

record timer_loop = uv_loop +
  time :: u64
  timer_counter :: u64
  timer_heap :: hstate
  ready_queue :: "addr list"
  timers :: "addr \<Rightarrow> uv_timer"

definition set_timer :: "addr \<Rightarrow> uv_timer \<Rightarrow> 'a timer_loop_scheme \<Rightarrow> 'a timer_loop_scheme" where
  "set_timer h t l = l\<lparr>timers := (timers l)(h := t)\<rparr>"

section \<open>Operations\<close>

definition timer_less_than :: "'a timer_loop_scheme \<Rightarrow> addr \<Rightarrow> addr \<Rightarrow> bool" where
  "timer_less_than l ha hb =
     (let a = timers l ha; b = timers l hb
      in if t_timeout a < t_timeout b then True
         else if t_timeout b < t_timeout a then False
         else t_start_id a < t_start_id b)"

definition uv_timer_init :: "addr \<Rightarrow> 'a timer_loop_scheme \<Rightarrow> ret \<times> 'a timer_loop_scheme" where
  "uv_timer_init h l =
     (let l = uv__handle_init h UV_TIMER l;
          l = set_timer h ((timers l h)\<lparr>t_cb := None, t_timeout := 0, t_repeat := 0\<rparr>) l
      in (OK, l))"

definition uv_timer_stop :: "addr \<Rightarrow> 'a timer_loop_scheme \<Rightarrow> 'a timer_loop_scheme option" where
  "uv_timer_stop h l =
     (if uv__is_active h l then
        (case heap_remove (timer_less_than l) h (timer_heap l) of
           None \<Rightarrow> None
         | Some hp \<Rightarrow> Some (uv__handle_stop h (l\<lparr>timer_heap := hp\<rparr>)))
      else Some (l\<lparr>ready_queue := remove1 h (ready_queue l)\<rparr>))"

definition uv_timer_start ::
    "addr \<Rightarrow> nat option \<Rightarrow> u64 \<Rightarrow> u64 \<Rightarrow> 'a timer_loop_scheme \<Rightarrow> (ret \<times> 'a timer_loop_scheme) option" where
  "uv_timer_start h cb timeout repeat l =
     (if uv__is_closing h l \<or> cb = None then Some (Inl UV_EINVAL, l)
      else case uv_timer_stop h l of
        None \<Rightarrow> None
      | Some l \<Rightarrow>
          (let clamped_timeout = time l + timeout;
               clamped_timeout = (if clamped_timeout < timeout then - 1 else clamped_timeout);
               l = set_timer h \<lparr>t_cb = cb, t_timeout = clamped_timeout, t_repeat = repeat,
                                t_start_id = timer_counter l\<rparr> l;
               l = l\<lparr>timer_counter := timer_counter l + 1\<rparr>
           in case heap_insert (timer_less_than l) h (timer_heap l) of
                None \<Rightarrow> None
              | Some hp \<Rightarrow> Some (OK, uv__handle_start h (l\<lparr>timer_heap := hp\<rparr>))))"

definition uv_timer_again :: "addr \<Rightarrow> 'a timer_loop_scheme \<Rightarrow> (ret \<times> 'a timer_loop_scheme) option" where
  "uv_timer_again h l =
     (if t_cb (timers l h) = None then Some (Inl UV_EINVAL, l)
      else if t_repeat (timers l h) \<noteq> 0 then
        (case uv_timer_stop h l of
           None \<Rightarrow> None
         | Some l \<Rightarrow>
             (case uv_timer_start h (t_cb (timers l h)) (t_repeat (timers l h)) (t_repeat (timers l h)) l of
                None \<Rightarrow> None
              | Some (_, l) \<Rightarrow> Some (OK, l)))
      else Some (OK, l))"

definition uv_timer_set_repeat :: "addr \<Rightarrow> u64 \<Rightarrow> 'a timer_loop_scheme \<Rightarrow> 'a timer_loop_scheme" where
  "uv_timer_set_repeat h repeat l = set_timer h ((timers l h)\<lparr>t_repeat := repeat\<rparr>) l"

definition uv_timer_get_repeat :: "addr \<Rightarrow> 'a timer_loop_scheme \<Rightarrow> u64" where
  "uv_timer_get_repeat h l = t_repeat (timers l h)"

definition uv_timer_get_due_in :: "addr \<Rightarrow> 'a timer_loop_scheme \<Rightarrow> u64" where
  "uv_timer_get_due_in h l =
     (if time l \<ge> t_timeout (timers l h) then 0 else t_timeout (timers l h) - time l)"

definition INT_MAX :: u64 where "INT_MAX = 0x7fffffff"

definition uv__next_timeout :: "'a timer_loop_scheme \<Rightarrow> int" where
  "uv__next_timeout l =
     (case heap_min (timer_heap l) of
        None \<Rightarrow> - 1
      | Some h \<Rightarrow>
          (if t_timeout (timers l h) \<le> time l then 0
           else let diff = t_timeout (timers l h) - time l;
                    diff = (if diff > INT_MAX then INT_MAX else diff)
                in uint diff))"

text \<open>The first loop of \<open>uv__run_timers\<close>: due timers leave the heap for the ready queue.\<close>

partial_function (option) collect_due :: "'a timer_loop_scheme \<Rightarrow> 'a timer_loop_scheme option" where
  "collect_due l =
     (case heap_min (timer_heap l) of
        None \<Rightarrow> Some l
      | Some h \<Rightarrow>
          (if t_timeout (timers l h) > time l then Some l
           else Option.bind (uv_timer_stop h l)
                  (\<lambda>l. collect_due (l\<lparr>ready_queue := ready_queue l @ [h]\<rparr>))))"

declare collect_due.simps [code]

text \<open>
  The second loop.  \<open>run\<close> is the effect of a callback, given its number and the handle; the
  result also lists the handles whose callbacks ran.
\<close>

partial_function (option) run_ready ::
    "(nat \<Rightarrow> addr \<Rightarrow> 'a timer_loop_scheme \<Rightarrow> 'a timer_loop_scheme option) \<Rightarrow> 'a timer_loop_scheme \<Rightarrow>
     (addr list \<times> 'a timer_loop_scheme) option" where
  "run_ready run l =
     (case ready_queue l of
        [] \<Rightarrow> Some ([], l)
      | h # rest \<Rightarrow>
          Option.bind (uv_timer_again h (l\<lparr>ready_queue := rest\<rparr>))
            (\<lambda>(r, l). Option.bind (t_cb (timers l h))
               (\<lambda>cb. Option.bind (run cb h l)
                  (\<lambda>l. Option.bind (run_ready run l) (\<lambda>(hs, l). Some (h # hs, l))))))"

declare run_ready.simps [code]

definition uv__run_timers ::
    "(nat \<Rightarrow> addr \<Rightarrow> 'a timer_loop_scheme \<Rightarrow> 'a timer_loop_scheme option) \<Rightarrow> 'a timer_loop_scheme \<Rightarrow>
     (addr list \<times> 'a timer_loop_scheme) option" where
  "uv__run_timers run l = Option.bind (collect_due (l\<lparr>ready_queue := []\<rparr>)) (run_ready run)"

definition uv__timer_close :: "addr \<Rightarrow> 'a timer_loop_scheme \<Rightarrow> 'a timer_loop_scheme option" where
  "uv__timer_close h l = uv_timer_stop h l"

section \<open>The invariant\<close>

definition timer_handles :: "'a timer_loop_scheme \<Rightarrow> addr set" where
  "timer_handles l = {h \<in> set (handle_queue l). h_type l h = UV_TIMER}"

definition active_timers :: "'a timer_loop_scheme \<Rightarrow> addr set" where
  "active_timers l = {h \<in> timer_handles l. active l h}"

definition timer_inv :: "'a timer_loop_scheme \<Rightarrow> bool" where
  "timer_inv l \<longleftrightarrow> handles_ok l \<and>
     heap_inv (timer_less_than l) (timer_heap l) (active_timers l) \<and>
     distinct (ready_queue l) \<and> set (ready_queue l) \<subseteq> timer_handles l \<and>
     (\<forall>h\<in>set (ready_queue l). \<not> active l h \<and> \<not> closing l h) \<and>
     (\<forall>h\<in>active_timers l \<union> set (ready_queue l). t_cb (timers l h) \<noteq> None \<and> \<not> closed l h)"

lemma timer_order: "weak_order_on S (timer_less_than l)"
  by (auto simp: weak_order_on_def timer_less_than_def Let_def split: if_splits)

lemma timer_less_cong:
  "timers l ha = timers l' ha \<Longrightarrow> timers l hb = timers l' hb \<Longrightarrow>
   timer_less_than l ha hb = timer_less_than l' ha hb"
  by (simp add: timer_less_than_def)

text \<open>How the reference-count macros see the timer fields.\<close>

lemma handle_timer_frame [simp]:
  "time (uv__handle_start h l) = time l" "time (uv__handle_stop h l) = time l"
  "timer_counter (uv__handle_start h l) = timer_counter l" "timer_counter (uv__handle_stop h l) = timer_counter l"
  "timer_heap (uv__handle_start h l) = timer_heap l" "timer_heap (uv__handle_stop h l) = timer_heap l"
  "ready_queue (uv__handle_start h l) = ready_queue l" "ready_queue (uv__handle_stop h l) = ready_queue l"
  "timers (uv__handle_start h l) = timers l" "timers (uv__handle_stop h l) = timers l"
  "time (uv__handle_ref h l) = time l" "time (uv__handle_unref h l) = time l"
  "timer_heap (uv__handle_ref h l) = timer_heap l" "timer_heap (uv__handle_unref h l) = timer_heap l"
  "ready_queue (uv__handle_ref h l) = ready_queue l" "ready_queue (uv__handle_unref h l) = ready_queue l"
  "timers (uv__handle_ref h l) = timers l" "timers (uv__handle_unref h l) = timers l"
  "h_type (uv__handle_ref h l) = h_type l" "h_type (uv__handle_unref h l) = h_type l"
  by (simp_all add: handle_defs Let_def)

lemma timer_updates [simp]:
  "active (l\<lparr>timer_heap := hp\<rparr>) k = active l k" "closing (l\<lparr>timer_heap := hp\<rparr>) k = closing l k"
  "active (l\<lparr>ready_queue := q\<rparr>) k = active l k" "closing (l\<lparr>ready_queue := q\<rparr>) k = closing l k"
  "active (l\<lparr>timers := t\<rparr>) k = active l k" "closing (l\<lparr>timers := t\<rparr>) k = closing l k"
  "active (l\<lparr>timer_counter := c\<rparr>) k = active l k" "closing (l\<lparr>timer_counter := c\<rparr>) k = closing l k"
  "active (l\<lparr>time := c\<rparr>) k = active l k" "closing (l\<lparr>time := c\<rparr>) k = closing l k"
  "closed (l\<lparr>timer_heap := hp\<rparr>) k = closed l k" "closed (l\<lparr>ready_queue := q\<rparr>) k = closed l k"
  "closed (l\<lparr>timers := t\<rparr>) k = closed l k" "closed (l\<lparr>timer_counter := c\<rparr>) k = closed l k"
  "closed (l\<lparr>time := c\<rparr>) k = closed l k"
  by (simp_all add: flag_views)

lemma timer_handles_updates [simp]:
  "timer_handles (uv__handle_start h l) = timer_handles l" "timer_handles (uv__handle_stop h l) = timer_handles l"
  "timer_handles (l\<lparr>timer_heap := hp\<rparr>) = timer_handles l" "timer_handles (l\<lparr>ready_queue := q\<rparr>) = timer_handles l"
  "timer_handles (l\<lparr>timers := t\<rparr>) = timer_handles l" "timer_handles (l\<lparr>timer_counter := c\<rparr>) = timer_handles l"
  "timer_handles (l\<lparr>time := c\<rparr>) = timer_handles l"
  by (simp_all add: timer_handles_def)

lemma handles_ok_updates [simp]:
  "handles_ok (l\<lparr>timer_heap := hp\<rparr>) = handles_ok l" "handles_ok (l\<lparr>ready_queue := q\<rparr>) = handles_ok l"
  "handles_ok (l\<lparr>timers := t\<rparr>) = handles_ok l" "handles_ok (l\<lparr>timer_counter := c\<rparr>) = handles_ok l"
  "handles_ok (l\<lparr>time := c\<rparr>) = handles_ok l"
  by (simp_all add: handles_ok_def alive_handles_def flag_views)

lemma active_timers_finite: "finite (active_timers l)"
  by (simp add: active_timers_def timer_handles_def)

text \<open>Stopping.\<close>

lemma timer_stop_inv:
  assumes "timer_inv l" and "h \<in> timer_handles l"
  shows "\<exists>l'. uv_timer_stop h l = Some l' \<and> timer_inv l' \<and> timers l' = timers l \<and> time l' = time l \<and>
    timer_counter l' = timer_counter l \<and> handle_queue l' = handle_queue l \<and> h_type l' = h_type l \<and>
    active_timers l' = active_timers l - {h} \<and> \<not> active l' h \<and> (\<forall>k. closing l' k = closing l k) \<and>
    (\<forall>k. closed l' k = closed l k) \<and> ready_queue l' = remove1 h (ready_queue l)"
proof (cases "active l h")
  case True
  then have h: "h \<in> active_timers l" using assms(2) by (simp add: active_timers_def)
  obtain hp where hp: "heap_remove (timer_less_than l) h (timer_heap l) = Some hp"
    "heap_inv (timer_less_than l) hp (active_timers l - {h})"
    using hq.inv_rem [of "timer_less_than l" "timer_heap l", OF _ h timer_order] assms(1) by (auto simp: timer_inv_def)
  let ?l = "uv__handle_stop h (l\<lparr>timer_heap := hp\<rparr>)"
  have lt: "timer_less_than ?l = timer_less_than l" by (auto simp: fun_eq_iff intro!: timer_less_cong)
  have at: "active_timers ?l = active_timers l - {h}" by (auto simp: active_timers_def)
  have "handles_ok ?l"
    by (rule handles_stop) (use assms in \<open>auto simp: timer_inv_def timer_handles_def\<close>)
  moreover have nr: "h \<notin> set (ready_queue l)" using True assms(1) by (auto simp: timer_inv_def)
  ultimately have "timer_inv ?l" using assms(1) hp(2) by (auto simp: timer_inv_def lt at)
  moreover have "uv_timer_stop h l = Some ?l" using True hp(1) by (simp add: uv_timer_stop_def is_active_iff)
  moreover have "closed ?l k = closed l k" for k by simp
  ultimately show ?thesis using at nr by (simp add: remove1_idem)
next
  case False
  let ?l = "l\<lparr>ready_queue := remove1 h (ready_queue l)\<rparr>"
  have lt: "timer_less_than ?l = timer_less_than l" by (auto simp: fun_eq_iff intro!: timer_less_cong)
  have at: "active_timers ?l = active_timers l" by (auto simp: active_timers_def)
  have "timer_inv ?l" using assms(1) by (auto simp: timer_inv_def lt at)
  moreover have "active_timers l - {h} = active_timers l" using False by (auto simp: active_timers_def)
  ultimately show ?thesis using False at by (simp add: uv_timer_stop_def is_active_iff)
qed

text \<open>Starting.\<close>

definition due_time :: "u64 \<Rightarrow> u64 \<Rightarrow> u64" where
  "due_time now timeout = (let c = now + timeout in if c < timeout then - 1 else c)"

lemma due_time_nat: "unat (due_time now timeout) = min (unat now + unat timeout) (2 ^ 64 - 1)"
proof (cases "unat now + unat timeout < 2 ^ 64")
  case True
  then have s: "unat (now + timeout) = unat now + unat timeout" by (simp add: unat_add_lem [symmetric])
  then have "\<not> now + timeout < timeout" by (simp add: word_less_nat_alt)
  then show ?thesis using s True by (simp add: due_time_def Let_def)
next
  case False
  have t: "unat timeout < 2 ^ 64" "unat now < 2 ^ 64" by (simp_all add: unsigned_less [where 'b = 64, simplified])
  have "unat (now + timeout) = unat now + unat timeout - 2 ^ 64"
    using False t by (simp add: unat_word_ariths mod_if)
  then have "now + timeout < timeout" using False t by (simp add: word_less_nat_alt)
  moreover have "unat (- 1 :: u64) = 2 ^ 64 - 1" by (simp add: unsigned_minus_1_eq_mask mask_eq_exp_minus_1)
  ultimately show ?thesis using False by (simp add: due_time_def Let_def)
qed

lemma timer_start_inv:
  assumes "timer_inv l" and "h \<in> timer_handles l" and "\<not> closing l h" and "\<not> closed l h" and "cb \<noteq> None"
  shows "\<exists>l'. uv_timer_start h cb timeout repeat l = Some (OK, l') \<and> timer_inv l' \<and>
    timers l' = (timers l)(h := \<lparr>t_cb = cb, t_timeout = due_time (time l) timeout, t_repeat = repeat,
      t_start_id = timer_counter l\<rparr>) \<and> time l' = time l \<and> timer_counter l' = timer_counter l + 1 \<and>
    handle_queue l' = handle_queue l \<and> h_type l' = h_type l \<and> active_timers l' = insert h (active_timers l) \<and>
    (\<forall>k. closing l' k = closing l k) \<and> (\<forall>k. closed l' k = closed l k) \<and>
    ready_queue l' = remove1 h (ready_queue l)"
proof -
  obtain l1 where l1: "uv_timer_stop h l = Some l1" "timer_inv l1" "timers l1 = timers l" "time l1 = time l"
    "timer_counter l1 = timer_counter l" "handle_queue l1 = handle_queue l" "h_type l1 = h_type l"
    "active_timers l1 = active_timers l - {h}" "\<not> active l1 h" "\<forall>k. closing l1 k = closing l k"
    "\<forall>k. closed l1 k = closed l k" "ready_queue l1 = remove1 h (ready_queue l)"
    using timer_stop_inv [OF assms(1,2)] by blast
  let ?t = "\<lparr>t_cb = cb, t_timeout = due_time (time l) timeout, t_repeat = repeat, t_start_id = timer_counter l\<rparr>"
  define l2 where "l2 = l1\<lparr>timers := (timers l)(h := ?t), timer_counter := timer_counter l + 1\<rparr>"
  have th: "h \<in> set (handle_queue l)" "h_type l h = UV_TIMER" using assms(2) by (auto simp: timer_handles_def)
  have "heap_inv (timer_less_than l1) (timer_heap l1) (active_timers l1)" using l1(2) by (simp add: timer_inv_def)
  then have hi: "heap_inv (timer_less_than l2) (timer_heap l1) (active_timers l1)"
    by (rule hq.inv_rekey [where x = h]) (use l1 in \<open>auto simp: l2_def timer_less_than_def\<close>)
  have "card (active_timers l1) < length (handle_queue l)"
  proof -
    have "active_timers l1 \<subseteq> set (handle_queue l) - {h}"
      using l1 by (auto simp: active_timers_def timer_handles_def)
    then have "card (active_timers l1) \<le> card (set (handle_queue l) - {h})" by (simp add: card_mono)
    also have "\<dots> < card (set (handle_queue l))" using th(1) by (meson List.finite_set card_Diff1_less)
    finally show ?thesis using card_length [of "handle_queue l"] by simp
  qed
  then have "card (active_timers l1) < 2 ^ 32 - 1" using assms(1) by (auto simp: timer_inv_def handles_ok_def)
  then obtain hp where hp: "heap_insert (timer_less_than l2) h (timer_heap l1) = Some hp"
    "heap_inv (timer_less_than l2) hp (insert h (active_timers l1))"
    using hq.inv_ins [OF hi _ timer_order [of _ l2], of h] l1(8) by auto
  define l3 where "l3 = uv__handle_start h (l2\<lparr>timer_heap := hp\<rparr>)"
  have "uv_timer_start h cb timeout repeat l = Some (OK, l3)"
    using assms(3-5) l1 hp(1) th
    by (simp add: uv_timer_start_def is_closing_iff Let_def set_timer_def l2_def l3_def due_time_def)
  moreover have "timer_inv l3"
  proof -
    have lt: "timer_less_than l3 = timer_less_than l2"
      by (auto simp: l3_def fun_eq_iff intro!: timer_less_cong)
    have at: "active_timers l3 = insert h (active_timers l1)"
      using l1 th by (auto simp: l3_def l2_def active_timers_def timer_handles_def)
    have ok: "handles_ok l3" unfolding l3_def
      by (rule handles_start) (use l1 assms(3) th in \<open>auto simp: l2_def timer_inv_def\<close>)
    have rq: "ready_queue l3 = ready_queue l1" "timer_handles l3 = timer_handles l1"
      "timers l3 = (timers l)(h := ?t)" "timer_heap l3 = hp" by (simp_all add: l3_def l2_def)
    have "h \<notin> set (ready_queue l1)" using l1(12) assms(1) by (simp add: timer_inv_def)
    then have "\<forall>k\<in>set (ready_queue l3). \<not> active l3 k \<and> \<not> closing l3 k"
      using l1(2) by (auto simp: timer_inv_def rq(1)) (auto simp: l3_def l2_def)
    moreover have "closed l3 k = closed l k" "closed l1 k = closed l k" for k using l1(11) by (simp_all add: l3_def l2_def)
    ultimately show ?thesis
      using l1(2,3) ok hp(2) assms(4,5) by (auto simp: timer_inv_def lt at rq)
  qed
  moreover have "active_timers l3 = insert h (active_timers l)"
    using l1 th by (auto simp: l3_def l2_def active_timers_def timer_handles_def)
  ultimately show ?thesis using l1 by (auto simp: l3_def l2_def)
qed

lemma timer_set_repeat_inv:
  "timer_inv l \<Longrightarrow> timer_inv (uv_timer_set_repeat h r l)"
proof -
  assume inv: "timer_inv l"
  let ?l = "uv_timer_set_repeat h r l"
  have lt: "timer_less_than ?l = timer_less_than l"
    by (auto simp: fun_eq_iff timer_less_than_def uv_timer_set_repeat_def set_timer_def Let_def)
  have "active_timers ?l = active_timers l" "ready_queue ?l = ready_queue l" "timer_handles ?l = timer_handles l"
    "timer_heap ?l = timer_heap l" "\<forall>k. active ?l k = active l k" "\<forall>k. closing ?l k = closing l k"
    "\<forall>k. closed ?l k = closed l k" "handles_ok ?l = handles_ok l" "\<forall>k. t_cb (timers ?l k) = t_cb (timers l k)"
    by (auto simp: uv_timer_set_repeat_def set_timer_def active_timers_def)
  then show ?thesis using inv by (simp add: timer_inv_def lt)
qed

lemma timer_init_inv:
  assumes "timer_inv l" and "h \<notin> set (handle_queue l)" and "length (handle_queue l) + 1 < 2 ^ 32"
  shows "timer_inv (snd (uv_timer_init h l)) \<and> timer_handles (snd (uv_timer_init h l)) = insert h (timer_handles l)"
proof -
  let ?l = "snd (uv_timer_init h l)"
  have l: "?l = set_timer h ((timers l h)\<lparr>t_cb := None, t_timeout := 0, t_repeat := 0\<rparr>) (uv__handle_init h UV_TIMER l)"
    by (simp add: uv_timer_init_def Let_def uv__handle_init_def)
  have th: "timer_handles ?l = insert h (timer_handles l)"
    using assms(2) by (auto simp: l set_timer_def timer_handles_def uv__handle_init_def)
  have at: "active_timers ?l = active_timers l"
    using assms(2) by (auto simp: l set_timer_def active_timers_def timer_handles_def uv__handle_init_def flag_views bit_flags)
  have "h \<notin> active_timers l" using assms(2) by (simp add: active_timers_def timer_handles_def)
  have "heap_inv (timer_less_than l) (timer_heap l) (active_timers l)" using assms(1) by (simp add: timer_inv_def)
  then have "heap_inv (timer_less_than ?l) (timer_heap l) (active_timers l)"
    using \<open>h \<notin> active_timers l\<close> by (rule hq.inv_rekey) (auto simp: l set_timer_def uv__handle_init_def timer_less_than_def)
  moreover have "handles_ok ?l" using handles_init [OF _ assms(2,3)] assms(1) by (simp add: l set_timer_def timer_inv_def)
  moreover have "ready_queue ?l = ready_queue l" "timer_heap ?l = timer_heap l"
    by (simp_all add: l set_timer_def uv__handle_init_def)
  moreover have "timers ?l k = timers l k \<and> active ?l k = active l k \<and> closing ?l k = closing l k \<and> closed ?l k = closed l k"
    if "k \<in> active_timers l \<union> set (ready_queue l)" for k
  proof -
    have "k \<noteq> h" using that assms(1,2) by (auto simp: timer_inv_def timer_handles_def active_timers_def)
    then show ?thesis by (simp add: l set_timer_def uv__handle_init_def flag_views)
  qed
  ultimately show ?thesis
    using assms(1) th by (auto simp: timer_inv_def at)
qed

text \<open>Re-arming: the deadline is counted from the loop's clock.\<close>

lemma timer_again_inv:
  assumes "timer_inv l" and "h \<in> timer_handles l" and "\<not> closing l h" and "\<not> closed l h" and "t_cb (timers l h) \<noteq> None"
  shows "\<exists>l'. uv_timer_again h l = Some (OK, l') \<and> timer_inv l' \<and> time l' = time l \<and>
    handle_queue l' = handle_queue l \<and> h_type l' = h_type l \<and>
    (\<forall>k. closing l' k = closing l k) \<and> (\<forall>k. closed l' k = closed l k) \<and>
    (if t_repeat (timers l h) = 0 then l' = l
     else active_timers l' = insert h (active_timers l) \<and> ready_queue l' = remove1 h (ready_queue l) \<and>
       timers l' = (timers l)(h := \<lparr>t_cb = t_cb (timers l h),
         t_timeout = due_time (time l) (t_repeat (timers l h)), t_repeat = t_repeat (timers l h),
         t_start_id = timer_counter l\<rparr>))"
proof (cases "t_repeat (timers l h) = 0")
  case True
  then show ?thesis using assms by (auto simp: uv_timer_again_def)
next
  case False
  obtain l1 where l1: "uv_timer_stop h l = Some l1" "timer_inv l1" "timers l1 = timers l" "time l1 = time l"
    "timer_counter l1 = timer_counter l" "handle_queue l1 = handle_queue l" "h_type l1 = h_type l"
    "active_timers l1 = active_timers l - {h}" "\<forall>k. closing l1 k = closing l k"
    "\<forall>k. closed l1 k = closed l k" "ready_queue l1 = remove1 h (ready_queue l)"
    using timer_stop_inv [OF assms(1,2)] by blast
  have h: "h \<in> timer_handles l1" using assms(2) l1 by (simp add: timer_handles_def)
  have "h \<notin> set (ready_queue l1)" using l1(11) assms(1) by (simp add: timer_inv_def)
  then show ?thesis
    using timer_start_inv [OF l1(2) h, of "t_cb (timers l h)" "t_repeat (timers l h)" "t_repeat (timers l h)"] l1 assms(3-5) False
    by (auto simp: uv_timer_again_def remove1_idem)
qed

section \<open>Running the timers\<close>

definition due :: "'a timer_loop_scheme \<Rightarrow> addr set" where
  "due l = {h \<in> active_timers l. t_timeout (timers l h) \<le> time l}"

text \<open>What stays fixed while due timers are collected and callbacks run.\<close>

definition same_handles :: "'a timer_loop_scheme \<Rightarrow> 'a timer_loop_scheme \<Rightarrow> bool" where
  "same_handles l l' \<longleftrightarrow> handle_queue l' = handle_queue l \<and> h_type l' = h_type l"

lemma same_handles_timers: "same_handles l l' \<Longrightarrow> timer_handles l' = timer_handles l"
  by (simp add: same_handles_def timer_handles_def)

lemma collect_due_spec:
  assumes "timer_inv l" and "\<And>h. h \<in> set (ready_queue l) \<Longrightarrow> \<not> active l h"
  shows "\<exists>l' D. collect_due l = Some l' \<and> timer_inv l' \<and> ready_queue l' = ready_queue l @ D \<and>
    distinct D \<and> set D = due l \<and> sorted_wrt (\<lambda>x y. \<not> timer_less_than l y x) D \<and>
    active_timers l' = active_timers l - due l \<and> timers l' = timers l \<and> time l' = time l \<and>
    timer_counter l' = timer_counter l \<and> same_handles l l' \<and>
    (\<forall>k. closing l' k = closing l k) \<and> (\<forall>k. closed l' k = closed l k)"
  using assms
proof (induction "card (active_timers l)" arbitrary: l rule: less_induct)
  case less
  have hi: "heap_inv (timer_less_than l) (timer_heap l) (active_timers l)" using less.prems(1) by (simp add: timer_inv_def)
  show ?case
  proof (cases "heap_min (timer_heap l)")
    case None
    then have "active_timers l = {}" using hq.mini_None [OF hi] by simp
    then show ?thesis using None less.prems
      by (subst collect_due.simps) (simp add: due_def same_handles_def)
  next
    case (Some h)
    have m: "h \<in> active_timers l" "\<forall>x\<in>active_timers l. \<not> timer_less_than l x h"
      using hq.mini_Some [OF hi timer_order Some] by auto
    show ?thesis
    proof (cases "t_timeout (timers l h) > time l")
      case True
      have "due l = {}"
        using m(2) True by (force simp: due_def timer_less_than_def Let_def split: if_splits)
      then show ?thesis using Some True less.prems
        by (subst collect_due.simps) (simp add: same_handles_def)
    next
      case False
      have ht: "h \<in> timer_handles l" "active l h" using m(1) by (auto simp: active_timers_def)
      obtain l1 where l1: "uv_timer_stop h l = Some l1" "timer_inv l1" "timers l1 = timers l" "time l1 = time l"
        "timer_counter l1 = timer_counter l" "handle_queue l1 = handle_queue l" "h_type l1 = h_type l"
        "active_timers l1 = active_timers l - {h}" "\<not> active l1 h" "\<forall>k. closing l1 k = closing l k"
        "\<forall>k. closed l1 k = closed l k" "ready_queue l1 = remove1 h (ready_queue l)"
        using timer_stop_inv [OF less.prems(1) ht(1)] by blast
      have hr: "h \<notin> set (ready_queue l)" using less.prems(2) ht(2) by blast
      define l2 where "l2 = l1\<lparr>ready_queue := ready_queue l1 @ [h]\<rparr>"
      have lt: "timer_less_than l2 = timer_less_than l"
        using l1(3) by (auto simp: l2_def fun_eq_iff timer_less_than_def)
      have lt1: "timer_less_than l1 = timer_less_than l"
        using l1(3) by (auto simp: fun_eq_iff timer_less_than_def)
      have at2: "active_timers l2 = active_timers l - {h}" using l1(8) by (simp add: l2_def active_timers_def)
      have cl: "\<not> closing l h" using less.prems(1) ht by (auto simp: timer_inv_def handles_ok_def timer_handles_def)
      have rq: "ready_queue l2 = ready_queue l @ [h]" using l1(12) hr by (simp add: l2_def remove1_idem)
      have th: "timer_handles l1 = timer_handles l" using l1 by (simp add: timer_handles_def)
      have f2: "timer_heap l2 = timer_heap l1" "timers l2 = timers l" "timer_handles l2 = timer_handles l"
        "\<And>k. active l2 k = active l1 k" "\<And>k. closing l2 k = closing l k" "handles_ok l2 = handles_ok l1"
        using l1(3,10) th by (simp_all add: l2_def)
      have f3: "time l2 = time l" "timer_counter l2 = timer_counter l" "same_handles l l2"
        "\<And>k. closed l2 k = closed l k"
        using l1 by (simp_all add: l2_def same_handles_def)
      have r1: "ready_queue l1 = ready_queue l" using l1(12) hr by (simp add: remove1_idem)
      have inv2: "timer_inv l2"
        using l1(2,8-10) less.prems(1) hr ht m(1) cl th
        by (auto simp: timer_inv_def lt lt1 at2 f2 f3 rq r1)
      have "card (active_timers l2) < card (active_timers l)"
        using m(1) at2 active_timers_finite [of l] by (metis card_Diff1_less)
      moreover have "\<And>k. k \<in> set (ready_queue l2) \<Longrightarrow> \<not> active l2 k"
        using inv2 by (auto simp: timer_inv_def)
      ultimately obtain l' D where IH: "collect_due l2 = Some l'" "timer_inv l'" "ready_queue l' = ready_queue l2 @ D"
        "distinct D" "set D = due l2" "sorted_wrt (\<lambda>x y. \<not> timer_less_than l2 y x) D"
        "active_timers l' = active_timers l2 - due l2" "timers l' = timers l2" "time l' = time l2"
        "timer_counter l' = timer_counter l2" "same_handles l2 l'"
        "\<forall>k. closing l' k = closing l2 k" "\<forall>k. closed l' k = closed l2 k"
        using less.hyps [of l2] inv2 by blast
      have d: "due l = insert h (due l2)" "h \<notin> due l2"
        using m(1) False f2(2) f3(1) by (auto simp: due_def at2 not_less)
      have "collect_due l = collect_due l2"
        using Some False l1(1) by (subst collect_due.simps) (simp add: l2_def)
      moreover have "sorted_wrt (\<lambda>x y. \<not> timer_less_than l y x) (h # D)"
        using IH(5,6) m(2) d(1) by (auto simp: lt due_def at2)
      moreover have "distinct (h # D)" using IH(4,5) d(2) by simp
      moreover have "active_timers l' = active_timers l - due l" using IH(7) d at2 by auto
      ultimately show ?thesis
        using IH d rq f2 f3 by (intro exI [of _ l'] exI [of _ "h # D"]) (auto simp: same_handles_def)
    qed
  qed
qed

text \<open>The calls a callback makes on timers; closing is \<open>uv_close\<close> at a timer handle.\<close>

definition uv_close_timer :: "addr \<Rightarrow> nat option \<Rightarrow> 'a timer_loop_scheme \<Rightarrow> 'a timer_loop_scheme option" where
  "uv_close_timer h close_cb l =
     (if uv__is_closing h l then None
      else Option.bind (uv__timer_close h (mark_closing h close_cb l)) (uv__make_close_pending h))"

datatype timer_api =
    TStart addr "nat option" u64 u64
  | TStop addr
  | TAgain addr
  | TSetRepeat addr u64
  | TClose addr "nat option"

fun timer_call :: "timer_api \<Rightarrow> 'a timer_loop_scheme \<Rightarrow> 'a timer_loop_scheme option" where
  "timer_call (TStart h cb timeout repeat) l = map_option snd (uv_timer_start h cb timeout repeat l)"
| "timer_call (TStop h) l = uv_timer_stop h l"
| "timer_call (TAgain h) l = map_option snd (uv_timer_again h l)"
| "timer_call (TSetRepeat h r) l = Some (uv_timer_set_repeat h r l)"
| "timer_call (TClose h cb) l = uv_close_timer h cb l"

fun target :: "timer_api \<Rightarrow> addr" where
  "target (TStart h cb timeout repeat) = h"
| "target (TStop h) = h"
| "target (TAgain h) = h"
| "target (TSetRepeat h r) = h"
| "target (TClose h cb) = h"

text \<open>Legal calls: the handle is an initialised timer, and is not closed twice.\<close>

fun legal_call :: "timer_api \<Rightarrow> 'a timer_loop_scheme \<Rightarrow> bool" where
  "legal_call (TClose h cb) l \<longleftrightarrow> h \<in> timer_handles l \<and> \<not> uv__is_closing h l"
| "legal_call a l \<longleftrightarrow> target a \<in> timer_handles l"

fun timer_calls :: "timer_api list \<Rightarrow> 'a timer_loop_scheme \<Rightarrow> 'a timer_loop_scheme option" where
  "timer_calls [] l = Some l"
| "timer_calls (a # as) l = Option.bind (timer_call a l) (timer_calls as)"

fun legal_calls :: "timer_api list \<Rightarrow> 'a timer_loop_scheme \<Rightarrow> bool" where
  "legal_calls [] l \<longleftrightarrow> True"
| "legal_calls (a # as) l \<longleftrightarrow>
     legal_call a l \<and> (case timer_call a l of None \<Rightarrow> False | Some l \<Rightarrow> legal_calls as l)"

lemma mark_closing_timer [simp]:
  "timers (mark_closing h cb l) = timers l" "timer_heap (mark_closing h cb l) = timer_heap l"
  "ready_queue (mark_closing h cb l) = ready_queue l" "time (mark_closing h cb l) = time l"
  "timer_handles (mark_closing h cb l) = timer_handles l" "active_timers (mark_closing h cb l) = active_timers l"
  "timer_less_than (mark_closing h cb l) = timer_less_than l"
  "(mark_closing h cb l)\<lparr>timer_heap := hp\<rparr> = mark_closing h cb (l\<lparr>timer_heap := hp\<rparr>)"
  "(mark_closing h cb l)\<lparr>ready_queue := q\<rparr> = mark_closing h cb (l\<lparr>ready_queue := q\<rparr>)"
  by (auto simp: mark_closing_def timer_handles_def active_timers_def active_def add_flag_def bit_or_iff
      bit_flags timer_less_than_def fun_eq_iff)

lemma timer_stop_mark_closing:
  "uv_timer_stop h (mark_closing h cb l) = map_option (mark_closing h cb) (uv_timer_stop h l)"
  by (auto simp: uv_timer_stop_def is_active_iff stop_mark_closing split: option.split)

lemma timer_close_inv:
  assumes "timer_inv l" and "h \<in> timer_handles l" and "\<not> closing l h" and "\<not> closed l h"
  shows "\<exists>l'. uv_close_timer h cb l = Some l' \<and> timer_inv l' \<and> same_handles l l' \<and> time l' = time l \<and>
    closing l' h \<and> h \<notin> active_timers l' \<and> closing_handles l' = h # closing_handles l \<and>
    ready_queue l' = remove1 h (ready_queue l)"
proof -
  obtain l1 where l1: "uv_timer_stop h l = Some l1" "timer_inv l1" "time l1 = time l"
    "handle_queue l1 = handle_queue l" "h_type l1 = h_type l"
    "active_timers l1 = active_timers l - {h}" "\<not> active l1 h" "\<forall>k. closing l1 k = closing l k"
    "\<forall>k. closed l1 k = closed l k" "ready_queue l1 = remove1 h (ready_queue l)"
    using timer_stop_inv [OF assms(1,2)] by blast
  have ch: "closing_handles l1 = closing_handles l"
    using l1(1) by (auto simp: uv_timer_stop_def split: if_splits option.splits)
  let ?l = "(mark_closing h cb l1)\<lparr>closing_handles := h # closing_handles l1\<rparr>"
  have "uv_close_timer h cb l = Some ?l"
    using assms(3,4) l1 by (simp add: uv_close_timer_def is_closing_iff uv__timer_close_def
        timer_stop_mark_closing close_pending_Some)
  moreover have "timer_inv ?l"
  proof -
    have "timer_less_than ?l = timer_less_than l1"
      by (auto simp: timer_less_than_def fun_eq_iff)
    moreover have "active_timers ?l = active_timers l1" "timer_handles ?l = timer_handles l1"
      by (auto simp: active_timers_def timer_handles_def)
    moreover have "handles_ok ?l" using l1(2,7) handles_mark_closing [of l1 h cb] by (simp add: timer_inv_def)
    moreover have "h \<notin> set (ready_queue l1)" using l1(10) assms(1) by (simp add: timer_inv_def)
    ultimately show ?thesis using l1(2) by (auto simp: timer_inv_def)
  qed
  ultimately show ?thesis using l1 ch by (auto simp: same_handles_def active_timers_def)
qed

lemma timer_again_any:
  assumes "timer_inv l" and "h \<in> timer_handles l"
  shows "\<exists>r l'. uv_timer_again h l = Some (r, l') \<and> timer_inv l' \<and> same_handles l l' \<and> time l' = time l \<and>
    ready_queue l' \<in> {ready_queue l, remove1 h (ready_queue l)}"
proof (cases "t_cb (timers l h) = None \<or> t_repeat (timers l h) = 0")
  case True
  then show ?thesis using assms by (auto simp: uv_timer_again_def same_handles_def)
next
  case False
  show ?thesis
  proof (cases "closing l h \<or> closed l h")
    case True
    obtain l1 where l1: "uv_timer_stop h l = Some l1" "timer_inv l1" "timers l1 = timers l" "time l1 = time l"
      "handle_queue l1 = handle_queue l" "h_type l1 = h_type l" "\<forall>k. closing l1 k = closing l k"
      "\<forall>k. closed l1 k = closed l k" "ready_queue l1 = remove1 h (ready_queue l)"
      using timer_stop_inv [OF assms] by blast
    then show ?thesis using True False
      by (auto simp: uv_timer_again_def uv_timer_start_def is_closing_iff same_handles_def)
  next
    case opn: False
    then show ?thesis using timer_again_inv [OF assms] False by (auto simp: same_handles_def)
  qed
qed

lemma timer_call_inv:
  assumes "timer_inv l" and "legal_call a l"
  shows "\<exists>l'. timer_call a l = Some l' \<and> timer_inv l' \<and> same_handles l l' \<and> time l' = time l \<and>
    ready_queue l' \<in> {ready_queue l, remove1 (target a) (ready_queue l)}"
proof (cases a)
  case (TStart h cb timeout repeat)
  then have h: "h \<in> timer_handles l" using assms(2) by simp
  show ?thesis
  proof (cases "uv__is_closing h l \<or> cb = None")
    case True
    then show ?thesis using assms TStart by (auto simp: uv_timer_start_def same_handles_def)
  next
    case False
    then show ?thesis using timer_start_inv [OF assms(1) h, of cb timeout repeat] TStart
      by (auto simp: is_closing_iff same_handles_def)
  qed
next
  case (TStop h)
  then show ?thesis using timer_stop_inv [OF assms(1), of h] assms(2) by (auto simp: same_handles_def)
next
  case (TAgain h)
  then show ?thesis using timer_again_any [OF assms(1), of h] assms(2) by auto
next
  case (TSetRepeat h r)
  then show ?thesis using timer_set_repeat_inv [OF assms(1), of h r]
    by (auto simp: same_handles_def uv_timer_set_repeat_def set_timer_def)
next
  case (TClose h cb)
  then show ?thesis using timer_close_inv [OF assms(1), of h cb] assms(2) by (auto simp: is_closing_iff)
qed

lemma same_handles_trans: "same_handles a b \<Longrightarrow> same_handles b c \<Longrightarrow> same_handles a c"
  by (simp add: same_handles_def)

lemma subseq_remove1: "subseq (remove1 x xs) xs"
  by (induction xs) auto

lemma set_mono_subseq: "subseq xs ys \<Longrightarrow> set xs \<subseteq> set ys"
  by (induction rule: list_emb.induct) auto

lemma distinct_subseq: "subseq xs ys \<Longrightarrow> distinct ys \<Longrightarrow> distinct xs"
  by (induction rule: list_emb.induct) (auto dest: set_mono_subseq)

lemma sorted_wrt_subseq: "subseq xs ys \<Longrightarrow> sorted_wrt P ys \<Longrightarrow> sorted_wrt P xs"
  by (induction rule: list_emb.induct) (auto dest: set_mono_subseq)

lemma timer_calls_inv:
  assumes "timer_inv l" and "legal_calls as l"
  shows "\<exists>l'. timer_calls as l = Some l' \<and> timer_inv l' \<and> same_handles l l' \<and> time l' = time l \<and>
    subseq (ready_queue l') (ready_queue l) \<and>
    (\<forall>h\<in>set (ready_queue l). h \<notin> target ` set as \<longrightarrow> h \<in> set (ready_queue l'))"
  using assms
proof (induction as arbitrary: l)
  case (Cons a as)
  obtain l1 where l1: "timer_call a l = Some l1" "timer_inv l1" "same_handles l l1" "time l1 = time l"
    "ready_queue l1 \<in> {ready_queue l, remove1 (target a) (ready_queue l)}"
    using timer_call_inv [of l a] Cons.prems by auto
  have "legal_calls as l1" using Cons.prems(2) l1(1) by simp
  then obtain l2 where l2: "timer_calls as l1 = Some l2" "timer_inv l2" "same_handles l1 l2" "time l2 = time l1"
    "subseq (ready_queue l2) (ready_queue l1)"
    "\<forall>h\<in>set (ready_queue l1). h \<notin> target ` set as \<longrightarrow> h \<in> set (ready_queue l2)"
    using Cons.IH [OF l1(2)] by blast
  have "subseq (ready_queue l1) (ready_queue l)" using l1(5) subseq_remove1 by auto
  then have "subseq (ready_queue l2) (ready_queue l)" using l2(5) by (rule subseq_order.trans [rotated])
  moreover have "h \<in> set (ready_queue l1)" if "h \<in> set (ready_queue l)" "h \<noteq> target a" for h
    using l1(5) that by (auto simp: in_set_remove1)
  ultimately show ?case using l1 l2 same_handles_trans by (auto simp: image_iff)
qed (simp add: same_handles_def)

text \<open>Callbacks as programs of calls, which may depend on the state.\<close>

type_synonym 'l timer_prog = "nat \<Rightarrow> addr \<Rightarrow> 'l \<Rightarrow> timer_api list"

definition run_prog :: "'a timer_loop_scheme timer_prog \<Rightarrow> nat \<Rightarrow> addr \<Rightarrow> 'a timer_loop_scheme \<Rightarrow> 'a timer_loop_scheme option" where
  "run_prog prog cb h l = timer_calls (prog cb h l) l"

lemma run_ready_spec:
  assumes "timer_inv l" and "\<And>cb h l. timer_inv l \<Longrightarrow> legal_calls (prog cb h l) l"
  shows "\<exists>tr l'. run_ready (run_prog prog) l = Some (tr, l') \<and> timer_inv l' \<and> ready_queue l' = [] \<and>
    same_handles l l' \<and> time l' = time l \<and> subseq tr (ready_queue l) \<and>
    (\<forall>h\<in>set (ready_queue l). (\<forall>cb k l. h \<notin> target ` set (prog cb k l)) \<longrightarrow> h \<in> set tr)"
  using assms(1)
proof (induction "length (ready_queue l)" arbitrary: l rule: less_induct)
  case less
  show ?case
  proof (cases "ready_queue l")
    case Nil
    then show ?thesis using less.prems by (subst run_ready.simps) (simp add: same_handles_def)
  next
    case (Cons h rest)
    define l0 where "l0 = l\<lparr>ready_queue := rest\<rparr>"
    have lt: "timer_less_than l0 = timer_less_than l" by (auto simp: l0_def timer_less_than_def fun_eq_iff)
    have at: "active_timers l0 = active_timers l" by (auto simp: l0_def active_timers_def)
    have f0: "ready_queue l0 = rest" "timers l0 = timers l" "timer_handles l0 = timer_handles l"
      "timer_heap l0 = timer_heap l" "\<And>k. active l0 k = active l k" "\<And>k. closing l0 k = closing l k"
      "\<And>k. closed l0 k = closed l k" "handles_ok l0 = handles_ok l" "same_handles l l0" "time l0 = time l"
      by (simp_all add: l0_def same_handles_def)
    have inv0: "timer_inv l0" and hr: "h \<notin> set rest"
      using less.prems Cons by (auto simp: timer_inv_def lt at f0)
    have h: "h \<in> timer_handles l0" "\<not> closing l0 h" "\<not> closed l0 h" "t_cb (timers l0 h) \<noteq> None"
      using less.prems Cons by (auto simp: timer_inv_def f0)
    obtain l1 where l1: "uv_timer_again h l0 = Some (OK, l1)" "timer_inv l1" "time l1 = time l0"
      "handle_queue l1 = handle_queue l0" "h_type l1 = h_type l0"
      "if t_repeat (timers l0 h) = 0 then l1 = l0
       else active_timers l1 = insert h (active_timers l0) \<and> ready_queue l1 = remove1 h (ready_queue l0) \<and>
         timers l1 = (timers l0)(h := \<lparr>t_cb = t_cb (timers l0 h),
           t_timeout = due_time (time l0) (t_repeat (timers l0 h)), t_repeat = t_repeat (timers l0 h),
           t_start_id = timer_counter l0\<rparr>)"
      using timer_again_inv [OF inv0 h] by blast
    then have r1: "ready_queue l1 = rest" using f0(1) hr by (auto simp: remove1_idem split: if_splits)
    obtain cb where cb: "t_cb (timers l1 h) = Some cb" using l1(6) h(4) by (auto split: if_splits)
    obtain l2 where l2: "run_prog prog cb h l1 = Some l2" "timer_inv l2" "same_handles l1 l2" "time l2 = time l1"
      "subseq (ready_queue l2) rest"
      "\<forall>k\<in>set rest. k \<notin> target ` set (prog cb h l1) \<longrightarrow> k \<in> set (ready_queue l2)"
      using timer_calls_inv [OF l1(2) assms(2) [OF l1(2)], of cb h] r1 unfolding run_prog_def by blast
    have "length (ready_queue l2) < length (ready_queue l)"
      using list_emb_length [OF l2(5)] Cons by simp
    then obtain tr l3 where l3: "run_ready (run_prog prog) l2 = Some (tr, l3)" "timer_inv l3" "ready_queue l3 = []"
      "same_handles l2 l3" "time l3 = time l2" "subseq tr (ready_queue l2)"
      "\<forall>h\<in>set (ready_queue l2). (\<forall>cb k l. h \<notin> target ` set (prog cb k l)) \<longrightarrow> h \<in> set tr"
      using less.hyps l2(2) by blast
    have "run_ready (run_prog prog) l = Some (h # tr, l3)"
      using Cons l1(1) cb l2(1) l3(1) by (subst run_ready.simps) (simp add: l0_def)
    moreover have "subseq (h # tr) (ready_queue l)"
      using l2(5) l3(6) Cons by (auto intro: subseq_order.trans)
    moreover have "same_handles l l3"
      using l1(4,5) l2(3) l3(4) f0(9) by (simp add: same_handles_def)
    ultimately show ?thesis using l1(3) l2(4,6) l3 f0(10) Cons by auto
  qed
qed

lemma run_timers_spec:
  assumes "timer_inv l" and "\<And>cb h l. timer_inv l \<Longrightarrow> legal_calls (prog cb h l) l"
  shows "\<exists>tr l'. uv__run_timers (run_prog prog) l = Some (tr, l') \<and> timer_inv l' \<and> ready_queue l' = [] \<and>
    same_handles l l' \<and> time l' = time l \<and> distinct tr \<and> set tr \<subseteq> due l \<and>
    sorted_wrt (\<lambda>x y. \<not> timer_less_than l y x) tr \<and>
    (\<forall>h\<in>due l. (\<forall>cb k l. h \<notin> target ` set (prog cb k l)) \<longrightarrow> h \<in> set tr)"
proof -
  define l0 where "l0 = l\<lparr>ready_queue := []\<rparr>"
  have lt: "timer_less_than l0 = timer_less_than l" by (auto simp: l0_def timer_less_than_def fun_eq_iff)
  have at: "active_timers l0 = active_timers l" by (auto simp: l0_def active_timers_def)
  have inv0: "timer_inv l0" using assms(1) by (auto simp: timer_inv_def lt at) (simp_all add: l0_def)
  have du: "due l0 = due l" by (auto simp: due_def at) (simp_all add: l0_def)
  obtain l1 D where l1: "collect_due l0 = Some l1" "timer_inv l1" "ready_queue l1 = D" "distinct D"
    "set D = due l" "sorted_wrt (\<lambda>x y. \<not> timer_less_than l y x) D" "time l1 = time l" "same_handles l l1"
    using collect_due_spec [OF inv0] du lt by (auto simp: l0_def same_handles_def)
  obtain tr l2 where l2: "run_ready (run_prog prog) l1 = Some (tr, l2)" "timer_inv l2" "ready_queue l2 = []"
    "same_handles l1 l2" "time l2 = time l1" "subseq tr D"
    "\<forall>h\<in>set D. (\<forall>cb k l. h \<notin> target ` set (prog cb k l)) \<longrightarrow> h \<in> set tr"
    using run_ready_spec [OF l1(2), of prog] assms(2) l1(3) by blast
  have "uv__run_timers (run_prog prog) l = Some (tr, l2)"
    using l1(1) l2(1) by (simp add: uv__run_timers_def l0_def)
  moreover have "distinct tr" "set tr \<subseteq> set D"
    using l2(6) l1(4) by (simp_all add: distinct_subseq set_mono_subseq)
  moreover have "sorted_wrt (\<lambda>x y. \<not> timer_less_than l y x) tr"
    by (rule sorted_wrt_subseq [OF l2(6) l1(6)])
  ultimately show ?thesis using l1 l2 same_handles_trans by (intro exI [of _ tr] exI [of _ l2]) auto
qed

text \<open>Without calls from the callbacks the effect of a run is determined.\<close>

lemma run_ready_silent:
  assumes "timer_inv l"
  shows "\<exists>l'. run_ready (run_prog (\<lambda>_ _ _. [])) l = Some (ready_queue l, l') \<and> timer_inv l' \<and> time l' = time l \<and>
    active_timers l' = active_timers l \<union> {h \<in> set (ready_queue l). t_repeat (timers l h) \<noteq> 0} \<and>
    (\<forall>h. h \<notin> set (ready_queue l) \<longrightarrow> timers l' h = timers l h) \<and>
    (\<forall>h\<in>set (ready_queue l). t_repeat (timers l h) \<noteq> 0 \<longrightarrow>
       t_timeout (timers l' h) = due_time (time l) (t_repeat (timers l h)))"
  using assms
proof (induction "ready_queue l" arbitrary: l)
  case Nil
  then show ?case by (subst run_ready.simps) simp
next
  case (Cons h rest)
  define l0 where "l0 = l\<lparr>ready_queue := rest\<rparr>"
  have lt: "timer_less_than l0 = timer_less_than l" by (auto simp: l0_def timer_less_than_def fun_eq_iff)
  have at: "active_timers l0 = active_timers l" by (auto simp: l0_def active_timers_def)
  have f0: "ready_queue l0 = rest" "timers l0 = timers l" "timer_handles l0 = timer_handles l"
    "timer_heap l0 = timer_heap l" "\<And>k. active l0 k = active l k" "\<And>k. closing l0 k = closing l k"
    "\<And>k. closed l0 k = closed l k" "handles_ok l0 = handles_ok l" "time l0 = time l"
    by (simp_all add: l0_def)
  have rq: "ready_queue l = h # rest" using Cons(2) by simp
  have inv0: "timer_inv l0" and hr: "h \<notin> set rest"
    using Cons.prems rq by (auto simp: timer_inv_def lt at f0)
  have h: "h \<in> timer_handles l0" "\<not> closing l0 h" "\<not> closed l0 h" "t_cb (timers l0 h) \<noteq> None"
    using Cons.prems rq by (auto simp: timer_inv_def f0)
  obtain l1 where l1: "uv_timer_again h l0 = Some (OK, l1)" "timer_inv l1" "time l1 = time l0"
    "if t_repeat (timers l0 h) = 0 then l1 = l0
     else active_timers l1 = insert h (active_timers l0) \<and> ready_queue l1 = remove1 h (ready_queue l0) \<and>
       timers l1 = (timers l0)(h := \<lparr>t_cb = t_cb (timers l0 h),
         t_timeout = due_time (time l0) (t_repeat (timers l0 h)), t_repeat = t_repeat (timers l0 h),
         t_start_id = timer_counter l0\<rparr>)"
    using timer_again_inv [OF inv0 h] by blast
  have r1: "rest = ready_queue l1" using l1(4) f0(1) hr by (auto simp: remove1_idem split: if_splits)
  obtain cb where cb: "t_cb (timers l1 h) = Some cb" using l1(4) h(4) by (auto split: if_splits)
  have tm: "timers l1 k = timers l k" if "k \<noteq> h" for k using l1(4) that f0(2) by (auto split: if_splits)
  have act1: "active_timers l1 = active_timers l \<union> (if t_repeat (timers l h) = 0 then {} else {h})"
    using l1(4) f0(2) at by (auto split: if_splits)
  obtain l2 where l2: "run_ready (run_prog (\<lambda>_ _ _. [])) l1 = Some (rest, l2)" "timer_inv l2" "time l2 = time l1"
    "active_timers l2 = active_timers l1 \<union> {k \<in> set rest. t_repeat (timers l1 k) \<noteq> 0}"
    "\<forall>k. k \<notin> set rest \<longrightarrow> timers l2 k = timers l1 k"
    "\<forall>k\<in>set rest. t_repeat (timers l1 k) \<noteq> 0 \<longrightarrow> t_timeout (timers l2 k) = due_time (time l1) (t_repeat (timers l1 k))"
    using Cons(1) [OF r1 l1(2)] r1 by blast
  have "run_ready (run_prog (\<lambda>_ _ _. [])) l = Some (h # rest, l2)"
    using rq l1(1) cb l2(1) by (subst run_ready.simps) (simp add: l0_def run_prog_def)
  moreover have "active_timers l2 = active_timers l \<union> {k \<in> set (h # rest). t_repeat (timers l k) \<noteq> 0}"
  proof -
    have "timers l1 k = timers l k" if "k \<in> set rest" for k using tm hr that by metis
    then show ?thesis using l2(4) act1 by (auto split: if_splits)
  qed
  moreover have "timers l2 k = timers l k" if "k \<notin> set (h # rest)" for k using l2(5) tm that by auto
  moreover have "t_timeout (timers l2 k) = due_time (time l) (t_repeat (timers l k))"
    if "k \<in> set (h # rest)" "t_repeat (timers l k) \<noteq> 0" for k
  proof (cases "k = h")
    case True
    then show ?thesis using l2(5) hr l1(4) that f0 by auto
  next
    case False
    then show ?thesis using l2(6) that tm [OF False] l1(3) f0 by auto
  qed
  ultimately show ?case using l2(2,3) l1(3) f0(9) rq by auto
qed

section \<open>Whole lives of a loop\<close>

datatype timer_event = EInit addr | ECall timer_api | ETick u64 | ERun

text \<open>\<open>uv__update_time\<close> sets the clock; \<open>ERun\<close> is one pass of \<open>uv__run_timers\<close>.\<close>

fun timer_react :: "'a timer_loop_scheme timer_prog \<Rightarrow> timer_event \<Rightarrow> 'a timer_loop_scheme \<Rightarrow> 'a timer_loop_scheme option" where
  "timer_react prog (EInit h) l = Some (snd (uv_timer_init h l))"
| "timer_react prog (ECall a) l = timer_call a l"
| "timer_react prog (ETick t) l = Some (l\<lparr>time := t\<rparr>)"
| "timer_react prog ERun l = map_option snd (uv__run_timers (run_prog prog) l)"

fun legal_event :: "timer_event \<Rightarrow> 'a timer_loop_scheme \<Rightarrow> bool" where
  "legal_event (EInit h) l \<longleftrightarrow> h \<notin> set (handle_queue l) \<and> length (handle_queue l) + 1 < 2 ^ 32"
| "legal_event (ECall a) l \<longleftrightarrow> legal_call a l"
| "legal_event (ETick t) l \<longleftrightarrow> True"
| "legal_event ERun l \<longleftrightarrow> True"

text \<open>A run stops with \<open>Some (Inl ())\<close> at the first illegal event, which is the caller's error.\<close>

fun timer_life :: "'a timer_loop_scheme timer_prog \<Rightarrow> timer_event list \<Rightarrow> 'a timer_loop_scheme \<Rightarrow>
    (unit + 'a timer_loop_scheme) option" where
  "timer_life prog [] l = Some (Inr l)"
| "timer_life prog (e # es) l =
     (if legal_event e l then Option.bind (timer_react prog e l) (timer_life prog es) else Some (Inl ()))"

definition fresh_timer_loop :: "u64 \<Rightarrow> hstate \<Rightarrow> (addr \<Rightarrow> uv_timer) \<Rightarrow> timer_loop" where
  "fresh_timer_loop now hp tm = \<lparr>active_handles = 0, active_reqs = 0, handle_queue = [], closing_handles = [],
     stop_flag = 0, h_type = (\<lambda>_. UV_UNKNOWN_HANDLE), h_flags = (\<lambda>_. 0), h_close_cb = (\<lambda>_. None),
     time = now, timer_counter = 0, timer_heap = heap_init hp, ready_queue = [], timers = tm\<rparr>"

lemma fresh_timer_inv: "timer_inv (fresh_timer_loop now hp tm)"
proof -
  have "active_timers (fresh_timer_loop now hp tm) = {}"
    by (simp add: active_timers_def timer_handles_def fresh_timer_loop_def)
  then show ?thesis
    by (simp add: timer_inv_def handles_ok_def alive_handles_def)
      (simp add: fresh_timer_loop_def heap_inv_init)
qed

lemma timer_event_inv:
  assumes "timer_inv l" and "\<And>cb h l. timer_inv l \<Longrightarrow> legal_calls (prog cb h l) l" and "legal_event e l"
  shows "\<exists>l'. timer_react prog e l = Some l' \<and> timer_inv l'"
proof (cases e)
  case (EInit h)
  then show ?thesis using timer_init_inv [OF assms(1)] assms(3) by simp
next
  case (ECall a)
  then show ?thesis using timer_call_inv [OF assms(1)] assms(3) by auto
next
  case (ETick t)
  have "timer_less_than (l\<lparr>time := t\<rparr>) = timer_less_than l" by (auto simp: timer_less_than_def fun_eq_iff)
  moreover have "active_timers (l\<lparr>time := t\<rparr>) = active_timers l" by (auto simp: active_timers_def)
  ultimately show ?thesis using ETick assms(1) by (auto simp: timer_inv_def)
next
  case ERun
  then show ?thesis using run_timers_spec [OF assms(1), of prog] assms(2) by auto
qed

section \<open>A concrete loop\<close>

text \<open>Two timers, one due at 5 and one due at 3 and repeating every 10, at loop time 4.\<close>

definition demo_timers :: "addr \<Rightarrow> uv_timer" where
  "demo_timers = (\<lambda>_. \<lparr>t_cb = None, t_timeout = 0, t_repeat = 0, t_start_id = 0\<rparr>)"

lemma demo_loop:
  "\<exists>l :: timer_loop. timer_inv l \<and> timer_handles l = {1, 2} \<and> active_timers l = {1, 2} \<and> time l = 4 \<and>
    timers l 1 = \<lparr>t_cb = Some 7, t_timeout = 5, t_repeat = 0, t_start_id = 0\<rparr> \<and>
    timers l 2 = \<lparr>t_cb = Some 8, t_timeout = 3, t_repeat = 10, t_start_id = 1\<rparr> \<and>
    \<not> closing l 1 \<and> \<not> closed l 1"
proof -
  let ?l0 = "fresh_timer_loop 0 blank_store demo_timers"
  let ?l1 = "snd (uv_timer_init 1 ?l0)" and ?l2 = "snd (uv_timer_init 2 (snd (uv_timer_init 1 ?l0)))"
  have q: "handle_queue ?l0 = []" "handle_queue ?l1 = [1]"
    by (simp_all add: fresh_timer_loop_def uv_timer_init_def uv__handle_init_def set_timer_def Let_def)
  have i1: "timer_inv ?l1 \<and> timer_handles ?l1 = insert 1 (timer_handles ?l0)"
    by (rule timer_init_inv [OF fresh_timer_inv]) (simp_all add: q)
  have i2: "timer_inv ?l2 \<and> timer_handles ?l2 = insert 2 (timer_handles ?l1)"
    by (rule timer_init_inv [OF conjunct1 [OF i1]]) (simp_all only: q, simp_all)
  have th: "timer_handles ?l2 = {1, 2}" using i1 i2 q by (auto simp: timer_handles_def)
  have f: "time ?l2 = 0" "timer_counter ?l2 = 0" "\<not> closing ?l2 k" "\<not> closed ?l2 k" "\<not> active ?l2 k" for k
    by (simp_all add: fresh_timer_loop_def uv_timer_init_def uv__handle_init_def set_timer_def Let_def flag_views bit_flags)
  have at: "active_timers ?l2 = {}" using f by (simp add: active_timers_def)
  have d: "due_time 0 5 = 5" "due_time 0 3 = 3" by (simp_all add: due_time_def)
  have th_cong: "handle_queue l' = handle_queue l \<Longrightarrow> h_type l' = h_type l \<Longrightarrow> timer_handles l' = timer_handles l"
    for l l' :: timer_loop by (simp add: timer_handles_def)
  define l2 where "l2 = ?l2"
  have i2: "timer_inv l2" and th: "timer_handles l2 = {1, 2}" and at: "active_timers l2 = {}"
    using i2 th at unfolding l2_def by blast+
  have f: "time l2 = 0" "timer_counter l2 = 0" "\<not> closing l2 k" "\<not> closed l2 k" for k
    using f unfolding l2_def by blast+
  have "1 \<in> timer_handles l2" by (simp only: th) simp
  then have "\<exists>l'. uv_timer_start 1 (Some 7) 5 0 l2 = Some (OK, l') \<and> timer_inv l' \<and>
    timers l' = (timers l2)(1 := \<lparr>t_cb = Some 7, t_timeout = due_time (time l2) 5, t_repeat = 0,
      t_start_id = timer_counter l2\<rparr>) \<and> time l' = time l2 \<and> timer_counter l' = timer_counter l2 + 1 \<and>
    handle_queue l' = handle_queue l2 \<and> h_type l' = h_type l2 \<and> active_timers l' = insert 1 (active_timers l2) \<and>
    (\<forall>k. closing l' k = closing l2 k) \<and> (\<forall>k. closed l' k = closed l2 k) \<and>
    ready_queue l' = remove1 1 (ready_queue l2)"
    by (rule timer_start_inv [OF i2]) (simp_all add: f)
  then obtain l3 :: timer_loop where l3: "timer_inv l3" "timers l3 = (timers l2)(1 := \<lparr>t_cb = Some 7, t_timeout = due_time (time l2) 5, t_repeat = 0, t_start_id = timer_counter l2\<rparr>)"
    "time l3 = time l2" "timer_counter l3 = timer_counter l2 + 1" "active_timers l3 = insert 1 (active_timers l2)"
    "handle_queue l3 = handle_queue l2" "h_type l3 = h_type l2"
    "\<forall>k. closing l3 k = closing l2 k" "\<forall>k. closed l3 k = closed l2 k"
    by blast
  have th3: "timer_handles l3 = {1, 2}" using th_cong [OF l3(6,7)] th by metis
  have "2 \<in> timer_handles l3" by (simp only: th3) simp
  moreover have "\<not> closing l3 2" "\<not> closed l3 2" using l3(8,9) f(3,4) by blast+
  ultimately obtain l4 :: timer_loop where l4: "timer_inv l4" "timers l4 = (timers l3)(2 := \<lparr>t_cb = Some 8, t_timeout = due_time (time l3) 3, t_repeat = 10, t_start_id = timer_counter l3\<rparr>)"
    "active_timers l4 = insert 2 (active_timers l3)" "handle_queue l4 = handle_queue l3" "h_type l4 = h_type l3"
    "\<forall>k. closing l4 k = closing l3 k" "\<forall>k. closed l4 k = closed l3 k"
    using timer_start_inv [OF l3(1), of 2 "Some 8" 3 10] by blast
  have th4: "timer_handles l4 = {1, 2}" using th_cong [OF l4(4,5)] th3 by metis
  have at4: "active_timers l4 = {1, 2}" unfolding l4(3) l3(5) at by blast
  have ne: "(1::addr) \<noteq> 2" by simp
  have t1: "timers l4 1 = \<lparr>t_cb = Some 7, t_timeout = 5, t_repeat = 0, t_start_id = 0\<rparr>"
    unfolding l4(2) l3(2) f(1,2) d using ne by simp
  have t2: "timers l4 2 = \<lparr>t_cb = Some 8, t_timeout = 3, t_repeat = 10, t_start_id = 1\<rparr>"
    unfolding l4(2) l3(3,4) f(1,2) d by simp
  have c4: "\<not> closing l4 1" "\<not> closed l4 1" using l4(6,7) l3(8,9) f(3,4) by blast+
  have "timer_inv (l4\<lparr>time := 4\<rparr>)"
    using timer_event_inv [OF l4(1), of "\<lambda>_ _ _. []" "ETick 4"] by simp
  moreover have "active_timers (l4\<lparr>time := 4\<rparr>) = active_timers l4" by (simp add: active_timers_def)
  ultimately show ?thesis using th4 at4 t1 t2 c4
    by (intro exI [of _ "l4\<lparr>time := 4\<rparr>"]) simp
qed

section \<open>Properties\<close>



text \<open>C9. A pass over the timers terminates and runs each callback at most once, only for timers
  that were due when it began, in order of deadline and then of start; timers that callbacks start
  or re-arm wait for the next pass, and every due timer no callback interferes with does run.\<close>

theorem run_timers_order:
  assumes "timer_inv l" and "\<And>cb h l. timer_inv l \<Longrightarrow> legal_calls (prog cb h l) l"
  shows "\<exists>tr l'. uv__run_timers (run_prog prog) l = Some (tr, l') \<and> timer_inv l' \<and>
    distinct tr \<and> set tr \<subseteq> {h \<in> active_timers l. t_timeout (timers l h) \<le> time l} \<and>
    sorted_wrt (\<lambda>x y. \<not> timer_less_than l y x) tr \<and>
    (\<forall>h\<in>active_timers l. t_timeout (timers l h) \<le> time l \<and> (\<forall>cb k l. h \<notin> target ` set (prog cb k l)) \<longrightarrow> h \<in> set tr)"
proof -
  obtain tr l' where "uv__run_timers (run_prog prog) l = Some (tr, l')" "timer_inv l'" "distinct tr"
    "set tr \<subseteq> due l" "sorted_wrt (\<lambda>x y. \<not> timer_less_than l y x) tr"
    "\<forall>h\<in>due l. (\<forall>cb k l. h \<notin> target ` set (prog cb k l)) \<longrightarrow> h \<in> set tr"
    using run_timers_spec [OF assms(1), of prog] assms(2) by blast
  then show ?thesis unfolding due_def by (intro exI [of _ tr] exI [of _ l']) auto
qed

theorem run_timers_order_witness:
  "\<exists>(l :: timer_loop) tr l'. uv__run_timers (run_prog (\<lambda>_ _ _. [])) l = Some (tr, l') \<and>
    active_timers l = {1, 2} \<and> set tr = {2}"
proof -
  obtain l :: timer_loop where l: "timer_inv l" "active_timers l = {1, 2}" "time l = 4"
    "timers l 1 = \<lparr>t_cb = Some 7, t_timeout = 5, t_repeat = 0, t_start_id = 0\<rparr>"
    "timers l 2 = \<lparr>t_cb = Some 8, t_timeout = 3, t_repeat = 10, t_start_id = 1\<rparr>"
    using demo_loop by blast
  obtain tr and l' :: timer_loop where "uv__run_timers (run_prog (\<lambda>_ _ _. [])) l = Some (tr, l')"
    "set tr \<subseteq> {h \<in> active_timers l. t_timeout (timers l h) \<le> time l}"
    "\<forall>h\<in>active_timers l. t_timeout (timers l h) \<le> time l \<longrightarrow> h \<in> set tr"
    using run_timers_order [OF l(1), of "\<lambda>_ _ _. []"] by auto
  then show ?thesis using l by (intro exI [of _ l] exI [of _ tr] exI [of _ l']) auto
qed

text \<open>Callbacks that leave the timers alone: a pass runs all due timers; the repeating ones
  are armed again for the loop's time plus their repeat value, the others become inactive, and no
  other timer is touched.\<close>

theorem run_timers_rearm:
  assumes "timer_inv l"
  shows "\<exists>tr l'. uv__run_timers (run_prog (\<lambda>_ _ _. [])) l = Some (tr, l') \<and> set tr = due l \<and>
    active_timers l' = active_timers l - {h \<in> due l. t_repeat (timers l h) = 0} \<and>
    (\<forall>h\<in>due l. t_repeat (timers l h) \<noteq> 0 \<longrightarrow>
       unat (t_timeout (timers l' h)) = min (unat (time l) + unat (t_repeat (timers l h))) (2 ^ 64 - 1)) \<and>
    (\<forall>h. h \<notin> due l \<longrightarrow> timers l' h = timers l h)"
proof -
  define l0 where "l0 = l\<lparr>ready_queue := []\<rparr>"
  have lt: "timer_less_than l0 = timer_less_than l" by (auto simp: l0_def timer_less_than_def fun_eq_iff)
  have at: "active_timers l0 = active_timers l" by (auto simp: l0_def active_timers_def)
  have inv0: "timer_inv l0" using assms by (auto simp: timer_inv_def lt at) (simp_all add: l0_def)
  have du: "due l0 = due l" by (auto simp: due_def at) (simp_all add: l0_def)
  obtain l1 where l1: "collect_due l0 = Some l1" "timer_inv l1" "set (ready_queue l1) = due l"
    "active_timers l1 = active_timers l - due l" "timers l1 = timers l" "time l1 = time l"
    using collect_due_spec [OF inv0] du at by (auto simp: l0_def)
  obtain l2 where l2: "run_ready (run_prog (\<lambda>_ _ _. [])) l1 = Some (ready_queue l1, l2)"
    "active_timers l2 = active_timers l1 \<union> {h \<in> set (ready_queue l1). t_repeat (timers l1 h) \<noteq> 0}"
    "\<forall>h. h \<notin> set (ready_queue l1) \<longrightarrow> timers l2 h = timers l1 h"
    "\<forall>h\<in>set (ready_queue l1). t_repeat (timers l1 h) \<noteq> 0 \<longrightarrow>
       t_timeout (timers l2 h) = due_time (time l1) (t_repeat (timers l1 h))"
    using run_ready_silent [OF l1(2)] by blast
  have "uv__run_timers (run_prog (\<lambda>_ _ _. [])) l = Some (ready_queue l1, l2)"
    using l1(1) l2(1) by (simp add: uv__run_timers_def l0_def)
  moreover have "due l \<subseteq> active_timers l" by (auto simp: due_def)
  ultimately show ?thesis
    using l1 l2 by (intro exI [of _ "ready_queue l1"] exI [of _ l2]) (auto simp: due_time_nat)
qed

theorem run_timers_rearm_witness:
  "\<exists>(l :: timer_loop) tr l'. uv__run_timers (run_prog (\<lambda>_ _ _. [])) l = Some (tr, l') \<and> set tr = {2} \<and>
    active_timers l' = {1, 2} \<and> unat (t_timeout (timers l' 2)) = 14"
proof -
  obtain l :: timer_loop where l: "timer_inv l" "active_timers l = {1, 2}" "time l = 4"
    "timers l 1 = \<lparr>t_cb = Some 7, t_timeout = 5, t_repeat = 0, t_start_id = 0\<rparr>"
    "timers l 2 = \<lparr>t_cb = Some 8, t_timeout = 3, t_repeat = 10, t_start_id = 1\<rparr>"
    using demo_loop by blast
  then have "due l = {2}" by (auto simp: due_def)
  then show ?thesis using run_timers_rearm [OF l(1)] l by (intro exI [of _ l]) auto
qed

text \<open>C10. Starting a timer arms it for the loop's time plus the timeout, saturating at the end
  of the 64-bit clock instead of wrapping around to the past, and the time it reports to be due in
  is that deadline minus the clock; closing handles and missing callbacks are refused.\<close>

theorem timer_start_deadline:
  assumes "timer_inv l" and "h \<in> timer_handles l"
  shows "\<exists>r l'. uv_timer_start h cb timeout repeat l = Some (r, l') \<and> timer_inv l' \<and>
    (if cb = None \<or> uv__is_closing h l then r = Inl UV_EINVAL \<and> l' = l
     else r = OK \<and> h \<in> active_timers l' \<and>
       unat (t_timeout (timers l' h)) = min (unat (time l) + unat timeout) (2 ^ 64 - 1) \<and>
       unat (uv_timer_get_due_in h l') = min (unat timeout) (2 ^ 64 - 1 - unat (time l)) \<and>
       uv_timer_get_repeat h l' = repeat)"
proof (cases "cb = None \<or> uv__is_closing h l")
  case True
  then show ?thesis using assms(1) by (auto simp: uv_timer_start_def)
next
  case False
  obtain l' where l': "uv_timer_start h cb timeout repeat l = Some (OK, l')" "timer_inv l'"
    "timers l' = (timers l)(h := \<lparr>t_cb = cb, t_timeout = due_time (time l) timeout, t_repeat = repeat,
      t_start_id = timer_counter l\<rparr>)" "time l' = time l" "active_timers l' = insert h (active_timers l)"
    using timer_start_inv [OF assms, of cb timeout repeat] False by (auto simp: is_closing_iff)
  have n: "unat (due_time (time l) timeout) = min (unat (time l) + unat timeout) (2 ^ 64 - 1)"
    by (rule due_time_nat)
  have "unat (time l) < 2 ^ 64" using unsigned_less [of "time l", where 'a = nat] by simp
  then have le: "time l \<le> due_time (time l) timeout" using n by (simp add: word_le_nat_alt)
  then have "unat (due_time (time l) timeout - time l) = unat (due_time (time l) timeout) - unat (time l)"
    by (simp add: unat_sub)
  moreover have "uv_timer_get_due_in h l' = due_time (time l) timeout - time l"
    using le l'(3,4) by (auto simp: uv_timer_get_due_in_def)
  ultimately show ?thesis using False l' n by (auto simp: uv_timer_get_repeat_def)
qed

theorem timer_start_deadline_witness:
  "\<exists>(l :: timer_loop) l'. uv_timer_start 1 (Some 9) (- 1) 0 l = Some (OK, l') \<and>
    unat (t_timeout (timers l' 1)) = 2 ^ 64 - 1 \<and> unat (uv_timer_get_due_in 1 l') = 2 ^ 64 - 5"
proof -
  obtain l :: timer_loop where l: "timer_inv l" "timer_handles l = {1, 2}" "time l = 4" "\<not> closing l 1" "\<not> closed l 1"
    using demo_loop by blast
  have m: "unat (- 1 :: u64) = 2 ^ 64 - 1" by (simp add: unsigned_minus_1_eq_mask mask_eq_exp_minus_1)
  have "1 \<in> timer_handles l" using l(2) by simp
  then obtain l' :: timer_loop where "uv_timer_start 1 (Some 9) (- 1) 0 l = Some (OK, l')"
    "unat (t_timeout (timers l' 1)) = min (unat (time l) + unat (- 1 :: u64)) (2 ^ 64 - 1)"
    "unat (uv_timer_get_due_in 1 l') = min (unat (- 1 :: u64)) (2 ^ 64 - 1 - unat (time l))"
    using timer_start_deadline [OF l(1), of 1 "Some 9" "- 1" 0] l(4,5) by (auto simp: is_closing_iff)
  then show ?thesis using l(3) by (intro exI [of _ l] exI [of _ l']) (simp add: m)
qed

text \<open>The poll timeout is exact: without active timers it is -1 (block), otherwise it is the
  time until the earliest deadline, zero if that has passed, and capped at the largest int.\<close>

theorem next_timeout_exact:
  assumes "timer_inv l"
  shows "if active_timers l = {} then uv__next_timeout l = - 1
    else \<exists>h\<in>active_timers l. (\<nexists>k. k \<in> active_timers l \<and> t_timeout (timers l k) < t_timeout (timers l h)) \<and>
      uv__next_timeout l = min (int (unat (t_timeout (timers l h)) - unat (time l))) (2 ^ 31 - 1)"
proof -
  have hi: "heap_inv (timer_less_than l) (timer_heap l) (active_timers l)" using assms by (simp add: timer_inv_def)
  show ?thesis
  proof (cases "heap_min (timer_heap l)")
    case None
    then show ?thesis using hq.mini_None [OF hi] by (simp add: uv__next_timeout_def)
  next
    case (Some h)
    have m: "h \<in> active_timers l" "\<forall>x\<in>active_timers l. \<not> timer_less_than l x h"
      using hq.mini_Some [OF hi timer_order Some] by auto
    have least: "\<nexists>k. k \<in> active_timers l \<and> t_timeout (timers l k) < t_timeout (timers l h)"
      using m(2) by (auto simp: timer_less_than_def Let_def)
    have "uv__next_timeout l = min (int (unat (t_timeout (timers l h)) - unat (time l))) (2 ^ 31 - 1)"
    proof (cases "t_timeout (timers l h) \<le> time l")
      case True
      then show ?thesis using Some by (simp add: uv__next_timeout_def word_le_nat_alt)
    next
      case False
      then have "unat (t_timeout (timers l h) - time l) = unat (t_timeout (timers l h)) - unat (time l)"
        by (simp add: unat_sub)
      then have u: "uint (t_timeout (timers l h) - time l) = int (unat (t_timeout (timers l h)) - unat (time l))"
        by (metis uint_nat)
      have "INT_MAX < t_timeout (timers l h) - time l \<longleftrightarrow> 2 ^ 31 - 1 < uint (t_timeout (timers l h) - time l)"
        by (simp add: INT_MAX_def word_less_def)
      moreover have "uint INT_MAX = 2 ^ 31 - 1" by (simp add: INT_MAX_def)
      ultimately show ?thesis using Some False u by (simp add: uv__next_timeout_def Let_def min_def)
    qed
    then show ?thesis using m(1) least by auto
  qed
qed

theorem next_timeout_exact_witness:
  "\<exists>l :: timer_loop. active_timers l = {1, 2} \<and> uv__next_timeout l = 0"
proof -
  obtain l :: timer_loop where l: "timer_inv l" "active_timers l = {1, 2}" "time l = 4"
    "timers l 1 = \<lparr>t_cb = Some 7, t_timeout = 5, t_repeat = 0, t_start_id = 0\<rparr>"
    "timers l 2 = \<lparr>t_cb = Some 8, t_timeout = 3, t_repeat = 10, t_start_id = 1\<rparr>"
    using demo_loop by blast
  then show ?thesis using next_timeout_exact [OF l(1)] by (intro exI [of _ l]) auto
qed

end
