(* ===== verification/UV_Io.thy ===== *)
theory UV_Io
  imports UV_Timer "HOL-Library.Monad_Syntax" "HOL-Library.Sublist"
begin

text \<open>
  I/O watchers: the watcher operations of src/unix/core.c and the epoll backend of
  src/unix/linux.c (without io_uring).  The kernel's interest set is a field of the loop and
  \<open>epoll_ctl\<close> has its documented effect on it; what \<open>epoll_pwait\<close> returns is a parameter.  The
  queues of watchers are the lists that \<open>UV_Queue\<close> shows the pointers to represent; a watcher's
  queue node is linked to itself exactly when it is in no list.  A failed assertion or an abort
  is \<open>None\<close>.
\<close>

section \<open>State\<close>

record uv__io =
  io_cb :: nat
  io_fd :: int
  io_events :: u32
  io_pevents :: u32

record io_loop = timer_loop +
  watchers :: "ptr list"
  nwatchers :: u32
  nfds :: u32
  io :: "addr \<Rightarrow> uv__io"
  watcher_queue :: "addr list"
  pending_queue :: "addr list"
  pending_local :: "addr list"
  kernel :: "int \<Rightarrow> u32 option"
  inv :: "(int \<times> u32) list option"
  mem_ok :: "nat \<Rightarrow> bool"

definition POLLIN :: u32 where "POLLIN = 0x1"
definition POLLPRI :: u32 where "POLLPRI = 0x2"
definition POLLOUT :: u32 where "POLLOUT = 0x4"
definition POLLERR :: u32 where "POLLERR = 0x8"
definition POLLHUP :: u32 where "POLLHUP = 0x10"
definition POLLRDHUP :: u32 where "POLLRDHUP = 0x2000"

definition io_mask :: u32 where
  "io_mask = or (or (or POLLIN POLLOUT) POLLRDHUP) POLLPRI"

definition INT_MAX_int :: int where "INT_MAX_int = 2 ^ 31 - 1"

definition set_io :: "addr \<Rightarrow> uv__io \<Rightarrow> 'a io_loop_scheme \<Rightarrow> 'a io_loop_scheme" where
  "set_io w x l = l\<lparr>io := (io l)(w := x)\<rparr>"

section \<open>Watchers\<close>

definition next_power_of_two :: "u32 \<Rightarrow> u32" where
  "next_power_of_two val =
     (let val = val - 1;
          val = or val (drop_bit 1 val);
          val = or val (drop_bit 2 val);
          val = or val (drop_bit 4 val);
          val = or val (drop_bit 8 val);
          val = or val (drop_bit 16 val)
      in val + 1)"

definition maybe_resize :: "u32 \<Rightarrow> 'a io_loop_scheme \<Rightarrow> 'a io_loop_scheme option" where
  "maybe_resize len l =
     (if len \<le> nwatchers l then Some l
      else let fake = (if watchers l \<noteq> []
                       then [watchers l ! unat (nwatchers l), watchers l ! unat (nwatchers l + 1)]
                       else [None, None]);
               n = next_power_of_two (len + 2) - 2
           in if \<not> mem_ok l (unat (n + 2) * 8) then None
              else Some (l\<lparr>watchers := take (unat (nwatchers l)) (watchers l) @
                             replicate (unat n - unat (nwatchers l)) None @ fake,
                           nwatchers := n\<rparr>))"

definition uv__io_init :: "addr \<Rightarrow> nat \<Rightarrow> int \<Rightarrow> 'a io_loop_scheme \<Rightarrow> 'a io_loop_scheme option" where
  "uv__io_init w cb fd l =
     (if fd \<ge> - 1
      then Some (set_io w \<lparr>io_cb = cb, io_fd = fd, io_events = 0, io_pevents = 0\<rparr> l)
      else None)"

definition valid_events :: "u32 \<Rightarrow> bool" where
  "valid_events events \<longleftrightarrow> and events (not io_mask) = 0 \<and> events \<noteq> 0"

definition uv__io_start :: "addr \<Rightarrow> u32 \<Rightarrow> 'a io_loop_scheme \<Rightarrow> 'a io_loop_scheme option" where
  "uv__io_start w events l =
     (if \<not> valid_events events \<or> io_fd (io l w) < 0 \<or> io_fd (io l w) \<ge> INT_MAX_int then None
      else let fd = io_fd (io l w);
               l = set_io w ((io l w)\<lparr>io_pevents := or (io_pevents (io l w)) events\<rparr>) l
           in case maybe_resize (of_int fd + 1) l of
                None \<Rightarrow> None
              | Some l \<Rightarrow>
                  (if io_events (io l w) = io_pevents (io l w) then Some l
                   else let l = (if w \<in> set (watcher_queue l) then l
                                 else l\<lparr>watcher_queue := watcher_queue l @ [w]\<rparr>)
                        in Some (if watchers l ! nat fd = None
                                 then l\<lparr>watchers := (watchers l)[nat fd := Some w], nfds := nfds l + 1\<rparr>
                                 else l)))"

definition uv__io_stop :: "addr \<Rightarrow> u32 \<Rightarrow> 'a io_loop_scheme \<Rightarrow> 'a io_loop_scheme option" where
  "uv__io_stop w events l =
     (if \<not> valid_events events then None
      else if io_fd (io l w) = - 1 then Some l
      else if io_fd (io l w) < 0 then None
      else if io_fd (io l w) \<ge> uint (nwatchers l) then Some l
      else let fd = io_fd (io l w);
               l = set_io w ((io l w)\<lparr>io_pevents := and (io_pevents (io l w)) (not events)\<rparr>) l
           in if io_pevents (io l w) = 0 then
                (let l = l\<lparr>watcher_queue := remove1 w (watcher_queue l)\<rparr>;
                     l = set_io w ((io l w)\<lparr>io_events := 0\<rparr>) l
                 in if watchers l ! nat fd = Some w
                    then if nfds l > 0
                         then Some (l\<lparr>watchers := (watchers l)[nat fd := None], nfds := nfds l - 1\<rparr>)
                         else None
                    else Some l)
              else if w \<notin> set (watcher_queue l) then Some (l\<lparr>watcher_queue := watcher_queue l @ [w]\<rparr>)
              else Some l)"

text \<open>
  \<open>uv__platform_invalidate_fd\<close> of linux.c: pending events of the descriptor are crossed out and
  the kernel forgets it.
\<close>

definition uv__platform_invalidate_fd :: "int \<Rightarrow> 'a io_loop_scheme \<Rightarrow> 'a io_loop_scheme" where
  "uv__platform_invalidate_fd fd l =
     l\<lparr>inv := map_option (map (\<lambda>(d, e). if d = fd then (- 1, e) else (d, e))) (inv l),
       kernel := (kernel l)(fd := None)\<rparr>"

definition uv__io_close :: "addr \<Rightarrow> 'a io_loop_scheme \<Rightarrow> 'a io_loop_scheme option" where
  "uv__io_close w l =
     (case uv__io_stop w io_mask l of
        None \<Rightarrow> None
      | Some l \<Rightarrow>
          (let l = l\<lparr>pending_queue := remove1 w (pending_queue l), pending_local := remove1 w (pending_local l)\<rparr>
           in Some (if io_fd (io l w) \<noteq> - 1 then uv__platform_invalidate_fd (io_fd (io l w)) l else l)))"

definition uv__io_feed :: "addr \<Rightarrow> 'a io_loop_scheme \<Rightarrow> 'a io_loop_scheme" where
  "uv__io_feed w l =
     (if w \<in> set (pending_queue l) \<or> w \<in> set (pending_local l) then l else l\<lparr>pending_queue := pending_queue l @ [w]\<rparr>)"

definition uv__io_active :: "addr \<Rightarrow> u32 \<Rightarrow> 'a io_loop_scheme \<Rightarrow> bool option" where
  "uv__io_active w events l =
     (if \<not> valid_events events then None else Some (and (io_pevents (io l w)) events \<noteq> 0))"

definition uv__fd_exists :: "int \<Rightarrow> 'a io_loop_scheme \<Rightarrow> bool" where
  "uv__fd_exists fd l \<longleftrightarrow> (of_int fd :: u32) < nwatchers l \<and> watchers l ! nat fd \<noteq> None"

text \<open>
  \<open>uv__run_pending\<close>; the queue on its stack is \<open>pending_local\<close>, from which closing a watcher
  unlinks it too.  The result lists the watchers whose callbacks ran.
\<close>

partial_function (option) pending_loop ::
    "(nat \<Rightarrow> addr \<Rightarrow> u32 \<Rightarrow> 'a io_loop_scheme \<Rightarrow> 'a io_loop_scheme option) \<Rightarrow> 'a io_loop_scheme \<Rightarrow>
     (addr list \<times> 'a io_loop_scheme) option" where
  "pending_loop run l =
     (case pending_local l of
        [] \<Rightarrow> Some ([], l)
      | w # rest \<Rightarrow>
          Option.bind (run (io_cb (io l w)) w POLLOUT (l\<lparr>pending_local := rest\<rparr>)) (\<lambda>l.
          Option.bind (pending_loop run l) (\<lambda>(ws, l). Some (w # ws, l))))"

declare pending_loop.simps [code]

definition uv__run_pending ::
    "(nat \<Rightarrow> addr \<Rightarrow> u32 \<Rightarrow> 'a io_loop_scheme \<Rightarrow> 'a io_loop_scheme option) \<Rightarrow> 'a io_loop_scheme \<Rightarrow>
     (addr list \<times> 'a io_loop_scheme) option" where
  "uv__run_pending run l = pending_loop run (l\<lparr>pending_local := pending_queue l, pending_queue := []\<rparr>)"

section \<open>Polling\<close>

datatype epoll_op = EPOLL_CTL_ADD | EPOLL_CTL_MOD | EPOLL_CTL_DEL

text \<open>
  \<open>uv__epoll_ctl_prep\<close>: adding a known descriptor fails with EEXIST and is retried as a change,
  changing an unknown one aborts, deleting ignores errors.
\<close>

definition uv__epoll_ctl_prep :: "epoll_op \<Rightarrow> int \<Rightarrow> u32 \<Rightarrow> 'a io_loop_scheme \<Rightarrow> 'a io_loop_scheme option" where
  "uv__epoll_ctl_prep op fd events l =
     (case op of
        EPOLL_CTL_DEL \<Rightarrow> Some (l\<lparr>kernel := (kernel l)(fd := None)\<rparr>)
      | EPOLL_CTL_ADD \<Rightarrow> Some (l\<lparr>kernel := (kernel l)(fd := Some events)\<rparr>)
      | EPOLL_CTL_MOD \<Rightarrow>
          (if kernel l fd = None then None else Some (l\<lparr>kernel := (kernel l)(fd := Some events)\<rparr>)))"

text \<open>The first loop of \<open>uv__io_poll\<close>; it runs on \<open>length (watcher_queue l)\<close> watchers.\<close>

fun register_loop :: "addr list \<Rightarrow> 'a io_loop_scheme \<Rightarrow> 'a io_loop_scheme option" where
  "register_loop [] l = Some l"
| "register_loop (w # q) l =
     (let l = l\<lparr>watcher_queue := q\<rparr>;
          op = (if io_events (io l w) = 0 then EPOLL_CTL_ADD else EPOLL_CTL_MOD);
          l = set_io w ((io l w)\<lparr>io_events := io_pevents (io l w)\<rparr>) l
      in case uv__epoll_ctl_prep op (io_fd (io l w)) (io_pevents (io l w)) l of
           None \<Rightarrow> None
         | Some l \<Rightarrow> register_loop q l)"

definition wanted :: "u32 \<Rightarrow> u32 \<Rightarrow> u32" where
  "wanted events pevents =
     (let events = and events (or (or pevents POLLERR) POLLHUP)
      in if events = POLLERR \<or> events = POLLHUP
         then or events (and pevents io_mask) else events)"

text \<open>
  The loop over the events.  \<open>run\<close> is the effect of a callback, \<open>sw\<close> the signal watcher.  The
  result lists the callbacks with their events and the loop they were called on, whether the
  signal watcher has events, and the number of events delivered.
\<close>

fun dispatch :: "(nat \<Rightarrow> addr \<Rightarrow> u32 \<Rightarrow> 'a io_loop_scheme \<Rightarrow> 'a io_loop_scheme option) \<Rightarrow> addr \<Rightarrow> nat \<Rightarrow> nat \<Rightarrow>
    'a io_loop_scheme \<Rightarrow> ((addr \<times> u32 \<times> 'a io_loop_scheme) list \<times> bool \<times> nat \<times> 'a io_loop_scheme) option" where
  "dispatch run sw 0 i l = Some ([], False, 0, l)"
| "dispatch run sw (Suc n) i l = do {
     evs \<leftarrow> inv l;
     let (fd, events) = evs ! i;
     if fd = - 1 then dispatch run sw n (i + 1) l
     else if fd < 0 \<or> fd \<ge> uint (nwatchers l) then None
     else case watchers l ! nat fd of
       None \<Rightarrow> do {
         l \<leftarrow> uv__epoll_ctl_prep EPOLL_CTL_DEL fd events l;
         dispatch run sw n (i + 1) l
       }
     | Some w \<Rightarrow>
         (let events = wanted events (io_pevents (io l w))
          in if events = 0 then dispatch run sw n (i + 1) l
             else if w = sw then do {
               (tr, sig, nev, l) \<leftarrow> dispatch run sw n (i + 1) l;
               Some (tr, True, nev + 1, l)
             }
             else do {
               l' \<leftarrow> run (io_cb (io l w)) w events l;
               (tr, sig, nev, l'') \<leftarrow> dispatch run sw n (i + 1) l';
               Some ((w, events, l) # tr, sig, nev + 1, l'')
             })
   }"

text \<open>One answer of \<open>epoll_pwait\<close>: an interruption by a signal, or the events (none on a timeout).\<close>

datatype pwait = EINTR | Events "(int \<times> u32) list"

text \<open>\<open>real_timeout -= (loop->time - base)\<close>, computed in 64 bits and stored in an int.\<close>

definition sub_elapsed :: "int \<Rightarrow> u64 \<Rightarrow> u64 \<Rightarrow> int" where
  "sub_elapsed real_timeout now base = sint (ucast (of_int real_timeout - (now - base)) :: u32)"

text \<open>
  The label \<open>update_timeout\<close>: the timeout of the next wait and the time that is left, or \<open>None\<close>
  for the \<open>break\<close>.
\<close>

definition update_timeout :: "int \<Rightarrow> int \<Rightarrow> u64 \<Rightarrow> u64 \<Rightarrow> (int \<times> int) option" where
  "update_timeout timeout real_timeout now base =
     (if timeout = 0 then None
      else if timeout = - 1 then Some (timeout, real_timeout)
      else let real_timeout = sub_elapsed real_timeout now base
           in if real_timeout \<le> 0 then None else Some (real_timeout, real_timeout))"

text \<open>
  One round of the second loop: what \<open>epoll_pwait\<close> answered and the clock after it are given.
  \<open>reset\<close> is the requested timeout while idle times are measured (the first wait then does not
  block).  The result has the callbacks, the loop, and the timeout, time left, \<open>reset\<close> and count
  of the next round, if there is one.
\<close>

definition poll_round ::
    "(nat \<Rightarrow> addr \<Rightarrow> u32 \<Rightarrow> 'a io_loop_scheme \<Rightarrow> 'a io_loop_scheme option) \<Rightarrow> addr \<Rightarrow> u64 \<Rightarrow> pwait \<Rightarrow> u64 \<Rightarrow>
     int \<Rightarrow> int \<Rightarrow> int option \<Rightarrow> nat \<Rightarrow> 'a io_loop_scheme \<Rightarrow>
     ((addr \<times> u32 \<times> 'a io_loop_scheme) list \<times> 'a io_loop_scheme \<times> (int \<times> int \<times> int option \<times> nat) option) option" where
  "poll_round run sw now answer base timeout real_timeout reset tries l =
     (let l = l\<lparr>time := now\<rparr>;
          next = (\<lambda>timeout l. map_option (\<lambda>(t, r). (t, r, None, tries)) (update_timeout timeout real_timeout (time l) base))
      in case answer of
        EINTR \<Rightarrow> Some ([], l, next (case reset of Some t \<Rightarrow> t | None \<Rightarrow> timeout) l)
      | Events [] \<Rightarrow>
          (if timeout = - 1 then None
           else case reset of
             Some t \<Rightarrow> Some ([], l, next t l)
           | None \<Rightarrow> Some ([], l, None))
      | Events evs \<Rightarrow> do {
          (tr, sig, nev, l) \<leftarrow> dispatch run sw (length evs) 0 (l\<lparr>inv := Some evs\<rparr>);
          let timeout = (case reset of Some t \<Rightarrow> t | None \<Rightarrow> timeout);
          if sig then do {
            l' \<leftarrow> run (io_cb (io l sw)) sw POLLIN l;
            Some (tr @ [(sw, POLLIN, l)], l'\<lparr>inv := None\<rparr>, None)
          }
          else do {
            let l = l\<lparr>inv := None\<rparr>;
            Some (tr, l,
              if nev \<noteq> 0 then
                (if length evs = 1024 \<and> tries - 1 \<noteq> 0 then Some (0, real_timeout, None, tries - 1) else None)
              else next timeout l)
          }
        })"

text \<open>
  The loop: \<open>env k\<close> is the clock after the \<open>k\<close>th wait and its answer, given its timeout.  The
  result has the callbacks, the timeouts waited with, and the number of the next wait.
\<close>

partial_function (option) poll_loop ::
    "(nat \<Rightarrow> addr \<Rightarrow> u32 \<Rightarrow> 'a io_loop_scheme \<Rightarrow> 'a io_loop_scheme option) \<Rightarrow> addr \<Rightarrow>
     (nat \<Rightarrow> int \<Rightarrow> u64 \<times> pwait) \<Rightarrow> u64 \<Rightarrow> nat \<Rightarrow> int \<Rightarrow> int \<Rightarrow> int option \<Rightarrow> nat \<Rightarrow> 'a io_loop_scheme \<Rightarrow>
     ((addr \<times> u32 \<times> 'a io_loop_scheme) list \<times> int list \<times> nat \<times> 'a io_loop_scheme) option" where
  "poll_loop run sw env base k timeout real_timeout reset tries l =
     (if nfds l = 0 then Some ([], [], k, l)
      else Option.bind
             (poll_round run sw (fst (env k timeout)) (snd (env k timeout)) base timeout real_timeout reset tries l)
             (\<lambda>(tr, l, nxt).
               case nxt of
                 None \<Rightarrow> Some (tr, [timeout], k + 1, l)
               | Some (t, r, reset, tries) \<Rightarrow>
                   Option.bind (poll_loop run sw env base (k + 1) t r reset tries l)
                     (\<lambda>(tr', waits, k, l). Some (tr @ tr', timeout # waits, k, l))))"

definition uv__io_poll ::
    "(nat \<Rightarrow> addr \<Rightarrow> u32 \<Rightarrow> 'a io_loop_scheme \<Rightarrow> 'a io_loop_scheme option) \<Rightarrow> addr \<Rightarrow>
     (nat \<Rightarrow> int \<Rightarrow> u64 \<times> pwait) \<Rightarrow> bool \<Rightarrow> nat \<Rightarrow> int \<Rightarrow> 'a io_loop_scheme \<Rightarrow>
     ((addr \<times> u32 \<times> 'a io_loop_scheme) list \<times> int list \<times> nat \<times> 'a io_loop_scheme) option" where
  "uv__io_poll run sw env idle_time k timeout l =
     (if timeout < - 1 then None
      else Option.bind (register_loop (watcher_queue l) l) (\<lambda>l.
             if idle_time then poll_loop run sw env (time l) k 0 timeout (Some timeout) 48 l
             else poll_loop run sw env (time l) k timeout timeout None 48 l))"

declare poll_loop.simps [code]

section \<open>Powers of two\<close>

lemma smear_step:
  assumes "\<And>i. bit a i \<longleftrightarrow> (\<exists>j<n. bit (w :: u32) (i + j))" and "m = 2 * n"
  shows "bit (or a (drop_bit n a)) i \<longleftrightarrow> (\<exists>j<m. bit w (i + j))"
proof -
  have "bit (or a (drop_bit n a)) i \<longleftrightarrow> (\<exists>j<n. bit w (i + j)) \<or> (\<exists>j<n. bit w (n + i + j))"
    by (simp add: bit_or_iff bit_drop_bit_eq assms(1))
  also have "\<dots> \<longleftrightarrow> (\<exists>j<m. bit w (i + j))"
  proof
    assume "(\<exists>j<n. bit w (i + j)) \<or> (\<exists>j<n. bit w (n + i + j))"
    then show "\<exists>j<m. bit w (i + j)"
    proof
      assume "\<exists>j<n. bit w (n + i + j)"
      then obtain j where "j < n" "bit w (n + i + j)" by blast
      then have "n + j < m \<and> bit w (i + (n + j))" using assms(2) by (simp add: add.assoc add.left_commute)
      then show ?thesis by blast
    next
      assume "\<exists>j<n. bit w (i + j)"
      then obtain j where "j < n" "bit w (i + j)" by blast
      then have "j < m \<and> bit w (i + j)" using assms(2) by simp
      then show ?thesis by blast
    qed
  next
    assume "\<exists>j<m. bit w (i + j)"
    then obtain j where j: "j < m" "bit w (i + j)" by blast
    show "(\<exists>j<n. bit w (i + j)) \<or> (\<exists>j<n. bit w (n + i + j))"
    proof (cases "j < n")
      case False
      then have "j - n < n \<and> bit w (n + i + (j - n))" using j assms(2) by (simp add: add.commute add.left_commute)
      then show ?thesis by blast
    qed (use j in auto)
  qed
  finally show ?thesis .
qed

lemma next_power_of_two_exact:
  assumes "1 \<le> unat val" and "unat val \<le> 2 ^ 31"
  shows "\<exists>k\<le>31. unat (next_power_of_two val) = 2 ^ k \<and> unat val \<le> 2 ^ k \<and> 2 ^ k < 2 * unat val"
proof -
  define w where "w = val - 1"
  have "val \<noteq> 0" using assms(1) by auto
  then have w: "unat w = unat val - 1" using unat_sub_one [of val] by (simp add: w_def)
  define v1 where "v1 = or w (drop_bit 1 w)"
  define v2 where "v2 = or v1 (drop_bit 2 v1)"
  define v3 where "v3 = or v2 (drop_bit 4 v2)"
  define v4 where "v4 = or v3 (drop_bit 8 v3)"
  define s where "s = or v4 (drop_bit 16 v4)"
  have np: "next_power_of_two val = s + 1"
    by (simp add: next_power_of_two_def s_def v1_def v2_def v3_def v4_def w_def Let_def)
  have "bit w i \<longleftrightarrow> (\<exists>j<1. bit w (i + j))" for i by simp
  then have "bit v1 i \<longleftrightarrow> (\<exists>j<2. bit w (i + j))" for i unfolding v1_def by (rule smear_step) simp
  then have "bit v2 i \<longleftrightarrow> (\<exists>j<4. bit w (i + j))" for i unfolding v2_def by (rule smear_step) simp
  then have "bit v3 i \<longleftrightarrow> (\<exists>j<8. bit w (i + j))" for i unfolding v3_def by (rule smear_step) simp
  then have "bit v4 i \<longleftrightarrow> (\<exists>j<16. bit w (i + j))" for i unfolding v4_def by (rule smear_step) simp
  then have bits: "bit s i \<longleftrightarrow> (\<exists>j<32. bit w (i + j))" for i unfolding s_def by (rule smear_step) simp
  show ?thesis
  proof (cases "w = 0")
    case True
    then have "s = 0" by (simp add: s_def v1_def v2_def v3_def v4_def)
    moreover have "unat val = 1" using True w assms(1) by simp
    ultimately show ?thesis using np by (intro exI [of _ 0]) simp
  next
    case False
    define k where "k = Max {i. bit w i}"
    have fin: "finite {i. bit w i}" by (rule finite_subset [of _ "{..<32}"]) (auto dest: bit_imp_le_length)
    have ne: "{i. bit w i} \<noteq> {}" using False bit_word_eqI [of w 0] by auto
    have "k \<in> {i. bit w i}" unfolding k_def by (rule Max_in [OF fin ne])
    then have k1: "bit w k" by simp
    have k2: "i \<le> k" if "bit w i" for i unfolding k_def by (rule Max_ge [OF fin]) (use that in simp)
    have lo: "2 ^ k \<le> unat w"
    proof (rule ccontr)
      assume "\<not> 2 ^ k \<le> unat w"
      then show False using high_bits [of w k k] k1 by simp
    qed
    have "take_bit (Suc k) w = w" by (rule bit_eqI) (use k2 in \<open>auto simp: bit_take_bit_iff less_Suc_eq_le\<close>)
    then have "unat w = take_bit (Suc k) (unat w)" using unsigned_take_bit_eq [of "Suc k" w, where 'a = nat] by (simp only:)
    then have hi: "unat w < 2 ^ Suc k" using take_bit_nat_less_exp [of "Suc k" "unat w"] by (simp only:)
    have "bit s i \<longleftrightarrow> i \<le> k" for i
    proof
      assume "i \<le> k"
      moreover have "k < 32" using bit_imp_le_length [OF k1] by simp
      ultimately show "bit s i" unfolding bits using k1 by (intro exI [of _ "k - i"]) auto
    qed (use k2 in \<open>auto simp: bits intro: order_trans [OF le_add1]\<close>)
    then have "s = mask (Suc k)"
      by (intro bit_word_eqI) (simp add: bit_mask_iff less_Suc_eq_le)
    then have s1: "s + 1 = 2 ^ Suc k" unfolding mask_eq_exp_minus_1 by (simp only: diff_add_cancel)
    have k31: "Suc k \<le> 31"
    proof -
      have "2 ^ k < (2 :: nat) ^ 31" using lo w assms by simp
      then have "k < 31" by (rule power_less_imp_less_exp [rotated]) simp
      then show ?thesis by simp
    qed
    have "(2 :: nat) ^ Suc k < 2 ^ 32" by (rule power_strict_increasing) (use k31 in auto)
    then have "unat (of_nat (2 ^ Suc k) :: u32) = 2 ^ Suc k"
      by (simp only: unsigned_of_nat) (simp add: take_bit_nat_eq_self)
    then have "unat (2 ^ Suc k :: u32) = 2 ^ Suc k" by (simp only: of_nat_power of_nat_numeral)
    then have "unat (next_power_of_two val) = 2 ^ Suc k" by (simp only: np s1)
    moreover have "unat val \<le> 2 ^ Suc k" using hi w by simp
    moreover have "2 ^ Suc k < 2 * unat val" using lo w assms(1) by simp
    ultimately show ?thesis using k31 by blast
  qed
qed

section \<open>The invariant\<close>

definition table_size :: "'a io_loop_scheme \<Rightarrow> nat" where
  "table_size l = unat (nwatchers l)"

definition registered :: "'a io_loop_scheme \<Rightarrow> nat" where
  "registered l = length (filter (\<lambda>p. p \<noteq> None) (take (table_size l) (watchers l)))"

text \<open>
  The table maps a descriptor to the watcher with a non-empty mask on it, and the counter counts
  its entries; the queue holds watchers with a mask, among them all whose mask the kernel has not
  been told; the kernel's mask of a watcher is the one last told; all known descriptors are inside
  the table.
\<close>

definition io_ok :: "'a io_loop_scheme \<Rightarrow> bool" where
  "io_ok l \<longleftrightarrow>
     (watchers l = [] \<and> table_size l = 0 \<or> length (watchers l) = table_size l + 2) \<and> table_size l + 2 \<le> 2 ^ 31 \<and>
     nfds l = of_nat (registered l) \<and>
     (\<forall>fd w. fd < table_size l \<longrightarrow> watchers l ! fd = Some w \<longrightarrow> io_fd (io l w) = int fd \<and> io_pevents (io l w) \<noteq> 0) \<and>
     (\<forall>w. io_pevents (io l w) \<noteq> 0 \<longrightarrow>
        0 \<le> io_fd (io l w) \<and> io_fd (io l w) < int (table_size l) \<and> watchers l ! nat (io_fd (io l w)) = Some w) \<and>
     distinct (watcher_queue l) \<and> (\<forall>w\<in>set (watcher_queue l). io_pevents (io l w) \<noteq> 0) \<and>
     (\<forall>w. io_events (io l w) \<noteq> 0 \<longrightarrow> io_pevents (io l w) \<noteq> 0 \<and> kernel l (io_fd (io l w)) = Some (io_events (io l w))) \<and>
     (\<forall>w. io_pevents (io l w) \<noteq> io_events (io l w) \<longrightarrow> w \<in> set (watcher_queue l)) \<and>
     (\<forall>fd. kernel l fd \<noteq> None \<longrightarrow> 0 \<le> fd \<and> fd < int (table_size l)) \<and>
     (\<forall>evs. inv l = Some evs \<longrightarrow> (\<forall>(fd, e)\<in>set evs. fd = - 1 \<or> 0 \<le> fd \<and> fd < int (table_size l)))"

lemma io_okD:
  assumes "io_ok l"
  shows io_ok_table: "watchers l = [] \<and> table_size l = 0 \<or> length (watchers l) = table_size l + 2"
    and io_ok_size: "table_size l + 2 \<le> 2 ^ 31"
    and io_ok_nfds: "nfds l = of_nat (registered l)"
    and io_ok_entry: "fd < table_size l \<Longrightarrow> watchers l ! fd = Some w \<Longrightarrow> io_fd (io l w) = int fd \<and> io_pevents (io l w) \<noteq> 0"
    and io_ok_active: "io_pevents (io l w) \<noteq> 0 \<Longrightarrow>
        0 \<le> io_fd (io l w) \<and> io_fd (io l w) < int (table_size l) \<and> watchers l ! nat (io_fd (io l w)) = Some w"
    and io_ok_distinct: "distinct (watcher_queue l)"
    and io_ok_queued: "w \<in> set (watcher_queue l) \<Longrightarrow> io_pevents (io l w) \<noteq> 0"
    and io_ok_told: "io_events (io l w) \<noteq> 0 \<Longrightarrow> io_pevents (io l w) \<noteq> 0 \<and> kernel l (io_fd (io l w)) = Some (io_events (io l w))"
    and io_ok_queue: "io_pevents (io l w) \<noteq> io_events (io l w) \<Longrightarrow> w \<in> set (watcher_queue l)"
    and io_ok_kernel: "kernel l fd' \<noteq> None \<Longrightarrow> 0 \<le> fd' \<and> fd' < int (table_size l)"
    and io_ok_inv: "inv l = Some evs \<Longrightarrow> (fd', e) \<in> set evs \<Longrightarrow> fd' = - 1 \<or> 0 \<le> fd' \<and> fd' < int (table_size l)"
  using assms unfolding io_ok_def by (blast | fastforce)+

lemma io_okI:
  assumes "watchers l = [] \<and> table_size l = 0 \<or> length (watchers l) = table_size l + 2"
    and "table_size l + 2 \<le> 2 ^ 31"
    and "nfds l = of_nat (registered l)"
    and "\<And>fd w. fd < table_size l \<Longrightarrow> watchers l ! fd = Some w \<Longrightarrow> io_fd (io l w) = int fd \<and> io_pevents (io l w) \<noteq> 0"
    and "\<And>w. io_pevents (io l w) \<noteq> 0 \<Longrightarrow>
        0 \<le> io_fd (io l w) \<and> io_fd (io l w) < int (table_size l) \<and> watchers l ! nat (io_fd (io l w)) = Some w"
    and "distinct (watcher_queue l)"
    and "\<And>w. w \<in> set (watcher_queue l) \<Longrightarrow> io_pevents (io l w) \<noteq> 0"
    and "\<And>w. io_events (io l w) \<noteq> 0 \<Longrightarrow> io_pevents (io l w) \<noteq> 0 \<and> kernel l (io_fd (io l w)) = Some (io_events (io l w))"
    and "\<And>w. io_pevents (io l w) \<noteq> io_events (io l w) \<Longrightarrow> w \<in> set (watcher_queue l)"
    and "\<And>fd. kernel l fd \<noteq> None \<Longrightarrow> 0 \<le> fd \<and> fd < int (table_size l)"
    and "\<And>evs fd e. inv l = Some evs \<Longrightarrow> (fd, e) \<in> set evs \<Longrightarrow> fd = - 1 \<or> 0 \<le> fd \<and> fd < int (table_size l)"
  shows "io_ok l"
  unfolding io_ok_def using assms by fast

lemma registered_le: "registered l \<le> table_size l"
  unfolding registered_def by (rule order_trans [OF length_filter_le]) simp

lemma set_io_simps [simp]:
  "io (set_io w x l) = (io l)(w := x)" "watchers (set_io w x l) = watchers l" "nwatchers (set_io w x l) = nwatchers l"
  "nfds (set_io w x l) = nfds l" "watcher_queue (set_io w x l) = watcher_queue l"
  "pending_queue (set_io w x l) = pending_queue l" "pending_local (set_io w x l) = pending_local l" "kernel (set_io w x l) = kernel l" "inv (set_io w x l) = inv l"
  "mem_ok (set_io w x l) = mem_ok l" "table_size (set_io w x l) = table_size l" "registered (set_io w x l) = registered l"
  by (simp_all add: set_io_def table_size_def registered_def)

lemma io_views [simp]:
  "table_size (l\<lparr>watcher_queue := q\<rparr>) = table_size l" "registered (l\<lparr>watcher_queue := q\<rparr>) = registered l"
  "table_size (l\<lparr>pending_queue := q\<rparr>) = table_size l" "registered (l\<lparr>pending_queue := q\<rparr>) = registered l"
  "table_size (l\<lparr>pending_local := q\<rparr>) = table_size l" "registered (l\<lparr>pending_local := q\<rparr>) = registered l"
  "table_size (l\<lparr>kernel := k\<rparr>) = table_size l" "registered (l\<lparr>kernel := k\<rparr>) = registered l"
  "table_size (l\<lparr>inv := i\<rparr>) = table_size l" "registered (l\<lparr>inv := i\<rparr>) = registered l"
  "table_size (l\<lparr>time := t\<rparr>) = table_size l" "registered (l\<lparr>time := t\<rparr>) = registered l"
  "table_size (l\<lparr>watchers := ws, nfds := n\<rparr>) = table_size l"
  by (simp_all add: table_size_def registered_def)

text \<open>Growing the table.\<close>

definition memory :: "'a io_loop_scheme \<Rightarrow> bool" where
  "memory l \<longleftrightarrow> (\<forall>n. mem_ok l n)"

lemma maybe_resize_grows:
  assumes "watchers l = [] \<and> table_size l = 0 \<or> length (watchers l) = table_size l + 2"
    and "table_size l + 2 \<le> 2 ^ 31" and "unat len + 2 \<le> 2 ^ 31" and "memory l"
  shows "\<exists>ws n. maybe_resize len l = Some (l\<lparr>watchers := ws, nwatchers := n\<rparr>) \<and> unat len \<le> unat n \<and> table_size l \<le> unat n \<and>
    unat n + 2 \<le> 2 ^ 31 \<and> (ws = [] \<and> unat n = 0 \<or> length ws = unat n + 2) \<and>
    (\<forall>fd < table_size l. ws ! fd = watchers l ! fd) \<and> (\<forall>fd < unat n. table_size l \<le> fd \<longrightarrow> ws ! fd = None) \<and>
    length (filter (\<lambda>p. p \<noteq> None) (take (unat n) ws)) = registered l"
proof (cases "len \<le> nwatchers l")
  case True
  then have "maybe_resize len l = Some (l\<lparr>watchers := watchers l, nwatchers := nwatchers l\<rparr>)"
    by (simp add: maybe_resize_def)
  then show ?thesis using True assms(1,2)
    by (intro exI conjI) (auto simp: table_size_def registered_def word_le_nat_alt)
next
  case False
  have l2: "unat (len + 2) = unat len + 2" using assms(3) by (simp add: unat_word_ariths)
  obtain k where k: "k \<le> 31" "unat (next_power_of_two (len + 2)) = 2 ^ k" "unat len + 2 \<le> 2 ^ k"
    using next_power_of_two_exact [of "len + 2"] l2 assms(3) by auto
  define n where "n = next_power_of_two (len + 2) - 2"
  have n: "unat n = 2 ^ k - 2" unfolding n_def using k by (subst unat_sub) (auto simp: word_le_nat_alt)
  have "(2::nat) ^ k \<le> 2 ^ 31" using k(1) by (rule power_increasing) simp
  then have b: "unat n + 2 \<le> 2 ^ 31" using n k(3) by linarith
  have len: "unat len \<le> unat n" using n k(3) by simp
  then have tn: "table_size l \<le> unat n" using False by (simp add: table_size_def word_le_nat_alt)
  define fake where "fake = (if watchers l \<noteq> [] then [watchers l ! unat (nwatchers l), watchers l ! unat (nwatchers l + 1)]
    else [None, None])"
  then have f: "length fake = 2" by simp
  have r: "maybe_resize len l = Some (l\<lparr>watchers := take (table_size l) (watchers l) @
      replicate (unat n - table_size l) None @ fake, nwatchers := n\<rparr>)"
    using False assms(4) by (simp add: maybe_resize_def Let_def n_def table_size_def memory_def fake_def)
  let ?ws = "take (table_size l) (watchers l) @ replicate (unat n - table_size l) None @ fake"
  have t: "length (take (table_size l) (watchers l)) = table_size l" using assms(1) by auto
  have "take (unat n) ?ws = take (table_size l) (watchers l) @ replicate (unat n - table_size l) None"
    using t tn by (simp only: take_append) simp
  then have "filter (\<lambda>p. p \<noteq> None) (take (unat n) ?ws) = filter (\<lambda>p. p \<noteq> None) (take (table_size l) (watchers l))"
    by simp
  moreover have "\<forall>fd < table_size l. ?ws ! fd = watchers l ! fd" using t by (simp add: nth_append)
  moreover have "\<forall>fd < unat n. table_size l \<le> fd \<longrightarrow> ?ws ! fd = None" using t by (auto simp: nth_append)
  moreover have "length ?ws = unat n + 2" using t tn f by simp
  ultimately show ?thesis using r b len tn unfolding registered_def by (intro exI conjI) auto
qed

lemma count_update:
  assumes "i < length ps" and "ps ! i = None"
  shows "length (filter (\<lambda>p. p \<noteq> None) (ps[i := Some w])) = Suc (length (filter (\<lambda>p. p \<noteq> None) ps))"
  using assms by (induction ps arbitrary: i) (auto simp: nth_Cons split: nat.splits)

lemma count_clear:
  assumes "i < length ps" and "ps ! i \<noteq> None"
  shows "Suc (length (filter (\<lambda>p. p \<noteq> None) (ps[i := None]))) = length (filter (\<lambda>p. p \<noteq> None) ps)"
  using assms by (induction ps arbitrary: i) (auto simp: nth_Cons split: nat.splits)

text \<open>Starting.\<close>

definition can_start :: "addr \<Rightarrow> u32 \<Rightarrow> 'a io_loop_scheme \<Rightarrow> bool" where
  "can_start w events l \<longleftrightarrow> valid_events events \<and> 0 \<le> io_fd (io l w) \<and> io_fd (io l w) + 3 \<le> 2 ^ 31 \<and>
     (\<forall>w'. io_pevents (io l w') \<noteq> 0 \<longrightarrow> io_fd (io l w') = io_fd (io l w) \<longrightarrow> w' = w)"

definition same_io :: "'a io_loop_scheme \<Rightarrow> 'a io_loop_scheme \<Rightarrow> bool" where
  "same_io l l' \<longleftrightarrow> table_size l \<le> table_size l' \<and> mem_ok l' = mem_ok l \<and>
     map_option length (inv l') = map_option length (inv l) \<and> (\<forall>w. io_fd (io l' w) = io_fd (io l w))"

lemma or_nonzero: "valid_events events \<Longrightarrow> or p events \<noteq> (0 :: u32)"
  by (metis or.left_idem or_eq_0_iff valid_events_def)

lemma io_start_ok:
  assumes "io_ok l" and "memory l" and "can_start w events l"
  shows "\<exists>l'. uv__io_start w events l = Some l' \<and> io_ok l' \<and> same_io l l' \<and> pending_queue l' = pending_queue l \<and> pending_local l' = pending_local l \<and> inv l' = inv l \<and>
    io l' = (io l)(w := (io l w)\<lparr>io_pevents := or (io_pevents (io l w)) events\<rparr>)"
proof -
  let ?p = "or (io_pevents (io l w)) events" and ?fd = "io_fd (io l w)"
  let ?x = "(io l w)\<lparr>io_pevents := ?p\<rparr>"
  define l1 where "l1 = set_io w ?x l"
  have p: "?p \<noteq> 0" using or_nonzero assms(3) by (simp add: can_start_def)
  have fd: "valid_events events" "0 \<le> ?fd" "?fd + 3 \<le> 2 ^ 31" using assms(3) by (auto simp: can_start_def)
  have u: "unat (of_int ?fd + 1 :: u32) = nat ?fd + 1"
  proof -
    have "of_int ?fd + 1 = (of_nat (nat ?fd + 1) :: u32)" using fd(2) by simp
    then show ?thesis using fd by (simp only: unsigned_of_nat) (simp add: take_bit_nat_eq_self)
  qed
  have "unat (of_int ?fd + 1 :: u32) + 2 \<le> 2 ^ 31" unfolding u using fd by simp
  moreover have "watchers l1 = [] \<and> table_size l1 = 0 \<or> length (watchers l1) = table_size l1 + 2" "table_size l1 + 2 \<le> 2 ^ 31"
    "memory l1" using io_ok_table [OF assms(1)] io_ok_size [OF assms(1)] assms(2) by (simp_all add: l1_def memory_def)
  ultimately obtain ws n where g: "maybe_resize (of_int ?fd + 1) l1 = Some (l1\<lparr>watchers := ws, nwatchers := n\<rparr>)"
    "unat (of_int ?fd + 1 :: u32) \<le> unat n" "table_size l1 \<le> unat n" "unat n + 2 \<le> 2 ^ 31" "ws = [] \<and> unat n = 0 \<or> length ws = unat n + 2"
    "\<forall>fd < table_size l1. ws ! fd = watchers l1 ! fd" "\<forall>fd < unat n. table_size l1 \<le> fd \<longrightarrow> ws ! fd = None"
    "length (filter (\<lambda>p. p \<noteq> None) (take (unat n) ws)) = registered l1"
    using maybe_resize_grows [of l1 "of_int ?fd + 1"] by blast
  then have r: "maybe_resize (of_int ?fd + 1) l1 = Some (l1\<lparr>watchers := ws, nwatchers := n\<rparr>)"
    "nat ?fd < unat n" "table_size l \<le> unat n" "unat n + 2 \<le> 2 ^ 31" "ws = [] \<and> unat n = 0 \<or> length ws = unat n + 2"
    "\<And>fd. fd < table_size l \<Longrightarrow> ws ! fd = watchers l ! fd" "\<And>fd. fd < unat n \<Longrightarrow> table_size l \<le> fd \<Longrightarrow> ws ! fd = None"
    "length (filter (\<lambda>p. p \<noteq> None) (take (unat n) ws)) = registered l"
    unfolding u by (simp_all add: l1_def)
  define N where "N = unat n"
  note r = r [folded N_def]
  define q where "q = (if w \<in> set (watcher_queue l) then watcher_queue l else watcher_queue l @ [w])"
  define l2 where "l2 = l1\<lparr>watchers := ws, nwatchers := n\<rparr>"
  define l3 where "l3 = l2\<lparr>watcher_queue := q\<rparr>"
  have lw: "length ws = N + 2" using r(2,5) by auto
  have entry: "io_fd (io l w') = int fd \<and> io_pevents (io l w') \<noteq> 0" if "fd < N" "ws ! fd = Some w'" for fd w'
    using that r(6,7) io_ok_entry [OF assms(1)] by (cases "fd < table_size l") auto
  have act: "0 \<le> io_fd (io l w') \<and> io_fd (io l w') < int (N) \<and> ws ! nat (io_fd (io l w')) = Some w'"
    if "io_pevents (io l w') \<noteq> 0" for w'
    using io_ok_active [OF assms(1) that] r(3) r(6) [of "nat (io_fd (io l w'))"] by auto
  have slot: "ws ! nat ?fd = None \<or> ws ! nat ?fd = Some w"
    using entry [OF r(2)] assms(3) fd(2) by (cases "ws ! nat ?fd") (auto simp: can_start_def)
  have nofree: "io_pevents (io l w) = 0" if "ws ! nat ?fd = None" using act [of w] that by auto
  have s: "uv__io_start w events l = (if io_events (io l w) = ?p then Some l2
      else Some (if ws ! nat ?fd = None then l3\<lparr>watchers := ws[nat ?fd := Some w], nfds := nfds l + 1\<rparr> else l3))"
    using fd r(1) by (simp add: uv__io_start_def Let_def l1_def l2_def l3_def q_def INT_MAX_int_def)
  have mono: "io_pevents (io l2 w') \<noteq> 0" if "io_pevents (io l w') \<noteq> 0" for w'
    using that p by (simp add: l2_def l1_def)
  have io2: "io l2 = (io l)(w := ?x)" by (simp add: l2_def l1_def)
  have kern: "kernel l fd' \<noteq> None \<Longrightarrow> 0 \<le> fd' \<and> fd' < int (N)" for fd'
    using io_ok_kernel [OF assms(1)] r(3) by fastforce
  have invs: "inv l = Some evs \<Longrightarrow> (fd', e) \<in> set evs \<Longrightarrow> fd' = - 1 \<or> 0 \<le> fd' \<and> fd' < int (N)" for evs fd' e
    using io_ok_inv [OF assms(1)] r(3) by fastforce
  have nf: "nfds l = of_nat (length (filter (\<lambda>p. p \<noteq> None) (take (N) ws)))" using r(8) io_ok_nfds [OF assms(1)] by simp
  show ?thesis
  proof (cases "io_events (io l w) = ?p")
    case True
    then have "io_events (io l w) \<noteq> 0" using p by simp
    then have pw: "io_pevents (io l w) \<noteq> 0" using io_ok_told [OF assms(1)] by blast
    have "io_ok l2"
    proof (rule io_okI)
      show "io_fd (io l2 w') = int fd \<and> io_pevents (io l2 w') \<noteq> 0" if "fd < table_size l2" "watchers l2 ! fd = Some w'" for fd w'
        using entry [of fd w'] that p unfolding io2 by (auto simp: l2_def table_size_def N_def [symmetric])
      show "0 \<le> io_fd (io l2 w') \<and> io_fd (io l2 w') < int (table_size l2) \<and> watchers l2 ! nat (io_fd (io l2 w')) = Some w'"
        if "io_pevents (io l2 w') \<noteq> 0" for w'
        using act [of w'] act [OF pw] that unfolding io2 by (auto simp: l2_def table_size_def N_def [symmetric] split: if_splits)
      show "w' \<in> set (watcher_queue l2)" if "io_pevents (io l2 w') \<noteq> io_events (io l2 w')" for w'
        using io_ok_queue [OF assms(1), of w'] that True unfolding io2 by (auto simp: l2_def l1_def split: if_splits)
      show "io_pevents (io l2 w') \<noteq> 0 \<and> kernel l2 (io_fd (io l2 w')) = Some (io_events (io l2 w'))"
        if "io_events (io l2 w') \<noteq> 0" for w'
        using io_ok_told [OF assms(1), of w'] that p unfolding io2 by (auto simp: l2_def l1_def split: if_splits)
      show "io_pevents (io l2 w') \<noteq> 0" if "w' \<in> set (watcher_queue l2)" for w'
        using io_ok_queued [OF assms(1), of w'] that p unfolding io2 by (auto simp: l2_def l1_def)
    qed (use lw r(4) nf io_ok_distinct [OF assms(1)] kern invs in
        \<open>auto simp: l2_def l1_def table_size_def N_def [symmetric] registered_def\<close>)
    then show ?thesis using True s io2 r(3) by (auto simp: same_io_def l2_def l1_def table_size_def N_def [symmetric])
  next
    case False
    show ?thesis
    proof (cases "ws ! nat ?fd = None")
      case free: True
      let ?l = "l3\<lparr>watchers := ws[nat ?fd := Some w], nfds := nfds l + 1\<rparr>"
      have "length (filter (\<lambda>p. p \<noteq> None) ((take (N) ws)[nat ?fd := Some w])) = Suc (registered l)"
        using count_update [of "nat ?fd" "take (N) ws" w] free lw r(2,8) by simp
      then have "length (filter (\<lambda>p. p \<noteq> None) (take (N) (ws[nat ?fd := Some w]))) = Suc (registered l)"
        by (simp add: take_update_swap)
      then have reg: "registered ?l = Suc (registered l)" by (simp add: l3_def l2_def registered_def table_size_def N_def [symmetric])
      have other: "io_fd (io l w') \<noteq> ?fd" if "w' \<noteq> w" "io_pevents (io l w') \<noteq> 0" for w'
        using assms(3) that by (auto simp: can_start_def)
      have iol: "io ?l = (io l)(w := ?x)" by (simp add: l3_def io2)
      have "io_ok ?l"
      proof (rule io_okI)
        show "io_fd (io ?l w') = int fd \<and> io_pevents (io ?l w') \<noteq> 0" if "fd < table_size ?l" "watchers ?l ! fd = Some w'" for fd w'
          using entry [of fd w'] that p fd(2) lw r(2) unfolding iol
          by (auto simp: l3_def l2_def table_size_def N_def [symmetric] nth_list_update split: if_splits)
        show "0 \<le> io_fd (io ?l w') \<and> io_fd (io ?l w') < int (table_size ?l) \<and> watchers ?l ! nat (io_fd (io ?l w')) = Some w'"
          if "io_pevents (io ?l w') \<noteq> 0" for w'
          using act [of w'] other [of w'] that r(2) lw fd(2) unfolding iol
          by (auto simp: l3_def l2_def table_size_def N_def [symmetric] nth_list_update eq_nat_nat_iff split: if_splits)
        show "w' \<in> set (watcher_queue ?l)" if "io_pevents (io ?l w') \<noteq> io_events (io ?l w')" for w'
          using io_ok_queue [OF assms(1), of w'] that unfolding iol by (auto simp: l3_def q_def split: if_splits)
        show "io_pevents (io ?l w') \<noteq> 0 \<and> kernel ?l (io_fd (io ?l w')) = Some (io_events (io ?l w'))"
          if "io_events (io ?l w') \<noteq> 0" for w'
          using io_ok_told [OF assms(1), of w'] that p unfolding iol by (auto simp: l3_def l2_def l1_def split: if_splits)
        show "io_pevents (io ?l w') \<noteq> 0" if "w' \<in> set (watcher_queue ?l)" for w'
          using io_ok_queued [OF assms(1), of w'] that p unfolding iol by (auto simp: l3_def q_def split: if_splits)
        show "nfds ?l = of_nat (registered ?l)"
          unfolding reg using io_ok_nfds [OF assms(1)] by (simp add: l3_def l2_def l1_def)
      qed (use lw r(4) io_ok_distinct [OF assms(1)] kern invs in \<open>auto simp: l3_def l2_def l1_def q_def table_size_def N_def [symmetric]\<close>)
      then show ?thesis using False free s r(3) by (auto simp: same_io_def l3_def l2_def l1_def table_size_def N_def [symmetric])
    next
      case taken: False
      then have pw: "io_pevents (io l w) \<noteq> 0" using slot entry [OF r(2), of w] by auto
      have iol: "io l3 = (io l)(w := ?x)" by (simp add: l3_def io2)
      have "io_ok l3"
      proof (rule io_okI)
        show "io_fd (io l3 w') = int fd \<and> io_pevents (io l3 w') \<noteq> 0" if "fd < table_size l3" "watchers l3 ! fd = Some w'" for fd w'
          using entry [of fd w'] that p unfolding iol by (auto simp: l3_def l2_def table_size_def N_def [symmetric])
        show "0 \<le> io_fd (io l3 w') \<and> io_fd (io l3 w') < int (table_size l3) \<and> watchers l3 ! nat (io_fd (io l3 w')) = Some w'"
          if "io_pevents (io l3 w') \<noteq> 0" for w'
          using act [of w'] act [OF pw] that unfolding iol by (auto simp: l3_def l2_def table_size_def N_def [symmetric] split: if_splits)
        show "w' \<in> set (watcher_queue l3)" if "io_pevents (io l3 w') \<noteq> io_events (io l3 w')" for w'
          using io_ok_queue [OF assms(1), of w'] that unfolding iol by (auto simp: l3_def q_def split: if_splits)
        show "io_pevents (io l3 w') \<noteq> 0 \<and> kernel l3 (io_fd (io l3 w')) = Some (io_events (io l3 w'))"
          if "io_events (io l3 w') \<noteq> 0" for w'
          using io_ok_told [OF assms(1), of w'] that p unfolding iol by (auto simp: l3_def l2_def l1_def split: if_splits)
        show "io_pevents (io l3 w') \<noteq> 0" if "w' \<in> set (watcher_queue l3)" for w'
          using io_ok_queued [OF assms(1), of w'] that p unfolding iol by (auto simp: l3_def q_def split: if_splits)
      qed (use lw r(4) nf io_ok_distinct [OF assms(1)] kern invs in
          \<open>auto simp: l3_def l2_def l1_def q_def table_size_def N_def [symmetric] registered_def\<close>)
      then show ?thesis using False taken s r(3) by (auto simp: same_io_def l3_def l2_def l1_def table_size_def N_def [symmetric])
    qed
  qed
qed

text \<open>Stopping.\<close>

lemma valid_io_mask: "valid_events io_mask"
  by (simp add: valid_events_def io_mask_def POLLIN_def POLLOUT_def POLLPRI_def POLLRDHUP_def)

lemma io_stop_ok:
  assumes "io_ok l" and "valid_events events" and "- 1 \<le> io_fd (io l w)"
  shows "\<exists>l'. uv__io_stop w events l = Some l' \<and> io_ok l' \<and> same_io l l' \<and> pending_queue l' = pending_queue l \<and> pending_local l' = pending_local l \<and>
    inv l' = inv l \<and> kernel l' = kernel l \<and>
    (\<forall>w'. w' \<noteq> w \<longrightarrow> io l' w' = io l w') \<and> io_pevents (io l' w) = and (io_pevents (io l w)) (not events)"
proof -
  let ?fd = "io_fd (io l w)" and ?p = "and (io_pevents (io l w)) (not events)"
  define N where "N = table_size l"
  have uN: "uint (nwatchers l) = int N" by (simp add: N_def table_size_def)
  have z: "io_pevents (io l w) = 0" if "\<not> (0 \<le> ?fd \<and> ?fd < int N)"
    using io_ok_active [OF assms(1), of w] that unfolding N_def by blast
  have inactive: "\<exists>l'. Some l = Some l' \<and> io_ok l' \<and> same_io l l' \<and> pending_queue l' = pending_queue l \<and> pending_local l' = pending_local l \<and>
    inv l' = inv l \<and> kernel l' = kernel l \<and>
    (\<forall>w'. w' \<noteq> w \<longrightarrow> io l' w' = io l w') \<and> io_pevents (io l' w) = ?p" if "io_pevents (io l w) = 0"
    using assms(1) that by (simp add: same_io_def)
  consider "?fd = - 1" | "0 \<le> ?fd" "?fd \<ge> int N" | "0 \<le> ?fd" "?fd < int N" using assms(3) by linarith
  then show ?thesis
  proof cases
    case 3
    let ?x = "(io l w)\<lparr>io_pevents := ?p\<rparr>"
    have lw: "length (watchers l) = N + 2" using io_ok_table [OF assms(1)] 3 by (auto simp: N_def)
    show ?thesis
    proof (cases "?p = 0")
      case False
      define q where "q = (if w \<in> set (watcher_queue l) then watcher_queue l else watcher_queue l @ [w])"
      let ?l = "(set_io w ?x l)\<lparr>watcher_queue := q\<rparr>"
      have "uv__io_stop w events l = Some ?l"
        using assms(2) 3 False uN by (simp add: uv__io_stop_def Let_def q_def)
      moreover have pw: "io_pevents (io l w) \<noteq> 0" using False by auto
      have "io_ok ?l"
      proof (rule io_okI)
        show "io_fd (io ?l w') = int fd \<and> io_pevents (io ?l w') \<noteq> 0" if "fd < table_size ?l" "watchers ?l ! fd = Some w'" for fd w'
          using io_ok_entry [OF assms(1), of fd w'] that False by auto
        show "0 \<le> io_fd (io ?l w') \<and> io_fd (io ?l w') < int (table_size ?l) \<and> watchers ?l ! nat (io_fd (io ?l w')) = Some w'"
          if "io_pevents (io ?l w') \<noteq> 0" for w'
          using io_ok_active [OF assms(1), of w'] io_ok_active [OF assms(1) pw] that by (auto split: if_splits)
        show "w' \<in> set (watcher_queue ?l)" if "io_pevents (io ?l w') \<noteq> io_events (io ?l w')" for w'
          using io_ok_queue [OF assms(1), of w'] that by (auto simp: q_def split: if_splits)
        show "io_pevents (io ?l w') \<noteq> 0 \<and> kernel ?l (io_fd (io ?l w')) = Some (io_events (io ?l w'))"
          if "io_events (io ?l w') \<noteq> 0" for w'
          using io_ok_told [OF assms(1), of w'] that False by (auto split: if_splits)
        show "io_pevents (io ?l w') \<noteq> 0" if "w' \<in> set (watcher_queue ?l)" for w'
          using io_ok_queued [OF assms(1), of w'] that False by (auto simp: q_def split: if_splits)
        show "watchers ?l = [] \<and> table_size ?l = 0 \<or> length (watchers ?l) = table_size ?l + 2"
          using io_ok_table [OF assms(1)] by simp
        show "table_size ?l + 2 \<le> 2 ^ 31" using io_ok_size [OF assms(1)] by simp
      qed (use io_ok_distinct [OF assms(1)] io_ok_nfds [OF assms(1)] io_ok_kernel [OF assms(1)] io_ok_inv [OF assms(1)] in
          \<open>auto simp: q_def\<close>)
      ultimately show ?thesis by (auto simp: same_io_def)
    next
      case p0: True
      show ?thesis
      proof (cases "io_pevents (io l w) = 0")
        case True
        have "nat ?fd < table_size l" using 3 unfolding N_def by linarith
        then have "watchers l ! nat ?fd \<noteq> Some w" using io_ok_entry [OF assms(1), of "nat ?fd" w] True by blast
        moreover have "io_events (io l w) = 0" using True io_ok_told [OF assms(1), of w] by blast
        moreover have "w \<notin> set (watcher_queue l)" using True io_ok_queued [OF assms(1), of w] by blast
        ultimately have "uv__io_stop w events l = Some l"
          using assms(2) 3 uN True p0 by (simp add: uv__io_stop_def Let_def set_io_def remove1_idem fun_upd_idem)
        then show ?thesis using inactive [OF True] by simp
      next
        case pw: False
        have slot: "watchers l ! nat ?fd = Some w" using io_ok_active [OF assms(1) pw] by blast
        let ?x = "(io l w)\<lparr>io_pevents := 0, io_events := 0\<rparr>"
        let ?ws = "(watchers l)[nat ?fd := None]"
        define l1 where "l1 = (set_io w ?x l)\<lparr>watcher_queue := remove1 w (watcher_queue l), watchers := ?ws, nfds := nfds l - 1\<rparr>"
        have "Suc (length (filter (\<lambda>p. p \<noteq> None) ((take N (watchers l))[nat ?fd := None]))) = registered l"
          using count_clear [of "nat ?fd" "take N (watchers l)"] slot lw 3 by (simp add: registered_def N_def [symmetric])
        then have reg: "Suc (registered l1) = registered l"
          by (simp add: l1_def registered_def table_size_def N_def take_update_swap)
        have "registered l < 2 ^ 32" using registered_le [of l] io_ok_size [OF assms(1)] by simp
        then have un: "unat (nfds l) = registered l"
          using io_ok_nfds [OF assms(1)] by (simp add: unsigned_of_nat take_bit_nat_eq_self)
        then have pos: "nfds l > 0" using reg by (metis unsigned_0 word_gt_0 Zero_not_Suc)
        have "uv__io_stop w events l = Some l1"
          using assms(2) 3 uN p0 slot pos by (simp add: uv__io_stop_def Let_def l1_def set_io_def)
        moreover have io1: "io l1 = (io l)(w := ?x)" by (simp add: l1_def)
        have t1: "table_size l1 = N" by (simp add: l1_def N_def table_size_def set_io_def)
        have "io_ok l1"
        proof (rule io_okI)
          show "io_fd (io l1 w') = int fd \<and> io_pevents (io l1 w') \<noteq> 0" if "fd < table_size l1" "watchers l1 ! fd = Some w'" for fd w'
          proof -
            have "fd \<noteq> nat ?fd" using that 3 lw unfolding t1 by (auto simp: l1_def)
            then have "watchers l ! fd = Some w'" using that by (simp add: l1_def)
            then show ?thesis using io_ok_entry [OF assms(1), of fd w'] that \<open>fd \<noteq> nat ?fd\<close> unfolding t1 io1 N_def by auto
          qed
          show "0 \<le> io_fd (io l1 w') \<and> io_fd (io l1 w') < int (table_size l1) \<and> watchers l1 ! nat (io_fd (io l1 w')) = Some w'"
            if "io_pevents (io l1 w') \<noteq> 0" for w'
          proof -
            have w': "w' \<noteq> w" "io_pevents (io l w') \<noteq> 0" using that unfolding io1 by (auto split: if_splits)
            have "nat (io_fd (io l w')) \<noteq> nat ?fd" using io_ok_active [OF assms(1) w'(2)] slot w'(1) by auto
            then show ?thesis using io_ok_active [OF assms(1) w'(2)] w'(1) unfolding t1 io1 N_def by (simp add: l1_def)
          qed
          show "nfds l1 = of_nat (registered l1)"
          proof -
            have "nfds l = 1 + of_nat (registered l1)" using io_ok_nfds [OF assms(1)] by (simp flip: reg)
            moreover have "nfds l1 = nfds l - 1" by (simp add: l1_def)
            ultimately show ?thesis by simp
          qed
          show "distinct (watcher_queue l1)" using io_ok_distinct [OF assms(1)] by (simp add: l1_def)
          show "io_pevents (io l1 w') \<noteq> 0" if "w' \<in> set (watcher_queue l1)" for w'
            using that io_ok_distinct [OF assms(1)] io_ok_queued [OF assms(1), of w'] unfolding io1 by (auto simp: l1_def)
          show "w' \<in> set (watcher_queue l1)" if "io_pevents (io l1 w') \<noteq> io_events (io l1 w')" for w'
            using io_ok_queue [OF assms(1), of w'] that io_ok_distinct [OF assms(1)] unfolding io1 by (auto simp: l1_def split: if_splits)
          show "io_pevents (io l1 w') \<noteq> 0 \<and> kernel l1 (io_fd (io l1 w')) = Some (io_events (io l1 w'))"
            if "io_events (io l1 w') \<noteq> 0" for w'
            using io_ok_told [OF assms(1), of w'] that unfolding io1 by (auto simp: l1_def split: if_splits)
          show "0 \<le> fd \<and> fd < int (table_size l1)" if "kernel l1 fd \<noteq> None" for fd
            using io_ok_kernel [OF assms(1), of fd] that unfolding t1 N_def by (simp add: l1_def)
          show "fd = - 1 \<or> 0 \<le> fd \<and> fd < int (table_size l1)" if "inv l1 = Some evs" "(fd, e) \<in> set evs" for evs fd e
            using io_ok_inv [OF assms(1), of evs fd e] that unfolding t1 N_def by (simp add: l1_def)
          show "watchers l1 = [] \<and> table_size l1 = 0 \<or> length (watchers l1) = table_size l1 + 2"
            using lw unfolding t1 by (simp add: l1_def)
          show "table_size l1 + 2 \<le> 2 ^ 31" using io_ok_size [OF assms(1)] unfolding t1 N_def .
        qed
        ultimately show ?thesis using p0 t1 by (auto simp: same_io_def l1_def N_def)
      qed
    qed
  next
    case 1
    then have "uv__io_stop w events l = Some l" using assms(2) by (simp add: uv__io_stop_def)
    then show ?thesis using inactive [OF z] 1 by simp
  next
    case 2
    then have "uv__io_stop w events l = Some l" using assms(2) uN by (simp add: uv__io_stop_def)
    then show ?thesis using inactive [OF z] 2 by simp
  qed
qed

section \<open>The calls of a client\<close>

text \<open>No other watcher is registered on the descriptor of \<open>w\<close>.\<close>

definition sole :: "addr \<Rightarrow> 'a io_loop_scheme \<Rightarrow> bool" where
  "sole w l \<longleftrightarrow> io_fd (io l w) < 0 \<or> int (table_size l) \<le> io_fd (io l w) \<or>
     watchers l ! nat (io_fd (io l w)) = None \<or> watchers l ! nat (io_fd (io l w)) = Some w"

lemma sole_only:
  assumes "io_ok l" and "sole w l" and "io_pevents (io l w') \<noteq> 0" and "io_fd (io l w') = io_fd (io l w)"
  shows "w' = w"
  using io_ok_active [OF assms(1,3)] assms(2,4) by (auto simp: sole_def)

definition io_masked :: "'a io_loop_scheme \<Rightarrow> bool" where
  "io_masked l \<longleftrightarrow> (\<forall>w. and (io_pevents (io l w)) (not io_mask) = 0) \<and> (\<forall>w. - 1 \<le> io_fd (io l w))"

definition io_inv :: "'a io_loop_scheme \<Rightarrow> bool" where
  "io_inv l \<longleftrightarrow> io_ok l \<and> io_masked l \<and> memory l"

datatype io_api =
  IInit addr nat int
| IStart addr u32
| IStop addr u32
| IClose addr
| IFeed addr

fun io_legal :: "io_api \<Rightarrow> 'a io_loop_scheme \<Rightarrow> bool" where
  "io_legal (IInit w cb fd) l \<longleftrightarrow> - 1 \<le> fd \<and> io_pevents (io l w) = 0"
| "io_legal (IStart w events) l \<longleftrightarrow>
     valid_events events \<and> 0 \<le> io_fd (io l w) \<and> io_fd (io l w) + 3 \<le> 2 ^ 31 \<and> sole w l"
| "io_legal (IStop w events) l \<longleftrightarrow> valid_events events"
| "io_legal (IClose w) l \<longleftrightarrow> sole w l"
| "io_legal (IFeed w) l \<longleftrightarrow> True"

fun io_call :: "io_api \<Rightarrow> 'a io_loop_scheme \<Rightarrow> 'a io_loop_scheme option" where
  "io_call (IInit w cb fd) l = uv__io_init w cb fd l"
| "io_call (IStart w events) l = uv__io_start w events l"
| "io_call (IStop w events) l = uv__io_stop w events l"
| "io_call (IClose w) l = uv__io_close w l"
| "io_call (IFeed w) l = Some (uv__io_feed w l)"

text \<open>What every call leaves true of the batch of events and of the table.\<close>

definition io_later :: "'a io_loop_scheme \<Rightarrow> 'a io_loop_scheme \<Rightarrow> bool" where
  "io_later l l' \<longleftrightarrow> table_size l \<le> table_size l' \<and> subseq (pending_local l') (pending_local l) \<and>
     (case inv l of
        None \<Rightarrow> inv l' = None
      | Some evs \<Rightarrow> (\<exists>evs'. inv l' = Some evs' \<and> list_all2 (\<lambda>a b. snd b = snd a \<and> (fst b = fst a \<or> fst b = - 1)) evs evs'))"

lemma io_later_refl: "io_later l l"
  by (auto simp: io_later_def list_all2_same split: option.splits)

lemma io_later_trans: "io_later a b \<Longrightarrow> io_later b c \<Longrightarrow> io_later a c"
  by (auto simp: io_later_def split: option.splits intro: subseq_order.order_trans)
    (erule list_all2_trans [rotated 1], assumption, auto)

lemma io_later_same: "table_size l \<le> table_size l' \<Longrightarrow> inv l' = inv l \<Longrightarrow> pending_local l' = pending_local l \<Longrightarrow> io_later l l'"
  by (auto simp: io_later_def list_all2_same split: option.splits)

lemma mask_or: "valid_events e \<Longrightarrow> and p (not io_mask) = 0 \<Longrightarrow> and (or p e) (not io_mask) = (0 :: u32)"
  by (simp add: bit.conj_disj_distrib2 valid_events_def)

lemma mask_and: "and p (not io_mask) = 0 \<Longrightarrow> and (and p e) (not io_mask) = (0 :: u32)"
  by (metis and.assoc and.commute and_zero_eq)

lemma io_init_inv:
  assumes "io_inv l" and "io_legal (IInit w cb fd) l"
  shows "\<exists>l'. uv__io_init w cb fd l = Some l' \<and> io_inv l' \<and> io_later l l'"
proof -
  let ?l = "set_io w \<lparr>io_cb = cb, io_fd = fd, io_events = 0, io_pevents = 0\<rparr> l"
  have ok: "io_ok l" and p: "io_pevents (io l w) = 0" and fd: "- 1 \<le> fd" using assms by (auto simp: io_inv_def)
  have e: "io_events (io l w) = 0" using io_ok_told [OF ok, of w] p by blast
  have "io_ok ?l"
  proof (rule io_okI)
    show "io_fd (io ?l w') = int d \<and> io_pevents (io ?l w') \<noteq> 0" if "d < table_size ?l" "watchers ?l ! d = Some w'" for d w'
      using io_ok_entry [OF ok, of d w'] that p by auto
    show "0 \<le> io_fd (io ?l w') \<and> io_fd (io ?l w') < int (table_size ?l) \<and> watchers ?l ! nat (io_fd (io ?l w')) = Some w'"
      if "io_pevents (io ?l w') \<noteq> 0" for w'
      using io_ok_active [OF ok, of w'] that by (auto split: if_splits)
    show "w' \<in> set (watcher_queue ?l)" if "io_pevents (io ?l w') \<noteq> io_events (io ?l w')" for w'
      using io_ok_queue [OF ok, of w'] that by (auto split: if_splits)
    show "io_pevents (io ?l w') \<noteq> 0 \<and> kernel ?l (io_fd (io ?l w')) = Some (io_events (io ?l w'))"
      if "io_events (io ?l w') \<noteq> 0" for w'
      using io_ok_told [OF ok, of w'] that by (auto split: if_splits)
    show "io_pevents (io ?l w') \<noteq> 0" if "w' \<in> set (watcher_queue ?l)" for w'
      using io_ok_queued [OF ok, of w'] that p by auto
    show "watchers ?l = [] \<and> table_size ?l = 0 \<or> length (watchers ?l) = table_size ?l + 2"
      using io_ok_table [OF ok] by simp
    show "table_size ?l + 2 \<le> 2 ^ 31" using io_ok_size [OF ok] by simp
  qed (use io_ok_distinct [OF ok] io_ok_nfds [OF ok] io_ok_kernel [OF ok] io_ok_inv [OF ok] in auto)
  then show ?thesis using assms fd
    by (auto simp: uv__io_init_def io_inv_def io_masked_def memory_def intro!: io_later_same)
qed

lemma io_start_inv:
  assumes "io_inv l" and "io_legal (IStart w events) l"
  shows "\<exists>l'. uv__io_start w events l = Some l' \<and> io_inv l' \<and> io_later l l'"
proof -
  have inv: "io_ok l" "memory l" "io_masked l" and v: "valid_events events" using assms by (auto simp: io_inv_def)
  have "can_start w events l" using assms sole_only [OF inv(1), of w] by (auto simp: can_start_def)
  then obtain l' where l': "uv__io_start w events l = Some l'" "io_ok l'" "same_io l l'"
    "io l' = (io l)(w := (io l w)\<lparr>io_pevents := or (io_pevents (io l w)) events\<rparr>)" "inv l' = inv l" "pending_local l' = pending_local l"
    using io_start_ok [OF inv(1,2)] by blast
  have "io_masked l'" using inv(3) mask_or [OF v] unfolding io_masked_def l'(4) by auto
  then show ?thesis using l' inv(2) by (auto simp: io_inv_def same_io_def memory_def intro!: io_later_same)
qed

lemma io_stop_inv:
  assumes "io_inv l" and "valid_events events"
  shows "\<exists>l'. uv__io_stop w events l = Some l' \<and> io_inv l' \<and> io_later l l' \<and> kernel l' = kernel l \<and>
    io_pevents (io l' w) = and (io_pevents (io l w)) (not events) \<and> (\<forall>w'. io_fd (io l' w') = io_fd (io l w')) \<and>
    (\<forall>w'. w' \<noteq> w \<longrightarrow> io l' w' = io l w')"
proof -
  have inv: "io_ok l" "memory l" "io_masked l" using assms by (auto simp: io_inv_def)
  then have "- 1 \<le> io_fd (io l w)" by (simp add: io_masked_def)
  then obtain l' where l': "uv__io_stop w events l = Some l'" "io_ok l'" "same_io l l'" "inv l' = inv l" "kernel l' = kernel l" "pending_local l' = pending_local l"
    "\<And>w'. w' \<noteq> w \<Longrightarrow> io l' w' = io l w'" "io_pevents (io l' w) = and (io_pevents (io l w)) (not events)"
    using io_stop_ok [OF inv(1) assms(2)] by blast
  have "io_masked l'" unfolding io_masked_def
  proof (intro conjI allI)
    show "and (io_pevents (io l' w')) (not io_mask) = 0" for w'
      using inv(3) l'(7) [of w'] l'(8) mask_and by (cases "w' = w") (auto simp: io_masked_def)
    show "- 1 \<le> io_fd (io l' w')" for w' using inv(3) l'(3) by (simp add: io_masked_def same_io_def)
  qed
  then show ?thesis using l' inv(2) by (auto simp: io_inv_def same_io_def memory_def intro!: io_later_same)
qed

lemma io_pending_inv:
  "io_inv (l\<lparr>pending_queue := q\<rparr>) = io_inv l" "io_inv (l\<lparr>pending_local := q\<rparr>) = io_inv l"
  by (simp_all add: io_inv_def io_ok_def io_masked_def memory_def)

lemma invalidate_inv:
  assumes "io_inv l" and "\<And>w. io_fd (io l w) = fd \<Longrightarrow> io_pevents (io l w) = 0"
  shows "io_inv (uv__platform_invalidate_fd fd l) \<and> io_later l (uv__platform_invalidate_fd fd l) \<and>
    (\<forall>evs e. inv (uv__platform_invalidate_fd fd l) = Some evs \<longrightarrow> fd \<noteq> - 1 \<longrightarrow> (fd, e) \<notin> set evs)"
proof -
  let ?l = "uv__platform_invalidate_fd fd l"
  have ok: "io_ok l" using assms(1) by (simp add: io_inv_def)
  have f: "io ?l = io l" "watchers ?l = watchers l" "table_size ?l = table_size l" "registered ?l = registered l"
    "nfds ?l = nfds l" "watcher_queue ?l = watcher_queue l" "kernel ?l = (kernel l)(fd := None)" "mem_ok ?l = mem_ok l"
    "inv ?l = map_option (map (\<lambda>(d, e). if d = fd then (- 1, e) else (d, e))) (inv l)" "pending_local ?l = pending_local l"
    by (simp_all add: uv__platform_invalidate_fd_def table_size_def registered_def)
  have "io_ok ?l"
  proof (rule io_okI, unfold f)
    show "io_pevents (io l w) \<noteq> 0 \<and> ((kernel l)(fd := None)) (io_fd (io l w)) = Some (io_events (io l w))"
      if "io_events (io l w) \<noteq> 0" for w
      using io_ok_told [OF ok that] assms(2) [of w] by auto
    show "d = - 1 \<or> 0 \<le> d \<and> d < int (table_size l)"
      if i: "map_option (map (\<lambda>(d, e). if d = fd then (- 1, e) else (d, e))) (inv l) = Some evs" and m: "(d, e) \<in> set evs" for evs d e
    proof -
      obtain evs0 where e0: "inv l = Some evs0" "evs = map (\<lambda>(d, e). if d = fd then (- 1, e) else (d, e)) evs0"
        using i by auto
      obtain d0 where "(d0, e) \<in> set evs0" "d = (if d0 = fd then - 1 else d0)" using m unfolding e0(2) by (auto split: if_splits)
      then show ?thesis using io_ok_inv [OF ok e0(1)] by auto
    qed
    show "0 \<le> d \<and> d < int (table_size l)" if "((kernel l)(fd := None)) d \<noteq> None" for d
      using io_ok_kernel [OF ok, of d] that by (auto split: if_splits)
  qed (use io_ok_table [OF ok] io_ok_size [OF ok] io_ok_nfds [OF ok] io_ok_distinct [OF ok] io_ok_entry [OF ok]
      io_ok_active [OF ok] io_ok_queued [OF ok] io_ok_queue [OF ok] in auto)
  moreover have "io_later l ?l"
    unfolding io_later_def f by (auto simp: list_all2_conv_all_nth split: option.splits prod.splits)
  ultimately show ?thesis using assms(1) by (auto simp: io_inv_def io_masked_def memory_def f split: if_splits)
qed

lemma io_close_inv:
  assumes "io_inv l" and "sole w l"
  shows "\<exists>l'. uv__io_close w l = Some l' \<and> io_inv l' \<and> io_later l l' \<and> io_pevents (io l' w) = 0 \<and>
    (\<forall>evs e. inv l' = Some evs \<longrightarrow> io_fd (io l w) \<noteq> - 1 \<longrightarrow> (io_fd (io l w), e) \<notin> set evs)"
proof -
  obtain l1 where l1: "uv__io_stop w io_mask l = Some l1" "io_inv l1" "io_later l l1"
    "io_pevents (io l1 w) = and (io_pevents (io l w)) (not io_mask)" "\<And>w'. io_fd (io l1 w') = io_fd (io l w')"
    "\<And>w'. w' \<noteq> w \<Longrightarrow> io l1 w' = io l w'"
    using io_stop_inv [OF assms(1) valid_io_mask, of w] by blast
  have ok: "io_ok l" and p: "io_pevents (io l1 w) = 0" using assms(1) l1(4) by (auto simp: io_inv_def io_masked_def)
  define l2 where "l2 = l1\<lparr>pending_queue := remove1 w (pending_queue l1), pending_local := remove1 w (pending_local l1)\<rparr>"
  have l2: "io_inv l2" "io_later l l2" "io l2 = io l1"
    using l1(2,3) subseq_order.order_trans [OF subseq_remove1]
    by (auto simp: l2_def io_pending_inv io_later_def split: option.splits)
  show ?thesis
  proof (cases "io_fd (io l w) = - 1")
    case True
    then have "uv__io_close w l = Some l2" using l1(1,5) by (simp add: uv__io_close_def l2_def)
    then show ?thesis using l2 p True by simp
  next
    case False
    let ?l = "uv__platform_invalidate_fd (io_fd (io l w)) l2"
    have "io_pevents (io l2 w') = 0" if "io_fd (io l2 w') = io_fd (io l w)" for w'
      using sole_only [OF ok assms(2), of w'] that l1(5) [of w'] l1(6) [of w'] p l2(3) by (cases "w' = w") auto
    note i = invalidate_inv [OF l2(1) this, simplified]
    have "uv__io_close w l = Some ?l" using l1(1,5) False by (simp add: uv__io_close_def l2_def Let_def)
    moreover have "io ?l = io l1" using l2(3) by (simp add: uv__platform_invalidate_fd_def)
    ultimately show ?thesis using i io_later_trans [OF l2(2)] p False by auto
  qed
qed

theorem io_call_inv:
  assumes "io_inv l" and "io_legal a l"
  shows "\<exists>l'. io_call a l = Some l' \<and> io_inv l' \<and> io_later l l'"
proof (cases a)
  case (IInit w cb fd)
  then show ?thesis using io_init_inv assms by fastforce
next
  case (IStart w events)
  then show ?thesis using io_start_inv assms by fastforce
next
  case (IStop w events)
  then show ?thesis using io_stop_inv [OF assms(1), of events w] assms(2) by auto
next
  case (IClose w)
  then show ?thesis using io_close_inv [OF assms(1), of w] assms(2) by auto
next
  case (IFeed w)
  then show ?thesis using assms(1)
    by (auto simp: uv__io_feed_def io_pending_inv io_later_refl intro: io_later_same)
qed

text \<open>The calls of a callback: those the interface allows, in order.\<close>

fun io_calls :: "io_api list \<Rightarrow> 'a io_loop_scheme \<Rightarrow> 'a io_loop_scheme option" where
  "io_calls [] l = Some l"
| "io_calls (a # as) l = (if io_legal a l then Option.bind (io_call a l) (io_calls as) else io_calls as l)"

definition safe_run :: "(nat \<Rightarrow> addr \<Rightarrow> u32 \<Rightarrow> 'a io_loop_scheme \<Rightarrow> 'a io_loop_scheme option) \<Rightarrow> bool" where
  "safe_run run \<longleftrightarrow> (\<forall>cb w e l. io_inv l \<longrightarrow> (\<exists>l'. run cb w e l = Some l' \<and> io_inv l' \<and> io_later l l'))"

lemma io_calls_inv: "io_inv l \<Longrightarrow> \<exists>l'. io_calls as l = Some l' \<and> io_inv l' \<and> io_later l l'"
proof (induction as arbitrary: l)
  case (Cons a as)
  show ?case
  proof (cases "io_legal a l")
    case True
    then obtain l1 where "io_call a l = Some l1" "io_inv l1" "io_later l l1" using io_call_inv Cons.prems by blast
    then show ?thesis using Cons.IH [of l1] True io_later_trans by auto
  qed (use Cons in auto)
qed (simp add: io_later_refl)

lemma safe_io_calls: "safe_run (\<lambda>cb w e. io_calls (prog cb w e))"
  by (simp add: safe_run_def io_calls_inv)

lemma safe_runE:
  assumes "safe_run run" and "io_inv l"
  obtains l' where "run cb w e l = Some l'" "io_inv l'" "io_later l l'"
  using assms unfolding safe_run_def by blast

section \<open>Pending watchers\<close>

lemma pending_loop_ok:
  assumes "safe_run run" and "io_inv l"
  shows "\<exists>tr l'. pending_loop run l = Some (tr, l') \<and> io_inv l' \<and> pending_local l' = [] \<and> subseq tr (pending_local l)"
  using assms(2)
proof (induction "length (pending_local l)" arbitrary: l rule: less_induct)
  case less
  show ?case
  proof (cases "pending_local l")
    case Nil
    then show ?thesis using less.prems by (subst pending_loop.simps) simp
  next
    case (Cons w rest)
    have "io_inv (l\<lparr>pending_local := rest\<rparr>)" using less.prems by (simp add: io_pending_inv)
    then obtain l1 where l1: "run (io_cb (io l w)) w POLLOUT (l\<lparr>pending_local := rest\<rparr>) = Some l1" "io_inv l1"
      "io_later (l\<lparr>pending_local := rest\<rparr>) l1"
      using safe_runE [OF assms(1)] by blast
    have sub: "subseq (pending_local l1) rest" using l1(3) by (simp add: io_later_def)
    then have "length (pending_local l1) < length (pending_local l)" using list_emb_length [OF sub] Cons by simp
    then obtain tr l2 where r: "pending_loop run l1 = Some (tr, l2)" "io_inv l2" "pending_local l2 = []" "subseq tr (pending_local l1)"
      using less.hyps [OF _ l1(2)] by blast
    have "pending_loop run l = Some (w # tr, l2)" using l1(1) r(1) by (subst pending_loop.simps) (simp add: Cons)
    then show ?thesis using r(2,3) subseq_order.order_trans [OF r(4) sub] Cons by simp
  qed
qed

section \<open>Telling the kernel\<close>

lemma register_step:
  assumes "io_inv l" and "watcher_queue l = w # q"
  defines "l1 \<equiv> (set_io w ((io l w)\<lparr>io_events := io_pevents (io l w)\<rparr>) (l\<lparr>watcher_queue := q\<rparr>))\<lparr>
      kernel := (kernel l)(io_fd (io l w) := Some (io_pevents (io l w)))\<rparr>"
  shows "register_loop (w # q) l = register_loop q l1" and "io_inv l1"
proof -
  let ?p = "io_pevents (io l w)"
  have ok: "io_ok l" using assms(1) by (simp add: io_inv_def)
  have p: "?p \<noteq> 0" using io_ok_queued [OF ok, of w] assms(2) by simp
  have k: "kernel l (io_fd (io l w)) \<noteq> None" if "io_events (io l w) \<noteq> 0" using io_ok_told [OF ok that] by simp
  show "register_loop (w # q) l = register_loop q l1"
    using k by (cases "io_events (io l w) = 0") (auto simp: uv__epoll_ctl_prep_def Let_def l1_def set_io_def)
  have d: "w \<notin> set q" "distinct q" using io_ok_distinct [OF ok] assms(2) by auto
  have f: "io l1 = (io l)(w := (io l w)\<lparr>io_events := ?p\<rparr>)" "watchers l1 = watchers l" "table_size l1 = table_size l"
    "registered l1 = registered l" "nfds l1 = nfds l" "watcher_queue l1 = q" "inv l1 = inv l" "mem_ok l1 = mem_ok l"
    "kernel l1 = (kernel l)(io_fd (io l w) := Some ?p)"
    by (simp_all add: l1_def table_size_def registered_def)
  have "io_ok l1"
  proof (rule io_okI, unfold f)
    let ?io = "(io l)(w := (io l w)\<lparr>io_events := ?p\<rparr>)"
    show "io_pevents (?io w') \<noteq> 0 \<and> ((kernel l)(io_fd (io l w) := Some ?p)) (io_fd (?io w')) = Some (io_events (?io w'))"
      if "io_events (?io w') \<noteq> 0" for w'
    proof (cases "w' = w")
      case False
      then have "io_events (io l w') \<noteq> 0" using that by simp
      then have t: "io_pevents (io l w') \<noteq> 0" "kernel l (io_fd (io l w')) = Some (io_events (io l w'))"
        using io_ok_told [OF ok] by blast+
      have "io_fd (io l w') \<noteq> io_fd (io l w)"
        using io_ok_active [OF ok t(1)] io_ok_active [OF ok p] False by auto
      then show ?thesis using t False by simp
    qed (use p in simp)
    show "w' \<in> set q" if "io_pevents (?io w') \<noteq> io_events (?io w')" for w'
      using io_ok_queue [OF ok, of w'] that assms(2) by (auto split: if_splits)
    show "io_pevents (?io w') \<noteq> 0" if "w' \<in> set q" for w' using io_ok_queued [OF ok, of w'] that assms(2) by auto
    show "0 \<le> fd \<and> fd < int (table_size l)" if "((kernel l)(io_fd (io l w) := Some ?p)) fd \<noteq> None" for fd
      using io_ok_kernel [OF ok, of fd] io_ok_active [OF ok p] that by (auto split: if_splits)
    show "io_fd (?io w') = int fd \<and> io_pevents (?io w') \<noteq> 0" if "fd < table_size l" "watchers l ! fd = Some w'" for fd w'
      using io_ok_entry [OF ok that] by auto
    show "0 \<le> io_fd (?io w') \<and> io_fd (?io w') < int (table_size l) \<and> watchers l ! nat (io_fd (?io w')) = Some w'"
      if "io_pevents (?io w') \<noteq> 0" for w'
      using io_ok_active [OF ok, of w'] that by (auto split: if_splits)
  qed (use io_ok_table [OF ok] io_ok_size [OF ok] io_ok_nfds [OF ok] d io_ok_inv [OF ok] in auto)
  then show "io_inv l1" using assms(1) by (auto simp: io_inv_def io_masked_def memory_def f)
qed

lemma register_loop_ok:
  assumes "io_inv l" and "watcher_queue l = q"
  shows "\<exists>l'. register_loop q l = Some l' \<and> io_inv l' \<and> watcher_queue l' = [] \<and> table_size l' = table_size l \<and>
    inv l' = inv l \<and> time l' = time l \<and> nfds l' = nfds l \<and>
    (\<forall>w. io_pevents (io l' w) = io_pevents (io l w) \<and> io_fd (io l' w) = io_fd (io l w) \<and> io_cb (io l' w) = io_cb (io l w))"
  using assms
proof (induction q arbitrary: l)
  case (Cons w q)
  let ?l1 = "(set_io w ((io l w)\<lparr>io_events := io_pevents (io l w)\<rparr>) (l\<lparr>watcher_queue := q\<rparr>))\<lparr>
      kernel := (kernel l)(io_fd (io l w) := Some (io_pevents (io l w)))\<rparr>"
  note s = register_step [OF Cons.prems]
  have "watcher_queue ?l1 = q" "table_size ?l1 = table_size l" by (simp_all add: table_size_def)
  then obtain l' where l': "register_loop q ?l1 = Some l'" "io_inv l'" "watcher_queue l' = []" "table_size l' = table_size l"
    "inv l' = inv ?l1" "time l' = time ?l1" "nfds l' = nfds ?l1"
    "\<And>v. io_pevents (io l' v) = io_pevents (io ?l1 v) \<and> io_fd (io l' v) = io_fd (io ?l1 v) \<and> io_cb (io l' v) = io_cb (io ?l1 v)"
    using Cons.IH [OF s(2)] by auto
  have "time ?l1 = time l" by (simp add: set_io_def)
  moreover have "register_loop (w # q) l = Some l'" unfolding s(1) by (rule l'(1))
  ultimately show ?case using l'(2-) by (intro exI [of _ l']) (simp del: register_loop.simps)
qed auto

section \<open>Delivering events\<close>

lemma wanted_bits: "and (wanted e p) (not (or (or p POLLERR) POLLHUP)) = 0"
proof -
  have "bit (wanted e p) i \<Longrightarrow> bit (or (or p POLLERR) POLLHUP) i" for i
    by (auto simp: wanted_def Let_def bit_and_iff bit_or_iff split: if_splits)
  then show ?thesis by (intro bit_word_eqI) (metis bit_0_eq bit_and_iff bit_not_iff bot_apply bot_bool_def)
qed

text \<open>
  One delivery: the watcher is the one registered on a descriptor for which the batch still has an
  event when the callback is called, and it gets what it wants of that event.
\<close>

definition delivered :: "addr \<times> u32 \<times> 'a io_loop_scheme \<Rightarrow> bool" where
  "delivered = (\<lambda>(w, e, l). io_inv l \<and> io_pevents (io l w) \<noteq> 0 \<and> watchers l ! nat (io_fd (io l w)) = Some w \<and> e \<noteq> 0 \<and>
     (\<exists>evs e0. inv l = Some evs \<and> (io_fd (io l w), e0) \<in> set evs \<and> e = wanted e0 (io_pevents (io l w))))"

definition no_event :: "int \<Rightarrow> 'a io_loop_scheme \<Rightarrow> bool" where
  "no_event fd l \<longleftrightarrow> (\<forall>evs e. inv l = Some evs \<longrightarrow> (fd, e) \<notin> set evs)"

lemma no_event_later:
  assumes "io_later l l'" and "fd \<noteq> - 1" and "no_event fd l"
  shows "no_event fd l'"
  unfolding no_event_def
proof (intro allI impI notI)
  fix evs' e
  assume a: "inv l' = Some evs'" "(fd, e) \<in> set evs'"
  then obtain evs where evs: "inv l = Some evs" "list_all2 (\<lambda>a b. snd b = snd a \<and> (fst b = fst a \<or> fst b = - 1)) evs evs'"
    using assms(1) by (auto simp: io_later_def split: option.splits)
  obtain i where "i < length evs'" "evs' ! i = (fd, e)" using a(2) by (auto simp: in_set_conv_nth)
  then have "i < length evs" "evs ! i = (fd, e)"
    using evs(2) assms(2) by (auto simp: list_all2_conv_all_nth prod_eq_iff)
  then show False using assms(3) evs(1) nth_mem unfolding no_event_def by metis
qed

lemma forget_inv:
  assumes "io_inv l" and "0 \<le> fd" and "nat fd < table_size l" and "watchers l ! nat fd = None"
  shows "io_inv (l\<lparr>kernel := (kernel l)(fd := None)\<rparr>)"
proof -
  let ?l = "l\<lparr>kernel := (kernel l)(fd := None)\<rparr>"
  have ok: "io_ok l" using assms(1) by (simp add: io_inv_def)
  have "io_ok ?l"
  proof (rule io_okI)
    show "io_pevents (io ?l w) \<noteq> 0 \<and> kernel ?l (io_fd (io ?l w)) = Some (io_events (io ?l w))" if "io_events (io ?l w) \<noteq> 0" for w
    proof -
      have "io_events (io l w) \<noteq> 0" using that by simp
      then have p: "io_pevents (io l w) \<noteq> 0" "kernel l (io_fd (io l w)) = Some (io_events (io l w))"
        using io_ok_told [OF ok] by blast+
      then have "io_fd (io l w) \<noteq> fd" using io_ok_active [OF ok p(1)] assms(4) by auto
      then show ?thesis using p by simp
    qed
    show "0 \<le> d \<and> d < int (table_size ?l)" if "kernel ?l d \<noteq> None" for d
      using io_ok_kernel [OF ok, of d] that by (auto split: if_splits)
  qed (use io_ok_table [OF ok] io_ok_size [OF ok] io_ok_nfds [OF ok] io_ok_distinct [OF ok] io_ok_entry [OF ok]
      io_ok_active [OF ok] io_ok_queued [OF ok] io_ok_queue [OF ok] io_ok_inv [OF ok] in auto)
  then show ?thesis using assms(1) by (simp add: io_inv_def io_masked_def memory_def)
qed

lemma dispatch_ok:
  assumes "safe_run run" and "io_inv l" and "inv l = Some evs" and "i + n \<le> length evs"
  shows "\<exists>tr sig nev l'. dispatch run sw n i l = Some (tr, sig, nev, l') \<and> io_inv l' \<and> io_later l l' \<and>
    (\<forall>d\<in>set tr. delivered d \<and> io_later l (snd (snd d))) \<and> length tr \<le> nev \<and> nev \<le> n"
  using assms(2-4)
proof (induction n arbitrary: i l evs)
  case (Suc n)
  obtain fd e0 where e0: "evs ! i = (fd, e0)" by (cases "evs ! i")
  then have mem: "(fd, e0) \<in> set evs" using Suc.prems(3) nth_mem [of i evs] by simp
  have skip: ?case if "dispatch run sw (Suc n) i l = dispatch run sw n (i + 1) l1" "io_inv l1" "io_later l l1" "inv l1 = Some evs" for l1
  proof -
    note t = that
    have "i + 1 + n \<le> length evs" using Suc.prems(3) by simp
    then obtain tr sig nev l' where "dispatch run sw n (i + 1) l1 = Some (tr, sig, nev, l')" "io_inv l'" "io_later l1 l'"
      "\<forall>d\<in>set tr. delivered d \<and> io_later l1 (snd (snd d))" "length tr \<le> nev" "nev \<le> n"
      using Suc.IH [OF t(2,4)] by blast
    then show ?thesis using t(1) io_later_trans [OF t(3)] by auto
  qed
  show ?case
  proof (cases "fd = - 1")
    case True
    then show ?thesis using skip [OF _ Suc.prems(1) io_later_refl Suc.prems(2)] Suc.prems(2) e0 by simp
  next
    case False
    have ok: "io_ok l" using Suc.prems(1) by (simp add: io_inv_def)
    have fd: "0 \<le> fd" "fd < int (table_size l)" using io_ok_inv [OF ok Suc.prems(2) mem] False by auto
    then have g: "\<not> fd < 0" "\<not> uint (nwatchers l) \<le> fd" by (auto simp: table_size_def)
    show ?thesis
    proof (cases "watchers l ! nat fd")
      case None
      let ?l = "l\<lparr>kernel := (kernel l)(fd := None)\<rparr>"
      have "dispatch run sw (Suc n) i l = dispatch run sw n (i + 1) ?l"
        using Suc.prems(2) e0 False g None by (simp add: uv__epoll_ctl_prep_def)
      moreover have "io_inv ?l" using forget_inv [OF Suc.prems(1) fd(1) _ None] fd by simp
      moreover have "io_later l ?l" by (rule io_later_same) simp_all
      ultimately show ?thesis using skip Suc.prems(2) by simp
    next
      case w: (Some w)
      define e where "e = wanted e0 (io_pevents (io l w))"
      have ent: "io_fd (io l w) = fd" "io_pevents (io l w) \<noteq> 0"
        using io_ok_entry [OF ok _ w] fd by auto
      show ?thesis
      proof (cases "e = 0")
        case True
        then have "dispatch run sw (Suc n) i l = dispatch run sw n (i + 1) l"
          using Suc.prems(2) e0 False g w by (simp add: e_def)
        then show ?thesis using skip [OF _ Suc.prems(1) io_later_refl Suc.prems(2)] by simp
      next
        case ne: False
        show ?thesis
        proof (cases "w = sw")
          case True
          have "i + 1 + n \<le> length evs" using Suc.prems(3) by simp
          then obtain tr sig nev l' where r: "dispatch run sw n (i + 1) l = Some (tr, sig, nev, l')" "io_inv l'" "io_later l l'"
            "\<forall>d\<in>set tr. delivered d \<and> io_later l (snd (snd d))" "length tr \<le> nev" "nev \<le> n"
            using Suc.IH [OF Suc.prems(1,2)] by blast
          have "dispatch run sw (Suc n) i l = Some (tr, True, nev + 1, l')"
            using Suc.prems(2) e0 False g w ne True r(1) by (simp add: e_def Let_def)
          then show ?thesis using r by (intro exI conjI) (assumption | simp)+
        next
          case nsw: False
          obtain l1 where l1: "run (io_cb (io l w)) w e l = Some l1" "io_inv l1" "io_later l l1"
            using safe_runE [OF assms(1) Suc.prems(1)] .
          obtain evs1 where evs1: "inv l1 = Some evs1" "length evs1 = length evs"
            using l1(3) Suc.prems(2) by (auto simp: io_later_def list_all2_lengthD)
          have "i + 1 + n \<le> length evs1" using Suc.prems(3) evs1(2) by simp
          then obtain tr sig nev l' where r: "dispatch run sw n (i + 1) l1 = Some (tr, sig, nev, l')" "io_inv l'" "io_later l1 l'"
            "\<forall>d\<in>set tr. delivered d \<and> io_later l1 (snd (snd d))" "length tr \<le> nev" "nev \<le> n"
            using Suc.IH [OF l1(2) evs1(1)] by blast
          have d: "dispatch run sw (Suc n) i l = Some ((w, e, l) # tr, sig, nev + 1, l')"
            using Suc.prems(2) e0 False g w ne nsw l1(1) r(1) by (simp add: e_def Let_def)
          have "delivered (w, e, l)"
            using Suc.prems ent w ne mem unfolding delivered_def by (auto simp: e_def)
          then show ?thesis using d r io_later_trans [OF l1(3)] io_later_refl by (intro exI conjI) (assumption | force)+
        qed
      qed
    qed
  qed
qed (auto simp: io_later_refl intro: exI [of _ False])

section \<open>Waiting\<close>

lemma io_inv_updates [simp]:
  "io_inv (l\<lparr>time := t\<rparr>) = io_inv l"
  by (simp add: io_inv_def io_ok_def io_masked_def memory_def)

lemma io_inv_batch:
  assumes "io_inv l" and "\<And>fd e. (fd, e) \<in> set evs \<Longrightarrow> 0 \<le> fd \<and> fd < int (table_size l)"
  shows "io_inv (l\<lparr>inv := Some evs\<rparr>)"
  using assms unfolding io_inv_def io_ok_def io_masked_def memory_def by fastforce

lemma io_inv_no_batch: "io_inv l \<Longrightarrow> io_inv (l\<lparr>inv := None\<rparr>)"
  by (simp add: io_inv_def io_ok_def io_masked_def memory_def)

text \<open>\<open>epoll_pwait\<close> reports descriptors it was told of, which are inside the table.\<close>

definition answers_within :: "(nat \<Rightarrow> int \<Rightarrow> u64 \<times> pwait) \<Rightarrow> nat \<Rightarrow> bool" where
  "answers_within env n \<longleftrightarrow>
     (\<forall>k t evs fd e. snd (env k t) = Events evs \<longrightarrow> (fd, e) \<in> set evs \<longrightarrow> 0 \<le> fd \<and> fd < int n)"

text \<open>A round that does not block: it is the last one, or a full batch was delivered.\<close>

lemma poll_round_ok:
  assumes "safe_run run" and "io_inv l" and "timeout \<noteq> - 1"
    and "\<And>evs fd e. answer = Events evs \<Longrightarrow> (fd, e) \<in> set evs \<Longrightarrow> 0 \<le> fd \<and> fd < int (table_size l)"
  shows "\<exists>tr l' nxt. poll_round run sw now answer base timeout r None tries l = Some (tr, l', nxt) \<and>
    io_inv l' \<and> table_size l \<le> table_size l' \<and>
    (timeout = 0 \<longrightarrow> nxt = None \<or> tries - 1 \<noteq> 0 \<and> nxt = Some (0, r, None, tries - 1))"
proof -
  let ?l = "l\<lparr>time := now\<rparr>"
  have l: "io_inv ?l" "table_size ?l = table_size l" using assms(2) by simp_all
  show ?thesis
  proof (cases answer)
    case EINTR
    then show ?thesis using l by (auto simp: poll_round_def update_timeout_def Let_def)
  next
    case (Events evs)
    show ?thesis
    proof (cases "evs = []")
      case True
      then show ?thesis using Events assms(3) l by (auto simp: poll_round_def)
    next
      case False
      let ?b = "?l\<lparr>inv := Some evs\<rparr>"
      have b: "io_inv ?b" using io_inv_batch [OF l(1), of evs] assms(4) [OF Events] l(2) by simp
      obtain tr sig nev l1 where d: "dispatch run sw (length evs) 0 ?b = Some (tr, sig, nev, l1)" "io_inv l1" "io_later ?b l1"
        using dispatch_ok [OF assms(1) b, of evs 0 "length evs" sw] by auto
      have t1: "table_size l \<le> table_size l1" using d(3) l(2) by (simp add: io_later_def)
      obtain ev evs' where c: "evs = ev # evs'" using False by (cases evs) auto
      show ?thesis
      proof (cases sig)
        case True
        obtain l2 where l2: "run (io_cb (io l1 sw)) sw POLLIN l1 = Some l2" "io_inv l2" "io_later l1 l2"
          using safe_runE [OF assms(1) d(2)] .
        have "poll_round run sw now answer base timeout r None tries l =
            Some (tr @ [(sw, POLLIN, l1)], l2\<lparr>inv := None\<rparr>, None)"
          using d(1) l2(1) True unfolding Events poll_round_def c by (simp add: Let_def)
        then show ?thesis using io_inv_no_batch [OF l2(2)] t1 l2(3) by (auto simp: io_later_def)
      next
        case nosig: False
        let ?n = "if nev \<noteq> 0 then
                (if length evs = 1024 \<and> tries - 1 \<noteq> 0 then Some (0, r, None, tries - 1) else None)
              else map_option (\<lambda>(t, r). (t, r, None, tries)) (update_timeout timeout r (time l1) base)"
        have "poll_round run sw now answer base timeout r None tries l = Some (tr, l1\<lparr>inv := None\<rparr>, ?n)"
          using d(1) nosig unfolding Events poll_round_def c by (simp add: Let_def)
        moreover have "timeout = 0 \<longrightarrow> ?n = None \<or> tries - 1 \<noteq> 0 \<and> ?n = Some (0, r, None, tries - 1)"
          by (simp add: update_timeout_def)
        ultimately show ?thesis using io_inv_no_batch [OF d(2)] t1 by auto
      qed
    qed
  qed
qed

lemma poll_loop_nonblocking:
  assumes "safe_run run" and "io_inv l" and "answers_within env (table_size l)" and "tries \<noteq> 0"
  shows "\<exists>tr waits k' l'. poll_loop run sw env base k 0 r None tries l = Some (tr, waits, k', l') \<and> io_inv l' \<and>
    length waits \<le> tries \<and> set waits \<subseteq> {0}"
  using assms(2-4)
proof (induction tries arbitrary: l k)
  case (Suc n)
  show ?case
  proof (cases "nfds l = 0")
    case False
    have "0 \<le> fd \<and> fd < int (table_size l)" if "snd (env k 0) = Events evs" "(fd, e) \<in> set evs" for evs fd e
      using Suc.prems(2) that unfolding answers_within_def by blast
    then obtain tr l1 nxt where r1: "poll_round run sw (fst (env k 0)) (snd (env k 0)) base 0 r None (Suc n) l = Some (tr, l1, nxt)"
      "io_inv l1" "table_size l \<le> table_size l1" "nxt = None \<or> n \<noteq> 0 \<and> nxt = Some (0, r, None, n)"
      using poll_round_ok [OF assms(1) Suc.prems(1), of 0 "snd (env k 0)" sw "fst (env k 0)" base r "Suc n"] by auto
    show ?thesis
    proof (cases nxt)
      case None
      then show ?thesis using r1 False by (subst poll_loop.simps) auto
    next
      case (Some a)
      then have n: "n \<noteq> 0" "nxt = Some (0, r, None, n)" using r1(4) by auto
      have "answers_within env (table_size l1)" using Suc.prems(2) r1(3) unfolding answers_within_def by fastforce
      then obtain tr' waits k' l' where "poll_loop run sw env base (k + 1) 0 r None n l1 = Some (tr', waits, k', l')" "io_inv l'"
        "length waits \<le> n" "set waits \<subseteq> {0}" using Suc.IH [OF r1(2) _ n(1)] by blast
      then show ?thesis using r1(1) n False by (subst poll_loop.simps) auto
    qed
  qed (use Suc.prems in \<open>subst poll_loop.simps, auto\<close>)
qed simp

section \<open>Properties\<close>

definition fresh_io :: "'a io_loop_scheme \<Rightarrow> 'a io_loop_scheme" where
  "fresh_io l = l\<lparr>watchers := [], nwatchers := 0, nfds := 0,
     io := (\<lambda>_. \<lparr>io_cb = 0, io_fd = - 1, io_events = 0, io_pevents = 0\<rparr>), watcher_queue := [], pending_queue := [], pending_local := [],
     kernel := Map.empty, inv := None, mem_ok := (\<lambda>_. True)\<rparr>"

lemma fresh_io_inv: "io_inv (fresh_io l)"
  by (simp add: fresh_io_def io_inv_def io_ok_def io_masked_def memory_def table_size_def registered_def)

text \<open>A loop with one watcher on descriptor 3.\<close>

lemma demo_io:
  "\<exists>l. io_calls [IInit 1 7 3, IStart 1 POLLIN] (fresh_io l0) = Some l \<and> io_inv l \<and> watcher_queue l = [1] \<and>
    io_fd (io l 1) = 3 \<and> io_pevents (io l 1) = POLLIN \<and> table_size l = 6 \<and> nfds l = 1 \<and> sole 1 l"
proof -
  obtain l where l: "io_calls [IInit 1 7 3, IStart 1 POLLIN] (fresh_io l0) = Some l" "io_inv l"
    using io_calls_inv [OF fresh_io_inv] by blast
  have "valid_events POLLIN"
    by (simp add: valid_events_def io_mask_def POLLIN_def POLLOUT_def POLLPRI_def POLLRDHUP_def)
  moreover have "next_power_of_two 6 = 8" by (simp add: next_power_of_two_def)
  ultimately have "watcher_queue l = [1] \<and> io_fd (io l 1) = 3 \<and> io_pevents (io l 1) = POLLIN \<and> table_size l = 6 \<and> nfds l = 1 \<and> sole 1 l"
    using l(1)
    by (auto simp: fresh_io_def uv__io_init_def uv__io_start_def maybe_resize_def Let_def set_io_def sole_def table_size_def
        INT_MAX_int_def POLLIN_def nth_append)
  then show ?thesis using l by blast
qed

text \<open>C14. Whatever calls a client makes of those the interface allows, none of them fails an
  assertion or aborts, and after them the table, its counter, the queue and the kernel's view of
  the descriptors agree with the watchers' masks.\<close>

theorem io_calls_safe: "\<exists>l'. io_calls as (fresh_io l) = Some l' \<and> io_ok l'"
  using io_calls_inv [OF fresh_io_inv] by (auto simp: io_inv_def)



text \<open>C16. A batch of events is delivered without a failed assertion whatever allowed calls the
  callbacks make, and each callback goes to the watcher that is registered on a descriptor of the
  batch at that moment, with a non-empty mask of events it asked for or an error or hangup.\<close>

theorem dispatch_delivers:
  assumes "io_inv l" and "\<And>fd e. (fd, e) \<in> set evs \<Longrightarrow> 0 \<le> fd \<and> fd < int (table_size l)"
  shows "\<exists>tr sig nev l'. dispatch (\<lambda>cb w e. io_calls (prog cb w e)) sw (length evs) 0 (l\<lparr>inv := Some evs\<rparr>) =
      Some (tr, sig, nev, l') \<and> io_inv l' \<and> nev \<le> length evs \<and>
    (\<forall>(w, e, lw)\<in>set tr. io_pevents (io lw w) \<noteq> 0 \<and> watchers lw ! nat (io_fd (io lw w)) = Some w \<and> e \<noteq> 0 \<and>
      and e (not (or (or (io_pevents (io lw w)) POLLERR) POLLHUP)) = 0 \<and> (\<exists>e0. (io_fd (io lw w), e0) \<in> set evs))"
proof -
  let ?l = "l\<lparr>inv := Some evs\<rparr>"
  have b: "io_inv ?l" "inv ?l = Some evs" using io_inv_batch [OF assms] by simp_all
  obtain tr sig nev l' where d: "dispatch (\<lambda>cb w e. io_calls (prog cb w e)) sw (length evs) 0 ?l = Some (tr, sig, nev, l')"
    "io_inv l'" "\<forall>d\<in>set tr. delivered d \<and> io_later ?l (snd (snd d))" "nev \<le> length evs"
    using dispatch_ok [OF safe_io_calls b, of 0 "length evs" prog sw] by auto
  have "io_pevents (io lw w) \<noteq> 0 \<and> watchers lw ! nat (io_fd (io lw w)) = Some w \<and> e \<noteq> 0 \<and>
      and e (not (or (or (io_pevents (io lw w)) POLLERR) POLLHUP)) = 0 \<and> (\<exists>e0. (io_fd (io lw w), e0) \<in> set evs)"
    if m: "(w, e, lw) \<in> set tr" for w e lw
  proof -
    have del: "delivered (w, e, lw)" and lat: "io_later ?l lw" using d(3) m by auto
    then have "0 \<le> io_fd (io lw w)" using io_ok_active [of lw w] by (auto simp: delivered_def io_inv_def)
    then have "\<not> no_event (io_fd (io lw w)) ?l"
      using no_event_later [OF lat, of "io_fd (io lw w)"] del by (auto simp: delivered_def no_event_def)
    then show ?thesis using del wanted_bits by (auto simp: delivered_def no_event_def)
  qed
  then show ?thesis using d by blast
qed

theorem dispatch_delivers_witness:
  "\<exists>l tr sig nev l'. dispatch (\<lambda>cb w e. io_calls [IClose 1]) 9 1 0 ((l :: io_loop)\<lparr>inv := Some [(3, POLLIN)]\<rparr>) =
    Some (tr, sig, nev, l') \<and> io_inv l' \<and> nev \<le> 1"
proof -
  obtain l :: io_loop where l: "io_inv l" "table_size l = 6" using demo_io by blast
  then show ?thesis
    using dispatch_delivers [OF l(1), of "[(3, POLLIN)]" "\<lambda>_ _ _. [IClose 1]" 9] by (intro exI [of _ l]) auto
qed

text \<open>C17. When a watcher is closed in the middle of a batch, no later event of that batch is
  delivered on its descriptor, not even to another watcher that has been started on the same
  number since.\<close>

theorem closed_fd_silent:
  assumes "io_inv l" and "sole w l" and "io_fd (io l w) \<noteq> - 1" and "uv__io_close w l = Some l1"
    and "inv l = Some evs" and "i + n \<le> length evs"
    and "dispatch (\<lambda>cb w e. io_calls (prog cb w e)) sw n i l1 = Some (tr, sig, nev, l2)"
  shows "\<forall>(v, e, lv)\<in>set tr. io_fd (io lv v) \<noteq> io_fd (io l w)"
proof -
  have c: "io_inv l1" "io_later l l1" "no_event (io_fd (io l w)) l1"
    using io_close_inv [OF assms(1,2)] assms(3,4) by (auto simp: no_event_def)
  then obtain evs1 where e1: "inv l1 = Some evs1" "length evs1 = length evs"
    using assms(5) by (auto simp: io_later_def list_all2_lengthD)
  have "\<forall>d\<in>set tr. delivered d \<and> io_later l1 (snd (snd d))"
    using dispatch_ok [OF safe_io_calls c(1) e1(1), of i n prog sw] assms(6,7) e1(2) by auto
  moreover have "io_fd (io lv v) \<noteq> io_fd (io l w)" if "delivered (v, e, lv)" "io_later l1 lv" for v e lv
    using no_event_later [OF that(2) assms(3) c(3)] that(1) by (auto simp: delivered_def no_event_def)
  ultimately show ?thesis by auto
qed

theorem closed_fd_silent_witness:
  "\<exists>l l1 tr sig nev l2. uv__io_close 1 (l :: io_loop) = Some l1 \<and>
    dispatch (\<lambda>cb w e. io_calls [IInit 2 8 3, IStart 2 POLLIN]) 9 1 1 l1 = Some (tr, sig, nev, l2) \<and>
    (\<forall>(v, e, lv)\<in>set tr. io_fd (io lv v) \<noteq> 3)"
proof -
  obtain l0 :: io_loop where l0: "io_inv l0" "io_fd (io l0 1) = 3" "table_size l0 = 6" "sole 1 l0" using demo_io by blast
  define l where "l = l0\<lparr>inv := Some [(3, POLLIN), (3, POLLIN)]\<rparr>"
  have l: "io_inv l" unfolding l_def by (rule io_inv_batch [OF l0(1)]) (use l0(3) in auto)
  have i: "inv l = Some [(3, POLLIN), (3, POLLIN)]" "sole 1 l" "io_fd (io l 1) = 3" using l0 by (simp_all add: l_def sole_def)
  obtain l1 where l1: "uv__io_close 1 l = Some l1" "io_inv l1" "io_later l l1" using io_close_inv [OF l i(2)] by blast
  obtain evs1 where e1: "inv l1 = Some evs1" "length evs1 = 2"
    using l1(3) i(1) by (auto simp: io_later_def dest: list_all2_lengthD)
  obtain tr sig nev l2 where
    d: "dispatch (\<lambda>cb w e. io_calls [IInit 2 8 3, IStart 2 POLLIN]) 9 1 1 l1 = Some (tr, sig, nev, l2)"
    using dispatch_ok [OF safe_io_calls l1(2) e1(1), of 1 1 "\<lambda>_ _ _. [IInit 2 8 3, IStart 2 POLLIN]" 9] e1(2) by auto
  have "\<forall>(v, e, lv)\<in>set tr. io_fd (io lv v) \<noteq> 3"
    using closed_fd_silent [OF l i(2) _ l1(1) i(1) _ d] i(3) by simp
  then show ?thesis using l1(1) d by blast
qed

text \<open>A poll with a zero timeout returns, whatever the kernel answers and the callbacks do: it
  waits at most 48 times and never blocks.\<close>

theorem poll_zero_returns:
  assumes "io_inv l" and "answers_within env (table_size l)"
  shows "\<exists>tr waits k' l'. uv__io_poll (\<lambda>cb w e. io_calls (prog cb w e)) sw env False k 0 l = Some (tr, waits, k', l') \<and>
    io_inv l' \<and> length waits \<le> 48 \<and> set waits \<subseteq> {0}"
proof -
  obtain l1 where l1: "register_loop (watcher_queue l) l = Some l1" "io_inv l1" "table_size l1 = table_size l"
    using register_loop_ok [OF assms(1) refl] by blast
  then show ?thesis
    using poll_loop_nonblocking [OF safe_io_calls l1(2), of env 48 prog sw "time l1" k 0] assms(2)
    by (simp add: uv__io_poll_def)
qed

theorem poll_zero_returns_witness:
  "\<exists>l tr waits k' l'. uv__io_poll (\<lambda>cb w e. io_calls [IStop 1 POLLIN]) 9 (\<lambda>k t. (of_nat k, Events [(3, POLLIN)])) False 0 0
     (l :: io_loop) = Some (tr, waits, k', l') \<and> nfds l = 1 \<and> set waits \<subseteq> {0}"
proof -
  obtain l :: io_loop where l: "io_inv l" "table_size l = 6" "nfds l = 1" using demo_io by blast
  have "answers_within (\<lambda>k t. (of_nat k, Events [(3, POLLIN)])) (table_size l)" by (simp add: answers_within_def l(2))
  then show ?thesis
    using poll_zero_returns [OF l(1), of _ "\<lambda>_ _ _. [IStop 1 POLLIN]" 9 0] l(3) by fastforce
qed

text \<open>The time left after an interrupted wait is not the requested time minus the elapsed
  time: the start of the wait is never advanced, so the whole elapsed time is subtracted again
  after each interruption.  With 100 ms requested and interruptions at 10, 20 and 30 ms the waits
  are 100, 90, 70 and 40 ms instead of 100, 90, 80 and 70.\<close>

definition interrupted :: "nat \<Rightarrow> int \<Rightarrow> u64 \<times> pwait" where
  "interrupted k t = (if k < 3 then (of_nat (10 * (k + 1)), EINTR) else (100, Events []))"

theorem poll_time_left_drift:
  "map_option (\<lambda>(tr, waits, k, l). waits)
     (poll_loop (\<lambda>_ _ _. Some) 0 interrupted 0 0 100 100 None 48 (l\<lparr>nfds := 1\<rparr>)) = Some [100, 90, 70, 40]"
  by (simp add: poll_loop.simps poll_round_def interrupted_def update_timeout_def sub_elapsed_def Let_def)

end
