(* ===== verification/UV_Watcher.thy ===== *)
theory UV_Watcher
  imports UV_Io 
begin

text \<open>
  Prepare, check and idle watchers: src/unix/loop-watcher.c, whose macro generates one set of
  operations for each of the three kinds.  \<open>w_handles\<close> are the three queues of the loop;
  \<open>w_local\<close> is the queue on the stack of the running \<open>uv__run_<kind>\<close>, kept in the loop
  because stopping a handle unlinks it from whichever queue it is in.
\<close>

section \<open>State and operations\<close>

datatype watcher_kind = Prepare | Check | Idle

record watcher_loop = io_loop +
  w_handles :: "watcher_kind \<Rightarrow> addr list"
  w_local :: "watcher_kind \<Rightarrow> addr list"
  w_cb :: "addr \<Rightarrow> nat option"

fun wtype :: "watcher_kind \<Rightarrow> uv_handle_type" where
  "wtype Prepare = UV_PREPARE"
| "wtype Check = UV_CHECK"
| "wtype Idle = UV_IDLE"

definition uv_watcher_init :: "watcher_kind \<Rightarrow> addr \<Rightarrow> 'a watcher_loop_scheme \<Rightarrow> ret \<times> 'a watcher_loop_scheme" where
  "uv_watcher_init k h l =
     (let l = uv__handle_init h (wtype k) l in (OK, l\<lparr>w_cb := (w_cb l)(h := None)\<rparr>))"

definition uv_watcher_start ::
    "watcher_kind \<Rightarrow> addr \<Rightarrow> nat option \<Rightarrow> 'a watcher_loop_scheme \<Rightarrow> ret \<times> 'a watcher_loop_scheme" where
  "uv_watcher_start k h cb l =
     (if uv__is_active h l then (OK, l)
      else if cb = None then (Inl UV_EINVAL, l)
      else let l = l\<lparr>w_handles := (w_handles l)(k := h # w_handles l k)\<rparr>;
               l = l\<lparr>w_cb := (w_cb l)(h := cb)\<rparr>
           in (OK, uv__handle_start h l))"

definition uv_watcher_stop :: "watcher_kind \<Rightarrow> addr \<Rightarrow> 'a watcher_loop_scheme \<Rightarrow> 'a watcher_loop_scheme" where
  "uv_watcher_stop k h l =
     (if \<not> uv__is_active h l then l
      else uv__handle_stop h
             (l\<lparr>w_handles := (w_handles l)(k := remove1 h (w_handles l k)),
                w_local := (w_local l)(k := remove1 h (w_local l k))\<rparr>))"

definition uv__watcher_close :: "watcher_kind \<Rightarrow> addr \<Rightarrow> 'a watcher_loop_scheme \<Rightarrow> 'a watcher_loop_scheme" where
  "uv__watcher_close k h l = uv_watcher_stop k h l"

text \<open>The while loop of \<open>uv__run_<kind>\<close>, with the handles whose callbacks ran; a missing callback is a crash.\<close>

partial_function (option) run_local ::
    "watcher_kind \<Rightarrow> (nat \<Rightarrow> addr \<Rightarrow> 'a watcher_loop_scheme \<Rightarrow> 'a watcher_loop_scheme option) \<Rightarrow>
     'a watcher_loop_scheme \<Rightarrow> (addr list \<times> 'a watcher_loop_scheme) option" where
  "run_local k run l =
     (case w_local l k of
        [] \<Rightarrow> Some ([], l)
      | h # rest \<Rightarrow>
          Option.bind (w_cb l h) (\<lambda>cb.
          Option.bind (run cb h (l\<lparr>w_local := (w_local l)(k := rest),
                                   w_handles := (w_handles l)(k := w_handles l k @ [h])\<rparr>)) (\<lambda>l.
          Option.bind (run_local k run l) (\<lambda>(hs, l). Some (h # hs, l)))))"

declare run_local.simps [code]

definition uv__run_watchers ::
    "watcher_kind \<Rightarrow> (nat \<Rightarrow> addr \<Rightarrow> 'a watcher_loop_scheme \<Rightarrow> 'a watcher_loop_scheme option) \<Rightarrow>
     'a watcher_loop_scheme \<Rightarrow> (addr list \<times> 'a watcher_loop_scheme) option" where
  "uv__run_watchers k run l =
     run_local k run (l\<lparr>w_local := (w_local l)(k := w_handles l k), w_handles := (w_handles l)(k := [])\<rparr>)"

text \<open>\<open>uv_close\<close> on such a handle.\<close>

definition uv_close_watcher ::
    "watcher_kind \<Rightarrow> addr \<Rightarrow> nat option \<Rightarrow> 'a watcher_loop_scheme \<Rightarrow> 'a watcher_loop_scheme option" where
  "uv_close_watcher k h close_cb l =
     (if uv__is_closing h l then None
      else uv__make_close_pending h (uv__watcher_close k h (mark_closing h close_cb l)))"

section \<open>The invariant\<close>

definition watch_handles :: "watcher_kind \<Rightarrow> 'a watcher_loop_scheme \<Rightarrow> addr set" where
  "watch_handles k l = {h \<in> set (handle_queue l). h_type l h = wtype k}"

definition watch_inv :: "'a watcher_loop_scheme \<Rightarrow> bool" where
  "watch_inv l \<longleftrightarrow> handles_ok l \<and>
     (\<forall>k. distinct (w_local l k @ w_handles l k) \<and>
       set (w_local l k) \<union> set (w_handles l k) = {h \<in> watch_handles k l. active l h}) \<and>
     (\<forall>k. \<forall>h\<in>set (w_local l k) \<union> set (w_handles l k). w_cb l h \<noteq> None)"

lemma wtype_inj [simp]: "wtype k = wtype k' \<longleftrightarrow> k = k'"
  by (cases k; cases k') auto

lemma handle_watch_frame [simp]:
  "w_handles (uv__handle_start h l) = w_handles l" "w_handles (uv__handle_stop h l) = w_handles l"
  "w_local (uv__handle_start h l) = w_local l" "w_local (uv__handle_stop h l) = w_local l"
  "w_cb (uv__handle_start h l) = w_cb l" "w_cb (uv__handle_stop h l) = w_cb l"
  "w_handles (mark_closing h cb l) = w_handles l" "w_local (mark_closing h cb l) = w_local l"
  "w_cb (mark_closing h cb l) = w_cb l"
  by (simp_all add: handle_defs mark_closing_def Let_def)

lemma watch_updates [simp]:
  "handles_ok (l\<lparr>w_handles := a\<rparr>) = handles_ok l" "handles_ok (l\<lparr>w_local := b\<rparr>) = handles_ok l"
  "handles_ok (l\<lparr>w_cb := c\<rparr>) = handles_ok l"
  "active (l\<lparr>w_handles := a\<rparr>) h = active l h" "active (l\<lparr>w_local := b\<rparr>) h = active l h" "active (l\<lparr>w_cb := c\<rparr>) h = active l h"
  "closing (l\<lparr>w_handles := a\<rparr>) h = closing l h" "closing (l\<lparr>w_local := b\<rparr>) h = closing l h" "closing (l\<lparr>w_cb := c\<rparr>) h = closing l h"
  "closed (l\<lparr>w_handles := a\<rparr>) h = closed l h" "closed (l\<lparr>w_local := b\<rparr>) h = closed l h" "closed (l\<lparr>w_cb := c\<rparr>) h = closed l h"
  by (simp_all add: handles_ok_def alive_handles_def flag_views)

lemma watch_invD:
  assumes "watch_inv l"
  shows watch_handles_ok: "handles_ok l"
    and watch_distinct: "distinct (w_local l k @ w_handles l k)"
    and watch_set: "set (w_local l k) \<union> set (w_handles l k) = {h \<in> watch_handles k l. active l h}"
    and watch_cb: "h \<in> set (w_local l k) \<union> set (w_handles l k) \<Longrightarrow> w_cb l h \<noteq> None"
  using assms unfolding watch_inv_def by blast+

lemma watch_start:
  fixes cb :: "nat option"
  assumes "watch_inv l" and "h \<in> watch_handles k l" and "\<not> closing l h"
  defines "l' \<equiv> snd (uv_watcher_start k h cb l)"
  shows "watch_inv l'" and "w_local l' = w_local l" and "handle_queue l' = handle_queue l" and "h_type l' = h_type l"
proof -
  note wd = watch_distinct [OF assms(1)] and ws = watch_set [OF assms(1)] and wc = watch_cb [OF assms(1)]
  show fr: "w_local l' = w_local l" "handle_queue l' = handle_queue l" "h_type l' = h_type l"
    unfolding l'_def by (simp_all add: uv_watcher_start_def Let_def)
  show "watch_inv l'"
  proof (cases "active l h \<or> cb = None")
    case True
    then show ?thesis using assms(1) by (auto simp: l'_def uv_watcher_start_def is_active_iff)
  next
    case False
    then have ac: "\<not> active l h" and cb: "cb \<noteq> None" by auto
    have f: "w_handles l' = (w_handles l)(k := h # w_handles l k)" "w_cb l' = (w_cb l)(h := cb)"
      "\<And>v. active l' v \<longleftrightarrow> active l v \<or> v = h"
      using ac cb by (auto simp: l'_def uv_watcher_start_def is_active_iff Let_def)
    have wh: "watch_handles k' l' = watch_handles k' l" for k' by (simp add: watch_handles_def fr)
    have hq: "h \<in> set (handle_queue l)" "h_type l h = wtype k" using assms(2) by (auto simp: watch_handles_def)
    have "handles_ok l'"
      using handles_start [of "l\<lparr>w_handles := (w_handles l)(k := h # w_handles l k), w_cb := (w_cb l)(h := cb)\<rparr>" h]
        watch_handles_ok [OF assms(1)] hq assms(3) ac cb
      by (auto simp: l'_def uv_watcher_start_def is_active_iff Let_def)
    moreover have "distinct (w_local l' k' @ w_handles l' k')" for k'
    proof (cases "k' = k")
      case True
      then show ?thesis using wd [of k] ws [of k] ac by (auto simp: fr f)
    qed (use wd [of k'] in \<open>simp add: fr f\<close>)
    moreover have "set (w_local l' k') \<union> set (w_handles l' k') = {v \<in> watch_handles k' l'. active l' v}" for k'
    proof (cases "k' = k")
      case True
      then show ?thesis using ws [of k] assms(2) by (auto simp: fr f wh)
    next
      case False
      then have "v \<noteq> h" if "v \<in> watch_handles k' l" for v using that hq(2) by (auto simp: watch_handles_def)
      then have "{v \<in> watch_handles k' l'. active l' v} = {v \<in> watch_handles k' l. active l v}" unfolding wh f by blast
      then show ?thesis using ws [of k'] False by (simp add: fr f)
    qed
    moreover have "w_cb l' v \<noteq> None" if "v \<in> set (w_local l' k') \<union> set (w_handles l' k')" for k' v
      using wc [of v k'] that cb by (auto simp: fr f split: if_splits)
    ultimately show ?thesis unfolding watch_inv_def by blast
  qed
qed

lemma watch_stop:
  assumes "watch_inv l" and "h \<in> watch_handles k l"
  defines "l' \<equiv> uv_watcher_stop k h l"
  shows "watch_inv l'" and "w_local l' = (w_local l)(k := remove1 h (w_local l k))"
    and "handle_queue l' = handle_queue l" and "h_type l' = h_type l" and "\<not> active l' h"
    and "closing l' = closing l" and "closed l' = closed l" and "closing_handles l' = closing_handles l"
proof -
  note wd = watch_distinct [OF assms(1)] and ws = watch_set [OF assms(1)] and wc = watch_cb [OF assms(1)]
  have out: "h \<notin> set (w_local l k)" "h \<notin> set (w_handles l k)" if "\<not> active l h" using ws [of k] that by auto
  show fr: "w_local l' = (w_local l)(k := remove1 h (w_local l k))" "handle_queue l' = handle_queue l" "h_type l' = h_type l"
    "\<not> active l' h" "closing l' = closing l" "closed l' = closed l" "closing_handles l' = closing_handles l"
    using out by (auto simp: l'_def uv_watcher_stop_def is_active_iff remove1_idem fun_upd_idem fun_eq_iff)
  have f: "w_handles l' = (w_handles l)(k := remove1 h (w_handles l k))" "w_cb l' = w_cb l"
    "\<And>v. active l' v \<longleftrightarrow> active l v \<and> v \<noteq> h"
    using out by (auto simp: l'_def uv_watcher_stop_def is_active_iff remove1_idem fun_upd_idem)
  have wh: "watch_handles k' l' = watch_handles k' l" for k' by (simp add: watch_handles_def fr)
  have hq: "h \<in> set (handle_queue l)" "h_type l h = wtype k" using assms(2) by (auto simp: watch_handles_def)
  have "handles_ok l'"
    using handles_stop [of "l\<lparr>w_handles := (w_handles l)(k := remove1 h (w_handles l k)),
        w_local := (w_local l)(k := remove1 h (w_local l k))\<rparr>" h] watch_handles_ok [OF assms(1)] hq
    by (auto simp: l'_def uv_watcher_stop_def)
  moreover have "distinct (w_local l' k' @ w_handles l' k')" for k'
    using wd [of k'] by (auto simp: fr f dest: notin_set_remove1)
  moreover have "set (w_local l' k') \<union> set (w_handles l' k') = {v \<in> watch_handles k' l'. active l' v}" for k'
  proof (cases "k' = k")
    case True
    then show ?thesis using ws [of k] wd [of k] by (auto simp: fr f wh)
  next
    case False
    then have "v \<noteq> h" if "v \<in> watch_handles k' l" for v using that hq(2) by (auto simp: watch_handles_def)
    then have "{v \<in> watch_handles k' l'. active l' v} = {v \<in> watch_handles k' l. active l v}" unfolding wh f by blast
    then show ?thesis using ws [of k'] False by (simp add: fr f)
  qed
  moreover have "w_cb l' v \<noteq> None" if "v \<in> set (w_local l' k') \<union> set (w_handles l' k')" for k' v
    using wc [of v k'] that set_remove1_subset [of h] by (force simp: fr f split: if_splits)
  ultimately show "watch_inv l'" unfolding watch_inv_def by blast
qed

section \<open>The calls of a client\<close>

datatype watcher_api =
    WStart watcher_kind addr "nat option"
  | WStop watcher_kind addr
  | WClose watcher_kind addr "nat option"

fun watcher_legal :: "watcher_api \<Rightarrow> 'a watcher_loop_scheme \<Rightarrow> bool" where
  "watcher_legal (WStart k h cb) l \<longleftrightarrow> h \<in> watch_handles k l \<and> \<not> uv__is_closing h l"
| "watcher_legal (WStop k h) l \<longleftrightarrow> h \<in> watch_handles k l"
| "watcher_legal (WClose k h cb) l \<longleftrightarrow> h \<in> watch_handles k l \<and> \<not> uv__is_closing h l"

fun watcher_call :: "watcher_api \<Rightarrow> 'a watcher_loop_scheme \<Rightarrow> 'a watcher_loop_scheme option" where
  "watcher_call (WStart k h cb) l = Some (snd (uv_watcher_start k h cb l))"
| "watcher_call (WStop k h) l = Some (uv_watcher_stop k h l)"
| "watcher_call (WClose k h cb) l = uv_close_watcher k h cb l"

fun watcher_calls :: "watcher_api list \<Rightarrow> 'a watcher_loop_scheme \<Rightarrow> 'a watcher_loop_scheme option" where
  "watcher_calls [] l = Some l"
| "watcher_calls (a # as) l =
     (if watcher_legal a l then Option.bind (watcher_call a l) (watcher_calls as) else watcher_calls as l)"

definition stops :: "watcher_kind \<Rightarrow> addr \<Rightarrow> watcher_api \<Rightarrow> bool" where
  "stops k h a \<longleftrightarrow> a = WStop k h \<or> (\<exists>cb. a = WClose k h cb)"

definition watch_later :: "watcher_api list \<Rightarrow> 'a watcher_loop_scheme \<Rightarrow> 'a watcher_loop_scheme \<Rightarrow> bool" where
  "watch_later as l l' \<longleftrightarrow> handle_queue l' = handle_queue l \<and> h_type l' = h_type l \<and>
     (\<forall>k. subseq (w_local l' k) (w_local l k)) \<and>
     (\<forall>k h. h \<in> set (w_local l k) \<longrightarrow> (\<forall>a\<in>set as. \<not> stops k h a) \<longrightarrow> h \<in> set (w_local l' k))"

lemma stop_later:
  assumes "w_local l' = (w_local l)(k := remove1 h (w_local l k))" and "handle_queue l' = handle_queue l" and "h_type l' = h_type l"
    and "stops k h a"
  shows "watch_later [a] l l'"
proof -
  have "v \<in> set (w_local l' k')" if "v \<in> set (w_local l k')" "\<not> stops k' v a" for k' v
  proof (cases "k' = k \<and> v = h")
    case False
    then show ?thesis using that(1) assms(1) by auto
  qed (use that(2) assms(4) in simp)
  then show ?thesis using assms(1-3) by (auto simp: watch_later_def subseq_remove1)
qed

lemma watcher_call_inv:
  assumes "watch_inv l" and "watcher_legal a l"
  shows "\<exists>l'. watcher_call a l = Some l' \<and> watch_inv l' \<and> watch_later [a] l l'"
proof (cases a)
  case (WStart k h cb)
  then have "h \<in> watch_handles k l" "\<not> closing l h" using assms(2) by (auto simp: is_closing_iff)
  note s = watch_start [OF assms(1) this, of cb]
  have "watch_later [a] l (snd (uv_watcher_start k h cb l))" using s(2-4) by (simp add: watch_later_def)
  then show ?thesis using WStart s(1) by simp
next
  case (WStop k h)
  then have h: "h \<in> watch_handles k l" using assms(2) by simp
  note s = watch_stop [OF assms(1) h]
  have "watch_later [a] l (uv_watcher_stop k h l)" by (rule stop_later [OF s(2-4)]) (simp add: WStop stops_def)
  then show ?thesis using WStop s(1) by simp
next
  case (WClose k h cb)
  then have h: "h \<in> watch_handles k l" "\<not> closing l h" "\<not> closed l h" using assms(2) by (auto simp: is_closing_iff)
  note s = watch_stop [OF assms(1) h(1)]
  let ?l1 = "mark_closing h cb (uv_watcher_stop k h l)"
  have "uv_watcher_stop k h (mark_closing h cb l) = ?l1"
  proof (cases "active l h")
    case True
    have "mark_closing h cb l\<lparr>w_handles := a, w_local := b\<rparr> = mark_closing h cb (l\<lparr>w_handles := a, w_local := b\<rparr>)" for a b
      by (simp add: mark_closing_def)
    then show ?thesis using True by (simp add: uv_watcher_stop_def is_active_iff stop_mark_closing [symmetric])
  qed (simp add: uv_watcher_stop_def is_active_iff)
  then have c: "uv_close_watcher k h cb l = Some (?l1\<lparr>closing_handles := h # closing_handles l\<rparr>)"
    using h s(6-8) by (simp add: uv_close_watcher_def uv__watcher_close_def is_closing_iff close_pending_Some)
  have "watch_inv (?l1\<lparr>closing_handles := h # closing_handles l\<rparr>)"
    using s(1) handles_mark_closing [OF _ s(5), of cb] by (simp add: watch_inv_def watch_handles_def)
  moreover have "watch_later [a] l (?l1\<lparr>closing_handles := h # closing_handles l\<rparr>)"
    by (rule stop_later) (use s(2-4) in \<open>simp_all add: WClose stops_def\<close>)
  ultimately show ?thesis using WClose c by simp
qed

lemma watch_later_Nil: "watch_later [] l l"
  by (simp add: watch_later_def)

lemma watch_later_trans: "watch_later as a b \<Longrightarrow> watch_later bs b c \<Longrightarrow> watch_later (as @ bs) a c"
  unfolding watch_later_def by (auto intro: subseq_order.order_trans)

lemma watch_later_more: "watch_later as l l' \<Longrightarrow> watch_later (a # as) l l'"
  unfolding watch_later_def by auto

lemma watcher_calls_inv:
  "watch_inv l \<Longrightarrow> \<exists>l'. watcher_calls as l = Some l' \<and> watch_inv l' \<and> watch_later as l l'"
proof (induction as arbitrary: l)
  case (Cons a as)
  show ?case
  proof (cases "watcher_legal a l")
    case True
    then obtain l1 where l1: "watcher_call a l = Some l1" "watch_inv l1" "watch_later [a] l l1"
      using watcher_call_inv Cons.prems by blast
    then show ?thesis using Cons.IH [OF l1(2)] True watch_later_trans [OF l1(3)] by auto
  next
    case False
    then show ?thesis using Cons.IH [OF Cons.prems] watch_later_more by auto
  qed
qed (simp add: watch_later_Nil)

section \<open>A pass\<close>

lemma watch_rotate:
  assumes "watch_inv l" and "w_local l k = h # rest"
  shows "watch_inv (l\<lparr>w_local := (w_local l)(k := rest), w_handles := (w_handles l)(k := w_handles l k @ [h])\<rparr>)"
proof -
  have "distinct (h # rest @ w_handles l k)" using watch_distinct [OF assms(1), of k] assms(2) by simp
  moreover have "insert h (set rest) \<union> set (w_handles l k) = {v \<in> watch_handles k l. active l v}"
    using watch_set [OF assms(1), of k] assms(2) by simp
  moreover have "w_cb l v \<noteq> None" if "v \<in> insert h (set rest) \<union> set (w_handles l k)" for v
    using watch_cb [OF assms(1), of v k] that assms(2) by auto
  ultimately show ?thesis using assms(1) unfolding watch_inv_def watch_handles_def by (auto split: if_splits)
qed

lemma run_local_ok:
  assumes "watch_inv l"
  shows "\<exists>tr l'. run_local k (\<lambda>cb h. watcher_calls (prog cb h)) l = Some (tr, l') \<and> watch_inv l' \<and> w_local l' k = [] \<and>
    subseq tr (w_local l k) \<and> (\<forall>h\<in>set (w_local l k). (\<forall>cb v. \<forall>a\<in>set (prog cb v). \<not> stops k h a) \<longrightarrow> h \<in> set tr)"
  using assms
proof (induction "length (w_local l k)" arbitrary: l rule: less_induct)
  case less
  show ?case
  proof (cases "w_local l k")
    case Nil
    then show ?thesis using less.prems by (subst run_local.simps) simp
  next
    case (Cons h rest)
    let ?l = "l\<lparr>w_local := (w_local l)(k := rest), w_handles := (w_handles l)(k := w_handles l k @ [h])\<rparr>"
    obtain cb where cb: "w_cb l h = Some cb" using watch_cb [OF less.prems, of h k] Cons by auto
    obtain l1 where l1: "watcher_calls (prog cb h) ?l = Some l1" "watch_inv l1" "watch_later (prog cb h) ?l l1"
      using watcher_calls_inv [OF watch_rotate [OF less.prems Cons]] by blast
    have sub: "subseq (w_local l1 k) rest" using l1(3) by (auto simp: watch_later_def dest: spec [of _ k])
    have "length (w_local l1 k) < length (w_local l k)" using list_emb_length [OF sub] Cons by simp
    then obtain tr l2 where r: "run_local k (\<lambda>cb h. watcher_calls (prog cb h)) l1 = Some (tr, l2)" "watch_inv l2" "w_local l2 k = []"
      "subseq tr (w_local l1 k)"
      "\<forall>h\<in>set (w_local l1 k). (\<forall>cb v. \<forall>a\<in>set (prog cb v). \<not> stops k h a) \<longrightarrow> h \<in> set tr"
      using less.hyps [OF _ l1(2)] by blast
    have "run_local k (\<lambda>cb h. watcher_calls (prog cb h)) l = Some (h # tr, l2)"
      using cb l1(1) r(1) by (subst run_local.simps) (simp add: Cons)
    moreover have "subseq (h # tr) (h # rest)" using subseq_order.order_trans [OF r(4) sub] by simp
    moreover have "v \<in> set (h # tr)" if "v \<in> set (h # rest)" "\<forall>cb u. \<forall>a\<in>set (prog cb u). \<not> stops k v a" for v
    proof (cases "v = h")
      case False
      then have "v \<in> set (w_local ?l k)" using that(1) by simp
      then have "v \<in> set (w_local l1 k)" using l1(3) that(2) unfolding watch_later_def by blast
      then show ?thesis using r(5) that(2) by simp
    qed simp
    ultimately show ?thesis using r(2,3) Cons by (intro exI [of _ "h # tr"] exI [of _ l2]) auto
  qed
qed

text \<open>C18. A pass over the prepare, check or idle handles ends whatever calls the callbacks make.
  It runs only handles that were active when it began, each at most once and in the order of the
  queue (handles started during the pass wait for the next one), and it misses none that no
  callback stops or closes.\<close>

theorem watchers_run_once:
  assumes "watch_inv l" and "w_local l k = []"
  shows "\<exists>tr l'. uv__run_watchers k (\<lambda>cb h. watcher_calls (prog cb h)) l = Some (tr, l') \<and> watch_inv l' \<and> w_local l' k = [] \<and>
    subseq tr (w_handles l k) \<and> distinct tr \<and>
    (\<forall>h\<in>set (w_handles l k). (\<forall>cb v. \<forall>a\<in>set (prog cb v). \<not> stops k h a) \<longrightarrow> h \<in> set tr)"
proof -
  let ?l = "l\<lparr>w_local := (w_local l)(k := w_handles l k), w_handles := (w_handles l)(k := [])\<rparr>"
  have "watch_inv ?l"
    using assms watch_set [OF assms(1), of k] watch_cb [OF assms(1), of _ k]
    unfolding watch_inv_def watch_handles_def by (auto split: if_splits)
  then obtain tr l' where r: "run_local k (\<lambda>cb h. watcher_calls (prog cb h)) ?l = Some (tr, l')" "watch_inv l'" "w_local l' k = []"
    "subseq tr (w_handles l k)"
    "\<forall>h\<in>set (w_handles l k). (\<forall>cb v. \<forall>a\<in>set (prog cb v). \<not> stops k h a) \<longrightarrow> h \<in> set tr"
    using run_local_ok [of ?l k prog] by auto
  moreover have "distinct tr" using watch_distinct [OF assms(1), of k] distinct_subseq [OF r(4)] by simp
  ultimately show ?thesis unfolding uv__run_watchers_def by blast
qed

lemma watch_init:
  fixes k :: watcher_kind
  assumes "watch_inv l" and "h \<notin> set (handle_queue l)" and "length (handle_queue l) + 1 < 2 ^ 32"
  defines "l' \<equiv> snd (uv_watcher_init k h l)"
  shows "watch_inv l'" and "handle_queue l' = handle_queue l @ [h]" and "h \<in> watch_handles k l'" and "\<not> uv__is_closing h l'"
    and "w_local l' = w_local l" and "w_handles l' = w_handles l"
proof -
  have f: "handle_queue l' = handle_queue l @ [h]" "w_local l' = w_local l" "w_handles l' = w_handles l"
    "w_cb l' = (w_cb l)(h := None)" "h_type l' = (h_type l)(h := wtype k)"
    "\<And>v. active l' v \<longleftrightarrow> active l v \<and> v \<noteq> h" "\<And>v. closing l' v \<longleftrightarrow> closing l v \<and> v \<noteq> h" "\<And>v. closed l' v \<longleftrightarrow> closed l v \<and> v \<noteq> h"
    by (simp_all add: l'_def uv_watcher_init_def Let_def) (simp_all add: uv__handle_init_def)
  then show "handle_queue l' = handle_queue l @ [h]" "h \<in> watch_handles k l'" "\<not> uv__is_closing h l'"
    "w_local l' = w_local l" "w_handles l' = w_handles l"
    by (simp_all add: watch_handles_def is_closing_iff)
  have "handles_ok l'"
    using handles_init [OF watch_handles_ok [OF assms(1)] assms(2,3), of "wtype k"]
    by (simp add: l'_def uv_watcher_init_def Let_def)
  moreover have "{v \<in> watch_handles k' l'. active l' v} = {v \<in> watch_handles k' l. active l v}" for k'
    using assms(2) by (auto simp: watch_handles_def f)
  moreover have "h \<notin> set (w_local l k') \<union> set (w_handles l k')" for k'
    using watch_set [OF assms(1), of k'] assms(2) by (auto simp: watch_handles_def)
  ultimately show "watch_inv l'"
    using watch_distinct [OF assms(1)] watch_set [OF assms(1)] watch_cb [OF assms(1)]
    unfolding watch_inv_def f by (metis fun_upd_other)
qed

definition fresh_watch :: "watcher_loop \<Rightarrow> watcher_loop" where
  "fresh_watch l = l\<lparr>active_handles := 0, handle_queue := [], w_handles := (\<lambda>_. []), w_local := (\<lambda>_. [])\<rparr>"

lemma fresh_watch_inv: "watch_inv (fresh_watch l)"
  by (simp add: fresh_watch_def watch_inv_def watch_handles_def handles_ok_def alive_handles_def)

lemma demo_watch:
  "\<exists>l :: watcher_loop. watch_inv l \<and> w_local l Idle = [] \<and> w_handles l Idle = [2, 1]"
proof -
  fix l0 :: watcher_loop
  let ?l1 = "snd (uv_watcher_init Idle 1 (fresh_watch l0))" and ?l2 = "snd (uv_watcher_init Idle 2 (snd (uv_watcher_init Idle 1 (fresh_watch l0))))"
  have q: "handle_queue (fresh_watch l0) = []" "w_local (fresh_watch l0) Idle = []" "w_handles (fresh_watch l0) Idle = []"
    by (simp_all add: fresh_watch_def)
  note i1 = watch_init [OF fresh_watch_inv, of 1 l0 Idle]
  note i2 = watch_init [OF i1(1), of 2 Idle]
  have a: "\<not> active ?l2 1" "\<not> active ?l2 2" by (simp_all add: uv_watcher_init_def Let_def)
  let ?l3 = "snd (uv_watcher_start Idle 1 (Some 5) ?l2)" and ?l4 = "snd (uv_watcher_start Idle 2 (Some 6) (snd (uv_watcher_start Idle 1 (Some 5) ?l2)))"
  have h1: "1 \<in> watch_handles Idle ?l2" "2 \<in> watch_handles Idle ?l2" "\<not> closing ?l2 1" "\<not> closing ?l2 2"
    by (auto simp: watch_handles_def uv_watcher_init_def Let_def) (simp_all add: uv__handle_init_def)
  have w2: "watch_inv ?l2" "w_local ?l2 Idle = []" "w_handles ?l2 Idle = []"
    using i1 i2 q by auto
  note s1 = watch_start [OF w2(1) h1(1,3), of "Some 5"]
  have h2: "2 \<in> watch_handles Idle ?l3" "\<not> closing ?l3 2" "w_handles ?l3 Idle = [1]" "\<not> active ?l3 2"
    using h1 s1(3,4) w2(3) a by (auto simp: watch_handles_def uv_watcher_start_def is_active_iff Let_def)
  note s2 = watch_start [OF s1(1) h2(1,2), of "Some 6"]
  have "w_handles ?l4 Idle = [2, 1]" using h2(3,4) by (simp add: uv_watcher_start_def [of Idle 2] is_active_iff Let_def)
  then show ?thesis using s2(1,2) s1(2) w2(2) by (intro exI [of _ ?l4]) simp
qed

theorem watchers_run_once_witness:
  "\<exists>l tr l'. uv__run_watchers Idle (\<lambda>cb h. watcher_calls [WStop Idle 1]) (l :: watcher_loop) = Some (tr, l') \<and>
    w_handles l Idle = [2, 1] \<and> 2 \<in> set tr \<and> watch_inv l'"
proof -
  obtain l :: watcher_loop where l: "watch_inv l" "w_local l Idle = []" "w_handles l Idle = [2, 1]" using demo_watch by blast
  obtain tr and l' :: watcher_loop where "uv__run_watchers Idle (\<lambda>cb h. watcher_calls [WStop Idle 1]) l = Some (tr, l')" "watch_inv l'"
    "\<forall>h\<in>set (w_handles l Idle). (\<forall>cb v. \<forall>a\<in>set [WStop Idle 1]. \<not> stops Idle h a) \<longrightarrow> h \<in> set tr"
    using watchers_run_once [OF l(1,2), of "\<lambda>_ _. [WStop Idle 1]"] by blast
  moreover from this(3) have "2 \<in> set tr" using l(3) by (auto simp: stops_def)
  ultimately show ?thesis using l(3) by blast
qed

end
