(* ===== verification/UV_Poll.thy ===== *)
theory UV_Poll
  imports UV_Watcher
begin

text \<open>
  Poll handles: src/unix/poll.c and \<open>uv__io_check_fd\<close> of src/unix/linux.c.  The watcher embedded
  in a handle has the handle's address.  Whether the kernel accepts a descriptor
  (\<open>add_error\<close>) and whether it can be made non-blocking (\<open>nonblock\<close>) are parameters.
\<close>

section \<open>Operations\<close>

record poll_state = watcher_loop +
  poll_cb :: "addr \<Rightarrow> nat option"

definition UV_READABLE :: u32 where "UV_READABLE = 1"
definition UV_WRITABLE :: u32 where "UV_WRITABLE = 2"
definition UV_DISCONNECT :: u32 where "UV_DISCONNECT = 4"
definition UV_PRIORITIZED :: u32 where "UV_PRIORITIZED = 8"

definition uv__io_check_fd ::
    "(int \<Rightarrow> uv_errno option) \<Rightarrow> int \<Rightarrow> 'a io_loop_scheme \<Rightarrow> ret \<times> 'a io_loop_scheme" where
  "uv__io_check_fd add_error fd l =
     (case (if kernel l fd = None then add_error fd else None) of
        Some e \<Rightarrow> (Inl e, l)
      | None \<Rightarrow> (OK, l\<lparr>kernel := (kernel l)(fd := None)\<rparr>))"

definition uv_poll_init ::
    "(int \<Rightarrow> uv_errno option) \<Rightarrow> (int \<Rightarrow> uv_errno option) \<Rightarrow> addr \<Rightarrow> int \<Rightarrow> 'a poll_state_scheme \<Rightarrow>
     (ret \<times> 'a poll_state_scheme) option" where
  "uv_poll_init add_error nonblock h fd l =
     (if uv__fd_exists fd l then Some (Inl UV_EEXIST, l)
      else case uv__io_check_fd add_error fd l of
        (Inl e, l) \<Rightarrow> Some (Inl e, l)
      | (Inr _, l) \<Rightarrow>
          (case nonblock fd of
             Some e \<Rightarrow> Some (Inl e, l)
           | None \<Rightarrow>
               Option.bind (uv__io_init h 0 fd (uv__handle_init h UV_POLL l)) (\<lambda>l.
               Some (OK, l\<lparr>poll_cb := (poll_cb l)(h := None)\<rparr>))))"

definition uv_poll_init_socket ::
    "(int \<Rightarrow> uv_errno option) \<Rightarrow> (int \<Rightarrow> uv_errno option) \<Rightarrow> addr \<Rightarrow> int \<Rightarrow> 'a poll_state_scheme \<Rightarrow>
     (ret \<times> 'a poll_state_scheme) option" where
  "uv_poll_init_socket add_error nonblock h socket l = uv_poll_init add_error nonblock h socket l"

definition uv__poll_stop :: "addr \<Rightarrow> 'a poll_state_scheme \<Rightarrow> 'a poll_state_scheme option" where
  "uv__poll_stop h l =
     Option.bind (uv__io_stop h io_mask l) (\<lambda>l.
       let l = uv__handle_stop h l in Some (uv__platform_invalidate_fd (io_fd (io l h)) l))"

definition uv_poll_stop :: "addr \<Rightarrow> 'a poll_state_scheme \<Rightarrow> 'a poll_state_scheme option" where
  "uv_poll_stop h l = (if uv__is_closing h l then None else uv__poll_stop h l)"

text \<open>The translations between the events of a poll handle and those of a watcher.\<close>

definition poll_to_io :: "u32 \<Rightarrow> u32" where
  "poll_to_io pevents =
     (let events = 0;
          events = (if has_flag pevents UV_READABLE then or events POLLIN else events);
          events = (if has_flag pevents UV_PRIORITIZED then or events POLLPRI else events);
          events = (if has_flag pevents UV_WRITABLE then or events POLLOUT else events)
      in if has_flag pevents UV_DISCONNECT then or events POLLRDHUP else events)"

definition io_to_poll :: "u32 \<Rightarrow> u32" where
  "io_to_poll events =
     (let pevents = 0;
          pevents = (if has_flag events POLLIN then or pevents UV_READABLE else pevents);
          pevents = (if has_flag events POLLPRI then or pevents UV_PRIORITIZED else pevents);
          pevents = (if has_flag events POLLOUT then or pevents UV_WRITABLE else pevents)
      in if has_flag events POLLRDHUP then or pevents UV_DISCONNECT else pevents)"

definition poll_mask :: u32 where
  "poll_mask = or (or (or UV_READABLE UV_WRITABLE) UV_DISCONNECT) UV_PRIORITIZED"

definition uv_poll_start ::
    "addr \<Rightarrow> u32 \<Rightarrow> nat option \<Rightarrow> 'a poll_state_scheme \<Rightarrow> (ret \<times> 'a poll_state_scheme) option" where
  "uv_poll_start h pevents cb l =
     (if and pevents (not poll_mask) \<noteq> 0 \<or> uv__is_closing h l then None
      else if uv__fd_exists (io_fd (io l h)) l \<and> watchers l ! nat (io_fd (io l h)) \<noteq> Some h then Some (Inl UV_EEXIST, l)
      else Option.bind (uv__poll_stop h l) (\<lambda>l.
             if pevents = 0 then Some (OK, l)
             else Option.bind (uv__io_start h (poll_to_io pevents) l) (\<lambda>l.
                    let l = uv__handle_start h l in Some (OK, l\<lparr>poll_cb := (poll_cb l)(h := cb)\<rparr>))))"

definition uv__poll_close :: "addr \<Rightarrow> 'a poll_state_scheme \<Rightarrow> 'a poll_state_scheme option" where
  "uv__poll_close h l = uv__poll_stop h l"

text \<open>The watcher's callback; \<open>run\<close> is the effect of the user's callback with its status and events.\<close>

definition uv__poll_io ::
    "(nat \<Rightarrow> addr \<Rightarrow> ret \<Rightarrow> u32 \<Rightarrow> 'a poll_state_scheme \<Rightarrow> 'a poll_state_scheme option) \<Rightarrow> addr \<Rightarrow> u32 \<Rightarrow>
     'a poll_state_scheme \<Rightarrow> 'a poll_state_scheme option" where
  "uv__poll_io run h events l =
     (if has_flag events POLLERR \<and> \<not> has_flag events POLLPRI then
        Option.bind (uv__io_stop h io_mask l) (\<lambda>l.
          let l = uv__handle_stop h l
          in Option.bind (poll_cb l h) (\<lambda>cb. run cb h (Inl UV_EBADF) 0 l))
      else Option.bind (poll_cb l h) (\<lambda>cb. run cb h OK (io_to_poll events) l))"

section \<open>Events\<close>

lemmas poll_consts = UV_READABLE_def UV_WRITABLE_def UV_DISCONNECT_def UV_PRIORITIZED_def
  POLLIN_def POLLOUT_def POLLPRI_def POLLRDHUP_def

lemma poll_flag_bits:
  "has_flag e POLLIN \<longleftrightarrow> bit e 0" "has_flag e POLLPRI \<longleftrightarrow> bit e 1" "has_flag e POLLOUT \<longleftrightarrow> bit e 2" "has_flag e POLLRDHUP \<longleftrightarrow> bit e 13"
  "has_flag e UV_READABLE \<longleftrightarrow> bit e 0" "has_flag e UV_WRITABLE \<longleftrightarrow> bit e 1" "has_flag e UV_DISCONNECT \<longleftrightarrow> bit e 2"
  "has_flag e UV_PRIORITIZED \<longleftrightarrow> bit e 3"
proof -
  have p: "has_flag e (2 ^ n) \<longleftrightarrow> bit e n" for n
    by (simp add: has_flag_def bit_iff_and_push_bit_not_eq_0 push_bit_eq_mult)
  show "has_flag e POLLIN \<longleftrightarrow> bit e 0" "has_flag e POLLPRI \<longleftrightarrow> bit e 1" "has_flag e POLLOUT \<longleftrightarrow> bit e 2" "has_flag e POLLRDHUP \<longleftrightarrow> bit e 13"
  "has_flag e UV_READABLE \<longleftrightarrow> bit e 0" "has_flag e UV_WRITABLE \<longleftrightarrow> bit e 1" "has_flag e UV_DISCONNECT \<longleftrightarrow> bit e 2"
  "has_flag e UV_PRIORITIZED \<longleftrightarrow> bit e 3"
    using p [of 0] p [of 1] p [of 2] p [of 3] p [of 13] by (simp_all add: poll_consts)
qed

lemma const_bits:
  "bit UV_READABLE n \<longleftrightarrow> n = 0" "bit UV_WRITABLE n \<longleftrightarrow> n = 1" "bit UV_DISCONNECT n \<longleftrightarrow> n = 2" "bit UV_PRIORITIZED n \<longleftrightarrow> n = 3"
  "bit POLLIN n \<longleftrightarrow> n = 0" "bit POLLPRI n \<longleftrightarrow> n = 1" "bit POLLOUT n \<longleftrightarrow> n = 2" "bit POLLRDHUP n \<longleftrightarrow> n = 13"
  "bit POLLERR n \<longleftrightarrow> n = 3" "bit POLLHUP n \<longleftrightarrow> n = 4"
proof -
  have p: "bit (2 ^ k :: u32) n \<longleftrightarrow> n = k" if "k < 32" for k
    using that by (auto simp: bit_exp_iff possible_bit_word)
  show "bit UV_READABLE n \<longleftrightarrow> n = 0" "bit UV_WRITABLE n \<longleftrightarrow> n = 1" "bit UV_DISCONNECT n \<longleftrightarrow> n = 2" "bit UV_PRIORITIZED n \<longleftrightarrow> n = 3"
    "bit POLLIN n \<longleftrightarrow> n = 0" "bit POLLPRI n \<longleftrightarrow> n = 1" "bit POLLOUT n \<longleftrightarrow> n = 2" "bit POLLRDHUP n \<longleftrightarrow> n = 13"
  "bit POLLERR n \<longleftrightarrow> n = 3" "bit POLLHUP n \<longleftrightarrow> n = 4"
    unfolding poll_consts POLLERR_def POLLHUP_def
    using p [of 0] p [of 1] p [of 2] p [of 3] p [of 4] p [of 13] by simp_all
qed

lemma poll_to_io_bits: "bit (poll_to_io p) n \<longleftrightarrow>
    n = 0 \<and> bit p 0 \<or> n = 1 \<and> bit p 3 \<or> n = 2 \<and> bit p 1 \<or> n = 13 \<and> bit p 2"
  unfolding poll_to_io_def poll_flag_bits Let_def by (auto simp: bit_or_iff const_bits)

lemma io_to_poll_bits: "bit (io_to_poll e) n \<longleftrightarrow>
    n = 0 \<and> bit e 0 \<or> n = 3 \<and> bit e 1 \<or> n = 1 \<and> bit e 2 \<or> n = 2 \<and> bit e 13"
  unfolding io_to_poll_def poll_flag_bits Let_def by (auto simp: bit_or_iff const_bits)

lemma poll_mask_bits: "bit poll_mask n \<longleftrightarrow> n < 4"
  unfolding poll_mask_def bit_or_iff const_bits by auto

lemma io_mask_bits: "bit io_mask n \<longleftrightarrow> n = 0 \<or> n = 1 \<or> n = 2 \<or> n = 13"
  unfolding io_mask_def bit_or_iff const_bits by auto

lemma mask_bits: "and e (not m) = 0 \<longleftrightarrow> (\<forall>n. bit (e :: u32) n \<longrightarrow> bit m n)"
proof
  assume a: "and e (not m) = 0"
  show "\<forall>n. bit e n \<longrightarrow> bit m n"
  proof (intro allI impI)
    fix n
    assume "bit e n"
    moreover have "\<not> bit (and e (not m)) n" by (simp add: a)
    ultimately show "bit m n" using bit_imp_le_length [of e n] by (auto simp: bit_and_iff bit_not_iff possible_bit_word)
  qed
next
  assume "\<forall>n. bit e n \<longrightarrow> bit m n"
  then show "and e (not m) = 0" by (intro bit_word_eqI) (auto simp: bit_and_iff bit_not_iff)
qed

lemma poll_to_io_valid: "and p (not poll_mask) = 0 \<Longrightarrow> p \<noteq> 0 \<Longrightarrow> valid_events (poll_to_io p)"
proof -
  assume p: "and p (not poll_mask) = 0" "p \<noteq> 0"
  obtain n where n: "bit p n" using p(2) bit_word_eqI [of p 0] by auto
  then have "n < 4" using p(1) by (auto simp: mask_bits poll_mask_bits)
  then have "n = 0 \<or> n = 1 \<or> n = 2 \<or> n = 3" by linarith
  then have "\<exists>m. bit (poll_to_io p) m" using n unfolding poll_to_io_bits by (elim disjE) auto
  then have "poll_to_io p \<noteq> 0" by auto
  then show ?thesis by (auto simp: valid_events_def mask_bits poll_to_io_bits io_mask_bits)
qed

section \<open>The loop's invariant\<close>

lemma io_inv_cong:
  assumes "watchers l' = watchers l" "nwatchers l' = nwatchers l" "nfds l' = nfds l" "io l' = io l" "watcher_queue l' = watcher_queue l"
    "kernel l' = kernel l" "inv l' = inv l" "mem_ok l' = mem_ok l"
  shows "io_inv l' = io_inv l"
  using assms by (simp add: io_inv_def io_ok_def io_masked_def memory_def table_size_def registered_def)

lemma handle_io_frame [simp]:
  "watchers (uv__handle_start h l) = watchers l" "watchers (uv__handle_stop h l) = watchers l"
  "nwatchers (uv__handle_start h l) = nwatchers l" "nwatchers (uv__handle_stop h l) = nwatchers l"
  "nfds (uv__handle_start h l) = nfds l" "nfds (uv__handle_stop h l) = nfds l"
  "io (uv__handle_start h l) = io l" "io (uv__handle_stop h l) = io l"
  "watcher_queue (uv__handle_start h l) = watcher_queue l" "watcher_queue (uv__handle_stop h l) = watcher_queue l"
  "kernel (uv__handle_start h l) = kernel l" "kernel (uv__handle_stop h l) = kernel l"
  "inv (uv__handle_start h l) = inv l" "inv (uv__handle_stop h l) = inv l"
  "mem_ok (uv__handle_start h l) = mem_ok l" "mem_ok (uv__handle_stop h l) = mem_ok l"
  "table_size (uv__handle_start h l) = table_size l" "table_size (uv__handle_stop h l) = table_size l"
  by (simp_all add: handle_defs table_size_def Let_def)

lemma io_inv_handle [simp]: "io_inv (uv__handle_start h l) = io_inv l" "io_inv (uv__handle_stop h l) = io_inv l"
  by (rule io_inv_cong; simp)+

lemma io_stop_handles:
  "uv__io_stop w e l = Some l' \<Longrightarrow> h_flags l' = h_flags l"
  by (auto simp: uv__io_stop_def Let_def set_io_def split: if_splits)

lemma io_start_handles:
  "uv__io_start w e l = Some l' \<Longrightarrow> h_flags l' = h_flags l"
  by (auto simp: uv__io_start_def maybe_resize_def Let_def set_io_def split: if_splits)

lemma poll_stop_ok:
  assumes "io_inv l" and "sole h l"
  shows "\<exists>l'. uv__poll_stop h l = Some l' \<and> io_inv l' \<and> io_pevents (io l' h) = 0 \<and> io_fd (io l' h) = io_fd (io l h) \<and> sole h l' \<and>
    (\<forall>k. active l' k \<longleftrightarrow> active l k \<and> k \<noteq> h)"
proof -
  obtain l1 where l1: "uv__io_stop h io_mask l = Some l1" "io_inv l1" "io_later l l1"
    "io_pevents (io l1 h) = and (io_pevents (io l h)) (not io_mask)" "\<And>w'. io_fd (io l1 w') = io_fd (io l w')"
    "\<And>w'. w' \<noteq> h \<Longrightarrow> io l1 w' = io l w'"
    using io_stop_inv [OF assms(1) valid_io_mask, of h] by blast
  have ok: "io_ok l" "io_ok l1" and p: "io_pevents (io l1 h) = 0"
    using assms(1) l1(2,4) by (auto simp: io_inv_def io_masked_def)
  let ?l2 = "uv__handle_stop h l1"
  let ?l3 = "uv__platform_invalidate_fd (io_fd (io l h)) ?l2"
  have none: "io_pevents (io ?l2 w') = 0" if "io_fd (io ?l2 w') = io_fd (io l h)" for w'
    using sole_only [OF ok(1) assms(2), of w'] that l1(5) [of w'] l1(6) [of w'] p by (cases "w' = h") auto
  have "io_inv ?l2" using l1(2) by simp
  then have i: "io_inv ?l3" using invalidate_inv [OF _ none] by blast
  have s: "uv__poll_stop h l = Some ?l3" using l1(1,5) by (simp add: uv__poll_stop_def Let_def)
  have f: "io ?l3 = io l1" "watchers ?l3 = watchers l1" "table_size ?l3 = table_size l1"
    by (simp_all add: uv__platform_invalidate_fd_def table_size_def)
  have "watchers l1 ! nat (io_fd (io l h)) = None"
    if "0 \<le> io_fd (io l h)" "io_fd (io l h) < int (table_size l1)"
  proof (rule ccontr)
    assume "watchers l1 ! nat (io_fd (io l h)) \<noteq> None"
    then obtain w' where w': "watchers l1 ! nat (io_fd (io l h)) = Some w'" by auto
    have "nat (io_fd (io l h)) < table_size l1" using that by linarith
    then have "io_fd (io l1 w') = io_fd (io l h)" "io_pevents (io l1 w') \<noteq> 0"
      using io_ok_entry [OF ok(2) _ w'] that(1) by auto
    then show False using none [of w'] by simp
  qed
  then have "sole h ?l3" unfolding sole_def f l1(5) by (metis not_le_imp_less)
  moreover have "active ?l3 k \<longleftrightarrow> active l k \<and> k \<noteq> h" for k
  proof -
    have fl: "h_flags ?l3 = h_flags ?l2" by (simp add: uv__platform_invalidate_fd_def)
    have "active ?l3 k \<longleftrightarrow> active ?l2 k" unfolding active_def fl ..
    moreover have "active l1 k \<longleftrightarrow> active l k" unfolding active_def io_stop_handles [OF l1(1)] ..
    ultimately show ?thesis by simp
  qed
  ultimately show ?thesis using s i p l1(5) by (intro exI [of _ ?l3]) (simp add: f)
qed

text \<open>Starting a poll handle on a descriptor that another watcher has is refused and changes
  nothing.  Otherwise the requested events replace the old ones: the watcher's mask becomes their
  translation, the handle is active exactly when any were requested, and the loop stays
  consistent.\<close>

theorem poll_start_replaces:
  assumes "io_inv l" and "and pevents (not poll_mask) = 0" and "\<not> uv__is_closing h l"
    and "0 \<le> io_fd (io l h)" and "io_fd (io l h) + 3 \<le> 2 ^ 31"
  shows "if sole h l
    then \<exists>l'. uv_poll_start h pevents cb l = Some (OK, l') \<and> io_inv l' \<and> io_pevents (io l' h) = poll_to_io pevents \<and>
      (active l' h \<longleftrightarrow> pevents \<noteq> 0)
    else uv_poll_start h pevents cb l = Some (Inl UV_EEXIST, l)"
proof (cases "sole h l")
  case False
  then have "0 \<le> io_fd (io l h)" "io_fd (io l h) < int (table_size l)" "watchers l ! nat (io_fd (io l h)) \<noteq> None"
    "watchers l ! nat (io_fd (io l h)) \<noteq> Some h" by (auto simp: sole_def)
  moreover have "(of_int (io_fd (io l h)) :: u32) < nwatchers l"
  proof -
    have "uint (of_int (io_fd (io l h)) :: u32) = io_fd (io l h)"
      using assms(4,5) by (simp add: unsigned_of_int take_bit_int_eq_self)
    then show ?thesis using calculation(2) by (simp add: word_less_def table_size_def)
  qed
  ultimately have "uv_poll_start h pevents cb l = Some (Inl UV_EEXIST, l)"
    using assms(2,3) by (simp add: uv_poll_start_def uv__fd_exists_def)
  then show ?thesis using False by simp
next
  case True
  have ok: "io_ok l" using assms(1) by (simp add: io_inv_def)
  obtain l1 where l1: "uv__poll_stop h l = Some l1" "io_inv l1" "io_pevents (io l1 h) = 0" "io_fd (io l1 h) = io_fd (io l h)"
    "sole h l1" "\<And>k. active l1 k \<longleftrightarrow> active l k \<and> k \<noteq> h"
    using poll_stop_ok [OF assms(1) True] by blast
  have mine: "\<not> (uv__fd_exists (io_fd (io l h)) l \<and> watchers l ! nat (io_fd (io l h)) \<noteq> Some h)"
  proof
    assume a: "uv__fd_exists (io_fd (io l h)) l \<and> watchers l ! nat (io_fd (io l h)) \<noteq> Some h"
    have "uint (of_int (io_fd (io l h)) :: u32) = io_fd (io l h)"
      using assms(4,5) by (simp add: unsigned_of_int take_bit_int_eq_self)
    then have "io_fd (io l h) < int (table_size l)" using a by (simp add: uv__fd_exists_def word_less_def table_size_def)
    then show False using a True assms(4) by (auto simp: sole_def uv__fd_exists_def)
  qed
  have s: "uv_poll_start h pevents cb l = (if pevents = 0 then Some (OK, l1)
      else Option.bind (uv__io_start h (poll_to_io pevents) l1) (\<lambda>l.
        let l = uv__handle_start h l in Some (OK, l\<lparr>poll_cb := (poll_cb l)(h := cb)\<rparr>)))"
    using assms(2,3) mine l1(1) by (auto simp: uv_poll_start_def)
  show ?thesis
  proof (cases "pevents = 0")
    case z: True
    have "poll_to_io 0 = 0" by (rule bit_word_eqI) (simp add: poll_to_io_bits)
    then show ?thesis using s z l1 True by simp
  next
    case False
    have v: "valid_events (poll_to_io pevents)" by (rule poll_to_io_valid [OF assms(2) False])
    have inv1: "io_ok l1" "memory l1" using l1(2) by (auto simp: io_inv_def)
    have "can_start h (poll_to_io pevents) l1"
      using v assms(4,5) l1(4) sole_only [OF inv1(1) l1(5)] by (auto simp: can_start_def)
    then obtain l2 where l2: "uv__io_start h (poll_to_io pevents) l1 = Some l2"
      "io l2 = (io l1)(h := (io l1 h)\<lparr>io_pevents := or (io_pevents (io l1 h)) (poll_to_io pevents)\<rparr>)"
      using io_start_ok [OF inv1] by blast
    have i2: "io_inv l2" using io_start_inv [OF l1(2), of h "poll_to_io pevents"] l2(1) v assms(4,5) l1(4,5) by auto
    let ?l3 = "uv__handle_start h l2"
    let ?l4 = "?l3\<lparr>poll_cb := (poll_cb ?l3)(h := cb)\<rparr>"
    have "uv_poll_start h pevents cb l = Some (OK, ?l4)" using s False l2(1) by (simp add: Let_def)
    moreover have "io_inv ?l4" using i2 by (subst io_inv_cong [of ?l4 ?l3]) simp_all
    moreover have "io_pevents (io ?l4 h) = poll_to_io pevents" using l2(2) l1(3) by simp
    moreover have "active ?l4 h"
    proof -
      have "h_flags ?l4 = h_flags ?l3" by simp
      then have "active ?l4 h \<longleftrightarrow> active ?l3 h" unfolding active_def by simp
      then show ?thesis by simp
    qed
    ultimately show ?thesis using True False by auto
  qed
qed

theorem poll_start_replaces_witness:
  "\<exists>(l :: poll_state) l'. uv_poll_start 1 UV_WRITABLE (Some 3) l = Some (OK, l') \<and> io_pevents (io l 1) = POLLIN \<and>
    io_pevents (io l' 1) = POLLOUT \<and> active l' 1"
proof -
  obtain l0 :: poll_state where l0: "io_inv l0" "io_fd (io l0 1) = 3" "io_pevents (io l0 1) = POLLIN" "sole 1 l0"
    using demo_io by blast
  define l where "l = l0\<lparr>h_flags := (\<lambda>_. 0)\<rparr>"
  have l: "io_inv l" "io_fd (io l 1) = 3" "io_pevents (io l 1) = POLLIN" "sole 1 l" "\<not> uv__is_closing 1 l"
    using l0 io_inv_cong [of l l0] by (simp_all add: l_def sole_def table_size_def is_closing_iff flag_views)
  have "and UV_WRITABLE (not poll_mask) = 0" by (simp add: poll_mask_def poll_consts)
  moreover have "poll_to_io UV_WRITABLE = POLLOUT" by (rule bit_word_eqI) (simp add: poll_to_io_bits const_bits)
  ultimately obtain l' :: poll_state where "uv_poll_start 1 UV_WRITABLE (Some 3) l = Some (OK, l')"
    "io_pevents (io l' 1) = POLLOUT" "active l' 1 \<longleftrightarrow> UV_WRITABLE \<noteq> 0"
    using poll_start_replaces [OF l(1), of UV_WRITABLE 1 "Some 3"] l(2,4,5) by auto
  then show ?thesis using l(3) by (intro exI [of _ l] exI [of _ l']) (simp add: UV_WRITABLE_def)
qed

text \<open>A poll handle is never told of events it did not ask for: whatever part of the
  watcher's mask, error or hangup arrives, the callback gets a subset of the requested events, or
  the status EBADF on a lone error.\<close>

theorem poll_reports_requested:
  assumes "and events (not (or (or (poll_to_io pevents) POLLERR) POLLHUP)) = 0"
  shows "\<exists>p. and p (not pevents) = 0 \<and>
    (has_flag events POLLERR \<and> \<not> has_flag events POLLPRI \<or>
     uv__poll_io run h events l = Option.bind (poll_cb l h) (\<lambda>cb. run cb h OK p l))"
proof -
  have e: "bit (poll_to_io pevents) n" if "n = 0 \<or> n = 1 \<or> n = 2 \<or> n = 13" "bit events n" for n
  proof -
    have "bit (or (or (poll_to_io pevents) POLLERR) POLLHUP) n" using assms that(2) unfolding mask_bits by blast
    then show ?thesis using that(1) by (auto simp: bit_or_iff const_bits)
  qed
  have "and (io_to_poll events) (not pevents) = 0"
    unfolding mask_bits io_to_poll_bits using e [of 0] e [of 1] e [of 2] e [of 13] unfolding poll_to_io_bits by auto
  then show ?thesis by (intro exI [of _ "io_to_poll events"]) (auto simp: uv__poll_io_def)
qed

theorem poll_reports_requested_witness:
  "\<forall>h (l :: poll_state). \<exists>p. and p (not UV_READABLE) = 0 \<and>
    uv__poll_io (\<lambda>cb h r p l. Some l) h (or POLLIN POLLHUP) l = Option.bind (poll_cb l h) (\<lambda>cb. Some l)"
proof -
  have "poll_to_io UV_READABLE = POLLIN" by (rule bit_word_eqI) (simp add: poll_to_io_bits const_bits)
  then have "and (or POLLIN POLLHUP) (not (or (or (poll_to_io UV_READABLE) POLLERR) POLLHUP)) = 0"
    by (simp add: POLLIN_def POLLHUP_def POLLERR_def)
  from poll_reports_requested [OF this, of "\<lambda>cb h r p l. Some (l :: poll_state)"]
  show ?thesis by (fastforce simp: has_flag_def POLLIN_def POLLHUP_def POLLERR_def)
qed

end
