(* ===== verification/UV_Core.thy ===== *)
theory UV_Core
  imports UV_Poll
begin

text \<open>
  The event loop: closing handles, liveness, the poll timeout and \<open>uv_run\<close> of src/unix/core.c.
  The handle types whose own closing code is not modelled (streams, UDP, processes, signals, file
  system events) enter through the parameters \<open>others\<close> (the type's case of \<open>uv_close\<close>) and
  \<open>fin\<close> (its case of \<open>uv__finish_close\<close>).  Callbacks are parameters: \<open>run\<close> for the handles
  and \<open>run_io\<close> for the watchers.
\<close>

section \<open>State\<close>

record core_loop = poll_state +
  loop_flags :: u32
  caught_signals :: "addr \<Rightarrow> u32"
  dispatched_signals :: "addr \<Rightarrow> u32"
  clock_reads :: nat
  poll_count :: nat

definition UV_LOOP_REAP_CHILDREN :: u32 where "UV_LOOP_REAP_CHILDREN = 2"

section \<open>Closing\<close>

definition uv_close ::
    "(uv_handle_type \<Rightarrow> addr \<Rightarrow> 'a core_loop_scheme \<Rightarrow> 'a core_loop_scheme option) \<Rightarrow> addr \<Rightarrow> nat option \<Rightarrow>
     'a core_loop_scheme \<Rightarrow> 'a core_loop_scheme option" where
  "uv_close others h close_cb l =
     (if uv__is_closing h l then None
      else let l = mark_closing h close_cb l
           in case h_type l h of
                UV_NAMED_PIPE \<Rightarrow> Option.bind (others UV_NAMED_PIPE h l) (uv__make_close_pending h)
              | UV_TTY \<Rightarrow> Option.bind (others UV_TTY h l) (uv__make_close_pending h)
              | UV_TCP \<Rightarrow> Option.bind (others UV_TCP h l) (uv__make_close_pending h)
              | UV_UDP \<Rightarrow> Option.bind (others UV_UDP h l) (uv__make_close_pending h)
              | UV_PREPARE \<Rightarrow> uv__make_close_pending h (uv__watcher_close Prepare h l)
              | UV_CHECK \<Rightarrow> uv__make_close_pending h (uv__watcher_close Check h l)
              | UV_IDLE \<Rightarrow> uv__make_close_pending h (uv__watcher_close Idle h l)
              | UV_ASYNC \<Rightarrow> Option.bind (others UV_ASYNC h l) (uv__make_close_pending h)
              | UV_TIMER \<Rightarrow> Option.bind (uv__timer_close h l) (uv__make_close_pending h)
              | UV_PROCESS \<Rightarrow> Option.bind (others UV_PROCESS h l) (uv__make_close_pending h)
              | UV_FS_EVENT \<Rightarrow> Option.bind (others UV_FS_EVENT h l) (uv__make_close_pending h)
              | UV_POLL \<Rightarrow> Option.bind (uv__poll_close h l) (uv__make_close_pending h)
              | UV_FS_POLL \<Rightarrow> others UV_FS_POLL h l
              | UV_SIGNAL \<Rightarrow> Option.bind (others UV_SIGNAL h l) (uv__make_close_pending h)
              | _ \<Rightarrow> None)"

text \<open>The end of \<open>uv__finish_close\<close>; the result lists the handle if its callback ran.\<close>

definition close_tail ::
    "(nat \<Rightarrow> addr \<Rightarrow> 'a core_loop_scheme \<Rightarrow> 'a core_loop_scheme option) \<Rightarrow> addr \<Rightarrow> 'a core_loop_scheme \<Rightarrow>
     (addr list \<times> 'a core_loop_scheme) option" where
  "close_tail run h l =
     (let l = finish_close_unlink h l
      in case h_close_cb l h of
           None \<Rightarrow> Some ([], l)
         | Some cb \<Rightarrow> Option.bind (run cb h l) (\<lambda>l. Some ([h], l)))"

definition uv__finish_close ::
    "(uv_handle_type \<Rightarrow> addr \<Rightarrow> 'a core_loop_scheme \<Rightarrow> 'a core_loop_scheme option) \<Rightarrow>
     (nat \<Rightarrow> addr \<Rightarrow> 'a core_loop_scheme \<Rightarrow> 'a core_loop_scheme option) \<Rightarrow> addr \<Rightarrow> 'a core_loop_scheme \<Rightarrow>
     (addr list \<times> 'a core_loop_scheme) option" where
  "uv__finish_close fin run h l =
     (if \<not> has_flag (h_flags l h) UV_HANDLE_CLOSING \<or> has_flag (h_flags l h) UV_HANDLE_CLOSED then None
      else let l = set_flags h (add_flag (h_flags l h) UV_HANDLE_CLOSED) l
           in if h_type l h \<in> {UV_PREPARE, UV_CHECK, UV_IDLE, UV_ASYNC, UV_TIMER, UV_PROCESS, UV_FS_EVENT, UV_FS_POLL, UV_POLL}
              then close_tail run h l
              else if h_type l h = UV_SIGNAL then
                (if caught_signals l h > dispatched_signals l h then
                   (let l = set_flags h (xor (h_flags l h) UV_HANDLE_CLOSED) l
                    in Option.bind (uv__make_close_pending h l) (\<lambda>l. Some ([], l)))
                 else close_tail run h l)
              else if h_type l h \<in> {UV_NAMED_PIPE, UV_TCP, UV_TTY, UV_UDP} then
                Option.bind (fin (h_type l h) h l) (close_tail run h)
              else None)"

fun closing_loop ::
    "(uv_handle_type \<Rightarrow> addr \<Rightarrow> 'a core_loop_scheme \<Rightarrow> 'a core_loop_scheme option) \<Rightarrow>
     (nat \<Rightarrow> addr \<Rightarrow> 'a core_loop_scheme \<Rightarrow> 'a core_loop_scheme option) \<Rightarrow> addr list \<Rightarrow> 'a core_loop_scheme \<Rightarrow>
     (addr list \<times> 'a core_loop_scheme) option" where
  "closing_loop fin run [] l = Some ([], l)"
| "closing_loop fin run (p # q) l =
     Option.bind (uv__finish_close fin run p l) (\<lambda>(hs, l).
     Option.bind (closing_loop fin run q l) (\<lambda>(hs', l). Some (hs @ hs', l)))"

definition uv__run_closing_handles ::
    "(uv_handle_type \<Rightarrow> addr \<Rightarrow> 'a core_loop_scheme \<Rightarrow> 'a core_loop_scheme option) \<Rightarrow>
     (nat \<Rightarrow> addr \<Rightarrow> 'a core_loop_scheme \<Rightarrow> 'a core_loop_scheme option) \<Rightarrow> 'a core_loop_scheme \<Rightarrow>
     (addr list \<times> 'a core_loop_scheme) option" where
  "uv__run_closing_handles fin run l = closing_loop fin run (closing_handles l) (l\<lparr>closing_handles := []\<rparr>)"

section \<open>Liveness and timeouts\<close>

definition uv__loop_alive :: "'a core_loop_scheme \<Rightarrow> bool" where
  "uv__loop_alive l \<longleftrightarrow>
     uv__has_active_handles l \<or> uv__has_active_reqs l \<or> pending_queue l \<noteq> [] \<or> closing_handles l \<noteq> []"

definition uv_loop_alive :: "'a core_loop_scheme \<Rightarrow> bool" where
  "uv_loop_alive l = uv__loop_alive l"

definition uv__backend_timeout :: "'a core_loop_scheme \<Rightarrow> int" where
  "uv__backend_timeout l =
     (if stop_flag l = 0 \<and> (uv__has_active_handles l \<or> uv__has_active_reqs l) \<and> pending_queue l = [] \<and>
         w_handles l Idle = [] \<and> and (loop_flags l) UV_LOOP_REAP_CHILDREN = 0 \<and> closing_handles l = []
      then uv__next_timeout l else 0)"

definition uv_backend_timeout :: "'a core_loop_scheme \<Rightarrow> int" where
  "uv_backend_timeout l = (if watcher_queue l = [] then uv__backend_timeout l else 0)"

text \<open>\<open>now k\<close> is the \<open>k\<close>th reading of the clock, in milliseconds.\<close>

definition uv__update_time :: "(nat \<Rightarrow> u64) \<Rightarrow> 'a core_loop_scheme \<Rightarrow> 'a core_loop_scheme" where
  "uv__update_time now l = l\<lparr>time := now (clock_reads l), clock_reads := clock_reads l + 1\<rparr>"

section \<open>Running\<close>

datatype uv_run_mode = UV_RUN_DEFAULT | UV_RUN_ONCE | UV_RUN_NOWAIT

text \<open>What a phase of an iteration ran; a poll has its timeout and its callbacks.\<close>

datatype phase =
    Timers "addr list"
  | Pendings "addr list"
  | Idles "addr list"
  | Prepares "addr list"
  | Polls int "(addr \<times> u32) list"
  | Checks "addr list"
  | Closings "addr list"

text \<open>The loop \<open>for (r = 0; r < 8 && pending; r++)\<close>.\<close>

fun pending_rounds :: "nat \<Rightarrow> (nat \<Rightarrow> addr \<Rightarrow> u32 \<Rightarrow> 'a core_loop_scheme \<Rightarrow> 'a core_loop_scheme option) \<Rightarrow>
    'a core_loop_scheme \<Rightarrow> (phase list \<times> 'a core_loop_scheme) option" where
  "pending_rounds 0 run_io l = Some ([], l)"
| "pending_rounds (Suc n) run_io l =
     (if pending_queue l = [] then Some ([], l)
      else Option.bind (uv__run_pending run_io l) (\<lambda>(ws, l).
           Option.bind (pending_rounds n run_io l) (\<lambda>(ps, l). Some (Pendings ws # ps, l))))"

text \<open>The world the loop runs in: callbacks, the clock, the answers of the kernel.\<close>

record 'l world =
  w_run :: "nat \<Rightarrow> addr \<Rightarrow> 'l \<Rightarrow> 'l option"
  w_run_io :: "nat \<Rightarrow> addr \<Rightarrow> u32 \<Rightarrow> 'l \<Rightarrow> 'l option"
  w_fin :: "uv_handle_type \<Rightarrow> addr \<Rightarrow> 'l \<Rightarrow> 'l option"
  w_now :: "nat \<Rightarrow> u64"
  w_waits :: "nat \<Rightarrow> int \<Rightarrow> u64 \<times> pwait"
  signal_watcher :: addr
  w_idle_time :: bool

definition uv_iteration :: "'a core_loop_scheme world \<Rightarrow> uv_run_mode \<Rightarrow> 'a core_loop_scheme \<Rightarrow>
    (phase list \<times> 'a core_loop_scheme) option" where
  "uv_iteration W mode l = do {
     let can_sleep = (pending_queue l = [] \<and> w_handles l Idle = []);
     (pend, l) \<leftarrow> uv__run_pending (w_run_io W) l;
     (idle, l) \<leftarrow> uv__run_watchers Idle (w_run W) l;
     (prep, l) \<leftarrow> uv__run_watchers Prepare (w_run W) l;
     let timeout = (if mode = UV_RUN_ONCE \<and> can_sleep \<or> mode = UV_RUN_DEFAULT then uv__backend_timeout l else 0);
     (tr, _, k, l) \<leftarrow> uv__io_poll (w_run_io W) (signal_watcher W) (w_waits W) (w_idle_time W) (poll_count l) timeout l;
     (ps, l) \<leftarrow> pending_rounds 8 (w_run_io W) (l\<lparr>poll_count := k\<rparr>);
     (chk, l) \<leftarrow> uv__run_watchers Check (w_run W) l;
     (cls, l) \<leftarrow> uv__run_closing_handles (w_fin W) (w_run W) l;
     (tim, l) \<leftarrow> uv__run_timers (w_run W) (uv__update_time (w_now W) l);
     Some ([Pendings pend, Idles idle, Prepares prep, Polls timeout (map (\<lambda>(w, e, _). (w, e)) tr)] @ ps @
           [Checks chk, Closings cls, Timers tim], l)
   }"

partial_function (option) uv_run_loop :: "'a core_loop_scheme world \<Rightarrow> uv_run_mode \<Rightarrow> bool \<Rightarrow> 'a core_loop_scheme \<Rightarrow>
    (phase list \<times> bool \<times> 'a core_loop_scheme) option" where
  "uv_run_loop W mode r l =
     (if r \<and> stop_flag l = 0 then
        Option.bind (uv_iteration W mode l) (\<lambda>(ph, l).
          if mode = UV_RUN_ONCE \<or> mode = UV_RUN_NOWAIT then Some (ph, uv__loop_alive l, l)
          else Option.bind (uv_run_loop W mode (uv__loop_alive l) l) (\<lambda>(ph', r, l). Some (ph @ ph', r, l)))
      else Some ([], r, l))"

declare uv_run_loop.simps [code]

definition uv_run :: "'a core_loop_scheme world \<Rightarrow> uv_run_mode \<Rightarrow> 'a core_loop_scheme \<Rightarrow>
    (phase list \<times> bool \<times> 'a core_loop_scheme) option" where
  "uv_run W mode l = do {
     let r = uv__loop_alive l;
     let l = (if \<not> r then uv__update_time (w_now W) l else l);
     (ph, l) \<leftarrow> (if mode = UV_RUN_DEFAULT \<and> r \<and> stop_flag l = 0
                 then Option.bind (uv__run_timers (w_run W) (uv__update_time (w_now W) l)) (\<lambda>(tim, l). Some ([Timers tim], l))
                 else Some ([], l));
     (ph', r, l) \<leftarrow> uv_run_loop W mode r l;
     Some (ph @ ph', r, if stop_flag l \<noteq> 0 then l\<lparr>stop_flag := 0\<rparr> else l)
   }"

section \<open>Closing passes\<close>

lemma set_closed_flags [simp]:
  "active (set_flags h (add_flag (h_flags l h) UV_HANDLE_CLOSED) l) k = active l k"
  "refd (set_flags h (add_flag (h_flags l h) UV_HANDLE_CLOSED) l) k = refd l k"
  "closing (set_flags h (add_flag (h_flags l h) UV_HANDLE_CLOSED) l) k = closing l k"
  "closed (set_flags h (add_flag (h_flags l h) UV_HANDLE_CLOSED) l) k \<longleftrightarrow> closed l k \<or> k = h"
  by (auto simp: set_flags_def flag_views bit_flags)

lemma unlink_flags [simp]:
  "active (finish_close_unlink h l) k = active l k" "closing (finish_close_unlink h l) k = closing l k"
  "closed (finish_close_unlink h l) k = closed l k"
  "handle_queue (finish_close_unlink h l) = remove1 h (handle_queue l)"
  "closing_handles (finish_close_unlink h l) = closing_handles l"
proof -
  have f: "h_flags (finish_close_unlink h l) = h_flags (uv__handle_unref h l)"
    by (simp add: finish_close_unlink_def Let_def)
  have v: "active (finish_close_unlink h l) k = active (uv__handle_unref h l) k"
    "closing (finish_close_unlink h l) k = closing (uv__handle_unref h l) k"
    "closed (finish_close_unlink h l) k = closed (uv__handle_unref h l) k"
    unfolding flag_views f by (rule refl)+
  show "active (finish_close_unlink h l) k = active l k" "closing (finish_close_unlink h l) k = closing l k"
    "closed (finish_close_unlink h l) k = closed l k"
    unfolding v by simp_all
  show "handle_queue (finish_close_unlink h l) = remove1 h (handle_queue l)"
    "closing_handles (finish_close_unlink h l) = closing_handles l"
    by (simp_all add: finish_close_unlink_def Let_def)
qed

lemma unlink_frame [simp]:
  "h_type (finish_close_unlink h l) = h_type l" "h_close_cb (finish_close_unlink h l) = h_close_cb l"
  "w_handles (finish_close_unlink h l) = w_handles l" "w_local (finish_close_unlink h l) = w_local l"
  "w_cb (finish_close_unlink h l) = w_cb l"
  "h_type (set_flags h f l) = h_type l" "h_close_cb (set_flags h f l) = h_close_cb l"
  "w_handles (set_flags h f l) = w_handles l" "w_local (set_flags h f l) = w_local l" "w_cb (set_flags h f l) = w_cb l"
  "handle_queue (set_flags h f l) = handle_queue l" "closing_handles (set_flags h f l) = closing_handles l"
  by (simp_all add: finish_close_unlink_def handle_defs Let_def)

lemma handles_unlink:
  assumes "handles_ok l" and "h \<in> set (handle_queue l)"
  shows "handles_ok (finish_close_unlink h l)"
proof -
  let ?u = "uv__handle_unref h l"
  have u: "handles_ok ?u" by (rule handles_unref [OF assms])
  have fl: "h_flags (finish_close_unlink h l) = h_flags ?u" "active_handles (finish_close_unlink h l) = active_handles ?u"
    by (simp_all add: finish_close_unlink_def Let_def)
  have d: "distinct (handle_queue l)" using assms(1) by (simp add: handles_ok_def)
  have v: "active (finish_close_unlink h l) k = active ?u k" "refd (finish_close_unlink h l) k = refd ?u k"
    "closing (finish_close_unlink h l) k = closing ?u k" for k
    unfolding flag_views fl by (rule refl)+
  have "alive_handles (finish_close_unlink h l) = alive_handles ?u"
    unfolding alive_handles_def v using d by auto
  moreover have "length (remove1 h (handle_queue l)) \<le> length (handle_queue l)" by (simp add: length_remove1)
  ultimately show ?thesis using u d unfolding handles_ok_def fl v by (auto dest: notin_set_remove1)
qed

lemma finish_unlink_inv:
  assumes "watch_inv l" and "h \<in> set (handle_queue l)" and "closing l h"
  defines "l' \<equiv> finish_close_unlink h (set_flags h (add_flag (h_flags l h) UV_HANDLE_CLOSED) l)"
  shows "watch_inv l'"
proof -
  let ?c = "set_flags h (add_flag (h_flags l h) UV_HANDLE_CLOSED) l"
  have "active_handles ?c = active_handles l" by (simp add: set_flags_def)
  then have "handles_ok ?c" using watch_handles_ok [OF assms(1)] by (simp add: handles_ok_def alive_handles_def)
  then have "handles_ok l'" unfolding l'_def by (rule handles_unlink) (simp add: assms(2))
  have na: "\<not> active l h" using watch_handles_ok [OF assms(1)] assms(2,3) by (auto simp: handles_ok_def)
  have d: "distinct (handle_queue l)" using watch_handles_ok [OF assms(1)] by (simp add: handles_ok_def)
  have e1: "{v \<in> watch_handles k l'. active l' v} = {v \<in> watch_handles k l. active l v}" for k
    using na d by (auto simp: l'_def watch_handles_def)
  have e2: "w_local l' = w_local l" "w_handles l' = w_handles l" "w_cb l' = w_cb l" by (simp_all add: l'_def)
  show ?thesis using \<open>handles_ok l'\<close> assms(1) unfolding watch_inv_def e1 e2 by blast
qed

text \<open>What a client's calls leave true of the handles that are being closed.\<close>

definition close_later :: "'a core_loop_scheme \<Rightarrow> 'a core_loop_scheme \<Rightarrow> bool" where
  "close_later l l' \<longleftrightarrow> handle_queue l' = handle_queue l \<and> h_type l' = h_type l \<and> closed l' = closed l \<and>
     (\<forall>h. closing l h \<longrightarrow> closing l' h \<and> h_close_cb l' h = h_close_cb l h) \<and>
     (\<exists>new. closing_handles l' = new @ closing_handles l \<and> distinct new \<and>
        (\<forall>h\<in>set new. \<not> closing l h \<and> \<not> closed l h \<and> closing l' h \<and> h \<in> set (handle_queue l)))"

lemma close_later_refl: "close_later l l"
  by (simp add: close_later_def)

lemma close_later_trans:
  assumes "close_later a b" and "close_later b c"
  shows "close_later a c"
proof -
  obtain n1 where n1: "closing_handles b = n1 @ closing_handles a" "distinct n1"
    "\<forall>h\<in>set n1. \<not> closing a h \<and> \<not> closed a h \<and> closing b h \<and> h \<in> set (handle_queue a)"
    using assms(1) unfolding close_later_def by blast
  obtain n2 where n2: "closing_handles c = n2 @ closing_handles b" "distinct n2"
    "\<forall>h\<in>set n2. \<not> closing b h \<and> \<not> closed b h \<and> closing c h \<and> h \<in> set (handle_queue b)"
    using assms(2) unfolding close_later_def by blast
  have "closing_handles c = (n2 @ n1) @ closing_handles a" using n1(1) n2(1) by simp
  moreover have "distinct (n2 @ n1)" using n1(2,3) n2(2,3) by auto
  moreover have "\<not> closing a h \<and> \<not> closed a h \<and> closing c h \<and> h \<in> set (handle_queue a)" if "h \<in> set (n2 @ n1)" for h
    using that n1(3) n2(3) assms unfolding close_later_def by auto
  ultimately show ?thesis using assms unfolding close_later_def by (metis (no_types, lifting))
qed

lemma watcher_call_close_later:
  assumes "watch_inv l" and "watcher_legal a l" and "watcher_call a l = Some l'"
  shows "close_later l l'"
proof (cases a)
  case (WStart k h cb)
  then have l': "l' = snd (uv_watcher_start k h cb l)" using assms(3) by simp
  have "closed l' = closed l" "closing l' = closing l" "closing_handles l' = closing_handles l" "h_close_cb l' = h_close_cb l"
    "handle_queue l' = handle_queue l" "h_type l' = h_type l"
    by (auto simp: l' uv_watcher_start_def Let_def fun_eq_iff) (auto simp: handle_defs Let_def)
  then show ?thesis by (simp add: close_later_def)
next
  case (WStop k h)
  then have h: "h \<in> watch_handles k l" and l': "l' = uv_watcher_stop k h l" using assms(2,3) by simp_all
  have "h_close_cb l' = h_close_cb l" by (simp add: l' uv_watcher_stop_def) (simp add: handle_defs Let_def)
  then show ?thesis using watch_stop [OF assms(1) h] by (simp add: close_later_def l')
next
  case (WClose k h cb)
  then have h: "h \<in> watch_handles k l" "\<not> closing l h" "\<not> closed l h" using assms(2) by (auto simp: is_closing_iff)
  have st: "closing (uv_watcher_stop k h m) = closing m" "closed (uv_watcher_stop k h m) = closed m"
    "closing_handles (uv_watcher_stop k h m) = closing_handles m" "handle_queue (uv_watcher_stop k h m) = handle_queue m"
    "h_type (uv_watcher_stop k h m) = h_type m" for m :: "'a core_loop_scheme"
    by (auto simp: uv_watcher_stop_def fun_eq_iff)
  have cc: "h_close_cb (uv_watcher_stop k h m) = h_close_cb m" for m :: "'a core_loop_scheme"
    by (simp add: uv_watcher_stop_def) (simp add: handle_defs Let_def)
  let ?l1 = "uv_watcher_stop k h (mark_closing h cb l)"
  have l': "l' = ?l1\<lparr>closing_handles := h # closing_handles l\<rparr>"
    using WClose assms(3) h by (simp add: uv_close_watcher_def uv__watcher_close_def is_closing_iff close_pending_Some st)
  have cb': "h_close_cb (mark_closing h cb l) = (h_close_cb l)(h := cb)" by (simp add: mark_closing_def)
  show ?thesis unfolding close_later_def
    using h by (auto simp: l' st cc cb' fun_eq_iff watch_handles_def)
qed

lemma watcher_calls_close_later:
  assumes "watch_inv l" and "watcher_calls as l = Some l'"
  shows "close_later l l'"
  using assms
proof (induction as arbitrary: l)
  case (Cons a as)
  show ?case
  proof (cases "watcher_legal a l")
    case True
    obtain l1 where l1: "watcher_call a l = Some l1" "watch_inv l1" using watcher_call_inv [OF Cons.prems(1) True] by blast
    then have "close_later l1 l'" using Cons.IH Cons.prems(2) True by simp
    then show ?thesis using watcher_call_close_later [OF Cons.prems(1) True l1(1)] close_later_trans by blast
  qed (use Cons in simp)
qed (simp add: close_later_refl)

definition to_close :: "addr list \<Rightarrow> 'a core_loop_scheme \<Rightarrow> bool" where
  "to_close ps l \<longleftrightarrow> distinct (ps @ closing_handles l) \<and>
     (\<forall>h\<in>set ps \<union> set (closing_handles l). closing l h \<and> \<not> closed l h \<and> h \<in> set (handle_queue l))"

definition simple_type :: "uv_handle_type \<Rightarrow> bool" where
  "simple_type t \<longleftrightarrow> t \<in> {UV_PREPARE, UV_CHECK, UV_IDLE, UV_ASYNC, UV_TIMER, UV_PROCESS, UV_FS_EVENT, UV_FS_POLL, UV_POLL}"

lemma finish_close_step:
  assumes "watch_inv l" and "to_close (h # ps) l" and "simple_type (h_type l h)"
  shows "\<exists>l'. uv__finish_close fin (\<lambda>cb h. watcher_calls (prog cb h)) h l = Some (if h_close_cb l h = None then [] else [h], l') \<and>
    watch_inv l' \<and> to_close ps l' \<and> closed l' h \<and> h \<notin> set (handle_queue l') \<and> h \<notin> set (closing_handles l') \<and>
    (\<forall>k. closed l k \<longrightarrow> closed l' k) \<and> set (handle_queue l') \<subseteq> set (handle_queue l) \<and> h_type l' = h_type l \<and>
    (\<forall>k. closing l k \<longrightarrow> h_close_cb l' k = h_close_cb l k) \<and> (\<forall>k\<in>set (closing_handles l'). closed l k \<longrightarrow> False)"
proof -
  have h: "closing l h" "\<not> closed l h" "h \<in> set (handle_queue l)" using assms(2) by (auto simp: to_close_def)
  define l1 where "l1 = finish_close_unlink h (set_flags h (add_flag (h_flags l h) UV_HANDLE_CLOSED) l)"
  have i1: "watch_inv l1" unfolding l1_def by (rule finish_unlink_inv [OF assms(1) h(3,1)])
  have d: "distinct (handle_queue l)" using watch_handles_ok [OF assms(1)] by (simp add: handles_ok_def)
  have f1: "handle_queue l1 = remove1 h (handle_queue l)" "closing_handles l1 = closing_handles l" "h_type l1 = h_type l"
    "h_close_cb l1 = h_close_cb l" "\<And>k. closing l1 k = closing l k" "\<And>k. closed l1 k \<longleftrightarrow> closed l k \<or> k = h"
    by (simp_all add: l1_def)
  have fc: "uv__finish_close fin (\<lambda>cb h. watcher_calls (prog cb h)) h l = close_tail (\<lambda>cb h. watcher_calls (prog cb h)) h
      (set_flags h (add_flag (h_flags l h) UV_HANDLE_CLOSED) l)"
    using h assms(3) by (simp add: uv__finish_close_def simple_type_def flag_bits flag_views Let_def)
  obtain l2 where l2: "watch_inv l2" "close_later l1 l2"
    "close_tail (\<lambda>cb h. watcher_calls (prog cb h)) h (set_flags h (add_flag (h_flags l h) UV_HANDLE_CLOSED) l) =
      Some (if h_close_cb l h = None then [] else [h], l2)"
  proof (cases "h_close_cb l h")
    case None
    then show ?thesis using that [OF i1 close_later_refl] by (simp add: close_tail_def l1_def)
  next
    case (Some cb)
    obtain l2 where r: "watcher_calls (prog cb h) l1 = Some l2" "watch_inv l2" using watcher_calls_inv [OF i1] by blast
    have "close_later l1 l2" by (rule watcher_calls_close_later [OF i1 r(1)])
    then show ?thesis using that [OF r(2)] r(1) Some by (simp add: close_tail_def l1_def)
  qed
  obtain new where new: "closing_handles l2 = new @ closing_handles l1" "distinct new"
    "\<forall>h\<in>set new. \<not> closing l1 h \<and> \<not> closed l1 h \<and> closing l2 h \<and> h \<in> set (handle_queue l1)"
    using l2(2) unfolding close_later_def by blast
  have later: "handle_queue l2 = handle_queue l1" "h_type l2 = h_type l1" "closed l2 = closed l1"
    "\<And>k. closing l1 k \<Longrightarrow> closing l2 k \<and> h_close_cb l2 k = h_close_cb l1 k"
    using l2(2) unfolding close_later_def by blast+
  have old: "k \<noteq> h \<and> closing l1 k \<and> \<not> closed l1 k \<and> k \<in> set (handle_queue l1)" if "k \<in> set ps \<union> set (closing_handles l)" for k
    using that assms(2) d by (auto simp: to_close_def f1)
  have "distinct (ps @ closing_handles l2)"
    using assms(2) new old unfolding new(1) by (auto simp: to_close_def f1(2))
  moreover have "closing l2 k \<and> \<not> closed l2 k \<and> k \<in> set (handle_queue l2)" if "k \<in> set ps \<union> set (closing_handles l2)" for k
    using that new old later unfolding new(1) by (auto simp: f1(2))
  ultimately have "to_close ps l2" by (simp add: to_close_def)
  moreover have "h \<notin> set (closing_handles l2)" using new(3) old h(1) unfolding new(1) by (auto simp: f1(2,5))
  moreover have "\<not> closed l k" if "k \<in> set (closing_handles l2)" for k
    using that new(3) old unfolding new(1) by (auto simp: f1(2,6))
  ultimately show ?thesis using l2 fc later d h by (intro exI [of _ l2]) (auto simp: f1 dest: notin_set_remove1)
qed

lemma closing_loop_spec:
  assumes "watch_inv l" and "to_close ps l" and "\<forall>h\<in>set ps. simple_type (h_type l h)"
  shows "\<exists>l'. closing_loop fin (\<lambda>cb h. watcher_calls (prog cb h)) ps l = Some (filter (\<lambda>h. h_close_cb l h \<noteq> None) ps, l') \<and>
    watch_inv l' \<and> to_close [] l' \<and> (\<forall>h\<in>set ps. closed l' h \<and> h \<notin> set (handle_queue l')) \<and>
    (\<forall>h. closed l h \<longrightarrow> closed l' h) \<and> set (handle_queue l') \<subseteq> set (handle_queue l)"
  using assms
proof (induction ps arbitrary: l)
  case (Cons h ps)
  let ?run = "\<lambda>cb h. watcher_calls (prog cb h)"
  obtain l1 where l1: "uv__finish_close fin ?run h l = Some (if h_close_cb l h = None then [] else [h], l1)"
    "watch_inv l1" "to_close ps l1" "closed l1 h" "h \<notin> set (handle_queue l1)"
    "\<And>k. closed l k \<Longrightarrow> closed l1 k" "set (handle_queue l1) \<subseteq> set (handle_queue l)" "h_type l1 = h_type l"
    "\<And>k. closing l k \<Longrightarrow> h_close_cb l1 k = h_close_cb l k"
    using finish_close_step [OF Cons.prems(1,2), of fin prog] Cons.prems(3) by auto
  obtain l2 where l2: "closing_loop fin ?run ps l1 = Some (filter (\<lambda>h. h_close_cb l1 h \<noteq> None) ps, l2)" "watch_inv l2" "to_close [] l2"
    "\<forall>h\<in>set ps. closed l2 h \<and> h \<notin> set (handle_queue l2)" "\<And>k. closed l1 k \<Longrightarrow> closed l2 k"
    "set (handle_queue l2) \<subseteq> set (handle_queue l1)"
    using Cons.IH [OF l1(2,3)] Cons.prems(3) l1(8) by auto
  have "filter (\<lambda>h. h_close_cb l1 h \<noteq> None) ps = filter (\<lambda>h. h_close_cb l h \<noteq> None) ps"
    using l1(9) Cons.prems(2) by (intro filter_cong) (auto simp: to_close_def)
  then have "closing_loop fin ?run (h # ps) l = Some (filter (\<lambda>h. h_close_cb l h \<noteq> None) (h # ps), l2)"
    using l1(1) l2(1) by simp
  then show ?case using l1 l2 by (intro exI [of _ l2]) auto
qed auto



section \<open>Results of a run\<close>

fun is_poll :: "phase \<Rightarrow> bool" where
  "is_poll (Polls t tr) = True"
| "is_poll _ = False"

lemma pending_rounds_no_poll: "pending_rounds n run_io l = Some (ps, l') \<Longrightarrow> filter is_poll ps = []"
  by (induction n arbitrary: l ps) (auto split: if_splits simp: Option.bind_eq_Some_conv)

lemma iteration_polls_once:
  assumes "uv_iteration W mode l = Some (ph, l')"
  shows "\<exists>t tr. filter is_poll ph = [Polls t tr] \<and> (mode = UV_RUN_NOWAIT \<longrightarrow> t = 0)"
  using assms unfolding uv_iteration_def
  by (auto simp: Option.bind_eq_Some_conv Let_def split: prod.splits dest: pending_rounds_no_poll)

definition run_result :: "uv_run_mode \<Rightarrow> bool \<Rightarrow> 'a core_loop_scheme \<Rightarrow> phase list \<times> bool \<times> 'a core_loop_scheme \<Rightarrow> bool" where
  "run_result mode r l = (\<lambda>(ph, r', l').
     (mode = UV_RUN_DEFAULT \<longrightarrow> \<not> r' \<or> stop_flag l' \<noteq> 0) \<and>
     (if filter is_poll ph = [] then r' = r \<and> l' = l else r' = uv__loop_alive l') \<and>
     (mode \<noteq> UV_RUN_DEFAULT \<longrightarrow> length (filter is_poll ph) \<le> 1) \<and>
     (mode = UV_RUN_NOWAIT \<longrightarrow> (\<forall>t tr. Polls t tr \<in> set ph \<longrightarrow> t = 0)))"

lemma run_loop_result:
  assumes "uv_run_loop W mode r l = Some res"
  shows "run_result mode r l res"
  using assms
proof (induct rule: uv_run_loop.raw_induct [rotated, consumes 1, case_names step])
  case (step f W mode r l res)
  show ?case
  proof (cases "r \<and> stop_flag l = 0")
    case False
    then show ?thesis using step(2) by (auto simp: run_result_def)
  next
    case True
    then obtain ph l1 where it: "uv_iteration W mode l = Some (ph, l1)" using step(2) by (auto simp: Option.bind_eq_Some_conv)
    obtain t tr where p: "filter is_poll ph = [Polls t tr]" "mode = UV_RUN_NOWAIT \<longrightarrow> t = 0"
      using iteration_polls_once [OF it] by blast
    have only: "Polls u v \<in> set ph \<Longrightarrow> u = t" for u v
    proof -
      assume "Polls u v \<in> set ph"
      then have "Polls u v \<in> set (filter is_poll ph)" by simp
      then show "u = t" unfolding p(1) by simp
    qed
    show ?thesis
    proof (cases "mode = UV_RUN_DEFAULT")
      case False
      then have "mode = UV_RUN_ONCE \<or> mode = UV_RUN_NOWAIT" using uv_run_mode.exhaust [of mode] by blast
      then have "res = (ph, uv__loop_alive l1, l1)" using step(2) True it by simp
      then show ?thesis using p only False by (auto simp: run_result_def)
    next
      case def: True
      then obtain ph' r' l2 where rec: "f W mode (uv__loop_alive l1) l1 = Some (ph', r', l2)" "res = (ph @ ph', r', l2)"
        using step(2) True it by (auto simp: Option.bind_eq_Some_conv)
      then show ?thesis using step(1) [OF rec(1)] def p rec(2) by (auto simp: run_result_def split: if_splits)
    qed
  qed
qed

lemma update_time_alive [simp]:
  "uv__loop_alive (uv__update_time nw l) = uv__loop_alive l" "stop_flag (uv__update_time nw l) = stop_flag l"
  by (simp_all add: uv__loop_alive_def uv__update_time_def uv__has_active_handles_def uv__has_active_reqs_def)



end
