(* ===== verification/UV_Wtf8.thy ===== *)
theory UV_Wtf8
  imports UV_Errno "HOL-Library.Monad_Syntax"
begin

text \<open>
  The conversions between UTF-16 and WTF-8 (src/idna.c).  A source pointer is an index into
  its buffer; reading outside the buffer, writing outside the target and a failed assertion
  are the result \<open>None\<close>.
\<close>

section \<open>Decoding WTF-8\<close>

definition rd :: "'a list \<Rightarrow> nat \<Rightarrow> 'a option" where
  "rd s i = (if i < length s then Some (s ! i) else None)"

text \<open>
  \<open>uv__wtf8_decode1\<close> leaves the pointer at the last byte it read; -1 is an invalid sequence.
\<close>

definition uv__wtf8_decode1 :: "u8 list \<Rightarrow> nat \<Rightarrow> (u32 \<times> nat) option" where
  "uv__wtf8_decode1 s i = do {
     b1 \<leftarrow> rd s i;
     if b1 \<le> 0x7F then Some (ucast b1, i)
     else if b1 < 0xC2 then Some (- 1, i)
     else do {
       let code_point = ucast b1;
       b2 \<leftarrow> rd s (i + 1);
       if and b2 0xC0 \<noteq> 0x80 then Some (- 1, i + 1)
       else do {
         let code_point = or (push_bit 6 code_point) (ucast (and b2 0x3F));
         if b1 \<le> 0xDF then Some (and 0x7FF code_point, i + 1)
         else do {
           b3 \<leftarrow> rd s (i + 2);
           if and b3 0xC0 \<noteq> 0x80 then Some (- 1, i + 2)
           else do {
             let code_point = or (push_bit 6 code_point) (ucast (and b3 0x3F));
             if b1 \<le> 0xEF then Some (and 0xFFFF code_point, i + 2)
             else do {
               b4 \<leftarrow> rd s (i + 3);
               if and b4 0xC0 \<noteq> 0x80 then Some (- 1, i + 3)
               else do {
                 let code_point = or (push_bit 6 code_point) (ucast (and b4 0x3F));
                 let masked = and code_point 0x1FFFFF;
                 if b1 \<le> 0xF4 \<and> masked \<le> 0x10FFFF then Some (masked, i + 3)
                 else Some (- 1, i + 3)
               }
             }
           }
         }
       }
     }
   }"

text \<open>The four branches of the encoder in \<open>uv_utf16_to_wtf8\<close>.\<close>

definition wtf8_bytes :: "u32 \<Rightarrow> u8 list" where
  "wtf8_bytes cp =
     (if cp < 0x80 then [ucast cp]
      else if cp < 0x800 then [ucast (or 0xC0 (drop_bit 6 cp)), ucast (or 0x80 (and cp 0x3F))]
      else if cp < 0x10000 then
        [ucast (or 0xE0 (drop_bit 12 cp)), ucast (or 0x80 (and (drop_bit 6 cp) 0x3F)),
         ucast (or 0x80 (and cp 0x3F))]
      else
        [ucast (or 0xF0 (drop_bit 18 cp)), ucast (or 0x80 (and (drop_bit 12 cp) 0x3F)),
         ucast (or 0x80 (and (drop_bit 6 cp) 0x3F)), ucast (or 0x80 (and cp 0x3F))])"

section \<open>Bits of the encoder's bytes\<close>

lemma byte_bits:
  "bit (0x3F :: u8) i \<longleftrightarrow> i < 6" "bit (0x3F :: u32) i \<longleftrightarrow> i < 6"
  "bit (0xC0 :: u8) i \<longleftrightarrow> i = 6 \<or> i = 7" "bit (0xC0 :: u32) i \<longleftrightarrow> i = 6 \<or> i = 7"
  "bit (0x80 :: u8) i \<longleftrightarrow> i = 7" "bit (0x80 :: u32) i \<longleftrightarrow> i = 7"
  "bit (0xE0 :: u32) i \<longleftrightarrow> i = 5 \<or> i = 6 \<or> i = 7" "bit (0xF0 :: u32) i \<longleftrightarrow> i = 4 \<or> i = 5 \<or> i = 6 \<or> i = 7"
  "bit (0x7FF :: u32) i \<longleftrightarrow> i < 11" "bit (0xFFFF :: u32) i \<longleftrightarrow> i < 16" "bit (0x1FFFFF :: u32) i \<longleftrightarrow> i < 21"
proof -
  have e: "(0x3F :: u8) = mask 6" "(0x3F :: u32) = mask 6" "(0xC0 :: u8) = push_bit 6 (mask 2)"
    "(0xC0 :: u32) = push_bit 6 (mask 2)" "(0x80 :: u8) = push_bit 7 (mask 1)" "(0x80 :: u32) = push_bit 7 (mask 1)"
    "(0xE0 :: u32) = push_bit 5 (mask 3)" "(0xF0 :: u32) = push_bit 4 (mask 4)" "(0x7FF :: u32) = mask 11"
    "(0xFFFF :: u32) = mask 16" "(0x1FFFFF :: u32) = mask 21"
    by (simp_all add: mask_eq_exp_minus_1)
  show "bit (0x3F :: u8) i \<longleftrightarrow> i < 6" "bit (0x3F :: u32) i \<longleftrightarrow> i < 6"
    "bit (0xC0 :: u8) i \<longleftrightarrow> i = 6 \<or> i = 7" "bit (0xC0 :: u32) i \<longleftrightarrow> i = 6 \<or> i = 7"
    "bit (0x80 :: u8) i \<longleftrightarrow> i = 7" "bit (0x80 :: u32) i \<longleftrightarrow> i = 7"
    "bit (0xE0 :: u32) i \<longleftrightarrow> i = 5 \<or> i = 6 \<or> i = 7" "bit (0xF0 :: u32) i \<longleftrightarrow> i = 4 \<or> i = 5 \<or> i = 6 \<or> i = 7"
    "bit (0x7FF :: u32) i \<longleftrightarrow> i < 11" "bit (0xFFFF :: u32) i \<longleftrightarrow> i < 16" "bit (0x1FFFFF :: u32) i \<longleftrightarrow> i < 21"
    unfolding e bit_push_bit_iff bit_mask_iff by (auto simp: possible_bit_def)
qed

lemmas byte_bit_rules = bit_and_iff bit_or_iff bit_push_bit_iff bit_drop_bit_eq bit_unsigned_iff
  possible_bit_word o_def byte_bits

lemma cont_top: "and (ucast (or 0x80 (and v 0x3F)) :: u8) 0xC0 = 0x80" for v :: u32
  by (rule bit_word_eqI) (simp only: byte_bit_rules, auto)

lemma cont_low: "(ucast (and (ucast (or 0x80 (and v 0x3F)) :: u8) 0x3F) :: u32) = and v 0x3F" for v :: u32
  by (rule bit_word_eqI) (simp only: byte_bit_rules, auto)

lemma join_2:
  fixes cp :: u32
  assumes "unat cp < 2 ^ 11"
  shows "and 0x7FF (or (push_bit 6 (ucast (ucast (or 0xC0 (drop_bit 6 cp)) :: u8))) (and cp 0x3F)) = cp" (is "?l = _")
proof (rule bit_word_eqI)
  fix n assume "n < LENGTH(32)"
  have "bit cp n \<Longrightarrow> n < 11" by (rule high_bits [OF assms])
  then show "bit ?l n = bit cp n"
    unfolding byte_bit_rules by auto
qed

lemma join_3:
  fixes cp :: u32
  assumes "unat cp < 2 ^ 16"
  shows "and 0xFFFF (or (push_bit 6 (or (push_bit 6 (ucast (ucast (or 0xE0 (drop_bit 12 cp)) :: u8)))
    (and (drop_bit 6 cp) 0x3F))) (and cp 0x3F)) = cp" (is "?l = _")
proof (rule bit_word_eqI)
  fix n assume "n < LENGTH(32)"
  have "bit cp n \<Longrightarrow> n < 16" by (rule high_bits [OF assms])
  then show "bit ?l n = bit cp n"
    unfolding byte_bit_rules by auto
qed

lemma join_4:
  fixes cp :: u32
  assumes "unat cp < 2 ^ 21"
  shows "and (or (push_bit 6 (or (push_bit 6 (or (push_bit 6 (ucast (ucast (or 0xF0 (drop_bit 18 cp)) :: u8)))
    (and (drop_bit 12 cp) 0x3F))) (and (drop_bit 6 cp) 0x3F))) (and cp 0x3F)) 0x1FFFFF = cp" (is "?l = _")
proof (rule bit_word_eqI)
  fix n assume "n < LENGTH(32)"
  have "bit cp n \<Longrightarrow> n < 21" by (rule high_bits [OF assms])
  then show "bit ?l n = bit cp n"
    unfolding byte_bit_rules by auto
qed

section \<open>UTF-16\<close>

definition uv__get_surrogate_value :: "u16 list \<Rightarrow> nat \<Rightarrow> int \<Rightarrow> u32 option" where
  "uv__get_surrogate_value w j len = do {
     u \<leftarrow> rd w j;
     if u \<ge> 0xD800 \<and> u \<le> 0xDBFF \<and> len \<noteq> 1 then do {
       nxt \<leftarrow> rd w (j + 1);
       if nxt \<ge> 0xDC00 \<and> nxt \<le> 0xDFFF
       then Some (0x10000 + push_bit 10 (ucast u - 0xD800) + (ucast nxt - 0xDC00))
       else Some (ucast u)
     }
     else Some (ucast u)
   }"

lemma rd_Some: "rd s i = Some x \<longleftrightarrow> i < length s \<and> x = s ! i"
  by (auto simp: rd_def)

lemma surrogate_in: "uv__get_surrogate_value w j len = Some cp \<Longrightarrow> j < length w"
  by (auto simp: uv__get_surrogate_value_def rd_def split: if_splits)

text \<open>\<open>len\<close> is the number of units left, negative for a source that ends with a zero unit.\<close>

function length_as_wtf8_loop :: "u16 list \<Rightarrow> nat \<Rightarrow> int \<Rightarrow> nat \<Rightarrow> nat option" where
  "length_as_wtf8_loop w j len n =
     (if len = 0 then Some n
      else case uv__get_surrogate_value w j len of
        None \<Rightarrow> None
      | Some cp \<Rightarrow>
          (if cp <s 0 then None
           else if len < 0 \<and> cp = 0 then Some n
           else if cp < 0x80 then
             length_as_wtf8_loop w (j + 1) (if len > 0 then len - 1 else len) (n + 1)
           else if cp < 0x800 then
             length_as_wtf8_loop w (j + 1) (if len > 0 then len - 1 else len) (n + 2)
           else if cp < 0x10000 then
             length_as_wtf8_loop w (j + 1) (if len > 0 then len - 1 else len) (n + 3)
           else
             let len = (if len > 0 then len - 1 else len)
             in length_as_wtf8_loop w (j + 1 + 1) (if len > 0 then len - 1 else len) (n + 4)))"
  by pat_completeness auto
termination
  by (relation "measure (\<lambda>(w, j, len, n). length w - j)") (auto dest!: surrogate_in)

definition uv_utf16_length_as_wtf8 :: "u16 list \<Rightarrow> nat \<Rightarrow> int \<Rightarrow> nat option" where
  "uv_utf16_length_as_wtf8 w j len = length_as_wtf8_loop w j len 0"

text \<open>
  Writing the bytes of one code point: each byte but the first is preceded by the check for
  the end of the target; \<open>False\<close> is the \<open>break\<close>.
\<close>

fun put_bytes :: "nat \<Rightarrow> u8 list \<Rightarrow> u8 list \<Rightarrow> u8 list \<times> bool" where
  "put_bytes cap out [] = (out, True)"
| "put_bytes cap out (b # bs) = (if length out = cap then (out, False) else put_bytes cap (out @ [b]) bs)"

lemma put_bytes_length: "put_bytes cap out bs = (out', True) \<Longrightarrow> out' = out @ bs \<and> (bs \<noteq> [] \<longrightarrow> length out \<noteq> cap)"
  by (induction bs arbitrary: out) (fastforce split: if_splits)+

lemma wtf8_bytes_nonempty [simp]: "wtf8_bytes cp \<noteq> []"
  by (simp add: wtf8_bytes_def)

text \<open>
  The conversion loop, with the source position, the units left, the bytes written and the
  variable \<open>target_len\<close>, which counts the bytes of completed characters.
\<close>

function utf16_to_wtf8_loop :: "u16 list \<Rightarrow> nat \<Rightarrow> nat \<Rightarrow> int \<Rightarrow> u8 list \<Rightarrow> nat \<Rightarrow>
    (nat \<times> int \<times> u8 list \<times> nat) option" where
  "utf16_to_wtf8_loop w cap j len out tlen =
     (if length out = cap \<or> len = 0 then Some (j, len, out, tlen)
      else case uv__get_surrogate_value w j len of
        None \<Rightarrow> None
      | Some cp \<Rightarrow>
          (if cp <s 0 then None
           else if len < 0 \<and> cp = 0 then Some (j, 0, out, tlen)
           else case put_bytes cap out (wtf8_bytes cp) of
             (out, False) \<Rightarrow> Some (j, len, out, tlen)
           | (out, True) \<Rightarrow>
               (let (j, len) = (if cp \<ge> 0x10000 then (j + 1, if len > 0 then len - 1 else len) else (j, len))
                in utf16_to_wtf8_loop w cap (j + 1) (if len > 0 then len - 1 else len) out (length out))))"
  by pat_completeness auto
termination
  by (relation "measure (\<lambda>(w, cap, j, len, out, tlen). length w - j)") (auto dest!: surrogate_in split: if_splits)

datatype wtf8_target = NoTarget | Alloc | Buffer

text \<open>
  The three uses of \<open>target_ptr\<close>: a null pointer, a pointer to a null pointer, and a buffer of
  \<open>*target_len_ptr\<close> bytes with room for the terminator.  The results are the return value,
  the bytes written and \<open>*target_len_ptr\<close>.
\<close>

definition uv_utf16_to_wtf8 :: "(nat \<Rightarrow> bool) \<Rightarrow> u16 list \<Rightarrow> int \<Rightarrow> wtf8_target \<Rightarrow> nat option \<Rightarrow>
    (ret \<times> u8 list \<times> nat option) option" where
  "uv_utf16_to_wtf8 malloc_ok w w_len target_ptr target_len_ptr = do {
     (target_len, target_len_ptr) \<leftarrow>
       (if target_ptr = Buffer
        then map_option (\<lambda>n. (n, target_len_ptr)) target_len_ptr
        else map_option (\<lambda>n. (n, map_option (\<lambda>_. n) target_len_ptr)) (uv_utf16_length_as_wtf8 w 0 w_len));
     if target_ptr = NoTarget then Some (OK, [], target_len_ptr)
     else if target_ptr = Alloc \<and> \<not> malloc_ok (target_len + 1) then Some (Inl UV_ENOMEM, [], target_len_ptr)
     else do {
       (j, len, out, chars_len) \<leftarrow> utf16_to_wtf8_loop w target_len 0 w_len [] target_len;
       let target_len_ptr =
         (if length out \<noteq> target_len then map_option (\<lambda>_. length out) target_len_ptr else target_len_ptr);
       fits \<leftarrow> (if len < 0 \<and> length out = target_len then map_option (\<lambda>u. u = 0) (rd w j) else Some False);
       let len = (if fits then 0 else len);
       let out = out @ [0];
       if len \<noteq> 0 then
         (case target_len_ptr of
            None \<Rightarrow> Some (Inl UV_ENOBUFS, out, None)
          | Some _ \<Rightarrow> map_option (\<lambda>n. (Inl UV_ENOBUFS, out, Some (chars_len + n))) (uv_utf16_length_as_wtf8 w j len))
       else Some (OK, out, target_len_ptr)
     }
   }"

lemma decode1_advances: "uv__wtf8_decode1 s i = Some (cp, k) \<Longrightarrow> i \<le> k \<and> k < length s"
  by (auto simp: uv__wtf8_decode1_def rd_def Let_def split: bind_splits if_splits)

function length_as_utf16_loop :: "u8 list \<Rightarrow> nat \<Rightarrow> int \<Rightarrow> int option" where
  "length_as_utf16_loop s i n =
     (case uv__wtf8_decode1 s i of
        None \<Rightarrow> None
      | Some (cp, i) \<Rightarrow>
          (if cp <s 0 then Some (- 1)
           else let n = (if cp > 0xFFFF then n + 1 else n); n = n + 1
                in if s ! i \<noteq> 0 then length_as_utf16_loop s (i + 1) n else Some n))"
  by pat_completeness auto
termination
  by (relation "measure (\<lambda>(s, i, n). length s - i)") (auto dest!: decode1_advances)

definition uv_wtf8_length_as_utf16 :: "u8 list \<Rightarrow> int option" where
  "uv_wtf8_length_as_utf16 s = length_as_utf16_loop s 0 0"

text \<open>The target has \<open>cap\<close> units; the assertion at the end says that all were written.\<close>

function wtf8_to_utf16_loop :: "u8 list \<Rightarrow> nat \<Rightarrow> nat \<Rightarrow> u16 list \<Rightarrow> u16 list option" where
  "wtf8_to_utf16_loop s i cap out =
     (case uv__wtf8_decode1 s i of
        None \<Rightarrow> None
      | Some (cp, i) \<Rightarrow>
          (if cp <s 0 then None
           else if cp > 0x10000 \<and> \<not> cp < 0x10FFFF then None
           else let out = (if cp > 0x10000
                           then out @ [ucast (drop_bit 10 (cp - 0x10000) + 0xD800),
                                       ucast (and (cp - 0x10000) 0x3FF) + 0xDC00]
                           else out @ [ucast cp])
                in if length out > cap then None
                   else if s ! i \<noteq> 0 then wtf8_to_utf16_loop s (i + 1) cap out
                   else if length out = cap then Some out else None))"
  by pat_completeness auto
termination
  by (relation "measure (\<lambda>(s, i, cap, out). length s - i)") (auto dest!: decode1_advances)

definition uv_wtf8_to_utf16 :: "u8 list \<Rightarrow> nat \<Rightarrow> u16 list option" where
  "uv_wtf8_to_utf16 s cap = wtf8_to_utf16_loop s 0 cap []"

declare length_as_wtf8_loop.simps [simp del] utf16_to_wtf8_loop.simps [simp del]
  length_as_utf16_loop.simps [simp del] wtf8_to_utf16_loop.simps [simp del]

section \<open>What the encoder's bytes decode to\<close>

lemma byte_unat:
  fixes cp :: u32
  shows "unat cp < 2 ^ 11 \<Longrightarrow> unat (ucast (or 0xC0 (drop_bit 6 cp)) :: u8) = 0xC0 + unat cp div 2 ^ 6"
    and "unat cp < 2 ^ 16 \<Longrightarrow> unat (ucast (or 0xE0 (drop_bit 12 cp)) :: u8) = 0xE0 + unat cp div 2 ^ 12"
    and "unat cp < 2 ^ 21 \<Longrightarrow> unat (ucast (or 0xF0 (drop_bit 18 cp)) :: u8) = 0xF0 + unat cp div 2 ^ 18"
proof -
  have *: "unat (ucast (or c (drop_bit k cp)) :: u8) = unat c + unat cp div 2 ^ k"
    if "unat cp < 2 ^ (k + m)" and c: "\<And>i. bit c i \<Longrightarrow> m \<le> i" and "unat c + 2 ^ m \<le> 2 ^ 8" for c :: u32 and k m
  proof -
    have d: "unat (drop_bit k cp) = unat cp div 2 ^ k" by (simp only: unat_drop_bit_eq) (simp add: drop_bit_eq_div)
    then have "unat (drop_bit k cp) < 2 ^ m" using that(1) by (simp add: power_add less_mult_imp_div_less mult.commute)
    then have "i < m" if "bit (drop_bit k cp) i" for i using high_bits that by blast
    then have "\<not> bit c i \<or> \<not> bit (drop_bit k cp) i" for i using c by fastforce
    then have "or c (drop_bit k cp) = c + drop_bit k cp" by (simp add: disjunctive_add)
    moreover have s: "unat c + unat (drop_bit k cp) < 2 ^ 8" using that(3) \<open>unat (drop_bit k cp) < 2 ^ m\<close> by simp
    then have "unat (c + drop_bit k cp) = unat c + unat (drop_bit k cp)" by (simp add: unat_word_ariths)
    ultimately show ?thesis using s d by (simp add: unsigned_ucast_eq take_bit_nat_eq_self)
  qed
  have b5: "\<And>i. bit (0xC0 :: u32) i \<Longrightarrow> 5 \<le> i" and b4: "\<And>i. bit (0xE0 :: u32) i \<Longrightarrow> 4 \<le> i"
    and b3: "\<And>i. bit (0xF0 :: u32) i \<Longrightarrow> 3 \<le> i" unfolding byte_bits by auto
  show "unat cp < 2 ^ 11 \<Longrightarrow> unat (ucast (or 0xC0 (drop_bit 6 cp)) :: u8) = 0xC0 + unat cp div 2 ^ 6"
    using * [of 6 5 "0xC0", OF _ b5] by simp
  show "unat cp < 2 ^ 16 \<Longrightarrow> unat (ucast (or 0xE0 (drop_bit 12 cp)) :: u8) = 0xE0 + unat cp div 2 ^ 12"
    using * [of 12 4 "0xE0", OF _ b4] by simp
  show "unat cp < 2 ^ 21 \<Longrightarrow> unat (ucast (or 0xF0 (drop_bit 18 cp)) :: u8) = 0xF0 + unat cp div 2 ^ 18"
    using * [of 18 3 "0xF0", OF _ b3] by simp
qed

lemma rd_append [simp]:
  "rd (xs @ b # ys) (length xs) = Some b" "rd (xs @ a # b # ys) (Suc (length xs)) = Some b"
  "rd (xs @ a # b # c # ys) (Suc (Suc (length xs))) = Some c" "rd (xs @ a # b # c # d # ys) (length xs + 3) = Some d"
  by (simp_all add: rd_def nth_append)

lemma decode1_encoded:
  assumes "unat cp < 0x110000"
  shows "uv__wtf8_decode1 (xs @ wtf8_bytes cp @ ys) (length xs) = Some (cp, length xs + length (wtf8_bytes cp) - 1)"
proof -
  consider (1) "unat cp < 0x80" | (2) "0x80 \<le> unat cp" "unat cp < 0x800" | (3) "0x800 \<le> unat cp" "unat cp < 0x10000"
    | (4) "0x10000 \<le> unat cp" by linarith
  then show ?thesis
  proof cases
    case 1
    then have "ucast (ucast cp :: u8) = cp" "unat (ucast cp :: u8) = unat cp"
      by (simp_all add: word_unat_eq_iff unsigned_ucast_eq unsigned_take_bit_eq take_bit_nat_eq_self)
    then show ?thesis using 1 by (simp add: wtf8_bytes_def uv__wtf8_decode1_def word_less_nat_alt word_le_nat_alt)
  next
    case 2
    then have "unat (ucast (or 0xC0 (drop_bit 6 cp)) :: u8) = 0xC0 + unat cp div 2 ^ 6" by (intro byte_unat) simp
    moreover have "2 \<le> unat cp div 2 ^ 6" "unat cp div 2 ^ 6 < 2 ^ 5" using 2 by auto
    ultimately show ?thesis using 2 join_2 [of cp]
      by (simp add: wtf8_bytes_def uv__wtf8_decode1_def word_less_nat_alt word_le_nat_alt Let_def cont_top cont_low)
  next
    case 3
    then have "unat (ucast (or 0xE0 (drop_bit 12 cp)) :: u8) = 0xE0 + unat cp div 2 ^ 12" by (intro byte_unat) simp
    moreover have "unat cp div 2 ^ 12 < 2 ^ 4" using 3 by auto
    ultimately show ?thesis using 3 join_3 [of cp]
      by (simp add: wtf8_bytes_def uv__wtf8_decode1_def word_less_nat_alt word_le_nat_alt Let_def cont_top cont_low)
  next
    case 4
    then have "unat (ucast (or 0xF0 (drop_bit 18 cp)) :: u8) = 0xF0 + unat cp div 2 ^ 18"
      using assms by (intro byte_unat) simp
    moreover have "unat cp div 2 ^ 18 < 5" using assms by auto
    ultimately show ?thesis using 4 assms join_4 [of cp]
      by (simp add: wtf8_bytes_def uv__wtf8_decode1_def word_less_nat_alt word_le_nat_alt Let_def cont_top cont_low)
  qed
qed

section \<open>The characters of a UTF-16 text\<close>

definition is_high :: "u16 \<Rightarrow> bool" where "is_high u \<longleftrightarrow> u \<ge> 0xD800 \<and> u \<le> 0xDBFF"
definition is_low :: "u16 \<Rightarrow> bool" where "is_low u \<longleftrightarrow> u \<ge> 0xDC00 \<and> u \<le> 0xDFFF"

definition pair_value :: "u16 \<Rightarrow> u16 \<Rightarrow> u32" where
  "pair_value u v = 0x10000 + push_bit 10 (ucast u - 0xD800) + (ucast v - 0xDC00)"

fun code_points :: "u16 list \<Rightarrow> u32 list" where
  "code_points (u # v # w) =
     (if is_high u \<and> is_low v then pair_value u v # code_points w else ucast u # code_points (v # w))"
| "code_points [u] = [ucast u]"
| "code_points [] = []"

definition units :: "u32 \<Rightarrow> u16 list" where
  "units cp =
     (if cp > 0xFFFF then [ucast (drop_bit 10 (cp - 0x10000) + 0xD800), ucast (and (cp - 0x10000) 0x3FF) + 0xDC00]
      else [ucast cp])"

definition wtf8 :: "u16 list \<Rightarrow> u8 list" where
  "wtf8 w = concat (map wtf8_bytes (code_points w))"

lemma unat_ucast_up: "unat (ucast (u :: u16) :: u32) = unat u"
  by (simp add: unsigned_ucast_eq take_bit_nat_eq_self unsigned_less [THEN order_less_trans])

lemma unat_less_16: "unat (u :: u16) < 65536"
  using unsigned_less [of u, where 'a = nat] by simp

lemma unat_push_10: "unat x < 2 ^ 22 \<Longrightarrow> unat (push_bit 10 x :: u32) = 1024 * unat x"
  by (simp add: push_bit_eq_mult unat_word_ariths)

lemma unat_take_10: "unat (take_bit 10 x :: u32) = unat x mod 1024"
  by (simp only: unsigned_take_bit_eq) (simp add: take_bit_eq_mod)

lemma pair_value_unat:
  assumes "is_high u" and "is_low v"
  shows "unat (pair_value u v) = 0x10000 + 1024 * (unat u - 0xD800) + (unat v - 0xDC00)"
    and "unat (pair_value u v) < 0x110000"
proof -
  have a: "0xD800 \<le> unat u" "unat u \<le> 0xDBFF" "0xDC00 \<le> unat v" "unat v \<le> 0xDFFF"
    using assms by (auto simp: is_high_def is_low_def word_le_nat_alt)
  have u: "unat (ucast u - 0xD800 :: u32) = unat u - 0xD800" "unat (ucast v - 0xDC00 :: u32) = unat v - 0xDC00"
    using a by (simp_all add: unat_sub word_le_nat_alt unat_ucast_up)
  have p: "unat (push_bit 10 (ucast u - 0xD800 :: u32)) = 1024 * (unat u - 0xD800)"
    using a unat_push_10 [of "ucast u - 0xD800"] by (simp only: u) simp
  show "unat (pair_value u v) = 0x10000 + 1024 * (unat u - 0xD800) + (unat v - 0xDC00)"
    unfolding pair_value_def unat_word_ariths p u using a by simp
  then show "unat (pair_value u v) < 0x110000" using a by simp
qed

lemma code_points_less: "cp \<in> set (code_points w) \<Longrightarrow> unat cp < 0x110000"
proof (induction w rule: code_points.induct)
  case (1 u v w)
  have "unat (ucast u :: u32) < 0x110000" using unat_less_16 [of u] by (simp add: unat_ucast_up)
  then show ?case using 1 pair_value_unat(2) [of u v] by (auto split: if_splits)
next
  case (2 u)
  then show ?case using unat_less_16 [of u] by (simp add: unat_ucast_up)
qed simp

lemma units_pair:
  assumes "is_high u" and "is_low v"
  shows "units (pair_value u v) = [u, v]"
proof -
  have a: "0xD800 \<le> unat u" "unat u \<le> 0xDBFF" "0xDC00 \<le> unat v" "unat v \<le> 0xDFFF"
    using assms by (auto simp: is_high_def is_low_def word_le_nat_alt)
  let ?d = "pair_value u v - 0x10000"
  have d: "unat ?d = 1024 * (unat u - 0xD800) + (unat v - 0xDC00)"
    using pair_value_unat(1) [OF assms] by (simp add: unat_sub word_le_nat_alt)
  have "unat (drop_bit 10 ?d) = unat ?d div 1024" by (simp only: unat_drop_bit_eq) (simp add: drop_bit_eq_div)
  also have "\<dots> = unat u - 0xD800" unfolding d using a by simp
  finally have "unat (drop_bit 10 ?d + 0xD800) = unat u" using a by (simp add: unat_word_ariths)
  then have 1: "ucast (drop_bit 10 ?d + 0xD800) = u"
    using unat_less_16 [of u] by (simp add: word_unat_eq_iff unsigned_ucast_eq unsigned_take_bit_eq take_bit_nat_eq_self)
  have "and ?d 0x3FF = take_bit 10 ?d" by (simp add: take_bit_eq_mask mask_eq_exp_minus_1)
  then have "unat (and ?d 0x3FF) = unat ?d mod 1024" by (simp only: unat_take_10)
  also have "\<dots> = unat v - 0xDC00" unfolding d mod_mult_self4 using a by (intro mod_less) simp
  finally have "unat (ucast (and ?d 0x3FF) :: u16) = unat v - 0xDC00"
    using a by (simp add: unsigned_ucast_eq unsigned_take_bit_eq take_bit_nat_eq_self)
  then have "unat (ucast (and ?d 0x3FF) + 0xDC00 :: u16) = unat v" using a by (simp add: unat_word_ariths)
  then have 2: "ucast (and ?d 0x3FF) + 0xDC00 = v" by (simp only: word_unat_eq_iff)
  show ?thesis using 1 2 pair_value_unat(1) [OF assms] by (simp add: units_def word_less_nat_alt)
qed

lemma units_single: "units (ucast u) = [u]" for u :: u16
  using unat_less_16 [of u]
  by (simp add: units_def word_less_nat_alt unat_ucast_up word_unat_eq_iff unsigned_ucast_eq unsigned_take_bit_eq
      take_bit_nat_eq_self)

lemma units_code_points: "concat (map units (code_points w)) = w"
  by (induction w rule: code_points.induct) (simp_all add: units_pair units_single)

section \<open>The loops on a text\<close>

lemma not_neg: "unat cp < 0x110000 \<Longrightarrow> \<not> cp <s 0" for cp :: u32
proof -
  assume "unat cp < 0x110000"
  then have "uint cp < 0x110000" by (metis of_nat_less_iff of_nat_numeral uint_nat)
  also have "\<dots> < 2 ^ 31" by simp
  finally have "uint cp < 2 ^ 31" .
  then have "signed_take_bit (LENGTH(32) - 1) (uint cp) = uint cp"
    by (intro signed_take_bit_int_eq_self) (simp_all add: order_trans [OF _ uint_ge_0])
  then have "sint cp = uint cp" by (simp only: sint_uint One_nat_def)
  then show ?thesis by (simp add: word_sless_alt)
qed

text \<open>The source holds \<open>w\<close> at the position, and \<open>len\<close> says where it ends.\<close>

definition ends :: "u16 list \<Rightarrow> u16 list \<Rightarrow> int \<Rightarrow> bool" where
  "ends w post len \<longleftrightarrow> len = int (length w) \<or> len < 0 \<and> (\<exists>p. post = 0 # p)"

lemma surrogate_eq: "uv__get_surrogate_value w j len = do {
    u \<leftarrow> rd w j;
    if is_high u \<and> len \<noteq> 1 then do {
      v \<leftarrow> rd w (j + 1);
      if is_low v then Some (pair_value u v) else Some (ucast u) }
    else Some (ucast u) }"
  unfolding uv__get_surrogate_value_def is_high_def is_low_def pair_value_def conj_assoc ..

lemma surrogate_step:
  assumes "ends (u # w) post len"
  shows "(\<exists>v w'. w = v # w' \<and> is_high u \<and> is_low v \<and> code_points (u # w) = pair_value u v # code_points w' \<and>
      uv__get_surrogate_value (pre @ u # w @ post) (length pre) len = Some (pair_value u v)) \<or>
    (code_points (u # w) = ucast u # code_points w \<and>
      uv__get_surrogate_value (pre @ u # w @ post) (length pre) len = Some (ucast u))"
proof (cases w)
  case Nil
  have "uv__get_surrogate_value (pre @ u # post) (length pre) len = Some (ucast u)"
  proof (cases "len = 1")
    case False
    then obtain p where "post = 0 # p" using assms Nil by (auto simp: ends_def)
    then show ?thesis by (simp add: surrogate_eq is_low_def)
  qed (simp add: surrogate_eq)
  then show ?thesis using Nil by simp
next
  case (Cons v w')
  then have "len \<noteq> 1" using assms by (auto simp: ends_def)
  then show ?thesis using Cons
    by (auto simp: surrogate_eq)
qed

lemma ends_step:
  "ends (u # w) post len \<Longrightarrow> ends w post (if len > 0 then len - 1 else len)"
  by (auto simp: ends_def)

lemma pair_high: "is_high u \<Longrightarrow> is_low v \<Longrightarrow> \<not> pair_value u v < 0x10000"
  using pair_value_unat(1) [of u v] by (simp add: word_less_nat_alt)

lemma pair_nonzero: "is_high u \<Longrightarrow> is_low v \<Longrightarrow> pair_value u v \<noteq> 0"
  using pair_high by fastforce

lemma single_low: "ucast u < (0x10000 :: u32)" for u :: u16
  using unat_less_16 [of u] by (simp add: word_less_nat_alt unat_ucast_up)

lemma ucast_zero: "(ucast u :: u32) = 0 \<longleftrightarrow> u = 0" for u :: u16
  using unat_ucast_up [of u] by (metis unat_eq_zero unsigned_0)

lemma length_wtf8_bytes: "length (wtf8_bytes cp) = (if cp < 0x80 then 1 else if cp < 0x800 then 2
    else if cp < 0x10000 then 3 else 4)"
  by (simp add: wtf8_bytes_def)

lemma wtf8_single: "code_points (u # w) = ucast u # code_points w \<Longrightarrow> wtf8 (u # w) = wtf8_bytes (ucast u) @ wtf8 w"
  by (simp add: wtf8_def)

lemma wtf8_pair: "is_high u \<Longrightarrow> is_low v \<Longrightarrow> wtf8 (u # v # w) = wtf8_bytes (pair_value u v) @ wtf8 w"
  by (simp add: wtf8_def)

lemma length_as_wtf8_text:
  assumes "0 \<notin> set w" and "ends w post len"
  shows "length_as_wtf8_loop (pre @ w @ post) (length pre) len n = Some (n + length (wtf8 w))"
  using assms
proof (induction "length w" arbitrary: w pre len n rule: less_induct)
  case less
  show ?case
  proof (cases w)
    case Nil
    then show ?thesis using less.prems
      by (auto simp: ends_def length_as_wtf8_loop.simps wtf8_def uv__get_surrogate_value_def word_sless_alt word_le_nat_alt)
  next
    case (Cons u w1)
    have len: "len \<noteq> 0" using less.prems(2) Cons by (auto simp: ends_def)
    have e: "ends w1 post (if len > 0 then len - 1 else len)" using less.prems(2) ends_step Cons by blast
    from surrogate_step [of u w1 post len pre] less.prems(2) Cons
    consider (pair) v w2 where "w1 = v # w2" "is_high u" "is_low v"
        "uv__get_surrogate_value (pre @ w @ post) (length pre) len = Some (pair_value u v)"
      | (single) "code_points (u # w1) = ucast u # code_points w1"
        "uv__get_surrogate_value (pre @ w @ post) (length pre) len = Some (ucast u)" by fastforce
    then show ?thesis
    proof cases
      case pair
      have IH: "length_as_wtf8_loop ((pre @ [u, v]) @ w2 @ post) (length (pre @ [u, v])) l m =
          Some (m + length (wtf8 w2))" if "ends w2 post l" for l m
        by (rule less.hyps) (use that less.prems(1) Cons pair(1) in auto)
      have "\<not> pair_value u v <s 0" using not_neg pair_value_unat(2) pair(2,3) by blast
      moreover have "pair_value u v \<noteq> 0" using pair_high [OF pair(2,3)] by auto
      ultimately show ?thesis using IH pair len Cons ends_step [OF e [unfolded pair(1)]] pair_high [OF pair(2,3)]
        by (simp add: length_as_wtf8_loop.simps [of "pre @ u # v # w2 @ post" "length pre"] wtf8_pair length_wtf8_bytes
            Let_def word_less_nat_alt split: if_splits)
    next
      case single
      have IH: "length_as_wtf8_loop ((pre @ [u]) @ w1 @ post) (length (pre @ [u])) l m =
          Some (m + length (wtf8 w1))" if "ends w1 post l" for l m
        by (rule less.hyps) (use that less.prems(1) Cons in auto)
      have "\<not> (ucast u :: u32) <s 0" using not_neg [of "ucast u"] unat_less_16 [of u] by (simp add: unat_ucast_up)
      moreover have "(ucast u :: u32) \<noteq> 0" using less.prems(1) Cons by (simp add: ucast_zero)
      ultimately show ?thesis using IH [OF e] single len Cons single_low [of u]
        by (simp add: length_as_wtf8_loop.simps [of "pre @ u # w1 @ post" "length pre"] wtf8_single length_wtf8_bytes
            split: if_splits)
    qed
  qed
qed

lemma put_bytes_ok: "length out + length bs \<le> cap \<Longrightarrow> put_bytes cap out bs = (out @ bs, True)"
  by (induction bs arbitrary: out) auto

lemma utf16_to_wtf8_text:
  assumes "0 \<notin> set w" and "ends w post len" and "cap = length out + length (wtf8 w)"
  shows "\<exists>t. utf16_to_wtf8_loop (pre @ w @ post) cap (length pre) len out tlen =
    Some (length pre + length w, if len < 0 then len else 0, out @ wtf8 w, t)"
  using assms
proof (induction "length w" arbitrary: w pre len out tlen rule: less_induct)
  case less
  show ?case
  proof (cases w)
    case Nil
    then show ?thesis using less.prems by (auto simp: ends_def utf16_to_wtf8_loop.simps wtf8_def)
  next
    case (Cons u w1)
    have len: "len \<noteq> 0" using less.prems(2) Cons by (auto simp: ends_def)
    have e: "ends w1 post (if len > 0 then len - 1 else len)" using less.prems(2) ends_step Cons by blast
    from surrogate_step [of u w1 post len pre] less.prems(2) Cons
    consider (pair) v w2 where "w1 = v # w2" "is_high u" "is_low v"
        "uv__get_surrogate_value (pre @ w @ post) (length pre) len = Some (pair_value u v)"
      | (single) "code_points (u # w1) = ucast u # code_points w1"
        "uv__get_surrogate_value (pre @ w @ post) (length pre) len = Some (ucast u)" by fastforce
    then show ?thesis
    proof cases
      case pair
      let ?bs = "wtf8_bytes (pair_value u v)"
      let ?len = "if (if len > 0 then len - 1 else len) > 0 then (if len > 0 then len - 1 else len) - 1
        else (if len > 0 then len - 1 else len)"
      have cap: "cap = length (out @ ?bs) + length (wtf8 w2)" "put_bytes cap out ?bs = (out @ ?bs, True)"
        "length out \<noteq> cap"
        using less.prems(3) Cons pair wtf8_pair [OF pair(2,3), of w2] put_bytes_ok [of out ?bs cap] by auto
      have "\<exists>t. utf16_to_wtf8_loop ((pre @ [u, v]) @ w2 @ post) cap (length (pre @ [u, v])) ?len (out @ ?bs)
          (length (out @ ?bs)) = Some (length (pre @ [u, v]) + length w2, if ?len < 0 then ?len else 0, (out @ ?bs) @ wtf8 w2, t)"
        by (rule less.hyps) (use less.prems(1) Cons pair(1) cap(1) ends_step [OF e [unfolded pair(1)]] in auto)
      moreover have "(if ?len < 0 then ?len else 0) = (if len < 0 then len else 0)" by auto
      moreover have "\<not> pair_value u v <s 0" using not_neg pair_value_unat(2) pair(2,3) by blast
      moreover have "pair_value u v \<noteq> 0" "0x10000 \<le> pair_value u v" using pair_high [OF pair(2,3)] by auto
      ultimately show ?thesis using pair len Cons cap
        by (simp add: utf16_to_wtf8_loop.simps [of "pre @ u # v # w2 @ post" _ "length pre"] wtf8_pair Let_def
            split del: if_split)
    next
      case single
      let ?bs = "wtf8_bytes (ucast u)"
      let ?len = "if len > 0 then len - 1 else len"
      have cap: "cap = length (out @ ?bs) + length (wtf8 w1)" "put_bytes cap out ?bs = (out @ ?bs, True)"
        "length out \<noteq> cap"
        using less.prems(3) Cons wtf8_single [OF single(1)] put_bytes_ok [of out ?bs cap] by auto
      have "\<exists>t. utf16_to_wtf8_loop ((pre @ [u]) @ w1 @ post) cap (length (pre @ [u])) ?len (out @ ?bs)
          (length (out @ ?bs)) = Some (length (pre @ [u]) + length w1, if ?len < 0 then ?len else 0, (out @ ?bs) @ wtf8 w1, t)"
        by (rule less.hyps) (use less.prems(1) Cons cap(1) e in auto)
      moreover have "(if ?len < 0 then ?len else 0) = (if len < 0 then len else 0)" by auto
      moreover have "\<not> (ucast u :: u32) <s 0" using not_neg [of "ucast u"] unat_less_16 [of u] by (simp add: unat_ucast_up)
      moreover have "(ucast u :: u32) \<noteq> 0" using less.prems(1) Cons by (simp add: ucast_zero)
      moreover have "\<not> 0x10000 \<le> (ucast u :: u32)" using single_low [of u] by simp
      ultimately show ?thesis using single len Cons cap
        by (simp add: utf16_to_wtf8_loop.simps [of "pre @ u # w1 @ post" _ "length pre"] wtf8_single Let_def
            split del: if_split)
    qed
  qed
qed

text \<open>Decoding what was encoded.\<close>

lemma length_units: "length (units cp) = (if cp > 0xFFFF then 2 else 1)"
  by (simp add: units_def)

lemma last_byte:
  assumes "unat cp < 0x110000" and "cp \<noteq> 0"
  shows "(xs @ wtf8_bytes cp @ ys) ! (length xs + length (wtf8_bytes cp) - 1) \<noteq> 0"
proof -
  have "(ucast cp :: u8) \<noteq> 0" if "cp < 0x80"
    using that assms(2) by (simp add: word_unat_eq_iff unsigned_ucast_eq unsigned_take_bit_eq take_bit_nat_eq_self word_less_nat_alt)
  moreover have "(ucast (or 0x80 (and cp 0x3F)) :: u8) \<noteq> 0"
  proof
    assume "(ucast (or 0x80 (and cp 0x3F)) :: u8) = 0"
    then show False using cont_top [of cp] by simp
  qed
  ultimately have "last (wtf8_bytes cp) \<noteq> 0" by (auto simp: wtf8_bytes_def)
  moreover have "(xs @ wtf8_bytes cp @ ys) ! (length xs + length (wtf8_bytes cp) - 1) = last (wtf8_bytes cp)"
    using wtf8_bytes_nonempty [of cp] by (cases "wtf8_bytes cp") (simp_all add: nth_append last_conv_nth)
  ultimately show ?thesis by simp
qed

lemma length_as_utf16_text:
  assumes "\<forall>cp\<in>set cps. unat cp < 0x110000 \<and> cp \<noteq> 0"
  shows "length_as_utf16_loop (xs @ concat (map wtf8_bytes cps) @ [0]) (length xs) n =
    Some (n + int (length (concat (map units cps))) + 1)"
  using assms
proof (induction cps arbitrary: xs n)
  case Nil
  have "uv__wtf8_decode1 (xs @ [0]) (length xs) = Some (0, length xs)" by (simp add: uv__wtf8_decode1_def)
  then show ?case by (simp add: length_as_utf16_loop.simps)
next
  case (Cons cp cps)
  let ?s = "xs @ wtf8_bytes cp @ concat (map wtf8_bytes cps) @ [0]"
  have cp: "unat cp < 0x110000" "cp \<noteq> 0" using Cons.prems by auto
  have k: "Suc (length xs + length (wtf8_bytes cp) - 1) = length (xs @ wtf8_bytes cp)"
    using wtf8_bytes_nonempty [of cp] by (cases "wtf8_bytes cp") auto
  have IH: "length_as_utf16_loop ?s (length (xs @ wtf8_bytes cp)) m =
      Some (m + int (length (concat (map units cps))) + 1)" for m
    using Cons.IH [of "xs @ wtf8_bytes cp" m] Cons.prems by simp
  show ?case
    using decode1_encoded [OF cp(1), of xs "concat (map wtf8_bytes cps) @ [0]"]
      last_byte [OF cp, of xs "concat (map wtf8_bytes cps) @ [0]"] IH not_neg [OF cp(1)] k
    by (simp add: length_as_utf16_loop.simps [of ?s "length xs"] length_units Let_def)
qed

lemma wtf8_to_utf16_text:
  assumes "\<forall>cp\<in>set cps. unat cp < 0x10FFFF \<and> cp \<noteq> 0 \<and> cp \<noteq> 0x10000"
    and "cap = length out + length (concat (map units cps)) + 1"
  shows "wtf8_to_utf16_loop (xs @ concat (map wtf8_bytes cps) @ [0]) (length xs) cap out =
    Some (out @ concat (map units cps) @ [0])"
  using assms
proof (induction cps arbitrary: xs out)
  case Nil
  have "uv__wtf8_decode1 (xs @ [0]) (length xs) = Some (0, length xs)" by (simp add: uv__wtf8_decode1_def)
  then show ?case using Nil by (simp add: wtf8_to_utf16_loop.simps Let_def)
next
  case (Cons cp cps)
  let ?s = "xs @ wtf8_bytes cp @ concat (map wtf8_bytes cps) @ [0]"
  have cp: "unat cp < 0x110000" "cp \<noteq> 0" "cp \<noteq> 0x10000" "cp < 0x10FFFF"
    using Cons.prems(1) by (auto simp: word_less_nat_alt)
  have k: "Suc (length xs + length (wtf8_bytes cp) - 1) = length (xs @ wtf8_bytes cp)"
    using wtf8_bytes_nonempty [of cp] by (cases "wtf8_bytes cp") auto
  have u: "(if cp > 0x10000 then out @ [ucast (drop_bit 10 (cp - 0x10000) + 0xD800), ucast (and (cp - 0x10000) 0x3FF) + 0xDC00]
      else out @ [ucast cp]) = out @ units cp"
  proof -
    have "0x10000 < cp \<longleftrightarrow> 0xFFFF < cp" using cp(3)
      by (auto simp: word_less_nat_alt word_unat_eq_iff)
    then show ?thesis by (simp add: units_def)
  qed
  have IH: "wtf8_to_utf16_loop ?s (length (xs @ wtf8_bytes cp)) cap (out @ units cp) =
      Some ((out @ units cp) @ concat (map units cps) @ [0])"
    using Cons.IH [of "out @ units cp" "xs @ wtf8_bytes cp"] Cons.prems by simp
  show ?case
    using decode1_encoded [OF cp(1), of xs "concat (map wtf8_bytes cps) @ [0]"]
      last_byte [OF cp(1,2), of xs "concat (map wtf8_bytes cps) @ [0]"] IH not_neg [OF cp(1)] k Cons.prems(2) cp(4)
    by (simp add: wtf8_to_utf16_loop.simps [of ?s "length xs"] u Let_def)
qed

text \<open>The terminated text of any units but the two characters converts back.\<close>

lemma wtf8_convert:
  assumes "0 \<notin> set w" and "0x10000 \<notin> set (code_points w)" and "0x10FFFF \<notin> set (code_points w)"
  shows "uv_wtf8_length_as_utf16 (wtf8 w @ [0]) = Some (int (length w) + 1)"
    and "uv_wtf8_to_utf16 (wtf8 w @ [0]) (length w + 1) = Some (w @ [0])"
proof -
  have nz: "cp \<noteq> 0" if "cp \<in> set (code_points w)" for cp
    using that assms(1) pair_nonzero
    by (induction w rule: code_points.induct) (auto simp: ucast_zero split: if_splits)
  have le: "unat cp < 0x10FFFF" if "cp \<in> set (code_points w)" for cp
  proof -
    have "cp \<noteq> 0x10FFFF" using that assms(3) by auto
    then have "unat cp \<noteq> 0x10FFFF" by (simp add: word_unat_eq_iff)
    then show ?thesis using code_points_less [OF that] by simp
  qed
  show "uv_wtf8_length_as_utf16 (wtf8 w @ [0]) = Some (int (length w) + 1)"
    using length_as_utf16_text [of "code_points w" "[]" 0] nz code_points_less
    by (simp add: uv_wtf8_length_as_utf16_def wtf8_def units_code_points)
  show "uv_wtf8_to_utf16 (wtf8 w @ [0]) (length w + 1) = Some (w @ [0])"
    using wtf8_to_utf16_text [of "code_points w" "length w + 1" "[]" "[]"] nz le assms(2)
    by (auto simp: uv_wtf8_to_utf16_def wtf8_def units_code_points)
qed

section \<open>Properties\<close>



text \<open>The exceptions are real: for U+10000 and U+10FFFF the length function asks for three units
  (a pair and the terminator), but the conversion into a buffer of that length fails an assertion.\<close>

theorem wtf8_edges_assert:
  "uv_wtf8_length_as_utf16 [0xF0, 0x90, 0x80, 0x80, 0] = Some 3 \<and>
   uv_wtf8_to_utf16 [0xF0, 0x90, 0x80, 0x80, 0] 3 = None \<and>
   uv_wtf8_length_as_utf16 [0xF4, 0x8F, 0xBF, 0xBF, 0] = Some 3 \<and>
   uv_wtf8_to_utf16 [0xF4, 0x8F, 0xBF, 0xBF, 0] 3 = None"
proof -
  have a: "uv__wtf8_decode1 [0xF0, 0x90, 0x80, 0x80, 0] 0 = Some (0x10000, 3)"
    "uv__wtf8_decode1 [0xF0, 0x90, 0x80, 0x80, 0] 4 = Some (0, 4)"
    "uv__wtf8_decode1 [0xF4, 0x8F, 0xBF, 0xBF, 0] 0 = Some (0x10FFFF, 3)"
    "uv__wtf8_decode1 [0xF4, 0x8F, 0xBF, 0xBF, 0] 4 = Some (0, 4)"
    by code_simp+
  show ?thesis
    by (simp add: uv_wtf8_length_as_utf16_def uv_wtf8_to_utf16_def a Let_def word_sless_alt
        length_as_utf16_loop.simps [of _ 0] length_as_utf16_loop.simps [of _ 4]
        wtf8_to_utf16_loop.simps [of _ 0] wtf8_to_utf16_loop.simps [of _ 4])
qed

end
