(* ===== verification/UV_Idna.thy ===== *)
theory UV_Idna
  imports UV_Wtf8
begin

text \<open>
  Domain names in ASCII, src/idna.c: the UTF-8 decoder and the Punycode encoder.  The pointers
  \<open>p\<close> and \<open>pe\<close> are the bytes between them; the destination is the list of bytes written so far
  and the number \<open>room\<close> of bytes between its start and \<open>de\<close>.  \<open>None\<close> is a failed assertion, an
  access outside the alphabet, or a loop that does not end.
\<close>

section \<open>Decoding UTF-8\<close>

definition utf8_join :: "u32 \<Rightarrow> u32 \<Rightarrow> u32 \<Rightarrow> u32 \<Rightarrow> u32 \<Rightarrow> u32" where
  "utf8_join mn a b c d =
     (if and 0xC0 (xor (xor b c) d) \<noteq> 0x80 then - 1
      else let b = and b 63; c = and c 63; d = and d 63;
               a = or (or (or (push_bit 18 a) (push_bit 12 b)) (push_bit 6 c)) d
           in if a < mn then - 1
              else if a > 0x10FFFF then - 1
              else if a \<ge> 0xD800 \<and> a \<le> 0xDFFF then - 1
              else a)"

text \<open>The \<open>switch\<close> on the number of bytes left, with its fall-throughs.\<close>

definition uv__utf8_decode1_slow :: "u8 list \<Rightarrow> u32 \<Rightarrow> u32 \<times> u8 list" where
  "uv__utf8_decode1_slow p a =
     (if a > 0xF7 then (- 1, p)
      else case p of
        b # c # d # p' \<Rightarrow>
          (if a > 0xEF then (utf8_join 0x10000 (and a 7) (ucast b) (ucast c) (ucast d), p')
           else if a > 0xDF then (utf8_join 0x800 0 (or 0x80 (and a 15)) (ucast b) (ucast c), d # p')
           else if a > 0xBF then (utf8_join 0x80 0 0x80 (or 0x80 (and a 31)) (ucast b), c # d # p')
           else (- 1, p))
      | [c, d] \<Rightarrow>
          (if a > 0xDF then (utf8_join 0x800 0 (or 0x80 (and a 15)) (ucast c) (ucast d), [])
           else if a > 0xBF then (utf8_join 0x80 0 0x80 (or 0x80 (and a 31)) (ucast c), [d])
           else (- 1, p))
      | [d] \<Rightarrow>
          (if a > 0xBF then (utf8_join 0x80 0 0x80 (or 0x80 (and a 31)) (ucast d), [])
           else (- 1, p))
      | [] \<Rightarrow> (- 1, p))"

definition uv__utf8_decode1 :: "u8 list \<Rightarrow> (u32 \<times> u8 list) option" where
  "uv__utf8_decode1 p =
     (case p of
        [] \<Rightarrow> None
      | a # p \<Rightarrow> Some (if a < 128 then (ucast a, p) else uv__utf8_decode1_slow p (ucast a)))"

lemma utf8_decode1_shorter: "uv__utf8_decode1 s = Some (c, s') \<Longrightarrow> length s' < length s"
  by (auto simp: uv__utf8_decode1_def uv__utf8_decode1_slow_def split: list.splits if_splits)

section \<open>The Punycode encoder\<close>

definition UINT_MAX :: u32 where "UINT_MAX = - 1"

definition emit :: "nat \<Rightarrow> u8 \<Rightarrow> u8 list \<Rightarrow> u8 list" where
  "emit room b d = (if length d < room then d @ [b] else d)"

definition alphabet :: "u8 list" where
  "alphabet = map of_nat ([97..<123] @ [48..<58]) @ [0]"

text \<open>The first loop: it counts the ASCII and the other characters.\<close>

function count_loop :: "u8 list \<Rightarrow> u32 \<Rightarrow> u32 \<Rightarrow> (uv_errno + u32 \<times> u32) option" where
  "count_loop s h todo =
     (if s = [] then Some (Inr (h, todo))
      else case uv__utf8_decode1 s of
        None \<Rightarrow> None
      | Some (c, s) \<Rightarrow>
          (if c = UINT_MAX then Some (Inl UV_EINVAL)
           else if c < 128 then count_loop s (h + 1) todo
           else count_loop s h (todo + 1)))"
  by pat_completeness auto
termination by (relation "measure (\<lambda>(s, h, todo). length s)") (auto dest: utf8_decode1_shorter)

text \<open>The second loop writes the ASCII characters and stops after the last of them.\<close>

function ascii_loop :: "u8 list \<Rightarrow> u32 \<Rightarrow> u32 \<Rightarrow> nat \<Rightarrow> u8 list \<Rightarrow> u8 list option" where
  "ascii_loop s x h room d =
     (if s = [] then Some d
      else case uv__utf8_decode1 s of
        None \<Rightarrow> None
      | Some (c, s) \<Rightarrow>
          (if c = UINT_MAX then None
           else if c > 127 then ascii_loop s x h room d
           else let d = emit room (ucast c) d; x = x + 1
                in if x = h then Some d else ascii_loop s x h room d))"
  by pat_completeness auto
termination by (relation "measure (\<lambda>(s, x, h, room, d). length s)") (auto dest: utf8_decode1_shorter)

text \<open>The smallest character that is at least \<open>n\<close>.\<close>

function min_loop :: "u8 list \<Rightarrow> u32 \<Rightarrow> u32 \<Rightarrow> u32 option" where
  "min_loop s n m =
     (if s = [] then Some m
      else case uv__utf8_decode1 s of
        None \<Rightarrow> None
      | Some (c, s) \<Rightarrow>
          (if c = UINT_MAX then None
           else min_loop s n (if c \<ge> n \<and> c < m then c else m)))"
  by pat_completeness auto
termination by (relation "measure (\<lambda>(s, n, m). length s)") (auto dest: utf8_decode1_shorter)

text \<open>A delta as a generalised variable-length integer.\<close>

definition threshold :: "u32 \<Rightarrow> u32 \<Rightarrow> u32" where
  "threshold k bias = (let t = 1; t = (if k > bias then k - bias else t) in if t > 26 then 26 else t)"

lemma threshold_range: "1 \<le> unat (threshold k bias) \<and> unat (threshold k bias) \<le> 26"
proof -
  have "unat (k - bias) \<noteq> 0" if "k > bias" using that by (simp add: unat_eq_zero)
  then show ?thesis by (auto simp: threshold_def Let_def word_less_nat_alt)
qed

lemma digit_decreases:
  fixes q :: u32
  assumes "\<not> q < threshold k bias"
  shows "unat ((q - threshold k bias) div (36 - threshold k bias)) < unat q"
proof -
  let ?t = "threshold k bias"
  have t: "1 \<le> unat ?t" "unat ?t \<le> 26" using threshold_range by auto
  have "unat (36 - ?t) = 36 - unat ?t" using t by (simp add: unat_sub word_le_nat_alt)
  moreover have q: "unat (q - ?t) = unat q - unat ?t" "unat ?t \<le> unat q"
    using assms by (simp_all add: unat_sub word_le_nat_alt word_less_nat_alt)
  ultimately have "unat ((q - ?t) div (36 - ?t)) = (unat q - unat ?t) div (36 - unat ?t)"
    by (simp add: unat_div)
  also have "\<dots> \<le> unat q - unat ?t" by simp
  also have "\<dots> < unat q" using t q by simp
  finally show ?thesis .
qed

function digit_loop :: "u32 \<Rightarrow> u32 \<Rightarrow> u32 \<Rightarrow> nat \<Rightarrow> u8 list \<Rightarrow> u8 list option" where
  "digit_loop k q bias room d =
     (let t = threshold k bias
      in if q < t then map_option (\<lambda>b. emit room b d) (rd alphabet (unat q))
         else let x = q - t; y = 36 - t; q = x div y; t = t + x mod y
              in case rd alphabet (unat t) of
                   None \<Rightarrow> None
                 | Some b \<Rightarrow> digit_loop (k + 36) q bias room (emit room b d))"
  by pat_completeness auto
termination
  by (relation "measure (\<lambda>(k, q, bias, room, d). unat q)") (auto simp: digit_decreases)

function adapt_loop :: "u32 \<Rightarrow> u32 \<Rightarrow> u32 \<times> u32" where
  "adapt_loop delta bias =
     (if delta > 35 * 26 div 2 then adapt_loop (delta div 35) (bias + 36) else (delta, bias))"
  by pat_completeness auto
termination
  by (relation "measure (\<lambda>(delta, bias). unat delta)")
     (auto simp: word_less_nat_alt unat_div)

record puny =
  p_delta :: u32
  p_h :: u32
  p_bias :: u32
  p_todo :: u32
  p_first :: bool
  p_out :: "u8 list"

text \<open>What follows the digits of one character.\<close>

definition adapt :: "puny \<Rightarrow> puny" where
  "adapt st =
     (let delta = p_delta st div 2;
          delta = (if p_first st then delta div 350 else delta);
          h = p_h st + 1;
          delta = delta + delta div h;
          (delta, bias) = adapt_loop delta 0;
          bias = bias + 36 * delta div (delta + 38)
      in st\<lparr>p_delta := 0, p_h := h, p_bias := bias, p_todo := p_todo st - 1, p_first := False\<rparr>)"

function insert_loop :: "u8 list \<Rightarrow> u32 \<Rightarrow> nat \<Rightarrow> puny \<Rightarrow> (uv_errno + puny) option" where
  "insert_loop s n room st =
     (if s = [] then Some (Inr st)
      else case uv__utf8_decode1 s of
        None \<Rightarrow> None
      | Some (c, s) \<Rightarrow>
          (if c = UINT_MAX then None
           else let st = (if c < n then st\<lparr>p_delta := p_delta st + 1\<rparr> else st)
           in if c < n \<and> p_delta st = 0 then Some (Inl UV_E2BIG)
           else if c \<noteq> n then insert_loop s n room st
           else case digit_loop 36 (p_delta st) (p_bias st) room (p_out st) of
             None \<Rightarrow> None
           | Some d \<Rightarrow> insert_loop s n room (adapt (st\<lparr>p_out := d\<rparr>))))"
  by pat_completeness auto
termination by (relation "measure (\<lambda>(s, n, room, st). length s)") (auto dest: utf8_decode1_shorter)

partial_function (option) puny_loop :: "u8 list \<Rightarrow> u32 \<Rightarrow> nat \<Rightarrow> puny \<Rightarrow> (uv_errno + puny) option" where
  "puny_loop s n room st =
     (if p_todo st = 0 then Some (Inr st)
      else Option.bind (min_loop s n (- 1)) (\<lambda>m.
        let x = m - n; y = p_h st + 1
        in if x > not (p_delta st) div y then Some (Inl UV_E2BIG)
           else Option.bind (insert_loop s m room (st\<lparr>p_delta := p_delta st + x * y\<rparr>)) (\<lambda>r.
             case r of
               Inl e \<Rightarrow> Some (Inl e)
             | Inr st \<Rightarrow> puny_loop s (m + 1) room (st\<lparr>p_delta := p_delta st + 1\<rparr>))))"

declare puny_loop.simps [code]

text \<open>The results are the return value of a label without error and the bytes written so far.\<close>

definition uv__idna_toascii_label :: "u8 list \<Rightarrow> nat \<Rightarrow> u8 list \<Rightarrow> (uv_errno + u32 \<times> u8 list) option" where
  "uv__idna_toascii_label s room d =
     Option.bind (count_loop s 0 0) (\<lambda>r. case r of
       Inl e \<Rightarrow> Some (Inl e)
     | Inr (h, todo) \<Rightarrow>
         (let d = (if todo > 0 then emit room 45 (emit room 45 (emit room 110 (emit room 120 d))) else d)
          in Option.bind (ascii_loop s 0 h room d) (\<lambda>d.
               if todo = 0 then Some (Inr (h, d))
               else let d = (if h > 0 then emit room 45 d else d)
                    in map_option (map_sum id (\<lambda>st. (0, p_out st)))
                         (puny_loop s 128 room \<lparr>p_delta = 0, p_h = h, p_bias = 72, p_todo = todo,
                            p_first = True, p_out = d\<rparr>))))"

section \<open>Names\<close>

definition is_dot :: "u32 \<Rightarrow> bool" where
  "is_dot c \<longleftrightarrow> c = 46 \<or> c = 0x3002 \<or> c = 0xFF0E \<or> c = 0xFF61"

text \<open>
  The scan for dots: \<open>si\<close> are the bytes from the pointer \<open>si\<close> on, \<open>lab\<close> those between \<open>s\<close> and
  \<open>si\<close>.  A negative return value of a label ends the scan; the result is the last label and the
  destination.
\<close>

function labels_loop :: "u8 list \<Rightarrow> u8 list \<Rightarrow> nat \<Rightarrow> u8 list \<Rightarrow> (uv_errno + int + u8 list \<times> u8 list) option" where
  "labels_loop lab si room d =
     (if si = [] then Some (Inr (Inr (lab, d)))
      else case uv__utf8_decode1 si of
        None \<Rightarrow> None
      | Some (c, si') \<Rightarrow>
          (if c = UINT_MAX then Some (Inl UV_EINVAL)
           else if \<not> is_dot c then
             labels_loop (lab @ take (length si - length si') si) si' room d
           else case uv__idna_toascii_label lab room d of
             None \<Rightarrow> None
           | Some (Inl e) \<Rightarrow> Some (Inl e)
           | Some (Inr (rc, d)) \<Rightarrow>
               (if sint rc < 0 then Some (Inr (Inl (sint rc)))
                else labels_loop [] si' room (emit room 46 d))))"
  by pat_completeness auto
termination by (relation "measure (\<lambda>(lab, si, room, d). length si)") (auto dest: utf8_decode1_shorter)

text \<open>The result is an error, or the return value and the bytes written.\<close>

definition uv__idna_toascii :: "u8 list \<Rightarrow> nat \<Rightarrow> (uv_errno + int \<times> u8 list) option" where
  "uv__idna_toascii s room =
     (if s = [] then Some (Inl UV_EINVAL)
      else Option.bind (labels_loop [] s room []) (\<lambda>r. case r of
        Inl e \<Rightarrow> Some (Inl e)
      | Inr (Inl rc) \<Rightarrow> Some (Inr (rc, []))
      | Inr (Inr (lab, d)) \<Rightarrow>
          Option.bind (if lab \<noteq> [] then uv__idna_toascii_label lab room d else Some (Inr (0, d))) (\<lambda>r.
            case r of
              Inl e \<Rightarrow> Some (Inl e)
            | Inr (rc, d) \<Rightarrow>
                (if sint rc < 0 then Some (Inr (sint rc, []))
                 else if length d \<ge> room then Some (Inl UV_EINVAL)
                 else Some (Inr (int (length d) + 1, d @ [0]))))))"

declare count_loop.simps [simp del] ascii_loop.simps [simp del] min_loop.simps [simp del]
  digit_loop.simps [simp del] adapt_loop.simps [simp del] insert_loop.simps [simp del]
  labels_loop.simps [simp del]

section \<open>Valid sequences\<close>

lemma more_bits:
  "bit (63 :: u32) i \<longleftrightarrow> i < 6" "bit (31 :: u32) i \<longleftrightarrow> i < 5" "bit (15 :: u32) i \<longleftrightarrow> i < 4" "bit (7 :: u32) i \<longleftrightarrow> i < 3"
  "bit (128 :: u32) i \<longleftrightarrow> i = 7"
proof -
  have e: "(63 :: u32) = mask 6" "(31 :: u32) = mask 5" "(15 :: u32) = mask 4" "(7 :: u32) = mask 3"
    "(128 :: u32) = push_bit 7 (mask 1)"
    by (simp_all add: mask_eq_exp_minus_1)
  show "bit (63 :: u32) i \<longleftrightarrow> i < 6" "bit (31 :: u32) i \<longleftrightarrow> i < 5" "bit (15 :: u32) i \<longleftrightarrow> i < 4" "bit (7 :: u32) i \<longleftrightarrow> i < 3"
    "bit (128 :: u32) i \<longleftrightarrow> i = 7"
    unfolding e bit_push_bit_iff bit_mask_iff by (auto simp: possible_bit_def)
qed

lemmas utf8_bit_rules = byte_bit_rules bit_xor_iff more_bits

definition lead_byte :: "u32 \<Rightarrow> u32 \<Rightarrow> u32" where
  "lead_byte l v = ucast (ucast (or l v) :: u8)"

definition tail_byte :: "u32 \<Rightarrow> u32" where
  "tail_byte v = lead_byte 0x80 (and v 0x3F)"

lemma tails_ok:
  "and 0xC0 (xor (xor (tail_byte u) (tail_byte v)) (tail_byte w)) = 0x80"
  "and 0xC0 (xor (xor 0x80 (or 0x80 (and a 31))) (tail_byte w)) = 0x80"
  "and 0xC0 (xor (xor (or 0x80 (and a 15)) (tail_byte v)) (tail_byte w)) = 0x80"
  unfolding tail_byte_def lead_byte_def by (rule bit_word_eqI; simp only: utf8_bit_rules; auto)+

lemma join_utf8:
  fixes cp :: u32
  shows "unat cp < 2 ^ 11 \<Longrightarrow> or (or (or (push_bit 18 0) (push_bit 12 (and 0x80 63)))
      (push_bit 6 (and (or 0x80 (and (lead_byte 0xC0 (drop_bit 6 cp)) 31)) 63))) (and (tail_byte cp) 63) = cp"
    and "unat cp < 2 ^ 16 \<Longrightarrow> or (or (or (push_bit 18 0) (push_bit 12 (and (or 0x80 (and (lead_byte 0xE0 (drop_bit 12 cp)) 15)) 63)))
      (push_bit 6 (and (tail_byte (drop_bit 6 cp)) 63))) (and (tail_byte cp) 63) = cp"
    and "unat cp < 2 ^ 21 \<Longrightarrow> or (or (or (push_bit 18 (and (lead_byte 0xF0 (drop_bit 18 cp)) 7)) (push_bit 12 (and (tail_byte (drop_bit 12 cp)) 63)))
      (push_bit 6 (and (tail_byte (drop_bit 6 cp)) 63))) (and (tail_byte cp) 63) = cp"
proof -
  show "unat cp < 2 ^ 11 \<Longrightarrow> or (or (or (push_bit 18 0) (push_bit 12 (and 0x80 63)))
      (push_bit 6 (and (or 0x80 (and (lead_byte 0xC0 (drop_bit 6 cp)) 31)) 63))) (and (tail_byte cp) 63) = cp" (is "_ \<Longrightarrow> ?l = _")
  proof (rule bit_word_eqI)
    fix n assume "unat cp < 2 ^ 11"
    then have "bit cp n \<Longrightarrow> n < 11" by (rule high_bits)
    then show "bit ?l n = bit cp n" unfolding tail_byte_def lead_byte_def utf8_bit_rules
      by (cases "n < 6"; cases "n < 12"; cases "n < 18") auto
  qed
  show "unat cp < 2 ^ 16 \<Longrightarrow> or (or (or (push_bit 18 0) (push_bit 12 (and (or 0x80 (and (lead_byte 0xE0 (drop_bit 12 cp)) 15)) 63)))
      (push_bit 6 (and (tail_byte (drop_bit 6 cp)) 63))) (and (tail_byte cp) 63) = cp" (is "_ \<Longrightarrow> ?l = _")
  proof (rule bit_word_eqI)
    fix n assume "unat cp < 2 ^ 16"
    then have "bit cp n \<Longrightarrow> n < 16" by (rule high_bits)
    then show "bit ?l n = bit cp n" unfolding tail_byte_def lead_byte_def utf8_bit_rules
      by (cases "n < 6"; cases "n < 12"; cases "n < 18") auto
  qed
  show "unat cp < 2 ^ 21 \<Longrightarrow> or (or (or (push_bit 18 (and (lead_byte 0xF0 (drop_bit 18 cp)) 7)) (push_bit 12 (and (tail_byte (drop_bit 12 cp)) 63)))
      (push_bit 6 (and (tail_byte (drop_bit 6 cp)) 63))) (and (tail_byte cp) 63) = cp" (is "_ \<Longrightarrow> ?l = _")
  proof (rule bit_word_eqI)
    fix n assume "unat cp < 2 ^ 21"
    then have "bit cp n \<Longrightarrow> n < 21" by (rule high_bits)
    then show "bit ?l n = bit cp n" unfolding tail_byte_def lead_byte_def utf8_bit_rules
      by (cases "n < 6"; cases "n < 12"; cases "n < 18") auto
  qed
qed

lemma unat_ucast_byte: "unat (ucast (b :: u8) :: u32) = unat b"
  by (simp add: unsigned_ucast_eq take_bit_nat_eq_self unsigned_less [THEN order_less_trans])

text \<open>A Unicode scalar value.\<close>

definition scalar :: "u32 \<Rightarrow> bool" where
  "scalar cp \<longleftrightarrow> unat cp < 0x110000 \<and> \<not> (0xD800 \<le> unat cp \<and> unat cp \<le> 0xDFFF)"

lemma utf8_join_ok:
  assumes "and 0xC0 (xor (xor b c) d) = 0x80" "scalar cp" "mn \<le> cp"
    and "or (or (or (push_bit 18 a) (push_bit 12 (and b 63))) (push_bit 6 (and c 63))) (and d 63) = cp"
  shows "utf8_join mn a b c d = cp"
  using assms unfolding utf8_join_def Let_def scalar_def by (auto simp: word_le_nat_alt word_less_nat_alt)

lemma utf8_decode1_encoded:
  assumes "scalar cp"
  shows "uv__utf8_decode1 (wtf8_bytes cp @ rest) = Some (cp, rest)"
proof -
  consider (1) "unat cp < 0x80" | (2) "0x80 \<le> unat cp" "unat cp < 0x800" | (3) "0x800 \<le> unat cp" "unat cp < 0x10000"
    | (4) "0x10000 \<le> unat cp" "unat cp < 0x110000" using assms unfolding scalar_def by linarith
  then show ?thesis
  proof cases
    case 1
    then have "ucast (ucast cp :: u8) = cp" "unat (ucast cp :: u8) = unat cp"
      by (simp_all add: word_unat_eq_iff unsigned_ucast_eq unsigned_take_bit_eq take_bit_nat_eq_self)
    then show ?thesis using 1 by (simp add: wtf8_bytes_def uv__utf8_decode1_def word_less_nat_alt)
  next
    case 2
    then have u: "unat (ucast (or 0xC0 (drop_bit 6 cp)) :: u8) = 0xC0 + unat cp div 2 ^ 6" by (intro byte_unat) simp
    then have l: "unat (lead_byte 0xC0 (drop_bit 6 cp)) = 0xC0 + unat cp div 2 ^ 6"
      by (simp only: lead_byte_def unat_ucast_byte)
    have d: "unat cp div 2 ^ 6 < 2 ^ 5" using 2 by auto
    have j: "utf8_join 0x80 0 0x80 (or 0x80 (and (lead_byte 0xC0 (drop_bit 6 cp)) 31)) (tail_byte cp) = cp"
      using 2 assms by (intro utf8_join_ok tails_ok join_utf8) (simp_all add: word_le_nat_alt)
    have b: "wtf8_bytes cp = [ucast (or 0xC0 (drop_bit 6 cp)), ucast (or 0x80 (and cp 0x3F))]"
      using 2 by (simp add: wtf8_bytes_def word_less_nat_alt)
    show ?thesis using l d u j
      by (auto simp: b uv__utf8_decode1_def uv__utf8_decode1_slow_def word_less_nat_alt
          lead_byte_def [symmetric] tail_byte_def [symmetric] split: list.split)
  next
    case 3
    then have u: "unat (ucast (or 0xE0 (drop_bit 12 cp)) :: u8) = 0xE0 + unat cp div 2 ^ 12" by (intro byte_unat) simp
    then have l: "unat (lead_byte 0xE0 (drop_bit 12 cp)) = 0xE0 + unat cp div 2 ^ 12"
      by (simp only: lead_byte_def unat_ucast_byte)
    have d: "unat cp div 2 ^ 12 < 2 ^ 4" using 3 by auto
    have j: "utf8_join 0x800 0 (or 0x80 (and (lead_byte 0xE0 (drop_bit 12 cp)) 15)) (tail_byte (drop_bit 6 cp)) (tail_byte cp) = cp"
      using 3 assms by (intro utf8_join_ok tails_ok join_utf8) (simp_all add: word_le_nat_alt)
    have b: "wtf8_bytes cp = [ucast (or 0xE0 (drop_bit 12 cp)), ucast (or 0x80 (and (drop_bit 6 cp) 0x3F)), ucast (or 0x80 (and cp 0x3F))]"
      using 3 by (simp add: wtf8_bytes_def word_less_nat_alt)
    show ?thesis using l d u j
      by (auto simp: b uv__utf8_decode1_def uv__utf8_decode1_slow_def word_less_nat_alt
          lead_byte_def [symmetric] tail_byte_def [symmetric] split: list.split)
  next
    case 4
    then have u: "unat (ucast (or 0xF0 (drop_bit 18 cp)) :: u8) = 0xF0 + unat cp div 2 ^ 18" by (intro byte_unat) simp
    then have l: "unat (lead_byte 0xF0 (drop_bit 18 cp)) = 0xF0 + unat cp div 2 ^ 18"
      by (simp only: lead_byte_def unat_ucast_byte)
    have d: "unat cp div 2 ^ 18 < 2 ^ 3" using 4 by auto
    have j: "utf8_join 0x10000 (and (lead_byte 0xF0 (drop_bit 18 cp)) 7) (tail_byte (drop_bit 12 cp)) (tail_byte (drop_bit 6 cp)) (tail_byte cp) = cp"
      using 4 assms by (intro utf8_join_ok tails_ok join_utf8) (simp_all add: word_le_nat_alt)
    have b: "wtf8_bytes cp = [ucast (or 0xF0 (drop_bit 18 cp)), ucast (or 0x80 (and (drop_bit 12 cp) 0x3F)),
        ucast (or 0x80 (and (drop_bit 6 cp) 0x3F)), ucast (or 0x80 (and cp 0x3F))]"
      using 4 by (simp add: wtf8_bytes_def word_less_nat_alt)
    show ?thesis using l d u j
      by (auto simp: b uv__utf8_decode1_def uv__utf8_decode1_slow_def word_less_nat_alt
          lead_byte_def [symmetric] tail_byte_def [symmetric] split: list.split)
  qed
qed

section \<open>The loops on characters\<close>

function decode_all :: "u8 list \<Rightarrow> u32 list option" where
  "decode_all s =
     (if s = [] then Some []
      else case uv__utf8_decode1 s of
        None \<Rightarrow> None
      | Some (c, s) \<Rightarrow> if c = UINT_MAX then None else map_option ((#) c) (decode_all s))"
  by pat_completeness auto
termination by (relation "measure length") (auto dest: utf8_decode1_shorter)

declare decode_all.simps [simp del]

lemma decode_all_Nil [simp]: "decode_all [] = Some []"
  by (simp add: decode_all.simps)

lemma decode_all_Cons:
  "s \<noteq> [] \<Longrightarrow> decode_all s = Some cs \<Longrightarrow> \<exists>c s' cs'. uv__utf8_decode1 s = Some (c, s') \<and> c \<noteq> UINT_MAX \<and>
     decode_all s' = Some cs' \<and> cs = c # cs'"
  by (subst (asm) decode_all.simps) (auto split: option.splits if_splits)

lemma decode_cases [consumes 1, case_names Nil Cons]:
  assumes "decode_all s = Some cs"
  obtains "s = []" "cs = []"
  | c s' cs' where "s \<noteq> []" "uv__utf8_decode1 s = Some (c, s')" "c \<noteq> UINT_MAX" "decode_all s' = Some cs'" "cs = c # cs'"
  using assms decode_all_Cons [of s cs] by (cases "s = []") auto

lemma decode1_Some: "s \<noteq> [] \<Longrightarrow> \<exists>c s'. uv__utf8_decode1 s = Some (c, s')"
  by (cases s) (auto simp: uv__utf8_decode1_def split: if_splits)

lemma utf8_join_le: "utf8_join mn a b c d \<noteq> UINT_MAX \<Longrightarrow> utf8_join mn a b c d \<le> 0x10FFFF"
  by (auto simp: utf8_join_def UINT_MAX_def Let_def split: if_splits)

lemma decode1_le: "uv__utf8_decode1 s = Some (c, s') \<Longrightarrow> c \<noteq> UINT_MAX \<Longrightarrow> c \<le> 0x10FFFF"
proof -
  assume a: "uv__utf8_decode1 s = Some (c, s')" "c \<noteq> UINT_MAX"
  have "(ucast b :: u32) \<le> 0x10FFFF" if "b < 128" for b :: u8
    using that by (simp add: word_le_nat_alt word_less_nat_alt unat_ucast_byte)
  then show ?thesis using a utf8_join_le
    by (auto simp: uv__utf8_decode1_def uv__utf8_decode1_slow_def UINT_MAX_def split: list.splits if_splits)
qed

lemma decode_all_chars: "decode_all s = Some cs \<Longrightarrow> length cs \<le> length s \<and> (\<forall>c\<in>set cs. c \<le> 0x10FFFF)"
proof (induction s arbitrary: cs rule: decode_all.induct)
  case (1 s)
  from 1(2) show ?case
  proof (cases rule: decode_cases)
    case (Cons c s' cs')
    then show ?thesis using 1(1) [OF Cons(1,2) refl Cons(3,4)] utf8_decode1_shorter [OF Cons(2)] decode1_le [OF Cons(2,3)]
      by auto
  qed simp
qed

lemma count_loop_chars:
  "count_loop s h t = (case decode_all s of
     None \<Rightarrow> Some (Inl UV_EINVAL)
   | Some cs \<Rightarrow> Some (Inr (h + of_nat (length (filter (\<lambda>c. c < 128) cs)), t + of_nat (length (filter (\<lambda>c. \<not> c < 128) cs)))))"
proof (induction s h t rule: count_loop.induct)
  case (1 s h t)
  show ?case
  proof (cases "s = []")
    case False
    then obtain c s' where d: "uv__utf8_decode1 s = Some (c, s')" using decode1_Some by blast
    show ?thesis
      using False d 1(1,2) [OF False d refl]
      by (subst count_loop.simps, subst decode_all.simps) (auto split: option.split)
  qed (simp add: count_loop.simps)
qed

lemma fold_emit: "fold (emit room) bs (take room B) = take room (B @ bs)"
proof (induction bs arbitrary: B)
  case (Cons b bs)
  have "emit room b (take room B) = take room (B @ [b])" by (auto simp: emit_def)
  then show ?case using Cons [of "B @ [b]"] by simp
qed simp

lemma emit_take: "emit room b (take room B) = take room (B @ [b])"
  by (auto simp: emit_def)

lemma not_ascii: "c > (127 :: u32) \<longleftrightarrow> \<not> c < 128"
  by (auto simp: word_less_nat_alt)

lemma unat_of_nat_32: "n < 2 ^ 32 \<Longrightarrow> unat (of_nat n :: u32) = n"
  by (simp add: unsigned_of_nat take_bit_nat_eq_self)

lemma of_nat_32_0: "n < 2 ^ 32 \<Longrightarrow> (of_nat n :: u32) = 0 \<longleftrightarrow> n = 0"
  using unat_of_nat_32 [of n] by auto

lemma ascii_loop_chars:
  assumes "decode_all s = Some cs" and "h = x + of_nat (length (filter (\<lambda>c. c < 128) cs))" and "length cs < 2 ^ 32"
  shows "ascii_loop s x h room d = Some (fold (emit room) (map ucast (filter (\<lambda>c. c < 128) cs)) d)"
  using assms
proof (induction s x h room d arbitrary: cs rule: ascii_loop.induct)
  case (1 s x h room d)
  from 1(3) show ?case
  proof (cases rule: decode_cases)
    case Nil
    then show ?thesis by (simp add: ascii_loop.simps)
  next
    case (Cons c s' cs')
    show ?thesis
    proof (cases "c < 128")
      case True
      let ?n = "length (filter (\<lambda>c. c < 128) cs')"
      have "?n \<le> length cs'" by simp
      then have n: "?n < 2 ^ 32" using 1(5) Cons(5) by (simp only: list.size)
      show ?thesis
      proof (cases "x + 1 = h")
        case h: True
        then have "of_nat ?n = (0 :: u32)" using 1(4) Cons(5) True by simp
        then have "?n = 0" using unat_of_nat_32 [OF n] by (metis unsigned_0)
        then show ?thesis using Cons True h by (subst ascii_loop.simps) (simp add: not_ascii Let_def)
      next
        case h: False
        have "ascii_loop s' (x + 1) h room (emit room (ucast c) d) =
          Some (fold (emit room) (map ucast (filter (\<lambda>c. c < 128) cs')) (emit room (ucast c) d))"
          using 1(2) [OF Cons(1,2) refl Cons(3) _ refl refl h Cons(4)] 1(4,5) Cons(5) True by (simp add: not_ascii)
        then show ?thesis using Cons True h by (subst ascii_loop.simps) (simp add: not_ascii Let_def)
      qed
    next
      case False
      then have "ascii_loop s' x h room d = Some (fold (emit room) (map ucast (filter (\<lambda>c. c < 128) cs')) d)"
        using 1(1) [OF Cons(1,2) refl Cons(3) _ Cons(4)] 1(4,5) Cons(5) by (simp add: not_ascii)
      then show ?thesis using Cons False by (subst ascii_loop.simps) (simp add: not_ascii)
    qed
  qed
qed

definition least_from :: "u32 \<Rightarrow> u32 list \<Rightarrow> u32 \<Rightarrow> u32" where
  "least_from n cs m = fold (\<lambda>c m. if c \<ge> n \<and> c < m then c else m) cs m"

lemma min_loop_chars: "decode_all s = Some cs \<Longrightarrow> min_loop s n m = Some (least_from n cs m)"
proof (induction s n m arbitrary: cs rule: min_loop.induct)
  case (1 s n m)
  from 1(2) show ?case
  proof (cases rule: decode_cases)
    case Nil
    then show ?thesis by (simp add: min_loop.simps least_from_def)
  next
    case (Cons c s' cs')
    then show ?thesis using 1(1) [OF Cons(1,2) refl Cons(3,4)]
      by (subst min_loop.simps) (simp add: least_from_def)
  qed
qed

lemma least_from_in: "least_from n cs m = m \<or> least_from n cs m \<in> set cs \<and> n \<le> least_from n cs m \<and> least_from n cs m < m"
  unfolding least_from_def
proof (induction cs arbitrary: m)
  case (Cons c cs)
  show ?case using Cons.IH [of "if c \<ge> n \<and> c < m then c else m"] by (auto split: if_splits)
qed simp

lemma least_from_le: "least_from n cs m \<le> m \<and> (\<forall>c\<in>set cs. n \<le> c \<longrightarrow> least_from n cs m \<le> c)"
  unfolding least_from_def
proof (induction cs arbitrary: m)
  case (Cons c cs)
  have "(if c \<ge> n \<and> c < m then c else m) \<le> m \<and> (n \<le> c \<longrightarrow> (if c \<ge> n \<and> c < m then c else m) \<le> c)" by auto
  then show ?case using Cons.IH [of "if c \<ge> n \<and> c < m then c else m"] by (auto intro: order_trans)
qed simp

text \<open>The digits of one delta.\<close>

function puny_digits :: "u32 \<Rightarrow> u32 \<Rightarrow> u32 \<Rightarrow> u32 list" where
  "puny_digits k q bias =
     (let t = threshold k bias
      in if q < t then [q]
         else (t + (q - t) mod (36 - t)) # puny_digits (k + 36) ((q - t) div (36 - t)) bias)"
  by pat_completeness auto
termination by (relation "measure (\<lambda>(k, q, bias). unat q)") (auto simp: digit_decreases)

declare puny_digits.simps [simp del]

definition digit_byte :: "u32 \<Rightarrow> u8" where
  "digit_byte t = alphabet ! unat t"

lemma alphabet_ascii: "i < 36 \<Longrightarrow> rd alphabet i = Some (alphabet ! i) \<and> alphabet ! i < 128 \<and> alphabet ! i \<noteq> 46"
proof -
  assume "i < 36"
  moreover have "\<forall>i\<in>set [0..<36]. rd alphabet i = Some (alphabet ! i) \<and> alphabet ! i < 128 \<and> alphabet ! i \<noteq> 46"
    by code_simp
  ultimately show ?thesis by simp
qed

lemma puny_digits_less: "t \<in> set (puny_digits k q bias) \<Longrightarrow> unat t < 36"
proof (induction k q bias rule: puny_digits.induct)
  case (1 k q bias)
  let ?t = "threshold k bias"
  have t: "1 \<le> unat ?t" "unat ?t \<le> 26" using threshold_range by auto
  have "unat (36 - ?t) = 36 - unat ?t" using t by (simp add: unat_sub word_le_nat_alt)
  then have m: "unat ((q - ?t) mod (36 - ?t)) < 36 - unat ?t" using t by (simp add: unat_mod)
  then have "unat (?t + (q - ?t) mod (36 - ?t)) = unat ?t + unat ((q - ?t) mod (36 - ?t))"
    using t by (simp add: unat_word_ariths)
  then have "unat (?t + (q - ?t) mod (36 - ?t)) < 36" using m t by simp
  moreover have "unat q < 36" if "q < ?t" using that t by (simp add: word_less_nat_alt)
  ultimately show ?case using 1(2) 1(1) [OF refl]
    by (subst (asm) puny_digits.simps) (auto simp: Let_def split: if_splits)
qed

lemma digit_loop_eq:
  "digit_loop k q bias room d = Some (fold (emit room) (map digit_byte (puny_digits k q bias)) d)"
proof (induction k q bias room d rule: digit_loop.induct)
  case (1 k q bias room d)
  let ?t = "threshold k bias"
  have *: "unat t < 36" if "t \<in> set (puny_digits k q bias)" for t using puny_digits_less that by blast
  show ?case
  proof (cases "q < ?t")
    case True
    then have "puny_digits k q bias = [q]" by (simp add: puny_digits.simps)
    then show ?thesis using True * [of q] alphabet_ascii [of "unat q"]
      by (simp add: digit_loop.simps [of k] digit_byte_def)
  next
    case False
    then have p: "puny_digits k q bias =
        (?t + (q - ?t) mod (36 - ?t)) # puny_digits (k + 36) ((q - ?t) div (36 - ?t)) bias"
      by (subst puny_digits.simps) (simp add: Let_def)
    then have rd: "rd alphabet (unat (?t + (q - ?t) mod (36 - ?t))) = Some (digit_byte (?t + (q - ?t) mod (36 - ?t)))"
      using * alphabet_ascii by (simp add: digit_byte_def)
    have "digit_loop (k + 36) ((q - ?t) div (36 - ?t)) bias room (emit room (digit_byte (?t + (q - ?t) mod (36 - ?t))) d) =
      Some (fold (emit room) (map digit_byte (puny_digits (k + 36) ((q - ?t) div (36 - ?t)) bias))
        (emit room (digit_byte (?t + (q - ?t) mod (36 - ?t))) d))"
      using 1 [OF refl False refl refl refl refl rd] .
    then show ?thesis using False rd by (subst digit_loop.simps) (simp add: Let_def p)
  qed
qed

text \<open>One pass over the characters.\<close>

fun insert_chars :: "u32 list \<Rightarrow> u32 \<Rightarrow> nat \<Rightarrow> puny \<Rightarrow> (uv_errno + puny)" where
  "insert_chars [] n room st = Inr st"
| "insert_chars (c # cs) n room st =
     (let st = (if c < n then st\<lparr>p_delta := p_delta st + 1\<rparr> else st)
      in if c < n \<and> p_delta st = 0 then Inl UV_E2BIG
         else if c \<noteq> n then insert_chars cs n room st
         else insert_chars cs n room (adapt (st\<lparr>p_out :=
                fold (emit room) (map digit_byte (puny_digits 36 (p_delta st) (p_bias st))) (p_out st)\<rparr>)))"

lemma insert_loop_chars: "decode_all s = Some cs \<Longrightarrow> insert_loop s n room st = Some (insert_chars cs n room st)"
proof (induction s n room st arbitrary: cs rule: insert_loop.induct)
  case (1 s n room st)
  from 1(3) show ?case
  proof (cases rule: decode_cases)
    case Nil
    then show ?thesis by (simp add: insert_loop.simps)
  next
    case (Cons c s' cs')
    note IH = 1(1) [OF Cons(1,2) refl Cons(3) refl _ _ Cons(4)] 1(2) [OF Cons(1,2) refl Cons(3) refl _ _ _ Cons(4)]
    show ?thesis using Cons IH
      by (subst insert_loop.simps) (auto simp: Let_def digit_loop_eq)
  qed
qed

lemma adapt_fields [simp]:
  "p_todo (adapt st) = p_todo st - 1" "p_out (adapt st) = p_out st"
  by (simp_all add: adapt_def Let_def split: prod.splits)

text \<open>What the passes write, however much of it the room cuts off.\<close>

definition plain :: "u8 list \<Rightarrow> bool" where
  "plain bs \<longleftrightarrow> (\<forall>b\<in>set bs. b < 128)"

lemma plain_digits: "plain (map digit_byte (puny_digits k q bias))"
  using puny_digits_less alphabet_ascii by (auto simp: plain_def digit_byte_def)

lemma plain_simps [simp]: "plain []" "plain (a @ b) \<longleftrightarrow> plain a \<and> plain b" "plain (x # b) \<longleftrightarrow> x < 128 \<and> plain b"
  by (auto simp: plain_def)

lemma insert_chars_out:
  assumes "p_out st = take room B"
  shows "case insert_chars cs n room st of
      Inl e \<Rightarrow> e = UV_E2BIG
    | Inr st' \<Rightarrow> p_todo st' = p_todo st - of_nat (count_list cs n) \<and> (\<exists>bs. plain bs \<and> p_out st' = take room (B @ bs))"
  using assms
proof (induction cs arbitrary: st B)
  case Nil
  have "plain [] \<and> take room B = take room (B @ [])" by simp
  then show ?case using Nil by (auto intro!: exI [of _ "[]"])
next
  case (Cons c cs)
  show ?case
  proof (cases "c = n")
    case True
    let ?bs = "map digit_byte (puny_digits 36 (p_delta st) (p_bias st))"
    let ?st = "adapt (st\<lparr>p_out := fold (emit room) ?bs (p_out st)\<rparr>)"
    have "p_out ?st = take room (B @ ?bs)" using Cons.prems by (simp add: fold_emit)
    from Cons.IH [OF this] show ?thesis using True plain_digits
      by (fastforce simp: Let_def split: sum.splits intro: exI [of _ "?bs @ _"])
  next
    case False
    then show ?thesis using Cons.IH [of "st\<lparr>p_delta := p_delta st + 1\<rparr>" B] Cons.IH [of st B] Cons.prems
      by (auto simp: Let_def split: sum.splits)
  qed
qed

section \<open>The encoder returns\<close>

definition from_n :: "u32 \<Rightarrow> u32 list \<Rightarrow> nat" where
  "from_n n cs = length (filter (\<lambda>c. n \<le> c) cs)"

lemma from_n_step:
  assumes "\<forall>c\<in>set cs. n \<le> c \<longrightarrow> m \<le> c" and "n \<le> m" and "m < UINT_MAX"
  shows "from_n n cs = count_list cs m + from_n (m + 1) cs"
proof -
  have "unat (m + 1) = Suc (unat m)"
    using assms(3) unat_add_one_less [of m] by (simp add: UINT_MAX_def word_less_nat_alt unsigned_minus_1_eq_mask mask_eq_exp_minus_1)
  then have s: "m + 1 \<le> c \<longleftrightarrow> m < c" for c by (simp add: word_le_nat_alt word_less_nat_alt Suc_le_eq)
  show ?thesis using assms(1,2) unfolding from_n_def s
    by (induction cs) auto
qed

lemma puny_loop_returns:
  assumes "decode_all s = Some cs" and "p_todo st = of_nat (from_n n cs)" and "length cs < 2 ^ 32"
    and "p_out st = take room B"
  shows "\<exists>r. puny_loop s n room st = Some r \<and>
    (case r of Inl e \<Rightarrow> e = UV_E2BIG | Inr st' \<Rightarrow> \<exists>bs. plain bs \<and> p_out st' = take room (B @ bs))"
  using assms(2,4)
proof (induction "from_n n cs" arbitrary: n st B rule: less_induct)
  case less
  have fn: "from_n n cs < 2 ^ 32" using assms(3) by (auto simp: from_n_def intro: le_less_trans [OF length_filter_le])
  show ?case
  proof (cases "p_todo st = 0")
    case True
    have "plain [] \<and> p_out st = take room (B @ [])" using less.prems by simp
    then show ?thesis using True by (subst puny_loop.simps) (auto intro!: exI [of _ "[]"])
  next
    case False
    then have "from_n n cs \<noteq> 0" using less.prems(1) of_nat_32_0 [OF fn] by simp
    then obtain c where c: "c \<in> set cs" "n \<le> c" by (auto simp: from_n_def filter_empty_conv)
    define m where "m = least_from n cs (- 1)"
    have ub: "m \<le> c" using least_from_le [of n cs "- 1"] c by (auto simp: m_def)
    also have "c \<le> 0x10FFFF" using decode_all_chars [OF assms(1)] c by auto
    finally have max: "m < UINT_MAX" by (auto simp: UINT_MAX_def word_le_nat_alt word_less_nat_alt unsigned_minus_1_eq_mask mask_eq_exp_minus_1)
    then have m: "m \<in> set cs" "n \<le> m" "\<forall>c\<in>set cs. n \<le> c \<longrightarrow> m \<le> c"
      using least_from_in [of n cs "- 1"] least_from_le [of n cs "- 1"] by (auto simp: m_def UINT_MAX_def)
    have split: "from_n n cs = count_list cs m + from_n (m + 1) cs" by (rule from_n_step [OF m(3,2) max])
    have "count_list cs m \<noteq> 0" using m(1) by (simp add: count_list_0_iff)
    then have lt: "from_n (m + 1) cs < from_n n cs" using split by simp
    let ?x = "m - n" and ?y = "p_h st + 1"
    have min: "min_loop s n (- 1) = Some m" unfolding m_def by (rule min_loop_chars [OF assms(1)])
    show ?thesis
    proof (cases "?x > not (p_delta st) div ?y")
      case True
      then show ?thesis using False min by (subst puny_loop.simps) (simp add: Let_def)
    next
      case ok: False
      let ?st = "st\<lparr>p_delta := p_delta st + ?x * ?y\<rparr>"
      have ins: "insert_loop s m room ?st = Some (insert_chars cs m room ?st)" by (rule insert_loop_chars [OF assms(1)])
      have "p_out ?st = take room B" using less.prems by simp
      note out = insert_chars_out [OF this, of cs m]
      show ?thesis
      proof (cases "insert_chars cs m room ?st")
        case (Inl e)
        then show ?thesis using False ok min ins out by (subst puny_loop.simps) (simp add: Let_def)
      next
        case (Inr st')
        then obtain bs where bs: "plain bs" "p_out st' = take room (B @ bs)"
          and "p_todo st' = p_todo st - of_nat (count_list cs m)" using out by auto
        then have "p_todo (st'\<lparr>p_delta := p_delta st' + 1\<rparr>) = of_nat (from_n (m + 1) cs)"
          using less.prems(1) split by simp
        moreover have "p_out (st'\<lparr>p_delta := p_delta st' + 1\<rparr>) = take room (B @ bs)" using bs by simp
        ultimately obtain r where r: "puny_loop s (m + 1) room (st'\<lparr>p_delta := p_delta st' + 1\<rparr>) = Some r"
          "case r of Inl e \<Rightarrow> e = UV_E2BIG | Inr st' \<Rightarrow> \<exists>cs. plain cs \<and> p_out st' = take room ((B @ bs) @ cs)"
          using less.hyps [OF lt] by blast
        have "puny_loop s n room st = Some r"
          using False ok min ins Inr r(1) by (subst puny_loop.simps) (simp add: Let_def)
        moreover have "case r of Inl e \<Rightarrow> e = UV_E2BIG | Inr st' \<Rightarrow> \<exists>bs. plain bs \<and> p_out st' = take room (B @ bs)"
          using r(2) bs(1) by (force split: sum.splits intro: exI [of _ "bs @ _"])
        ultimately show ?thesis by blast
      qed
    qed
  qed
qed

definition ascii_bytes :: "u32 list \<Rightarrow> u8 list" where
  "ascii_bytes cs = map ucast (filter (\<lambda>c. c < 128) cs)"

lemma plain_ascii_bytes: "plain (ascii_bytes cs)"
proof -
  have "(ucast c :: u8) < 128" if "c < 128" for c :: u32
    using that by (simp add: word_less_nat_alt unsigned_ucast_eq unsigned_take_bit_eq take_bit_nat_eq_self)
  then show ?thesis by (auto simp: plain_def ascii_bytes_def)
qed

definition label_start :: "u32 list \<Rightarrow> nat \<Rightarrow> u8 list \<Rightarrow> puny" where
  "label_start cs room B = \<lparr>p_delta = 0, p_h = of_nat (length (filter (\<lambda>c. c < 128) cs)), p_bias = 72,
     p_todo = of_nat (length (filter (\<lambda>c. \<not> c < 128) cs)), p_first = True, p_out = take room B\<rparr>"

definition label_prefix :: "u32 list \<Rightarrow> u8 list" where
  "label_prefix cs = [120, 110, 45, 45] @ ascii_bytes cs @
     (if of_nat (length (filter (\<lambda>c. c < 128) cs)) > (0 :: u32) then [45] else [])"

lemma label_eq:
  assumes "length s < 2 ^ 31" and "decode_all s = Some cs"
  shows "uv__idna_toascii_label s room (take room B) =
    (if \<forall>c\<in>set cs. c < 128 then Some (Inr (of_nat (length cs), take room (B @ ascii_bytes cs)))
     else map_option (map_sum id (\<lambda>st. (0, p_out st))) (puny_loop s 128 room (label_start cs room (B @ label_prefix cs))))"
proof -
  let ?A = "filter (\<lambda>c. c < 128) cs" and ?N = "filter (\<lambda>c. \<not> c < 128) cs"
  have len: "length cs < 2 ^ 32" using decode_all_chars [OF assms(2)] assms(1) by simp
  have lN: "length ?N < 2 ^ 32" by (rule le_less_trans [OF length_filter_le len])
  have count: "count_loop s 0 0 = Some (Inr (of_nat (length ?A), of_nat (length ?N)))"
    using assms(2) by (simp add: count_loop_chars)
  have todo: "of_nat (length ?N) = (0 :: u32) \<longleftrightarrow> ?N = []"
    using of_nat_32_0 [OF lN] by (simp only: length_0_conv)
  have asc: "ascii_loop s 0 (of_nat (length ?A)) room (take room D) = Some (take room (D @ ascii_bytes cs))" for D
    by (subst ascii_loop_chars [OF assms(2) _ len]) (simp_all add: fold_emit ascii_bytes_def)
  show ?thesis
  proof (cases "\<forall>c\<in>set cs. c < 128")
    case True
    then have "?A = cs" "?N = []" by (simp_all add: filter_id_conv)
    then show ?thesis using True asc [of B] by (simp add: uv__idna_toascii_label_def count todo)
  next
    case False
    then have "?N \<noteq> []" by (auto simp: filter_empty_conv)
    moreover from this have "(of_nat (length ?N) :: u32) > 0" using todo by (simp add: word_gt_0)
    ultimately show ?thesis unfolding if_not_P [OF False]
      by (simp add: uv__idna_toascii_label_def label_start_def label_prefix_def count todo asc emit_take
          if_distrib [of "emit room 45"] del: take_append)
  qed
qed

lemma sint_small: "n < 2 ^ 31 \<Longrightarrow> 0 \<le> sint (of_nat n :: u32)"
proof -
  assume n: "n < 2 ^ 31"
  have "unat (of_nat n :: u32) = n" by (rule unat_of_nat_32) (use n in simp)
  then have "uint (of_nat n :: u32) = int n" using uint_nat [of "of_nat n :: u32"] by (simp only:)
  then have "uint (of_nat n :: u32) < 2 ^ 31" using n by (simp only:) simp
  then have "signed_take_bit (LENGTH(32) - 1) (uint (of_nat n :: u32)) = uint (of_nat n :: u32)"
    by (intro signed_take_bit_int_eq_self) (simp_all add: order_trans [OF _ uint_ge_0])
  then show ?thesis by (simp only: sint_uint One_nat_def) simp
qed

lemma label_returns:
  assumes "length s < 2 ^ 31" and "decode_all s = Some cs"
  shows "\<exists>r. uv__idna_toascii_label s room (take room B) = Some r \<and>
    (case r of Inl e \<Rightarrow> e = UV_E2BIG
     | Inr (rc, d) \<Rightarrow> 0 \<le> sint rc \<and> (\<exists>bs. plain bs \<and> d = take room (B @ bs) \<and> (cs \<noteq> [] \<longrightarrow> bs \<noteq> [])))"
proof -
  have len: "length cs < 2 ^ 31" using decode_all_chars [OF assms(2)] assms(1) by simp
  show ?thesis
  proof (cases "\<forall>c\<in>set cs. c < 128")
    case True
    then have "cs \<noteq> [] \<longrightarrow> ascii_bytes cs \<noteq> []" by (cases cs) (auto simp: ascii_bytes_def)
    then show ?thesis using True sint_small [OF len] plain_ascii_bytes
      by (auto simp: label_eq [OF assms] simp del: take_append)
  next
    case False
    have "from_n 128 cs = length (filter (\<lambda>c. \<not> c < 128) cs)" by (simp add: from_n_def not_less)
    then have "\<exists>r. puny_loop s 128 room (label_start cs room (B @ label_prefix cs)) = Some r \<and>
        (case r of Inl e \<Rightarrow> e = UV_E2BIG
         | Inr st' \<Rightarrow> \<exists>bs. plain bs \<and> p_out st' = take room ((B @ label_prefix cs) @ bs))"
      using len by (intro puny_loop_returns [OF assms(2)]) (simp_all add: label_start_def)
    then obtain r where r: "puny_loop s 128 room (label_start cs room (B @ label_prefix cs)) = Some r"
      "case r of Inl e \<Rightarrow> e = UV_E2BIG
       | Inr st' \<Rightarrow> \<exists>bs. plain bs \<and> p_out st' = take room ((B @ label_prefix cs) @ bs)" by blast
    have p: "plain (label_prefix cs)" "label_prefix cs \<noteq> []"
      using plain_ascii_bytes by (simp_all add: label_prefix_def)
    show ?thesis
    proof (cases r)
      case (Inr st')
      then obtain bs where "plain bs" "p_out st' = take room ((B @ label_prefix cs) @ bs)" using r(2) by auto
      then show ?thesis using False r(1) Inr p
        by (auto simp: label_eq [OF assms] simp del: take_append intro!: exI [of _ "label_prefix cs @ bs"])
    qed (use False r in \<open>auto simp: label_eq [OF assms]\<close>)
  qed
qed

section \<open>Labels\<close>

text \<open>A character is decoded the same way when less of the text follows it.\<close>

lemma decode1_local:
  assumes "uv__utf8_decode1 s = Some (c, s')"
  obtains u where "u \<noteq> []" "s = u @ s'" "\<And>t. c \<noteq> UINT_MAX \<Longrightarrow> length t \<le> length s' \<Longrightarrow> uv__utf8_decode1 (u @ t) = Some (c, t)"
proof -
  obtain a p where s: "s = a # p" using assms by (cases s) (auto simp: uv__utf8_decode1_def)
  have "\<exists>u. u \<noteq> [] \<and> s = u @ s' \<and> (\<forall>t. c \<noteq> UINT_MAX \<longrightarrow> length t \<le> length s' \<longrightarrow> uv__utf8_decode1 (u @ t) = Some (c, t))"
  proof (cases "a < 128")
    case True
    then show ?thesis using assms s by (intro exI [of _ "[a]"]) (auto simp: uv__utf8_decode1_def)
  next
    case False
    let ?k = "length p - length s'"
    show ?thesis using assms s False
      by (intro exI [of _ "a # take (length p - length s') p"])
        (auto simp: uv__utf8_decode1_def uv__utf8_decode1_slow_def UINT_MAX_def split: list.splits if_splits)
  qed
  then show thesis using that by blast
qed

text \<open>What the scan returns: nothing was cut off but by the room, and the last label is well-formed.\<close>

definition labels_ok :: "nat \<Rightarrow> u8 list \<Rightarrow> bool \<Rightarrow> (uv_errno + int + u8 list \<times> u8 list) \<Rightarrow> bool" where
  "labels_ok room B nonempty r = (case r of
       Inl e \<Rightarrow> e = UV_EINVAL \<or> e = UV_E2BIG
     | Inr (Inl n) \<Rightarrow> False
     | Inr (Inr (lab', d)) \<Rightarrow> \<exists>bs ls'. plain bs \<and> d = take room (B @ bs) \<and> decode_all lab' = Some ls' \<and>
         length lab' < 2 ^ 31 \<and> (lab' \<noteq> [] \<longrightarrow> ls' \<noteq> []) \<and> (nonempty \<longrightarrow> bs \<noteq> [] \<or> lab' \<noteq> []))"

lemma labels_ok_weaken: "labels_ok room B ne r \<Longrightarrow> labels_ok room B False r"
  unfolding labels_ok_def by (cases r; cases "projr r") (simp_all, blast?)

lemma labels_ok_append:
  assumes "labels_ok room (B @ bs) False r" and "plain bs" and "bs \<noteq> []"
  shows "labels_ok room B ne r"
proof (cases r)
  case (Inr q)
  show ?thesis
  proof (cases q)
    case (Inr p)
    obtain lab d where p: "p = (lab, d)" by (cases p)
    obtain cs ls where "plain cs" "d = take room ((B @ bs) @ cs)" "decode_all lab = Some ls" "length lab < 2 ^ 31"
      "lab \<noteq> [] \<longrightarrow> ls \<noteq> []"
      using assms(1) unfolding labels_ok_def \<open>r = Inr q\<close> Inr p by auto
    then have "plain (bs @ cs) \<and> d = take room (B @ (bs @ cs)) \<and> decode_all lab = Some ls \<and> length lab < 2 ^ 31 \<and>
        (lab \<noteq> [] \<longrightarrow> ls \<noteq> []) \<and> (ne \<longrightarrow> bs @ cs \<noteq> [] \<or> lab \<noteq> [])" using assms(2,3) by simp
    then have "\<exists>bs ls. plain bs \<and> d = take room (B @ bs) \<and> decode_all lab = Some ls \<and> length lab < 2 ^ 31 \<and>
        (lab \<noteq> [] \<longrightarrow> ls \<noteq> []) \<and> (ne \<longrightarrow> bs \<noteq> [] \<or> lab \<noteq> [])" by blast
    then show ?thesis unfolding labels_ok_def \<open>r = Inr q\<close> Inr p sum.case prod.case .
  qed (use assms(1) Inr in \<open>simp add: labels_ok_def\<close>)
qed (use assms(1) in \<open>simp add: labels_ok_def\<close>)

lemma labels_loop_returns:
  assumes "length (lab @ si) < 2 ^ 31"
    and "\<And>t. length t \<le> length si \<Longrightarrow> decode_all (lab @ t) = map_option ((@) ls) (decode_all t)"
    and "lab \<noteq> [] \<longrightarrow> ls \<noteq> []"
  shows "\<exists>r. labels_loop lab si room (take room B) = Some r \<and> labels_ok room B (lab @ si \<noteq> []) r"
  using assms
proof (induction "length si" arbitrary: lab si ls B rule: less_induct)
  case less
  show ?case
  proof (cases "si = []")
    case True
    have "plain [] \<and> take room B = take room (B @ [])" by simp
    then show ?thesis using True less.prems less.prems(2) [of "[]"]
      by (subst labels_loop.simps) (auto simp: labels_ok_def intro!: exI [of _ "[]"])
  next
    case False
    then obtain c si' where d: "uv__utf8_decode1 si = Some (c, si')" using decode1_Some by blast
    obtain u where u: "u \<noteq> []" "si = u @ si'"
      and loc: "\<And>t. c \<noteq> UINT_MAX \<Longrightarrow> length t \<le> length si' \<Longrightarrow> uv__utf8_decode1 (u @ t) = Some (c, t)"
      using decode1_local [OF d] by blast
    have lt: "length si' < length si" using u by simp
    consider "c = UINT_MAX" | "c \<noteq> UINT_MAX" "\<not> is_dot c" | "c \<noteq> UINT_MAX" "is_dot c" by blast
    then show ?thesis
    proof cases
      case 1
      then show ?thesis using False d by (subst labels_loop.simps) (simp add: labels_ok_def)
    next
      case 2
      have "decode_all ((lab @ u) @ t) = map_option ((@) (ls @ [c])) (decode_all t)" if "length t \<le> length si'" for t
      proof -
        have "decode_all (u @ t) = map_option ((#) c) (decode_all t)"
          using loc [OF 2(1) that] u(1) 2(1) by (subst decode_all.simps) simp
        then show ?thesis using less.prems(2) [of "u @ t"] u(2) that by (cases "decode_all t") simp_all
      qed
      then have "\<exists>r. labels_loop (lab @ u) si' room (take room B) = Some r \<and> labels_ok room B ((lab @ u) @ si' \<noteq> []) r"
        by (rule less.hyps [OF lt, rotated]) (use less.prems(1) u(2) in auto)
      moreover have "labels_loop lab si room (take room B) = labels_loop (lab @ u) si' room (take room B)"
        using 2 d False u by (subst labels_loop.simps) simp
      ultimately show ?thesis using u(2) by simp
    next
      case 3
      have lab: "decode_all lab = Some ls" using less.prems(2) [of "[]"] by simp
      have "length lab < 2 ^ 31" using less.prems(1) by simp
      from label_returns [OF this lab, of room B]
      obtain r where r: "uv__idna_toascii_label lab room (take room B) = Some r"
        "case r of Inl e \<Rightarrow> e = UV_E2BIG
         | Inr (rc, d) \<Rightarrow> 0 \<le> sint rc \<and> (\<exists>bs. plain bs \<and> d = take room (B @ bs) \<and> (ls \<noteq> [] \<longrightarrow> bs \<noteq> []))" by blast
      show ?thesis
      proof (cases r)
        case (Inl e)
        then show ?thesis using 3 d False r by (subst labels_loop.simps) (simp add: labels_ok_def)
      next
        case (Inr q)
        then obtain rc bs where q: "r = Inr (rc, take room (B @ bs))" "0 \<le> sint rc" "plain bs"
          using r(2) by (cases q) auto
        have e: "emit room 46 (take room (B @ bs)) = take room (B @ bs @ [46])" by (simp add: emit_take del: take_append)
        have "\<exists>r. labels_loop [] si' room (take room (B @ bs @ [46])) = Some r \<and> labels_ok room (B @ bs @ [46]) ([] @ si' \<noteq> []) r"
          by (rule less.hyps [OF lt, where ls = "[]"]) (use less.prems(1) u(2) in \<open>auto simp: option.map_ident_strong\<close>)
        then obtain r' where r': "labels_loop [] si' room (take room (B @ bs @ [46])) = Some r'"
          "labels_ok room (B @ bs @ [46]) False r'" using labels_ok_weaken by blast
        have "labels_loop lab si room (take room B) = Some r'"
          using 3 d False r(1) q e r'(1) by (subst labels_loop.simps) (simp del: take_append)
        then show ?thesis using labels_ok_append [OF r'(2)] q(3) by simp
      qed
    qed
  qed
qed

text \<open>ASCII texts pass unchanged.\<close>

lemma decode1_plain: "b < 128 \<Longrightarrow> uv__utf8_decode1 (b # bs) = Some (ucast b, bs)"
  by (simp add: uv__utf8_decode1_def)

lemma ucast_not_max: "(ucast b :: u32) \<noteq> UINT_MAX" for b :: u8
proof
  assume "(ucast b :: u32) = UINT_MAX"
  then have "unat b = unat UINT_MAX" using unat_ucast_byte [of b] by simp
  then show False using unsigned_less [of b, where 'a = nat]
    by (simp add: UINT_MAX_def unsigned_minus_1_eq_mask mask_eq_exp_minus_1)
qed

lemma decode_all_plain: "plain bs \<Longrightarrow> decode_all (bs @ t) = map_option ((@) (map ucast bs)) (decode_all t)"
proof (induction bs)
  case (Cons b bs)
  then show ?case
    by (subst decode_all.simps) (cases "decode_all t"; simp add: decode1_plain ucast_not_max)
next
  case Nil
  show ?case by (cases "decode_all t") simp_all
qed

lemma ascii_bytes_plain: "plain bs \<Longrightarrow> ascii_bytes (map ucast bs) = bs \<and> (\<forall>c\<in>set (map ucast bs). c < (128 :: u32))"
proof (induction bs)
  case (Cons b bs)
  have "(ucast b :: u32) < 128" using Cons.prems by (simp add: word_less_nat_alt unat_ucast_byte)
  moreover have "ucast (ucast b :: u32) = b" by (rule bit_word_eqI) (simp add: bit_unsigned_iff)
  moreover have "ascii_bytes (map ucast bs) = bs" "\<forall>c\<in>set (map ucast bs). c < (128 :: u32)" using Cons by auto
  ultimately show ?case unfolding ascii_bytes_def by simp
qed (simp add: ascii_bytes_def)

lemma label_plain:
  assumes "length bs < 2 ^ 31" and "plain bs"
  shows "uv__idna_toascii_label bs room (take room B) = Some (Inr (of_nat (length bs), take room (B @ bs)))"
proof -
  have "decode_all bs = Some (map ucast bs)" using decode_all_plain [OF assms(2), of "[]"] by simp
  from label_eq [OF assms(1) this, of room B] ascii_bytes_plain [OF assms(2)] show ?thesis by simp
qed

lemma dot_plain: "is_dot (ucast b) \<Longrightarrow> b < 128 \<Longrightarrow> b = 46" for b :: u8
proof -
  assume "is_dot (ucast b)" and "b < 128"
  then have "unat (ucast b :: u32) = 46"
    using unat_ucast_byte [of b] unsigned_less [of b, where 'a = nat]
    by (auto simp: is_dot_def)
  then show ?thesis by (simp add: unat_ucast_byte word_unat_eq_iff)
qed

lemma labels_loop_plain:
  assumes "length (lab @ si) < 2 ^ 31" and "plain lab" and "plain si"
  shows "\<exists>lab' bs. labels_loop lab si room (take room B) = Some (Inr (Inr (lab', take room (B @ bs)))) \<and>
    bs @ lab' = lab @ si \<and> plain lab'"
  using assms
proof (induction si arbitrary: lab B)
  case Nil
  then show ?case by (subst labels_loop.simps) (auto intro!: exI [of _ "[]"])
next
  case (Cons b si)
  then have b: "uv__utf8_decode1 (b # si) = Some (ucast b, si)" by (simp add: decode1_plain)
  show ?case
  proof (cases "is_dot (ucast b)")
    case False
    from Cons.IH [of "lab @ [b]" B] Cons.prems
    show ?thesis using False b by (subst labels_loop.simps) (simp add: ucast_not_max)
  next
    case True
    then have "b = 46" using dot_plain Cons.prems by simp
    have lab: "uv__idna_toascii_label lab room (take room B) = Some (Inr (of_nat (length lab), take room (B @ lab)))"
      by (rule label_plain) (use Cons.prems in auto)
    have "0 \<le> sint (of_nat (length lab) :: u32)" by (rule sint_small) (use Cons.prems in simp)
    then have "labels_loop lab (b # si) room (take room B) = labels_loop [] si room (take room (B @ lab @ [46]))"
      using True b lab by (subst labels_loop.simps) (simp add: ucast_not_max emit_take del: take_append)
    moreover obtain lab' bs where "labels_loop [] si room (take room (B @ lab @ [46])) =
        Some (Inr (Inr (lab', take room ((B @ lab @ [46]) @ bs))))" "bs @ lab' = si" "plain lab'"
      using Cons.IH [of "[]" "B @ lab @ [46]"] Cons.prems by auto
    ultimately show ?thesis using \<open>b = 46\<close>
      by (intro exI [of _ lab'] exI [of _ "lab @ [46] @ bs"]) (simp del: take_append)
  qed
qed

lemma toascii_plain:
  assumes "plain b" and "b \<noteq> []" and "length b < room" and "room \<le> 2 ^ 31"
  shows "uv__idna_toascii b room = Some (Inr (int (length b) + 1, b @ [0]))"
proof -
  have len: "length b < 2 ^ 31" using assms(3,4) by simp
  obtain lab bs where l: "labels_loop [] b room [] = Some (Inr (Inr (lab, take room bs)))" "bs @ lab = b" "plain lab"
    using labels_loop_plain [of "[]" b room "[]"] assms(1) len by auto
  have s: "0 \<le> sint (of_nat (length lab) :: u32)" by (rule sint_small) (use len l(2) in auto)
  have "uv__idna_toascii_label lab room (take room bs) = Some (Inr (of_nat (length lab), take room (bs @ lab)))"
    by (rule label_plain) (use len l in auto)
  then show ?thesis using l s assms(2,3) by (auto simp: uv__idna_toascii_def simp del: take_append)
qed

section \<open>Properties\<close>

text \<open>C12. Converting a name always ends, without an access outside the alphabet and without writing
  past the destination; it fails only with EINVAL or E2BIG, and otherwise the result is a
  non-empty ASCII text with a terminator, complete, and a fixed point: converting it again gives
  the same text.\<close>

theorem toascii_total:
  assumes "length s < 2 ^ 31" and "room \<le> 2 ^ 31"
  shows "\<exists>r. uv__idna_toascii s room = Some r \<and> (case r of
      Inl e \<Rightarrow> e = UV_EINVAL \<or> e = UV_E2BIG
    | Inr (n, d) \<Rightarrow> n = int (length d) \<and> length d \<le> room \<and>
        (\<exists>b. d = b @ [0] \<and> b \<noteq> [] \<and> (\<forall>x\<in>set b. x < 128) \<and> uv__idna_toascii b room = Some (Inr (n, d))))"
proof (cases "s = []")
  case False
  have d0: "decode_all ([] @ t) = map_option ((@) []) (decode_all t)" for t by (cases "decode_all t") simp_all
  have "\<exists>r. labels_loop [] s room (take room []) = Some r \<and> labels_ok room [] ([] @ s \<noteq> []) r"
    by (rule labels_loop_returns [OF _ d0]) (use assms(1) in auto)
  then obtain r where r: "labels_loop [] s room [] = Some r" "labels_ok room [] True r" using False by auto
  let ?good = "\<lambda>r. case r of
      Inl e \<Rightarrow> e = UV_EINVAL \<or> e = UV_E2BIG
    | Inr (n, d) \<Rightarrow> n = int (length d) \<and> length d \<le> room \<and>
        (\<exists>b. d = b @ [0] \<and> b \<noteq> [] \<and> (\<forall>x\<in>set b. x < 128) \<and> uv__idna_toascii b room = Some (Inr (n, d)))"
  have fin: "?good (if length (take room b) \<ge> room then Inl UV_EINVAL
      else Inr (int (length (take room b)) + 1, take room b @ [0]))" if "b \<noteq> []" "plain b" for b
  proof (cases "length b < room")
    case True
    then show ?thesis using that toascii_plain [OF that(2,1) True assms(2)] by (simp add: plain_def)
  qed simp
  show ?thesis
  proof (cases r)
    case (Inl e)
    then show ?thesis using r False by (auto simp: uv__idna_toascii_def labels_ok_def)
  next
    case (Inr q)
    then obtain lab B ls where q: "r = Inr (Inr (lab, take room B))" "plain B" "decode_all lab = Some ls"
      "length lab < 2 ^ 31" "lab \<noteq> [] \<longrightarrow> ls \<noteq> []" "B \<noteq> [] \<or> lab \<noteq> []"
      using r(2) by (auto simp: labels_ok_def split: sum.splits)
    show ?thesis
    proof (cases "lab = []")
      case True
      then have "uv__idna_toascii s room = Some (if length (take room B) \<ge> room then Inl UV_EINVAL
          else Inr (int (length (take room B)) + 1, take room B @ [0]))"
        using q(1) False r(1) by (simp add: uv__idna_toascii_def)
      moreover have "B \<noteq> []" using True q(6) by simp
      ultimately show ?thesis using fin [OF _ q(2)] by blast
    next
      case lab: False
      obtain r2 where r2: "uv__idna_toascii_label lab room (take room B) = Some r2"
        "case r2 of Inl e \<Rightarrow> e = UV_E2BIG
         | Inr (rc, d) \<Rightarrow> 0 \<le> sint rc \<and> (\<exists>bs. plain bs \<and> d = take room (B @ bs) \<and> (ls \<noteq> [] \<longrightarrow> bs \<noteq> []))"
        using label_returns [OF q(4,3)] by blast
      show ?thesis
      proof (cases r2)
        case (Inl e)
        then show ?thesis using r(1) q(1) lab False r2 by (simp add: uv__idna_toascii_def)
      next
        case (Inr p)
        then obtain rc bs where "r2 = Inr (rc, take room (B @ bs))" "0 \<le> sint rc" "plain bs" "bs \<noteq> []"
          using r2(2) q(5) lab by (cases p) auto
        then have "uv__idna_toascii s room = Some (if length (take room (B @ bs)) \<ge> room then Inl UV_EINVAL
            else Inr (int (length (take room (B @ bs))) + 1, take room (B @ bs) @ [0]))"
          using r(1) q(1) lab False r2(1) by (simp add: uv__idna_toascii_def del: take_append length_take)
        then show ?thesis using fin [of "B @ bs"] \<open>plain bs\<close> \<open>bs \<noteq> []\<close> q(2) by auto
      qed
    qed
  qed
qed (simp add: uv__idna_toascii_def)

theorem toascii_total_witness:
  "\<exists>r. uv__idna_toascii [98, 0xC3, 0xBC, 46] 256 = Some r \<and> (case r of
      Inl e \<Rightarrow> e = UV_EINVAL \<or> e = UV_E2BIG
    | Inr (n, d) \<Rightarrow> n = int (length d) \<and> length d \<le> 256 \<and>
        (\<exists>b. d = b @ [0] \<and> b \<noteq> [] \<and> (\<forall>x\<in>set b. x < 128) \<and> uv__idna_toascii b 256 = Some (Inr (n, d))))"
  by (rule toascii_total) simp_all

text \<open>C13. The UTF-8 decoder reads back every Unicode scalar value from its shortest encoding,
  whatever follows, and leaves the pointer behind it.\<close>

theorem utf8_decode1_exact:
  assumes "unat cp < 0x110000" and "unat cp < 0xD800 \<or> 0xDFFF < unat cp"
  shows "uv__utf8_decode1 (wtf8_bytes cp @ rest) = Some (cp, rest)"
  by (rule utf8_decode1_encoded) (use assms in \<open>auto simp: scalar_def\<close>)

theorem utf8_decode1_exact_witness:
  "uv__utf8_decode1 ([0xE2, 0x98, 0x83] @ [46]) = Some (0x2603, [46])"
proof -
  have "wtf8_bytes 0x2603 = [0xE2, 0x98, 0x83]" by code_simp
  then show ?thesis using utf8_decode1_exact [of "0x2603" "[46]"] by simp
qed

text \<open>It also accepts malformed sequences: the three continuation bytes are only checked
  together, so two of them can be plain ASCII letters or dots, and a character cut off at the end
  of the text is read as another, shorter one.\<close>

theorem utf8_decode1_malformed:
  "uv__utf8_decode1 [0xE1, 0x2E, 0x2E, 0x63] = Some (0x1BAE, [0x63]) \<and>
   uv__utf8_decode1 [0xF1, 0x41, 0x41, 0x80] = Some (0x41040, []) \<and>
   uv__utf8_decode1 [0xE3, 0x81] = Some (0xC1, [])"
  by code_simp

end
