(* ===== verification/UV_Threadpool.thy ===== *)
theory UV_Threadpool
  imports UV_Handle
begin

text \<open>
  The thread pool: src/threadpool.c.  Everything a worker does between taking the global mutex and
  releasing it (or waiting on the condition) is one step; running a request and handing it to the
  loop are steps of their own, so that cancellation, submission and the other workers interleave
  between them.  A waiting thread is woken by a signal, which picks any waiting thread, or
  spuriously.  Requests of one loop are numbers; \<open>executed\<close>, \<open>submitted\<close> and \<open>delivered\<close> record
  the history.
\<close>

section \<open>State\<close>

datatype work_kind = UV__WORK_CPU | UV__WORK_FAST_IO | UV__WORK_SLOW_IO

datatype qitem = Exit_message | Run_slow_work_message | Work nat

text \<open>The field \<open>work\<close> of a request: done, to be run, or \<open>uv__cancelled\<close>.\<close>

datatype work_fn = Work_NULL | Work_fun | Work_cancelled

datatype tstate = Ready | Waiting | Woken | Running nat bool | Done nat bool | Returning bool | Exited

record pool =
  wq :: "qitem list"
  slow_io_pending_wq :: "nat list"
  slow_io_work_running :: nat
  idle_threads :: nat
  threads :: "tstate list"
  loop_wq :: "nat list"
  loop_local :: "nat list"
  work :: "nat \<Rightarrow> work_fn"
  submitted :: "nat list"
  executed :: "nat list"
  delivered :: "(nat \<times> ret) list"

definition slow_work_thread_threshold :: "pool \<Rightarrow> nat" where
  "slow_work_thread_threshold p = (length (threads p) + 1) div 2"

section \<open>Workers\<close>

text \<open>How a critical section of a worker ends; \<open>Run w slow signal\<close> also says whether it signals.\<close>

datatype outcome = Wait | Leave | Run nat bool bool

definition must_wait :: "pool \<Rightarrow> bool" where
  "must_wait p \<longleftrightarrow> wq p = [] \<or>
     wq p = [Run_slow_work_message] \<and> slow_io_work_running p \<ge> slow_work_thread_threshold p"

partial_function (option) worker_loop :: "pool \<Rightarrow> (outcome \<times> pool) option" where
  "worker_loop p =
     (if must_wait p then Some (Wait, p\<lparr>idle_threads := idle_threads p + 1\<rparr>)
      else case hd (wq p) of
        Exit_message \<Rightarrow> Some (Leave, p)
      | Work w \<Rightarrow> Some (Run w False False, p\<lparr>wq := tl (wq p)\<rparr>)
      | Run_slow_work_message \<Rightarrow>
          (if slow_io_work_running p \<ge> slow_work_thread_threshold p
           then worker_loop (p\<lparr>wq := tl (wq p) @ [Run_slow_work_message]\<rparr>)
           else case slow_io_pending_wq p of
             [] \<Rightarrow> worker_loop (p\<lparr>wq := tl (wq p)\<rparr>)
           | w # ws \<Rightarrow>
               (if ws \<noteq> []
                then Some (Run w True (idle_threads p > 0),
                       p\<lparr>wq := tl (wq p) @ [Run_slow_work_message], slow_io_pending_wq := ws,
                         slow_io_work_running := slow_io_work_running p + 1\<rparr>)
                else Some (Run w True False,
                       p\<lparr>wq := tl (wq p), slow_io_pending_wq := ws,
                         slow_io_work_running := slow_io_work_running p + 1\<rparr>))))"

declare worker_loop.simps [code]

definition set_thread :: "nat \<Rightarrow> tstate \<Rightarrow> pool \<Rightarrow> pool" where
  "set_thread i s p = p\<lparr>threads := (threads p)[i := s]\<rparr>"

text \<open>What a thread does when it gets the mutex: at its start, after waiting, after a request.\<close>

fun enter :: "tstate \<Rightarrow> pool \<Rightarrow> pool option" where
  "enter Ready p = Some p"
| "enter Woken p = Some (p\<lparr>idle_threads := idle_threads p - 1\<rparr>)"
| "enter (Returning slow) p =
     Some (if slow then p\<lparr>slow_io_work_running := slow_io_work_running p - 1\<rparr> else p)"
| "enter _ p = None"

text \<open>\<open>uv_cond_signal\<close>: some waiting thread is woken, if there is one.\<close>

inductive signal :: "pool \<Rightarrow> pool \<Rightarrow> bool" where
  wake: "i < length (threads p) \<Longrightarrow> threads p ! i = Waiting \<Longrightarrow> signal p (set_thread i Woken p)"
| nobody: "Waiting \<notin> set (threads p) \<Longrightarrow> signal p p"

definition signal_if :: "bool \<Rightarrow> pool \<Rightarrow> pool \<Rightarrow> bool" where
  "signal_if b p p' \<longleftrightarrow> (if b then signal p p' else p' = p)"

section \<open>Requests\<close>

definition post :: "qitem \<Rightarrow> work_kind \<Rightarrow> pool \<Rightarrow> bool \<times> pool" where
  "post q kind p =
     (case (kind, q) of
        (UV__WORK_SLOW_IO, Work w) \<Rightarrow>
          (let p = p\<lparr>slow_io_pending_wq := slow_io_pending_wq p @ [w]\<rparr>
           in if Run_slow_work_message \<in> set (wq p) then (False, p)
              else (idle_threads p > 0, p\<lparr>wq := wq p @ [Run_slow_work_message]\<rparr>))
      | _ \<Rightarrow> (idle_threads p > 0, p\<lparr>wq := wq p @ [q]\<rparr>))"

definition uv__work_submit :: "nat \<Rightarrow> work_kind \<Rightarrow> pool \<Rightarrow> bool \<times> pool" where
  "uv__work_submit w kind p =
     post (Work w) kind (p\<lparr>work := (work p)(w := Work_fun), submitted := submitted p @ [w]\<rparr>)"

text \<open>\<open>!uv__queue_empty(&w->wq)\<close>: the request is linked in one of the queues.\<close>

definition queued :: "nat \<Rightarrow> pool \<Rightarrow> bool" where
  "queued w p \<longleftrightarrow> Work w \<in> set (wq p) \<or> w \<in> set (slow_io_pending_wq p) \<or> w \<in> set (loop_wq p) \<or> w \<in> set (loop_local p)"

definition uv__work_cancel :: "nat \<Rightarrow> pool \<Rightarrow> ret \<times> pool" where
  "uv__work_cancel w p =
     (if queued w p \<and> work p w \<noteq> Work_NULL
      then (OK, p\<lparr>wq := remove1 (Work w) (wq p), slow_io_pending_wq := remove1 w (slow_io_pending_wq p),
                  loop_local := remove1 w (loop_local p), loop_wq := remove1 w (loop_wq p) @ [w],
                  work := (work p)(w := Work_cancelled)\<rparr>)
      else (Inl UV_EBUSY, p))"

text \<open>\<open>uv_cancel\<close> serves the request types that run on the pool.\<close>

datatype uv_req_type = UV_UNKNOWN_REQ | UV_REQ | UV_CONNECT | UV_WRITE | UV_SHUTDOWN | UV_UDP_SEND | UV_FS | UV_WORK
  | UV_GETADDRINFO | UV_GETNAMEINFO | UV_RANDOM

definition uv_cancel :: "uv_req_type \<Rightarrow> nat \<Rightarrow> pool \<Rightarrow> ret \<times> pool" where
  "uv_cancel type w p =
     (if type \<in> {UV_FS, UV_GETADDRINFO, UV_GETNAMEINFO, UV_RANDOM, UV_WORK} then uv__work_cancel w p else (Inl UV_EINVAL, p))"

text \<open>\<open>uv__work_done\<close> moves the queue to its stack and delivers from there.\<close>

definition work_done_begin :: "pool \<Rightarrow> pool" where
  "work_done_begin p = p\<lparr>loop_local := loop_wq p, loop_wq := []\<rparr>"

definition work_done_one :: "pool \<Rightarrow> pool" where
  "work_done_one p =
     (case loop_local p of
        [] \<Rightarrow> p
      | w # rest \<Rightarrow> p\<lparr>loop_local := rest,
          delivered := delivered p @ [(w, if work p w = Work_cancelled then Inl UV_ECANCELED else OK)]\<rparr>)"

text \<open>
  \<open>uv_queue_work\<close> registers the request with the loop and submits it; its completion,
  \<open>uv__queue_done\<close>, unregisters it and calls the user's callback with the status.
\<close>

definition uv_queue_work ::
    "nat option \<Rightarrow> nat \<Rightarrow> 'a uv_loop_scheme \<Rightarrow> pool \<Rightarrow> ret \<times> 'a uv_loop_scheme \<times> bool \<times> pool" where
  "uv_queue_work work_cb req l p =
     (if work_cb = None then (Inl UV_EINVAL, l, False, p)
      else (OK, uv__req_register l, uv__work_submit req UV__WORK_CPU p))"

definition uv__queue_done ::
    "(nat \<Rightarrow> nat \<Rightarrow> ret \<Rightarrow> 'a uv_loop_scheme \<Rightarrow> 'a uv_loop_scheme option) \<Rightarrow> nat option \<Rightarrow> nat \<Rightarrow> ret \<Rightarrow>
     'a uv_loop_scheme \<Rightarrow> 'a uv_loop_scheme option" where
  "uv__queue_done run after_work_cb req err l =
     Option.bind (uv__req_unregister l) (\<lambda>l.
       case after_work_cb of None \<Rightarrow> Some l | Some cb \<Rightarrow> run cb req err l)"

text \<open>The number of threads: the environment's value as \<open>atoi\<close> reads it, and whether memory for them is granted.\<close>

definition MAX_THREADPOOL_SIZE :: u32 where "MAX_THREADPOOL_SIZE = 1024"

definition init_nthreads :: "int option \<Rightarrow> (u32 \<Rightarrow> bool) \<Rightarrow> u32" where
  "init_nthreads val mem =
     (let nthreads = (case val of None \<Rightarrow> 4 | Some v \<Rightarrow> of_int v);
          nthreads = (if nthreads = 0 then 1 else nthreads);
          nthreads = (if nthreads > MAX_THREADPOOL_SIZE then MAX_THREADPOOL_SIZE else nthreads)
      in if nthreads > 4 \<and> \<not> mem nthreads then 4 else nthreads)"

definition init_threads :: "int option \<Rightarrow> (u32 \<Rightarrow> bool) \<Rightarrow> pool" where
  "init_threads val mem =
     \<lparr>wq = [], slow_io_pending_wq = [], slow_io_work_running = 0, idle_threads = 0,
      threads = replicate (unat (init_nthreads val mem)) Ready, loop_wq = [], loop_local = [], work = (\<lambda>_. Work_NULL),
      submitted = [], executed = [], delivered = []\<rparr>"

section \<open>Steps\<close>

fun finish :: "nat \<Rightarrow> outcome \<Rightarrow> pool \<Rightarrow> bool \<times> pool" where
  "finish i Wait p = (False, set_thread i Waiting p)"
| "finish i Leave p = (True, set_thread i Exited p)"
| "finish i (Run w slow sig) p = (sig, set_thread i (Running w slow) p)"

inductive pool_step :: "pool \<Rightarrow> pool \<Rightarrow> bool" where
  critical: "i < length (threads p) \<Longrightarrow> enter (threads p ! i) p = Some p1 \<Longrightarrow> worker_loop p1 = Some (out, p2) \<Longrightarrow>
    finish i out p2 = (sig, p3) \<Longrightarrow> signal_if sig p3 p' \<Longrightarrow> pool_step p p'"
| spurious: "i < length (threads p) \<Longrightarrow> threads p ! i = Waiting \<Longrightarrow> pool_step p (set_thread i Woken p)"
| execute: "i < length (threads p) \<Longrightarrow> threads p ! i = Running w slow \<Longrightarrow>
    pool_step p ((set_thread i (Done w slow) p)\<lparr>executed := executed p @ [w]\<rparr>)"
| report: "i < length (threads p) \<Longrightarrow> threads p ! i = Done w slow \<Longrightarrow>
    pool_step p ((set_thread i (Returning slow) p)\<lparr>work := (work p)(w := Work_NULL), loop_wq := loop_wq p @ [w]\<rparr>)"
| submit: "w \<notin> set (submitted p) \<Longrightarrow> uv__work_submit w kind p = (sig, p1) \<Longrightarrow> signal_if sig p1 p' \<Longrightarrow> pool_step p p'"
| cancel: "w \<in> set (submitted p) \<Longrightarrow> w \<notin> fst ` set (delivered p) \<Longrightarrow> pool_step p (snd (uv__work_cancel w p))"
| drain: "loop_local p = [] \<Longrightarrow> pool_step p (work_done_begin p)"
| deliver: "loop_local p \<noteq> [] \<Longrightarrow> pool_step p (work_done_one p)"
| shutdown: "post Exit_message UV__WORK_CPU p = (sig, p1) \<Longrightarrow> signal_if sig p1 p' \<Longrightarrow> pool_step p p'"

inductive pool_reachable :: "int option \<Rightarrow> (u32 \<Rightarrow> bool) \<Rightarrow> pool \<Rightarrow> bool" for val mem where
  start: "pool_reachable val mem (init_threads val mem)"
| more: "pool_reachable val mem p \<Longrightarrow> pool_step p p' \<Longrightarrow> pool_reachable val mem p'"

section \<open>Counting\<close>

text \<open>Sums over the threads, and how one thread's step changes them.\<close>

abbreviation tsum :: "(tstate \<Rightarrow> nat) \<Rightarrow> tstate list \<Rightarrow> nat" where
  "tsum f ts \<equiv> sum_list (map f ts)"

lemma tsum_update: "i < length ts \<Longrightarrow> tsum f (ts[i := s]) + f (ts ! i) = tsum f ts + f s"
  by (rule map_sum_update)

lemma tsum_pos: "0 < f s \<Longrightarrow> s \<in> set ts \<Longrightarrow> 0 < tsum f ts"
  by (rule map_sum_pos)

lemma tsum_zero: "tsum f ts = 0 \<longleftrightarrow> (\<forall>s\<in>set ts. f s = 0)"
  by (induction ts) auto

lemma count_remove1: "count_list (remove1 a xs) x = count_list xs x - (if x = a then 1 else 0)"
  by (induction xs) (auto simp: count_list_0_iff)

lemma distinct_counts: "distinct xs \<longleftrightarrow> (\<forall>x. count_list xs x \<le> 1)"
proof (induction xs)
  case (Cons a xs)
  have "(\<forall>x. count_list (a # xs) x \<le> 1) \<longleftrightarrow> count_list xs a = 0 \<and> (\<forall>x. count_list xs x \<le> 1)"
    by (auto simp: le_Suc_eq)
  then show ?case using Cons by (simp add: count_list_0_iff)
qed simp

lemma count_pos: "0 < count_list xs x \<longleftrightarrow> x \<in> set xs"
  by (metis count_list_0_iff gr0I less_irrefl)

fun holds :: "nat \<Rightarrow> tstate \<Rightarrow> nat" where
  "holds x (Running w s) = of_bool (w = x)"
| "holds x (Done w s) = of_bool (w = x)"
| "holds x _ = 0"

fun has_done :: "nat \<Rightarrow> tstate \<Rightarrow> nat" where
  "has_done x (Done w s) = of_bool (w = x)"
| "has_done x _ = 0"

fun slow :: "tstate \<Rightarrow> nat" where
  "slow (Running w s) = of_bool s"
| "slow (Done w s) = of_bool s"
| "slow (Returning s) = of_bool s"
| "slow _ = 0"

fun sleeps :: "tstate \<Rightarrow> nat" where
  "sleeps Waiting = 1"
| "sleeps Woken = 1"
| "sleeps _ = 0"

definition awake :: "tstate \<Rightarrow> bool" where
  "awake s \<longleftrightarrow> s \<noteq> Waiting \<and> s \<noteq> Exited"

definition before_run :: "pool \<Rightarrow> nat \<Rightarrow> nat" where
  "before_run p x = count_list (wq p) (Work x) + count_list (slow_io_pending_wq p) x"

definition after_run :: "pool \<Rightarrow> nat \<Rightarrow> nat" where
  "after_run p x = count_list (loop_wq p) x + count_list (loop_local p) x"

definition reported :: "pool \<Rightarrow> nat \<Rightarrow> nat" where
  "reported p x = count_list (map fst (delivered p)) x"

definition reported_ok :: "pool \<Rightarrow> nat \<Rightarrow> nat" where
  "reported_ok p x = count_list (map fst (filter (\<lambda>d. snd d = OK) (delivered p))) x"

text \<open>
  Every request is in exactly one place; a request that is queued or running has its function,
  one that waits for the loop has run or was cancelled; the counters count; the message for slow
  work is queued once at most, and is queued while there is slow work; while there is something to
  do, some thread is up, unless none is waiting.
\<close>

definition place_ok :: "pool \<Rightarrow> bool" where
  "place_ok p \<longleftrightarrow>
     (\<forall>x. before_run p x + tsum (holds x) (threads p) + after_run p x + reported p x = of_bool (x \<in> set (submitted p)))"

definition work_ok :: "pool \<Rightarrow> bool" where
  "work_ok p \<longleftrightarrow>
     (\<forall>x. (0 < before_run p x + tsum (holds x) (threads p) \<longrightarrow> work p x = Work_fun) \<and> (0 < after_run p x \<longrightarrow> work p x \<noteq> Work_fun))"

definition executed_ok :: "pool \<Rightarrow> bool" where
  "executed_ok p \<longleftrightarrow>
     (\<forall>x. count_list (executed p) x =
        tsum (has_done x) (threads p) + (if work p x = Work_NULL then after_run p x else 0) + reported_ok p x)"

definition counters_ok :: "pool \<Rightarrow> bool" where
  "counters_ok p \<longleftrightarrow> slow_io_work_running p = tsum slow (threads p) \<and> slow_io_work_running p \<le> slow_work_thread_threshold p \<and>
     idle_threads p = tsum sleeps (threads p)"

definition message_ok :: "pool \<Rightarrow> bool" where
  "message_ok p \<longleftrightarrow> count_list (wq p) Run_slow_work_message \<le> 1 \<and>
     (slow_io_pending_wq p \<noteq> [] \<longrightarrow> Run_slow_work_message \<in> set (wq p))"

definition not_stalled :: "pool \<Rightarrow> bool" where
  "not_stalled p \<longleftrightarrow> (\<not> must_wait p \<longrightarrow> Waiting \<in> set (threads p) \<longrightarrow> (\<exists>s\<in>set (threads p). awake s))"

definition pool_core :: "pool \<Rightarrow> bool" where
  "pool_core p \<longleftrightarrow> place_ok p \<and> work_ok p \<and> executed_ok p \<and> counters_ok p \<and> message_ok p"

section \<open>Critical sections\<close>

text \<open>What a critical section leaves of the queue: the requests, and the message for slow work.\<close>

definition loop_result :: "pool \<Rightarrow> outcome \<Rightarrow> pool \<Rightarrow> bool" where
  "loop_result p out p' \<longleftrightarrow> count_list (wq p') Run_slow_work_message \<le> 1 \<and>
     (case out of
        Wait \<Rightarrow> p' = p\<lparr>wq := wq p', idle_threads := idle_threads p + 1\<rparr> \<and> must_wait (p\<lparr>wq := wq p'\<rparr>) \<and>
          (\<forall>x. count_list (wq p') (Work x) = count_list (wq p) (Work x)) \<and>
          (slow_io_pending_wq p \<noteq> [] \<longrightarrow> Run_slow_work_message \<in> set (wq p'))
      | Leave \<Rightarrow> p' = p\<lparr>wq := wq p'\<rparr> \<and> (\<forall>x. count_list (wq p') (Work x) = count_list (wq p) (Work x)) \<and>
          (slow_io_pending_wq p \<noteq> [] \<longrightarrow> Run_slow_work_message \<in> set (wq p'))
      | Run w s sig \<Rightarrow>
          (if s then (\<exists>ws. slow_io_pending_wq p = w # ws \<and> slow_io_work_running p < slow_work_thread_threshold p \<and>
                 p' = p\<lparr>wq := wq p', slow_io_pending_wq := ws, slow_io_work_running := slow_io_work_running p + 1\<rparr> \<and>
                 (\<forall>x. count_list (wq p') (Work x) = count_list (wq p) (Work x)) \<and>
                 (ws \<noteq> [] \<longrightarrow> Run_slow_work_message \<in> set (wq p')))
           else p' = p\<lparr>wq := wq p'\<rparr> \<and> (\<forall>x. count_list (wq p') (Work x) + of_bool (x = w) = count_list (wq p) (Work x)) \<and>
             (slow_io_pending_wq p \<noteq> [] \<longrightarrow> Run_slow_work_message \<in> set (wq p'))))"

lemma worker_loop_simple:
  assumes "count_list (wq p) Run_slow_work_message \<le> 1" and "slow_io_pending_wq p \<noteq> [] \<longrightarrow> Run_slow_work_message \<in> set (wq p)"
    and "must_wait p \<or> hd (wq p) \<noteq> Run_slow_work_message"
  shows "\<exists>out p'. worker_loop p = Some (out, p') \<and> loop_result p out p'"
proof (cases "must_wait p")
  case True
  then show ?thesis using assms by (subst worker_loop.simps) (auto simp: loop_result_def)
next
  case False
  then obtain a q where q: "wq p = a # q" by (cases "wq p") (auto simp: must_wait_def)
  show ?thesis
  proof (cases a)
    case Exit_message
    then show ?thesis using assms False q by (subst worker_loop.simps) (auto simp: loop_result_def)
  next
    case Run_slow_work_message
    then show ?thesis using assms(3) False q by simp
  next
    case (Work w)
    then show ?thesis using assms False q by (subst worker_loop.simps) (auto simp: loop_result_def)
  qed
qed

lemma loop_result_queue:
  assumes "loop_result (p\<lparr>wq := q\<rparr>) out p'" and "\<And>x. count_list q (Work x) = count_list (wq p) (Work x)"
  shows "loop_result p out p'"
  using assms by (cases out) (auto simp: loop_result_def slow_work_thread_threshold_def split: if_splits)

lemma worker_loop_total:
  assumes "count_list (wq p) Run_slow_work_message \<le> 1" and "slow_io_pending_wq p \<noteq> [] \<longrightarrow> Run_slow_work_message \<in> set (wq p)"
  shows "\<exists>out p'. worker_loop p = Some (out, p') \<and> loop_result p out p'"
proof (cases "must_wait p \<or> hd (wq p) \<noteq> Run_slow_work_message")
  case True
  then show ?thesis using worker_loop_simple [OF assms] by blast
next
  case False
  then obtain q where q: "wq p = Run_slow_work_message # q" and nw: "\<not> must_wait p" by (cases "wq p") (auto simp: must_wait_def)
  have none: "Run_slow_work_message \<notin> set q" using assms(1) q by (simp add: count_list_0_iff)
  let ?full = "slow_work_thread_threshold p \<le> slow_io_work_running p"
  have step: ?thesis if "worker_loop p = worker_loop (p\<lparr>wq := q'\<rparr>)" "count_list q' Run_slow_work_message \<le> 1"
    "slow_io_pending_wq p \<noteq> [] \<longrightarrow> Run_slow_work_message \<in> set q'" "must_wait (p\<lparr>wq := q'\<rparr>) \<or> hd q' \<noteq> Run_slow_work_message"
    "\<And>x. count_list q' (Work x) = count_list (wq p) (Work x)" for q'
    using worker_loop_simple [of "p\<lparr>wq := q'\<rparr>"] loop_result_queue [where p = p and q = q'] that by auto
  show ?thesis
  proof (cases ?full)
    case True
    then have "q \<noteq> []" using nw q by (auto simp: must_wait_def)
    then have "hd (q @ [Run_slow_work_message]) \<noteq> Run_slow_work_message" using none by (cases q) auto
    moreover have "worker_loop p = worker_loop (p\<lparr>wq := q @ [Run_slow_work_message]\<rparr>)"
      using nw q True by (subst worker_loop.simps) simp
    ultimately show ?thesis using none q by (intro step [of "q @ [Run_slow_work_message]"]) (auto simp: count_list_0_iff)
  next
    case room: False
    show ?thesis
    proof (cases "slow_io_pending_wq p")
      case Nil
      have "worker_loop p = worker_loop (p\<lparr>wq := q\<rparr>)" using nw q room Nil by (subst worker_loop.simps) simp
      moreover have "must_wait (p\<lparr>wq := q\<rparr>) \<or> hd q \<noteq> Run_slow_work_message"
        using none by (cases q) (auto simp: must_wait_def)
      ultimately show ?thesis using none q Nil by (intro step [of q]) (auto simp: count_list_0_iff)
    next
      case (Cons w ws)
      show ?thesis
      proof (cases "ws = []")
        case True
        have "worker_loop p = Some (Run w True False, p\<lparr>wq := q, slow_io_pending_wq := ws,
            slow_io_work_running := slow_io_work_running p + 1\<rparr>)"
          using nw q room Cons True by (subst worker_loop.simps) simp
        then show ?thesis using q room Cons True none by (auto simp: loop_result_def count_list_0_iff)
      next
        case False
        have "worker_loop p = Some (Run w True (idle_threads p > 0), p\<lparr>wq := q @ [Run_slow_work_message], slow_io_pending_wq := ws,
            slow_io_work_running := slow_io_work_running p + 1\<rparr>)"
          using nw q room Cons False by (subst worker_loop.simps) simp
        then show ?thesis using q room Cons False none
          by (auto simp: loop_result_def count_list_0_iff)
      qed
    qed
  qed
qed

section \<open>The invariant is kept\<close>

text \<open>One thread changes its state and the queue of work changes with it.\<close>

lemmas core_defs = place_ok_def work_ok_def executed_ok_def counters_ok_def message_ok_def
lemmas place_defs = before_run_def after_run_def reported_def reported_ok_def

lemma signal_core:
  assumes "signal p p'" and "pool_core p"
  shows "pool_core p' \<and> not_stalled p'"
  using assms(1)
proof cases
  case (wake i)
  have s: "tsum f (threads p') = tsum f (threads p)" if "f Woken = f Waiting" for f
    using tsum_update [OF wake(2), of f Woken] wake(1,3) that by (simp add: set_thread_def)
  have f: "wq p' = wq p" "slow_io_pending_wq p' = slow_io_pending_wq p" "loop_wq p' = loop_wq p" "loop_local p' = loop_local p"
    "delivered p' = delivered p" "submitted p' = submitted p" "work p' = work p" "executed p' = executed p"
    "slow_io_work_running p' = slow_io_work_running p" "idle_threads p' = idle_threads p" "length (threads p') = length (threads p)"
    using wake(1) by (simp_all add: set_thread_def)
  have "place_ok p' = place_ok p" "work_ok p' = work_ok p" "executed_ok p' = executed_ok p" "counters_ok p' = counters_ok p"
    "message_ok p' = message_ok p"
    unfolding core_defs place_defs f slow_work_thread_threshold_def by (simp_all add: s)
  moreover have "Woken \<in> set (threads p')" using wake(1,2) by (simp add: set_thread_def set_update_memI)
  ultimately show ?thesis using assms(2) by (auto simp: pool_core_def not_stalled_def awake_def)
next
  case nobody
  then show ?thesis using assms(2) by (simp add: not_stalled_def)
qed

lemma enter_fields:
  assumes "enter s p = Some p1"
  obtains n k where "p1 = p\<lparr>idle_threads := n, slow_io_work_running := k\<rparr>" "n = idle_threads p - sleeps s"
    "k = slow_io_work_running p - slow s" "\<And>x. holds x s = 0" "\<And>x. has_done x s = 0"
  using assms by (cases s) auto

lemma thread_step_core:
  assumes core: "pool_core p" and i: "i < length (threads p)"
    and old: "\<And>x. holds x (threads p ! i) = 0" "\<And>x. has_done x (threads p ! i) = 0"
    and n: "n' + sleeps (threads p ! i) = idle_threads p + sleeps s"
    and k: "k' + slow (threads p ! i) = slow_io_work_running p + slow s" "k' \<le> slow_work_thread_threshold p"
    and q: "\<And>x. count_list q' (Work x) + count_list sl' x + holds x s = before_run p x" "\<And>x. has_done x s = 0"
    and m: "count_list q' Run_slow_work_message \<le> 1" "sl' \<noteq> [] \<Longrightarrow> Run_slow_work_message \<in> set q'"
  shows "pool_core (p\<lparr>idle_threads := n', slow_io_work_running := k', wq := q', slow_io_pending_wq := sl', threads := (threads p)[i := s]\<rparr>)"
    (is "pool_core ?p")
proof -
  have parts: "place_ok p" "work_ok p" "executed_ok p" "counters_ok p" using core by (simp_all add: pool_core_def)
  have t: "tsum f (threads ?p) + f (threads p ! i) = tsum f (threads p) + f s" for f
    using tsum_update [OF i, of f s] by simp
  have h: "tsum (holds x) (threads ?p) = tsum (holds x) (threads p) + holds x s"
    "tsum (has_done x) (threads ?p) = tsum (has_done x) (threads p)" for x
    using t [of "holds x"] t [of "has_done x"] old q(2) by auto
  have b: "before_run ?p x + tsum (holds x) (threads ?p) = before_run p x + tsum (holds x) (threads p)" for x
    using h(1) [of x] q(1) [of x] by (simp add: before_run_def)
  have o: "after_run ?p x = after_run p x" "reported ?p x = reported p x" "reported_ok ?p x = reported_ok p x"
    "submitted ?p = submitted p" "work ?p = work p" "executed ?p = executed p" for x
    by (simp_all add: after_run_def reported_def reported_ok_def)
  have "place_ok ?p" using parts(1) unfolding place_ok_def b o .
  moreover have "work_ok ?p" using parts(2) unfolding work_ok_def b o .
  moreover have "executed_ok ?p" using parts(3) unfolding executed_ok_def h(2) o .
  moreover have "counters_ok ?p"
    using parts(4) t [of slow] t [of sleeps] n k by (simp add: counters_ok_def slow_work_thread_threshold_def)
  moreover have "message_ok ?p" using m by (simp add: message_ok_def)
  ultimately show ?thesis by (simp add: pool_core_def)
qed

lemma tsum_ge: "i < length ts \<Longrightarrow> f (ts ! i) \<le> tsum f ts"
  using tsum_update [of i ts f "ts ! i"] member_le_sum_list [of "f (ts ! i)" "map f ts"] by simp

lemma critical_core:
  assumes core: "pool_core p" and i: "i < length (threads p)" and e: "enter (threads p ! i) p = Some p1"
    and l: "worker_loop p1 = Some (out, p2)" and fin: "finish i out p2 = (sig, p3)"
  shows "pool_core p3 \<and> (sig \<or> not_stalled p3)"
proof -
  let ?s = "threads p ! i"
  obtain n k where p1: "p1 = p\<lparr>idle_threads := n, slow_io_work_running := k\<rparr>" and nk: "n = idle_threads p - sleeps ?s"
    "k = slow_io_work_running p - slow ?s" and old: "\<And>x. holds x ?s = 0" "\<And>x. has_done x ?s = 0"
    using enter_fields [OF e] by blast
  have cn: "slow_io_work_running p = tsum slow (threads p)" "slow_io_work_running p \<le> slow_work_thread_threshold p"
    "idle_threads p = tsum sleeps (threads p)" using core by (auto simp: pool_core_def counters_ok_def)
  have n: "n + sleeps ?s = idle_threads p" using nk(1) cn(3) tsum_ge [OF i, of sleeps] by simp
  have k: "k + slow ?s = slow_io_work_running p" "k \<le> slow_work_thread_threshold p"
    using nk(2) cn(1,2) tsum_ge [OF i, of slow] by simp_all
  have msg: "count_list (wq p1) Run_slow_work_message \<le> 1" "slow_io_pending_wq p1 \<noteq> [] \<longrightarrow> Run_slow_work_message \<in> set (wq p1)"
    using core by (auto simp: p1 pool_core_def message_ok_def)
  have res: "loop_result p1 out p2" using worker_loop_total [OF msg] l by simp
  note thr = slow_work_thread_threshold_def
  define q' where "q' = wq p2"
  note ts = thread_step_core [OF core i old]
  show ?thesis
  proof (cases out)
    case Wait
    have f: "p2 = p1\<lparr>wq := q', idle_threads := n + 1\<rparr>" "must_wait (p1\<lparr>wq := q'\<rparr>)"
      "\<And>x. count_list q' (Work x) = count_list (wq p) (Work x)" "slow_io_pending_wq p \<noteq> [] \<Longrightarrow> Run_slow_work_message \<in> set q'"
      "count_list q' Run_slow_work_message \<le> 1"
      using res Wait unfolding loop_result_def q'_def by (simp_all add: p1)
    have "p3 = p\<lparr>idle_threads := n + 1, slow_io_work_running := k, wq := q', slow_io_pending_wq := slow_io_pending_wq p,
        threads := (threads p)[i := Waiting]\<rparr>"
      using fin Wait f(1) p1 by (auto simp: set_thread_def intro!: pool.equality)
    moreover have "must_wait p3" using f(2) p1 calculation by (simp add: must_wait_def thr)
    ultimately show ?thesis using ts [of "n + 1" Waiting k q' "slow_io_pending_wq p"] n k f(3-5)
      by (simp add: not_stalled_def before_run_def)
  next
    case Leave
    have f: "p2 = p1\<lparr>wq := q'\<rparr>"
      "\<And>x. count_list q' (Work x) = count_list (wq p) (Work x)" "slow_io_pending_wq p \<noteq> [] \<Longrightarrow> Run_slow_work_message \<in> set q'"
      "count_list q' Run_slow_work_message \<le> 1"
      using res Leave unfolding loop_result_def q'_def by (simp_all add: p1)
    have "p3 = p\<lparr>idle_threads := n, slow_io_work_running := k, wq := q', slow_io_pending_wq := slow_io_pending_wq p,
        threads := (threads p)[i := Exited]\<rparr>" "sig"
      using fin Leave f(1) p1 by (auto simp: set_thread_def intro!: pool.equality)
    then show ?thesis using ts [of n Exited k q' "slow_io_pending_wq p"] n k f(2-4) by (simp add: before_run_def)
  next
    case (Run w b sg)
    have up: "not_stalled p'" if "threads p' = (threads p)[i := Running w b]" for p'
      using i that set_update_memI [of i "threads p" "Running w b"] unfolding not_stalled_def awake_def by fastforce
    show ?thesis
    proof (cases b)
      case False
      have f: "p2 = p1\<lparr>wq := q'\<rparr>"
        "\<And>x. count_list q' (Work x) + of_bool (x = w) = count_list (wq p) (Work x)"
        "slow_io_pending_wq p \<noteq> [] \<Longrightarrow> Run_slow_work_message \<in> set q'" "count_list q' Run_slow_work_message \<le> 1"
        using res Run False unfolding loop_result_def q'_def by (simp_all add: p1)
      have p3: "p3 = p\<lparr>idle_threads := n, slow_io_work_running := k, wq := q', slow_io_pending_wq := slow_io_pending_wq p,
          threads := (threads p)[i := Running w b]\<rparr>"
        using fin Run f(1) p1 by (auto simp: set_thread_def intro!: pool.equality)
      have "count_list q' (Work x) + count_list (slow_io_pending_wq p) x + holds x (Running w b) = before_run p x" for x
        using f(2) [of x] by (auto simp: before_run_def)
      then have "pool_core p3" unfolding p3 using n k f(3,4) False by (intro ts) simp_all
      then show ?thesis using up [of p3] p3 by simp
    next
      case True
      obtain ws where f: "slow_io_pending_wq p = w # ws" "k < slow_work_thread_threshold p"
        "p2 = p1\<lparr>wq := q', slow_io_pending_wq := ws, slow_io_work_running := k + 1\<rparr>"
        "\<And>x. count_list q' (Work x) = count_list (wq p) (Work x)" "ws \<noteq> [] \<Longrightarrow> Run_slow_work_message \<in> set q'"
        "count_list q' Run_slow_work_message \<le> 1"
        using res Run True unfolding loop_result_def q'_def by (auto simp: p1 thr)
      have p3: "p3 = p\<lparr>idle_threads := n, slow_io_work_running := k + 1, wq := q', slow_io_pending_wq := ws,
          threads := (threads p)[i := Running w b]\<rparr>"
        using fin Run f(3) p1 by (auto simp: set_thread_def intro!: pool.equality)
      have "count_list q' (Work x) + count_list ws x + holds x (Running w b) = before_run p x" for x
        using f(4) [of x] f(1) by (auto simp: before_run_def)
      then have "pool_core p3" unfolding p3 using n k f(2,5,6) True by (intro ts) simp_all
      then show ?thesis using up [of p3] p3 by simp
    qed
  qed
qed

text \<open>The other steps.\<close>

lemma place_okD: "place_ok p \<Longrightarrow>
    before_run p x + tsum (holds x) (threads p) + after_run p x + reported p x = of_bool (x \<in> set (submitted p))"
  by (simp only: place_ok_def)

lemma place_okI:
  assumes "\<And>x. before_run p x + tsum (holds x) (threads p) + after_run p x + reported p x = of_bool (x \<in> set (submitted p))"
  shows "place_ok p"
  using assms by (simp only: place_ok_def) blast

lemma core_cong:
  assumes "wq p' = wq p" "slow_io_pending_wq p' = slow_io_pending_wq p" "slow_io_work_running p' = slow_io_work_running p"
    "idle_threads p' = idle_threads p" "length (threads p') = length (threads p)" "tsum slow (threads p') = tsum slow (threads p)"
    "tsum sleeps (threads p') = tsum sleeps (threads p)"
  shows "counters_ok p' = counters_ok p" and "message_ok p' = message_ok p" and "must_wait p' = must_wait p"
  using assms by (simp_all add: counters_ok_def message_ok_def must_wait_def slow_work_thread_threshold_def)

lemma awake_not_stalled: "s \<in> set (threads p) \<Longrightarrow> awake s \<Longrightarrow> not_stalled p"
  by (auto simp: not_stalled_def)

lemma execute_core:
  assumes "pool_core p" and i: "i < length (threads p)" and r: "threads p ! i = Running w b"
  shows "pool_core ((set_thread i (Done w b) p)\<lparr>executed := executed p @ [w]\<rparr>) \<and>
    not_stalled ((set_thread i (Done w b) p)\<lparr>executed := executed p @ [w]\<rparr>)" (is "pool_core ?p \<and> _")
proof -
  have t: "tsum f (threads ?p) + f (Running w b) = tsum f (threads p) + f (Done w b)" for f
    using tsum_update [OF i, of f "Done w b"] r by (simp add: set_thread_def)
  have h: "tsum (holds x) (threads ?p) = tsum (holds x) (threads p)"
    "tsum (has_done x) (threads ?p) = tsum (has_done x) (threads p) + of_bool (w = x)" for x
    using t [of "holds x"] t [of "has_done x"] by simp_all
  have o: "before_run ?p x = before_run p x" "after_run ?p x = after_run p x" "reported ?p x = reported p x"
    "reported_ok ?p x = reported_ok p x" "submitted ?p = submitted p" "work ?p = work p" for x
    by (simp_all add: set_thread_def place_defs)
  have "place_ok ?p = place_ok p" "work_ok ?p = work_ok p" unfolding place_ok_def work_ok_def h o by simp_all
  moreover have "executed_ok ?p" using assms(1) unfolding pool_core_def executed_ok_def h o by (auto simp: set_thread_def)
  moreover have "counters_ok ?p = counters_ok p" "message_ok ?p = message_ok p"
    using core_cong [of ?p p] t [of slow] t [of sleeps] by (simp_all add: set_thread_def)
  moreover have "Done w b \<in> set (threads ?p)" using i by (simp add: set_thread_def set_update_memI)
  ultimately show ?thesis using assms(1) awake_not_stalled [of "Done w b" ?p] by (simp add: pool_core_def awake_def)
qed

lemma report_core:
  assumes "pool_core p" and i: "i < length (threads p)" and r: "threads p ! i = Done w b"
  shows "pool_core ((set_thread i (Returning b) p)\<lparr>work := (work p)(w := Work_NULL), loop_wq := loop_wq p @ [w]\<rparr>) \<and>
    not_stalled ((set_thread i (Returning b) p)\<lparr>work := (work p)(w := Work_NULL), loop_wq := loop_wq p @ [w]\<rparr>)"
    (is "pool_core ?p \<and> _")
proof -
  have parts: "place_ok p" "work_ok p" "executed_ok p" using assms(1) by (simp_all add: pool_core_def)
  have t: "tsum f (threads ?p) + f (Done w b) = tsum f (threads p) + f (Returning b)" for f
    using tsum_update [OF i, of f "Returning b"] r by (simp add: set_thread_def)
  have h: "tsum (holds x) (threads p) = tsum (holds x) (threads ?p) + of_bool (w = x)"
    "tsum (has_done x) (threads p) = tsum (has_done x) (threads ?p) + of_bool (w = x)" for x
    using t [of "holds x"] t [of "has_done x"] by simp_all
  have o: "before_run ?p x = before_run p x" "after_run ?p x = after_run p x + of_bool (w = x)" "reported ?p x = reported p x"
    "reported_ok ?p x = reported_ok p x" "submitted ?p = submitted p" "work ?p = (work p)(w := Work_NULL)" "executed ?p = executed p" for x
    by (auto simp: set_thread_def place_defs)
  have "tsum (holds w) (threads p) = tsum (holds w) (threads ?p) + 1" using h(1) [of w] by simp
  moreover have "(of_bool (w \<in> set (submitted p)) :: nat) \<le> 1" by simp
  ultimately have only: "before_run p w = 0" "tsum (holds w) (threads ?p) = 0" "after_run p w = 0"
    using place_okD [OF parts(1), of w] by linarith+
  have "place_ok ?p"
  proof (rule place_okI)
    fix x
    show "before_run ?p x + tsum (holds x) (threads ?p) + after_run ?p x + reported ?p x = of_bool (x \<in> set (submitted ?p))"
      using place_okD [OF parts(1), of x] h(1) [of x] unfolding o by linarith
  qed
  moreover have "work_ok ?p"
    using parts(2) only unfolding work_ok_def o h by (auto split: if_splits)
  moreover have "executed_ok ?p" using parts(3) only unfolding executed_ok_def o h by (auto split: if_splits)
  moreover have "counters_ok ?p = counters_ok p" "message_ok ?p = message_ok p"
    using core_cong [of ?p p] t [of slow] t [of sleeps] by (simp_all add: set_thread_def)
  moreover have "Returning b \<in> set (threads ?p)" using i by (simp add: set_thread_def set_update_memI)
  ultimately show ?thesis using assms(1) awake_not_stalled [of "Returning b" ?p] by (simp add: pool_core_def awake_def)
qed

lemma spurious_core:
  assumes "pool_core p" and "i < length (threads p)" and "threads p ! i = Waiting"
  shows "pool_core (set_thread i Woken p) \<and> not_stalled (set_thread i Woken p)"
  using signal_core [OF signal.wake [OF assms(2,3)] assms(1)] .

lemma post_core:
  assumes core: "pool_core p" and ns: "not_stalled p" and sub: "w \<notin> set (submitted p)"
    and s: "uv__work_submit w kind p = (sig, p1)"
  shows "pool_core p1 \<and> (sig \<or> not_stalled p1)"
proof -
  define p0 where "p0 = p\<lparr>work := (work p)(w := Work_fun), submitted := submitted p @ [w]\<rparr>"
  have parts: "place_ok p" "work_ok p" "executed_ok p" "counters_ok p" "message_ok p" using core by (simp_all add: pool_core_def)
  have p1: "p1 = snd (post (Work w) kind p0)" "sig = fst (post (Work w) kind p0)" using s by (simp_all add: uv__work_submit_def p0_def)
  have "(of_bool (w \<in> set (submitted p)) :: nat) = 0" using sub by simp
  then have zero: "before_run p w = 0" "tsum (holds w) (threads p) = 0" "after_run p w = 0" "reported p w = 0"
    using place_okD [OF parts(1), of w] by linarith+
  have th: "threads p1 = threads p" "loop_wq p1 = loop_wq p" "loop_local p1 = loop_local p" "delivered p1 = delivered p"
    "work p1 = (work p)(w := Work_fun)" "submitted p1 = submitted p @ [w]" "executed p1 = executed p"
    "idle_threads p1 = idle_threads p" "slow_io_work_running p1 = slow_io_work_running p"
    unfolding p1 post_def by (auto simp: p0_def Let_def split: work_kind.splits)
  have b: "before_run p1 x = before_run p x + of_bool (x = w)" for x
    unfolding p1 post_def by (auto simp: before_run_def p0_def Let_def split: work_kind.splits)
  have o: "after_run p1 x = after_run p x" "reported p1 x = reported p x" "reported_ok p1 x = reported_ok p x" for x
    by (simp_all add: place_defs th)
  have "place_ok p1"
  proof (rule place_okI)
    fix x
    have "of_bool (x \<in> set (submitted p1)) = (of_bool (x \<in> set (submitted p)) :: nat) + of_bool (x = w)" using sub by (auto simp: th)
    then show "before_run p1 x + tsum (holds x) (threads p1) + after_run p1 x + reported p1 x = of_bool (x \<in> set (submitted p1))"
      using place_okD [OF parts(1), of x] unfolding b o th(1) by linarith
  qed
  moreover have "work_ok p1" using parts(2) zero unfolding work_ok_def b o th by auto
  moreover have "executed_ok p1" using parts(3) zero unfolding executed_ok_def o th by (auto split: if_splits)
  moreover have "counters_ok p1" using parts(4) by (simp add: counters_ok_def th slow_work_thread_threshold_def)
  moreover have "message_ok p1"
    using parts(5) unfolding p1 post_def message_ok_def
    by (auto simp: p0_def Let_def count_list_0_iff split: work_kind.splits)
  moreover have "sig \<or> not_stalled p1"
  proof (rule disjCI)
    assume a: "\<not> not_stalled p1"
    then have w: "Waiting \<in> set (threads p)" "\<not> (\<exists>s\<in>set (threads p). awake s)" "\<not> must_wait p1" by (auto simp: not_stalled_def th)
    then have mw: "must_wait p" using ns by (auto simp: not_stalled_def)
    have "0 < idle_threads p" using tsum_pos [of sleeps Waiting] w(1) parts(4) by (simp add: counters_ok_def)
    moreover have "wq p1 \<noteq> wq p" using mw w(3) by (auto simp: must_wait_def th slow_work_thread_threshold_def)
    ultimately show sig unfolding p1 post_def by (auto simp: p0_def Let_def split: work_kind.splits if_splits)
  qed
  ultimately show ?thesis by (simp add: pool_core_def)
qed

lemma shutdown_core:
  assumes core: "pool_core p" and ns: "not_stalled p" and s: "post Exit_message UV__WORK_CPU p = (sig, p1)"
  shows "pool_core p1 \<and> (sig \<or> not_stalled p1)"
proof -
  have parts: "place_ok p" "work_ok p" "executed_ok p" "counters_ok p" "message_ok p" using core by (simp_all add: pool_core_def)
  have p1: "p1 = p\<lparr>wq := wq p @ [Exit_message]\<rparr>" "sig \<longleftrightarrow> 0 < idle_threads p" using s by (auto simp: post_def)
  have o: "before_run p1 x = before_run p x" "after_run p1 x = after_run p x" "reported p1 x = reported p x" "reported_ok p1 x = reported_ok p x" for x
    by (simp_all add: place_defs p1)
  have "pool_core p1" using parts unfolding pool_core_def place_ok_def work_ok_def executed_ok_def counters_ok_def message_ok_def o
    by (auto simp: p1(1) slow_work_thread_threshold_def)
  moreover have "not_stalled p1" if "\<not> sig"
  proof -
    have "tsum sleeps (threads p) = 0" using that p1(2) parts(4) by (simp add: counters_ok_def)
    then have "Waiting \<notin> set (threads p)" by (auto simp: tsum_zero)
    then show ?thesis by (simp add: not_stalled_def p1(1))
  qed
  ultimately show ?thesis by blast
qed

lemma cancel_core:
  assumes core: "pool_core p" and ns: "not_stalled p"
  shows "pool_core (snd (uv__work_cancel w p)) \<and> not_stalled (snd (uv__work_cancel w p))"
proof (cases "queued w p \<and> work p w \<noteq> Work_NULL")
  case False
  then show ?thesis using core ns by (auto simp: uv__work_cancel_def)
next
  case True
  let ?p = "snd (uv__work_cancel w p)"
  have parts: "place_ok p" "work_ok p" "executed_ok p" "counters_ok p" "message_ok p" using core by (simp_all add: pool_core_def)
  have p: "?p = p\<lparr>wq := remove1 (Work w) (wq p), slow_io_pending_wq := remove1 w (slow_io_pending_wq p),
      loop_local := remove1 w (loop_local p), loop_wq := remove1 w (loop_wq p) @ [w], work := (work p)(w := Work_cancelled)\<rparr>"
    using True by (simp add: uv__work_cancel_def)
  have bound: "before_run p w + tsum (holds w) (threads p) + after_run p w + reported p w \<le> 1"
    using place_okD [OF parts(1), of w] by (simp add: of_bool_def split: if_splits)
  have "0 < before_run p w + after_run p w"
    using True unfolding queued_def count_pos [symmetric] before_run_def after_run_def by linarith
  then have here: "before_run p w + after_run p w = 1" "tsum (holds w) (threads p) = 0" "reported p w = 0" using bound by linarith+
  have b: "before_run ?p x = (if x = w then 0 else before_run p x)" for x
  proof (cases "x = w")
    case True
    then show ?thesis using here(1) unfolding p before_run_def after_run_def by (simp add: count_remove1)
  qed (simp add: p before_run_def count_remove1)
  have a: "after_run ?p x = (if x = w then 1 else after_run p x)" for x
  proof (cases "x = w")
    case True
    then show ?thesis using here(1) unfolding p before_run_def after_run_def by (simp add: count_remove1)
  qed (simp add: p after_run_def count_remove1)
  have o: "threads ?p = threads p" "reported ?p x = reported p x" "reported_ok ?p x = reported_ok p x" "submitted ?p = submitted p"
    "work ?p = (work p)(w := Work_cancelled)" "executed ?p = executed p" for x
    by (simp_all add: p reported_def reported_ok_def)
  have "place_ok ?p"
  proof (rule place_okI)
    fix x
    show "before_run ?p x + tsum (holds x) (threads ?p) + after_run ?p x + reported ?p x = of_bool (x \<in> set (submitted ?p))"
      using place_okD [OF parts(1), of x] here unfolding b a o by (cases "x = w") simp_all
  qed
  moreover have "work_ok ?p" using parts(2) here(2) unfolding work_ok_def b a o by auto
  moreover have "executed_ok ?p" using parts(3) True here unfolding executed_ok_def a o by (auto split: if_splits)
  moreover have "counters_ok ?p" using parts(4) by (simp add: p counters_ok_def slow_work_thread_threshold_def)
  moreover have "message_ok ?p"
    using parts(5) by (auto simp: p message_ok_def count_remove1 in_set_remove1 dest: notin_set_remove1)
  moreover have "must_wait p \<longrightarrow> must_wait ?p" by (auto simp: p must_wait_def slow_work_thread_threshold_def)
  ultimately show ?thesis using ns by (auto simp: pool_core_def not_stalled_def o)
qed

lemma move_core:
  assumes core: "pool_core p" and "\<And>x. after_run p' x = after_run p x"
    and "p' = p\<lparr>loop_local := a, loop_wq := b\<rparr>"
  shows "pool_core p'"
proof -
  have o: "before_run p' x = before_run p x" "reported p' x = reported p x" "reported_ok p' x = reported_ok p x" "threads p' = threads p"
    "submitted p' = submitted p" "work p' = work p" "executed p' = executed p" for x
    using assms(3) by (simp_all add: place_defs)
  have "place_ok p' = place_ok p" "work_ok p' = work_ok p" "executed_ok p' = executed_ok p"
    unfolding place_ok_def work_ok_def executed_ok_def o assms(2) by (rule refl)+
  moreover have "counters_ok p' = counters_ok p" "message_ok p' = message_ok p"
    using core_cong [of p' p] assms(3) by simp_all
  ultimately show ?thesis using core by (simp add: pool_core_def)
qed

lemma deliver_core:
  assumes core: "pool_core p" and "loop_local p \<noteq> []"
  shows "pool_core (work_done_one p)"
proof -
  obtain w rest where l: "loop_local p = w # rest" using assms(2) by (cases "loop_local p") auto
  let ?p = "work_done_one p"
  have parts: "place_ok p" "work_ok p" "executed_ok p" using core by (simp_all add: pool_core_def)
  have p: "?p = p\<lparr>loop_local := rest,
      delivered := delivered p @ [(w, if work p w = Work_cancelled then Inl UV_ECANCELED else OK)]\<rparr>"
    using l by (simp add: work_done_one_def)
  have "0 < after_run p w" using l by (simp add: after_run_def)
  then have wf: "work p w \<noteq> Work_fun" using parts(2) unfolding work_ok_def by blast
  have o: "threads ?p = threads p" "before_run ?p x = before_run p x" "after_run p x = after_run ?p x + of_bool (x = w)"
    "reported ?p x = reported p x + of_bool (x = w)"
    "reported_ok ?p x = reported_ok p x + of_bool (x = w \<and> work p w = Work_NULL)"
    "submitted ?p = submitted p" "work ?p = work p" "executed ?p = executed p" for x
    using wf l by (auto simp: p place_defs) (metis work_fn.exhaust)
  have "place_ok ?p"
  proof (rule place_okI)
    fix x
    show "before_run ?p x + tsum (holds x) (threads ?p) + after_run ?p x + reported ?p x = of_bool (x \<in> set (submitted ?p))"
      using place_okD [OF parts(1), of x] o(3) [of x] unfolding o(1,2,4,6) by linarith
  qed
  moreover have "work_ok ?p" using parts(2) unfolding work_ok_def o(1,2,7) by (auto simp: o(3))
  moreover have "executed_ok ?p" using parts(3) unfolding executed_ok_def o(1,5,7,8) by (auto simp: o(3))
  moreover have "counters_ok ?p = counters_ok p" "message_ok ?p = message_ok p" using core_cong [of ?p p] by (simp_all add: p)
  ultimately show ?thesis using core by (simp add: pool_core_def)
qed

lemma same_queue_not_stalled: "wq p' = wq p \<Longrightarrow> threads p' = threads p \<Longrightarrow> slow_io_work_running p' = slow_io_work_running p \<Longrightarrow>
    not_stalled p \<Longrightarrow> not_stalled p'"
  by (simp add: not_stalled_def must_wait_def slow_work_thread_threshold_def)

lemma signalled: "pool_core p \<and> (sig \<or> not_stalled p) \<Longrightarrow> signal_if sig p p' \<Longrightarrow> pool_core p' \<and> not_stalled p'"
  using signal_core by (auto simp: signal_if_def split: if_splits)

lemma step_core:
  assumes "pool_step p p'" and "pool_core p \<and> not_stalled p"
  shows "pool_core p' \<and> not_stalled p'"
  using assms(1)
proof cases
  case (critical i p1 out p2 sig p3)
  then show ?thesis using critical_core signalled assms(2) by blast
next
  case (spurious i)
  then show ?thesis using spurious_core assms(2) by blast
next
  case (execute i w b)
  then show ?thesis using execute_core assms(2) by blast
next
  case (report i w b)
  then show ?thesis using report_core assms(2) by blast
next
  case (submit w kind sig p1)
  then show ?thesis using post_core signalled assms(2) by blast
next
  case (cancel w)
  then show ?thesis using cancel_core assms(2) by blast
next
  case drain
  have p': "p' = p\<lparr>loop_local := loop_wq p, loop_wq := []\<rparr>" using drain(1) by (simp add: work_done_begin_def)
  have "after_run p' x = after_run p x" for x using drain(2) by (simp add: p' after_run_def)
  then have "pool_core p'" using move_core [OF _ _ p'] assms(2) by blast
  moreover have "not_stalled p'"
    by (rule same_queue_not_stalled [of p' p]) (use drain(1) assms(2) in \<open>simp_all add: work_done_begin_def\<close>)
  ultimately show ?thesis by blast
next
  case deliver
  have "not_stalled p'"
    by (rule same_queue_not_stalled [of p' p]) (use deliver assms(2) in \<open>simp_all add: work_done_one_def split: list.splits\<close>)
  then show ?thesis using deliver_core deliver assms(2) by blast
next
  case (shutdown sig p1)
  then show ?thesis using shutdown_core signalled assms(2) by blast
qed

lemma init_nthreads_range: "1 \<le> unat (init_nthreads val mem) \<and> unat (init_nthreads val mem) \<le> 1024"
proof -
  have "init_nthreads val mem \<noteq> 0" "init_nthreads val mem \<le> 1024"
    by (auto simp: init_nthreads_def MAX_THREADPOOL_SIZE_def Let_def split: option.splits)
  then show ?thesis by (simp add: word_le_nat_alt Suc_le_eq unat_gt_0)
qed

lemma reachable_core:
  "pool_reachable val mem p \<Longrightarrow> pool_core p \<and> not_stalled p"
proof (induction rule: pool_reachable.induct)
  case start
  have z: "tsum f (replicate n Ready) = 0" if "f Ready = 0" for f and n :: nat using that by (induction n) auto
  have "pool_core (init_threads val mem)"
    by (simp add: init_threads_def pool_core_def core_defs place_defs z)
  then show ?case by (simp add: not_stalled_def must_wait_def init_threads_def)
next
  case (more p p')
  then show ?case using step_core by blast
qed

lemma has_done_le: "tsum (has_done x) ts \<le> tsum (holds x) ts"
proof (induction ts)
  case (Cons s ts)
  have "has_done x s \<le> holds x s" by (cases s) auto
  then show ?case using Cons by simp
qed simp

lemma count_filter_le: "count_list (map fst (filter P ds)) x \<le> count_list (map fst ds) x"
  by (induction ds) auto

lemma reported_ok_le: "reported_ok p x \<le> reported p x"
  unfolding reported_ok_def reported_def by (rule count_filter_le)

section \<open>Properties\<close>

text \<open>C21. No request is lost, run twice or reported twice, in any interleaving of workers,
  submissions and cancellations: each one not yet reported is queued or held by a worker, one
  reported as done has been run exactly once, one reported as cancelled has not been run, and no
  worker ever runs a cancelled request (which would abort the process).\<close>

theorem pool_work_once:
  assumes "pool_reachable val mem p"
  shows "distinct (executed p) \<and> distinct (map fst (delivered p)) \<and>
    (\<forall>w. (w, OK) \<in> set (delivered p) \<longrightarrow> w \<in> set (executed p)) \<and>
    (\<forall>w e. (w, Inl e) \<in> set (delivered p) \<longrightarrow> w \<notin> set (executed p)) \<and>
    (\<forall>w b. Running w b \<in> set (threads p) \<longrightarrow> work p w = Work_fun) \<and>
    (\<forall>w\<in>set (submitted p). w \<in> fst ` set (delivered p) \<or> queued w p \<or> (\<exists>s\<in>set (threads p). 0 < holds w s))"
proof -
  have core: "pool_core p" using reachable_core [OF assms] by blast
  then have parts: "place_ok p" "work_ok p" "executed_ok p" by (simp_all add: pool_core_def)
  have place: "before_run p x + tsum (holds x) (threads p) + after_run p x + reported p x \<le> 1" for x
    using place_okD [OF parts(1), of x] by (simp add: of_bool_def split: if_splits)
  have ex: "count_list (executed p) x = tsum (has_done x) (threads p) + (if work p x = Work_NULL then after_run p x else 0) + reported_ok p x" for x
    using parts(3) by (simp only: executed_ok_def)
  have "count_list (executed p) x \<le> 1" for x
    using ex [of x] place [of x] has_done_le [of x "threads p"] reported_ok_le [of p x] by (simp split: if_splits)
  then have "distinct (executed p)" by (simp add: distinct_counts)
  moreover have "count_list (map fst (delivered p)) x \<le> 1" for x using place [of x] unfolding reported_def by linarith
  then have "distinct (map fst (delivered p))" by (simp add: distinct_counts)
  moreover have "w \<in> set (executed p)" if "(w, OK) \<in> set (delivered p)" for w
  proof -
    have "0 < reported_ok p w" unfolding reported_ok_def count_pos using that by force
    then show ?thesis using ex [of w] unfolding count_pos [symmetric] by linarith
  qed
  moreover have "w \<notin> set (executed p)" if d: "(w, Inl e) \<in> set (delivered p)" for w e
  proof -
    have "0 < reported p w" unfolding reported_def count_pos using d by force
    then have z: "tsum (holds w) (threads p) = 0" "after_run p w = 0" using place [of w] by linarith+
    have "(w, OK) \<notin> set (delivered p)"
    proof
      assume "(w, OK) \<in> set (delivered p)"
      then show False using d \<open>distinct (map fst (delivered p))\<close> eq_key_imp_eq_value by fastforce
    qed
    then have r: "reported_ok p w = 0" unfolding reported_ok_def count_list_0_iff by auto
    have h: "tsum (has_done w) (threads p) = 0" using z(1) has_done_le [of w "threads p"] by linarith
    have "count_list (executed p) w = 0" unfolding ex r h z(2) by simp
    then show ?thesis by (simp add: count_list_0_iff)
  qed
  moreover have "work p w = Work_fun" if "Running w b \<in> set (threads p)" for w b
    using tsum_pos [of "holds w", OF _ that] parts(2) unfolding work_ok_def by simp
  moreover have "w \<in> fst ` set (delivered p) \<or> queued w p \<or> (\<exists>s\<in>set (threads p). 0 < holds w s)" if "w \<in> set (submitted p)" for w
  proof (rule ccontr)
    assume a: "\<not> ?thesis"
    have "tsum (holds w) (threads p) = 0" using a by (auto simp: tsum_zero)
    moreover have "before_run p w = 0" "after_run p w = 0" "reported p w = 0"
      using a by (auto simp: queued_def before_run_def after_run_def reported_def count_list_0_iff)
    moreover have "(of_bool (w \<in> set (submitted p)) :: nat) = 1" using that by simp
    ultimately show False using place_okD [OF parts(1), of w] by linarith
  qed
  ultimately show ?thesis by blast
qed

text \<open>A run in which request 7 is submitted and cancelled before a worker sees it.\<close>

lemma demo_pool:
  "\<exists>p. pool_reachable (Some 1) (\<lambda>_. True) p \<and> delivered p = [(7, Inl UV_ECANCELED)] \<and> submitted p = [7] \<and> threads p = [Ready]"
proof -
  let ?p0 = "init_threads (Some 1) (\<lambda>_. True)"
  have n: "init_nthreads (Some 1) (\<lambda>_. True) = 1" by (simp add: init_nthreads_def MAX_THREADPOOL_SIZE_def)
  define p1 where "p1 = ?p0\<lparr>work := (work ?p0)(7 := Work_fun), submitted := [7], wq := [Work 7]\<rparr>"
  have "pool_step ?p0 p1"
    by (rule pool_step.submit [of 7 _ UV__WORK_CPU False p1]) (simp_all add: p1_def init_threads_def uv__work_submit_def post_def signal_if_def)
  then have r1: "pool_reachable (Some 1) (\<lambda>_. True) p1" using pool_reachable.start pool_reachable.more by blast
  define p2 where "p2 = snd (uv__work_cancel 7 p1)"
  have "pool_step p1 p2" unfolding p2_def by (rule pool_step.cancel) (simp_all add: p1_def init_threads_def)
  then have r2: "pool_reachable (Some 1) (\<lambda>_. True) p2" using r1 pool_reachable.more by blast
  have f2: "loop_wq p2 = [7]" "loop_local p2 = []" "work p2 7 = Work_cancelled" "delivered p2 = []" "submitted p2 = [7]" "threads p2 = [Ready]"
    by (simp_all add: p2_def p1_def uv__work_cancel_def queued_def init_threads_def n)
  have "pool_step p2 (work_done_begin p2)" by (rule pool_step.drain) (simp add: f2)
  then have r3: "pool_reachable (Some 1) (\<lambda>_. True) (work_done_begin p2)" using r2 pool_reachable.more by blast
  have "pool_step (work_done_begin p2) (work_done_one (work_done_begin p2))"
    by (rule pool_step.deliver) (simp add: work_done_begin_def f2)
  then have "pool_reachable (Some 1) (\<lambda>_. True) (work_done_one (work_done_begin p2))" using r3 pool_reachable.more by blast
  moreover have "delivered (work_done_one (work_done_begin p2)) = [(7, Inl UV_ECANCELED)]"
    "submitted (work_done_one (work_done_begin p2)) = [7]" "threads (work_done_one (work_done_begin p2)) = [Ready]"
    by (simp_all add: work_done_one_def work_done_begin_def f2)
  ultimately show ?thesis by blast
qed

theorem pool_work_once_witness:
  "\<exists>p. pool_reachable (Some 1) (\<lambda>_. True) p \<and> (7, Inl UV_ECANCELED) \<in> set (delivered p) \<and> 7 \<notin> set (executed p)"
proof -
  obtain p where p: "pool_reachable (Some 1) (\<lambda>_. True) p" "delivered p = [(7, Inl UV_ECANCELED)]" using demo_pool by blast
  then have "7 \<notin> set (executed p)" using pool_work_once [OF p(1)] by auto
  then show ?thesis using p by auto
qed



end
