(* ===== verification/UV_Async.thy ===== *)
theory UV_Async
  imports UV_Core
begin

text \<open>
  Asynchronous handles: src/unix/async.c.  Any number of threads call \<open>uv_async_send\<close> while the
  loop's thread runs callbacks and closes handles; every atomic operation on the flags \<open>pending\<close>
  and \<open>busy\<close> and on the eventfd is a step of its own.  \<open>aw\<close> is the address of the loop's watcher
  of the eventfd; the descriptor that \<open>eventfd\<close> returns, or its error, is a parameter.
\<close>

section \<open>State and operations of the loop's thread\<close>

record async_loop = core_loop +
  async_handles :: "addr list"
  async_local :: "addr list"
  async_cb :: "addr \<Rightarrow> nat option"
  pending :: "addr \<Rightarrow> int"
  busy :: "addr \<Rightarrow> int"
  async_wfd :: int
  eventfd :: nat

definition uv__async_start :: "addr \<Rightarrow> int result \<Rightarrow> 'a async_loop_scheme \<Rightarrow> (ret \<times> 'a async_loop_scheme) option" where
  "uv__async_start aw efd l =
     (if io_fd (io l aw) \<noteq> - 1 then Some (OK, l)
      else case efd of
        Inl e \<Rightarrow> Some (Inl e, l)
      | Inr fd \<Rightarrow>
          Option.bind (uv__io_init aw 0 fd l) (\<lambda>l.
          Option.bind (uv__io_start aw POLLIN l) (\<lambda>l.
          Some (OK, l\<lparr>async_wfd := - 1, eventfd := 0\<rparr>))))"

definition uv_async_init ::
    "addr \<Rightarrow> int result \<Rightarrow> addr \<Rightarrow> nat option \<Rightarrow> 'a async_loop_scheme \<Rightarrow> (ret \<times> 'a async_loop_scheme) option" where
  "uv_async_init aw efd h cb l =
     Option.bind (uv__async_start aw efd l) (\<lambda>(err, l).
       if err \<noteq> OK then Some (err, l)
       else let l = uv__handle_init h UV_ASYNC l;
                l = l\<lparr>async_cb := (async_cb l)(h := cb), pending := (pending l)(h := 0), busy := (busy l)(h := 0),
                      async_handles := async_handles l @ [h]\<rparr>
            in Some (OK, uv__handle_start h l))"

text \<open>\<open>uv__async_close\<close> around its spin: the store before it, and what follows it.\<close>

definition async_spin_begin :: "addr \<Rightarrow> 'a async_loop_scheme \<Rightarrow> 'a async_loop_scheme" where
  "async_spin_begin h l = l\<lparr>pending := (pending l)(h := 1)\<rparr>"

definition async_close_end :: "addr \<Rightarrow> 'a async_loop_scheme \<Rightarrow> 'a async_loop_scheme" where
  "async_close_end h l =
     uv__handle_stop h (l\<lparr>async_handles := remove1 h (async_handles l), async_local := remove1 h (async_local l)\<rparr>)"

text \<open>\<open>uv__async_io\<close>: emptying the eventfd and moving the queue, then one handle.\<close>

definition async_io_begin :: "'a async_loop_scheme \<Rightarrow> 'a async_loop_scheme" where
  "async_io_begin l = l\<lparr>eventfd := 0, async_local := async_handles l, async_handles := []\<rparr>"

definition async_io_one :: "'a async_loop_scheme \<Rightarrow> (nat \<times> addr) option \<times> 'a async_loop_scheme" where
  "async_io_one l =
     (case async_local l of
        [] \<Rightarrow> (None, l)
      | h # rest \<Rightarrow>
          (let l = l\<lparr>async_local := rest, async_handles := async_handles l @ [h]\<rparr>;
               old = pending l h;
               l = l\<lparr>pending := (pending l)(h := 0)\<rparr>
           in if old = 0 then (None, l)
              else case async_cb l h of None \<Rightarrow> (None, l) | Some cb \<Rightarrow> (Some (cb, h), l)))"

text \<open>\<open>uv__async_stop\<close>, after its spins, and \<open>uv__async_fork\<close>.\<close>

definition async_stop_io :: "addr \<Rightarrow> 'a async_loop_scheme \<Rightarrow> 'a async_loop_scheme option" where
  "async_stop_io aw l =
     Option.bind (uv__io_stop aw POLLIN (l\<lparr>async_wfd := - 1\<rparr>)) (\<lambda>l.
       Some (set_io aw ((io l aw)\<lparr>io_fd := - 1\<rparr>) l))"

definition uv__async_stop :: "addr \<Rightarrow> 'a async_loop_scheme \<Rightarrow> 'a async_loop_scheme option" where
  "uv__async_stop aw l =
     (if io_fd (io l aw) = - 1 then Some l
      else async_stop_io aw (l\<lparr>pending := (\<lambda>h. if h \<in> set (async_handles l) then 1 else pending l h)\<rparr>))"

definition uv__async_fork :: "addr \<Rightarrow> int result \<Rightarrow> 'a async_loop_scheme \<Rightarrow> (ret \<times> 'a async_loop_scheme) option" where
  "uv__async_fork aw efd l =
     (if io_fd (io l aw) = - 1 then Some (OK, l)
      else Option.bind
             (async_stop_io aw (l\<lparr>pending := (\<lambda>h. if h \<in> set (async_handles l) then 0 else pending l h),
                                  busy := (\<lambda>h. if h \<in> set (async_handles l) then 0 else busy l h)\<rparr>))
             (uv__async_start aw efd))"

section \<open>Sending threads\<close>

text \<open>Where a thread is in \<open>uv_async_send\<close>: outside; past the cheap read; counted as busy; about to
  wake the loop; about to leave.\<close>

datatype sender = Outside | Checked addr | Busy addr | Waking addr | Leaving addr

fun send_step :: "addr \<Rightarrow> sender \<Rightarrow> 'a async_loop_scheme \<Rightarrow> sender \<times> 'a async_loop_scheme" where
  "send_step h Outside l = (if pending l h \<noteq> 0 then Outside else Checked h, l)"
| "send_step _ (Checked h) l = (Busy h, l\<lparr>busy := (busy l)(h := busy l h + 1)\<rparr>)"
| "send_step _ (Busy h) l = (if pending l h = 0 then Waking h else Leaving h, l\<lparr>pending := (pending l)(h := 1)\<rparr>)"
| "send_step _ (Waking h) l = (Leaving h, l\<lparr>eventfd := eventfd l + 1\<rparr>)"
| "send_step _ (Leaving h) l = (Outside, l\<lparr>busy := (busy l)(h := busy l h - 1)\<rparr>)"

section \<open>Interleavings\<close>

text \<open>The loop's thread polls, runs through the handles, or spins in a close (at either of them).\<close>

datatype loop_pc = Polling | Passing

record 'l async_system =
  loop :: 'l
  senders :: "sender list"
  pc :: loop_pc
  spinning :: "addr option"
  closed_handles :: "addr set"
  calls :: "(nat \<times> addr) list"

definition async_open :: "'a async_loop_scheme async_system \<Rightarrow> addr \<Rightarrow> bool" where
  "async_open s h \<longleftrightarrow> h \<in> set (async_handles (loop s)) \<union> set (async_local (loop s))"

inductive async_step :: "'a async_loop_scheme async_system \<Rightarrow> 'a async_loop_scheme async_system \<Rightarrow> bool" where
  send: "i < length (senders s) \<Longrightarrow> senders s ! i = Outside \<longrightarrow> async_open s h \<or> h \<in> closed_handles s \<Longrightarrow>
    send_step h (senders s ! i) (loop s) = (x, l) \<Longrightarrow>
    async_step s (s\<lparr>senders := (senders s)[i := x], loop := l\<rparr>)"
| io_begin: "pc s = Polling \<Longrightarrow> spinning s = None \<Longrightarrow> 0 < eventfd (loop s) \<Longrightarrow>
    async_step s (s\<lparr>loop := async_io_begin (loop s), pc := Passing\<rparr>)"
| io_one: "pc s = Passing \<Longrightarrow> spinning s = None \<Longrightarrow> async_local (loop s) \<noteq> [] \<Longrightarrow> async_io_one (loop s) = (c, l) \<Longrightarrow>
    async_step s (s\<lparr>loop := l, calls := calls s @ (case c of None \<Rightarrow> [] | Some x \<Rightarrow> [x])\<rparr>)"
| io_end: "pc s = Passing \<Longrightarrow> spinning s = None \<Longrightarrow> async_local (loop s) = [] \<Longrightarrow> async_step s (s\<lparr>pc := Polling\<rparr>)"
| close_begin: "spinning s = None \<Longrightarrow> async_open s h \<Longrightarrow>
    async_step s (s\<lparr>loop := async_spin_begin h (loop s), spinning := Some h\<rparr>)"
| close_end: "spinning s = Some h \<Longrightarrow> busy (loop s) h = 0 \<Longrightarrow>
    async_step s (s\<lparr>loop := async_close_end h (loop s), spinning := None, closed_handles := insert h (closed_handles s)\<rparr>)"

inductive async_reachable :: "'a async_loop_scheme async_system \<Rightarrow> 'a async_loop_scheme async_system \<Rightarrow> bool" for s0 where
  start: "async_reachable s0 s0"
| more: "async_reachable s0 s \<Longrightarrow> async_step s s' \<Longrightarrow> async_reachable s0 s'"

section \<open>The invariant\<close>

fun in_busy :: "addr \<Rightarrow> sender \<Rightarrow> nat" where
  "in_busy k (Busy h) = of_bool (h = k)"
| "in_busy k (Waking h) = of_bool (h = k)"
| "in_busy k (Leaving h) = of_bool (h = k)"
| "in_busy k _ = 0"

definition wake_coming :: "'a async_loop_scheme async_system \<Rightarrow> addr \<Rightarrow> bool" where
  "wake_coming s h \<longleftrightarrow> 0 < eventfd (loop s) \<or> h \<in> set (async_local (loop s)) \<or> Waking h \<in> set (senders s)"

definition busy_ok :: "'a async_loop_scheme async_system \<Rightarrow> bool" where
  "busy_ok s \<longleftrightarrow> (\<forall>h. busy (loop s) h = int (sum_list (map (in_busy h) (senders s))))"

definition wake_ok :: "'a async_loop_scheme async_system \<Rightarrow> bool" where
  "wake_ok s \<longleftrightarrow> (\<forall>h. async_open s h \<longrightarrow> pending (loop s) h \<noteq> 0 \<longrightarrow> spinning s \<noteq> Some h \<longrightarrow> wake_coming s h)"

definition closed_ok :: "'a async_loop_scheme async_system \<Rightarrow> bool" where
  "closed_ok s \<longleftrightarrow> (\<forall>h\<in>closed_handles s. \<not> async_open s h \<and> pending (loop s) h \<noteq> 0 \<and> Waking h \<notin> set (senders s))"

definition loop_ok :: "'a async_loop_scheme async_system \<Rightarrow> bool" where
  "loop_ok s \<longleftrightarrow> distinct (async_local (loop s) @ async_handles (loop s)) \<and> (pc s = Polling \<longrightarrow> async_local (loop s) = []) \<and>
     (\<forall>h. spinning s = Some h \<longrightarrow> pending (loop s) h \<noteq> 0 \<and> async_open s h)"

definition async_inv :: "'a async_loop_scheme async_system \<Rightarrow> bool" where
  "async_inv s \<longleftrightarrow> busy_ok s \<and> wake_ok s \<and> closed_ok s \<and> loop_ok s"

lemmas async_inv_defs = busy_ok_def wake_ok_def closed_ok_def loop_ok_def

lemma send_busy:
  assumes "busy_ok s" and "i < length (senders s)" and "send_step h (senders s ! i) (loop s) = (x, l)"
  shows "busy_ok (s\<lparr>senders := (senders s)[i := x], loop := l\<rparr>)"
proof -
  have "busy l k = int (sum_list (map (in_busy k) ((senders s)[i := x])))" for k
  proof -
    have "sum_list (map (in_busy k) ((senders s)[i := x])) + in_busy k (senders s ! i) =
        sum_list (map (in_busy k) (senders s)) + in_busy k x"
      by (rule map_sum_update [OF assms(2)])
    then have "int (sum_list (map (in_busy k) ((senders s)[i := x]))) =
        busy (loop s) k + int (in_busy k x) - int (in_busy k (senders s ! i))"
      using assms(1) unfolding busy_ok_def by (metis add_diff_cancel_right' of_nat_add)
    moreover have "busy l k = busy (loop s) k + int (in_busy k x) - int (in_busy k (senders s ! i))"
      using assms(3) by (cases "senders s ! i") (auto split: if_splits)
    ultimately show ?thesis by simp
  qed
  then show ?thesis by (simp add: busy_ok_def)
qed

lemma send_frame:
  assumes "send_step h x0 l0 = (x, l)"
  shows "async_handles l = async_handles l0" and "async_local l = async_local l0" and "eventfd l0 \<le> eventfd l"
    and "pending l0 k \<noteq> 0 \<Longrightarrow> pending l k \<noteq> 0"
    and "pending l0 k = 0 \<Longrightarrow> pending l k \<noteq> 0 \<Longrightarrow> x = Waking k"
    and "x = Waking k \<Longrightarrow> pending l0 k = 0 \<and> pending l k \<noteq> 0"
    and "x0 = Waking k \<Longrightarrow> 0 < eventfd l"
  using assms by (cases x0; auto split: if_splits)+

lemma send_inv:
  assumes "async_inv s" and i: "i < length (senders s)" and st: "send_step h (senders s ! i) (loop s) = (x, l)"
  shows "async_inv (s\<lparr>senders := (senders s)[i := x], loop := l\<rparr>)" (is "async_inv ?s")
proof -
  note f = send_frame [OF st]
  have inv: "busy_ok s" "wake_ok s" "closed_ok s" "loop_ok s" using assms(1) by (simp_all add: async_inv_def)
  have op: "async_open ?s k = async_open s k" for k by (simp add: async_open_def f(1,2))
  have xin: "x \<in> set (senders ?s)" using i by (simp add: set_update_memI)
  have keep: "Waking k \<in> set (senders ?s) \<or> 0 < eventfd l" if w: "Waking k \<in> set (senders s)" for k
  proof -
    obtain j where j: "j < length (senders s)" "senders s ! j = Waking k" using w unfolding in_set_conv_nth by blast
    show ?thesis
    proof (cases "j = i")
      case True
      then show ?thesis using f(7) [of k] j(2) by simp
    next
      case False
      then have "senders ?s ! j = Waking k" "j < length (senders ?s)" using j by simp_all
      then show ?thesis using nth_mem by metis
    qed
  qed
  have "wake_coming ?s k" if o: "async_open s k" and p: "pending l k \<noteq> 0" and sp: "spinning s \<noteq> Some k" for k
  proof (cases "pending (loop s) k = 0")
    case True
    then have "x = Waking k" using f(5) p by blast
    then show ?thesis using xin by (simp add: wake_coming_def)
  next
    case False
    then have "wake_coming s k" using inv(2) o sp by (simp add: wake_ok_def)
    then show ?thesis using keep [of k] f(2,3) by (auto simp: wake_coming_def)
  qed
  then have "wake_ok ?s" unfolding wake_ok_def op by simp
  moreover have "closed_ok ?s"
  proof -
    have "Waking k \<notin> set (senders ?s)" if "k \<in> closed_handles s" for k
    proof
      assume "Waking k \<in> set (senders ?s)"
      then have "Waking k \<in> set (senders s) \<or> x = Waking k" using set_update_subset_insert [of "senders s" i x] by auto
      then show False using inv(3) f(6) [of k] that by (auto simp: closed_ok_def)
    qed
    then show ?thesis using inv(3) f(4) unfolding closed_ok_def op by simp
  qed
  moreover have "loop_ok ?s" using inv(4) f(1,2,4) unfolding loop_ok_def op by simp
  ultimately show ?thesis using send_busy [OF inv(1) i st] by (simp add: async_inv_def)
qed

lemma close_end_fields [simp]:
  "async_handles (async_close_end h l) = remove1 h (async_handles l)" "async_local (async_close_end h l) = remove1 h (async_local l)"
  "pending (async_close_end h l) = pending l" "busy (async_close_end h l) = busy l" "eventfd (async_close_end h l) = eventfd l"
  by (simp_all add: async_close_end_def handle_defs Let_def)

lemma async_step_inv:
  assumes "async_step s s'" and "async_inv s"
  shows "async_inv s'"
  using assms(1)
proof cases
  case (send i h x l)
  then show ?thesis using send_inv assms(2) by blast
next
  case io_begin
  then show ?thesis using assms(2)
    by (auto simp: async_inv_def async_inv_defs async_io_begin_def async_open_def wake_coming_def)
next
  case (io_one c l)
  obtain h rest where q: "async_local (loop s) = h # rest" using io_one(4) by (cases "async_local (loop s)") auto
  have l: "async_local l = rest" "async_handles l = async_handles (loop s) @ [h]" "pending l = (pending (loop s))(h := 0)"
    "busy l = busy (loop s)" "eventfd l = eventfd (loop s)"
    using io_one(5) q by (auto simp: async_io_one_def Let_def split: if_splits option.splits)
  show ?thesis using assms(2) q io_one(2,3)
    by (auto simp: io_one(1) async_inv_def async_inv_defs async_open_def wake_coming_def l)
next
  case io_end
  then show ?thesis using assms(2)
    by (auto simp: async_inv_def async_inv_defs async_open_def wake_coming_def)
next
  case (close_begin h)
  have o: "async_open s' k = async_open s k" "wake_coming s' k = wake_coming s k" for k
    by (simp_all add: close_begin(1) async_open_def wake_coming_def async_spin_begin_def)
  show ?thesis using assms(2) close_begin(2,3)
    unfolding async_inv_def async_inv_defs o by (auto simp: close_begin(1) async_spin_begin_def)
next
  case (close_end h)
  have inv: "busy_ok s" "wake_ok s" "closed_ok s" "loop_ok s" using assms(2) by (simp_all add: async_inv_def)
  have d: "distinct (async_local (loop s) @ async_handles (loop s))" using inv(4) by (simp add: loop_ok_def)
  have o: "async_open s' k \<longleftrightarrow> async_open s k \<and> k \<noteq> h" for k
    using d by (auto simp: close_end(1) async_open_def)
  have nw: "Waking h \<notin> set (senders s)"
  proof
    assume "Waking h \<in> set (senders s)"
    then have "0 < sum_list (map (in_busy h) (senders s))" by (intro map_sum_pos [of _ "Waking h"]) simp_all
    moreover have "int (sum_list (map (in_busy h) (senders s))) = 0"
      using inv(1) close_end(3) unfolding busy_ok_def by metis
    ultimately show False by linarith
  qed
  have "busy_ok s'" using inv(1) by (simp add: busy_ok_def close_end(1))
  moreover have "wake_ok s'" using inv(2) close_end(2) d unfolding wake_ok_def o by (auto simp: close_end(1) wake_coming_def)
  moreover have "closed_ok s'" using inv(3,4) nw close_end(2) unfolding closed_ok_def o by (auto simp: close_end(1) loop_ok_def)
  moreover have "loop_ok s'" using inv(4) d by (auto simp: loop_ok_def close_end(1) dest: notin_set_remove1)
  ultimately show ?thesis by (simp add: async_inv_def)
qed

section \<open>No wake-up is lost\<close>

definition async_initial :: "'a async_loop_scheme async_system \<Rightarrow> bool" where
  "async_initial s \<longleftrightarrow> distinct (async_handles (loop s)) \<and> async_local (loop s) = [] \<and> eventfd (loop s) = 0 \<and>
     pending (loop s) = (\<lambda>_. 0) \<and> busy (loop s) = (\<lambda>_. 0) \<and> set (senders s) \<subseteq> {Outside} \<and>
     pc s = Polling \<and> spinning s = None \<and> closed_handles s = {} \<and> calls s = []"

lemma async_initial_inv: "async_initial s \<Longrightarrow> async_inv s"
proof -
  assume a: "async_initial s"
  have "map (in_busy h) (senders s) = map (\<lambda>_. 0) (senders s)" for h
    using a by (intro map_cong) (auto simp: async_initial_def)
  then have "sum_list (map (in_busy h) (senders s)) = 0" for h by (metis sum_list_0)
  then have "busy_ok s" using a by (simp add: busy_ok_def async_initial_def)
  then show ?thesis using a by (auto simp: async_inv_def wake_ok_def closed_ok_def loop_ok_def async_initial_def)
qed

lemma async_reachable_inv: "async_reachable s0 s \<Longrightarrow> async_inv s0 \<Longrightarrow> async_inv s"
  by (induction rule: async_reachable.induct) (auto intro: async_step_inv)

text \<open>One step of the loop's thread runs at most one callback: of a handle that is open, whose flag
  was set and is cleared before the callback is called.\<close>

definition one_call :: "'a async_loop_scheme async_system \<Rightarrow> 'a async_loop_scheme async_system \<Rightarrow> bool" where
  "one_call s s' \<longleftrightarrow> calls s' = calls s \<or>
     (\<exists>cb h. calls s' = calls s @ [(cb, h)] \<and> async_cb (loop s) h = Some cb \<and> async_open s h \<and> h \<notin> closed_handles s \<and>
        pending (loop s) h \<noteq> 0 \<and> pending (loop s') h = 0)"

lemma async_step_calls:
  assumes "async_step s s'" and "async_inv s"
  shows "one_call s s'"
  using assms(1)
proof cases
  case (io_one c l)
  obtain h rest where q: "async_local (loop s) = h # rest" using io_one(4) by (cases "async_local (loop s)") auto
  then have o: "async_open s h" by (simp add: async_open_def)
  then have "h \<notin> closed_handles s" using assms(2) by (auto simp: async_inv_def closed_ok_def)
  then show ?thesis using io_one(1,5) q o by (auto simp: one_call_def async_io_one_def Let_def split: if_splits option.splits)
qed (simp_all add: one_call_def)

text \<open>C23. No wake-up is lost, whatever the interleaving of the sending threads with the loop: a handle
  whose flag is set and that is not being closed has its wake-up on the way (the eventfd is readable, the
  handle is in the pass that is under way, or a thread is about to write).  After a close no thread writes
  for the handle any more, and no callback of it runs; a callback runs only with the flag set, and the
  flag is cleared before it, so a send during the callback counts again.\<close>

theorem async_no_lost_wakeup:
  assumes "async_initial s0" and "async_reachable s0 s"
  shows "(\<forall>h. async_open s h \<longrightarrow> pending (loop s) h \<noteq> 0 \<longrightarrow> spinning s \<noteq> Some h \<longrightarrow>
      0 < eventfd (loop s) \<or> h \<in> set (async_local (loop s)) \<or> Waking h \<in> set (senders s)) \<and>
    (\<forall>h\<in>closed_handles s. \<not> async_open s h \<and> pending (loop s) h \<noteq> 0 \<and> Waking h \<notin> set (senders s)) \<and>
    (\<forall>s'. async_step s s' \<longrightarrow> one_call s s')"
proof -
  have i: "async_inv s" using async_reachable_inv async_initial_inv assms by blast
  then have "\<forall>s'. async_step s s' \<longrightarrow> one_call s s'" using async_step_calls by blast
  then show ?thesis using i by (auto simp: async_inv_def wake_ok_def wake_coming_def closed_ok_def)
qed

theorem async_no_lost_wakeup_witness:
  "\<exists>(s0 :: async_loop async_system) s. async_initial s0 \<and> async_reachable s0 s \<and> pending (loop s) 1 \<noteq> 0 \<and> async_open s 1 \<and>
     (0 < eventfd (loop s) \<or> 1 \<in> set (async_local (loop s)) \<or> Waking 1 \<in> set (senders s))"
proof -
  fix l0 :: async_loop
  define l where "l = l0\<lparr>async_handles := [1], async_local := [], pending := (\<lambda>_. 0), busy := (\<lambda>_. 0), eventfd := 0\<rparr>"
  define s0 where "s0 = \<lparr>loop = l, senders = [Outside, Outside], pc = Polling, spinning = None, closed_handles = {}, calls = []\<rparr>"
  define s1 where "s1 = s0\<lparr>senders := [Checked 1, Outside]\<rparr>"
  define s2 where "s2 = s1\<lparr>senders := [Busy 1, Outside], loop := l\<lparr>busy := (busy l)(1 := 1)\<rparr>\<rparr>"
  define s3 where "s3 = s2\<lparr>senders := [Waking 1, Outside], loop := (loop s2)\<lparr>pending := (pending l)(1 := 1)\<rparr>\<rparr>"
  have i: "async_initial s0" by (simp add: async_initial_def s0_def l_def)
  have o: "async_open s0 1" by (simp add: async_open_def s0_def l_def)
  have "async_step s0 s1"
    using async_step.send [of 0 s0 1 "Checked 1" l] o by (simp add: s0_def s1_def l_def)
  moreover have "async_step s1 s2"
    using async_step.send [of 0 s1 1 "Busy 1" "loop s2"] by (simp add: s0_def s1_def s2_def l_def)
  moreover have "async_step s2 s3"
    using async_step.send [of 0 s2 1 "Waking 1" "loop s3"] by (simp add: s0_def s1_def s2_def s3_def l_def)
  ultimately have r: "async_reachable s0 s3" by (meson async_reachable.intros)
  have f: "async_open s3 1" "pending (loop s3) 1 \<noteq> 0" "spinning s3 \<noteq> Some 1"
    by (simp_all add: s3_def s2_def s1_def s0_def l_def async_open_def)
  show ?thesis using async_no_lost_wakeup [OF i r] i r f by blast
qed

end
