(* ===== verification/UV_Stream.thy ===== *)
theory UV_Stream
  imports UV_Async
begin

text \<open>
  Streams: src/unix/stream.c without the parts for macOS, Cygwin and z/OS.  A request is an address.
  The kernel's answers are parameters, numbered by the field \<open>sys\<close>, which counts the system calls; a
  request's data are the bytes of its buffers.  The fields \<open>wire\<close> (what the kernel took from each
  stream, by whom), \<open>submitted\<close>, \<open>called\<close> and \<open>fd_log\<close> (the descriptors closed) are a
  record of what happened; no operation reads them.
\<close>

section \<open>State\<close>

definition UV_HANDLE_SHUT :: u32 where "UV_HANDLE_SHUT = 0x200"
definition UV_HANDLE_READ_PARTIAL :: u32 where "UV_HANDLE_READ_PARTIAL = 0x400"
definition UV_HANDLE_READ_EOF :: u32 where "UV_HANDLE_READ_EOF = 0x800"
definition UV_HANDLE_READING :: u32 where "UV_HANDLE_READING = 0x1000"
definition UV_HANDLE_BOUND :: u32 where "UV_HANDLE_BOUND = 0x2000"
definition UV_HANDLE_READABLE :: u32 where "UV_HANDLE_READABLE = 0x4000"
definition UV_HANDLE_WRITABLE :: u32 where "UV_HANDLE_WRITABLE = 0x8000"
definition UV_HANDLE_BLOCKING_WRITES :: u32 where "UV_HANDLE_BLOCKING_WRITES = 0x100000"

text \<open>A write, connect or shutdown request; \<open>bufs\<close> is \<open>None\<close> once the array is freed.\<close>

record uv_request =
  r_handle :: addr
  r_cb :: "nat option"
  r_error :: ret
  r_send :: "addr option"
  r_bufs :: "u8 list list option"
  r_index :: nat

record stream_loop = async_loop +
  req :: "addr \<Rightarrow> uv_request"
  write_queue :: "addr \<Rightarrow> addr list"
  write_completed :: "addr \<Rightarrow> addr list"
  write_local :: "addr \<Rightarrow> addr list"
  write_size :: "addr \<Rightarrow> u64"
  connect_req :: "addr \<Rightarrow> addr option"
  shutdown_req :: "addr \<Rightarrow> addr option"
  read_cb :: "addr \<Rightarrow> nat option"
  alloc_cb :: "addr \<Rightarrow> nat option"
  connection_cb :: "addr \<Rightarrow> nat option"
  delayed_error :: "addr \<Rightarrow> uv_errno option"
  accepted_fd :: "addr \<Rightarrow> int"
  queued_fds :: "addr \<Rightarrow> (nat \<times> int list) option"
  pipe_ipc :: "addr \<Rightarrow> bool"
  emfile_fd :: int
  sys :: nat
  wire :: "addr \<Rightarrow> (addr option \<times> u8 list) list"
  submitted :: "addr \<Rightarrow> (addr \<times> u8 list) list"
  called :: "addr \<Rightarrow> (addr \<times> ret) list"
  fd_log :: "int list"

text \<open>What the kernel and the callbacks do.  A message carries bytes and control messages; a control
  message carries descriptors or is of another kind (\<open>None\<close>).\<close>

datatype connect_state = EINPROGRESS | Settled ret

record 'l stream_env =
  iovmax :: nat
  sys_write :: "nat \<Rightarrow> int \<Rightarrow> u8 list list \<Rightarrow> int option \<Rightarrow> nat result"
  sys_read :: "nat \<Rightarrow> int \<Rightarrow> nat \<Rightarrow> (u8 list \<times> int list option list) result"
  sys_shutdown :: "nat \<Rightarrow> int \<Rightarrow> ret"
  sys_accept :: "nat \<Rightarrow> int \<Rightarrow> int result"
  sys_open :: "nat \<Rightarrow> int result"
  sys_so_error :: "nat \<Rightarrow> int \<Rightarrow> connect_state"
  on_req :: "nat \<Rightarrow> addr \<Rightarrow> ret \<Rightarrow> 'l \<Rightarrow> 'l option"
  on_alloc :: "nat \<Rightarrow> addr \<Rightarrow> nat \<Rightarrow> 'l \<Rightarrow> (nat \<times> 'l) option"
  on_read :: "nat \<Rightarrow> addr \<Rightarrow> u8 list result \<Rightarrow> 'l \<Rightarrow> 'l option"
  on_connection :: "nat \<Rightarrow> addr \<Rightarrow> 'l \<Rightarrow> 'l option"

definition STREAM_IO :: nat where "STREAM_IO = 2"
definition SERVER_IO :: nat where "SERVER_IO = 3"

definition stream_fd :: "addr \<Rightarrow> 'a stream_loop_scheme \<Rightarrow> int" where
  "stream_fd h l = io_fd (io l h)"

definition set_req :: "addr \<Rightarrow> uv_request \<Rightarrow> 'a stream_loop_scheme \<Rightarrow> 'a stream_loop_scheme" where
  "set_req r x l = l\<lparr>req := (req l)(r := x)\<rparr>"

definition flag_on :: "addr \<Rightarrow> u32 \<Rightarrow> 'a uv_loop_scheme \<Rightarrow> 'a uv_loop_scheme" where
  "flag_on h m l = set_flags h (add_flag (h_flags l h) m) l"

definition flag_off :: "addr \<Rightarrow> u32 \<Rightarrow> 'a uv_loop_scheme \<Rightarrow> 'a uv_loop_scheme" where
  "flag_off h m l = set_flags h (del_flag (h_flags l h) m) l"

definition flagged :: "addr \<Rightarrow> u32 \<Rightarrow> 'a uv_loop_scheme \<Rightarrow> bool" where
  "flagged h m l \<longleftrightarrow> has_flag (h_flags l h) m"

definition uv__close_fd :: "int \<Rightarrow> 'a stream_loop_scheme \<Rightarrow> 'a stream_loop_scheme" where
  "uv__close_fd fd l = l\<lparr>fd_log := fd_log l @ [fd]\<rparr>"

text \<open>The loops \<open>do ... while (r == -1 && errno == EINTR)\<close>.\<close>

partial_function (option) eintr :: "(nat \<Rightarrow> 'r result) \<Rightarrow> nat \<Rightarrow> ('r result \<times> nat) option" where
  "eintr f k =
     (case f k of
        Inl e \<Rightarrow> (if e = UV_EINTR then eintr f (k + 1) else Some (Inl e, k + 1))
      | Inr x \<Rightarrow> Some (Inr x, k + 1))"

declare eintr.simps [code]

section \<open>Set-up\<close>

definition uv__stream_init :: "('a stream_loop_scheme) stream_env \<Rightarrow> addr \<Rightarrow> uv_handle_type \<Rightarrow>
    'a stream_loop_scheme \<Rightarrow> 'a stream_loop_scheme option" where
  "uv__stream_init E h t l =
     (let l = uv__handle_init h t l;
          l = l\<lparr>read_cb := (read_cb l)(h := None), alloc_cb := (alloc_cb l)(h := None),
                h_close_cb := (h_close_cb l)(h := None), connection_cb := (connection_cb l)(h := None),
                connect_req := (connect_req l)(h := None), shutdown_req := (shutdown_req l)(h := None),
                accepted_fd := (accepted_fd l)(h := - 1), queued_fds := (queued_fds l)(h := None),
                delayed_error := (delayed_error l)(h := None), write_queue := (write_queue l)(h := []),
                write_completed := (write_completed l)(h := []), write_size := (write_size l)(h := 0),
                wire := (wire l)(h := []), submitted := (submitted l)(h := []), called := (called l)(h := [])\<rparr>;
          l = (if emfile_fd l = - 1 then
                 (case sys_open E (sys l) of
                    Inr fd \<Rightarrow> l\<lparr>emfile_fd := fd, sys := sys l + 1\<rparr>
                  | Inl _ \<Rightarrow>
                      (case sys_open E (sys l + 1) of
                         Inr fd \<Rightarrow> l\<lparr>emfile_fd := fd, sys := sys l + 2\<rparr>
                       | Inl _ \<Rightarrow> l\<lparr>sys := sys l + 2\<rparr>))
               else l)
      in uv__io_init h STREAM_IO (- 1) l)"

text \<open>\<open>opts\<close> is the result of setting the options of a TCP socket.\<close>

definition uv__stream_open :: "ret \<Rightarrow> addr \<Rightarrow> int \<Rightarrow> u32 \<Rightarrow> 'a stream_loop_scheme \<Rightarrow>
    (ret \<times> 'a stream_loop_scheme) option" where
  "uv__stream_open opts h fd flags l =
     (if \<not> (stream_fd h l = - 1 \<or> stream_fd h l = fd) then Some (Inl UV_EBUSY, l)
      else if fd < 0 then None
      else let l = flag_on h flags l
           in if h_type l h = UV_TCP \<and> opts \<noteq> OK then Some (opts, l)
              else Some (OK, set_io h ((io l h)\<lparr>io_fd := fd\<rparr>) l))"

section \<open>Writing\<close>

definition uv__count_bufs :: "u8 list list \<Rightarrow> u64" where
  "uv__count_bufs bufs = foldl (\<lambda>bytes b. bytes + of_nat (length b)) 0 bufs"

definition uv__handle_fd :: "addr \<Rightarrow> 'a stream_loop_scheme \<Rightarrow> int" where
  "uv__handle_fd h l = (if h_type l h \<in> {UV_NAMED_PIPE, UV_TCP, UV_UDP} then io_fd (io l h) else - 1)"

definition uv__write_req_size :: "addr \<Rightarrow> 'a stream_loop_scheme \<Rightarrow> u64 option" where
  "uv__write_req_size r l =
     (case r_bufs (req l r) of
        None \<Rightarrow> None
      | Some bufs \<Rightarrow>
          (let size = uv__count_bufs (drop (r_index (req l r)) bufs)
           in if write_size l (r_handle (req l r)) \<ge> size then Some size else None))"

text \<open>The loop of \<open>uv__write_req_update\<close>: the number of buffers it moves past, and the buffers;
  \<open>None\<close> is an access behind the array.\<close>

fun advance :: "nat \<Rightarrow> u8 list list \<Rightarrow> (nat \<times> u8 list list) option" where
  "advance n [] = None"
| "advance n (buf # bufs) =
     (let len = min n (length buf);
          buf = drop len buf;
          n = n - len
      in if n > 0 then Option.bind (advance n bufs) (\<lambda>(k, bufs). Some ((if buf = [] then 1 else 0) + k, buf # bufs))
         else Some (if buf = [] then 1 else 0, buf # bufs))"

definition uv__write_req_update :: "addr \<Rightarrow> addr \<Rightarrow> nat \<Rightarrow> 'a stream_loop_scheme \<Rightarrow> (bool \<times> 'a stream_loop_scheme) option" where
  "uv__write_req_update h r n l =
     (if of_nat n > write_size l h then None
      else do {
        bufs \<leftarrow> r_bufs (req l r);
        let i = r_index (req l r);
        (k, rest) \<leftarrow> advance n (drop i bufs);
        let l = l\<lparr>write_size := (write_size l)(h := write_size l h - of_nat n)\<rparr>;
        Some (i + k = length bufs,
              set_req r ((req l r)\<lparr>r_bufs := Some (take i bufs @ rest), r_index := i + k\<rparr>) l)
      })"

definition uv__write_req_finish :: "addr \<Rightarrow> 'a stream_loop_scheme \<Rightarrow> 'a stream_loop_scheme" where
  "uv__write_req_finish r l =
     (let h = r_handle (req l r);
          l = l\<lparr>write_queue := (write_queue l)(h := remove1 r (write_queue l h))\<rparr>;
          l = (if r_error (req l r) = OK then set_req r ((req l r)\<lparr>r_bufs := None\<rparr>) l else l);
          l = l\<lparr>write_completed := (write_completed l)(h := write_completed l h @ [r])\<rparr>
      in uv__io_feed h l)"

text \<open>The end of \<open>uv__try_write\<close>; the bytes the kernel took are recorded.\<close>

definition wrote :: "addr option \<Rightarrow> addr \<Rightarrow> u8 list list \<Rightarrow> nat result \<Rightarrow> 'a stream_loop_scheme \<Rightarrow> nat result \<times> 'a stream_loop_scheme" where
  "wrote who h iov n l =
     (case n of
        Inr n \<Rightarrow> (Inr n, l\<lparr>wire := (wire l)(h := wire l h @ [(who, take n (concat iov))])\<rparr>)
      | Inl e \<Rightarrow> (Inl (if e = UV_EAGAIN \<or> e = UV_ENOBUFS then UV_EAGAIN else e), l))"

text \<open>\<open>who\<close> is the request that is written, if there is one; it is only recorded.\<close>

definition uv__try_write :: "('a stream_loop_scheme) stream_env \<Rightarrow> addr option \<Rightarrow> addr \<Rightarrow> u8 list list \<Rightarrow> addr option \<Rightarrow>
    'a stream_loop_scheme \<Rightarrow> (nat result \<times> 'a stream_loop_scheme) option" where
  "uv__try_write E who h bufs send_handle l =
     (let iov = take (iovmax E) bufs
      in case send_handle of
           Some s \<Rightarrow>
             (if uv__is_closing s l then Some (Inl UV_EBADF, l)
              else if uv__handle_fd s l < 0 then None
              else do {
                (n, k) \<leftarrow> eintr (\<lambda>k. sys_write E k (stream_fd h l) iov (Some (uv__handle_fd s l))) (sys l);
                Some (wrote who h iov n (l\<lparr>sys := k\<rparr>))
              })
         | None \<Rightarrow> do {
                (n, k) \<leftarrow> eintr (\<lambda>k. sys_write E k (stream_fd h l) iov None) (sys l);
                Some (wrote who h iov n (l\<lparr>sys := k\<rparr>))
              })"

partial_function (option) uv__write_loop :: "('a stream_loop_scheme) stream_env \<Rightarrow> addr \<Rightarrow> nat \<Rightarrow>
    'a stream_loop_scheme \<Rightarrow> 'a stream_loop_scheme option" where
  "uv__write_loop E h budget l =
     (case write_queue l h of
        [] \<Rightarrow> Some l
      | r # _ \<Rightarrow>
          if r_handle (req l r) \<noteq> h then None
          else Option.bind (r_bufs (req l r)) (\<lambda>bufs.
            Option.bind (uv__try_write E (Some r) h (drop (r_index (req l r)) bufs) (r_send (req l r)) l) (\<lambda>(n, l).
              case n of
                Inr n \<Rightarrow>
                  (let l = set_req r ((req l r)\<lparr>r_send := None\<rparr>) l
                   in Option.bind (uv__write_req_update h r n l) (\<lambda>(finished, l).
                        if finished then
                          (let l = uv__write_req_finish r l in if budget > 0 then uv__write_loop E h (budget - 1) l else Some l)
                        else if flagged h UV_HANDLE_BLOCKING_WRITES l then uv__write_loop E h budget l
                        else uv__io_start h POLLOUT l))
              | Inl e \<Rightarrow>
                  if e = UV_EAGAIN then
                    (if flagged h UV_HANDLE_BLOCKING_WRITES l then uv__write_loop E h budget l
                     else uv__io_start h POLLOUT l)
                  else
                    (let l = set_req r ((req l r)\<lparr>r_error := Inl e\<rparr>) l
                     in uv__io_stop h POLLOUT (uv__write_req_finish r l)))))"

declare uv__write_loop.simps [code]

definition uv__write :: "('a stream_loop_scheme) stream_env \<Rightarrow> addr \<Rightarrow> 'a stream_loop_scheme \<Rightarrow> 'a stream_loop_scheme option" where
  "uv__write E h l = (if stream_fd h l < 0 then None else uv__write_loop E h 32 l)"

text \<open>\<open>uv__write_callbacks\<close>; the queue on its stack is \<open>write_local\<close>.\<close>

definition write_done :: "addr \<Rightarrow> 'a stream_loop_scheme \<Rightarrow> 'a stream_loop_scheme option" where
  "write_done r l = do {
     l \<leftarrow> uv__req_unregister l;
     (if r_bufs (req l r) = None then Some l
      else do {
        size \<leftarrow> uv__write_req_size r l;
        let h = r_handle (req l r);
        Some (set_req r ((req l r)\<lparr>r_bufs := None\<rparr>) (l\<lparr>write_size := (write_size l)(h := write_size l h - size)\<rparr>))
      })
   }"

definition call_req :: "('a stream_loop_scheme) stream_env \<Rightarrow> addr \<Rightarrow> ret \<Rightarrow> 'a stream_loop_scheme \<Rightarrow> 'a stream_loop_scheme option" where
  "call_req E r status l = (case r_cb (req l r) of None \<Rightarrow> Some l | Some cb \<Rightarrow> on_req E cb r status l)"

partial_function (option) write_callbacks_loop :: "('a stream_loop_scheme) stream_env \<Rightarrow> addr \<Rightarrow> 'a stream_loop_scheme \<Rightarrow>
    'a stream_loop_scheme option" where
  "write_callbacks_loop E h l =
     (case write_local l h of
        [] \<Rightarrow> Some l
      | r # rest \<Rightarrow>
          (let l = l\<lparr>write_local := (write_local l)(h := rest)\<rparr>
           in Option.bind (write_done r l) (\<lambda>l.
              Option.bind (call_req E r (r_error (req l r)) (l\<lparr>called := (called l)(h := called l h @ [(r, r_error (req l r))])\<rparr>)) (\<lambda>l.
              write_callbacks_loop E h l))))"

declare write_callbacks_loop.simps [code]

definition uv__write_callbacks :: "('a stream_loop_scheme) stream_env \<Rightarrow> addr \<Rightarrow> 'a stream_loop_scheme \<Rightarrow>
    'a stream_loop_scheme option" where
  "uv__write_callbacks E h l =
     (if write_completed l h = [] then Some l
      else write_callbacks_loop E h
             (l\<lparr>write_local := (write_local l)(h := write_completed l h), write_completed := (write_completed l)(h := [])\<rparr>))"

definition uv__check_before_write :: "addr \<Rightarrow> nat \<Rightarrow> addr option \<Rightarrow> 'a stream_loop_scheme \<Rightarrow> ret option" where
  "uv__check_before_write h nbufs send_handle l =
     (if nbufs = 0 \<or> h_type l h \<notin> {UV_TCP, UV_NAMED_PIPE, UV_TTY} then None
      else Some (
        if stream_fd h l < 0 then Inl UV_EBADF
        else if \<not> flagged h UV_HANDLE_WRITABLE l then Inl UV_EPIPE
        else case send_handle of
               None \<Rightarrow> OK
             | Some s \<Rightarrow>
                 (if h_type l h \<noteq> UV_NAMED_PIPE \<or> \<not> pipe_ipc l h then Inl UV_EINVAL
                  else if uv__handle_fd s l < 0 then Inl UV_EBADF
                  else OK)))"

definition uv_write2 :: "('a stream_loop_scheme) stream_env \<Rightarrow> addr \<Rightarrow> addr \<Rightarrow> u8 list list \<Rightarrow> addr option \<Rightarrow> nat option \<Rightarrow>
    'a stream_loop_scheme \<Rightarrow> (ret \<times> 'a stream_loop_scheme) option" where
  "uv_write2 E r h bufs send_handle cb l = do {
     err \<leftarrow> uv__check_before_write h (length bufs) send_handle l;
     if err \<noteq> OK then Some (err, l)
     else do {
       let empty_queue = (write_size l h = 0);
       let l = uv__req_register l;
       let l = set_req r \<lparr>r_handle = h, r_cb = cb, r_error = OK, r_send = send_handle, r_bufs = None, r_index = r_index (req l r)\<rparr> l;
       if length bufs > 4 \<and> \<not> mem_ok l (length bufs * 16) then Some (Inl UV_ENOMEM, l)
       else do {
         let l = set_req r ((req l r)\<lparr>r_bufs := Some bufs, r_index := 0\<rparr>) l;
         let l = l\<lparr>write_size := (write_size l)(h := write_size l h + uv__count_bufs bufs),
                   write_queue := (write_queue l)(h := write_queue l h @ [r]),
                   submitted := (submitted l)(h := submitted l h @ [(r, concat bufs)])\<rparr>;
         if connect_req l h \<noteq> None then Some (OK, l)
         else if empty_queue then map_option (Pair OK) (uv__write E h l)
         else if flagged h UV_HANDLE_BLOCKING_WRITES l then None
         else map_option (Pair OK) (uv__io_start h POLLOUT l)
       }
     }
   }"

definition uv_write :: "('a stream_loop_scheme) stream_env \<Rightarrow> addr \<Rightarrow> addr \<Rightarrow> u8 list list \<Rightarrow> nat option \<Rightarrow>
    'a stream_loop_scheme \<Rightarrow> (ret \<times> 'a stream_loop_scheme) option" where
  "uv_write E r h bufs cb l = uv_write2 E r h bufs None cb l"

definition uv_try_write2 :: "('a stream_loop_scheme) stream_env \<Rightarrow> addr \<Rightarrow> u8 list list \<Rightarrow> addr option \<Rightarrow>
    'a stream_loop_scheme \<Rightarrow> (nat result \<times> 'a stream_loop_scheme) option" where
  "uv_try_write2 E h bufs send_handle l =
     (if connect_req l h \<noteq> None \<or> write_size l h \<noteq> 0 then Some (Inl UV_EAGAIN, l)
      else do {
        err \<leftarrow> uv__check_before_write h (length bufs) None l;
        case err of Inl e \<Rightarrow> Some (Inl e, l) | Inr _ \<Rightarrow> uv__try_write E None h bufs send_handle l
      })"

definition uv_try_write :: "('a stream_loop_scheme) stream_env \<Rightarrow> addr \<Rightarrow> u8 list list \<Rightarrow>
    'a stream_loop_scheme \<Rightarrow> (nat result \<times> 'a stream_loop_scheme) option" where
  "uv_try_write E h bufs l = uv_try_write2 E h bufs None l"

section \<open>Shutting down and connecting\<close>

definition uv_shutdown :: "addr \<Rightarrow> addr \<Rightarrow> nat option \<Rightarrow> 'a stream_loop_scheme \<Rightarrow> (ret \<times> 'a stream_loop_scheme) option" where
  "uv_shutdown r h cb l =
     (if h_type l h \<notin> {UV_TCP, UV_TTY, UV_NAMED_PIPE} then None
      else if \<not> flagged h UV_HANDLE_WRITABLE l \<or> flagged h UV_HANDLE_SHUT l \<or> shutdown_req l h \<noteq> None \<or> uv__is_closing h l
      then Some (Inl UV_ENOTCONN, l)
      else if stream_fd h l < 0 then None
      else let l = uv__req_register l;
               l = set_req r ((req l r)\<lparr>r_handle := h, r_cb := cb\<rparr>) (l\<lparr>shutdown_req := (shutdown_req l)(h := Some r)\<rparr>);
               l = flag_off h UV_HANDLE_WRITABLE l
           in Some (OK, if write_queue l h = [] then uv__io_feed h l else l))"

definition uv__drain :: "('a stream_loop_scheme) stream_env \<Rightarrow> addr \<Rightarrow> 'a stream_loop_scheme \<Rightarrow> 'a stream_loop_scheme option" where
  "uv__drain E h l =
     (if write_queue l h \<noteq> [] then None
      else do {
        l \<leftarrow> (if flagged h UV_HANDLE_CLOSING l then Some l else uv__io_stop h POLLOUT l);
        case shutdown_req l h of
          None \<Rightarrow> Some l
        | Some r \<Rightarrow>
            (if flagged h UV_HANDLE_CLOSING l \<or> \<not> flagged h UV_HANDLE_SHUT l then do {
               l \<leftarrow> uv__req_unregister (l\<lparr>shutdown_req := (shutdown_req l)(h := None)\<rparr>);
               let (err, l) =
                 (if flagged h UV_HANDLE_CLOSING l then (Inl UV_ECANCELED, l)
                  else let err = sys_shutdown E (sys l) (stream_fd h l);
                           l = l\<lparr>sys := sys l + 1\<rparr>
                       in (err, if err = OK then flag_on h UV_HANDLE_SHUT l else l));
               call_req E r err l
             } else Some l)
      })"

fun flush_loop :: "addr \<Rightarrow> ret \<Rightarrow> addr list \<Rightarrow> 'a stream_loop_scheme \<Rightarrow> 'a stream_loop_scheme" where
  "flush_loop h error [] l = l"
| "flush_loop h error (r # q) l =
     (let l = l\<lparr>write_queue := (write_queue l)(h := q)\<rparr>;
          l = set_req r ((req l r)\<lparr>r_error := error\<rparr>) l
      in flush_loop h error q (l\<lparr>write_completed := (write_completed l)(h := write_completed l h @ [r])\<rparr>))"

definition uv__stream_flush_write_queue :: "addr \<Rightarrow> ret \<Rightarrow> 'a stream_loop_scheme \<Rightarrow> 'a stream_loop_scheme" where
  "uv__stream_flush_write_queue h error l = flush_loop h error (write_queue l h) l"

definition uv__stream_connect :: "('a stream_loop_scheme) stream_env \<Rightarrow> addr \<Rightarrow> 'a stream_loop_scheme \<Rightarrow> 'a stream_loop_scheme option" where
  "uv__stream_connect E h l =
     (if h_type l h \<notin> {UV_TCP, UV_NAMED_PIPE} then None
      else do {
        r \<leftarrow> connect_req l h;
        (error, l) \<leftarrow>
          (case delayed_error l h of
             Some e \<Rightarrow> Some (Settled (Inl e), l\<lparr>delayed_error := (delayed_error l)(h := None)\<rparr>)
           | None \<Rightarrow> if stream_fd h l < 0 then None else Some (sys_so_error E (sys l) (stream_fd h l), l\<lparr>sys := sys l + 1\<rparr>));
        case error of
          EINPROGRESS \<Rightarrow> Some l
        | Settled err \<Rightarrow> do {
            l \<leftarrow> uv__req_unregister (l\<lparr>connect_req := (connect_req l)(h := None)\<rparr>);
            l \<leftarrow> (if err \<noteq> OK \<or> write_queue l h = [] then uv__io_stop h POLLOUT l else Some l);
            l \<leftarrow> call_req E r err l;
            if stream_fd h l = - 1 then Some l
            else if err \<noteq> OK then uv__write_callbacks E h (uv__stream_flush_write_queue h (Inl UV_ECANCELED) l)
            else Some l
          }
      })"

section \<open>Reading\<close>

definition call_read :: "('a stream_loop_scheme) stream_env \<Rightarrow> addr \<Rightarrow> u8 list result \<Rightarrow> 'a stream_loop_scheme \<Rightarrow>
    'a stream_loop_scheme option" where
  "call_read E h nread l = Option.bind (read_cb l h) (\<lambda>cb. on_read E cb h nread l)"

definition stop_reading :: "addr \<Rightarrow> 'a stream_loop_scheme \<Rightarrow> 'a stream_loop_scheme option" where
  "stop_reading h l =
     Option.bind (uv__io_stop h POLLIN (flag_off h UV_HANDLE_READING l)) (\<lambda>l. Some (uv__handle_stop h l))"

definition uv__stream_eof :: "('a stream_loop_scheme) stream_env \<Rightarrow> addr \<Rightarrow> 'a stream_loop_scheme \<Rightarrow> 'a stream_loop_scheme option" where
  "uv__stream_eof E h l =
     Option.bind (stop_reading h (flag_on h UV_HANDLE_READ_EOF l)) (call_read E h (Inl UV_EOF))"

text \<open>The sizes are those of the structure of two counters and an array of ints.\<close>

definition uv__stream_queue_fd :: "addr \<Rightarrow> int \<Rightarrow> 'a stream_loop_scheme \<Rightarrow> ret \<times> 'a stream_loop_scheme" where
  "uv__stream_queue_fd h fd l =
     (case queued_fds l h of
        None \<Rightarrow>
          (if \<not> mem_ok l ((8 - 1) * 4 + 12) then (Inl UV_ENOMEM, l)
           else (OK, l\<lparr>queued_fds := (queued_fds l)(h := Some (8, [fd]))\<rparr>))
      | Some (room, fds) \<Rightarrow>
          (if room = length fds then
             (if \<not> mem_ok l ((room + 8 - 1) * 4 + 12) then (Inl UV_ENOMEM, l)
              else (OK, l\<lparr>queued_fds := (queued_fds l)(h := Some (room + 8, fds @ [fd]))\<rparr>))
           else (OK, l\<lparr>queued_fds := (queued_fds l)(h := Some (room, fds @ [fd]))\<rparr>)))"

text \<open>The descriptors of one control message; after a failure the loop \<open>Close rest\<close> closes the
  descriptor it could not queue once for itself and once for each one behind it.\<close>

fun recv_fds :: "addr \<Rightarrow> int list \<Rightarrow> 'a stream_loop_scheme \<Rightarrow> ret \<times> 'a stream_loop_scheme" where
  "recv_fds h [] l = (OK, l)"
| "recv_fds h (fd # fds) l =
     (if accepted_fd l h \<noteq> - 1 then
        (case uv__stream_queue_fd h fd l of
           (Inl e, l) \<Rightarrow> (Inl e, fold (\<lambda>_. uv__close_fd fd) (fd # fds) l)
         | (Inr _, l) \<Rightarrow> recv_fds h fds l)
      else recv_fds h fds (l\<lparr>accepted_fd := (accepted_fd l)(h := fd)\<rparr>))"

fun uv__stream_recv_cmsg :: "addr \<Rightarrow> int list option list \<Rightarrow> 'a stream_loop_scheme \<Rightarrow> ret \<times> 'a stream_loop_scheme" where
  "uv__stream_recv_cmsg h [] l = (OK, l)"
| "uv__stream_recv_cmsg h (None # msgs) l = uv__stream_recv_cmsg h msgs l"
| "uv__stream_recv_cmsg h (Some fds # msgs) l =
     (case recv_fds h fds l of
        (Inl e, l) \<Rightarrow> (Inl e, l)
      | (Inr _, l) \<Rightarrow> uv__stream_recv_cmsg h msgs l)"

fun read_loop :: "('a stream_loop_scheme) stream_env \<Rightarrow> addr \<Rightarrow> nat \<Rightarrow> 'a stream_loop_scheme \<Rightarrow> 'a stream_loop_scheme option" where
  "read_loop E h 0 l = Some l"
| "read_loop E h (Suc n) l =
     (if read_cb l h = None \<or> \<not> flagged h UV_HANDLE_READING l then Some l
      else do {
        cb \<leftarrow> alloc_cb l h;
        (len, l) \<leftarrow> on_alloc E cb h (64 * 1024) l;
        if len = 0 then call_read E h (Inl UV_ENOBUFS) l
        else if stream_fd h l < 0 then None
        else do {
          (answer, k) \<leftarrow> eintr (\<lambda>k. sys_read E k (stream_fd h l) len) (sys l);
          let l = l\<lparr>sys := k\<rparr>;
          case answer of
            Inl e \<Rightarrow>
              (if e = UV_EAGAIN then do {
                 l \<leftarrow> (if flagged h UV_HANDLE_READING l then uv__io_start h POLLIN l else Some l);
                 call_read E h (Inr []) l
               }
               else do {
                 l \<leftarrow> call_read E h (Inl e) (flag_off h (or UV_HANDLE_READABLE UV_HANDLE_WRITABLE) l);
                 if flagged h UV_HANDLE_READING l then stop_reading h l else Some l
               })
          | Inr (bytes, cmsgs) \<Rightarrow>
              (if bytes = [] then uv__stream_eof E h l
               else
                 (case (if h_type l h = UV_NAMED_PIPE \<and> pipe_ipc l h then uv__stream_recv_cmsg h cmsgs l else (OK, l)) of
                    (Inl e, l) \<Rightarrow> call_read E h (Inl e) l
                  | (Inr _, l) \<Rightarrow> do {
                      l \<leftarrow> call_read E h (Inr bytes) l;
                      if length bytes < len then Some (flag_on h UV_HANDLE_READ_PARTIAL l) else read_loop E h n l
                    }))
        }
      })"

definition uv__read :: "('a stream_loop_scheme) stream_env \<Rightarrow> addr \<Rightarrow> 'a stream_loop_scheme \<Rightarrow> 'a stream_loop_scheme option" where
  "uv__read E h l = read_loop E h 32 (flag_off h UV_HANDLE_READ_PARTIAL l)"

definition uv__read_start :: "addr \<Rightarrow> nat option \<Rightarrow> nat option \<Rightarrow> 'a stream_loop_scheme \<Rightarrow> (ret \<times> 'a stream_loop_scheme) option" where
  "uv__read_start h acb rcb l =
     (if h_type l h \<notin> {UV_TCP, UV_NAMED_PIPE, UV_TTY} \<or> stream_fd h l < 0 \<or> acb = None then None
      else let l = flag_off h UV_HANDLE_READ_EOF (flag_on h UV_HANDLE_READING l);
               l = l\<lparr>read_cb := (read_cb l)(h := rcb), alloc_cb := (alloc_cb l)(h := acb)\<rparr>
           in Option.bind (uv__io_start h POLLIN l) (\<lambda>l. Some (OK, uv__handle_start h l)))"

definition uv_read_start :: "addr \<Rightarrow> nat option \<Rightarrow> nat option \<Rightarrow> 'a stream_loop_scheme \<Rightarrow> (ret \<times> 'a stream_loop_scheme) option" where
  "uv_read_start h acb rcb l =
     (if acb = None \<or> rcb = None then Some (Inl UV_EINVAL, l)
      else if flagged h UV_HANDLE_CLOSING l then Some (Inl UV_EINVAL, l)
      else if flagged h UV_HANDLE_READING l then Some (Inl UV_EALREADY, l)
      else if \<not> flagged h UV_HANDLE_READABLE l then Some (Inl UV_ENOTCONN, l)
      else uv__read_start h acb rcb l)"

definition uv_read_stop :: "addr \<Rightarrow> 'a stream_loop_scheme \<Rightarrow> 'a stream_loop_scheme option" where
  "uv_read_stop h l =
     (if \<not> flagged h UV_HANDLE_READING l then Some l
      else Option.bind (stop_reading h l) (\<lambda>l.
             Some (l\<lparr>read_cb := (read_cb l)(h := None), alloc_cb := (alloc_cb l)(h := None)\<rparr>)))"

definition uv_is_readable :: "addr \<Rightarrow> 'a stream_loop_scheme \<Rightarrow> bool" where
  "uv_is_readable h l \<longleftrightarrow> flagged h UV_HANDLE_READABLE l"

definition uv_is_writable :: "addr \<Rightarrow> 'a stream_loop_scheme \<Rightarrow> bool" where
  "uv_is_writable h l \<longleftrightarrow> flagged h UV_HANDLE_WRITABLE l"

section \<open>Listening and accepting\<close>

definition uv__accept :: "('a stream_loop_scheme) stream_env \<Rightarrow> int \<Rightarrow> 'a stream_loop_scheme \<Rightarrow>
    (int result \<times> 'a stream_loop_scheme) option" where
  "uv__accept E sockfd l =
     (if sockfd < 0 then None
      else Option.bind (eintr (\<lambda>k. sys_accept E k sockfd) (sys l)) (\<lambda>(r, k). Some (r, l\<lparr>sys := k\<rparr>)))"

partial_function (option) emfile_loop :: "('a stream_loop_scheme) stream_env \<Rightarrow> int \<Rightarrow> 'a stream_loop_scheme \<Rightarrow>
    (uv_errno \<times> 'a stream_loop_scheme) option" where
  "emfile_loop E accept_fd l =
     Option.bind (uv__accept E accept_fd l) (\<lambda>(r, l).
       case r of
         Inr fd \<Rightarrow> emfile_loop E accept_fd (uv__close_fd fd l)
       | Inl e \<Rightarrow> (if e = UV_EINTR then emfile_loop E accept_fd l else Some (e, l)))"

declare emfile_loop.simps [code]

definition uv__emfile_trick :: "('a stream_loop_scheme) stream_env \<Rightarrow> int \<Rightarrow> 'a stream_loop_scheme \<Rightarrow>
    (uv_errno \<times> 'a stream_loop_scheme) option" where
  "uv__emfile_trick E accept_fd l =
     (if emfile_fd l = - 1 then Some (UV_EMFILE, l)
      else do {
        (err, l) \<leftarrow> emfile_loop E accept_fd ((uv__close_fd (emfile_fd l) l)\<lparr>emfile_fd := - 1\<rparr>);
        Some (err, case sys_open E (sys l) of
                     Inr fd \<Rightarrow> l\<lparr>emfile_fd := fd, sys := sys l + 1\<rparr>
                   | Inl _ \<Rightarrow> l\<lparr>sys := sys l + 1\<rparr>)
      })"

definition uv__server_io :: "('a stream_loop_scheme) stream_env \<Rightarrow> addr \<Rightarrow> u32 \<Rightarrow> 'a stream_loop_scheme \<Rightarrow>
    'a stream_loop_scheme option" where
  "uv__server_io E h events l =
     (if \<not> has_flag events POLLIN \<or> accepted_fd l h \<noteq> - 1 \<or> flagged h UV_HANDLE_CLOSING l then None
      else do {
        (r, l) \<leftarrow> uv__accept E (stream_fd h l) l;
        (r, l) \<leftarrow> (if r = Inl UV_EMFILE \<or> r = Inl UV_ENFILE
                   then map_option (\<lambda>(e, l). (Inl e, l)) (uv__emfile_trick E (stream_fd h l) l) else Some (r, l));
        case r of
          Inl _ \<Rightarrow> Some l
        | Inr fd \<Rightarrow> do {
            cb \<leftarrow> connection_cb l h;
            l \<leftarrow> on_connection E cb h (l\<lparr>accepted_fd := (accepted_fd l)(h := fd)\<rparr>);
            if accepted_fd l h \<noteq> - 1 then uv__io_stop h POLLIN l else Some l
          }
      })"

text \<open>\<open>uv_accept\<close> takes the next of the queued descriptors.\<close>

definition next_queued :: "addr \<Rightarrow> ret \<Rightarrow> 'a stream_loop_scheme \<Rightarrow> (ret \<times> 'a stream_loop_scheme) option" where
  "next_queued server err l =
     (case queued_fds l server of
        Some (room, fd # fds) \<Rightarrow>
          Some (err, l\<lparr>accepted_fd := (accepted_fd l)(server := fd),
                       queued_fds := (queued_fds l)(server := (if fds = [] then None else Some (room, fds)))\<rparr>)
      | Some (room, []) \<Rightarrow> None
      | None \<Rightarrow>
          (let l = l\<lparr>accepted_fd := (accepted_fd l)(server := - 1)\<rparr>
           in if err = OK then map_option (Pair err) (uv__io_start server POLLIN l) else Some (err, l)))"

text \<open>\<open>opts\<close> is the result of setting the client's options, \<open>udp_open\<close> is \<open>uv_udp_open\<close>.\<close>

definition uv_accept :: "ret \<Rightarrow> (addr \<Rightarrow> int \<Rightarrow> 'a stream_loop_scheme \<Rightarrow> (ret \<times> 'a stream_loop_scheme) option) \<Rightarrow>
    addr \<Rightarrow> addr \<Rightarrow> 'a stream_loop_scheme \<Rightarrow> (ret \<times> 'a stream_loop_scheme) option" where
  "uv_accept opts udp_open server client l =
     (if accepted_fd l server = - 1 then Some (Inl UV_EAGAIN, l)
      else if h_type l client \<in> {UV_NAMED_PIPE, UV_TCP, UV_UDP} then do {
        (err, l) \<leftarrow>
          (if h_type l client = UV_UDP then udp_open client (accepted_fd l server) l
           else uv__stream_open opts client (accepted_fd l server) (or UV_HANDLE_READABLE UV_HANDLE_WRITABLE) l);
        next_queued server err
          (if err \<noteq> OK then uv__close_fd (accepted_fd l server) l else flag_on client UV_HANDLE_BOUND l)
      }
      else Some (Inl UV_EINVAL, l))"

text \<open>\<open>lsn\<close> is the type's own listening function.\<close>

definition uv_listen :: "(addr \<Rightarrow> nat option \<Rightarrow> 'a stream_loop_scheme \<Rightarrow> (ret \<times> 'a stream_loop_scheme) option) \<Rightarrow>
    addr \<Rightarrow> nat option \<Rightarrow> 'a stream_loop_scheme \<Rightarrow> (ret \<times> 'a stream_loop_scheme) option" where
  "uv_listen lsn h cb l =
     (if uv__is_closing h l then Some (Inl UV_EINVAL, l)
      else do {
        (err, l) \<leftarrow> (if h_type l h \<in> {UV_TCP, UV_NAMED_PIPE} then lsn h cb l else Some (Inl UV_EINVAL, l));
        Some (err, if err = OK then uv__handle_start h l else l)
      })"

section \<open>Events\<close>

definition uv__stream_io :: "('a stream_loop_scheme) stream_env \<Rightarrow> addr \<Rightarrow> u32 \<Rightarrow> 'a stream_loop_scheme \<Rightarrow>
    'a stream_loop_scheme option" where
  "uv__stream_io E h events l =
     (if h_type l h \<notin> {UV_TCP, UV_NAMED_PIPE, UV_TTY} \<or> flagged h UV_HANDLE_CLOSING l then None
      else if connect_req l h \<noteq> None then uv__stream_connect E h l
      else if stream_fd h l < 0 then None
      else do {
        l \<leftarrow> (if has_flag events (or (or POLLIN POLLERR) POLLHUP) then uv__read E h l else Some l);
        if stream_fd h l = - 1 then Some l
        else do {
          l \<leftarrow> (if has_flag events POLLHUP \<and> flagged h UV_HANDLE_READING l \<and> flagged h UV_HANDLE_READ_PARTIAL l \<and>
                  \<not> flagged h UV_HANDLE_READ_EOF l then uv__stream_eof E h l else Some l);
          if stream_fd h l = - 1 then Some l
          else if has_flag events (or (or POLLOUT POLLERR) POLLHUP) then do {
            l \<leftarrow> uv__write E h l;
            l \<leftarrow> uv__write_callbacks E h l;
            if write_queue l h = [] then uv__drain E h l else Some l
          }
          else Some l
        }
      })"

section \<open>Closing\<close>

definition uv__stream_close :: "addr \<Rightarrow> 'a stream_loop_scheme \<Rightarrow> 'a stream_loop_scheme option" where
  "uv__stream_close h l = do {
     l \<leftarrow> uv__io_close h l;
     l \<leftarrow> uv_read_stop h l;
     let l = uv__handle_stop h l;
     let l = flag_off h (or UV_HANDLE_READABLE UV_HANDLE_WRITABLE) l;
     let fd = io_fd (io l h);
     let l = (if fd \<noteq> - 1 then set_io h ((io l h)\<lparr>io_fd := - 1\<rparr>) (if fd > 2 then uv__close_fd fd l else l) else l);
     let l = (if accepted_fd l h \<noteq> - 1
              then (uv__close_fd (accepted_fd l h) l)\<lparr>accepted_fd := (accepted_fd l)(h := - 1)\<rparr> else l);
     let l = (case queued_fds l h of
                None \<Rightarrow> l
              | Some (_, fds) \<Rightarrow> (fold uv__close_fd fds l)\<lparr>queued_fds := (queued_fds l)(h := None)\<rparr>);
     act \<leftarrow> uv__io_active h (or POLLIN POLLOUT) l;
     if act then None else Some l
   }"

definition uv__tcp_close :: "addr \<Rightarrow> 'a stream_loop_scheme \<Rightarrow> 'a stream_loop_scheme option" where
  "uv__tcp_close h l = uv__stream_close h l"

text \<open>The cases of \<open>uv_close\<close> for streams.  A pipe with a name in the file system removes the name before.\<close>

definition close_stream :: "uv_handle_type \<Rightarrow> addr \<Rightarrow> 'a stream_loop_scheme \<Rightarrow> 'a stream_loop_scheme option" where
  "close_stream t h l =
     (if t = UV_NAMED_PIPE \<or> t = UV_TTY then uv__stream_close h l else if t = UV_TCP then uv__tcp_close h l else None)"

definition uv__stream_destroy :: "('a stream_loop_scheme) stream_env \<Rightarrow> addr \<Rightarrow> 'a stream_loop_scheme \<Rightarrow>
    'a stream_loop_scheme option" where
  "uv__stream_destroy E h l = do {
     act \<leftarrow> uv__io_active h (or POLLIN POLLOUT) l;
     if act \<or> \<not> flagged h UV_HANDLE_CLOSED l then None
     else do {
       l \<leftarrow> (case connect_req l h of
               None \<Rightarrow> Some l
             | Some r \<Rightarrow> do {
                 l \<leftarrow> uv__req_unregister l;
                 l \<leftarrow> call_req E r (Inl UV_ECANCELED) l;
                 Some (l\<lparr>connect_req := (connect_req l)(h := None)\<rparr>)
               });
       l \<leftarrow> uv__write_callbacks E h (uv__stream_flush_write_queue h (Inl UV_ECANCELED) l);
       l \<leftarrow> uv__drain E h l;
       if write_size l h = 0 then Some l else None
     }
   }"

definition destroy_stream :: "('a stream_loop_scheme) stream_env \<Rightarrow> uv_handle_type \<Rightarrow> addr \<Rightarrow> 'a stream_loop_scheme \<Rightarrow>
    'a stream_loop_scheme option" where
  "destroy_stream E t h l = (if t \<in> {UV_NAMED_PIPE, UV_TCP, UV_TTY} then uv__stream_destroy E h l else None)"

end
