(* ===== verification/UV_Stream_Inv.thy ===== *)
theory UV_Stream_Inv
  imports UV_Stream
begin

text \<open>
  What holds of the streams of a loop at all times, whatever the client and the kernel do: the
  invariant of \<open>UV_Stream\<close>, and that every operation keeps it and never fails.
\<close>

section \<open>Arrays of buffers\<close>

lemma advance_ok:
  assumes "bufs \<noteq> []" and "n \<le> length (concat bufs)"
  shows "\<exists>k rest. advance n bufs = Some (k, rest) \<and> k \<le> length bufs \<and> length rest = length bufs \<and>
    concat (drop k rest) = drop n (concat bufs)"
  using assms
proof (induction bufs arbitrary: n)
  case (Cons b bs)
  show ?case
  proof (cases "n \<le> length b")
    case True
    then show ?thesis by (auto simp: Let_def)
  next
    case False
    then have "n - length b \<le> length (concat bs)" "bs \<noteq> []" using Cons.prems by auto
    then obtain k rest where "advance (n - length b) bs = Some (k, rest)" "k \<le> length bs" "length rest = length bs"
      "concat (drop k rest) = drop (n - length b) (concat bs)" using Cons.IH by blast
    then show ?thesis using False by (auto simp: Let_def min_def)
  qed
qed simp

lemma advance_unfinished:
  assumes "advance n bufs = Some (k, rest)" and "k \<noteq> length bufs" and "length rest = length bufs" and "k \<le> length bufs"
  shows "k < length rest"
  using assms by simp

lemma count_bufs: "uv__count_bufs bufs = of_nat (length (concat bufs))"
proof -
  have "foldl (\<lambda>bytes b. bytes + of_nat (length b)) (of_nat n) bufs = (of_nat (n + length (concat bufs)) :: u64)" for n
  proof (induction bufs arbitrary: n)
    case (Cons b bs)
    show ?case using Cons [of "n + length b"] by (simp add: ac_simps)
  qed simp
  from this [of 0] show ?thesis by (simp add: uv__count_bufs_def)
qed

section \<open>Interrupted system calls\<close>

definition uninterrupted :: "(nat \<Rightarrow> 'r result) \<Rightarrow> bool" where
  "uninterrupted f \<longleftrightarrow> (\<forall>k. \<exists>j\<ge>k. f j \<noteq> Inl UV_EINTR)"

lemma eintr_returns:
  assumes "uninterrupted f"
  shows "\<exists>j\<ge>k. eintr f k = Some (f j, j + 1) \<and> f j \<noteq> Inl UV_EINTR"
proof -
  obtain m where m: "m \<ge> k" "f m \<noteq> Inl UV_EINTR" using assms by (auto simp: uninterrupted_def)
  then show ?thesis
  proof (induction "m - k" arbitrary: k)
    case 0
    then have "m = k" by simp
    then show ?case using 0 by (subst eintr.simps) (auto split: sum.splits intro!: exI [of _ k])
  next
    case (Suc d)
    show ?case
    proof (cases "f k = Inl UV_EINTR")
      case True
      have "d = m - (k + 1)" "k + 1 \<le> m" using Suc(2,3) by simp_all
      then obtain j where "j \<ge> k + 1" "eintr f (k + 1) = Some (f j, j + 1)" "f j \<noteq> Inl UV_EINTR"
        using Suc(1) Suc.prems(2) by blast
      then show ?thesis using True by (subst eintr.simps) (auto intro!: exI [of _ j])
    qed (subst eintr.simps, auto split: sum.splits intro!: exI [of _ k])
  qed
qed

section \<open>Frames\<close>

text \<open>An operation on a watcher changes the watcher fields of the loop only.\<close>

definition io_only :: "'a io_loop_scheme \<Rightarrow> 'a io_loop_scheme \<Rightarrow> bool" where
  "io_only l l' \<longleftrightarrow> l' = l\<lparr>watchers := watchers l', nwatchers := nwatchers l', nfds := nfds l', io := io l',
     watcher_queue := watcher_queue l', pending_queue := pending_queue l', pending_local := pending_local l',
     kernel := kernel l', inv := inv l'\<rparr>"

lemma io_start_only: "uv__io_start w e l = Some l' \<Longrightarrow> io_only l l'"
  by (auto simp: io_only_def uv__io_start_def maybe_resize_def set_io_def Let_def split: if_splits)

lemma io_stop_only: "uv__io_stop w e l = Some l' \<Longrightarrow> io_only l l'"
  by (auto simp: io_only_def uv__io_stop_def set_io_def Let_def split: if_splits)

lemma io_feed_only: "io_only l (uv__io_feed w l)"
  by (auto simp: io_only_def uv__io_feed_def)

lemma io_only_trans: "io_only a b \<Longrightarrow> io_only b c \<Longrightarrow> io_only a c"
  unfolding io_only_def by (erule ssubst [of c], erule ssubst [of b]) simp

section \<open>The invariant\<close>

definition streams :: "'a stream_loop_scheme \<Rightarrow> addr set" where
  "streams l = {h \<in> set (handle_queue l). h_type l h \<in> {UV_TCP, UV_NAMED_PIPE, UV_TTY}}"

text \<open>The write requests of a stream in the order of their submission, all its requests, and the
  bytes of a request that are not written.  The connect request of a closed handle is counted out
  before its callback.\<close>

definition out :: "'a stream_loop_scheme \<Rightarrow> addr \<Rightarrow> addr list" where
  "out l h = write_local l h @ write_completed l h @ write_queue l h"

definition connecting :: "'a stream_loop_scheme \<Rightarrow> addr \<Rightarrow> addr option" where
  "connecting l h = (if closed l h then None else connect_req l h)"

definition owned :: "'a stream_loop_scheme \<Rightarrow> addr \<Rightarrow> addr set" where
  "owned l h = set (out l h) \<union> set_option (connecting l h) \<union> set_option (shutdown_req l h)"

definition live_reqs :: "'a stream_loop_scheme \<Rightarrow> addr set" where
  "live_reqs l = (\<Union>h\<in>streams l. owned l h)"

definition unsent :: "'a stream_loop_scheme \<Rightarrow> addr \<Rightarrow> u8 list" where
  "unsent l r = (case r_bufs (req l r) of None \<Rightarrow> [] | Some bufs \<Rightarrow> concat (drop (r_index (req l r)) bufs))"

definition reqs_ok :: "'a stream_loop_scheme \<Rightarrow> addr \<Rightarrow> bool" where
  "reqs_ok l h \<longleftrightarrow> distinct (out l h) \<and>
     set (out l h) \<inter> set_option (connecting l h) = {} \<and> set (out l h) \<inter> set_option (shutdown_req l h) = {} \<and>
     set_option (connecting l h) \<inter> set_option (shutdown_req l h) = {} \<and>
     (\<forall>r\<in>owned l h. r_handle (req l r) = h) \<and>
     (\<forall>r\<in>set (write_queue l h). r_error (req l r) = OK \<and> r_send (req l r) = None \<and>
        (\<exists>bufs. r_bufs (req l r) = Some bufs \<and> r_index (req l r) < length bufs))"

definition size_ok :: "'a stream_loop_scheme \<Rightarrow> addr \<Rightarrow> bool" where
  "size_ok l h \<longleftrightarrow> write_size l h = of_nat (length (concat (map (unsent l) (out l h)))) \<and>
     length (concat (map (unsent l) (out l h))) < 2 ^ 64"

definition fifo_ok :: "'a stream_loop_scheme \<Rightarrow> addr \<Rightarrow> bool" where
  "fifo_ok l h \<longleftrightarrow> map fst (submitted l h) = map fst (called l h) @ out l h"

text \<open>The bytes that went out are, request by request in order of submission, a prefix of the
  request's bytes: all of them if the request succeeded, what is no longer queued of the first
  request in the queue, nothing of those behind it.\<close>

definition wire_bytes :: "'a stream_loop_scheme \<Rightarrow> addr \<Rightarrow> u8 list" where
  "wire_bytes l h = concat (map snd (filter (\<lambda>c. fst c \<noteq> None) (wire l h)))"

definition statuses :: "'a stream_loop_scheme \<Rightarrow> addr \<Rightarrow> ret list" where
  "statuses l h = map snd (called l h) @ map (\<lambda>r. r_error (req l r)) (write_local l h @ write_completed l h)"

fun qdata :: "'b list \<Rightarrow> 'b list list \<Rightarrow> 'b list list" where
  "qdata p [] = []"
| "qdata p (u # us) = (p @ u) # us"

definition wire_ok :: "'a stream_loop_scheme \<Rightarrow> addr \<Rightarrow> bool" where
  "wire_ok l h \<longleftrightarrow> (\<exists>ds p.
     map snd (submitted l h) = map fst ds @ qdata p (map (unsent l) (write_queue l h)) \<and>
     statuses l h = map (fst \<circ> snd) ds \<and> wire_bytes l h = concat (map (snd \<circ> snd) ds) @ p \<and>
     (write_queue l h = [] \<longrightarrow> p = []) \<and> (\<forall>(d, st, s)\<in>set ds. prefix s d \<and> (st = OK \<longrightarrow> s = d)))"

definition mode_ok :: "'a stream_loop_scheme \<Rightarrow> addr \<Rightarrow> bool" where
  "mode_ok l h \<longleftrightarrow> (closing l h \<longrightarrow> stream_fd h l = - 1) \<and> (0 \<le> stream_fd h l \<longrightarrow> stream_fd h l + 3 \<le> 2 ^ 31) \<and>
     (flagged h UV_HANDLE_READABLE l \<or> flagged h UV_HANDLE_WRITABLE l \<or> flagged h UV_HANDLE_READING l \<longrightarrow> 0 \<le> stream_fd h l) \<and>
     (flagged h UV_HANDLE_READING l \<longrightarrow> read_cb l h \<noteq> None \<and> alloc_cb l h \<noteq> None) \<and>
     \<not> flagged h UV_HANDLE_BLOCKING_WRITES l \<and>
     (connect_req l h \<noteq> None \<longrightarrow> h_type l h \<in> {UV_TCP, UV_NAMED_PIPE} \<and> (closing l h \<or> 0 \<le> stream_fd h l))"

definition one_stream :: "'a stream_loop_scheme \<Rightarrow> addr \<Rightarrow> bool" where
  "one_stream l h \<longleftrightarrow> reqs_ok l h \<and> size_ok l h \<and> fifo_ok l h \<and> wire_ok l h \<and> mode_ok l h"

text \<open>No two streams, and no stream and a registered watcher, have the same descriptor.\<close>

definition fds_ok :: "'a stream_loop_scheme \<Rightarrow> bool" where
  "fds_ok l \<longleftrightarrow> (\<forall>h\<in>streams l. \<forall>w. 0 \<le> stream_fd h l \<longrightarrow> stream_fd w l = stream_fd h l \<longrightarrow>
     w \<in> streams l \<or> io_pevents (io l w) \<noteq> 0 \<longrightarrow> w = h)"

text \<open>\<open>k\<close> is the number of the other requests that are active, which are none of the streams'.\<close>

definition stream_inv :: "nat \<Rightarrow> 'a stream_loop_scheme \<Rightarrow> bool" where
  "stream_inv k l \<longleftrightarrow> io_inv l \<and> handles_ok l \<and> to_close [] l \<and> (\<forall>h\<in>streams l. one_stream l h) \<and>
     (\<forall>h. h \<notin> streams l \<longrightarrow> write_local l h = []) \<and> fds_ok l \<and> unat (active_reqs l) = card (live_reqs l) + k"

lemmas stream_inv_parts = stream_inv_def one_stream_def

text \<open>What every call of a client leaves true.\<close>

definition loop_later :: "'a stream_loop_scheme \<Rightarrow> 'a stream_loop_scheme \<Rightarrow> bool" where
  "loop_later l l' \<longleftrightarrow> io_later l l' \<and> set (handle_queue l) \<subseteq> set (handle_queue l') \<and>
     (\<forall>h\<in>set (handle_queue l). h_type l' h = h_type l h \<and> closed l' h = closed l h \<and> (closing l h \<longrightarrow> closing l' h) \<and>
        (closing l h \<longrightarrow> h_close_cb l' h = h_close_cb l h)) \<and>
     (\<exists>new. closing_handles l' = new @ closing_handles l \<and> (\<forall>h\<in>set new. h \<in> set (handle_queue l) \<longrightarrow> \<not> closing l h))"

definition stream_later :: "'a stream_loop_scheme \<Rightarrow> 'a stream_loop_scheme \<Rightarrow> bool" where
  stream_later_split: "stream_later l l' \<longleftrightarrow> loop_later l l' \<and> write_local l' = write_local l"

lemmas stream_later_def = stream_later_split loop_later_def

lemma stream_later_refl: "stream_later l l"
  by (simp add: stream_later_def io_later_refl)

lemma streams_loop_later: "loop_later l l' \<Longrightarrow> streams l \<subseteq> streams l'"
  unfolding loop_later_def streams_def by auto

lemma streams_later: "stream_later l l' \<Longrightarrow> streams l \<subseteq> streams l'"
  by (simp add: stream_later_split streams_loop_later)

lemma loop_later_trans:
  assumes ab: "loop_later a b" and bc: "loop_later b c"
  shows "loop_later a c"
proof -
  have sub: "set (handle_queue a) \<subseteq> set (handle_queue b)" "streams a \<subseteq> streams b"
    using ab streams_loop_later [OF ab] by (auto simp: loop_later_def)
  obtain n1 where n1: "closing_handles b = n1 @ closing_handles a" "\<forall>h\<in>set n1. h \<in> set (handle_queue a) \<longrightarrow> \<not> closing a h"
    using ab unfolding loop_later_def by blast
  obtain n2 where n2: "closing_handles c = n2 @ closing_handles b" "\<forall>h\<in>set n2. h \<in> set (handle_queue b) \<longrightarrow> \<not> closing b h"
    using bc unfolding loop_later_def by blast
  have "closing_handles c = (n2 @ n1) @ closing_handles a" using n1(1) n2(1) by simp
  moreover have "\<not> closing a h" if "h \<in> set (n2 @ n1)" "h \<in> set (handle_queue a)" for h
    using that n1(2) n2(2) sub(1) ab unfolding loop_later_def by auto
  ultimately have new: "\<exists>new. closing_handles c = new @ closing_handles a \<and> (\<forall>h\<in>set new. h \<in> set (handle_queue a) \<longrightarrow> \<not> closing a h)"
    by blast
  have "io_later a c" using ab bc io_later_trans unfolding loop_later_def by blast
  then show ?thesis using ab bc sub new unfolding loop_later_def by (auto simp: subset_iff)
qed

lemma stream_later_trans: "stream_later a b \<Longrightarrow> stream_later b c \<Longrightarrow> stream_later a c"
  using loop_later_trans [of a b c] by (simp add: stream_later_split)

section \<open>What leaves a stream alone\<close>

definition wsame :: "'a stream_loop_scheme \<Rightarrow> 'a stream_loop_scheme \<Rightarrow> addr \<Rightarrow> bool" where
  "wsame l l' h \<longleftrightarrow> write_local l' h = write_local l h \<and> write_completed l' h = write_completed l h \<and>
     write_queue l' h = write_queue l h \<and> write_size l' h = write_size l h \<and> connecting l' h = connecting l h \<and>
     shutdown_req l' h = shutdown_req l h \<and> submitted l' h = submitted l h \<and> called l' h = called l h \<and>
     wire_bytes l' h = wire_bytes l h \<and> (\<forall>r\<in>owned l h. req l' r = req l r)"

definition msame :: "'a stream_loop_scheme \<Rightarrow> 'a stream_loop_scheme \<Rightarrow> addr \<Rightarrow> bool" where
  "msame l l' h \<longleftrightarrow> h_flags l' h = h_flags l h \<and> h_type l' h = h_type l h \<and> stream_fd h l' = stream_fd h l \<and>
     read_cb l' h = read_cb l h \<and> alloc_cb l' h = alloc_cb l h \<and> connect_req l' h = connect_req l h"

lemma wsame_refl [simp]: "wsame l l h" and msame_refl [simp]: "msame l l h"
  by (simp_all add: wsame_def msame_def)

lemma wsame_owned: "wsame l l' h \<Longrightarrow> owned l' h = owned l h" "wsame l l' h \<Longrightarrow> out l' h = out l h"
  by (simp_all add: wsame_def owned_def out_def)

lemma unsent_cong: "req l' r = req l r \<Longrightarrow> unsent l' r = unsent l r"
  unfolding unsent_def by (simp only:)

lemma wsame_parts:
  assumes "wsame l l' h"
  shows "reqs_ok l' h = reqs_ok l h" "size_ok l' h = size_ok l h" "fifo_ok l' h = fifo_ok l h" "wire_ok l' h = wire_ok l h"
proof -
  note o = wsame_owned [OF assms]
  have w: "write_local l' h = write_local l h" "write_completed l' h = write_completed l h" "write_queue l' h = write_queue l h"
    "write_size l' h = write_size l h" "connecting l' h = connecting l h" "shutdown_req l' h = shutdown_req l h"
    "submitted l' h = submitted l h" "called l' h = called l h" "wire_bytes l' h = wire_bytes l h"
    "\<And>r. r \<in> owned l h \<Longrightarrow> req l' r = req l r" using assms by (simp_all add: wsame_def)
  have r: "r \<in> set (write_queue l h) \<Longrightarrow> req l' r = req l r" "r \<in> set (write_local l h @ write_completed l h) \<Longrightarrow> req l' r = req l r"
    "r \<in> set (out l h) \<Longrightarrow> req l' r = req l r" for r
    using w(10) [of r] by (auto simp: owned_def out_def)
  show "reqs_ok l' h = reqs_ok l h" unfolding reqs_ok_def o w(3,5,6) using w(10) r(1) by (auto cong: ball_cong)
  have "map (unsent l') (out l h) = map (unsent l) (out l h)" using r(3) unsent_cong [of l' _ l] by auto
  then show "size_ok l' h = size_ok l h" unfolding size_ok_def o w(4) by (simp only:)
  show "fifo_ok l' h = fifo_ok l h" by (simp add: fifo_ok_def o w(7,8))
  have "map (unsent l') (write_queue l h) = map (unsent l) (write_queue l h)" using r(1) unsent_cong [of l' _ l] by auto
  moreover have "statuses l' h = statuses l h" using r(2) by (auto simp: statuses_def w(1,2,8))
  ultimately show "wire_ok l' h = wire_ok l h" unfolding wire_ok_def w(3,7,9) by (simp only:)
qed

lemma msame_mode: "msame l l' h \<Longrightarrow> mode_ok l' h = mode_ok l h"
  by (simp add: msame_def mode_ok_def flagged_def closing_def)

lemma same_one: "wsame l l' h \<Longrightarrow> msame l l' h \<Longrightarrow> one_stream l' h = one_stream l h"
  by (simp add: one_stream_def wsame_parts msame_mode)

lemma live_finite: "finite (live_reqs l)"
  by (auto simp: live_reqs_def streams_def owned_def)

lemma owned_disjoint:
  assumes "\<forall>h\<in>streams l. one_stream l h" and "h \<in> streams l" "h' \<in> streams l" "r \<in> owned l h" "r \<in> owned l h'"
  shows "h' = h"
  using assms unfolding one_stream_def reqs_ok_def by metis

text \<open>A step on one stream that keeps the handles.\<close>

lemma stream_inv_step:
  assumes "stream_inv k l" and "h \<in> streams l" and "io_inv l'" "handles_ok l'" "to_close [] l'"
    and q: "handle_queue l' = handle_queue l" "h_type l' = h_type l"
    and one: "one_stream l' h" and oth: "\<And>h'. h' \<in> streams l \<Longrightarrow> h' \<noteq> h \<Longrightarrow> wsame l l' h' \<and> msame l l' h'"
    and loc: "\<And>h'. h' \<notin> streams l \<Longrightarrow> write_local l' h' = write_local l h'"
    and fd: "stream_fd h l' \<noteq> - 1 \<Longrightarrow> stream_fd h l' = stream_fd h l" and fdo: "\<And>w. w \<noteq> h \<Longrightarrow> stream_fd w l' = stream_fd w l" and pe: "\<And>w. w \<noteq> h \<Longrightarrow> io_pevents (io l' w) = io_pevents (io l w)"
    and ct: "unat (active_reqs l') = card (live_reqs l') + k'"
  shows "stream_inv k' l'"
proof -
  have st: "streams l' = streams l" by (simp add: streams_def q)
  have "one_stream l' h'" if "h' \<in> streams l'" for h'
    using that assms(1) one oth [of h'] same_one by (cases "h' = h") (auto simp: st stream_inv_def)
  moreover have "write_local l' h' = []" if "h' \<notin> streams l'" for h'
    using that assms(1) loc by (auto simp: st stream_inv_def)
  moreover have "fds_ok l'"
  proof -
    have f: "stream_fd w l' = stream_fd w l" if "stream_fd w l' \<noteq> - 1" for w
      using that fd fdo [of w] by (cases "w = h") auto
    have old: "fds_ok l" using assms(1) by (simp add: stream_inv_def)
    show ?thesis unfolding fds_ok_def st
    proof (intro ballI allI impI)
      fix a w
      assume a: "a \<in> streams l" "0 \<le> stream_fd a l'" "stream_fd w l' = stream_fd a l'" "w \<in> streams l \<or> io_pevents (io l' w) \<noteq> 0"
      have e: "stream_fd a l = stream_fd a l'" "stream_fd w l = stream_fd w l'" using f [of a] f [of w] a(2,3) by auto
      show "w = a"
      proof (cases "w = h")
        case True
        then show ?thesis using old a e assms(2) unfolding fds_ok_def by metis
      next
        case False
        then show ?thesis using old a e pe [of w] unfolding fds_ok_def by metis
      qed
    qed
  qed
  ultimately show ?thesis using assms(3-5) ct by (simp add: stream_inv_def)
qed

lemma live_same:
  assumes "streams l' = streams l" and "\<And>h'. h' \<in> streams l \<Longrightarrow> owned l' h' = owned l h'"
  shows "live_reqs l' = live_reqs l"
  using assms by (auto simp: live_reqs_def)

lemma live_split: "h \<in> streams l \<Longrightarrow> live_reqs l = owned l h \<union> (\<Union>h'\<in>streams l - {h}. owned l h')"
  by (auto simp: live_reqs_def)

lemma live_remove:
  assumes "\<forall>h\<in>streams l. one_stream l h" and "streams l' = streams l" and "h \<in> streams l" and "r \<in> owned l h"
    and "owned l' h = owned l h - {r}" and "\<And>h'. h' \<in> streams l \<Longrightarrow> h' \<noteq> h \<Longrightarrow> owned l' h' = owned l h'"
  shows "live_reqs l' = live_reqs l - {r}" and "r \<in> live_reqs l"
proof -
  define U where "U = (\<Union>h'\<in>streams l - {h}. owned l h')"
  have n: "r \<notin> U" unfolding U_def using owned_disjoint [OF assms(1,3) _ assms(4)] by blast
  have "(\<Union>h'\<in>streams l - {h}. owned l' h') = U" unfolding U_def using assms(6) by (intro SUP_cong) auto
  then have "live_reqs l' = (owned l h - {r}) \<union> U" using live_split [of h l'] assms(2,3,5) by simp
  moreover have "live_reqs l = owned l h \<union> U" unfolding U_def by (rule live_split [OF assms(3)])
  ultimately show "live_reqs l' = live_reqs l - {r}" using n by blast
  show "r \<in> live_reqs l" using assms(3,4) by (auto simp: live_reqs_def)
qed

lemma live_insert:
  assumes "streams l' = streams l" and "h \<in> streams l"
    and "owned l' h = insert r (owned l h)" and "\<And>h'. h' \<in> streams l \<Longrightarrow> h' \<noteq> h \<Longrightarrow> owned l' h' = owned l h'"
  shows "live_reqs l' = insert r (live_reqs l)"
proof -
  have "(\<Union>h'\<in>streams l - {h}. owned l' h') = (\<Union>h'\<in>streams l - {h}. owned l h')" using assms(4) by (intro SUP_cong) auto
  then show ?thesis using live_split [OF assms(2)] live_split [of h l'] assms(1-3) by simp
qed

lemma io_only_frame:
  assumes "io_only l (l' :: 'a stream_loop_scheme)"
  shows "h_flags l' = h_flags l" "h_type l' = h_type l" "handle_queue l' = handle_queue l" "closing_handles l' = closing_handles l"
    "active_handles l' = active_handles l" "active_reqs l' = active_reqs l" "h_close_cb l' = h_close_cb l" "mem_ok l' = mem_ok l"
    "req l' = req l" "write_queue l' = write_queue l" "write_completed l' = write_completed l" "write_local l' = write_local l"
    "write_size l' = write_size l" "connect_req l' = connect_req l" "shutdown_req l' = shutdown_req l" "read_cb l' = read_cb l"
    "alloc_cb l' = alloc_cb l" "delayed_error l' = delayed_error l" "wire l' = wire l" "submitted l' = submitted l" "called l' = called l"
    "accepted_fd l' = accepted_fd l" "queued_fds l' = queued_fds l" "pipe_ipc l' = pipe_ipc l"
    "connection_cb l' = connection_cb l" "sys l' = sys l" "emfile_fd l' = emfile_fd l" "fd_log l' = fd_log l"
  by (subst assms [unfolded io_only_def], simp)+

section \<open>Watcher operations on a stream\<close>

lemma io_only_same:
  assumes "io_only l (l' :: 'a stream_loop_scheme)" and "\<And>w. io_fd (io l' w) = io_fd (io l w)"
  shows "wsame l l' h \<and> msame l l' h"
  using assms(2) by (simp add: wsame_def msame_def connecting_def closed_def wire_bytes_def stream_fd_def io_only_frame [OF assms(1)])

lemma stream_invD:
  assumes "stream_inv k l"
  shows stream_inv_io: "io_inv l" and stream_inv_handles: "handles_ok l" and stream_inv_close: "to_close [] l"
    and stream_inv_one: "\<And>h. h \<in> streams l \<Longrightarrow> one_stream l h" and stream_inv_local: "\<And>h. h \<notin> streams l \<Longrightarrow> write_local l h = []"
    and stream_inv_fds: "fds_ok l" and stream_inv_count: "unat (active_reqs l) = card (live_reqs l) + k"
  using assms by (simp_all add: stream_inv_def)

lemma one_streamD:
  assumes "one_stream l h"
  shows "reqs_ok l h" "size_ok l h" "fifo_ok l h" "wire_ok l h" "mode_ok l h"
  using assms by (simp_all add: one_stream_def)

lemma handles_ok_cong:
  assumes "h_flags l' = h_flags l" "handle_queue l' = handle_queue l" "active_handles l' = active_handles l"
  shows "handles_ok l' = handles_ok l"
  using assms by (simp add: handles_ok_def alive_handles_def flag_views)

lemma to_close_cong:
  assumes "h_flags l' = h_flags l" "handle_queue l' = handle_queue l" "closing_handles l' = closing_handles l"
  shows "to_close ps l' = to_close ps l"
  using assms by (simp add: to_close_def flag_views)

lemma io_only_later:
  assumes "io_only l (l' :: 'a stream_loop_scheme)" and "io_later l l'"
  shows "stream_later l l'"
  using assms(2) by (simp add: stream_later_def flag_views io_only_frame [OF assms(1)])

lemma stream_io_step:
  assumes "stream_inv k l" and "h \<in> streams l" and o: "io_only l l'" and "io_inv l'" and "io_later l l'"
    and fd: "\<And>w. io_fd (io l' w) = io_fd (io l w)" and "\<And>w. w \<noteq> h \<Longrightarrow> io_pevents (io l' w) = io_pevents (io l w)"
  shows "stream_inv k l' \<and> stream_later l l'"
proof -
  note f = io_only_frame [OF o] and same = io_only_same [OF o fd]
  have st: "streams l' = streams l" by (simp add: streams_def f)
  have "live_reqs l' = live_reqs l" using same by (intro live_same st) (simp add: wsame_owned)
  then have ct: "unat (active_reqs l') = card (live_reqs l') + k" using stream_inv_count [OF assms(1)] by (simp add: f)
  have "handles_ok l'" using handles_ok_cong [OF f(1,3,5)] stream_inv_handles [OF assms(1)] by simp
  moreover have "to_close [] l'" using to_close_cong [OF f(1,3,4)] stream_inv_close [OF assms(1)] by simp
  moreover have "one_stream l' h" using same_one same stream_inv_one [OF assms(1,2)] by blast
  moreover have "stream_fd h l' = stream_fd h l" by (simp add: stream_fd_def fd)
  moreover have "stream_fd w l' = stream_fd w l" for w by (simp add: stream_fd_def fd)
  ultimately have "stream_inv k l'" using stream_inv_step [OF assms(1,2,4)] same assms(7) f(2,3,12) ct by metis
  then show ?thesis using io_only_later [OF o assms(5)] by simp
qed

lemma stream_sole:
  assumes "stream_inv k l" and "h \<in> streams l"
  shows "sole h l"
proof -
  have ok: "io_ok l" using stream_inv_io [OF assms(1)] by (simp add: io_inv_def)
  have "w = h" if "0 \<le> io_fd (io l h)" "io_fd (io l h) < int (table_size l)" "watchers l ! nat (io_fd (io l h)) = Some w" for w
  proof -
    have "nat (io_fd (io l h)) < table_size l" using that(1,2) by linarith
    then have "io_fd (io l w) = io_fd (io l h)" "io_pevents (io l w) \<noteq> 0"
      using io_ok_entry [OF ok _ that(3)] that(1) by auto
    then show ?thesis using stream_inv_fds [OF assms(1)] assms(2) that(1) unfolding fds_ok_def stream_fd_def by blast
  qed
  then show ?thesis unfolding sole_def by (metis not_None_eq not_le)
qed

definition rw_events :: "u32 \<Rightarrow> bool" where
  "rw_events e \<longleftrightarrow> e = POLLIN \<or> e = POLLOUT"

lemma rw_valid: "rw_events e \<Longrightarrow> valid_events e"
  by (auto simp: rw_events_def valid_events_def io_mask_def POLLIN_def POLLOUT_def POLLPRI_def POLLRDHUP_def)

lemma stream_start:
  assumes "stream_inv k l" and "h \<in> streams l" and "0 \<le> stream_fd h l" and "rw_events e"
  shows "\<exists>l'. uv__io_start h e l = Some l' \<and> stream_inv k l' \<and> stream_later l l' \<and> io_only l l' \<and> (\<forall>w. io_fd (io l' w) = io_fd (io l w))"
proof -
  have inv: "io_inv l" "io_ok l" "memory l" using stream_inv_io [OF assms(1)] by (simp_all add: io_inv_def)
  have so: "sole h l" by (rule stream_sole [OF assms(1,2)])
  have fd: "0 \<le> io_fd (io l h)" "io_fd (io l h) + 3 \<le> 2 ^ 31"
    using one_streamD(5) [OF stream_inv_one [OF assms(1,2)]] assms(3) by (simp_all add: mode_ok_def stream_fd_def)
  have "can_start h e l" using rw_valid [OF assms(4)] fd sole_only [OF inv(2) so] by (auto simp: can_start_def)
  then obtain l' where l': "uv__io_start h e l = Some l'"
      "io l' = (io l)(h := (io l h)\<lparr>io_pevents := or (io_pevents (io l h)) e\<rparr>)"
    using io_start_ok [OF inv(2,3)] by blast
  have "io_legal (IStart h e) l" using rw_valid [OF assms(4)] fd so by simp
  then have i: "io_inv l'" "io_later l l'" using io_start_inv [OF inv(1)] l'(1) by force+
  have fds: "io_fd (io l' w) = io_fd (io l w)" for w by (simp add: l'(2))
  have "stream_inv k l' \<and> stream_later l l'"
    by (rule stream_io_step [OF assms(1,2) io_start_only [OF l'(1)] i fds]) (simp add: l'(2))
  then show ?thesis using l'(1) io_start_only [OF l'(1)] fds by blast
qed

lemma stream_stop:
  assumes "stream_inv k l" and "h \<in> streams l" and "valid_events e"
  shows "\<exists>l'. uv__io_stop h e l = Some l' \<and> stream_inv k l' \<and> stream_later l l' \<and> io_only l l' \<and> (\<forall>w. io_fd (io l' w) = io_fd (io l w))"
proof -
  obtain l' where l': "uv__io_stop h e l = Some l'" "io_inv l'" "io_later l l'"
    "\<And>w. io_fd (io l' w) = io_fd (io l w)" "\<And>w. w \<noteq> h \<Longrightarrow> io l' w = io l w"
    using io_stop_inv [OF stream_inv_io [OF assms(1)] assms(3), of h] by blast
  have "stream_inv k l' \<and> stream_later l l'"
    by (rule stream_io_step [OF assms(1,2) io_stop_only [OF l'(1)] l'(2-4)]) (simp add: l'(5))
  then show ?thesis using l'(1,4) io_stop_only [OF l'(1)] by blast
qed

lemma stream_feed:
  assumes "stream_inv k l" and "h \<in> streams l"
  shows "stream_inv k (uv__io_feed w l) \<and> stream_later l (uv__io_feed w l)"
proof (rule stream_io_step [OF assms io_feed_only])
  show "io_inv (uv__io_feed w l)" using stream_inv_io [OF assms(1)] by (simp add: uv__io_feed_def io_pending_inv)
  show "io_later l (uv__io_feed w l)" by (auto simp: uv__io_feed_def io_later_refl intro: io_later_same)
qed (simp_all add: uv__io_feed_def)

section \<open>The head of the write queue\<close>

lemma concat_length_swap:
  assumes "f x = drop n u" and "n \<le> length u" and "g x = u"
    and "\<And>y. y \<in> set xs \<union> set ys \<Longrightarrow> f y = g y"
  shows "length (concat (map f (xs @ x # ys))) + n = length (concat (map g (xs @ x # ys)))"
    and "n \<le> length (concat (map g (xs @ x # ys)))"
proof -
  have "map f xs = map g xs" "map f ys = map g ys" using assms(4) by auto
  then have e: "map f (xs @ x # ys) = map g xs @ f x # map g ys" by (simp only: map_append list.map)
  have "length (concat (map f (xs @ x # ys))) = length (concat (map g xs)) + length (f x) + length (concat (map g ys))"
    by (subst e) simp
  then show "length (concat (map f (xs @ x # ys))) + n = length (concat (map g (xs @ x # ys)))"
    and "n \<le> length (concat (map g (xs @ x # ys)))" using assms(1-3) by simp_all
qed

text \<open>\<open>n\<close> bytes of the first request go out; the request stays or moves to the completed ones, with
  its status.\<close>

lemma head_size:
  assumes "size_ok l h" and "out l h = a @ r # b" and "out l' h = a' @ r # b'" and "a @ b = a' @ b'"
    and "unsent l' r = drop n (unsent l r)" and "n \<le> length (unsent l r)"
    and "\<And>s. s \<in> set a \<union> set b \<Longrightarrow> unsent l' s = unsent l s" and "write_size l' h = write_size l h - of_nat n"
  shows "size_ok l' h"
proof -
  let ?L = "length (concat (map (unsent l) (out l h)))" and ?M = "length (concat (map (unsent l') (out l h)))"
  have eq: "?M + n = ?L" using concat_length_swap(1) [of "unsent l'" r n "unsent l r" "unsent l" a b] assms(2,5,6,7) by simp
  have "length (concat (map (unsent l') (out l' h))) = ?M"
  proof -
    have "length (concat (map f (a @ r # b))) = length (concat (map f (a @ b))) + length (f r)" for f :: "addr \<Rightarrow> u8 list"
      and a b by simp
    then show ?thesis using assms(2-4) by metis
  qed
  moreover have "write_size l' h = of_nat ?M"
  proof -
    have "of_nat ?L = (of_nat ?M + of_nat n :: u64)" using eq by (metis of_nat_add)
    then show ?thesis using assms(1,8) by (simp add: size_ok_def)
  qed
  moreover have "?M < 2 ^ 64" using assms(1) eq unfolding size_ok_def by linarith
  ultimately show ?thesis unfolding size_ok_def by metis
qed

definition stay_head :: "addr \<Rightarrow> 'a stream_loop_scheme \<Rightarrow> 'a stream_loop_scheme \<Rightarrow> bool" where
  "stay_head h l l' \<longleftrightarrow> write_local l' h = write_local l h \<and> connecting l' h = connecting l h \<and>
     shutdown_req l' h = shutdown_req l h \<and> submitted l' h = submitted l h \<and> called l' h = called l h \<and> msame l l' h"

lemma head_progress:
  assumes one: "one_stream l h" and q: "write_queue l h = r # q" and n: "n \<le> length (unsent l r)" and st: "stay_head h l l'"
    and c: "write_completed l' h = write_completed l h" "write_queue l' h = write_queue l h"
    and s: "write_size l' h = write_size l h - of_nat n" "wire_bytes l' h = wire_bytes l h @ take n (unsent l r)"
    and u: "unsent l' r = drop n (unsent l r)" and other: "\<And>t. t \<in> owned l h \<Longrightarrow> t \<noteq> r \<Longrightarrow> req l' t = req l t"
    and r: "r_handle (req l' r) = h" "r_error (req l' r) = OK" "r_send (req l' r) = None"
      "\<exists>bufs. r_bufs (req l' r) = Some bufs \<and> r_index (req l' r) < length bufs"
  shows "one_stream l' h"
proof -
  note one = one_streamD [OF one]
  have f: "write_local l' h = write_local l h" "connecting l' h = connecting l h" "shutdown_req l' h = shutdown_req l h"
    "submitted l' h = submitted l h" "called l' h = called l h" "msame l l' h" using st by (simp_all add: stay_head_def)
  have o: "out l' h = out l h" "owned l' h = owned l h" by (simp_all add: out_def owned_def f c)
  have d: "distinct (out l h)" using one(1) by (simp add: reqs_ok_def)
  then have nr: "t \<noteq> r" if "t \<in> set (write_local l h @ write_completed l h) \<union> set q" for t using that q by (auto simp: out_def)
  have us: "unsent l' t = unsent l t" if "t \<in> set (write_local l h @ write_completed l h) \<union> set q" for t
  proof -
    have "t \<in> owned l h" using that q by (auto simp: owned_def out_def)
    then show ?thesis using other nr [OF that] unsent_cong by blast
  qed
  have "reqs_ok l' h"
  proof -
    have "r_handle (req l' t) = h" if "t \<in> owned l h" for t using one(1) other [OF that] r(1) that unfolding reqs_ok_def by (cases "t = r") auto
    moreover have "req l' t = req l t" if "t \<in> set q" for t using other [of t] nr [of t] that q by (auto simp: owned_def out_def)
    ultimately show ?thesis using one(1) r(2-4) unfolding reqs_ok_def o f c(2) by (auto simp: q)
  qed
  moreover have "size_ok l' h"
    by (rule head_size [OF one(2), of "write_local l h @ write_completed l h" r q _ "write_local l h @ write_completed l h" q n])
      (simp_all add: out_def q u n us s o f c)
  moreover have "fifo_ok l' h" using one(3) by (simp add: fifo_ok_def o f)
  moreover have "wire_ok l' h"
  proof -
    obtain ds p where ds: "map snd (submitted l h) = map fst ds @ qdata p (map (unsent l) (write_queue l h))"
      "statuses l h = map (fst \<circ> snd) ds" "wire_bytes l h = concat (map (snd \<circ> snd) ds) @ p"
      "\<forall>(d, st, s)\<in>set ds. prefix s d \<and> (st = OK \<longrightarrow> s = d)" using one(4) unfolding wire_ok_def by blast
    have "statuses l' h = statuses l h"
    proof -
      have "r_error (req l' t) = r_error (req l t)" if "t \<in> set (write_local l h @ write_completed l h)" for t
        using other [of t] nr [of t] that by (auto simp: owned_def out_def)
      then show ?thesis by (auto simp: statuses_def f c)
    qed
    moreover have "map (unsent l') q = map (unsent l) q" using us by auto
    ultimately show ?thesis unfolding wire_ok_def
      using ds by (intro exI [of _ ds] exI [of _ "p @ take n (unsent l r)"]) (simp add: q c f s u)
  qed
  moreover have "mode_ok l' h" using one(5) msame_mode f(6) by blast
  ultimately show ?thesis by (simp add: one_stream_def)
qed

lemma head_done:
  assumes one: "one_stream l h" and q: "write_queue l h = r # q" and n: "n \<le> length (unsent l r)" and st: "stay_head h l l'"
    and c: "write_completed l' h = write_completed l h @ [r]" "write_queue l' h = q"
    and s: "write_size l' h = write_size l h - of_nat n" "wire_bytes l' h = wire_bytes l h @ take n (unsent l r)"
    and u: "unsent l' r = drop n (unsent l r)" and other: "\<And>t. t \<in> owned l h \<Longrightarrow> t \<noteq> r \<Longrightarrow> req l' t = req l t"
    and r: "r_handle (req l' r) = h" "r_error (req l' r) = OK \<Longrightarrow> n = length (unsent l r)"
  shows "one_stream l' h"
proof -
  note one = one_streamD [OF one]
  have f: "write_local l' h = write_local l h" "connecting l' h = connecting l h" "shutdown_req l' h = shutdown_req l h"
    "submitted l' h = submitted l h" "called l' h = called l h" "msame l l' h" using st by (simp_all add: stay_head_def)
  have o: "out l' h = out l h" "owned l' h = owned l h" by (simp_all add: out_def owned_def f c q)
  have d: "distinct (out l h)" using one(1) by (simp add: reqs_ok_def)
  then have nr: "t \<noteq> r" if "t \<in> set (write_local l h @ write_completed l h) \<union> set q" for t using that q by (auto simp: out_def)
  have us: "unsent l' t = unsent l t" if "t \<in> set (write_local l h @ write_completed l h) \<union> set q" for t
  proof -
    have "t \<in> owned l h" using that q by (auto simp: owned_def out_def)
    then show ?thesis using other nr [OF that] unsent_cong by blast
  qed
  have "reqs_ok l' h"
  proof -
    have "r_handle (req l' t) = h" if "t \<in> owned l h" for t using one(1) other [OF that] r(1) that unfolding reqs_ok_def by (cases "t = r") auto
    moreover have "req l' t = req l t" if "t \<in> set q" for t using other [of t] nr [of t] that q by (auto simp: owned_def out_def)
    ultimately show ?thesis using one(1) unfolding reqs_ok_def o f c(2) by (auto simp: q)
  qed
  moreover have "size_ok l' h"
    by (rule head_size [OF one(2), of "write_local l h @ write_completed l h" r q _ "write_local l h @ write_completed l h" q n])
      (simp_all add: out_def q u n us s f c)
  moreover have "fifo_ok l' h" using one(3) by (simp add: fifo_ok_def o f)
  moreover have "wire_ok l' h"
  proof -
    obtain ds p where ds: "map snd (submitted l h) = map fst ds @ qdata p (map (unsent l) (write_queue l h))"
      "statuses l h = map (fst \<circ> snd) ds" "wire_bytes l h = concat (map (snd \<circ> snd) ds) @ p"
      "\<forall>(d, st, s)\<in>set ds. prefix s d \<and> (st = OK \<longrightarrow> s = d)" using one(4) unfolding wire_ok_def by blast
    let ?d = "(p @ unsent l r, r_error (req l' r), p @ take n (unsent l r))"
    have e: "r_error (req l' t) = r_error (req l t)" if "t \<in> set (write_local l h @ write_completed l h)" for t
      using other [of t] nr [of t] that by (auto simp: owned_def out_def)
    have "statuses l' h = map snd (called l h) @ map (\<lambda>t. r_error (req l' t)) (write_local l h @ write_completed l h) @ [r_error (req l' r)]"
      by (simp add: statuses_def f c)
    also have "map (\<lambda>t. r_error (req l' t)) (write_local l h @ write_completed l h) =
        map (\<lambda>t. r_error (req l t)) (write_local l h @ write_completed l h)" using e by auto
    finally have "statuses l' h = statuses l h @ [r_error (req l' r)]" by (simp add: statuses_def)
    then have "statuses l' h = map (fst \<circ> snd) (ds @ [?d])" using ds(2) by simp
    moreover have "map (unsent l') q = map (unsent l) q" using us by auto
    moreover have "qdata [] us = us" for us :: "u8 list list" by (cases us) auto
    moreover have "prefix (p @ take n (unsent l r)) (p @ unsent l r)" by (simp add: take_is_prefix)
    ultimately show ?thesis unfolding wire_ok_def
      using ds r(2) by (intro exI [of _ "ds @ [?d]"] exI [of _ "[]"]) (auto simp add: q c f s)
  qed
  moreover have "mode_ok l' h" using one(5) msame_mode f(6) by blast
  ultimately show ?thesis by (simp add: one_stream_def)
qed

section \<open>Steps of the write queue\<close>

text \<open>A step that touches the queue of one stream, one of its requests, and nothing else.\<close>

definition touches :: "addr \<Rightarrow> addr \<Rightarrow> 'a stream_loop_scheme \<Rightarrow> 'a stream_loop_scheme \<Rightarrow> bool" where
  "touches h r l l' \<longleftrightarrow>
     l' = l\<lparr>pending_queue := pending_queue l', req := req l', write_queue := write_queue l', write_completed := write_completed l',
            write_size := write_size l', sys := sys l', wire := wire l'\<rparr> \<and>
     (\<forall>s. s \<noteq> r \<longrightarrow> req l' s = req l s) \<and>
     (\<forall>g. g \<noteq> h \<longrightarrow> write_queue l' g = write_queue l g \<and> write_completed l' g = write_completed l g \<and>
        write_size l' g = write_size l g \<and> wire l' g = wire l g)"

lemma touches_frame:
  assumes "touches h r l l'"
  shows "h_flags l' = h_flags l" "h_type l' = h_type l" "handle_queue l' = handle_queue l" "closing_handles l' = closing_handles l"
    "active_handles l' = active_handles l" "active_reqs l' = active_reqs l" "h_close_cb l' = h_close_cb l"
    "write_local l' = write_local l" "connect_req l' = connect_req l" "shutdown_req l' = shutdown_req l" "read_cb l' = read_cb l"
    "alloc_cb l' = alloc_cb l" "submitted l' = submitted l" "called l' = called l" "io l' = io l" "inv l' = inv l"
    "table_size l' = table_size l" "pending_local l' = pending_local l" "io_inv l' = io_inv l"
proof -
  let ?l = "l\<lparr>pending_queue := pending_queue l', req := req l', write_queue := write_queue l', write_completed := write_completed l',
            write_size := write_size l', sys := sys l', wire := wire l'\<rparr>"
  have e: "l' = ?l" using assms by (simp add: touches_def)
  show "h_flags l' = h_flags l" "h_type l' = h_type l" "handle_queue l' = handle_queue l" "closing_handles l' = closing_handles l"
    "active_handles l' = active_handles l" "active_reqs l' = active_reqs l" "h_close_cb l' = h_close_cb l"
    "write_local l' = write_local l" "connect_req l' = connect_req l" "shutdown_req l' = shutdown_req l" "read_cb l' = read_cb l"
    "alloc_cb l' = alloc_cb l" "submitted l' = submitted l" "called l' = called l" "io l' = io l" "inv l' = inv l"
    "table_size l' = table_size l" "pending_local l' = pending_local l"
    by (subst e, simp add: table_size_def)+
  show "io_inv l' = io_inv l" by (subst e, rule io_inv_cong) simp_all
qed

lemma touches_head: "touches h r l l' \<Longrightarrow> stay_head h l l'"
  by (simp add: stay_head_def msame_def connecting_def closed_def stream_fd_def touches_frame [of h r l l'])

lemma touches_inv:
  assumes "stream_inv k l" and h: "h \<in> streams l" and t: "touches h r l l'" and r: "r \<in> owned l h"
    and "one_stream l' h" and o: "out l' h = out l h"
  shows "stream_inv k l' \<and> stream_later l l'"
proof -
  note f = touches_frame [OF t]
  have st: "streams l' = streams l" by (simp add: streams_def f)
  have nr: "r \<notin> owned l g" if "g \<in> streams l" "g \<noteq> h" for g
    using owned_disjoint [OF _ h that(1) r] stream_inv_one [OF assms(1)] that(2) by blast
  have same: "wsame l l' g \<and> msame l l' g" if "g \<in> streams l" "g \<noteq> h" for g
    using t nr [OF that] that(2) unfolding touches_def
    by (auto simp: wsame_def msame_def connecting_def closed_def wire_bytes_def stream_fd_def f)
  have "owned l' h = owned l h" by (simp add: owned_def o connecting_def closed_def f)
  then have "owned l' g = owned l g" if "g \<in> streams l" for g
    using same [OF that] wsame_owned(1) [of l l' g] by (cases "g = h") simp_all
  then have "live_reqs l' = live_reqs l" by (rule live_same [OF st])
  then have ct: "unat (active_reqs l') = card (live_reqs l') + k" using stream_inv_count [OF assms(1)] by (simp add: f)
  have "stream_inv k l'"
    by (rule stream_inv_step [OF assms(1) h _ _ _ f(3,2) assms(5) same])
      (use stream_invD [OF assms(1)] handles_ok_cong [OF f(1,3,5)] to_close_cong [OF f(1,3,4)] ct in \<open>simp_all add: f stream_fd_def\<close>)
  moreover have "stream_later l l'" by (simp add: stream_later_def f flag_views io_later_same)
  ultimately show ?thesis by simp
qed

section \<open>Writing\<close>

definition kernel_ok :: "'l stream_env \<Rightarrow> bool" where
  "kernel_ok E \<longleftrightarrow> 0 < iovmax E \<and> (\<forall>fd iov s. uninterrupted (\<lambda>k. sys_write E k fd iov s)) \<and>
     (\<forall>k fd iov s n. sys_write E k fd iov s = Inr n \<longrightarrow> n \<le> length (concat iov)) \<and>
     (\<forall>fd n. uninterrupted (\<lambda>k. sys_read E k fd n))"

lemma take_concat_take: "n \<le> length (concat (take m xs)) \<Longrightarrow> take n (concat (take m xs)) = take n (concat xs)"
proof -
  assume n: "n \<le> length (concat (take m xs))"
  have "concat xs = concat (take m xs) @ concat (drop m xs)" by (metis append_take_drop_id concat_append)
  then show ?thesis using n by simp
qed

lemma concat_take_le: "length (concat (take m xs)) \<le> length (concat xs)"
  by (metis append_take_drop_id concat_append le_add1 length_append)

lemma try_write_ok:
  assumes "kernel_ok E"
  shows "\<exists>n k. uv__try_write E who h bufs None l = Some (wrote who h (take (iovmax E) bufs) n (l\<lparr>sys := k\<rparr>)) \<and>
    n \<noteq> Inl UV_EINTR \<and> (\<forall>m. n = Inr m \<longrightarrow> m \<le> length (concat (take (iovmax E) bufs)))"
proof -
  let ?f = "\<lambda>k. sys_write E k (stream_fd h l) (take (iovmax E) bufs) None"
  have "uninterrupted ?f" using assms by (simp add: kernel_ok_def)
  then obtain j where "eintr ?f (sys l) = Some (?f j, j + 1)" "?f j \<noteq> Inl UV_EINTR" using eintr_returns by blast
  then show ?thesis using assms
    by (intro exI [of _ "?f j"] exI [of _ "j + 1"]) (simp add: uv__try_write_def kernel_ok_def Let_def)
qed

lemma touches_trans: "touches h r a b \<Longrightarrow> touches h r b c \<Longrightarrow> touches h r a c"
  unfolding touches_def by (elim conjE, intro conjI, erule ssubst [of c], erule ssubst [of b]) simp_all

lemma feed_touches [simp]:
  "write_queue (uv__io_feed w l) = write_queue l" "write_completed (uv__io_feed w l) = write_completed l"
  "req (uv__io_feed w l) = req l" "write_size (uv__io_feed w l) = write_size l" "wire (uv__io_feed w l) = wire l"
  by (simp_all add: uv__io_feed_def)

lemma finish_shape:
  assumes "r_handle (req l r) = h"
  shows "uv__write_req_finish r l = uv__io_feed h (l\<lparr>write_queue := (write_queue l)(h := remove1 r (write_queue l h)),
      req := (req l)(r := if r_error (req l r) = OK then (req l r)\<lparr>r_bufs := None\<rparr> else req l r),
      write_completed := (write_completed l)(h := write_completed l h @ [r])\<rparr>)"
proof (cases "r_error (req l r) = OK")
  case True
  then show ?thesis using assms by (simp add: uv__write_req_finish_def Let_def set_req_def)
next
  case False
  have "(l\<lparr>req := (req l)(r := req l r)\<rparr>) = l" by simp
  then show ?thesis using assms False unfolding uv__write_req_finish_def Let_def by simp
qed

lemma finish_fields:
  assumes "r_handle (req l r) = h"
  shows "write_queue (uv__write_req_finish r l) h = remove1 r (write_queue l h)"
    and "write_completed (uv__write_req_finish r l) h = write_completed l h @ [r]"
    and "req (uv__write_req_finish r l) = (req l)(r := if r_error (req l r) = OK then (req l r)\<lparr>r_bufs := None\<rparr> else req l r)"
    and "write_size (uv__write_req_finish r l) = write_size l" and "wire (uv__write_req_finish r l) = wire l"
  unfolding finish_shape [OF assms] by simp_all

lemma finish_touches:
  assumes "r_handle (req l r) = h"
  shows "touches h r l (uv__write_req_finish r l)"
  unfolding finish_shape [OF assms] touches_def by (simp add: uv__io_feed_def)

text \<open>What the write loop does with the first request: all of its buffers go out, or some of them, or it fails.\<close>

lemma write_loop_step:
  assumes E: "kernel_ok E" and inv: "stream_inv k l" and h: "h \<in> streams l" and q: "write_queue l h = r # q"
  shows "\<exists>l1. touches h r l l1 \<and> one_stream l1 h \<and>
    (write_queue l1 h = r # q \<and> write_completed l1 h = write_completed l h \<and> uv__write_loop E h b l = uv__io_start h POLLOUT l1 \<or>
     write_queue l1 h = q \<and> write_completed l1 h = write_completed l h @ [r] \<and> (uv__write_loop E h b l = uv__io_stop h POLLOUT l1 \<or>
       uv__write_loop E h b l = (if b > 0 then uv__write_loop E h (b - 1) l1 else Some l1)))"
proof -
  note one = stream_inv_one [OF inv h]
  note parts = one_streamD [OF one]
  let ?x = "req l r"
  obtain bs where x: "r_handle ?x = h" "r_error ?x = OK" "r_send ?x = None" "r_bufs ?x = Some bs" "r_index ?x < length bs"
    using parts(1) q by (auto simp: reqs_ok_def owned_def out_def)
  let ?i = "r_index ?x"
  let ?todo = "drop ?i bs"
  have u: "unsent l r = concat ?todo" by (simp add: unsent_def x(4))
  obtain n j where tw: "uv__try_write E (Some r) h ?todo None l = Some (wrote (Some r) h (take (iovmax E) ?todo) n (l\<lparr>sys := j\<rparr>))"
    "\<And>m. n = Inr m \<Longrightarrow> m \<le> length (concat (take (iovmax E) ?todo))" using try_write_ok [OF E, of "Some r" h ?todo l] by blast
  have nb: "\<not> flagged h UV_HANDLE_BLOCKING_WRITES l" using parts(5) by (simp add: mode_ok_def)
  note loop = uv__write_loop.simps [of E h b l] 
  show ?thesis
  proof (cases n)
    case (Inl e)
    show ?thesis
    proof (cases "e = UV_EAGAIN \<or> e = UV_ENOBUFS")
      case True
      let ?l = "l\<lparr>sys := j\<rparr>"
      have t: "touches h r l ?l" by (simp add: touches_def)
      have "one_stream ?l h"
        by (rule head_progress [OF one q, of 0]) (use x touches_head [OF t] in \<open>auto simp: wire_bytes_def unsent_def\<close>)
      moreover have "uv__write_loop E h b l = uv__io_start h POLLOUT ?l"
        using loop q x tw(1) Inl True nb by (auto simp: wrote_def flagged_def)
      ultimately show ?thesis using t q by (intro exI [of _ ?l]) simp
    next
      case False
      let ?l0 = "set_req r (?x\<lparr>r_error := Inl e\<rparr>) (l\<lparr>sys := j\<rparr>)"
      define l9 where "l9 = uv__write_req_finish r ?l0"
      have hd: "r_handle (req ?l0 r) = h" by (simp add: set_req_def x)
      have "touches h r l ?l0" by (simp add: touches_def set_req_def)
      then have t: "touches h r l l9" unfolding l9_def using touches_trans finish_touches [OF hd] by blast
      have f: "write_queue l9 h = q" "write_completed l9 h = write_completed l h @ [r]" "req l9 = (req l)(r := ?x\<lparr>r_error := Inl e\<rparr>)"
        "write_size l9 = write_size l" "wire l9 = wire l"
        unfolding l9_def finish_fields [OF hd] by (simp_all add: set_req_def q)
      have "one_stream l9 h"
        by (rule head_done [OF one q, of 0]) (use x touches_head [OF t] in \<open>auto simp: wire_bytes_def unsent_def f\<close>)
      moreover have "uv__write_loop E h b l = uv__io_stop h POLLOUT l9"
        using loop q x tw(1) Inl False by (simp add: wrote_def l9_def)
      ultimately show ?thesis using t f by blast
    qed
  next
    case (Inr m)
    have m: "m \<le> length (concat (take (iovmax E) ?todo))" "m \<le> length (unsent l r)"
      using tw(2) [OF Inr] concat_take_le [of "iovmax E" ?todo] by (simp_all add: u)
    obtain c rest where adv: "advance m ?todo = Some (c, rest)" "c \<le> length ?todo" "length rest = length ?todo"
      "concat (drop c rest) = drop m (concat ?todo)" using advance_ok [of ?todo m] m x(5) u by auto
    have sz: "\<not> of_nat m > write_size l h"
    proof -
      let ?L = "length (concat (map (unsent l) (out l h)))"
      have L: "write_size l h = of_nat ?L" "?L < 2 ^ 64" using parts(2) by (simp_all add: size_ok_def)
      have "m \<le> ?L"
      proof -
        have "length (unsent l r) \<le> ?L" by (simp add: out_def q)
        then show ?thesis using m(2) by simp
      qed
      then have "unat (of_nat m :: u64) \<le> unat (write_size l h)" using L by (simp add: unat_of_nat)
      then show ?thesis by (simp add: word_less_nat_alt)
    qed
    let ?l0 = "l\<lparr>sys := j, wire := (wire l)(h := wire l h @ [(Some r, take m (concat (take (iovmax E) ?todo)))])\<rparr>"
    let ?y = "?x\<lparr>r_send := None, r_bufs := Some (take ?i bs @ rest), r_index := ?i + c\<rparr>"
    let ?l1 = "(set_req r ?y ?l0)\<lparr>write_size := (write_size l)(h := write_size l h - of_nat m)\<rparr>"
    have upd: "uv__write_req_update h r m (set_req r (?x\<lparr>r_send := None\<rparr>) ?l0) = Some (?i + c = length bs, ?l1)"
      using sz adv(1) x by (simp add: uv__write_req_update_def set_req_def Let_def)
    have l0: "uv__write_loop E h b l =
        (if ?i + c = length bs then let l = uv__write_req_finish r ?l1 in if b > 0 then uv__write_loop E h (b - 1) l else Some l
         else uv__io_start h POLLOUT ?l1)"
      using loop q x tw(1) Inr upd nb by (simp add: wrote_def set_req_def flagged_def)
    have dr: "drop (?i + c) (take ?i bs @ rest) = drop c rest" using x(5) by simp
    have w: "take m (concat (take (iovmax E) ?todo)) = take m (unsent l r)" using take_concat_take [OF m(1)] by (simp add: u)
    show ?thesis
    proof (cases "?i + c = length bs")
      case False
      have t: "touches h r l ?l1" by (simp add: touches_def set_req_def)
      have "one_stream ?l1 h"
        by (rule head_progress [OF one q m(2)])
          (use x touches_head [OF t] dr adv False w u in \<open>auto simp: wire_bytes_def unsent_def set_req_def\<close>)
      then show ?thesis using t l0 False q by (intro exI [of _ ?l1]) (simp add: set_req_def)
    next
      case True
      define l9 where "l9 = uv__write_req_finish r ?l1"
      have hd: "r_handle (req ?l1 r) = h" by (simp add: set_req_def x)
      have f: "write_queue l9 h = q" "write_completed l9 h = write_completed l h @ [r]" "req l9 = (req l)(r := ?y\<lparr>r_bufs := None\<rparr>)"
        "write_size l9 = write_size ?l1" "wire l9 = wire ?l1"
        unfolding l9_def finish_fields [OF hd] by (simp_all add: set_req_def q x)
      have "touches h r l ?l1" by (simp add: touches_def set_req_def)
      then have t: "touches h r l l9" unfolding l9_def using touches_trans finish_touches [OF hd] by blast
      have all: "drop m (unsent l r) = []"
      proof -
        have "drop c rest = []" using adv(3) True by simp
        then have "concat (drop c rest) = []" by simp
        then show ?thesis using adv(4) u by metis
      qed
      have "one_stream l9 h"
        by (rule head_done [OF one q m(2)])
          (use x touches_head [OF t] all m(2) w in \<open>auto simp: wire_bytes_def unsent_def f set_req_def\<close>)
      then show ?thesis using t l0 True f by (intro exI [of _ l9]) (simp add: Let_def l9_def)
    qed
  qed
qed

end
