(* ===== verification/UV_Stream_Run.thy ===== *)
theory UV_Stream_Run
  imports UV_Stream_Inv
begin

text \<open>
  Every operation on a stream succeeds, whatever the kernel answers and whatever the callbacks do
  that the interface allows, and keeps the invariant.
\<close>

section \<open>Frozen streams\<close>

text \<open>A client cannot give a closing stream more to do.\<close>

definition frozen_at :: "addr \<Rightarrow> 'a stream_loop_scheme \<Rightarrow> 'a stream_loop_scheme \<Rightarrow> bool" where
  "frozen_at h l l' \<longleftrightarrow> write_queue l' h = write_queue l h \<and> write_completed l' h = write_completed l h \<and>
     shutdown_req l' h = shutdown_req l h \<and> connect_req l' h = connect_req l h"

definition frozen :: "'a stream_loop_scheme \<Rightarrow> 'a stream_loop_scheme \<Rightarrow> bool" where
  "frozen l l' \<longleftrightarrow> (\<forall>h\<in>streams l. closing l h \<longrightarrow> frozen_at h l l')"

lemma frozen_refl [simp]: "frozen l l" "frozen_at h l l"
  by (simp_all add: frozen_def frozen_at_def)

lemma frozen_at_trans: "frozen_at h a b \<Longrightarrow> frozen_at h b c \<Longrightarrow> frozen_at h a c"
  by (simp add: frozen_at_def)

lemma frozen_trans: "stream_later a b \<Longrightarrow> frozen a b \<Longrightarrow> frozen b c \<Longrightarrow> frozen a c"
  using streams_later [of a b] frozen_at_trans unfolding frozen_def stream_later_def streams_def by blast

lemma frozen_same:
  assumes "write_queue l' = write_queue l" "write_completed l' = write_completed l" "shutdown_req l' = shutdown_req l"
    "connect_req l' = connect_req l"
  shows "frozen l l'" "frozen_at h l l'"
  using assms by (simp_all add: frozen_def frozen_at_def)

section \<open>Writing\<close>

definition moved :: "addr \<Rightarrow> nat \<Rightarrow> 'a stream_loop_scheme \<Rightarrow> 'a stream_loop_scheme \<Rightarrow> bool" where
  "moved h n l l' \<longleftrightarrow> (\<exists>ds. write_queue l h = ds @ write_queue l' h \<and> write_completed l' h = write_completed l h @ ds \<and> length ds \<le> n)"

lemma write_loop_ok:
  assumes "kernel_ok E" and "stream_inv k l" and "h \<in> streams l" and "0 \<le> stream_fd h l"
  shows "\<exists>l'. uv__write_loop E h b l = Some l' \<and> stream_inv k l' \<and> stream_later l l' \<and> moved h (b + 1) l l' \<and>
    h_flags l' = h_flags l \<and> stream_fd h l' = stream_fd h l \<and> (\<forall>g. g \<noteq> h \<longrightarrow> frozen_at g l l')"
  using assms(2-4)
proof (induction b arbitrary: l rule: less_induct)
  case (less b)
  show ?case
  proof (cases "write_queue l h")
    case Nil
    then show ?thesis using less.prems by (subst uv__write_loop.simps) (simp add: stream_later_refl moved_def)
  next
    case (Cons r q)
    obtain l1 where t: "touches h r l l1" and one: "one_stream l1 h" and step:
      "write_queue l1 h = r # q \<and> write_completed l1 h = write_completed l h \<and> uv__write_loop E h b l = uv__io_start h POLLOUT l1 \<or>
       write_queue l1 h = q \<and> write_completed l1 h = write_completed l h @ [r] \<and> (uv__write_loop E h b l = uv__io_stop h POLLOUT l1 \<or>
         uv__write_loop E h b l = (if b > 0 then uv__write_loop E h (b - 1) l1 else Some l1))"
      using write_loop_step [OF assms(1) less.prems(1,2) Cons, of b] by blast
    note f = touches_frame [OF t]
    have fz: "frozen_at g l l1" if "g \<noteq> h" for g using t that by (simp add: touches_def frozen_at_def f)
    have fio: "frozen_at g l l'" if "io_only l1 l'" "g \<noteq> h" for g l'
      using fz [OF that(2)] by (simp add: frozen_at_def io_only_frame [OF that(1)])
    have r: "r \<in> owned l h" by (simp add: owned_def out_def Cons)
    have "out l1 h = out l h" using step by (auto simp: out_def f Cons)
    then have i: "stream_inv k l1" "stream_later l l1" using touches_inv [OF less.prems(1,2) t r one] by simp_all
    have h1: "h \<in> streams l1" using i(2) less.prems(2) streams_later by blast
    have fd: "stream_fd h l1 = stream_fd h l" by (simp add: stream_fd_def f)
    have rw: "rw_events POLLOUT" "valid_events POLLOUT" using rw_valid by (auto simp: rw_events_def)
    from step consider
        "write_queue l1 h = r # q" "write_completed l1 h = write_completed l h" "uv__write_loop E h b l = uv__io_start h POLLOUT l1"
      | "write_queue l1 h = q" "write_completed l1 h = write_completed l h @ [r]" "uv__write_loop E h b l = uv__io_stop h POLLOUT l1"
      | "write_queue l1 h = q" "write_completed l1 h = write_completed l h @ [r]" "b > 0"
        "uv__write_loop E h b l = uv__write_loop E h (b - 1) l1"
      | "write_queue l1 h = q" "write_completed l1 h = write_completed l h @ [r]" "uv__write_loop E h b l = Some l1"
      by (metis gr_zeroI)
    then show ?thesis
    proof cases
      case 1
      obtain l' where l': "uv__io_start h POLLOUT l1 = Some l'" "stream_inv k l'" "stream_later l1 l'" "io_only l1 l'"
        "\<And>w. io_fd (io l' w) = io_fd (io l1 w)" using stream_start [OF i(1) h1 _ rw(1)] less.prems(3) fd by auto
      moreover have "moved h (b + 1) l l'" using 1 by (simp add: moved_def Cons io_only_frame [OF l'(4)])
      ultimately show ?thesis using 1(3) stream_later_trans [OF i(2)] io_only_frame [OF l'(4)] fio [OF l'(4)] f fd by (auto simp: stream_fd_def)
    next
      case 2
      obtain l' where l': "uv__io_stop h POLLOUT l1 = Some l'" "stream_inv k l'" "stream_later l1 l'" "io_only l1 l'"
        "\<And>w. io_fd (io l' w) = io_fd (io l1 w)" using stream_stop [OF i(1) h1 rw(2)] by auto
      moreover have "moved h (b + 1) l l'"
        unfolding moved_def using 2 by (intro exI [of _ "[r]"]) (simp add: Cons io_only_frame [OF l'(4)])
      ultimately show ?thesis using 2(3) stream_later_trans [OF i(2)] io_only_frame [OF l'(4)] fio [OF l'(4)] f fd by (auto simp: stream_fd_def)
    next
      case 3
      obtain l' where l': "uv__write_loop E h (b - 1) l1 = Some l'" "stream_inv k l'" "stream_later l1 l'" "moved h (b - 1 + 1) l1 l'"
        "h_flags l' = h_flags l1" "stream_fd h l' = stream_fd h l1" "\<And>g. g \<noteq> h \<Longrightarrow> frozen_at g l1 l'"
        using less.IH [of "b - 1" l1] 3(3) i(1) h1 less.prems(3) fd by auto
      obtain ds where "q = ds @ write_queue l' h" "write_completed l' h = write_completed l1 h @ ds" "length ds \<le> b"
        using l'(4) 3(1,3) by (auto simp: moved_def)
      then have "moved h (b + 1) l l'" unfolding moved_def using 3(2) by (intro exI [of _ "r # ds"]) (simp add: Cons)
      moreover have "frozen_at g l l'" if "g \<noteq> h" for g using frozen_at_trans [OF fz l'(7)] that by blast
      ultimately show ?thesis using 3(4) l' stream_later_trans [OF i(2)] f fd by (auto simp: stream_fd_def)
    next
      case 4
      moreover have "moved h (b + 1) l l1" unfolding moved_def using 4 by (intro exI [of _ "[r]"]) (simp add: Cons)
      ultimately show ?thesis using i f fd fz by auto
    qed
  qed
qed

lemma write_ok:
  assumes "kernel_ok E" and "stream_inv k l" and "h \<in> streams l" and "0 \<le> stream_fd h l"
  shows "\<exists>l'. uv__write E h l = Some l' \<and> stream_inv k l' \<and> stream_later l l' \<and> moved h 33 l l' \<and>
    h_flags l' = h_flags l \<and> stream_fd h l' = stream_fd h l \<and> (\<forall>g. g \<noteq> h \<longrightarrow> frozen_at g l l')"
  using write_loop_ok [OF assms, of 32] assms(4) by (simp add: uv__write_def)

section \<open>Completion callbacks\<close>

text \<open>A pass on the completed requests of \<open>h\<close> changes the local queue of \<open>h\<close>.\<close>

definition pass_later :: "addr \<Rightarrow> 'a stream_loop_scheme \<Rightarrow> 'a stream_loop_scheme \<Rightarrow> bool" where
  "pass_later h l l' \<longleftrightarrow> loop_later l l' \<and> (\<forall>g. g \<noteq> h \<longrightarrow> write_local l' g = write_local l g)"

lemma pass_later_trans: "pass_later h a b \<Longrightarrow> pass_later h b c \<Longrightarrow> pass_later h a c"
  using loop_later_trans [of a b c] streams_loop_later [of a b] by (auto simp: pass_later_def)

lemma stream_pass_later: "stream_later l l' \<Longrightarrow> pass_later h l l'"
  by (simp add: stream_later_split pass_later_def)

lemma pass_stream_later: "pass_later h l l' \<Longrightarrow> write_local l' h = write_local l h \<Longrightarrow> stream_later l l'"
  by (auto simp: stream_later_split pass_later_def)

text \<open>The state in which the callback of the first request of a pass is called.\<close>

definition done_state :: "addr \<Rightarrow> addr \<Rightarrow> addr list \<Rightarrow> 'a stream_loop_scheme \<Rightarrow> 'a stream_loop_scheme \<Rightarrow> bool" where
  "done_state h r rest l l' \<longleftrightarrow>
     l' = l\<lparr>active_reqs := active_reqs l - 1, req := (req l)(r := (req l r)\<lparr>r_bufs := None\<rparr>),
            write_local := (write_local l)(h := rest), write_size := (write_size l)(h := write_size l h - of_nat (length (unsent l r))),
            called := (called l)(h := called l h @ [(r, r_error (req l r))])\<rparr>"

lemma done_frame:
  assumes "done_state h r rest l l'"
  shows "h_flags l' = h_flags l" "h_type l' = h_type l" "handle_queue l' = handle_queue l" "closing_handles l' = closing_handles l"
    "active_handles l' = active_handles l" "active_reqs l' = active_reqs l - 1" "h_close_cb l' = h_close_cb l"
    "connect_req l' = connect_req l" "shutdown_req l' = shutdown_req l" "read_cb l' = read_cb l" "write_queue l' = write_queue l"
    "write_completed l' = write_completed l" "wire l' = wire l"
    "alloc_cb l' = alloc_cb l" "submitted l' = submitted l" "io l' = io l" "inv l' = inv l"
    "table_size l' = table_size l" "pending_local l' = pending_local l" "io_inv l' = io_inv l"
    "write_local l' = (write_local l)(h := rest)" "req l' = (req l)(r := (req l r)\<lparr>r_bufs := None\<rparr>)"
    "called l' = (called l)(h := called l h @ [(r, r_error (req l r))])"
    "write_size l' = (write_size l)(h := write_size l h - of_nat (length (unsent l r)))"
  unfolding assms [unfolded done_state_def] by (simp_all add: table_size_def) (rule io_inv_cong; simp)

lemma done_one:
  assumes one: "one_stream l h" and w: "write_local l h = r # rest" and d: "done_state h r rest l l'"
  shows "one_stream l' h"
proof -
  note one = one_streamD [OF one]
  note f = done_frame [OF d]
  have dist: "distinct (out l h)" using one(1) by (simp add: reqs_ok_def)
  have o: "out l h = r # out l' h" "connecting l' h = connecting l h" "shutdown_req l' h = shutdown_req l h"
    by (simp_all add: out_def w f connecting_def closed_def)
  have nr: "r \<notin> set (out l' h)" using dist o(1) by simp
  have own: "owned l h = insert r (owned l' h)" by (auto simp: owned_def o)
  have us: "unsent l' t = unsent l t" if "t \<noteq> r" for t by (rule unsent_cong) (simp add: f that)
  have "map (unsent l') (out l' h) = map (unsent l) (out l' h)" using us nr by (metis map_cong)
  then have sz: "length (concat (map (unsent l) (out l h))) = length (unsent l r) + length (concat (map (unsent l') (out l' h)))"
    using o(1) by (metis (no_types, lifting) concat.simps(2) length_append list.simps(9))
  have rq: "req l' t = req l t" if "t \<in> set (write_queue l h)" for t
    using that nr by (auto simp: out_def f)
  have "reqs_ok l' h"
  proof -
    have "r_handle (req l' t) = h" if "t \<in> owned l' h" for t using one(1) that own by (auto simp: reqs_ok_def f)
    then show ?thesis using one(1) rq unfolding reqs_ok_def o(2,3) f(11) by (auto simp: o(1))
  qed
  moreover have "size_ok l' h"
    using one(2) sz by (auto simp: size_ok_def f)
  moreover have "fifo_ok l' h" using one(3) by (simp add: fifo_ok_def o(1) f)
  moreover have "wire_ok l' h"
  proof -
    have "map (\<lambda>t. r_error (req l' t)) xs = map (\<lambda>t. r_error (req l t)) xs" for xs by (simp add: f)
    then have "statuses l' h = statuses l h" by (simp add: statuses_def f w)
    moreover have "map (unsent l') (write_queue l h) = map (unsent l) (write_queue l h)" using rq unsent_cong [of l' _ l] by auto
    moreover have "wire_bytes l' h = wire_bytes l h" by (simp add: wire_bytes_def f)
    ultimately show ?thesis using one(4) unfolding wire_ok_def f(11,15) by (simp only:)
  qed
  moreover have "mode_ok l' h" using one(5) msame_mode [of l l' h] by (simp add: msame_def f stream_fd_def)
  ultimately show ?thesis by (simp add: one_stream_def)
qed

lemma done_ok:
  assumes inv: "stream_inv k l" and h: "h \<in> streams l" and w: "write_local l h = r # rest" and d: "done_state h r rest l l'"
  shows "stream_inv k l' \<and> pass_later h l l'"
proof -
  note f = done_frame [OF d]
  have ones: "\<forall>h\<in>streams l. one_stream l h" using stream_inv_one [OF inv] by blast
  have one: "one_stream l' h" using done_one [OF _ w d] ones h by blast
  have st: "streams l' = streams l" by (simp add: streams_def f)
  have r: "r \<in> owned l h" by (simp add: owned_def out_def w)
  have nr: "r \<notin> owned l g" if "g \<in> streams l" "g \<noteq> h" for g
    using owned_disjoint [OF ones h that(1) r] that(2) by blast
  have same: "wsame l l' g \<and> msame l l' g" if "g \<in> streams l" "g \<noteq> h" for g
    using nr [OF that] that(2) by (auto simp: wsame_def msame_def connecting_def closed_def wire_bytes_def stream_fd_def f)
  have parts: "reqs_ok l h" using ones h by (simp add: one_stream_def)
  have o: "out l h = r # out l' h" "connecting l' h = connecting l h" "shutdown_req l' h = shutdown_req l h"
    by (simp_all add: out_def w f connecting_def closed_def)
  have "r \<notin> set (out l' h)" "r \<notin> set_option (connecting l h)" "r \<notin> set_option (shutdown_req l h)"
    using parts o(1) unfolding reqs_ok_def by auto
  then have oh: "owned l' h = owned l h - {r}" unfolding owned_def o by auto
  have og: "owned l' g = owned l g" if "g \<in> streams l" "g \<noteq> h" for g by (rule wsame_owned(1) [OF conjunct1 [OF same [OF that]]])
  note lv = live_remove [OF ones st h r oh og]
  have ct: "unat (active_reqs l') = card (live_reqs l') + k"
  proof -
    have c: "unat (active_reqs l) = card (live_reqs l) + k" by (rule stream_inv_count [OF inv])
    have "0 < card (live_reqs l)" using lv(2) live_finite card_gt_0_iff by blast
    then have "active_reqs l \<noteq> 0" using c by auto
    then have "unat (active_reqs l') = unat (active_reqs l) - 1" by (simp add: f unat_sub_one)
    then show ?thesis using c lv live_finite [of l] \<open>0 < card (live_reqs l)\<close> by simp
  qed
  have base: "io_inv l'" "handles_ok l'" "to_close [] l'"
    using stream_invD(1-3) [OF inv] handles_ok_cong [OF f(1,3,5)] to_close_cong [OF f(1,3,4)] f(20) by simp_all
  have loc: "write_local l' g = write_local l g" if "g \<notin> streams l" for g
  proof -
    have "g \<noteq> h" using that h by blast
    then show ?thesis by (simp add: f(21))
  qed
  have fd: "stream_fd g l' = stream_fd g l" "io_pevents (io l' g) = io_pevents (io l g)" for g by (simp_all add: stream_fd_def f(16))
  have "stream_inv k l'" by (rule stream_inv_step [OF inv h base f(3,2) one same loc fd(1) fd(1) fd(2) ct])
  moreover have "pass_later h l l'" by (simp add: pass_later_def loop_later_def f flag_views io_later_same)
  ultimately show ?thesis by simp
qed

text \<open>No assertion of the pass fails.\<close>

lemma write_done_ok:
  assumes inv: "stream_inv k l" and h: "h \<in> streams l" and w: "write_local l h = r # rest"
  shows "\<exists>l1. write_done r (l\<lparr>write_local := (write_local l)(h := rest)\<rparr>) = Some l1 \<and> r_error (req l1 r) = r_error (req l r) \<and>
    called l1 = called l \<and> done_state h r rest l (l1\<lparr>called := (called l1)(h := called l1 h @ [(r, r_error (req l r))])\<rparr>)"
proof -
  note parts = one_streamD [OF stream_inv_one [OF inv h]]
  have r: "r \<in> owned l h" by (simp add: owned_def out_def w)
  have "r \<in> live_reqs l" using r h by (auto simp: live_reqs_def)
  then have "0 < card (live_reqs l)" using live_finite card_gt_0_iff by blast
  then have a: "active_reqs l > 0" using stream_inv_count [OF inv] by (simp add: word_less_nat_alt)
  have rh: "r_handle (req l r) = h" using parts(1) r by (auto simp: reqs_ok_def)
  show ?thesis
  proof (cases "r_bufs (req l r)")
    case None
    then have u: "unsent l r = []" by (simp add: unsent_def)
    have "(req l r)\<lparr>r_bufs := None\<rparr> = req l r" by (simp add: None [symmetric])
    then have e: "(req l)(r := (req l r)\<lparr>r_bufs := None\<rparr>) = req l" by (metis fun_upd_triv)
    have "write_done r (l\<lparr>write_local := (write_local l)(h := rest)\<rparr>) =
        Some (l\<lparr>write_local := (write_local l)(h := rest), active_reqs := active_reqs l - 1\<rparr>)"
      using a None by (simp add: write_done_def uv__req_unregister_def uv__has_active_reqs_def)
    moreover have "done_state h r rest l (l\<lparr>write_local := (write_local l)(h := rest), active_reqs := active_reqs l - 1,
        called := (called l)(h := called l h @ [(r, r_error (req l r))])\<rparr>)"
      unfolding done_state_def e u by simp
    ultimately show ?thesis by simp
  next
    case (Some bs)
    then have u: "uv__count_bufs (drop (r_index (req l r)) bs) = of_nat (length (unsent l r))" by (simp add: unsent_def count_bufs)
    have "of_nat (length (unsent l r)) \<le> write_size l h"
    proof -
      let ?L = "length (concat (map (unsent l) (out l h)))"
      have L: "write_size l h = of_nat ?L" "?L < 2 ^ 64" using parts(2) by (simp_all add: size_ok_def)
      have "length (unsent l r) \<le> ?L" by (simp add: out_def w)
      then show ?thesis using L by (simp add: word_le_nat_alt unat_of_nat)
    qed
    then show ?thesis using a Some rh u
      by (simp add: write_done_def uv__req_unregister_def uv__has_active_reqs_def done_state_def uv__write_req_size_def set_req_def)
  qed
qed

text \<open>The callbacks do what the interface allows: in every state that satisfies the invariant they return, in
  such a state, and leave what is later true.  An allocation callback only chooses a size.\<close>

definition safe_env :: "nat \<Rightarrow> ('a stream_loop_scheme) stream_env \<Rightarrow> bool" where
  "safe_env k E \<longleftrightarrow> kernel_ok E \<and>
     (\<forall>cb r st l. stream_inv k l \<longrightarrow> (\<exists>l'. on_req E cb r st l = Some l' \<and> stream_inv k l' \<and> stream_later l l' \<and> frozen l l')) \<and>
     (\<forall>cb h n l. stream_inv k l \<longrightarrow> (\<exists>l'. on_read E cb h n l = Some l' \<and> stream_inv k l' \<and> stream_later l l' \<and> frozen l l')) \<and>
     (\<forall>cb h n l. \<exists>len. on_alloc E cb h n l = Some (len, l))"

lemma call_req_ok:
  assumes "safe_env k E" and "stream_inv k l"
  shows "\<exists>l'. call_req E r st l = Some l' \<and> stream_inv k l' \<and> stream_later l l' \<and> frozen l l'"
  using assms by (cases "r_cb (req l r)") (auto simp: call_req_def safe_env_def stream_later_refl)

lemma write_callbacks_loop_ok:
  assumes "safe_env k E" and "stream_inv k l" and "h \<in> streams l"
  shows "\<exists>l'. write_callbacks_loop E h l = Some l' \<and> stream_inv k l' \<and> pass_later h l l' \<and> write_local l' h = [] \<and>
    (closing l h \<longrightarrow> frozen_at h l l')"
  using assms(2,3)
proof (induction "length (write_local l h)" arbitrary: l)
  case 0
  then show ?case by (subst write_callbacks_loop.simps) (simp add: pass_later_def loop_later_def io_later_refl)
next
  case (Suc n)
  then obtain r rest where w: "write_local l h = r # rest" by (cases "write_local l h") auto
  obtain l1 where l1: "write_done r (l\<lparr>write_local := (write_local l)(h := rest)\<rparr>) = Some l1" "r_error (req l1 r) = r_error (req l r)"
    "called l1 = called l" "done_state h r rest l (l1\<lparr>called := (called l1)(h := called l1 h @ [(r, r_error (req l r))])\<rparr>)"
    using write_done_ok [OF Suc.prems w] by blast
  define l2 where "l2 = l1\<lparr>called := (called l1)(h := called l1 h @ [(r, r_error (req l r))])\<rparr>"
  have d: "done_state h r rest l l2" using l1(4) by (simp add: l2_def)
  have i2: "stream_inv k l2" "pass_later h l l2" using done_ok [OF Suc.prems w d] by simp_all
  have h2: "h \<in> streams l2" using i2(2) Suc.prems(2) streams_loop_later unfolding pass_later_def by blast
  obtain l3 where l3: "call_req E r (r_error (req l r)) l2 = Some l3" "stream_inv k l3" "stream_later l2 l3" "frozen l2 l3"
    using call_req_ok [OF assms(1) i2(1)] by blast
  have "write_local l3 h = rest" using l3(3) h2 done_frame(21) [OF d] by (simp add: stream_later_split)
  then have n: "n = length (write_local l3 h)" using Suc(2) w by simp
  have h3: "h \<in> streams l3" using l3(3) h2 streams_later by blast
  obtain l4 where l4: "write_callbacks_loop E h l3 = Some l4" "stream_inv k l4" "pass_later h l3 l4" "write_local l4 h = []"
    "closing l3 h \<longrightarrow> frozen_at h l3 l4"
    using Suc(1) [OF n l3(2) h3] by blast
  have hq: "h \<in> set (handle_queue l2)" using h2 by (simp add: streams_def)
  have "frozen_at h l l4" if "closing l h"
  proof -
    have c2: "closing l2 h" "frozen_at h l l2" using that done_frame [OF d] by (simp_all add: closing_def frozen_at_def)
    have "frozen_at h l2 l3" using l3(4) h2 c2(1) by (simp add: frozen_def)
    moreover have "closing l3 h" using l3(3) hq c2(1) by (simp add: stream_later_def)
    ultimately show ?thesis using l4(5) c2(2) frozen_at_trans by blast
  qed
  moreover  have "write_callbacks_loop E h l = Some l4"
    by (subst write_callbacks_loop.simps) (use w l1 l3(1) l4(1) in \<open>simp add: l2_def\<close>)
  ultimately show ?case using l4 pass_later_trans [OF i2(2) pass_later_trans [OF stream_pass_later [OF l3(3)] l4(3)]] by blast
qed

lemma move_ok:
  assumes inv: "stream_inv k l" and h: "h \<in> streams l" and w: "write_local l h = []"
  defines "l' \<equiv> l\<lparr>write_local := (write_local l)(h := write_completed l h), write_completed := (write_completed l)(h := [])\<rparr>"
  shows "stream_inv k l' \<and> pass_later h l l'"
proof -
  have f: "h_flags l' = h_flags l" "h_type l' = h_type l" "handle_queue l' = handle_queue l" "closing_handles l' = closing_handles l"
    "active_handles l' = active_handles l" "active_reqs l' = active_reqs l" "h_close_cb l' = h_close_cb l"
    "connect_req l' = connect_req l" "shutdown_req l' = shutdown_req l" "read_cb l' = read_cb l" "write_queue l' = write_queue l"
    "wire l' = wire l" "alloc_cb l' = alloc_cb l" "submitted l' = submitted l" "io l' = io l" "inv l' = inv l" "req l' = req l"
    "table_size l' = table_size l" "pending_local l' = pending_local l" "write_size l' = write_size l" "called l' = called l"
    "write_local l' = (write_local l)(h := write_completed l h)" "write_completed l' = (write_completed l)(h := [])"
    by (simp_all add: l'_def table_size_def)
  have ii: "io_inv l' = io_inv l" unfolding l'_def by (rule io_inv_cong) simp_all
  have st: "streams l' = streams l" by (simp add: streams_def f)
  have same: "wsame l l' g \<and> msame l l' g" if "g \<noteq> h" for g
    using that by (simp add: wsame_def msame_def connecting_def closed_def wire_bytes_def stream_fd_def f)
  have o: "out l' h = out l h" "owned l' h = owned l h" "statuses l' h = statuses l h" "wire_bytes l' h = wire_bytes l h"
    "connecting l' h = connecting l h"
    by (simp_all add: out_def owned_def statuses_def connecting_def closed_def wire_bytes_def f w)
  have us: "unsent l' = unsent l" by (rule ext, rule unsent_cong) (simp add: f)
  have "mode_ok l' h = mode_ok l h" by (rule msame_mode) (simp add: msame_def stream_fd_def f)
  then have one: "one_stream l' h" using stream_inv_one [OF inv h]
    by (simp add: one_stream_def reqs_ok_def size_ok_def fifo_ok_def wire_ok_def o f us)
  have "owned l' g = owned l g" for g using same wsame_owned(1) o(2) by (cases "g = h") blast+
  then have ct: "unat (active_reqs l') = card (live_reqs l') + k"
    using stream_inv_count [OF inv] live_same [OF st] by (simp add: f)
  have base: "io_inv l'" "handles_ok l'" "to_close [] l'"
    using stream_invD(1-3) [OF inv] handles_ok_cong [OF f(1,3,5)] to_close_cong [OF f(1,3,4)] ii by simp_all
  have loc: "write_local l' g = write_local l g" if "g \<notin> streams l" for g using that h by (auto simp: f)
  have fd: "stream_fd g l' = stream_fd g l" "io_pevents (io l' g) = io_pevents (io l g)" for g by (simp_all add: stream_fd_def f)
  have "stream_inv k l'" by (rule stream_inv_step [OF inv h base f(3,2) one same loc fd(1) fd(1) fd(2) ct])
  moreover have "pass_later h l l'" by (simp add: pass_later_def loop_later_def f flag_views io_later_same)
  ultimately show ?thesis by simp
qed

lemma write_callbacks_ok:
  assumes E: "safe_env k E" and inv: "stream_inv k l" and h: "h \<in> streams l" and w: "write_local l h = []"
  shows "\<exists>l'. uv__write_callbacks E h l = Some l' \<and> stream_inv k l' \<and> stream_later l l' \<and>
    (closing l h \<longrightarrow> write_completed l' h = [] \<and> write_queue l' h = write_queue l h \<and> shutdown_req l' h = shutdown_req l h \<and>
      connect_req l' h = connect_req l h)"
proof (cases "write_completed l h = []")
  case True
  then show ?thesis using inv by (simp add: uv__write_callbacks_def stream_later_refl)
next
  case False
  define l1 where "l1 = l\<lparr>write_local := (write_local l)(h := write_completed l h), write_completed := (write_completed l)(h := [])\<rparr>"
  have l1: "stream_inv k l1" "pass_later h l l1" using move_ok [OF inv h w] by (simp_all add: l1_def)
  have "h \<in> streams l1" using l1(2) h streams_loop_later unfolding pass_later_def by blast
  then obtain l2 where l2: "write_callbacks_loop E h l1 = Some l2" "stream_inv k l2" "pass_later h l1 l2" "write_local l2 h = []"
      "closing l1 h \<longrightarrow> frozen_at h l1 l2"
    using write_callbacks_loop_ok [OF E l1(1)] by blast
  have "stream_later l l2" using pass_stream_later [OF pass_later_trans [OF l1(2) l2(3)]] l2(4) w by simp
  moreover have "uv__write_callbacks E h l = Some l2" using False l2(1) by (simp add: uv__write_callbacks_def l1_def)
  moreover have "closing l h \<longrightarrow> frozen_at h l1 l2" using l2(5) by (simp add: l1_def closing_def)
  ultimately show ?thesis using l2(2) by (auto simp: frozen_at_def l1_def)
qed

section \<open>Failing the queue\<close>

lemma flush_loop_ok:
  assumes "stream_inv k l" and "h \<in> streams l" and "write_queue l h = q" and "st \<noteq> OK"
  shows "stream_inv k (flush_loop h st q l) \<and> stream_later l (flush_loop h st q l) \<and> write_queue (flush_loop h st q l) h = [] \<and>
    h_flags (flush_loop h st q l) = h_flags l \<and> shutdown_req (flush_loop h st q l) = shutdown_req l \<and>
    connect_req (flush_loop h st q l) = connect_req l"
  using assms(1-3)
proof (induction q arbitrary: l)
  case (Cons r q)
  define l1 where "l1 = (set_req r ((req l r)\<lparr>r_error := st\<rparr>) (l\<lparr>write_queue := (write_queue l)(h := q)\<rparr>))\<lparr>
    write_completed := (write_completed l)(h := write_completed l h @ [r])\<rparr>"
  have f: "write_queue l1 = (write_queue l)(h := q)" "write_completed l1 = (write_completed l)(h := write_completed l h @ [r])"
    "write_size l1 = write_size l" "wire l1 = wire l" "req l1 = (req l)(r := (req l r)\<lparr>r_error := st\<rparr>)"
    by (simp_all add: l1_def set_req_def)
  have t: "touches h r l l1" by (simp add: touches_def l1_def set_req_def)
  note one = stream_inv_one [OF Cons.prems(1,2)]
  have r: "r \<in> owned l h" by (simp add: owned_def out_def Cons.prems(3))
  have rh: "r_handle (req l r) = h" using one_streamD(1) [OF one] r by (auto simp: reqs_ok_def)
  have "one_stream l1 h"
    by (rule head_done [OF one Cons.prems(3), of 0])
      (use touches_head [OF t] rh assms(4) in \<open>simp_all add: f wire_bytes_def unsent_def split: option.split\<close>)
  moreover have "out l1 h = out l h" by (simp add: out_def f touches_frame [OF t] Cons.prems(3))
  ultimately have i: "stream_inv k l1" "stream_later l l1" using touches_inv [OF Cons.prems(1,2) t r] by simp_all
  have h1: "h \<in> streams l1" using i(2) Cons.prems(2) streams_later by blast
  have "flush_loop h st (r # q) l = flush_loop h st q l1" by (simp add: l1_def set_req_def)
  then show ?case using Cons.IH [OF i(1) h1] stream_later_trans [OF i(2)] f(1) touches_frame [OF t] by auto
qed (simp add: stream_later_refl)

lemma flush_ok:
  assumes "stream_inv k l" and "h \<in> streams l" and "st \<noteq> OK"
  defines "l' \<equiv> uv__stream_flush_write_queue h st l"
  shows "stream_inv k l' \<and> stream_later l l' \<and> write_queue l' h = [] \<and> h_flags l' = h_flags l \<and> shutdown_req l' = shutdown_req l \<and>
    connect_req l' = connect_req l"
  using flush_loop_ok [OF assms(1,2) refl assms(3)] by (simp add: l'_def uv__stream_flush_write_queue_def)

section \<open>Flags\<close>

lemmas stream_flag_defs = UV_HANDLE_SHUT_def UV_HANDLE_READ_PARTIAL_def UV_HANDLE_READ_EOF_def UV_HANDLE_READING_def
  UV_HANDLE_BOUND_def UV_HANDLE_READABLE_def UV_HANDLE_WRITABLE_def UV_HANDLE_BLOCKING_WRITES_def

lemma stream_bits:
  "bit UV_HANDLE_SHUT n = (n = 9)" "bit UV_HANDLE_READ_PARTIAL n = (n = 10)" "bit UV_HANDLE_READ_EOF n = (n = 11)"
  "bit UV_HANDLE_READING n = (n = 12)" "bit UV_HANDLE_BOUND n = (n = 13)" "bit UV_HANDLE_READABLE n = (n = 14)"
  "bit UV_HANDLE_WRITABLE n = (n = 15)" "bit UV_HANDLE_BLOCKING_WRITES n = (n = 20)"
proof -
  have *: "bit (push_bit k 1 :: u32) n = (n = k)" if "k < 32" for k
    using that by (auto simp: bit_simps)
  show "bit UV_HANDLE_SHUT n = (n = 9)" "bit UV_HANDLE_READ_PARTIAL n = (n = 10)" "bit UV_HANDLE_READ_EOF n = (n = 11)"
    "bit UV_HANDLE_READING n = (n = 12)" "bit UV_HANDLE_BOUND n = (n = 13)" "bit UV_HANDLE_READABLE n = (n = 14)"
    "bit UV_HANDLE_WRITABLE n = (n = 15)" "bit UV_HANDLE_BLOCKING_WRITES n = (n = 20)"
    using * [of 9] * [of 10] * [of 11] * [of 12] * [of 13] * [of 14] * [of 15] * [of 20] by (simp_all add: stream_flag_defs)
qed

lemma flagged_bits:
  "flagged h UV_HANDLE_SHUT l = bit (h_flags l h) 9" "flagged h UV_HANDLE_READ_PARTIAL l = bit (h_flags l h) 10"
  "flagged h UV_HANDLE_READ_EOF l = bit (h_flags l h) 11" "flagged h UV_HANDLE_READING l = bit (h_flags l h) 12"
  "flagged h UV_HANDLE_READABLE l = bit (h_flags l h) 14" "flagged h UV_HANDLE_WRITABLE l = bit (h_flags l h) 15"
  "flagged h UV_HANDLE_BLOCKING_WRITES l = bit (h_flags l h) 20" "flagged h UV_HANDLE_CLOSING l = bit (h_flags l h) 0"
  "flagged h UV_HANDLE_CLOSED l = bit (h_flags l h) 1"
proof -
  have *: "and f (push_bit n 1) \<noteq> 0 \<longleftrightarrow> bit f n" if "n < 32" for f :: u32 and n
    by (simp add: bit_iff_and_push_bit_not_eq_0)
  show "flagged h UV_HANDLE_SHUT l = bit (h_flags l h) 9" "flagged h UV_HANDLE_READ_PARTIAL l = bit (h_flags l h) 10"
    "flagged h UV_HANDLE_READ_EOF l = bit (h_flags l h) 11" "flagged h UV_HANDLE_READING l = bit (h_flags l h) 12"
    "flagged h UV_HANDLE_READABLE l = bit (h_flags l h) 14" "flagged h UV_HANDLE_WRITABLE l = bit (h_flags l h) 15"
    "flagged h UV_HANDLE_BLOCKING_WRITES l = bit (h_flags l h) 20" "flagged h UV_HANDLE_CLOSING l = bit (h_flags l h) 0"
    "flagged h UV_HANDLE_CLOSED l = bit (h_flags l h) 1"
    using * [of 9 "h_flags l h"] * [of 10 "h_flags l h"] * [of 11 "h_flags l h"] * [of 12 "h_flags l h"] * [of 14 "h_flags l h"]
      * [of 15 "h_flags l h"] * [of 20 "h_flags l h"]
    by (simp_all add: flagged_def flag_bits) (simp_all add: has_flag_def stream_flag_defs)
qed

section \<open>Steps on the state of a stream\<close>

text \<open>A step that changes flags of a stream (not those of every handle), its callbacks for reading, or drops its
  connect or shutdown request.\<close>

definition mode_step :: "addr \<Rightarrow> 'a stream_loop_scheme \<Rightarrow> 'a stream_loop_scheme \<Rightarrow> bool" where
  "mode_step h l l' \<longleftrightarrow>
     l' = l\<lparr>active_reqs := active_reqs l', h_flags := h_flags l', connect_req := connect_req l', shutdown_req := shutdown_req l',
            read_cb := read_cb l', alloc_cb := alloc_cb l', delayed_error := delayed_error l', accepted_fd := accepted_fd l',
            queued_fds := queued_fds l', emfile_fd := emfile_fd l', sys := sys l', fd_log := fd_log l'\<rparr> \<and>
     (\<forall>g. g \<noteq> h \<longrightarrow> h_flags l' g = h_flags l g \<and> connect_req l' g = connect_req l g \<and> shutdown_req l' g = shutdown_req l g \<and>
        read_cb l' g = read_cb l g \<and> alloc_cb l' g = alloc_cb l g) \<and>
     (\<forall>n<4. bit (h_flags l' h) n = bit (h_flags l h) n) \<and>
     (connect_req l' h = connect_req l h \<or> connect_req l' h = None) \<and> (shutdown_req l' h = shutdown_req l h \<or> shutdown_req l' h = None)"

lemma mode_step_frame:
  assumes "mode_step h l l'"
  shows "h_type l' = h_type l" "handle_queue l' = handle_queue l" "closing_handles l' = closing_handles l"
    "active_handles l' = active_handles l" "h_close_cb l' = h_close_cb l" "req l' = req l" "wire l' = wire l"
    "write_local l' = write_local l" "write_queue l' = write_queue l" "write_completed l' = write_completed l" "write_size l' = write_size l"
    "submitted l' = submitted l" "called l' = called l" "io l' = io l" "inv l' = inv l"
    "table_size l' = table_size l" "pending_local l' = pending_local l" "io_inv l' = io_inv l"
proof -
  let ?l = "l\<lparr>active_reqs := active_reqs l', h_flags := h_flags l', connect_req := connect_req l', shutdown_req := shutdown_req l',
            read_cb := read_cb l', alloc_cb := alloc_cb l', delayed_error := delayed_error l', accepted_fd := accepted_fd l',
            queued_fds := queued_fds l', emfile_fd := emfile_fd l', sys := sys l', fd_log := fd_log l'\<rparr>"
  have e: "l' = ?l" using assms by (simp add: mode_step_def)
  show "h_type l' = h_type l" "handle_queue l' = handle_queue l" "closing_handles l' = closing_handles l"
    "active_handles l' = active_handles l" "h_close_cb l' = h_close_cb l" "req l' = req l" "wire l' = wire l"
    "write_local l' = write_local l" "write_queue l' = write_queue l" "write_completed l' = write_completed l" "write_size l' = write_size l"
    "submitted l' = submitted l" "called l' = called l" "io l' = io l" "inv l' = inv l"
    "table_size l' = table_size l" "pending_local l' = pending_local l"
    by (subst e, simp add: table_size_def)+
  show "io_inv l' = io_inv l" by (subst e, rule io_inv_cong) simp_all
qed

lemma mode_step_flags:
  assumes "mode_step h l l'"
  shows "closing l' g = closing l g" "closed l' g = closed l g" "active l' g = active l g" "refd l' g = refd l g"
  using assms unfolding mode_step_def flag_views by (cases "g = h"; simp)+

lemma mode_step_inv:
  assumes inv: "stream_inv k l" and h: "h \<in> streams l" and m: "mode_step h l l'" and ok: "mode_ok l' h"
    and ct: "unat (active_reqs l') = card (live_reqs l') + k'"
  shows "stream_inv k' l' \<and> stream_later l l'"
proof -
  note f = mode_step_frame [OF m] and fl = mode_step_flags [OF m]
  have g: "h_flags l' g = h_flags l g" "connect_req l' g = connect_req l g" "shutdown_req l' g = shutdown_req l g"
    "read_cb l' g = read_cb l g" "alloc_cb l' g = alloc_cb l g" if "g \<noteq> h" for g using m that by (simp_all add: mode_step_def)
  have sub: "connecting l' h = connecting l h \<or> connecting l' h = None" "shutdown_req l' h = shutdown_req l h \<or> shutdown_req l' h = None"
    using m by (auto simp: mode_step_def connecting_def fl)
  note one = one_streamD [OF stream_inv_one [OF inv h]]
  have o: "out l' h = out l h" "statuses l' h = statuses l h" "wire_bytes l' h = wire_bytes l h"
    by (simp_all add: out_def statuses_def wire_bytes_def f)
  have us: "unsent l' = unsent l" by (rule ext, rule unsent_cong) (simp add: f)
  have own: "owned l' h \<subseteq> owned l h" using sub unfolding owned_def o by auto
  have "reqs_ok l' h" using one(1) sub own unfolding reqs_ok_def o f by auto
  then have "one_stream l' h" using one ok by (simp add: one_stream_def size_ok_def fifo_ok_def wire_ok_def o us f)
  moreover have "wsame l l' g \<and> msame l l' g" if "g \<noteq> h" for g
    using g [OF that] by (simp add: wsame_def msame_def connecting_def fl wire_bytes_def stream_fd_def f)
  moreover have "handles_ok l'" "to_close [] l'"
    using stream_invD(2,3) [OF inv] by (simp_all add: handles_ok_def alive_handles_def to_close_def fl f)
  moreover have "stream_fd w l' = stream_fd w l" "io_pevents (io l' w) = io_pevents (io l w)" for w by (simp_all add: stream_fd_def f)
  ultimately have "stream_inv k' l'"
    using stream_inv_step [OF inv h, of l' k'] stream_inv_io [OF inv] ct f by metis
  moreover have "stream_later l l'" by (simp add: stream_later_def f fl io_later_same)
  ultimately show ?thesis by simp
qed

lemma mode_step_owned:
  assumes "mode_step h l l'" and "g \<noteq> h"
  shows "owned l' g = owned l g"
proof -
  have "connect_req l' g = connect_req l g" "shutdown_req l' g = shutdown_req l g" using assms by (simp_all add: mode_step_def)
  then show ?thesis by (simp add: owned_def out_def connecting_def mode_step_flags [OF assms(1)] mode_step_frame [OF assms(1)])
qed

lemma mode_step_count:
  assumes inv: "stream_inv k l" and h: "h \<in> streams l" and m: "mode_step h l l'"
  shows "owned l' h = owned l h \<Longrightarrow> active_reqs l' = active_reqs l \<Longrightarrow> unat (active_reqs l') = card (live_reqs l') + k"
    and "owned l' h = owned l h - {r} \<Longrightarrow> r \<in> owned l h \<Longrightarrow> active_reqs l' = active_reqs l - 1 \<Longrightarrow> unat (active_reqs l') = card (live_reqs l') + k"
    and "r \<in> owned l h \<Longrightarrow> active_reqs l > 0"
proof -
  have st: "streams l' = streams l" by (simp add: streams_def mode_step_frame [OF m])
  have ones: "\<forall>h\<in>streams l. one_stream l h" using stream_inv_one [OF inv] by blast
  have ct: "unat (active_reqs l) = card (live_reqs l) + k" by (rule stream_inv_count [OF inv])
  note og = mode_step_owned [OF m]
  {
    assume o: "owned l' h = owned l h" and a: "active_reqs l' = active_reqs l"
    have "owned l' g = owned l g" for g using og o by (cases "g = h") auto
    then have "live_reqs l' = live_reqs l" by (rule live_same [OF st])
    then show "unat (active_reqs l') = card (live_reqs l') + k" using ct a by simp
  next
    assume r: "r \<in> owned l h"
    have "r \<in> live_reqs l" using r h by (auto simp: live_reqs_def)
    then have p: "0 < card (live_reqs l)" using live_finite card_gt_0_iff by blast
    then show a: "active_reqs l > 0" using ct by (simp add: word_less_nat_alt)
    {
      assume o: "owned l' h = owned l h - {r}" and a: "active_reqs l' = active_reqs l - 1"
      note lv = live_remove [OF ones st h r o og]
      have "active_reqs l \<noteq> 0" using ct p by auto
      then have "unat (active_reqs l') = unat (active_reqs l) - 1" by (simp add: a unat_sub_one)
      then show "unat (active_reqs l') = card (live_reqs l') + k" using ct lv p live_finite [of l] by simp
    }
  }
qed

lemma mode_ok_bits:
  assumes "mode_ok l h" and "mode_step h l l'" and "\<And>n. n \<in> {12, 14, 15, 20} \<Longrightarrow> bit (h_flags l' h) n \<Longrightarrow> bit (h_flags l h) n"
    and "bit (h_flags l' h) 12 \<Longrightarrow> read_cb l' h \<noteq> None \<and> alloc_cb l' h \<noteq> None"
  shows "mode_ok l' h"
proof -
  have "stream_fd h l' = stream_fd h l" "h_type l' h = h_type l h" by (simp_all add: stream_fd_def mode_step_frame [OF assms(2)])
  moreover have "connect_req l' h \<noteq> None \<Longrightarrow> connect_req l h \<noteq> None" using assms(2) by (auto simp: mode_step_def)
  ultimately show ?thesis
    using assms(1) assms(3) [of 12] assms(3) [of 14] assms(3) [of 15] assms(3) [of 20] assms(4)
    unfolding mode_ok_def flagged_bits mode_step_flags(1) [OF assms(2)] by auto
qed

lemma flag_on_simps [simp]:
  "h_flags (flag_on h m l) = (h_flags l)(h := add_flag (h_flags l h) m)" "h_flags (flag_off h m l) = (h_flags l)(h := del_flag (h_flags l h) m)"
  by (simp_all add: flag_on_def flag_off_def set_flags_def)

lemma stream_parts:
  assumes "stream_inv k l" and "h \<in> streams l"
  shows "reqs_ok l h" "mode_ok l h" "h_type l h \<in> {UV_TCP, UV_NAMED_PIPE, UV_TTY}" "h \<in> set (handle_queue l)" "- 1 \<le> stream_fd h l"
  using one_streamD [OF stream_inv_one [OF assms]] assms(2) stream_inv_io [OF assms(1)]
  by (simp_all add: streams_def io_inv_def io_masked_def stream_fd_def)

text \<open>A request leaves the stream before its callback.\<close>

lemma shutdown_gone:
  assumes inv: "stream_inv k l" and h: "h \<in> streams l" and s: "shutdown_req l h = Some r" and m: "mode_step h l l'"
    and c: "shutdown_req l' h = None" "connect_req l' h = connect_req l h" "active_reqs l' = active_reqs l - 1" and ok: "mode_ok l' h"
  shows "stream_inv k l' \<and> stream_later l l'"
proof -
  have r: "r \<in> owned l h" by (simp add: owned_def s)
  have "r \<notin> set (out l h)" "r \<notin> set_option (connecting l h)" using stream_parts(1) [OF inv h] by (auto simp: reqs_ok_def s)
  moreover have "out l' h = out l h" "connecting l' h = connecting l h"
    by (simp_all add: out_def connecting_def mode_step_frame [OF m] mode_step_flags [OF m] c)
  ultimately have "owned l' h = owned l h - {r}" by (auto simp: owned_def s c)
  then show ?thesis using mode_step_inv [OF inv h m ok mode_step_count(2) [OF inv h m _ r c(3)]] by blast
qed

lemma connect_gone:
  assumes inv: "stream_inv k l" and h: "h \<in> streams l" and s: "connecting l h = Some r" and m: "mode_step h l l'"
    and c: "connect_req l' h = None" "shutdown_req l' h = shutdown_req l h" "active_reqs l' = active_reqs l - 1" and ok: "mode_ok l' h"
  shows "stream_inv k l' \<and> stream_later l l'"
proof -
  have r: "r \<in> owned l h" by (simp add: owned_def s)
  have "r \<notin> set (out l h)" "r \<notin> set_option (shutdown_req l h)" using stream_parts(1) [OF inv h] by (auto simp: reqs_ok_def s)
  moreover have "out l' h = out l h" "connecting l' h = None"
    by (simp_all add: out_def connecting_def mode_step_frame [OF m] mode_step_flags [OF m] c)
  ultimately have "owned l' h = owned l h - {r}" by (auto simp: owned_def s c)
  then show ?thesis using mode_step_inv [OF inv h m ok mode_step_count(2) [OF inv h m _ r c(3)]] by blast
qed

lemma unregister_ok:
  assumes "stream_inv k l" and "h \<in> streams l" and "r \<in> owned l h"
  shows "active_reqs l > 0"
proof -
  have "mode_step h l l" by (simp add: mode_step_def)
  then show ?thesis using mode_step_count(3) assms by blast
qed

lemma drain_ok:
  assumes E: "safe_env k E" and inv: "stream_inv k l" and h: "h \<in> streams l" and q: "write_queue l h = []"
  shows "\<exists>l'. uv__drain E h l = Some l' \<and> stream_inv k l' \<and> stream_later l l' \<and>
    (closing l h \<longrightarrow> shutdown_req l' h = None \<and> write_queue l' h = [] \<and> write_completed l' h = write_completed l h \<and>
      connect_req l' h = connect_req l h)"
proof -
  have "valid_events POLLOUT" using rw_valid by (auto simp: rw_events_def)
  then obtain l1 where l1: "(if flagged h UV_HANDLE_CLOSING l then Some l else uv__io_stop h POLLOUT l) = Some l1"
    "stream_inv k l1" "stream_later l l1" "h_flags l1 = h_flags l" "shutdown_req l1 = shutdown_req l" "write_queue l1 h = []"
    "closing l h \<longrightarrow> l1 = l"
  proof (cases "flagged h UV_HANDLE_CLOSING l")
    case True
    then show ?thesis using that [of l] inv q by (simp add: stream_later_refl)
  next
    case False
    then have c: "\<not> closing l h" by (simp add: flagged_bits closing_def)
    obtain l1 where l1: "uv__io_stop h POLLOUT l = Some l1" "stream_inv k l1" "stream_later l l1" "io_only l l1"
      using stream_stop [OF inv h \<open>valid_events POLLOUT\<close>] by blast
    show ?thesis by (rule that [of l1]) (use False c q l1 in \<open>simp_all add: io_only_frame [OF l1(4)]\<close>)
  qed
  have h1: "h \<in> streams l1" using l1(3) h streams_later by blast
  have cl: "flagged h UV_HANDLE_CLOSING l1" if "closing l h" using that l1(4) by (simp add: flagged_bits closing_def)
  show ?thesis
  proof (cases "shutdown_req l1 h")
    case None
    then show ?thesis using q l1 by (auto simp: uv__drain_def)
  next
    case (Some r)
    show ?thesis
    proof (cases "flagged h UV_HANDLE_CLOSING l1 \<or> \<not> flagged h UV_HANDLE_SHUT l1")
      case False
      then show ?thesis using q l1 Some cl by (auto simp: uv__drain_def)
    next
      case True
      have a: "active_reqs l1 > 0" using unregister_ok [OF l1(2) h1, of r] by (simp add: owned_def Some)
      let ?c = "l1\<lparr>shutdown_req := (shutdown_req l1)(h := None), active_reqs := active_reqs l1 - 1\<rparr>"
      let ?err = "sys_shutdown E (sys l1) (stream_fd h l1)"
      let ?d = "?c\<lparr>sys := sys l1 + 1\<rparr>"
      define l2 where "l2 = (if flagged h UV_HANDLE_CLOSING l1 then ?c else if ?err = OK then flag_on h UV_HANDLE_SHUT ?d else ?d)"
      define st where "st = (if flagged h UV_HANDLE_CLOSING l1 then Inl UV_ECANCELED else ?err)"
      have m: "mode_step h l1 l2"
        by (auto simp: l2_def mode_step_def stream_bits set_flags_def flag_on_def)
      have f: "shutdown_req l2 h = None" "connect_req l2 h = connect_req l1 h" "active_reqs l2 = active_reqs l1 - 1"
        "read_cb l2 h = read_cb l1 h" "alloc_cb l2 h = alloc_cb l1 h"
        by (simp_all add: l2_def flag_on_def set_flags_def)
      have b: "bit (h_flags l2 h) n \<longleftrightarrow> bit (h_flags l1 h) n" if "n \<noteq> 9" for n using that by (simp add: l2_def stream_bits)
      have rd: "bit (h_flags l1 h) 12 \<Longrightarrow> read_cb l1 h \<noteq> None \<and> alloc_cb l1 h \<noteq> None"
        using stream_parts(2) [OF l1(2) h1] by (simp add: mode_ok_def flagged_bits)
      have "mode_ok l2 h"
      proof (rule mode_ok_bits [OF stream_parts(2) [OF l1(2) h1] m])
        fix n :: nat
        assume n: "n \<in> {12, 14, 15, 20}" "bit (h_flags l2 h) n"
        then have "n \<noteq> 9" by auto
        then show "bit (h_flags l1 h) n" using n(2) b by blast
      next
        assume "bit (h_flags l2 h) 12"
        then show "read_cb l2 h \<noteq> None \<and> alloc_cb l2 h \<noteq> None" using b [of 12] rd f(4,5) by simp
      qed
      then have i2: "stream_inv k l2" "stream_later l1 l2" using shutdown_gone [OF l1(2) h1 Some m f(1-3)] by simp_all
      obtain l3 where l3: "call_req E r st l2 = Some l3" "stream_inv k l3" "stream_later l2 l3" "frozen l2 l3"
        using call_req_ok [OF E i2(1)] by blast
      have fr: "shutdown_req l3 h = None \<and> write_queue l3 h = [] \<and> write_completed l3 h = write_completed l h \<and>
        connect_req l3 h = connect_req l h" if "closing l h"
      proof -
        have "closing l2 h" using cl [OF that] b [of 0] by (simp add: flagged_bits closing_def)
        moreover have "h \<in> streams l2" using i2(2) h1 streams_later by blast
        ultimately have "frozen_at h l2 l3" using l3(4) by (simp add: frozen_def)
        moreover have "l1 = l" using l1(7) that by simp
        ultimately show ?thesis using f(1,2) q mode_step_frame [OF m] by (simp add: frozen_at_def)
      qed
      have "uv__drain E h l = call_req E r st l2"
        using q l1(1) Some True a
        by (simp add: uv__drain_def uv__req_unregister_def uv__has_active_reqs_def st_def l2_def Let_def flagged_def stream_fd_def)
      then show ?thesis using l3(1,2) fr stream_later_trans [OF stream_later_trans [OF l1(3) i2(2)] l3(3)] by auto
    qed
  qed
qed

lemma mode_ok_keep:
  assumes "mode_ok l h" and "mode_step h l l'" and "\<And>n. n \<in> {12, 14, 15, 20} \<Longrightarrow> bit (h_flags l' h) n \<Longrightarrow> bit (h_flags l h) n"
    and "read_cb l' h = read_cb l h" "alloc_cb l' h = alloc_cb l h"
  shows "mode_ok l' h"
  by (rule mode_ok_bits [OF assms(1-3)]) (use assms(1,4,5) assms(3) [of 12] in \<open>simp_all add: mode_ok_def flagged_bits\<close>)

lemma mode_same:
  assumes "mode_ok l h" and "mode_step h l l'" and "h_flags l' h = h_flags l h" "read_cb l' h = read_cb l h" "alloc_cb l' h = alloc_cb l h"
  shows "mode_ok l' h"
  by (rule mode_ok_keep [OF assms(1,2)]) (simp_all add: assms(3-5))

text \<open>A step that keeps the requests.\<close>

lemma mode_step_keep:
  assumes inv: "stream_inv k l" and h: "h \<in> streams l" and m: "mode_step h l l'" and ok: "mode_ok l' h"
    and c: "connect_req l' h = connect_req l h" "shutdown_req l' h = shutdown_req l h" "active_reqs l' = active_reqs l"
  shows "stream_inv k l' \<and> stream_later l l'"
proof -
  have "owned l' h = owned l h"
    by (simp add: owned_def out_def connecting_def mode_step_frame [OF m] mode_step_flags [OF m] c)
  then show ?thesis using mode_step_inv [OF inv h m ok mode_step_count(1) [OF inv h m _ c(3)]] by blast
qed

text \<open>A change of the stream's own flags.\<close>

lemma flag_frame [simp]:
  fixes l :: "'a stream_loop_scheme"
  shows "read_cb (flag_on h m l) = read_cb l" "read_cb (flag_off h m l) = read_cb l"
    "alloc_cb (flag_on h m l) = alloc_cb l" "alloc_cb (flag_off h m l) = alloc_cb l"
    "connect_req (flag_on h m l) = connect_req l" "connect_req (flag_off h m l) = connect_req l"
    "shutdown_req (flag_on h m l) = shutdown_req l" "shutdown_req (flag_off h m l) = shutdown_req l"
    "active_reqs (flag_on h m l) = active_reqs l" "active_reqs (flag_off h m l) = active_reqs l"
    "io (flag_on h m l) = io l" "io (flag_off h m l) = io l"
    "write_queue (flag_on h m l) = write_queue l" "write_queue (flag_off h m l) = write_queue l"
  by (simp_all add: flag_on_def flag_off_def set_flags_def)

lemma flag_off_ok:
  assumes inv: "stream_inv k l" and h: "h \<in> streams l" and b: "\<forall>n<4. \<not> bit m n"
  shows "stream_inv k (flag_off h m l) \<and> stream_later l (flag_off h m l)"
proof -
  have m: "mode_step h l (flag_off h m l)" using b by (simp add: mode_step_def) (simp add: flag_off_def set_flags_def)
  have "mode_ok (flag_off h m l) h"
    by (rule mode_ok_keep [OF stream_parts(2) [OF inv h] m]) (auto split: if_splits)
  then show ?thesis using mode_step_keep [OF inv h m] by simp
qed

lemma flag_on_ok:
  assumes inv: "stream_inv k l" and h: "h \<in> streams l" and b: "\<forall>n<4. \<not> bit m n" "\<forall>n\<in>{12, 14, 15, 20}. \<not> bit m n"
  shows "stream_inv k (flag_on h m l) \<and> stream_later l (flag_on h m l)"
proof -
  have m: "mode_step h l (flag_on h m l)" using b(1) by (simp add: mode_step_def) (simp add: flag_on_def set_flags_def)
  have "mode_ok (flag_on h m l) h"
    by (rule mode_ok_keep [OF stream_parts(2) [OF inv h] m]) (use b(2) in \<open>auto split: if_splits\<close>)
  then show ?thesis using mode_step_keep [OF inv h m] by simp
qed

section \<open>Connecting\<close>

lemma connect_ok:
  assumes E: "safe_env k E" and inv: "stream_inv k l" and h: "h \<in> streams l" and w: "write_local l h = []"
    and r: "connect_req l h = Some r" and nc: "\<not> flagged h UV_HANDLE_CLOSING l" "\<not> closed l h"
  shows "\<exists>l'. uv__stream_connect E h l = Some l' \<and> stream_inv k l' \<and> stream_later l l'"
proof -
  note p = stream_parts [OF inv h]
  have ty: "h_type l h \<in> {UV_TCP, UV_NAMED_PIPE}" "0 \<le> stream_fd h l"
    using p(2) r nc by (auto simp: mode_ok_def flagged_bits closing_def)
  obtain error l1 where l1: "(case delayed_error l h of
             Some e \<Rightarrow> Some (Settled (Inl e), l\<lparr>delayed_error := (delayed_error l)(h := None)\<rparr>)
           | None \<Rightarrow> if stream_fd h l < 0 then None else Some (sys_so_error E (sys l) (stream_fd h l), l\<lparr>sys := sys l + 1\<rparr>)) = Some (error, l1)"
    and m1: "mode_step h l l1" and e1: "h_flags l1 = h_flags l" "read_cb l1 = read_cb l" "alloc_cb l1 = alloc_cb l" "connect_req l1 = connect_req l"
      "shutdown_req l1 = shutdown_req l" "active_reqs l1 = active_reqs l"
    using ty(2) by (cases "delayed_error l h") (simp_all add: mode_step_def)
  have i1: "stream_inv k l1" "stream_later l l1"
    using mode_step_keep [OF inv h m1 mode_same [OF p(2) m1]] e1 by simp_all
  have h1: "h \<in> streams l1" using i1(2) h streams_later by blast
  show ?thesis
  proof (cases error)
    case EINPROGRESS
    then show ?thesis using ty r l1 i1 by (simp add: uv__stream_connect_def)
  next
    case (Settled st)
    have cn: "connecting l1 h = Some r" using nc(2) r by (simp add: connecting_def closed_def e1)
    have a: "active_reqs l1 > 0" using unregister_ok [OF i1(1) h1, of r] by (simp add: owned_def cn)
    define l2 where "l2 = l1\<lparr>connect_req := (connect_req l1)(h := None), active_reqs := active_reqs l1 - 1\<rparr>"
    have m2: "mode_step h l1 l2" by (simp add: l2_def mode_step_def)
    have "mode_ok l2 h" by (rule mode_same [OF stream_parts(2) [OF i1(1) h1] m2]) (simp_all add: l2_def)
    then have i2: "stream_inv k l2" "stream_later l1 l2"
      using connect_gone [OF i1(1) h1 cn m2] by (simp_all add: l2_def)
    have h2: "h \<in> streams l2" using i2(2) h1 streams_later by blast
    have "valid_events POLLOUT" using rw_valid by (auto simp: rw_events_def)
    then obtain l3 where l3: "(if st \<noteq> OK \<or> write_queue l2 h = [] then uv__io_stop h POLLOUT l2 else Some l2) = Some l3"
      "stream_inv k l3" "stream_later l2 l3"
      using stream_stop [OF i2(1) h2] i2(1) stream_later_refl [of l2] by (cases "st \<noteq> OK \<or> write_queue l2 h = []") auto
    obtain l4 where l4: "call_req E r st l3 = Some l4" "stream_inv k l4" "stream_later l3 l4" using call_req_ok [OF E l3(2)] by blast
    have later: "stream_later l l4"
      using i1(2) i2(2) l3(3) l4(3) stream_later_trans by blast
    have un: "uv__req_unregister (l1\<lparr>connect_req := (connect_req l1)(h := None)\<rparr>) = Some l2"
      using a by (simp add: uv__req_unregister_def uv__has_active_reqs_def l2_def)
    have eq: "uv__stream_connect E h l = (if stream_fd h l4 = - 1 then Some l4
        else if st \<noteq> OK then uv__write_callbacks E h (uv__stream_flush_write_queue h (Inl UV_ECANCELED) l4) else Some l4)"
      using ty(1) r l1 Settled l3(1) l4(1) un by (simp add: uv__stream_connect_def)
    have h4: "h \<in> streams l4" using later h streams_later by blast
    have w4: "write_local l4 h = []" using later h w by (simp add: stream_later_split)
    define l5 where "l5 = uv__stream_flush_write_queue h (Inl UV_ECANCELED) l4"
    have i5: "stream_inv k l5" "stream_later l4 l5" using flush_ok [OF l4(2) h4, of "Inl UV_ECANCELED"] by (simp_all add: l5_def)
    have h5: "h \<in> streams l5" "write_local l5 h = []" using i5(2) h4 w4 streams_later by (auto simp: stream_later_split)
    obtain l6 where l6: "uv__write_callbacks E h l5 = Some l6" "stream_inv k l6" "stream_later l5 l6"
      using write_callbacks_ok [OF E i5(1) h5] by blast
    show ?thesis
    proof (cases "stream_fd h l4 \<noteq> - 1 \<and> st \<noteq> OK")
      case True
      then show ?thesis using eq l6 stream_later_trans [OF later stream_later_trans [OF i5(2) l6(3)]] by (auto simp: l5_def)
    next
      case False
      then show ?thesis using eq l4(2) later by auto
    qed
  qed
qed

section \<open>Submitting a write\<close>

definition append_state :: "addr \<Rightarrow> addr \<Rightarrow> u8 list list \<Rightarrow> nat option \<Rightarrow> 'a stream_loop_scheme \<Rightarrow> 'a stream_loop_scheme" where
  "append_state r h bufs cb l =
     l\<lparr>active_reqs := active_reqs l + 1,
       req := (req l)(r := \<lparr>r_handle = h, r_cb = cb, r_error = OK, r_send = None, r_bufs = Some bufs, r_index = 0\<rparr>),
       write_size := (write_size l)(h := write_size l h + uv__count_bufs bufs),
       write_queue := (write_queue l)(h := write_queue l h @ [r]),
       submitted := (submitted l)(h := submitted l h @ [(r, concat bufs)])\<rparr>"

definition room_for :: "addr \<Rightarrow> nat \<Rightarrow> 'a stream_loop_scheme \<Rightarrow> bool" where
  "room_for h n l \<longleftrightarrow> length (concat (map (unsent l) (out l h))) + n < 2 ^ 64"

lemma append_frame:
  assumes "l' = append_state r h bufs cb l"
  shows "h_flags l' = h_flags l" "h_type l' = h_type l" "handle_queue l' = handle_queue l" "closing_handles l' = closing_handles l"
    "active_handles l' = active_handles l" "active_reqs l' = active_reqs l + 1" "h_close_cb l' = h_close_cb l"
    "connect_req l' = connect_req l" "shutdown_req l' = shutdown_req l" "read_cb l' = read_cb l" "alloc_cb l' = alloc_cb l"
    "write_queue l' = (write_queue l)(h := write_queue l h @ [r])"
    "write_completed l' = write_completed l" "write_local l' = write_local l" "wire l' = wire l" "called l' = called l"
    "submitted l' = (submitted l)(h := submitted l h @ [(r, concat bufs)])" "io l' = io l" "inv l' = inv l"
    "table_size l' = table_size l" "pending_local l' = pending_local l" "io_inv l' = io_inv l"
    "req l' = (req l)(r := \<lparr>r_handle = h, r_cb = cb, r_error = OK, r_send = None, r_bufs = Some bufs, r_index = 0\<rparr>)"
    "write_size l' = (write_size l)(h := write_size l h + uv__count_bufs bufs)"
  unfolding assms append_state_def by (simp_all add: table_size_def) (rule io_inv_cong; simp)

lemma qdata_snoc: "us \<noteq> [] \<Longrightarrow> qdata p (us @ [u]) = qdata p us @ [u]"
  by (cases us) auto

lemma append_one:
  fixes cb :: "nat option"
  assumes one: "one_stream l h" and r: "r \<notin> owned l h" and b: "bufs \<noteq> []" and room: "room_for h (length (concat bufs)) l"
  defines "l' \<equiv> append_state r h bufs cb l"
  shows "one_stream l' h"
proof -
  note one = one_streamD [OF one]
  note f = append_frame [OF l'_def [THEN meta_eq_to_obj_eq]]
  have o: "out l' h = out l h @ [r]" "connecting l' h = connecting l h" by (simp_all add: out_def f connecting_def closed_def)
  have own: "owned l' h = insert r (owned l h)" by (auto simp: owned_def o f)
  have rq: "req l' t = req l t" if "t \<in> owned l h" for t using that r by (auto simp: f)
  have us: "unsent l' t = unsent l t" if "t \<in> set (out l h)" for t
    using rq [of t] that unsent_cong by (auto simp: owned_def)
  have ur: "unsent l' r = concat bufs" by (simp add: unsent_def f)
  have mp: "map (unsent l') (out l h) = map (unsent l) (out l h)" using us by (intro map_cong refl) blast
  have "reqs_ok l' h"
  proof -
    have "r_handle (req l' t) = h" if "t \<in> owned l' h" for t
      using that one(1) rq [of t] by (cases "t = r") (auto simp: own reqs_ok_def f)
    moreover have "req l' t = req l t" if "t \<in> set (write_queue l h)" for t using rq [of t] that by (simp add: owned_def out_def)
    moreover have "req l' r = \<lparr>r_handle = h, r_cb = cb, r_error = OK, r_send = None, r_bufs = Some bufs, r_index = 0\<rparr>" by (simp add: f)
    moreover have "r \<notin> set (out l h)" "r \<notin> set_option (connecting l h)" "r \<notin> set_option (shutdown_req l h)"
      using r by (auto simp: owned_def)
    ultimately show ?thesis using one(1) b unfolding reqs_ok_def o f(9,12) by auto
  qed
  moreover have "size_ok l' h"
  proof -
    have "concat (map (unsent l') (out l' h)) = concat (map (unsent l) (out l h)) @ concat bufs"
      using mp by (simp only: o map_append concat_append) (simp add: ur)
    then show ?thesis using one(2) room by (simp add: size_ok_def room_for_def f count_bufs)
  qed
  moreover have "fifo_ok l' h" using one(3) by (simp add: fifo_ok_def f o)
  moreover have "wire_ok l' h"
  proof -
    obtain ds p where ds: "map snd (submitted l h) = map fst ds @ qdata p (map (unsent l) (write_queue l h))"
      "statuses l h = map (fst \<circ> snd) ds" "wire_bytes l h = concat (map (snd \<circ> snd) ds) @ p" "write_queue l h = [] \<longrightarrow> p = []"
      "\<forall>(d, st, s)\<in>set ds. prefix s d \<and> (st = OK \<longrightarrow> s = d)" using one(4) unfolding wire_ok_def by blast
    have "map (\<lambda>t. r_error (req l' t)) (write_local l h @ write_completed l h) = map (\<lambda>t. r_error (req l t)) (write_local l h @ write_completed l h)"
    proof (intro map_cong refl)
      fix t
      assume "t \<in> set (write_local l h @ write_completed l h)"
      then have "t \<in> owned l h" by (auto simp: owned_def out_def)
      then show "r_error (req l' t) = r_error (req l t)" using rq by simp
    qed
    then have "statuses l' h = statuses l h" unfolding statuses_def f(13,14,16) by (simp only:)
    moreover have "wire_bytes l' h = wire_bytes l h" by (simp add: wire_bytes_def f)
    moreover have "qdata p (map (unsent l') (write_queue l' h)) = qdata p (map (unsent l) (write_queue l h)) @ [concat bufs]"
    proof -
      have "map (unsent l') (write_queue l h) = map (unsent l) (write_queue l h)" using us by (intro map_cong refl) (simp add: out_def)
      then have "map (unsent l') (write_queue l' h) = map (unsent l) (write_queue l h) @ [concat bufs]"
        by (simp only: f(12) fun_upd_same map_append) (simp add: ur)
      then show ?thesis using ds(4) by (cases "write_queue l h = []") (simp_all add: qdata_snoc)
    qed
    ultimately show ?thesis unfolding wire_ok_def using ds by (intro exI [of _ ds] exI [of _ p]) (simp add: f)
  qed
  moreover have "mode_ok l' h" using one(5) msame_mode [of l l' h] by (simp add: msame_def f stream_fd_def)
  ultimately show ?thesis by (simp add: one_stream_def)
qed

lemma append_ok:
  fixes cb :: "nat option"
  assumes inv: "stream_inv k l" and h: "h \<in> streams l" and r: "r \<notin> live_reqs l" and b: "bufs \<noteq> []"
    and room: "room_for h (length (concat bufs)) l" and a: "unat (active_reqs l) + 1 < 2 ^ 32"
  defines "l' \<equiv> append_state r h bufs cb l"
  shows "stream_inv k l' \<and> stream_later l l'"
proof -
  note f = append_frame [OF l'_def [THEN meta_eq_to_obj_eq]]
  have rn: "r \<notin> owned l g" if "g \<in> streams l" for g using r that by (auto simp: live_reqs_def)
  have one: "one_stream l' h"
    unfolding l'_def by (rule append_one [OF stream_inv_one [OF inv h] rn [OF h] b room])
  have st: "streams l' = streams l" by (simp add: streams_def f)
  have same: "wsame l l' g \<and> msame l l' g" if "g \<in> streams l" "g \<noteq> h" for g
    using rn [OF that(1)] that(2) by (auto simp: wsame_def msame_def connecting_def closed_def wire_bytes_def stream_fd_def f)
  have oh: "owned l' h = insert r (owned l h)" by (auto simp: owned_def out_def f connecting_def closed_def)
  have og: "owned l' g = owned l g" if "g \<in> streams l" "g \<noteq> h" for g by (rule wsame_owned(1) [OF conjunct1 [OF same [OF that]]])
  have lv: "live_reqs l' = insert r (live_reqs l)" by (rule live_insert [OF st h oh og])
  have ct: "unat (active_reqs l') = card (live_reqs l') + k"
    using stream_inv_count [OF inv] a r live_finite [of l] by (simp add: lv f unat_add_one_less)
  have base: "io_inv l'" "handles_ok l'" "to_close [] l'"
    using stream_invD(1-3) [OF inv] handles_ok_cong [OF f(1,3,5)] to_close_cong [OF f(1,3,4)] f(22) by simp_all
  have fd: "stream_fd g l' = stream_fd g l" "io_pevents (io l' g) = io_pevents (io l g)" for g by (simp_all add: stream_fd_def f)
  have loc: "write_local l' g = write_local l g" for g by (simp add: f)
  have "stream_inv k l'" by (rule stream_inv_step [OF inv h base f(3,2) one same loc fd(1) fd(1) fd(2) ct])
  moreover have "stream_later l l'" by (simp add: stream_later_def f flag_views io_later_same)
  ultimately show ?thesis by simp
qed

lemma write2_ok:
  assumes E: "kernel_ok E" and inv: "stream_inv k l" and h: "h \<in> streams l" and r: "r \<notin> live_reqs l" and b: "bufs \<noteq> []"
    and room: "room_for h (length (concat bufs)) l" and a: "unat (active_reqs l) + 1 < 2 ^ 32"
  shows "\<exists>st l'. uv_write2 E r h bufs None cb l = Some (st, l') \<and> stream_inv k l' \<and> stream_later l l' \<and>
    frozen l l' \<and> (st \<noteq> OK \<longrightarrow> l' = l) \<and> (st = OK \<longleftrightarrow> 0 \<le> stream_fd h l \<and> flagged h UV_HANDLE_WRITABLE l)"
proof -
  note p = stream_parts [OF inv h]
  have mem: "mem_ok l n" for n using stream_inv_io [OF inv] by (simp add: io_inv_def memory_def)
  obtain st where st: "uv__check_before_write h (length bufs) None l = Some st" "st = OK \<longleftrightarrow> 0 \<le> stream_fd h l \<and> flagged h UV_HANDLE_WRITABLE l"
    using p(3) b by (auto simp: uv__check_before_write_def)
  show ?thesis
  proof (cases "st = OK")
    case False
    then show ?thesis using st inv by (intro exI [of _ st] exI [of _ l]) (auto simp: uv_write2_def stream_later_refl)
  next
    case True
    define l1 where "l1 = append_state r h bufs cb l"
    have i1: "stream_inv k l1" "stream_later l l1" using append_ok [OF inv h r b room a] by (simp_all add: l1_def)
    note f = append_frame [OF l1_def]
    have h1: "h \<in> streams l1" using i1(2) h streams_later by blast
    have fd: "0 \<le> stream_fd h l1" using st(2) True by (simp add: stream_fd_def f)
    have nb: "\<not> flagged h UV_HANDLE_BLOCKING_WRITES l1" using stream_parts(2) [OF i1(1) h1] by (simp add: mode_ok_def)
    have eq: "uv_write2 E r h bufs None cb l =
        (if connect_req l1 h \<noteq> None then Some (OK, l1) else if write_size l h = 0 then map_option (Pair OK) (uv__write E h l1)
         else map_option (Pair OK) (uv__io_start h POLLOUT l1))"
    proof -
      have "set_req r \<lparr>r_handle = h, r_cb = cb, r_error = OK, r_send = None, r_bufs = None, r_index = r_index (req l r)\<rparr> (uv__req_register l) =
          l\<lparr>active_reqs := active_reqs l + 1, req := (req l)(r := \<lparr>r_handle = h, r_cb = cb, r_error = OK, r_send = None, r_bufs = None, r_index = r_index (req l r)\<rparr>)\<rparr>"
        by (simp add: set_req_def uv__req_register_def)
      then show ?thesis using st(1) True nb mem
        by (simp add: uv_write2_def Let_def l1_def append_state_def set_req_def uv__req_register_def)
    qed
    have nc: "\<not> closing l h" using p(2) st(2) True by (auto simp: mode_ok_def)
    have fz: "frozen_at g l l1" if "g \<noteq> h" for g using that by (simp add: frozen_at_def f)
    have frz: "frozen l l'" if "\<And>g. g \<noteq> h \<Longrightarrow> frozen_at g l1 l'" for l'
      unfolding frozen_def
    proof (intro ballI impI)
      fix g
      assume "closing l g"
      then have "g \<noteq> h" using nc by blast
      then show "frozen_at g l l'" using frozen_at_trans [OF fz that] by blast
    qed
    obtain l2 where l2: "uv__write E h l1 = Some l2" "stream_inv k l2" "stream_later l1 l2" "\<forall>g. g \<noteq> h \<longrightarrow> frozen_at g l1 l2"
      using write_ok [OF E i1(1) h1 fd] by blast
    obtain l3 where l3: "uv__io_start h POLLOUT l1 = Some l3" "stream_inv k l3" "stream_later l1 l3" "io_only l1 l3"
      using stream_start [OF i1(1) h1 fd, of POLLOUT] by (auto simp: rw_events_def)
    have z: "frozen l l1" "frozen l l2" "frozen l l3"
      using frz [of l1] frz [of l2] frz [of l3] l2(4) io_only_frame [OF l3(4)] by (simp_all add: frozen_at_def)
    show ?thesis using eq i1 l2(1-3) l3(1-3) z True st(2) stream_later_trans [OF i1(2)]
      by (cases "connect_req l1 h = None"; cases "write_size l h = 0") auto
  qed
qed

section \<open>Starting and stopping the handle of a stream\<close>

lemma handle_bits:
  "n \<noteq> 2 \<Longrightarrow> bit (h_flags (uv__handle_start h l) g) n = bit (h_flags l g) n"
  "n \<noteq> 2 \<Longrightarrow> n < 32 \<Longrightarrow> bit (h_flags (uv__handle_stop h l) g) n = bit (h_flags l g) n"
  "g \<noteq> h \<Longrightarrow> h_flags (uv__handle_start h l) g = h_flags l g" "g \<noteq> h \<Longrightarrow> h_flags (uv__handle_stop h l) g = h_flags l g"
  by (auto simp: handle_defs Let_def bit_flags)

lemma handle_stream_frame [simp]:
  fixes l :: "'a stream_loop_scheme"
  shows "req (uv__handle_start h l) = req l" "req (uv__handle_stop h l) = req l"
    "write_local (uv__handle_start h l) = write_local l" "write_local (uv__handle_stop h l) = write_local l"
    "write_queue (uv__handle_start h l) = write_queue l" "write_queue (uv__handle_stop h l) = write_queue l"
    "write_completed (uv__handle_start h l) = write_completed l" "write_completed (uv__handle_stop h l) = write_completed l"
    "write_size (uv__handle_start h l) = write_size l" "write_size (uv__handle_stop h l) = write_size l"
    "connect_req (uv__handle_start h l) = connect_req l" "connect_req (uv__handle_stop h l) = connect_req l"
    "shutdown_req (uv__handle_start h l) = shutdown_req l" "shutdown_req (uv__handle_stop h l) = shutdown_req l"
    "submitted (uv__handle_start h l) = submitted l" "submitted (uv__handle_stop h l) = submitted l"
    "called (uv__handle_start h l) = called l" "called (uv__handle_stop h l) = called l"
    "wire (uv__handle_start h l) = wire l" "wire (uv__handle_stop h l) = wire l"
    "read_cb (uv__handle_start h l) = read_cb l" "read_cb (uv__handle_stop h l) = read_cb l"
    "alloc_cb (uv__handle_start h l) = alloc_cb l" "alloc_cb (uv__handle_stop h l) = alloc_cb l"
    "h_close_cb (uv__handle_start h l) = h_close_cb l" "h_close_cb (uv__handle_stop h l) = h_close_cb l"
    "accepted_fd (uv__handle_stop h l) = accepted_fd l" "queued_fds (uv__handle_stop h l) = queued_fds l"
    "pending_local (uv__handle_start h l) = pending_local l" "pending_local (uv__handle_stop h l) = pending_local l"
  by (simp_all add: handle_defs Let_def)

lemma handle_step:
  assumes inv: "stream_inv k l" and h: "h \<in> streams l" and l': "l' = uv__handle_start h l \<and> \<not> closing l h \<or> l' = uv__handle_stop h l"
  shows "stream_inv k l' \<and> stream_later l l'"
proof -
  have hq: "h \<in> set (handle_queue l)" by (rule stream_parts(4) [OF inv h])
  have f: "handle_queue l' = handle_queue l" "closing_handles l' = closing_handles l" "active_reqs l' = active_reqs l" "h_type l' = h_type l"
    "req l' = req l" "write_local l' = write_local l" "write_queue l' = write_queue l" "write_completed l' = write_completed l"
    "write_size l' = write_size l" "connect_req l' = connect_req l" "shutdown_req l' = shutdown_req l" "submitted l' = submitted l"
    "called l' = called l" "wire l' = wire l" "read_cb l' = read_cb l" "alloc_cb l' = alloc_cb l" "h_close_cb l' = h_close_cb l"
    "io l' = io l" "inv l' = inv l" "table_size l' = table_size l" "pending_local l' = pending_local l" "io_inv l' = io_inv l"
    using l' by auto
  have fl: "closing l' g = closing l g" "closed l' g = closed l g" for g using l' by auto
  have b: "bit (h_flags l' g) n = bit (h_flags l g) n" if "n \<in> {0, 12, 14, 15, 20}" for g n
  proof -
    have "n \<noteq> 2" "n < 32" using that by auto
    then show ?thesis using l' handle_bits(1) [of n h l g] handle_bits(2) [of n h l g] by auto
  qed
  have other: "h_flags l' g = h_flags l g" if "g \<noteq> h" for g using l' handle_bits(3) [OF that, of l] handle_bits(4) [OF that, of l] by auto
  have w: "wsame l l' g" for g by (simp add: wsame_def f connecting_def fl wire_bytes_def)
  have ms: "msame l l' g" if "g \<noteq> h" for g using other [OF that] by (simp add: msame_def f stream_fd_def)
  have "mode_ok l' h = mode_ok l h"
    using b [of 12 h] b [of 14 h] b [of 15 h] b [of 20 h] by (simp add: mode_ok_def flagged_bits f fl stream_fd_def)
  then have one: "one_stream l' h" using stream_inv_one [OF inv h] wsame_parts [OF w] by (simp add: one_stream_def)
  have "live_reqs l' = live_reqs l" by (intro live_same) (simp_all add: streams_def f wsame_owned(1) [OF w])
  then have ct: "unat (active_reqs l') = card (live_reqs l') + k" using stream_inv_count [OF inv] by (simp add: f)
  have hk: "handles_ok l'" using l' handles_start [OF stream_inv_handles [OF inv] hq] handles_stop [OF stream_inv_handles [OF inv] hq] by auto
  have tc: "to_close [] l'" using stream_inv_close [OF inv] by (simp add: to_close_def f fl)
  have fd: "stream_fd g l' = stream_fd g l" "io_pevents (io l' g) = io_pevents (io l g)" for g by (simp_all add: stream_fd_def f)
  have loc: "write_local l' g = write_local l g" for g by (simp add: f)
  have io: "io_inv l'" using stream_inv_io [OF inv] f by simp
  have same: "wsame l l' g \<and> msame l l' g" if "g \<noteq> h" for g using w ms that by simp
  have "stream_inv k l'" by (rule stream_inv_step [OF inv h io hk tc f(1,4) one same loc fd(1) fd(1) fd(2) ct])
  moreover have "stream_later l l'" by (simp add: stream_later_def f fl io_later_same)
  ultimately show ?thesis by simp
qed

section \<open>Reading\<close>

lemma stop_reading_ok:
  assumes inv: "stream_inv k l" and h: "h \<in> streams l"
  shows "\<exists>l'. stop_reading h l = Some l' \<and> stream_inv k l' \<and> stream_later l l' \<and> read_cb l' = read_cb l \<and> alloc_cb l' = alloc_cb l \<and>
    \<not> flagged h UV_HANDLE_READING l' \<and> (\<forall>w. io_fd (io l' w) = io_fd (io l w))"
proof -
  let ?a = "flag_off h UV_HANDLE_READING l"
  have a: "stream_inv k ?a" "stream_later l ?a" using flag_off_ok [OF inv h, of UV_HANDLE_READING] by (simp_all add: stream_bits)
  have ha: "h \<in> streams ?a" using a(2) h streams_later by blast
  have "valid_events POLLIN" using rw_valid by (auto simp: rw_events_def)
  then obtain l1 where l1: "uv__io_stop h POLLIN ?a = Some l1" "stream_inv k l1" "stream_later ?a l1" "io_only ?a l1"
    "\<And>w. io_fd (io l1 w) = io_fd (io ?a w)" using stream_stop [OF a(1) ha] by blast
  have h1: "h \<in> streams l1" using l1(3) ha streams_later by blast
  have c: "stream_inv k (uv__handle_stop h l1)" "stream_later l1 (uv__handle_stop h l1)" using handle_step [OF l1(2) h1] by blast+
  have "\<not> flagged h UV_HANDLE_READING (uv__handle_stop h l1)"
    by (simp add: flagged_bits handle_bits io_only_frame [OF l1(4)] stream_bits)
  moreover have "stop_reading h l = Some (uv__handle_stop h l1)" using l1(1) by (simp add: stop_reading_def)
  ultimately show ?thesis
    using c stream_later_trans [OF a(2) stream_later_trans [OF l1(3) c(2)]] l1(5) io_only_frame [OF l1(4)]
    by (intro exI [of _ "uv__handle_stop h l1"]) (simp add: flag_off_def set_flags_def)
qed

lemma call_read_ok:
  assumes "safe_env k E" and "stream_inv k l" and "read_cb l h \<noteq> None"
  shows "\<exists>l'. call_read E h n l = Some l' \<and> stream_inv k l' \<and> stream_later l l'"
proof -
  obtain cb where cb: "read_cb l h = Some cb" using assms(3) by blast
  then show ?thesis using assms(1,2) unfolding call_read_def safe_env_def by fastforce
qed

lemma stream_eof_ok:
  assumes E: "safe_env k E" and inv: "stream_inv k l" and h: "h \<in> streams l" and rd: "flagged h UV_HANDLE_READING l"
  shows "\<exists>l'. uv__stream_eof E h l = Some l' \<and> stream_inv k l' \<and> stream_later l l'"
proof -
  let ?a = "flag_on h UV_HANDLE_READ_EOF l"
  have cb: "read_cb l h \<noteq> None" using stream_parts(2) [OF inv h] rd by (simp add: mode_ok_def)
  have a: "stream_inv k ?a" "stream_later l ?a" using flag_on_ok [OF inv h, of UV_HANDLE_READ_EOF] by (auto simp: stream_bits)
  have ha: "h \<in> streams ?a" using a(2) h streams_later by blast
  obtain l1 where l1: "stop_reading h ?a = Some l1" "stream_inv k l1" "stream_later ?a l1" "read_cb l1 = read_cb ?a"
    using stop_reading_ok [OF a(1) ha] by blast
  have "read_cb l1 h \<noteq> None" using l1(4) cb by (simp add: flag_on_def set_flags_def)
  then obtain l2 where "call_read E h (Inl UV_EOF) l1 = Some l2" "stream_inv k l2" "stream_later l1 l2" using call_read_ok [OF E l1(2)] by blast
  then show ?thesis using l1(1) stream_later_trans [OF a(2) stream_later_trans [OF l1(3)]] by (auto simp: uv__stream_eof_def)
qed

text \<open>Receiving descriptors.\<close>

definition recv_only :: "'a stream_loop_scheme \<Rightarrow> 'a stream_loop_scheme \<Rightarrow> bool" where
  "recv_only l l' \<longleftrightarrow> l' = l\<lparr>accepted_fd := accepted_fd l', queued_fds := queued_fds l', fd_log := fd_log l'\<rparr>"

lemma recv_only_trans: "recv_only a b \<Longrightarrow> recv_only b c \<Longrightarrow> recv_only a c"
  unfolding recv_only_def by (erule ssubst [of c], erule ssubst [of b]) simp

lemma close_fds_only: "recv_only l (fold (\<lambda>_. uv__close_fd fd) xs l)"
proof (induction xs arbitrary: l)
  case (Cons x xs)
  have "recv_only l (uv__close_fd fd l)" by (simp add: recv_only_def uv__close_fd_def)
  then show ?case using Cons [of "uv__close_fd fd l"] recv_only_trans by simp blast
qed (simp add: recv_only_def)

lemma queue_fd_only: "uv__stream_queue_fd h fd l = (st, l') \<Longrightarrow> recv_only l l'"
  by (auto simp: uv__stream_queue_fd_def recv_only_def split: option.splits if_splits)

lemma recv_fds_only: "recv_fds h fds l = (st, l') \<Longrightarrow> recv_only l l'"
proof (induction fds arbitrary: l)
  case (Cons fd fds)
  show ?case
  proof (cases "accepted_fd l h \<noteq> - 1")
    case True
    obtain st1 l1 where q: "uv__stream_queue_fd h fd l = (st1, l1)" by (cases "uv__stream_queue_fd h fd l")
    note o = queue_fd_only [OF q]
    show ?thesis
    proof (cases st1)
      case (Inl e)
      then have "l' = fold (\<lambda>_. uv__close_fd fd) (fd # fds) l1" using Cons.prems True q by simp
      then show ?thesis using recv_only_trans [OF o close_fds_only] by blast
    next
      case (Inr u)
      then show ?thesis using Cons.prems True q Cons.IH [of l1] recv_only_trans [OF o] by simp
    qed
  next
    case False
    have "recv_only l (l\<lparr>accepted_fd := (accepted_fd l)(h := fd)\<rparr>)" by (simp add: recv_only_def)
    then show ?thesis using Cons.prems False Cons.IH recv_only_trans by simp blast
  qed
qed (simp add: recv_only_def)

lemma recv_cmsg_only: "uv__stream_recv_cmsg h msgs l = (st, l') \<Longrightarrow> recv_only l l'"
proof (induction h msgs l rule: uv__stream_recv_cmsg.induct)
  case (3 h fds msgs l)
  obtain st1 l1 where q: "recv_fds h fds l = (st1, l1)" by (cases "recv_fds h fds l")
  then show ?case using 3 recv_fds_only [OF q] recv_only_trans by (cases st1) auto
qed (auto simp: recv_only_def)

lemma recv_only_step: "recv_only l l' \<Longrightarrow> mode_step h l l'"
proof -
  assume r: "recv_only l l'"
  have "h_flags l' = h_flags l" "connect_req l' = connect_req l" "shutdown_req l' = shutdown_req l" "read_cb l' = read_cb l"
    "alloc_cb l' = alloc_cb l" "active_reqs l' = active_reqs l" "delayed_error l' = delayed_error l" "emfile_fd l' = emfile_fd l" "sys l' = sys l"
    by (subst r [unfolded recv_only_def], simp)+
  then show ?thesis using r by (simp add: mode_step_def recv_only_def)
qed

lemma recv_only_frame:
  assumes "recv_only l l'"
  shows "h_flags l' = h_flags l" "read_cb l' = read_cb l" "alloc_cb l' = alloc_cb l" "connect_req l' = connect_req l"
    "shutdown_req l' = shutdown_req l" "active_reqs l' = active_reqs l"
  by (subst assms [unfolded recv_only_def], simp)+

lemma recv_ok:
  assumes inv: "stream_inv k l" and h: "h \<in> streams l" and r: "recv_only l l'"
  shows "stream_inv k l' \<and> stream_later l l'"
proof -
  note m = recv_only_step [OF r, of h] and f = recv_only_frame [OF r]
  have "mode_ok l' h" by (rule mode_same [OF stream_parts(2) [OF inv h] m]) (simp_all add: f)
  then show ?thesis using mode_step_keep [OF inv h m] f by simp
qed

lemma sys_ok:
  assumes inv: "stream_inv k l" and h: "h \<in> streams l"
  shows "stream_inv k (l\<lparr>sys := j\<rparr>) \<and> stream_later l (l\<lparr>sys := j\<rparr>)"
proof -
  have m: "mode_step h l (l\<lparr>sys := j\<rparr>)" by (simp add: mode_step_def)
  have "mode_ok (l\<lparr>sys := j\<rparr>) h" by (rule mode_same [OF stream_parts(2) [OF inv h] m]) simp_all
  then show ?thesis using mode_step_keep [OF inv h m] by simp
qed

lemma read_loop_ok:
  assumes E: "safe_env k E"
  shows "stream_inv k l \<Longrightarrow> h \<in> streams l \<Longrightarrow> \<exists>l'. read_loop E h n l = Some l' \<and> stream_inv k l' \<and> stream_later l l'"
proof (induction n arbitrary: l)
  case (Suc n)
  note inv = Suc.prems(1) and h = Suc.prems(2)
  show ?case
  proof (cases "read_cb l h = None \<or> \<not> flagged h UV_HANDLE_READING l")
    case True
    then show ?thesis using inv stream_later_refl by auto
  next
    case False
    then have rd: "flagged h UV_HANDLE_READING l" and cb: "read_cb l h \<noteq> None" by simp_all
    obtain acb where acb: "alloc_cb l h = Some acb" using stream_parts(2) [OF inv h] rd by (auto simp: mode_ok_def)
    have fd: "0 \<le> stream_fd h l" using stream_parts(2) [OF inv h] rd by (simp add: mode_ok_def)
    obtain len where len: "on_alloc E acb h (64 * 1024) l = Some (len, l)" using E unfolding safe_env_def by blast
    show ?thesis
    proof (cases "len = 0")
      case True
      then show ?thesis using call_read_ok [OF E inv cb, of "Inl UV_ENOBUFS"] False acb len by auto
    next
      case ln: False
      let ?f = "\<lambda>k. sys_read E k (stream_fd h l) len"
      have "uninterrupted ?f" using E by (simp add: safe_env_def kernel_ok_def)
      then obtain j where j: "eintr ?f (sys l) = Some (?f j, j + 1)" using eintr_returns by blast
      define l1 where "l1 = l\<lparr>sys := j + 1\<rparr>"
      have i1: "stream_inv k l1" "stream_later l l1" using sys_ok [OF inv h] by (simp_all add: l1_def)
      have h1: "h \<in> streams l1" using i1(2) h streams_later by blast
      have f1: "flagged h UV_HANDLE_READING l1" "read_cb l1 h \<noteq> None" "0 \<le> stream_fd h l1" "h_type l1 = h_type l" "pipe_ipc l1 = pipe_ipc l"
        using rd cb fd by (simp_all add: l1_def flagged_def stream_fd_def)
      have rdl: "read_loop E h (Suc n) l = (case ?f j of
            Inl e \<Rightarrow>
              (if e = UV_EAGAIN then Option.bind (uv__io_start h POLLIN l1) (call_read E h (Inr []))
               else Option.bind (call_read E h (Inl e) (flag_off h (or UV_HANDLE_READABLE UV_HANDLE_WRITABLE) l1))
                 (\<lambda>l. if flagged h UV_HANDLE_READING l then stop_reading h l else Some l))
          | Inr (bytes, cmsgs) \<Rightarrow>
              (if bytes = [] then uv__stream_eof E h l1
               else
                 (case (if h_type l1 h = UV_NAMED_PIPE \<and> pipe_ipc l1 h then uv__stream_recv_cmsg h cmsgs l1 else (OK, l1)) of
                    (Inl e, l) \<Rightarrow> call_read E h (Inl e) l
                  | (Inr _, l) \<Rightarrow> Option.bind (call_read E h (Inr bytes) l)
                      (\<lambda>l. if length bytes < len then Some (flag_on h UV_HANDLE_READ_PARTIAL l) else read_loop E h n l))))"
      proof -
        have "flagged h UV_HANDLE_READING (l\<lparr>sys := x\<rparr>) = flagged h UV_HANDLE_READING l" for x by (simp add: flagged_def)
        moreover obtain rcb where "read_cb l h = Some rcb" using cb by blast
        ultimately show ?thesis unfolding l1_def using rd acb len ln fd j by (auto simp: Let_def split: sum.split)
      qed
      show ?thesis
      proof (cases "?f j")
        case (Inl e)
        show ?thesis
        proof (cases "e = UV_EAGAIN")
          case True
          have "rw_events POLLIN" by (simp add: rw_events_def)
          then obtain l2 where l2: "uv__io_start h POLLIN l1 = Some l2" "stream_inv k l2" "stream_later l1 l2" "io_only l1 l2"
            using stream_start [OF i1(1) h1 f1(3)] by blast
          have "read_cb l2 h \<noteq> None" using f1(2) io_only_frame [OF l2(4)] by simp
          then show ?thesis using rdl Inl True l2 call_read_ok [OF E l2(2), of h "Inr []"]
              stream_later_trans [OF stream_later_trans [OF i1(2) l2(3)]] by fastforce
        next
          case False
          let ?a = "flag_off h (or UV_HANDLE_READABLE UV_HANDLE_WRITABLE) l1"
          have a: "stream_inv k ?a" "stream_later l1 ?a"
            using flag_off_ok [OF i1(1) h1, of "or UV_HANDLE_READABLE UV_HANDLE_WRITABLE"] by (simp_all add: stream_bits bit_or_iff)
          have "read_cb ?a h \<noteq> None" using f1(2) by simp
          then obtain l2 where l2: "call_read E h (Inl e) ?a = Some l2" "stream_inv k l2" "stream_later ?a l2"
            using call_read_ok [OF E a(1)] by blast
          have later: "stream_later l l2" using i1(2) a(2) l2(3) stream_later_trans by blast
          have h2: "h \<in> streams l2" using later h streams_later by blast
          obtain l3 where "stop_reading h l2 = Some l3" "stream_inv k l3" "stream_later l2 l3" using stop_reading_ok [OF l2(2) h2] by blast
          then show ?thesis using rdl Inl False l2 later stream_later_trans by (cases "flagged h UV_HANDLE_READING l2") auto
        qed
      next
        case (Inr x)
        obtain bytes cmsgs where x: "x = (bytes, cmsgs)" by (cases x)
        show ?thesis
        proof (cases "bytes = []")
          case True
          then show ?thesis using rdl Inr x stream_eof_ok [OF E i1(1) h1 f1(1)] stream_later_trans [OF i1(2)] by auto
        next
          case False
          obtain st l2 where l2: "(if h_type l1 h = UV_NAMED_PIPE \<and> pipe_ipc l1 h then uv__stream_recv_cmsg h cmsgs l1 else (OK, l1)) = (st, l2)"
            by fastforce
          have o: "recv_only l1 l2" using l2 recv_cmsg_only by (auto simp: recv_only_def split: if_splits)
          have i2: "stream_inv k l2" "stream_later l1 l2" using recv_ok [OF i1(1) h1 o] by simp_all
          have c2: "read_cb l2 h \<noteq> None" using f1(2) recv_only_frame [OF o] by simp
          obtain l3 where l3: "call_read E h (case st of Inl e \<Rightarrow> Inl e | Inr _ \<Rightarrow> Inr bytes) l2 = Some l3" "stream_inv k l3" "stream_later l2 l3"
            using call_read_ok [OF E i2(1) c2] by blast
          have later: "stream_later l l3" using i1(2) i2(2) l3(3) stream_later_trans by blast
          have h3: "h \<in> streams l3" using later h streams_later by blast
          let ?a = "flag_on h UV_HANDLE_READ_PARTIAL l3"
          have a: "stream_inv k ?a" "stream_later l3 ?a"
            using flag_on_ok [OF l3(2) h3, of UV_HANDLE_READ_PARTIAL] by (auto simp: stream_bits)
          obtain l4 where l4: "read_loop E h n l3 = Some l4" "stream_inv k l4" "stream_later l3 l4" using Suc.IH [OF l3(2) h3] by blast
          have "read_loop E h (Suc n) l = (case st of Inl e \<Rightarrow> Some l3
              | Inr _ \<Rightarrow> if length bytes < len then Some ?a else Some l4)"
            using rdl Inr x False l2 l3(1) l4(1) by (cases st) simp_all
          then show ?thesis using l3(2) later a l4 stream_later_trans [OF later] by (cases st) (auto split: if_splits)
        qed
      qed
    qed
  qed
qed (simp add: stream_later_refl)

lemma read_ok:
  assumes "safe_env k E" and inv: "stream_inv k l" and h: "h \<in> streams l"
  shows "\<exists>l'. uv__read E h l = Some l' \<and> stream_inv k l' \<and> stream_later l l'"
proof -
  let ?a = "flag_off h UV_HANDLE_READ_PARTIAL l"
  have a: "stream_inv k ?a" "stream_later l ?a" using flag_off_ok [OF inv h, of UV_HANDLE_READ_PARTIAL] by (simp_all add: stream_bits)
  have "h \<in> streams ?a" using a(2) h streams_later by blast
  then show ?thesis using read_loop_ok [OF assms(1) a(1), of h 32] stream_later_trans [OF a(2)] by (auto simp: uv__read_def)
qed

end
