(* ===== verification/UV_Stream_Api.thy ===== *)
theory UV_Stream_Api
  imports UV_Stream_Run
begin

text \<open>
  The calls of a client on a stream, and the handling of its events: each succeeds and keeps the
  invariant, whoever makes it.
\<close>

section \<open>Reading\<close>

lemma read_start_ok:
  assumes inv: "stream_inv k l" and h: "h \<in> streams l"
  shows "\<exists>st l'. uv_read_start h acb rcb l = Some (st, l') \<and> stream_inv k l' \<and> stream_later l l' \<and> frozen l l'"
proof (cases "acb = None \<or> rcb = None \<or> flagged h UV_HANDLE_CLOSING l \<or> flagged h UV_HANDLE_READING l \<or> \<not> flagged h UV_HANDLE_READABLE l")
  case True
  then show ?thesis using inv stream_later_refl frozen_refl(1) unfolding uv_read_start_def by (auto split: if_splits)
next
  case False
  note p = stream_parts [OF inv h]
  have fd: "0 \<le> stream_fd h l" using p(2) False by (simp add: mode_ok_def)
  define l1 where "l1 = (flag_off h UV_HANDLE_READ_EOF (flag_on h UV_HANDLE_READING l))\<lparr>
    read_cb := (read_cb l)(h := rcb), alloc_cb := (alloc_cb l)(h := acb)\<rparr>"
  have m: "mode_step h l l1"
    by (simp add: mode_step_def l1_def stream_bits) (simp add: flag_on_def flag_off_def set_flags_def)
  have "mode_ok l1 h"
  proof -
    have "bit (h_flags l1 h) n = bit (h_flags l h) n" if "n \<in> {0, 14, 15, 20}" for n
      using that by (auto simp: l1_def stream_bits)
    moreover have "stream_fd h l1 = stream_fd h l" "h_type l1 h = h_type l h" "connect_req l1 h = connect_req l h" "read_cb l1 h = rcb" "alloc_cb l1 h = acb"
      by (simp_all add: stream_fd_def l1_def mode_step_frame [OF m]) (simp_all add: flag_on_def flag_off_def set_flags_def)
    ultimately show ?thesis using p(2) fd False unfolding mode_ok_def flagged_bits mode_step_flags [OF m] by auto
  qed
  then have i1: "stream_inv k l1" "stream_later l l1"
    using mode_step_keep [OF inv h m] by (simp_all add: l1_def)
  have h1: "h \<in> streams l1" using i1(2) h streams_later by blast
  have fd1: "0 \<le> stream_fd h l1" using fd by (simp add: stream_fd_def mode_step_frame [OF m])
  have "rw_events POLLIN" by (simp add: rw_events_def)
  then obtain l2 where l2: "uv__io_start h POLLIN l1 = Some l2" "stream_inv k l2" "stream_later l1 l2" "io_only l1 l2"
    using stream_start [OF i1(1) h1 fd1] by blast
  have h2: "h \<in> streams l2" using l2(3) h1 streams_later by blast
  have nc: "\<not> closing l2 h"
    using False by (simp add: closing_def io_only_frame [OF l2(4)] flagged_bits l1_def stream_bits)
  have i3: "stream_inv k (uv__handle_start h l2)" "stream_later l2 (uv__handle_start h l2)"
    using handle_step [OF l2(2) h2] nc by blast+
  have "uv_read_start h acb rcb l = Some (OK, uv__handle_start h l2)"
    using False fd p(3) l2(1) by (simp add: uv_read_start_def uv__read_start_def l1_def Let_def)
  moreover have "frozen l (uv__handle_start h l2)"
    by (rule frozen_same) (simp_all add: io_only_frame [OF l2(4)] mode_step_frame [OF m], simp_all add: l1_def)
  ultimately show ?thesis using i3 stream_later_trans [OF i1(2) stream_later_trans [OF l2(3)]] by blast
qed

lemma stop_reading_frozen: "stop_reading h l = Some l' \<Longrightarrow> frozen l l'"
proof -
  assume "stop_reading h l = Some l'"
  then obtain l1 where l1: "uv__io_stop h POLLIN (flag_off h UV_HANDLE_READING l) = Some l1" "l' = uv__handle_stop h l1"
    by (auto simp: stop_reading_def split: Option.bind_splits)
  note f = io_only_frame [OF io_stop_only [OF l1(1)]]
  show ?thesis by (rule frozen_same) (simp_all add: l1(2) f flag_off_def set_flags_def)
qed

lemma read_stop_ok:
  assumes inv: "stream_inv k l" and h: "h \<in> streams l"
  shows "\<exists>l'. uv_read_stop h l = Some l' \<and> stream_inv k l' \<and> stream_later l l' \<and> frozen l l' \<and>
    \<not> flagged h UV_HANDLE_READING l' \<and> (\<forall>w. io_fd (io l' w) = io_fd (io l w))"
proof (cases "flagged h UV_HANDLE_READING l")
  case False
  then show ?thesis using inv by (simp add: uv_read_stop_def stream_later_refl)
next
  case True
  obtain l1 where l1: "stop_reading h l = Some l1" "stream_inv k l1" "stream_later l l1" "\<not> flagged h UV_HANDLE_READING l1"
    "\<And>w. io_fd (io l1 w) = io_fd (io l w)" using stop_reading_ok [OF inv h] by blast
  have h1: "h \<in> streams l1" using l1(3) h streams_later by blast
  define l2 where "l2 = l1\<lparr>read_cb := (read_cb l1)(h := None), alloc_cb := (alloc_cb l1)(h := None)\<rparr>"
  have m: "mode_step h l1 l2" by (simp add: mode_step_def l2_def)
  have "mode_ok l2 h"
    by (rule mode_ok_bits [OF stream_parts(2) [OF l1(2) h1] m]) (use l1(4) in \<open>simp_all add: l2_def flagged_bits\<close>)
  then have i2: "stream_inv k l2" "stream_later l1 l2" using mode_step_keep [OF l1(2) h1 m] by (simp_all add: l2_def)
  have "frozen l1 l2" by (rule frozen_same) (simp_all add: l2_def)
  then have "frozen l l2" using frozen_trans [OF l1(3) stop_reading_frozen [OF l1(1)]] by blast
  moreover have "\<not> flagged h UV_HANDLE_READING l2" using l1(4) by (simp add: l2_def flagged_bits)
  ultimately show ?thesis using True l1(1,5) i2 stream_later_trans [OF l1(3) i2(2)] by (simp add: uv_read_stop_def l2_def)
qed

section \<open>Writing at once\<close>

lemma try_write_call_ok:
  assumes E: "kernel_ok E" and inv: "stream_inv k l" and h: "h \<in> streams l" and b: "bufs \<noteq> []"
  shows "\<exists>n l'. uv_try_write E h bufs l = Some (n, l') \<and> stream_inv k l' \<and> stream_later l l' \<and> frozen l l'"
proof (cases "connect_req l h \<noteq> None \<or> write_size l h \<noteq> 0")
  case True
  then show ?thesis using inv by (auto simp: uv_try_write_def uv_try_write2_def stream_later_refl)
next
  case False
  note p = stream_parts [OF inv h]
  obtain st where st: "uv__check_before_write h (length bufs) None l = Some st"
    using p(3) b by (auto simp: uv__check_before_write_def)
  obtain n j where n: "uv__try_write E None h bufs None l = Some (wrote None h (take (iovmax E) bufs) n (l\<lparr>sys := j\<rparr>))"
    using try_write_ok [OF E, of None h bufs l] by blast
  obtain m l' where l': "wrote None h (take (iovmax E) bufs) n (l\<lparr>sys := j\<rparr>) = (m, l')" by fastforce
  obtain ws where ws: "l' = l\<lparr>sys := j, wire := (wire l)(h := wire l h @ ws)\<rparr>" "\<forall>c\<in>set ws. fst c = None"
  proof (cases n)
    case (Inl e)
    then have "l' = l\<lparr>sys := j\<rparr>" using l' by (simp add: wrote_def)
    then show ?thesis using that [of "[]"] by simp
  next
    case (Inr n')
    have "l' = l\<lparr>sys := j, wire := (wire l)(h := wire l h @ [(None, take n' (concat (take (iovmax E) bufs)))])\<rparr>"
      using l' Inr by (simp add: wrote_def)
    then show ?thesis using that by force
  qed
  have wf: "filter (\<lambda>c. fst c \<noteq> None) ws = []" using ws(2) by (simp add: filter_empty_conv)
  have "wire l' = (wire l)(h := wire l h @ ws)" by (simp add: ws(1))
  then have wb: "wire_bytes l' g = wire_bytes l g" for g unfolding wire_bytes_def by (simp only: fun_upd_def filter_append wf append_Nil2 if_cancel split: if_split) blast
  have w: "wsame l l' g" "msame l l' g" for g
    using wb by (simp_all add: wsame_def msame_def connecting_def closed_def stream_fd_def) (simp_all add: ws(1))
  have f: "h_flags l' = h_flags l" "handle_queue l' = handle_queue l" "h_type l' = h_type l" "closing_handles l' = closing_handles l"
    "active_handles l' = active_handles l" "io l' = io l" "active_reqs l' = active_reqs l" "write_local l' = write_local l"
    "h_close_cb l' = h_close_cb l" "table_size l' = table_size l" "inv l' = inv l" "pending_local l' = pending_local l"
    by (simp_all add: ws(1) table_size_def)
  have ii: "io_inv l' = io_inv l" unfolding ws(1) by (rule io_inv_cong) simp_all
  have one: "one_stream l' h" using same_one [OF w] stream_inv_one [OF inv h] by simp
  have "live_reqs l' = live_reqs l" by (rule live_same) (simp_all add: streams_def f wsame_owned(1) [OF w(1)])
  then have ct: "unat (active_reqs l') = card (live_reqs l') + k" using stream_inv_count [OF inv] by (simp add: f)
  have base: "io_inv l'" "handles_ok l'" "to_close [] l'"
    using stream_invD(1-3) [OF inv] handles_ok_cong [OF f(1,2,5)] to_close_cong [OF f(1,2,4)] ii by simp_all
  have fd: "stream_fd g l' = stream_fd g l" "io_pevents (io l' g) = io_pevents (io l g)" "write_local l' g = write_local l g" for g
    by (simp_all add: stream_fd_def f)
  have "stream_inv k l'"
    by (rule stream_inv_step [OF inv h base f(2,3) one _ fd(3) fd(1) fd(1) fd(2) ct]) (use w in blast)
  moreover have "stream_later l l'" by (simp add: stream_later_def f flag_views io_later_same)
  moreover have "frozen l l'" by (rule frozen_same) (simp_all add: ws(1))
  moreover have "\<exists>m' l''. uv_try_write E h bufs l = Some (m', l'') \<and> (l'' = l' \<or> l'' = l)"
    using False st n l' by (cases st) (simp_all add: uv_try_write_def uv_try_write2_def)
  ultimately show ?thesis using inv stream_later_refl [of l] frozen_refl(1) [of l] by blast
qed

section \<open>Shutting down\<close>

text \<open>A stream gets a connect or a shutdown request.\<close>

lemma adopt_ok:
  assumes inv: "stream_inv k l" and h: "h \<in> streams l" and r: "r \<notin> live_reqs l" and a: "unat (active_reqs l) + 1 < 2 ^ 32"
    and shape: "l' = l\<lparr>active_reqs := active_reqs l + 1, req := (req l)(r := x), h_flags := h_flags l', connect_req := connect_req l',
      shutdown_req := shutdown_req l'\<rparr>" and x: "r_handle x = h"
    and other: "\<And>g. g \<noteq> h \<Longrightarrow> h_flags l' g = h_flags l g \<and> connect_req l' g = connect_req l g \<and> shutdown_req l' g = shutdown_req l g"
    and b: "\<And>n. n < 4 \<Longrightarrow> bit (h_flags l' h) n = bit (h_flags l h) n"
    and new: "connecting l h = None \<and> connecting l' h = Some r \<and> shutdown_req l' h = shutdown_req l h \<or>
      shutdown_req l h = None \<and> shutdown_req l' h = Some r \<and> connecting l' h = connecting l h"
    and ok: "mode_ok l' h"
  shows "stream_inv k l' \<and> stream_later l l'"
proof -
  have f: "handle_queue l' = handle_queue l" "h_type l' = h_type l" "closing_handles l' = closing_handles l"
    "active_handles l' = active_handles l" "active_reqs l' = active_reqs l + 1" "h_close_cb l' = h_close_cb l"
    "read_cb l' = read_cb l" "alloc_cb l' = alloc_cb l" "write_queue l' = write_queue l" "write_completed l' = write_completed l"
    "write_local l' = write_local l" "wire l' = wire l" "called l' = called l" "submitted l' = submitted l" "io l' = io l"
    "inv l' = inv l" "write_size l' = write_size l" "table_size l' = table_size l" "pending_local l' = pending_local l"
    "req l' = (req l)(r := x)"
    by (subst shape, simp add: table_size_def)+
  have ii: "io_inv l' = io_inv l" by (subst shape, rule io_inv_cong) simp_all
  have fl: "closing l' g = closing l g" "closed l' g = closed l g" "active l' g = active l g" "refd l' g = refd l g" for g
    using b other [of g] by (cases "g = h"; simp add: flag_views)+
  have rn: "r \<notin> owned l g" if "g \<in> streams l" for g using r that by (auto simp: live_reqs_def)
  have rq: "req l' t = req l t" if "t \<noteq> r" for t using that by (simp add: f)
  have w: "wsame l l' g \<and> msame l l' g" if "g \<in> streams l" "g \<noteq> h" for g
    using rn [OF that(1)] that(2) rq other [OF that(2)] by (auto simp: wsame_def msame_def connecting_def fl wire_bytes_def stream_fd_def f)
  have o: "out l' h = out l h" "wire_bytes l' h = wire_bytes l h" by (simp_all add: out_def f wire_bytes_def)
  have oh: "owned l' h = insert r (owned l h)" using new by (auto simp: owned_def o)
  note one = one_streamD [OF stream_inv_one [OF inv h]]
  have ro: "r \<notin> set (out l h)" "r \<notin> set_option (connecting l h)" "r \<notin> set_option (shutdown_req l h)"
    using rn [OF h] by (auto simp: owned_def)
  have us: "map (unsent l') xs = map (unsent l) xs" if "set xs \<subseteq> set (out l h)" for xs
    using that ro(1) unsent_cong [OF rq] by (intro map_cong refl) (metis subsetD)
  have "reqs_ok l' h"
  proof -
    have "r_handle (req l' t) = h" if "t \<in> owned l' h" for t
      using that one(1) rq [of t] x by (cases "t = r") (auto simp: oh reqs_ok_def f)
    moreover have "req l' t = req l t" if "t \<in> set (write_queue l h)" for t
      using rq [of t] ro(1) that by (auto simp: out_def)
    moreover have "set (out l h) \<inter> set_option (connecting l' h) = {}" "set (out l h) \<inter> set_option (shutdown_req l' h) = {}"
      "set_option (connecting l' h) \<inter> set_option (shutdown_req l' h) = {}"
      using one(1) new ro by (auto simp: reqs_ok_def)
    ultimately show ?thesis using one(1) unfolding reqs_ok_def o f(9) by auto
  qed
  moreover have "size_ok l' h" using one(2) unfolding size_ok_def o us [OF subset_refl] f(17) .
  moreover have "fifo_ok l' h" using one(3) by (simp add: fifo_ok_def o f)
  moreover have "wire_ok l' h"
  proof -
    have "map (\<lambda>t. r_error (req l' t)) (write_local l h @ write_completed l h) = map (\<lambda>t. r_error (req l t)) (write_local l h @ write_completed l h)"
      using ro(1) rq by (intro map_cong refl arg_cong [of _ _ r_error]) (metis Un_iff out_def set_append)
    then have "statuses l' h = statuses l h" unfolding statuses_def f(10,11,13) by (simp only:)
    moreover have "map (unsent l') (write_queue l h) = map (unsent l) (write_queue l h)" by (rule us) (auto simp: out_def)
    ultimately show ?thesis using one(4) unfolding wire_ok_def o f(9,14) by (simp only:)
  qed
  ultimately have one1: "one_stream l' h" using ok by (simp add: one_stream_def)
  have st: "streams l' = streams l" by (simp add: streams_def f)
  have lv: "live_reqs l' = insert r (live_reqs l)"
    by (rule live_insert [OF st h oh]) (use w wsame_owned(1) in blast)
  have ct: "unat (active_reqs l') = card (live_reqs l') + k"
    using stream_inv_count [OF inv] a r live_finite [of l] by (simp add: lv f unat_add_one_less)
  have base: "io_inv l'" "handles_ok l'" "to_close [] l'"
    using stream_invD(1-3) [OF inv] ii by (simp_all add: handles_ok_def alive_handles_def to_close_def f(1,3,4) fl)
  have fd1: "stream_fd g l' = stream_fd g l" "io_pevents (io l' g) = io_pevents (io l g)" "write_local l' g = write_local l g" for g
    by (simp_all add: stream_fd_def f)
  have "stream_inv k l'" by (rule stream_inv_step [OF inv h base f(1,2) one1 w fd1(3) fd1(1) fd1(1) fd1(2) ct])
  moreover have "stream_later l l'" by (simp add: stream_later_def f fl io_later_same)
  ultimately show ?thesis by blast
qed

lemma shutdown_ok:
  assumes inv: "stream_inv k l" and h: "h \<in> streams l" and r: "r \<notin> live_reqs l" and a: "unat (active_reqs l) + 1 < 2 ^ 32"
  shows "\<exists>st l'. uv_shutdown r h cb l = Some (st, l') \<and> stream_inv k l' \<and> stream_later l l' \<and> frozen l l'"
proof -
  note p = stream_parts [OF inv h]
  show ?thesis
  proof (cases "\<not> flagged h UV_HANDLE_WRITABLE l \<or> flagged h UV_HANDLE_SHUT l \<or> shutdown_req l h \<noteq> None \<or> uv__is_closing h l")
    case True
    then show ?thesis using inv p(3) by (auto simp: uv_shutdown_def stream_later_refl)
  next
    case False
    then have nc: "\<not> closing l h" "\<not> closed l h" and sh: "shutdown_req l h = None" by (simp_all add: is_closing_iff)
    have fd: "0 \<le> stream_fd h l" using p(2) False by (simp add: mode_ok_def)
    have ty: "h_type l h \<in> {UV_TCP, UV_TTY, UV_NAMED_PIPE}" using p(3) by auto
    let ?x = "(req l r)\<lparr>r_handle := h, r_cb := cb\<rparr>"
    define l1 where "l1 = flag_off h UV_HANDLE_WRITABLE (l\<lparr>active_reqs := active_reqs l + 1, shutdown_req := (shutdown_req l)(h := Some r), req := (req l)(r := ?x)\<rparr>)"
    have f: "connect_req l1 = connect_req l" "shutdown_req l1 = (shutdown_req l)(h := Some r)" "write_queue l1 = write_queue l"
      "write_completed l1 = write_completed l" "h_flags l1 = (h_flags l)(h := del_flag (h_flags l h) UV_HANDLE_WRITABLE)"
      "h_type l1 = h_type l" "read_cb l1 = read_cb l" "alloc_cb l1 = alloc_cb l" "io l1 = io l"
      by (simp_all add: l1_def flag_off_def set_flags_def)
    have b: "bit (h_flags l1 g) n = bit (h_flags l g) n" if "n \<noteq> 15" "n < 32" for g n using that by (auto simp: f stream_bits bit_flags)
    have ok: "mode_ok l1 h"
      using p(2) b [of 12 h] b [of 14 h] b [of 20 h] b [of 0 h] fd nc by (auto simp: mode_ok_def flagged_bits f(1,6-8) closing_def stream_fd_def f(9))
    have shape: "l1 = l\<lparr>active_reqs := active_reqs l + 1, req := (req l)(r := ?x), h_flags := h_flags l1, connect_req := connect_req l1,
        shutdown_req := shutdown_req l1\<rparr>"
      by (simp add: l1_def flag_off_def set_flags_def)
    have cn: "connecting l1 h = connecting l h" using b [of 1 h] by (simp add: connecting_def closed_def f)
    have "stream_inv k l1 \<and> stream_later l l1"
      by (rule adopt_ok [OF inv h r a shape]) (use ok cn sh in \<open>auto simp: f(1,2,5) stream_bits\<close>)
    then have i1: "stream_inv k l1" and lt1: "stream_later l l1" by simp_all
    have h1: "h \<in> streams l1" using lt1 h streams_later by blast
    have z1: "frozen l l1" using nc by (auto simp: frozen_def frozen_at_def f)
    have z2: "frozen l (uv__io_feed h l1)" using nc by (auto simp: frozen_def frozen_at_def f io_only_frame [OF io_feed_only])
    have "uv_shutdown r h cb l = Some (OK, if write_queue l1 h = [] then uv__io_feed h l1 else l1)"
      using False fd ty by (simp add: uv_shutdown_def l1_def set_req_def uv__req_register_def Let_def)
    then show ?thesis using i1 lt1 z1 z2 stream_feed [OF i1 h1, of h] stream_later_trans [OF lt1] by (cases "write_queue l1 h = []") auto
  qed
qed

section \<open>Events\<close>

lemma stream_io_ok:
  assumes E: "safe_env k E" and inv: "stream_inv k l" and h: "h \<in> streams l" and w: "write_local l h = []"
    and nc: "\<not> closing l h" "\<not> closed l h" and op: "connect_req l h \<noteq> None \<or> 0 \<le> stream_fd h l"
  shows "\<exists>l'. uv__stream_io E h events l = Some l' \<and> stream_inv k l' \<and> stream_later l l'"
proof -
  note p = stream_parts [OF inv h]
  have fl: "\<not> flagged h UV_HANDLE_CLOSING l" using nc by (simp add: flagged_bits closing_def)
  show ?thesis
  proof (cases "connect_req l h")
    case (Some r)
    then show ?thesis using p(3) fl connect_ok [OF E inv h w Some fl nc(2)] by (auto simp: uv__stream_io_def)
  next
    case None
    have fd: "0 \<le> stream_fd h l" using op None by simp
    have kE: "kernel_ok E" using E by (simp add: safe_env_def)
    have next_ok: "h \<in> streams l' \<and> write_local l' h = [] \<and> (stream_fd h l' \<noteq> - 1 \<longrightarrow> 0 \<le> stream_fd h l')"
      if "stream_inv k l'" "stream_later l l'" for l'
    proof -
      have "h \<in> streams l'" using that(2) h streams_later by blast
      moreover have "- 1 \<le> stream_fd h l'" using stream_parts(5) [OF that(1)] calculation by blast
      ultimately show ?thesis using that(2) h w by (auto simp: stream_later_split)
    qed
    obtain l1 where l1: "(if has_flag events (or (or POLLIN POLLERR) POLLHUP) then uv__read E h l else Some l) = Some l1"
      "stream_inv k l1" "stream_later l l1" using read_ok [OF E inv h] inv stream_later_refl [of l]
      by (cases "has_flag events (or (or POLLIN POLLERR) POLLHUP)") auto
    obtain l2 where l2: "(if has_flag events POLLHUP \<and> flagged h UV_HANDLE_READING l1 \<and> flagged h UV_HANDLE_READ_PARTIAL l1 \<and>
        \<not> flagged h UV_HANDLE_READ_EOF l1 then uv__stream_eof E h l1 else Some l1) = Some l2" "stream_inv k l2" "stream_later l1 l2"
      using stream_eof_ok [OF E l1(2)] next_ok [OF l1(2,3)] l1(2) stream_later_refl [of l1]
      by (cases "has_flag events POLLHUP \<and> flagged h UV_HANDLE_READING l1 \<and> flagged h UV_HANDLE_READ_PARTIAL l1 \<and>
        \<not> flagged h UV_HANDLE_READ_EOF l1") auto
    have lt2: "stream_later l l2" using l1(3) l2(3) stream_later_trans by blast
    show ?thesis
    proof (cases "stream_fd h l1 = - 1 \<or> stream_fd h l2 = - 1 \<or> \<not> has_flag events (or (or POLLOUT POLLERR) POLLHUP)")
      case True
      then have "uv__stream_io E h events l = Some l1 \<or> uv__stream_io E h events l = Some l2"
        using p(3) fl None fd l1(1) l2(1) unfolding uv__stream_io_def by auto
      then show ?thesis using l1 l2 lt2 by blast
    next
      case False
      then have fd2: "0 \<le> stream_fd h l2" using next_ok [OF l2(2) lt2] by blast
      have h2: "h \<in> streams l2" using next_ok [OF l2(2) lt2] by blast
      obtain l3 where l3: "uv__write E h l2 = Some l3" "stream_inv k l3" "stream_later l2 l3"
        using write_ok [OF kE l2(2) h2 fd2] by blast
      have lt3: "stream_later l l3" using lt2 l3(3) stream_later_trans by blast
      obtain l4 where l4: "uv__write_callbacks E h l3 = Some l4" "stream_inv k l4" "stream_later l3 l4"
        using write_callbacks_ok [OF E l3(2)] next_ok [OF l3(2) lt3] by blast
      have lt4: "stream_later l l4" using lt3 l4(3) stream_later_trans by blast
      obtain l5 where l5: "(if write_queue l4 h = [] then uv__drain E h l4 else Some l4) = Some l5" "stream_inv k l5" "stream_later l4 l5"
        using drain_ok [OF E l4(2)] next_ok [OF l4(2) lt4] l4(2) stream_later_refl [of l4] by (cases "write_queue l4 h = []") auto
      have "uv__stream_io E h events l = Some l5"
        using p(3) fl None fd l1(1) l2(1) l3(1) l4(1) l5(1) False unfolding uv__stream_io_def by auto
      then show ?thesis using l5(2) stream_later_trans [OF lt4 l5(3)] by blast
    qed
  qed
qed


section \<open>Closing\<close>

text \<open>\<open>uv_close\<close> marks the handle first; the closing code of the stream does not look at the mark.\<close>

lemma io_stop_mark: "uv__io_stop w e (mark_closing h cb l) = map_option (mark_closing h cb) (uv__io_stop w e l)"
  by (simp add: uv__io_stop_def mark_closing_def set_io_def Let_def)

lemma io_close_mark: "uv__io_close w (mark_closing h cb l) = map_option (mark_closing h cb) (uv__io_close w l)"
  unfolding uv__io_close_def io_stop_mark
  by (cases "uv__io_stop w io_mask l") (simp_all add: mark_closing_def uv__platform_invalidate_fd_def Let_def)

lemma flag_off_mark: "\<not> bit m 0 \<Longrightarrow> flag_off h m (mark_closing h cb l) = mark_closing h cb (flag_off h m l)"
proof -
  assume m: "\<not> bit m 0"
  have "del_flag (add_flag f UV_HANDLE_CLOSING) m = add_flag (del_flag f m) UV_HANDLE_CLOSING" for f
    by (rule bit_word_eqI) (use m in \<open>auto simp: bit_flags\<close>)
  then show ?thesis by (simp add: flag_off_def mark_closing_def set_flags_def)
qed

lemma stop_reading_mark: "stop_reading h (mark_closing h cb l) = map_option (mark_closing h cb) (stop_reading h l)"
  unfolding stop_reading_def
  by (subst flag_off_mark) (simp_all add: stream_bits io_stop_mark stop_mark_closing split: Option.bind_split option.split)

lemma read_stop_mark: "uv_read_stop h (mark_closing h cb l) = map_option (mark_closing h cb) (uv_read_stop h l)"
  unfolding uv_read_stop_def
  by (cases "stop_reading h l") (simp_all add: flagged_bits mark_closing_def bit_flags stop_reading_mark [unfolded mark_closing_def])

definition close_fds :: "addr \<Rightarrow> 'a stream_loop_scheme \<Rightarrow> 'a stream_loop_scheme" where
  "close_fds h l =
     (let fd = io_fd (io l h);
          l = (if fd \<noteq> - 1 then set_io h ((io l h)\<lparr>io_fd := - 1\<rparr>) (if fd > 2 then uv__close_fd fd l else l) else l);
          l = (if accepted_fd l h \<noteq> - 1
               then (uv__close_fd (accepted_fd l h) l)\<lparr>accepted_fd := (accepted_fd l)(h := - 1)\<rparr> else l)
      in case queued_fds l h of
                None \<Rightarrow> l
              | Some (_, fds) \<Rightarrow> (fold uv__close_fd fds l)\<lparr>queued_fds := (queued_fds l)(h := None)\<rparr>)"

lemma stream_close_eq:
  "uv__stream_close h l = Option.bind (uv__io_close h l) (\<lambda>l. Option.bind (uv_read_stop h l) (\<lambda>l.
     let l = close_fds h (flag_off h (or UV_HANDLE_READABLE UV_HANDLE_WRITABLE) (uv__handle_stop h l))
     in Option.bind (uv__io_active h (or POLLIN POLLOUT) l) (\<lambda>act. if act then None else Some l)))"
  unfolding uv__stream_close_def close_fds_def Let_def by (rule refl)


lemma close_fds_log: "fold uv__close_fd fds l = l\<lparr>fd_log := fd_log l @ fds\<rparr>"
  by (induction fds arbitrary: l) (simp_all add: uv__close_fd_def)

lemma close_fds_shape:
  "\<exists>fs. close_fds h l = l\<lparr>io := (io l)(h := (io l h)\<lparr>io_fd := - 1\<rparr>), accepted_fd := (accepted_fd l)(h := - 1),
    queued_fds := (queued_fds l)(h := None), fd_log := fd_log l @ fs\<rparr>"
proof -
  define l1 where "l1 = (if io_fd (io l h) \<noteq> - 1 then set_io h ((io l h)\<lparr>io_fd := - 1\<rparr>)
    (if io_fd (io l h) > 2 then uv__close_fd (io_fd (io l h)) l else l) else l)"
  obtain f1 where l1: "l1 = l\<lparr>io := (io l)(h := (io l h)\<lparr>io_fd := - 1\<rparr>), fd_log := fd_log l @ f1\<rparr>"
  proof (cases "io_fd (io l h) = - 1")
    case True
    then have "(io l h)\<lparr>io_fd := - 1\<rparr> = io l h" by (cases "io l h") simp
    then have "(io l)(h := (io l h)\<lparr>io_fd := - 1\<rparr>) = io l" by (simp add: fun_upd_idem)
    then show ?thesis using that [of "[]"] True by (simp add: l1_def)
  next
    case False
    then show ?thesis using that [of "if io_fd (io l h) > 2 then [io_fd (io l h)] else []"] by (simp add: l1_def set_io_def uv__close_fd_def)
  qed
  define l2 where "l2 = (if accepted_fd l1 h \<noteq> - 1 then (uv__close_fd (accepted_fd l1 h) l1)\<lparr>accepted_fd := (accepted_fd l1)(h := - 1)\<rparr> else l1)"
  obtain f2 where l2: "l2 = l1\<lparr>accepted_fd := (accepted_fd l1)(h := - 1), fd_log := fd_log l1 @ f2\<rparr>"
  proof (cases "accepted_fd l1 h = - 1")
    case True
    then have "(accepted_fd l1)(h := - 1) = accepted_fd l1" by (metis fun_upd_triv)
    then show ?thesis using that [of "[]"] True by (simp add: l2_def)
  next
    case False
    then show ?thesis using that [of "[accepted_fd l1 h]"] by (simp add: l2_def uv__close_fd_def)
  qed
  have c: "close_fds h l = (case queued_fds l2 h of None \<Rightarrow> l2
      | Some (_, fds) \<Rightarrow> (fold uv__close_fd fds l2)\<lparr>queued_fds := (queued_fds l2)(h := None)\<rparr>)"
    unfolding close_fds_def Let_def l1_def l2_def by (rule refl)
  obtain f3 where "close_fds h l = l2\<lparr>queued_fds := (queued_fds l2)(h := None), fd_log := fd_log l2 @ f3\<rparr>"
  proof (cases "queued_fds l2 h")
    case None
    then have "(queued_fds l2)(h := None) = queued_fds l2" by (metis fun_upd_triv)
    moreover have "close_fds h l = l2" by (simp add: c None)
    ultimately show ?thesis using that [of "[]"] by simp
  next
    case (Some q)
    obtain n fds where q: "q = (n, fds)" by (cases q)
    show ?thesis by (rule that [of fds]) (simp add: c Some q close_fds_log)
  qed
  then show ?thesis by (intro exI [of _ "f1 @ f2 @ f3"]) (simp add: l1 l2)
qed


lemma io_close_only:
  assumes "io_inv l" and "uv__io_close w l = Some l'"
  shows "io_only l l'" "\<And>v. io_fd (io l' v) = io_fd (io l v)" "\<And>v. v \<noteq> w \<Longrightarrow> io l' v = io l v"
proof -
  obtain l1 where l1: "uv__io_stop w io_mask l = Some l1" "\<And>v. io_fd (io l1 v) = io_fd (io l v)" "\<And>v. v \<noteq> w \<Longrightarrow> io l1 v = io l v"
    using io_stop_inv [OF assms(1) valid_io_mask, of w] by blast
  define l2 where "l2 = l1\<lparr>pending_queue := remove1 w (pending_queue l1), pending_local := remove1 w (pending_local l1)\<rparr>"
  have l': "l' = (if io_fd (io l2 w) \<noteq> - 1 then uv__platform_invalidate_fd (io_fd (io l2 w)) l2 else l2)"
    using assms(2) l1(1) unfolding uv__io_close_def l2_def Let_def by simp
  have "io_only l1 l2" by (simp add: io_only_def l2_def)
  moreover have "io_only l2 l'" by (simp add: l' io_only_def uv__platform_invalidate_fd_def)
  ultimately show "io_only l l'" using io_stop_only [OF l1(1)] io_only_trans by blast
  have "io l' = io l1" by (simp add: l' l2_def uv__platform_invalidate_fd_def)
  then show "\<And>v. io_fd (io l' v) = io_fd (io l v)" "\<And>v. v \<noteq> w \<Longrightarrow> io l' v = io l v" using l1 by simp_all
qed

lemma read_stop_events:
  assumes "io_inv l" and "uv_read_stop h l = Some l'" and "io_pevents (io l h) = 0"
  shows "io_pevents (io l' h) = 0"
proof (cases "flagged h UV_HANDLE_READING l")
  case False
  then show ?thesis using assms by (simp add: uv_read_stop_def)
next
  case True
  let ?a = "flag_off h UV_HANDLE_READING l"
  have "io_inv ?a" using assms(1) io_inv_cong [of ?a l] by (simp add: flag_off_def set_flags_def)
  moreover have "valid_events POLLIN" using rw_valid by (auto simp: rw_events_def)
  ultimately obtain l1 where l1: "uv__io_stop h POLLIN ?a = Some l1" "io_pevents (io l1 h) = and (io_pevents (io ?a h)) (not POLLIN)"
    using io_stop_inv by blast
  have "io_pevents (io l1 h) = 0" using l1(2) assms(3) by simp
  then show ?thesis using assms(2) True l1(1) by (auto simp: uv_read_stop_def stop_reading_def)
qed


text \<open>What the closing code leaves of a stream that is not closing yet.\<close>

lemma stream_close_ok:
  assumes inv: "stream_inv k l" and h: "h \<in> streams l" and nc: "\<not> closing l h"
  shows "\<exists>l4 fs. uv__stream_close h l = Some (l4\<lparr>io := (io l4)(h := (io l4 h)\<lparr>io_fd := - 1\<rparr>), accepted_fd := (accepted_fd l4)(h := - 1),
      queued_fds := (queued_fds l4)(h := None), fd_log := fd_log l4 @ fs\<rparr>) \<and>
    stream_inv k l4 \<and> stream_later l l4 \<and> frozen l l4 \<and> \<not> active l4 h \<and> \<not> closing l4 h \<and> closed l4 h = closed l h \<and> io_pevents (io l4 h) = 0 \<and>
    \<not> flagged h UV_HANDLE_READABLE l4 \<and> \<not> flagged h UV_HANDLE_WRITABLE l4 \<and> \<not> flagged h UV_HANDLE_READING l4"
proof -
  obtain l1 where l1: "uv__io_close h l = Some l1" "io_inv l1" "io_later l l1" "io_pevents (io l1 h) = 0"
    using io_close_inv [OF stream_inv_io [OF inv] stream_sole [OF inv h]] by blast
  note o1 = io_close_only [OF stream_inv_io [OF inv] l1(1)]
  have i1: "stream_inv k l1" "stream_later l l1" using stream_io_step [OF inv h o1(1) l1(2,3) o1(2)] o1(3) by simp_all
  have h1: "h \<in> streams l1" using i1(2) h streams_later by blast
  obtain l2 where l2: "uv_read_stop h l1 = Some l2" "stream_inv k l2" "stream_later l1 l2" "frozen l1 l2" "\<not> flagged h UV_HANDLE_READING l2"
    "\<And>w. io_fd (io l2 w) = io_fd (io l1 w)" using read_stop_ok [OF i1(1) h1] by blast
  have pe: "io_pevents (io l2 h) = 0" by (rule read_stop_events [OF l1(2) l2(1) l1(4)])
  have h2: "h \<in> streams l2" using l2(3) h1 streams_later by blast
  define l3 where "l3 = uv__handle_stop h l2"
  have i3: "stream_inv k l3" "stream_later l2 l3" unfolding l3_def using handle_step [OF l2(2) h2] by blast+
  have h3: "h \<in> streams l3" using i3(2) h2 streams_later by blast
  let ?m = "or UV_HANDLE_READABLE UV_HANDLE_WRITABLE"
  define l4 where "l4 = flag_off h ?m l3"
  have bm: "bit ?m n \<longleftrightarrow> n = 14 \<or> n = 15" for n by (auto simp: bit_or_iff stream_bits)
  have i4: "stream_inv k l4" "stream_later l3 l4" unfolding l4_def using flag_off_ok [OF i3(1) h3] bm by simp_all
  have b4: "bit (h_flags l4 h) n \<longleftrightarrow> bit (h_flags l3 h) n \<and> n \<noteq> 14 \<and> n \<noteq> 15" if "n < 32" for n
    using that bm by (auto simp: l4_def)
  have b3: "bit (h_flags l3 h) n = bit (h_flags l2 h) n" if "n \<noteq> 2" "n < 32" for n
    using handle_bits(2) [OF that] by (simp add: l3_def)
  have na: "\<not> active l4 h" using b4 [of 2] by (simp add: active_def l3_def [symmetric]) (simp add: l3_def flag_views [symmetric])
  have lt: "stream_later l l4"
    using i1(2) l2(3) i3(2) i4(2) stream_later_trans by blast
  have cl2: "closing l2 h = closing l1 h"
  proof (cases "flagged h UV_HANDLE_READING l1")
    case False
    then show ?thesis using l2(1) by (simp add: uv_read_stop_def)
  next
    case True
    then obtain l9 where l9: "uv__io_stop h POLLIN (flag_off h UV_HANDLE_READING l1) = Some l9"
      "l2 = (uv__handle_stop h l9)\<lparr>read_cb := (read_cb (uv__handle_stop h l9))(h := None), alloc_cb := (alloc_cb (uv__handle_stop h l9))(h := None)\<rparr>"
      using l2(1) by (auto simp: uv_read_stop_def stop_reading_def split: Option.bind_splits)
    have "h_flags l9 = h_flags (flag_off h UV_HANDLE_READING l1)" by (rule io_only_frame [OF io_stop_only [OF l9(1)]])
    moreover have "h_flags l2 = h_flags (uv__handle_stop h l9)" by (simp add: l9(2))
    ultimately show ?thesis using handle_bits(2) [of 0 h l9 h] by (simp add: closing_def stream_bits)
  qed
  have "closing l1 h = closing l h" by (simp add: closing_def io_only_frame [OF o1(1)])
  then have c4: "\<not> closing l4 h" using nc cl2 b4 [of 0] b3 [of 0] by (simp add: closing_def)
  have "closed l4 h = closed l h" using lt h by (simp add: stream_later_def streams_def)
  moreover have "frozen l l4"
  proof -
    have "frozen l l1" by (rule frozen_same) (simp_all add: io_only_frame [OF o1(1)])
    moreover have "frozen l2 l4" by (rule frozen_same) (simp_all add: l4_def l3_def flag_off_def set_flags_def)
    ultimately show ?thesis using l2(4) frozen_trans i1(2) l2(3) stream_later_trans by blast
  qed
  moreover have "io_pevents (io l4 h) = 0" using pe by (simp add: l4_def l3_def)
  moreover have "\<not> flagged h UV_HANDLE_READABLE l4" "\<not> flagged h UV_HANDLE_WRITABLE l4" "\<not> flagged h UV_HANDLE_READING l4"
    using b4 [of 14] b4 [of 15] b4 [of 12] b3 [of 12] l2(5) by (simp_all add: flagged_bits)
  moreover obtain fs where fs: "close_fds h l4 = l4\<lparr>io := (io l4)(h := (io l4 h)\<lparr>io_fd := - 1\<rparr>), accepted_fd := (accepted_fd l4)(h := - 1),
      queued_fds := (queued_fds l4)(h := None), fd_log := fd_log l4 @ fs\<rparr>" using close_fds_shape by blast
  moreover have "uv__io_active h (or POLLIN POLLOUT) (close_fds h l4) = Some False"
  proof -
    have "valid_events (or POLLIN POLLOUT)"
      by (simp add: valid_events_def io_mask_def POLLIN_def POLLOUT_def POLLPRI_def POLLRDHUP_def)
    moreover have "io_pevents (io (close_fds h l4) h) = 0" using \<open>io_pevents (io l4 h) = 0\<close> by (simp add: fs)
    ultimately show ?thesis by (simp add: uv__io_active_def)
  qed
  then have "uv__stream_close h l = Some (close_fds h l4)"
    using l1(1) l2(1) by (simp add: stream_close_eq l4_def l3_def)
  ultimately show ?thesis using i4(1) lt na c4 by (intro exI [of _ l4] exI [of _ fs]) simp
qed


lemma close_fds_mark: "close_fds h (mark_closing h cb l) = mark_closing h cb (close_fds h l)"
proof -
  have c: "uv__close_fd fd (mark_closing h cb l) = mark_closing h cb (uv__close_fd fd l)"
    "set_io h x (mark_closing h cb l) = mark_closing h cb (set_io h x l)"
    "(mark_closing h cb l)\<lparr>accepted_fd := a\<rparr> = mark_closing h cb (l\<lparr>accepted_fd := a\<rparr>)"
    "(mark_closing h cb l)\<lparr>queued_fds := b\<rparr> = mark_closing h cb (l\<lparr>queued_fds := b\<rparr>)"
    "fold uv__close_fd fds (mark_closing h cb l) = mark_closing h cb (fold uv__close_fd fds l)"
    "io (mark_closing h cb l) = io l" "accepted_fd (mark_closing h cb l) = accepted_fd l" "queued_fds (mark_closing h cb l) = queued_fds l"
    for fd x a b fds and l :: "'a stream_loop_scheme"
    by (simp_all add: close_fds_log mark_closing_def uv__close_fd_def set_io_def)
  let ?m = "mark_closing h cb"
  define f1 where "f1 l = (if io_fd (io l h) \<noteq> - 1 then set_io h ((io l h)\<lparr>io_fd := - 1\<rparr>)
    (if io_fd (io l h) > 2 then uv__close_fd (io_fd (io l h)) l else l) else l)" for l :: "'a stream_loop_scheme"
  define f2 where "f2 l = (if accepted_fd l h \<noteq> - 1 then (uv__close_fd (accepted_fd l h) l)\<lparr>accepted_fd := (accepted_fd l)(h := - 1)\<rparr> else l)"
    for l :: "'a stream_loop_scheme"
  define f3 where "f3 l = (case queued_fds l h of None \<Rightarrow> l
      | Some (_, fds) \<Rightarrow> (fold uv__close_fd fds l)\<lparr>queued_fds := (queued_fds l)(h := None)\<rparr>)" for l :: "'a stream_loop_scheme"
  have e: "close_fds h l = f3 (f2 (f1 l))" for l :: "'a stream_loop_scheme"
    unfolding close_fds_def Let_def f1_def f2_def f3_def by (rule refl)
  have "f1 (?m l) = ?m (f1 l)" for l by (simp add: f1_def c)
  moreover have "f2 (?m l) = ?m (f2 l)" for l by (simp add: f2_def c)
  moreover have "f3 (?m l) = ?m (f3 l)" for l by (simp add: f3_def c split: option.split prod.split)
  ultimately show ?thesis by (simp add: e)
qed

lemma stream_close_mark: "uv__stream_close h (mark_closing h cb l) = map_option (mark_closing h cb) (uv__stream_close h l)"
proof -
  have m: "\<not> bit (or UV_HANDLE_READABLE UV_HANDLE_WRITABLE) 0" by (simp add: bit_or_iff stream_bits)
  have act: "uv__io_active h (or POLLIN POLLOUT) (mark_closing h cb l) = uv__io_active h (or POLLIN POLLOUT) l" for l :: "'a stream_loop_scheme"
    by (simp add: uv__io_active_def mark_closing_def)
  show ?thesis
  proof (cases "uv__io_close h l")
    case (Some l1)
    show ?thesis
    proof (cases "uv_read_stop h l1")
      case (Some l2)
      show ?thesis unfolding stream_close_eq io_close_mark \<open>uv__io_close h l = Some l1\<close>
        by (cases "uv__io_active h (or POLLIN POLLOUT) (close_fds h (flag_off h (or UV_HANDLE_READABLE UV_HANDLE_WRITABLE) (uv__handle_stop h l2)))")
          (simp_all add: read_stop_mark Some stop_mark_closing flag_off_mark [OF m] close_fds_mark act Let_def)
    qed (simp add: stream_close_eq io_close_mark read_stop_mark Some)
  qed (simp add: stream_close_eq io_close_mark)
qed

lemma close_ok:
  assumes inv: "stream_inv k l" and h: "h \<in> streams l" and nc: "\<not> closing l h" "\<not> closed l h"
  shows "\<exists>l'. uv_close close_stream h cb l = Some l' \<and> stream_inv k l' \<and> stream_later l l' \<and> frozen l l' \<and>
    closing l' h \<and> h_close_cb l' h = cb \<and> stream_fd h l' = - 1 \<and> (\<exists>hs. closing_handles l' = h # hs)"
proof -
  obtain l4 fs where l5: "uv__stream_close h l = Some (l4\<lparr>io := (io l4)(h := (io l4 h)\<lparr>io_fd := - 1\<rparr>), accepted_fd := (accepted_fd l4)(h := - 1),
      queued_fds := (queued_fds l4)(h := None), fd_log := fd_log l4 @ fs\<rparr>)"
    and l4: "stream_inv k l4" "stream_later l l4" "frozen l l4" "\<not> active l4 h" "\<not> closing l4 h" "closed l4 h = closed l h" "io_pevents (io l4 h) = 0"
      "\<not> flagged h UV_HANDLE_READABLE l4" "\<not> flagged h UV_HANDLE_WRITABLE l4" "\<not> flagged h UV_HANDLE_READING l4"
    using stream_close_ok [OF inv h nc(1)] by blast
  have h4: "h \<in> streams l4" using l4(2) h streams_later by blast
  note p = stream_parts [OF inv h] and p4 = stream_parts [OF l4(1) h4]
  define l6 where "l6 = l4\<lparr>h_flags := (h_flags l4)(h := add_flag (h_flags l4 h) UV_HANDLE_CLOSING), h_close_cb := (h_close_cb l4)(h := cb),
    closing_handles := h # closing_handles l4, io := (io l4)(h := (io l4 h)\<lparr>io_fd := - 1\<rparr>), accepted_fd := (accepted_fd l4)(h := - 1),
    queued_fds := (queued_fds l4)(h := None), fd_log := fd_log l4 @ fs\<rparr>"
  have f: "handle_queue l6 = handle_queue l4" "h_type l6 = h_type l4" "closing_handles l6 = h # closing_handles l4"
    "active_handles l6 = active_handles l4" "active_reqs l6 = active_reqs l4" "h_close_cb l6 = (h_close_cb l4)(h := cb)"
    "connect_req l6 = connect_req l4" "shutdown_req l6 = shutdown_req l4" "read_cb l6 = read_cb l4" "alloc_cb l6 = alloc_cb l4"
    "write_queue l6 = write_queue l4" "write_completed l6 = write_completed l4" "write_local l6 = write_local l4" "wire l6 = wire l4"
    "called l6 = called l4" "submitted l6 = submitted l4" "inv l6 = inv l4" "write_size l6 = write_size l4"
    "table_size l6 = table_size l4" "pending_local l6 = pending_local l4" "req l6 = req l4"
    "io l6 = (io l4)(h := (io l4 h)\<lparr>io_fd := - 1\<rparr>)"
    "h_flags l6 = (h_flags l4)(h := add_flag (h_flags l4 h) UV_HANDLE_CLOSING)"
    by (simp_all add: l6_def table_size_def)
  have b: "bit (h_flags l6 g) n \<longleftrightarrow> bit (h_flags l4 g) n \<or> n = 0 \<and> g = h" if "n < 32" for g n using that by (auto simp: f bit_flags)
  have fl: "closing l6 g \<longleftrightarrow> closing l4 g \<or> g = h" "closed l6 g = closed l4 g" "active l6 g = active l4 g" "refd l6 g = refd l4 g" for g
    using b by (simp_all add: flag_views)
  have cl: "uv_close close_stream h cb l = Some l6"
  proof -
    have "uv__stream_close h (mark_closing h cb l) = Some (mark_closing h cb (l4\<lparr>io := (io l4)(h := (io l4 h)\<lparr>io_fd := - 1\<rparr>),
        accepted_fd := (accepted_fd l4)(h := - 1), queued_fds := (queued_fds l4)(h := None), fd_log := fd_log l4 @ fs\<rparr>))"
      by (simp add: stream_close_mark l5)
    moreover have "close_stream (h_type l h) h (mark_closing h cb l) = uv__stream_close h (mark_closing h cb l)"
      using p(3) by (auto simp: close_stream_def uv__tcp_close_def)
    moreover have "closing l6 h" "\<not> closed l6 h" using fl l4(6) nc(2) by simp_all
    moreover have "uv_close close_stream h cb l = Option.bind (close_stream (h_type l h) h (mark_closing h cb l)) (uv__make_close_pending h)"
      using p(3) nc by (auto simp: uv_close_def is_closing_iff Let_def)
    ultimately show ?thesis
      by (simp add: uv__make_close_pending_def flag_bits flag_views l6_def mark_closing_def)
  qed
  have io: "io_inv l6"
  proof -
    let ?a = "l4\<lparr>io := (io l4)(h := (io l4 h)\<lparr>io_fd := - 1\<rparr>)\<rparr>"
    have ok: "io_ok l4" using stream_inv_io [OF l4(1)] by (simp add: io_inv_def)
    have e: "io_events (io l4 h) = 0" using io_ok_told [OF ok, of h] l4(7) by blast
    have "\<lparr>io_cb = io_cb (io l4 h), io_fd = - 1, io_events = 0, io_pevents = 0\<rparr> = (io l4 h)\<lparr>io_fd := - 1\<rparr>"
      using e l4(7) by (cases "io l4 h") simp
    then have "uv__io_init h (io_cb (io l4 h)) (- 1) l4 = Some ?a" by (simp add: uv__io_init_def set_io_def)
    moreover have "io_legal (IInit h (io_cb (io l4 h)) (- 1)) l4" using l4(7) by simp
    ultimately have "io_inv ?a" using io_init_inv [OF stream_inv_io [OF l4(1)]] by fastforce
    then show ?thesis using io_inv_cong [of l6 ?a] by (simp add: l6_def)
  qed
  have w: "wsame l4 l6 g" for g by (simp add: wsame_def f connecting_def fl wire_bytes_def)
  have ms: "msame l4 l6 g" if "g \<noteq> h" for g using that by (simp add: msame_def f stream_fd_def)
  have "mode_ok l6 h"
    using p4(2) l4(8-10) b [of 12 h] b [of 14 h] b [of 15 h] b [of 20 h] p(3)
    by (auto simp: mode_ok_def flagged_bits f(2,7) fl stream_fd_def f(22))
  then have one: "one_stream l6 h" using stream_inv_one [OF l4(1) h4] wsame_parts [OF w] by (simp add: one_stream_def)
  have "handles_ok l6"
  proof -
    have "handles_ok (mark_closing h cb l4)" by (rule handles_mark_closing [OF stream_inv_handles [OF l4(1)] l4(4)])
    then show ?thesis using handles_ok_cong [of l6 "mark_closing h cb l4"] f by (simp add: mark_closing_def)
  qed
  moreover have "to_close [] l6"
  proof -
    have "h \<notin> set (closing_handles l4)" using stream_inv_close [OF l4(1)] l4(5) by (auto simp: to_close_def)
    then show ?thesis using stream_inv_close [OF l4(1)] l4(6) nc(2) p4(4) by (auto simp: to_close_def f fl)
  qed
  moreover have "live_reqs l6 = live_reqs l4" by (rule live_same) (simp_all add: streams_def f wsame_owned(1) [OF w])
  then have ct: "unat (active_reqs l6) = card (live_reqs l6) + k" using stream_inv_count [OF l4(1)] by (simp add: f)
  moreover have fd: "stream_fd h l6 = - 1" "\<And>g. g \<noteq> h \<Longrightarrow> stream_fd g l6 = stream_fd g l4"
    "\<And>g. g \<noteq> h \<Longrightarrow> io_pevents (io l6 g) = io_pevents (io l4 g)" "\<And>g. write_local l6 g = write_local l4 g"
    by (simp_all add: stream_fd_def f)
  ultimately have i6: "stream_inv k l6"
    using stream_inv_step [OF l4(1) h4 io, of k] f(1,2) one w ms by metis
  have "stream_later l4 l6"
    using l4(5) by (auto simp: stream_later_def f fl io_later_same)
  moreover have "frozen l4 l6" by (rule frozen_same) (simp_all add: f)
  ultimately show ?thesis
    using cl i6 stream_later_trans [OF l4(2)] frozen_trans [OF l4(2,3)] fd(1) fl(1) f(3,6) by (intro exI [of _ l6]) simp
qed

end
