(* ===== verification/UV_Stream_Close.thy ===== *)
theory UV_Stream_Close
  imports UV_Stream_Api
begin

text \<open>
  The end of a stream: \<open>uv__finish_close\<close> cancels what is left of its requests, and the closing pass
  of the loop keeps the invariant.
\<close>

section \<open>Destroying a stream\<close>

lemma later_to_close:
  assumes c: "to_close ps l" and lt: "stream_later l l'" and inv: "stream_inv k l'"
  shows "to_close ps l'"
proof -
  obtain new where new: "closing_handles l' = new @ closing_handles l" "\<forall>h\<in>set new. h \<in> set (handle_queue l) \<longrightarrow> \<not> closing l h"
    using lt unfolding stream_later_def by blast
  have old: "closing l' g \<and> \<not> closed l' g \<and> g \<in> set (handle_queue l')" if "g \<in> set ps" for g
    using c lt that by (auto simp: to_close_def stream_later_def)
  have "set ps \<inter> set new = {}" using new(2) c by (auto simp: to_close_def)
  moreover have "distinct (closing_handles l')" using stream_inv_close [OF inv] by (simp add: to_close_def)
  ultimately have "distinct (ps @ closing_handles l')" using c new(1) by (auto simp: to_close_def)
  then show ?thesis using old stream_inv_close [OF inv] by (auto simp: to_close_def)
qed

text \<open>The mark \<open>UV_HANDLE_CLOSED\<close>; a connect request is counted out with it.\<close>

definition mark_closed :: "addr \<Rightarrow> 'a uv_loop_scheme \<Rightarrow> 'a uv_loop_scheme" where
  "mark_closed h l = set_flags h (add_flag (h_flags l h) UV_HANDLE_CLOSED) l"

lemma mark_closed_bits:
  "n < 32 \<Longrightarrow> bit (h_flags (mark_closed h l) g) n \<longleftrightarrow> bit (h_flags l g) n \<or> n = 1 \<and> g = h"
  by (auto simp: mark_closed_def set_flags_def bit_flags)

lemma mark_closed_flags:
  "closing (mark_closed h l) g = closing l g" "closed (mark_closed h l) g \<longleftrightarrow> closed l g \<or> g = h"
  "active (mark_closed h l) g = active l g" "refd (mark_closed h l) g = refd l g"
  by (simp_all add: flag_views mark_closed_bits)

lemma mark_closed_shape:
  "mark_closed h l = l\<lparr>h_flags := h_flags (mark_closed h l)\<rparr>"
  by (simp add: mark_closed_def set_flags_def)

lemma mark_closed_ok:
  assumes inv: "stream_inv k l" and h: "h \<in> streams l" and c: "closing l h" "\<not> closed l h" and n: "h \<notin> set (closing_handles l)"
  defines "l' \<equiv> (mark_closed h l)\<lparr>active_reqs := if connect_req l h = None then active_reqs l else active_reqs l - 1\<rparr>"
  shows "stream_inv k l' \<and> (connect_req l h \<noteq> None \<longrightarrow> active_reqs l > 0)"
proof -
  note p = stream_parts [OF inv h]
  have f: "handle_queue l' = handle_queue l" "h_type l' = h_type l" "closing_handles l' = closing_handles l"
    "active_handles l' = active_handles l" "h_close_cb l' = h_close_cb l"
    "connect_req l' = connect_req l" "shutdown_req l' = shutdown_req l" "read_cb l' = read_cb l" "alloc_cb l' = alloc_cb l"
    "write_queue l' = write_queue l" "write_completed l' = write_completed l" "write_local l' = write_local l" "wire l' = wire l"
    "called l' = called l" "submitted l' = submitted l" "io l' = io l" "write_size l' = write_size l" "req l' = req l"
    "active_reqs l' = (if connect_req l h = None then active_reqs l else active_reqs l - 1)"
    by (simp_all add: l'_def mark_closed_def set_flags_def)
  have b: "bit (h_flags l' g) n \<longleftrightarrow> bit (h_flags l g) n \<or> n = 1 \<and> g = h" if "n < 32" for g n
    using mark_closed_bits [OF that] by (simp add: l'_def)
  have fl: "closing l' g = closing l g" "closed l' g \<longleftrightarrow> closed l g \<or> g = h" "active l' g = active l g" "refd l' g = refd l g" for g
    by (simp_all add: flag_views b)
  have st: "streams l' = streams l" by (simp add: streams_def f)
  have w: "wsame l l' g \<and> msame l l' g" if "g \<noteq> h" for g
    using that by (simp add: wsame_def msame_def connecting_def fl wire_bytes_def stream_fd_def f)
      (simp add: l'_def mark_closed_def set_flags_def)
  have o: "out l' h = out l h" "statuses l' h = statuses l h" "wire_bytes l' h = wire_bytes l h" "connecting l' h = None"
    "connecting l h = connect_req l h"
    by (simp_all add: out_def statuses_def wire_bytes_def connecting_def fl c(2) f)
  have us: "unsent l' = unsent l" by (rule ext, rule unsent_cong) (simp add: f)
  note one = one_streamD [OF stream_inv_one [OF inv h]]
  have "reqs_ok l' h" using one(1) unfolding reqs_ok_def owned_def o f by auto
  moreover have "mode_ok l' h"
    using one(5) b [of 12 h] b [of 14 h] b [of 15 h] b [of 20 h] by (simp add: mode_ok_def flagged_bits f fl stream_fd_def)
  ultimately have one': "one_stream l' h" using one by (simp add: one_stream_def size_ok_def fifo_ok_def wire_ok_def o us f)
  have ct: "unat (active_reqs l') = card (live_reqs l') + k \<and> (connect_req l h \<noteq> None \<longrightarrow> active_reqs l > 0)"
  proof (cases "connect_req l h")
    case None
    have "owned l' g = owned l g" for g
      using w [of g] wsame_owned(1) [of l l' g] by (cases "g = h") (auto simp: owned_def o f None)
    then have "live_reqs l' = live_reqs l" by (rule live_same [OF st])
    then show ?thesis using stream_inv_count [OF inv] None by (simp add: f)
  next
    case (Some r)
    have r: "r \<in> owned l h" by (simp add: owned_def o Some)
    have "r \<notin> set (out l h)" "r \<notin> set_option (shutdown_req l h)" using one(1) by (auto simp: reqs_ok_def o Some)
    then have oh: "owned l' h = owned l h - {r}" by (auto simp: owned_def o f Some)
    have ones: "\<forall>h\<in>streams l. one_stream l h" using stream_inv_one [OF inv] by blast
    note lv = live_remove [OF ones st h r oh wsame_owned(1) [OF conjunct1 [OF w]]]
    have "0 < card (live_reqs l)" using lv(2) live_finite card_gt_0_iff by blast
    have a: "active_reqs l > 0" by (rule unregister_ok [OF inv h r])
    then have "unat (active_reqs l') = unat (active_reqs l) - 1" by (simp add: f Some unat_sub_one word_neq_0_conv)
    then show ?thesis using stream_inv_count [OF inv] lv live_finite [of l] a \<open>0 < card (live_reqs l)\<close> by simp
  qed
  have "io_inv l' = io_inv l" unfolding l'_def mark_closed_def set_flags_def by (rule io_inv_cong) simp_all
  then have base: "io_inv l'" "handles_ok l'" "to_close [] l'"
    using stream_invD(1-3) [OF inv] n by (auto simp: handles_ok_def alive_handles_def to_close_def f(1,3,4) fl)
  have fd: "stream_fd g l' = stream_fd g l" "io_pevents (io l' g) = io_pevents (io l g)" "write_local l' g = write_local l g" for g
    by (simp_all add: stream_fd_def f)
  have "stream_inv k l'"
    by (rule stream_inv_step [OF inv h base f(1,2) one' w fd(3) fd(1) fd(1) fd(2) conjunct1 [OF ct]])
  then show ?thesis using ct by blast
qed

text \<open>\<open>quiet\<close>: no pass on completed requests is under way.\<close>

definition quiet :: "'a stream_loop_scheme \<Rightarrow> bool" where
  "quiet l \<longleftrightarrow> (\<forall>h. write_local l h = [])"

lemma later_quiet: "stream_later l l' \<Longrightarrow> quiet l \<Longrightarrow> quiet l'"
  by (simp add: quiet_def stream_later_split)

definition kept :: "'a uv_loop_scheme \<Rightarrow> 'a uv_loop_scheme \<Rightarrow> addr list \<Rightarrow> bool" where
  "kept l l' ps \<longleftrightarrow> (\<forall>g\<in>set ps. h_type l' g = h_type l g \<and> h_close_cb l' g = h_close_cb l g)"

lemma later_kept: "to_close ps l \<Longrightarrow> stream_later l l' \<Longrightarrow> kept l l' ps"
  by (simp add: to_close_def stream_later_def kept_def)

lemma kept_trans: "kept a b ps \<Longrightarrow> kept b c ps \<Longrightarrow> kept a c ps"
  by (simp add: kept_def)

text \<open>The callbacks of the requests that are left run, and nothing is left.\<close>

lemma destroy_ok:
  assumes E: "safe_env k E" and inv: "stream_inv k l" and h: "h \<in> streams l" and c: "closing l h" "\<not> closed l h"
    and t: "to_close (h # ps) l" and w: "quiet l"
  shows "\<exists>l'. uv__stream_destroy E h (mark_closed h l) = Some l' \<and> stream_inv k l' \<and> to_close ps l' \<and> h \<in> streams l' \<and> quiet l' \<and>
    closing l' h \<and> owned l' h = {} \<and> h \<notin> set ps \<and> h \<notin> set (closing_handles l') \<and> kept l l' (h # ps) \<and> connect_req l' h = None \<and> write_size l' h = 0"
proof -
  have nc: "h \<notin> set (closing_handles l)" "h \<notin> set ps" using t by (auto simp: to_close_def)
  define l1 where "l1 = (mark_closed h l)\<lparr>active_reqs := if connect_req l h = None then active_reqs l else active_reqs l - 1\<rparr>"
  have i1: "stream_inv k l1" "connect_req l h \<noteq> None \<Longrightarrow> active_reqs l > 0"
    using mark_closed_ok [OF inv h c nc(1)] by (simp_all add: l1_def)
  have f1: "handle_queue l1 = handle_queue l" "h_type l1 = h_type l" "closing_handles l1 = closing_handles l" "h_close_cb l1 = h_close_cb l"
    "write_local l1 = write_local l" "connect_req l1 = connect_req l" "io l1 = io l"
    by (simp_all add: l1_def mark_closed_def set_flags_def)
  have b1: "closing l1 g = closing l g" "closed l1 g \<longleftrightarrow> closed l g \<or> g = h" for g
    using mark_closed_flags [of h l g] by (simp_all add: l1_def flag_views)
  have t1: "to_close ps l1" using t by (auto simp: to_close_def f1 b1)
  have h1: "h \<in> streams l1" using h by (simp add: streams_def f1)
  have pe: "io_pevents (io (mark_closed h l) h) = 0"
  proof -
    have "stream_fd h l = - 1" using stream_parts(2) [OF inv h] c by (simp add: mode_ok_def)
    then show ?thesis using io_ok_active [of l h] stream_inv_io [OF inv]
      by (auto simp: mark_closed_def set_flags_def io_inv_def stream_fd_def)
  qed
  have act: "uv__io_active h (or POLLIN POLLOUT) (mark_closed h l) = Some False"
    using pe by (simp add: uv__io_active_def valid_events_def io_mask_def POLLIN_def POLLOUT_def POLLPRI_def POLLRDHUP_def)
  have cl: "flagged h UV_HANDLE_CLOSED (mark_closed h l)" by (simp add: flagged_bits mark_closed_bits)
  define conn where "conn = (case connect_req l h of
               None \<Rightarrow> Some (mark_closed h l)
             | Some r \<Rightarrow> Option.bind (uv__req_unregister (mark_closed h l)) (\<lambda>l. Option.bind (call_req E r (Inl UV_ECANCELED) l) (\<lambda>l.
                 Some (l\<lparr>connect_req := (connect_req l)(h := None)\<rparr>))))"
  obtain l3 where l3: "conn = Some l3" "stream_inv k l3" "stream_later l1 l3" "connect_req l3 h = None"
  proof (cases "connect_req l h")
    case None
    have "(mark_closed h l)\<lparr>active_reqs := active_reqs l\<rparr> = mark_closed h l" by (simp add: mark_closed_def set_flags_def)
    then have "l1 = mark_closed h l" by (simp add: l1_def None)
    then show ?thesis using that [of l1] None i1(1) f1(6) stream_later_refl [of l1] unfolding conn_def by simp
  next
    case (Some r)
    have un: "uv__req_unregister (mark_closed h l) = Some l1"
      using i1(2) Some by (simp add: uv__req_unregister_def uv__has_active_reqs_def l1_def mark_closed_def set_flags_def)
    obtain l2 where l2: "call_req E r (Inl UV_ECANCELED) l1 = Some l2" "stream_inv k l2" "stream_later l1 l2" using call_req_ok [OF E i1(1)] by blast
    have h2: "h \<in> streams l2" using l2(3) h1 streams_later by blast
    have "closed l2 h" using l2(3) h1 b1 by (simp add: stream_later_def streams_def)
    then have cn: "connecting l2 h = None" by (simp add: connecting_def)
    define l3 where "l3 = l2\<lparr>connect_req := (connect_req l2)(h := None)\<rparr>"
    have m: "mode_step h l2 l3" by (simp add: mode_step_def l3_def)
    have ok: "mode_ok l3 h" by (rule mode_same [OF stream_parts(2) [OF l2(2) h2] m]) (simp_all add: l3_def)
    have o: "owned l3 h = owned l2 h" using \<open>closed l2 h\<close> by (simp add: owned_def out_def connecting_def closed_def l3_def)
    have "active_reqs l3 = active_reqs l2" by (simp add: l3_def)
    then have "stream_inv k l3 \<and> stream_later l2 l3" using mode_step_inv [OF l2(2) h2 m ok] mode_step_count(1) [OF l2(2) h2 m o] by blast
    then show ?thesis using that [of l3] stream_later_trans [OF l2(3)] Some un l2(1) by (simp add: conn_def l3_def)
  qed
  have h3: "h \<in> streams l3" using l3(3) h1 streams_later by blast
  define l4 where "l4 = uv__stream_flush_write_queue h (Inl UV_ECANCELED) l3"
  have l4: "stream_inv k l4" "stream_later l3 l4" "write_queue l4 h = []" "connect_req l4 h = None"
    using flush_ok [OF l3(2) h3, of "Inl UV_ECANCELED"] l3(4) by (simp_all add: l4_def)
  have lt4: "stream_later l1 l4" using l3(3) l4(2) stream_later_trans by blast
  have q1: "quiet l1" using w by (simp add: quiet_def f1)
  have c4: "closing l4 h" "h \<in> streams l4" "write_local l4 h = []"
    using lt4 h1 c(1) b1 later_quiet [OF lt4 q1] streams_later by (auto simp: stream_later_def streams_def quiet_def)
  obtain l5 where l5: "uv__write_callbacks E h l4 = Some l5" "stream_inv k l5" "stream_later l4 l5" "write_completed l5 h = []" "write_queue l5 h = []"
      "connect_req l5 h = None"
    using write_callbacks_ok [OF E l4(1) c4(2,3)] c4(1) l4(3,4) by auto
  have c5: "closing l5 h" "h \<in> streams l5" using l5(3) c4 streams_later by (auto simp: stream_later_def streams_def)
  obtain l6 where l6: "uv__drain E h l5 = Some l6" "stream_inv k l6" "stream_later l5 l6" "shutdown_req l6 h = None" "write_queue l6 h = []"
      "write_completed l6 h = []" "connect_req l6 h = None"
    using drain_ok [OF E l5(2) c5(2) l5(5)] c5(1) l5(4,6) by auto
  have lt6: "stream_later l1 l6" using lt4 l5(3) l6(3) stream_later_trans by blast
  have h6: "h \<in> streams l6" using lt6 h1 streams_later by blast
  have q6: "quiet l6" by (rule later_quiet [OF lt6 q1])
  have out: "out l6 h = []" using q6 l6(5,6) by (simp add: out_def quiet_def)
  then have z: "write_size l6 h = 0" using one_streamD(2) [OF stream_inv_one [OF l6(2) h6]] by (simp add: size_ok_def)
  have "uv__stream_destroy E h (mark_closed h l) = Some l6"
  proof -
    have "connect_req (mark_closed h l) h = connect_req l h" by (simp add: mark_closed_def set_flags_def)
    then have "uv__stream_destroy E h (mark_closed h l) = Option.bind conn (\<lambda>l.
        Option.bind (uv__write_callbacks E h (uv__stream_flush_write_queue h (Inl UV_ECANCELED) l)) (\<lambda>l.
        Option.bind (uv__drain E h l) (\<lambda>l. if write_size l h = 0 then Some l else None)))"
      using act cl by (simp add: uv__stream_destroy_def conn_def cong: option.case_cong)
    then show ?thesis using l3(1) l5(1) l6(1) z by (simp add: l4_def)
  qed
  moreover have "owned l6 h = {}" using out l6(4,7) by (simp add: owned_def connecting_def)
  moreover have "closing l6 h" "kept l l6 (h # ps)"
    using lt6 h1 c(1) b1 f1 t by (auto simp: stream_later_def streams_def kept_def to_close_def)
  moreover have "h \<notin> set (closing_handles l6)"
  proof -
    have "closed l6 h" using lt6 h1 b1 by (simp add: stream_later_def streams_def)
    then show ?thesis using stream_inv_close [OF l6(2)] by (auto simp: to_close_def)
  qed
  ultimately show ?thesis using l6(2,7) later_to_close [OF t1 lt6 l6(2)] h6 q6 nc(2) z by blast
qed


section \<open>Steps on the handles of the loop\<close>

text \<open>Streams may come without requests and without a descriptor, and go without requests.\<close>

lemma stream_inv_frame:
  assumes inv: "stream_inv k l" and base: "io_inv l'" "handles_ok l'" "to_close [] l'"
    and S: "\<And>g. g \<in> streams l' \<Longrightarrow> g \<in> streams l \<and> wsame l l' g \<and> msame l l' g \<or>
      g \<notin> streams l \<and> one_stream l' g \<and> owned l' g = {} \<and> stream_fd g l' = - 1"
    and gone: "\<And>g. g \<in> streams l \<Longrightarrow> g \<notin> streams l' \<Longrightarrow> owned l g = {}"
    and loc: "\<And>g. write_local l' g = write_local l g" "\<And>g. g \<notin> streams l' \<Longrightarrow> write_local l g = []"
    and fd: "\<And>w. stream_fd w l' = stream_fd w l \<or> stream_fd w l' = - 1"
    and pe: "\<And>w. io_pevents (io l' w) \<noteq> 0 \<Longrightarrow> io_pevents (io l w) \<noteq> 0"
    and ar: "active_reqs l' = active_reqs l"
  shows "stream_inv k l'"
proof -
  have "one_stream l' g" if "g \<in> streams l'" for g
    using S [OF that] same_one [of l l' g] stream_inv_one [OF inv] by blast
  moreover have "fds_ok l'"
  proof -
    have old: "fds_ok l" by (rule stream_inv_fds [OF inv])
    show ?thesis unfolding fds_ok_def
    proof (intro ballI allI impI)
      fix a w
      assume a: "a \<in> streams l'" "0 \<le> stream_fd a l'" "stream_fd w l' = stream_fd a l'" "w \<in> streams l' \<or> io_pevents (io l' w) \<noteq> 0"
      have "stream_fd a l = stream_fd a l'" "stream_fd w l = stream_fd w l'" using fd [of a] fd [of w] a(2,3) by auto
      moreover have "a \<in> streams l" "w \<in> streams l' \<Longrightarrow> w \<in> streams l" using S [OF a(1)] S [of w] a(2,3) by auto
      ultimately show "w = a" using old a pe [of w] unfolding fds_ok_def by metis
    qed
  qed
  moreover have "live_reqs l' = live_reqs l"
  proof -
    have "owned l' g \<subseteq> live_reqs l" if "g \<in> streams l'" for g
      using S [OF that] wsame_owned(1) [of l l' g] by (auto simp: live_reqs_def)
    moreover have "owned l g \<subseteq> live_reqs l'" if "g \<in> streams l" for g
      using S [of g] gone [OF that] wsame_owned(1) [of l l' g] that by (cases "g \<in> streams l'") (auto simp: live_reqs_def)
    ultimately show ?thesis unfolding live_reqs_def by blast
  qed
  ultimately show ?thesis using base loc stream_inv_count [OF inv] ar by (simp add: stream_inv_def)
qed

lemma unlink_ok:
  assumes inv: "stream_inv k l" and h: "h \<in> set (handle_queue l)" and c: "closing l h" and o: "h \<in> streams l \<Longrightarrow> owned l h = {}"
    and n: "h \<notin> set (closing_handles l)"
  defines "l' \<equiv> finish_close_unlink h l"
  shows "stream_inv k l'"
proof -
  have shape: "l' = l\<lparr>h_flags := h_flags l', active_handles := active_handles l', handle_queue := remove1 h (handle_queue l)\<rparr>"
    by (simp add: l'_def finish_close_unlink_def handle_defs Let_def)
  have f: "handle_queue l' = remove1 h (handle_queue l)" "h_type l' = h_type l" "closing_handles l' = closing_handles l"
    "connect_req l' = connect_req l" "shutdown_req l' = shutdown_req l" "read_cb l' = read_cb l" "alloc_cb l' = alloc_cb l"
    "write_queue l' = write_queue l" "write_completed l' = write_completed l" "write_local l' = write_local l" "wire l' = wire l"
    "called l' = called l" "submitted l' = submitted l" "io l' = io l" "write_size l' = write_size l" "req l' = req l"
    "active_reqs l' = active_reqs l"
    by (subst shape, simp)+
  have hf: "h_flags l' g = h_flags l g" if "g \<noteq> h" for g using that by (simp add: l'_def finish_close_unlink_def handle_defs Let_def)
  have d: "distinct (handle_queue l)" using stream_inv_handles [OF inv] by (simp add: handles_ok_def)
  then have st: "streams l' = streams l - {h}" by (auto simp: streams_def f)
  have ii: "io_inv l' = io_inv l" by (subst shape, rule io_inv_cong) simp_all
  show ?thesis
  proof (rule stream_inv_frame [OF inv])
    show "io_inv l'" using ii stream_inv_io [OF inv] by simp
    show "handles_ok l'" unfolding l'_def by (rule handles_unlink [OF stream_inv_handles [OF inv] h])
    show "to_close [] l'" using stream_inv_close [OF inv] n d by (auto simp: to_close_def l'_def)
  next
    fix g
    assume "g \<in> streams l'"
    then have g: "g \<in> streams l" "g \<noteq> h" using st by auto
    have "wsame l l' g" using hf [OF g(2)] by (simp add: wsame_def f connecting_def closed_def wire_bytes_def)
    moreover have "msame l l' g" using hf [OF g(2)] by (simp add: msame_def f stream_fd_def)
    ultimately show "g \<in> streams l \<and> wsame l l' g \<and> msame l l' g \<or>
      g \<notin> streams l \<and> one_stream l' g \<and> owned l' g = {} \<and> stream_fd g l' = - 1" using g(1) by blast
  next
    fix g
    assume "g \<notin> streams l'"
    show "write_local l g = []"
    proof (cases "g \<in> streams l")
      case True
      then have "owned l g = {}" using st \<open>g \<notin> streams l'\<close> o by blast
      then show ?thesis by (simp add: owned_def out_def)
    qed (rule stream_inv_local [OF inv])
  qed (use st o in \<open>auto simp: f stream_fd_def\<close>)
qed

lemma mark_closed_other:
  assumes inv: "stream_inv k l" and h: "h \<notin> streams l" and n: "h \<notin> set (closing_handles l)"
  shows "stream_inv k (mark_closed h l)"
proof -
  let ?l = "mark_closed h l"
  have f: "handle_queue ?l = handle_queue l" "h_type ?l = h_type l" "closing_handles ?l = closing_handles l"
    "connect_req ?l = connect_req l" "shutdown_req ?l = shutdown_req l" "read_cb ?l = read_cb l" "alloc_cb ?l = alloc_cb l"
    "write_queue ?l = write_queue l" "write_completed ?l = write_completed l" "write_local ?l = write_local l" "wire ?l = wire l"
    "called ?l = called l" "submitted ?l = submitted l" "io ?l = io l" "write_size ?l = write_size l" "req ?l = req l"
    "active_reqs ?l = active_reqs l" "active_handles ?l = active_handles l"
    by (simp_all add: mark_closed_def set_flags_def)
  have st: "streams ?l = streams l" by (simp add: streams_def f)
  have ii: "io_inv ?l = io_inv l" unfolding mark_closed_def set_flags_def by (rule io_inv_cong) simp_all
  have w: "wsame l ?l g \<and> msame l ?l g" if "g \<in> streams l" for g
  proof -
    have "g \<noteq> h" using that h by blast
    then show ?thesis by (simp add: wsame_def msame_def f connecting_def mark_closed_flags wire_bytes_def stream_fd_def)
      (simp add: mark_closed_def set_flags_def)
  qed
  show ?thesis
  proof (rule stream_inv_frame [OF inv])
    show "handles_ok ?l" using stream_inv_handles [OF inv] by (simp add: handles_ok_def alive_handles_def f mark_closed_flags)
    show "to_close [] ?l" using stream_inv_close [OF inv] n by (auto simp: to_close_def f mark_closed_flags)
  qed (use ii stream_inv_io [OF inv] st w stream_inv_local [OF inv] in \<open>auto simp: f stream_fd_def\<close>)
qed

section \<open>The closing pass\<close>

definition safe_close :: "nat \<Rightarrow> (nat \<Rightarrow> addr \<Rightarrow> 'a stream_loop_scheme \<Rightarrow> 'a stream_loop_scheme option) \<Rightarrow> bool" where
  "safe_close k run \<longleftrightarrow> (\<forall>cb h l. stream_inv k l \<longrightarrow> (\<exists>l'. run cb h l = Some l' \<and> stream_inv k l' \<and> stream_later l l' \<and> frozen l l'))"

definition closable :: "uv_handle_type \<Rightarrow> bool" where
  "closable t \<longleftrightarrow> simple_type t \<or> t \<in> {UV_TCP, UV_NAMED_PIPE, UV_TTY}"

lemma unlink_to_close:
  assumes "to_close ps l" and "distinct (handle_queue l)" and "h \<notin> set ps" "h \<notin> set (closing_handles l)"
  shows "to_close ps (finish_close_unlink h l)"
  using assms by (auto simp: to_close_def)

lemma finish_close_ok:
  assumes E: "safe_env k E" and C: "safe_close k run" and inv: "stream_inv k l" and t: "to_close (h # ps) l" and q: "quiet l"
    and ty: "closable (h_type l h)"
  shows "\<exists>l'. uv__finish_close (destroy_stream E) run h l = Some (if h_close_cb l h = None then [] else [h], l') \<and>
    stream_inv k l' \<and> to_close ps l' \<and> quiet l' \<and> kept l l' ps"
proof -
  have c: "closing l h" "\<not> closed l h" "h \<in> set (handle_queue l)" "h \<notin> set ps" "h \<notin> set (closing_handles l)" using t by (auto simp: to_close_def)
  obtain l1 where l1: "uv__finish_close (destroy_stream E) run h l = close_tail run h l1" "stream_inv k l1" "to_close ps l1" "quiet l1"
    "closing l1 h" "h \<in> set (handle_queue l1)" "h \<in> streams l1 \<Longrightarrow> owned l1 h = {}" "h \<notin> set ps" "h \<notin> set (closing_handles l1)"
    "kept l l1 (h # ps)"
  proof (cases "h_type l h \<in> {UV_TCP, UV_NAMED_PIPE, UV_TTY}")
    case True
    then have h: "h \<in> streams l" using c by (simp add: streams_def)
    obtain l1 where l1: "uv__stream_destroy E h (mark_closed h l) = Some l1" "stream_inv k l1" "to_close ps l1" "h \<in> streams l1" "quiet l1"
      "closing l1 h" "owned l1 h = {}" "h \<notin> set ps" "h \<notin> set (closing_handles l1)" "kept l l1 (h # ps)"
      using destroy_ok [OF E inv h c(1,2) t q] by blast
    have "h_type (mark_closed h l) = h_type l" by (simp add: mark_closed_def)
    then have "uv__finish_close (destroy_stream E) run h l = close_tail run h l1"
      using c True l1(1) by (auto simp: uv__finish_close_def mark_closed_def [symmetric] destroy_stream_def flag_bits flag_views Let_def)
    then show ?thesis using that l1 by (auto simp: streams_def)
  next
    case False
    then have h: "h \<notin> streams l" by (simp add: streams_def)
    let ?l = "mark_closed h l"
    have f: "handle_queue ?l = handle_queue l" "h_type ?l = h_type l" "closing_handles ?l = closing_handles l" "write_local ?l = write_local l"
      "h_close_cb ?l = h_close_cb l"
      by (simp_all add: mark_closed_def set_flags_def)
    have "uv__finish_close (destroy_stream E) run h l = close_tail run h ?l"
      using c ty False by (auto simp: uv__finish_close_def mark_closed_def [symmetric] closable_def simple_type_def f flag_bits flag_views Let_def)
    moreover have "to_close ps ?l" using t by (auto simp: to_close_def f mark_closed_flags)
    moreover have "streams ?l = streams l" by (simp add: streams_def f)
    ultimately show ?thesis
      using that [of ?l] mark_closed_other [OF inv h c(5)] q c h by (simp add: f mark_closed_flags quiet_def kept_def)
  qed
  define l2 where "l2 = finish_close_unlink h l1"
  have d: "distinct (handle_queue l1)" using stream_inv_handles [OF l1(2)] by (simp add: handles_ok_def)
  have l2: "stream_inv k l2" "to_close ps l2" "h_close_cb l2 = h_close_cb l1"
    using unlink_ok [OF l1(2,6,5,7,9)] unlink_to_close [OF l1(3) d l1(8,9)] by (simp_all add: l2_def)
  have q2: "quiet l2" using l1(4) by (simp add: l2_def quiet_def finish_close_unlink_def handle_defs Let_def)
  have cb: "h_close_cb l1 h = h_close_cb l h" using l1(10) by (simp add: kept_def)
  have k2: "kept l l2 ps" using l1(10) by (simp add: kept_def l2_def)
  show ?thesis
  proof (cases "h_close_cb l h")
    case None
    then show ?thesis using l1(1) cb l2 q2 k2 by (simp add: close_tail_def l2_def)
  next
    case (Some cb)
    obtain l3 where l3: "run cb h l2 = Some l3" "stream_inv k l3" "stream_later l2 l3" using C l2(1) unfolding safe_close_def by blast
    then show ?thesis using Some l1(1) cb later_to_close [OF l2(2) l3(3,2)] later_quiet [OF l3(3) q2]
        kept_trans [OF k2 later_kept [OF l2(2) l3(3)]]
      by (simp add: close_tail_def l2_def)
  qed
qed


lemma closing_pass_ok:
  assumes E: "safe_env k E" and C: "safe_close k run"
  shows "stream_inv k l \<Longrightarrow> to_close ps l \<Longrightarrow> quiet l \<Longrightarrow> \<forall>h\<in>set ps. closable (h_type l h) \<Longrightarrow>
    \<exists>l'. closing_loop (destroy_stream E) run ps l = Some (filter (\<lambda>h. h_close_cb l h \<noteq> None) ps, l') \<and> stream_inv k l' \<and> quiet l'"
proof (induction ps arbitrary: l)
  case (Cons h ps)
  obtain l1 where l1: "uv__finish_close (destroy_stream E) run h l = Some (if h_close_cb l h = None then [] else [h], l1)"
    "stream_inv k l1" "to_close ps l1" "quiet l1" "kept l l1 ps"
    using finish_close_ok [OF E C Cons.prems(1-3)] Cons.prems(4) by auto
  obtain l2 where l2: "closing_loop (destroy_stream E) run ps l1 = Some (filter (\<lambda>h. h_close_cb l1 h \<noteq> None) ps, l2)" "stream_inv k l2" "quiet l2"
    using Cons.IH [OF l1(2-4)] l1(5) Cons.prems(4) by (auto simp: kept_def)
  have "filter (\<lambda>h. h_close_cb l1 h \<noteq> None) ps = filter (\<lambda>h. h_close_cb l h \<noteq> None) ps"
    using l1(5) by (intro filter_cong) (simp_all add: kept_def)
  then show ?case using l1(1) l2 by auto
qed simp

lemma take_closing:
  assumes inv: "stream_inv k l"
  defines "l' \<equiv> l\<lparr>closing_handles := []\<rparr>"
  shows "stream_inv k l'" "to_close (closing_handles l) l'"
proof -
  let ?l = "l\<lparr>closing_handles := []\<rparr>"
  have t: "to_close (closing_handles l) ?l" using stream_inv_close [OF inv] by (simp add: to_close_def)
  have ii: "io_inv ?l = io_inv l" by (rule io_inv_cong) simp_all
  have "streams ?l = streams l" by (simp add: streams_def)
  moreover have "wsame l ?l g \<and> msame l ?l g" for g by (simp add: wsame_def msame_def connecting_def closed_def wire_bytes_def stream_fd_def)
  moreover have "handles_ok ?l" using stream_inv_handles [OF inv] handles_ok_cong [of ?l l] by simp
  moreover have "to_close [] ?l" by (simp add: to_close_def)
  ultimately show "stream_inv k l'"
    unfolding l'_def using stream_invD [OF inv] ii by (intro stream_inv_frame [OF inv]) (auto simp: stream_fd_def)
  show "to_close (closing_handles l) l'" using t by (simp add: l'_def)
qed

lemma run_closing_ok:
  assumes E: "safe_env k E" and C: "safe_close k run" and inv: "stream_inv k l" and q: "quiet l"
    and ty: "\<forall>h\<in>set (closing_handles l). closable (h_type l h)"
  shows "\<exists>l'. uv__run_closing_handles (destroy_stream E) run l = Some (filter (\<lambda>h. h_close_cb l h \<noteq> None) (closing_handles l), l') \<and>
    stream_inv k l' \<and> quiet l'"
proof -
  let ?l = "l\<lparr>closing_handles := []\<rparr>"
  note t = take_closing [OF inv]
  have "quiet ?l" using q by (simp add: quiet_def)
  then show ?thesis using closing_pass_ok [OF E C t] ty by (simp add: uv__run_closing_handles_def)
qed

end
