(* ===== verification/UV_Tcp.thy ===== *)
theory UV_Tcp
  imports UV_Stream
begin

text \<open>
  TCP handles: src/unix/tcp.c, \<open>uv__socket\<close> of src/unix/core.c, and the checks of src/uv-common.c in
  front of them.  The kernel's answers are parameters, numbered by the field \<open>sys\<close>.  The addresses
  that are bound and connected to are the kernel's: only their family is in the model, and a
  connection in progress is a success of \<open>connect\<close>.
\<close>

section \<open>Sockets\<close>

datatype domain = AF_UNSPEC | AF_INET4 | AF_INET6 | AF_UNIX

definition domain_of :: "u32 \<Rightarrow> domain option" where
  "domain_of n = (if n = 0 then Some AF_UNSPEC else if n = 2 then Some AF_INET4 else if n = 10 then Some AF_INET6 else None)"

definition UV_HANDLE_IPV6 :: u32 where "UV_HANDLE_IPV6 = 0x400000"
definition UV_HANDLE_TCP_NODELAY :: u32 where "UV_HANDLE_TCP_NODELAY = 0x1000000"
definition UV_HANDLE_TCP_KEEPALIVE :: u32 where "UV_HANDLE_TCP_KEEPALIVE = 0x2000000"
definition UV_TCP_IPV6ONLY :: u32 where "UV_TCP_IPV6ONLY = 1"

text \<open>\<open>sys_socket k d flagged\<close> creates a socket, with the flags of Linux or without;
  \<open>sys_getsockname\<close> answers with the port.\<close>

record tcp_sys =
  sys_socket :: "nat \<Rightarrow> domain \<Rightarrow> bool \<Rightarrow> int result"
  sys_ioctl :: "nat \<Rightarrow> int \<Rightarrow> ret"
  sys_setsockopt :: "nat \<Rightarrow> int \<Rightarrow> ret"
  sys_getsockname :: "nat \<Rightarrow> int \<Rightarrow> nat result"
  sys_bind :: "nat \<Rightarrow> int \<Rightarrow> ret"
  sys_listen :: "nat \<Rightarrow> int \<Rightarrow> ret"
  sys_connect :: "nat \<Rightarrow> int \<Rightarrow> ret"

text \<open>One system call.\<close>

definition call :: "(nat \<Rightarrow> 'r) \<Rightarrow> 'a stream_loop_scheme \<Rightarrow> 'r \<times> 'a stream_loop_scheme" where
  "call f l = (f (sys l), l\<lparr>sys := sys l + 1\<rparr>)"

definition uv__socket :: "tcp_sys \<Rightarrow> domain \<Rightarrow> 'a stream_loop_scheme \<Rightarrow> int result \<times> 'a stream_loop_scheme" where
  "uv__socket T d l =
     (let (r, l) = call (\<lambda>k. sys_socket T k d True) l
      in if r \<noteq> Inl UV_EINVAL then (r, l)
         else case call (\<lambda>k. sys_socket T k d False) l of
           (Inl e, l) \<Rightarrow> (Inl e, l)
         | (Inr fd, l) \<Rightarrow>
             (let (err, l) = call (\<lambda>k. sys_ioctl T k fd) l;
                  (err, l) = (if err = OK then call (\<lambda>k. sys_ioctl T k fd) l else (err, l))
              in case err of Inl e \<Rightarrow> (Inl e, uv__close_fd fd l) | Inr _ \<Rightarrow> (Inr fd, l)))"

definition uv__tcp_nodelay :: "tcp_sys \<Rightarrow> int \<Rightarrow> 'a stream_loop_scheme \<Rightarrow> ret \<times> 'a stream_loop_scheme" where
  "uv__tcp_nodelay T fd l = call (\<lambda>k. sys_setsockopt T k fd) l"

text \<open>The result \<open>-1\<close> for a delay of zero is \<open>UV_EPERM\<close>.\<close>

definition uv__tcp_keepalive :: "tcp_sys \<Rightarrow> int \<Rightarrow> bool \<Rightarrow> nat \<Rightarrow> 'a stream_loop_scheme \<Rightarrow> ret \<times> 'a stream_loop_scheme" where
  "uv__tcp_keepalive T fd on delay l =
     (let set = call (\<lambda>k. sys_setsockopt T k fd);
          (err, l) = set l
      in if err \<noteq> OK \<or> \<not> on then (err, l)
         else if delay = 0 then (Inl UV_EPERM, l)
         else let (err, l) = set l
              in if err \<noteq> OK then (err, l)
                 else let (err, l) = set l in if err \<noteq> OK then (err, l) else set l)"

text \<open>The options that \<open>uv__stream_open\<close> sets on a TCP socket.\<close>

definition open_options :: "tcp_sys \<Rightarrow> addr \<Rightarrow> int \<Rightarrow> 'a stream_loop_scheme \<Rightarrow> ret \<times> 'a stream_loop_scheme" where
  "open_options T h fd l =
     (if h_type l h \<noteq> UV_TCP then (OK, l)
      else let (err, l) = (if flagged h UV_HANDLE_TCP_NODELAY l then uv__tcp_nodelay T fd l else (OK, l))
           in if err \<noteq> OK then (err, l)
              else if flagged h UV_HANDLE_TCP_KEEPALIVE l then uv__tcp_keepalive T fd True 60 l else (OK, l))"

definition stream_open :: "tcp_sys \<Rightarrow> addr \<Rightarrow> int \<Rightarrow> u32 \<Rightarrow> 'a stream_loop_scheme \<Rightarrow> (ret \<times> 'a stream_loop_scheme) option" where
  "stream_open T h fd flags l =
     (if stream_fd h l = - 1 \<or> stream_fd h l = fd
      then let (opts, l) = open_options T h fd l in uv__stream_open opts h fd flags l
      else uv__stream_open OK h fd flags l)"

definition maybe_bind_socket :: "tcp_sys \<Rightarrow> int \<Rightarrow> 'a stream_loop_scheme \<Rightarrow> ret \<times> 'a stream_loop_scheme" where
  "maybe_bind_socket T fd l =
     (case call (\<lambda>k. sys_getsockname T k fd) l of
        (Inl e, l) \<Rightarrow> (Inl e, l)
      | (Inr port, l) \<Rightarrow> if port \<noteq> 0 then (OK, l) else call (\<lambda>k. sys_bind T k fd) l)"

definition new_socket :: "tcp_sys \<Rightarrow> addr \<Rightarrow> domain \<Rightarrow> u32 \<Rightarrow> 'a stream_loop_scheme \<Rightarrow> (ret \<times> 'a stream_loop_scheme) option" where
  "new_socket T h d flags l =
     (case uv__socket T d l of
        (Inl e, l) \<Rightarrow> Some (Inl e, l)
      | (Inr fd, l) \<Rightarrow> do {
          (err, l) \<leftarrow> stream_open T h fd flags l;
          Some (if err \<noteq> OK then (err, uv__close_fd fd l)
                else if has_flag flags UV_HANDLE_BOUND then maybe_bind_socket T fd l else (OK, l))
        })"

definition maybe_new_socket :: "tcp_sys \<Rightarrow> addr \<Rightarrow> domain \<Rightarrow> u32 \<Rightarrow> 'a stream_loop_scheme \<Rightarrow>
    (ret \<times> 'a stream_loop_scheme) option" where
  "maybe_new_socket T h d flags l =
     (if d = AF_UNSPEC then Some (OK, flag_on h flags l)
      else if stream_fd h l = - 1 then new_socket T h d flags l
      else if \<not> has_flag flags UV_HANDLE_BOUND \<or> flagged h UV_HANDLE_BOUND l then Some (OK, flag_on h flags l)
      else case maybe_bind_socket T (stream_fd h l) l of
             (Inl e, l) \<Rightarrow> Some (Inl e, l)
           | (Inr _, l) \<Rightarrow> Some (OK, flag_on h flags l))"

section \<open>The calls of a client\<close>

definition uv_tcp_init_ex :: "('a stream_loop_scheme) stream_env \<Rightarrow> tcp_sys \<Rightarrow> addr \<Rightarrow> u32 \<Rightarrow> 'a stream_loop_scheme \<Rightarrow>
    (ret \<times> 'a stream_loop_scheme) option" where
  "uv_tcp_init_ex E T h flags l =
     (case domain_of (and flags 0xFF) of
        None \<Rightarrow> Some (Inl UV_EINVAL, l)
      | Some d \<Rightarrow>
          if and flags (not 0xFF) \<noteq> 0 then Some (Inl UV_EINVAL, l)
          else do {
            l \<leftarrow> uv__stream_init E h UV_TCP l;
            if d = AF_UNSPEC then Some (OK, l)
            else do {
              (err, l) \<leftarrow> new_socket T h d 0 l;
              if err = OK then Some (OK, l)
              else let l = l\<lparr>handle_queue := remove1 h (handle_queue l)\<rparr>;
                       fd = stream_fd h l;
                       l = (if fd \<noteq> - 1 then uv__close_fd fd l else l)
                   in Some (err, set_io h ((io l h)\<lparr>io_fd := - 1\<rparr>) l)
            }
          })"

definition uv_tcp_init :: "('a stream_loop_scheme) stream_env \<Rightarrow> tcp_sys \<Rightarrow> addr \<Rightarrow> 'a stream_loop_scheme \<Rightarrow>
    (ret \<times> 'a stream_loop_scheme) option" where
  "uv_tcp_init E T h l = uv_tcp_init_ex E T h 0 l"

text \<open>\<open>IPV6_V6ONLY\<close> is set for an IPv6 address.\<close>

definition uv__tcp_bind :: "tcp_sys \<Rightarrow> addr \<Rightarrow> domain \<Rightarrow> u32 \<Rightarrow> 'a stream_loop_scheme \<Rightarrow> (ret \<times> 'a stream_loop_scheme) option" where
  "uv__tcp_bind T h d flags l =
     (if has_flag flags UV_TCP_IPV6ONLY \<and> d \<noteq> AF_INET6 then Some (Inl UV_EINVAL, l)
      else do {
        (err, l) \<leftarrow> maybe_new_socket T h d 0 l;
        if err \<noteq> OK then Some (err, l)
        else let (err, l) = call (\<lambda>k. sys_setsockopt T k (stream_fd h l)) l
             in if err \<noteq> OK then Some (err, l)
                else let (err, l) = (if d = AF_INET6 then call (\<lambda>k. sys_setsockopt T k (stream_fd h l)) l else (OK, l))
                     in if err \<noteq> OK then Some (err, l)
                        else let (err, l) = call (\<lambda>k. sys_bind T k (stream_fd h l)) l
                             in if err \<noteq> OK \<and> err \<noteq> Inl UV_EADDRINUSE
                                then Some (if err = Inl UV_EAFNOSUPPORT then Inl UV_EINVAL else err, l)
                                else let l = l\<lparr>delayed_error := (delayed_error l)(h := if err = OK then None else Some UV_EADDRINUSE)\<rparr>;
                                         l = flag_on h UV_HANDLE_BOUND l
                                     in Some (OK, if d = AF_INET6 then flag_on h UV_HANDLE_IPV6 l else l)
      })"

definition uv_tcp_bind :: "tcp_sys \<Rightarrow> addr \<Rightarrow> domain \<Rightarrow> u32 \<Rightarrow> 'a stream_loop_scheme \<Rightarrow> (ret \<times> 'a stream_loop_scheme) option" where
  "uv_tcp_bind T h d flags l =
     (if h_type l h \<noteq> UV_TCP \<or> uv__is_closing h l \<or> d \<notin> {AF_INET4, AF_INET6} then Some (Inl UV_EINVAL, l)
      else uv__tcp_bind T h d flags l)"

text \<open>The end of \<open>uv__tcp_connect\<close>.\<close>

definition connect_start :: "addr \<Rightarrow> addr \<Rightarrow> nat option \<Rightarrow> 'a stream_loop_scheme \<Rightarrow> (ret \<times> 'a stream_loop_scheme) option" where
  "connect_start r h cb l =
     (let l = uv__req_register l;
          l = set_req r ((req l r)\<lparr>r_cb := cb, r_handle := h\<rparr>) l;
          l = l\<lparr>connect_req := (connect_req l)(h := Some r)\<rparr>
      in Option.bind (uv__io_start h POLLOUT l) (\<lambda>l.
           Some (OK, if delayed_error l h \<noteq> None then uv__io_feed h l else l)))"

definition uv__tcp_connect :: "tcp_sys \<Rightarrow> addr \<Rightarrow> addr \<Rightarrow> domain \<Rightarrow> nat option \<Rightarrow> 'a stream_loop_scheme \<Rightarrow>
    (ret \<times> 'a stream_loop_scheme) option" where
  "uv__tcp_connect T r h d cb l =
     (if h_type l h \<noteq> UV_TCP then None
      else if connect_req l h \<noteq> None then Some (Inl UV_EALREADY, l)
      else if delayed_error l h \<noteq> None then connect_start r h cb l
      else do {
        (err, l) \<leftarrow> maybe_new_socket T h d (or UV_HANDLE_READABLE UV_HANDLE_WRITABLE) l;
        if err \<noteq> OK then Some (err, l)
        else do {
          (err, k) \<leftarrow> eintr (\<lambda>k. sys_connect T k (stream_fd h l)) (sys l);
          let l = l\<lparr>sys := k\<rparr>;
          case err of
            Inr _ \<Rightarrow> connect_start r h cb l
          | Inl e \<Rightarrow>
              (if e = UV_ECONNREFUSED then connect_start r h cb (l\<lparr>delayed_error := (delayed_error l)(h := Some UV_ECONNREFUSED)\<rparr>)
               else Some (Inl e, l))
        }
      })"

definition uv_tcp_connect :: "tcp_sys \<Rightarrow> addr \<Rightarrow> addr \<Rightarrow> domain \<Rightarrow> nat option \<Rightarrow> 'a stream_loop_scheme \<Rightarrow>
    (ret \<times> 'a stream_loop_scheme) option" where
  "uv_tcp_connect T r h d cb l =
     (if h_type l h \<noteq> UV_TCP \<or> d \<notin> {AF_INET4, AF_INET6} then Some (Inl UV_EINVAL, l)
      else uv__tcp_connect T r h d cb l)"

definition uv_tcp_open :: "tcp_sys \<Rightarrow> addr \<Rightarrow> int \<Rightarrow> 'a stream_loop_scheme \<Rightarrow> (ret \<times> 'a stream_loop_scheme) option" where
  "uv_tcp_open T h fd l =
     (if uv__fd_exists fd l then Some (Inl UV_EEXIST, l)
      else let (err, l) = call (\<lambda>k. sys_ioctl T k fd) l
           in if err \<noteq> OK then Some (err, l)
              else stream_open T h fd (or UV_HANDLE_READABLE UV_HANDLE_WRITABLE) l)"

definition uv_tcp_close_reset :: "tcp_sys \<Rightarrow> addr \<Rightarrow> nat option \<Rightarrow> 'a stream_loop_scheme \<Rightarrow> (ret \<times> 'a stream_loop_scheme) option" where
  "uv_tcp_close_reset T h cb l =
     (if shutdown_req l h \<noteq> None then Some (Inl UV_EINVAL, l)
      else let (err, l) = call (\<lambda>k. sys_setsockopt T k (stream_fd h l)) l
           in if err \<noteq> OK \<and> err \<noteq> Inl UV_EINVAL then Some (err, l)
              else map_option (Pair OK) (uv_close close_stream h cb l))"

definition uv__tcp_listen :: "tcp_sys \<Rightarrow> addr \<Rightarrow> nat option \<Rightarrow> 'a stream_loop_scheme \<Rightarrow> (ret \<times> 'a stream_loop_scheme) option" where
  "uv__tcp_listen T h cb l =
     (case delayed_error l h of
        Some e \<Rightarrow> Some (Inl e, l)
      | None \<Rightarrow> do {
          (err, l) \<leftarrow> maybe_new_socket T h AF_INET4 0 l;
          if err \<noteq> OK then Some (err, l)
          else let (err, l) = call (\<lambda>k. sys_listen T k (stream_fd h l)) l
               in if err \<noteq> OK then Some (err, l)
                  else let l = l\<lparr>connection_cb := (connection_cb l)(h := cb)\<rparr>;
                           l = flag_on h UV_HANDLE_BOUND l;
                           l = set_io h ((io l h)\<lparr>io_cb := SERVER_IO\<rparr>) l
                       in map_option (Pair OK) (uv__io_start h POLLIN l)
        })"

definition uv_tcp_nodelay :: "tcp_sys \<Rightarrow> addr \<Rightarrow> bool \<Rightarrow> 'a stream_loop_scheme \<Rightarrow> ret \<times> 'a stream_loop_scheme" where
  "uv_tcp_nodelay T h on l =
     (let (err, l) = (if stream_fd h l \<noteq> - 1 then uv__tcp_nodelay T (stream_fd h l) l else (OK, l))
      in if err \<noteq> OK then (err, l)
         else (OK, if on then flag_on h UV_HANDLE_TCP_NODELAY l else flag_off h UV_HANDLE_TCP_NODELAY l))"

definition uv_tcp_keepalive :: "tcp_sys \<Rightarrow> addr \<Rightarrow> bool \<Rightarrow> nat \<Rightarrow> 'a stream_loop_scheme \<Rightarrow> ret \<times> 'a stream_loop_scheme" where
  "uv_tcp_keepalive T h on delay l =
     (let (err, l) = (if stream_fd h l \<noteq> - 1 then uv__tcp_keepalive T (stream_fd h l) on delay l else (OK, l))
      in if err \<noteq> OK then (err, l)
         else (OK, if on then flag_on h UV_HANDLE_TCP_KEEPALIVE l else flag_off h UV_HANDLE_TCP_KEEPALIVE l))"

end
