(* ===== verification/UV_Stream_Tcp.thy ===== *)
theory UV_Stream_Tcp
  imports UV_Stream_Close UV_Tcp
begin

text \<open>
  TCP handles keep the invariant of streams: creating a handle, giving it a socket and connecting.
\<close>

section \<open>A new handle\<close>

lemma stream_init_ok:
  assumes inv: "stream_inv k l" and h: "h \<notin> set (handle_queue l)" and n: "length (handle_queue l) + 1 < 2 ^ 32"
    and p: "io_pevents (io l h) = 0" and t: "t \<in> {UV_TCP, UV_NAMED_PIPE, UV_TTY}"
  shows "\<exists>l'. uv__stream_init E h t l = Some l' \<and> stream_inv k l' \<and> stream_later l l' \<and> frozen l l' \<and> h \<in> streams l' \<and> stream_fd h l' = - 1"
proof -
  have hs: "h \<notin> streams l" using h by (simp add: streams_def)
  have wl: "write_local l h = []" by (rule stream_inv_local [OF inv hs])
  define l1 where "l1 = (uv__handle_init h t l)\<lparr>read_cb := (read_cb l)(h := None), alloc_cb := (alloc_cb l)(h := None),
                h_close_cb := (h_close_cb l)(h := None), connection_cb := (connection_cb l)(h := None),
                connect_req := (connect_req l)(h := None), shutdown_req := (shutdown_req l)(h := None),
                accepted_fd := (accepted_fd l)(h := - 1), queued_fds := (queued_fds l)(h := None),
                delayed_error := (delayed_error l)(h := None), write_queue := (write_queue l)(h := []),
                write_completed := (write_completed l)(h := []), write_size := (write_size l)(h := 0),
                wire := (wire l)(h := []), submitted := (submitted l)(h := []), called := (called l)(h := [])\<rparr>"
  define x where "x = \<lparr>io_cb = STREAM_IO, io_fd = - 1, io_events = 0, io_pevents = 0\<rparr>"
  obtain em j where init: "uv__stream_init E h t l = Some (set_io h x (l1\<lparr>emfile_fd := em, sys := j\<rparr>))"
  proof -
    have "\<exists>em j. (if emfile_fd l1 = - 1 then
                 (case sys_open E (sys l1) of
                    Inr fd \<Rightarrow> l1\<lparr>emfile_fd := fd, sys := sys l1 + 1\<rparr>
                  | Inl _ \<Rightarrow>
                      (case sys_open E (sys l1 + 1) of
                         Inr fd \<Rightarrow> l1\<lparr>emfile_fd := fd, sys := sys l1 + 2\<rparr>
                       | Inl _ \<Rightarrow> l1\<lparr>sys := sys l1 + 2\<rparr>))
               else l1) = l1\<lparr>emfile_fd := em, sys := j\<rparr>" (is "\<exists>em j. ?L = _")
    proof -
      have "?L = l1\<lparr>emfile_fd := emfile_fd ?L, sys := sys ?L\<rparr>" by (simp split: sum.split)
      then show ?thesis by blast
    qed
    then obtain em j where e: "(if emfile_fd l1 = - 1 then
                 (case sys_open E (sys l1) of
                    Inr fd \<Rightarrow> l1\<lparr>emfile_fd := fd, sys := sys l1 + 1\<rparr>
                  | Inl _ \<Rightarrow>
                      (case sys_open E (sys l1 + 1) of
                         Inr fd \<Rightarrow> l1\<lparr>emfile_fd := fd, sys := sys l1 + 2\<rparr>
                       | Inl _ \<Rightarrow> l1\<lparr>sys := sys l1 + 2\<rparr>))
               else l1) = l1\<lparr>emfile_fd := em, sys := j\<rparr>" by blast
    have l1': "l1 = (uv__handle_init h t l)\<lparr>read_cb := (read_cb (uv__handle_init h t l))(h := None), alloc_cb := (alloc_cb (uv__handle_init h t l))(h := None),
                h_close_cb := (h_close_cb (uv__handle_init h t l))(h := None), connection_cb := (connection_cb (uv__handle_init h t l))(h := None),
                connect_req := (connect_req (uv__handle_init h t l))(h := None), shutdown_req := (shutdown_req (uv__handle_init h t l))(h := None),
                accepted_fd := (accepted_fd (uv__handle_init h t l))(h := - 1), queued_fds := (queued_fds (uv__handle_init h t l))(h := None),
                delayed_error := (delayed_error (uv__handle_init h t l))(h := None), write_queue := (write_queue (uv__handle_init h t l))(h := []),
                write_completed := (write_completed (uv__handle_init h t l))(h := []), write_size := (write_size (uv__handle_init h t l))(h := 0),
                wire := (wire (uv__handle_init h t l))(h := []), submitted := (submitted (uv__handle_init h t l))(h := []), called := (called (uv__handle_init h t l))(h := [])\<rparr>"
      by (simp add: l1_def uv__handle_init_def)
    have "uv__stream_init E h t l = uv__io_init h STREAM_IO (- 1) (l1\<lparr>emfile_fd := em, sys := j\<rparr>)"
      unfolding uv__stream_init_def Let_def l1' [symmetric] e by (rule refl)
    then show ?thesis using that by (simp add: uv__io_init_def x_def)
  qed
  define l' where "l' = set_io h x (l1\<lparr>emfile_fd := em, sys := j\<rparr>)"
  have f: "handle_queue l' = handle_queue l @ [h]" "h_type l' = (h_type l)(h := t)" "h_flags l' = (h_flags l)(h := UV_HANDLE_REF)"
    "closing_handles l' = closing_handles l" "active_handles l' = active_handles l" "active_reqs l' = active_reqs l"
    "h_close_cb l' = (h_close_cb l)(h := None)" "connect_req l' = (connect_req l)(h := None)" "shutdown_req l' = (shutdown_req l)(h := None)"
    "read_cb l' = (read_cb l)(h := None)" "alloc_cb l' = (alloc_cb l)(h := None)" "write_queue l' = (write_queue l)(h := [])"
    "write_completed l' = (write_completed l)(h := [])" "write_local l' = write_local l" "wire l' = (wire l)(h := [])"
    "called l' = (called l)(h := [])" "submitted l' = (submitted l)(h := [])" "write_size l' = (write_size l)(h := 0)" "req l' = req l"
    "io l' = (io l)(h := x)" "inv l' = inv l" "table_size l' = table_size l" "pending_local l' = pending_local l"
    by (simp_all add: l'_def l1_def uv__handle_init_def set_io_def table_size_def)
  have fl: "closing l' g \<longleftrightarrow> closing l g \<and> g \<noteq> h" "closed l' g \<longleftrightarrow> closed l g \<and> g \<noteq> h" "active l' g \<longleftrightarrow> active l g \<and> g \<noteq> h" for g
    by (auto simp: flag_views f bit_flags)
  have st: "streams l' = insert h (streams l)" using t h by (auto simp: streams_def f)
  have o: "out l' h = []" "connecting l' h = None" by (simp_all add: out_def f wl connecting_def fl)
  have own: "owned l' h = {}" by (simp add: owned_def o f)
  have "mode_ok l' h" by (simp add: mode_ok_def flagged_bits f fl stream_fd_def x_def bit_flags)
  moreover have "wire_ok l' h"
    by (simp add: wire_ok_def f statuses_def wl wire_bytes_def)
  ultimately have one: "one_stream l' h"
    by (simp add: one_stream_def reqs_ok_def size_ok_def fifo_ok_def o own f)
  have io: "io_inv l'"
  proof -
    have "io_legal (IInit h STREAM_IO (- 1)) l" using p by simp
    then have "io_inv (set_io h x l)" using io_init_inv [OF stream_inv_io [OF inv]] by (fastforce simp: uv__io_init_def x_def)
    moreover have "io_inv l' = io_inv (set_io h x l)"
      by (rule io_inv_cong) (simp_all add: l'_def l1_def uv__handle_init_def set_io_def)
    ultimately show ?thesis by simp
  qed
  have "stream_inv k l'"
  proof (rule stream_inv_frame [OF inv io])
    show "handles_ok l'"
      using handles_init [OF stream_inv_handles [OF inv] h n, of t] handles_ok_cong [of l' "uv__handle_init h t l"] f
      by (simp add: uv__handle_init_def)
    show "to_close [] l'" using stream_inv_close [OF inv] h by (auto simp: to_close_def f fl)
  next
    fix g
    assume g: "g \<in> streams l'"
    show "g \<in> streams l \<and> wsame l l' g \<and> msame l l' g \<or> g \<notin> streams l \<and> one_stream l' g \<and> owned l' g = {} \<and> stream_fd g l' = - 1"
    proof (cases "g = h")
      case True
      then show ?thesis using hs one own by (simp add: stream_fd_def f x_def)
    next
      case False
      then show ?thesis using g st by (simp add: wsame_def msame_def connecting_def f fl wire_bytes_def stream_fd_def)
    qed
  next
    show "write_local l g = []" if "g \<notin> streams l'" for g using that st stream_inv_local [OF inv] by blast
  qed (use st in \<open>auto simp: f stream_fd_def x_def split: if_splits\<close>)
  moreover have "stream_later l l'"
  proof -
    have "set (handle_queue l) \<subseteq> set (handle_queue l')" by (auto simp: f)
    moreover have "g \<noteq> h" if "g \<in> set (handle_queue l)" for g using that h by blast
    ultimately show ?thesis by (auto simp: stream_later_def f fl io_later_same)
  qed
  moreover have "frozen l l'" using hs by (auto simp: frozen_def frozen_at_def f)
  ultimately show ?thesis using init st by (intro exI [of _ l']) (simp add: l'_def stream_fd_def set_io_def x_def)
qed


section \<open>A descriptor\<close>

text \<open>What the kernel promises of a descriptor that it opens: no stream and no registered watcher has it.\<close>

definition fresh_fd :: "int \<Rightarrow> 'a stream_loop_scheme \<Rightarrow> bool" where
  "fresh_fd fd l \<longleftrightarrow> 0 \<le> fd \<and> fd + 3 \<le> 2 ^ 31 \<and> (\<forall>w. stream_fd w l = fd \<longrightarrow> w \<notin> streams l \<and> io_pevents (io l w) = 0)"

lemma no_events:
  assumes "stream_inv k l" and "stream_fd h l = - 1"
  shows "io_pevents (io l h) = 0"
  using io_ok_active [of l h] stream_inv_io [OF assms(1)] assms(2) by (auto simp: io_inv_def stream_fd_def)

lemma set_fd_ok:
  assumes inv: "stream_inv k l" and h: "h \<in> streams l" and nc: "\<not> closing l h" and fd: "stream_fd h l = - 1" and fr: "fresh_fd fd l"
  shows "stream_inv k (set_io h ((io l h)\<lparr>io_fd := fd\<rparr>) l) \<and> stream_later l (set_io h ((io l h)\<lparr>io_fd := fd\<rparr>) l)"
proof -
  let ?l = "set_io h ((io l h)\<lparr>io_fd := fd\<rparr>) l"
  have f: "handle_queue ?l = handle_queue l" "h_type ?l = h_type l" "h_flags ?l = h_flags l" "closing_handles ?l = closing_handles l"
    "active_handles ?l = active_handles l" "active_reqs ?l = active_reqs l" "h_close_cb ?l = h_close_cb l" "connect_req ?l = connect_req l"
    "shutdown_req ?l = shutdown_req l" "read_cb ?l = read_cb l" "alloc_cb ?l = alloc_cb l" "write_queue ?l = write_queue l"
    "write_completed ?l = write_completed l" "write_local ?l = write_local l" "wire ?l = wire l" "called ?l = called l"
    "submitted ?l = submitted l" "write_size ?l = write_size l" "req ?l = req l" "io ?l = (io l)(h := (io l h)\<lparr>io_fd := fd\<rparr>)"
    "inv ?l = inv l" "table_size ?l = table_size l" "pending_local ?l = pending_local l"
    by (simp_all add: set_io_def table_size_def)
  have d: "stream_fd h ?l = fd" "\<And>g. g \<noteq> h \<Longrightarrow> stream_fd g ?l = stream_fd g l" by (simp_all add: stream_fd_def f)
  have pe: "io_pevents (io ?l g) = io_pevents (io l g)" for g by (simp add: f)
  have st: "streams ?l = streams l" by (simp add: streams_def f)
  have fl: "closing ?l = closing l" "closed ?l = closed l" by (simp_all add: flag_views f fun_eq_iff)
  have w: "wsame l ?l g" for g by (simp add: wsame_def f connecting_def fl wire_bytes_def)
  have ms: "msame l ?l g" if "g \<noteq> h" for g using d(2) [OF that] by (simp add: msame_def f)
  note p = stream_parts [OF inv h]
  have p0: "io_pevents (io l h) = 0" by (rule no_events [OF inv fd])
  have io: "io_inv ?l"
  proof -
    have ok: "io_ok l" using stream_inv_io [OF inv] by (simp add: io_inv_def)
    have e: "io_events (io l h) = 0" using io_ok_told [OF ok, of h] p0 by blast
    have "\<lparr>io_cb = io_cb (io l h), io_fd = fd, io_events = 0, io_pevents = 0\<rparr> = (io l h)\<lparr>io_fd := fd\<rparr>"
      using e p0 by (cases "io l h") simp
    then have "uv__io_init h (io_cb (io l h)) fd l = Some ?l" using fr by (simp add: uv__io_init_def fresh_fd_def)
    moreover have "io_legal (IInit h (io_cb (io l h)) fd) l" using p0 fr by (simp add: fresh_fd_def)
    ultimately show ?thesis using io_init_inv [OF stream_inv_io [OF inv]] by fastforce
  qed
  have "mode_ok ?l h" using p(2) fr nc unfolding mode_ok_def flagged_def d(1) f fl by (simp add: fresh_fd_def)
  then have "one_stream ?l h" using stream_inv_one [OF inv h] wsame_parts [OF w] by (simp add: one_stream_def)
  then have "one_stream ?l g" if "g \<in> streams l" for g
    using same_one [OF w ms] stream_inv_one [OF inv that] by (cases "g = h") simp_all
  moreover have "fds_ok ?l" unfolding fds_ok_def st
  proof (intro ballI allI impI)
    fix a b
    assume a: "a \<in> streams l" "0 \<le> stream_fd a ?l" "stream_fd b ?l = stream_fd a ?l" "b \<in> streams l \<or> io_pevents (io ?l b) \<noteq> 0"
    show "b = a"
    proof (cases "a = h \<or> b = h")
      case True
      then show ?thesis using a d fr h unfolding fresh_fd_def pe by metis
    next
      case False
      then show ?thesis using stream_inv_fds [OF inv] a d(2) unfolding fds_ok_def pe by metis
    qed
  qed
  moreover have "live_reqs ?l = live_reqs l" by (rule live_same [OF st]) (rule wsame_owned(1) [OF w])
  ultimately have "stream_inv k ?l"
    using stream_invD [OF inv] io handles_ok_cong [OF f(3,1,5)] to_close_cong [OF f(3,1,4)] f(6,14) st by (simp add: stream_inv_def)
  moreover have "stream_later l ?l" by (simp add: stream_later_def f fl io_later_same)
  ultimately show ?thesis by blast
qed

text \<open>Flags that a stream with a descriptor may get.\<close>

definition open_flags :: "u32 \<Rightarrow> bool" where
  "open_flags m \<longleftrightarrow> (\<forall>n. bit m n \<longrightarrow> n \<in> {13, 14, 15, 22, 24, 25})"

lemma flag_on_fd:
  assumes inv: "stream_inv k l" and h: "h \<in> streams l" and fd: "0 \<le> stream_fd h l" and m: "open_flags m"
  shows "stream_inv k (flag_on h m l) \<and> stream_later l (flag_on h m l) \<and> frozen l (flag_on h m l)"
proof -
  have b: "bit (h_flags (flag_on h m l) h) n = bit (h_flags l h) n" if "n \<notin> {13, 14, 15, 22, 24, 25}" for n
    using m that by (auto simp: open_flags_def)
  have ms: "mode_step h l (flag_on h m l)"
    using b by (simp add: mode_step_def) (simp add: flag_on_def set_flags_def)
  have "mode_ok (flag_on h m l) h"
    using stream_parts(2) [OF inv h] fd b [of 12] b [of 20] b [of 0]
    by (simp add: mode_ok_def flagged_bits closing_def mode_step_frame [OF ms] stream_fd_def)
  moreover have "write_completed (flag_on h m l) = write_completed l" by (rule mode_step_frame [OF ms])
  ultimately show ?thesis using mode_step_keep [OF inv h ms] frozen_same(1) [of "flag_on h m l" l] by simp
qed

lemma stream_open_fd_ok:
  assumes inv: "stream_inv k l" and h: "h \<in> streams l" and nc: "\<not> closing l h" and fd: "stream_fd h l = - 1" and fr: "fresh_fd fd l"
    and m: "open_flags m"
  shows "\<exists>l'. uv__stream_open OK h fd m l = Some (OK, l') \<and> stream_inv k l' \<and> stream_later l l' \<and> frozen l l' \<and> stream_fd h l' = fd"
proof -
  define l1 where "l1 = set_io h ((io l h)\<lparr>io_fd := fd\<rparr>) l"
  have i1: "stream_inv k l1" "stream_later l l1" using set_fd_ok [OF inv h nc fd fr] by (simp_all add: l1_def)
  have h1: "h \<in> streams l1" using i1(2) h streams_later by blast
  have fd1: "stream_fd h l1 = fd" by (simp add: l1_def stream_fd_def set_io_def)
  have fr0: "0 \<le> fd" using fr by (simp add: fresh_fd_def)
  note g = flag_on_fd [OF i1(1) h1 _ m]
  have "uv__stream_open OK h fd m l = Some (OK, flag_on h m l1)"
    using fd fr0 by (simp add: uv__stream_open_def l1_def Let_def flag_on_def set_flags_def set_io_def)
  moreover have "frozen l l1" by (rule frozen_same) (simp_all add: l1_def set_io_def)
  moreover have "stream_fd h (flag_on h m l1) = fd" using fd1 by (simp add: stream_fd_def)
  ultimately show ?thesis using g fd1 fr0 stream_later_trans [OF i1(2)] frozen_trans [OF i1(2)] by auto
qed


section \<open>A socket\<close>

text \<open>Steps that leave the requests alone.\<close>

definition calm :: "nat \<Rightarrow> 'a stream_loop_scheme \<Rightarrow> 'a stream_loop_scheme \<Rightarrow> bool" where
  "calm k l l' \<longleftrightarrow> stream_inv k l' \<and> stream_later l l' \<and> frozen l l' \<and> live_reqs l' = live_reqs l \<and> active_reqs l' = active_reqs l \<and>
     connect_req l' = connect_req l \<and> delayed_error l' = delayed_error l \<and> streams l' = streams l \<and> closing l' = closing l \<and> closed l' = closed l"

lemma calm_refl: "stream_inv k l \<Longrightarrow> calm k l l"
  by (simp add: calm_def stream_later_refl)

lemma calm_trans: "calm k a b \<Longrightarrow> calm k b c \<Longrightarrow> calm k a c"
  using stream_later_trans [of a b c] frozen_trans [of a b c] by (auto simp: calm_def)

lemma calmI:
  assumes "stream_inv k l'" "stream_later l l'" "frozen l l'"
    and "l' = l\<lparr>sys := sys l', fd_log := fd_log l', h_flags := h_flags l', io := io l'\<rparr>" and "closing l' = closing l" "closed l' = closed l"
  shows "calm k l l'"
proof -
  have f: "active_reqs l' = active_reqs l" "connect_req l' = connect_req l" "delayed_error l' = delayed_error l" "handle_queue l' = handle_queue l"
    "h_type l' = h_type l" "write_local l' = write_local l" "write_completed l' = write_completed l" "write_queue l' = write_queue l"
    "shutdown_req l' = shutdown_req l"
    by (subst assms(4), simp)+
  have "streams l' = streams l" by (simp add: streams_def f)
  moreover have "owned l' g = owned l g" for g by (simp add: owned_def out_def connecting_def f assms(6))
  ultimately show ?thesis using assms(1-3,5,6) f by (simp add: calm_def live_reqs_def)
qed

lemma log_calm:
  assumes inv: "stream_inv k l" and h: "h \<in> streams l"
  shows "calm k l (l\<lparr>sys := j, fd_log := g\<rparr>)"
proof -
  let ?l = "l\<lparr>sys := j, fd_log := g\<rparr>"
  have m: "mode_step h l ?l" by (simp add: mode_step_def)
  have "mode_ok ?l h" by (rule mode_same [OF stream_parts(2) [OF inv h] m]) simp_all
  then have "stream_inv k ?l" "stream_later l ?l" using mode_step_keep [OF inv h m] by simp_all
  moreover have "frozen l ?l" by (rule frozen_same) simp_all
  ultimately show ?thesis by (rule calmI) (simp_all add: flag_views fun_eq_iff)
qed

lemma flag_calm:
  assumes "stream_inv k l" and "h \<in> streams l" and "0 \<le> stream_fd h l" and m: "open_flags m"
  shows "calm k l (flag_on h m l)"
proof -
  have "bit (h_flags (flag_on h m l) g) n = bit (h_flags l g) n" if "n < 4" for g n
    using m that by (auto simp: open_flags_def flag_on_def set_flags_def)
  then have "closing (flag_on h m l) = closing l" "closed (flag_on h m l) = closed l" by (simp_all add: flag_views fun_eq_iff)
  moreover have "flag_on h m l = l\<lparr>sys := sys l, fd_log := fd_log l, h_flags := h_flags (flag_on h m l), io := io (flag_on h m l)\<rparr>"
    by (simp add: flag_on_def set_flags_def)
  ultimately show ?thesis using flag_on_fd [OF assms] calmI [of k "flag_on h m l" l] by (simp add: flag_on_def set_flags_def)
qed

text \<open>What is assumed of the kernel: it sets the options of a socket, and does not interrupt \<open>connect\<close> forever.\<close>

definition tcp_ok :: "tcp_sys \<Rightarrow> bool" where
  "tcp_ok T \<longleftrightarrow> (\<forall>k fd. sys_setsockopt T k fd = OK) \<and> (\<forall>fd. uninterrupted (\<lambda>k. sys_connect T k fd))"

definition fresh_sockets :: "tcp_sys \<Rightarrow> 'a stream_loop_scheme \<Rightarrow> bool" where
  "fresh_sockets T l \<longleftrightarrow> (\<forall>k\<ge>sys l. \<forall>d b fd. sys_socket T k d b = Inr fd \<longrightarrow> fresh_fd fd l)"

lemma socket_any:
  assumes fr: "\<And>k d b fd. sys l \<le> k \<Longrightarrow> sys_socket T k d b = Inr fd \<Longrightarrow> P fd"
  shows "\<exists>r j g. uv__socket T d l = (r, l\<lparr>sys := j, fd_log := g\<rparr>) \<and> (\<forall>fd. r = Inr fd \<longrightarrow> P fd)"
proof -
  have finish: ?thesis if "uv__socket T d l = (r, l\<lparr>sys := j, fd_log := g\<rparr>)" "\<And>fd. r = Inr fd \<Longrightarrow> P fd" for r j g
    using that by blast
  show ?thesis
  proof (cases "sys_socket T (sys l) d True = Inl UV_EINVAL")
    case False
    then have "uv__socket T d l = (sys_socket T (sys l) d True, l\<lparr>sys := sys l + 1, fd_log := fd_log l\<rparr>)" by (simp add: uv__socket_def call_def)
    then show ?thesis by (rule finish) (use fr [of "sys l"] in simp)
  next
    case True
    show ?thesis
    proof (cases "sys_socket T (sys l + 1) d False")
      case (Inl e)
      then have "uv__socket T d l = (Inl e, l\<lparr>sys := sys l + 2, fd_log := fd_log l\<rparr>)" using True by (simp add: uv__socket_def call_def)
      then show ?thesis by (rule finish) simp
    next
      case (Inr fd)
      let ?e = "\<lambda>n. sys_ioctl T (sys l + n) fd"
      note u = uv__socket_def call_def uv__close_fd_def
      consider e where "?e 2 = Inl e" | e where "?e 2 = OK" "?e 3 = Inl e" | "?e 2 = OK" "?e 3 = OK"
        by (cases "?e 2"; cases "?e 3") auto
      then show ?thesis
      proof cases
        case 1
        then have "uv__socket T d l = (Inl e, l\<lparr>sys := sys l + 3, fd_log := fd_log l @ [fd]\<rparr>)" using True Inr by (simp add: u numeral_eq_Suc)
        then show ?thesis by (rule finish) simp
      next
        case 2
        then have "uv__socket T d l = (Inl e, l\<lparr>sys := sys l + 4, fd_log := fd_log l @ [fd]\<rparr>)" using True Inr by (simp add: u numeral_eq_Suc)
        then show ?thesis by (rule finish) simp
      next
        case 3
        then have "uv__socket T d l = (Inr fd, l\<lparr>sys := sys l + 4, fd_log := fd_log l\<rparr>)" using True Inr by (simp add: u numeral_eq_Suc)
        then show ?thesis by (rule finish) (use fr [OF _ Inr] in simp)
      qed
    qed
  qed
qed

lemma socket_ok:
  assumes "fresh_sockets T l"
  shows "\<exists>r j g. uv__socket T d l = (r, l\<lparr>sys := j, fd_log := g\<rparr>) \<and> (\<forall>fd. r = Inr fd \<longrightarrow> fresh_fd fd l)"
  using socket_any [of l T "\<lambda>fd. fresh_fd fd l"] assms by (auto simp: fresh_sockets_def)

lemma open_options_ok:
  assumes "tcp_ok T"
  shows "\<exists>j. open_options T h fd l = (OK, l\<lparr>sys := j\<rparr>)"
proof -
  have *: "\<exists>j. l = l\<lparr>sys := j\<rparr>" by (rule exI [of _ "sys l"]) simp
  show ?thesis using assms *
    by (auto simp: tcp_ok_def open_options_def uv__tcp_nodelay_def uv__tcp_keepalive_def call_def Let_def flagged_def)
qed


lemma open_socket_ok:
  assumes T: "tcp_ok T" and inv: "stream_inv k l" and h: "h \<in> streams l" and nc: "\<not> closing l h" and fd: "stream_fd h l = - 1"
    and fr: "fresh_fd fd l" and m: "open_flags m"
  shows "\<exists>l'. stream_open T h fd m l = Some (OK, l') \<and> calm k l l' \<and> stream_fd h l' = fd"
proof -
  obtain j where j: "open_options T h fd l = (OK, l\<lparr>sys := j\<rparr>)" using open_options_ok [OF T] by blast
  define l1 where "l1 = l\<lparr>sys := j\<rparr>"
  have "l1 = l\<lparr>sys := j, fd_log := fd_log l\<rparr>" by (simp add: l1_def)
  then have c1: "calm k l l1" using log_calm [OF inv h, where j = j and g = "fd_log l"] by simp
  have h1: "h \<in> streams l1" and nc1: "\<not> closing l1 h" using c1 h nc by (simp_all add: calm_def)
  have fr1: "fresh_fd fd l1" "stream_fd h l1 = - 1" using fr fd by (simp_all add: fresh_fd_def l1_def stream_fd_def streams_def)
  obtain l2 where l2: "uv__stream_open OK h fd m l1 = Some (OK, l2)" "stream_inv k l2" "stream_later l1 l2" "frozen l1 l2" "stream_fd h l2 = fd"
    using stream_open_fd_ok [OF _ h1 nc1 fr1(2,1) m] c1 unfolding calm_def by blast
  have l2': "l2 = set_io h ((io l1 h)\<lparr>io_fd := fd\<rparr>) (flag_on h m l1)"
    using l2(1) fr1 by (simp add: uv__stream_open_def fresh_fd_def Let_def flag_on_def set_flags_def split: if_splits)
  have b: "bit (h_flags l2 g) n = bit (h_flags l1 g) n" if "n < 4" for g n
    using m that by (auto simp: l2' open_flags_def flag_on_def set_flags_def set_io_def)
  have "calm k l1 l2"
    by (rule calmI [OF l2(2-4)]) (simp_all add: flag_views b fun_eq_iff, simp add: l2' flag_on_def set_flags_def set_io_def)
  then show ?thesis using calm_trans [OF c1] l2(1,5) j fd by (simp add: stream_open_def l1_def)
qed

lemma new_socket_ok:
  assumes T: "tcp_ok T" and S: "fresh_sockets T l" and inv: "stream_inv k l" and h: "h \<in> streams l" and nc: "\<not> closing l h"
    and fd: "stream_fd h l = - 1" and m: "open_flags m" "\<not> bit m 13"
  shows "\<exists>st l'. new_socket T h d m l = Some (st, l') \<and> calm k l l' \<and> (st = OK \<longrightarrow> 0 \<le> stream_fd h l') \<and> (st \<noteq> OK \<longrightarrow> stream_fd h l' = - 1)"
proof -
  obtain r j g where r: "uv__socket T d l = (r, l\<lparr>sys := j, fd_log := g\<rparr>)" "\<And>fd. r = Inr fd \<Longrightarrow> fresh_fd fd l"
    using socket_ok [OF S] by blast
  define l1 where "l1 = l\<lparr>sys := j, fd_log := g\<rparr>"
  have c1: "calm k l l1" using log_calm [OF inv h] by (simp add: l1_def)
  have nb: "\<not> has_flag m UV_HANDLE_BOUND"
  proof -
    have "has_flag m (push_bit 13 1) \<longleftrightarrow> bit m 13" by (simp add: has_flag_def bit_iff_and_push_bit_not_eq_0)
    then show ?thesis using m(2) by (simp add: UV_HANDLE_BOUND_def)
  qed
  show ?thesis
  proof (cases r)
    case (Inl e)
    then show ?thesis using r(1) c1 fd by (simp add: new_socket_def l1_def stream_fd_def)
  next
    case (Inr fd1)
    have "fresh_fd fd1 l1" "stream_fd h l1 = - 1" "h \<in> streams l1" "\<not> closing l1 h" "stream_inv k l1"
      using r(2) [OF Inr] fd c1 h nc by (simp_all add: calm_def fresh_fd_def) (simp_all add: l1_def stream_fd_def)
    then obtain l2 where l2: "stream_open T h fd1 m l1 = Some (OK, l2)" "calm k l1 l2" "stream_fd h l2 = fd1"
      using open_socket_ok [OF T _ _ _ _ _ m(1)] by blast
    then show ?thesis using r Inr nb calm_trans [OF c1 l2(2)] by (simp add: new_socket_def l1_def fresh_fd_def)
  qed
qed


section \<open>Connecting\<close>

lemma connect_start_ok:
  assumes inv: "stream_inv k l" and h: "h \<in> streams l" and ty: "h_type l h = UV_TCP" and nc: "\<not> closing l h" "\<not> closed l h"
    and fd: "0 \<le> stream_fd h l" and cn: "connect_req l h = None" and r: "r \<notin> live_reqs l" and a: "unat (active_reqs l) + 1 < 2 ^ 32"
  shows "\<exists>l'. connect_start r h cb l = Some (OK, l') \<and> stream_inv k l' \<and> stream_later l l' \<and> frozen l l'"
proof -
  let ?x = "(req l r)\<lparr>r_cb := cb, r_handle := h\<rparr>"
  define l1 where "l1 = l\<lparr>active_reqs := active_reqs l + 1, req := (req l)(r := ?x), connect_req := (connect_req l)(h := Some r)\<rparr>"
  have shape: "l1 = l\<lparr>active_reqs := active_reqs l + 1, req := (req l)(r := ?x), h_flags := h_flags l1, connect_req := connect_req l1,
      shutdown_req := shutdown_req l1\<rparr>" by (simp add: l1_def)
  have "mode_ok l1 h"
    using stream_parts(2) [OF inv h] fd ty by (simp add: mode_ok_def flagged_def closing_def l1_def stream_fd_def)
  then have "stream_inv k l1 \<and> stream_later l l1"
    by (intro adopt_ok [OF inv h r a shape]) (use cn nc in \<open>simp_all add: l1_def connecting_def closed_def\<close>)
  then have i1: "stream_inv k l1" "stream_later l l1" by simp_all
  have h1: "h \<in> streams l1" using i1(2) h streams_later by blast
  have fd1: "0 \<le> stream_fd h l1" using fd by (simp add: l1_def stream_fd_def)
  obtain l2 where l2: "uv__io_start h POLLOUT l1 = Some l2" "stream_inv k l2" "stream_later l1 l2" "io_only l1 l2"
    using stream_start [OF i1(1) h1 fd1, of POLLOUT] by (auto simp: rw_events_def)
  have h2: "h \<in> streams l2" using l2(3) h1 streams_later by blast
  note fe = stream_feed [OF l2(2) h2, of h]
  have z: "frozen l l2" "frozen l (uv__io_feed h l2)"
    using nc by (auto simp: frozen_def frozen_at_def io_only_frame [OF io_feed_only] io_only_frame [OF l2(4)] l1_def)
  have lt: "stream_later l l2" using i1(2) l2(3) stream_later_trans by blast
  have "connect_start r h cb l = Some (OK, if delayed_error l2 h \<noteq> None then uv__io_feed h l2 else l2)"
    using l2(1) by (simp add: connect_start_def set_req_def uv__req_register_def l1_def Let_def)
  then show ?thesis using l2(2) lt z fe stream_later_trans [OF lt] by (cases "delayed_error l2 h") auto
qed

lemma delayed_ok:
  assumes inv: "stream_inv k l" and h: "h \<in> streams l"
  shows "stream_inv k (l\<lparr>delayed_error := d\<rparr>) \<and> stream_later l (l\<lparr>delayed_error := d\<rparr>)"
proof -
  have m: "mode_step h l (l\<lparr>delayed_error := d\<rparr>)" by (simp add: mode_step_def)
  have "mode_ok (l\<lparr>delayed_error := d\<rparr>) h" by (rule mode_same [OF stream_parts(2) [OF inv h] m]) simp_all
  then show ?thesis using mode_step_keep [OF inv h m] by simp
qed

lemma rw_flags: "open_flags (or UV_HANDLE_READABLE UV_HANDLE_WRITABLE)" "\<not> bit (or UV_HANDLE_READABLE UV_HANDLE_WRITABLE) 13"
  by (auto simp: open_flags_def bit_or_iff stream_bits)

lemma tcp_connect_ok:
  assumes T: "tcp_ok T" and S: "fresh_sockets T l" and inv: "stream_inv k l" and h: "h \<in> streams l"
    and nc: "\<not> closing l h" "\<not> closed l h" and de: "delayed_error l h = None \<or> 0 \<le> stream_fd h l"
    and r: "r \<notin> live_reqs l" and a: "unat (active_reqs l) + 1 < 2 ^ 32"
  shows "\<exists>st l'. uv_tcp_connect T r h d cb l = Some (st, l') \<and> stream_inv k l' \<and> stream_later l l' \<and> frozen l l'"
proof (cases "h_type l h \<noteq> UV_TCP \<or> d \<notin> {AF_INET4, AF_INET6} \<or> connect_req l h \<noteq> None")
  case True
  then have "uv_tcp_connect T r h d cb l = Some (Inl UV_EINVAL, l) \<or> uv_tcp_connect T r h d cb l = Some (Inl UV_EALREADY, l)"
    by (auto simp: uv_tcp_connect_def uv__tcp_connect_def)
  then show ?thesis using inv stream_later_refl [of l] frozen_refl(1) [of l] by blast
next
  case False
  then have ty: "h_type l h = UV_TCP" and d: "d \<in> {AF_INET4, AF_INET6}" and cn: "connect_req l h = None" by simp_all
  have eq: "uv_tcp_connect T r h d cb l = uv__tcp_connect T r h d cb l" using ty d by (simp add: uv_tcp_connect_def)
  show ?thesis
  proof (cases "delayed_error l h")
    case (Some e)
    then have "uv_tcp_connect T r h d cb l = connect_start r h cb l" using eq ty cn by (simp add: uv__tcp_connect_def)
    moreover have "0 \<le> stream_fd h l" using de Some by simp
    ultimately show ?thesis using connect_start_ok [OF inv h ty nc _ cn r a, of cb] by fastforce
  next
    case None
    let ?m = "or UV_HANDLE_READABLE UV_HANDLE_WRITABLE"
    obtain st l1 where l1: "maybe_new_socket T h d ?m l = Some (st, l1)" "calm k l l1" "st = OK \<Longrightarrow> 0 \<le> stream_fd h l1"
    proof (cases "stream_fd h l = - 1")
      case True
      then show ?thesis using new_socket_ok [OF T S inv h nc(1) True rw_flags, of d] that d by (auto simp: maybe_new_socket_def)
    next
      case False
      then have fd: "0 \<le> stream_fd h l" using stream_parts(5) [OF inv h] by simp
      have "\<not> has_flag ?m UV_HANDLE_BOUND"
      proof -
        have "has_flag ?m (push_bit 13 1) \<longleftrightarrow> bit ?m 13" by (simp add: has_flag_def bit_iff_and_push_bit_not_eq_0)
        then show ?thesis using rw_flags(2) by (simp add: UV_HANDLE_BOUND_def)
      qed
      then have "maybe_new_socket T h d ?m l = Some (OK, flag_on h ?m l)" using False d by (auto simp: maybe_new_socket_def)
      then show ?thesis using that flag_calm [OF inv h fd rw_flags(1)] fd by (simp add: stream_fd_def)
    qed
    have c1: "stream_inv k l1" "stream_later l l1" "frozen l l1" using l1(2) by (simp_all add: calm_def)
    show ?thesis
    proof (cases "st = OK")
      case False
      then show ?thesis using eq ty cn None l1(1) c1 by (simp add: uv__tcp_connect_def)
    next
      case True
      let ?f = "\<lambda>k. sys_connect T k (stream_fd h l1)"
      have "uninterrupted ?f" using T by (simp add: tcp_ok_def)
      then obtain j where j: "eintr ?f (sys l1) = Some (?f j, j + 1)" using eintr_returns by blast
      have h1: "h \<in> streams l1" using l1(2) h by (simp add: calm_def)
      define l2 where "l2 = l1\<lparr>sys := j + 1\<rparr>"
      have "calm k l1 l2" using log_calm [OF c1(1) h1, where j = "j + 1" and g = "fd_log l1"] by (simp add: l2_def)
      then have c2: "calm k l l2" using calm_trans [OF l1(2)] by blast
      have i2: "stream_inv k l2" "stream_later l l2" "frozen l l2" "h \<in> streams l2" "\<not> closing l2 h" "\<not> closed l2 h" "connect_req l2 h = None"
        "r \<notin> live_reqs l2" "unat (active_reqs l2) + 1 < 2 ^ 32" using c2 h nc cn r a by (simp_all add: calm_def)
      have ty2: "h_type l2 h = UV_TCP" using i2(2) h ty by (simp add: stream_later_def streams_def)
      have fd2: "0 \<le> stream_fd h l2" using l1(3) [OF True] by (simp add: l2_def stream_fd_def)
      have con: "uv_tcp_connect T r h d cb l = (case ?f j of Inr _ \<Rightarrow> connect_start r h cb l2
          | Inl e \<Rightarrow> if e = UV_ECONNREFUSED then connect_start r h cb (l2\<lparr>delayed_error := (delayed_error l2)(h := Some UV_ECONNREFUSED)\<rparr>)
              else Some (Inl e, l2))"
        using eq ty cn None l1(1) True j by (simp add: uv__tcp_connect_def l2_def split: sum.split)
      obtain l3 where l3: "connect_start r h cb l2 = Some (OK, l3)" "stream_inv k l3" "stream_later l2 l3" "frozen l2 l3"
        using connect_start_ok [OF i2(1,4) ty2 i2(5,6) fd2 i2(7-9)] by blast
      define l4 where "l4 = l2\<lparr>delayed_error := (delayed_error l2)(h := Some UV_ECONNREFUSED)\<rparr>"
      have i4: "stream_inv k l4" "stream_later l2 l4" using delayed_ok [OF i2(1,4)] by (simp_all add: l4_def)
      have f4: "h \<in> streams l4" "\<not> closing l4 h" "\<not> closed l4 h" "connect_req l4 h = None" "unat (active_reqs l4) + 1 < 2 ^ 32"
        "h_type l4 h = UV_TCP" "0 \<le> stream_fd h l4"
        using i2 ty2 fd2 by (simp_all add: l4_def streams_def flag_views stream_fd_def)
      have "streams l4 = streams l2" "owned l4 g = owned l2 g" for g
        by (simp_all add: streams_def owned_def out_def connecting_def closed_def l4_def)
      then have r4: "r \<notin> live_reqs l4" using i2(8) by (simp add: live_reqs_def)
      obtain l5 where l5: "connect_start r h cb l4 = Some (OK, l5)" "stream_inv k l5" "stream_later l4 l5" "frozen l4 l5"
        using connect_start_ok [OF i4(1) f4(1,6,2,3,7,4) r4 f4(5), of cb] by blast
      have f24: "frozen l2 l4" by (rule frozen_same) (simp_all add: l4_def)
      have z: "frozen l l3" "frozen l l5"
        by (rule frozen_trans [OF i2(2,3) l3(4)], rule frozen_trans [OF i2(2,3) frozen_trans [OF i4(2) f24 l5(4)]])
      have lt: "stream_later l l3" "stream_later l l5"
        by (rule stream_later_trans [OF i2(2) l3(3)], rule stream_later_trans [OF i2(2) stream_later_trans [OF i4(2) l5(3)]])
      show ?thesis using con l3(1,2) l5(1,2) z lt i2(1-3) by (cases "?f j") (auto simp: l4_def)
    qed
  qed
qed

section \<open>Creating and opening\<close>

lemma tcp_init_ok:
  assumes inv: "stream_inv k l" and h: "h \<notin> set (handle_queue l)" and n: "length (handle_queue l) + 1 < 2 ^ 32"
    and p: "io_pevents (io l h) = 0"
  shows "\<exists>l'. uv_tcp_init E T h l = Some (OK, l') \<and> stream_inv k l' \<and> stream_later l l' \<and> frozen l l' \<and> h \<in> streams l' \<and> stream_fd h l' = - 1"
proof -
  have "domain_of (and 0 0xFF) = Some AF_UNSPEC" "and 0 (not 0xFF) = (0 :: u32)" by (simp_all add: domain_of_def)
  then show ?thesis using stream_init_ok [OF inv h n p, of UV_TCP E] by (auto simp: uv_tcp_init_def uv_tcp_init_ex_def)
qed

lemma tcp_open_ok:
  assumes T: "tcp_ok T" and inv: "stream_inv k l" and h: "h \<in> streams l" and nc: "\<not> closing l h" and fr: "fresh_fd fd l"
  shows "\<exists>st l'. uv_tcp_open T h fd l = Some (st, l') \<and> stream_inv k l' \<and> stream_later l l' \<and> frozen l l'"
proof -
  define l1 where "l1 = l\<lparr>sys := sys l + 1\<rparr>"
  have c1: "calm k l l1" using log_calm [OF inv h, where j = "sys l + 1" and g = "fd_log l"] by (simp add: l1_def)
  have i1: "stream_inv k l1" "stream_later l l1" "frozen l l1" "h \<in> streams l1" "\<not> closing l1 h" using c1 h nc by (simp_all add: calm_def)
  have fr1: "fresh_fd fd l1" using fr by (simp add: fresh_fd_def l1_def stream_fd_def streams_def)
  consider "uv_tcp_open T h fd l = Some (Inl UV_EEXIST, l)" | e where "uv_tcp_open T h fd l = Some (Inl e, l1)"
    | "uv_tcp_open T h fd l = stream_open T h fd (or UV_HANDLE_READABLE UV_HANDLE_WRITABLE) l1"
  proof (cases "uv__fd_exists fd l")
    case True
    then show ?thesis using that(1) by (simp add: uv_tcp_open_def)
  next
    case False
    then have "uv_tcp_open T h fd l = (if sys_ioctl T (sys l) fd \<noteq> OK then Some (sys_ioctl T (sys l) fd, l1)
        else stream_open T h fd (or UV_HANDLE_READABLE UV_HANDLE_WRITABLE) l1)"
      by (simp add: uv_tcp_open_def call_def l1_def)
    then show ?thesis using that(2,3) by (cases "sys_ioctl T (sys l) fd") auto
  qed
  then show ?thesis
  proof cases
    case 1
    then show ?thesis using inv stream_later_refl [of l] by auto
  next
    case 2
    then show ?thesis using i1 by auto
  next
    case 3
    show ?thesis
    proof (cases "stream_fd h l1 = - 1")
      case True
      obtain l2 where "stream_open T h fd (or UV_HANDLE_READABLE UV_HANDLE_WRITABLE) l1 = Some (OK, l2)" "calm k l1 l2"
        using open_socket_ok [OF T i1(1,4,5) True fr1 rw_flags(1)] by blast
      then show ?thesis using 3 calm_trans [OF c1] by (auto simp: calm_def)
    next
      case False
      have "stream_fd h l1 \<noteq> fd" using fr1 i1(4) by (auto simp: fresh_fd_def)
      then have "stream_open T h fd (or UV_HANDLE_READABLE UV_HANDLE_WRITABLE) l1 = Some (Inl UV_EBUSY, l1)"
        using False by (simp add: stream_open_def uv__stream_open_def)
      then show ?thesis using 3 i1 by auto
    qed
  qed
qed

end
