(* ===== verification/UV_Stream_Client.thy ===== *)
theory UV_Stream_Client
  imports UV_Stream_Tcp
begin

text \<open>
  TCP clients.  Whatever calls a client makes, in whatever order, from the callbacks or outside, and
  whatever the kernel answers, no assertion fails, and every write is reported once and in order.
\<close>

section \<open>The calls\<close>

datatype api =
    SInit addr
  | SOpen addr int
  | SConnect addr addr domain "nat option"
  | SWrite addr addr "u8 list list" "nat option"
  | STry addr "u8 list list"
  | SShutdown addr addr "nat option"
  | SReadStart addr "nat option" "nat option"
  | SReadStop addr
  | SClose addr "nat option"

text \<open>What the documentation asks of a client: memory that is not in use, handles that are initialised
  and not closing, and what the counters can hold.  Descriptors are those of the kernel.\<close>

definition new_req :: "addr \<Rightarrow> 'a stream_loop_scheme \<Rightarrow> bool" where
  "new_req r l \<longleftrightarrow> r \<notin> live_reqs l \<and> unat (active_reqs l) + 1 < 2 ^ 32"

definition new_handle :: "addr \<Rightarrow> 'a stream_loop_scheme \<Rightarrow> bool" where
  "new_handle h l \<longleftrightarrow> h \<notin> set (handle_queue l) \<and> length (handle_queue l) + 1 < 2 ^ 32 \<and> io_pevents (io l h) = 0"

definition usable :: "addr \<Rightarrow> 'a stream_loop_scheme \<Rightarrow> bool" where
  "usable h l \<longleftrightarrow> h \<in> streams l \<and> \<not> closing l h \<and> \<not> closed l h"

fun legal :: "tcp_sys \<Rightarrow> api \<Rightarrow> 'a stream_loop_scheme \<Rightarrow> bool" where
  "legal T (SInit h) l \<longleftrightarrow> new_handle h l"
| "legal T (SOpen h fd) l \<longleftrightarrow> usable h l \<and> fresh_fd fd l"
| "legal T (SConnect r h d cb) l \<longleftrightarrow> usable h l \<and> new_req r l \<and> fresh_sockets T l \<and>
     (delayed_error l h = None \<or> 0 \<le> stream_fd h l)"
| "legal T (SWrite r h bufs cb) l \<longleftrightarrow> h \<in> streams l \<and> new_req r l \<and> bufs \<noteq> [] \<and> room_for h (length (concat bufs)) l"
| "legal T (STry h bufs) l \<longleftrightarrow> h \<in> streams l \<and> bufs \<noteq> []"
| "legal T (SShutdown r h cb) l \<longleftrightarrow> h \<in> streams l \<and> new_req r l"
| "legal T (SReadStart h acb rcb) l \<longleftrightarrow> h \<in> streams l"
| "legal T (SReadStop h) l \<longleftrightarrow> h \<in> streams l"
| "legal T (SClose h cb) l \<longleftrightarrow> usable h l"

fun api_call :: "('a stream_loop_scheme) stream_env \<Rightarrow> tcp_sys \<Rightarrow> api \<Rightarrow> 'a stream_loop_scheme \<Rightarrow> 'a stream_loop_scheme option" where
  "api_call E T (SInit h) l = map_option snd (uv_tcp_init E T h l)"
| "api_call E T (SOpen h fd) l = map_option snd (uv_tcp_open T h fd l)"
| "api_call E T (SConnect r h d cb) l = map_option snd (uv_tcp_connect T r h d cb l)"
| "api_call E T (SWrite r h bufs cb) l = map_option snd (uv_write E r h bufs cb l)"
| "api_call E T (STry h bufs) l = map_option snd (uv_try_write E h bufs l)"
| "api_call E T (SShutdown r h cb) l = map_option snd (uv_shutdown r h cb l)"
| "api_call E T (SReadStart h acb rcb) l = map_option snd (uv_read_start h acb rcb l)"
| "api_call E T (SReadStop h) l = uv_read_stop h l"
| "api_call E T (SClose h cb) l = uv_close close_stream h cb l"

definition good :: "nat \<Rightarrow> 'a stream_loop_scheme \<Rightarrow> 'a stream_loop_scheme option \<Rightarrow> bool" where
  "good k l r \<longleftrightarrow> (\<exists>l'. r = Some l' \<and> stream_inv k l' \<and> stream_later l l' \<and> frozen l l')"

lemma goodI: "\<exists>st l'. r = Some (st, l') \<and> stream_inv k l' \<and> stream_later l l' \<and> frozen l l' \<Longrightarrow> good k l (map_option snd r)"
  by (auto simp: good_def)

lemma api_call_ok:
  assumes E: "kernel_ok E" and T: "tcp_ok T" and inv: "stream_inv k l" and lg: "legal T a l"
  shows "good k l (api_call E T a l)"
proof (cases a)
  case (SInit h)
  then show ?thesis using tcp_init_ok [OF inv, of h E T] lg by (auto simp: new_handle_def intro!: goodI)
next
  case (SOpen h fd)
  then show ?thesis using tcp_open_ok [OF T inv, of h fd] lg by (auto simp: usable_def intro!: goodI)
next
  case (SConnect r h d cb)
  then show ?thesis using tcp_connect_ok [OF T _ inv, of h r d cb] lg by (auto simp: usable_def new_req_def intro!: goodI)
next
  case (SWrite r h bufs cb)
  then have "\<exists>st l'. uv_write E r h bufs cb l = Some (st, l') \<and> stream_inv k l' \<and> stream_later l l' \<and> frozen l l'"
    using write2_ok [OF E inv, of h r bufs cb] lg by (auto simp: uv_write_def new_req_def)
  then show ?thesis using SWrite by (auto simp: good_def)
next
  case (STry h bufs)
  then show ?thesis using try_write_call_ok [OF E inv, of h bufs] lg by (auto intro!: goodI)
next
  case (SShutdown r h cb)
  then show ?thesis using shutdown_ok [OF inv, of h r cb] lg by (auto simp: new_req_def intro!: goodI)
next
  case (SReadStart h acb rcb)
  then show ?thesis using read_start_ok [OF inv, of h acb rcb] lg by (auto intro!: goodI)
next
  case (SReadStop h)
  then show ?thesis using read_stop_ok [OF inv, of h] lg by (auto simp: good_def)
next
  case (SClose h cb)
  then show ?thesis using close_ok [OF inv, of h cb] lg by (auto simp: good_def usable_def)
qed

section \<open>Sequences of steps\<close>

text \<open>A list of steps, without those that are not legal at their turn.\<close>

fun exec :: "('c \<Rightarrow> 's \<Rightarrow> bool) \<Rightarrow> ('c \<Rightarrow> 's \<Rightarrow> 's option) \<Rightarrow> 'c list \<Rightarrow> 's \<Rightarrow> 's option" where
  "exec can step [] s = Some s"
| "exec can step (c # cs) s = (if can c s then Option.bind (step c s) (exec can step cs) else exec can step cs s)"

text \<open>The contract between a client and an interface: a legal step succeeds, keeps what the interface needs,
  and what it leaves true composes.\<close>

locale contract =
  fixes ok :: "'s \<Rightarrow> bool" and can :: "'c \<Rightarrow> 's \<Rightarrow> bool" and step :: "'c \<Rightarrow> 's \<Rightarrow> 's option" and rel :: "'s \<Rightarrow> 's \<Rightarrow> bool"
  assumes step_ok: "\<And>s c. ok s \<Longrightarrow> can c s \<Longrightarrow> \<exists>s'. step c s = Some s' \<and> ok s' \<and> rel s s'"
    and rel_refl: "\<And>s. rel s s" and rel_trans: "\<And>a b c. rel a b \<Longrightarrow> rel b c \<Longrightarrow> rel a c"
begin

lemma exec_ok: "ok s \<Longrightarrow> \<exists>s'. exec can step cs s = Some s' \<and> ok s' \<and> rel s s'"
proof (induction cs arbitrary: s)
  case (Cons c cs)
  show ?case
  proof (cases "can c s")
    case True
    obtain s1 where s1: "step c s = Some s1" "ok s1" "rel s s1" using step_ok [OF Cons.prems True] by blast
    then show ?thesis using Cons.IH [OF s1(2)] True rel_trans [OF s1(3)] by auto
  qed (use Cons in simp)
qed (simp add: rel_refl)

lemma exec_append:
  "exec can step (xs @ ys) s = Option.bind (exec can step xs s) (exec can step ys)"
  by (induction xs arbitrary: s) (simp_all split: Option.bind_split)

end

definition client_rel :: "'a stream_loop_scheme \<Rightarrow> 'a stream_loop_scheme \<Rightarrow> bool" where
  "client_rel l l' \<longleftrightarrow> stream_later l l' \<and> frozen l l'"

interpretation client: contract "\<lambda>l. kernel_ok E \<and> tcp_ok T \<and> stream_inv k l" "legal T" "api_call E T" client_rel
proof
  show "\<exists>s'. api_call E T c s = Some s' \<and> (kernel_ok E \<and> tcp_ok T \<and> stream_inv k s') \<and> client_rel s s'"
    if "kernel_ok E \<and> tcp_ok T \<and> stream_inv k s" "legal T c s" for s c
    using api_call_ok [of E T k s c] that by (auto simp: good_def client_rel_def)
  show "client_rel a c" if "client_rel a b" "client_rel b c" for a b c :: "'a stream_loop_scheme"
    using that stream_later_trans [of a b c] frozen_trans [of a b c] by (auto simp: client_rel_def)
qed (simp add: client_rel_def stream_later_refl)

section \<open>Programs\<close>

text \<open>A client program: the calls of its callbacks, which may look at the whole state, and the size of its
  read buffers.\<close>

record 'l client =
  do_req :: "nat \<Rightarrow> addr \<Rightarrow> ret \<Rightarrow> 'l \<Rightarrow> api list"
  do_read :: "nat \<Rightarrow> addr \<Rightarrow> u8 list result \<Rightarrow> 'l \<Rightarrow> api list"
  do_close :: "nat \<Rightarrow> addr \<Rightarrow> 'l \<Rightarrow> api list"
  do_alloc :: "nat \<Rightarrow> addr \<Rightarrow> nat \<Rightarrow> 'l \<Rightarrow> nat"

definition client_env :: "('a stream_loop_scheme) stream_env \<Rightarrow> tcp_sys \<Rightarrow> ('a stream_loop_scheme) client \<Rightarrow> ('a stream_loop_scheme) stream_env" where
  "client_env K T P = K\<lparr>
     on_req := (\<lambda>cb r st l. exec (legal T) (api_call K T) (do_req P cb r st l) l),
     on_read := (\<lambda>cb h n l. exec (legal T) (api_call K T) (do_read P cb h n l) l),
     on_alloc := (\<lambda>cb h n l. Some (do_alloc P cb h n l, l))\<rparr>"

definition client_close :: "('a stream_loop_scheme) stream_env \<Rightarrow> tcp_sys \<Rightarrow> ('a stream_loop_scheme) client \<Rightarrow> nat \<Rightarrow> addr \<Rightarrow>
    'a stream_loop_scheme \<Rightarrow> 'a stream_loop_scheme option" where
  "client_close K T P cb h l = exec (legal T) (api_call K T) (do_close P cb h l) l"

lemma client_safe:
  assumes "kernel_ok K" and "tcp_ok T"
  shows "safe_env k (client_env K T P)" "safe_close k (client_close K T P)"
proof -
  have c: "\<exists>l'. exec (legal T) (api_call K T) cs l = Some l' \<and> stream_inv k l' \<and> stream_later l l' \<and> frozen l l'"
    if "stream_inv k l" for cs and l :: "'a stream_loop_scheme"
    using client.exec_ok [of K T k l cs] assms that by (auto simp: client_rel_def)
  have "kernel_ok (client_env K T P)" using assms(1) by (simp add: kernel_ok_def client_env_def)
  then show "safe_env k (client_env K T P)" using c by (simp add: safe_env_def client_env_def)
  show "safe_close k (client_close K T P)" using c by (simp add: safe_close_def client_close_def)
qed

text \<open>What happens to a loop: a call from outside the callbacks, an event on a stream, the closing pass.\<close>

datatype event = Call api | Io addr u32 | Closing

fun possible :: "tcp_sys \<Rightarrow> event \<Rightarrow> 'a stream_loop_scheme \<Rightarrow> bool" where
  "possible T (Call a) l \<longleftrightarrow> legal T a l"
| "possible T (Io h events) l \<longleftrightarrow> usable h l \<and> (connect_req l h \<noteq> None \<or> 0 \<le> stream_fd h l)"
| "possible T Closing l \<longleftrightarrow> (\<forall>h\<in>set (closing_handles l). closable (h_type l h))"

fun happen :: "('a stream_loop_scheme) stream_env \<Rightarrow> tcp_sys \<Rightarrow> ('a stream_loop_scheme) client \<Rightarrow> event \<Rightarrow>
    'a stream_loop_scheme \<Rightarrow> 'a stream_loop_scheme option" where
  "happen K T P (Call a) l = api_call K T a l"
| "happen K T P (Io h events) l = uv__stream_io (client_env K T P) h events l"
| "happen K T P Closing l = map_option snd (uv__run_closing_handles (destroy_stream (client_env K T P)) (client_close K T P) l)"

definition run :: "('a stream_loop_scheme) stream_env \<Rightarrow> tcp_sys \<Rightarrow> ('a stream_loop_scheme) client \<Rightarrow> event list \<Rightarrow>
    'a stream_loop_scheme \<Rightarrow> 'a stream_loop_scheme option" where
  "run K T P evs l = exec (possible T) (happen K T P) evs l"

lemma happen_ok:
  assumes K: "kernel_ok K" and T: "tcp_ok T" and inv: "stream_inv k l" and q: "quiet l" and p: "possible T e l"
  shows "\<exists>l'. happen K T P e l = Some l' \<and> stream_inv k l' \<and> quiet l'"
proof (cases e)
  case (Call a)
  then obtain l' where "api_call K T a l = Some l'" "stream_inv k l'" "stream_later l l'"
    using api_call_ok [OF K T inv, of a] p by (auto simp: good_def)
  then show ?thesis using Call later_quiet [OF _ q] by auto
next
  case (Io h events)
  have "write_local l h = []" using q by (simp add: quiet_def)
  then obtain l' where "uv__stream_io (client_env K T P) h events l = Some l'" "stream_inv k l'" "stream_later l l'"
    using stream_io_ok [OF client_safe(1) [OF K T] inv, of h P events] p Io by (auto simp: usable_def)
  then show ?thesis using Io later_quiet [OF _ q] by auto
next
  case Closing
  then show ?thesis using run_closing_ok [OF client_safe [OF K T] inv q, of P P] p by auto
qed

interpretation loop: contract "\<lambda>l. kernel_ok K \<and> tcp_ok T \<and> stream_inv k l \<and> quiet l" "possible T" "happen K T P" "\<lambda>_ _. True"
  by unfold_locales (use happen_ok in blast)+

text \<open>A loop without streams; its other handles and watchers are arbitrary.\<close>

definition no_streams :: "'a stream_loop_scheme \<Rightarrow> bool" where
  "no_streams l \<longleftrightarrow> io_inv l \<and> handles_ok l \<and> to_close [] l \<and> streams l = {} \<and> quiet l"

lemma no_streams_inv: "no_streams l \<Longrightarrow> stream_inv (unat (active_reqs l)) l"
  by (simp add: no_streams_def stream_inv_def fds_ok_def live_reqs_def quiet_def)

lemma run_ok:
  assumes "kernel_ok K" and "tcp_ok T" and "no_streams l"
  shows "\<exists>l'. run K T P evs l = Some l' \<and> stream_inv (unat (active_reqs l)) l' \<and> quiet l'"
  using loop.exec_ok [of K T "unat (active_reqs l)" l P evs] assms no_streams_inv [OF assms(3)]
  by (auto simp: run_def no_streams_def)


section \<open>An example\<close>

text \<open>A kernel that takes every write and has nothing to read, and a client without callbacks.\<close>

definition demo_kernel :: "stream_loop stream_env" where
  "demo_kernel = \<lparr>iovmax = 1024, sys_write = (\<lambda>k fd iov s. Inr (length (concat iov))), sys_read = (\<lambda>k fd n. Inl UV_EAGAIN),
     sys_shutdown = (\<lambda>k fd. OK), sys_accept = (\<lambda>k fd. Inl UV_EAGAIN), sys_open = (\<lambda>k. Inr 4), sys_so_error = (\<lambda>k fd. Settled OK),
     on_req = (\<lambda>cb r st l. Some l), on_alloc = (\<lambda>cb h n l. Some (n, l)), on_read = (\<lambda>cb h n l. Some l), on_connection = (\<lambda>cb h l. Some l)\<rparr>"

definition demo_tcp :: tcp_sys where
  "demo_tcp = \<lparr>sys_socket = (\<lambda>k d b. Inl UV_EMFILE), sys_ioctl = (\<lambda>k fd. OK), sys_setsockopt = (\<lambda>k fd. OK),
     sys_getsockname = (\<lambda>k fd. Inr 0), sys_bind = (\<lambda>k fd. OK), sys_listen = (\<lambda>k fd. OK), sys_connect = (\<lambda>k fd. OK)\<rparr>"

definition demo_client :: "stream_loop client" where
  "demo_client = \<lparr>do_req = (\<lambda>cb r st l. []), do_read = (\<lambda>cb h n l. []), do_close = (\<lambda>cb h l. []), do_alloc = (\<lambda>cb h n l. 64)\<rparr>"

definition demo_loop :: "stream_loop \<Rightarrow> stream_loop" where
  "demo_loop l = (fresh_io l)\<lparr>handle_queue := [], closing_handles := [], active_handles := 0, active_reqs := 0, h_flags := (\<lambda>_. 0),
     write_local := (\<lambda>_. []), emfile_fd := 3, sys := 0\<rparr>"

lemma demo_ok:
  "kernel_ok demo_kernel" "tcp_ok demo_tcp" "no_streams (demo_loop l)"
proof -
  have u: "uninterrupted f" if "\<And>k. f k \<noteq> Inl UV_EINTR" for f :: "nat \<Rightarrow> 'x result" using that by (auto simp: uninterrupted_def)
  show "kernel_ok demo_kernel" by (simp add: kernel_ok_def demo_kernel_def u)
  show "tcp_ok demo_tcp" by (simp add: tcp_ok_def demo_tcp_def u)
  have "io_inv (demo_loop l) = io_inv (fresh_io l)" by (rule io_inv_cong) (simp_all add: demo_loop_def)
  then have "io_inv (demo_loop l)" using fresh_io_inv by blast
  then show "no_streams (demo_loop l)"
    by (simp add: no_streams_def quiet_def) (simp add: demo_loop_def handles_ok_def alive_handles_def to_close_def streams_def)
qed

definition demo_events :: "event list" where
  "demo_events = [Call (SInit 1), Call (SOpen 1 5), Call (SWrite 7 1 [[1, 2], [3]] (Some 0)), Io 1 POLLOUT]"

lemma demo_run:
  "\<exists>l'. run demo_kernel demo_tcp demo_client demo_events (demo_loop l) = Some l' \<and> 1 \<in> streams l' \<and>
    submitted l' 1 = [(7, [1, 2, 3])] \<and> wire_bytes l' 1 = [1, 2, 3] \<and> called l' 1 = [(7, OK)] \<and> stream_fd 1 l' = 5 \<and> usable 1 l'"
proof -
  define l0 where "l0 = demo_loop l"
  obtain l1 where l1: "uv_tcp_init demo_kernel demo_tcp 1 l0 = Some (OK, l1)" "legal demo_tcp (SInit 1) l0" and
    f1: "handle_queue l1 = [1]" "h_type l1 1 = UV_TCP" "h_flags l1 = (\<lambda>_. 0)(1 := UV_HANDLE_REF)" "io l1 = (\<lambda>_. \<lparr>io_cb = 0, io_fd = - 1, io_events = 0, io_pevents = 0\<rparr>)
      (1 := \<lparr>io_cb = STREAM_IO, io_fd = - 1, io_events = 0, io_pevents = 0\<rparr>)" "nwatchers l1 = 0" "active_reqs l1 = 0" "connect_req l1 1 = None"
      "shutdown_req l1 1 = None" "write_size l1 1 = 0" "write_queue l1 1 = []" "write_completed l1 1 = []" "write_local l1 = (\<lambda>_. [])" "submitted l1 1 = []" "wire l1 1 = []" "called l1 1 = []"
      "pending_queue l1 = []" "pending_local l1 = []"
    by (simp add: uv_tcp_init_def uv_tcp_init_ex_def domain_of_def uv__stream_init_def uv__handle_init_def uv__io_init_def demo_kernel_def
       Let_def set_io_def l0_def demo_loop_def fresh_io_def new_handle_def)
  obtain l2 where l2: "uv_tcp_open demo_tcp 1 5 l1 = Some (OK, l2)" "legal demo_tcp (SOpen 1 5) l1" and
    f2: "handle_queue l2 = [1]" "h_type l2 1 = UV_TCP" "h_flags l2 1 = or UV_HANDLE_REF (or UV_HANDLE_READABLE UV_HANDLE_WRITABLE)" "stream_fd 1 l2 = 5" "active_reqs l2 = 0"
      "connect_req l2 1 = None"
      "shutdown_req l2 1 = None" "write_size l2 1 = 0" "write_queue l2 1 = []" "write_completed l2 1 = []" "write_local l2 = (\<lambda>_. [])" "submitted l2 1 = []" "wire l2 1 = []" "called l2 1 = []" "nwatchers l2 = 0"
      "pending_queue l2 = []" "pending_local l2 = []"
    using f1 by (simp add: uv_tcp_open_def uv__fd_exists_def usable_def fresh_fd_def stream_fd_def streams_def flag_views bit_flags demo_tcp_def call_def
        stream_open_def open_options_def uv__tcp_nodelay_def uv__tcp_keepalive_def flagged_def has_flag_def UV_HANDLE_REF_def UV_HANDLE_TCP_NODELAY_def
        UV_HANDLE_TCP_KEEPALIVE_def uv__stream_open_def Let_def flag_on_def set_flags_def set_io_def add_flag_def)
  have fl: "flagged 1 UV_HANDLE_WRITABLE l2" "\<not> flagged 1 UV_HANDLE_BLOCKING_WRITES l2"
    unfolding flagged_bits f2(3) by (simp_all add: bit_or_iff bit_flags stream_bits)
  have s2: "streams l2 = {1}" using f2(1,2) by (auto simp: streams_def)
  have lg: "legal demo_tcp (SWrite 7 1 [[1, 2], [3]] (Some 0)) l2"
    using f2 by (simp add: s2 new_req_def live_reqs_def owned_def out_def connecting_def room_for_def)
  obtain l3 where l3: "uv_write demo_kernel 7 1 [[1, 2], [3]] (Some 0) l2 = Some (OK, l3)" and
    f3: "handle_queue l3 = [1]" "h_type l3 1 = UV_TCP" "write_completed l3 1 = [7]" "submitted l3 1 = [(7, [1, 2, 3])]" "wire l3 1 = [(Some 7, [1, 2, 3])]" "called l3 1 = []"
      "nwatchers l3 = 0" "write_queue l3 1 = []" "write_local l3 = (\<lambda>_. [])" "stream_fd 1 l3 = 5" "h_flags l3 = h_flags l2" "connect_req l3 1 = None"
      "shutdown_req l3 1 = None" "active_reqs l3 = 1" "req l3 7 = \<lparr>r_handle = 1, r_cb = Some 0, r_error = OK, r_send = None, r_bufs = None, r_index = 2\<rparr>"
    using f2 fl by (simp add: uv_write_def uv_write2_def uv__check_before_write_def set_req_def uv__req_register_def Let_def flagged_def
      uv__count_bufs_def uv__write_def uv__write_loop.simps stream_fd_def uv__try_write_def demo_kernel_def eintr.simps wrote_def uv__write_req_update_def
      uv__write_req_finish_def uv__io_feed_def)
  let ?E = "client_env demo_kernel demo_tcp demo_client"
  have nc: "\<not> flagged 1 UV_HANDLE_CLOSING l3" "\<not> closing l3 1" "\<not> closed l3 1"
    unfolding flagged_bits flag_views f3(11) f2(3) by (simp_all add: bit_or_iff bit_flags stream_bits)
  have ev: "\<not> has_flag POLLOUT (or (or POLLIN POLLERR) POLLHUP)" "\<not> has_flag POLLOUT POLLHUP" "has_flag POLLOUT (or (or POLLOUT POLLERR) POLLHUP)"
    "valid_events POLLOUT"
    by (simp_all add: has_flag_def POLLIN_def POLLOUT_def POLLERR_def POLLHUP_def valid_events_def io_mask_def POLLPRI_def POLLRDHUP_def)
  have wr: "uv__write ?E 1 l3 = Some l3" using f3 by (simp add: uv__write_def uv__write_loop.simps)
  obtain l4 where l4: "uv__write_callbacks ?E 1 l3 = Some l4" and
    f4: "handle_queue l4 = [1]" "h_type l4 1 = UV_TCP" "submitted l4 1 = [(7, [1, 2, 3])]" "wire l4 1 = [(Some 7, [1, 2, 3])]" "called l4 1 = [(7, OK)]"
      "write_queue l4 1 = []" "io l4 = io l3" "nwatchers l4 = 0" "shutdown_req l4 1 = None" "h_flags l4 = h_flags l3"
    using f3 by (simp add: uv__write_callbacks_def write_callbacks_loop.simps write_done_def uv__req_unregister_def uv__has_active_reqs_def call_req_def
        client_env_def demo_client_def)
  have dr: "uv__drain ?E 1 l4 = Some l4"
    using f4 f3(10) nc(1) ev(4) by (simp add: uv__drain_def flagged_def uv__io_stop_def stream_fd_def)
  have "uv__stream_io ?E 1 POLLOUT l3 = Some l4"
    using f3 nc(1) ev wr l4 dr f4(6) by (simp add: uv__stream_io_def)
  moreover have "possible demo_tcp (Io 1 POLLOUT) l3" using f3 nc by (simp add: usable_def streams_def)
  moreover have "1 \<in> streams l4" using f4 by (simp add: streams_def)
  ultimately have "run demo_kernel demo_tcp demo_client demo_events l0 = Some l4"
    using l1 l2 lg l3 by (simp add: run_def demo_events_def)
  moreover have "stream_fd 1 l4 = 5" using f3(10) f4(7) by (simp add: stream_fd_def)
  moreover have "usable 1 l4" using f4 nc by (simp add: usable_def streams_def flag_views)
  ultimately show ?thesis using f4 \<open>1 \<in> streams l4\<close> by (auto simp: l0_def wire_bytes_def)
qed


section \<open>What holds of every run\<close>

lemma size_unat:
  assumes "size_ok l h"
  shows "unat (write_size l h) = length (concat (map (unsent l) (out l h)))"
proof -
  define n where "n = length (concat (map (unsent l) (out l h)))"
  have "write_size l h = of_nat n" "n < 2 ^ 64" using assms unfolding size_ok_def n_def by blast+
  then show ?thesis by (simp add: n_def [symmetric] unat_of_nat)
qed







text \<open>One pass of writing ends, whatever the kernel answers: it finishes at most 33 requests, those at the
  head of the queue, in their order.\<close>

theorem write_pass_bounded:
  assumes "kernel_ok E" and "stream_inv k l" and "h \<in> streams l" and "0 \<le> stream_fd h l"
  shows "\<exists>l' ds. uv__write E h l = Some l' \<and> write_queue l h = ds @ write_queue l' h \<and>
    write_completed l' h = write_completed l h @ ds \<and> length ds \<le> 33"
  using write_ok [OF assms] by (auto simp: moved_def)

theorem write_pass_bounded_witness:
  "\<exists>(l :: stream_loop) l' ds. stream_fd 1 l = 5 \<and> uv__write demo_kernel 1 l = Some l' \<and> write_queue l 1 = ds @ write_queue l' 1 \<and> length ds \<le> 33"
proof -
  fix l :: stream_loop
  let ?evs = "[Call (SInit 1), Call (SOpen 1 5)]"
  obtain l1 where l1: "run demo_kernel demo_tcp demo_client demo_events (demo_loop l) = Some l1" "1 \<in> streams l1" "stream_fd 1 l1 = 5"
    using demo_run by blast
  obtain l2 where "run demo_kernel demo_tcp demo_client demo_events (demo_loop l) = Some l2" "stream_inv (unat (active_reqs (demo_loop l))) l2"
    using run_ok [OF demo_ok(1,2) demo_ok(3) [of l], where P = demo_client and evs = demo_events] by blast
  then have "stream_inv (unat (active_reqs (demo_loop l))) l1" using l1(1) by simp
  then show ?thesis using write_pass_bounded [OF demo_ok(1) _ l1(2)] l1(3) by fastforce
qed




end
