(* ===== verification/UV_Udp.thy ===== *)
theory UV_Udp
  imports UV_Stream_Client
begin

text \<open>
  UDP handles: src/unix/udp.c and the checks of src/uv-common.c in front of it, for Linux.  As for TCP,
  addresses are the kernel's and only their family is in the model.  A handle has a queue of requests to
  send and one of requests that wait for their callback; the watcher of handle \<open>h\<close> is \<open>h\<close>.
\<close>

section \<open>State\<close>

definition UV_HANDLE_UDP_PROCESSING :: u32 where "UV_HANDLE_UDP_PROCESSING = 0x1000000"
definition UV_HANDLE_UDP_CONNECTED :: u32 where "UV_HANDLE_UDP_CONNECTED = 0x2000000"
definition UV_HANDLE_UDP_RECVMMSG :: u32 where "UV_HANDLE_UDP_RECVMMSG = 0x4000000"
definition UV__UDP_DGRAM_MAXSIZE :: nat where "UV__UDP_DGRAM_MAXSIZE = 64 * 1024"

definition UV_UDP_IPV6ONLY :: u32 where "UV_UDP_IPV6ONLY = 1"
definition UV_UDP_PARTIAL :: u32 where "UV_UDP_PARTIAL = 2"
definition UV_UDP_REUSEADDR :: u32 where "UV_UDP_REUSEADDR = 4"
definition UV_UDP_MMSG_CHUNK :: u32 where "UV_UDP_MMSG_CHUNK = 8"
definition UV_UDP_MMSG_FREE :: u32 where "UV_UDP_MMSG_FREE = 16"
definition UV_UDP_LINUX_RECVERR :: u32 where "UV_UDP_LINUX_RECVERR = 32"
definition UV_UDP_RECVMMSG :: u32 where "UV_UDP_RECVMMSG = 256"

text \<open>A send request; \<open>s_bufs\<close> is \<open>None\<close> once the array is freed, \<open>AF_UNSPEC\<close> stands for no address.\<close>

record uv_udp_send_t =
  s_handle :: addr
  s_cb :: "nat option"
  s_status :: "nat result"
  s_addr :: domain
  s_bufs :: "u8 list list option"

text \<open>A handle.  The last three fields record the requests that were accepted, those the kernel took and
  those that were reported.\<close>

record uv_udp =
  u_alloc_cb :: "nat option"
  u_recv_cb :: "nat option"
  u_send_size :: u64
  u_send_count :: u64
  u_queue :: "addr list"
  u_completed :: "addr list"
  u_submitted :: "addr list"
  u_sent :: "addr list"
  u_called :: "(addr \<times> nat result) list"

record udp_loop = stream_loop +
  udp :: "addr \<Rightarrow> uv_udp"
  send_req :: "addr \<Rightarrow> uv_udp_send_t"

text \<open>What the kernel and the callbacks do.  A datagram comes with its data and whether it was cut off; a
  receive callback gets the data or an error, whether there is an address, and flags.\<close>

record 'l udp_env =
  sys_sendmmsg :: "nat \<Rightarrow> int \<Rightarrow> (domain \<times> u8 list list) list \<Rightarrow> nat result"
  stale_errno :: "nat \<Rightarrow> uv_errno"
  sys_sendmsg :: "nat \<Rightarrow> int \<Rightarrow> domain \<times> u8 list list \<Rightarrow> nat result"
  sys_recvmsg :: "nat \<Rightarrow> int \<Rightarrow> nat \<Rightarrow> (u8 list \<times> bool) result"
  sys_recvmmsg :: "nat \<Rightarrow> int \<Rightarrow> nat \<Rightarrow> (u8 list \<times> bool) list result"
  sys_getpeername :: "nat \<Rightarrow> int \<Rightarrow> nat result"
  on_send :: "nat \<Rightarrow> addr \<Rightarrow> ret \<Rightarrow> 'l \<Rightarrow> 'l option"
  on_buffer :: "nat \<Rightarrow> addr \<Rightarrow> nat \<Rightarrow> 'l \<Rightarrow> (nat \<times> 'l) option"
  on_recv :: "nat \<Rightarrow> addr \<Rightarrow> u8 list result \<Rightarrow> bool \<Rightarrow> u32 \<Rightarrow> 'l \<Rightarrow> 'l option"

definition UDP_IO :: nat where "UDP_IO = 4"

definition set_udp :: "addr \<Rightarrow> (uv_udp \<Rightarrow> uv_udp) \<Rightarrow> 'a udp_loop_scheme \<Rightarrow> 'a udp_loop_scheme" where
  "set_udp h f l = l\<lparr>udp := (udp l)(h := f (udp l h))\<rparr>"

definition set_send :: "addr \<Rightarrow> (uv_udp_send_t \<Rightarrow> uv_udp_send_t) \<Rightarrow> 'a udp_loop_scheme \<Rightarrow> 'a udp_loop_scheme" where
  "set_send r f l = l\<lparr>send_req := (send_req l)(r := f (send_req l r))\<rparr>"

section \<open>Sending\<close>

text \<open>\<open>uv__udp_run_completed\<close>.\<close>

definition call_send :: "('a udp_loop_scheme) udp_env \<Rightarrow> addr \<Rightarrow> 'a udp_loop_scheme \<Rightarrow> 'a udp_loop_scheme option" where
  "call_send E r l =
     (case s_cb (send_req l r) of
        None \<Rightarrow> Some l
      | Some cb \<Rightarrow> on_send E cb r (case s_status (send_req l r) of Inl e \<Rightarrow> Inl e | Inr _ \<Rightarrow> OK) l)"

definition udp_send_done :: "addr \<Rightarrow> addr \<Rightarrow> 'a udp_loop_scheme \<Rightarrow> 'a udp_loop_scheme option" where
  "udp_send_done h r l = do {
     l \<leftarrow> uv__req_unregister l;
     bufs \<leftarrow> s_bufs (send_req l r);
     let l = set_udp h (\<lambda>u. u\<lparr>u_send_size := u_send_size u - uv__count_bufs bufs, u_send_count := u_send_count u - 1\<rparr>) l;
     let l = set_send r (\<lambda>s. s\<lparr>s_bufs := None\<rparr>) l;
     Some (set_udp h (\<lambda>u. u\<lparr>u_called := u_called u @ [(r, s_status (send_req l r))]\<rparr>) l)
   }"

partial_function (option) run_completed_loop :: "('a udp_loop_scheme) udp_env \<Rightarrow> addr \<Rightarrow> 'a udp_loop_scheme \<Rightarrow>
    'a udp_loop_scheme option" where
  "run_completed_loop E h l =
     (case u_completed (udp l h) of
        [] \<Rightarrow> Some l
      | r # rest \<Rightarrow>
          Option.bind (udp_send_done h r (set_udp h (\<lambda>u. u\<lparr>u_completed := rest\<rparr>) l)) (\<lambda>l.
          Option.bind (call_send E r l) (run_completed_loop E h)))"

declare run_completed_loop.simps [code]

definition uv__udp_run_completed :: "('a udp_loop_scheme) udp_env \<Rightarrow> addr \<Rightarrow> 'a udp_loop_scheme \<Rightarrow> 'a udp_loop_scheme option" where
  "uv__udp_run_completed E h l =
     (if flagged h UV_HANDLE_UDP_PROCESSING l then None
      else do {
        l \<leftarrow> run_completed_loop E h (flag_on h UV_HANDLE_UDP_PROCESSING l);
        l \<leftarrow> (if u_queue (udp l h) = [] then do {
                l \<leftarrow> uv__io_stop h POLLOUT l;
                reading \<leftarrow> uv__io_active h POLLIN l;
                Some (if \<not> reading then uv__handle_stop h l else l)
              } else Some l);
        Some (flag_off h UV_HANDLE_UDP_PROCESSING l)
      })"

text \<open>The first \<open>n\<close> requests leave the queue with status \<open>st\<close>; a request that was sent gets the length of
  its first buffer.\<close>

definition udp_complete :: "addr \<Rightarrow> nat \<Rightarrow> uv_errno option \<Rightarrow> 'a udp_loop_scheme \<Rightarrow> 'a udp_loop_scheme" where
  "udp_complete h n err l =
     (let rs = take n (u_queue (udp l h));
          status = (\<lambda>r. case err of Some e \<Rightarrow> Inl e | None \<Rightarrow> Inr (length (hd (the (s_bufs (send_req l r))))));
          l = l\<lparr>send_req := (\<lambda>r. if r \<in> set rs then (send_req l r)\<lparr>s_status := status r\<rparr> else send_req l r)\<rparr>
      in set_udp h (\<lambda>u. u\<lparr>u_queue := drop n (u_queue u), u_completed := u_completed u @ rs,
           u_sent := (if err = None then u_sent u @ rs else u_sent u)\<rparr>) l)"

definition messages :: "addr list \<Rightarrow> 'a udp_loop_scheme \<Rightarrow> (domain \<times> u8 list list) list option" where
  "messages rs l =
     (if \<exists>r\<in>set rs. s_bufs (send_req l r) = None then None
      else Some (map (\<lambda>r. (s_addr (send_req l r), the (s_bufs (send_req l r)))) rs))"

text \<open>The part of \<open>uv__udp_sendmsg\<close> from the label \<open>write_queue_drain\<close>.  When \<open>sendmmsg\<close> sends nothing
  without an error, the value of \<open>errno\<close> is an old one.\<close>

partial_function (option) write_queue_drain :: "('a udp_loop_scheme) udp_env \<Rightarrow> addr \<Rightarrow> 'a udp_loop_scheme \<Rightarrow>
    'a udp_loop_scheme option" where
  "write_queue_drain E h l =
     Option.bind (messages (take 20 (u_queue (udp l h))) l) (\<lambda>msgs.
     Option.bind (eintr (\<lambda>k. sys_sendmmsg E k (stream_fd h l) msgs) (sys l)) (\<lambda>(r, k).
     (let l = l\<lparr>sys := k\<rparr>;
          npkts = (case r of Inl _ \<Rightarrow> 0 | Inr n \<Rightarrow> n);
          err = (case r of Inl e \<Rightarrow> e | Inr _ \<Rightarrow> stale_errno E k)
      in if npkts < 1 then
           Some (if err = UV_EAGAIN \<or> err = UV_ENOBUFS then l
                 else uv__io_feed h (udp_complete h (length msgs) (Some err) l))
         else
           let l = udp_complete h npkts None l
           in if u_queue (udp l h) \<noteq> [] then write_queue_drain E h l else Some (uv__io_feed h l))))"

declare write_queue_drain.simps [code]

definition uv__udp_sendmsg :: "('a udp_loop_scheme) udp_env \<Rightarrow> addr \<Rightarrow> 'a udp_loop_scheme \<Rightarrow> 'a udp_loop_scheme option" where
  "uv__udp_sendmsg E h l = (if u_queue (udp l h) = [] then Some l else write_queue_drain E h l)"

section \<open>Receiving\<close>

definition call_recv :: "('a udp_loop_scheme) udp_env \<Rightarrow> addr \<Rightarrow> u8 list result \<Rightarrow> bool \<Rightarrow> u32 \<Rightarrow> 'a udp_loop_scheme \<Rightarrow>
    'a udp_loop_scheme option" where
  "call_recv E h data peer flags l = Option.bind (u_recv_cb (udp l h)) (\<lambda>cb. on_recv E cb h data peer flags l)"

definition recv_error :: "uv_errno \<Rightarrow> u8 list result" where
  "recv_error e = (if e = UV_EAGAIN then Inr [] else Inl e)"

fun chunk_loop :: "('a udp_loop_scheme) udp_env \<Rightarrow> addr \<Rightarrow> (u8 list \<times> bool) list \<Rightarrow> 'a udp_loop_scheme \<Rightarrow> 'a udp_loop_scheme option" where
  "chunk_loop E h [] l = Some l"
| "chunk_loop E h ((data, trunc) # msgs) l =
     (if u_recv_cb (udp l h) = None then Some l
      else Option.bind (call_recv E h (Inr data) True (if trunc then or UV_UDP_MMSG_CHUNK UV_UDP_PARTIAL else UV_UDP_MMSG_CHUNK) l)
             (chunk_loop E h msgs))"

definition uv__udp_recvmmsg :: "('a udp_loop_scheme) udp_env \<Rightarrow> addr \<Rightarrow> nat \<Rightarrow> 'a udp_loop_scheme \<Rightarrow>
    (int \<times> 'a udp_loop_scheme) option" where
  "uv__udp_recvmmsg E h len l = do {
     let chunks = min (len div UV__UDP_DGRAM_MAXSIZE) 20;
     (r, k) \<leftarrow> eintr (\<lambda>k. sys_recvmmsg E k (stream_fd h l) chunks) (sys l);
     let l = l\<lparr>sys := k\<rparr>;
     case r of
       Inl e \<Rightarrow> map_option (Pair (- 1)) (call_recv E h (recv_error e) False 0 l)
     | Inr [] \<Rightarrow> map_option (Pair 0) (call_recv E h (Inr []) False 0 l)
     | Inr msgs \<Rightarrow> do {
         l \<leftarrow> chunk_loop E h msgs l;
         l \<leftarrow> (if u_recv_cb (udp l h) \<noteq> None then call_recv E h (Inr []) False UV_UDP_MMSG_FREE l else Some l);
         Some (int (length msgs), l)
       }
   }"

definition uv_udp_using_recvmmsg :: "addr \<Rightarrow> 'a udp_loop_scheme \<Rightarrow> bool" where
  "uv_udp_using_recvmmsg h l \<longleftrightarrow> flagged h UV_HANDLE_UDP_RECVMMSG l"

text \<open>One message: the number \<open>nread\<close>, which is \<open>-1\<close> for an error.\<close>

definition recv_one :: "('a udp_loop_scheme) udp_env \<Rightarrow> addr \<Rightarrow> nat \<Rightarrow> 'a udp_loop_scheme \<Rightarrow> (int \<times> 'a udp_loop_scheme) option" where
  "recv_one E h len l = do {
     (r, k) \<leftarrow> eintr (\<lambda>k. sys_recvmsg E k (stream_fd h l) len) (sys l);
     let l = l\<lparr>sys := k\<rparr>;
     case r of
       Inl e \<Rightarrow> map_option (Pair (- 1)) (call_recv E h (recv_error e) False 0 l)
     | Inr (data, trunc) \<Rightarrow> map_option (Pair (int (length data))) (call_recv E h (Inr data) True (if trunc then UV_UDP_PARTIAL else 0) l)
   }"

partial_function (option) recvmsg_loop :: "('a udp_loop_scheme) udp_env \<Rightarrow> addr \<Rightarrow> int \<Rightarrow> 'a udp_loop_scheme \<Rightarrow>
    'a udp_loop_scheme option" where
  "recvmsg_loop E h budget l =
     Option.bind (u_alloc_cb (udp l h)) (\<lambda>acb.
     Option.bind (on_buffer E acb h UV__UDP_DGRAM_MAXSIZE l) (\<lambda>(len, l).
       if len = 0 then call_recv E h (Inl UV_ENOBUFS) False 0 l
       else
         (let mmsg = uv_udp_using_recvmmsg h l
          in Option.bind (if mmsg then uv__udp_recvmmsg E h len l else recv_one E h len l) (\<lambda>(nread, l).
               let budget = (if \<not> mmsg then budget - 1 else if nread > 0 then budget - nread else budget)
               in if nread \<noteq> - 1 \<and> budget > 0 \<and> stream_fd h l \<noteq> - 1 \<and> u_recv_cb (udp l h) \<noteq> None
                  then recvmsg_loop E h budget l
                  else Some l))))"

declare recvmsg_loop.simps [code]

definition uv__udp_recvmsg :: "('a udp_loop_scheme) udp_env \<Rightarrow> addr \<Rightarrow> 'a udp_loop_scheme \<Rightarrow> 'a udp_loop_scheme option" where
  "uv__udp_recvmsg E h l =
     (if u_recv_cb (udp l h) = None \<or> u_alloc_cb (udp l h) = None then None else recvmsg_loop E h 32 l)"

definition uv__udp_io :: "('a udp_loop_scheme) udp_env \<Rightarrow> addr \<Rightarrow> u32 \<Rightarrow> 'a udp_loop_scheme \<Rightarrow> 'a udp_loop_scheme option" where
  "uv__udp_io E h revents l =
     (if h_type l h \<noteq> UV_UDP then None
      else do {
        l \<leftarrow> (if and revents POLLIN \<noteq> 0 then uv__udp_recvmsg E h l else Some l);
        if and revents POLLOUT \<noteq> 0 then do {
          l \<leftarrow> uv__udp_sendmsg E h l;
          uv__udp_run_completed E h l
        } else Some l
      })"

section \<open>Closing\<close>

definition uv__udp_close :: "addr \<Rightarrow> 'a udp_loop_scheme \<Rightarrow> 'a udp_loop_scheme option" where
  "uv__udp_close h l = do {
     l \<leftarrow> uv__io_close h l;
     let l = uv__handle_stop h l;
     Some (if stream_fd h l \<noteq> - 1 then set_io h ((io l h)\<lparr>io_fd := - 1\<rparr>) (uv__close_fd (stream_fd h l) l) else l)
   }"

definition uv__udp_finish_close :: "('a udp_loop_scheme) udp_env \<Rightarrow> addr \<Rightarrow> 'a udp_loop_scheme \<Rightarrow> 'a udp_loop_scheme option" where
  "uv__udp_finish_close E h l = do {
     polling \<leftarrow> uv__io_active h (or POLLIN POLLOUT) l;
     if polling \<or> stream_fd h l \<noteq> - 1 then None
     else do {
       l \<leftarrow> uv__udp_run_completed E h (udp_complete h (length (u_queue (udp l h))) (Some UV_ECANCELED) l);
       if u_send_size (udp l h) \<noteq> 0 \<or> u_send_count (udp l h) \<noteq> 0 then None
       else Some (set_udp h (\<lambda>u. u\<lparr>u_recv_cb := None, u_alloc_cb := None\<rparr>) l)
     }
   }"

text \<open>The type's own part of \<open>uv_close\<close> and of \<open>uv__finish_close\<close>.\<close>

definition close_udp :: "uv_handle_type \<Rightarrow> addr \<Rightarrow> 'a udp_loop_scheme \<Rightarrow> 'a udp_loop_scheme option" where
  "close_udp t h l = (if t = UV_UDP then uv__udp_close h l else None)"

definition finish_udp :: "('a udp_loop_scheme) udp_env \<Rightarrow> uv_handle_type \<Rightarrow> addr \<Rightarrow> 'a udp_loop_scheme \<Rightarrow> 'a udp_loop_scheme option" where
  "finish_udp E t h l = (if t = UV_UDP then uv__udp_finish_close E h l else None)"

section \<open>The calls of a client\<close>

definition uv__set_reuse :: "tcp_sys \<Rightarrow> int \<Rightarrow> 'a stream_loop_scheme \<Rightarrow> ret \<times> 'a stream_loop_scheme" where
  "uv__set_reuse T fd l = call (\<lambda>k. sys_setsockopt T k fd) l"

definition uv__set_recverr :: "tcp_sys \<Rightarrow> int \<Rightarrow> domain \<Rightarrow> 'a stream_loop_scheme \<Rightarrow> ret \<times> 'a stream_loop_scheme" where
  "uv__set_recverr T fd d l =
     (if d \<in> {AF_INET4, AF_INET6} then call (\<lambda>k. sys_setsockopt T k fd) l else (OK, l))"

definition bind_options :: "tcp_sys \<Rightarrow> int \<Rightarrow> domain \<Rightarrow> u32 \<Rightarrow> 'a stream_loop_scheme \<Rightarrow> ret \<times> 'a stream_loop_scheme" where
  "bind_options T fd d flags l =
     (let (err, l) = (if has_flag flags UV_UDP_LINUX_RECVERR then uv__set_recverr T fd d l else (OK, l))
      in if err \<noteq> OK then (err, l)
         else let (err, l) = (if has_flag flags UV_UDP_REUSEADDR then uv__set_reuse T fd l else (OK, l))
              in if err \<noteq> OK then (err, l)
                 else if has_flag flags UV_UDP_IPV6ONLY then call (\<lambda>k. sys_setsockopt T k fd) l else (OK, l))"

definition bind_fd :: "tcp_sys \<Rightarrow> addr \<Rightarrow> domain \<Rightarrow> u32 \<Rightarrow> 'a stream_loop_scheme \<Rightarrow> ret \<times> 'a stream_loop_scheme" where
  "bind_fd T h d flags l =
     (let fd = stream_fd h l;
          (err, l) = bind_options T fd d flags l
      in if err \<noteq> OK then (err, l)
         else let (err, l) = call (\<lambda>k. sys_bind T k fd) l
              in if err \<noteq> OK then (if err = Inl UV_EAFNOSUPPORT then Inl UV_EINVAL else err, l)
                 else (OK, flag_on h UV_HANDLE_BOUND (if d = AF_INET6 then flag_on h UV_HANDLE_IPV6 l else l)))"

definition uv__udp_bind :: "tcp_sys \<Rightarrow> addr \<Rightarrow> domain \<Rightarrow> u32 \<Rightarrow> 'a stream_loop_scheme \<Rightarrow> ret \<times> 'a stream_loop_scheme" where
  "uv__udp_bind T h d flags l =
     (if and flags (not (or (or UV_UDP_IPV6ONLY UV_UDP_REUSEADDR) UV_UDP_LINUX_RECVERR)) \<noteq> 0 then (Inl UV_EINVAL, l)
      else if has_flag flags UV_UDP_IPV6ONLY \<and> d \<noteq> AF_INET6 then (Inl UV_EINVAL, l)
      else if stream_fd h l = - 1 then
        (case uv__socket T d l of
           (Inl e, l) \<Rightarrow> (Inl e, l)
         | (Inr fd, l) \<Rightarrow> bind_fd T h d flags (set_io h ((io l h)\<lparr>io_fd := fd\<rparr>) l))
      else bind_fd T h d flags l)"

definition uv__udp_maybe_deferred_bind :: "tcp_sys \<Rightarrow> addr \<Rightarrow> domain \<Rightarrow> u32 \<Rightarrow> 'a stream_loop_scheme \<Rightarrow>
    (ret \<times> 'a stream_loop_scheme) option" where
  "uv__udp_maybe_deferred_bind T h d flags l =
     (if stream_fd h l \<noteq> - 1 then Some (OK, l)
      else if d \<in> {AF_INET4, AF_INET6} then Some (uv__udp_bind T h d flags l)
      else None)"

definition uv_udp_bind :: "tcp_sys \<Rightarrow> addr \<Rightarrow> domain \<Rightarrow> u32 \<Rightarrow> 'a stream_loop_scheme \<Rightarrow> ret \<times> 'a stream_loop_scheme" where
  "uv_udp_bind T h d flags l =
     (if h_type l h \<noteq> UV_UDP \<or> d \<notin> {AF_INET4, AF_INET6} then (Inl UV_EINVAL, l) else uv__udp_bind T h d flags l)"

text \<open>Interrupted calls of \<open>connect\<close> are made again.\<close>

definition uv__udp_connect :: "tcp_sys \<Rightarrow> addr \<Rightarrow> domain \<Rightarrow> 'a stream_loop_scheme \<Rightarrow> (ret \<times> 'a stream_loop_scheme) option" where
  "uv__udp_connect T h d l = do {
     (err, l) \<leftarrow> uv__udp_maybe_deferred_bind T h d 0 l;
     if err \<noteq> OK then Some (err, l)
     else do {
       (err, k) \<leftarrow> eintr (\<lambda>k. sys_connect T k (stream_fd h l)) (sys l);
       let l = l\<lparr>sys := k\<rparr>;
       Some (if err \<noteq> OK then (err, l) else (OK, flag_on h UV_HANDLE_UDP_CONNECTED l))
     }
   }"

definition uv__udp_disconnect :: "tcp_sys \<Rightarrow> addr \<Rightarrow> 'a stream_loop_scheme \<Rightarrow> (ret \<times> 'a stream_loop_scheme) option" where
  "uv__udp_disconnect T h l = do {
     (err, k) \<leftarrow> eintr (\<lambda>k. sys_connect T k (stream_fd h l)) (sys l);
     let l = l\<lparr>sys := k\<rparr>;
     Some (if err \<noteq> OK then (err, l) else (OK, flag_off h UV_HANDLE_UDP_CONNECTED l))
   }"

text \<open>\<open>None\<close> stands for a null address.\<close>

definition uv_udp_connect :: "tcp_sys \<Rightarrow> addr \<Rightarrow> domain option \<Rightarrow> 'a stream_loop_scheme \<Rightarrow> (ret \<times> 'a stream_loop_scheme) option" where
  "uv_udp_connect T h addr l =
     (if h_type l h \<noteq> UV_UDP then Some (Inl UV_EINVAL, l)
      else case addr of
        None \<Rightarrow> if \<not> flagged h UV_HANDLE_UDP_CONNECTED l then Some (Inl UV_ENOTCONN, l) else uv__udp_disconnect T h l
      | Some d \<Rightarrow>
          if d \<notin> {AF_INET4, AF_INET6} then Some (Inl UV_EINVAL, l)
          else if flagged h UV_HANDLE_UDP_CONNECTED l then Some (Inl UV_EISCONN, l)
          else uv__udp_connect T h d l)"

definition uv__udp_check_before_send :: "addr \<Rightarrow> domain option \<Rightarrow> 'a stream_loop_scheme \<Rightarrow> ret" where
  "uv__udp_check_before_send h addr l =
     (if h_type l h \<noteq> UV_UDP then Inl UV_EINVAL
      else if addr \<noteq> None \<and> flagged h UV_HANDLE_UDP_CONNECTED l then Inl UV_EISCONN
      else if addr = None \<and> \<not> flagged h UV_HANDLE_UDP_CONNECTED l then Inl UV_EDESTADDRREQ
      else if addr = Some AF_UNSPEC then Inl UV_EINVAL
      else OK)"

definition bind_for :: "tcp_sys \<Rightarrow> addr \<Rightarrow> domain option \<Rightarrow> 'a stream_loop_scheme \<Rightarrow> (ret \<times> 'a stream_loop_scheme) option" where
  "bind_for T h addr l = (case addr of None \<Rightarrow> Some (OK, l) | Some d \<Rightarrow> uv__udp_maybe_deferred_bind T h d 0 l)"

text \<open>The part of \<open>uv__udp_send\<close> that queues the request.\<close>

definition udp_queue :: "addr \<Rightarrow> addr \<Rightarrow> u8 list list \<Rightarrow> domain option \<Rightarrow> nat option \<Rightarrow> 'a udp_loop_scheme \<Rightarrow> 'a udp_loop_scheme" where
  "udp_queue r h bufs addr cb l =
     (let l = set_send r (\<lambda>s. s\<lparr>s_handle := h, s_cb := cb, s_addr := (case addr of None \<Rightarrow> AF_UNSPEC | Some d \<Rightarrow> d), s_bufs := Some bufs\<rparr>) l;
          l = set_udp h (\<lambda>u. u\<lparr>u_send_size := u_send_size u + uv__count_bufs bufs, u_send_count := u_send_count u + 1,
                 u_queue := u_queue u @ [r], u_submitted := u_submitted u @ [r]\<rparr>) l
      in uv__handle_start h l)"

definition uv__udp_send :: "('a udp_loop_scheme) udp_env \<Rightarrow> tcp_sys \<Rightarrow> addr \<Rightarrow> addr \<Rightarrow> u8 list list \<Rightarrow> domain option \<Rightarrow> nat option \<Rightarrow>
    'a udp_loop_scheme \<Rightarrow> (ret \<times> 'a udp_loop_scheme) option" where
  "uv__udp_send E T r h bufs addr cb l =
     (if bufs = [] then None
      else do {
        (err, l) \<leftarrow> bind_for T h addr l;
        if err \<noteq> OK then Some (err, l)
        else do {
          let empty_queue = (u_send_count (udp l h) = 0);
          let l = uv__req_register l;
          if length bufs > 4 \<and> \<not> mem_ok l (length bufs * 16) then do {
            l \<leftarrow> uv__req_unregister l;
            Some (Inl UV_ENOMEM, l)
          }
          else do {
            let l = udp_queue r h bufs addr cb l;
            l \<leftarrow> (if empty_queue \<and> \<not> flagged h UV_HANDLE_UDP_PROCESSING l then do {
                    l \<leftarrow> uv__udp_sendmsg E h l;
                    if u_queue (udp l h) \<noteq> [] then uv__io_start h POLLOUT l else Some l
                  }
                  else uv__io_start h POLLOUT l);
            Some (OK, l)
          }
        }
      })"

definition uv_udp_send :: "('a udp_loop_scheme) udp_env \<Rightarrow> tcp_sys \<Rightarrow> addr \<Rightarrow> addr \<Rightarrow> u8 list list \<Rightarrow> domain option \<Rightarrow> nat option \<Rightarrow>
    'a udp_loop_scheme \<Rightarrow> (ret \<times> 'a udp_loop_scheme) option" where
  "uv_udp_send E T r h bufs addr cb l =
     (let err = uv__udp_check_before_send h addr l
      in if err \<noteq> OK then Some (err, l) else uv__udp_send E T r h bufs addr cb l)"

definition uv__udp_try_send :: "('a udp_loop_scheme) udp_env \<Rightarrow> tcp_sys \<Rightarrow> addr \<Rightarrow> u8 list list \<Rightarrow> domain option \<Rightarrow>
    'a udp_loop_scheme \<Rightarrow> (nat result \<times> 'a udp_loop_scheme) option" where
  "uv__udp_try_send E T h bufs addr l =
     (if bufs = [] then None
      else if u_send_count (udp l h) \<noteq> 0 then Some (Inl UV_EAGAIN, l)
      else if addr = None \<and> \<not> flagged h UV_HANDLE_UDP_CONNECTED l then None
      else do {
        (err, l) \<leftarrow> bind_for T h addr l;
        case err of
          Inl e \<Rightarrow> Some (Inl e, l)
        | Inr _ \<Rightarrow> do {
            (r, k) \<leftarrow> eintr (\<lambda>k. sys_sendmsg E k (stream_fd h l) (case addr of None \<Rightarrow> AF_UNSPEC | Some d \<Rightarrow> d, bufs)) (sys l);
            Some (if r = Inl UV_ENOBUFS then Inl UV_EAGAIN else r, l\<lparr>sys := k\<rparr>)
          }
      })"

definition uv_udp_try_send :: "('a udp_loop_scheme) udp_env \<Rightarrow> tcp_sys \<Rightarrow> addr \<Rightarrow> u8 list list \<Rightarrow> domain option \<Rightarrow>
    'a udp_loop_scheme \<Rightarrow> (nat result \<times> 'a udp_loop_scheme) option" where
  "uv_udp_try_send E T h bufs addr l =
     (case uv__udp_check_before_send h addr l of Inl e \<Rightarrow> Some (Inl e, l) | Inr _ \<Rightarrow> uv__udp_try_send E T h bufs addr l)"

definition fresh_udp :: uv_udp where
  "fresh_udp = \<lparr>u_alloc_cb = None, u_recv_cb = None, u_send_size = 0, u_send_count = 0, u_queue = [], u_completed = [],
     u_submitted = [], u_sent = [], u_called = []\<rparr>"

definition uv__udp_init_ex :: "tcp_sys \<Rightarrow> addr \<Rightarrow> domain \<Rightarrow> 'a udp_loop_scheme \<Rightarrow> (ret \<times> 'a udp_loop_scheme) option" where
  "uv__udp_init_ex T h d l =
     (let (r, l) = (if d \<noteq> AF_UNSPEC then uv__socket T d l else (Inr (- 1), l))
      in case r of
           Inl e \<Rightarrow> Some (Inl e, l)
         | Inr fd \<Rightarrow> map_option (Pair OK) (uv__io_init h UDP_IO fd (set_udp h (\<lambda>_. fresh_udp) (uv__handle_init h UV_UDP l))))"

definition uv_udp_init_ex :: "tcp_sys \<Rightarrow> addr \<Rightarrow> u32 \<Rightarrow> 'a udp_loop_scheme \<Rightarrow> (ret \<times> 'a udp_loop_scheme) option" where
  "uv_udp_init_ex T h flags l =
     (case domain_of (and flags 0xFF) of
        None \<Rightarrow> Some (Inl UV_EINVAL, l)
      | Some d \<Rightarrow>
          let extra_flags = and flags (not 0xFF)
          in if and extra_flags (not UV_UDP_RECVMMSG) \<noteq> 0 then Some (Inl UV_EINVAL, l)
             else do {
               (err, l) \<leftarrow> uv__udp_init_ex T h d l;
               Some (err, if err = OK \<and> has_flag extra_flags UV_UDP_RECVMMSG then flag_on h UV_HANDLE_UDP_RECVMMSG l else l)
             })"

definition uv_udp_init :: "tcp_sys \<Rightarrow> addr \<Rightarrow> 'a udp_loop_scheme \<Rightarrow> (ret \<times> 'a udp_loop_scheme) option" where
  "uv_udp_init T h l = uv_udp_init_ex T h 0 l"

text \<open>The descriptor of a handle; it is refused while the handle is being closed.\<close>

definition uv_fileno :: "addr \<Rightarrow> 'a stream_loop_scheme \<Rightarrow> int result" where
  "uv_fileno h l =
     (if h_type l h \<in> {UV_TCP, UV_NAMED_PIPE, UV_TTY, UV_UDP, UV_POLL} then
        let fd_out = stream_fd h l in if uv__is_closing h l \<or> fd_out = - 1 then Inl UV_EBADF else Inr fd_out
      else Inl UV_EINVAL)"

text \<open>The kernel writes the name and answers with its length.\<close>

definition uv__getsockpeername :: "addr \<Rightarrow> (nat \<Rightarrow> int \<Rightarrow> nat result) \<Rightarrow> 'a stream_loop_scheme \<Rightarrow> nat result \<times> 'a stream_loop_scheme" where
  "uv__getsockpeername h func l =
     (case uv_fileno h l of
        Inl e \<Rightarrow> (Inl e, l)
      | Inr fd \<Rightarrow> call (\<lambda>k. func k fd) l)"

definition uv_udp_getpeername :: "('a udp_loop_scheme) udp_env \<Rightarrow> addr \<Rightarrow> 'a udp_loop_scheme \<Rightarrow> nat result \<times> 'a udp_loop_scheme" where
  "uv_udp_getpeername E h l = uv__getsockpeername h (sys_getpeername E) l"

definition uv__udp_is_connected :: "('a udp_loop_scheme) udp_env \<Rightarrow> addr \<Rightarrow> 'a udp_loop_scheme \<Rightarrow> bool \<times> 'a udp_loop_scheme" where
  "uv__udp_is_connected E h l =
     (if h_type l h \<noteq> UV_UDP then (False, l)
      else case uv_udp_getpeername E h l of
             (Inl _, l) \<Rightarrow> (False, l)
           | (Inr len, l) \<Rightarrow> (len > 0, l))"

definition uv_udp_open :: "('a udp_loop_scheme) udp_env \<Rightarrow> tcp_sys \<Rightarrow> addr \<Rightarrow> int \<Rightarrow> 'a udp_loop_scheme \<Rightarrow> ret \<times> 'a udp_loop_scheme" where
  "uv_udp_open E T h sock l =
     (if stream_fd h l \<noteq> - 1 then (Inl UV_EBUSY, l)
      else if uv__fd_exists sock l then (Inl UV_EEXIST, l)
      else let (err, l) = call (\<lambda>k. sys_ioctl T k sock) l
           in if err \<noteq> OK then (err, l)
              else let (err, l) = uv__set_reuse T sock l
                   in if err \<noteq> OK then (err, l)
                      else let (connected, l) = uv__udp_is_connected E h (set_io h ((io l h)\<lparr>io_fd := sock\<rparr>) l)
                           in (OK, if connected then flag_on h UV_HANDLE_UDP_CONNECTED l else l))"

definition uv__udp_recv_start :: "tcp_sys \<Rightarrow> addr \<Rightarrow> nat option \<Rightarrow> nat option \<Rightarrow> 'a udp_loop_scheme \<Rightarrow>
    (ret \<times> 'a udp_loop_scheme) option" where
  "uv__udp_recv_start T h acb rcb l =
     (if acb = None \<or> rcb = None then Some (Inl UV_EINVAL, l)
      else do {
        reading \<leftarrow> uv__io_active h POLLIN l;
        if reading then Some (Inl UV_EALREADY, l)
        else do {
          (err, l) \<leftarrow> uv__udp_maybe_deferred_bind T h AF_INET4 0 l;
          if err \<noteq> OK then Some (err, l)
          else do {
            l \<leftarrow> uv__io_start h POLLIN (set_udp h (\<lambda>u. u\<lparr>u_alloc_cb := acb, u_recv_cb := rcb\<rparr>) l);
            Some (OK, uv__handle_start h l)
          }
        }
      })"

definition uv_udp_recv_start :: "tcp_sys \<Rightarrow> addr \<Rightarrow> nat option \<Rightarrow> nat option \<Rightarrow> 'a udp_loop_scheme \<Rightarrow>
    (ret \<times> 'a udp_loop_scheme) option" where
  "uv_udp_recv_start T h acb rcb l =
     (if h_type l h \<noteq> UV_UDP \<or> acb = None \<or> rcb = None then Some (Inl UV_EINVAL, l)
      else uv__udp_recv_start T h acb rcb l)"

definition uv__udp_recv_stop :: "addr \<Rightarrow> 'a udp_loop_scheme \<Rightarrow> 'a udp_loop_scheme option" where
  "uv__udp_recv_stop h l = do {
     l \<leftarrow> uv__io_stop h POLLIN l;
     writing \<leftarrow> uv__io_active h POLLOUT l;
     let l = (if \<not> writing then uv__handle_stop h l else l);
     Some (set_udp h (\<lambda>u. u\<lparr>u_alloc_cb := None, u_recv_cb := None\<rparr>) l)
   }"

definition uv_udp_recv_stop :: "addr \<Rightarrow> 'a udp_loop_scheme \<Rightarrow> (ret \<times> 'a udp_loop_scheme) option" where
  "uv_udp_recv_stop h l =
     (if h_type l h \<noteq> UV_UDP then Some (Inl UV_EINVAL, l) else map_option (Pair OK) (uv__udp_recv_stop h l))"

end
