(* ===== verification/UV_Udp_Inv.thy ===== *)
theory UV_Udp_Inv
  imports UV_Udp
begin

text \<open>
  What holds of the UDP handles of a loop at all times, whatever the client and the kernel do, and that
  the operations of \<open>UV_Udp\<close> keep it.
\<close>

section \<open>The invariant\<close>

definition udps :: "'a udp_loop_scheme \<Rightarrow> addr set" where
  "udps l = {h \<in> set (handle_queue l). h_type l h = UV_UDP}"

text \<open>The requests of a handle in the order they were accepted.\<close>

definition uout :: "'a udp_loop_scheme \<Rightarrow> addr \<Rightarrow> addr list" where
  "uout l h = u_completed (udp l h) @ u_queue (udp l h)"

definition dgram_size :: "'a udp_loop_scheme \<Rightarrow> addr \<Rightarrow> nat" where
  "dgram_size l r = (case s_bufs (send_req l r) of None \<Rightarrow> 0 | Some bufs \<Rightarrow> length (concat bufs))"

definition pend :: "'a io_loop_scheme \<Rightarrow> addr set" where
  "pend l = set (pending_queue l) \<union> set (pending_local l)"

definition polls :: "u32 \<Rightarrow> addr \<Rightarrow> 'a io_loop_scheme \<Rightarrow> bool" where
  "polls e h l \<longleftrightarrow> and (io_pevents (io l h)) e \<noteq> 0"

definition usends_ok :: "'a udp_loop_scheme \<Rightarrow> addr \<Rightarrow> bool" where
  "usends_ok l h \<longleftrightarrow> distinct (uout l h) \<and> (\<forall>r\<in>set (uout l h). s_handle (send_req l r) = h \<and> s_bufs (send_req l r) \<noteq> None) \<and>
     u_send_size (udp l h) = of_nat (sum_list (map (dgram_size l) (uout l h))) \<and>
     u_send_count (udp l h) = of_nat (length (uout l h))"

text \<open>Requests are reported in the order they were accepted, and reported as sent exactly if the kernel took
  them.\<close>

definition ulog_ok :: "'a udp_loop_scheme \<Rightarrow> addr \<Rightarrow> bool" where
  "ulog_ok l h \<longleftrightarrow> u_submitted (udp l h) = map fst (u_called (udp l h)) @ uout l h \<and>
     u_sent (udp l h) = map fst (filter (\<lambda>c. \<not> isl (snd c))
       (u_called (udp l h) @ map (\<lambda>r. (r, s_status (send_req l r))) (u_completed (udp l h))))"

definition umode_ok :: "'a udp_loop_scheme \<Rightarrow> addr \<Rightarrow> bool" where
  "umode_ok l h \<longleftrightarrow> (closing l h \<longrightarrow> stream_fd h l = - 1) \<and> (0 \<le> stream_fd h l \<longrightarrow> stream_fd h l + 3 \<le> 2 ^ 31) \<and>
     (polls POLLIN h l \<longrightarrow> u_recv_cb (udp l h) \<noteq> None) \<and> (u_recv_cb (udp l h) \<noteq> None \<longrightarrow> u_alloc_cb (udp l h) \<noteq> None) \<and>
     (flagged h UV_HANDLE_UDP_CONNECTED l \<longrightarrow> closing l h \<or> 0 \<le> stream_fd h l)"

definition one_udp :: "'a udp_loop_scheme \<Rightarrow> addr \<Rightarrow> bool" where
  "one_udp l h \<longleftrightarrow> usends_ok l h \<and> ulog_ok l h \<and> umode_ok l h"

text \<open>No request is forgotten: the watcher waits to write, or is in the queue of pending ones.\<close>

definition processing :: "addr \<Rightarrow> 'a uv_loop_scheme \<Rightarrow> bool" where
  "processing h l \<longleftrightarrow> flagged h UV_HANDLE_UDP_PROCESSING l"

definition not_stuck :: "'a udp_loop_scheme \<Rightarrow> addr \<Rightarrow> bool" where
  "not_stuck l h \<longleftrightarrow> closing l h \<or> (u_queue (udp l h) \<noteq> [] \<longrightarrow> polls POLLOUT h l) \<and>
     (u_completed (udp l h) \<noteq> [] \<longrightarrow> processing h l \<or> h \<in> pend l)"

definition ufds_ok :: "'a udp_loop_scheme \<Rightarrow> bool" where
  "ufds_ok l \<longleftrightarrow> (\<forall>h\<in>udps l. \<forall>w. 0 \<le> stream_fd h l \<longrightarrow> stream_fd w l = stream_fd h l \<longrightarrow>
     w \<in> udps l \<or> io_pevents (io l w) \<noteq> 0 \<longrightarrow> w = h)"

definition sending :: "'a udp_loop_scheme \<Rightarrow> nat" where
  "sending l = (\<Sum>h\<in>udps l. length (uout l h))"

text \<open>\<open>k\<close> is the number of other requests; the handles of \<open>B\<close> are in the middle of an operation.\<close>

definition udp_inv :: "nat \<Rightarrow> addr set \<Rightarrow> 'a udp_loop_scheme \<Rightarrow> bool" where
  "udp_inv k B l \<longleftrightarrow> io_inv l \<and> handles_ok l \<and> to_close [] l \<and> (\<forall>h\<in>udps l. one_udp l h) \<and>
     (\<forall>h\<in>udps l. h \<notin> B \<longrightarrow> not_stuck l h) \<and> ufds_ok l \<and> unat (active_reqs l) = sending l + k"

lemma udp_invD:
  assumes "udp_inv k B l"
  shows "io_inv l" "handles_ok l" "to_close [] l" "\<And>h. h \<in> udps l \<Longrightarrow> one_udp l h"
    "\<And>h. h \<in> udps l \<Longrightarrow> h \<notin> B \<Longrightarrow> not_stuck l h" "ufds_ok l" "unat (active_reqs l) = sending l + k"
  using assms by (simp_all add: udp_inv_def)

lemma one_udpD:
  assumes "one_udp l h"
  shows "usends_ok l h" "ulog_ok l h" "umode_ok l h"
  using assms by (simp_all add: one_udp_def)

lemma finite_udps [simp]: "finite (udps l)"
  by (simp add: udps_def)

section \<open>Steps on one handle\<close>

definition usame :: "'a udp_loop_scheme \<Rightarrow> 'a udp_loop_scheme \<Rightarrow> addr \<Rightarrow> bool" where
  "usame l l' h \<longleftrightarrow> udp l' h = udp l h \<and> (\<forall>r\<in>set (uout l h). send_req l' r = send_req l r) \<and> h_flags l' h = h_flags l h \<and>
     io_fd (io l' h) = io_fd (io l h) \<and> io_pevents (io l' h) = io_pevents (io l h) \<and> (h \<in> pend l \<longrightarrow> h \<in> pend l')"

lemma usame_refl [simp]: "usame l l h" by (simp add: usame_def)

lemma usame_parts:
  assumes "usame l l' h"
  shows "uout l' h = uout l h" "one_udp l' h = one_udp l h" "not_stuck l h \<Longrightarrow> not_stuck l' h"
proof -
  have u: "udp l' h = udp l h" "h_flags l' h = h_flags l h" "stream_fd h l' = stream_fd h l" "polls e h l' = polls e h l"
    "closing l' h = closing l h" "flagged h m l' = flagged h m l" for e m
    using assms by (simp_all add: usame_def stream_fd_def polls_def closing_def flagged_def)
  have r: "r \<in> set (uout l h) \<Longrightarrow> send_req l' r = send_req l r" "r \<in> set (u_completed (udp l h)) \<Longrightarrow> send_req l' r = send_req l r" for r
    using assms by (auto simp: usame_def uout_def)
  show o: "uout l' h = uout l h" by (simp add: uout_def u)
  have m: "map (dgram_size l') (uout l h) = map (dgram_size l) (uout l h)" using r(1) by (simp add: dgram_size_def)
  have "usends_ok l' h = usends_ok l h" unfolding usends_ok_def o u(1) m using r(1) by auto
  moreover have s: "map (\<lambda>r. (r, s_status (send_req l' r))) (u_completed (udp l h)) =
      map (\<lambda>r. (r, s_status (send_req l r))) (u_completed (udp l h))" using r(2) by simp
  have "ulog_ok l' h = ulog_ok l h" unfolding ulog_ok_def o u(1) s by (rule refl)
  moreover have "umode_ok l' h = umode_ok l h" by (simp add: umode_ok_def u)
  ultimately show "one_udp l' h = one_udp l h" by (simp add: one_udp_def)
  show "not_stuck l' h" if "not_stuck l h"
    using that assms by (auto simp: not_stuck_def u processing_def usame_def)
qed

text \<open>No callback is in the middle of reporting a new handle's requests.\<close>

definition idle_new :: "'a udp_loop_scheme \<Rightarrow> 'a udp_loop_scheme \<Rightarrow> bool" where
  "idle_new l l' \<longleftrightarrow> (\<forall>h\<in>udps l'. processing h l' \<longrightarrow> h \<in> udps l)"

lemma idle_new_same [simp]: "handle_queue l' = handle_queue l \<Longrightarrow> h_type l' = h_type l \<Longrightarrow> idle_new l l'"
  by (simp add: idle_new_def udps_def)

definition udp_later :: "'a udp_loop_scheme \<Rightarrow> 'a udp_loop_scheme \<Rightarrow> bool" where
  "udp_later l l' \<longleftrightarrow> loop_later l l' \<and> idle_new l l' \<and> (\<forall>h\<in>udps l. processing h l' = processing h l \<and>
     (processing h l \<or> closing l h \<longrightarrow> u_completed (udp l' h) = u_completed (udp l h)) \<and>
     (closing l h \<longrightarrow> u_queue (udp l' h) = u_queue (udp l h)))"

lemma udps_later: "loop_later l l' \<Longrightarrow> udps l \<subseteq> udps l'"
  by (auto simp: loop_later_def udps_def)

lemma loop_later_refl: "loop_later l l"
  by (simp add: loop_later_def io_later_refl)

lemma udp_later_refl: "udp_later l l"
  by (simp add: udp_later_def loop_later_refl)

lemma udp_later_trans:
  assumes "udp_later a b" and "udp_later b c"
  shows "udp_later a c"
proof -
  have "loop_later a c" using assms loop_later_trans by (auto simp: udp_later_def)
  moreover have "h \<in> udps b" "closing a h \<Longrightarrow> closing b h" if "h \<in> udps a" for h
    using that assms(1) udps_later [of a b] by (auto simp: udp_later_def loop_later_def udps_def)
  moreover have "idle_new a c" using assms by (auto simp: udp_later_def idle_new_def)
  ultimately show ?thesis using assms unfolding udp_later_def by metis
qed

text \<open>A step on handle \<open>h\<close>.\<close>

lemma udp_step:
  assumes inv: "udp_inv k B l" and h: "h \<in> udps l" and base: "io_inv l'" "handles_ok l'" "to_close [] l'"
    and q: "handle_queue l' = handle_queue l" "h_type l' = h_type l"
    and one: "one_udp l' h" and oth: "\<And>g. g \<in> udps l \<Longrightarrow> g \<noteq> h \<Longrightarrow> usame l l' g"
    and stuck: "h \<notin> B' \<Longrightarrow> not_stuck l' h" and B: "B \<subseteq> insert h B'"
    and fd: "stream_fd h l' = stream_fd h l \<or> stream_fd h l' = - 1"
    and fdo: "\<And>w. w \<noteq> h \<Longrightarrow> stream_fd w l' = stream_fd w l" and pe: "\<And>w. w \<noteq> h \<Longrightarrow> io_pevents (io l' w) = io_pevents (io l w)"
    and ct: "unat (active_reqs l') + length (uout l h) = unat (active_reqs l) + length (uout l' h)"
  shows "udp_inv k B' l'"
proof -
  have st: "udps l' = udps l" by (simp add: udps_def q)
  have "one_udp l' g" if "g \<in> udps l'" for g
    using that udp_invD(4) [OF inv] one oth [of g] usame_parts(2) by (cases "g = h") (auto simp: st)
  moreover have "not_stuck l' g" if "g \<in> udps l'" "g \<notin> B'" for g
    using that udp_invD(5) [OF inv, of g] stuck oth [of g] usame_parts(3) B by (cases "g = h") (auto simp: st)
  moreover have "ufds_ok l'" unfolding ufds_ok_def st
  proof (intro ballI allI impI)
    fix a w
    assume a: "a \<in> udps l" "0 \<le> stream_fd a l'" "stream_fd w l' = stream_fd a l'" "w \<in> udps l \<or> io_pevents (io l' w) \<noteq> 0"
    have f: "stream_fd v l' = stream_fd v l" if "stream_fd v l' \<noteq> - 1" for v
      using that fd fdo [of v] by (cases "v = h") auto
    have e: "stream_fd a l = stream_fd a l'" "stream_fd w l = stream_fd w l'" using f [of a] f [of w] a(2,3) by auto
    show "w = a"
      using udp_invD(6) [OF inv] a e pe [of w] h unfolding ufds_ok_def by (cases "w = h") metis+
  qed
  moreover have "unat (active_reqs l') = sending l' + k"
  proof -
    have "(\<Sum>g\<in>udps l - {h}. length (uout l' g)) = (\<Sum>g\<in>udps l - {h}. length (uout l g))"
      using usame_parts(1) [OF oth] by (intro sum.cong) auto
    then have "sending l' + length (uout l h) = sending l + length (uout l' h)"
      using sum.remove [OF finite_udps h, of "\<lambda>g. length (uout l g)"] sum.remove [OF finite_udps h, of "\<lambda>g. length (uout l' g)"]
      by (simp add: sending_def st)
    then show ?thesis using udp_invD(7) [OF inv] ct by linarith
  qed
  ultimately show ?thesis using base by (simp add: udp_inv_def)
qed

definition ustep :: "addr \<Rightarrow> 'a udp_loop_scheme \<Rightarrow> 'a udp_loop_scheme \<Rightarrow> bool" where
  "ustep h l l' \<longleftrightarrow> l' = l\<lparr>active_handles := active_handles l', active_reqs := active_reqs l', h_flags := h_flags l',
       watchers := watchers l', nwatchers := nwatchers l', nfds := nfds l', io := io l', watcher_queue := watcher_queue l',
       pending_queue := pending_queue l', pending_local := pending_local l', kernel := kernel l', inv := inv l',
       sys := sys l', fd_log := fd_log l', udp := (udp l)(h := udp l' h), send_req := send_req l'\<rparr> \<and>
     (\<forall>g. g \<noteq> h \<longrightarrow> h_flags l' g = h_flags l g \<and> io_fd (io l' g) = io_fd (io l g) \<and> io_pevents (io l' g) = io_pevents (io l g) \<and>
       (g \<in> pend l \<longrightarrow> g \<in> pend l')) \<and>
     (\<forall>g\<in>udps l. g \<noteq> h \<longrightarrow> (\<forall>r\<in>set (uout l g). send_req l' r = send_req l r))"

lemma ustep_frame:
  assumes "ustep h l l'"
  shows "handle_queue l' = handle_queue l" "h_type l' = h_type l" "closing_handles l' = closing_handles l" "h_close_cb l' = h_close_cb l"
    "mem_ok l' = mem_ok l" "g \<noteq> h \<Longrightarrow> udp l' g = udp l g"
  by (subst assms [unfolded ustep_def, THEN conjunct1], simp)+

lemma ustep_same:
  assumes "ustep h l l'" and "g \<in> udps l" and "g \<noteq> h"
  shows "usame l l' g"
  using assms(1) assms(2,3) ustep_frame(6) [OF assms(1,3)] by (simp add: usame_def ustep_def)

lemma ustep_refl: "ustep h l l"
  by (simp add: ustep_def)

lemma ustep_trans:
  assumes ab: "ustep h a b" and bc: "ustep h b c"
  shows "ustep h a c"
proof -
  have u: "udps b = udps a" by (simp add: udps_def ustep_frame [OF ab])
  have o: "uout b g = uout a g" if "g \<noteq> h" for g by (simp add: uout_def ustep_frame(6) [OF ab that])
  have ub: "(udp b)(h := x) = (udp a)(h := x)" for x using ustep_frame(6) [OF ab] by (auto simp: fun_eq_iff)
  have "c = a\<lparr>active_handles := active_handles c, active_reqs := active_reqs c, h_flags := h_flags c,
       watchers := watchers c, nwatchers := nwatchers c, nfds := nfds c, io := io c, watcher_queue := watcher_queue c,
       pending_queue := pending_queue c, pending_local := pending_local c, kernel := kernel c, inv := inv c,
       sys := sys c, fd_log := fd_log c, udp := (udp a)(h := udp c h), send_req := send_req c\<rparr>"
    by (subst bc [unfolded ustep_def, THEN conjunct1], subst ub, subst ab [unfolded ustep_def, THEN conjunct1]) simp
  then show ?thesis using ab bc o u unfolding ustep_def by simp
qed

lemma ustep_inv:
  assumes inv: "udp_inv k B l" and h: "h \<in> udps l" and s: "ustep h l l'" and io: "io_inv l'" "io_later l l'" and hk: "handles_ok l'"
    and fl: "closing l' h = closing l h" "closed l' h = closed l h"
    and one: "one_udp l' h" and stuck: "h \<notin> B' \<Longrightarrow> not_stuck l' h" and B: "B \<subseteq> insert h B'"
    and fd: "stream_fd h l' = stream_fd h l \<or> stream_fd h l' = - 1"
    and ct: "unat (active_reqs l') + length (uout l h) = unat (active_reqs l) + length (uout l' h)"
  shows "udp_inv k B' l' \<and> loop_later l l'"
proof -
  note f = ustep_frame [OF s]
  have cl: "closing l' = closing l" "closed l' = closed l"
    using s fl unfolding ustep_def closing_def closed_def fun_eq_iff by metis+
  have "to_close [] l'" using udp_invD(3) [OF inv] by (simp add: to_close_def f cl)
  moreover have "w \<noteq> h \<Longrightarrow> stream_fd w l' = stream_fd w l" "w \<noteq> h \<Longrightarrow> io_pevents (io l' w) = io_pevents (io l w)" for w
    using s by (simp_all add: ustep_def stream_fd_def)
  ultimately have "udp_inv k B' l'"
    by (intro udp_step [OF inv h io(1) hk _ f(1,2) one ustep_same [OF s] stuck B fd _ _ ct])
  moreover have "loop_later l l'" using io(2) by (simp add: loop_later_def f cl)
  ultimately show ?thesis ..
qed

section \<open>Steps that change one field\<close>

lemma sys_views [simp]:
  "udps (l\<lparr>sys := j, fd_log := g\<rparr>) = udps l" "uout (l\<lparr>sys := j, fd_log := g\<rparr>) h = uout l h"
  "one_udp (l\<lparr>sys := j, fd_log := g\<rparr>) h = one_udp l h" "not_stuck (l\<lparr>sys := j, fd_log := g\<rparr>) h = not_stuck l h"
  "processing h (l\<lparr>sys := j, fd_log := g\<rparr>) = processing h l" "pend (l\<lparr>sys := j, fd_log := g\<rparr>) = pend l"
proof -
  let ?l = "l\<lparr>sys := j, fd_log := g\<rparr>"
  have s: "usame l ?l h" by (simp add: usame_def pend_def)
  have "usame ?l l h" by (simp add: usame_def pend_def uout_def)
  then show "not_stuck ?l h = not_stuck l h" using usame_parts(3) s by blast
qed (simp_all add: udps_def uout_def pend_def processing_def flagged_def usame_parts [of l "l\<lparr>sys := j, fd_log := g\<rparr>"] usame_def)

lemma usys [simp]: "udp_inv k B (l\<lparr>sys := j, fd_log := g\<rparr>) = udp_inv k B l"
proof -
  let ?l = "l\<lparr>sys := j, fd_log := g\<rparr>"
  have "io_inv ?l = io_inv l" by (rule io_inv_cong) simp_all
  moreover have "handles_ok ?l = handles_ok l" by (rule handles_ok_cong) simp_all
  moreover have "to_close [] ?l = to_close [] l" by (rule to_close_cong) simp_all
  moreover have "ufds_ok ?l = ufds_ok l" by (simp add: ufds_ok_def stream_fd_def)
  moreover have "sending ?l = sending l" by (simp add: sending_def)
  ultimately show ?thesis by (simp add: udp_inv_def)
qed

lemma usys1 [simp]: "udp_inv k B (l\<lparr>sys := j\<rparr>) = udp_inv k B l" "udps (l\<lparr>sys := j\<rparr>) = udps l"
  "processing h (l\<lparr>sys := j\<rparr>) = processing h l" "pend (l\<lparr>sys := j\<rparr>) = pend l"
  using usys [where k = k and B = B and l = l and j = j and g = "fd_log l"] by (simp_all add: udps_def processing_def flagged_def pend_def)

lemma sys_later: "udp_later l (l\<lparr>sys := j, fd_log := g\<rparr>)"
  by (auto simp: udp_later_def loop_later_def flag_views table_size_def intro!: io_later_same)

lemma sys_later1: "udp_later l (l\<lparr>sys := j\<rparr>)"
  using sys_later [where l = l and j = j and g = "fd_log l"] by simp

lemma polls_bits: "polls POLLIN h l \<longleftrightarrow> bit (io_pevents (io l h)) 0" "polls POLLOUT h l \<longleftrightarrow> bit (io_pevents (io l h)) 2"
  using bit_iff_and_push_bit_not_eq_0 [of "io_pevents (io l h)" 0] bit_iff_and_push_bit_not_eq_0 [of "io_pevents (io l h)" 2]
  by (simp_all add: polls_def POLLIN_def POLLOUT_def)

lemma poll_word_bits: "bit POLLIN n \<longleftrightarrow> n = 0" "bit POLLOUT n \<longleftrightarrow> n = 2"
proof -
  have "bit (push_bit j 1 :: u32) n \<longleftrightarrow> n = j" if "j < 32" for j using that by (auto simp: bit_simps)
  from this [of 0] this [of 2] show "bit POLLIN n \<longleftrightarrow> n = 0" "bit POLLOUT n \<longleftrightarrow> n = 2" by (simp_all add: POLLIN_def POLLOUT_def)
qed

lemma udp_flag_bits:
  "flagged h UV_HANDLE_UDP_PROCESSING l \<longleftrightarrow> bit (h_flags l h) 24" "flagged h UV_HANDLE_UDP_CONNECTED l \<longleftrightarrow> bit (h_flags l h) 25"
  "processing h l \<longleftrightarrow> bit (h_flags l h) 24"
proof -
  have *: "and f (push_bit n 1) \<noteq> 0 \<longleftrightarrow> bit f n" if "n < 32" for f :: u32 and n
    by (simp add: bit_iff_and_push_bit_not_eq_0)
  show "flagged h UV_HANDLE_UDP_PROCESSING l \<longleftrightarrow> bit (h_flags l h) 24" "flagged h UV_HANDLE_UDP_CONNECTED l \<longleftrightarrow> bit (h_flags l h) 25"
    "processing h l \<longleftrightarrow> bit (h_flags l h) 24"
    using * [of 24 "h_flags l h"] * [of 25 "h_flags l h"]
    by (simp_all add: processing_def flagged_def has_flag_def UV_HANDLE_UDP_PROCESSING_def UV_HANDLE_UDP_CONNECTED_def)
qed

lemma udp_word_bits: "bit UV_HANDLE_UDP_PROCESSING n \<longleftrightarrow> n = 24" "bit UV_HANDLE_UDP_CONNECTED n \<longleftrightarrow> n = 25"
  "bit UV_HANDLE_UDP_RECVMMSG n \<longleftrightarrow> n = 26" "bit UV_HANDLE_IPV6 n \<longleftrightarrow> n = 22"
proof -
  have *: "bit (push_bit j 1 :: u32) n \<longleftrightarrow> n = j" if "j < 32" for j using that by (auto simp: bit_simps)
  show "bit UV_HANDLE_UDP_PROCESSING n \<longleftrightarrow> n = 24" "bit UV_HANDLE_UDP_CONNECTED n \<longleftrightarrow> n = 25"
    "bit UV_HANDLE_UDP_RECVMMSG n \<longleftrightarrow> n = 26" "bit UV_HANDLE_IPV6 n \<longleftrightarrow> n = 22"
    using * [of 24] * [of 25] * [of 26] * [of 22]
    by (simp_all add: UV_HANDLE_UDP_PROCESSING_def UV_HANDLE_UDP_CONNECTED_def UV_HANDLE_UDP_RECVMMSG_def UV_HANDLE_IPV6_def)
qed

lemma io_only_udp:
  assumes "io_only l (l' :: 'a udp_loop_scheme)"
  shows "udp l' = udp l" "send_req l' = send_req l" "h_flags l' = h_flags l" "active_reqs l' = active_reqs l"
    "handle_queue l' = handle_queue l" "h_type l' = h_type l" "active_handles l' = active_handles l" "sys l' = sys l"
    "closing_handles l' = closing_handles l" "h_close_cb l' = h_close_cb l" "fd_log l' = fd_log l" "mem_ok l' = mem_ok l"
  by (subst assms [unfolded io_only_def], simp)+

text \<open>A watcher operation.\<close>

lemma uio_step:
  assumes inv: "udp_inv k B l" and h: "h \<in> udps l" and o: "io_only l l'" and io: "io_inv l'" "io_later l l'"
    and fd: "\<And>w. io_fd (io l' w) = io_fd (io l w)" and pe: "\<And>w. w \<noteq> h \<Longrightarrow> io_pevents (io l' w) = io_pevents (io l w)"
    and pd: "\<And>g. g \<noteq> h \<Longrightarrow> g \<in> pend l \<Longrightarrow> g \<in> pend l'"
    and rd: "polls POLLIN h l' \<Longrightarrow> u_recv_cb (udp l h) \<noteq> None"
    and stuck: "h \<notin> B' \<Longrightarrow> not_stuck l' h" and B: "B \<subseteq> insert h B'"
  shows "udp_inv k B' l'" "udp_later l l'" "ustep h l l'"
proof -
  note f = io_only_udp [OF o]
  have eq: "l' = l\<lparr>active_handles := active_handles l', active_reqs := active_reqs l', h_flags := h_flags l',
       watchers := watchers l', nwatchers := nwatchers l', nfds := nfds l', io := io l', watcher_queue := watcher_queue l',
       pending_queue := pending_queue l', pending_local := pending_local l', kernel := kernel l', inv := inv l',
       sys := sys l', fd_log := fd_log l', udp := (udp l)(h := udp l' h), send_req := send_req l'\<rparr>"
    unfolding f fun_upd_triv by (subst o [unfolded io_only_def]) simp
  show s: "ustep h l l'" unfolding ustep_def by (intro conjI eq) (use fd pe pd in \<open>simp_all add: f\<close>)
  have hk: "handles_ok l'" using udp_invD(2) [OF inv] handles_ok_cong [of l' l] by (simp add: f)
  have fl: "closing l' h = closing l h" "closed l' h = closed l h" "processing h l' = processing h l" for h by (simp_all add: flag_views processing_def flagged_def f)
  have u: "uout l' h = uout l h" by (simp add: uout_def f)
  have "dgram_size l' = dgram_size l" by (simp add: dgram_size_def f fun_eq_iff)
  then have "usends_ok l' h = usends_ok l h" "ulog_ok l' h = ulog_ok l h" by (simp_all add: usends_ok_def ulog_ok_def u f)
  moreover have "umode_ok l' h" using one_udpD(3) [OF udp_invD(4) [OF inv h]] rd
    by (simp add: umode_ok_def fl stream_fd_def fd f udp_flag_bits)
  ultimately have "one_udp l' h" using udp_invD(4) [OF inv h] by (simp add: one_udp_def)
  then have "udp_inv k B' l' \<and> loop_later l l'"
    using ustep_inv [OF inv h s io hk fl(1,2) _ stuck B] by (simp add: stream_fd_def fd u f)
  then show "udp_inv k B' l'" "udp_later l l'" by (simp_all add: udp_later_def fl f)
qed

lemma udp_sole:
  assumes "udp_inv k B l" and "h \<in> udps l"
  shows "sole h l"
proof -
  have ok: "io_ok l" using udp_invD(1) [OF assms(1)] by (simp add: io_inv_def)
  have "w = h" if "0 \<le> io_fd (io l h)" "io_fd (io l h) < int (table_size l)" "watchers l ! nat (io_fd (io l h)) = Some w" for w
  proof -
    have "nat (io_fd (io l h)) < table_size l" using that(1,2) by linarith
    then have "io_fd (io l w) = io_fd (io l h)" "io_pevents (io l w) \<noteq> 0"
      using io_ok_entry [OF ok _ that(3)] that(1) by auto
    then show ?thesis using udp_invD(6) [OF assms(1)] assms(2) that(1) unfolding ufds_ok_def stream_fd_def by blast
  qed
  then show ?thesis unfolding sole_def by (metis not_None_eq not_le)
qed

lemma ustart:
  assumes inv: "udp_inv k B l" and h: "h \<in> udps l" and fd: "0 \<le> stream_fd h l" and e: "rw_events e"
  shows "\<exists>l'. uv__io_start h e l = Some l' \<and> io_only l l' \<and> io_inv l' \<and> io_later l l' \<and> pend l' = pend l \<and>
    io l' = (io l)(h := (io l h)\<lparr>io_pevents := or (io_pevents (io l h)) e\<rparr>)"
proof -
  have io: "io_inv l" "io_ok l" "memory l" using udp_invD(1) [OF inv] by (simp_all add: io_inv_def)
  have so: "sole h l" by (rule udp_sole [OF inv h])
  have fd': "0 \<le> io_fd (io l h)" "io_fd (io l h) + 3 \<le> 2 ^ 31"
    using one_udpD(3) [OF udp_invD(4) [OF inv h]] fd by (simp_all add: umode_ok_def stream_fd_def)
  have "can_start h e l" using rw_valid [OF e] fd' sole_only [OF io(2) so] by (auto simp: can_start_def)
  then obtain l' where l': "uv__io_start h e l = Some l'" "pending_queue l' = pending_queue l" "pending_local l' = pending_local l"
      "io l' = (io l)(h := (io l h)\<lparr>io_pevents := or (io_pevents (io l h)) e\<rparr>)"
    using io_start_ok [OF io(2,3)] by blast
  have "io_legal (IStart h e) l" using rw_valid [OF e] fd' so by simp
  then have "io_inv l'" "io_later l l'" using io_start_inv [OF io(1)] l'(1) by force+
  then show ?thesis using l' io_start_only [OF l'(1)] by (simp add: pend_def)
qed

lemma ustop:
  assumes inv: "udp_inv k B l" and e: "valid_events e"
  shows "\<exists>l'. uv__io_stop h e l = Some l' \<and> io_only l l' \<and> io_inv l' \<and> io_later l l' \<and> pend l' = pend l \<and>
    io_pevents (io l' h) = and (io_pevents (io l h)) (not e) \<and> (\<forall>w. io_fd (io l' w) = io_fd (io l w)) \<and> (\<forall>w. w \<noteq> h \<longrightarrow> io l' w = io l w)"
proof -
  have io: "io_inv l" "io_ok l" "- 1 \<le> io_fd (io l h)" using udp_invD(1) [OF inv] by (simp_all add: io_inv_def io_masked_def)
  obtain l' where l': "uv__io_stop h e l = Some l'" "pending_queue l' = pending_queue l" "pending_local l' = pending_local l"
    using io_stop_ok [OF io(2) e io(3)] by blast
  then show ?thesis using io_stop_inv [OF io(1) e, of h] io_stop_only [OF l'(1)] by (auto simp: pend_def)
qed

lemma ustart_out:
  assumes inv: "udp_inv k (insert h B) l" and h: "h \<in> udps l" and fd: "0 \<le> stream_fd h l"
    and c: "u_completed (udp l h) \<noteq> [] \<longrightarrow> processing h l \<or> h \<in> pend l"
  shows "\<exists>l'. uv__io_start h POLLOUT l = Some l' \<and> udp_inv k B l' \<and> udp_later l l' \<and> udp l' = udp l \<and> polls POLLOUT h l' \<and> ustep h l l'"
proof -
  obtain l' where l': "uv__io_start h POLLOUT l = Some l'" and o: "io_only l l'" and i: "io_inv l'" "io_later l l'" "pend l' = pend l"
    "io l' = (io l)(h := (io l h)\<lparr>io_pevents := or (io_pevents (io l h)) POLLOUT\<rparr>)"
    using ustart [OF inv h fd] by (auto simp: rw_events_def)
  note f = io_only_udp [OF o]
  have p: "polls POLLOUT h l'" "polls POLLIN h l' = polls POLLIN h l" by (simp_all add: polls_bits i bit_or_iff poll_word_bits)
  have "not_stuck l' h" using c p by (simp add: not_stuck_def f i processing_def flagged_def)
  moreover have fd: "io_fd (io l' w) = io_fd (io l w)" for w by (simp add: i)
  moreover have "polls POLLIN h l' \<Longrightarrow> u_recv_cb (udp l h) \<noteq> None"
    using one_udpD(3) [OF udp_invD(4) [OF inv h]] p by (simp add: umode_ok_def)
  ultimately show ?thesis using uio_step [OF inv h o i(1,2) fd, of B] l' p f i by auto
qed

lemma ustart_in:
  assumes inv: "udp_inv k B l" and h: "h \<in> udps l" and fd: "0 \<le> stream_fd h l"
    and c: "u_recv_cb (udp l h) \<noteq> None"
  shows "\<exists>l'. uv__io_start h POLLIN l = Some l' \<and> udp_inv k B l' \<and> udp_later l l' \<and> udp l' = udp l \<and> ustep h l l'"
proof -
  obtain l' where l': "uv__io_start h POLLIN l = Some l'" and o: "io_only l l'" and i: "io_inv l'" "io_later l l'" "pend l' = pend l"
    "io l' = (io l)(h := (io l h)\<lparr>io_pevents := or (io_pevents (io l h)) POLLIN\<rparr>)"
    using ustart [OF inv h fd] by (auto simp: rw_events_def)
  note f = io_only_udp [OF o]
  have p: "polls POLLOUT h l' = polls POLLOUT h l" by (simp add: polls_bits i bit_or_iff poll_word_bits)
  have "h \<notin> B \<Longrightarrow> not_stuck l' h" using udp_invD(5) [OF inv h] p by (simp add: not_stuck_def f i processing_def flagged_def closing_def)
  moreover have fd: "io_fd (io l' w) = io_fd (io l w)" for w by (simp add: i)
  ultimately show ?thesis using uio_step [OF inv h o i(1,2) fd, of B] l' f i c by auto
qed

lemma ustop_ok:
  assumes inv: "udp_inv k B l" and h: "h \<in> udps l" and e: "e = POLLIN \<or> e = POLLOUT \<and> u_queue (udp l h) = []"
  shows "\<exists>l'. uv__io_stop h e l = Some l' \<and> udp_inv k B l' \<and> udp_later l l' \<and> udp l' = udp l \<and> \<not> polls e h l' \<and> ustep h l l'"
proof -
  have v: "valid_events e" using e rw_valid by (auto simp: rw_events_def)
  obtain l' where l': "uv__io_stop h e l = Some l'" and o: "io_only l l'" and i: "io_inv l'" "io_later l l'" "pend l' = pend l"
    "io_pevents (io l' h) = and (io_pevents (io l h)) (not e)" "\<And>w. io_fd (io l' w) = io_fd (io l w)" "\<And>w. w \<noteq> h \<Longrightarrow> io l' w = io l w"
    using ustop [OF inv v, of h] by blast
  note f = io_only_udp [OF o]
  have p: "polls POLLIN h l' \<Longrightarrow> polls POLLIN h l" "e = POLLIN \<Longrightarrow> polls POLLOUT h l' = polls POLLOUT h l" "\<not> polls e h l'"
    using e by (auto simp: polls_bits i bit_and_iff bit_not_iff poll_word_bits)
  have "h \<notin> B \<Longrightarrow> not_stuck l' h" using udp_invD(5) [OF inv h] p e by (auto simp: not_stuck_def f i processing_def flagged_def closing_def)
  moreover have "polls POLLIN h l' \<Longrightarrow> u_recv_cb (udp l h) \<noteq> None"
    using one_udpD(3) [OF udp_invD(4) [OF inv h]] p by (simp add: umode_ok_def)
  ultimately show ?thesis using uio_step [OF inv h o i(1,2,5), of B] l' p f i by auto
qed

text \<open>Flags of the handle, and its being active.\<close>

lemma uhandle_step:
  assumes inv: "udp_inv k B l" and h: "h \<in> udps l" and s: "ustep h l l'" and io: "io_inv l'" "io_later l l'" and hk: "handles_ok l'"
    and fl: "closing l' h = closing l h" "closed l' h = closed l h"
    and same: "udp l' h = udp l h" "send_req l' = send_req l" "active_reqs l' = active_reqs l" "pend l' = pend l" "io_pevents (io l' h) = io_pevents (io l h)"
      "stream_fd h l' = stream_fd h l"
    and conn: "flagged h UV_HANDLE_UDP_CONNECTED l' \<Longrightarrow> flagged h UV_HANDLE_UDP_CONNECTED l \<or> closing l h \<or> 0 \<le> stream_fd h l"
    and stuck: "h \<notin> B' \<Longrightarrow> not_stuck l' h" and B: "B \<subseteq> insert h B'"
  shows "udp_inv k B' l'" "loop_later l l'" "processing h l' = processing h l \<Longrightarrow> udp_later l l'"
proof -
  have u: "uout l' h = uout l h" by (simp add: uout_def same)
  have dg: "dgram_size l' = dgram_size l" by (simp add: dgram_size_def same fun_eq_iff)
  have "umode_ok l' h" using one_udpD(3) [OF udp_invD(4) [OF inv h]] conn by (auto simp: umode_ok_def fl same polls_def)
  then have "one_udp l' h" using one_udpD(1,2) [OF udp_invD(4) [OF inv h]]
    by (simp add: one_udp_def usends_ok_def ulog_ok_def u dg same)
  then show i: "udp_inv k B' l'" "loop_later l l'" using ustep_inv [OF inv h s io hk fl _ stuck B] by (simp_all add: same u)
  show "udp_later l l'" if "processing h l' = processing h l"
  proof -
    have "processing g l' = processing g l \<and> udp l' g = udp l g" if "g \<noteq> h" for g
      using that s ustep_frame(6) [OF s that] by (simp add: ustep_def processing_def flagged_def)
    then show ?thesis using i(2) that same(1) idle_new_same [OF ustep_frame(1,2) [OF s]] unfolding udp_later_def by metis
  qed
qed

lemma handle_udp_frame [simp]:
  fixes l :: "'a udp_loop_scheme"
  shows "udp (uv__handle_start h l) = udp l" "udp (uv__handle_stop h l) = udp l"
    "send_req (uv__handle_start h l) = send_req l" "send_req (uv__handle_stop h l) = send_req l"
    "pend (uv__handle_start h l) = pend l" "pend (uv__handle_stop h l) = pend l"
  by (simp_all add: pend_def) (simp_all add: handle_defs Let_def)

lemma ustep_flags:
  assumes "l' = l\<lparr>active_handles := active_handles l', h_flags := h_flags l'\<rparr>" and "\<And>g. g \<noteq> h \<Longrightarrow> h_flags l' g = h_flags l g"
  shows "ustep h l l'"
proof -
  have f: "io l' = io l" "pending_queue l' = pending_queue l" "pending_local l' = pending_local l" "udp l' = udp l" "send_req l' = send_req l"
    "watchers l' = watchers l" "nwatchers l' = nwatchers l" "nfds l' = nfds l" "watcher_queue l' = watcher_queue l" "kernel l' = kernel l"
    "inv l' = inv l" "sys l' = sys l" "fd_log l' = fd_log l" "active_reqs l' = active_reqs l"
    by (subst assms(1), simp)+
  have eq: "l' = l\<lparr>active_handles := active_handles l', active_reqs := active_reqs l, h_flags := h_flags l',
       watchers := watchers l, nwatchers := nwatchers l, nfds := nfds l, io := io l, watcher_queue := watcher_queue l,
       pending_queue := pending_queue l, pending_local := pending_local l, kernel := kernel l, inv := inv l,
       sys := sys l, fd_log := fd_log l, udp := udp l, send_req := send_req l\<rparr>"
    by (subst assms(1)) simp
  show ?thesis unfolding ustep_def pend_def f fun_upd_triv by (intro conjI eq) (simp_all add: assms(2))
qed

lemma uactive_ok:
  assumes inv: "udp_inv k B l" and h: "h \<in> udps l" and l': "l' = uv__handle_start h l \<and> \<not> closing l h \<or> l' = uv__handle_stop h l"
  shows "udp_inv k B l' \<and> udp_later l l' \<and> ustep h l l'"
proof -
  have hq: "h \<in> set (handle_queue l)" using h by (simp add: udps_def)
  have "l' = l\<lparr>active_handles := active_handles l', h_flags := h_flags l'\<rparr>" using l' by (auto simp: handle_defs Let_def)
  moreover have "g \<noteq> h \<Longrightarrow> h_flags l' g = h_flags l g" for g using l' by (auto simp: handle_bits)
  ultimately have s: "ustep h l l'" by (rule ustep_flags)
  have f: "udp l' = udp l" "send_req l' = send_req l" "pend l' = pend l" "io l' = io l" "active_reqs l' = active_reqs l" "closing l' g = closing l g"
    "closed l' g = closed l g" "io_inv l' = io_inv l" "inv l' = inv l" "table_size l' = table_size l" "pending_local l' = pending_local l" for g
    using l' by auto
  have b: "bit (h_flags l' g) n = bit (h_flags l g) n" if "n \<in> {24, 25}" for g n
    using l' that by (auto simp: handle_bits)
  have hk: "handles_ok l'"
    using l' handles_start [OF udp_invD(2) [OF inv] hq] handles_stop [OF udp_invD(2) [OF inv] hq] by auto
  have fl: "processing g l' = processing g l" "flagged g UV_HANDLE_UDP_CONNECTED l' = flagged g UV_HANDLE_UDP_CONNECTED l" for g
    by (simp_all add: udp_flag_bits b)
  have st: "h \<notin> B \<Longrightarrow> not_stuck l' h" using udp_invD(5) [OF inv h] by (simp add: not_stuck_def f fl polls_def)
  have io: "io_inv l'" "io_later l l'" using udp_invD(1) [OF inv] f by (simp_all add: io_later_same)
  have "udp_inv k B l'" "udp_later l l'"
    using uhandle_step [OF inv h s io hk f(6,7), of B] st by (auto simp: f fl stream_fd_def)
  then show ?thesis using s by blast
qed

lemma uflags_ok:
  assumes inv: "udp_inv k B l" and h: "h \<in> udps l" and l': "l' = l\<lparr>h_flags := (h_flags l)(h := f)\<rparr>"
    and b: "\<And>n. n < 4 \<Longrightarrow> bit f n = bit (h_flags l h) n" and c: "bit f 25 \<Longrightarrow> bit (h_flags l h) 25 \<or> closing l h \<or> 0 \<le> stream_fd h l"
    and stuck: "h \<notin> B' \<Longrightarrow> not_stuck l' h" and B: "B \<subseteq> insert h B'"
  shows "udp_inv k B' l'" "loop_later l l'" "bit f 24 = bit (h_flags l h) 24 \<Longrightarrow> udp_later l l'" "ustep h l l'"
proof -
  show s: "ustep h l l'" by (rule ustep_flags) (simp_all add: l')
  have fl: "closing l' g = closing l g" "closed l' g = closed l g" "active l' g = active l g" "refd l' g = refd l g" for g
    using b by (simp_all add: l' flag_views)
  have hk: "handles_ok l'" using udp_invD(2) [OF inv] by (simp add: handles_ok_def alive_handles_def fl) (simp add: l')
  have "io_inv l' = io_inv l" unfolding l' by (rule io_inv_cong) simp_all
  then have io: "io_inv l'" "io_later l l'" using udp_invD(1) [OF inv] by (simp_all add: l' io_later_def table_size_def list_all2_same split: option.split)
  have "flagged h UV_HANDLE_UDP_CONNECTED l' \<Longrightarrow> flagged h UV_HANDLE_UDP_CONNECTED l \<or> closing l h \<or> 0 \<le> stream_fd h l"
    using c by (simp add: udp_flag_bits l')
  note r = uhandle_step [OF inv h s io hk fl(1,2) _ _ _ _ _ _ this stuck B]
  show "udp_inv k B' l'" "loop_later l l'" using r(1,2) by (simp_all add: l' pend_def stream_fd_def)
  show "udp_later l l'" if "bit f 24 = bit (h_flags l h) 24" using r(3) that by (simp add: l' pend_def stream_fd_def udp_flag_bits)
qed

lemma flag_shape:
  "flag_on h m l = l\<lparr>h_flags := (h_flags l)(h := add_flag (h_flags l h) m)\<rparr>"
  "flag_off h m l = l\<lparr>h_flags := (h_flags l)(h := del_flag (h_flags l h) m)\<rparr>"
  by (simp_all add: flag_on_def flag_off_def set_flags_def)

text \<open>A flag that no property depends on.\<close>

lemma uflag_plain:
  assumes inv: "udp_inv k B l" and h: "h \<in> udps l" and b: "\<And>n. n < 4 \<or> n = 24 \<Longrightarrow> \<not> bit m n"
    and c: "bit m 25 \<Longrightarrow> closing l h \<or> 0 \<le> stream_fd h l"
  shows "udp_inv k B (flag_on h m l) \<and> udp_later l (flag_on h m l)" "udp_inv k B (flag_off h m l) \<and> udp_later l (flag_off h m l)"
proof -
  have st: "h \<notin> B \<Longrightarrow> not_stuck (flag_on h m l) h" "h \<notin> B \<Longrightarrow> not_stuck (flag_off h m l) h"
    using udp_invD(5) [OF inv h] b [of 0] b [of 24]
    by (auto simp: not_stuck_def flag_views udp_flag_bits flag_shape bit_flags polls_def pend_def)
  show "udp_inv k B (flag_on h m l) \<and> udp_later l (flag_on h m l)"
    using uflags_ok [OF inv h flag_shape(1) _ _ st(1)] b c by (auto simp: bit_flags)
  show "udp_inv k B (flag_off h m l) \<and> udp_later l (flag_off h m l)"
    using uflags_ok [OF inv h flag_shape(2) _ _ st(2)] b by (auto simp: bit_flags)
qed

lemma uprocessing_ok:
  assumes inv: "udp_inv k B l" and h: "h \<in> udps l" and B: "B \<subseteq> {h}"
  shows "not_stuck (flag_on h UV_HANDLE_UDP_PROCESSING l) h \<Longrightarrow>
      udp_inv k {} (flag_on h UV_HANDLE_UDP_PROCESSING l) \<and> loop_later l (flag_on h UV_HANDLE_UDP_PROCESSING l)"
    and "not_stuck (flag_off h UV_HANDLE_UDP_PROCESSING l) h \<Longrightarrow>
      udp_inv k {} (flag_off h UV_HANDLE_UDP_PROCESSING l) \<and> loop_later l (flag_off h UV_HANDLE_UDP_PROCESSING l)"
proof -
  have b: "n < 4 \<Longrightarrow> bit (add_flag (h_flags l h) UV_HANDLE_UDP_PROCESSING) n = bit (h_flags l h) n"
    "n < 4 \<Longrightarrow> bit (del_flag (h_flags l h) UV_HANDLE_UDP_PROCESSING) n = bit (h_flags l h) n" for n
    by (simp_all add: bit_flags udp_word_bits)
  have c: "bit (add_flag (h_flags l h) UV_HANDLE_UDP_PROCESSING) 25 \<Longrightarrow> bit (h_flags l h) 25 \<or> closing l h \<or> 0 \<le> stream_fd h l"
    "bit (del_flag (h_flags l h) UV_HANDLE_UDP_PROCESSING) 25 \<Longrightarrow> bit (h_flags l h) 25 \<or> closing l h \<or> 0 \<le> stream_fd h l"
    by (simp_all add: bit_flags udp_word_bits)
  have B': "B \<subseteq> insert h {}" using B by simp
  show "udp_inv k {} (flag_on h UV_HANDLE_UDP_PROCESSING l) \<and> loop_later l (flag_on h UV_HANDLE_UDP_PROCESSING l)"
    if "not_stuck (flag_on h UV_HANDLE_UDP_PROCESSING l) h"
    using uflags_ok(1,2) [OF inv h flag_shape(1) b(1) c(1) that B'] by simp
  show "udp_inv k {} (flag_off h UV_HANDLE_UDP_PROCESSING l) \<and> loop_later l (flag_off h UV_HANDLE_UDP_PROCESSING l)"
    if "not_stuck (flag_off h UV_HANDLE_UDP_PROCESSING l) h"
    using uflags_ok(1,2) [OF inv h flag_shape(2) b(2) c(2) that B'] by simp
qed

section \<open>Sending\<close>

lemma ustep_udp:
  assumes "l' = l\<lparr>active_reqs := active_reqs l', udp := (udp l)(h := udp l' h), send_req := send_req l'\<rparr>"
    and "\<And>g r. g \<in> udps l \<Longrightarrow> g \<noteq> h \<Longrightarrow> r \<in> set (uout l g) \<Longrightarrow> send_req l' r = send_req l r"
  shows "ustep h l l'"
proof -
  have f: "io l' = io l" "pending_queue l' = pending_queue l" "pending_local l' = pending_local l" "h_flags l' = h_flags l" "active_handles l' = active_handles l"
    "watchers l' = watchers l" "nwatchers l' = nwatchers l" "nfds l' = nfds l" "watcher_queue l' = watcher_queue l" "kernel l' = kernel l"
    "inv l' = inv l" "sys l' = sys l" "fd_log l' = fd_log l"
    by (subst assms(1), simp)+
  have eq: "l' = l\<lparr>active_handles := active_handles l, active_reqs := active_reqs l', h_flags := h_flags l,
       watchers := watchers l, nwatchers := nwatchers l, nfds := nfds l, io := io l, watcher_queue := watcher_queue l,
       pending_queue := pending_queue l, pending_local := pending_local l, kernel := kernel l, inv := inv l,
       sys := sys l, fd_log := fd_log l, udp := (udp l)(h := udp l' h), send_req := send_req l'\<rparr>"
    by (subst assms(1)) simp
  show ?thesis unfolding ustep_def pend_def f by (intro conjI eq) (simp_all add: assms(2))
qed

text \<open>A step that changes the queues of \<open>h\<close> only.\<close>

lemma uqueue_step:
  assumes inv: "udp_inv k B l" and h: "h \<in> udps l"
    and eq: "l' = l\<lparr>active_reqs := active_reqs l', udp := (udp l)(h := udp l' h), send_req := send_req l'\<rparr>"
    and oth: "\<And>g r. g \<in> udps l \<Longrightarrow> g \<noteq> h \<Longrightarrow> r \<in> set (uout l g) \<Longrightarrow> send_req l' r = send_req l r"
    and cbs: "polls POLLIN h l \<Longrightarrow> u_recv_cb (udp l' h) \<noteq> None" "u_recv_cb (udp l' h) \<noteq> None \<Longrightarrow> u_alloc_cb (udp l' h) \<noteq> None"
    and one: "usends_ok l' h" "ulog_ok l' h" and stuck: "h \<notin> B' \<Longrightarrow> not_stuck l' h" and B: "B \<subseteq> insert h B'"
    and ct: "unat (active_reqs l') + length (uout l h) = unat (active_reqs l) + length (uout l' h)"
  shows "udp_inv k B' l' \<and> loop_later l l' \<and> ustep h l l' \<and> io l' = io l \<and> h_flags l' = h_flags l \<and> pend l' = pend l \<and> sys l' = sys l"
proof -
  have s: "ustep h l l'" by (rule ustep_udp [OF eq oth])
  have f: "io l' = io l" "h_flags l' = h_flags l" "watchers l' = watchers l" "nwatchers l' = nwatchers l" "nfds l' = nfds l"
    "watcher_queue l' = watcher_queue l" "kernel l' = kernel l" "inv l' = inv l" "mem_ok l' = mem_ok l" "active_handles l' = active_handles l"
    "handle_queue l' = handle_queue l" "pending_queue l' = pending_queue l" "pending_local l' = pending_local l" "sys l' = sys l"
    by (subst eq, simp)+
  have i: "io_inv l'" using udp_invD(1) [OF inv] io_inv_cong [of l' l] by (simp add: f)
  have t: "table_size l' = table_size l" by (simp add: table_size_def f)
  have il: "io_later l l'" by (rule io_later_same) (simp_all add: t f)
  have hk: "handles_ok l'" using udp_invD(2) [OF inv] handles_ok_cong [of l' l] by (simp add: f)
  have fl: "closing l' h = closing l h" "closed l' h = closed l h" by (simp_all add: flag_views f)
  have "umode_ok l' h" using one_udpD(3) [OF udp_invD(4) [OF inv h]] cbs
    by (simp add: umode_ok_def fl stream_fd_def f polls_def udp_flag_bits)
  then have "one_udp l' h" using one by (simp add: one_udp_def)
  then show ?thesis using ustep_inv [OF inv h s i il hk fl _ stuck B _ ct] s f by (simp add: stream_fd_def pend_def)
qed

lemma ucomplete_views:
  "u_queue (udp (udp_complete h n err l) h) = drop n (u_queue (udp l h))"
  "u_completed (udp (udp_complete h n err l) h) = u_completed (udp l h) @ take n (u_queue (udp l h))"
  "s_handle (send_req (udp_complete h n err l) r) = s_handle (send_req l r)" "s_bufs (send_req (udp_complete h n err l) r) = s_bufs (send_req l r)"
  "uout (udp_complete h n err l) h = uout l h" "u_recv_cb (udp (udp_complete h n err l) h) = u_recv_cb (udp l h)"
  "u_alloc_cb (udp (udp_complete h n err l) h) = u_alloc_cb (udp l h)"
  "r \<notin> set (take n (u_queue (udp l h))) \<Longrightarrow> send_req (udp_complete h n err l) r = send_req l r"
  by (simp_all add: udp_complete_def set_udp_def Let_def uout_def)

lemma complete_ok:
  fixes l :: "'a udp_loop_scheme" and n :: nat and err :: "uv_errno option"
  assumes inv: "udp_inv k (insert h B) l" and h: "h \<in> udps l"
  defines "l' \<equiv> udp_complete h n err l"
  shows "udp_inv k (insert h B) l' \<and> loop_later l l' \<and> ustep h l l' \<and> io l' = io l \<and> h_flags l' = h_flags l \<and> pend l' = pend l \<and> sys l' = sys l"
proof -
  note v = ucomplete_views [where h = h and n = n and err = err and l = l, folded l'_def]
  note one = one_udpD [OF udp_invD(4) [OF inv h]]
  have d: "distinct (u_completed (udp l h) @ u_queue (udp l h))" using one(1) by (simp add: usends_ok_def uout_def)
  have dg: "dgram_size l' = dgram_size l" by (simp add: dgram_size_def v fun_eq_iff)
  have ss: "u_send_size (udp l' h) = u_send_size (udp l h)" "u_send_count (udp l' h) = u_send_count (udp l h)"
    "u_called (udp l' h) = u_called (udp l h)" "u_submitted (udp l' h) = u_submitted (udp l h)"
    "u_sent (udp l' h) = (if err = None then u_sent (udp l h) @ take n (u_queue (udp l h)) else u_sent (udp l h))"
    by (simp_all add: l'_def udp_complete_def set_udp_def Let_def)
  have new: "s_status (send_req l' r) = (case err of Some e \<Rightarrow> Inl e | None \<Rightarrow> Inr (length (hd (the (s_bufs (send_req l r))))))"
    if "r \<in> set (take n (u_queue (udp l h)))" for r
    using that by (simp add: l'_def udp_complete_def set_udp_def Let_def)
  have old: "send_req l' r = send_req l r" if "r \<in> set (u_completed (udp l h))" for r
    using that d by (intro v(8)) (auto dest: in_set_takeD)
  have f1: "filter (\<lambda>c. \<not> isl (snd c)) (map (\<lambda>r. (r, s_status (send_req l' r))) (u_completed (udp l h))) =
      filter (\<lambda>c. \<not> isl (snd c)) (map (\<lambda>r. (r, s_status (send_req l r))) (u_completed (udp l h)))"
    using old by (intro arg_cong [of _ _ "filter _"]) simp
  have f2: "map fst (filter (\<lambda>c. \<not> isl (snd c)) (map (\<lambda>r. (r, s_status (send_req l' r))) (take n (u_queue (udp l h))))) =
      (if err = None then take n (u_queue (udp l h)) else [])"
  proof (cases err)
    case None
    then have "filter (\<lambda>c. \<not> isl (snd c)) (map (\<lambda>r. (r, s_status (send_req l' r))) (take n (u_queue (udp l h)))) =
        map (\<lambda>r. (r, s_status (send_req l' r))) (take n (u_queue (udp l h)))" using new by (intro filter_True) auto
    then show ?thesis using None by (simp add: comp_def)
  next
    case (Some e)
    then have "filter (\<lambda>c. \<not> isl (snd c)) (map (\<lambda>r. (r, s_status (send_req l' r))) (take n (u_queue (udp l h)))) = []"
      using new by (intro filter_False) auto
    then show ?thesis using Some by simp
  qed
  have s: "usends_ok l' h" using one(1) by (simp add: usends_ok_def v dg ss)
  have lg: "ulog_ok l' h"
    using one(2) unfolding ulog_ok_def ss v(2,5) map_append filter_append f1 f2 by auto
  have ne: "g \<in> udps l \<Longrightarrow> g \<noteq> h \<Longrightarrow> r \<in> set (uout l g) \<Longrightarrow> send_req l' r = send_req l r" for g r
  proof -
    assume g: "g \<in> udps l" "g \<noteq> h" "r \<in> set (uout l g)"
    have "s_handle (send_req l r) = g" using one_udpD(1) [OF udp_invD(4) [OF inv g(1)]] g(3) by (simp add: usends_ok_def)
    moreover have "s_handle (send_req l r) = h" if "r \<in> set (take n (u_queue (udp l h)))"
      using one(1) in_set_takeD [OF that] by (simp add: usends_ok_def uout_def)
    ultimately show ?thesis using g(2) v(8) by blast
  qed
  have eq: "l' = l\<lparr>active_reqs := active_reqs l', udp := (udp l)(h := udp l' h), send_req := send_req l'\<rparr>" and ar: "active_reqs l' = active_reqs l"
    by (simp_all add: l'_def udp_complete_def set_udp_def Let_def)
  have "polls POLLIN h l \<Longrightarrow> u_recv_cb (udp l' h) \<noteq> None" "u_recv_cb (udp l' h) \<noteq> None \<Longrightarrow> u_alloc_cb (udp l' h) \<noteq> None"
    using one(3) by (simp_all add: umode_ok_def v)
  then show ?thesis using uqueue_step [where B' = "insert h B", OF inv h eq ne _ _ s lg] by (simp add: v ar)
qed

text \<open>The kernel does not interrupt a call forever, and \<open>recvmmsg\<close> with room for a message returns one or an
  error.\<close>

definition udp_kernel_ok :: "('a udp_loop_scheme) udp_env \<Rightarrow> bool" where
  "udp_kernel_ok E \<longleftrightarrow> (\<forall>fd ms. uninterrupted (\<lambda>k. sys_sendmmsg E k fd ms)) \<and> (\<forall>fd m. uninterrupted (\<lambda>k. sys_sendmsg E k fd m)) \<and>
     (\<forall>fd n. uninterrupted (\<lambda>k. sys_recvmsg E k fd n)) \<and> (\<forall>fd n. uninterrupted (\<lambda>k. sys_recvmmsg E k fd n)) \<and>
     (\<forall>k fd n. 0 < n \<longrightarrow> sys_recvmmsg E k fd n \<noteq> Inr [])"

lemma feed_ok:
  assumes inv: "udp_inv k (insert h B) l" and h: "h \<in> udps l"
  shows "udp_inv k (insert h B) (uv__io_feed h l)" "loop_later l (uv__io_feed h l)" "ustep h l (uv__io_feed h l)"
    "io (uv__io_feed h l) = io l" "h_flags (uv__io_feed h l) = h_flags l" "udp (uv__io_feed h l) = udp l"
    "pend (uv__io_feed h l) = insert h (pend l)"
proof -
  show p: "pend (uv__io_feed h l) = insert h (pend l)" and f: "io (uv__io_feed h l) = io l" "h_flags (uv__io_feed h l) = h_flags l"
    "udp (uv__io_feed h l) = udp l" by (auto simp: uv__io_feed_def pend_def)
  have i: "io_inv (uv__io_feed h l)" using udp_invD(1) [OF inv] by (simp add: uv__io_feed_def io_pending_inv)
  have il: "io_later l (uv__io_feed h l)" by (auto simp: uv__io_feed_def io_later_refl intro: io_later_same)
  have "polls POLLIN h (uv__io_feed h l) \<Longrightarrow> u_recv_cb (udp l h) \<noteq> None"
    using one_udpD(3) [OF udp_invD(4) [OF inv h]] by (simp add: umode_ok_def polls_def f)
  note u = uio_step [where B' = "insert h B", OF inv h io_feed_only i il _ _ _ this]
  show "udp_inv k (insert h B) (uv__io_feed h l)" "loop_later l (uv__io_feed h l)" "ustep h l (uv__io_feed h l)"
    using u by (simp_all add: f p udp_later_def)
qed

end
