(* ===== verification/UV_Udp_Run.thy ===== *)
theory UV_Udp_Run
  imports UV_Udp_Inv
begin

text \<open>
  The events of a UDP handle: sending what is queued, reporting what was sent and receiving, each with
  callbacks that may make any call of the library.
\<close>

section \<open>Draining the queue\<close>

definition sent_step :: "addr \<Rightarrow> 'a udp_loop_scheme \<Rightarrow> 'a udp_loop_scheme \<Rightarrow> bool" where
  "sent_step h l l' \<longleftrightarrow> loop_later l l' \<and> ustep h l l' \<and> io l' = io l \<and> h_flags l' = h_flags l \<and> pend l \<subseteq> pend l' \<and>
     uout l' h = uout l h \<and> (\<exists>m. u_queue (udp l' h) = drop m (u_queue (udp l h))) \<and>
     u_recv_cb (udp l' h) = u_recv_cb (udp l h) \<and> u_alloc_cb (udp l' h) = u_alloc_cb (udp l h)"

lemma sent_step_trans: "sent_step h a b \<Longrightarrow> sent_step h b c \<Longrightarrow> sent_step h a c"
  using loop_later_trans [of a b c] ustep_trans [of h a b c] unfolding sent_step_def by auto

lemma sys_step: "ustep h l (l\<lparr>sys := j\<rparr>)" "loop_later l (l\<lparr>sys := j\<rparr>)"
  using sys_later1 [of l j] by (simp_all add: ustep_def udp_later_def pend_def)

lemma complete_sent:
  assumes "udp_inv k (insert h B) l" and "h \<in> udps l"
  shows "sent_step h l (udp_complete h n err l)"
  using complete_ok [OF assms, of n err] unfolding sent_step_def by (auto simp: ucomplete_views)

lemma feed_sent:
  assumes "udp_inv k (insert h B) l" and "h \<in> udps l"
  shows "sent_step h l (uv__io_feed h l)"
  using feed_ok [OF assms] unfolding sent_step_def by (auto simp: uout_def intro: exI [of _ 0])

lemma sys_sent: "sent_step h l (l\<lparr>sys := j\<rparr>)"
  using sys_step unfolding sent_step_def by (auto simp: uout_def intro: exI [of _ 0])

lemma sent_udps: "sent_step h l l' \<Longrightarrow> udps l' = udps l"
  using ustep_frame(1,2) [of h l l'] by (simp add: sent_step_def udps_def)

lemma udrain_ok:
  assumes E: "udp_kernel_ok E"
  shows "udp_inv k (insert h B) l \<Longrightarrow> h \<in> udps l \<Longrightarrow> u_queue (udp l h) \<noteq> [] \<Longrightarrow>
    \<exists>l'. write_queue_drain E h l = Some l' \<and> udp_inv k (insert h B) l' \<and> sent_step h l l' \<and>
      (udp l' h = udp l h \<or> h \<in> pend l' \<or> length (u_queue (udp l h)) > 1)"
proof (induction "length (u_queue (udp l h))" arbitrary: l rule: less_induct)
  case less
  note inv = less.prems(1) and h = less.prems(2)
  let ?rs = "take 20 (u_queue (udp l h))"
  have b: "s_bufs (send_req l r) \<noteq> None" if "r \<in> set ?rs" for r
    using one_udpD(1) [OF udp_invD(4) [OF inv h]] in_set_takeD [OF that] by (simp add: usends_ok_def uout_def)
  obtain msgs where m: "messages ?rs l = Some msgs" using b by (auto simp: messages_def)
  obtain r j where r: "eintr (\<lambda>k. sys_sendmmsg E k (stream_fd h l) msgs) (sys l) = Some (r, j)"
    using eintr_returns [of "\<lambda>k. sys_sendmmsg E k (stream_fd h l) msgs" "sys l"] E by (auto simp: udp_kernel_ok_def)
  let ?l = "l\<lparr>sys := j\<rparr>"
  have i1: "udp_inv k (insert h B) ?l" "h \<in> udps ?l" using inv h by simp_all
  define npkts where "npkts = (case r of Inl _ \<Rightarrow> 0 | Inr n \<Rightarrow> n)"
  define err where "err = (case r of Inl e \<Rightarrow> e | Inr _ \<Rightarrow> stale_errno E j)"
  have w: "write_queue_drain E h l =
      (if npkts < 1 then Some (if err = UV_EAGAIN \<or> err = UV_ENOBUFS then ?l else uv__io_feed h (udp_complete h (length msgs) (Some err) ?l))
       else let l = udp_complete h npkts None ?l in if u_queue (udp l h) \<noteq> [] then write_queue_drain E h l else Some (uv__io_feed h l))"
    by (subst write_queue_drain.simps) (simp add: m r npkts_def err_def Let_def)
  have fed: "udp_inv k (insert h B) (uv__io_feed h l1) \<and> sent_step h l (uv__io_feed h l1) \<and> h \<in> pend (uv__io_feed h l1)"
    if "udp_inv k (insert h B) l1" "sent_step h l l1" for l1
    using feed_ok [OF that(1)] feed_sent [OF that(1)] sent_step_trans [OF that(2)] sent_udps [OF that(2)] h by simp
  note comp = complete_ok [OF i1] complete_sent [OF i1]
  show ?case
  proof (cases "npkts < 1")
    case True
    show ?thesis
    proof (cases "err = UV_EAGAIN \<or> err = UV_ENOBUFS")
      case True
      then have "write_queue_drain E h l = Some ?l" using w \<open>npkts < 1\<close> by simp
      then show ?thesis using i1(1) sys_sent [of h l j] by simp
    next
      case False
      let ?l1 = "udp_complete h (length msgs) (Some err) ?l"
      have "write_queue_drain E h l = Some (uv__io_feed h ?l1)" using w True False by simp
      moreover have "udp_inv k (insert h B) ?l1" "sent_step h l ?l1"
        using comp sent_step_trans [OF sys_sent] by blast+
      ultimately show ?thesis using fed [of ?l1] by blast
    qed
  next
    case False
    define l1 where "l1 = udp_complete h npkts None ?l"
    have i: "udp_inv k (insert h B) l1" "sent_step h l l1" "h \<in> udps l1"
      using comp [of npkts None] sent_step_trans [OF sys_sent] sent_udps [of h ?l l1] i1(2) by (auto simp: l1_def)
    have q: "u_queue (udp l1 h) = drop npkts (u_queue (udp l h))" by (simp add: l1_def ucomplete_views)
    show ?thesis
    proof (cases "u_queue (udp l1 h) = []")
      case True
      then have "write_queue_drain E h l = Some (uv__io_feed h l1)" using w False by (simp add: l1_def Let_def)
      then show ?thesis using fed [OF i(1,2)] by blast
    next
      case ne: False
      then have lt: "length (u_queue (udp l1 h)) < length (u_queue (udp l h))" "length (u_queue (udp l h)) > 1"
        using False by (auto simp: q)
      obtain l2 where "write_queue_drain E h l1 = Some l2" "udp_inv k (insert h B) l2" "sent_step h l1 l2"
        using less.hyps [OF lt(1) i(1,3) ne] by blast
      moreover have "write_queue_drain E h l = write_queue_drain E h l1" using w False ne by (simp add: l1_def Let_def)
      ultimately show ?thesis using sent_step_trans [OF i(2)] lt(2) by auto
    qed
  qed
qed

lemma sendmsg_ok:
  assumes "udp_kernel_ok E" and "udp_inv k (insert h B) l" and "h \<in> udps l"
  shows "\<exists>l'. uv__udp_sendmsg E h l = Some l' \<and> udp_inv k (insert h B) l' \<and> sent_step h l l' \<and>
    (udp l' h = udp l h \<or> h \<in> pend l' \<or> length (u_queue (udp l h)) > 1)"
proof (cases "u_queue (udp l h) = []")
  case True
  then show ?thesis using assms(2) sys_sent [of h l "sys l"] by (simp add: uv__udp_sendmsg_def)
qed (use udrain_ok [OF assms] in \<open>simp add: uv__udp_sendmsg_def\<close>)

section \<open>Reporting\<close>

lemma udone_ok:
  assumes inv: "udp_inv k B l" and h: "h \<in> udps l" and c: "u_completed (udp l h) = r # rest" and b: "processing h l"
  defines "l0 \<equiv> set_udp h (\<lambda>u. u\<lparr>u_completed := rest\<rparr>) l"
  shows "\<exists>l'. udp_send_done h r l0 = Some l' \<and> udp_inv k B l' \<and> loop_later l l' \<and> ustep h l l' \<and> h_flags l' = h_flags l \<and>
    io l' = io l \<and> u_completed (udp l' h) = rest \<and> u_queue (udp l' h) = u_queue (udp l h) \<and>
    u_called (udp l' h) = u_called (udp l h) @ [(r, s_status (send_req l r))] \<and> send_req l' r = (send_req l r)\<lparr>s_bufs := None\<rparr>"
proof -
  note one = one_udpD [OF udp_invD(4) [OF inv h]]
  have o: "uout l h = r # rest @ u_queue (udp l h)" by (simp add: uout_def c)
  obtain bufs where bufs: "s_bufs (send_req l r) = Some bufs" using one(1) by (auto simp: usends_ok_def o)
  have "length (uout l h) \<le> sending l" unfolding sending_def by (rule member_le_sum [OF h]) simp_all
  then have a: "0 < unat (active_reqs l)" using udp_invD(7) [OF inv] by (simp add: o)
  then have ar: "uv__has_active_reqs l" "unat (active_reqs l - 1) = unat (active_reqs l) - 1"
    by (simp_all add: uv__has_active_reqs_def unat_sub_one unat_gt_0 word_neq_0_conv)
  define l' where "l' = l\<lparr>active_reqs := active_reqs l - 1,
      udp := (udp l)(h := (udp l h)\<lparr>u_completed := rest, u_send_size := u_send_size (udp l h) - uv__count_bufs bufs,
         u_send_count := u_send_count (udp l h) - 1, u_called := u_called (udp l h) @ [(r, s_status (send_req l r))]\<rparr>),
      send_req := (send_req l)(r := (send_req l r)\<lparr>s_bufs := None\<rparr>)\<rparr>"
  have e: "udp_send_done h r l0 = Some l'"
    using ar(1) bufs by (simp add: udp_send_done_def l0_def l'_def set_udp_def set_send_def uv__req_unregister_def uv__has_active_reqs_def)
  have o': "uout l' h = rest @ u_queue (udp l h)" by (simp add: l'_def uout_def)
  have n: "s \<in> set (uout l' h) \<Longrightarrow> s \<noteq> r" for s using one(1) by (auto simp: usends_ok_def o o')
  have same: "s \<noteq> r \<Longrightarrow> send_req l' s = send_req l s" for s by (simp add: l'_def)
  have m: "map (dgram_size l') (uout l' h) = map (dgram_size l) (uout l' h)" using n same by (simp add: dgram_size_def)
  have cb: "uv__count_bufs bufs = of_nat (dgram_size l r)" by (simp add: dgram_size_def bufs count_bufs)
  have sz: "u_send_size (udp l' h) = u_send_size (udp l h) - of_nat (dgram_size l r)" "u_send_count (udp l' h) = u_send_count (udp l h) - 1"
    by (simp_all add: l'_def cb)
  have oo: "uout l h = r # uout l' h" by (simp add: o o')
  have s: "usends_ok l' h" using one(1) n same unfolding usends_ok_def m sz oo by auto
  have lg: "ulog_ok l' h"
  proof -
    have t: "map (\<lambda>x. (x, s_status (send_req l' x))) rest = map (\<lambda>x. (x, s_status (send_req l x))) rest"
      using n same by (simp add: o')
    have v: "u_completed (udp l' h) = rest" "u_submitted (udp l' h) = u_submitted (udp l h)" "u_sent (udp l' h) = u_sent (udp l h)"
      "u_called (udp l' h) = u_called (udp l h) @ [(r, s_status (send_req l r))]" by (simp_all add: l'_def)
    show ?thesis using one(2) unfolding ulog_ok_def v t o' o c by simp
  qed
  have arr: "active_reqs l' = active_reqs l - 1" by (simp add: l'_def)
  have eq: "l' = l\<lparr>active_reqs := active_reqs l', udp := (udp l)(h := udp l' h), send_req := send_req l'\<rparr>" by (simp add: l'_def)
  have oth: "send_req l' s = send_req l s" if "g \<in> udps l" "g \<noteq> h" "s \<in> set (uout l g)" for g s
  proof -
    have "s_handle (send_req l s) = g" "s_handle (send_req l r) = h"
      using one_udpD(1) [OF udp_invD(4) [OF inv that(1)]] one(1) that(3) by (simp_all add: usends_ok_def o)
    then show ?thesis using that(2) same by metis
  qed
  have st: "h \<notin> B \<Longrightarrow> not_stuck l' h" using udp_invD(5) [OF inv h] b
    by (auto simp: not_stuck_def l'_def closing_def polls_def processing_def flagged_def)
  have cbs: "polls POLLIN h l \<Longrightarrow> u_recv_cb (udp l' h) \<noteq> None" "u_recv_cb (udp l' h) \<noteq> None \<Longrightarrow> u_alloc_cb (udp l' h) \<noteq> None"
    using one(3) by (simp_all add: umode_ok_def l'_def)
  have ct: "unat (active_reqs l') + length (uout l h) = unat (active_reqs l) + length (uout l' h)"
    using a ar(2) arr by (simp add: oo)
  have "udp_inv k B l' \<and> loop_later l l' \<and> ustep h l l' \<and> io l' = io l \<and> h_flags l' = h_flags l \<and> pend l' = pend l \<and> sys l' = sys l"
    by (rule uqueue_step [where B' = B, OF inv h eq]) (fact oth cbs s lg st ct | blast)+
  then show ?thesis using e by (simp add: l'_def)
qed

text \<open>Callbacks may do what keeps the invariant; \<open>on_buffer\<close> only chooses a size, which for \<open>recvmmsg\<close> is at
  least that of one datagram.\<close>

definition usafe :: "nat \<Rightarrow> ('a udp_loop_scheme) udp_env \<Rightarrow> bool" where
  "usafe k E \<longleftrightarrow> udp_kernel_ok E \<and> (\<forall>l. udp_inv k {} l \<longrightarrow>
     (\<forall>cb r st. \<exists>l'. on_send E cb r st l = Some l' \<and> udp_inv k {} l' \<and> udp_later l l') \<and>
     (\<forall>cb h d p fl. \<exists>l'. on_recv E cb h d p fl l = Some l' \<and> udp_inv k {} l' \<and> udp_later l l') \<and>
     (\<forall>cb h n. \<exists>m. on_buffer E cb h n l = Some (m, l) \<and> (uv_udp_using_recvmmsg h l \<longrightarrow> m = 0 \<or> UV__UDP_DGRAM_MAXSIZE \<le> m)))"

definition same_busy :: "'a udp_loop_scheme \<Rightarrow> 'a udp_loop_scheme \<Rightarrow> bool" where
  "same_busy l l' \<longleftrightarrow> loop_later l l' \<and> idle_new l l' \<and> (\<forall>g\<in>udps l. processing g l' = processing g l)"

lemma same_busy_trans: "same_busy a b \<Longrightarrow> same_busy b c \<Longrightarrow> same_busy a c"
  using loop_later_trans [of a b c] udps_later [of a b] unfolding same_busy_def by (auto simp: idle_new_def)

lemma same_busy_refl: "same_busy l l"
  by (simp add: same_busy_def loop_later_refl)

lemma later_busy: "udp_later l l' \<Longrightarrow> same_busy l l'"
  by (simp add: udp_later_def same_busy_def)

lemma flags_busy: "ustep h l l' \<Longrightarrow> loop_later l l' \<Longrightarrow> h_flags l' = h_flags l \<Longrightarrow> same_busy l l'"
  using ustep_frame(1,2) [of h l l'] by (simp add: same_busy_def udp_flag_bits)

lemma busy_later: "same_busy l l' \<Longrightarrow> loop_later l l'"
  by (simp add: same_busy_def)

lemma later_udp: "loop_later l l' \<Longrightarrow> h \<in> udps l \<Longrightarrow> h \<in> udps l' \<and> (closing l h \<longrightarrow> closing l' h)"
  using udps_later by (auto simp: loop_later_def udps_def)

lemma run_completed_loop_ok:
  assumes E: "usafe k E"
  shows "udp_inv k {} l \<Longrightarrow> h \<in> udps l \<Longrightarrow> processing h l \<Longrightarrow>
    \<exists>l'. run_completed_loop E h l = Some l' \<and> udp_inv k {} l' \<and> same_busy l l' \<and> u_completed (udp l' h) = [] \<and>
      (closing l h \<longrightarrow> u_queue (udp l' h) = u_queue (udp l h))"
proof (induction "u_completed (udp l h)" arbitrary: l)
  case Nil
  then have "run_completed_loop E h l = Some l" by (subst run_completed_loop.simps) simp
  then show ?case using Nil by (simp add: same_busy_refl)
next
  case (Cons r rest)
  obtain l1 where l1: "udp_send_done h r (set_udp h (\<lambda>u. u\<lparr>u_completed := rest\<rparr>) l) = Some l1" "udp_inv k {} l1" "same_busy l l1"
    "u_completed (udp l1 h) = rest" "u_queue (udp l1 h) = u_queue (udp l h)"
    using udone_ok [OF Cons.prems(1,2) Cons.hyps(2) [symmetric] Cons.prems(3)] flags_busy by blast
  have h1: "h \<in> udps l1" "closing l h \<longrightarrow> closing l1 h" "processing h l1"
    using later_udp [OF busy_later [OF l1(3)] Cons.prems(2)] l1(3) Cons.prems(2,3) by (auto simp: same_busy_def)
  have "\<exists>l2. call_send E r l1 = Some l2 \<and> udp_inv k {} l2 \<and> udp_later l1 l2"
    using E l1(2) udp_later_refl by (auto simp: call_send_def usafe_def split: option.split)
  then obtain l2 where l2: "call_send E r l1 = Some l2" "udp_inv k {} l2" "udp_later l1 l2" by blast
  have "h \<in> udps l2" "processing h l2" "closing l1 h \<longrightarrow> closing l2 h"
    using later_udp [OF _ h1(1)] l2(3) h1 by (auto simp: udp_later_def)
  moreover have c2: "rest = u_completed (udp l2 h)" "closing l1 h \<longrightarrow> u_queue (udp l2 h) = u_queue (udp l1 h)"
    using l2(3) h1 l1(4) by (auto simp: udp_later_def)
  ultimately obtain l' where l': "run_completed_loop E h l2 = Some l'" "udp_inv k {} l'" "same_busy l2 l'" "u_completed (udp l' h) = []"
    "closing l2 h \<longrightarrow> u_queue (udp l' h) = u_queue (udp l2 h)"
    using Cons.hyps(1) [OF _ l2(2)] by blast
  have "run_completed_loop E h l = Some l'"
    by (subst run_completed_loop.simps) (simp add: Cons.hyps(2) [symmetric] l1(1) l2(1) l'(1))
  then show ?case
    using l' same_busy_trans [OF same_busy_trans [OF l1(3) later_busy [OF l2(3)]] l'(3)] c2(2) h1(2) l1(5) \<open>closing l1 h \<longrightarrow> closing l2 h\<close>
    by auto
qed

lemma run_completed_ok:
  assumes E: "usafe k E" and inv: "udp_inv k {h} l" and h: "h \<in> udps l" and nb: "\<not> processing h l"
    and q: "closing l h \<or> u_queue (udp l h) = [] \<or> polls POLLOUT h l"
  shows "\<exists>l'. uv__udp_run_completed E h l = Some l' \<and> udp_inv k {} l' \<and> same_busy l l' \<and> u_completed (udp l' h) = [] \<and>
    (closing l h \<longrightarrow> u_queue (udp l' h) = u_queue (udp l h))"
proof -
  let ?l = "flag_on h UV_HANDLE_UDP_PROCESSING l"
  have b1: "processing h ?l" by (simp add: udp_flag_bits flag_shape bit_flags udp_word_bits)
  have "not_stuck ?l h" using q b1
    by (auto simp: not_stuck_def flag_views flag_shape bit_flags udp_word_bits polls_def)
  then have i1: "udp_inv k {} ?l" "loop_later l ?l"
    using uprocessing_ok(1) [OF inv h] by simp_all
  have h1: "h \<in> udps ?l" "closing ?l h = closing l h" "u_queue (udp ?l h) = u_queue (udp l h)" "processing g ?l \<longleftrightarrow> processing g l \<or> g = h" for g
    using h by (auto simp: udps_def flag_shape flag_views bit_flags udp_word_bits udp_flag_bits)
  obtain l2 where l2: "run_completed_loop E h ?l = Some l2" "udp_inv k {} l2" "same_busy ?l l2" "u_completed (udp l2 h) = []"
    "closing l h \<longrightarrow> u_queue (udp l2 h) = u_queue (udp l h)"
    using run_completed_loop_ok [OF E i1(1) h1(1) b1] h1 by auto
  have h2: "h \<in> udps l2" "closing l h \<longrightarrow> closing l2 h" using later_udp [OF busy_later [OF l2(3)] h1(1)] h1(2) by auto
  obtain l3 where l3: "(if u_queue (udp l2 h) = [] then do {
                l \<leftarrow> uv__io_stop h POLLOUT l2;
                reading \<leftarrow> uv__io_active h POLLIN l;
                Some (if \<not> reading then uv__handle_stop h l else l)
              } else Some l2) = Some l3" and i3: "udp_inv k {} l3" "udp_later l2 l3" "udp l3 = udp l2"
  proof (cases "u_queue (udp l2 h) = []")
    case True
    obtain l4 where l4: "uv__io_stop h POLLOUT l2 = Some l4" "udp_inv k {} l4" "udp_later l2 l4" "udp l4 = udp l2"
      using ustop_ok [OF l2(2) h2(1), of POLLOUT] True by blast
    have h4: "h \<in> udps l4" using later_udp [OF _ h2(1)] l4(3) by (auto simp: udp_later_def)
    have a: "uv__io_active h POLLIN l4 = Some (polls POLLIN h l4)" using rw_valid by (simp add: uv__io_active_def rw_events_def polls_def)
    have "udp_inv k {} (uv__handle_stop h l4)" "udp_later l2 (uv__handle_stop h l4)"
      using uactive_ok [OF l4(2) h4, of "uv__handle_stop h l4"] udp_later_trans [OF l4(3)] by auto
    then show ?thesis using that [of "if polls POLLIN h l4 then l4 else uv__handle_stop h l4"] True l4 a by auto
  next
    case False
    then show ?thesis using that [of l2] l2(2) udp_later_refl [of l2] by simp
  qed
  have h3: "h \<in> udps l3" using later_udp [OF _ h2(1)] i3(2) by (auto simp: udp_later_def)
  let ?l' = "flag_off h UV_HANDLE_UDP_PROCESSING l3"
  have "not_stuck ?l' h" using udp_invD(5) [OF i3(1) h3] l2(4)
    by (auto simp: not_stuck_def flag_views flag_shape bit_flags udp_word_bits polls_def i3(3))
  then have l': "udp_inv k {} ?l'" "loop_later l3 ?l'"
    using uprocessing_ok(2) [OF i3(1) h3] by simp_all
  have "uv__udp_run_completed E h l = Some ?l'"
    using nb l2(1) l3 by (simp add: uv__udp_run_completed_def processing_def)
  moreover have "same_busy l ?l'"
  proof -
    have "loop_later l ?l'" using loop_later_trans [OF i1(2)] loop_later_trans busy_later [OF l2(3)] i3(2) l'(2)
      by (auto simp: udp_later_def)
    moreover have "processing g ?l' = processing g l" if "g \<in> udps l" for g
    proof -
      have "g \<in> udps ?l" using that by (simp add: udps_def flag_shape)
      then have "processing g l3 \<longleftrightarrow> processing g l \<or> g = h"
        using l2(3) i3(2) later_udp [OF busy_later [OF l2(3)], of g] h1(4) by (auto simp: same_busy_def udp_later_def)
      moreover have "processing g ?l' \<longleftrightarrow> processing g l3 \<and> g \<noteq> h" by (auto simp: udp_flag_bits flag_shape bit_flags udp_word_bits)
      ultimately show ?thesis using nb by auto
    qed
    moreover have "idle_new l ?l'"
    proof -
      have "idle_new l3 ?l'" "idle_new l ?l" by (simp_all add: flag_shape)
      moreover have "processing g ?l' \<Longrightarrow> processing g l3 \<and> g \<noteq> h" for g
        by (auto simp: udp_flag_bits flag_shape bit_flags udp_word_bits split: if_splits)
      moreover have "g \<in> udps ?l \<Longrightarrow> g \<in> udps l" for g by (simp add: udps_def flag_shape)
      moreover have "processing g l3 \<Longrightarrow> g \<in> udps l2 \<Longrightarrow> processing g l2" "processing g l2 \<Longrightarrow> g \<in> udps ?l \<Longrightarrow> processing g ?l" for g
        using l2(3) i3(2) by (auto simp: same_busy_def udp_later_def)
      ultimately show ?thesis using l2(3) i3(2) unfolding idle_new_def same_busy_def udp_later_def by metis
    qed
    ultimately show ?thesis by (simp add: same_busy_def)
  qed
  moreover have "udp ?l' = udp l2" by (simp add: flag_shape i3(3))
  ultimately show ?thesis using l'(1) l2(4,5) by simp
qed


section \<open>Receiving\<close>

lemma callback_udp:
  assumes "h \<in> udps l" and "udp_later l l'"
  shows "h \<in> udps l'"
  using assms later_udp [of l l' h] by (simp add: udp_later_def)

lemma call_recv_ok:
  assumes E: "usafe k E" and inv: "udp_inv k {} l" and cb: "u_recv_cb (udp l h) \<noteq> None"
  shows "\<exists>l'. call_recv E h data peer flags l = Some l' \<and> udp_inv k {} l' \<and> udp_later l l'"
proof -
  obtain cb' where "u_recv_cb (udp l h) = Some cb'" using cb by blast
  then show ?thesis using E inv by (simp add: call_recv_def usafe_def)
qed

lemma chunk_loop_ok:
  assumes E: "usafe k E"
  shows "udp_inv k {} l \<Longrightarrow> \<exists>l'. chunk_loop E h msgs l = Some l' \<and> udp_inv k {} l' \<and> udp_later l l'"
proof (induction msgs arbitrary: l)
  case Nil
  then show ?case by (simp add: udp_later_refl)
next
  case (Cons m msgs)
  obtain data trunc where m: "m = (data, trunc)" by (cases m)
  show ?case
  proof (cases "u_recv_cb (udp l h) = None")
    case True
    then show ?thesis using Cons.prems by (simp add: m udp_later_refl)
  next
    case False
    obtain l1 where l1: "call_recv E h (Inr data) True (if trunc then or UV_UDP_MMSG_CHUNK UV_UDP_PARTIAL else UV_UDP_MMSG_CHUNK) l = Some l1"
      "udp_inv k {} l1" "udp_later l l1"
      using call_recv_ok [OF E Cons.prems False] by blast
    obtain l' where "chunk_loop E h msgs l1 = Some l'" "udp_inv k {} l'" "udp_later l1 l'" using Cons.IH [OF l1(2)] by blast
    then show ?thesis using False l1(1) udp_later_trans [OF l1(3)] by (auto simp: m)
  qed
qed

lemma recvmmsg_ok:
  assumes E: "usafe k E" and inv: "udp_inv k {} l" and cb: "u_recv_cb (udp l h) \<noteq> None" and len: "UV__UDP_DGRAM_MAXSIZE \<le> len"
  shows "\<exists>n l'. uv__udp_recvmmsg E h len l = Some (n, l') \<and> udp_inv k {} l' \<and> udp_later l l' \<and> (n = - 1 \<or> 0 < n)"
proof -
  let ?c = "min (len div UV__UDP_DGRAM_MAXSIZE) 20"
  have c: "0 < ?c" using len by (simp add: UV__UDP_DGRAM_MAXSIZE_def)
  have u: "uninterrupted (\<lambda>k. sys_recvmmsg E k (stream_fd h l) ?c)" and ne: "\<And>k. sys_recvmmsg E k (stream_fd h l) ?c \<noteq> Inr []"
    using E c by (simp_all add: usafe_def udp_kernel_ok_def)
  obtain r j where r: "eintr (\<lambda>k. sys_recvmmsg E k (stream_fd h l) ?c) (sys l) = Some (r, j)" "r \<noteq> Inr []"
    using eintr_returns [OF u, of "sys l"] ne by blast
  let ?l = "l\<lparr>sys := j\<rparr>"
  have i1: "udp_inv k {} ?l" "u_recv_cb (udp ?l h) \<noteq> None" "udp_later l ?l" using inv cb sys_later1 by simp_all
  show ?thesis
  proof (cases r)
    case (Inl e)
    obtain l' where "call_recv E h (recv_error e) False 0 ?l = Some l'" "udp_inv k {} l'" "udp_later ?l l'"
      using call_recv_ok [OF E i1(1,2)] by blast
    then show ?thesis using r(1) udp_later_trans [OF i1(3)] by (auto simp: uv__udp_recvmmsg_def Inl)
  next
    case (Inr msgs)
    then obtain m ms where ms: "msgs = m # ms" using r(2) by (cases msgs) auto
    obtain l1 where l1: "chunk_loop E h msgs ?l = Some l1" "udp_inv k {} l1" "udp_later ?l l1"
      using chunk_loop_ok [OF E i1(1)] by blast
    have "\<exists>l2. (if u_recv_cb (udp l1 h) \<noteq> None then call_recv E h (Inr []) False UV_UDP_MMSG_FREE l1 else Some l1) = Some l2 \<and>
        udp_inv k {} l2 \<and> udp_later l1 l2"
      using call_recv_ok [OF E l1(2)] l1(2) udp_later_refl by auto
    then obtain l2 where "(if u_recv_cb (udp l1 h) \<noteq> None then call_recv E h (Inr []) False UV_UDP_MMSG_FREE l1 else Some l1) = Some l2"
        "udp_inv k {} l2" "udp_later l1 l2" by blast
    then show ?thesis using r(1) l1(1) udp_later_trans [OF i1(3) udp_later_trans [OF l1(3)]]
      by (auto simp: uv__udp_recvmmsg_def Inr ms)
  qed
qed

lemma recv_one_ok:
  assumes E: "usafe k E" and inv: "udp_inv k {} l" and cb: "u_recv_cb (udp l h) \<noteq> None"
  shows "\<exists>n l'. recv_one E h len l = Some (n, l') \<and> udp_inv k {} l' \<and> udp_later l l'"
proof -
  have u: "uninterrupted (\<lambda>k. sys_recvmsg E k (stream_fd h l) len)" using E by (simp add: usafe_def udp_kernel_ok_def)
  obtain r j where r: "eintr (\<lambda>k. sys_recvmsg E k (stream_fd h l) len) (sys l) = Some (r, j)"
    using eintr_returns [OF u, of "sys l"] by blast
  let ?l = "l\<lparr>sys := j\<rparr>"
  have i1: "udp_inv k {} ?l" "u_recv_cb (udp ?l h) \<noteq> None" "udp_later l ?l" using inv cb sys_later1 by simp_all
  have c: "\<exists>l'. call_recv E h d p fl ?l = Some l' \<and> udp_inv k {} l' \<and> udp_later l l'" for d p fl
    using call_recv_ok [OF E i1(1,2)] udp_later_trans [OF i1(3)] by blast
  show ?thesis
  proof (cases r)
    case (Inl e)
    then show ?thesis using r c [of "recv_error e" False 0] by (auto simp: recv_one_def)
  next
    case (Inr m)
    then show ?thesis using r c [of "Inr (fst m)" True "if snd m then UV_UDP_PARTIAL else 0"] by (cases m) (auto simp: recv_one_def)
  qed
qed


text \<open>The loop ends: every message takes a part of the budget.\<close>

lemma recvmsg_loop_ok:
  assumes E: "usafe k E"
  shows "udp_inv k {} l \<Longrightarrow> h \<in> udps l \<Longrightarrow> u_recv_cb (udp l h) \<noteq> None \<Longrightarrow>
    \<exists>l'. recvmsg_loop E h budget l = Some l' \<and> udp_inv k {} l' \<and> udp_later l l'"
proof (induction "nat budget" arbitrary: budget l rule: less_induct)
  case less
  note inv = less.prems(1) and cb = less.prems(3)
  obtain acb where acb: "u_alloc_cb (udp l h) = Some acb"
    using one_udpD(3) [OF udp_invD(4) [OF inv less.prems(2)]] cb by (auto simp: umode_ok_def)
  obtain len where len: "on_buffer E acb h UV__UDP_DGRAM_MAXSIZE l = Some (len, l)" "uv_udp_using_recvmmsg h l \<longrightarrow> len = 0 \<or> UV__UDP_DGRAM_MAXSIZE \<le> len"
    using E inv unfolding usafe_def by metis
  show ?case
  proof (cases "len = 0")
    case True
    then show ?thesis using call_recv_ok [OF E inv cb] by (subst recvmsg_loop.simps) (simp add: acb len(1))
  next
    case False
    let ?mm = "uv_udp_using_recvmmsg h l"
    have "\<exists>n l1. (if ?mm then uv__udp_recvmmsg E h len l else recv_one E h len l) = Some (n, l1) \<and> udp_inv k {} l1 \<and> udp_later l l1 \<and>
        (?mm \<longrightarrow> n = - 1 \<or> 0 < n)"
    proof (cases ?mm)
      case True
      then show ?thesis using recvmmsg_ok [OF E inv cb] len(2) False by auto
    next
      case False
      then show ?thesis using recv_one_ok [OF E inv cb, of len] by auto
    qed
    then obtain n l1 where l1: "(if ?mm then uv__udp_recvmmsg E h len l else recv_one E h len l) = Some (n, l1)" "udp_inv k {} l1" "udp_later l l1"
      "?mm \<longrightarrow> n = - 1 \<or> 0 < n" by blast
    let ?b = "if \<not> ?mm then budget - 1 else if n > 0 then budget - n else budget"
    let ?go = "n \<noteq> - 1 \<and> ?b > 0 \<and> stream_fd h l1 \<noteq> - 1 \<and> u_recv_cb (udp l1 h) \<noteq> None"
    have e: "recvmsg_loop E h budget l = (if ?go then recvmsg_loop E h ?b l1 else Some l1)"
      by (subst recvmsg_loop.simps) (simp add: acb len(1) False l1(1) Let_def)
    show ?thesis
    proof (cases ?go)
      case True
      have "nat ?b < nat budget" using True l1(4) by (auto split: if_splits)
      then have "\<exists>l'. recvmsg_loop E h ?b l1 = Some l' \<and> udp_inv k {} l' \<and> udp_later l1 l'"
        using less.hyps [OF _ l1(2) callback_udp [OF less.prems(2) l1(3)]] True by blast
      then show ?thesis using e True udp_later_trans [OF l1(3)] by auto
    next
      case False
      then have "recvmsg_loop E h budget l = Some l1" using e by argo
      then show ?thesis using l1(2,3) by blast
    qed
  qed
qed

section \<open>Events\<close>

lemma udp_weaken: "udp_inv k B l \<Longrightarrow> B \<subseteq> C \<Longrightarrow> udp_inv k C l"
  by (auto simp: udp_inv_def)

text \<open>The part for \<open>POLLOUT\<close>.  The handle may have been closed, or may have nothing to send.\<close>

lemma udp_out_ok:
  assumes E: "usafe k E" and inv: "udp_inv k {h} l" and h: "h \<in> udps l" and nb: "\<not> processing h l"
    and q: "closing l h \<or> u_queue (udp l h) = [] \<or> polls POLLOUT h l"
  shows "\<exists>l1 l'. uv__udp_sendmsg E h l = Some l1 \<and> uv__udp_run_completed E h l1 = Some l' \<and> udp_inv k {} l' \<and> same_busy l l' \<and>
    u_completed (udp l' h) = []"
proof -
  have K: "udp_kernel_ok E" using E by (simp add: usafe_def)
  obtain l1 where l1: "uv__udp_sendmsg E h l = Some l1" "udp_inv k (insert h {}) l1" "sent_step h l l1"
    using sendmsg_ok [OF K inv h] by blast
  have h1: "h \<in> udps l1" using sent_udps [OF l1(3)] h by simp
  have f: "h_flags l1 = h_flags l" "loop_later l l1" "io l1 = io l" "\<exists>m. u_queue (udp l1 h) = drop m (u_queue (udp l h))" "ustep h l l1"
    using l1(3) by (simp_all add: sent_step_def)
  have "\<not> processing h l1" "closing l1 h \<or> u_queue (udp l1 h) = [] \<or> polls POLLOUT h l1"
    using nb q f(4) by (auto simp: processing_def flagged_def f(1,3) flag_views polls_def)
  then obtain l' where "uv__udp_run_completed E h l1 = Some l'" "udp_inv k {} l'" "same_busy l1 l'" "u_completed (udp l' h) = []"
    using run_completed_ok [OF E l1(2) h1] by blast
  then show ?thesis using l1(1) same_busy_trans [OF flags_busy [OF _ f(2,1)]] f(5) by blast
qed

text \<open>An event: \<open>POLLIN\<close> is reported for a handle that reads.  Nothing is asserted to be false in the
  course of it, and afterwards everything holds of every handle.\<close>

lemma udp_io_ok:
  assumes E: "usafe k E" and inv: "udp_inv k B l" and h: "h \<in> udps l" and nb: "\<not> processing h l"
    and B: "B = {} \<or> B = {h} \<and> and revents POLLIN = 0 \<and> and revents POLLOUT \<noteq> 0"
    and q: "closing l h \<or> u_queue (udp l h) = [] \<or> polls POLLOUT h l"
    and rd: "and revents POLLIN \<noteq> 0 \<longrightarrow> polls POLLIN h l"
  shows "\<exists>l'. uv__udp_io E h revents l = Some l' \<and> udp_inv k {} l' \<and> same_busy l l'"
proof -
  have t: "h_type l h = UV_UDP" using h by (simp add: udps_def)
  have "\<exists>l1. (if and revents POLLIN \<noteq> 0 then uv__udp_recvmsg E h l else Some l) = Some l1 \<and> udp_inv k B l1 \<and> (udp_later l l1 \<and> B = {} \<or> l1 = l)"
  proof (cases "and revents POLLIN = 0")
    case False
    then have b: "B = {}" and cb: "u_recv_cb (udp l h) \<noteq> None" "u_alloc_cb (udp l h) \<noteq> None"
      using B rd one_udpD(3) [OF udp_invD(4) [OF inv h]] by (auto simp: umode_ok_def)
    obtain l1 where "recvmsg_loop E h 32 l = Some l1" "udp_inv k {} l1" "udp_later l l1"
      using recvmsg_loop_ok [OF E _ h cb(1)] inv b by blast
    then show ?thesis using cb b False by (simp add: uv__udp_recvmsg_def)
  qed (use inv in simp)
  then obtain l1 where l1: "(if and revents POLLIN \<noteq> 0 then uv__udp_recvmsg E h l else Some l) = Some l1" "udp_inv k B l1"
    "udp_later l l1 \<and> B = {} \<or> l1 = l" by blast
  have s1: "same_busy l l1" using l1(3) later_busy same_busy_refl by blast
  have h1: "h \<in> udps l1" "\<not> processing h l1" using later_udp [OF busy_later [OF s1] h] s1 nb h by (auto simp: same_busy_def)
  have q1: "closing l1 h \<or> u_queue (udp l1 h) = [] \<or> polls POLLOUT h l1"
    using l1(3) q udp_invD(5) [OF l1(2) h1(1)] by (auto simp: not_stuck_def)
  show ?thesis
  proof (cases "and revents POLLOUT = 0")
    case True
    then have "B = {}" using B by blast
    then show ?thesis using t l1(1,2) s1 True by (simp add: uv__udp_io_def)
  next
    case False
    obtain l2 l' where "uv__udp_sendmsg E h l1 = Some l2" "uv__udp_run_completed E h l2 = Some l'" "udp_inv k {} l'" "same_busy l1 l'"
      using udp_out_ok [OF E udp_weaken [OF l1(2)] h1 q1] B by blast
    then show ?thesis using t l1(1) same_busy_trans [OF s1] False by (auto simp: uv__udp_io_def)
  qed
qed

end
