(* ===== verification/UV_Udp_Api.thy ===== *)
theory UV_Udp_Api
  imports UV_Udp_Run
begin

text \<open>
  The calls of a client on UDP handles keep the invariant, and leave the queues alone that a running
  callback or the closing of a handle depends on.
\<close>

section \<open>Descriptors and new handles\<close>

text \<open>What the kernel promises of a descriptor that it opens.\<close>

definition fresh_ufd :: "int \<Rightarrow> 'a udp_loop_scheme \<Rightarrow> bool" where
  "fresh_ufd fd l \<longleftrightarrow> 0 \<le> fd \<and> fd + 3 \<le> 2 ^ 31 \<and> (\<forall>w. stream_fd w l = fd \<longrightarrow> w \<notin> udps l \<and> io_pevents (io l w) = 0)"

definition fresh_usockets :: "tcp_sys \<Rightarrow> 'a udp_loop_scheme \<Rightarrow> bool" where
  "fresh_usockets T l \<longleftrightarrow> (\<forall>k\<ge>sys l. \<forall>d b fd. sys_socket T k d b = Inr fd \<longrightarrow> fresh_ufd fd l)"

text \<open>A step on one handle, which may come, go, or change its descriptor.\<close>

lemma udp_frame:
  assumes inv: "udp_inv k B l" and base: "io_inv l'" "handles_ok l'" "to_close [] l'"
    and st: "udps l' - {h} = udps l - {h}"
    and oth: "\<And>g. g \<in> udps l \<Longrightarrow> g \<noteq> h \<Longrightarrow> usame l l' g"
    and one: "h \<in> udps l' \<Longrightarrow> one_udp l' h" and stuck: "h \<in> udps l' \<Longrightarrow> h \<notin> B' \<Longrightarrow> not_stuck l' h" and B: "B \<subseteq> insert h B'"
    and fd: "stream_fd h l' = - 1 \<or> fresh_ufd (stream_fd h l') l \<or> (h \<in> udps l \<or> h \<notin> udps l') \<and> stream_fd h l' = stream_fd h l"
    and fdo: "\<And>w. w \<noteq> h \<Longrightarrow> stream_fd w l' = stream_fd w l" and pe: "\<And>w. io_pevents (io l' w) \<noteq> 0 \<Longrightarrow> io_pevents (io l w) \<noteq> 0"
    and ct: "unat (active_reqs l') + (if h \<in> udps l then length (uout l h) else 0) =
      unat (active_reqs l) + (if h \<in> udps l' then length (uout l' h) else 0)"
  shows "udp_inv k B' l'"
proof -
  have mem: "g \<in> udps l' \<longleftrightarrow> g \<in> udps l" if "g \<noteq> h" for g using st that by auto
  have "one_udp l' g" if "g \<in> udps l'" for g
    using that udp_invD(4) [OF inv, of g] one oth [of g] usame_parts(2) mem by (cases "g = h") auto
  moreover have "not_stuck l' g" if "g \<in> udps l'" "g \<notin> B'" for g
    using that udp_invD(5) [OF inv, of g] stuck oth [of g] usame_parts(3) B mem by (cases "g = h") auto
  moreover have "ufds_ok l'" unfolding ufds_ok_def
  proof (intro ballI allI impI)
    fix a w
    assume a: "a \<in> udps l'" "0 \<le> stream_fd a l'" "stream_fd w l' = stream_fd a l'" "w \<in> udps l' \<or> io_pevents (io l' w) \<noteq> 0"
    show "w = a"
    proof (cases "fresh_ufd (stream_fd h l') l \<and> (a = h \<or> w = h)")
      case True
      then have f: "stream_fd v l = stream_fd h l' \<Longrightarrow> v \<notin> udps l \<and> io_pevents (io l v) = 0" for v by (simp add: fresh_ufd_def)
      have "v \<in> udps l' \<or> io_pevents (io l' v) \<noteq> 0 \<Longrightarrow> stream_fd v l' = stream_fd h l' \<Longrightarrow> v = h" for v
        using f [of v] fdo [of v] mem [of v] pe [of v] by metis
      then show ?thesis using True a by metis
    next
      case False
      have old: "stream_fd v l' = stream_fd v l \<and> (v \<in> udps l' \<longrightarrow> v \<in> udps l)" if "v = a \<or> v = w" for v
        using that fd fdo [of v] mem [of v] False a(2,3) by (cases "v = h") auto
      have "stream_fd a l' = stream_fd a l" "stream_fd w l' = stream_fd w l" "a \<in> udps l" "w \<in> udps l \<or> io_pevents (io l w) \<noteq> 0"
        using old [of a] old [of w] a pe [of w] by auto
      then show ?thesis using udp_invD(6) [OF inv] a(2,3) unfolding ufds_ok_def by metis
    qed
  qed
  moreover have "unat (active_reqs l') = sending l' + k"
  proof -
    have "(\<Sum>g\<in>udps l' - {h}. length (uout l' g)) = (\<Sum>g\<in>udps l - {h}. length (uout l g))"
      using usame_parts(1) [OF oth] unfolding st by (intro sum.cong) auto
    moreover have "sending x = (if h \<in> udps x then length (uout x h) else 0) + (\<Sum>g\<in>udps x - {h}. length (uout x g))" for x :: "'a udp_loop_scheme"
      using sum.remove [OF finite_udps, of h x "\<lambda>g. length (uout x g)"] by (auto simp: sending_def)
    ultimately have "sending l' + (if h \<in> udps l then length (uout l h) else 0) = sending l + (if h \<in> udps l' then length (uout l' h) else 0)"
      by simp
    then show ?thesis using udp_invD(7) [OF inv] ct by linarith
  qed
  ultimately show ?thesis using base by (simp add: udp_inv_def)
qed

lemma no_uevents:
  assumes "udp_inv k B l" and "stream_fd h l = - 1"
  shows "io_pevents (io l h) = 0"
  using io_ok_active [of l h] udp_invD(1) [OF assms(1)] assms(2) by (auto simp: io_inv_def stream_fd_def)

lemma set_fd_inv:
  assumes inv: "udp_inv k B l" and fd: "stream_fd h l = - 1" and fr: "0 \<le> fd" "fd + 3 \<le> 2 ^ 31"
  shows "io_inv (set_io h ((io l h)\<lparr>io_fd := fd\<rparr>) l)"
proof -
  have p0: "io_pevents (io l h) = 0" by (rule no_uevents [OF inv fd])
  have ok: "io_ok l" using udp_invD(1) [OF inv] by (simp add: io_inv_def)
  have "io_events (io l h) = 0" using io_ok_told [OF ok, of h] p0 by blast
  then have "\<lparr>io_cb = io_cb (io l h), io_fd = fd, io_events = 0, io_pevents = 0\<rparr> = (io l h)\<lparr>io_fd := fd\<rparr>"
    using p0 by (cases "io l h") simp
  then have "uv__io_init h (io_cb (io l h)) fd l = Some (set_io h ((io l h)\<lparr>io_fd := fd\<rparr>) l)"
    using fr by (simp add: uv__io_init_def)
  moreover have "io_legal (IInit h (io_cb (io l h)) fd) l" using p0 fr by simp
  ultimately show ?thesis using io_init_inv [OF udp_invD(1) [OF inv]] by fastforce
qed

lemma set_io_views:
  "handle_queue (set_io h x l) = handle_queue l" "h_type (set_io h x l) = h_type l" "h_flags (set_io h x l) = h_flags l"
  "closing_handles (set_io h x l) = closing_handles l" "active_handles (set_io h x l) = active_handles l" "inv (set_io h x l) = inv l"
  "active_reqs (set_io h x l) = active_reqs l" "h_close_cb (set_io h x l) = h_close_cb l" "io (set_io h x l) = (io l)(h := x)"
  "table_size (set_io h x l) = table_size l" "pending_queue (set_io h x l) = pending_queue l" "pending_local (set_io h x l) = pending_local l"
  for l :: "'a udp_loop_scheme"
  by (simp_all add: set_io_def table_size_def)

lemma set_io_udp:
  "udp (set_io h x l) = udp l" "send_req (set_io h x l) = send_req l" for l :: "'a udp_loop_scheme"
  by (simp_all add: set_io_def)

lemma set_ufd_ok:
  assumes inv: "udp_inv k B l" and h: "h \<in> udps l" and nc: "\<not> closing l h" and fd: "stream_fd h l = - 1" and fr: "fresh_ufd fd l"
  shows "udp_inv k B (set_io h ((io l h)\<lparr>io_fd := fd\<rparr>) l) \<and> udp_later l (set_io h ((io l h)\<lparr>io_fd := fd\<rparr>) l)"
proof -
  let ?l = "set_io h ((io l h)\<lparr>io_fd := fd\<rparr>) l"
  note f = set_io_views set_io_udp
  have fl: "closing ?l g = closing l g" "closed ?l g = closed l g" "flagged g m ?l = flagged g m l" "processing g ?l = processing g l" for g m
    by (simp_all add: flag_views flagged_def processing_def f)
  have st: "udps ?l = udps l" by (simp add: udps_def f)
  have o: "uout ?l g = uout l g" "dgram_size ?l = dgram_size l" for g by (simp_all add: uout_def dgram_size_def f fun_eq_iff)
  have io: "io_inv ?l" using set_fd_inv [OF inv fd] fr by (simp add: fresh_ufd_def)
  have sf: "stream_fd h ?l = fd" "w \<noteq> h \<Longrightarrow> stream_fd w ?l = stream_fd w l" "io_pevents (io ?l w) = io_pevents (io l w)" for w
    by (simp_all add: stream_fd_def f)
  have pl: "polls e g ?l = polls e g l" "pend ?l = pend l" for e g by (simp_all add: polls_def sf(3) pend_def f)
  have hk: "handles_ok ?l" using udp_invD(2) [OF inv] handles_ok_cong [of ?l l] by (simp add: f)
  have tc: "to_close [] ?l" using udp_invD(3) [OF inv] by (simp add: to_close_def f fl)
  have us: "usame l ?l g" if "g \<noteq> h" for g using that by (simp add: usame_def f pl)
  have one: "one_udp ?l h"
    using one_udpD [OF udp_invD(4) [OF inv h]] fr nc
    by (simp add: one_udp_def usends_ok_def ulog_ok_def umode_ok_def o f fl sf(1) pl fresh_ufd_def)
  have stuck: "h \<notin> B \<Longrightarrow> not_stuck ?l h" using udp_invD(5) [OF inv h] by (simp add: not_stuck_def f fl pl)
  have "udp_inv k B ?l"
    by (rule udp_frame [OF inv io hk tc, of h B]) (use us one stuck fr in \<open>simp_all add: st sf o f subset_insertI split: if_splits\<close>)
  moreover have "udp_later l ?l" by (simp add: udp_later_def loop_later_def f fl io_later_same)
  ultimately show ?thesis by blast
qed

lemma init_views:
  fixes l :: "'a udp_loop_scheme"
  shows "handle_queue (uv__handle_init h t l) = handle_queue l @ [h]" "h_type (uv__handle_init h t l) = (h_type l)(h := t)"
    "h_flags (uv__handle_init h t l) = (h_flags l)(h := UV_HANDLE_REF)" "closing_handles (uv__handle_init h t l) = closing_handles l"
    "active_handles (uv__handle_init h t l) = active_handles l" "active_reqs (uv__handle_init h t l) = active_reqs l"
    "h_close_cb (uv__handle_init h t l) = h_close_cb l" "io (uv__handle_init h t l) = io l" "inv (uv__handle_init h t l) = inv l"
    "table_size (uv__handle_init h t l) = table_size l" "pending_queue (uv__handle_init h t l) = pending_queue l"
    "pending_local (uv__handle_init h t l) = pending_local l" "udp (uv__handle_init h t l) = udp l" "send_req (uv__handle_init h t l) = send_req l"
  by (simp_all add: uv__handle_init_def table_size_def)

lemma set_udp_views:
  fixes l :: "'a udp_loop_scheme"
  shows "handle_queue (set_udp h f l) = handle_queue l" "h_type (set_udp h f l) = h_type l" "h_flags (set_udp h f l) = h_flags l"
    "closing_handles (set_udp h f l) = closing_handles l" "active_handles (set_udp h f l) = active_handles l"
    "active_reqs (set_udp h f l) = active_reqs l" "h_close_cb (set_udp h f l) = h_close_cb l" "io (set_udp h f l) = io l" "inv (set_udp h f l) = inv l"
    "table_size (set_udp h f l) = table_size l" "pending_queue (set_udp h f l) = pending_queue l"
    "pending_local (set_udp h f l) = pending_local l" "udp (set_udp h f l) = (udp l)(h := f (udp l h))" "send_req (set_udp h f l) = send_req l"
  by (simp_all add: set_udp_def table_size_def)

text \<open>A handle is initialised, with or without a socket.\<close>

lemma new_udp_ok:
  assumes inv: "udp_inv k B l" and h: "h \<notin> set (handle_queue l)" and n: "length (handle_queue l) + 1 < 2 ^ 32"
    and p: "io_pevents (io l h) = 0" and fd: "fd = - 1 \<or> fresh_ufd fd l"
  shows "\<exists>l'. uv__io_init h UDP_IO fd (set_udp h (\<lambda>_. fresh_udp) (uv__handle_init h UV_UDP l)) = Some l' \<and>
    udp_inv k B l' \<and> udp_later l l' \<and> h \<in> udps l' \<and> \<not> closing l' h \<and> udp l' h = fresh_udp"
proof -
  define x where "x = \<lparr>io_cb = UDP_IO, io_fd = fd, io_events = 0, io_pevents = 0\<rparr>"
  define l' where "l' = set_io h x (set_udp h (\<lambda>_. fresh_udp) (uv__handle_init h UV_UDP l))"
  note f = set_io_views [of h x "set_udp h (\<lambda>_. fresh_udp) (uv__handle_init h UV_UDP l)", folded l'_def]
    set_io_udp [of h x "set_udp h (\<lambda>_. fresh_udp) (uv__handle_init h UV_UDP l)", folded l'_def]
  note f = f [unfolded set_udp_views init_views]
  have fl: "closing l' g \<longleftrightarrow> closing l g \<and> g \<noteq> h" "closed l' g \<longleftrightarrow> closed l g \<and> g \<noteq> h" "processing g l' \<longleftrightarrow> processing g l \<and> g \<noteq> h" for g
    by (auto simp: flag_views udp_flag_bits f bit_flags)
  have hn: "h \<notin> udps l" using h by (simp add: udps_def)
  have st: "udps l' = insert h (udps l)" using h by (auto simp: udps_def f)
  have fd1: "- 1 \<le> fd" using fd by (auto simp: fresh_ufd_def)
  have init: "uv__io_init h UDP_IO fd (set_udp h (\<lambda>_. fresh_udp) (uv__handle_init h UV_UDP l)) = Some l'"
    using fd1 by (simp add: uv__io_init_def l'_def x_def)
  have io: "io_inv l'"
  proof -
    have "io_legal (IInit h UDP_IO fd) l" using p fd1 fd by (auto simp: fresh_ufd_def)
    then have "io_inv (set_io h x l)" using io_init_inv [OF udp_invD(1) [OF inv]] by (fastforce simp: uv__io_init_def x_def)
    moreover have "io_inv l' = io_inv (set_io h x l)"
      by (rule io_inv_cong) (simp_all add: l'_def uv__handle_init_def set_io_def set_udp_def)
    ultimately show ?thesis by simp
  qed
  have hk: "handles_ok l'"
    using handles_init [OF udp_invD(2) [OF inv] h n, of UV_UDP] handles_ok_cong [of l' "uv__handle_init h UV_UDP l"] f
    by (simp add: uv__handle_init_def)
  have tc: "to_close [] l'" using udp_invD(3) [OF inv] h by (auto simp: to_close_def f fl)
  have u: "udp l' h = fresh_udp" by (simp add: f)
  have o: "uout l' h = []" by (simp add: uout_def u fresh_udp_def)
  have us: "usame l l' g" if "g \<noteq> h" for g using that by (simp add: usame_def f pend_def)
  have one: "one_udp l' h"
    using fd by (auto simp: one_udp_def usends_ok_def ulog_ok_def umode_ok_def o fl u fresh_udp_def stream_fd_def polls_def x_def f
        fresh_ufd_def udp_flag_bits bit_flags)
  have stuck: "not_stuck l' h" by (simp add: not_stuck_def u fresh_udp_def)
  have sf: "stream_fd h l' = fd" "w \<noteq> h \<Longrightarrow> stream_fd w l' = stream_fd w l" for w by (simp_all add: stream_fd_def f x_def)
  have "udp_inv k B l'"
    by (rule udp_frame [OF inv io hk tc, of h B])
      (use us one stuck fd hn in \<open>simp_all add: st sf o f x_def subset_insertI split: if_splits\<close>)
  moreover have "udp_later l l'"
  proof -
    have "g \<noteq> h" if "g \<in> set (handle_queue l)" for g using that h by blast
    moreover have "idle_new l l'" by (auto simp: idle_new_def fl udps_def f)
    ultimately show ?thesis by (auto simp: udp_later_def loop_later_def udps_def f fl io_later_same)
  qed
  ultimately show ?thesis using init st fl u by auto
qed

definition ugood :: "nat \<Rightarrow> 'a udp_loop_scheme \<Rightarrow> 'a udp_loop_scheme option \<Rightarrow> bool" where
  "ugood k l r \<longleftrightarrow> (\<exists>l'. r = Some l' \<and> udp_inv k {} l' \<and> udp_later l l')"

lemma ugoodI: "r = Some l' \<Longrightarrow> udp_inv k {} l' \<Longrightarrow> udp_later l l' \<Longrightarrow> ugood k l r"
  by (auto simp: ugood_def)

lemma ugood_trans: "udp_later a b \<Longrightarrow> ugood k b r \<Longrightarrow> ugood k a r"
  using udp_later_trans by (auto simp: ugood_def)

text \<open>What a client may do with a handle.\<close>

definition uusable :: "addr \<Rightarrow> 'a udp_loop_scheme \<Rightarrow> bool" where
  "uusable h l \<longleftrightarrow> h \<in> udps l \<and> \<not> closing l h \<and> \<not> closed l h"

lemma usocket:
  assumes "fresh_usockets T l"
  shows "\<exists>r j g. uv__socket T d l = (r, l\<lparr>sys := j, fd_log := g\<rparr>) \<and> (\<forall>fd. r = Inr fd \<longrightarrow> fresh_ufd fd l)"
  using socket_any [of l T "\<lambda>fd. fresh_ufd fd l"] assms by (auto simp: fresh_usockets_def)

lemma fresh_ufd_sys [simp]: "fresh_ufd fd (l\<lparr>sys := j, fd_log := g\<rparr>) = fresh_ufd fd l" "fresh_ufd fd (l\<lparr>sys := j\<rparr>) = fresh_ufd fd l"
  by (simp_all add: fresh_ufd_def stream_fd_def)

lemma udp_init_ok:
  assumes inv: "udp_inv k {} l" and h: "h \<notin> set (handle_queue l)" and n: "length (handle_queue l) + 1 < 2 ^ 32"
    and p: "io_pevents (io l h) = 0" and s: "fresh_usockets T l"
  shows "ugood k l (map_option snd (uv_udp_init_ex T h flags l))"
proof -
  have *: "\<exists>st l'. uv__udp_init_ex T h d l = Some (st, l') \<and> udp_inv k {} l' \<and> udp_later l l' \<and> (st = OK \<longrightarrow> h \<in> udps l')" for d
  proof -
    have "\<exists>r l1. (if d \<noteq> AF_UNSPEC then uv__socket T d l else (Inr (- 1), l)) = (r, l1) \<and> (\<exists>j g. l1 = l\<lparr>sys := j, fd_log := g\<rparr>) \<and>
      (\<forall>fd. r = Inr fd \<longrightarrow> fd = - 1 \<or> fresh_ufd fd l1)"
    proof (cases "d = AF_UNSPEC")
      case True
      moreover have "\<exists>j g. l = l\<lparr>sys := j, fd_log := g\<rparr>" by (intro exI [of _ "sys l"] exI [of _ "fd_log l"]) simp
      ultimately show ?thesis by simp
    next
      case False
      obtain r j g where r: "uv__socket T d l = (r, l\<lparr>sys := j, fd_log := g\<rparr>)" "\<forall>fd. r = Inr fd \<longrightarrow> fresh_ufd fd l"
        using usocket [OF s, of d] by blast
      then show ?thesis using False by (intro exI [of _ r] exI [of _ "l\<lparr>sys := j, fd_log := g\<rparr>"]) auto
    qed
    then obtain r l1 where l1: "(if d \<noteq> AF_UNSPEC then uv__socket T d l else (Inr (- 1), l)) = (r, l1)"
      "\<exists>j g. l1 = l\<lparr>sys := j, fd_log := g\<rparr>" "\<forall>fd. r = Inr fd \<longrightarrow> fd = - 1 \<or> fresh_ufd fd l1" by blast
    then have i1: "udp_inv k {} l1" "udp_later l l1" "handle_queue l1 = handle_queue l" "io l1 = io l" using inv sys_later by auto
    show ?thesis
    proof (cases r)
      case (Inr fd)
      then obtain l2 where "uv__io_init h UDP_IO fd (set_udp h (\<lambda>_. fresh_udp) (uv__handle_init h UV_UDP l1)) = Some l2"
        "udp_inv k {} l2" "udp_later l1 l2" "h \<in> udps l2"
        using new_udp_ok [OF i1(1), of h fd] h n p l1(3) i1(3,4) by auto
      then show ?thesis using Inr udp_later_trans [OF i1(2)] by (simp add: uv__udp_init_ex_def l1(1))
    qed (use i1 in \<open>simp add: uv__udp_init_ex_def l1(1)\<close>)
  qed
  have r: "n < 4 \<or> n = 24 \<Longrightarrow> \<not> bit UV_HANDLE_UDP_RECVMMSG n" "\<not> bit UV_HANDLE_UDP_RECVMMSG 25" for n by (auto simp: udp_word_bits)
  show ?thesis
  proof (cases "domain_of (and flags 0xFF)")
    case None
    then show ?thesis using inv udp_later_refl by (simp add: uv_udp_init_ex_def ugood_def)
  next
    case (Some d)
    obtain st l1 where l1: "uv__udp_init_ex T h d l = Some (st, l1)" "udp_inv k {} l1" "udp_later l l1" "st = OK \<longrightarrow> h \<in> udps l1"
      using * by blast
    then show ?thesis using inv udp_later_refl uflag_plain(1) [OF l1(2) _ r(1), of h] r(2) udp_later_trans [OF l1(3)] Some
      by (auto simp: uv_udp_init_ex_def ugood_def Let_def)
  qed
qed


section \<open>Binding and connecting\<close>

lemma call_sys: "\<exists>r. call f l = (r, l\<lparr>sys := sys l + 1\<rparr>)"
  by (simp add: call_def)

lemma options_sys:
  fixes l :: "'a udp_loop_scheme"
  shows "\<exists>r j. uv__set_recverr T fd d l = (r, l\<lparr>sys := j\<rparr>)" and "\<exists>r j. uv__set_reuse T fd l = (r, l\<lparr>sys := j\<rparr>)"
  by (auto simp: uv__set_recverr_def uv__set_reuse_def call_def intro: exI [of _ "sys l"])

lemma sys_again: "\<exists>j. (l :: 'a udp_loop_scheme)\<lparr>sys := i\<rparr> = l\<lparr>sys := j\<rparr>" "\<exists>j. (l :: 'a udp_loop_scheme) = l\<lparr>sys := j\<rparr>"
  by (rule exI [of _ i], simp) (rule exI [of _ "sys l"], simp)

lemma bind_options_sys:
  fixes l :: "'a udp_loop_scheme"
  shows "\<exists>r j. bind_options T fd d flags l = (r, l\<lparr>sys := j\<rparr>)"
proof -
  obtain r1 j1 where 1: "(if has_flag flags UV_UDP_LINUX_RECVERR then uv__set_recverr T fd d l else (OK, l)) = (r1, l\<lparr>sys := j1\<rparr>)"
    using options_sys(1) [of T fd d l] sys_again(2) [of l] by (cases "has_flag flags UV_UDP_LINUX_RECVERR") auto
  obtain r2 j2 where 2: "(if has_flag flags UV_UDP_REUSEADDR then uv__set_reuse T fd (l\<lparr>sys := j1\<rparr>) else (OK, l\<lparr>sys := j1\<rparr>)) = (r2, l\<lparr>sys := j2\<rparr>)"
    using options_sys(2) [of T fd "l\<lparr>sys := j1\<rparr>"] by (cases "has_flag flags UV_UDP_REUSEADDR") auto
  obtain r3 j3 where 3: "(if has_flag flags UV_UDP_IPV6ONLY then call (\<lambda>k. sys_setsockopt T k fd) (l\<lparr>sys := j2\<rparr>) else (OK, l\<lparr>sys := j2\<rparr>)) = (r3, l\<lparr>sys := j3\<rparr>)"
    by (cases "has_flag flags UV_UDP_IPV6ONLY") (auto simp: call_def)
  show ?thesis unfolding bind_options_def 1 by (simp add: 2 3) blast
qed

text \<open>The result of a call that may open a socket: when it succeeds the handle has a descriptor.\<close>

definition bound_step :: "nat \<Rightarrow> addr \<Rightarrow> 'a udp_loop_scheme \<Rightarrow> ret \<times> 'a udp_loop_scheme \<Rightarrow> bool" where
  "bound_step k h l p \<longleftrightarrow> udp_inv k {} (snd p) \<and> udp_later l (snd p) \<and> udp (snd p) = udp l \<and> send_req (snd p) = send_req l \<and>
     active_reqs (snd p) = active_reqs l \<and> udps (snd p) = udps l \<and> closing (snd p) h = closing l h \<and> closed (snd p) h = closed l h \<and>
     processing h (snd p) = processing h l \<and> (fst p = OK \<longrightarrow> 0 \<le> stream_fd h (snd p))"

lemma bound_refl: "udp_inv k {} l \<Longrightarrow> r = OK \<longrightarrow> 0 \<le> stream_fd h l \<Longrightarrow> bound_step k h l (r, l)"
  by (simp add: bound_step_def udp_later_refl)

lemma bound_trans: "bound_step k h a (r, b) \<Longrightarrow> bound_step k h b p \<Longrightarrow> bound_step k h a p"
  using udp_later_trans [of a b "snd p"] by (simp add: bound_step_def)

lemma bound_sys: "udp_inv k {} l \<Longrightarrow> r = OK \<longrightarrow> 0 \<le> stream_fd h l \<Longrightarrow> bound_step k h l (r, l\<lparr>sys := j\<rparr>)"
  using sys_later1 [of l j] by (simp add: bound_step_def flag_views stream_fd_def)

lemma plain_flag_bound:
  assumes inv: "udp_inv k {} l" and h: "h \<in> udps l" and fd: "0 \<le> stream_fd h l" and m: "\<And>n. n < 4 \<or> n = 24 \<Longrightarrow> \<not> bit m n"
  shows "bound_step k h l (r, flag_on h m l)" "bound_step k h l (r, flag_off h m l)"
proof -
  have "bit (h_flags (flag_on h m l) h) n = bit (h_flags l h) n" "bit (h_flags (flag_off h m l) h) n = bit (h_flags l h) n" if "n < 4 \<or> n = 24" for n
    using m [OF that] that by (auto simp: flag_shape bit_flags)
  from this [of 0] this [of 1] this [of 24]
  have "closing x h = closing l h \<and> closed x h = closed l h \<and> processing h x = processing h l" if "x = flag_on h m l \<or> x = flag_off h m l" for x
    using that by (auto simp: flag_views udp_flag_bits)
  moreover have "udp x = udp l \<and> send_req x = send_req l \<and> active_reqs x = active_reqs l \<and> udps x = udps l \<and> stream_fd h x = stream_fd h l"
    if "x = flag_on h m l \<or> x = flag_off h m l" for x
    using that by (auto simp: flag_shape udps_def stream_fd_def)
  ultimately show "bound_step k h l (r, flag_on h m l)" "bound_step k h l (r, flag_off h m l)"
    using uflag_plain [OF inv h m] fd unfolding bound_step_def fst_conv snd_conv by metis+
qed

lemma uflag_words: "n < 4 \<or> n = 24 \<Longrightarrow> \<not> bit UV_HANDLE_BOUND n" "n < 4 \<or> n = 24 \<Longrightarrow> \<not> bit UV_HANDLE_IPV6 n"
  "n < 4 \<or> n = 24 \<Longrightarrow> \<not> bit UV_HANDLE_UDP_CONNECTED n"
  using stream_bits by (auto simp: udp_word_bits)

lemma bind_fd_ok:
  assumes inv: "udp_inv k {} l" and h: "h \<in> udps l" and fd: "0 \<le> stream_fd h l"
  shows "bound_step k h l (bind_fd T h d flags l)"
proof -
  obtain r j where o: "bind_options T (stream_fd h l) d flags l = (r, l\<lparr>sys := j\<rparr>)" using bind_options_sys by blast
  note sy = bound_sys [OF inv, of _ h]
  show ?thesis
  proof (cases "r = OK")
    case False
    then show ?thesis using sy [of r j] by (simp add: bind_fd_def o)
  next
    case True
    define r2 where "r2 = sys_bind T j (stream_fd h l)"
    let ?l = "l\<lparr>sys := j + 1\<rparr>"
    have b: "bind_fd T h d flags l = (if r2 \<noteq> OK then (if r2 = Inl UV_EAFNOSUPPORT then Inl UV_EINVAL else r2, ?l)
        else (OK, flag_on h UV_HANDLE_BOUND (if d = AF_INET6 then flag_on h UV_HANDLE_IPV6 ?l else ?l)))"
      by (simp add: bind_fd_def o True call_def r2_def)
    have s1: "bound_step k h l (OK, ?l)" using sy [of OK "j + 1"] fd by simp
    define l2 where "l2 = (if d = AF_INET6 then flag_on h UV_HANDLE_IPV6 ?l else ?l)"
    have s2: "bound_step k h l (OK, l2)"
      using s1 bound_trans [OF s1 plain_flag_bound(1) [OF _ _ _ uflag_words(2)]] h inv fd by (auto simp: l2_def stream_fd_def)
    then have s3: "bound_step k h l (OK, flag_on h UV_HANDLE_BOUND l2)"
      using bound_trans [OF s2 plain_flag_bound(1) [OF _ _ _ uflag_words(1)]] h by (auto simp: bound_step_def)
    show ?thesis
    proof (cases "r2 = OK")
      case True
      then show ?thesis using b s3 by (simp add: l2_def)
    next
      case False
      then show ?thesis using b sy [of "if r2 = Inl UV_EAFNOSUPPORT then Inl UV_EINVAL else r2" "j + 1"] by auto
    qed
  qed
qed

lemma udp_bind_ok:
  assumes inv: "udp_inv k {} l" and h: "h \<in> udps l" and nc: "\<not> closing l h" and s: "stream_fd h l = - 1 \<longrightarrow> fresh_usockets T l"
  shows "bound_step k h l (uv__udp_bind T h d flags l)"
proof (cases "stream_fd h l = - 1")
  case False
  have "- 1 \<le> stream_fd h l" using udp_invD(1) [OF inv] by (simp add: io_inv_def io_masked_def stream_fd_def)
  then have "0 \<le> stream_fd h l" using False by linarith
  then show ?thesis using bind_fd_ok [OF inv h] bound_refl [OF inv] False by (simp add: uv__udp_bind_def)
next
  case True
  obtain r j g where r: "uv__socket T d l = (r, l\<lparr>sys := j, fd_log := g\<rparr>)" "\<forall>fd. r = Inr fd \<longrightarrow> fresh_ufd fd l"
    using usocket [OF s [rule_format, OF True], of d] by blast
  let ?l = "l\<lparr>sys := j, fd_log := g\<rparr>"
  have s1: "bound_step k h l (Inl e, ?l)" for e using inv sys_later [where l = l and j = j and g = g] by (simp add: bound_step_def flag_views)
  show ?thesis
  proof (cases r)
    case (Inl e)
    then show ?thesis using s1 [of e] s1 True r(1) bound_refl [OF inv] by (simp add: uv__udp_bind_def)
  next
    case (Inr fd)
    let ?m = "set_io h ((io ?l h)\<lparr>io_fd := fd\<rparr>) ?l"
    have f: "stream_fd h ?m = fd" "0 \<le> fd" using r(2) Inr by (simp_all add: stream_fd_def set_io_def fresh_ufd_def)
    have "udp_inv k {} ?m" "udp_later ?l ?m"
      using set_ufd_ok [of k "{}" ?l h fd] inv h nc True r(2) Inr by (simp_all add: flag_views stream_fd_def)
    then have s2: "bound_step k h l (Inl UV_EINVAL, ?m)"
      using udp_later_trans [OF sys_later] by (simp add: bound_step_def) (simp add: set_io_def flag_views udps_def processing_def flagged_def)
    have "bound_step k h l (bind_fd T h d flags ?m)"
      using bound_trans [OF s2 bind_fd_ok] s2 h f by (simp add: bound_step_def)
    then show ?thesis using True r(1) Inr bound_refl [OF inv] by (simp add: uv__udp_bind_def)
  qed
qed


lemma fd_nonneg:
  assumes "udp_inv k B l" and "stream_fd h l \<noteq> - 1"
  shows "0 \<le> stream_fd h l"
proof -
  have "- 1 \<le> stream_fd h l" using udp_invD(1) [OF assms(1)] by (simp add: io_inv_def io_masked_def stream_fd_def)
  then show ?thesis using assms(2) by linarith
qed

text \<open>An address from the client is one of the two families, unless the handle has a descriptor.\<close>

definition sendable :: "tcp_sys \<Rightarrow> addr \<Rightarrow> domain option \<Rightarrow> 'a udp_loop_scheme \<Rightarrow> bool" where
  "sendable T h addr l \<longleftrightarrow> (stream_fd h l = - 1 \<longrightarrow> fresh_usockets T l \<and> addr \<in> {None, Some AF_UNSPEC, Some AF_INET4, Some AF_INET6})"

lemma deferred_bind_ok:
  assumes inv: "udp_inv k {} l" and h: "uusable h l" and s: "sendable T h (Some d) l" and d: "d \<noteq> AF_UNSPEC"
  shows "\<exists>r l'. uv__udp_maybe_deferred_bind T h d flags l = Some (r, l') \<and> bound_step k h l (r, l')"
proof (cases "stream_fd h l = - 1")
  case True
  then show ?thesis using udp_bind_ok [OF inv, of h T d flags] h s d
    by (cases "uv__udp_bind T h d flags l") (auto simp: uv__udp_maybe_deferred_bind_def uusable_def sendable_def)
next
  case False
  then show ?thesis using fd_nonneg [OF inv] bound_refl [OF inv, of OK h] by (simp add: uv__udp_maybe_deferred_bind_def)
qed

lemma bind_for_ok:
  assumes inv: "udp_inv k {} l" and h: "uusable h l" and s: "sendable T h addr l"
    and c: "uv__udp_check_before_send h addr l = OK"
  shows "\<exists>r l'. bind_for T h addr l = Some (r, l') \<and> bound_step k h l (r, l')"
proof (cases addr)
  case None
  then have "flagged h UV_HANDLE_UDP_CONNECTED l" using c by (auto simp: uv__udp_check_before_send_def split: if_splits)
  then have "0 \<le> stream_fd h l" using one_udpD(3) [OF udp_invD(4) [OF inv]] h by (auto simp: umode_ok_def uusable_def)
  then show ?thesis using None bound_refl [OF inv, of OK h] by (simp add: bind_for_def)
next
  case (Some d)
  then have "d \<noteq> AF_UNSPEC" using c by (auto simp: uv__udp_check_before_send_def split: if_splits)
  then show ?thesis using Some deferred_bind_ok [OF inv h, of T d 0] s by (simp add: bind_for_def)
qed

lemma bound_usable: "bound_step k h l p \<Longrightarrow> uusable h l \<Longrightarrow> uusable h (snd p)"
  by (simp add: bound_step_def uusable_def)

lemma bound_good: "bound_step k h l p \<Longrightarrow> r = Some p \<Longrightarrow> ugood k l (map_option snd r)"
  by (cases p) (auto simp: bound_step_def ugood_def)

lemma udp_connect_ok:
  assumes T: "tcp_ok T" and inv: "udp_inv k {} l" and h: "uusable h l" and s: "stream_fd h l = - 1 \<longrightarrow> fresh_usockets T l"
  shows "ugood k l (map_option snd (uv_udp_connect T h addr l))"
proof -
  have fin: "\<exists>r j. eintr (\<lambda>k. sys_connect T k fd) (sys l) = Some (r, j)" for fd and l :: "'a udp_loop_scheme"
    using eintr_returns [of "\<lambda>k. sys_connect T k fd" "sys l"] T unfolding tcp_ok_def by blast
  note fl = plain_flag_bound [OF _ _ _ uflag_words(3)]
  have dis: "\<exists>p. uv__udp_disconnect T h l = Some p \<and> bound_step k h l p" if "flagged h UV_HANDLE_UDP_CONNECTED l"
  proof -
    have fd: "0 \<le> stream_fd h l" using one_udpD(3) [OF udp_invD(4) [OF inv]] h that by (auto simp: umode_ok_def uusable_def)
    obtain r j where r: "eintr (\<lambda>k. sys_connect T k (stream_fd h l)) (sys l) = Some (r, j)" using fin by blast
    have s1: "bound_step k h l (q, l\<lparr>sys := j\<rparr>)" for q using bound_sys [OF inv] fd by simp
    have "bound_step k h l (OK, flag_off h UV_HANDLE_UDP_CONNECTED (l\<lparr>sys := j\<rparr>))"
      using bound_trans [OF s1 fl(2)] inv h fd by (simp add: uusable_def stream_fd_def)
    then show ?thesis using s1 [of r] by (simp add: uv__udp_disconnect_def r Let_def)
  qed
  have con: "\<exists>p. uv__udp_connect T h d l = Some p \<and> bound_step k h l p" if d: "d \<in> {AF_INET4, AF_INET6}" for d
  proof -
    obtain e l1 where l1: "uv__udp_maybe_deferred_bind T h d 0 l = Some (e, l1)" "bound_step k h l (e, l1)"
      using deferred_bind_ok [OF inv h, of T d 0] s d by (auto simp: sendable_def)
    show ?thesis
    proof (cases "e = OK")
      case True
      have i1: "udp_inv k {} l1" "0 \<le> stream_fd h l1" "h \<in> udps l1" using l1(2) True h by (auto simp: bound_step_def uusable_def)
      obtain r j where r: "eintr (\<lambda>k. sys_connect T k (stream_fd h l1)) (sys l1) = Some (r, j)" using fin by blast
      have s1: "bound_step k h l (q, l1\<lparr>sys := j\<rparr>)" for q using bound_trans [OF l1(2) bound_sys [OF i1(1)]] i1(2) by simp
      have "bound_step k h l (OK, flag_on h UV_HANDLE_UDP_CONNECTED (l1\<lparr>sys := j\<rparr>))"
        using bound_trans [OF s1 fl(1)] i1 by (simp add: stream_fd_def)
      then show ?thesis using s1 [of r] True by (simp add: uv__udp_connect_def l1(1) r Let_def)
    qed (use l1 in \<open>simp add: uv__udp_connect_def\<close>)
  qed
  have same: "ugood k l (map_option snd (Some (r, l)))" for r using inv udp_later_refl by (simp add: ugood_def)
  have "ugood k l (map_option snd (uv__udp_disconnect T h l))" if "flagged h UV_HANDLE_UDP_CONNECTED l"
    using dis [OF that] bound_good by blast
  moreover have "ugood k l (map_option snd (uv__udp_connect T h d l))" if "d \<in> {AF_INET4, AF_INET6}" for d
    using con [OF that] bound_good by blast
  ultimately show ?thesis using same by (cases addr) (simp_all add: uv_udp_connect_def)
qed

lemma getsockpeername_sys: "\<exists>r j. uv__getsockpeername h func l = (r, l\<lparr>sys := j\<rparr>)" for l :: "'a udp_loop_scheme"
  using sys_again(2) [of l] by (cases "uv_fileno h l") (auto simp: uv__getsockpeername_def call_def)

lemma is_connected_sys: "\<exists>c j. uv__udp_is_connected E h l = (c, l\<lparr>sys := j\<rparr>)"
proof -
  obtain r j where "uv_udp_getpeername E h l = (r, l\<lparr>sys := j\<rparr>)"
    using getsockpeername_sys [of h "sys_getpeername E" l] by (auto simp: uv_udp_getpeername_def)
  then show ?thesis using sys_again(2) [of l] by (cases r) (auto simp: uv__udp_is_connected_def)
qed

lemma udp_open_ok:
  assumes inv: "udp_inv k {} l" and h: "uusable h l" and fr: "fresh_ufd fd l"
  shows "ugood k l (Some (snd (uv_udp_open E T h fd l)))"
proof -
  have same: "ugood k l (Some (l\<lparr>sys := j\<rparr>))" for j using inv sys_later1 by (simp add: ugood_def)
  have same0: "ugood k l (Some l)" using inv udp_later_refl by (simp add: ugood_def)
  show ?thesis
  proof (cases "stream_fd h l \<noteq> - 1 \<or> uv__fd_exists fd l \<or> sys_ioctl T (sys l) fd \<noteq> OK \<or> sys_setsockopt T (sys l + 1) fd \<noteq> OK")
    case True
    then show ?thesis using same same0 by (auto simp: uv_udp_open_def call_def uv__set_reuse_def)
  next
    case False
    let ?l = "l\<lparr>sys := sys l + 2\<rparr>"
    let ?m = "set_io h ((io ?l h)\<lparr>io_fd := fd\<rparr>) ?l"
    have m: "udp_inv k {} ?m" "udp_later l ?m" "stream_fd h ?m = fd" "h \<in> udps ?m"
      using set_ufd_ok [of k "{}" ?l h fd] inv h fr False udp_later_trans [OF sys_later1 [of l "sys l + 2"]]
      by (simp_all add: uusable_def flag_views stream_fd_def) (simp_all add: set_io_def udps_def)
    obtain c j where c: "uv__udp_is_connected E h ?m = (c, ?m\<lparr>sys := j\<rparr>)" using is_connected_sys by blast
    have fd: "0 \<le> stream_fd h (?m\<lparr>sys := j\<rparr>)" using m(3) fr by (simp add: fresh_ufd_def stream_fd_def)
    have s1: "bound_step k h ?m (OK, ?m\<lparr>sys := j\<rparr>)" using bound_sys [OF m(1)] m(3) fr by (simp add: fresh_ufd_def)
    have "bound_step k h ?m (OK, flag_on h UV_HANDLE_UDP_CONNECTED (?m\<lparr>sys := j\<rparr>))"
      using bound_trans [OF s1 plain_flag_bound(1) [OF _ _ fd uflag_words(3)]] m by simp
    then have "ugood k ?m (Some (if c then flag_on h UV_HANDLE_UDP_CONNECTED (?m\<lparr>sys := j\<rparr>) else ?m\<lparr>sys := j\<rparr>))"
      using s1 by (simp add: bound_step_def ugood_def)
    moreover have "snd (uv_udp_open E T h fd l) = (if c then flag_on h UV_HANDLE_UDP_CONNECTED (?m\<lparr>sys := j\<rparr>) else ?m\<lparr>sys := j\<rparr>)"
      using False c by (simp add: uv_udp_open_def call_def uv__set_reuse_def Let_def)
    ultimately show ?thesis using ugood_trans [OF m(2)] by presburger
  qed
qed


section \<open>Receiving\<close>

lemma io_active_polls: "rw_events e \<Longrightarrow> uv__io_active h e l = Some (polls e h l)"
  using rw_valid by (simp add: uv__io_active_def polls_def)

text \<open>New callbacks.\<close>

lemma set_cbs_ok:
  assumes inv: "udp_inv k B l" and h: "h \<in> udps l" and cb: "acb \<noteq> None \<and> rcb \<noteq> None \<or> acb = None \<and> rcb = None \<and> \<not> polls POLLIN h l"
  defines "l' \<equiv> set_udp h (\<lambda>u. u\<lparr>u_alloc_cb := acb, u_recv_cb := rcb\<rparr>) l"
  shows "udp_inv k B l' \<and> udp_later l l'"
proof -
  have eq: "l' = l\<lparr>active_reqs := active_reqs l', udp := (udp l)(h := udp l' h), send_req := send_req l'\<rparr>"
    by (simp add: l'_def set_udp_def)
  have f: "send_req l' = send_req l" "u_completed (udp l' g) = u_completed (udp l g)" "u_queue (udp l' g) = u_queue (udp l g)" "h_flags l' = h_flags l"
    "active_reqs l' = active_reqs l" "io l' = io l" "pend l' = pend l" for g
    by (simp_all add: l'_def set_udp_def pend_def)
  have o: "uout l' h = uout l h" by (simp add: uout_def f)
  have dg: "dgram_size l' = dgram_size l" by (simp add: dgram_size_def f fun_eq_iff)
  note one = one_udpD [OF udp_invD(4) [OF inv h]]
  have "usends_ok l' h" "ulog_ok l' h" using one(1,2) unfolding usends_ok_def ulog_ok_def o dg f by (simp_all add: l'_def set_udp_def)
  moreover have "h \<notin> B \<Longrightarrow> not_stuck l' h"
    using udp_invD(5) [OF inv h] by (simp add: not_stuck_def f flag_views processing_def flagged_def polls_def)
  moreover have "polls POLLIN h l \<Longrightarrow> u_recv_cb (udp l' h) \<noteq> None" "u_recv_cb (udp l' h) \<noteq> None \<Longrightarrow> u_alloc_cb (udp l' h) \<noteq> None"
    using cb by (auto simp: l'_def set_udp_def)
  ultimately have "udp_inv k B l' \<and> loop_later l l'"
    using uqueue_step [where B' = B, OF inv h eq] f o subset_insertI [of B h] by simp
  moreover have "idle_new l l'" by (simp add: l'_def set_udp_def)
  ultimately show ?thesis by (simp add: udp_later_def f processing_def flagged_def)
qed

lemma recv_start_ok:
  assumes inv: "udp_inv k {} l" and h: "uusable h l" and s: "stream_fd h l = - 1 \<longrightarrow> fresh_usockets T l"
  shows "ugood k l (map_option snd (uv_udp_recv_start T h acb rcb l))"
proof -
  have same: "ugood k l (map_option snd (Some (r, l)))" for r using inv udp_later_refl by (simp add: ugood_def)
  have a: "uv__io_active h POLLIN l = Some (polls POLLIN h l)" by (rule io_active_polls) (simp add: rw_events_def)
  show ?thesis
  proof (cases "h_type l h \<noteq> UV_UDP \<or> acb = None \<or> rcb = None \<or> polls POLLIN h l")
    case True
    then show ?thesis using same a by (auto simp: uv_udp_recv_start_def uv__udp_recv_start_def)
  next
    case False
    obtain r l1 where l1: "uv__udp_maybe_deferred_bind T h AF_INET4 0 l = Some (r, l1)" "bound_step k h l (r, l1)"
      using deferred_bind_ok [OF inv h, of T AF_INET4 0] s by (auto simp: sendable_def)
    show ?thesis
    proof (cases "r = OK")
      case False
      then show ?thesis using l1 a \<open>\<not> (h_type l h \<noteq> UV_UDP \<or> acb = None \<or> rcb = None \<or> polls POLLIN h l)\<close>
        by (auto simp: uv_udp_recv_start_def uv__udp_recv_start_def bound_step_def ugood_def)
    next
      case True
      have i1: "udp_inv k {} l1" "udp_later l l1" "h \<in> udps l1" "0 \<le> stream_fd h l1" "\<not> closing l1 h"
        using l1(2) True h by (auto simp: bound_step_def uusable_def)
      let ?l2 = "set_udp h (\<lambda>u. u\<lparr>u_alloc_cb := acb, u_recv_cb := rcb\<rparr>) l1"
      have i2: "udp_inv k {} ?l2" "udp_later l1 ?l2" using set_cbs_ok [OF i1(1,3), of acb rcb] False by auto
      have f2: "h \<in> udps ?l2" "0 \<le> stream_fd h ?l2" "u_recv_cb (udp ?l2 h) \<noteq> None" "\<not> closing ?l2 h"
        using i1 False by (simp_all add: udps_def set_udp_def stream_fd_def flag_views)
      obtain l3 where l3: "uv__io_start h POLLIN ?l2 = Some l3" "udp_inv k {} l3" "udp_later ?l2 l3" "ustep h ?l2 l3" "io_only ?l2 l3"
        using ustart_in [OF i2(1) f2(1-3)] io_start_only by blast
      have "\<not> closing l3 h" using io_only_udp [OF l3(5)] f2(4) by (simp add: flag_views)
      then have "udp_inv k {} (uv__handle_start h l3) \<and> udp_later l3 (uv__handle_start h l3)"
        using uactive_ok [OF l3(2) callback_udp [OF f2(1) l3(3)], of "uv__handle_start h l3"] by blast
      moreover have "uv_udp_recv_start T h acb rcb l = Some (OK, uv__handle_start h l3)"
        using False a l1(1) True l3(1) by (simp add: uv_udp_recv_start_def uv__udp_recv_start_def)
      ultimately show ?thesis using udp_later_trans [OF i1(2) udp_later_trans [OF i2(2) udp_later_trans [OF l3(3)]]] by (simp add: ugood_def)
    qed
  qed
qed

lemma recv_stop_ok:
  assumes inv: "udp_inv k {} l" and h: "h \<in> udps l"
  shows "ugood k l (map_option snd (uv_udp_recv_stop h l))"
proof -
  obtain l1 where l1: "uv__io_stop h POLLIN l = Some l1" "udp_inv k {} l1" "udp_later l l1" "\<not> polls POLLIN h l1"
    using ustop_ok [OF inv h, of POLLIN] by blast
  note h1 = callback_udp [OF h l1(3)]
  have a: "uv__io_active h POLLOUT l1 = Some (polls POLLOUT h l1)" by (rule io_active_polls) (simp add: rw_events_def)
  define l2 where "l2 = (if \<not> polls POLLOUT h l1 then uv__handle_stop h l1 else l1)"
  have l2: "udp_inv k {} l2" "udp_later l1 l2" "io l2 = io l1"
    using uactive_ok [OF l1(2) h1, of "uv__handle_stop h l1"] l1(2) udp_later_refl by (auto simp: l2_def)
  have "uv_udp_recv_stop h l = Some (OK, set_udp h (\<lambda>u. u\<lparr>u_alloc_cb := None, u_recv_cb := None\<rparr>) l2)"
    using l1(1) a h by (simp add: uv_udp_recv_stop_def uv__udp_recv_stop_def udps_def l2_def Let_def)
  then show ?thesis
    using set_cbs_ok [OF l2(1) callback_udp [OF h1 l2(2)], of None None] l1(4) l2(3)
      udp_later_trans [OF l1(3) udp_later_trans [OF l2(2)]] by (simp add: ugood_def polls_def)
qed


section \<open>Sending\<close>

text \<open>A request that is not in use.\<close>

definition new_send :: "addr \<Rightarrow> 'a udp_loop_scheme \<Rightarrow> bool" where
  "new_send r l \<longleftrightarrow> (\<forall>g\<in>udps l. r \<notin> set (uout l g)) \<and> unat (active_reqs l) + 1 < 2 ^ 32"

lemma queue_ok:
  fixes l :: "'a udp_loop_scheme" and addr :: "domain option" and cb :: "nat option"
  assumes inv: "udp_inv k {} l" and h: "uusable h l" and r: "new_send r l" and b: "bufs \<noteq> []"
  defines "l' \<equiv> udp_queue r h bufs addr cb (uv__req_register l)"
  shows "udp_inv k {h} l' \<and> loop_later l l' \<and> h \<in> udps l' \<and> (\<forall>g. processing g l' = processing g l) \<and> \<not> closing l' h \<and> io l' = io l \<and> pend l' = pend l \<and>
    u_queue (udp l' h) = u_queue (udp l h) @ [r] \<and> u_completed (udp l' h) = u_completed (udp l h) \<and> idle_new l l' \<and> (\<forall>g. g \<noteq> h \<longrightarrow> udp l' g = udp l g)"
proof -
  have hu: "h \<in> udps l" "\<not> closing l h" using h by (simp_all add: uusable_def)
  define l1 where "l1 = l\<lparr>active_reqs := active_reqs l + 1,
     udp := (udp l)(h := (udp l h)\<lparr>u_send_size := u_send_size (udp l h) + uv__count_bufs bufs, u_send_count := u_send_count (udp l h) + 1,
       u_queue := u_queue (udp l h) @ [r], u_submitted := u_submitted (udp l h) @ [r]\<rparr>),
     send_req := (send_req l)(r := (send_req l r)\<lparr>s_handle := h, s_cb := cb,
       s_addr := (case addr of None \<Rightarrow> AF_UNSPEC | Some d \<Rightarrow> d), s_bufs := Some bufs\<rparr>)\<rparr>"
  have l': "l' = uv__handle_start h l1"
    unfolding l'_def udp_queue_def Let_def
    by (rule arg_cong [of _ _ "uv__handle_start h"], rule udp_loop.equality)
      (simp_all add: l1_def set_udp_def set_send_def uv__req_register_def)
  have eq: "l1 = l\<lparr>active_reqs := active_reqs l1, udp := (udp l)(h := udp l1 h), send_req := send_req l1\<rparr>" by (simp add: l1_def)
  have f: "h_flags l1 = h_flags l" "io l1 = io l" "pend l1 = pend l" by (simp_all add: l1_def pend_def)
  have old: "s \<noteq> r \<Longrightarrow> send_req l1 s = send_req l s" for s by (simp add: l1_def)
  have nr: "g \<in> udps l \<Longrightarrow> s \<in> set (uout l g) \<Longrightarrow> s \<noteq> r" for g s using r by (auto simp: new_send_def)
  have o: "uout l1 h = uout l h @ [r]" "u_completed (udp l1 h) = u_completed (udp l h)" by (simp_all add: uout_def l1_def)
  have cr: "s \<in> set (u_completed (udp l h)) \<Longrightarrow> s \<noteq> r" for s using nr [OF hu(1)] by (simp add: uout_def)
  note one = one_udpD [OF udp_invD(4) [OF inv hu(1)]]
  have dg: "map (dgram_size l1) (uout l1 h) = map (dgram_size l) (uout l h) @ [length (concat bufs)]"
    using old nr [OF hu(1)] unfolding o by (simp add: dgram_size_def) (simp add: l1_def)
  have nw: "s_handle (send_req l1 r) = h" "s_bufs (send_req l1 r) = Some bufs" by (simp_all add: l1_def)
  have sz: "u_send_size (udp l1 h) = u_send_size (udp l h) + of_nat (length (concat bufs))" "u_send_count (udp l1 h) = u_send_count (udp l h) + 1"
    by (simp_all add: l1_def count_bufs)
  have us: "usends_ok l1 h" unfolding usends_ok_def dg sz
    using one(1) old nr [OF hu(1)] nw by (auto simp: usends_ok_def o)
  have st: "map (\<lambda>x. (x, s_status (send_req l1 x))) (u_completed (udp l h)) = map (\<lambda>x. (x, s_status (send_req l x))) (u_completed (udp l h))"
    using old cr by simp
  have v: "u_called (udp l1 h) = u_called (udp l h)" "u_sent (udp l1 h) = u_sent (udp l h)" "u_submitted (udp l1 h) = u_submitted (udp l h) @ [r]"
    "u_recv_cb (udp l1 h) = u_recv_cb (udp l h)" "u_alloc_cb (udp l1 h) = u_alloc_cb (udp l h)"
    by (simp_all add: l1_def)
  have lg: "ulog_ok l1 h" using one(2) unfolding ulog_ok_def o v st by simp
  have "polls POLLIN h l \<Longrightarrow> u_recv_cb (udp l1 h) \<noteq> None" "u_recv_cb (udp l1 h) \<noteq> None \<Longrightarrow> u_alloc_cb (udp l1 h) \<noteq> None"
    using one(3) by (simp_all add: umode_ok_def v)
  moreover have "g \<in> udps l \<Longrightarrow> g \<noteq> h \<Longrightarrow> s \<in> set (uout l g) \<Longrightarrow> send_req l1 s = send_req l s" for g s using old nr by blast
  moreover have "unat (active_reqs l1) = unat (active_reqs l) + 1"
    using r by (simp add: new_send_def l1_def unat_word_ariths)
  ultimately have i1: "udp_inv k {h} l1 \<and> loop_later l l1 \<and> ustep h l l1"
    using uqueue_step [where B' = "{h}", OF inv hu(1) eq _ _ _ us lg] o(1) by simp
  have h1: "h \<in> udps l1" "\<not> closing l1 h" using hu by (simp_all add: udps_def l1_def flag_views)
  have "udp_inv k {h} l' \<and> udp_later l1 l' \<and> ustep h l1 l'"
    unfolding l' using uactive_ok [OF _ h1(1), of k "{h}" "uv__handle_start h l1"] i1 h1(2) by blast
  moreover have "processing g l' = processing g l" for g by (simp add: l' udp_flag_bits handle_bits f)
  moreover have "u_queue (udp l1 h) = u_queue (udp l h) @ [r]" "g \<noteq> h \<Longrightarrow> udp l1 g = udp l g" "idle_new l l'" for g
    by (simp_all add: l' l1_def)
  ultimately show ?thesis using i1 h1 loop_later_trans [of l l1 l'] callback_udp [OF h1(1)] o(2)
    by (auto simp: udp_later_def l' f)
qed

lemma register_back: "unat (active_reqs l) + 1 < 2 ^ 32 \<Longrightarrow> uv__req_unregister (uv__req_register l) = Some l"
proof -
  assume "unat (active_reqs l) + 1 < 2 ^ 32"
  then have "unat (active_reqs l + 1) = unat (active_reqs l) + 1" by (simp add: unat_word_ariths)
  then have "active_reqs l + 1 > 0" by (simp add: word_gt_0 unat_gt_0 [symmetric])
  then show ?thesis by (simp add: uv__req_unregister_def uv__req_register_def uv__has_active_reqs_def)
qed

lemma count_zero:
  assumes "udp_inv k B l" and "h \<in> udps l"
  shows "u_send_count (udp l h) = 0 \<longleftrightarrow> uout l h = []"
proof -
  have "length (uout l h) \<le> sending l" unfolding sending_def by (rule member_le_sum [OF assms(2)]) simp_all
  moreover have "unat (active_reqs l) < 2 ^ 32" using unsigned_less [of "active_reqs l", where 'a = nat] by simp
  ultimately have "length (uout l h) < 2 ^ 64" using udp_invD(7) [OF assms(1)] by simp
  moreover have "u_send_count (udp l h) = of_nat (length (uout l h))"
    using one_udpD(1) [OF udp_invD(4) [OF assms]] by (simp add: usends_ok_def)
  ultimately show ?thesis 
    by (auto simp: word_of_nat_eq_0_iff dest: nat_dvd_not_less simp flip: length_greater_0_conv)
qed


text \<open>The request is queued; what was queued before is as it was.\<close>

lemma queue_later:
  assumes "udp_inv k {h} l'" "loop_later l l'" and "idle_new l l'" and p: "\<forall>g. processing g l' = processing g l" and nc: "\<not> closing l h"
    and q: "u_completed (udp l' h) = u_completed (udp l h)" "\<forall>g. g \<noteq> h \<longrightarrow> udp l' g = udp l g"
  shows "udp_later l l'"
  using assms unfolding udp_later_def by metis

lemma udp_send_ok:
  assumes K: "udp_kernel_ok E" and inv: "udp_inv k {} l" and h: "uusable h l" and r: "new_send r l" and b: "bufs \<noteq> []" and s: "sendable T h addr l"
  shows "ugood k l (map_option snd (uv_udp_send E T r h bufs addr cb l))"
proof -
  have same: "ugood k l (map_option snd (Some (x, l)))" for x using inv udp_later_refl by (simp add: ugood_def)
  show ?thesis
  proof (cases "uv__udp_check_before_send h addr l = OK")
    case False
    then show ?thesis using same by (simp add: uv_udp_send_def Let_def)
  next
    case c: True
    obtain x l1 where l1: "bind_for T h addr l = Some (x, l1)" "bound_step k h l (x, l1)" using bind_for_ok [OF inv h s c] by blast
    have i1: "udp_inv k {} l1" "udp_later l l1" "uusable h l1" "new_send r l1"
      using l1(2) bound_usable [OF l1(2) h] r by (simp_all add: bound_step_def new_send_def uout_def)
    have h1: "h \<in> udps l1" "\<not> closing l1 h" using i1(3) by (simp_all add: uusable_def)
    let ?l2 = "udp_queue r h bufs addr cb (uv__req_register l1)"
    note q = queue_ok [OF i1(1,3,4) b, of addr cb]
    have i2: "udp_inv k {h} ?l2" "udp_later l1 ?l2" "h \<in> udps ?l2" "processing h ?l2 = processing h l1" "pend ?l2 = pend l1" "stream_fd h ?l2 = stream_fd h l1"
      "u_queue (udp ?l2 h) = u_queue (udp l1 h) @ [r]" "u_completed (udp ?l2 h) = u_completed (udp l1 h)"
      using q queue_later [OF _ _ _ _ h1(2), of k ?l2] by (auto simp: stream_fd_def)
    show ?thesis
    proof (cases "x = OK")
      case False
      then show ?thesis using i1(1,2) b c l1(1) by (simp add: uv_udp_send_def uv__udp_send_def ugood_def Let_def)
    next
      case x: True
      have fd: "0 \<le> stream_fd h l1" using l1(2) x by (simp add: bound_step_def)
      show ?thesis
      proof (cases "length bufs > 4 \<and> \<not> mem_ok (uv__req_register l1) (length bufs * 16)")
        case True
        then show ?thesis using i1(1,2) b c l1(1) x register_back [of l1] i1(4)
          by (simp add: uv_udp_send_def uv__udp_send_def ugood_def Let_def new_send_def)
      next
        case mem: False
        let ?send = "if u_send_count (udp l1 h) = 0 \<and> \<not> flagged h UV_HANDLE_UDP_PROCESSING ?l2
            then Option.bind (uv__udp_sendmsg E h ?l2) (\<lambda>l. if u_queue (udp l h) \<noteq> [] then uv__io_start h POLLOUT l else Some l)
            else uv__io_start h POLLOUT ?l2"
        have send: "uv__udp_send E T r h bufs addr cb l = Option.bind ?send (\<lambda>l. Some (OK, l))"
          unfolding uv__udp_send_def Let_def l1(1) by (simp only: b x mem if_False bind.bind_lunit case_prod_conv not_True_eq_False HOL.simp_thms)
        have "ugood k ?l2 ?send"
        proof (cases "u_send_count (udp l1 h) = 0 \<and> \<not> flagged h UV_HANDLE_UDP_PROCESSING ?l2")
          case True
          then have e: "u_completed (udp ?l2 h) = []" "u_queue (udp ?l2 h) = [r]" "\<not> processing h ?l2"
            using count_zero [OF i1(1) h1(1)] i2(7,8) by (simp_all add: uout_def processing_def)
          obtain l3 where l3: "uv__udp_sendmsg E h ?l2 = Some l3" "udp_inv k {h} l3" "sent_step h ?l2 l3" "udp l3 h = udp ?l2 h \<or> h \<in> pend l3"
            using sendmsg_ok [OF K i2(1,3)] e(2) by auto
          have h3: "h \<in> udps l3" using sent_udps [OF l3(3)] i2(3) by simp
          have f3: "h_flags l3 = h_flags ?l2" "io l3 = io ?l2" "loop_later ?l2 l3" "uout l3 h = [r]" "ustep h ?l2 l3"
            using l3(3) e by (simp_all add: sent_step_def) (simp add: uout_def)
          have nc: "\<not> closing ?l2 h" using q by blast
          have lt3: "udp_later ?l2 l3"
            using f3(3) e(3) nc ustep_frame(6) [OF f3(5)] idle_new_same [OF ustep_frame(1,2) [OF f3(5)]] unfolding udp_later_def by (metis f3(1) processing_def flagged_def)
          show ?thesis
          proof (cases "u_queue (udp l3 h) = []")
            case q0: True
            then have "h \<in> pend l3" using l3(4) e(2) by auto
            then have "not_stuck l3 h" using q0 by (simp add: not_stuck_def)
            then have "udp_inv k {} l3" using l3(2) by (auto simp: udp_inv_def)
            then show ?thesis using True l3(1) q0 lt3 by (simp add: ugood_def)
          next
            case q1: False
            then have "u_completed (udp l3 h) = []" using f3(4) by (cases "u_completed (udp l3 h)") (auto simp: uout_def)
            moreover have "0 \<le> stream_fd h l3" using fd i2(6) by (simp add: stream_fd_def f3(2))
            ultimately obtain l4 where "uv__io_start h POLLOUT l3 = Some l4" "udp_inv k {} l4" "udp_later l3 l4"
              using ustart_out [OF l3(2) h3] by blast
            then show ?thesis using True l3(1) q1 udp_later_trans [OF lt3] by (simp add: ugood_def)
          qed
        next
          case False
          have "u_completed (udp ?l2 h) \<noteq> [] \<longrightarrow> processing h ?l2 \<or> h \<in> pend ?l2"
            using udp_invD(5) [OF i1(1) h1(1)] h1(2) i2(4,5,8) by (simp add: not_stuck_def)
          then obtain l3 where "uv__io_start h POLLOUT ?l2 = Some l3" "udp_inv k {} l3" "udp_later ?l2 l3"
            using ustart_out [OF i2(1,3)] fd i2(6) by auto
          then show ?thesis using False by (auto simp: ugood_def)
        qed
        then have "ugood k l ?send" using ugood_trans [OF i1(2) ugood_trans [OF i2(2)]] by blast
        then obtain l' where l': "?send = Some l'" "udp_inv k {} l'" "udp_later l l'" unfolding ugood_def by blast
        have "uv_udp_send E T r h bufs addr cb l = Some (OK, l')"
          unfolding uv_udp_send_def Let_def send l'(1) by (simp add: c)
        then show ?thesis using l'(2,3) by (simp add: ugood_def)
      qed
    qed
  qed
qed

lemma udp_try_send_ok:
  assumes K: "udp_kernel_ok E" and inv: "udp_inv k {} l" and h: "uusable h l" and b: "bufs \<noteq> []" and s: "sendable T h addr l"
  shows "ugood k l (map_option snd (uv_udp_try_send E T h bufs addr l))"
proof -
  have same: "ugood k l (map_option snd (Some (x, l)))" for x using inv udp_later_refl by (simp add: ugood_def)
  show ?thesis
  proof (cases "uv__udp_check_before_send h addr l")
    case (Inl e)
    then show ?thesis using same by (simp add: uv_udp_try_send_def)
  next
    case (Inr u)
    then have c: "uv__udp_check_before_send h addr l = OK" by simp
    obtain x l1 where l1: "bind_for T h addr l = Some (x, l1)" "bound_step k h l (x, l1)" using bind_for_ok [OF inv h s c] by blast
    have i1: "udp_inv k {} l1" "udp_later l l1" using l1(2) by (simp_all add: bound_step_def)
    have nc: "addr = None \<Longrightarrow> flagged h UV_HANDLE_UDP_CONNECTED l" using c by (auto simp: uv__udp_check_before_send_def split: if_splits)
    obtain q j where q: "eintr (\<lambda>k. sys_sendmsg E k (stream_fd h l1) (case addr of None \<Rightarrow> AF_UNSPEC | Some d \<Rightarrow> d, bufs)) (sys l1) = Some (q, j)"
      using eintr_returns [of "\<lambda>k. sys_sendmsg E k (stream_fd h l1) (case addr of None \<Rightarrow> AF_UNSPEC | Some d \<Rightarrow> d, bufs)" "sys l1"] K
      unfolding udp_kernel_ok_def by blast
    show ?thesis
    proof (cases "u_send_count (udp l h) \<noteq> 0")
      case True
      then show ?thesis using same b Inr by (simp add: uv_udp_try_send_def uv__udp_try_send_def)
    next
      case False
      then show ?thesis using Inr b nc l1(1) q i1 udp_later_trans [OF i1(2) sys_later1 [of l1 j]]
        by (cases x) (auto simp: uv_udp_try_send_def uv__udp_try_send_def ugood_def)
    qed
  qed
qed


section \<open>Closing\<close>

lemma io_close_pend:
  assumes inv: "io_inv l" and c: "uv__io_close h l = Some l'"
  shows "pend l - {h} \<subseteq> pend l'"
proof -
  have ok: "io_ok l" "- 1 \<le> io_fd (io l h)" using inv by (simp_all add: io_inv_def io_masked_def)
  obtain l1 where l1: "uv__io_stop h io_mask l = Some l1" "pending_queue l1 = pending_queue l" "pending_local l1 = pending_local l"
    using io_stop_ok [OF ok(1) valid_io_mask ok(2)] by blast
  have "pending_queue l' = remove1 h (pending_queue l1)" "pending_local l' = remove1 h (pending_local l1)"
    using c by (auto simp: uv__io_close_def l1(1) uv__platform_invalidate_fd_def Let_def split: if_splits)
  then show ?thesis using l1(2,3) by (auto simp: pend_def)
qed

lemma udp_close_ok:
  assumes inv: "udp_inv k {} l" and h: "uusable h l"
  shows "\<exists>l'. uv_close close_udp h cb l = Some l' \<and> udp_inv k {} l' \<and> udp_later l l' \<and> closing l' h \<and> h_close_cb l' h = cb \<and>
    stream_fd h l' = - 1 \<and> closing_handles l' = h # closing_handles l \<and> udp l' = udp l \<and> send_req l' = send_req l \<and> active_reqs l' = active_reqs l \<and>
    handle_queue l' = handle_queue l"
proof -
  have hu: "h \<in> udps l" "\<not> closing l h" "\<not> closed l h" using h by (simp_all add: uusable_def)
  have io: "io_inv l" using udp_invD(1) [OF inv] .
  obtain l1 where l1: "uv__io_close h l = Some l1" "io_inv l1" "io_later l l1" "io_pevents (io l1 h) = 0"
    using io_close_inv [OF io udp_sole [OF inv hu(1)]] by blast
  note o = io_close_only [OF io l1(1)]
  have np: "\<not> polls e h l1" for e by (simp add: polls_def l1(4))
  have i1: "udp_inv k {h} l1" "udp_later l l1"
    using uio_step [where B' = "{h}", OF inv hu(1) o(1) l1(2,3) o(2)] o(3) io_close_pend [OF io l1(1)] np by auto
  have h1: "h \<in> udps l1" "closing l1 h = closing l h" "closed l1 h = closed l h"
    using hu(1) io_only_udp [OF o(1)] by (simp_all add: udps_def flag_views)
  define l2 where "l2 = uv__handle_stop h l1"
  have l2: "udp_inv k {h} l2" "udp_later l1 l2" using uactive_ok [OF i1(1) h1(1), of l2] by (simp_all add: l2_def)
  have f2: "io l2 = io l1" "\<not> active l2 h" "\<not> closing l2 h" "\<not> closed l2 h" "udp l2 = udp l1" "send_req l2 = send_req l1" "h \<in> udps l2"
    "h_type l2 = h_type l" "handle_queue l2 = handle_queue l" "closing_handles l2 = closing_handles l" "active_reqs l2 = active_reqs l"
    using h1 hu io_only_udp [OF o(1)] by (auto simp: l2_def udps_def)
  define l3 where "l3 = (if stream_fd h l2 \<noteq> - 1 then set_io h ((io l2 h)\<lparr>io_fd := - 1\<rparr>) (uv__close_fd (stream_fd h l2) l2) else l2)"
  have cl3: "uv__udp_close h l = Some l3" using l1(1) by (simp add: uv__udp_close_def l2_def l3_def Let_def)
  have f3: "handle_queue l3 = handle_queue l2" "h_type l3 = h_type l2" "h_flags l3 = h_flags l2" "closing_handles l3 = closing_handles l2"
    "active_handles l3 = active_handles l2" "active_reqs l3 = active_reqs l2" "h_close_cb l3 = h_close_cb l2"
    "io l3 = (io l2)(h := (io l2 h)\<lparr>io_fd := - 1\<rparr>)" "inv l3 = inv l2" "table_size l3 = table_size l2" "pending_queue l3 = pending_queue l2"
    "pending_local l3 = pending_local l2" "udp l3 = udp l2" "send_req l3 = send_req l2"
    by (auto simp: l3_def set_io_def uv__close_fd_def table_size_def stream_fd_def)
  define l6 where "l6 = (mark_closing h cb l3)\<lparr>closing_handles := h # closing_handles l3\<rparr>"
  have f: "handle_queue l6 = handle_queue l2" "h_type l6 = h_type l2" "closing_handles l6 = h # closing_handles l2"
    "h_flags l6 = (h_flags l2)(h := add_flag (h_flags l2 h) UV_HANDLE_CLOSING)" "h_close_cb l6 = (h_close_cb l2)(h := cb)"
    "active_handles l6 = active_handles l2" "active_reqs l6 = active_reqs l2" "io l6 = (io l2)(h := (io l2 h)\<lparr>io_fd := - 1\<rparr>)" "inv l6 = inv l2"
    "table_size l6 = table_size l2" "pend l6 = pend l2" "pending_local l6 = pending_local l2" "udp l6 = udp l2" "send_req l6 = send_req l2"
    using f3 by (simp_all add: l6_def mark_closing_def table_size_def pend_def)
  have b: "bit (h_flags l6 g) n \<longleftrightarrow> bit (h_flags l2 g) n \<or> n = 0 \<and> g = h" if "n < 32" for g n using that by (auto simp: f bit_flags)
  have fl: "closing l6 g \<longleftrightarrow> closing l2 g \<or> g = h" "closed l6 g = closed l2 g" "active l6 g = active l2 g" "refd l6 g = refd l2 g"
    "processing g l6 = processing g l2" for g
    using b by (simp_all add: flag_views udp_flag_bits)
  have mark: "uv__udp_close h (mark_closing h cb l) = Some (mark_closing h cb l3)"
  proof -
    have "uv__udp_close h (mark_closing h cb l) = map_option (mark_closing h cb) (uv__udp_close h l)"
      unfolding uv__udp_close_def io_close_mark
      by (simp add: l1(1) stop_mark_closing) (simp add: l2_def [symmetric] stream_fd_def set_io_def mark_closing_def uv__close_fd_def Let_def)
    then show ?thesis by (simp add: cl3)
  qed
  have "closing l6 h" "\<not> closed l6 h" using fl f2(4) by simp_all
  moreover have "uv_close close_udp h cb l = Option.bind (uv__udp_close h (mark_closing h cb l)) (uv__make_close_pending h)"
    using hu by (auto simp: uv_close_def is_closing_iff Let_def udps_def close_udp_def)
  ultimately have cl: "uv_close close_udp h cb l = Some l6"
    unfolding mark by (simp add: uv__make_close_pending_def flag_bits flag_views l6_def)
  have io6: "io_inv l6"
  proof -
    have ok: "io_ok l2" using udp_invD(1) [OF l2(1)] by (simp add: io_inv_def)
    have p2: "io_pevents (io l2 h) = 0" using l1(4) by (simp add: f2)
    have e: "io_events (io l2 h) = 0" using io_ok_told [OF ok, of h] p2 by blast
    have "\<lparr>io_cb = io_cb (io l2 h), io_fd = - 1, io_events = 0, io_pevents = 0\<rparr> = (io l2 h)\<lparr>io_fd := - 1\<rparr>"
      using e p2 by (cases "io l2 h") simp
    then have "uv__io_init h (io_cb (io l2 h)) (- 1) l2 = Some (set_io h ((io l2 h)\<lparr>io_fd := - 1\<rparr>) l2)" by (simp add: uv__io_init_def)
    moreover have "io_legal (IInit h (io_cb (io l2 h)) (- 1)) l2" using p2 by simp
    ultimately have "io_inv (set_io h ((io l2 h)\<lparr>io_fd := - 1\<rparr>) l2)" using io_init_inv [OF udp_invD(1) [OF l2(1)]] by fastforce
    moreover have "io_inv l6 = io_inv (set_io h ((io l2 h)\<lparr>io_fd := - 1\<rparr>) l2)"
      by (rule io_inv_cong) (auto simp: l6_def l3_def mark_closing_def set_io_def uv__close_fd_def stream_fd_def)
    ultimately show ?thesis by simp
  qed
  have hk: "handles_ok l6"
  proof -
    have "handles_ok (mark_closing h cb l2)" by (rule handles_mark_closing [OF udp_invD(2) [OF l2(1)] f2(2)])
    then show ?thesis using handles_ok_cong [of l6 "mark_closing h cb l2"] f by (simp add: mark_closing_def)
  qed
  have tc: "to_close [] l6"
  proof -
    have "h \<notin> set (closing_handles l2)" using udp_invD(3) [OF l2(1)] f2(3) by (auto simp: to_close_def)
    moreover have "h \<in> set (handle_queue l2)" using f2(7) by (simp add: udps_def)
    ultimately show ?thesis using udp_invD(3) [OF l2(1)] f2(4) by (auto simp: to_close_def f fl)
  qed
  have st: "udps l6 = udps l2" by (simp add: udps_def f)
  have ou: "uout l6 g = uout l2 g" "dgram_size l6 = dgram_size l2" for g by (simp_all add: uout_def dgram_size_def f fun_eq_iff)
  have sf: "stream_fd h l6 = - 1" "w \<noteq> h \<Longrightarrow> stream_fd w l6 = stream_fd w l2" "io_pevents (io l6 w) = io_pevents (io l2 w)" for w
    by (simp_all add: stream_fd_def f)
  have us: "usame l2 l6 g" if "g \<noteq> h" for g using that by (simp add: usame_def f)
  note one2 = one_udpD [OF udp_invD(4) [OF l2(1) f2(7)]]
  have one: "one_udp l6 h"
    using one2 fl(1) by (simp add: one_udp_def usends_ok_def ulog_ok_def umode_ok_def ou f(13,14) sf(1) polls_def sf(3))
  have "not_stuck l6 h" using fl(1) by (simp add: not_stuck_def)
  then have i6: "udp_inv k {} l6"
    using udp_frame [OF l2(1) io6 hk tc, of h "{}"] us one sf by (simp add: st ou f(7))
  have "udp_later l2 l6" using f2(3) by (auto simp: udp_later_def loop_later_def f fl io_later_same)
  then show ?thesis
    using cl i6 udp_later_trans [OF i1(2) udp_later_trans [OF l2(2)]] sf(1) fl(1) f(1,3,5,7,13,14) f2(5,6,9-11) io_only_udp [OF o(1)]
    by (intro exI [of _ l6]) simp
qed

end
