(* ===== verification/UV_Udp_Client.thy ===== *)
theory UV_Udp_Client
  imports UV_Udp_Api
begin

text \<open>
  The end of a UDP handle, and programs with UDP handles: whatever calls a client makes, in whatever
  order, from the callbacks or outside, and whatever the kernel answers, no assertion fails, and every
  datagram is reported once and in order.
\<close>

section \<open>Closing\<close>

lemma udp_to_close:
  assumes c: "to_close ps l" and lt: "loop_later l l'" and inv: "udp_inv k B l'"
  shows "to_close ps l'"
proof -
  obtain new where new: "closing_handles l' = new @ closing_handles l" "\<forall>h\<in>set new. h \<in> set (handle_queue l) \<longrightarrow> \<not> closing l h"
    using lt unfolding loop_later_def by blast
  have old: "closing l' g \<and> \<not> closed l' g \<and> g \<in> set (handle_queue l')" if "g \<in> set ps" for g
    using c lt that by (auto simp: to_close_def loop_later_def)
  have "set ps \<inter> set new = {}" using new(2) c by (auto simp: to_close_def)
  moreover have "distinct (closing_handles l')" using udp_invD(3) [OF inv] by (simp add: to_close_def)
  ultimately have "distinct (ps @ closing_handles l')" using c new(1) by (auto simp: to_close_def)
  then show ?thesis using old udp_invD(3) [OF inv] by (auto simp: to_close_def)
qed

lemma udp_kept: "to_close ps l \<Longrightarrow> loop_later l l' \<Longrightarrow> kept l l' ps"
  by (simp add: to_close_def loop_later_def kept_def)

text \<open>No callback is under way.\<close>

definition quiescent :: "'a udp_loop_scheme \<Rightarrow> bool" where
  "quiescent l \<longleftrightarrow> (\<forall>h\<in>udps l. \<not> processing h l)"

lemma busy_calm: "same_busy l l' \<Longrightarrow> quiescent l \<Longrightarrow> quiescent l'"
  unfolding quiescent_def same_busy_def idle_new_def by blast

text \<open>The mark \<open>UV_HANDLE_CLOSED\<close>.\<close>

lemma mark_closed_views:
  fixes l :: "'a udp_loop_scheme"
  shows "handle_queue (mark_closed h l) = handle_queue l" "h_type (mark_closed h l) = h_type l" "closing_handles (mark_closed h l) = closing_handles l"
    "h_close_cb (mark_closed h l) = h_close_cb l" "io (mark_closed h l) = io l" "udp (mark_closed h l) = udp l" "send_req (mark_closed h l) = send_req l"
    "active_reqs (mark_closed h l) = active_reqs l" "active_handles (mark_closed h l) = active_handles l" "pend (mark_closed h l) = pend l"
    "stream_fd g (mark_closed h l) = stream_fd g l" "udps (mark_closed h l) = udps l" "uout (mark_closed h l) g = uout l g"
    "processing g (mark_closed h l) = processing g l"
  by (simp_all add: mark_closed_def set_flags_def pend_def stream_fd_def udps_def uout_def udp_flag_bits bit_flags)

lemma umark_closed_ok:
  assumes inv: "udp_inv k {} l" and c: "h \<in> udps l \<Longrightarrow> closing l h" and n: "h \<notin> set (closing_handles l)"
  shows "udp_inv k {} (mark_closed h l)"
proof -
  let ?l = "mark_closed h l"
  note f = mark_closed_views [where h = h and l = l]
  have ii: "io_inv ?l = io_inv l" unfolding mark_closed_def set_flags_def by (rule io_inv_cong) simp_all
  have hf: "g \<noteq> h \<Longrightarrow> h_flags ?l g = h_flags l g" for g by (simp add: mark_closed_def set_flags_def)
  have dg: "dgram_size ?l = dgram_size l" by (simp add: dgram_size_def f fun_eq_iff)
  have us: "usame l ?l g" if "g \<noteq> h" for g using hf [OF that] by (simp add: usame_def f)
  have fl: "flagged h UV_HANDLE_UDP_CONNECTED ?l = flagged h UV_HANDLE_UDP_CONNECTED l" by (simp add: udp_flag_bits mark_closed_bits)
  have one: "one_udp ?l h" if "h \<in> udps l"
    using one_udpD [OF udp_invD(4) [OF inv that]]
    by (simp add: one_udp_def usends_ok_def ulog_ok_def umode_ok_def f dg fl polls_def mark_closed_flags)
  have stuck: "not_stuck ?l h" if "h \<in> udps l" using c [OF that] by (simp add: not_stuck_def mark_closed_flags)
  have "handles_ok ?l" using udp_invD(2) [OF inv] by (simp add: handles_ok_def alive_handles_def f mark_closed_flags)
  moreover have "to_close [] ?l" using udp_invD(3) [OF inv] n by (auto simp: to_close_def f mark_closed_flags)
  ultimately show ?thesis
    by (intro udp_frame [OF inv _ _ _ _ us]) (use ii udp_invD(1) [OF inv] one stuck in \<open>auto simp: f\<close>)
qed

text \<open>What is left of the requests is cancelled, and the handle goes without a request.\<close>

lemma finish_udp_ok:
  assumes E: "usafe k E" and inv: "udp_inv k {} l" and h: "h \<in> udps l" and c: "closing l h" "\<not> closed l h"
    and t: "to_close (h # ps) l" and q: "quiescent l"
  shows "\<exists>l'. uv__udp_finish_close E h (mark_closed h l) = Some l' \<and> udp_inv k {} l' \<and> to_close ps l' \<and> h \<in> udps l' \<and> quiescent l' \<and>
    closing l' h \<and> uout l' h = [] \<and> h \<notin> set ps \<and> h \<notin> set (closing_handles l') \<and> kept l l' (h # ps) \<and> u_recv_cb (udp l' h) = None"
proof -
  have nc: "h \<notin> set (closing_handles l)" "h \<notin> set ps" using t by (auto simp: to_close_def)
  let ?l = "mark_closed h l"
  note f = mark_closed_views [where h = h and l = l]
  have i1: "udp_inv k {} ?l" using umark_closed_ok [OF inv c(1) nc(1)] by blast
  have c1: "closing ?l h" "closed ?l h" "quiescent ?l" "h \<in> udps ?l" "to_close ps ?l" "\<not> processing h ?l"
    using c q h t nc(2) by (auto simp: mark_closed_flags quiescent_def f to_close_def)
  have fd: "stream_fd h ?l = - 1" using one_udpD(3) [OF udp_invD(4) [OF i1 c1(4)]] c1(1) by (simp add: umode_ok_def)
  have pe: "io_pevents (io ?l h) = 0" by (rule no_uevents [OF i1 fd])
  have act: "uv__io_active h (or POLLIN POLLOUT) ?l = Some False"
    using pe by (simp add: uv__io_active_def valid_events_def io_mask_def POLLIN_def POLLOUT_def POLLPRI_def POLLRDHUP_def)
  let ?l2 = "udp_complete h (length (u_queue (udp ?l h))) (Some UV_ECANCELED) ?l"
  have l2: "udp_inv k {h} ?l2" "loop_later ?l ?l2" "h_flags ?l2 = h_flags ?l" "ustep h ?l ?l2"
    using complete_ok [OF udp_weaken [OF i1] c1(4), of "{}"] by auto
  have f2: "u_queue (udp ?l2 h) = []" "\<not> processing h ?l2" "h \<in> udps ?l2" "closing ?l2 h"
    using c1(1,6) l2(3) later_udp [OF l2(2) c1(4)] by (simp_all add: ucomplete_views processing_def flagged_def)
  obtain l3 where l3: "uv__udp_run_completed E h ?l2 = Some l3" "udp_inv k {} l3" "same_busy ?l2 l3" "u_completed (udp l3 h) = []" "u_queue (udp l3 h) = []"
    using run_completed_ok [OF E l2(1) f2(3,2)] f2(1,4) by auto
  have s3: "same_busy ?l l3" using same_busy_trans [OF flags_busy [OF l2(4,2,3)] l3(3)] .
  note lt = busy_later [OF s3]
  have h3: "h \<in> udps l3" "closing l3 h" "closed l3 h" "quiescent l3" "uout l3 h = []"
    using later_udp [OF lt c1(4)] c1 busy_calm [OF s3 c1(3)] l3(4,5) lt by (auto simp: uout_def loop_later_def udps_def)
  have z: "u_send_size (udp l3 h) = 0" "u_send_count (udp l3 h) = 0"
    using one_udpD(1) [OF udp_invD(4) [OF l3(2) h3(1)]] h3(5) by (simp_all add: usends_ok_def)
  let ?l4 = "set_udp h (\<lambda>u. u\<lparr>u_recv_cb := None, u_alloc_cb := None\<rparr>) l3"
  have v4: "?l4 = set_udp h (\<lambda>u. u\<lparr>u_alloc_cb := None, u_recv_cb := None\<rparr>) l3"
    unfolding set_udp_def by (rule arg_cong [of _ _ "\<lambda>f. udp_update (\<lambda>_. (udp l3)(h := f (udp l3 h))) l3"]) (rule ext, rule uv_udp.equality, simp_all)
  have np: "\<not> polls POLLIN h l3"
  proof -
    have "stream_fd h l3 = - 1" using one_udpD(3) [OF udp_invD(4) [OF l3(2) h3(1)]] h3(2) by (simp add: umode_ok_def)
    then show ?thesis using no_uevents [OF l3(2)] by (simp add: polls_def)
  qed
  have i4: "udp_inv k {} ?l4" "udp_later l3 ?l4" using set_cbs_ok [OF l3(2) h3(1), of None None] np by (simp_all add: v4)
  have s4: "same_busy ?l ?l4" using same_busy_trans [OF s3 later_busy [OF i4(2)]] .
  have "uv__udp_finish_close E h ?l = Some ?l4"
    using act fd l3(1) z by (simp add: uv__udp_finish_close_def)
  moreover have "to_close ps ?l4" using udp_to_close [OF c1(5) busy_later [OF s4] i4(1)] .
  moreover have "h \<in> udps ?l4" "closing ?l4 h" "uout ?l4 h = []" "quiescent ?l4" "u_recv_cb (udp ?l4 h) = None"
    using h3 busy_calm [OF s4 c1(3)] by (simp_all add: udps_def uout_def flag_views set_udp_def)
  moreover have "h \<notin> set (closing_handles ?l4)"
    using h3(3) udp_invD(3) [OF l3(2)] by (auto simp: to_close_def set_udp_def)
  moreover have "kept l ?l4 (h # ps)"
  proof -
    have "kept ?l ?l4 ps" using udp_kept [OF c1(5) busy_later [OF s4]] .
    moreover have "kept ?l ?l4 [h]" using busy_later [OF s4] c1(1,4) by (auto simp: kept_def loop_later_def udps_def)
    ultimately show ?thesis by (simp add: kept_def f)
  qed
  ultimately show ?thesis using i4(1) nc(2) by blast
qed

lemma uunlink_ok:
  assumes inv: "udp_inv k {} l" and h: "h \<in> set (handle_queue l)" and c: "closing l h" and o: "h \<in> udps l \<Longrightarrow> uout l h = []"
    and n: "h \<notin> set (closing_handles l)"
  shows "udp_inv k {} (finish_close_unlink h l)"
proof -
  let ?l = "finish_close_unlink h l"
  have shape: "?l = l\<lparr>h_flags := h_flags ?l, active_handles := active_handles ?l, handle_queue := remove1 h (handle_queue l)\<rparr>"
    by (simp add: finish_close_unlink_def handle_defs Let_def)
  have f: "handle_queue ?l = remove1 h (handle_queue l)" "h_type ?l = h_type l" "io ?l = io l" "udp ?l = udp l" "send_req ?l = send_req l"
    "active_reqs ?l = active_reqs l" "pend ?l = pend l" "closing_handles ?l = closing_handles l"
    by (subst shape, simp add: pend_def)+
  have hf: "g \<noteq> h \<Longrightarrow> h_flags ?l g = h_flags l g" for g by (simp add: finish_close_unlink_def handle_defs Let_def)
  have ii: "io_inv ?l = io_inv l" by (subst shape, rule io_inv_cong) simp_all
  have d: "distinct (handle_queue l)" using udp_invD(2) [OF inv] by (simp add: handles_ok_def)
  have st: "udps ?l = udps l - {h}" using d by (auto simp: udps_def f)
  have us: "usame l ?l g" if "g \<noteq> h" for g using hf [OF that] by (simp add: usame_def f)
  have hk: "handles_ok ?l" by (rule handles_unlink [OF udp_invD(2) [OF inv] h])
  have tc: "to_close [] ?l" using udp_invD(3) [OF inv] n d by (auto simp: to_close_def)
  show ?thesis
    by (rule udp_frame [OF inv _ hk tc, of h "{}"]) (use us o ii udp_invD(1) [OF inv] in \<open>auto simp: st f stream_fd_def\<close>)
qed

definition usafe_close :: "nat \<Rightarrow> (nat \<Rightarrow> addr \<Rightarrow> 'a udp_loop_scheme \<Rightarrow> 'a udp_loop_scheme option) \<Rightarrow> bool" where
  "usafe_close k rc \<longleftrightarrow> (\<forall>cb h l. udp_inv k {} l \<longrightarrow> (\<exists>l'. rc cb h l = Some l' \<and> udp_inv k {} l' \<and> udp_later l l'))"

definition uclosable :: "uv_handle_type \<Rightarrow> bool" where
  "uclosable t \<longleftrightarrow> simple_type t \<or> t = UV_UDP"

lemma finish_close_udp:
  assumes "closing l h" and "\<not> closed l h" and "h_type l h = UV_UDP" and "uv__udp_finish_close E h (mark_closed h l) = Some l1"
  shows "uv__finish_close (finish_udp E) rc h l = close_tail rc h l1"
  using assms by (auto simp: uv__finish_close_def mark_closed_def [symmetric] finish_udp_def mark_closed_views flag_bits flag_views Let_def)

lemma ufinish_close_ok:
  assumes E: "usafe k E" and C: "usafe_close k rc" and inv: "udp_inv k {} l" and t: "to_close (h # ps) l" and q: "quiescent l"
    and ty: "uclosable (h_type l h)"
  shows "\<exists>l'. uv__finish_close (finish_udp E) rc h l = Some (if h_close_cb l h = None then [] else [h], l') \<and>
    udp_inv k {} l' \<and> to_close ps l' \<and> quiescent l' \<and> kept l l' ps"
proof -
  have c: "closing l h" "\<not> closed l h" "h \<in> set (handle_queue l)" "h \<notin> set ps" "h \<notin> set (closing_handles l)" using t by (auto simp: to_close_def)
  note f = mark_closed_views [where h = h and l = l]
  obtain l1 where l1: "uv__finish_close (finish_udp E) rc h l = close_tail rc h l1" "udp_inv k {} l1" "to_close ps l1" "quiescent l1"
    "closing l1 h" "h \<in> set (handle_queue l1)" "h \<in> udps l1 \<Longrightarrow> uout l1 h = []" "h \<notin> set ps" "h \<notin> set (closing_handles l1)"
    "kept l l1 (h # ps)"
  proof (cases "h_type l h = UV_UDP")
    case True
    then have h: "h \<in> udps l" using c by (simp add: udps_def)
    obtain l1 where l1: "uv__udp_finish_close E h (mark_closed h l) = Some l1" "udp_inv k {} l1" "to_close ps l1" "h \<in> udps l1" "quiescent l1"
      "closing l1 h" "uout l1 h = []" "h \<notin> set ps" "h \<notin> set (closing_handles l1)" "kept l l1 (h # ps)"
      using finish_udp_ok [OF E inv h c(1,2) t q] by blast
    have "uv__finish_close (finish_udp E) rc h l = close_tail rc h l1"
      by (rule finish_close_udp [OF c(1,2) True l1(1)])
    then show ?thesis using that l1 by (auto simp: udps_def)
  next
    case False
    then have h: "h \<notin> udps l" by (simp add: udps_def)
    let ?l = "mark_closed h l"
    have "uv__finish_close (finish_udp E) rc h l = close_tail rc h ?l"
      using c ty False by (auto simp: uv__finish_close_def mark_closed_def [symmetric] uclosable_def simple_type_def f flag_bits flag_views Let_def)
    moreover have "to_close ps ?l" using t by (auto simp: to_close_def f mark_closed_flags)
    moreover have "udp_inv k {} ?l" using umark_closed_ok [OF inv _ c(5)] h by blast
    ultimately show ?thesis
      using that [of ?l] q c h by (simp add: f mark_closed_flags quiescent_def kept_def)
  qed
  define l2 where "l2 = finish_close_unlink h l1"
  have d: "distinct (handle_queue l1)" using udp_invD(2) [OF l1(2)] by (simp add: handles_ok_def)
  have l2: "udp_inv k {} l2" "to_close ps l2" "h_close_cb l2 = h_close_cb l1"
    using uunlink_ok [OF l1(2,6,5,7,9)] unlink_to_close [OF l1(3) d l1(8,9)] by (simp_all add: l2_def)
  have q2: "quiescent l2"
  proof -
    have "bit (h_flags l2 g) 24 = bit (h_flags l1 g) 24" for g
      by (simp add: l2_def finish_close_unlink_def Let_def) (auto simp: handle_defs bit_flags Let_def)
    moreover have "udps l2 \<subseteq> udps l1" using set_remove1_subset by (fastforce simp: udps_def l2_def finish_close_unlink_def)
    ultimately show ?thesis using l1(4) by (auto simp: quiescent_def udp_flag_bits)
  qed
  have cb: "h_close_cb l1 h = h_close_cb l h" using l1(10) by (simp add: kept_def)
  have k2: "kept l l2 ps" using l1(10) by (simp add: kept_def l2_def)
  show ?thesis
  proof (cases "h_close_cb l h")
    case None
    then show ?thesis using l1(1) cb l2 q2 k2 by (simp add: close_tail_def l2_def)
  next
    case (Some cb)
    obtain l3 where l3: "rc cb h l2 = Some l3" "udp_inv k {} l3" "udp_later l2 l3" using C l2(1) unfolding usafe_close_def by blast
    note lt = busy_later [OF later_busy [OF l3(3)]]
    then show ?thesis using Some l1(1) cb \<open>h_close_cb l1 h = h_close_cb l h\<close> l3 udp_to_close [OF l2(2) lt l3(2)] busy_calm [OF later_busy [OF l3(3)] q2]
        kept_trans [OF k2 udp_kept [OF l2(2) lt]] l2(3)
      by (simp add: close_tail_def l2_def)
  qed
qed

lemma uclosing_pass_ok:
  assumes E: "usafe k E" and C: "usafe_close k rc"
  shows "udp_inv k {} l \<Longrightarrow> to_close ps l \<Longrightarrow> quiescent l \<Longrightarrow> \<forall>h\<in>set ps. uclosable (h_type l h) \<Longrightarrow>
    \<exists>l'. closing_loop (finish_udp E) rc ps l = Some (filter (\<lambda>h. h_close_cb l h \<noteq> None) ps, l') \<and> udp_inv k {} l' \<and> quiescent l'"
proof (induction ps arbitrary: l)
  case (Cons h ps)
  obtain l1 where l1: "uv__finish_close (finish_udp E) rc h l = Some (if h_close_cb l h = None then [] else [h], l1)"
    "udp_inv k {} l1" "to_close ps l1" "quiescent l1" "kept l l1 ps"
    using ufinish_close_ok [OF E C Cons.prems(1-3)] Cons.prems(4) by auto
  obtain l2 where l2: "closing_loop (finish_udp E) rc ps l1 = Some (filter (\<lambda>h. h_close_cb l1 h \<noteq> None) ps, l2)" "udp_inv k {} l2" "quiescent l2"
    using Cons.IH [OF l1(2-4)] l1(5) Cons.prems(4) by (auto simp: kept_def)
  have "filter (\<lambda>h. h_close_cb l1 h \<noteq> None) ps = filter (\<lambda>h. h_close_cb l h \<noteq> None) ps"
    using l1(5) by (intro filter_cong) (simp_all add: kept_def)
  then show ?case using l1(1) l2 by auto
qed simp

lemma utake_closing:
  assumes inv: "udp_inv k {} l"
  defines "l' \<equiv> l\<lparr>closing_handles := []\<rparr>"
  shows "udp_inv k {} l'" "to_close (closing_handles l) l'"
proof -
  have f: "udps l' = udps l" "uout l' h = uout l h" "dgram_size l' = dgram_size l" "pend l' = pend l" "stream_fd h l' = stream_fd h l"
    "h_flags l' = h_flags l" "io l' = io l" "udp l' = udp l" "send_req l' = send_req l" "active_reqs l' = active_reqs l" for h
    by (simp_all add: l'_def udps_def uout_def dgram_size_def fun_eq_iff pend_def stream_fd_def)
  have s: "usame l l' h" for h by (simp add: usame_def f)
  have "to_close [] l'" by (simp add: l'_def to_close_def)
  moreover have "handles_ok l'" using udp_invD(2) [OF inv] handles_ok_cong [of l' l] by (simp add: l'_def)
  moreover have "io_inv l'" using udp_invD(1) [OF inv] io_inv_cong [of l' l] by (simp add: l'_def)
  moreover have "one_udp l' h" "not_stuck l' h" if "h \<in> udps l" for h
    using usame_parts [OF s, of h] udp_invD(4,5) [OF inv that] by auto
  moreover have "ufds_ok l'" using udp_invD(6) [OF inv] by (simp add: ufds_ok_def f)
  ultimately show "udp_inv k {} l'" using udp_invD(7) [OF inv] by (simp add: udp_inv_def sending_def f)
  show "to_close (closing_handles l) l'" using udp_invD(3) [OF inv] by (simp add: to_close_def l'_def closing_def closed_def)
qed

lemma urun_closing_ok:
  assumes E: "usafe k E" and C: "usafe_close k rc" and inv: "udp_inv k {} l" and q: "quiescent l"
    and ty: "\<forall>h\<in>set (closing_handles l). uclosable (h_type l h)"
  shows "\<exists>l'. uv__run_closing_handles (finish_udp E) rc l = Some (filter (\<lambda>h. h_close_cb l h \<noteq> None) (closing_handles l), l') \<and>
    udp_inv k {} l' \<and> quiescent l'"
proof -
  let ?l = "l\<lparr>closing_handles := []\<rparr>"
  note t = utake_closing [OF inv]
  have "quiescent ?l" using q by (simp add: quiescent_def udps_def processing_def flagged_def)
  then show ?thesis using uclosing_pass_ok [OF E C t] ty by (simp add: uv__run_closing_handles_def)
qed


section \<open>The calls\<close>

datatype udp_api =
    UInit addr u32
  | UOpen addr int
  | UBind addr domain u32
  | UConnect addr "domain option"
  | USend addr addr "u8 list list" "domain option" "nat option"
  | UTry addr "u8 list list" "domain option"
  | URecvStart addr "nat option" "nat option"
  | URecvStop addr
  | UClose addr "nat option"

text \<open>What the documentation asks of a client: memory that is not in use, handles that are initialised and
  not closing, and what the counters can hold.  A datagram to a Unix socket needs a handle that has one.\<close>

definition new_udp :: "addr \<Rightarrow> 'a udp_loop_scheme \<Rightarrow> bool" where
  "new_udp h l \<longleftrightarrow> h \<notin> set (handle_queue l) \<and> length (handle_queue l) + 1 < 2 ^ 32 \<and> io_pevents (io l h) = 0"

fun ulegal :: "tcp_sys \<Rightarrow> udp_api \<Rightarrow> 'a udp_loop_scheme \<Rightarrow> bool" where
  "ulegal T (UInit h flags) l \<longleftrightarrow> new_udp h l \<and> fresh_usockets T l"
| "ulegal T (UOpen h fd) l \<longleftrightarrow> uusable h l \<and> fresh_ufd fd l"
| "ulegal T (UBind h d flags) l \<longleftrightarrow> uusable h l \<and> (stream_fd h l = - 1 \<longrightarrow> fresh_usockets T l)"
| "ulegal T (UConnect h addr) l \<longleftrightarrow> uusable h l \<and> (stream_fd h l = - 1 \<longrightarrow> fresh_usockets T l)"
| "ulegal T (USend r h bufs addr cb) l \<longleftrightarrow> uusable h l \<and> new_send r l \<and> bufs \<noteq> [] \<and> sendable T h addr l"
| "ulegal T (UTry h bufs addr) l \<longleftrightarrow> uusable h l \<and> bufs \<noteq> [] \<and> sendable T h addr l"
| "ulegal T (URecvStart h acb rcb) l \<longleftrightarrow> uusable h l \<and> (stream_fd h l = - 1 \<longrightarrow> fresh_usockets T l)"
| "ulegal T (URecvStop h) l \<longleftrightarrow> h \<in> udps l"
| "ulegal T (UClose h cb) l \<longleftrightarrow> uusable h l"

fun udp_call :: "('a udp_loop_scheme) udp_env \<Rightarrow> tcp_sys \<Rightarrow> udp_api \<Rightarrow> 'a udp_loop_scheme \<Rightarrow> 'a udp_loop_scheme option" where
  "udp_call E T (UInit h flags) l = map_option snd (uv_udp_init_ex T h flags l)"
| "udp_call E T (UOpen h fd) l = Some (snd (uv_udp_open E T h fd l))"
| "udp_call E T (UBind h d flags) l = Some (snd (uv_udp_bind T h d flags l))"
| "udp_call E T (UConnect h addr) l = map_option snd (uv_udp_connect T h addr l)"
| "udp_call E T (USend r h bufs addr cb) l = map_option snd (uv_udp_send E T r h bufs addr cb l)"
| "udp_call E T (UTry h bufs addr) l = map_option snd (uv_udp_try_send E T h bufs addr l)"
| "udp_call E T (URecvStart h acb rcb) l = map_option snd (uv_udp_recv_start T h acb rcb l)"
| "udp_call E T (URecvStop h) l = map_option snd (uv_udp_recv_stop h l)"
| "udp_call E T (UClose h cb) l = uv_close close_udp h cb l"

lemma udp_call_ok:
  assumes E: "udp_kernel_ok E" and T: "tcp_ok T" and inv: "udp_inv k {} l" and lg: "ulegal T a l"
  shows "ugood k l (udp_call E T a l)"
proof (cases a)
  case (UInit h flags)
  then show ?thesis using udp_init_ok [OF inv, of h T flags] lg by (simp add: new_udp_def)
next
  case (UOpen h fd)
  then show ?thesis using udp_open_ok [OF inv, of h fd E T] lg by simp
next
  case (UBind h d flags)
  then show ?thesis using udp_bind_ok [OF inv, of h T d flags] lg inv udp_later_refl
    by (auto simp: uv_udp_bind_def bound_step_def ugood_def uusable_def)
next
  case (UConnect h addr)
  then show ?thesis using udp_connect_ok [OF T inv, of h addr] lg by simp
next
  case (USend r h bufs addr cb)
  then show ?thesis using udp_send_ok [OF E inv, of h r bufs T addr cb] lg by simp
next
  case (UTry h bufs addr)
  then show ?thesis using udp_try_send_ok [OF E inv, of h bufs T addr] lg by simp
next
  case (URecvStart h acb rcb)
  then show ?thesis using recv_start_ok [OF inv, of h T acb rcb] lg by simp
next
  case (URecvStop h)
  then show ?thesis using recv_stop_ok [OF inv, of h] lg by simp
next
  case (UClose h cb)
  then show ?thesis using udp_close_ok [OF inv, of h cb] lg by (auto simp: ugood_def)
qed

interpretation uclient: contract "\<lambda>l. udp_kernel_ok E \<and> tcp_ok T \<and> udp_inv k {} l" "ulegal T" "udp_call E T" udp_later
proof
  show "\<exists>s'. udp_call E T c s = Some s' \<and> (udp_kernel_ok E \<and> tcp_ok T \<and> udp_inv k {} s') \<and> udp_later s s'"
    if "udp_kernel_ok E \<and> tcp_ok T \<and> udp_inv k {} s" "ulegal T c s" for s c
    using udp_call_ok [of E T k s c] that by (auto simp: ugood_def)
qed (auto simp: udp_later_refl elim: udp_later_trans)

section \<open>Programs\<close>

text \<open>A client program: the calls of its callbacks, which may look at the whole state, and the size of its
  buffers.\<close>

record 'l udp_client =
  do_send :: "nat \<Rightarrow> addr \<Rightarrow> ret \<Rightarrow> 'l \<Rightarrow> udp_api list"
  do_recv :: "nat \<Rightarrow> addr \<Rightarrow> u8 list result \<Rightarrow> bool \<Rightarrow> u32 \<Rightarrow> 'l \<Rightarrow> udp_api list"
  do_end :: "nat \<Rightarrow> addr \<Rightarrow> 'l \<Rightarrow> udp_api list"
  do_buf :: "nat \<Rightarrow> addr \<Rightarrow> nat \<Rightarrow> 'l \<Rightarrow> nat"

definition udp_client_env :: "('a udp_loop_scheme) udp_env \<Rightarrow> tcp_sys \<Rightarrow> ('a udp_loop_scheme) udp_client \<Rightarrow> ('a udp_loop_scheme) udp_env" where
  "udp_client_env K T P = K\<lparr>
     on_send := (\<lambda>cb r st l. exec (ulegal T) (udp_call K T) (do_send P cb r st l) l),
     on_recv := (\<lambda>cb h d p fl l. exec (ulegal T) (udp_call K T) (do_recv P cb h d p fl l) l),
     on_buffer := (\<lambda>cb h n l. Some (do_buf P cb h n l, l))\<rparr>"

definition udp_client_close :: "('a udp_loop_scheme) udp_env \<Rightarrow> tcp_sys \<Rightarrow> ('a udp_loop_scheme) udp_client \<Rightarrow> nat \<Rightarrow> addr \<Rightarrow>
    'a udp_loop_scheme \<Rightarrow> 'a udp_loop_scheme option" where
  "udp_client_close K T P cb h l = exec (ulegal T) (udp_call K T) (do_end P cb h l) l"

text \<open>The documentation asks for buffers of at least one datagram when \<open>recvmmsg\<close> is used.\<close>

definition fair_bufs :: "('a udp_loop_scheme) udp_client \<Rightarrow> bool" where
  "fair_bufs P \<longleftrightarrow> (\<forall>cb h n l. uv_udp_using_recvmmsg h l \<longrightarrow> do_buf P cb h n l = 0 \<or> UV__UDP_DGRAM_MAXSIZE \<le> do_buf P cb h n l)"

lemma udp_client_safe:
  assumes "udp_kernel_ok K" and "tcp_ok T" and "fair_bufs P"
  shows "usafe k (udp_client_env K T P)" "usafe_close k (udp_client_close K T P)"
proof -
  have c: "\<exists>l'. exec (ulegal T) (udp_call K T) cs l = Some l' \<and> udp_inv k {} l' \<and> udp_later l l'"
    if "udp_inv k {} l" for cs and l :: "'a udp_loop_scheme"
    using uclient.exec_ok [of K T k l cs] assms that by auto
  have "udp_kernel_ok (udp_client_env K T P)" using assms(1) by (simp add: udp_kernel_ok_def udp_client_env_def)
  then show "usafe k (udp_client_env K T P)" using c assms(3) by (simp add: usafe_def udp_client_env_def fair_bufs_def)
  show "usafe_close k (udp_client_close K T P)" using c by (simp add: usafe_close_def udp_client_close_def)
qed

text \<open>What happens to a loop: a call from outside the callbacks, an event that \<open>uv__io_poll\<close> delivers (never one
  the watcher does not wait for), a watcher of the pending queue, the closing pass.\<close>

datatype udp_event = UCall udp_api | UIo addr u32 | UPending addr | UClosing

fun upossible :: "tcp_sys \<Rightarrow> udp_event \<Rightarrow> 'a udp_loop_scheme \<Rightarrow> bool" where
  "upossible T (UCall a) l \<longleftrightarrow> ulegal T a l"
| "upossible T (UIo h revents) l \<longleftrightarrow> h \<in> udps l \<and> (and revents POLLIN \<noteq> 0 \<longrightarrow> polls POLLIN h l) \<and> (and revents POLLOUT \<noteq> 0 \<longrightarrow> polls POLLOUT h l)"
| "upossible T (UPending h) l \<longleftrightarrow> h \<in> udps l \<and> h \<in> set (pending_queue l)"
| "upossible T UClosing l \<longleftrightarrow> (\<forall>h\<in>set (closing_handles l). uclosable (h_type l h))"

fun uhappen :: "('a udp_loop_scheme) udp_env \<Rightarrow> tcp_sys \<Rightarrow> ('a udp_loop_scheme) udp_client \<Rightarrow> udp_event \<Rightarrow>
    'a udp_loop_scheme \<Rightarrow> 'a udp_loop_scheme option" where
  "uhappen K T P (UCall a) l = udp_call K T a l"
| "uhappen K T P (UIo h revents) l = uv__udp_io (udp_client_env K T P) h revents l"
| "uhappen K T P (UPending h) l = uv__udp_io (udp_client_env K T P) h POLLOUT (l\<lparr>pending_queue := remove1 h (pending_queue l)\<rparr>)"
| "uhappen K T P UClosing l = map_option snd (uv__run_closing_handles (finish_udp (udp_client_env K T P)) (udp_client_close K T P) l)"

definition urun :: "('a udp_loop_scheme) udp_env \<Rightarrow> tcp_sys \<Rightarrow> ('a udp_loop_scheme) udp_client \<Rightarrow> udp_event list \<Rightarrow>
    'a udp_loop_scheme \<Rightarrow> 'a udp_loop_scheme option" where
  "urun K T P evs l = exec (upossible T) (uhappen K T P) evs l"

lemma unpend_ok:
  assumes inv: "udp_inv k {} l" and h: "h \<in> udps l"
  defines "l' \<equiv> l\<lparr>pending_queue := remove1 h (pending_queue l)\<rparr>"
  shows "udp_inv k {h} l'" "udp_later l l'"
proof -
  have "io_only l l'" "io_inv l'" "io_later l l'" using udp_invD(1) [OF inv]
    by (simp_all add: l'_def io_only_def io_pending_inv io_later_same table_size_def)
  moreover have "g \<noteq> h \<Longrightarrow> g \<in> pend l \<Longrightarrow> g \<in> pend l'" for g by (auto simp: l'_def pend_def)
  moreover have "polls POLLIN h l' \<Longrightarrow> u_recv_cb (udp l h) \<noteq> None"
    using one_udpD(3) [OF udp_invD(4) [OF inv h]] by (simp add: umode_ok_def l'_def polls_def)
  moreover have "io l' = io l" by (simp add: l'_def)
  ultimately show "udp_inv k {h} l'" "udp_later l l'"
    using uio_step [where B' = "{h}", OF inv h, of l'] by simp_all
qed

lemma uhappen_ok:
  assumes K: "udp_kernel_ok K" and T: "tcp_ok T" and P: "fair_bufs P" and inv: "udp_inv k {} l" and q: "quiescent l" and p: "upossible T e l"
  shows "\<exists>l'. uhappen K T P e l = Some l' \<and> udp_inv k {} l' \<and> quiescent l'"
proof (cases e)
  case (UCall a)
  then obtain l' where "udp_call K T a l = Some l'" "udp_inv k {} l'" "udp_later l l'"
    using udp_call_ok [OF K T inv, of a] p by (auto simp: ugood_def)
  then show ?thesis using UCall busy_calm [OF later_busy q] by auto
next
  case (UIo h revents)
  have h: "h \<in> udps l" "\<not> processing h l" using p q UIo by (auto simp: quiescent_def)
  have s: "closing l h \<or> u_queue (udp l h) = [] \<or> polls POLLOUT h l" using udp_invD(5) [OF inv h(1)] by (auto simp: not_stuck_def)
  obtain l' where "uv__udp_io (udp_client_env K T P) h revents l = Some l'" "udp_inv k {} l'" "same_busy l l'"
    using udp_io_ok [OF udp_client_safe(1) [OF K T P] inv h _ s] p UIo by auto
  then show ?thesis using UIo busy_calm [OF _ q] by auto
next
  case (UPending h)
  let ?l = "l\<lparr>pending_queue := remove1 h (pending_queue l)\<rparr>"
  have h0: "h \<in> udps l" "\<not> processing h l" using p q UPending by (auto simp: quiescent_def)
  note i = unpend_ok [OF inv h0(1)]
  have h: "h \<in> udps ?l" "\<not> processing h ?l" using h0 by (simp_all add: udps_def processing_def flagged_def)
  have s: "closing ?l h \<or> u_queue (udp ?l h) = [] \<or> polls POLLOUT h ?l"
    using udp_invD(5) [OF inv h0(1)] by (auto simp: not_stuck_def polls_def flag_views)
  have "and POLLOUT POLLIN = (0 :: u32)" "and POLLOUT POLLOUT \<noteq> (0 :: u32)" by (simp_all add: POLLOUT_def POLLIN_def)
  then obtain l' where "uv__udp_io (udp_client_env K T P) h POLLOUT ?l = Some l'" "udp_inv k {} l'" "same_busy ?l l'"
    using udp_io_ok [OF udp_client_safe(1) [OF K T P] i(1) h _ s, of POLLOUT] by auto
  moreover have "quiescent ?l" by (rule busy_calm [OF later_busy [OF i(2)] q])
  ultimately show ?thesis using UPending busy_calm by auto
next
  case UClosing
  then show ?thesis using urun_closing_ok [OF udp_client_safe [OF K T P] inv q] p by auto
qed

interpretation uloop: contract "\<lambda>l. udp_kernel_ok K \<and> tcp_ok T \<and> fair_bufs P \<and> udp_inv k {} l \<and> quiescent l" "upossible T" "uhappen K T P" "\<lambda>_ _. True"
  by unfold_locales (use uhappen_ok in blast)+

text \<open>A loop without UDP handles; its other handles and watchers are arbitrary.\<close>

definition no_udps :: "'a udp_loop_scheme \<Rightarrow> bool" where
  "no_udps l \<longleftrightarrow> io_inv l \<and> handles_ok l \<and> to_close [] l \<and> udps l = {}"

lemma no_udps_inv: "no_udps l \<Longrightarrow> udp_inv (unat (active_reqs l)) {} l \<and> quiescent l"
  by (simp add: no_udps_def udp_inv_def ufds_ok_def sending_def quiescent_def)

lemma urun_ok:
  assumes "udp_kernel_ok K" and "tcp_ok T" and "fair_bufs P" and "no_udps l"
  shows "\<exists>l'. urun K T P evs l = Some l' \<and> udp_inv (unat (active_reqs l)) {} l' \<and> quiescent l'"
  using uloop.exec_ok [of K T P "unat (active_reqs l)" l evs] assms no_udps_inv [OF assms(4)]
  by (auto simp: urun_def)

end
