(* ===== verification/UV_Udp_Props.thy ===== *)
theory UV_Udp_Props
  imports UV_Udp_Client
begin

text \<open>
  What holds of every run of a loop with UDP handles, and a run in which a closed handle stays in the
  queue of pending watchers.
\<close>

section \<open>An example\<close>

text \<open>A kernel whose first answers to a send may be \<open>EAGAIN\<close>, which always has a datagram, and which refuses
  the descriptor \<open>-1\<close>; a client that may close its handle when it receives.\<close>

definition demo_udp_kernel :: "bool \<Rightarrow> udp_loop udp_env" where
  "demo_udp_kernel full = \<lparr>sys_sendmmsg = (\<lambda>k fd ms. if fd = - 1 then Inl UV_EBADF else if full then Inl UV_EAGAIN else Inr (length ms)),
     stale_errno = (\<lambda>k. UV_EAGAIN), sys_sendmsg = (\<lambda>k fd m. Inl UV_EAGAIN), sys_recvmsg = (\<lambda>k fd n. Inr ([1], False)),
     sys_recvmmsg = (\<lambda>k fd n. Inl UV_EAGAIN), sys_getpeername = (\<lambda>k fd. Inl UV_ENOTCONN),
     on_send = (\<lambda>cb r st l. Some l), on_buffer = (\<lambda>cb h n l. Some (n, l)), on_recv = (\<lambda>cb h d p fl l. Some l)\<rparr>"

definition demo_udp_client :: "udp_loop udp_client" where
  "demo_udp_client = \<lparr>do_send = (\<lambda>cb r st l. []), do_recv = (\<lambda>cb h d p fl l. [UClose h None]), do_end = (\<lambda>cb h l. []),
     do_buf = (\<lambda>cb h n l. 65536)\<rparr>"

definition demo_udp_loop :: "udp_loop \<Rightarrow> udp_loop" where
  "demo_udp_loop l = (fresh_io l)\<lparr>handle_queue := [], closing_handles := [], active_handles := 0, active_reqs := 0, h_flags := (\<lambda>_. 0),
     sys := 0\<rparr>"

lemma demo_udp_ok:
  "udp_kernel_ok (demo_udp_kernel full)" "fair_bufs demo_udp_client" "no_udps (demo_udp_loop l)"
proof -
  have u: "uninterrupted f" if "\<And>k. f k \<noteq> Inl UV_EINTR" for f :: "nat \<Rightarrow> 'x result" using that by (auto simp: uninterrupted_def)
  show "udp_kernel_ok (demo_udp_kernel full)" by (simp add: udp_kernel_ok_def demo_udp_kernel_def u)
  show "fair_bufs demo_udp_client" by (simp add: fair_bufs_def demo_udp_client_def UV__UDP_DGRAM_MAXSIZE_def)
  have "io_inv (demo_udp_loop l) = io_inv (fresh_io l)" by (rule io_inv_cong) (simp_all add: demo_udp_loop_def)
  then have "io_inv (demo_udp_loop l)" using fresh_io_inv by blast
  then show "no_udps (demo_udp_loop l)"
    by (simp add: no_udps_def) (simp add: demo_udp_loop_def handles_ok_def alive_handles_def to_close_def udps_def)
qed

text \<open>A datagram is sent at once, and reported from the queue of pending watchers.\<close>

definition demo_udp_events :: "udp_event list" where
  "demo_udp_events = [UCall (UInit 1 0), UCall (UOpen 1 5), UCall (USend 7 1 [[1, 2], [3]] (Some AF_INET4) (Some 0)), UPending 1]"

definition demo_udp_start :: "udp_loop \<Rightarrow> udp_loop \<Rightarrow> bool" where
  "demo_udp_start l0 l \<longleftrightarrow> handle_queue l = [1] \<and> h_type l 1 = UV_UDP \<and> h_flags l 1 = UV_HANDLE_REF \<and> stream_fd 1 l = 5 \<and> io_pevents (io l 1) = 0 \<and>
     udp l 1 = fresh_udp \<and> active_reqs l = 0 \<and> pending_queue l = [] \<and> pending_local l = [] \<and> nwatchers l = 0 \<and> closing_handles l = [] \<and> uusable 1 l"

lemma demo_udp_begin:
  "\<exists>l1 l2. udp_call (demo_udp_kernel full) demo_tcp (UInit 1 0) (demo_udp_loop l) = Some l1 \<and> ulegal demo_tcp (UInit 1 0) (demo_udp_loop l) \<and>
     udp_call (demo_udp_kernel full) demo_tcp (UOpen 1 5) l1 = Some l2 \<and> ulegal demo_tcp (UOpen 1 5) l1 \<and> demo_udp_start (demo_udp_loop l) l2"
proof -
  define l0 where "l0 = demo_udp_loop l"
  obtain l1 where l1: "uv_udp_init_ex demo_tcp 1 0 l0 = Some (OK, l1)" "ulegal demo_tcp (UInit 1 0) l0" and
    f1: "handle_queue l1 = [1]" "h_type l1 1 = UV_UDP" "h_flags l1 = (\<lambda>_. 0)(1 := UV_HANDLE_REF)"
      "io l1 = (\<lambda>_. \<lparr>io_cb = 0, io_fd = - 1, io_events = 0, io_pevents = 0\<rparr>)(1 := \<lparr>io_cb = UDP_IO, io_fd = - 1, io_events = 0, io_pevents = 0\<rparr>)"
      "nwatchers l1 = 0" "active_reqs l1 = 0" "udp l1 1 = fresh_udp" "pending_queue l1 = []" "pending_local l1 = []" "closing_handles l1 = []"
    by (simp add: uv_udp_init_ex_def domain_of_def uv__udp_init_ex_def uv__handle_init_def uv__io_init_def Let_def set_io_def set_udp_def
        l0_def demo_udp_loop_def fresh_io_def new_udp_def has_flag_def fresh_usockets_def demo_tcp_def)
  obtain l2 where l2: "uv_udp_open (demo_udp_kernel full) demo_tcp 1 5 l1 = (OK, l2)" "ulegal demo_tcp (UOpen 1 5) l1" and
    f2: "handle_queue l2 = [1]" "h_type l2 1 = UV_UDP" "h_flags l2 1 = UV_HANDLE_REF" "stream_fd 1 l2 = 5" "io_pevents (io l2 1) = 0"
      "active_reqs l2 = 0" "udp l2 1 = fresh_udp" "pending_queue l2 = []" "pending_local l2 = []" "nwatchers l2 = 0" "closing_handles l2 = []"
    using f1 by (simp add: uv_udp_open_def uv__fd_exists_def uusable_def fresh_ufd_def stream_fd_def udps_def flag_views bit_flags demo_tcp_def call_def
        uv__set_reuse_def uv__udp_is_connected_def uv_udp_getpeername_def uv__getsockpeername_def uv_fileno_def is_closing_iff
        demo_udp_kernel_def Let_def set_io_def)
  have "uusable 1 l2" using f2 by (simp add: uusable_def udps_def flag_views bit_flags)
  then show ?thesis using l1 l2 f2 by (intro exI [of _ l1] exI [of _ l2]) (simp add: l0_def demo_udp_start_def stream_fd_def)
qed

lemma poll_masks: "and POLLOUT POLLIN = (0 :: u32)" "and POLLIN POLLOUT = (0 :: u32)" "POLLOUT \<noteq> 0" "POLLIN \<noteq> 0"
  "and (or POLLIN POLLOUT) POLLIN \<noteq> (0 :: u32)" "and (or POLLIN POLLOUT) POLLOUT \<noteq> (0 :: u32)"
  by (simp_all add: POLLOUT_def POLLIN_def)

lemma urun_step: "upossible T e l \<Longrightarrow> uhappen K T P e l = Some l' \<Longrightarrow> urun K T P (e # evs) l = urun K T P evs l'"
  by (simp add: urun_def)

lemma urun_nil: "urun K T P [] l = Some l"
  by (simp add: urun_def)

lemma demo_udp_prefix:
  "\<exists>l2. demo_udp_start (demo_udp_loop l) l2 \<and> (\<forall>P evs. urun (demo_udp_kernel full) demo_tcp P (UCall (UInit 1 0) # UCall (UOpen 1 5) # evs) (demo_udp_loop l) =
     urun (demo_udp_kernel full) demo_tcp P evs l2) \<and> udp_inv 0 {} l2"
proof -
  obtain l1 l2 where d: "udp_call (demo_udp_kernel full) demo_tcp (UInit 1 0) (demo_udp_loop l) = Some l1" "ulegal demo_tcp (UInit 1 0) (demo_udp_loop l)"
    "udp_call (demo_udp_kernel full) demo_tcp (UOpen 1 5) l1 = Some l2" "ulegal demo_tcp (UOpen 1 5) l1" "demo_udp_start (demo_udp_loop l) l2"
    using demo_udp_begin by blast
  have e: "urun (demo_udp_kernel full) demo_tcp P (UCall (UInit 1 0) # UCall (UOpen 1 5) # evs) (demo_udp_loop l) =
      urun (demo_udp_kernel full) demo_tcp P evs l2" for P evs
    using urun_step [of demo_tcp "UCall (UInit 1 0)" "demo_udp_loop l"] urun_step [of demo_tcp "UCall (UOpen 1 5)" l1] d
    by (simp only: upossible.simps uhappen.simps)
  have "active_reqs (demo_udp_loop l) = 0" by (simp add: demo_udp_loop_def)
  then have "udp_inv 0 {} l2"
    using urun_ok [OF demo_udp_ok(1) demo_ok(2) demo_udp_ok(2,3), of full "[UCall (UInit 1 0), UCall (UOpen 1 5)]" l] e by (simp add: urun_nil)
  then show ?thesis using d(5) e by blast
qed

lemma demo_check:
  assumes "demo_udp_start l0 l"
  shows "uv__udp_check_before_send 1 (Some AF_INET4) l = OK" "bind_for T 1 (Some AF_INET4) l = Some (OK, l)"
    "\<not> processing 1 l" "\<not> closing l 1" "udps l = {1}"
  using assms by (auto simp: demo_udp_start_def uv__udp_check_before_send_def udp_flag_bits bit_flags bind_for_def uv__udp_maybe_deferred_bind_def
      flag_views udps_def)

lemma demo_udp_run:
  "\<exists>l'. urun (demo_udp_kernel False) demo_tcp demo_udp_client demo_udp_events (demo_udp_loop l) = Some l' \<and> 1 \<in> udps l' \<and> \<not> closing l' 1 \<and>
    u_submitted (udp l' 1) = [7] \<and> u_called (udp l' 1) = [(7, Inr 2)] \<and> u_sent (udp l' 1) = [7]"
proof -
  let ?K = "demo_udp_kernel False"
  define l0 where "l0 = demo_udp_loop l"
  obtain l2 where s: "demo_udp_start l0 l2" and e: "\<And>P evs. urun ?K demo_tcp P (UCall (UInit 1 0) # UCall (UOpen 1 5) # evs) l0 = urun ?K demo_tcp P evs l2"
    using demo_udp_prefix [of l False] by (auto simp: l0_def)
  note c = demo_check [OF s]
  have fd: "stream_fd 1 l2 = 5" "active_reqs l2 = 0" "udp l2 1 = fresh_udp" "pending_queue l2 = []" "handle_queue l2 = [1]" "h_type l2 1 = UV_UDP"
    "h_flags l2 1 = UV_HANDLE_REF" "uusable 1 l2" "io_pevents (io l2 1) = 0"
    using s by (simp_all add: demo_udp_start_def)
  have lg: "ulegal demo_tcp (USend 7 1 [[1, 2], [3]] (Some AF_INET4) (Some 0)) l2"
    using fd c(5) by (simp add: new_send_def uout_def fresh_udp_def sendable_def)
  define lq where "lq = udp_queue 7 1 [[1, 2], [3]] (Some AF_INET4) (Some 0) (uv__req_register l2)"
  have fq: "handle_queue lq = [1]" "h_type lq 1 = UV_UDP" "u_completed (udp lq 1) = []" "u_queue (udp lq 1) = [7]" "u_submitted (udp lq 1) = [7]"
    "u_sent (udp lq 1) = []" "u_called (udp lq 1) = []" "pending_queue lq = []" "pending_local lq = []" "nwatchers lq = 0" "active_reqs lq = 1" "io lq = io l2" "stream_fd 1 lq = 5"
    "h_flags lq = h_flags (uv__handle_start 1 l2)"
    "s_cb (send_req lq 7) = Some 0" "s_bufs (send_req lq 7) = Some [[1, 2], [3]]"
    using fd s by (simp_all add: demo_udp_start_def lq_def udp_queue_def Let_def set_udp_def set_send_def uv__req_register_def fresh_udp_def stream_fd_def handle_defs)
  have pq: "\<not> processing 1 lq" "closing lq 1 = closing l2 1"
    using c(3) by (simp_all add: udp_flag_bits flag_views fq(14) handle_bits)
  define l3 where "l3 = uv__io_feed 1 (udp_complete 1 1 None (lq\<lparr>sys := sys lq + 1\<rparr>))"
  have sm: "uv__udp_sendmsg ?K 1 lq = Some l3"
    using fq by (simp add: uv__udp_sendmsg_def write_queue_drain.simps messages_def eintr.simps demo_udp_kernel_def l3_def ucomplete_views stream_fd_def Let_def)
  have f3: "handle_queue l3 = [1]" "h_type l3 1 = UV_UDP" "u_completed (udp l3 1) = [7]" "u_queue (udp l3 1) = []" "u_submitted (udp l3 1) = [7]" "u_sent (udp l3 1) = [7]"
      "u_called (udp l3 1) = []" "pending_queue l3 = [1]" "active_reqs l3 = 1" "io l3 = io l2" "nwatchers l3 = 0" "h_flags l3 = h_flags lq"
      "s_cb (send_req l3 7) = Some 0" "s_bufs (send_req l3 7) = Some [[1, 2], [3]]" "s_status (send_req l3 7) = Inr 2"
    using fq by (simp_all add: l3_def udp_complete_def uv__io_feed_def set_udp_def Let_def)
  have l3: "uv_udp_send ?K demo_tcp 7 1 [[1, 2], [3]] (Some AF_INET4) (Some 0) l2 = Some (OK, l3)"
    using c pq(1) sm f3(4) fd(3) by (simp add: uv_udp_send_def uv__udp_send_def Let_def processing_def lq_def fresh_udp_def)
  let ?E = "udp_client_env ?K demo_tcp demo_udp_client"
  let ?l = "l3\<lparr>pending_queue := []\<rparr>"
  define l4 where "l4 = flag_on 1 UV_HANDLE_UDP_PROCESSING ?l"
  define l5 where "l5 = l4\<lparr>active_reqs := 0, udp := (udp l4)(1 := (udp l4 1)\<lparr>u_completed := [], u_send_size := u_send_size (udp l4 1) - 3,
      u_send_count := u_send_count (udp l4 1) - 1, u_called := [(7, Inr 2)]\<rparr>), send_req := (send_req l4)(7 := (send_req l4 7)\<lparr>s_bufs := None\<rparr>)\<rparr>"
  have f4: "udp l4 = udp l3" "send_req l4 = send_req l3" "io l4 = io l3" "nwatchers l4 = nwatchers l3" "active_reqs l4 = 1"
    using f3 by (simp_all add: l4_def flag_shape)
  have lp: "run_completed_loop ?E 1 l4 = Some l5"
    using f3 f4 by (simp add: run_completed_loop.simps udp_send_done_def uv__req_unregister_def uv__has_active_reqs_def set_udp_def set_send_def l5_def
        uv__count_bufs_def call_send_def udp_client_env_def demo_udp_client_def)
  have f5: "u_queue (udp l5 1) = []" "io l5 = io l2" "nwatchers l5 = 0" "handle_queue l5 = [1]" "h_type l5 1 = UV_UDP"
    using f3 f4 by (simp_all add: l5_def l4_def flag_shape)
  define l6 where "l6 = flag_off 1 UV_HANDLE_UDP_PROCESSING (uv__handle_stop 1 l5)"
  have v: "valid_events POLLOUT" "uv__io_active 1 POLLIN l5 = Some False"
    using fd(9) rw_valid io_active_polls [of POLLIN 1 l5] by (simp_all add: rw_events_def f5(2) polls_def)
  have st: "uv__io_stop 1 POLLOUT l5 = Some l5" using v(1) f5(2,3) fd(1) by (simp add: uv__io_stop_def stream_fd_def)
  have np: "\<not> flagged 1 UV_HANDLE_UDP_PROCESSING ?l" using pq(1) f3(12) by (simp add: udp_flag_bits)
  have "uv__udp_run_completed ?E 1 ?l = Some l6"
    using np lp st v(2) f5(1) by (simp add: uv__udp_run_completed_def l4_def l6_def)
  then have "uv__udp_io ?E 1 POLLOUT ?l = Some l6"
    using f3 poll_masks by (simp add: uv__udp_io_def uv__udp_sendmsg_def)
  then have pe: "uhappen ?K demo_tcp demo_udp_client (UPending 1) l3 = Some l6" using f3(8) by simp
  have po: "upossible demo_tcp (UPending 1) l3" using f3 by (simp add: udps_def)
  have "urun ?K demo_tcp demo_udp_client demo_udp_events l0 = Some l6"
    unfolding demo_udp_events_def e using urun_step [OF po pe] urun_step [of demo_tcp "UCall (USend 7 1 [[1, 2], [3]] (Some AF_INET4) (Some 0))" l2] lg l3
    by (simp only: upossible.simps uhappen.simps udp_call.simps option.map snd_conv urun_nil)
  moreover have "1 \<in> udps l6" using f5 by (simp add: udps_def l6_def flag_shape)
  moreover have "\<not> closing l6 1"
    using c(4) pq(2) f3(12) by (simp add: l6_def l5_def l4_def flag_views flag_shape bit_flags handle_bits udp_word_bits)
  moreover have "u_submitted (udp l6 1) = [7]" "u_called (udp l6 1) = [(7, Inr 2)]" "u_sent (udp l6 1) = [7]"
    using f3 f4 by (simp_all add: l6_def l5_def flag_shape)
  ultimately show ?thesis by (auto simp: l0_def)
qed

section \<open>What holds of every run\<close>

lemma usizes:
  assumes "udp_inv k B l" and "h \<in> udps l"
  shows "unat (u_send_count (udp l h)) = length (uout l h)"
proof -
  have "length (uout l h) \<le> sending l" unfolding sending_def by (rule member_le_sum [OF assms(2)]) simp_all
  moreover have "unat (active_reqs l) < 2 ^ 32" using unsigned_less [of "active_reqs l", where 'a = nat] by simp
  ultimately have "length (uout l h) < 2 ^ 64" using udp_invD(7) [OF assms(1)] by simp
  moreover have "u_send_count (udp l h) = of_nat (length (uout l h))"
    using one_udpD(1) [OF udp_invD(4) [OF assms]] by (simp add: usends_ok_def)
  ultimately show ?thesis by (simp add: unat_of_nat)
qed








text \<open>C39. When the loop finishes closing a UDP handle, the callbacks of all its datagrams have run before the close
  callback: every accepted datagram has been reported, in order, both queues are empty, both counters are zero as
  the code asserts, and no receive callback is left.\<close>

theorem udp_close_cancels:
  assumes "usafe k E" and "udp_inv k {} l" and "quiescent l" and "h \<in> udps l" and "to_close (h # ps) l"
  shows "\<exists>l'. uv__udp_finish_close E h (set_flags h (add_flag (h_flags l h) UV_HANDLE_CLOSED) l) = Some l' \<and>
    map fst (u_called (udp l' h)) = u_submitted (udp l' h) \<and> u_queue (udp l' h) = [] \<and> u_completed (udp l' h) = [] \<and>
    u_send_size (udp l' h) = 0 \<and> u_send_count (udp l' h) = 0 \<and> u_recv_cb (udp l' h) = None \<and> udp_inv k {} l'"
proof -
  have c: "closing l h" "\<not> closed l h" using assms(5) by (simp_all add: to_close_def)
  obtain l' where l': "uv__udp_finish_close E h (mark_closed h l) = Some l'" "udp_inv k {} l'" "h \<in> udps l'" "uout l' h = []" "u_recv_cb (udp l' h) = None"
    using finish_udp_ok [OF assms(1,2,4) c assms(5,3)] by blast
  note one = one_udpD [OF udp_invD(4) [OF l'(2,3)]]
  show ?thesis using l' one(1,2) by (simp add: usends_ok_def ulog_ok_def mark_closed_def) (simp add: uout_def)
qed

theorem udp_close_cancels_witness:
  "\<exists>l l' :: udp_loop. 1 \<in> udps l \<and> closing l 1 \<and> udp_inv 0 {} l \<and>
    uv__udp_finish_close (udp_client_env (demo_udp_kernel False) demo_tcp demo_udp_client) 1 (set_flags 1 (add_flag (h_flags l 1) UV_HANDLE_CLOSED) l) = Some l' \<and>
    map fst (u_called (udp l' 1)) = u_submitted (udp l' 1) \<and> u_send_count (udp l' 1) = 0"
proof -
  fix l :: udp_loop
  obtain l1 where s: "demo_udp_start (demo_udp_loop l) l1" and i1: "udp_inv 0 {} l1" using demo_udp_prefix by blast
  have u: "uusable 1 l1" using s by (simp add: demo_udp_start_def)
  obtain l2 where l2: "udp_inv 0 {} l2" "udp_later l1 l2" "closing l2 1" "closing_handles l2 = 1 # closing_handles l1"
    using udp_close_ok [OF i1 u, of None] by blast
  define l3 where "l3 = l2\<lparr>closing_handles := []\<rparr>"
  have l3: "udp_inv 0 {} l3" "to_close (1 # closing_handles l1) l3" using utake_closing [OF l2(1)] l2(4) by (simp_all add: l3_def)
  have "quiescent l1" using demo_check [OF s] by (simp add: quiescent_def)
  then have "quiescent l2" using busy_calm [OF later_busy [OF l2(2)]] by blast
  then have q: "quiescent l3" by (simp add: l3_def quiescent_def udps_def processing_def flagged_def)
  have "1 \<in> udps l2" using callback_udp [OF _ l2(2)] demo_check(5) [OF s] by simp
  then have h: "1 \<in> udps l3" "closing l3 1" using l2(3) by (simp_all add: l3_def udps_def closing_def)
  show ?thesis
    using udp_close_cancels [OF udp_client_safe(1) [OF demo_udp_ok(1) demo_ok(2) demo_udp_ok(2)] l3(1) q h(1) l3(2), of False] h l3(1) by blast
qed


section \<open>A closed handle in the queue of pending watchers\<close>

definition dangling_events :: "udp_event list" where
  "dangling_events = [UCall (UInit 1 0), UCall (UOpen 1 5), UCall (URecvStart 1 (Some 0) (Some 0)), UCall (USend 7 1 [[1]] (Some AF_INET4) None),
     UIo 1 (or POLLIN POLLOUT), UClosing]"

text \<open>A handle that reads and has a datagram in its queue, which the kernel did not take.\<close>

definition held_back :: "udp_loop \<Rightarrow> bool" where
  "held_back l \<longleftrightarrow> udp_inv 0 {} l \<and> handle_queue l = [1] \<and> uusable 1 l \<and> quiescent l \<and> stream_fd 1 l = 5 \<and>
     io_pevents (io l 1) = or POLLIN POLLOUT \<and> u_queue (udp l 1) = [7] \<and> u_completed (udp l 1) = [] \<and> u_recv_cb (udp l 1) = Some 0 \<and>
     u_alloc_cb (udp l 1) = Some 0 \<and> s_cb (send_req l 7) = None \<and> s_bufs (send_req l 7) = Some [[1]] \<and> active_reqs l = 1 \<and> closing_handles l = [] \<and>
     \<not> uv_udp_using_recvmmsg 1 l"

lemma demo_held_back:
  "\<exists>l4. held_back l4 \<and> (\<forall>P evs. urun (demo_udp_kernel True) demo_tcp P (take 4 dangling_events @ evs) (demo_udp_loop l) =
     urun (demo_udp_kernel True) demo_tcp P evs l4)"
proof -
  let ?K = "demo_udp_kernel True"
  define l0 where "l0 = demo_udp_loop l"
  obtain l2 where s: "demo_udp_start l0 l2" and i2: "udp_inv 0 {} l2" and
    e: "\<And>P evs. urun ?K demo_tcp P (UCall (UInit 1 0) # UCall (UOpen 1 5) # evs) l0 = urun ?K demo_tcp P evs l2"
    using demo_udp_prefix [of l True] by (auto simp: l0_def)
  note c = demo_check [OF s]
  have fd: "stream_fd 1 l2 = 5" "active_reqs l2 = 0" "udp l2 1 = fresh_udp" "handle_queue l2 = [1]" "h_type l2 1 = UV_UDP" "closing_handles l2 = []"
    "h_flags l2 1 = UV_HANDLE_REF" "uusable 1 l2" "io_pevents (io l2 1) = 0"
    using s by (simp_all add: demo_udp_start_def)
  define la where "la = set_udp 1 (\<lambda>u. u\<lparr>u_alloc_cb := Some 0, u_recv_cb := Some 0\<rparr>) l2"
  have ia: "udp_inv 0 {} la" using set_cbs_ok [OF i2, of 1 "Some 0" "Some 0"] c(5) by (simp add: la_def)
  have fa: "io la = io l2" "1 \<in> udps la" "0 \<le> stream_fd 1 la" "handle_queue la = [1]" "h_flags la = h_flags l2"
    "u_recv_cb (udp la 1) \<noteq> None" "u_queue (udp la 1) = []" "u_completed (udp la 1) = []" "u_send_count (udp la 1) = 0"
    using fd by (simp_all add: la_def set_udp_def udps_def stream_fd_def fresh_udp_def)
  obtain lb where lb: "uv__io_start 1 POLLIN la = Some lb" "io_only la lb" "pend lb = pend la"
      "io lb = (io la)(1 := (io la 1)\<lparr>io_pevents := or (io_pevents (io la 1)) POLLIN\<rparr>)"
    using ustart [OF ia fa(2,3), of POLLIN] by (auto simp: rw_events_def)
  note ob = io_only_udp [OF lb(2)]
  define l3 where "l3 = uv__handle_start 1 lb"
  have rs: "uv_udp_recv_start demo_tcp 1 (Some 0) (Some 0) l2 = Some (OK, l3)"
    using fd lb(1) io_active_polls [of POLLIN 1 l2] rw_valid
    by (simp add: uv_udp_recv_start_def uv__udp_recv_start_def rw_events_def polls_def uv__udp_maybe_deferred_bind_def la_def [symmetric] l3_def del: One_nat_def)
  have f3: "udp l3 = udp la" "io l3 = io lb" "h_flags l3 = h_flags (uv__handle_start 1 lb)" "handle_queue l3 = [1]" "h_type l3 1 = UV_UDP" "active_reqs l3 = 0"
    "closing_handles l3 = []" "stream_fd 1 l3 = 5" "io_pevents (io l3 1) = POLLIN"
    using fd fa ob lb(4) by (simp_all add: l3_def la_def set_udp_def stream_fd_def)
  have lg3: "ulegal demo_tcp (URecvStart 1 (Some 0) (Some 0)) l2" using fd by simp
  have i3: "udp_inv 0 {} l3"
    using udp_call_ok [OF demo_udp_ok(1) demo_ok(2) i2 lg3, of True] rs by (simp add: ugood_def)
  have b3: "bit (h_flags l3 1) n = bit (h_flags l2 1) n" if "n \<noteq> 2" for n
    using that by (simp add: f3(3) handle_bits ob fa(5))
  have u3: "uusable 1 l3" using fd(8) f3(4,5) b3 [of 0] b3 [of 1] by (simp add: uusable_def udps_def flag_views)
  have us3: "udps l3 = {1}" using f3(4,5) by (auto simp: udps_def)
  have n3: "new_send 7 l3" using us3 f3(1,6) fa(7,8) by (simp add: new_send_def uout_def)
  define lq where "lq = udp_queue 7 1 [[1]] (Some AF_INET4) None (uv__req_register l3)"
  have q: "udp_inv 0 {1} lq" "1 \<in> udps lq" "\<forall>g. processing g lq = processing g l3" "io lq = io l3" "u_queue (udp lq 1) = [7]" "u_completed (udp lq 1) = []"
    "\<not> closing lq 1"
    using queue_ok [OF i3 u3 n3, of "[[1]]" "Some AF_INET4" None] fa(7,8) by (simp_all add: lq_def f3(1))
  have fq: "s_cb (send_req lq 7) = None" "s_bufs (send_req lq 7) = Some [[1]]" "active_reqs lq = 1" "handle_queue lq = [1]" "closing_handles lq = []"
    "h_type lq 1 = UV_UDP" "u_recv_cb (udp lq 1) = Some 0" "u_alloc_cb (udp lq 1) = Some 0"
    using f3 by (simp_all add: lq_def udp_queue_def Let_def set_udp_def set_send_def uv__req_register_def la_def)
  have bq: "n \<noteq> 2 \<Longrightarrow> bit (h_flags lq 1) n = bit (h_flags l3 1) n" for n
    by (simp add: lq_def udp_queue_def Let_def handle_bits set_udp_def set_send_def uv__req_register_def)
  define ls where "ls = lq\<lparr>sys := sys lq + 1\<rparr>"
  have sm: "uv__udp_sendmsg ?K 1 lq = Some ls"
    using q fq f3(8) by (simp add: uv__udp_sendmsg_def write_queue_drain.simps messages_def eintr.simps demo_udp_kernel_def ls_def stream_fd_def Let_def)
  have fs: "0 \<le> stream_fd 1 ls" "io_pevents (io ls 1) = POLLIN" "io_fd (io ls 1) = 5" using f3(8,9) q(4) by (simp_all add: ls_def stream_fd_def)
  have iS: "udp_inv 0 {1} ls" "1 \<in> udps ls" using q(1,2) by (simp_all add: ls_def)
  obtain l4 where l4: "uv__io_start 1 POLLOUT ls = Some l4" "io_only ls l4" "io l4 = (io ls)(1 := (io ls 1)\<lparr>io_pevents := or (io_pevents (io ls 1)) POLLOUT\<rparr>)"
    using ustart [OF iS fs(1), of POLLOUT] by (auto simp: rw_events_def)
  note o4 = io_only_udp [OF l4(2)]
  have np: "\<not> processing 1 lq" using q(3) b3 [of 24] c(3) by (simp add: udp_flag_bits)
  have cb: "uv__udp_check_before_send 1 (Some AF_INET4) l3 = OK" "bind_for demo_tcp 1 (Some AF_INET4) l3 = Some (OK, l3)"
    using c(1) fd(5) f3(5,8) b3 [of 25]
    by (simp_all add: uv__udp_check_before_send_def udp_flag_bits bind_for_def uv__udp_maybe_deferred_bind_def split: if_splits)
  have sd: "uv_udp_send ?K demo_tcp 7 1 [[1]] (Some AF_INET4) None l3 = Some (OK, l4)"
    using cb np sm l4(1) q(5) f3(1) fa(9) by (simp add: uv_udp_send_def uv__udp_send_def Let_def processing_def lq_def [symmetric] ls_def del: One_nat_def)
  have lg4: "ulegal demo_tcp (USend 7 1 [[1]] (Some AF_INET4) None) l3" using u3 n3 f3(8) by (simp add: sendable_def)
  have i4: "udp_inv 0 {} l4"
    using udp_call_ok [OF demo_udp_ok(1) demo_ok(2) i3 lg4, of True] sd by (simp add: ugood_def)
  have b4: "bit (h_flags l4 1) n = bit (h_flags l2 1) n" if "n \<noteq> 2" for n
    using that b3 bq by (simp add: o4 ls_def)
  have "uusable 1 l4" using fd(8) o4 fq(4,6) b4 [of 0] b4 [of 1] by (simp add: uusable_def udps_def flag_views ls_def)
  moreover have "quiescent l4"
  proof -
    have "udps l4 = {1}" using o4 fq(4,6) by (auto simp: udps_def ls_def)
    then show ?thesis using b4 [of 24] c(3) by (simp add: quiescent_def udp_flag_bits)
  qed
  moreover have "\<not> uv_udp_using_recvmmsg 1 l4"
  proof -
    have "bit (h_flags l4 1) 26 = bit UV_HANDLE_REF 26" using b4 [of 26] fd(7) by simp
    moreover have "uv_udp_using_recvmmsg 1 l4 = bit (h_flags l4 1) 26"
      by (simp add: uv_udp_using_recvmmsg_def flagged_def has_flag_def UV_HANDLE_UDP_RECVMMSG_def bit_iff_and_push_bit_not_eq_0)
    ultimately show ?thesis by (simp add: bit_flags)
  qed
  ultimately have "held_back l4"
    using i4 o4 fq q(5,6) fs(2,3) l4(3) by (simp add: held_back_def ls_def stream_fd_def)
  moreover have "urun ?K demo_tcp P (take 4 dangling_events @ evs) l0 = urun ?K demo_tcp P evs l4" for P evs
    using urun_step [of demo_tcp "UCall (URecvStart 1 (Some 0) (Some 0))" l2 ?K P l3] lg3 rs
      urun_step [of demo_tcp "UCall (USend 7 1 [[1]] (Some AF_INET4) None)" l3 ?K P l4] lg4 sd
    by (simp add: dangling_events_def e del: ulegal.simps One_nat_def)
  ultimately show ?thesis by (auto simp: l0_def)
qed


text \<open>What stays as it is when the last requests of a handle without a descriptor are reported.\<close>

definition alike :: "udp_loop \<Rightarrow> udp_loop \<Rightarrow> bool" where
  "alike l l' \<longleftrightarrow> handle_queue l' = handle_queue l \<and> h_type l' = h_type l \<and> closing_handles l' = closing_handles l \<and> h_close_cb l' = h_close_cb l \<and>
     io l' = io l \<and> pend l' = pend l"

lemma run_completed_tail:
  assumes "stream_fd h l = - 1" and "\<not> processing h l" and "run_completed_loop E h (flag_on h UV_HANDLE_UDP_PROCESSING l) = Some l1" and "alike l l1"
  shows "\<exists>l'. uv__udp_run_completed E h l = Some l' \<and> alike l l' \<and> udp l' = udp l1"
proof -
  have io: "io l1 = io l" "stream_fd h l1 = - 1" using assms(1,4) by (simp_all add: alike_def stream_fd_def)
  have v: "valid_events POLLOUT" using rw_valid by (simp add: rw_events_def)
  have st: "uv__io_stop h POLLOUT l1 = Some l1" using io(2) v by (simp add: uv__io_stop_def stream_fd_def)
  have ac: "uv__io_active h POLLIN l1 = Some (polls POLLIN h l1)" by (rule io_active_polls) (simp add: rw_events_def)
  let ?l2 = "if u_queue (udp l1 h) = [] \<and> \<not> polls POLLIN h l1 then uv__handle_stop h l1 else l1"
  have "uv__udp_run_completed E h l = Some (flag_off h UV_HANDLE_UDP_PROCESSING ?l2)"
    using assms(2,3) st ac by (simp add: uv__udp_run_completed_def processing_def)
  moreover have "alike l ?l2" using assms(4) by (simp add: alike_def)
  then have "alike l (flag_off h UV_HANDLE_UDP_PROCESSING ?l2)"
    unfolding alike_def flag_shape by (simp only: pend_def) simp
  moreover have "udp (flag_off h UV_HANDLE_UDP_PROCESSING ?l2) = udp l1" by (simp add: flag_shape)
  ultimately show ?thesis by blast
qed

lemma finish_empty:
  assumes "stream_fd h l = - 1" and "io_pevents (io l h) = 0" and "\<not> processing h l" and "u_queue (udp l h) = []" and "u_completed (udp l h) = []"
    and "u_send_size (udp l h) = 0" and "u_send_count (udp l h) = 0"
  shows "\<exists>l'. uv__udp_finish_close E h l = Some l' \<and> alike l l'"
proof -
  let ?l = "udp_complete h 0 (Some UV_ECANCELED) l"
  have c: "stream_fd h ?l = - 1" "\<not> processing h ?l" "u_completed (udp ?l h) = []" "alike l ?l" "u_send_size (udp ?l h) = 0" "u_send_count (udp ?l h) = 0"
    using assms by (simp_all add: udp_complete_def set_udp_def stream_fd_def processing_def flagged_def alike_def pend_def)
  have "run_completed_loop E h (flag_on h UV_HANDLE_UDP_PROCESSING ?l) = Some (flag_on h UV_HANDLE_UDP_PROCESSING ?l)"
    using c(3) by (subst run_completed_loop.simps) (simp add: flag_shape)
  then obtain l2 where l2: "uv__udp_run_completed E h ?l = Some l2" "alike ?l l2" "udp l2 = udp ?l"
    using run_completed_tail [OF c(1,2)] by (force simp: flag_shape alike_def pend_def)
  have ac: "uv__io_active h (or POLLIN POLLOUT) l = Some False"
    using assms(2) by (simp add: uv__io_active_def valid_events_def io_mask_def POLLIN_def POLLOUT_def POLLPRI_def POLLRDHUP_def)
  have "uv__udp_finish_close E h l = Some (set_udp h (\<lambda>u. u\<lparr>u_recv_cb := None, u_alloc_cb := None\<rparr>) l2)"
    using ac assms(1,4) l2(1,3) c(5,6) by (simp add: uv__udp_finish_close_def)
  moreover have "alike l (set_udp h (\<lambda>u. u\<lparr>u_recv_cb := None, u_alloc_cb := None\<rparr>) l2)"
    using c(4) l2(2) by (simp add: alike_def set_udp_def pend_def)
  ultimately show ?thesis by blast
qed

text \<open>The receive callback closes the handle, and \<open>uv__udp_io\<close> goes on to send what is in its queue.\<close>

lemma held_back_io:
  assumes w: "held_back l"
  defines "E \<equiv> udp_client_env (demo_udp_kernel True) demo_tcp demo_udp_client"
  shows "\<exists>l'. uv__udp_io E 1 (or POLLIN POLLOUT) l = Some l' \<and> handle_queue l' = [1] \<and> closing_handles l' = [1] \<and> h_close_cb l' 1 = None \<and>
    1 \<in> pend l' \<and> u_queue (udp l' 1) = [] \<and> u_completed (udp l' 1) = []"
proof -
  note W = w [unfolded held_back_def]
  let ?l = "l\<lparr>sys := sys l + 1\<rparr>"
  have u: "udp_inv 0 {} ?l" "uusable 1 ?l" using W by (simp_all add: uusable_def flag_views)
  obtain l5 where l5: "uv_close close_udp 1 None ?l = Some l5" "udp_inv 0 {} l5" "udp_later ?l l5" "closing l5 1" "h_close_cb l5 1 = None"
    "stream_fd 1 l5 = - 1" "closing_handles l5 = 1 # closing_handles ?l" "udp l5 = udp ?l" "send_req l5 = send_req ?l" "active_reqs l5 = active_reqs ?l"
    "handle_queue l5 = handle_queue ?l"
    using udp_close_ok [OF u, of None] by blast
  have rc: "uv__udp_recvmsg E 1 l = Some l5"
    using W u(2) l5(1,6) by (simp add: uv__udp_recvmsg_def recvmsg_loop.simps recv_one_def eintr.simps E_def udp_client_env_def demo_udp_client_def
        demo_udp_kernel_def call_recv_def Let_def)
  define l6 where "l6 = uv__io_feed 1 (udp_complete 1 1 (Some UV_EBADF) (l5\<lparr>sys := sys l5 + 1\<rparr>))"
  have sm: "uv__udp_sendmsg E 1 l5 = Some l6"
    using W l5(6,8,9) by (simp add: uv__udp_sendmsg_def write_queue_drain.simps messages_def eintr.simps E_def udp_client_env_def demo_udp_kernel_def
        l6_def Let_def)
  have f6: "u_completed (udp l6 1) = [7]" "u_queue (udp l6 1) = []" "s_cb (send_req l6 7) = None" "s_bufs (send_req l6 7) = Some [[1]]"
    "active_reqs l6 = 1" "io l6 = io l5" "h_flags l6 = h_flags l5" "1 \<in> pend l6" "handle_queue l6 = [1]" "closing_handles l6 = [1]" "h_close_cb l6 1 = None"
    using W l5(5,7-11) by (simp_all add: l6_def udp_complete_def uv__io_feed_def set_udp_def pend_def Let_def)
  have "1 \<in> udps ?l" using W by (simp add: uusable_def)
  then have "\<not> processing 1 l5" using l5(3) W by (simp add: udp_later_def quiescent_def)
  then have np: "\<not> processing 1 l6" by (simp add: processing_def flagged_def f6(7))
  let ?p = "flag_on 1 UV_HANDLE_UDP_PROCESSING l6"
  define l7 where "l7 = the (udp_send_done 1 7 (set_udp 1 (\<lambda>u. u\<lparr>u_completed := []\<rparr>) ?p))"
  have d: "udp_send_done 1 7 (set_udp 1 (\<lambda>u. u\<lparr>u_completed := []\<rparr>) ?p) = Some l7" "u_completed (udp l7 1) = []" "u_queue (udp l7 1) = []"
    "s_cb (send_req l7 7) = None" "alike l6 l7"
    using f6 by (simp_all add: l7_def udp_send_done_def set_udp_def set_send_def uv__req_unregister_def uv__has_active_reqs_def flag_shape alike_def pend_def)
  have "run_completed_loop E 1 ?p = Some l7"
    using f6(1) d(1,2,4) by (subst run_completed_loop.simps) (simp add: flag_shape call_send_def run_completed_loop.simps)
  then obtain l8 where l8: "uv__udp_run_completed E 1 l6 = Some l8" "alike l6 l8" "udp l8 = udp l7"
    using run_completed_tail [OF _ np _ d(5)] l5(6) f6(6) by (auto simp: stream_fd_def)
  have "h_type l 1 = UV_UDP" using W by (simp add: uusable_def udps_def)
  then have "uv__udp_io E 1 (or POLLIN POLLOUT) l = Some l8"
    using poll_masks rc sm l8(1) by (simp add: uv__udp_io_def)
  then show ?thesis using l8(2,3) f6(8-11) d(2,3) by (simp add: alike_def)
qed


text \<open>C40. When a receive callback closes its handle while a datagram is in the queue and the same event is ready for
  writing, the closed handle stays in the queue of pending watchers: from an empty loop, six legal steps lead to a
  loop that has no handle any more, and has its watcher in the queue.  The next iteration calls it, after the
  memory has been given back.\<close>

theorem udp_closed_still_pending:
  "\<exists>l'. urun (demo_udp_kernel True) demo_tcp demo_udp_client dangling_events (demo_udp_loop l) = Some l' \<and>
    handle_queue l' = [] \<and> closing_handles l' = [] \<and> 1 \<in> set (pending_queue l') \<union> set (pending_local l')"
proof -
  let ?K = "demo_udp_kernel True"
  let ?E = "udp_client_env ?K demo_tcp demo_udp_client"
  obtain l4 where w: "held_back l4" and e: "\<And>evs. urun ?K demo_tcp demo_udp_client (take 4 dangling_events @ evs) (demo_udp_loop l) =
      urun ?K demo_tcp demo_udp_client evs l4"
    using demo_held_back by blast
  note W = w [unfolded held_back_def]
  obtain l8 where l8: "uv__udp_io ?E 1 (or POLLIN POLLOUT) l4 = Some l8" "handle_queue l8 = [1]" "closing_handles l8 = [1]" "h_close_cb l8 1 = None"
    "1 \<in> pend l8" "u_queue (udp l8 1) = []" "u_completed (udp l8 1) = []"
    using held_back_io [OF w] by blast
  have p: "polls POLLIN 1 l4" "polls POLLOUT 1 l4" using W poll_masks by (simp_all add: polls_def)
  have u4: "upossible demo_tcp (UIo 1 (or POLLIN POLLOUT)) l4" using W p by (simp add: uusable_def)
  have h4: "uhappen ?K demo_tcp demo_udp_client (UIo 1 (or POLLIN POLLOUT)) l4 = Some l8" using l8(1) by simp
  have "udp_inv 0 {} l4" "quiescent l4" using W by simp_all
  then have i8: "udp_inv 0 {} l8" "quiescent l8" 
    using uhappen_ok [OF demo_udp_ok(1) demo_ok(2) demo_udp_ok(2) _ _ u4, of 0 True] h4 by (metis option.inject)+
  obtain l' where "uv__udp_io ?E 1 (or POLLIN POLLOUT) l4 = Some l'" "same_busy l4 l'"
    using udp_io_ok [OF udp_client_safe(1) [OF demo_udp_ok(1) demo_ok(2) demo_udp_ok(2)] \<open>udp_inv 0 {} l4\<close>, of 1 "or POLLIN POLLOUT" True] W p
    by (auto simp: uusable_def quiescent_def)
  then have h8: "1 \<in> udps l8" using l8(1) later_udp [OF busy_later, of l4 l8 1] W by (simp add: uusable_def)
  have c8: "closing l8 1" "\<not> closed l8 1" using udp_invD(3) [OF i8(1)] l8(3) by (simp_all add: to_close_def)
  let ?c = "l8\<lparr>closing_handles := []\<rparr>"
  have ic: "udp_inv 0 {} (mark_closed 1 ?c)" "stream_fd 1 (mark_closed 1 ?c) = - 1"
  proof -
    have c: "udp_inv 0 {} ?c" "udps ?c = udps l8" "closing ?c 1" using utake_closing(1) [OF i8(1)] c8(1) by (simp_all add: udps_def closing_def)
    show "udp_inv 0 {} (mark_closed 1 ?c)" using umark_closed_ok [OF c(1)] c(3) by simp
    show "stream_fd 1 (mark_closed 1 ?c) = - 1" using one_udpD(3) [OF udp_invD(4) [OF i8(1) h8]] c8(1)
      by (simp add: umode_ok_def mark_closed_views stream_fd_def)
  qed
  have hm: "1 \<in> udps (mark_closed 1 ?c)" using h8 by (simp add: mark_closed_views udps_def)
  have "u_send_size (udp (mark_closed 1 ?c) 1) = 0 \<and> u_send_count (udp (mark_closed 1 ?c) 1) = 0"
    using one_udpD(1) [OF udp_invD(4) [OF ic(1) hm]] l8(6,7) by (simp add: usends_ok_def uout_def mark_closed_views)
  moreover have "\<not> processing 1 (mark_closed 1 ?c)"
    using i8(2) h8 by (simp add: mark_closed_views quiescent_def) (simp add: processing_def flagged_def)
  ultimately obtain l9 where l9: "uv__udp_finish_close ?E 1 (mark_closed 1 ?c) = Some l9" "alike (mark_closed 1 ?c) l9"
    using finish_empty [OF ic(2) no_uevents [OF ic]] l8(6,7) by (auto simp: mark_closed_views)
  have ty: "h_type l8 1 = UV_UDP" using h8 by (simp add: udps_def)
  define l10 where "l10 = finish_close_unlink 1 l9"
  have f10: "handle_queue l10 = []" "closing_handles l10 = []" "pend l10 = pend l8" "h_close_cb l10 1 = None"
    using l9(2) l8(2-4) by (simp_all add: l10_def alike_def mark_closed_views) (simp_all add: pend_def finish_close_unlink_def handle_defs Let_def)
  have "uv__finish_close (finish_udp ?E) (udp_client_close ?K demo_tcp demo_udp_client) 1 ?c = Some ([], l10)"
    using finish_close_udp [of ?c 1, OF _ _ _ l9(1)] c8 ty f10(4) by (simp add: close_tail_def l10_def [symmetric] closing_def closed_def del: One_nat_def)
  then have "uhappen ?K demo_tcp demo_udp_client UClosing l8 = Some l10" using l8(3) by (simp add: uv__run_closing_handles_def)
  moreover have "upossible demo_tcp UClosing l8" using l8(3) ty by (simp add: uclosable_def)
  ultimately have "urun ?K demo_tcp demo_udp_client [UIo 1 (or POLLIN POLLOUT), UClosing] l4 = Some l10"
    using urun_step [OF u4 h4, of "[UClosing]"] urun_step [of demo_tcp UClosing l8 ?K demo_udp_client l10 "[]"] by (simp only: urun_nil)
  then have "urun ?K demo_tcp demo_udp_client dangling_events (demo_udp_loop l) = Some l10"
    using e [of "[UIo 1 (or POLLIN POLLOUT), UClosing]"] by (simp add: dangling_events_def)
  moreover have "1 \<in> pend l10" using f10(3) l8(5) by simp
  ultimately show ?thesis using f10(1,2) unfolding pend_def by blast
qed


section \<open>A buffer that is too small\<close>

text \<open>With \<open>UV_UDP_RECVMMSG\<close> and a buffer of less than one datagram, \<open>recvmmsg\<close> is asked for no message and
  returns none, which takes nothing from the budget: the event never ends.\<close>

lemma recvmmsg_small_buffer:
  fixes l :: udp_loop
  assumes buf: "\<And>l :: udp_loop. on_buffer E acb h UV__UDP_DGRAM_MAXSIZE l = Some (n, l)" "0 < n" "n < UV__UDP_DGRAM_MAXSIZE"
    and none: "\<And>k fd. sys_recvmmsg E k fd 0 = Inr []" and cb: "\<And>rcb d p fl l. on_recv E rcb h d p fl l = Some l"
    and l: "uv_udp_using_recvmmsg h l" "u_alloc_cb (udp l h) = Some acb" "u_recv_cb (udp l h) \<noteq> None" "stream_fd h l \<noteq> - 1" "0 < b"
  shows "recvmsg_loop E h b l = None"
proof -
  have mm: "\<exists>l1. uv__udp_recvmmsg E h n l = Some (0, l1) \<and> uv_udp_using_recvmmsg h l1 \<and> u_alloc_cb (udp l1 h) = Some acb \<and>
      u_recv_cb (udp l1 h) \<noteq> None \<and> stream_fd h l1 \<noteq> - 1"
    if "uv_udp_using_recvmmsg h l" "u_alloc_cb (udp l h) = Some acb" "u_recv_cb (udp l h) \<noteq> None" "stream_fd h l \<noteq> - 1" for l
    using that buf(3) none cb by (auto simp: uv__udp_recvmmsg_def eintr.simps call_recv_def Let_def uv_udp_using_recvmmsg_def flagged_def stream_fd_def)
  let ?P = "\<lambda>E' h' b l (l' :: udp_loop). E' = E \<longrightarrow> h' = h \<longrightarrow> uv_udp_using_recvmmsg h l \<longrightarrow> u_alloc_cb (udp l h) = Some acb \<longrightarrow>
    u_recv_cb (udp l h) \<noteq> None \<longrightarrow> stream_fd h l \<noteq> - 1 \<longrightarrow> 0 < b \<longrightarrow> False"
  have "?P E h b l l'" if "recvmsg_loop E h b l = Some l'" for l'
  proof (rule recvmsg_loop.raw_induct [of ?P, OF _ that], intro impI)
    fix loop E' h' b l l'
    assume IH: "\<And>E' h' b l l'. loop E' h' b l = Some l' \<Longrightarrow> ?P E' h' b l l'"
      and e: "Option.bind (u_alloc_cb (udp l h')) (\<lambda>acb. Option.bind (on_buffer E' acb h' UV__UDP_DGRAM_MAXSIZE l) (\<lambda>(len, l).
        if len = 0 then call_recv E' h' (Inl UV_ENOBUFS) False 0 l
        else (let mmsg = uv_udp_using_recvmmsg h' l
          in Option.bind (if mmsg then uv__udp_recvmmsg E' h' len l else recv_one E' h' len l) (\<lambda>(nread, l).
               let budget = (if \<not> mmsg then b - 1 else if nread > 0 then b - nread else b)
               in if nread \<noteq> - 1 \<and> budget > 0 \<and> stream_fd h' l \<noteq> - 1 \<and> u_recv_cb (udp l h') \<noteq> None
                  then loop E' h' budget l else Some l)))) = Some l'"
      and a: "E' = E" "h' = h" "uv_udp_using_recvmmsg h l" "u_alloc_cb (udp l h) = Some acb" "u_recv_cb (udp l h) \<noteq> None" "stream_fd h l \<noteq> - 1" "0 < b"
    obtain l1 where l1: "uv__udp_recvmmsg E h n l = Some (0, l1)" "uv_udp_using_recvmmsg h l1" "u_alloc_cb (udp l1 h) = Some acb"
      "u_recv_cb (udp l1 h) \<noteq> None" "stream_fd h l1 \<noteq> - 1" using mm [OF a(3-6)] by blast
    have "loop E h b l1 = Some l'" using e a buf(1,2) l1 by (simp add: Let_def)
    then show False using IH a(7) l1(2-5) by blast
  qed
  then show ?thesis using l by (cases "recvmsg_loop E h b l") blast+
qed

end
