(* ===== verification/UV_Udp_Opts.thy ===== *)
theory UV_Udp_Opts
  imports UV_Udp_Client UV_Inet
begin

text \<open>
  The options of UDP handles (src/unix/udp.c): multicast groups, time to live, broadcast.  They parse
  addresses with the functions of src/inet.c, may bind the handle, and hand the kernel one option.
\<close>

section \<open>What the kernel is asked\<close>

datatype opt_level = SOL_SOCKET | IPPROTO_IP | IPPROTO_IPV6

datatype opt_name =
    IP_ADD_MEMBERSHIP | IP_DROP_MEMBERSHIP | IPV6_ADD_MEMBERSHIP | IPV6_DROP_MEMBERSHIP
  | IP_ADD_SOURCE_MEMBERSHIP | IP_DROP_SOURCE_MEMBERSHIP | MCAST_JOIN_SOURCE_GROUP | MCAST_LEAVE_SOURCE_GROUP
  | SO_BROADCAST | IP_TTL | IPV6_UNICAST_HOPS | IP_MULTICAST_TTL | IPV6_MULTICAST_HOPS | IP_MULTICAST_LOOP | IPV6_MULTICAST_LOOP
  | IP_MULTICAST_IF | IPV6_MULTICAST_IF

text \<open>The value: a number, the structs \<open>ip_mreq\<close> (interface and group), \<open>ipv6_mreq\<close>, \<open>ip_mreq_source\<close>
  (interface, group, source) and \<open>group_source_req\<close>, an address, a scope.\<close>

datatype opt_value =
    Val int
  | Ip_mreq "u8 list" "u8 list"
  | Ipv6_mreq u32 "u8 list"
  | Ip_mreq_source "u8 list" "u8 list" "u8 list"
  | Group_source_req u32 sockaddr_in6 sockaddr_in6
  | In_addr "u8 list"
  | Scope u32

record opt_sys =
  sys_option :: "nat \<Rightarrow> int \<Rightarrow> opt_level \<Rightarrow> opt_name \<Rightarrow> opt_value \<Rightarrow> ret"
  name_to_index :: "string \<Rightarrow> u32"
  host_le :: bool

definition UV_LEAVE_GROUP :: int where "UV_LEAVE_GROUP = 0"
definition UV_JOIN_GROUP :: int where "UV_JOIN_GROUP = 1"

definition INADDR_ANY :: "u8 list" where "INADDR_ANY = replicate 4 0"

definition set_option :: "opt_sys \<Rightarrow> addr \<Rightarrow> opt_level \<Rightarrow> opt_name \<Rightarrow> opt_value \<Rightarrow> 'a stream_loop_scheme \<Rightarrow> ret \<times> 'a stream_loop_scheme" where
  "set_option K h level name v l = call (\<lambda>k. sys_option K k (stream_fd h l) level name v) l"

section \<open>Multicast groups\<close>

definition interface4 :: "string option \<Rightarrow> u8 list result" where
  "interface4 iface = (case iface of None \<Rightarrow> Inr INADDR_ANY | Some s \<Rightarrow> uv_inet_pton AF_INET s)"

definition uv__udp_set_membership4 :: "opt_sys \<Rightarrow> addr \<Rightarrow> sockaddr_in \<Rightarrow> string option \<Rightarrow> int \<Rightarrow> 'a stream_loop_scheme \<Rightarrow>
    ret \<times> 'a stream_loop_scheme" where
  "uv__udp_set_membership4 K h grp iface membership l =
     (case interface4 iface of
        Inl e \<Rightarrow> (Inl e, l)
      | Inr i \<Rightarrow>
          if membership = UV_JOIN_GROUP then set_option K h IPPROTO_IP IP_ADD_MEMBERSHIP (Ip_mreq i (sin_addr grp)) l
          else if membership = UV_LEAVE_GROUP then set_option K h IPPROTO_IP IP_DROP_MEMBERSHIP (Ip_mreq i (sin_addr grp)) l
          else (Inl UV_EINVAL, l))"

definition interface6 :: "opt_sys \<Rightarrow> string option \<Rightarrow> u32 result" where
  "interface6 K iface =
     (case iface of
        None \<Rightarrow> Inr 0
      | Some s \<Rightarrow> (case uv_ip6_addr (host_le K) (name_to_index K) s 0 of
            (Inl e, _) \<Rightarrow> Inl e
          | (Inr _, a) \<Rightarrow> Inr (sin6_scope_id a)))"

definition uv__udp_set_membership6 :: "opt_sys \<Rightarrow> addr \<Rightarrow> sockaddr_in6 \<Rightarrow> string option \<Rightarrow> int \<Rightarrow> 'a stream_loop_scheme \<Rightarrow>
    ret \<times> 'a stream_loop_scheme" where
  "uv__udp_set_membership6 K h grp iface membership l =
     (case interface6 K iface of
        Inl _ \<Rightarrow> (Inl UV_EINVAL, l)
      | Inr i \<Rightarrow>
          if membership = UV_JOIN_GROUP then set_option K h IPPROTO_IPV6 IPV6_ADD_MEMBERSHIP (Ipv6_mreq i (sin6_addr grp)) l
          else if membership = UV_LEAVE_GROUP then set_option K h IPPROTO_IPV6 IPV6_DROP_MEMBERSHIP (Ipv6_mreq i (sin6_addr grp)) l
          else (Inl UV_EINVAL, l))"

text \<open>A deferred bind to any address, then a call.\<close>

definition bound_then :: "tcp_sys \<Rightarrow> addr \<Rightarrow> domain \<Rightarrow> ('a stream_loop_scheme \<Rightarrow> ret \<times> 'a stream_loop_scheme) \<Rightarrow> 'a stream_loop_scheme \<Rightarrow>
    (ret \<times> 'a stream_loop_scheme) option" where
  "bound_then T h d f l = do {
     (err, l) \<leftarrow> uv__udp_maybe_deferred_bind T h d UV_UDP_REUSEADDR l;
     Some (if err \<noteq> OK then (err, l) else f l)
   }"

definition uv_udp_set_membership :: "opt_sys \<Rightarrow> tcp_sys \<Rightarrow> addr \<Rightarrow> string \<Rightarrow> string option \<Rightarrow> int \<Rightarrow> 'a stream_loop_scheme \<Rightarrow>
    (ret \<times> 'a stream_loop_scheme) option" where
  "uv_udp_set_membership K T h multicast_addr iface membership l =
     (let (err4, addr4) = uv_ip4_addr (host_le K) multicast_addr 0;
          (err6, addr6) = uv_ip6_addr (host_le K) (name_to_index K) multicast_addr 0
      in if err4 = OK then bound_then T h AF_INET4 (uv__udp_set_membership4 K h addr4 iface membership) l
         else if err6 = OK then bound_then T h domain.AF_INET6 (uv__udp_set_membership6 K h addr6 iface membership) l
         else Some (Inl UV_EINVAL, l))"

definition uv__udp_set_source_membership4 :: "opt_sys \<Rightarrow> tcp_sys \<Rightarrow> addr \<Rightarrow> sockaddr_in \<Rightarrow> string option \<Rightarrow> sockaddr_in \<Rightarrow> int \<Rightarrow>
    'a stream_loop_scheme \<Rightarrow> (ret \<times> 'a stream_loop_scheme) option" where
  "uv__udp_set_source_membership4 K T h grp iface source membership l =
     bound_then T h AF_INET4 (\<lambda>l.
       case interface4 iface of
         Inl e \<Rightarrow> (Inl e, l)
       | Inr i \<Rightarrow>
           if membership = UV_JOIN_GROUP then set_option K h IPPROTO_IP IP_ADD_SOURCE_MEMBERSHIP (Ip_mreq_source i (sin_addr grp) (sin_addr source)) l
           else if membership = UV_LEAVE_GROUP then set_option K h IPPROTO_IP IP_DROP_SOURCE_MEMBERSHIP (Ip_mreq_source i (sin_addr grp) (sin_addr source)) l
           else (Inl UV_EINVAL, l)) l"

definition uv__udp_set_source_membership6 :: "opt_sys \<Rightarrow> tcp_sys \<Rightarrow> addr \<Rightarrow> sockaddr_in6 \<Rightarrow> string option \<Rightarrow> sockaddr_in6 \<Rightarrow> int \<Rightarrow>
    'a stream_loop_scheme \<Rightarrow> (ret \<times> 'a stream_loop_scheme) option" where
  "uv__udp_set_source_membership6 K T h grp iface source membership l =
     bound_then T h domain.AF_INET6 (\<lambda>l.
       case interface6 K iface of
         Inl e \<Rightarrow> (Inl e, l)
       | Inr i \<Rightarrow>
           if membership = UV_JOIN_GROUP then set_option K h IPPROTO_IPV6 MCAST_JOIN_SOURCE_GROUP (Group_source_req i grp source) l
           else if membership = UV_LEAVE_GROUP then set_option K h IPPROTO_IPV6 MCAST_LEAVE_SOURCE_GROUP (Group_source_req i grp source) l
           else (Inl UV_EINVAL, l)) l"

definition uv_udp_set_source_membership :: "opt_sys \<Rightarrow> tcp_sys \<Rightarrow> addr \<Rightarrow> string \<Rightarrow> string option \<Rightarrow> string \<Rightarrow> int \<Rightarrow>
    'a stream_loop_scheme \<Rightarrow> (ret \<times> 'a stream_loop_scheme) option" where
  "uv_udp_set_source_membership K T h multicast_addr iface source_addr membership l =
     (let ip4 = (\<lambda>s. uv_ip4_addr (host_le K) s 0); ip6 = (\<lambda>s. uv_ip6_addr (host_le K) (name_to_index K) s 0)
      in case ip4 multicast_addr of
           (Inl _, _) \<Rightarrow> (case ip6 multicast_addr of
               (Inl e, _) \<Rightarrow> Some (Inl e, l)
             | (Inr _, grp) \<Rightarrow> (case ip6 source_addr of
                   (Inl e, _) \<Rightarrow> Some (Inl e, l)
                 | (Inr _, source) \<Rightarrow> uv__udp_set_source_membership6 K T h grp iface source membership l))
         | (Inr _, grp) \<Rightarrow> (case ip4 source_addr of
               (Inl e, _) \<Rightarrow> Some (Inl e, l)
             | (Inr _, source) \<Rightarrow> uv__udp_set_source_membership4 K T h grp iface source membership l))"

section \<open>Numbers\<close>

definition uv__setsockopt :: "opt_sys \<Rightarrow> addr \<Rightarrow> opt_name \<Rightarrow> opt_name \<Rightarrow> opt_value \<Rightarrow> 'a stream_loop_scheme \<Rightarrow> ret \<times> 'a stream_loop_scheme" where
  "uv__setsockopt K h option4 option6 v l =
     (if flagged h UV_HANDLE_IPV6 l then set_option K h IPPROTO_IPV6 option6 v l else set_option K h IPPROTO_IP option4 v l)"

definition uv__setsockopt_maybe_char :: "opt_sys \<Rightarrow> addr \<Rightarrow> opt_name \<Rightarrow> opt_name \<Rightarrow> int \<Rightarrow> 'a stream_loop_scheme \<Rightarrow> ret \<times> 'a stream_loop_scheme" where
  "uv__setsockopt_maybe_char K h option4 option6 v l =
     (if v < 0 \<or> v > 255 then (Inl UV_EINVAL, l) else uv__setsockopt K h option4 option6 (Val v) l)"

definition uv_udp_set_broadcast :: "opt_sys \<Rightarrow> addr \<Rightarrow> int \<Rightarrow> 'a stream_loop_scheme \<Rightarrow> ret \<times> 'a stream_loop_scheme" where
  "uv_udp_set_broadcast K h on l = set_option K h SOL_SOCKET SO_BROADCAST (Val on) l"

definition uv_udp_set_ttl :: "opt_sys \<Rightarrow> addr \<Rightarrow> int \<Rightarrow> 'a stream_loop_scheme \<Rightarrow> ret \<times> 'a stream_loop_scheme" where
  "uv_udp_set_ttl K h ttl l =
     (if ttl < 1 \<or> ttl > 255 then (Inl UV_EINVAL, l) else uv__setsockopt_maybe_char K h IP_TTL IPV6_UNICAST_HOPS ttl l)"

definition uv_udp_set_multicast_ttl :: "opt_sys \<Rightarrow> addr \<Rightarrow> int \<Rightarrow> 'a stream_loop_scheme \<Rightarrow> ret \<times> 'a stream_loop_scheme" where
  "uv_udp_set_multicast_ttl K h ttl l = uv__setsockopt_maybe_char K h IP_MULTICAST_TTL IPV6_MULTICAST_HOPS ttl l"

definition uv_udp_set_multicast_loop :: "opt_sys \<Rightarrow> addr \<Rightarrow> int \<Rightarrow> 'a stream_loop_scheme \<Rightarrow> ret \<times> 'a stream_loop_scheme" where
  "uv_udp_set_multicast_loop K h on l = uv__setsockopt_maybe_char K h IP_MULTICAST_LOOP IPV6_MULTICAST_LOOP on l"

definition uv_udp_set_multicast_interface :: "opt_sys \<Rightarrow> addr \<Rightarrow> string option \<Rightarrow> 'a stream_loop_scheme \<Rightarrow> ret \<times> 'a stream_loop_scheme" where
  "uv_udp_set_multicast_interface K h iface l =
     (case iface of
        None \<Rightarrow>
          if flagged h UV_HANDLE_IPV6 l then set_option K h IPPROTO_IPV6 IPV6_MULTICAST_IF (Scope 0) l
          else set_option K h IPPROTO_IP IP_MULTICAST_IF (In_addr INADDR_ANY) l
      | Some s \<Rightarrow> (case uv_ip4_addr (host_le K) s 0 of
            (Inr _, a) \<Rightarrow> set_option K h IPPROTO_IP IP_MULTICAST_IF (In_addr (sin_addr a)) l
          | (Inl _, _) \<Rightarrow> (case uv_ip6_addr (host_le K) (name_to_index K) s 0 of
                (Inr _, a) \<Rightarrow> set_option K h IPPROTO_IPV6 IPV6_MULTICAST_IF (Scope (sin6_scope_id a)) l
              | (Inl _, _) \<Rightarrow> (Inl UV_EINVAL, l))))"

section \<open>What they keep\<close>

text \<open>Every option keeps the invariant of the UDP handles, also those that bind the handle first and those that
  are refused.\<close>

definition only_sys :: "'a stream_loop_scheme \<Rightarrow> ret \<times> 'a stream_loop_scheme \<Rightarrow> bool" where
  "only_sys l p \<longleftrightarrow> snd p = l \<or> snd p = l\<lparr>sys := sys l + 1\<rparr>"

lemma option_sys: "only_sys l (r, l)" "only_sys l (set_option K h lv nm v l)"
  by (simp_all add: only_sys_def set_option_def call_def)

lemma number_options_sys:
  "only_sys l (uv__setsockopt_maybe_char K h o4 o6 v l)" "only_sys l (uv_udp_set_broadcast K h v l)" "only_sys l (uv_udp_set_ttl K h v l)"
  "only_sys l (uv_udp_set_multicast_ttl K h v l)" "only_sys l (uv_udp_set_multicast_loop K h v l)" "only_sys l (uv_udp_set_multicast_interface K h iface l)"
  by (auto simp: uv__setsockopt_maybe_char_def uv__setsockopt_def uv_udp_set_broadcast_def uv_udp_set_ttl_def uv_udp_set_multicast_ttl_def
      uv_udp_set_multicast_loop_def uv_udp_set_multicast_interface_def option_sys split: option.split sum.split prod.split)

lemma membership_sys:
  "only_sys l (uv__udp_set_membership4 K h g iface m l)" "only_sys l (uv__udp_set_membership6 K h g6 iface m l)"
  by (auto simp: uv__udp_set_membership4_def uv__udp_set_membership6_def option_sys split: sum.split)

lemma only_sys_good: "udp_inv k {} l \<Longrightarrow> only_sys l p \<Longrightarrow> ugood k l (Some (snd p))"
  using sys_later1 udp_later_refl by (auto simp: only_sys_def ugood_def)

lemma bound_then_good:
  assumes inv: "udp_inv k {} l" and h: "uusable h l" and s: "stream_fd h l = - 1 \<longrightarrow> fresh_usockets T l" and d: "d \<in> {AF_INET4, domain.AF_INET6}"
    and f: "\<And>l. only_sys l (f l)"
  shows "ugood k l (map_option snd (bound_then T h d f l))"
proof -
  obtain r l1 where l1: "uv__udp_maybe_deferred_bind T h d UV_UDP_REUSEADDR l = Some (r, l1)" "bound_step k h l (r, l1)"
    using deferred_bind_ok [OF inv h, of T d UV_UDP_REUSEADDR] s d by (auto simp: sendable_def)
  have i1: "udp_inv k {} l1" "udp_later l l1" using l1(2) by (simp_all add: bound_step_def)
  have "ugood k l1 (Some (snd (f l1)))" by (rule only_sys_good [OF i1(1) f])
  then show ?thesis using i1 ugood_trans [OF i1(2)] l1(1) by (auto simp: bound_then_def ugood_def)
qed

lemma udp_membership_ok:
  assumes inv: "udp_inv k {} l" and h: "uusable h l" and s: "stream_fd h l = - 1 \<longrightarrow> fresh_usockets T l"
  shows "ugood k l (map_option snd (uv_udp_set_membership K T h maddr iface m l))"
    and "ugood k l (map_option snd (uv_udp_set_source_membership K T h maddr iface saddr m l))"
proof -
  note b = bound_then_good [OF inv h s]
  have same: "ugood k l (Some l)" using inv udp_later_refl by (simp add: ugood_def)
  show "ugood k l (map_option snd (uv_udp_set_membership K T h maddr iface m l))"
    using b [OF _ membership_sys(1)] b [OF _ membership_sys(2)] same
    by (auto simp: uv_udp_set_membership_def Let_def split: prod.split)
  have 4: "ugood k l (map_option snd (uv__udp_set_source_membership4 K T h g iface src m l))" for g src
    unfolding uv__udp_set_source_membership4_def by (rule b) (auto simp: option_sys split: sum.split)
  have 6: "ugood k l (map_option snd (uv__udp_set_source_membership6 K T h g iface src m l))" for g src
    unfolding uv__udp_set_source_membership6_def by (rule b) (auto simp: option_sys split: sum.split)
  show "ugood k l (map_option snd (uv_udp_set_source_membership K T h maddr iface saddr m l))"
    using 4 6 same by (auto simp: uv_udp_set_source_membership_def Let_def split: prod.split sum.split)
qed

text \<open>What the kernel is asked to join: the bytes of the text form of the group, on the level of the group's
  family, whichever family the handle has.\<close>

lemma join_asks_kernel:
  assumes "length bs = 4" and "stream_fd h l \<noteq> - 1"
  shows "uv_udp_set_membership K T h (ntop4_text bs) None UV_JOIN_GROUP l =
    Some (sys_option K (sys l) (stream_fd h l) IPPROTO_IP IP_ADD_MEMBERSHIP (Ip_mreq INADDR_ANY bs), l\<lparr>sys := sys l + 1\<rparr>)"
  using pton4_ntop4 [OF assms(1)] assms(2)
  by (simp add: uv_udp_set_membership_def uv_ip4_addr_def uv_inet_pton_def bound_then_def uv__udp_maybe_deferred_bind_def
      uv__udp_set_membership4_def interface4_def set_option_def call_def split: prod.split)

text \<open>A number that does not fit a byte, or a time to live of zero, never reaches the kernel.\<close>

lemma ttl_range: "ttl < 1 \<or> ttl > 255 \<Longrightarrow> uv_udp_set_ttl K h ttl l = (Inl UV_EINVAL, l)"
  by (auto simp: uv_udp_set_ttl_def)

end
