(* ===== verification/UV_Sync.thy ===== *)
theory UV_Sync
  imports UV_Errno "HOL-Library.Multiset"
begin

text \<open>
  Synchronisation between threads: the barrier of src/thread-common.c and the semaphore that
  src/unix/thread.c builds for old C libraries.  What a thread does between taking the mutex and giving it
  back (by unlocking it or by waiting on the condition variable) is one step.  A waiting thread is asleep
  until it is signalled or wakes up spuriously; awake, it competes for the mutex.
\<close>

section \<open>The barrier\<close>

record barrier =
  b_in :: u32
  b_out :: u32
  b_threshold :: u32

text \<open>The results of \<open>malloc\<close> and of the initialisation of the mutex and the condition variable are
  parameters.\<close>

definition uv_barrier_init :: "u32 \<Rightarrow> bool \<Rightarrow> ret \<Rightarrow> ret \<Rightarrow> barrier result" where
  "uv_barrier_init n mem mutex cond =
     (if n = 0 then Inl UV_EINVAL
      else if \<not> mem then Inl UV_ENOMEM
      else case mutex of Inl e \<Rightarrow> Inl e
         | Inr _ \<Rightarrow> (case cond of Inl e \<Rightarrow> Inl e | Inr _ \<Rightarrow> Inr \<lparr>b_in = 0, b_out = 0, b_threshold = n\<rparr>))"

text \<open>Where a thread is: in the first or the second waiting loop of \<open>uv_barrier_wait\<close>, or outside.  How
  a section ends: the thread waits, or \<open>uv_barrier_wait\<close> returns.\<close>

datatype place = Outside | Gate | Turnstile

datatype pause = Wait place | Return bool

text \<open>A section gives how it ends, whether it broadcasts, and the barrier.\<close>

definition barrier_leave :: "barrier \<Rightarrow> pause \<times> bool \<times> barrier" where
  "barrier_leave b =
     (let b = b\<lparr>b_out := b_out b - 1\<rparr>;
          ser = (b_out b = 0)
      in (Return ser, ser, b))"

definition barrier_enter :: "barrier \<Rightarrow> pause \<times> bool \<times> barrier" where
  "barrier_enter b =
     (if b_out b \<noteq> 0 then (Wait Gate, False, b)
      else let b = b\<lparr>b_in := b_in b + 1\<rparr>
           in if b_in b = b_threshold b
              then let (p, _, b) = barrier_leave (b\<lparr>b_in := 0, b_out := b_threshold b\<rparr>) in (p, True, b)
              else (Wait Turnstile, False, b))"

definition barrier_again :: "barrier \<Rightarrow> pause \<times> bool \<times> barrier" where
  "barrier_again b = (if b_in b \<noteq> 0 then (Wait Turnstile, False, b) else barrier_leave b)"

text \<open>\<open>uv_barrier_destroy\<close> fails an assertion, waits (\<open>False\<close>), or is done.\<close>

definition uv_barrier_destroy :: "barrier \<Rightarrow> bool option" where
  "uv_barrier_destroy b = (if b_in b \<noteq> 0 then None else Some (b_out b = 0))"

text \<open>Threads are numbers.  \<open>arrived\<close> and \<open>returned\<close> record who was counted and who returned with what.\<close>

record barrier_system =
  bar :: barrier
  place :: "nat \<Rightarrow> place"
  asleep :: "nat set"
  arrived :: "nat list"
  returned :: "(nat \<times> bool) list"

definition settle :: "nat \<Rightarrow> pause \<times> bool \<times> barrier \<Rightarrow> barrier_system \<Rightarrow> barrier_system" where
  "settle t x s =
     (let (p, broadcast, b) = x;
          sleeping = (if broadcast then {} else asleep s)
      in s\<lparr>bar := b,
           place := (place s)(t := case p of Wait w \<Rightarrow> w | Return _ \<Rightarrow> Outside),
           asleep := (case p of Wait _ \<Rightarrow> insert t sleeping | Return _ \<Rightarrow> sleeping),
           arrived := (if place s t = Turnstile \<or> p = Wait Gate then arrived s else arrived s @ [t]),
           returned := (case p of Wait _ \<Rightarrow> returned s | Return ser \<Rightarrow> returned s @ [(t, ser)])\<rparr>)"

inductive barrier_step :: "barrier_system \<Rightarrow> barrier_system \<Rightarrow> bool" where
  enter: "place s t = Outside \<Longrightarrow> barrier_step s (settle t (barrier_enter (bar s)) s)"
| gate: "place s t = Gate \<Longrightarrow> t \<notin> asleep s \<Longrightarrow> barrier_step s (settle t (barrier_enter (bar s)) s)"
| turn: "place s t = Turnstile \<Longrightarrow> t \<notin> asleep s \<Longrightarrow> barrier_step s (settle t (barrier_again (bar s)) s)"
| spurious: "t \<in> asleep s \<Longrightarrow> barrier_step s (s\<lparr>asleep := asleep s - {t}\<rparr>)"

definition barrier_start :: "u32 \<Rightarrow> barrier_system" where
  "barrier_start n = \<lparr>bar = \<lparr>b_in = 0, b_out = 0, b_threshold = n\<rparr>, place = (\<lambda>_. Outside), asleep = {}, arrived = [], returned = []\<rparr>"

inductive barrier_reachable :: "u32 \<Rightarrow> barrier_system \<Rightarrow> bool" for n where
  start: "uv_barrier_init n mem mutex cond = Inr b \<Longrightarrow> barrier_reachable n (barrier_start n)"
| more: "barrier_reachable n s \<Longrightarrow> barrier_step s s' \<Longrightarrow> barrier_reachable n s'"

definition inside :: "place \<Rightarrow> barrier_system \<Rightarrow> nat set" where
  "inside p s = {t. place s t = p}"

definition same_threads :: "nat list \<Rightarrow> (nat \<times> bool) list \<Rightarrow> bool" where
  "same_threads as rs \<longleftrightarrow> mset (take (length rs) as) = mset (map fst rs)"

text \<open>The invariant over the barrier, the threads in the second loop, and the two histories: between two
  rounds the threads in the loop are those of the next one, during a round (\<open>b_out \<noteq> 0\<close>) those that
  still have to leave.\<close>

definition rounds_ok :: "nat \<Rightarrow> nat list \<Rightarrow> (nat \<times> bool) list \<Rightarrow> bool" where
  "rounds_ok n as rs \<longleftrightarrow> (\<forall>j. j * n \<le> length rs \<longrightarrow> same_threads as (take (j * n) rs)) \<and>
     (\<forall>i<length rs. snd (rs ! i) = (Suc i mod n = 0))"

definition phase_ok :: "nat \<Rightarrow> barrier \<Rightarrow> nat set \<Rightarrow> nat list \<Rightarrow> (nat \<times> bool) list \<Rightarrow> bool" where
  "phase_ok n b T as rs \<longleftrightarrow>
     (if b_out b = 0 then unat (b_in b) < n \<and> card T = unat (b_in b) \<and> n dvd length rs
      else b_in b = 0 \<and> unat (b_out b) < n \<and> card T = unat (b_out b) \<and> n dvd length as)"

definition barrier_ok :: "nat \<Rightarrow> barrier \<Rightarrow> nat set \<Rightarrow> nat list \<Rightarrow> (nat \<times> bool) list \<Rightarrow> bool" where
  "barrier_ok n b T as rs \<longleftrightarrow> 0 < n \<and> unat (b_threshold b) = n \<and> finite T \<and>
     mset as = mset (map fst rs) + mset_set T \<and> phase_ok n b T as rs \<and> rounds_ok n as rs"

definition barrier_inv :: "nat \<Rightarrow> barrier_system \<Rightarrow> bool" where
  "barrier_inv n s \<longleftrightarrow> barrier_ok n (bar s) (inside Turnstile s) (arrived s) (returned s)"

definition barrier_awake :: "barrier_system \<Rightarrow> bool" where
  "barrier_awake s \<longleftrightarrow> (if b_out (bar s) = 0 then inside Gate s \<inter> asleep s = {} else inside Turnstile s \<inter> asleep s = {}) \<and>
     asleep s \<inter> inside Outside s = {}"

lemma size_split:
  "mset as = mset (map fst rs) + mset_set T \<Longrightarrow> finite T \<Longrightarrow> length as = length rs + card T"
  by (metis length_map size_mset size_mset_set size_union)

lemma rounds_arrive:
  assumes "rounds_ok n as rs" and "length rs \<le> length as"
  shows "rounds_ok n (as @ [t]) rs"
  using assms by (auto simp: rounds_ok_def same_threads_def)

lemma rounds_return:
  assumes r: "rounds_ok n as rs" and n: "0 < n" and ser: "ser = (Suc (length rs) mod n = 0)"
    and all: "Suc (length rs) mod n = 0 \<Longrightarrow> mset as = mset (map fst (rs @ [(t, ser)]))"
  shows "rounds_ok n as (rs @ [(t, ser)])"
  unfolding rounds_ok_def
proof (intro conjI allI impI)
  fix j
  assume j: "j * n \<le> length (rs @ [(t, ser)])"
  show "same_threads as (take (j * n) (rs @ [(t, ser)]))"
  proof (cases "j * n \<le> length rs")
    case True
    then show ?thesis using r by (simp add: rounds_ok_def)
  next
    case False
    then have e: "j * n = Suc (length rs)" using j by simp
    then have "mset as = mset (map fst (rs @ [(t, ser)]))" using all by (metis mod_mult_self2_is_0)
    moreover have "length as = Suc (length rs)" using calculation by (metis length_append_singleton length_map mset_eq_length)
    ultimately show ?thesis using e by (simp add: same_threads_def)
  qed
next
  fix i
  assume "i < length (rs @ [(t, ser)])"
  then show "snd ((rs @ [(t, ser)]) ! i) = (Suc i mod n = 0)"
    using r ser by (auto simp: rounds_ok_def nth_append less_Suc_eq)
qed

text \<open>A thread leaves: the first of a round is the one that completes it.\<close>

lemma return_ok:
  assumes n: "0 < n" "unat (b_threshold b) = n" and T: "finite T" and m: "mset as = mset (map fst (rs @ [(t, ser)])) + mset_set T"
    and b: "b_in b = 0" "unat (b_out b) < n" "card T = unat (b_out b)" and a: "n dvd length as"
    and r: "rounds_ok n as rs" and ser: "ser = (b_out b = 0)"
  shows "barrier_ok n b T as (rs @ [(t, ser)])"
proof -
  have l: "length as = Suc (length rs) + unat (b_out b)" using size_split [OF m T] b(3) by simp
  have d: "Suc (length rs) mod n = 0 \<longleftrightarrow> b_out b = 0"
  proof
    assume "Suc (length rs) mod n = 0"
    then have "n dvd unat (b_out b)" using a l by (metis dvd_add_right_iff dvd_eq_mod_eq_0)
    then show "b_out b = 0" using b(2) by (metis nat_dvd_not_less neq0_conv unat_eq_zero)
  qed (use a l in \<open>simp add: dvd_eq_mod_eq_0\<close>)
  have "rounds_ok n as (rs @ [(t, ser)])"
  proof (rule rounds_return [OF r n(1)])
    show "ser = (Suc (length rs) mod n = 0)" using ser d by simp
    assume "Suc (length rs) mod n = 0"
    then have "T = {}" using d b(3) T by simp
    then show "mset as = mset (map fst (rs @ [(t, ser)]))" using m by simp
  qed
  moreover have "phase_ok n b T as (rs @ [(t, ser)])" using b a d n l by (auto simp: phase_ok_def)
  ultimately show ?thesis using n T m by (simp add: barrier_ok_def)
qed

lemma enter_ok:
  assumes ok: "barrier_ok n b T as rs" and t: "t \<notin> T" and x: "barrier_enter b = (p, bc, b')"
  shows "p = Wait Gate \<and> b' = b \<and> b_out b \<noteq> 0 \<or>
    p = Wait Turnstile \<and> \<not> bc \<and> b_out b' = 0 \<and> b_out b = 0 \<and> barrier_ok n b' (insert t T) (as @ [t]) rs \<or>
    (\<exists>ser. p = Return ser \<and> bc \<and> b_out b = 0 \<and> barrier_ok n b' T (as @ [t]) (rs @ [(t, ser)]))"
proof (cases "b_out b = 0")
  case False
  then show ?thesis using x by (simp add: barrier_enter_def)
next
  case True
  have f: "0 < n" "unat (b_threshold b) = n" "finite T" "mset as = mset (map fst rs) + mset_set T" "rounds_ok n as rs"
    "unat (b_in b) < n" "card T = unat (b_in b)" "n dvd length rs"
    using ok True by (simp_all add: barrier_ok_def phase_ok_def)
  have l: "length as = length rs + unat (b_in b)" using size_split [OF f(4,3)] f(7) by simp
  have "unat (b_threshold b) < 2 ^ 32" using unsigned_less [of "b_threshold b", where 'a = nat] by simp
  then have "unat (b_in b) < 2 ^ 32 - 1" using f(2,6) by simp
  then have s: "unat (b_in b + 1) = Suc (unat (b_in b))" by (simp add: unat_add_one_less)
  have ra: "rounds_ok n (as @ [t]) rs" using rounds_arrive [OF f(5)] l by simp
  show ?thesis
  proof (cases "b_in b + 1 = b_threshold b")
    case False
    then have "Suc (unat (b_in b)) \<noteq> n" using f(2) s by (metis word_unat_eq_iff)
    then have "barrier_ok n (b\<lparr>b_in := b_in b + 1\<rparr>) (insert t T) (as @ [t]) rs"
      using f t ra s True by (simp add: barrier_ok_def phase_ok_def)
    then show ?thesis using x True False by (auto simp: barrier_enter_def split: prod.splits)
  next
    case ser: True
    define b2 where "b2 = b\<lparr>b_in := 0, b_out := b_threshold b - 1\<rparr>"
    have "b_threshold b \<noteq> 0" using f(1,2) by auto
    then have o: "unat (b_threshold b - 1) = n - 1" using f(2) by (simp add: unat_sub_one)
    have "barrier_ok n b2 T (as @ [t]) (rs @ [(t, b_out b2 = 0)])"
    proof (rule return_ok [OF f(1) _ f(3)])
      have "length (as @ [t]) = length rs + n" using f(2) l s ser by simp
      then show "n dvd length (as @ [t])" using f(8) by simp
    qed (use f o ra s ser in \<open>simp_all add: b2_def\<close>)
    moreover have "p = Return (b_out b2 = 0)" "bc" "b' = b2"
      using x True ser by (auto simp: barrier_enter_def barrier_leave_def b2_def Let_def)
    ultimately show ?thesis using True by blast
  qed
qed

lemma again_ok:
  assumes ok: "barrier_ok n b T as rs" and t: "t \<in> T" and x: "barrier_again b = (p, bc, b')"
  shows "p = Wait Turnstile \<and> \<not> bc \<and> b' = b \<and> b_out b = 0 \<or>
    (\<exists>ser. p = Return ser \<and> bc = (b_out b' = 0) \<and> b_out b \<noteq> 0 \<and> barrier_ok n b' (T - {t}) as (rs @ [(t, ser)]))"
proof (cases "b_out b = 0")
  case True
  then have "b_in b \<noteq> 0" using ok t by (auto simp: barrier_ok_def phase_ok_def)
  then show ?thesis using x True by (simp add: barrier_again_def)
next
  case False
  have f: "0 < n" "unat (b_threshold b) = n" "finite T" "mset as = mset (map fst rs) + mset_set T" "rounds_ok n as rs"
    "b_in b = 0" "unat (b_out b) < n" "card T = unat (b_out b)" "n dvd length as"
    using ok False by (simp_all add: barrier_ok_def phase_ok_def)
  define b2 where "b2 = b\<lparr>b_out := b_out b - 1\<rparr>"
  have o: "unat (b_out b - 1) = unat (b_out b) - 1" using False by (rule unat_sub_one)
  have "mset_set T = add_mset t (mset_set (T - {t}))" using t f(3) by (metis finite_Diff insert_Diff insert_Diff_single mset_set.insert_remove)
  then have "barrier_ok n b2 (T - {t}) as (rs @ [(t, b_out b2 = 0)])"
    by (intro return_ok [OF f(1)]) (use f o t in \<open>simp_all add: b2_def\<close>)
  moreover have "p = Return (b_out b2 = 0)" "bc = (b_out b2 = 0)" "b' = b2"
    using x f(6) by (auto simp: barrier_again_def barrier_leave_def b2_def Let_def)
  ultimately show ?thesis using False by blast
qed

section \<open>Every interleaving\<close>

lemma settle_views:
  "bar (settle t (p, bc, b) s) = b"
  "place (settle t (p, bc, b) s) = (place s)(t := case p of Wait w \<Rightarrow> w | Return _ \<Rightarrow> Outside)"
  "asleep (settle t (p, bc, b) s) = (let sl = if bc then {} else asleep s in case p of Wait _ \<Rightarrow> insert t sl | Return _ \<Rightarrow> sl)"
  "arrived (settle t (p, bc, b) s) = (if place s t = Turnstile \<or> p = Wait Gate then arrived s else arrived s @ [t])"
  "returned (settle t (p, bc, b) s) = (case p of Wait _ \<Rightarrow> returned s | Return ser \<Rightarrow> returned s @ [(t, ser)])"
  by (simp_all add: settle_def Let_def)

lemma inside_settle:
  "inside q (settle t (p, bc, b) s) =
     (if (case p of Wait w \<Rightarrow> w | Return _ \<Rightarrow> Outside) = q then insert t (inside q s) else inside q s - {t})"
  by (auto simp: inside_def settle_views)

lemmas settled = barrier_inv_def barrier_awake_def inside_settle settle_views

lemma enter_inv:
  assumes inv: "barrier_inv n s" "barrier_awake s" and t: "place s t \<noteq> Turnstile" "t \<notin> asleep s"
  shows "barrier_inv n (settle t (barrier_enter (bar s)) s) \<and> barrier_awake (settle t (barrier_enter (bar s)) s)"
proof -
  obtain p bc b where x: "barrier_enter (bar s) = (p, bc, b)" by (metis prod_cases3)
  have nT: "t \<notin> inside Turnstile s" using t by (simp add: inside_def)
  consider (gate) "p = Wait Gate" "b = bar s" "b_out (bar s) \<noteq> 0"
    | (turn) "p = Wait Turnstile" "\<not> bc" "b_out b = 0" "b_out (bar s) = 0"
        "barrier_ok n b (insert t (inside Turnstile s)) (arrived s @ [t]) (returned s)"
    | (ser) ser where "p = Return ser" "bc" "barrier_ok n b (inside Turnstile s) (arrived s @ [t]) (returned s @ [(t, ser)])"
    using enter_ok [OF inv(1) [unfolded barrier_inv_def] nT x] by blast
  then show ?thesis
  proof cases
    case gate
    then show ?thesis using inv t nT by (auto simp: x settled Let_def)
  next
    case turn
    then show ?thesis using inv t by (auto simp: x settled Let_def)
  next
    case ser
    then show ?thesis using t nT by (auto simp: x settled Let_def)
  qed
qed

lemma again_inv:
  assumes inv: "barrier_inv n s" "barrier_awake s" and t: "place s t = Turnstile" "t \<notin> asleep s"
  shows "barrier_inv n (settle t (barrier_again (bar s)) s) \<and> barrier_awake (settle t (barrier_again (bar s)) s)"
proof -
  obtain p bc b where x: "barrier_again (bar s) = (p, bc, b)" by (metis prod_cases3)
  have T: "t \<in> inside Turnstile s" using t by (simp add: inside_def)
  consider (wait) "p = Wait Turnstile" "\<not> bc" "b = bar s" "b_out (bar s) = 0"
    | (ser) ser where "p = Return ser" "bc = (b_out b = 0)" "b_out (bar s) \<noteq> 0"
        "barrier_ok n b (inside Turnstile s - {t}) (arrived s) (returned s @ [(t, ser)])"
    using again_ok [OF inv(1) [unfolded barrier_inv_def] T x] by blast
  then show ?thesis
  proof cases
    case wait
    then show ?thesis using inv t T by (auto simp: x settled Let_def insert_absorb)
  next
    case ser
    then show ?thesis using inv t by (auto simp: x settled Let_def)
  qed
qed

lemma start_inv:
  assumes "n \<noteq> 0"
  shows "barrier_inv (unat n) (barrier_start n)" and "barrier_awake (barrier_start n)"
proof -
  have "0 < unat n" using assms by (simp add: unat_gt_0)
  then show "barrier_inv (unat n) (barrier_start n)"
    by (auto simp: barrier_inv_def barrier_start_def barrier_ok_def phase_ok_def rounds_ok_def inside_def same_threads_def)
  show "barrier_awake (barrier_start n)" by (simp add: barrier_awake_def barrier_start_def)
qed

lemma barrier_reachable_inv: "barrier_reachable n s \<Longrightarrow> barrier_inv (unat n) s \<and> barrier_awake s"
proof (induction rule: barrier_reachable.induct)
  case (start mem mutex cond b)
  then have "n \<noteq> 0" by (auto simp: uv_barrier_init_def)
  then show ?case using start_inv by blast
next
  case (more s s')
  from more(2) more.IH show ?case
  proof cases
    case (enter t)
    moreover have "t \<notin> asleep s" using enter(2) more.IH by (auto simp: barrier_awake_def inside_def)
    ultimately show ?thesis using enter_inv [of "unat n" s t] more.IH by simp
  next
    case (gate t)
    then show ?thesis using enter_inv [of "unat n" s t] more.IH by simp
  next
    case (turn t)
    then show ?thesis using again_inv [of "unat n" s t] more.IH by simp
  next
    case (spurious t)
    then show ?thesis using more.IH by (auto simp: barrier_inv_def barrier_awake_def inside_def)
  qed
qed

lemma returned_bound:
  assumes "barrier_ok n b T as rs"
  shows "length rs \<le> n * (length as div n)"
proof (cases "b_out b = 0")
  case True
  then obtain k where "length rs = n * k" using assms by (auto simp: barrier_ok_def phase_ok_def)
  moreover have "length rs \<le> length as" using size_split [of as rs T] assms by (simp add: barrier_ok_def)
  ultimately show ?thesis using assms by (simp add: barrier_ok_def less_eq_div_iff_mult_less_eq mult.commute)
next
  case False
  then have "n dvd length as" using assms by (simp add: barrier_ok_def phase_ok_def)
  then show ?thesis using size_split [of as rs T] assms by (simp add: barrier_ok_def)
qed

text \<open>C28. The barrier separates rounds: in every interleaving, spurious wake-ups included, no thread of a round
  returns before all \<open>n\<close> of it have arrived, the threads that return in a round are those that arrived in it
  however soon some of them come back, and exactly the last of a round gets the non-zero result.\<close>

theorem barrier_rounds:
  assumes "barrier_reachable n s"
  shows "length (returned s) \<le> unat n * (length (arrived s) div unat n) \<and>
    (\<forall>j. j * unat n \<le> length (returned s) \<longrightarrow>
       mset (map fst (take (j * unat n) (returned s))) = mset (take (j * unat n) (arrived s))) \<and>
    (\<forall>i<length (returned s). snd (returned s ! i) = (Suc i mod unat n = 0))"
proof -
  have ok: "barrier_ok (unat n) (bar s) (inside Turnstile s) (arrived s) (returned s)"
    using barrier_reachable_inv [OF assms] by (simp add: barrier_inv_def)
  then have "rounds_ok (unat n) (arrived s) (returned s)" by (simp add: barrier_ok_def)
  then have "mset (map fst (take (j * unat n) (returned s))) = mset (take (j * unat n) (arrived s))" if "j * unat n \<le> length (returned s)" for j
    using that by (simp add: rounds_ok_def same_threads_def min_absorb2)
  then show ?thesis using returned_bound [OF ok] \<open>rounds_ok _ _ _\<close> by (simp add: rounds_ok_def)
qed

text \<open>A barrier of two threads.\<close>

definition two_threads :: barrier_system where
  "two_threads = settle 0 (barrier_again \<lparr>b_in = 0, b_out = 1, b_threshold = 2\<rparr>)
     (settle 1 (Return False, True, \<lparr>b_in = 0, b_out = 1, b_threshold = 2\<rparr>)
        (settle 0 (Wait Turnstile, False, \<lparr>b_in = 1, b_out = 0, b_threshold = 2\<rparr>) (barrier_start 2)))"

lemma two_threads_reachable: "barrier_reachable 2 two_threads"
proof -
  let ?s1 = "settle 0 (Wait Turnstile, False, \<lparr>b_in = 1, b_out = 0, b_threshold = 2\<rparr>) (barrier_start 2)"
  let ?s2 = "settle 1 (Return False, True, \<lparr>b_in = 0, b_out = 1, b_threshold = 2\<rparr>) ?s1"
  have s0: "barrier_reachable 2 (barrier_start 2)"
    by (rule barrier_reachable.start [of _ True "Inr ()" "Inr ()"]) (simp add: uv_barrier_init_def)
  have "barrier_step (barrier_start 2) (settle 0 (barrier_enter (bar (barrier_start 2))) (barrier_start 2))"
    by (rule barrier_step.enter) (simp add: barrier_start_def)
  then have s1: "barrier_reachable 2 ?s1"
    using barrier_reachable.more [OF s0] by (simp add: barrier_start_def barrier_enter_def)
  have "barrier_step ?s1 (settle 1 (barrier_enter (bar ?s1)) ?s1)"
    by (rule barrier_step.enter) (simp add: settle_views barrier_start_def)
  then have s2: "barrier_reachable 2 ?s2"
    using barrier_reachable.more [OF s1] by (simp add: settle_views barrier_enter_def barrier_leave_def)
  have "barrier_step ?s2 (settle 0 (barrier_again (bar ?s2)) ?s2)"
    by (rule barrier_step.turn) (simp_all add: settle_views)
  then show ?thesis using barrier_reachable.more [OF s2] by (simp add: two_threads_def settle_views)
qed

lemma two_threads_views:
  "arrived two_threads = [0, 1]" "returned two_threads = [(1, False), (0, True)]"
  by (simp_all add: two_threads_def settle_views barrier_again_def barrier_leave_def barrier_start_def)

theorem barrier_rounds_witness:
  "returned two_threads = [(1, False), (0, True)] \<and> mset (map fst (take 2 (returned two_threads))) = mset (take 2 (arrived two_threads))"
proof -
  have "\<forall>j. j * unat (2 :: u32) \<le> length (returned two_threads) \<longrightarrow>
      mset (map fst (take (j * unat (2 :: u32)) (returned two_threads))) = mset (take (j * unat (2 :: u32)) (arrived two_threads))"
    using barrier_rounds [OF two_threads_reachable] by blast
  from spec [OF this, of 1] show ?thesis by (simp add: two_threads_views)
qed

text \<open>C29. The barrier never loses a wake-up: when every thread that called \<open>uv_barrier_wait\<close> and has not
  returned is asleep, then all of them are waiting for threads of their round that have not arrived; in
  particular \<open>n\<close> threads inside are never all asleep.\<close>

theorem barrier_no_deadlock:
  assumes "barrier_reachable n s" and "\<And>t. place s t \<noteq> Outside \<Longrightarrow> t \<in> asleep s"
  shows "b_out (bar s) = 0 \<and> (\<forall>t. place s t = Outside \<or> place s t = Turnstile) \<and>
    card {t. place s t \<noteq> Outside} = unat (b_in (bar s)) \<and> unat (b_in (bar s)) < unat n"
proof -
  have inv: "barrier_ok (unat n) (bar s) (inside Turnstile s) (arrived s) (returned s)" "barrier_awake s"
    using barrier_reachable_inv [OF assms(1)] by (simp_all add: barrier_inv_def)
  have all: "inside Turnstile s \<subseteq> asleep s" "inside Gate s \<subseteq> asleep s" using assms(2) by (auto simp: inside_def)
  have o: "b_out (bar s) = 0"
  proof (rule ccontr)
    assume o: "b_out (bar s) \<noteq> 0"
    then have "inside Turnstile s = {}" using inv(2) all by (auto simp: barrier_awake_def)
    then show False using inv(1) o by (simp add: barrier_ok_def phase_ok_def unat_eq_zero)
  qed
  then have "inside Gate s = {}" using inv(2) all by (auto simp: barrier_awake_def)
  then have p: "place s t = Outside \<or> place s t = Turnstile" for t by (cases "place s t") (auto simp: inside_def)
  then have "{t. place s t \<noteq> Outside} = inside Turnstile s" by (auto simp: inside_def)
  then show ?thesis using inv(1) o p by (simp add: barrier_ok_def phase_ok_def)
qed

theorem barrier_no_deadlock_witness:
  "b_out (bar two_threads) = 0 \<and> card {t. place two_threads t \<noteq> Outside} = unat (b_in (bar two_threads))"
proof -
  have "place two_threads t = Outside" for t
    by (simp add: two_threads_def settle_views barrier_again_def barrier_leave_def barrier_start_def)
  then show ?thesis using barrier_no_deadlock [OF two_threads_reachable] by blast
qed

section \<open>The semaphore\<close>

record sem_system =
  sem_value :: u32
  waiting :: "nat set"
  woken :: "nat set"
  posts :: nat
  passed :: nat

text \<open>\<open>uv__custom_sem_post\<close>: whether it signals, and the new value.\<close>

definition uv__custom_sem_post :: "u32 \<Rightarrow> bool \<times> u32" where
  "uv__custom_sem_post value = (let value = value + 1 in (value = 1, value))"

text \<open>\<open>uv__custom_sem_wait\<close> from a point where the thread has the mutex: \<open>None\<close> is another wait.\<close>

definition uv__custom_sem_wait :: "u32 \<Rightarrow> u32 option" where
  "uv__custom_sem_wait value = (if value = 0 then None else Some (value - 1))"

definition uv__custom_sem_trywait :: "bool \<Rightarrow> u32 \<Rightarrow> ret \<times> u32" where
  "uv__custom_sem_trywait locked value =
     (if \<not> locked then (Inl UV_EAGAIN, value)
      else if value = 0 then (Inl UV_EAGAIN, value)
      else (Inr (), value - 1))"

definition sem_section :: "nat \<Rightarrow> sem_system \<Rightarrow> sem_system" where
  "sem_section t s =
     (case uv__custom_sem_wait (sem_value s) of
        None \<Rightarrow> s\<lparr>waiting := insert t (waiting s), woken := woken s - {t}\<rparr>
      | Some v \<Rightarrow> s\<lparr>sem_value := v, woken := woken s - {t}, passed := passed s + 1\<rparr>)"

inductive sem_step :: "sem_system \<Rightarrow> sem_system \<Rightarrow> bool" where
  wait: "t \<notin> waiting s \<union> woken s \<Longrightarrow> sem_step s (sem_section t s)"
| again: "t \<in> woken s \<Longrightarrow> sem_step s (sem_section t s)"
| try_ok: "uv__custom_sem_trywait locked (sem_value s) = (Inr (), v) \<Longrightarrow>
    sem_step s (s\<lparr>sem_value := v, passed := passed s + 1\<rparr>)"
| post: "uv__custom_sem_post (sem_value s) = (signal, v) \<Longrightarrow> \<not> signal \<or> waiting s = {} \<Longrightarrow>
    sem_step s (s\<lparr>sem_value := v, posts := posts s + 1\<rparr>)"
| post_wake: "uv__custom_sem_post (sem_value s) = (True, v) \<Longrightarrow> t \<in> waiting s \<Longrightarrow>
    sem_step s (s\<lparr>sem_value := v, posts := posts s + 1, waiting := waiting s - {t}, woken := insert t (woken s)\<rparr>)"
| spurious: "t \<in> waiting s \<Longrightarrow> sem_step s (s\<lparr>waiting := waiting s - {t}, woken := insert t (woken s)\<rparr>)"

definition sem_start :: "u32 \<Rightarrow> sem_system" where
  "sem_start v = \<lparr>sem_value = v, waiting = {}, woken = {}, posts = 0, passed = 0\<rparr>"

text \<open>The semaphore of old C libraries lets exactly as many threads pass as it was posted: in every
  interleaving its value is the initial one plus the posts less the threads that passed (at its 32 bits), and
  never more threads have passed than that as long as the value has not wrapped.\<close>

theorem sem_counts:
  assumes "sem_step\<^sup>*\<^sup>* (sem_start v) s"
  shows "sem_value s + of_nat (passed s) = v + of_nat (posts s) \<and>
    (unat v + posts s < 2 ^ 32 \<longrightarrow> unat (sem_value s) + passed s = unat v + posts s)"
  using assms
proof (induction rule: rtranclp_induct)
  case base
  then show ?case by (simp add: sem_start_def)
next
  case (step s s')
  have sub: "unat (x - 1) + 1 = unat x" if "x \<noteq> 0" for x :: u32
    using unat_sub_one [OF that] that by (metis add.commute le_add_diff_inverse less_one linorder_not_le unat_eq_zero)
  have add: "unat (x + 1) = unat x + 1" if "unat x + 1 < 2 ^ 32" for x :: u32
    using that unat_add_one_less [of x] by simp
  from step.hyps(2) step.IH show ?case
  proof cases
    case (wait t)
    then show ?thesis using step.IH sub [of "sem_value s"] by (auto simp: sem_section_def uv__custom_sem_wait_def split: if_splits)
  next
    case (again t)
    then show ?thesis using step.IH sub [of "sem_value s"] by (auto simp: sem_section_def uv__custom_sem_wait_def split: if_splits)
  next
    case (try_ok locked w)
    then show ?thesis using step.IH sub [of "sem_value s"] by (auto simp: uv__custom_sem_trywait_def split: if_splits)
  next
    case (post signal w)
    then show ?thesis using step.IH add [of "sem_value s"] by (auto simp: uv__custom_sem_post_def Let_def algebra_simps)
  next
    case (post_wake w t)
    then show ?thesis using step.IH add [of "sem_value s"] by (auto simp: uv__custom_sem_post_def Let_def algebra_simps)
  next
    case (spurious t)
    then show ?thesis using step.IH by simp
  qed
qed

text \<open>A wake-up can be lost: a post that finds the value above zero does not signal, so with two threads
  waiting, two posts wake one thread; the other sleeps on although the value is not zero.\<close>

definition sem_stuck :: sem_system where
  "sem_stuck = \<lparr>sem_value = 1, waiting = {1}, woken = {}, posts = 2, passed = 1\<rparr>"

lemma sem_wait_step: "t \<notin> waiting s \<union> woken s \<Longrightarrow> sem_section t s = s' \<Longrightarrow> sem_step s s'"
  using sem_step.wait by blast

theorem sem_lost_wakeup:
  "sem_step\<^sup>*\<^sup>* (sem_start 0) sem_stuck \<and> sem_value sem_stuck \<noteq> 0 \<and> 1 \<in> waiting sem_stuck \<and> woken sem_stuck = {} \<and>
    \<not> fst (uv__custom_sem_post (sem_value sem_stuck))"
proof -
  have "sem_step (sem_start 0) \<lparr>sem_value = 0, waiting = {0}, woken = {}, posts = 0, passed = 0\<rparr>" (is "sem_step _ ?a")
    by (rule sem_wait_step [of 0]) (simp_all add: sem_start_def sem_section_def uv__custom_sem_wait_def)
  moreover have "sem_step ?a \<lparr>sem_value = 0, waiting = {0, 1}, woken = {}, posts = 0, passed = 0\<rparr>" (is "sem_step _ ?b")
    by (rule sem_wait_step [of 1]) (auto simp: sem_section_def uv__custom_sem_wait_def)
  moreover have "sem_step ?b \<lparr>sem_value = 1, waiting = {1}, woken = {0}, posts = 1, passed = 0\<rparr>" (is "sem_step _ ?c")
    using sem_step.post_wake [of ?b 1 0] by (simp add: uv__custom_sem_post_def)
  moreover have "sem_step ?c \<lparr>sem_value = 2, waiting = {1}, woken = {0}, posts = 2, passed = 0\<rparr>" (is "sem_step _ ?d")
    using sem_step.post [of ?c False 2] by (simp add: uv__custom_sem_post_def numeral_2_eq_2)
  moreover have "sem_step ?d sem_stuck"
    using sem_step.again [of 0 ?d] by (simp add: sem_section_def uv__custom_sem_wait_def sem_stuck_def)
  ultimately have "sem_step\<^sup>*\<^sup>* (sem_start 0) sem_stuck" by (meson converse_rtranclp_into_rtranclp rtranclp.rtrancl_refl)
  then show ?thesis by (simp add: sem_stuck_def uv__custom_sem_post_def)
qed

theorem sem_counts_witness: "sem_value sem_stuck + of_nat (passed sem_stuck) = 0 + of_nat (posts sem_stuck)"
  using sem_counts sem_lost_wakeup by blast

end
