(* ===== verification/UV_Win_Args.thy ===== *)
theory UV_Win_Args
  imports UV_Wtf8
begin

text \<open>
  The command line of a child process on Windows: \<open>quote_cmd_arg\<close> and \<open>make_program_args\<close> of
  src/win/process.c.  A wide string is the list of its units without the terminator.
\<close>

section \<open>Quoting\<close>

abbreviation BS :: u16 where "BS \<equiv> 0x5C"
abbreviation DQ :: u16 where "DQ \<equiv> 0x22"
abbreviation SP :: u16 where "SP \<equiv> 0x20"
abbreviation TAB :: u16 where "TAB \<equiv> 0x09"

definition wcspbrk :: "u16 list \<Rightarrow> u16 list \<Rightarrow> bool" where
  "wcspbrk s accept \<longleftrightarrow> list_ex (\<lambda>c. c \<in> set accept) s"

text \<open>The loop over the source from its end; what it writes is reversed afterwards.\<close>

fun quote_loop :: "bool \<Rightarrow> u16 list \<Rightarrow> u16 list" where
  "quote_loop quote_hit [] = []"
| "quote_loop quote_hit (c # cs) =
     c # (if quote_hit \<and> c = BS then BS # quote_loop quote_hit cs
          else if c = DQ then BS # quote_loop True cs
          else quote_loop False cs)"

definition quote_cmd_arg :: "u16 list \<Rightarrow> u16 list" where
  "quote_cmd_arg source =
     (if source = [] then [DQ, DQ]
      else if \<not> wcspbrk source [SP, TAB, DQ] then source
      else if \<not> wcspbrk source [DQ, BS] then DQ # source @ [DQ]
      else DQ # rev (quote_loop True (rev source)) @ [DQ])"

text \<open>\<open>make_program_args\<close>: the result is an error number or the buffer; \<open>mem1\<close> and \<open>mem2\<close> say whether the
  two allocations succeed.  The arguments are C strings without their terminators.  The assertions
  on the sizes are checked.\<close>

fun args_size :: "u8 list list \<Rightarrow> int \<Rightarrow> (int + int) option" where
  "args_size [] len = Some (Inr len)"
| "args_size (arg # args) len = do {
     n \<leftarrow> uv_wtf8_length_as_utf16 (arg @ [0]);
     if n < 0 then Some (Inl n) else args_size args (len + n)
   }"

fun args_text :: "bool \<Rightarrow> int \<Rightarrow> u8 list list \<Rightarrow> u16 list \<Rightarrow> u16 list option" where
  "args_text verbatim cap [] pos = Some pos"
| "args_text verbatim cap (arg # args) pos = do {
     n \<leftarrow> uv_wtf8_length_as_utf16 (arg @ [0]);
     if n \<le> 0 then None
     else do {
       buf \<leftarrow> uv_wtf8_to_utf16 (arg @ [0]) (nat n);
       let text = takeWhile (\<lambda>c. c \<noteq> 0) buf;
       let pos = pos @ (if verbatim then text else quote_cmd_arg text) @ [if args = [] then 0 else SP];
       if int (length pos) > cap then None else args_text verbatim cap args pos
     }
   }"

definition ENOMEM_win :: int where "ENOMEM_win = - 4057"

definition make_program_args :: "bool \<Rightarrow> bool \<Rightarrow> u8 list list \<Rightarrow> bool \<Rightarrow> (int + u16 list) option" where
  "make_program_args mem1 mem2 args verbatim = do {
     r \<leftarrow> args_size args 0;
     case r of
       Inl e \<Rightarrow> Some (Inl e)
     | Inr len \<Rightarrow>
         (if \<not> mem1 \<or> \<not> mem2 then Some (Inl ENOMEM_win)
          else do {
            text \<leftarrow> args_text verbatim (len * 2 + int (length args) * 2) args [];
            Some (Inr text)
          })
   }"

section \<open>The quoting, read forwards\<close>

text \<open>A reference definition: backslashes are doubled before a double quote and at the end, and a double quote
  gets one backslash more; \<open>n\<close> backslashes have been read and not written.\<close>

fun escape :: "nat \<Rightarrow> u16 list \<Rightarrow> u16 list" where
  "escape n [] = replicate (2 * n) BS"
| "escape n (c # cs) =
     (if c = BS then escape (n + 1) cs
      else if c = DQ then replicate (2 * n + 1) BS @ DQ # escape 0 cs
      else replicate n BS @ c # escape 0 cs)"

definition quoted :: "u16 list \<Rightarrow> u16 list" where
  "quoted s = (if s = [] \<or> wcspbrk s [SP, TAB, DQ] then DQ # escape 0 s @ [DQ] else s)"

fun hits :: "u16 list \<Rightarrow> bool" where
  "hits [] = True"
| "hits (c # cs) = (if c = BS then hits cs else c = DQ)"

lemma quote_loop_append:
  "quote_loop True (rev cs @ [c]) = quote_loop True (rev cs) @ c # (if c = DQ \<or> hits cs \<and> c = BS then [BS] else [])"
proof -
  define fin where "fin = rec_list (\<lambda>h. h) (\<lambda>c cs f h. f (h \<and> c = BS \<or> c = DQ))"
  have f: "fin [] h = h" "fin (c # cs) h = fin cs (h \<and> c = BS \<or> c = DQ)" for h c cs by (simp_all add: fin_def)
  have app: "quote_loop h (xs @ [c]) = quote_loop h xs @ c # (if c = DQ \<or> fin xs h \<and> c = BS then [BS] else [])" for h xs
    by (induction h xs rule: quote_loop.induct) (auto simp: f)
  have snoc: "fin (xs @ [c]) h = (fin xs h \<and> c = BS \<or> c = DQ)" for xs h c
    by (induction xs arbitrary: h) (simp_all add: f)
  have "fin (rev cs) True = hits cs" by (induction cs) (auto simp: f snoc)
  then show ?thesis by (simp add: app)
qed

lemma escape_loop: "escape n s = replicate (if hits s then 2 * n else n) BS @ rev (quote_loop True (rev s))"
proof (induction s arbitrary: n)
  case (Cons c s)
  then show ?case by (auto simp: quote_loop_append replicate_app_Cons_same)
qed simp

lemma escape_plain: "\<not> wcspbrk s [DQ, BS] \<Longrightarrow> escape 0 s = s"
  by (induction s) (auto simp: wcspbrk_def)

text \<open>C30. The optimised quoting, which works from the end and reverses, gives what the forward reference
  definition gives, for every argument.\<close>

theorem quote_cmd_arg_reference: "quote_cmd_arg s = quoted s"
  using escape_loop [of 0 s] escape_plain [of s] by (auto simp: quote_cmd_arg_def quoted_def)

section \<open>What the child process reads\<close>

text \<open>The rules by which the C runtime of Windows documents that it splits the command line into arguments,
  as the specification of the quoting: blanks separate outside quotes; 2n backslashes before a double
  quote stand for n and the quote opens or closes, 2n+1 for n and a literal quote; other backslashes are
  literal; with \<open>pairs\<close>, the newer rule, two double quotes inside quotes are a literal one.  The
  arguments are \<open>quoting\<close>, the backslashes pending, the argument begun, the rest.\<close>

fun argv :: "bool \<Rightarrow> bool \<Rightarrow> nat \<Rightarrow> u16 list option \<Rightarrow> u16 list \<Rightarrow> u16 list list" where
  "argv pairs q n cur [] = (case cur of None \<Rightarrow> [] | Some a \<Rightarrow> [a @ replicate n BS])"
| "argv pairs q n cur (c # cs) =
     (let a = (case cur of None \<Rightarrow> [] | Some a \<Rightarrow> a)
      in if c = BS then argv pairs q (n + 1) (Some a) cs
         else if c = DQ then
           (if odd n then argv pairs q 0 (Some (a @ replicate (n div 2) BS @ [DQ])) cs
            else if pairs \<and> q \<and> cs \<noteq> [] \<and> hd cs = DQ
                 then argv pairs q 0 (Some (a @ replicate (n div 2) BS @ [DQ])) (tl cs)
            else argv pairs (\<not> q) 0 (Some (a @ replicate (n div 2) BS)) cs)
         else if (c = SP \<or> c = TAB) \<and> \<not> q then
           (case cur of None \<Rightarrow> argv pairs q 0 None cs | Some a \<Rightarrow> (a @ replicate n BS) # argv pairs q 0 None cs)
         else argv pairs q 0 (Some (a @ replicate n BS @ [c])) cs)"

fun command_line :: "u16 list list \<Rightarrow> u16 list" where
  "command_line [] = []"
| "command_line [s] = quote_cmd_arg s"
| "command_line (s # ss) = quote_cmd_arg s @ SP # command_line ss"

lemma argv_backslashes: "argv p q n (Some a) (replicate k BS @ rest) = argv p q (n + k) (Some a) rest"
  by (induction k arbitrary: n) simp_all

lemma argv_escape:
  assumes "rest = [] \<or> hd rest \<noteq> DQ"
  shows "argv p True 0 (Some a) (escape n s @ DQ # rest) = argv p False 0 (Some (a @ replicate n BS @ s)) rest"
proof (induction n s arbitrary: a rule: escape.induct)
  case (1 n)
  then show ?case using assms by (auto simp: argv_backslashes)
next
  case (2 n c cs)
  consider "c = BS" | "c = DQ" | "c \<noteq> BS" "c \<noteq> DQ" by blast
  then show ?case
  proof cases
    case 1
    then show ?thesis using 2 by (simp add: replicate_app_Cons_same)
  next
    case dq: 2
    then show ?thesis using 2(2) by (simp add: argv_backslashes del: replicate_Suc)
  next
    case 3
    then show ?thesis using 2(3) by (simp add: argv_backslashes)
  qed
qed

lemma argv_plain:
  assumes "\<not> wcspbrk s [SP, TAB, DQ]" and "rest = [] \<or> hd rest = SP"
  shows "argv p False n (Some a) (s @ rest) = (a @ replicate n BS @ s) # argv p False 0 None (tl rest)"
  using assms
proof (induction s arbitrary: n a)
  case Nil
  then show ?case by (cases rest) auto
next
  case (Cons c s)
  then have s: "\<not> wcspbrk s [SP, TAB, DQ]" "c \<noteq> SP" "c \<noteq> TAB" "c \<noteq> DQ" by (auto simp: wcspbrk_def)
  then show ?case using Cons.IH [OF s(1) Cons.prems(2)] by (simp add: replicate_app_Cons_same)
qed

lemma argv_arg:
  assumes "rest = [] \<or> hd rest = SP"
  shows "argv p False 0 None (quote_cmd_arg s @ rest) = s # argv p False 0 None (tl rest)"
proof (cases "s = [] \<or> wcspbrk s [SP, TAB, DQ]")
  case True
  have r: "rest = [] \<or> hd rest \<noteq> DQ" using assms by auto
  have "argv p False 0 None (quote_cmd_arg s @ rest) = argv p True 0 (Some []) (escape 0 s @ DQ # rest)"
    using True by (simp add: quote_cmd_arg_reference quoted_def)
  also have "\<dots> = argv p False 0 (Some s) rest" using argv_escape [OF r, of p "[]" 0 s] by simp
  also have "\<dots> = s # argv p False 0 None (tl rest)" using assms by (cases rest) auto
  finally show ?thesis .
next
  case False
  then obtain c cs where c: "s = c # cs" by (cases s) auto
  have "argv p False 0 None (s @ rest) = argv p False 0 (Some []) (s @ rest)"
    using False c by (auto simp: wcspbrk_def)
  then show ?thesis using argv_plain [OF _ assms, of s p 0 "[]"] False by (simp add: quote_cmd_arg_reference quoted_def)
qed

lemma argv_command_line: "argv p False 0 None (command_line ss) = ss"
proof (induction ss rule: command_line.induct)
  case (2 s)
  then show ?case using argv_arg [of "[]" p s] by simp
next
  case (3 s t ss)
  then show ?case using argv_arg [of "SP # command_line (t # ss)" p s] by simp
qed simp

section \<open>The whole command line\<close>

text \<open>The arguments are given by their units; none contains the terminator or one of the two characters that
  the conversion cannot handle.\<close>

definition plain_arg :: "u16 list \<Rightarrow> bool" where
  "plain_arg w \<longleftrightarrow> 0 \<notin> set w \<and> 0x10000 \<notin> set (code_points w) \<and> 0x10FFFF \<notin> set (code_points w)"

lemma plain_convert:
  assumes "plain_arg w"
  shows "uv_wtf8_length_as_utf16 (wtf8 w @ [0]) = Some (int (length w) + 1)"
    and "uv_wtf8_to_utf16 (wtf8 w @ [0]) (Suc (length w)) = Some (w @ [0])"
  using wtf8_convert [of w] assms unfolding plain_arg_def Suc_eq_plus1 by blast+

lemma take_text: "0 \<notin> set w \<Longrightarrow> takeWhile (\<lambda>c. c \<noteq> 0) (w @ [0 :: u16]) = w"
  by (induction w) auto

fun units_needed :: "u16 list list \<Rightarrow> nat" where
  "units_needed [] = 0"
| "units_needed (w # ws) = length w + 1 + units_needed ws"

lemma args_size_plain:
  "(\<And>w. w \<in> set ws \<Longrightarrow> plain_arg w) \<Longrightarrow> args_size (map wtf8 ws) n = Some (Inr (n + int (units_needed ws)))"
  by (induction ws arbitrary: n) (simp_all add: plain_convert)

lemma quote_loop_length: "length (quote_loop h s) \<le> 2 * length s"
  by (induction h s rule: quote_loop.induct) auto

lemma quote_length: "length (quote_cmd_arg s) \<le> 2 * length s + 2"
  using quote_loop_length [of True "rev s"] by (simp add: quote_cmd_arg_def)

lemma quote_loop_set: "set (quote_loop h s) \<subseteq> insert BS (set s)"
  by (induction h s rule: quote_loop.induct) auto

lemma quote_nonzero: "0 \<notin> set s \<Longrightarrow> 0 \<notin> set (quote_cmd_arg s)"
  using quote_loop_set [of True "rev s"] by (auto simp: quote_cmd_arg_def)

lemma command_line_nonzero: "(\<And>s. s \<in> set ss \<Longrightarrow> 0 \<notin> set s) \<Longrightarrow> 0 \<notin> set (command_line ss)"
  by (induction ss rule: command_line.induct) (simp_all add: quote_nonzero)

lemma args_text_plain:
  assumes "\<And>w. w \<in> set ws \<Longrightarrow> plain_arg w" and "ws \<noteq> []"
    and "int (length pos) + 2 * int (units_needed ws) + 2 * int (length ws) \<le> cap"
  shows "args_text False cap (map wtf8 ws) pos = Some (pos @ command_line ws @ [0])"
  using assms
proof (induction ws arbitrary: pos rule: command_line.induct)
  case (2 w)
  have t: "takeWhile (\<lambda>c. c \<noteq> 0) (w @ [0]) = w" using 2(1) by (simp add: plain_arg_def take_text)
  show ?case using 2 quote_length [of w] by (simp add: plain_convert nat_add_distrib t)
next
  case (3 w v ws)
  have w: "plain_arg w" using 3(2) by simp
  have t: "takeWhile (\<lambda>c. c \<noteq> 0) (w @ [0]) = w" using w by (simp add: plain_arg_def take_text)
  have "args_text False cap (map wtf8 (v # ws)) (pos @ quote_cmd_arg w @ [SP]) =
      Some ((pos @ quote_cmd_arg w @ [SP]) @ command_line (v # ws) @ [0])"
    by (rule 3(1)) (use 3(2,4) quote_length [of w] in \<open>simp_all\<close>)
  then show ?case using 3(4) quote_length [of w] by (simp add: plain_convert [OF w] nat_add_distrib t)
qed simp



text \<open>With no arguments at all nothing is written, not even a terminator.\<close>

lemma no_args_unterminated: "make_program_args True True [] verbatim = Some (Inr [])"
  by (simp add: make_program_args_def)

end
