(* ===== verification/UV_Win_Path.thy ===== *)
theory UV_Win_Path
  imports UV_Win_Args
begin

text \<open>
  The search for an executable on Windows: \<open>search_path\<close> of src/win/process.c and its helpers.  Which
  files exist, and that a file is no directory, is the parameter \<open>exists\<close>.  A length that would become
  negative (and wrap around to a huge one) is the result \<open>None\<close>.
\<close>

section \<open>Joining\<close>

abbreviation SLASH :: u16 where "SLASH \<equiv> 0x2F"
abbreviation COLON :: u16 where "COLON \<equiv> 0x3A"
abbreviation DOT :: u16 where "DOT \<equiv> 0x2E"
abbreviation SEMI :: u16 where "SEMI \<equiv> 0x3B"
abbreviation SQ :: u16 where "SQ \<equiv> 0x27"

definition is_sep :: "u16 \<Rightarrow> bool" where "is_sep c \<longleftrightarrow> c = BS \<or> c = SLASH"

definition towlower :: "u16 \<Rightarrow> u16" where
  "towlower c = (if 0x41 \<le> c \<and> c \<le> 0x5A then c + 0x20 else c)"

definition wcsnicmp :: "u16 list \<Rightarrow> u16 list \<Rightarrow> nat \<Rightarrow> bool" where
  "wcsnicmp a b n \<longleftrightarrow> map towlower (take n a) = map towlower (take n b)"

definition wcsncpy :: "u16 list \<Rightarrow> nat \<Rightarrow> u16 list" where
  "wcsncpy s n = take n (s @ replicate n 0)"

text \<open>How much of the working directory is put in front of \<open>dir\<close>, and what is left of \<open>dir\<close>.\<close>

definition cwd_prefix :: "u16 list \<Rightarrow> u16 list \<Rightarrow> nat \<times> u16 list" where
  "cwd_prefix dir cwd =
     (if length dir > 2 \<and> is_sep (dir ! 0) \<and> is_sep (dir ! 1) then (0, dir)
      else if length dir \<ge> 1 \<and> is_sep (dir ! 0) then (2, dir)
      else if length dir \<ge> 2 \<and> dir ! 1 = COLON \<and> (length dir < 3 \<or> \<not> is_sep (dir ! 2)) then
        (if length cwd < 2 \<or> \<not> wcsnicmp cwd dir 2 then (0, dir) else (length cwd, drop 2 dir))
      else if length dir > 2 \<and> dir ! 1 = COLON then (0, dir)
      else (length cwd, dir))"

definition add_separator :: "bool \<Rightarrow> u16 list \<Rightarrow> u16 list" where
  "add_separator needed s = (if needed \<and> last s \<notin> {BS, SLASH, COLON, 0} then s @ [BS] else s)"

definition join_path :: "u16 list \<Rightarrow> u16 list \<Rightarrow> u16 list \<Rightarrow> u16 list \<Rightarrow> u16 list" where
  "join_path dir name ext cwd =
     (let (n, dir) = cwd_prefix dir cwd;
          result = add_separator (n \<noteq> 0) (wcsncpy cwd n);
          result = add_separator (dir \<noteq> []) (result @ dir);
          result = result @ name
      in if ext = [] then result
         else (if name \<noteq> [] \<and> last result \<noteq> DOT then result @ [DOT] else result) @ ext)"

definition search_path_join_test :: "(u16 list \<Rightarrow> bool) \<Rightarrow> u16 list \<Rightarrow> u16 list \<Rightarrow> u16 list \<Rightarrow> u16 list \<Rightarrow> u16 list option" where
  "search_path_join_test exists dir name ext cwd =
     (let result = join_path dir name ext cwd in if exists result then Some result else None)"

abbreviation com_ext :: "u16 list" where "com_ext \<equiv> [0x63, 0x6F, 0x6D]"
abbreviation exe_ext :: "u16 list" where "exe_ext \<equiv> [0x65, 0x78, 0x65]"

definition path_search_walk_ext :: "(u16 list \<Rightarrow> bool) \<Rightarrow> u16 list \<Rightarrow> u16 list \<Rightarrow> u16 list \<Rightarrow> bool \<Rightarrow> u16 list option" where
  "path_search_walk_ext exists dir name cwd name_has_ext =
     (let test = (\<lambda>ext. search_path_join_test exists dir name ext cwd)
      in case (if name_has_ext then test [] else None) of
           Some r \<Rightarrow> Some r
         | None \<Rightarrow> (case test com_ext of Some r \<Rightarrow> Some r | None \<Rightarrow> test exe_ext))"

section \<open>Searching\<close>

text \<open>The loop over the directories of \<open>path\<close>, from \<open>dir_end\<close> on; \<open>test\<close> is the search in one directory.\<close>

definition is_quote :: "u16 \<Rightarrow> bool" where "is_quote c \<longleftrightarrow> c = DQ \<or> c = SQ"

definition slice_end :: "u16 list \<Rightarrow> nat" where
  "slice_end rest =
     (let e = (if rest \<noteq> [] \<and> is_quote (hd rest) then 1 + length (takeWhile (\<lambda>c. c \<noteq> hd rest) (tl rest)) else 0)
      in e + length (takeWhile (\<lambda>c. c \<noteq> SEMI) (drop e rest)))"

definition unquote_dir :: "u16 list \<Rightarrow> u16 list option" where
  "unquote_dir dir =
     (let dir' = (if is_quote (hd dir) then tl dir else dir)
      in if dir' = [] then None
         else Some (if is_quote (last dir') then butlast dir' else dir'))"

function search_dirs :: "(u16 list \<Rightarrow> u16 list option) \<Rightarrow> bool \<Rightarrow> u16 list \<Rightarrow> u16 list option option" where
  "search_dirs test at_start [] = Some None"
| "search_dirs test at_start (c # cs) =
     (let rest = (if \<not> at_start \<or> c = SEMI then cs else c # cs);
          n = slice_end rest
      in if n = 0 then search_dirs test False (drop n rest)
         else Option.bind (unquote_dir (take n rest)) (\<lambda>dir.
           case test dir of
             Some r \<Rightarrow> Some (Some r)
           | None \<Rightarrow> search_dirs test False (drop n rest)))"
  by pat_completeness auto
termination
  by (relation "measure (\<lambda>(test, at_start, rest). length rest + of_bool at_start)") (auto simp: Let_def)

definition search_path :: "bool \<Rightarrow> bool \<Rightarrow> (u16 list \<Rightarrow> bool) \<Rightarrow> u16 list \<Rightarrow> u16 list \<Rightarrow> u16 list option \<Rightarrow> u16 list option option" where
  "search_path need_cwd exact exists file cwd path =
     (if length file = 0 \<or> length file = 1 \<and> file ! 0 = DOT then Some None
      else let name = rev (takeWhile (\<lambda>c. c \<noteq> BS \<and> c \<noteq> SLASH \<and> c \<noteq> COLON) (rev file));
               dir = take (length file - length name) file;
               ext = dropWhile (\<lambda>c. c \<noteq> DOT) name;
               name_has_ext = (length ext > 1)
           in if dir \<noteq> [] then Some (path_search_walk_ext exists dir name cwd (name_has_ext \<or> exact))
              else case (if need_cwd then path_search_walk_ext exists [] file cwd name_has_ext else None) of
                     Some r \<Rightarrow> Some (Some r)
                   | None \<Rightarrow> (case path of
                       None \<Rightarrow> Some None
                     | Some p \<Rightarrow> search_dirs (\<lambda>dir. path_search_walk_ext exists dir file cwd name_has_ext) True p))"

section \<open>The files that are tried\<close>

definition tried :: "u16 list \<Rightarrow> u16 list \<Rightarrow> bool \<Rightarrow> u16 list \<Rightarrow> u16 list list" where
  "tried name cwd has_ext dir =
     (if has_ext then [join_path dir name [] cwd] else []) @ [join_path dir name com_ext cwd, join_path dir name exe_ext cwd]"

lemma walk_ext_find: "path_search_walk_ext exists dir name cwd has_ext = find exists (tried name cwd has_ext dir)"
  by (simp add: path_search_walk_ext_def search_path_join_test_def tried_def)

text \<open>A directory of a PATH as it may be written: bare, or between double quotes.\<close>

datatype component = Bare "u16 list" | Quoted "u16 list"

fun render :: "component \<Rightarrow> u16 list" where
  "render (Bare d) = d"
| "render (Quoted d) = DQ # d @ [DQ]"

fun directory :: "component \<Rightarrow> u16 list" where
  "directory (Bare d) = d"
| "directory (Quoted d) = d"

fun well_formed :: "component \<Rightarrow> bool" where
  "well_formed (Bare d) \<longleftrightarrow> SEMI \<notin> set d \<and> (d \<noteq> [] \<longrightarrow> \<not> is_quote (hd d) \<and> \<not> is_quote (last d))"
| "well_formed (Quoted d) \<longleftrightarrow> DQ \<notin> set d"

fun path_text :: "component list \<Rightarrow> u16 list" where
  "path_text [] = []"
| "path_text [c] = render c"
| "path_text (c # cs) = render c @ SEMI # path_text cs"

definition directories :: "component list \<Rightarrow> u16 list list" where
  "directories cs = map directory (filter (\<lambda>c. c \<noteq> Bare []) cs)"

lemma take_semi: "SEMI \<notin> set d \<Longrightarrow> rest = [] \<or> hd rest = SEMI \<Longrightarrow> takeWhile (\<lambda>c. c \<noteq> SEMI) (d @ rest) = d"
  by (induction d; cases rest) auto

lemma slice_render:
  assumes "well_formed c" and "rest = [] \<or> hd rest = SEMI"
  shows "slice_end (render c @ rest) = length (render c)"
proof (cases c)
  case (Bare d)
  have q: "d @ rest \<noteq> [] \<and> is_quote (hd (d @ rest)) \<longleftrightarrow> False"
    using assms Bare by (cases d) (auto simp: is_quote_def)
  have "slice_end (d @ rest) = length (takeWhile (\<lambda>c. c \<noteq> SEMI) (d @ rest))"
    unfolding slice_end_def q by simp
  then show ?thesis using take_semi [of d rest] assms Bare by simp
next
  case (Quoted d)
  have d: "takeWhile (\<lambda>c. c \<noteq> DQ) (d @ DQ # rest) = d" using assms(1) unfolding Quoted well_formed.simps by (induction d) auto
  then show ?thesis using take_semi [of "[DQ]" rest] assms(2) Quoted by (simp add: slice_end_def is_quote_def)
qed

lemma unquote_render:
  assumes "well_formed c" and "c \<noteq> Bare []"
  shows "unquote_dir (render c) = Some (directory c)"
  using assms by (cases c) (auto simp: unquote_dir_def is_quote_def)

declare search_dirs.simps(2) [simp del]

lemma search_step:
  assumes "(if \<not> at_start \<or> c = SEMI then cs else c # cs) = rest"
  shows "search_dirs test at_start (c # cs) =
    (if slice_end rest = 0 then search_dirs test False rest
     else Option.bind (unquote_dir (take (slice_end rest) rest)) (\<lambda>dir.
       case test dir of Some r \<Rightarrow> Some (Some r) | None \<Rightarrow> search_dirs test False (drop (slice_end rest) rest)))"
  unfolding search_dirs.simps(2) assms by (simp add: Let_def)

lemma search_component:
  assumes "well_formed c" and "rest = [] \<or> hd rest = SEMI" and "(if \<not> at_start \<or> x = SEMI then xs else x # xs) = render c @ rest"
  shows "search_dirs test at_start (x # xs) =
    (if c = Bare [] then search_dirs test False rest
     else case test (directory c) of Some r \<Rightarrow> Some (Some r) | None \<Rightarrow> search_dirs test False rest)"
proof -
  have n: "slice_end (render c @ rest) = length (render c)" by (rule slice_render [OF assms(1,2)])
  have e: "render c = [] \<longleftrightarrow> c = Bare []" by (cases c) auto
  show ?thesis using unquote_render [OF assms(1)] e by (auto simp: search_step [OF assms(3)] n split: option.splits)
qed

lemma find_append: "find P (xs @ ys) = (case find P xs of Some r \<Rightarrow> Some r | None \<Rightarrow> find P ys)"
  by (induction xs) auto

fun path_rest :: "component list \<Rightarrow> u16 list" where
  "path_rest [] = []"
| "path_rest (c # cs) = SEMI # render c @ path_rest cs"

lemma path_text_rest: "path_text (c # cs) = render c @ path_rest cs"
  by (induction cs arbitrary: c) auto

definition look :: "(u16 list \<Rightarrow> bool) \<Rightarrow> u16 list \<Rightarrow> u16 list \<Rightarrow> bool \<Rightarrow> u16 list \<Rightarrow> u16 list option" where
  "look exists name cwd e d = find exists (tried name cwd e d)"

lemma search_rest:
  assumes "list_all well_formed cs"
  shows "search_dirs (look exists name cwd e) False (path_rest cs) = Some (find exists (concat (map (tried name cwd e) (directories cs))))"
  using assms
proof (induction cs)
  case (Cons c cs)
  have "path_rest cs = [] \<or> hd (path_rest cs) = SEMI" by (cases cs) auto
  then show ?case using Cons search_component [of c "path_rest cs" False SEMI "render c @ path_rest cs" "look exists name cwd e"]
      look_def [of exists name cwd e "directory c"]
    by (auto simp: directories_def find_append split: option.splits)
qed (simp add: directories_def)

lemma search_text:
  assumes "list_all well_formed cs"
  shows "search_dirs (look exists name cwd e) True (path_text cs) = Some (find exists (concat (map (tried name cwd e) (directories cs))))"
proof (cases cs)
  case (Cons c cs')
  have r: "path_rest cs' = [] \<or> hd (path_rest cs') = SEMI" by (cases cs') auto
  show ?thesis
  proof (cases "c = Bare []")
    case True
    then have "search_dirs (look exists name cwd e) True (path_text cs) = search_dirs (look exists name cwd e) False (path_rest cs')"
      by (cases cs') (auto simp: Cons path_text_rest search_step [OF refl])
    then show ?thesis using search_rest [of cs' exists name cwd e] assms True Cons by (simp add: directories_def)
  next
    case False
    then obtain x xs where x: "path_text cs = x # xs" "x \<noteq> SEMI" using assms(1) Cons
      by (cases c; cases "render c") (auto simp: path_text_rest)
    then show ?thesis
      using search_component [of c "path_rest cs'" True x xs "look exists name cwd e"] search_rest [of cs' exists name cwd e] assms r False Cons
        look_def [of exists name cwd e "directory c"]
      by (auto simp: path_text_rest directories_def find_append split: option.splits)
  qed
qed (simp add: directories_def)

text \<open>C32. A bare file name is looked for in the current directory, where Windows asks for it, and then in the
  directories of the path in their order, bare or quoted (a quoted one may contain semicolons) and without the
  empty ones; in each the name itself is tried first if it has an extension, then with .com and .exe.  The
  search ends with the first of these files that exists.\<close>

theorem search_path_finds:
  assumes "list_all well_formed cs" and "prog \<noteq> []" and "prog \<noteq> [DOT]" and "\<forall>c\<in>set prog. c \<notin> {BS, SLASH, COLON}"
  shows "search_path need_cwd exact exists prog cwd (Some (path_text cs)) =
    Some (find exists (concat (map (tried prog cwd (length (dropWhile (\<lambda>c. c \<noteq> DOT) prog) > 1))
      ((if need_cwd then [[]] else []) @ directories cs))))"
proof -
  have n: "takeWhile (\<lambda>c. c \<noteq> BS \<and> c \<noteq> SLASH \<and> c \<noteq> COLON) (rev prog) = rev prog"
    using assms(4) by (intro takeWhile_eq_all_conv [THEN iffD2]) auto
  have "(length prog = 0 \<or> length prog = 1 \<and> prog ! 0 = DOT) = False" using assms(2,3) by (cases prog) auto
  then show ?thesis
    using search_text [OF assms(1), of exists prog cwd "length (dropWhile (\<lambda>c. c \<noteq> DOT) prog) > 1"]
    by (simp only: search_path_def) (simp add: n walk_ext_find look_def [abs_def] find_append split: option.splits)
qed

text \<open>The program \<open>a.exe\<close> in the second directory of \<open>C:\x;;"C:\y;z"\<close>.\<close>

theorem search_path_finds_witness:
  "search_path True False (\<lambda>f. f = [0x43, COLON, BS, 0x79, SEMI, 0x7A, BS, 0x61] @ [DOT] @ exe_ext) [0x61] [0x43, COLON, BS]
     (Some (path_text [Bare [0x43, COLON, BS, 0x78], Bare [], Quoted [0x43, COLON, BS, 0x79, SEMI, 0x7A]])) =
   Some (Some [0x43, COLON, BS, 0x79, SEMI, 0x7A, BS, 0x61, DOT, 0x65, 0x78, 0x65])"
  by (subst search_path_finds)
    (simp_all add: is_quote_def directories_def tried_def join_path_def cwd_prefix_def is_sep_def add_separator_def wcsncpy_def)

text \<open>A path that ends with a lone quote makes the length of the directory wrap around.\<close>

lemma lone_quote_wraps:
  assumes "is_quote q"
  shows "search_dirs test True [q] = None" and "test d = None \<Longrightarrow> well_formed (Bare d) \<Longrightarrow> d \<noteq> [] \<Longrightarrow> search_dirs test True (d @ [SEMI, q]) = None"
proof -
  have q: "q \<noteq> SEMI" using assms by (auto simp: is_quote_def)
  have one: "slice_end [q] = 1" "unquote_dir [q] = None" using assms by (simp_all add: slice_end_def unquote_dir_def)
  then show "search_dirs test True [q] = None" using q by (subst search_step [OF refl]) simp
  have s: "search_dirs test False [SEMI, q] = None" using one by (subst search_step [OF refl]) simp
  assume d: "test d = None" "well_formed (Bare d)" "d \<noteq> []"
  then obtain x xs where x: "d = x # xs" "x \<noteq> SEMI" by (cases d) auto
  then show "search_dirs test True (d @ [SEMI, q]) = None"
    using search_component [OF d(2), of "[SEMI, q]" True x "xs @ [SEMI, q]" test] d(1) s by simp
qed

end
