(* ===== verification/UV_Win_Env.thy ===== *)
theory UV_Win_Env
  imports UV_Win_Args "HOL-Library.Multiset" "HOL-Library.List_Lexorder"
begin

text \<open>
  The environment of a child process on Windows: \<open>make_program_env\<close> of src/win/process.c.  The
  upper-case mapping of the system (unit by unit), the C library's \<open>qsort\<close> and the parent's environment
  are parameters.
\<close>

section \<open>Comparing names\<close>

abbreviation EQ :: u16 where "EQ \<equiv> 0x3D"

definition wide :: "string \<Rightarrow> u16 list" where
  "wide s = map of_char s"

definition required_vars :: "u16 list list" where
  "required_vars = map wide [''HOMEDRIVE'', ''HOMEPATH'', ''LOGONSERVER'', ''PATH'', ''SYSTEMDRIVE'', ''SYSTEMROOT'',
     ''TEMP'', ''USERDOMAIN'', ''USERNAME'', ''USERPROFILE'', ''WINDIR'']"

fun wide_cmp :: "u16 list \<Rightarrow> u16 list \<Rightarrow> int option" where
  "wide_cmp (a # as) (b # bs) =
     (if a < b then Some (- 1) else if a > b then Some 1 else if a = 0 \<and> b = 0 then Some 0 else wide_cmp as bs)"
| "wide_cmp _ _ = None"

definition name_part :: "u16 list \<Rightarrow> u16 list option" where
  "name_part v = (if EQ \<in> set v then Some (takeWhile (\<lambda>c. c \<noteq> EQ) v) else None)"

definition env_strncmp :: "(u16 \<Rightarrow> u16) \<Rightarrow> u16 list \<Rightarrow> int \<Rightarrow> u16 list \<Rightarrow> int option" where
  "env_strncmp up a na b = do {
     A \<leftarrow> (if na < 0 then name_part a else Some (take (nat (na - 1)) a));
     B \<leftarrow> name_part b;
     wide_cmp (map up A @ [0]) (map up B @ [0])
   }"

text \<open>A required variable with the equals sign, whose length is the entry's \<open>len\<close>.\<close>

definition cmp_required :: "(u16 \<Rightarrow> u16) \<Rightarrow> u16 list \<Rightarrow> u16 list \<Rightarrow> int option" where
  "cmp_required up r v = env_strncmp up (r @ [EQ]) (int (length r) + 1) v"

section \<open>The passes\<close>

text \<open>The first two passes: the size and the texts of the variables that have an equals sign.\<close>

fun env_size :: "u8 list list \<Rightarrow> int \<Rightarrow> (int + int) option" where
  "env_size [] env_len = Some (Inr env_len)"
| "env_size (v # vs) env_len =
     (if 0x3D \<notin> set v then env_size vs env_len
      else do {
        n \<leftarrow> uv_wtf8_length_as_utf16 (v @ [0]);
        if n < 0 then Some (Inl n) else env_size vs (env_len + n)
      })"

fun env_texts :: "u8 list list \<Rightarrow> u16 list list option" where
  "env_texts [] = Some []"
| "env_texts (v # vs) =
     (if 0x3D \<notin> set v then env_texts vs
      else do {
        n \<leftarrow> uv_wtf8_length_as_utf16 (v @ [0]);
        buf \<leftarrow> uv_wtf8_to_utf16 (v @ [0]) (nat n);
        ts \<leftarrow> env_texts vs;
        Some (takeWhile (\<lambda>c. c \<noteq> 0) buf # ts)
      })"

text \<open>The third pass: the size of each required variable that is missing in the sorted copy (0 if the parent
  has none either; \<open>None\<close> where it is not set), and what they add to the length.\<close>

fun third_pass :: "(u16 \<Rightarrow> u16) \<Rightarrow> (u16 list \<Rightarrow> nat) \<Rightarrow> u16 list list \<Rightarrow> u16 list list \<Rightarrow> (nat option list \<times> nat) option" where
  "third_pass up var_size vs [] = Some ([], 0)"
| "third_pass up var_size [] (r # rs) = do {
     (sizes, n) \<leftarrow> third_pass up var_size [] rs;
     Some (Some (var_size r) # sizes, (if var_size r \<noteq> 0 then length r + 1 + var_size r else 0) + n)
   }"
| "third_pass up var_size (v # vs) (r # rs) = do {
     c \<leftarrow> cmp_required up r v;
     if c < 0 then do {
       (sizes, n) \<leftarrow> third_pass up var_size (v # vs) rs;
       Some (Some (var_size r) # sizes, (if var_size r \<noteq> 0 then length r + 1 + var_size r else 0) + n)
     }
     else if c = 0 then do {
       (sizes, n) \<leftarrow> third_pass up var_size vs rs;
       Some (None # sizes, n)
     }
     else third_pass up var_size vs (r # rs)
   }"

text \<open>The final pass; a size that was not set, and a value that changed its length since, are \<open>None\<close>.\<close>

definition put_required :: "(u16 list \<Rightarrow> u16 list option) \<Rightarrow> u16 list \<Rightarrow> nat option \<Rightarrow> u16 list option" where
  "put_required getenv r sz = do {
     len \<leftarrow> sz;
     if len = 0 then Some []
     else do {
       value \<leftarrow> getenv r;
       if length value \<noteq> len - 1 then None else Some (r @ [EQ] @ value @ [0])
     }
   }"

fun final_pass :: "(u16 \<Rightarrow> u16) \<Rightarrow> (u16 list \<Rightarrow> u16 list option) \<Rightarrow> u16 list list \<Rightarrow> (u16 list \<times> nat option) list \<Rightarrow> u16 list \<Rightarrow>
    u16 list option" where
  "final_pass up getenv [] [] out = Some out"
| "final_pass up getenv (v # vs) [] out = final_pass up getenv vs [] (out @ v @ [0])"
| "final_pass up getenv [] ((r, sz) # rs) out =
     Option.bind (put_required getenv r sz) (\<lambda>t. final_pass up getenv [] rs (out @ t))"
| "final_pass up getenv (v # vs) ((r, sz) # rs) out = do {
     c \<leftarrow> cmp_required up r v;
     if c < 0 then Option.bind (put_required getenv r sz) (\<lambda>t. final_pass up getenv (v # vs) rs (out @ t))
     else if c = 0 then final_pass up getenv vs rs (out @ v @ [0])
     else final_pass up getenv vs ((r, sz) # rs) (out @ v @ [0])
   }"

text \<open>What \<open>GetEnvironmentVariableW\<close> says of a variable's size.\<close>

definition sizes_of :: "(u16 list \<Rightarrow> u16 list option) \<Rightarrow> u16 list \<Rightarrow> nat" where
  "sizes_of getenv r = (case getenv r of None \<Rightarrow> 0 | Some v \<Rightarrow> length v + 1)"

definition make_program_env :: "bool \<Rightarrow> bool \<Rightarrow> (u16 \<Rightarrow> u16) \<Rightarrow> (u16 list list \<Rightarrow> u16 list list) \<Rightarrow> (u16 list \<Rightarrow> u16 list option) \<Rightarrow>
    u8 list list \<Rightarrow> (int + u16 list) option" where
  "make_program_env mem1 mem2 up qsort getenv env_block = do {
     r \<leftarrow> env_size env_block 0;
     case r of
       Inl e \<Rightarrow> Some (Inl e)
     | Inr env_len \<Rightarrow>
         (if \<not> mem1 \<and> env_len > 0 then Some (Inl ENOMEM_win)
          else do {
            texts \<leftarrow> env_texts env_block;
            if list_ex (\<lambda>t. name_part t = None) texts then None
            else do {
              let copy = qsort texts;
              (sizes, n) \<leftarrow> third_pass up (sizes_of getenv) copy required_vars;
              if \<not> mem2 then Some (Inl ENOMEM_win)
              else do {
                out \<leftarrow> final_pass up getenv copy (zip required_vars sizes) [];
                if int (length out) \<noteq> env_len + int n then None else Some (Inr (out @ [0]))
              }
            }
          })
   }"

section \<open>The merge\<close>

definition key :: "(u16 \<Rightarrow> u16) \<Rightarrow> u16 list \<Rightarrow> u16 list" where
  "key up v = map up (takeWhile (\<lambda>c. c \<noteq> EQ) v)"

text \<open>The system's mapping to upper case: no unit becomes the terminator, capital letters stay.\<close>

definition upper_case :: "(u16 \<Rightarrow> u16) \<Rightarrow> bool" where
  "upper_case up \<longleftrightarrow> (\<forall>c. c \<noteq> 0 \<longrightarrow> up c \<noteq> 0) \<and> (\<forall>c. 0x41 \<le> c \<and> c \<le> 0x5A \<longrightarrow> up c = c)"

lemma wide_cmp_list:
  assumes "0 \<notin> set a" and "0 \<notin> set b"
  shows "wide_cmp (a @ [0]) (b @ [0]) = Some (if a < b then - 1 else if b < a then 1 else 0)"
  using assms
proof (induction a arbitrary: b)
  case Nil
  then show ?case by (cases b) (auto simp: word_gt_0)
next
  case (Cons x a)
  then show ?case
    by (cases b) (auto simp: word_gt_0 not_less_iff_gr_or_eq)
qed

lemma required_caps: "r \<in> set required_vars \<Longrightarrow> c \<in> set r \<Longrightarrow> 0x41 \<le> c \<and> c \<le> (0x5A :: u16)"
  by (auto simp: required_vars_def wide_def)

lemma required_sorted: "sorted required_vars" "distinct required_vars"
  by (simp_all add: required_vars_def wide_def less_eq_list_code)

lemma required_up: "upper_case up \<Longrightarrow> r \<in> set required_vars \<Longrightarrow> map up r = r"
  using required_caps unfolding upper_case_def by (metis map_idI)

lemma cmp_required_key:
  assumes "upper_case up" and "r \<in> set required_vars" and "EQ \<in> set v" and "0 \<notin> set v"
  shows "cmp_required up r v = Some (if r < key up v then - 1 else if key up v < r then 1 else 0)"
proof -
  have "0 \<notin> set r" using required_caps [OF assms(2), of 0] by auto
  moreover have "0 \<notin> set (key up v)" using assms(1,4) by (auto simp: key_def upper_case_def dest!: set_takeWhileD) metis
  ultimately show ?thesis
    using wide_cmp_list [of r "key up v"] assms(3) required_up [OF assms(1,2)]
    by (simp add: cmp_required_def env_strncmp_def name_part_def key_def)
qed

definition inherited :: "(u16 list \<Rightarrow> u16 list option) \<Rightarrow> u16 list \<Rightarrow> u16 list list" where
  "inherited getenv r = (case getenv r of None \<Rightarrow> [] | Some v \<Rightarrow> [r @ EQ # v])"

fun merged :: "(u16 \<Rightarrow> u16) \<Rightarrow> (u16 list \<Rightarrow> u16 list option) \<Rightarrow> u16 list list \<Rightarrow> u16 list list \<Rightarrow> u16 list list" where
  "merged up getenv vs [] = vs"
| "merged up getenv [] (r # rs) = inherited getenv r @ merged up getenv [] rs"
| "merged up getenv (v # vs) (r # rs) =
     (if r < key up v then inherited getenv r @ merged up getenv (v # vs) rs
      else if r = key up v then v # merged up getenv vs rs
      else v # merged up getenv vs (r # rs))"

definition flat :: "u16 list list \<Rightarrow> u16 list" where
  "flat vs = concat (map (\<lambda>v. v @ [0]) vs)"

lemma flat_simps [simp]: "flat [] = []" "flat (v # vs) = v @ 0 # flat vs" "flat (vs @ ws) = flat vs @ flat ws"
  by (simp_all add: flat_def)

lemma put_inherited: "put_required getenv r (Some (sizes_of getenv r)) = Some (flat (inherited getenv r))"
  by (simp add: put_required_def sizes_of_def inherited_def split: option.splits)

lemma inherited_length:
  "length (flat (inherited getenv r)) = (if sizes_of getenv r \<noteq> 0 then length r + 1 + sizes_of getenv r else 0)"
  by (simp add: sizes_of_def inherited_def split: option.splits)

definition texts_ok :: "u16 list list \<Rightarrow> bool" where
  "texts_ok vs \<longleftrightarrow> (\<forall>v\<in>set vs. EQ \<in> set v \<and> 0 \<notin> set v)"

text \<open>The two passes agree: the length is what is copied, and no size is read that was not set.\<close>

lemma passes:
  assumes "upper_case up" and "texts_ok vs" and "set rs \<subseteq> set required_vars"
  shows "\<exists>sizes n. third_pass up (sizes_of getenv) vs rs = Some (sizes, n) \<and> length sizes = length rs \<and>
    (\<forall>out. final_pass up getenv vs (zip rs sizes) out = Some (out @ flat (merged up getenv vs rs))) \<and>
    length (flat (merged up getenv vs rs)) = length (flat vs) + n"
  using assms
proof (induction up getenv vs rs rule: merged.induct)
  case (1 up getenv vs)
  have "final_pass up getenv vs [] out = Some (out @ flat vs)" for out by (induction vs arbitrary: out) simp_all
  then show ?case by simp
next
  case (2 up getenv r rs)
  then obtain sizes n where "third_pass up (sizes_of getenv) [] rs = Some (sizes, n)" "length sizes = length rs"
    "\<forall>out. final_pass up getenv [] (zip rs sizes) out = Some (out @ flat (merged up getenv [] rs))"
    "length (flat (merged up getenv [] rs)) = n" by auto
  then show ?case by (simp add: put_inherited inherited_length)
next
  case (3 up getenv v vs r rs)
  have v: "EQ \<in> set v" "0 \<notin> set v" "texts_ok vs" "r \<in> set required_vars" "set rs \<subseteq> set required_vars"
    using 3(5,6) by (auto simp: texts_ok_def)
  note c = cmp_required_key [OF 3(4) v(4,1,2)]
  consider (lt) "r < key up v" | (eq) "r = key up v" | (gt) "key up v < r" by (meson not_less_iff_gr_or_eq)
  then show ?case
  proof cases
    case lt
    obtain sizes n where "third_pass up (sizes_of getenv) (v # vs) rs = Some (sizes, n)" "length sizes = length rs"
      "\<forall>out. final_pass up getenv (v # vs) (zip rs sizes) out = Some (out @ flat (merged up getenv (v # vs) rs))"
      "length (flat (merged up getenv (v # vs) rs)) = length (flat (v # vs)) + n"
      using 3(1) [OF lt 3(4,5) v(5)] by blast
    then show ?thesis using lt by (simp add: c put_inherited inherited_length del: flat_simps(2)) 
  next
    case eq
    then obtain sizes n where "third_pass up (sizes_of getenv) vs rs = Some (sizes, n)" "length sizes = length rs"
      "\<forall>out. final_pass up getenv vs (zip rs sizes) out = Some (out @ flat (merged up getenv vs rs))"
      "length (flat (merged up getenv vs rs)) = length (flat vs) + n"
      using 3(2) [OF _ eq 3(4) v(3,5)] by auto
    then show ?thesis using eq c by simp
  next
    case gt
    then have g: "\<not> r < key up v" "r \<noteq> key up v" by auto
    obtain sizes n where "third_pass up (sizes_of getenv) vs (r # rs) = Some (sizes, n)" "length sizes = length (r # rs)"
      "\<forall>out. final_pass up getenv vs (zip (r # rs) sizes) out = Some (out @ flat (merged up getenv vs (r # rs)))"
      "length (flat (merged up getenv vs (r # rs))) = length (flat vs) + n"
      using 3(3) [OF g 3(4) v(3) 3(6)] by blast
    moreover from this(2) obtain x xs where "sizes = x # xs" by (cases sizes) auto
    ultimately show ?thesis using g gt c by simp
  qed
qed

text \<open>The merge is sorted by name and has the child's variables and the missing required ones.\<close>

lemma key_inherited:
  assumes "upper_case up" and "r \<in> set required_vars" and "x \<in> set (inherited getenv r)"
  shows "key up x = r"
proof -
  have "EQ \<notin> set r" using required_caps [OF assms(2), of EQ] by auto
  then have "takeWhile (\<lambda>c. c \<noteq> EQ) (r @ EQ # v) = r" for v by (induction r) auto
  then show ?thesis using assms(3) required_up [OF assms(1,2)]
    by (auto simp: inherited_def key_def split: option.splits)
qed

definition missing :: "(u16 \<Rightarrow> u16) \<Rightarrow> u16 list list \<Rightarrow> u16 list list \<Rightarrow> u16 list list" where
  "missing up vs rs = filter (\<lambda>r. r \<notin> key up ` set vs) rs"

lemma merged_keys:
  assumes "upper_case up" and "set rs \<subseteq> set required_vars" and "x \<in> set (merged up getenv vs rs)"
  shows "key up x \<in> key up ` set vs \<union> set rs"
  using assms
proof (induction up getenv vs rs rule: merged.induct)
  case (2 up getenv r rs)
  then show ?case using key_inherited [of up r x getenv] by auto
next
  case (3 up getenv v vs r rs)
  then show ?case using key_inherited [of up r x getenv] by (auto split: if_splits)
qed auto

lemma merged_ok:
  assumes "upper_case up" and "sorted (map (key up) vs)" and "sorted rs" and "distinct rs" and "set rs \<subseteq> set required_vars"
  shows "sorted (map (key up) (merged up getenv vs rs)) \<and>
    mset (merged up getenv vs rs) = mset vs + mset (concat (map (inherited getenv) (missing up vs rs)))"
  using assms
proof (induction up getenv vs rs rule: merged.induct)
  case (2 up getenv r rs)
  have "sorted (map (key up) (inherited getenv r))" by (simp add: inherited_def split: option.splits)
  then show ?case
    using 2 key_inherited [of up r _ getenv] merged_keys [OF 2(2), of rs _ getenv "[]"]
    by (fastforce simp: sorted_append missing_def)
next
  case (3 up getenv v vs r rs)
  have rs: "sorted rs" "distinct rs" "set rs \<subseteq> set required_vars" "r \<notin> set rs" "\<forall>r'\<in>set rs. r < r'" "r \<in> set required_vars"
    using 3(6-8) by (auto simp: order_less_le)
  consider (lt) "r < key up v" | (eq) "r = key up v" | (gt) "key up v < r" by (meson not_less_iff_gr_or_eq)
  then show ?case
  proof cases
    case lt
    have "sorted (map (key up) (inherited getenv r))" by (simp add: inherited_def split: option.splits)
    moreover have "r \<notin> key up ` set (v # vs)" using lt 3(5) by auto
    moreover have "r \<le> key up x" if "x \<in> set (merged up getenv (v # vs) rs)" for x
      using merged_keys [OF 3(4) rs(3) that] lt 3(5) rs(5) by (auto intro: less_imp_le order_trans)
    ultimately show ?thesis using lt 3(1) [OF lt 3(4,5) rs(1-3)] key_inherited [OF 3(4) rs(6)]
      by (auto simp: sorted_append missing_def)
  next
    case eq
    have "sorted (map (key up) vs)" using 3(5) by simp
    note IH = 3(2) [OF _ eq 3(4) this rs(1-3)]
    have "missing up (v # vs) (r # rs) = missing up vs rs"
      unfolding missing_def using eq rs(4) by (auto intro!: filter_cong)
    moreover have "key up v \<le> key up x" if "x \<in> set (merged up getenv vs rs)" for x
      using merged_keys [OF 3(4) rs(3) that] eq 3(5) rs(5) by (auto intro: less_imp_le)
    ultimately show ?thesis using IH eq by simp
  next
    case gt
    then have g: "\<not> r < key up v" "r \<noteq> key up v" by auto
    have "sorted (map (key up) vs)" using 3(5) by simp
    note IH = 3(3) [OF g 3(4) this 3(6-8)]
    have "missing up (v # vs) (r # rs) = missing up vs (r # rs)"
      unfolding missing_def using gt rs(5) by (intro filter_cong) auto
    moreover have "key up v \<le> key up x" if "x \<in> set (merged up getenv vs (r # rs))" for x
      using merged_keys [OF 3(4) 3(8) that] gt 3(5) rs(5) by (auto intro: less_imp_le order_trans)
    ultimately show ?thesis using IH g by simp
  qed
qed (auto simp: missing_def)

section \<open>The texts\<close>

lemma high_byte: "bit b 7 \<Longrightarrow> b \<noteq> 0x3D" for b :: u8 by auto

lemma eq_bytes: "0x3D \<in> set (wtf8_bytes cp) \<longleftrightarrow> cp = 0x3D"
proof (cases "cp < 0x80")
  case True
  then have "unat (ucast cp :: u8) = unat cp" by (simp add: word_less_nat_alt unsigned_ucast_eq take_bit_nat_eq_self)
  then show ?thesis using True by (auto simp: wtf8_bytes_def word_unat_eq_iff)
next
  case False
  have "b \<noteq> 0x3D" if "b \<in> set (wtf8_bytes cp)" for b
    using that False by (intro high_byte) (auto simp: wtf8_bytes_def bit_unsigned_iff bit_or_iff split: if_splits)
  then show ?thesis using False by auto
qed

lemma eq_code_points: "0x3D \<in> set (code_points w) \<longleftrightarrow> EQ \<in> set w"
proof (induction w rule: code_points.induct)
  case (1 u v w)
  have s: "(ucast u :: u32) = 0x3D \<longleftrightarrow> u = 0x3D" by (simp add: word_unat_eq_iff unat_ucast_up)
  have p: "is_high u \<Longrightarrow> is_low v \<Longrightarrow> pair_value u v \<noteq> 0x3D \<and> u \<noteq> EQ \<and> v \<noteq> EQ"
    using pair_value_unat(1) [of u v] by (auto simp: is_high_def is_low_def)
  show ?case using 1 s p by auto
next
  case (2 u)
  show ?case by (auto simp: word_unat_eq_iff unat_ucast_up)
qed simp

lemma eq_wtf8: "0x3D \<in> set (wtf8 w) \<longleftrightarrow> EQ \<in> set w"
  using eq_code_points [of w] by (simp add: wtf8_def eq_bytes)

lemma env_texts_plain:
  "(\<And>w. w \<in> set ws \<Longrightarrow> plain_arg w) \<Longrightarrow> env_texts (map wtf8 ws) = Some (filter (\<lambda>w. EQ \<in> set w) ws)"
proof (induction ws)
  case (Cons w ws)
  then have "takeWhile (\<lambda>c. c \<noteq> 0) (w @ [0]) = w" by (simp add: take_text plain_arg_def)
  then show ?case using Cons by (simp add: eq_wtf8 plain_convert nat_add_distrib)
qed simp

lemma env_size_plain:
  "(\<And>w. w \<in> set ws \<Longrightarrow> plain_arg w) \<Longrightarrow>
    env_size (map wtf8 ws) n = Some (Inr (n + int (length (flat (filter (\<lambda>w. EQ \<in> set w) ws)))))"
  by (induction ws arbitrary: n) (simp_all add: eq_wtf8 plain_convert)

text \<open>C33. The child's environment block: it has exactly the variables of the given environment that have an
  equals sign, in the order of their upper-case names, and between them those of the eleven variables that
  Windows needs which the given environment lacks and the parent has; the passes agree on its size, and it
  ends with an empty string.  The sorting may be any that sorts.\<close>

theorem program_env_block:
  assumes "upper_case up" and "\<forall>w\<in>set ws. plain_arg w"
    and "\<forall>vs. mset (qsort vs) = mset vs \<and> sorted (map (key up) (qsort vs))"
  shows "\<exists>vs. make_program_env True True up qsort getenv (map wtf8 ws) = Some (Inr (concat (map (\<lambda>v. v @ [0]) vs) @ [0])) \<and>
    sorted (map (key up) vs) \<and>
    mset vs = mset (filter (\<lambda>w. EQ \<in> set w) ws) +
      mset (concat (map (inherited getenv) (filter (\<lambda>r. \<forall>w\<in>set ws. EQ \<in> set w \<longrightarrow> key up w \<noteq> r) required_vars)))"
proof -
  define ts where "ts = filter (\<lambda>w. EQ \<in> set w) ws"
  have q: "mset (qsort ts) = mset ts" "sorted (map (key up) (qsort ts))" using assms(3) by blast+
  have qs: "set (qsort ts) = set ts" using q(1) by (metis set_mset_mset)
  then have t: "texts_ok (qsort ts)" using assms(2) by (auto simp: texts_ok_def ts_def plain_arg_def)
  obtain sizes n where p: "third_pass up (sizes_of getenv) (qsort ts) required_vars = Some (sizes, n)"
    "\<And>out. final_pass up getenv (qsort ts) (zip required_vars sizes) out = Some (out @ flat (merged up getenv (qsort ts) required_vars))"
    "length (flat (merged up getenv (qsort ts) required_vars)) = length (flat (qsort ts)) + n"
    using passes [OF assms(1) t order.refl, of getenv] by blast
  have "length (flat vs) = sum_mset (image_mset (\<lambda>v. Suc (length v)) (mset vs))" for vs by (induction vs) simp_all
  then have l: "length (flat (qsort ts)) = length (flat ts)" by (simp only: q(1))
  have m: "missing up (qsort ts) required_vars = filter (\<lambda>r. \<forall>w\<in>set ws. EQ \<in> set w \<longrightarrow> key up w \<noteq> r) required_vars"
    unfolding missing_def qs unfolding ts_def by (intro filter_cong) auto
  have "\<not> list_ex (\<lambda>t. name_part t = None) ts" by (auto simp: list_ex_iff ts_def name_part_def)
  then have "make_program_env True True up qsort getenv (map wtf8 ws) =
      Some (Inr (flat (merged up getenv (qsort ts) required_vars) @ [0]))"
    using env_texts_plain [of ws] env_size_plain [of ws 0] assms(2) p l by (simp add: make_program_env_def ts_def [symmetric] flat_def [symmetric] Let_def)
  then show ?thesis
    using merged_ok [OF assms(1) q(2) required_sorted order.refl, of getenv] unfolding m q(1)
    by (intro exI [of _ "merged up getenv (qsort ts) required_vars"]) (simp add: ts_def [symmetric] flat_def)
qed

text \<open>A child given \<open>Path=a\<close> by a parent with \<open>PATH=b\<close> and \<open>TEMP=c\<close>.\<close>

definition demo_up :: "u16 \<Rightarrow> u16" where
  "demo_up c = (if 0x61 \<le> c \<and> c \<le> 0x7A then c - 0x20 else c)"

definition demo_parent :: "u16 list \<Rightarrow> u16 list option" where
  "demo_parent r = (if r = wide ''PATH'' then Some [0x62] else if r = wide ''TEMP'' then Some [0x63] else None)"

theorem program_env_block_witness:
  "\<exists>vs. make_program_env True True demo_up (sort_key (key demo_up)) demo_parent (map wtf8 [wide ''Path=a'']) =
      Some (Inr (concat (map (\<lambda>v. v @ [0]) vs) @ [0])) \<and> mset vs = {#wide ''Path=a'', wide ''TEMP=c''#}"
proof -
  have u: "upper_case demo_up"
    unfolding upper_case_def
  proof (intro conjI allI impI)
    fix c :: u16
    have "unat (c - 0x20) = unat c - 32" if "0x61 \<le> c" using that by (simp add: unat_sub word_le_nat_alt)
    then show "demo_up c \<noteq> 0" if "c \<noteq> 0" using that by (auto simp: demo_up_def word_le_nat_alt word_unat_eq_iff)
    show "demo_up c = c" if "0x41 \<le> c \<and> c \<le> 0x5A" using that by (auto simp: demo_up_def word_le_nat_alt)
  qed
  have p: "\<forall>w\<in>set [wide ''Path=a'']. plain_arg w" by (simp add: plain_arg_def wide_def is_high_def)
  have e: "concat (map (inherited demo_parent) (filter (\<lambda>r. \<forall>w\<in>set [wide ''Path=a'']. EQ \<in> set w \<longrightarrow> key demo_up w \<noteq> r) required_vars)) =
      [wide ''TEMP=c'']"
    by (simp add: required_vars_def wide_def key_def demo_up_def inherited_def demo_parent_def)
  have m: "mset (filter (\<lambda>w. EQ \<in> set w) [wide ''Path=a'']) = {#wide ''Path=a''#}" by (simp add: wide_def)
  show ?thesis
    using program_env_block [OF u p, of "sort_key (key demo_up)" demo_parent] unfolding e m by auto
qed

end
