(* ===== verification/UV_Iou.thy ===== *)
theory UV_Iou
  imports UV_Handle "HOL-Library.Multiset"
begin

text \<open>
  File operations through io_uring: the \<open>uv__iou_\<close> functions of src/unix/linux.c and the ring they share
  with the kernel's polling thread, which takes entries and posts completions at any time.  Memory
  mapping and the kernel's version are parameters; the fields of \<open>work_req\<close>, which only \<open>uv_cancel\<close>
  reads, are left out.
\<close>

section \<open>The ring\<close>

datatype uv_fs_type =
    UV_FS_UNKNOWN | UV_FS_CUSTOM | UV_FS_OPEN | UV_FS_CLOSE | UV_FS_READ | UV_FS_WRITE | UV_FS_SENDFILE | UV_FS_STAT
  | UV_FS_LSTAT | UV_FS_FSTAT | UV_FS_FTRUNCATE | UV_FS_UTIME | UV_FS_FUTIME | UV_FS_ACCESS | UV_FS_CHMOD | UV_FS_FCHMOD
  | UV_FS_FSYNC | UV_FS_FDATASYNC | UV_FS_UNLINK | UV_FS_RMDIR | UV_FS_MKDIR | UV_FS_MKDTEMP | UV_FS_RENAME | UV_FS_SCANDIR
  | UV_FS_LINK | UV_FS_SYMLINK | UV_FS_READLINK | UV_FS_CHOWN | UV_FS_FCHOWN | UV_FS_REALPATH | UV_FS_COPYFILE | UV_FS_LCHOWN
  | UV_FS_OPENDIR | UV_FS_READDIR | UV_FS_CLOSEDIR | UV_FS_STATFS | UV_FS_MKSTEMP | UV_FS_LUTIME

text \<open>The part of \<open>uv_fs_t\<close> that is read here; pointers are numbers.\<close>

record uv_fs =
  fs_type :: uv_fs_type
  fs_result :: int
  fs_ptr :: u64
  fs_path :: u64
  fs_new_path :: u64
  fs_file :: u32
  fs_flags :: u32
  fs_mode :: u32
  fs_nbufs :: u32
  fs_bufs :: u64
  fs_off :: int

record uv__io_uring_sqe =
  sqe_opcode :: u8
  sqe_fd :: u32
  sqe_off :: u64
  sqe_addr :: u64
  sqe_len :: u32
  sqe_rw_flags :: u32
  sqe_user_data :: addr

definition blank_sqe :: uv__io_uring_sqe where
  "blank_sqe = \<lparr>sqe_opcode = 0, sqe_fd = 0, sqe_off = 0, sqe_addr = 0, sqe_len = 0, sqe_rw_flags = 0, sqe_user_data = 0\<rparr>"

text \<open>The rings; the last fields record what happened: requests called back with their results, those given
  to the thread pool, and the wake-ups of the kernel's thread.\<close>

record iou_loop = uv_loop +
  ringfd :: int
  sqhead :: u32
  sqtail :: u32
  sqmask :: u32
  sqflags :: u32
  sqe :: "nat \<Rightarrow> uv__io_uring_sqe"
  cqhead :: u32
  cqtail :: u32
  cqmask :: u32
  cqe :: "nat \<Rightarrow> addr \<times> int"
  in_flight :: u32
  iou_flags :: u32
  fs_req :: "addr \<Rightarrow> uv_fs"
  reaped :: "(addr \<times> int) list"
  fs_posted :: "addr list"
  wakeups :: nat

section \<open>Submitting\<close>

definition ring_slot :: "u32 \<Rightarrow> u32 \<Rightarrow> nat" where
  "ring_slot m i = unat (and i m)"

definition uv__iou_get_sqe :: "addr \<Rightarrow> 'a iou_loop_scheme \<Rightarrow> nat option \<times> 'a iou_loop_scheme" where
  "uv__iou_get_sqe req l =
     (if ringfd l = - 1 then (None, l)
      else if and (sqhead l) (sqmask l) = and (sqtail l + 1) (sqmask l) then (None, l)
      else let slot = ring_slot (sqmask l) (sqtail l);
               l = l\<lparr>sqe := (sqe l)(slot := blank_sqe\<lparr>sqe_user_data := req\<rparr>)\<rparr>;
               l = uv__req_register l
           in (Some slot, l\<lparr>in_flight := in_flight l + 1\<rparr>))"

definition uv__iou_submit :: "'a iou_loop_scheme \<Rightarrow> 'a iou_loop_scheme" where
  "uv__iou_submit l =
     (let l = l\<lparr>sqtail := sqtail l + 1\<rparr>
      in if and (sqflags l) 1 \<noteq> 0 then l\<lparr>wakeups := wakeups l + 1\<rparr> else l)"

definition fill :: "nat \<Rightarrow> (uv__io_uring_sqe \<Rightarrow> uv__io_uring_sqe) \<Rightarrow> 'a iou_loop_scheme \<Rightarrow> 'a iou_loop_scheme" where
  "fill slot f l = l\<lparr>sqe := (sqe l)(slot := f (sqe l slot))\<rparr>"

text \<open>The functions differ in how they fill the entry; the result is whether the ring takes the request.\<close>

definition iou_queue :: "addr \<Rightarrow> (uv__io_uring_sqe \<Rightarrow> uv__io_uring_sqe) \<Rightarrow> 'a iou_loop_scheme \<Rightarrow> bool \<times> 'a iou_loop_scheme" where
  "iou_queue r f l =
     (case uv__iou_get_sqe r l of
        (None, l) \<Rightarrow> (False, l)
      | (Some slot, l) \<Rightarrow> (True, uv__iou_submit (fill slot f l)))"

definition AT_FDCWD :: u32 where "AT_FDCWD = - 100"
definition UV__MKDIRAT_SYMLINKAT_LINKAT :: u32 where "UV__MKDIRAT_SYMLINKAT_LINKAT = 1"

definition iou_links :: "'a iou_loop_scheme \<Rightarrow> bool" where
  "iou_links l \<longleftrightarrow> and (iou_flags l) UV__MKDIRAT_SYMLINKAT_LINKAT \<noteq> 0"

definition uv__iou_fs_close :: "u32 \<Rightarrow> addr \<Rightarrow> 'a iou_loop_scheme \<Rightarrow> bool \<times> 'a iou_loop_scheme" where
  "uv__iou_fs_close kv r l =
     (if kv < 0x050F5A then (False, l)
      else if kv \<ge> 0x050A00 \<and> kv < 0x060100 then (False, l)
      else iou_queue r (\<lambda>e. e\<lparr>sqe_fd := fs_file (fs_req l r), sqe_opcode := 19\<rparr>) l)"

definition uv__iou_fs_fsync_or_fdatasync :: "addr \<Rightarrow> u32 \<Rightarrow> 'a iou_loop_scheme \<Rightarrow> bool \<times> 'a iou_loop_scheme" where
  "uv__iou_fs_fsync_or_fdatasync r fsync_flags l =
     iou_queue r (\<lambda>e. e\<lparr>sqe_fd := fs_file (fs_req l r), sqe_rw_flags := fsync_flags, sqe_opcode := 3\<rparr>) l"

definition uv__iou_fs_link :: "addr \<Rightarrow> 'a iou_loop_scheme \<Rightarrow> bool \<times> 'a iou_loop_scheme" where
  "uv__iou_fs_link r l =
     (if \<not> iou_links l then (False, l)
      else iou_queue r (\<lambda>e. e\<lparr>sqe_addr := fs_path (fs_req l r), sqe_fd := AT_FDCWD, sqe_off := fs_new_path (fs_req l r),
             sqe_len := AT_FDCWD, sqe_opcode := 39\<rparr>) l)"

definition uv__iou_fs_mkdir :: "addr \<Rightarrow> 'a iou_loop_scheme \<Rightarrow> bool \<times> 'a iou_loop_scheme" where
  "uv__iou_fs_mkdir r l =
     (if \<not> iou_links l then (False, l)
      else iou_queue r (\<lambda>e. e\<lparr>sqe_addr := fs_path (fs_req l r), sqe_fd := AT_FDCWD, sqe_len := fs_mode (fs_req l r), sqe_opcode := 37\<rparr>) l)"

definition uv__iou_fs_open :: "u32 \<Rightarrow> addr \<Rightarrow> 'a iou_loop_scheme \<Rightarrow> bool \<times> 'a iou_loop_scheme" where
  "uv__iou_fs_open O_CLOEXEC r l =
     iou_queue r (\<lambda>e. e\<lparr>sqe_addr := fs_path (fs_req l r), sqe_fd := AT_FDCWD, sqe_len := fs_mode (fs_req l r), sqe_opcode := 18,
       sqe_rw_flags := or (fs_flags (fs_req l r)) O_CLOEXEC\<rparr>) l"

definition uv__iou_fs_rename :: "addr \<Rightarrow> 'a iou_loop_scheme \<Rightarrow> bool \<times> 'a iou_loop_scheme" where
  "uv__iou_fs_rename r l =
     iou_queue r (\<lambda>e. e\<lparr>sqe_addr := fs_path (fs_req l r), sqe_fd := AT_FDCWD, sqe_off := fs_new_path (fs_req l r), sqe_len := AT_FDCWD,
       sqe_opcode := 35\<rparr>) l"

definition uv__iou_fs_symlink :: "addr \<Rightarrow> 'a iou_loop_scheme \<Rightarrow> bool \<times> 'a iou_loop_scheme" where
  "uv__iou_fs_symlink r l =
     (if \<not> iou_links l then (False, l)
      else iou_queue r (\<lambda>e. e\<lparr>sqe_addr := fs_path (fs_req l r), sqe_fd := AT_FDCWD, sqe_off := fs_new_path (fs_req l r), sqe_opcode := 38\<rparr>) l)"

definition uv__iou_fs_unlink :: "addr \<Rightarrow> 'a iou_loop_scheme \<Rightarrow> bool \<times> 'a iou_loop_scheme" where
  "uv__iou_fs_unlink r l =
     iou_queue r (\<lambda>e. e\<lparr>sqe_addr := fs_path (fs_req l r), sqe_fd := AT_FDCWD, sqe_opcode := 36\<rparr>) l"

definition set_fs :: "addr \<Rightarrow> uv_fs \<Rightarrow> 'a iou_loop_scheme \<Rightarrow> 'a iou_loop_scheme" where
  "set_fs r x l = l\<lparr>fs_req := (fs_req l)(r := x)\<rparr>"

definition uv__iou_fs_read_or_write :: "u32 \<Rightarrow> addr \<Rightarrow> bool \<Rightarrow> 'a iou_loop_scheme \<Rightarrow> bool \<times> 'a iou_loop_scheme" where
  "uv__iou_fs_read_or_write IOV_MAX r is_read l =
     (if fs_nbufs (fs_req l r) > IOV_MAX \<and> \<not> is_read then (False, l)
      else let l = (if fs_nbufs (fs_req l r) > IOV_MAX then set_fs r ((fs_req l r)\<lparr>fs_nbufs := IOV_MAX\<rparr>) l else l);
               q = fs_req l r
           in iou_queue r (\<lambda>e. e\<lparr>sqe_addr := fs_bufs q, sqe_fd := fs_file q, sqe_len := fs_nbufs q,
                sqe_off := (if fs_off q < 0 then - 1 else of_int (fs_off q)), sqe_opcode := (if is_read then 1 else 2)\<rparr>) l)"

text \<open>\<open>mem\<close> is the buffer that \<open>malloc\<close> gives, \<open>nul\<close> the address of the empty string.\<close>

definition uv__iou_fs_statx :: "u64 option \<Rightarrow> u64 \<Rightarrow> u32 \<Rightarrow> addr \<Rightarrow> bool \<Rightarrow> bool \<Rightarrow> 'a iou_loop_scheme \<Rightarrow> bool \<times> 'a iou_loop_scheme" where
  "uv__iou_fs_statx mem nul AT_SYMLINK_NOFOLLOW r is_fstat is_lstat l =
     (case mem of
        None \<Rightarrow> (False, l)
      | Some statxbuf \<Rightarrow>
          (case uv__iou_get_sqe r l of
             (None, l) \<Rightarrow> (False, l)
           | (Some slot, l) \<Rightarrow>
               (let l = set_fs r ((fs_req l r)\<lparr>fs_ptr := statxbuf\<rparr>) l;
                    q = fs_req l r;
                    l = fill slot (\<lambda>e. e\<lparr>sqe_addr := fs_path q, sqe_off := statxbuf, sqe_fd := AT_FDCWD, sqe_len := 0xFFF, sqe_opcode := 21\<rparr>) l;
                    l = (if is_fstat then fill slot (\<lambda>e. e\<lparr>sqe_addr := nul, sqe_fd := fs_file q, sqe_rw_flags := or (sqe_rw_flags e) 0x1000\<rparr>) l else l);
                    l = (if is_lstat then fill slot (\<lambda>e. e\<lparr>sqe_rw_flags := or (sqe_rw_flags e) AT_SYMLINK_NOFOLLOW\<rparr>) l else l)
                in (True, uv__iou_submit l))))"

section \<open>Completions\<close>

text \<open>\<open>statbuf\<close> is the address of the request's own buffer; the copy into it is the kernel's data.\<close>

definition uv__iou_fs_statx_post :: "(addr \<Rightarrow> u64) \<Rightarrow> addr \<Rightarrow> 'a iou_loop_scheme \<Rightarrow> 'a iou_loop_scheme" where
  "uv__iou_fs_statx_post statbuf r l =
     (let q = (fs_req l r)\<lparr>fs_ptr := 0\<rparr>
      in set_fs r (if fs_result q = 0 then q\<lparr>fs_ptr := statbuf r\<rparr> else q) l)"

definition EOPNOTSUPP :: int where "EOPNOTSUPP = 95"

text \<open>One turn of the loop of \<open>uv__poll_io_uring\<close>, without the callback, which follows it.\<close>

definition iou_complete :: "(addr \<Rightarrow> u64) \<Rightarrow> u32 \<Rightarrow> 'a iou_loop_scheme \<Rightarrow> 'a iou_loop_scheme option" where
  "iou_complete statbuf i l =
     (let (r, res) = cqe l (ring_slot (cqmask l) i)
      in Option.bind (uv__req_unregister l) (\<lambda>l.
           let l = l\<lparr>in_flight := in_flight l - 1\<rparr>
           in Some (if res = - EOPNOTSUPP then l\<lparr>fs_posted := fs_posted l @ [r]\<rparr>
                    else let l = set_fs r ((fs_req l r)\<lparr>fs_result := res\<rparr>) l;
                             l = (if fs_type (fs_req l r) \<in> {UV_FS_FSTAT, UV_FS_LSTAT, UV_FS_STAT}
                                  then uv__iou_fs_statx_post statbuf r l else l)
                         in l\<lparr>reaped := reaped l @ [(r, res)]\<rparr>)))"

text \<open>\<open>uv__poll_io_uring\<close>; \<open>run\<close> is what the callback of a request does.\<close>

partial_function (option) reap_loop :: "(addr \<Rightarrow> u64) \<Rightarrow> (addr \<Rightarrow> 'a iou_loop_scheme \<Rightarrow> 'a iou_loop_scheme option) \<Rightarrow> u32 \<Rightarrow> u32 \<Rightarrow>
    'a iou_loop_scheme \<Rightarrow> 'a iou_loop_scheme option" where
  "reap_loop statbuf run i tail l =
     (if i = tail then Some l
      else Option.bind (iou_complete statbuf i l) (\<lambda>l'.
             Option.bind (if snd (cqe l (ring_slot (cqmask l) i)) = - EOPNOTSUPP then Some l'
                          else run (fst (cqe l (ring_slot (cqmask l) i))) l') (\<lambda>l.
               reap_loop statbuf run (i + 1) tail l)))"

declare reap_loop.simps [code]

definition uv__poll_io_uring :: "(addr \<Rightarrow> u64) \<Rightarrow> (addr \<Rightarrow> 'a iou_loop_scheme \<Rightarrow> 'a iou_loop_scheme option) \<Rightarrow>
    'a iou_loop_scheme \<Rightarrow> 'a iou_loop_scheme option" where
  "uv__poll_io_uring statbuf run l =
     (let tail = cqtail l
      in map_option (\<lambda>l. l\<lparr>cqhead := tail\<rparr>) (reap_loop statbuf run (cqhead l) tail l))"

text \<open>On every kernel from 5.15.90 on that the first check lets pass, up to 6.1, the second one refuses: its
  lower bound is 5.10.0, not the 5.16.0 of the comment.\<close>

lemma iou_close_disabled: "kv < 0x060100 \<Longrightarrow> uv__iou_fs_close kv r l = (False, l)"
  by (auto simp: uv__iou_fs_close_def word_le_nat_alt word_less_nat_alt)

section \<open>Rings of words\<close>

text \<open>The list in a ring: its sizes are powers of two, and the indices run through all 32 bits.\<close>

definition ring_mask :: "u32 \<Rightarrow> bool" where
  "ring_mask m \<longleftrightarrow> (\<exists>a<32. m = mask a)"

definition holds :: "u32 \<Rightarrow> (nat \<Rightarrow> 'e) \<Rightarrow> u32 \<Rightarrow> u32 \<Rightarrow> 'e list \<Rightarrow> bool" where
  "holds m arr h t xs \<longleftrightarrow> length xs = unat (t - h) \<and> (\<forall>i<length xs. arr (ring_slot m (h + of_nat i)) = xs ! i)"

lemma ring_slot_mod:
  assumes "a < 32"
  shows "ring_slot (mask a) (x + of_nat i) = (unat x + i) mod 2 ^ a"
proof -
  have "ring_slot (mask a) (x + of_nat i) = unat (x + of_nat i) mod 2 ^ a"
    by (simp add: ring_slot_def flip: take_bit_eq_mask) (simp only: unsigned_take_bit_eq, simp add: take_bit_eq_mod)
  also have "(2 :: nat) ^ a dvd 2 ^ 32" using assms by (intro le_imp_power_dvd) simp
  then have "unat (x + of_nat i) mod 2 ^ a = (unat x + i) mod 2 ^ a"
    by (simp add: unat_word_ariths unat_of_nat mod_mod_cancel mod_add_right_eq)
  finally show ?thesis .
qed

lemma unat_mask_32: "a < 32 \<Longrightarrow> unat (mask a :: u32) = 2 ^ a - 1"
proof -
  assume "a < 32"
  then have "unat (take_bit a (- 1) :: u32) = take_bit a (unat (- 1 :: u32))" by (simp only: unsigned_take_bit_eq)
  then show ?thesis by (simp add: take_bit_minus_one_eq_mask unsigned_minus_1_eq_mask) (simp add: mask_eq_exp_minus_1 \<open>a < 32\<close>)
qed

lemma slots_differ:
  assumes "ring_mask m" and "i < j" and "j \<le> unat m"
  shows "ring_slot m (h + of_nat i) \<noteq> ring_slot m (h + of_nat j)"
proof -
  obtain a where a: "a < 32" "m = mask a" using assms(1) by (auto simp: ring_mask_def)
  have "j \<le> 2 ^ a - 1" using assms(3) a by (simp add: unat_mask_32)
  then have j: "j - i < 2 ^ a" using assms(2) by simp
  have "\<not> 2 ^ a dvd j - i" using assms(2) j by (intro nat_dvd_not_less) auto
  then have "(unat h + j) mod 2 ^ a \<noteq> (unat h + i) mod 2 ^ a"
    using assms(2) mod_eq_dvd_iff_nat [of "unat h + i" "unat h + j" "2 ^ a"] by simp
  then show ?thesis unfolding a(2) ring_slot_mod [OF a(1)] by (rule not_sym)
qed

lemma holds_end: "holds m arr h t xs \<Longrightarrow> t = h + of_nat (length xs)"
  by (simp add: holds_def)

lemma holds_Nil [simp]: "holds m arr h h []" by (simp add: holds_def)

lemma holds_empty: "holds m arr h t xs \<Longrightarrow> h = t \<longleftrightarrow> xs = []"
  by (auto simp: holds_def unat_eq_zero)

lemma holds_push:
  assumes "ring_mask m" and "holds m arr h t xs" and "length xs \<le> unat m"
  shows "holds m (arr(ring_slot m t := x)) h (t + 1) (xs @ [x])"
proof -
  have t: "t = h + of_nat (length xs)" using assms(2) by (rule holds_end)
  obtain a where a: "a < 32" "m = mask a" using assms(1) by (auto simp: ring_mask_def)
  have "(2 :: nat) ^ a \<le> 2 ^ 31" using a by (intro power_increasing) auto
  moreover have d: "unat (t - h) = length xs" using assms(2) by (simp add: holds_def)
  ultimately have "unat (t - h) < 2 ^ LENGTH(32) - 1" using assms(3) a by (simp add: unat_mask_32)
  then have "unat (t - h + 1) = Suc (length xs)" using d by (simp only: unat_add_one_less)
  moreover have "t - h + 1 = t + 1 - h" by simp
  ultimately have l: "unat (t + 1 - h) = Suc (length xs)" by metis
  have "ring_slot m (h + of_nat i) \<noteq> ring_slot m t" if "i < length xs" for i
    unfolding t by (rule slots_differ [OF assms(1) that assms(3)])
  then have "(arr(ring_slot m t := x)) (ring_slot m (h + of_nat i)) = (xs @ [x]) ! i" if "i < Suc (length xs)" for i
    using that assms(2) by (cases "i = length xs") (simp_all add: holds_def nth_append flip: t)
  then show ?thesis using l by (simp add: holds_def)
qed

lemma holds_write: "ring_mask m \<Longrightarrow> holds m arr h t xs \<Longrightarrow> length xs \<le> unat m \<Longrightarrow> holds m (arr(ring_slot m t := x)) h t xs"
  using slots_differ [of m _ "length xs" h] by (auto simp: holds_def dest: holds_end)

lemma holds_drop:
  assumes "holds m arr h t xs" and "n \<le> length xs"
  shows "holds m arr (h + of_nat n) t (drop n xs)"
proof -
  have t: "t = h + of_nat (length xs)" using assms(1) by (rule holds_end)
  have "t - (h + of_nat n) = of_nat (length xs - n)" using assms(2) by (simp add: t of_nat_diff)
  moreover have "length xs < 2 ^ 32" using assms(1) unsigned_less [of "t - h", where 'a = nat] by (simp add: holds_def)
  ultimately have "unat (t - (h + of_nat n)) = length xs - n" by (simp add: unat_of_nat)
  then show ?thesis using assms by (simp add: holds_def add.assoc flip: of_nat_add)
qed

lemma holds_head:
  assumes "holds m arr h t (x # xs)"
  shows "arr (ring_slot m h) = x" and "holds m arr (h + 1) t xs"
  using assms holds_drop [OF assms, of 1] by (auto simp: holds_def)

lemma holds_room:
  assumes "ring_mask m" and "holds m arr h t xs" and "length xs \<le> unat m" and "and h m \<noteq> and (t + 1) m"
  shows "length xs < unat m"
proof (rule ccontr)
  assume "\<not> length xs < unat m"
  then have l: "length xs = unat m" using assms(3) by simp
  obtain a where a: "a < 32" "m = mask a" using assms(1) by (auto simp: ring_mask_def)
  have t: "t + 1 = h + of_nat (2 ^ a)" using holds_end [OF assms(2)] l a by (simp add: unat_mask_32 of_nat_diff)
  have "ring_slot m (h + of_nat 0) = ring_slot m (h + of_nat (2 ^ a))"
    unfolding a(2) by (simp only: ring_slot_mod [OF a(1)]) simp
  then have "and h m = and (t + 1) m" by (simp add: ring_slot_def t word_unat_eq_iff)
  then show False using assms(4) by contradiction
qed

section \<open>The kernel's thread and the loop\<close>

text \<open>\<open>filling\<close> is the entry being filled with its request, \<open>reading\<close> where \<open>uv__poll_io_uring\<close> is and the end
  it saw, \<open>working\<close> the requests the kernel works on.  The logs record the entries submitted and taken,
  and the completions posted and read.\<close>

record 'l iou_system =
  ring :: 'l
  filling :: "(nat \<times> addr) option"
  reading :: "(u32 \<times> u32) option"
  working :: "addr multiset"
  put_log :: "uv__io_uring_sqe list"
  taken_log :: "uv__io_uring_sqe list"
  post_log :: "(addr \<times> int) list"
  read_log :: "(addr \<times> int) list"

definition kernel_take :: "'a iou_loop_scheme iou_system \<Rightarrow> 'a iou_loop_scheme iou_system" where
  "kernel_take s =
     (let l = ring s; e = sqe l (ring_slot (sqmask l) (sqhead l))
      in s\<lparr>ring := l\<lparr>sqhead := sqhead l + 1\<rparr>, working := add_mset (sqe_user_data e) (working s), taken_log := taken_log s @ [e]\<rparr>)"

definition kernel_post :: "addr \<Rightarrow> int \<Rightarrow> 'a iou_loop_scheme iou_system \<Rightarrow> 'a iou_loop_scheme iou_system" where
  "kernel_post r res s =
     (let l = ring s
      in s\<lparr>ring := l\<lparr>cqe := (cqe l)(ring_slot (cqmask l) (cqtail l) := (r, res)), cqtail := cqtail l + 1\<rparr>,
           working := working s - {#r#}, post_log := post_log s @ [(r, res)]\<rparr>)"

inductive iou_step :: "(addr \<Rightarrow> u64) \<Rightarrow> 'a iou_loop_scheme iou_system \<Rightarrow> 'a iou_loop_scheme iou_system \<Rightarrow> bool" for statbuf where
  get: "filling s = None \<Longrightarrow> unat (active_reqs (ring s)) + 1 < 2 ^ 32 \<Longrightarrow> uv__iou_get_sqe r (ring s) = (Some slot, l) \<Longrightarrow>
    iou_step statbuf s (s\<lparr>ring := l, filling := Some (slot, r)\<rparr>)"
| submit: "filling s = Some (slot, r) \<Longrightarrow> \<forall>e. sqe_user_data (f e) = sqe_user_data e \<Longrightarrow> l = fill slot f (ring s) \<Longrightarrow>
    iou_step statbuf s (s\<lparr>ring := uv__iou_submit l, filling := None, put_log := put_log s @ [sqe l slot]\<rparr>)"
| fields: "iou_step statbuf s (s\<lparr>ring := set_fs r x (ring s)\<rparr>)"
| flags: "iou_step statbuf s (s\<lparr>ring := (ring s)\<lparr>sqflags := w\<rparr>\<rparr>)"
| take: "sqhead (ring s) \<noteq> sqtail (ring s) \<Longrightarrow> iou_step statbuf s (kernel_take s)"
| post: "r \<in># working s \<Longrightarrow> unat (cqtail (ring s) - cqhead (ring s)) \<le> unat (cqmask (ring s)) \<Longrightarrow>
    iou_step statbuf s (kernel_post r res s)"
| poll: "reading s = None \<Longrightarrow> iou_step statbuf s (s\<lparr>reading := Some (cqhead (ring s), cqtail (ring s))\<rparr>)"
| reap: "reading s = Some (i, t) \<Longrightarrow> i \<noteq> t \<Longrightarrow> iou_complete statbuf i (ring s) = Some l \<Longrightarrow>
    iou_step statbuf s (s\<lparr>ring := l, reading := Some (i + 1, t),
      read_log := read_log s @ [cqe (ring s) (ring_slot (cqmask (ring s)) i)]\<rparr>)"
| stop: "reading s = Some (t, t) \<Longrightarrow> iou_step statbuf s (s\<lparr>ring := (ring s)\<lparr>cqhead := t\<rparr>, reading := None\<rparr>)"

definition sq_ok :: "'a iou_loop_scheme iou_system \<Rightarrow> bool" where
  "sq_ok s \<longleftrightarrow> (let l = ring s in
     ring_mask (sqmask l) \<and>
     (\<exists>xs. put_log s = taken_log s @ xs \<and> holds (sqmask l) (sqe l) (sqhead l) (sqtail l) xs \<and> length xs \<le> unat (sqmask l) \<and>
        (\<forall>slot r. filling s = Some (slot, r) \<longrightarrow> slot = ring_slot (sqmask l) (sqtail l) \<and> length xs < unat (sqmask l) \<and>
           sqe_user_data (sqe l slot) = r)))"

definition cq_ok :: "'a iou_loop_scheme iou_system \<Rightarrow> bool" where
  "cq_ok s \<longleftrightarrow> (let l = ring s in
     ring_mask (cqmask l) \<and>
     (\<exists>old ys k. post_log s = old @ ys \<and> holds (cqmask l) (cqe l) (cqhead l) (cqtail l) ys \<and> length ys \<le> unat (cqmask l) + 1 \<and>
        read_log s = old @ take k ys \<and>
        (case reading s of
           None \<Rightarrow> k = 0
         | Some (i, t) \<Rightarrow> i = cqhead l + of_nat k \<and> (\<exists>n. t = cqhead l + of_nat n \<and> k \<le> n \<and> n \<le> length ys))))"

definition requests_ok :: "nat \<Rightarrow> 'a iou_loop_scheme iou_system \<Rightarrow> bool" where
  "requests_ok k s \<longleftrightarrow> (let n = length (put_log s) + (case filling s of None \<Rightarrow> 0 | Some _ \<Rightarrow> 1) in
     image_mset sqe_user_data (mset (taken_log s)) = image_mset fst (mset (post_log s)) + working s \<and>
     unat (active_reqs (ring s)) + length (read_log s) = k + n \<and>
     in_flight (ring s) + of_nat (length (read_log s)) = of_nat n \<and>
     reaped (ring s) = filter (\<lambda>(r, res). res \<noteq> - EOPNOTSUPP) (read_log s) \<and>
     fs_posted (ring s) = map fst (filter (\<lambda>(r, res). res = - EOPNOTSUPP) (read_log s)))"

definition iou_inv :: "nat \<Rightarrow> 'a iou_loop_scheme iou_system \<Rightarrow> bool" where
  "iou_inv k s \<longleftrightarrow> sq_ok s \<and> cq_ok s \<and> requests_ok k s"

lemma sq_okD:
  assumes "sq_ok s"
  obtains xs where "ring_mask (sqmask (ring s))" "put_log s = taken_log s @ xs"
    "holds (sqmask (ring s)) (sqe (ring s)) (sqhead (ring s)) (sqtail (ring s)) xs" "length xs \<le> unat (sqmask (ring s))"
    "\<And>slot r. filling s = Some (slot, r) \<Longrightarrow> slot = ring_slot (sqmask (ring s)) (sqtail (ring s)) \<and>
       length xs < unat (sqmask (ring s)) \<and> sqe_user_data (sqe (ring s) slot) = r"
  using assms by (auto simp: sq_ok_def Let_def)

lemma sq_okI:
  assumes "ring_mask (sqmask (ring s))" and "put_log s = taken_log s @ xs"
    and "holds (sqmask (ring s)) (sqe (ring s)) (sqhead (ring s)) (sqtail (ring s)) xs" and "length xs \<le> unat (sqmask (ring s))"
    and "\<And>slot r. filling s = Some (slot, r) \<Longrightarrow> slot = ring_slot (sqmask (ring s)) (sqtail (ring s)) \<and>
       length xs < unat (sqmask (ring s)) \<and> sqe_user_data (sqe (ring s) slot) = r"
  shows "sq_ok s"
  unfolding sq_ok_def Let_def using assms by blast

lemma get_views:
  assumes "uv__iou_get_sqe r l = (Some slot, l')"
  shows "and (sqhead l) (sqmask l) \<noteq> and (sqtail l + 1) (sqmask l)" "slot = ring_slot (sqmask l) (sqtail l)"
    "l' = l\<lparr>sqe := (sqe l)(slot := blank_sqe\<lparr>sqe_user_data := r\<rparr>), active_reqs := active_reqs l + 1, in_flight := in_flight l + 1\<rparr>"
  using assms by (auto simp: uv__iou_get_sqe_def uv__req_register_def Let_def split: if_splits)

lemma get_sq:
  assumes "sq_ok s" and "filling s = None" and "uv__iou_get_sqe r (ring s) = (Some slot, l)"
  shows "sq_ok (s\<lparr>ring := l, filling := Some (slot, r)\<rparr>)"
proof -
  note g = get_views [OF assms(3)]
  obtain xs where x: "ring_mask (sqmask (ring s))" "put_log s = taken_log s @ xs"
    "holds (sqmask (ring s)) (sqe (ring s)) (sqhead (ring s)) (sqtail (ring s)) xs" "length xs \<le> unat (sqmask (ring s))"
    using assms(1) by (rule sq_okD)
  have "length xs < unat (sqmask (ring s))" by (rule holds_room [OF x(1,3,4) g(1)])
  then show ?thesis
    by (intro sq_okI [of _ xs]) (use x g holds_write [OF x(1,3,4)] in \<open>simp_all add: blank_sqe_def\<close>)
qed

lemma submit_views:
  "uv__iou_submit l = (if and (sqflags l) 1 \<noteq> 0 then l\<lparr>sqtail := sqtail l + 1, wakeups := wakeups l + 1\<rparr> else l\<lparr>sqtail := sqtail l + 1\<rparr>)"
  by (simp add: uv__iou_submit_def Let_def)

lemma submit_sq:
  assumes "sq_ok s" and "filling s = Some (slot, r)" and "\<forall>e. sqe_user_data (f e) = sqe_user_data e" and l: "l = fill slot f (ring s)"
  shows "sq_ok (s\<lparr>ring := uv__iou_submit l, filling := None, put_log := put_log s @ [sqe l slot]\<rparr>)"
    and "sqe_user_data (sqe l slot) = r"
proof -
  obtain xs where x: "ring_mask (sqmask (ring s))" "put_log s = taken_log s @ xs"
    "holds (sqmask (ring s)) (sqe (ring s)) (sqhead (ring s)) (sqtail (ring s)) xs" "length xs \<le> unat (sqmask (ring s))"
    "slot = ring_slot (sqmask (ring s)) (sqtail (ring s))" "length xs < unat (sqmask (ring s))" "sqe_user_data (sqe (ring s) slot) = r"
    using sq_okD [OF assms(1)] assms(2) by metis
  have "holds (sqmask (ring s)) (sqe l) (sqhead (ring s)) (sqtail (ring s) + 1) (xs @ [sqe l slot])"
    using holds_push [OF x(1,3,4), of "sqe l slot"] x(5) by (simp add: l fill_def)
  then show "sq_ok (s\<lparr>ring := uv__iou_submit l, filling := None, put_log := put_log s @ [sqe l slot]\<rparr>)"
    by (intro sq_okI [of _ "xs @ [sqe l slot]"]) (use x in \<open>simp_all add: submit_views l fill_def\<close>)
  show "sqe_user_data (sqe l slot) = r" using x(7) assms(3) by (simp add: l fill_def)
qed

lemma take_sq:
  assumes "sq_ok s" and "sqhead (ring s) \<noteq> sqtail (ring s)"
  shows "sq_ok (kernel_take s)"
proof -
  obtain xs where x: "ring_mask (sqmask (ring s))" "put_log s = taken_log s @ xs"
    "holds (sqmask (ring s)) (sqe (ring s)) (sqhead (ring s)) (sqtail (ring s)) xs" "length xs \<le> unat (sqmask (ring s))"
    "\<And>slot r. filling s = Some (slot, r) \<Longrightarrow> slot = ring_slot (sqmask (ring s)) (sqtail (ring s)) \<and>
       length xs < unat (sqmask (ring s)) \<and> sqe_user_data (sqe (ring s) slot) = r"
    using assms(1) by (rule sq_okD) blast
  then obtain e ys where e: "xs = e # ys" using holds_empty [OF x(3)] assms(2) by (cases xs) auto
  show ?thesis
    by (intro sq_okI [of _ ys]) (use x holds_head [OF x(3) [unfolded e]] e in \<open>force simp: kernel_take_def Let_def\<close>)+
qed

lemma cq_okD:
  assumes "cq_ok s"
  obtains old ys k where "ring_mask (cqmask (ring s))" "post_log s = old @ ys"
    "holds (cqmask (ring s)) (cqe (ring s)) (cqhead (ring s)) (cqtail (ring s)) ys" "length ys \<le> unat (cqmask (ring s)) + 1"
    "read_log s = old @ take k ys"
    "case reading s of None \<Rightarrow> k = 0
     | Some (i, t) \<Rightarrow> i = cqhead (ring s) + of_nat k \<and> (\<exists>n. t = cqhead (ring s) + of_nat n \<and> k \<le> n \<and> n \<le> length ys)"
  using assms unfolding cq_ok_def Let_def by blast

lemma cq_readingD:
  assumes "cq_ok s" and "reading s = Some (i, t)"
  obtains old ys k n where "ring_mask (cqmask (ring s))" "post_log s = old @ ys"
    "holds (cqmask (ring s)) (cqe (ring s)) (cqhead (ring s)) (cqtail (ring s)) ys" "length ys \<le> unat (cqmask (ring s)) + 1"
    "read_log s = old @ take k ys" "i = cqhead (ring s) + of_nat k" "t = cqhead (ring s) + of_nat n" "k \<le> n" "n \<le> length ys"
proof -
  obtain old ys k where y: "ring_mask (cqmask (ring s))" "post_log s = old @ ys"
    "holds (cqmask (ring s)) (cqe (ring s)) (cqhead (ring s)) (cqtail (ring s)) ys" "length ys \<le> unat (cqmask (ring s)) + 1"
    "read_log s = old @ take k ys"
    "case reading s of None \<Rightarrow> k = 0
     | Some (i, t) \<Rightarrow> i = cqhead (ring s) + of_nat k \<and> (\<exists>n. t = cqhead (ring s) + of_nat n \<and> k \<le> n \<and> n \<le> length ys)"
    using assms(1) by (rule cq_okD)
  have i: "i = cqhead (ring s) + of_nat k" using y(6) assms(2) by simp
  obtain n where "t = cqhead (ring s) + of_nat n" "k \<le> n" "n \<le> length ys" using y(6) assms(2) by auto
  then show thesis using that [OF y(1-5) i] by blast
qed

lemma cq_okI:
  assumes "ring_mask (cqmask (ring s))" and "post_log s = old @ ys"
    and "holds (cqmask (ring s)) (cqe (ring s)) (cqhead (ring s)) (cqtail (ring s)) ys" and "length ys \<le> unat (cqmask (ring s)) + 1"
    and "read_log s = old @ take k ys"
    and "case reading s of None \<Rightarrow> k = 0
     | Some (i, t) \<Rightarrow> i = cqhead (ring s) + of_nat k \<and> (\<exists>n. t = cqhead (ring s) + of_nat n \<and> k \<le> n \<and> n \<le> length ys)"
  shows "cq_ok s"
  unfolding cq_ok_def Let_def using assms by blast

text \<open>What leaves one of the two rings alone.\<close>

lemma sq_frame:
  assumes "sq_ok s" and "sqmask (ring s') = sqmask (ring s)" "sqe (ring s') = sqe (ring s)" "sqhead (ring s') = sqhead (ring s)"
    "sqtail (ring s') = sqtail (ring s)" "filling s' = filling s" "put_log s' = put_log s" "taken_log s' = taken_log s"
  shows "sq_ok s'"
  using assms(1) unfolding sq_ok_def Let_def assms(2-) .

lemma cq_frame:
  assumes "cq_ok s" and "cqmask (ring s') = cqmask (ring s)" "cqe (ring s') = cqe (ring s)" "cqhead (ring s') = cqhead (ring s)"
    "cqtail (ring s') = cqtail (ring s)" "reading s' = reading s" "post_log s' = post_log s" "read_log s' = read_log s"
  shows "cq_ok s'"
  using assms(1) unfolding cq_ok_def Let_def assms(2-) .

lemma complete_views:
  assumes "iou_complete statbuf i l = Some l'"
  shows "active_reqs l \<noteq> 0 \<and> active_reqs l' = active_reqs l - 1 \<and> in_flight l' = in_flight l - 1 \<and>
    sqmask l' = sqmask l \<and> sqe l' = sqe l \<and> sqhead l' = sqhead l \<and> sqtail l' = sqtail l \<and>
    cqmask l' = cqmask l \<and> cqe l' = cqe l \<and> cqhead l' = cqhead l \<and> cqtail l' = cqtail l \<and>
    reaped l' = reaped l @ filter (\<lambda>(r, res). res \<noteq> - EOPNOTSUPP) [cqe l (ring_slot (cqmask l) i)] \<and>
    fs_posted l' = fs_posted l @ map fst (filter (\<lambda>(r, res). res = - EOPNOTSUPP) [cqe l (ring_slot (cqmask l) i)])"
  using assms
  by (auto simp: iou_complete_def uv__req_unregister_def uv__has_active_reqs_def uv__iou_fs_statx_post_def set_fs_def Let_def word_gt_0
      split: prod.splits if_splits bind_splits)

lemma post_cq:
  assumes "cq_ok s" and "unat (cqtail (ring s) - cqhead (ring s)) \<le> unat (cqmask (ring s))"
  shows "cq_ok (kernel_post r res s)"
proof -
  obtain old ys k where y: "ring_mask (cqmask (ring s))" "post_log s = old @ ys"
    "holds (cqmask (ring s)) (cqe (ring s)) (cqhead (ring s)) (cqtail (ring s)) ys" "length ys \<le> unat (cqmask (ring s)) + 1"
    "read_log s = old @ take k ys"
    "case reading s of None \<Rightarrow> k = 0
     | Some (i, t) \<Rightarrow> i = cqhead (ring s) + of_nat k \<and> (\<exists>n. t = cqhead (ring s) + of_nat n \<and> k \<le> n \<and> n \<le> length ys)"
    using assms(1) by (rule cq_okD)
  have l: "length ys \<le> unat (cqmask (ring s))" using y(3) assms(2) by (simp add: holds_def)
  have k: "take k (ys @ [(r, res)]) = take k ys" using y(6) by (auto split: option.splits)
  show ?thesis
  proof (rule cq_okI [of _ old "ys @ [(r, res)]" k])
    show "case reading (kernel_post r res s) of None \<Rightarrow> k = 0
      | Some (i, t) \<Rightarrow> i = cqhead (ring (kernel_post r res s)) + of_nat k \<and>
          (\<exists>n. t = cqhead (ring (kernel_post r res s)) + of_nat n \<and> k \<le> n \<and> n \<le> length (ys @ [(r, res)]))"
      using y(6) by (force simp: kernel_post_def Let_def split: option.splits)
  qed (use y(1-5) l k holds_push [OF y(1,3) l] in \<open>simp_all add: kernel_post_def Let_def\<close>)
qed

lemma poll_cq:
  assumes "cq_ok s" and "reading s = None"
  shows "cq_ok (s\<lparr>reading := Some (cqhead (ring s), cqtail (ring s))\<rparr>)"
proof -
  obtain old ys k where y: "ring_mask (cqmask (ring s))" "post_log s = old @ ys"
    "holds (cqmask (ring s)) (cqe (ring s)) (cqhead (ring s)) (cqtail (ring s)) ys" "length ys \<le> unat (cqmask (ring s)) + 1"
    "read_log s = old @ take k ys" "case reading s of None \<Rightarrow> k = 0
     | Some (i, t) \<Rightarrow> i = cqhead (ring s) + of_nat k \<and> (\<exists>n. t = cqhead (ring s) + of_nat n \<and> k \<le> n \<and> n \<le> length ys)"
    using assms(1) by (rule cq_okD)
  have "k = 0" using y(6) assms(2) by simp
  then show ?thesis
    by (intro cq_okI [of _ old ys 0]) (use y holds_end [OF y(3)] in auto)
qed

lemma reap_cq:
  assumes "cq_ok s" and "reading s = Some (i, t)" and "i \<noteq> t" and "iou_complete statbuf i (ring s) = Some l"
  shows "cq_ok (s\<lparr>ring := l, reading := Some (i + 1, t), read_log := read_log s @ [cqe (ring s) (ring_slot (cqmask (ring s)) i)]\<rparr>)"
    and "length (read_log s) < length (post_log s)"
proof -
  obtain old ys k n where y: "ring_mask (cqmask (ring s))" "post_log s = old @ ys"
    "holds (cqmask (ring s)) (cqe (ring s)) (cqhead (ring s)) (cqtail (ring s)) ys" "length ys \<le> unat (cqmask (ring s)) + 1"
    "read_log s = old @ take k ys" "i = cqhead (ring s) + of_nat k" "t = cqhead (ring s) + of_nat n" "k \<le> n" "n \<le> length ys"
    by (rule cq_readingD [OF assms(1,2)])
  have k: "k < n" using y(6-8) assms(3) by (metis le_neq_implies_less)
  then have e: "cqe (ring s) (ring_slot (cqmask (ring s)) i) = ys ! k" using y by (simp add: holds_def)
  then show "cq_ok (s\<lparr>ring := l, reading := Some (i + 1, t), read_log := read_log s @ [cqe (ring s) (ring_slot (cqmask (ring s)) i)]\<rparr>)"
    by (intro cq_okI [of _ old ys "Suc k"])
      (use y k complete_views [OF assms(4)] in \<open>auto simp: take_Suc_conv_app_nth intro!: exI [of _ n]\<close>)
  show "length (read_log s) < length (post_log s)" using y k by simp
qed

lemma stop_cq:
  assumes "cq_ok s" and "reading s = Some (t, t)"
  shows "cq_ok (s\<lparr>ring := (ring s)\<lparr>cqhead := t\<rparr>, reading := None\<rparr>)"
proof -
  obtain old ys k n where y: "ring_mask (cqmask (ring s))" "post_log s = old @ ys"
    "holds (cqmask (ring s)) (cqe (ring s)) (cqhead (ring s)) (cqtail (ring s)) ys" "length ys \<le> unat (cqmask (ring s)) + 1"
    "read_log s = old @ take k ys" "t = cqhead (ring s) + of_nat k" "k \<le> n" "n \<le> length ys"
    by (rule cq_readingD [OF assms(1,2)])
  show ?thesis
    by (rule cq_okI [of _ "old @ take k ys" "drop k ys" 0]) (use y holds_drop [OF y(3), of k] in auto)
qed

lemma requests_okD:
  assumes "requests_ok k s"
  shows "image_mset sqe_user_data (mset (taken_log s)) = image_mset fst (mset (post_log s)) + working s"
    and "unat (active_reqs (ring s)) + length (read_log s) = k + (length (put_log s) + (case filling s of None \<Rightarrow> 0 | Some _ \<Rightarrow> 1))"
    and "in_flight (ring s) + of_nat (length (read_log s)) = of_nat (length (put_log s) + (case filling s of None \<Rightarrow> 0 | Some _ \<Rightarrow> 1))"
    and "reaped (ring s) = filter (\<lambda>(r, res). res \<noteq> - EOPNOTSUPP) (read_log s)"
    and "fs_posted (ring s) = map fst (filter (\<lambda>(r, res). res = - EOPNOTSUPP) (read_log s))"
  using assms by (simp_all add: requests_ok_def Let_def)

lemma requests_okI:
  assumes "image_mset sqe_user_data (mset (taken_log s)) = image_mset fst (mset (post_log s)) + working s"
    and "unat (active_reqs (ring s)) + length (read_log s) = k + (length (put_log s) + (case filling s of None \<Rightarrow> 0 | Some _ \<Rightarrow> 1))"
    and "in_flight (ring s) + of_nat (length (read_log s)) = of_nat (length (put_log s) + (case filling s of None \<Rightarrow> 0 | Some _ \<Rightarrow> 1))"
    and "reaped (ring s) = filter (\<lambda>(r, res). res \<noteq> - EOPNOTSUPP) (read_log s)"
    and "fs_posted (ring s) = map fst (filter (\<lambda>(r, res). res = - EOPNOTSUPP) (read_log s))"
  shows "requests_ok k s"
  using assms by (simp add: requests_ok_def Let_def)

lemma get_requests:
  assumes "requests_ok k s" and "filling s = None" and "unat (active_reqs (ring s)) + 1 < 2 ^ 32"
    and "uv__iou_get_sqe r (ring s) = (Some slot, l)"
  shows "requests_ok k (s\<lparr>ring := l, filling := Some (slot, r)\<rparr>)"
proof -
  note g = get_views [OF assms(4)] and q = requests_okD [OF assms(1)]
  have u: "unat (active_reqs (ring s) + 1) = Suc (unat (active_reqs (ring s)))"
    using assms(3) unat_add_one_less [of "active_reqs (ring s)"] by simp
  show ?thesis by (rule requests_okI) (use q assms(2) u in \<open>simp_all add: g(3)\<close>)
qed

lemma reap_requests:
  assumes "requests_ok k s" and "iou_complete statbuf i (ring s) = Some l"
  shows "requests_ok k (s\<lparr>ring := l, reading := rd, read_log := read_log s @ [cqe (ring s) (ring_slot (cqmask (ring s)) i)]\<rparr>)"
proof -
  note c = complete_views [OF assms(2)] and q = requests_okD [OF assms(1)]
  have u: "Suc (unat (active_reqs (ring s) - 1)) = unat (active_reqs (ring s))"
    using c unat_sub_one [of "active_reqs (ring s)"] by (simp add: unat_gt_0)
  show ?thesis
  proof (rule requests_okI)
    show "unat (active_reqs (ring (s\<lparr>ring := l, reading := rd, read_log := read_log s @ [cqe (ring s) (ring_slot (cqmask (ring s)) i)]\<rparr>))) +
        length (read_log (s\<lparr>ring := l, reading := rd, read_log := read_log s @ [cqe (ring s) (ring_slot (cqmask (ring s)) i)]\<rparr>)) =
        k + (length (put_log (s\<lparr>ring := l, reading := rd, read_log := read_log s @ [cqe (ring s) (ring_slot (cqmask (ring s)) i)]\<rparr>)) +
          (case filling (s\<lparr>ring := l, reading := rd, read_log := read_log s @ [cqe (ring s) (ring_slot (cqmask (ring s)) i)]\<rparr>) of None \<Rightarrow> 0 | Some _ \<Rightarrow> 1))"
      using c u q(2) by simp
  qed (use c q in simp_all)
qed

lemma post_requests:
  assumes "requests_ok k s" and "r \<in># working s"
  shows "requests_ok k (kernel_post r res s)"
proof -
  note q = requests_okD [OF assms(1)]
  show ?thesis by (rule requests_okI) (use q assms(2) in \<open>simp_all add: kernel_post_def Let_def\<close>)
qed

lemma same_requests:
  assumes "requests_ok k s" and "taken_log s' = taken_log s" "post_log s' = post_log s" "working s' = working s" "read_log s' = read_log s"
    "active_reqs (ring s') = active_reqs (ring s)" "in_flight (ring s') = in_flight (ring s)" "reaped (ring s') = reaped (ring s)"
    "fs_posted (ring s') = fs_posted (ring s)" "put_log s' = put_log s" "filling s' = filling s"
  shows "requests_ok k s'"
  using assms(1) unfolding requests_ok_def Let_def assms(2-) .

lemma iou_step_inv:
  assumes inv: "iou_inv k s" and st: "iou_step statbuf s s'"
  shows "iou_inv k s'"
proof -
  have i: "sq_ok s" "cq_ok s" "requests_ok k s" using inv by (simp_all add: iou_inv_def)
  show ?thesis
    using st
  proof cases
    case (get r slot l)
    have "cq_ok s'" by (rule cq_frame [OF i(2)]) (simp_all add: get(1) get_views(3) [OF get(4)])
    then show ?thesis using get_sq [OF i(1) get(2,4)] get_requests [OF i(3) get(2-4)] by (simp add: iou_inv_def get(1))
  next
    case (submit slot r f l)
    have "cq_ok s'" by (rule cq_frame [OF i(2)]) (simp_all add: submit(1) submit_views submit(4) fill_def)
    moreover have "requests_ok k s'"
      by (rule requests_okI) (use requests_okD [OF i(3)] submit(2) in \<open>simp_all add: submit(1) submit_views submit(4) fill_def\<close>)
    ultimately show ?thesis using submit_sq(1) [OF i(1) submit(2,3,4)] by (simp add: iou_inv_def submit(1))
  next
    case (fields r x)
    have "sq_ok s'" by (rule sq_frame [OF i(1)]) (simp_all add: fields set_fs_def)
    moreover have "cq_ok s'" by (rule cq_frame [OF i(2)]) (simp_all add: fields set_fs_def)
    moreover have "requests_ok k s'" by (rule same_requests [OF i(3)]) (simp_all add: fields set_fs_def)
    ultimately show ?thesis by (simp add: iou_inv_def)
  next
    case (flags w)
    have "sq_ok s'" by (rule sq_frame [OF i(1)]) (simp_all add: flags)
    moreover have "cq_ok s'" by (rule cq_frame [OF i(2)]) (simp_all add: flags)
    moreover have "requests_ok k s'" by (rule same_requests [OF i(3)]) (simp_all add: flags)
    ultimately show ?thesis by (simp add: iou_inv_def)
  next
    case take
    have "cq_ok s'" by (rule cq_frame [OF i(2)]) (simp_all add: take(1) kernel_take_def Let_def)
    moreover have "requests_ok k s'"
      by (rule requests_okI) (use requests_okD [OF i(3)] in \<open>simp_all add: take(1) kernel_take_def Let_def\<close>)
    ultimately show ?thesis using take_sq [OF i(1) take(2)] by (simp add: iou_inv_def take(1))
  next
    case (post r res)
    have "sq_ok s'" by (rule sq_frame [OF i(1)]) (simp_all add: post(1) kernel_post_def Let_def)
    then show ?thesis using post_cq [OF i(2) post(3)] post_requests [OF i(3) post(2)] by (simp add: iou_inv_def post(1))
  next
    case poll
    have "sq_ok s'" by (rule sq_frame [OF i(1)]) (simp_all add: poll(1))
    moreover have "requests_ok k s'" by (rule same_requests [OF i(3)]) (simp_all add: poll(1))
    ultimately show ?thesis using poll_cq [OF i(2) poll(2)] by (simp add: iou_inv_def poll(1))
  next
    case (reap i t l)
    have "sq_ok s'" by (rule sq_frame [OF i(1)]) (use complete_views [OF reap(4)] in \<open>simp_all add: reap(1)\<close>)
    then show ?thesis using reap_cq(1) [OF i(2) reap(2-4)] reap_requests [OF i(3) reap(4)] by (simp add: iou_inv_def reap(1))
  next
    case (stop t)
    have "sq_ok s'" by (rule sq_frame [OF i(1)]) (simp_all add: stop(1))
    moreover have "requests_ok k s'" by (rule same_requests [OF i(3)]) (simp_all add: stop(1))
    ultimately show ?thesis using stop_cq [OF i(2) stop(2)] by (simp add: iou_inv_def stop(1))
  qed
qed

definition fresh_ring :: "'a iou_loop_scheme \<Rightarrow> bool" where
  "fresh_ring l \<longleftrightarrow> ring_mask (sqmask l) \<and> ring_mask (cqmask l) \<and> sqhead l = sqtail l \<and> cqhead l = cqtail l \<and>
     in_flight l = 0 \<and> reaped l = [] \<and> fs_posted l = []"

definition iou_start :: "'a iou_loop_scheme \<Rightarrow> 'a iou_loop_scheme iou_system" where
  "iou_start l = \<lparr>ring = l, filling = None, reading = None, working = {#}, put_log = [], taken_log = [], post_log = [], read_log = []\<rparr>"

lemma iou_start_inv:
  assumes "fresh_ring l"
  shows "iou_inv (unat (active_reqs l)) (iou_start l)"
proof -
  note f = assms [unfolded fresh_ring_def]
  have "sq_ok (iou_start l)" by (rule sq_okI [of _ "[]"]) (use f in \<open>simp_all add: iou_start_def\<close>)
  moreover have "cq_ok (iou_start l)" by (rule cq_okI [of _ "[]" "[]" 0]) (use f in \<open>simp_all add: iou_start_def\<close>)
  moreover have "requests_ok (unat (active_reqs l)) (iou_start l)"
    by (rule requests_okI) (use f in \<open>simp_all add: iou_start_def\<close>)
  ultimately show ?thesis by (simp add: iou_inv_def)
qed

lemma iou_reachable_inv:
  assumes "fresh_ring l" and "(iou_step statbuf)\<^sup>*\<^sup>* (iou_start l) s"
  shows "iou_inv (unat (active_reqs l)) s"
  using assms(2) by (induction rule: rtranclp_induct) (use iou_start_inv [OF assms(1)] iou_step_inv in blast)+

lemma read_prefix:
  assumes "cq_ok s"
  shows "\<exists>unread. post_log s = read_log s @ unread"
  using assms by (rule cq_okD) (metis append.assoc append_take_drop_id)

text \<open>The submissions of the file operations are such steps.\<close>

lemma iou_queue_steps:
  assumes q: "iou_queue r f (ring s) = (True, l)" and f: "\<forall>e. sqe_user_data (f e) = sqe_user_data e"
    and "filling s = None" and "unat (active_reqs (ring s)) + 1 < 2 ^ 32"
  shows "\<exists>s'. (iou_step statbuf)\<^sup>*\<^sup>* s s' \<and> ring s' = l \<and> filling s' = None \<and> map sqe_user_data (put_log s') = map sqe_user_data (put_log s) @ [r]"
proof -
  obtain slot l1 where g: "uv__iou_get_sqe r (ring s) = (Some slot, l1)" "l = uv__iou_submit (fill slot f l1)"
    using q by (auto simp: iou_queue_def split: prod.splits option.splits)
  define s1 where "s1 = s\<lparr>ring := l1, filling := Some (slot, r)\<rparr>"
  have 1: "iou_step statbuf s s1" unfolding s1_def by (rule iou_step.get [OF assms(3,4) g(1)])
  have "filling s1 = Some (slot, r)" by (simp add: s1_def)
  from iou_step.submit [OF this f refl, of statbuf]
  have 2: "iou_step statbuf s1 (s1\<lparr>ring := l, filling := None, put_log := put_log s1 @ [sqe (fill slot f l1) slot]\<rparr>)"
    by (simp add: s1_def g(2))
  have "sqe_user_data (sqe (fill slot f l1) slot) = r" using f by (simp add: fill_def get_views(3) [OF g(1)])
  then show ?thesis using 1 2
    by (intro exI [of _ "s1\<lparr>ring := l, filling := None, put_log := put_log s1 @ [sqe (fill slot f l1) slot]\<rparr>"])
      (auto simp: s1_def)
qed


definition demo_ring :: "iou_loop \<Rightarrow> iou_loop" where
  "demo_ring l = l\<lparr>active_reqs := 0, ringfd := 5, sqmask := 63, cqmask := 127, sqhead := - 1, sqtail := - 1, cqhead := 0, cqtail := 0,
     in_flight := 0, reaped := [], fs_posted := []\<rparr>"

lemma demo_ring_fresh: "fresh_ring (demo_ring l)"
proof -
  have "ring_mask 63" unfolding ring_mask_def by (rule exI [of _ 6]) (simp add: mask_eq_exp_minus_1)
  moreover have "ring_mask 127" unfolding ring_mask_def by (rule exI [of _ 7]) (simp add: mask_eq_exp_minus_1)
  ultimately show ?thesis by (simp add: fresh_ring_def demo_ring_def)
qed


end
