(* ===== verification/UV_Iou_Ctl.thy ===== *)
theory UV_Iou_Ctl
  imports UV_Iou UV_Io
begin

text \<open>
  Changes to the epoll set in batches: the branch of \<open>uv__epoll_ctl_prep\<close> for io_uring and
  \<open>uv__epoll_ctl_flush\<close> of src/unix/linux.c.  A change is an entry of a ring; the kernel runs the entries
  when it is entered, in order, and posts a result for each.  The interest set is the one of \<open>UV_Io\<close>,
  where the branch without io_uring is modelled; the theorem is that both have the same effect.
\<close>

section \<open>The ring\<close>

record ctl_sqe =
  c_user_data :: u64
  c_op :: epoll_op
  c_fd :: int
  c_event :: nat

record ctl_loop = io_loop +
  c_sqhead :: u32
  c_sqtail :: u32
  c_sqmask :: u32
  c_sqe :: "nat \<Rightarrow> ctl_sqe"
  c_cqhead :: u32
  c_cqtail :: u32
  c_cqmask :: u32
  c_cqe :: "nat \<Rightarrow> u64 \<times> int"
  prep :: "nat \<Rightarrow> u32"

fun op_code :: "epoll_op \<Rightarrow> u64" where
  "op_code EPOLL_CTL_ADD = 1"
| "op_code EPOLL_CTL_DEL = 2"
| "op_code EPOLL_CTL_MOD = 3"

definition EEXIST :: int where "EEXIST = 17"
definition ENOENT :: int where "ENOENT = 2"

text \<open>The system call \<open>epoll_ctl\<close>.\<close>

definition epoll_ctl :: "epoll_op \<Rightarrow> int \<Rightarrow> u32 \<Rightarrow> (int \<Rightarrow> u32 option) \<Rightarrow> int \<times> (int \<Rightarrow> u32 option)" where
  "epoll_ctl op fd ev k =
     (case op of
        EPOLL_CTL_ADD \<Rightarrow> if k fd \<noteq> None then (- EEXIST, k) else (0, k(fd := Some ev))
      | EPOLL_CTL_DEL \<Rightarrow> if k fd = None then (- ENOENT, k) else (0, k(fd := None))
      | EPOLL_CTL_MOD \<Rightarrow> if k fd = None then (- ENOENT, k) else (0, k(fd := Some ev)))"

text \<open>\<open>io_uring_enter\<close>: \<open>n\<close> entries are run and their results posted.\<close>

fun io_uring_enter :: "nat \<Rightarrow> 'a ctl_loop_scheme \<Rightarrow> 'a ctl_loop_scheme" where
  "io_uring_enter 0 l = l"
| "io_uring_enter (Suc n) l =
     (let e = c_sqe l (ring_slot (c_sqmask l) (c_sqhead l));
          (res, k) = epoll_ctl (c_op e) (c_fd e) (prep l (c_event e)) (kernel l)
      in io_uring_enter n (l\<lparr>kernel := k, c_sqhead := c_sqhead l + 1,
           c_cqe := (c_cqe l)(ring_slot (c_cqmask l) (c_cqtail l) := (c_user_data e, res)), c_cqtail := c_cqtail l + 1\<rparr>))"

section \<open>Batches\<close>

definition user_data :: "epoll_op \<Rightarrow> nat \<Rightarrow> int \<Rightarrow> u64" where
  "user_data op slot fd = or (or (op_code op) (push_bit 2 (of_nat slot))) (push_bit 32 (of_int fd))"

definition ctl_put :: "epoll_op \<Rightarrow> int \<Rightarrow> u32 \<Rightarrow> 'a ctl_loop_scheme \<Rightarrow> 'a ctl_loop_scheme" where
  "ctl_put op fd e l =
     (let slot = ring_slot (c_sqmask l) (c_sqtail l)
      in l\<lparr>c_sqtail := c_sqtail l + 1, prep := (prep l)(slot := e),
           c_sqe := (c_sqe l)(slot := \<lparr>c_user_data = user_data op slot fd, c_op = op, c_fd = fd, c_event = slot\<rparr>)\<rparr>)"

text \<open>\<open>uv__epoll_ctl_prep\<close> flushes a full ring.  A flush may queue changes again, so the functions call each
  other; the first argument of \<open>flush\<close> bounds the depth.\<close>

definition ctl_prep :: "('a ctl_loop_scheme \<Rightarrow> 'a ctl_loop_scheme option) \<Rightarrow> epoll_op \<Rightarrow> int \<Rightarrow> u32 \<Rightarrow> 'a ctl_loop_scheme \<Rightarrow>
    'a ctl_loop_scheme option" where
  "ctl_prep flush op fd e l =
     (let l = ctl_put op fd e l
      in if and (c_sqhead l) (c_sqmask l) = and (c_sqtail l) (c_sqmask l) then flush l else Some l)"

partial_function (option) ctl_reap :: "('a ctl_loop_scheme \<Rightarrow> 'a ctl_loop_scheme option) \<Rightarrow> (nat \<Rightarrow> u32) \<Rightarrow> 'a ctl_loop_scheme \<Rightarrow>
    'a ctl_loop_scheme option" where
  "ctl_reap flush oldevents l =
     (if c_cqhead l = c_cqtail l then Some l
      else let (d, res) = c_cqe l (ring_slot (c_cqmask l) (c_cqhead l));
               l = l\<lparr>c_cqhead := c_cqhead l + 1\<rparr>;
               fd = sint (ucast (drop_bit 32 d) :: u32);
               op = and 3 d;
               oldslot = unat (and 255 (drop_bit 2 d))
           in if res = 0 then ctl_reap flush oldevents l
              else if op = op_code EPOLL_CTL_DEL then ctl_reap flush oldevents l
              else if op \<noteq> op_code EPOLL_CTL_ADD then None
              else if res \<noteq> - EEXIST then None
              else Option.bind (ctl_prep flush EPOLL_CTL_MOD fd (oldevents oldslot) l) (ctl_reap flush oldevents))"

declare ctl_reap.simps [code]

fun uv__epoll_ctl_flush :: "nat \<Rightarrow> 'a ctl_loop_scheme \<Rightarrow> 'a ctl_loop_scheme option" where
  "uv__epoll_ctl_flush 0 l = None"
| "uv__epoll_ctl_flush (Suc d) l =
     (if c_sqhead l = c_sqtail l then None
      else let l = io_uring_enter (unat (c_sqtail l - c_sqhead l)) l
           in ctl_reap (uv__epoll_ctl_flush d) (prep l) l)"

text \<open>The loop in \<open>uv__io_poll\<close> in front of \<open>epoll_pwait\<close>.\<close>

partial_function (option) flush_all :: "nat \<Rightarrow> 'a ctl_loop_scheme \<Rightarrow> 'a ctl_loop_scheme option" where
  "flush_all d l = (if c_sqhead l = c_sqtail l then Some l else Option.bind (uv__epoll_ctl_flush d l) (flush_all d))"

declare flush_all.simps [code]

section \<open>Packing\<close>

lemma word64_take_bit_id: "take_bit n (of_nat k :: u64) = of_nat k" if "k < 2 ^ n" "n \<le> 64"
  using that by (metis of_nat_take_bit take_bit_nat_eq_self)

lemma user_data_parts:
  assumes "slot < 256" and "0 \<le> fd" and "fd < 2 ^ 31"
  shows "and 3 (user_data op slot fd) = op_code op" and "unat (and 255 (drop_bit 2 (user_data op slot fd))) = slot"
    and "sint (ucast (drop_bit 32 (user_data op slot fd)) :: u32) = fd"
proof -
  have m: "(3::u64) = mask 2" "(255::u64) = mask 8" by (simp_all add: mask_eq_exp_minus_1)
  have o: "take_bit 2 (op_code op) = op_code op" "drop_bit 2 (op_code op) = 0" "drop_bit 32 (op_code op) = 0"
    by (cases op; simp)+
  have s: "take_bit 8 (of_nat slot :: u64) = of_nat slot" "drop_bit 30 (of_nat slot :: u64) = 0"
  proof -
    show t: "take_bit 8 (of_nat slot :: u64) = of_nat slot" using assms(1) by (simp add: word64_take_bit_id)
    have "drop_bit 30 (take_bit 8 (of_nat slot :: u64)) = 0" by (simp only: drop_bit_take_bit) simp
    then show "drop_bit 30 (of_nat slot :: u64) = 0" by (simp only: t)
  qed
  have p: "take_bit 8 (drop_bit 2 (push_bit 2 w)) = take_bit 8 w" "take_bit 8 (drop_bit 2 (push_bit 32 w)) = 0" for w :: u64
    by (rule bit_eqI; auto simp: bit_simps)+
  have "drop_bit 32 (push_bit 2 (take_bit 8 w)) = 0" for w :: u64
    by (rule bit_eqI) (auto simp: bit_simps)
  then have q: "drop_bit 32 (push_bit 2 (of_nat slot :: u64)) = 0" by (metis s(1))
  have c: "(ucast (drop_bit 32 (push_bit 32 (of_int fd :: u64))) :: u32) = of_int fd"
    by (rule bit_eqI) (auto simp: bit_simps)
  have "- (2 ^ 31) \<le> fd" using assms(2) by simp
  then have i: "sint (of_int fd :: u32) = fd" using assms(3) by (simp add: signed_of_int signed_take_bit_int_eq_self)
  have u: "unat (of_nat slot :: u64) = slot" using assms(1) by (simp add: unsigned_of_nat take_bit_nat_eq_self)
  show "and 3 (user_data op slot fd) = op_code op"
    unfolding m user_data_def and.commute [of "mask 2"] take_bit_eq_mask [symmetric]
    by (simp add: take_bit_or take_bit_push_bit o)
  show "unat (and 255 (drop_bit 2 (user_data op slot fd))) = slot"
    unfolding m user_data_def and.commute [of "mask 8"] take_bit_eq_mask [symmetric]
    by (simp add: drop_bit_or take_bit_or o s p u)
  show "sint (ucast (drop_bit 32 (user_data op slot fd)) :: u32) = fd"
    unfolding user_data_def
    by (simp add: drop_bit_or o q c i)
qed

section \<open>Changes one after another\<close>

type_synonym change = "epoll_op \<times> int \<times> u32"

fun ctl_seq :: "(epoll_op \<Rightarrow> int \<Rightarrow> u32 \<Rightarrow> 'l \<Rightarrow> 'l option) \<Rightarrow> change list \<Rightarrow> 'l \<Rightarrow> 'l option" where
  "ctl_seq f [] l = Some l"
| "ctl_seq f ((op, fd, ev) # cs) l = Option.bind (f op fd ev l) (ctl_seq f cs)"

definition direct1 :: "epoll_op \<Rightarrow> int \<Rightarrow> u32 \<Rightarrow> (int \<Rightarrow> u32 option) \<Rightarrow> (int \<Rightarrow> u32 option) option" where
  "direct1 op fd ev k =
     (case op of
        EPOLL_CTL_DEL \<Rightarrow> Some (k(fd := None))
      | EPOLL_CTL_ADD \<Rightarrow> Some (k(fd := Some ev))
      | EPOLL_CTL_MOD \<Rightarrow> if k fd = None then None else Some (k(fd := Some ev)))"

abbreviation direct :: "change list \<Rightarrow> (int \<Rightarrow> u32 option) \<Rightarrow> (int \<Rightarrow> u32 option) option" where
  "direct \<equiv> ctl_seq direct1"

lemma direct1_simps [simp]:
  "direct1 EPOLL_CTL_DEL fd ev k = Some (k(fd := None))"
  "direct1 EPOLL_CTL_ADD fd ev k = Some (k(fd := Some ev))"
  "direct1 EPOLL_CTL_MOD fd ev k = (if k fd = None then None else Some (k(fd := Some ev)))"
  by (simp_all add: direct1_def)

lemma ctl_seq_append: "ctl_seq f (xs @ ys) l = Option.bind (ctl_seq f xs l) (ctl_seq f ys)"
  by (induction f xs l rule: ctl_seq.induct) (auto split: bind_splits)

lemma ctl_seq_prep: "ctl_seq uv__epoll_ctl_prep cs l = map_option (\<lambda>k. l\<lparr>kernel := k\<rparr>) (direct cs (kernel l))"
proof (induction cs arbitrary: l)
  case (Cons c cs)
  obtain op fd ev where c: "c = (op, fd, ev)" by (cases c)
  have "uv__epoll_ctl_prep op fd ev l = map_option (\<lambda>k. l\<lparr>kernel := k\<rparr>) (direct1 op fd ev (kernel l))"
    by (cases op) (simp_all add: uv__epoll_ctl_prep_def)
  then show ?case by (cases "direct1 op fd ev (kernel l)") (simp_all add: c Cons.IH)
qed simp

text \<open>Entries run in one batch: the results the kernel posts, its set after them, and the entries to try again.\<close>

fun kernel_run :: "change list \<Rightarrow> (int \<Rightarrow> u32 option) \<Rightarrow> int list \<times> (int \<Rightarrow> u32 option)" where
  "kernel_run [] k = ([], k)"
| "kernel_run ((op, fd, ev) # cs) k =
     (let (res, k) = epoll_ctl op fd ev k; (rs, k) = kernel_run cs k in (res # rs, k))"

fun retries :: "change list \<Rightarrow> int list \<Rightarrow> change list" where
  "retries ((op, fd, ev) # cs) (res # rs) =
     (if op = EPOLL_CTL_ADD \<and> res \<noteq> 0 then [(EPOLL_CTL_MOD, fd, ev)] else []) @ retries cs rs"
| "retries _ _ = []"

fun acceptable :: "change \<Rightarrow> int \<Rightarrow> bool" where
  "acceptable (op, fd, ev) res \<longleftrightarrow> res = 0 \<or> op = EPOLL_CTL_DEL \<or> op = EPOLL_CTL_ADD \<and> res = - EEXIST"

text \<open>No later change to a descriptor that is added: the order the loop keeps.\<close>

fun adds_last :: "change list \<Rightarrow> bool" where
  "adds_last [] \<longleftrightarrow> True"
| "adds_last ((op, fd, ev) # cs) \<longleftrightarrow> (op = EPOLL_CTL_ADD \<longrightarrow> fd \<notin> (fst \<circ> snd) ` set cs) \<and> adds_last cs"

abbreviation mods :: "change list \<Rightarrow> bool" where
  "mods cs \<equiv> \<forall>c \<in> set cs. fst c = EPOLL_CTL_MOD"

lemma direct_frame:
  assumes "fd \<notin> (fst \<circ> snd) ` set cs"
  shows "direct cs (k(fd := v)) = map_option (\<lambda>k. k(fd := v)) (direct cs k)"
  using assms
proof (induction cs arbitrary: k)
  case (Cons c cs)
  obtain op fd' ev where c: "c = (op, fd', ev)" by (cases c)
  have n: "fd' \<noteq> fd" "fd \<notin> (fst \<circ> snd) ` set cs" using Cons.prems by (auto simp: c)
  then have "direct1 op fd' ev (k(fd := v)) = map_option (\<lambda>k. k(fd := v)) (direct1 op fd' ev k)"
    by (cases op) (auto simp: fun_upd_twist)
  then show ?case using Cons.IH [OF n(2)] by (cases "direct1 op fd' ev k") (simp_all add: c del: fun_upd_apply flip: fun_upd_def)
qed simp

lemma kernel_run_frame: "fd \<notin> (fst \<circ> snd) ` set cs \<Longrightarrow> snd (kernel_run cs k) fd = k fd"
proof (induction cs k rule: kernel_run.induct)
  case (2 op fd' ev cs k)
  then have n: "fd \<notin> (fst \<circ> snd) ` set cs" by simp
  obtain res k1 where e: "epoll_ctl op fd' ev k = (res, k1)" by fastforce
  moreover from this have "k1 fd = k fd" using 2(2) by (cases op) (auto simp: epoll_ctl_def split: if_splits)
  ultimately show ?case using 2(1) [OF e [symmetric] refl n] by (simp add: split_beta Let_def)
qed simp

lemma length_kernel_run [simp]: "length (fst (kernel_run cs k)) = length cs"
  by (induction cs arbitrary: k) (auto simp: split_beta Let_def)

lemma retries_fds: "(fst \<circ> snd) ` set (retries cs rs) \<subseteq> (fst \<circ> snd) ` set cs"
  by (induction cs rs rule: retries.induct) auto

lemma retries_mods: "mods (retries cs rs)"
  by (induction cs rs rule: retries.induct) auto

lemma mods_adds_last: "mods cs \<Longrightarrow> adds_last cs"
  by (induction cs) auto

lemma length_retries: "length (retries cs rs) \<le> length cs"
  by (induction cs rs rule: retries.induct) auto

lemma mods_retries: "mods cs \<Longrightarrow> retries cs rs = []"
  by (induction cs rs rule: retries.induct) auto

text \<open>The entries that are tried again complete the effect of the batch.\<close>

lemma batch_completed:
  assumes "direct cs k = Some K" and "adds_last cs"
  shows "direct (retries cs (fst (kernel_run cs k))) (snd (kernel_run cs k)) = Some K"
    and "list_all2 acceptable cs (fst (kernel_run cs k))"
proof -
  have "direct (retries cs (fst (kernel_run cs k))) (snd (kernel_run cs k)) = Some K
      \<and> list_all2 acceptable cs (fst (kernel_run cs k))"
    using assms
  proof (induction cs arbitrary: k K)
    case (Cons c cs)
    obtain op fd ev where c: "c = (op, fd, ev)" by (cases c)
    obtain res k1 where e: "epoll_ctl op fd ev k = (res, k1)" by fastforce
    have l: "adds_last cs" using Cons.prems(2) by (simp add: c)
    show ?case
    proof (cases "op = EPOLL_CTL_ADD \<and> k fd \<noteq> None")
      case True
      then have e': "res = - EEXIST" "k1 = k" "res \<noteq> 0" using e by (auto simp: epoll_ctl_def EEXIST_def)
      have n: "fd \<notin> (fst \<circ> snd) ` set cs" using Cons.prems(2) True by (simp add: c)
      have "direct cs (k(fd := Some ev)) = Some K" using Cons.prems(1) True by (simp add: c)
      then obtain K' where K: "direct cs k = Some K'" "K = K'(fd := Some ev)" using direct_frame [OF n] by auto
      let ?rs = "fst (kernel_run cs k)" let ?k = "snd (kernel_run cs k)"
      have ih: "direct (retries cs ?rs) ?k = Some K'" "list_all2 acceptable cs ?rs" using Cons.IH [OF K(1) l] by auto
      have "fd \<notin> (fst \<circ> snd) ` set (retries cs ?rs)" using n retries_fds by blast
      then have "direct (retries cs ?rs) (?k(fd := Some ev)) = Some K" using direct_frame ih(1) K(2) by simp
      moreover have "?k fd \<noteq> None" using kernel_run_frame [OF n] True by simp
      ultimately show ?thesis using True e e' ih(2) by (simp add: c split_beta Let_def)
    next
      case False
      have d: "direct1 op fd ev k = Some k1 \<and> (res = 0 \<or> op = EPOLL_CTL_DEL)" if "direct1 op fd ev k \<noteq> None"
        using that False e by (cases op) (auto simp: epoll_ctl_def split: if_splits)
      have "direct1 op fd ev k \<noteq> None" using Cons.prems(1) by (cases "direct1 op fd ev k") (simp_all add: c)
      then have d: "direct1 op fd ev k = Some k1" "res = 0 \<or> op = EPOLL_CTL_DEL" using d by auto
      then have "direct cs k1 = Some K" using Cons.prems(1) by (simp add: c)
      then show ?thesis using Cons.IH [OF _ l] d(2) e by (auto simp: c split_beta Let_def)
    qed
  qed simp
  then show "direct (retries cs (fst (kernel_run cs k))) (snd (kernel_run cs k)) = Some K"
    and "list_all2 acceptable cs (fst (kernel_run cs k))" by auto
qed

section \<open>What the rings hold\<close>

definition changes :: "'a ctl_loop_scheme \<Rightarrow> nat \<Rightarrow> change option" where
  "changes l s =
     (let e = c_sqe l s
      in if c_event e = s \<and> c_user_data e = user_data (c_op e) s (c_fd e) then Some (c_op e, c_fd e, prep l s) else None)"

definition in_range :: "change \<Rightarrow> bool" where
  "in_range c \<longleftrightarrow> 0 \<le> fst (snd c) \<and> fst (snd c) < 2 ^ 31"

text \<open>\<open>b\<close> is the part of the loop that is not the ring, \<open>k\<close> the interest set, \<open>cs\<close> the queued changes.\<close>

definition ring :: "io_loop \<Rightarrow> 'a ctl_loop_scheme \<Rightarrow> change list \<Rightarrow> (int \<Rightarrow> u32 option) \<Rightarrow> bool" where
  "ring b l cs k \<longleftrightarrow>
     c_sqmask l = 255 \<and> c_cqmask l = 511 \<and> holds 255 (changes l) (c_sqhead l) (c_sqtail l) (map Some cs)
     \<and> kernel l = k \<and> io_loop.truncate l = b\<lparr>kernel := k\<rparr> \<and> (\<forall>c \<in> set cs. in_range c)"

definition posted_by :: "(nat \<Rightarrow> u32) \<Rightarrow> change \<Rightarrow> int \<Rightarrow> u64 \<times> int \<Rightarrow> bool" where
  "posted_by old c res e \<longleftrightarrow>
     (\<exists>slot<256. e = (user_data (fst c) slot (fst (snd c)), res) \<and> old slot = snd (snd c)) \<and> in_range c"

abbreviation all_posted :: "(nat \<Rightarrow> u32) \<Rightarrow> change list \<Rightarrow> int list \<Rightarrow> (u64 \<times> int) list \<Rightarrow> bool" where
  "all_posted old cs rs \<equiv> list_all2 (\<lambda>(c, r). posted_by old c r) (zip cs rs)"

abbreviation holds_done :: "'a ctl_loop_scheme \<Rightarrow> (u64 \<times> int) list \<Rightarrow> bool" where
  "holds_done l \<equiv> holds 511 (c_cqe l) (c_cqhead l) (c_cqtail l)"

lemma changes_cong: "c_sqe l = c_sqe m \<Longrightarrow> prep l = prep m \<Longrightarrow> changes l = changes m"
  by (rule ext) (simp add: changes_def Let_def)

lemma ring_masks: "ring_mask 255" "ring_mask 511"
  unfolding ring_mask_def by (rule exI [of _ 8], simp add: mask_eq_exp_minus_1, rule exI [of _ 9], simp add: mask_eq_exp_minus_1)

lemma slot_less: "ring_slot 255 x < 256"
proof -
  have "ring_slot (mask 8) (x + of_nat 0) = (unat x + 0) mod 2 ^ 8" by (rule ring_slot_mod) simp
  then show ?thesis by (simp add: mask_eq_exp_minus_1)
qed

lemma ring_put:
  assumes "ring b l cs k" and "in_range (op, fd, ev)" and "length cs < 256"
  shows "ring b (ctl_put op fd ev l) (cs @ [(op, fd, ev)]) k"
proof -
  let ?slot = "ring_slot 255 (c_sqtail l)"
  have m: "c_sqmask l = 255" using assms(1) by (simp add: ring_def)
  have "changes (ctl_put op fd ev l) = (changes l)(?slot := Some (op, fd, ev))"
    by (rule ext) (simp add: changes_def ctl_put_def Let_def m)
  moreover have "holds 255 ((changes l)(?slot := Some (op, fd, ev))) (c_sqhead l) (c_sqtail l + 1) (map Some cs @ [Some (op, fd, ev)])"
    using assms by (intro holds_push ring_masks) (simp_all add: ring_def)
  ultimately show ?thesis using assms by (auto simp: ring_def ctl_put_def Let_def io_loop.truncate_def)
qed

lemma ring_full:
  assumes "ring b l cs k" and "0 < length cs" and "length cs \<le> 256"
  shows "and (c_sqhead l) (c_sqmask l) = and (c_sqtail l) (c_sqmask l) \<longleftrightarrow> length cs = 256"
proof -
  have t: "c_sqtail l = c_sqhead l + of_nat (length cs)" and m: "c_sqmask l = mask 8"
    using assms(1) holds_end [of 255 "changes l" "c_sqhead l" "c_sqtail l" "map Some cs"]
    by (simp_all add: ring_def mask_eq_exp_minus_1)
  have "and (c_sqhead l) (c_sqmask l) = and (c_sqtail l) (c_sqmask l)
      \<longleftrightarrow> ring_slot (mask 8) (c_sqhead l + of_nat 0) = ring_slot (mask 8) (c_sqhead l + of_nat (length cs))"
    by (simp add: ring_slot_def word_unat_eq_iff t m)
  also have "\<dots> \<longleftrightarrow> unat (c_sqhead l) mod 256 = (unat (c_sqhead l) + length cs) mod 256"
    by (subst (1 2) ring_slot_mod) simp_all
  also have "\<dots> \<longleftrightarrow> 256 dvd length cs"
    using mod_eq_dvd_iff_nat [of "unat (c_sqhead l)" "unat (c_sqhead l) + length cs" 256] by auto
  also have "\<dots> \<longleftrightarrow> length cs = 256" using assms(2,3) dvd_imp_le [of 256 "length cs"] by auto
  finally show ?thesis .
qed

lemma ring_empty: "ring b l cs k \<Longrightarrow> c_sqhead l = c_sqtail l \<longleftrightarrow> cs = []"
  using holds_empty [of 255 "changes l" "c_sqhead l" "c_sqtail l" "map Some cs"] by (simp add: ring_def)

lemma ring_length: "ring b l cs k \<Longrightarrow> unat (c_sqtail l - c_sqhead l) = length cs"
  by (simp add: ring_def holds_def)

lemma ctl_prep_put:
  assumes "ring b l cs k" and "in_range (op, fd, ev)" and "length cs < 256"
  shows "ctl_prep F op fd ev l = (if length cs = 255 then F (ctl_put op fd ev l) else Some (ctl_put op fd ev l))"
  using ring_full [OF ring_put [OF assms]] assms(3) by (simp add: ctl_prep_def)

lemma ring_enter:
  assumes "ring b l cs k" and "holds_done l es" and "length es + length cs \<le> 511"
  shows "\<exists>es'. ring b (io_uring_enter (length cs) l) [] (snd (kernel_run cs k))
    \<and> prep (io_uring_enter (length cs) l) = prep l
    \<and> holds_done (io_uring_enter (length cs) l) (es @ es') \<and> all_posted (prep l) cs (fst (kernel_run cs k)) es'"
  using assms
proof (induction cs arbitrary: l k es)
  case (Cons c cs)
  obtain op fd ev where c: "c = (op, fd, ev)" by (cases c)
  obtain res k1 where e: "epoll_ctl op fd ev k = (res, k1)" by fastforce
  let ?s = "ring_slot 255 (c_sqhead l)"
  let ?l = "l\<lparr>kernel := k1, c_sqhead := c_sqhead l + 1,
      c_cqe := (c_cqe l)(ring_slot (c_cqmask l) (c_cqtail l) := (c_user_data (c_sqe l ?s), res)), c_cqtail := c_cqtail l + 1\<rparr>"
  have h: "holds 255 (changes l) (c_sqhead l) (c_sqtail l) (Some c # map Some cs)"
    and m: "c_sqmask l = 255" "c_cqmask l = 511" "kernel l = k" using Cons.prems(1) by (simp_all add: ring_def)
  have "changes l ?s = Some c" using holds_head(1) [OF h] .
  then have s: "c_op (c_sqe l ?s) = op" "c_fd (c_sqe l ?s) = fd" "prep l (c_event (c_sqe l ?s)) = ev"
      "prep l ?s = ev" "c_user_data (c_sqe l ?s) = user_data op ?s fd"
    by (auto simp: changes_def c Let_def split: if_splits)
  have l: "io_uring_enter (length (c # cs)) l = io_uring_enter (length cs) ?l"
    by (simp add: Let_def m s e)
  have "changes ?l = changes l" by (rule changes_cong) simp_all
  moreover have t: "io_loop.truncate ?l = (io_loop.truncate l)\<lparr>kernel := k1\<rparr>" by (simp add: io_loop.truncate_def)
  ultimately have r: "ring b ?l cs k1"
    using Cons.prems(1) holds_head(2) [OF h] t by (simp add: ring_def)
  let ?e = "(user_data op ?s fd, res)"
  have "holds 511 ((c_cqe l)(ring_slot 511 (c_cqtail l) := ?e)) (c_cqhead l) (c_cqtail l + 1) (es @ [?e])"
    using Cons.prems(2,3) by (intro holds_push ring_masks) simp_all
  then have d: "holds_done ?l (es @ [?e])" by (simp add: m s)
  have "length (es @ [?e]) + length cs \<le> 511" using Cons.prems(3) by simp
  from Cons.IH [OF r d this] obtain es' where
    es': "ring b (io_uring_enter (length cs) ?l) [] (snd (kernel_run cs k1))" "prep (io_uring_enter (length cs) ?l) = prep l"
      "holds_done (io_uring_enter (length cs) ?l) (es @ ?e # es')" "all_posted (prep l) cs (fst (kernel_run cs k1)) es'"
    by auto
  have "in_range c" using Cons.prems(1) by (simp add: ring_def)
  then have "posted_by (prep l) c res ?e" using slot_less s(4) by (auto simp: posted_by_def c)
  then have "all_posted (prep l) (c # cs) (fst (kernel_run (c # cs) k)) (?e # es')"
    using es'(4) by (simp add: c e split_beta Let_def)
  moreover have "snd (kernel_run (c # cs) k) = snd (kernel_run cs k1)" by (simp add: c e split_beta Let_def)
  ultimately show ?case unfolding l using es'(1-3) by metis
qed simp

lemma ctl_reap_done: "ctl_reap F old l = Some l" if "holds_done l []"
proof -
  have "c_cqhead l = c_cqtail l" using holds_empty [OF that] by simp
  then show ?thesis by (subst ctl_reap.simps) simp
qed

lemma ctl_reap_next:
  assumes d: "holds_done l (e # es)" and p: "posted_by old (op, fd, ev) res e" and m: "c_cqmask l = 511"
    and a: "acceptable (op, fd, ev) res"
  shows "ctl_reap F old l =
    (let l = l\<lparr>c_cqhead := c_cqhead l + 1\<rparr>
     in if op = EPOLL_CTL_ADD \<and> res \<noteq> 0 then Option.bind (ctl_prep F EPOLL_CTL_MOD fd ev l) (ctl_reap F old) else ctl_reap F old l)"
    and "holds_done (l\<lparr>c_cqhead := c_cqhead l + 1\<rparr>) es"
proof -
  show "holds_done (l\<lparr>c_cqhead := c_cqhead l + 1\<rparr>) es" using holds_head(2) [OF d] by simp
  have n: "c_cqhead l \<noteq> c_cqtail l" using holds_empty [OF d] by simp
  obtain slot where s: "slot < 256" "e = (user_data op slot fd, res)" "old slot = ev" "0 \<le> fd" "fd < 2 ^ 31"
    using p by (auto simp: posted_by_def in_range_def)
  note u = user_data_parts [OF s(1,4,5)]
  have o: "op_code op = op_code EPOLL_CTL_DEL \<longleftrightarrow> op = EPOLL_CTL_DEL" "op_code op = op_code EPOLL_CTL_ADD \<longleftrightarrow> op = EPOLL_CTL_ADD"
    by (cases op; simp)+
  show "ctl_reap F old l =
    (let l = l\<lparr>c_cqhead := c_cqhead l + 1\<rparr>
     in if op = EPOLL_CTL_ADD \<and> res \<noteq> 0 then Option.bind (ctl_prep F EPOLL_CTL_MOD fd ev l) (ctl_reap F old) else ctl_reap F old l)"
    using a by (subst ctl_reap.simps) (auto simp: n m holds_head(1) [OF d] s u o Let_def)
qed

lemma truncate_cqhead: "io_loop.truncate (l\<lparr>c_cqhead := x\<rparr>) = io_loop.truncate l"
  by (simp add: io_loop.truncate_def)

lemma ring_take_done: "ring b l cs k \<Longrightarrow> ring b (l\<lparr>c_cqhead := x\<rparr>) cs k"
  using changes_cong [of "l\<lparr>c_cqhead := x\<rparr>" l] by (simp add: ring_def truncate_cqhead)

lemma holds_done_put: "holds_done (ctl_put op fd ev l) es \<longleftrightarrow> holds_done l es"
  by (simp add: ctl_put_def Let_def)

text \<open>The loop over the results queues the retries; only the 256th fills the ring, and by then no result is left.\<close>

lemma reap_retries:
  assumes "ring b l q k" and "holds_done l es" and "all_posted old cs rs es" and "list_all2 acceptable cs rs"
    and "length q + length cs \<le> 256" and "length q < 256"
    and "\<And>l'. ring b l' (q @ retries cs rs) k \<Longrightarrow> holds_done l' [] \<Longrightarrow> length (q @ retries cs rs) = 256
      \<Longrightarrow> \<exists>l''. F l' = Some l'' \<and> P l'' \<and> holds_done l'' []"
    and "\<And>l'. ring b l' (q @ retries cs rs) k \<Longrightarrow> holds_done l' [] \<Longrightarrow> length (q @ retries cs rs) < 256 \<Longrightarrow> P l'"
  shows "\<exists>l'. ctl_reap F old l = Some l' \<and> P l' \<and> holds_done l' []"
  using assms
proof (induction cs arbitrary: q rs es l)
  case Nil
  then have "es = []" "rs = []" by (simp_all add: list_all2_iff)
  then have d: "holds_done l []" and "P l" using Nil by auto
  then show ?case using ctl_reap_done [OF d] by auto
next
  case (Cons c cs)
  obtain op fd ev where c: "c = (op, fd, ev)" by (cases c)
  obtain res rs' where rs: "rs = res # rs'" using Cons.prems(4) by (auto simp: list_all2_Cons1)
  obtain e es' where es: "es = e # es'" using Cons.prems(3) by (auto simp: rs list_all2_Cons1)
  let ?l = "l\<lparr>c_cqhead := c_cqhead l + 1\<rparr>"
  have p: "posted_by old (op, fd, ev) res e" "all_posted old cs rs' es'" using Cons.prems(3) by (simp_all add: rs es c)
  have a: "acceptable (op, fd, ev) res" "list_all2 acceptable cs rs'" using Cons.prems(4) by (simp_all add: rs c)
  have m: "c_cqmask l = 511" using Cons.prems(1) by (simp add: ring_def)
  note n = ctl_reap_next [OF Cons.prems(2) [unfolded es] p(1) m a(1)]
  have r: "ring b ?l q k" by (rule ring_take_done [OF Cons.prems(1)])
  show ?case
  proof (cases "op = EPOLL_CTL_ADD \<and> res \<noteq> 0")
    case False
    then have "retries (c # cs) rs = retries cs rs'" by (simp add: c rs)
    then show ?thesis using False Cons.IH [OF r n(2) p(2) a(2)] Cons.prems(5-8) n(1) by (auto simp: Let_def)
  next
    case True
    let ?c = "(EPOLL_CTL_MOD, fd, ev)" and ?p = "ctl_put EPOLL_CTL_MOD fd ev ?l"
    have i: "in_range ?c" using p(1) by (simp add: posted_by_def in_range_def)
    have t: "retries (c # cs) rs = ?c # retries cs rs'" using True by (simp add: c rs)
    have r': "ring b ?p (q @ [?c]) k" by (rule ring_put [OF r i Cons.prems(6)])
    have d: "holds_done ?p es'" unfolding holds_done_put by (rule n(2))
    note f = ctl_prep_put [OF r i Cons.prems(6), of F]
    show ?thesis
    proof (cases "length q = 255")
      case False
      then have "length (q @ [?c]) + length cs \<le> 256" "length (q @ [?c]) < 256" using Cons.prems(5,6) by simp_all
      from Cons.IH [OF r' d p(2) a(2) this] Cons.prems(7,8) show ?thesis using False True f n(1) by (simp add: t Let_def)
    next
      case full: True
      then have e: "cs = []" "rs' = []" "es' = []" using Cons.prems(5) a(2) p(2) by simp_all
      obtain l'' where l'': "F ?p = Some l''" "P l''" "holds_done l'' []"
        using Cons.prems(7) [of ?p] r' d full True by (auto simp: c rs e)
      then show ?thesis using True f n(1) full ctl_reap_done [OF l''(3), of F old] by (auto simp: Let_def)
    qed
  qed
qed

section \<open>Flushing\<close>

text \<open>What is still queued leads to the result \<open>K\<close>.\<close>

definition leads_to :: "(int \<Rightarrow> u32 option) \<Rightarrow> io_loop \<Rightarrow> change list \<Rightarrow> 'a ctl_loop_scheme \<Rightarrow> bool" where
  "leads_to K b cs l \<longleftrightarrow> (\<exists>k. ring b l cs k \<and> direct cs k = Some K) \<and> holds_done l [] \<and> adds_last cs"

lemma flush_round:
  fixes l :: "'a ctl_loop_scheme"
  assumes "leads_to K b cs l" and "cs \<noteq> []" and "length cs \<le> 256"
    and nested: "\<And>(l' :: 'a ctl_loop_scheme) q. leads_to K b q l' \<Longrightarrow> mods q \<Longrightarrow> length q = 256 \<Longrightarrow> \<not> mods cs \<Longrightarrow>
      \<exists>l''. uv__epoll_ctl_flush d l' = Some l'' \<and> leads_to K b [] l''"
  shows "\<exists>l' q. uv__epoll_ctl_flush (Suc d) l = Some l' \<and> leads_to K b q l' \<and> mods q \<and> length q < 256 \<and> (mods cs \<longrightarrow> q = [])"
proof -
  obtain k where r: "ring b l cs k" and k: "direct cs k = Some K" and d: "holds_done l []" and a: "adds_last cs"
    using assms(1) by (auto simp: leads_to_def)
  let ?l = "io_uring_enter (length cs) l" and ?rs = "fst (kernel_run cs k)" and ?k = "snd (kernel_run cs k)"
  let ?q = "retries cs ?rs"
  note c = batch_completed [OF k a]
  obtain es where e: "ring b ?l [] ?k" "prep ?l = prep l" "holds_done ?l es" "all_posted (prep ?l) cs ?rs es"
    using ring_enter [OF r d] assms(3) by auto
  let ?P = "\<lambda>l'. \<exists>q. leads_to K b q l' \<and> mods q \<and> length q < 256 \<and> (mods cs \<longrightarrow> q = [])"
  have q: "mods ?q" "adds_last ?q" "mods cs \<Longrightarrow> ?q = []"
    using retries_mods mods_adds_last [OF retries_mods] mods_retries by auto
  have w: "leads_to K b ?q l'" if "ring b l' ([] @ ?q) ?k" "holds_done l' []" for l' :: "'a ctl_loop_scheme"
    unfolding leads_to_def using that c(1) q(2) by auto
  have "\<exists>l'. ctl_reap (uv__epoll_ctl_flush d) (prep ?l) ?l = Some l' \<and> ?P l' \<and> holds_done l' []"
  proof (rule reap_retries [OF e(1,3,4) c(2)])
    show "\<exists>l''. uv__epoll_ctl_flush d l' = Some l'' \<and> ?P l'' \<and> holds_done l'' []"
      if t: "ring b l' ([] @ ?q) ?k" "holds_done l' []" "length ([] @ ?q) = 256" for l' :: "'a ctl_loop_scheme"
    proof -
      have "\<not> mods cs" using t(3) q(3) by (cases "mods cs") auto
      then obtain l'' where l'': "uv__epoll_ctl_flush d l' = Some l''" "leads_to K b [] l''"
        using nested [OF w [OF t(1,2)] q(1)] t(3) by auto
      moreover have "?P l''" using l''(2) by (intro exI [of _ "[]"]) simp
      moreover have "holds_done l'' []" using l''(2) by (simp add: leads_to_def)
      ultimately show ?thesis by blast
    qed
    show "?P l'" if "ring b l' ([] @ ?q) ?k" "holds_done l' []" "length ([] @ ?q) < 256" for l' :: "'a ctl_loop_scheme"
      using w [OF that(1,2)] q that(3) by (intro exI [of _ ?q]) simp
  qed (use assms(3) in simp_all)
  then show ?thesis using ring_empty [OF r] ring_length [OF r] assms(2) by (auto simp: Let_def)
qed

lemma flush_mods:
  assumes "leads_to K b cs l" and "mods cs" and "cs \<noteq> []" and "length cs \<le> 256"
  shows "\<exists>l'. uv__epoll_ctl_flush (Suc d) l = Some l' \<and> leads_to K b [] l'"
  using flush_round [OF assms(1,3,4)] assms(2) by blast

lemma flush_leads:
  assumes "leads_to K b cs l" and "cs \<noteq> []" and "length cs \<le> 256"
  shows "\<exists>l' q. uv__epoll_ctl_flush (Suc (Suc d)) l = Some l' \<and> leads_to K b q l' \<and> mods q \<and> length q < 256
    \<and> (mods cs \<longrightarrow> q = [])"
proof (rule flush_round [OF assms])
  show "\<exists>l''. uv__epoll_ctl_flush (Suc d) l' = Some l'' \<and> leads_to K b [] l''"
    if "leads_to K b q l'" "mods q" "length q = 256" for l' q
    using that by (intro flush_mods) auto
qed

lemma flush_all_empty: "leads_to K b [] l \<Longrightarrow> flush_all d l = Some l"
  using ring_empty by (subst flush_all.simps) (fastforce simp: leads_to_def)

lemma flush_all_step: "leads_to K b cs l \<Longrightarrow> cs \<noteq> [] \<Longrightarrow> flush_all d l = Option.bind (uv__epoll_ctl_flush d l) (flush_all d)"
  using ring_empty by (subst flush_all.simps) (fastforce simp: leads_to_def)

lemma flush_all_mods:
  assumes "leads_to K b cs l" and "mods cs" and "length cs < 256"
  shows "\<exists>l'. flush_all (Suc (Suc d)) l = Some l' \<and> leads_to K b [] l'"
proof (cases "cs = []")
  case True
  then show ?thesis using assms(1) flush_all_empty by blast
next
  case False
  then obtain l' where "uv__epoll_ctl_flush (Suc (Suc d)) l = Some l'" "leads_to K b [] l'"
    using flush_mods [OF assms(1,2), of "Suc d"] assms(3) by auto
  then show ?thesis using flush_all_step [OF assms(1) False] flush_all_empty [of K b l'] by simp
qed

lemma flush_all_leads:
  assumes "leads_to K b cs l" and "length cs < 256"
  shows "\<exists>l'. flush_all (Suc (Suc d)) l = Some l' \<and> leads_to K b [] l'"
proof (cases "cs = []")
  case True
  then show ?thesis using assms(1) flush_all_empty by blast
next
  case False
  then obtain l1 q where "uv__epoll_ctl_flush (Suc (Suc d)) l = Some l1" and q: "leads_to K b q l1" "mods q" "length q < 256"
    using flush_leads [OF assms(1), of d] assms(2) by auto
  then show ?thesis using flush_all_step [OF assms(1) False] flush_all_mods [OF q] by simp
qed

section \<open>Queueing\<close>

lemma mods_append_adds_last: "mods xs \<Longrightarrow> adds_last ys \<Longrightarrow> adds_last (xs @ ys)"
  by (induction xs) auto

lemma adds_last_append: "adds_last (xs @ ys) \<Longrightarrow> adds_last xs \<and> adds_last ys"
  by (induction xs) auto

lemma ctl_queue_all:
  fixes l :: "'a ctl_loop_scheme"
  assumes "leads_to M b q l" and "length q < 256" and "adds_last (q @ cs)" and "\<forall>c \<in> set cs. in_range c" and "direct cs M = Some K"
  shows "\<exists>l' q'. ctl_seq (ctl_prep (uv__epoll_ctl_flush (Suc (Suc d)))) cs l = Some l' \<and> leads_to K b q' l' \<and> length q' < 256"
  using assms
proof (induction cs arbitrary: q l M)
  case (Cons c cs)
  let ?F = "uv__epoll_ctl_flush (Suc (Suc d)) :: 'a ctl_loop_scheme \<Rightarrow> 'a ctl_loop_scheme option"
  obtain op fd ev where c: "c = (op, fd, ev)" by (cases c)
  obtain k where r: "ring b l q k" "direct q k = Some M" "holds_done l []" using Cons.prems(1) by (auto simp: leads_to_def)
  have i: "in_range (op, fd, ev)" "\<forall>c \<in> set cs. in_range c" using Cons.prems(4) by (simp_all add: c)
  obtain M' where M': "direct1 op fd ev M = Some M'" "direct cs M' = Some K"
    using Cons.prems(5) by (auto simp: c split: bind_splits)
  have a: "adds_last (q @ [c])" "adds_last ((q @ [c]) @ cs)" using adds_last_append [of "q @ [c]" cs] Cons.prems(3) by auto
  have "direct (q @ [c]) k = Some M'" using r(2) M'(1) by (simp add: ctl_seq_append c)
  then have put: "leads_to M' b (q @ [c]) (ctl_put op fd ev l)"
    using ring_put [OF r(1) i(1) Cons.prems(2)] r(3) a(1) by (auto simp: leads_to_def holds_done_put c)
  note f = ctl_prep_put [OF r(1) i(1) Cons.prems(2), of ?F]
  show ?case
  proof (cases "length q = 255")
    case False
    then have "length (q @ [c]) < 256" using Cons.prems(2) by simp
    from Cons.IH [OF put this a(2) i(2) M'(2)] show ?thesis using f False by (simp add: c del: uv__epoll_ctl_flush.simps)
  next
    case True
    then obtain l1 q1 where l1: "?F (ctl_put op fd ev l) = Some l1" "leads_to M' b q1 l1" "mods q1" "length q1 < 256"
      using flush_leads [OF put, of d] by auto
    have "adds_last (q1 @ cs)" using mods_append_adds_last [OF l1(3)] adds_last_append [OF a(2)] by blast
    from Cons.IH [OF l1(2,4) this i(2) M'(2)] show ?thesis using f True l1(1) by (simp add: c del: uv__epoll_ctl_flush.simps)
  qed
qed (use assms in auto)


definition demo_ctl :: "ctl_loop \<Rightarrow> ctl_loop" where
  "demo_ctl l = l\<lparr>c_sqmask := 255, c_cqmask := 511, c_sqhead := 7, c_sqtail := 7, c_cqhead := 9, c_cqtail := 9,
     kernel := [4 \<mapsto> 1]\<rparr>"


end
