(* ===== verification/Spec2Isabelle.thy ===== *)
theory Spec2Isabelle
  imports UV_Queue UV_Errtext UV_Inet UV_Core UV_Idna UV_Threadpool UV_Stream_Client UV_Udp_Props UV_Udp_Opts UV_Sync UV_Win_Path UV_Win_Env UV_Iou_Ctl
begin

text \<open>
  \<^bold>\<open>The program.\<close>  The repository holds small C programs around one large one: libuv 1.48.0, the event
  loop library under src/myCore/network/socket/libuv/libuv-1.48.0_x86 (all file names below are
  relative to it).  A loop keeps handles (timers, watchers, streams) and counts those that are active
  and referenced together with the requests in flight; \<open>uv_run\<close> goes round while the count is not zero:
  it runs due timers, pending callbacks, idle and prepare handles, polls epoll for at most the time to
  the next timer, runs check handles and finishes the handles being closed.  Other threads reach the
  loop through async handles; the thread pool uses one to hand back finished work.

  \<^bold>\<open>Conventions.\<close>  A C struct is a record, a pointer to it an address (\<open>addr\<close>), and its fields are maps
  from addresses in the record of the loop; the record of each component extends the one below it, in
  the order \<open>uv_loop\<close> (UV_Handle), \<open>timer_loop\<close>, \<open>io_loop\<close>, \<open>watcher_loop\<close>, \<open>poll_state\<close>, \<open>core_loop\<close>,
  \<open>async_loop\<close>, \<open>stream_loop\<close>, \<open>udp_loop\<close> (\<open>iou_loop\<close> extends \<open>uv_loop\<close>, \<open>ctl_loop\<close> extends \<open>io_loop\<close>), so that an operation of a low component runs unchanged on the whole loop.
  Integers keep their width (\<open>u8\<close> to \<open>u64\<close>, signed values as \<open>int\<close> where they cannot overflow).  A failed
  assertion, a null pointer and an access outside a buffer are \<open>None\<close>; an error code is \<open>Inl\<close> of it.
  Kernel answers and callbacks are functions passed in: a callback may make any call the interface
  allows, and the theorems quantify over all of them.

  \<^bold>\<open>Theories, in the order of the code's layers.\<close>

  \<^item> UV_Prelude: shared types, results and lemmas.
  \<^item> UV_Queue (src/queue.h): the intrusive list, store by store; every operation refines the operation on
    lists, which is why later theories hold a queue as the list of its elements.
  \<^item> UV_Heap_Tree, UV_Heap (src/heap-inl.h): the pointer heap, the tree algorithms it performs, and the
    refinement: order, shape, set of elements and height.
  \<^item> UV_Errno, UV_Errtext (include/uv/errno.h, the error functions of src/uv-common.c, src/win/error.c):
    numbers, names and messages, translations, and the texts in a caller's buffer.
  \<^item> UV_Str (src/strscpy.c, src/strtok.c), UV_Inet (src/inet.c): bounded copies and tokens; parsing and
    printing of addresses, with the round trips.
  \<^item> UV_Wtf8, UV_Idna (src/idna.c): the converters between UTF-16 and WTF-8, the UTF-8 decoder, Punycode.
  \<^item> UV_Handle (src/uv-common.h, src/uv-common.c): flags, reference counting, the walk over handles.
  \<^item> UV_Timer (src/timer.c): timers on the pointer heap; safety of all histories, order, deadlines.
  \<^item> UV_Io (watchers of src/unix/core.c, epoll of src/unix/linux.c), UV_Watcher
    (src/unix/loop-watcher.c), UV_Poll (src/unix/poll.c): the watcher table, the kernel's interest set
    and what a poll delivers; prepare, check and idle passes; poll handles.
  \<^item> UV_Core (src/unix/core.c): closing, pending callbacks and \<open>uv_run\<close>.
  \<^item> UV_Threadpool (src/threadpool.c), UV_Async (src/unix/async.c): threads as step relations, every
    atomic section one step; work is done once and never lost, and no wake-up is lost.
  \<^item> UV_Stream (src/unix/stream.c), UV_Tcp (src/unix/tcp.c): streams and TCP handles.  UV_Stream_Inv
    states the invariant (counts, queue sizes, order of requests, bytes on the wire), UV_Stream_Run,
    UV_Stream_Api, UV_Stream_Close and UV_Stream_Tcp show that every operation succeeds and keeps it,
    UV_Stream_Client composes them: any client program, kernel and sequence of events.
  \<^item> UV_Udp (src/unix/udp.c and the checks of src/uv-common.c): UDP handles, the paths through
    \<open>sendmmsg\<close> and \<open>recvmmsg\<close>, closing.  UV_Udp_Inv states the invariant, UV_Udp_Run shows that the
    events, UV_Udp_Api that the calls and UV_Udp_Opts that the socket options keep it, UV_Udp_Client
    composes them, and UV_Udp_Props holds the properties and a run after which a closed handle is still
    in the queue of pending watchers.
  \<^item> UV_Sync (src/unix/thread.c, src/thread-common.c): barrier and semaphore over mutexes and
    conditions, as step relations of threads.
  \<^item> UV_Iou, UV_Iou_Ctl (src/unix/linux.c): the submission and completion rings of file operations, and
    the batches of epoll changes, which give the interest set that direct calls would.
  \<^item> UV_Win_Args, UV_Win_Path, UV_Win_Env (src/win/process.c): quoting of arguments, the search for the
    program and the environment block.

  \<^bold>\<open>Interfaces.\<close>  Each use of one component by another is a locale with the provider's laws, interpreted on
  the model's own operations; for example \<open>contract\<close> in UV_Stream_Client is what a client may rely on,
  interpreted on the calls of the library (\<open>client\<close>) and on the events of a loop (\<open>loop\<close>); UDP handles
  interpret it again (\<open>uclient\<close>, \<open>uloop\<close>).

  \<^bold>\<open>Loops and bounds.\<close>  Loops over a list are structural.  Loops that the kernel can prolong are
  \<open>partial_function (option)\<close> and are shown to end: a retry after \<open>EINTR\<close> ends when the kernel stops
  interrupting (\<open>uninterrupted\<close>), the writing pass finishes at most 33 requests (the budget 32 and the
  one being written), a reading pass reads at most 32 times (of UDP, 32 messages before the budget is checked again, at most 20 in one
  system call, when the buffers hold a datagram), a poll dispatches at most 48 full rounds
  (48 is the source's constant).  A 32-bit counter (of heap elements, handles or requests) is bounded by the
  number of objects that exist, a premise of the calls that create one.

  \<^bold>\<open>Not modelled.\<close>  Windows (src/win) apart from its error translation and the starting of processes, and
  the other Unix systems: their state is the kernel's (completion ports, kqueue, event ports).  Files,
  processes, signals, pipes, terminals, name lookup and random numbers on Linux: mostly one system call
  behind the request and handle machinery that is modelled here.  The parsing of /proc.  Tests,
  documentation, build files, and the demonstration programs of the repository, which have no logic of
  their own.
\<close>

end
